(* ===== verification/Prelude.thy ===== *)
theory Prelude
  imports Complex_Main "HOL-Library.AList" "HOL-Library.Char_ord" "HOL-Library.List_Lexorder"
    "HOL-Library.Product_Lexorder" "HOL-Library.Multiset"
begin

text \<open>
  Shared vocabulary of the development: Python exceptions as values, insertion-ordered
  dictionaries, Python's \<open>min\<close>/\<open>max\<close> with a key, decimal rendering for messages, and the two
  generic interfaces every component instantiates: \<open>keyed_store\<close> (a dictionary) and
  \<open>invariant_machine\<close> (a component whose operations keep an invariant), the latter extended
  by \<open>ranked_machine\<close> for quantities that never decrease.
\<close>

section \<open>Exceptions as values\<close>

text \<open>
  One constructor per exception class the sources raise, carrying the rendered message.
  Operations return \<open>'a res \<times> 's\<close>: the result or exception, and the state that is left
  behind, so that an exception raised after a partial mutation is visible in the model.
\<close>

datatype py_error =
    RuntimeError string
  | ValueError string
  | KeyError string
  | TypeError string
  | IndexError string
  | TimeoutError string
  | AttributeError string

type_synonym 'a res = "py_error + 'a"

named_theorems op_defs "definitions of operations, unfolded in preservation proofs"
named_theorems inv_intros "preservation lemmas, one per operation"

definition is_ok :: "'a res \<Rightarrow> bool" where
  "is_ok r = (case r of Inl _ \<Rightarrow> False | Inr _ \<Rightarrow> True)"

lemma is_ok_simps [simp]: "is_ok (Inl e) = False" "is_ok (Inr x) = True"
  by (simp_all add: is_ok_def)

text \<open>Sequencing of operations that may raise, and the same operation over a list.\<close>

definition bind_res :: "'a res \<Rightarrow> ('a \<Rightarrow> 'b res) \<Rightarrow> 'b res" where
  "bind_res r f = (case r of Inl e \<Rightarrow> Inl e | Inr x \<Rightarrow> f x)"

lemma bind_res_simps [simp]: "bind_res (Inl e) f = Inl e" "bind_res (Inr x) f = f x"
  by (simp_all add: bind_res_def)

lemma bind_res_Inr [simp]: "bind_res r f = Inr y \<longleftrightarrow> (\<exists>x. r = Inr x \<and> f x = Inr y)"
  by (cases r) simp_all

fun fold_res :: "('s \<Rightarrow> 'a \<Rightarrow> 's res) \<Rightarrow> 's \<Rightarrow> 'a list \<Rightarrow> 's res" where
  "fold_res f s [] = Inr s"
| "fold_res f s (x # xs) = bind_res (f s x) (\<lambda>t. fold_res f t xs)"

lemma fold_res_invariant:
  "fold_res f s xs = Inr t \<Longrightarrow> P s \<Longrightarrow> (\<And>u x v. x \<in> set xs \<Longrightarrow> P u \<Longrightarrow> f u x = Inr v \<Longrightarrow> P v) \<Longrightarrow> P t"
proof (induction xs arbitrary: s)
  case (Cons x xs)
  then obtain u where "f s x = Inr u" "fold_res f u xs = Inr t" by auto
  with Cons show ?case by (metis list.set_intros)
qed simp

section \<open>Decimal rendering used in messages\<close>

fun digits_of :: "nat \<Rightarrow> string" where
  "digits_of n =
     (if n < 10 then [char_of (48 + n)]
      else digits_of (n div 10) @ [char_of (48 + n mod 10)])"

declare digits_of.simps [simp del]

definition str_of_int :: "int \<Rightarrow> string" where
  "str_of_int i = (if i < 0 then CHR 0x2D # digits_of (nat (- i)) else digits_of (nat i))"

text \<open>Reading the digits back gives the number, so distinct numbers print differently.\<close>

definition digits_val :: "string \<Rightarrow> nat" where
  "digits_val ds = foldl (\<lambda>a c. 10 * a + (of_char c - 48)) 0 ds"

lemma digits_val_of [simp]: "digits_val (digits_of n) = n"
proof (induction n rule: digits_of.induct)
  case (1 n)
  show ?case
  proof (cases "n < 10")
    case True
    then show ?thesis by (simp add: digits_of.simps [of n] digits_val_def)
  next
    case False
    have "48 + n mod 10 < 256" using mod_less_divisor [of 10 n] by linarith
    then have "(48 + n mod 10) mod 256 = 48 + n mod 10" by (rule mod_less)
    with False 1 show ?thesis by (simp add: digits_of.simps [of n] digits_val_def)
  qed
qed

lemma digits_of_eq [simp]: "digits_of m = digits_of n \<longleftrightarrow> m = n"
  by (metis digits_val_of)

lemma str_of_int_nat [simp]: "str_of_int (int n) = digits_of n"
  by (simp add: str_of_int_def)

section \<open>Insertion-ordered dictionaries\<close>

text \<open>
  A Python \<open>dict\<close> or \<open>OrderedDict\<close> keeps its keys in insertion order; assigning to a key
  that is present keeps its position. That is \<open>AList.update\<close>; \<open>del d[k]\<close> and \<open>pop\<close> are
  \<open>AList.delete\<close>. \<open>OrderedDict.move_to_end\<close> is written here.
\<close>

type_synonym ('k, 'v) odict = "('k \<times> 'v) list"

abbreviation od_get :: "('k, 'v) odict \<Rightarrow> 'k \<Rightarrow> 'v option" where
  "od_get d k \<equiv> map_of d k"

abbreviation od_put :: "'k \<Rightarrow> 'v \<Rightarrow> ('k, 'v) odict \<Rightarrow> ('k, 'v) odict" where
  "od_put \<equiv> AList.update"

abbreviation od_del :: "'k \<Rightarrow> ('k, 'v) odict \<Rightarrow> ('k, 'v) odict" where
  "od_del \<equiv> AList.delete"

abbreviation od_keys :: "('k, 'v) odict \<Rightarrow> 'k list" where
  "od_keys d \<equiv> map fst d"

abbreviation od_vals :: "('k, 'v) odict \<Rightarrow> 'v list" where
  "od_vals d \<equiv> map snd d"

definition od_ok :: "('k, 'v) odict \<Rightarrow> bool" where
  "od_ok d = distinct (map fst d)"

definition move_to_end :: "'k \<Rightarrow> ('k, 'v) odict \<Rightarrow> ('k, 'v) odict" where
  "move_to_end k d = (case map_of d k of None \<Rightarrow> d | Some v \<Rightarrow> od_del k d @ [(k, v)])"

definition od_map :: "('v \<Rightarrow> 'w) \<Rightarrow> ('k, 'v) odict \<Rightarrow> ('k, 'w) odict" where
  "od_map f d = map (\<lambda>(k, v). (k, f v)) d"

lemma od_get_put [simp]: "od_get (od_put k v d) = (od_get d)(k \<mapsto> v)"
  by (rule update_conv')

lemma od_get_del [simp]: "od_get (od_del k d) = (od_get d)(k := None)"
  by (rule delete_conv')

lemma od_ok_Nil [simp]: "od_ok []"
  by (simp add: od_ok_def)

lemma od_ok_put [simp, intro]: "od_ok d \<Longrightarrow> od_ok (od_put k v d)"
  by (simp add: od_ok_def distinct_update)

lemma od_ok_del [simp, intro]: "od_ok d \<Longrightarrow> od_ok (od_del k d)"
  by (simp add: od_ok_def distinct_delete)

lemma od_ok_move_to_end [simp, intro]: "od_ok d \<Longrightarrow> od_ok (move_to_end k d)"
  by (auto simp: od_ok_def move_to_end_def delete_keys distinct_removeAll split: option.splits)

lemma od_get_move_to_end [simp]: "od_get (move_to_end k d) = od_get d"
  by (rule ext) (auto simp: move_to_end_def map_add_def split: option.splits)

lemma od_get_map [simp]: "od_get (od_map f d) k = map_option f (od_get d k)"
  by (induction d) (auto simp: od_map_def)

lemma od_keys_map [simp]: "od_keys (od_map f d) = od_keys d"
  by (auto simp: od_map_def)

lemma od_ok_map [simp]: "od_ok (od_map f d) = od_ok d"
  by (simp add: od_ok_def)

lemma od_get_Some_iff: "od_ok d \<Longrightarrow> (k, v) \<in> set d \<longleftrightarrow> od_get d k = Some v"
  by (simp add: od_ok_def)

lemma od_keys_dom: "set (od_keys d) = dom (od_get d)"
  by (simp add: dom_map_of_conv_image_fst)

lemma od_put_present:
  "od_get d k = Some w \<Longrightarrow> od_keys (od_put k v d) = od_keys d"
  by (induction d) (auto split: if_splits)

lemma od_put_absent:
  "od_get d k = None \<Longrightarrow> od_put k v d = d @ [(k, v)]"
  by (induction d) (auto split: if_splits)

lemma od_keys_move_to_end [simp]: "set (od_keys (move_to_end k d)) = set (od_keys d)"
  by (simp only: od_keys_dom od_get_move_to_end)

lemma od_keys_put [simp]: "set (od_keys (od_put k v d)) = insert k (set (od_keys d))"
  by (simp only: od_keys_dom od_get_put dom_fun_upd) simp

lemma od_keys_del [simp]: "set (od_keys (od_del k d)) = set (od_keys d) - {k}"
  by (simp only: od_keys_dom od_get_del) (auto split: if_splits)

lemma fst_od_put [simp]: "fst ` set (od_put k v d) = insert k (fst ` set d)"
  using od_keys_put [of k v d] by simp

lemma fst_od_del [simp]: "fst ` set (od_del k d) = fst ` set d - {k}"
  using od_keys_del [of k d] by simp

text \<open>The values stored after an update are the new value and some of the old ones.\<close>

lemma od_vals_put: "set (od_vals (od_put k v d)) \<subseteq> insert v (set (od_vals d))"
  by (induction d) (auto split: if_splits)

lemma od_vals_get: "od_get d k = Some v \<Longrightarrow> v \<in> set (od_vals d)"
  by (induction d) (auto split: if_splits)

text \<open>What the entries of a dictionary contribute to a multiset, across an update.\<close>

lemma mset_entries_put:
  "od_get d k = Some w \<Longrightarrow>
     mset (concat (map f (od_put k v d))) + mset (f (k, w)) = mset (concat (map f d)) + mset (f (k, v))"
  by (induction d) (auto split: if_splits)

lemma mset_entries_absent:
  "od_get d k = None \<Longrightarrow> mset (concat (map f (od_put k v d))) = mset (concat (map f d)) + mset (f (k, v))"
  by (simp add: od_put_absent)

lemma mset_entries_del:
  "od_ok d \<Longrightarrow> od_get d k = Some w \<Longrightarrow>
     mset (concat (map f (od_del k d))) + mset (f (k, w)) = mset (concat (map f d))"
proof (induction d)
  case Nil
  then show ?case by simp
next
  case (Cons a d)
  obtain j x where a: "a = (j, x)" by (cases a)
  have "od_del j d = d" if "j \<notin> fst ` set d" using that by (simp add: delete_id)
  with Cons a show ?case by (auto simp: od_ok_def split: if_splits)
qed

section \<open>Lists that are updated by position\<close>

lemma nth_put: "j < length xs \<Longrightarrow> xs[i := x] ! j = (if i = j then x else xs ! j)"
  by (cases "i < length xs") (auto simp: nth_list_update)

lemma mset_concat_update:
  assumes "i < length xss"
  shows "mset (concat (xss[i := ys])) + mset (xss ! i) = mset (concat xss) + mset ys"
  using assms by (induction xss arbitrary: i) (auto split: nat.split simp: add.commute add.left_commute nth_Cons)

section \<open>Python values\<close>

text \<open>
  The dynamically typed values that manifests, request bodies and JSON messages are made
  of. A float carries its exact value and its printed form (NaN and the infinities are not
  represented). Strings are sequences of code points below 256.
\<close>

datatype pyval =
    VNone
  | VBool bool
  | VInt int
  | VFloat rat string
  | VStr string
  | VList "pyval list"
  | VDict "(string \<times> pyval) list"

fun truthy :: "pyval \<Rightarrow> bool" where
  "truthy VNone = False"
| "truthy (VBool b) = b"
| "truthy (VInt i) = (i \<noteq> 0)"
| "truthy (VFloat r _) = (r \<noteq> 0)"
| "truthy (VStr s) = (s \<noteq> [])"
| "truthy (VList xs) = (xs \<noteq> [])"
| "truthy (VDict d) = (d \<noteq> [])"

text \<open>\<open>d.get(k)\<close>: a missing key reads as None.\<close>

definition dget :: "(string \<times> pyval) list \<Rightarrow> string \<Rightarrow> pyval" where
  "dget d k = (case od_get d k of None \<Rightarrow> VNone | Some v \<Rightarrow> v)"

text \<open>\<open>x or y\<close>.\<close>

definition or_else :: "pyval \<Rightarrow> pyval \<Rightarrow> pyval" where
  "or_else x y = (if truthy x then x else y)"

text \<open>\<open>repr\<close> and \<open>str\<close>, for strings without quotes or escapes of their own.\<close>

definition quoted :: "string \<Rightarrow> string" where
  "quoted s = CHR 0x27 # s @ [CHR 0x27]"

fun join_with :: "string \<Rightarrow> string list \<Rightarrow> string" where
  "join_with sep [] = []"
| "join_with sep [x] = x"
| "join_with sep (x # y # xs) = x @ sep @ join_with sep (y # xs)"

fun py_repr :: "pyval \<Rightarrow> string" where
  "py_repr VNone = ''None''"
| "py_repr (VBool b) = (if b then ''True'' else ''False'')"
| "py_repr (VInt i) = str_of_int i"
| "py_repr (VFloat r s) = s"
| "py_repr (VStr s) = quoted s"
| "py_repr (VList xs) = ''['' @ join_with '', '' (map py_repr xs) @ '']''"
| "py_repr (VDict d) = ''{'' @ join_with '', '' (map (\<lambda>(k, v). quoted k @ '': '' @ py_repr v) d) @ ''}''"

fun py_str :: "pyval \<Rightarrow> string" where
  "py_str (VStr s) = s"
| "py_str v = py_repr v"

text \<open>\<open>str(exc)\<close>; that of a \<open>KeyError\<close> is the representation of its key.\<close>

fun error_text :: "py_error \<Rightarrow> string" where
  "error_text (RuntimeError m) = m"
| "error_text (ValueError m) = m"
| "error_text (KeyError m) = quoted m"
| "error_text (TypeError m) = m"
| "error_text (IndexError m) = m"
| "error_text (TimeoutError m) = m"
| "error_text (AttributeError m) = m"

section \<open>The dictionary interface\<close>

text \<open>
  What a component may assume of a dictionary: a lookup sees the last write, a deletion
  hides exactly one key, and both keep the representation invariant. The client lemmas are
  the ones the components use: bulk writes, and independence of writes to distinct keys.
\<close>

locale keyed_store =
  fixes get :: "'s \<Rightarrow> 'k \<Rightarrow> 'v option"
    and put :: "'k \<Rightarrow> 'v \<Rightarrow> 's \<Rightarrow> 's"
    and del :: "'k \<Rightarrow> 's \<Rightarrow> 's"
    and ok :: "'s \<Rightarrow> bool"
  assumes get_put: "get (put k v s) = (get s)(k \<mapsto> v)"
    and get_del: "get (del k s) = (get s)(k := None)"
    and ok_put: "ok s \<Longrightarrow> ok (put k v s)"
    and ok_del: "ok s \<Longrightarrow> ok (del k s)"
begin

lemma dom_put: "dom (get (put k v s)) = insert k (dom (get s))"
  by (simp add: get_put)

lemma dom_del: "dom (get (del k s)) = dom (get s) - {k}"
  by (simp add: get_del)

lemma put_commute: "k \<noteq> l \<Longrightarrow> get (put k v (put l w s)) = get (put l w (put k v s))"
  by (simp add: get_put fun_upd_twist)

lemma ok_dels: "ok s \<Longrightarrow> ok (foldr del ks s)"
  by (induction ks) (auto intro: ok_del)

lemma get_dels: "get (foldr del ks s) k = (if k \<in> set ks then None else get s k)"
  by (induction ks) (auto simp: get_del)

end

interpretation od: keyed_store od_get od_put od_del od_ok
  by unfold_locales auto

section \<open>Components as machines with an invariant\<close>

text \<open>
  A lock-protected component executes its operations one after the other; an interleaving
  of its clients is a list of operations. If every operation keeps the invariant, every
  interleaving does.
\<close>

locale invariant_machine =
  fixes step :: "'s \<Rightarrow> 'e \<Rightarrow> 's"
    and inv :: "'s \<Rightarrow> bool"
  assumes inv_step: "inv s \<Longrightarrow> inv (step s e)"
begin

lemma inv_run: "inv s \<Longrightarrow> inv (foldl step s es)"
  by (induction es arbitrary: s) (auto intro: inv_step)

lemma inv_prefix: "inv s \<Longrightarrow> inv (foldl step s (take n es))"
  by (rule inv_run)

end

text \<open>A machine with a quantity that no operation decreases.\<close>

locale ranked_machine = invariant_machine +
  fixes rank :: "'s \<Rightarrow> 'r :: preorder"
  assumes rank_step: "inv s \<Longrightarrow> rank s \<le> rank (step s e)"
begin

lemma rank_run: "inv s \<Longrightarrow> rank s \<le> rank (foldl step s es)"
proof (induction es arbitrary: s)
  case Nil
  then show ?case by simp
next
  case (Cons e es)
  have "rank s \<le> rank (step s e)" by (rule rank_step [OF Cons.prems])
  also have "\<dots> \<le> rank (foldl step (step s e) es)"
    by (rule Cons.IH [OF inv_step [OF Cons.prems]])
  finally show ?case by simp
qed

end

section \<open>Python's \<open>min\<close> and \<open>max\<close> with a key\<close>

text \<open>
  \<open>min(xs, key=f)\<close> returns the first element whose key is least, \<open>max\<close> the first whose
  key is greatest; both raise on an empty sequence, here \<open>None\<close>.
\<close>

fun py_min :: "('a \<Rightarrow> 'k :: linorder) \<Rightarrow> 'a list \<Rightarrow> 'a option" where
  "py_min f [] = None"
| "py_min f (x # xs) =
     (case py_min f xs of None \<Rightarrow> Some x | Some y \<Rightarrow> if f y < f x then Some y else Some x)"

fun py_max :: "('a \<Rightarrow> 'k :: linorder) \<Rightarrow> 'a list \<Rightarrow> 'a option" where
  "py_max f [] = None"
| "py_max f (x # xs) =
     (case py_max f xs of None \<Rightarrow> Some x | Some y \<Rightarrow> if f x < f y then Some y else Some x)"

lemma py_min_None [simp]: "py_min f xs = None \<longleftrightarrow> xs = []"
  by (cases xs) (auto split: option.splits)

lemma py_max_None [simp]: "py_max f xs = None \<longleftrightarrow> xs = []"
  by (cases xs) (auto split: option.splits)

lemma py_min_in: "py_min f xs = Some x \<Longrightarrow> x \<in> set xs"
  by (induction xs arbitrary: x) (auto split: option.splits if_splits)

lemma py_max_in: "py_max f xs = Some x \<Longrightarrow> x \<in> set xs"
  by (induction xs arbitrary: x) (auto split: option.splits if_splits)

lemma py_min_least: "py_min f xs = Some x \<Longrightarrow> y \<in> set xs \<Longrightarrow> f x \<le> f y"
proof (induction xs arbitrary: x)
  case Nil
  then show ?case by simp
next
  case (Cons a xs)
  show ?case
  proof (cases "py_min f xs")
    case None
    then have "xs = []" by simp
    with Cons.prems show ?thesis by simp
  next
    case (Some z)
    with Cons.prems(2) Cons.IH [OF Some] Cons.prems(1) show ?thesis
      by (auto split: if_splits dest: order.strict_implies_order)
  qed
qed

lemma py_max_greatest: "py_max f xs = Some x \<Longrightarrow> y \<in> set xs \<Longrightarrow> f y \<le> f x"
proof (induction xs arbitrary: x)
  case Nil
  then show ?case by simp
next
  case (Cons a xs)
  show ?case
  proof (cases "py_max f xs")
    case None
    then have "xs = []" by simp
    with Cons.prems show ?thesis by simp
  next
    case (Some z)
    with Cons.prems(2) Cons.IH [OF Some] Cons.prems(1) show ?thesis
      by (auto split: if_splits dest: order.strict_implies_order)
  qed
qed

section \<open>FIFO queues\<close>

text \<open>
  The contract of a component that hands out waiting items first come, first served. The
  waiting items are read off the component's state by \<open>waiting\<close>; \<open>submit\<close> appends one and
  \<open>take\<close> removes the head.
\<close>

locale fifo_queue =
  fixes waiting :: "'s \<Rightarrow> 'a list"
    and can_submit :: "'s \<Rightarrow> 'a \<Rightarrow> bool"
    and submit :: "'a \<Rightarrow> 's \<Rightarrow> 's"
    and can_take :: "'s \<Rightarrow> bool"
    and take_item :: "'s \<Rightarrow> 'a option \<times> 's"
    and ok :: "'s \<Rightarrow> bool"
  assumes waiting_submit: "ok s \<Longrightarrow> can_submit s a \<Longrightarrow> waiting (submit a s) = waiting s @ [a]"
    and ok_submit: "ok s \<Longrightarrow> can_submit s a \<Longrightarrow> ok (submit a s)"
    and take_head: "ok s \<Longrightarrow> can_take s \<Longrightarrow> waiting s = x # xs \<Longrightarrow>
      fst (take_item s) = Some x \<and> waiting (snd (take_item s)) = xs"
    and take_empty: "ok s \<Longrightarrow> waiting s = [] \<Longrightarrow> fst (take_item s) = None"
    and ok_take: "ok s \<Longrightarrow> ok (snd (take_item s))"
begin

text \<open>An item submitted now is handed out only after everything that waited before it.\<close>

lemma submit_then_take:
  assumes "ok s" and "can_submit s a" and "can_take (submit a s)" and "waiting s = x # xs"
  shows "fst (take_item (submit a s)) = Some x \<and>
    waiting (snd (take_item (submit a s))) = xs @ [a]"
  using assms waiting_submit ok_submit take_head by simp

lemma submit_idle_then_take:
  assumes "ok s" and "can_submit s a" and "can_take (submit a s)" and "waiting s = []"
  shows "fst (take_item (submit a s)) = Some a \<and> waiting (snd (take_item (submit a s))) = []"
  using assms waiting_submit ok_submit take_head by simp

end

end
