(* ===== verification/Pipeline_Contract.thy ===== *)
theory Pipeline_Contract
  imports Prelude
begin

text \<open>
  The service-facing contract of a pipeline (\<open>telefuser/service/core/pipeline_contract.py\<close>) and
  the manifests built from templates (\<open>contract_templates.py\<close>): task names, media types, the
  contracts of parameters and tasks, and how a contract is read from a manifest and written as
  metadata. The contract that is read is well formed, and reading its metadata gives it back.
\<close>

section \<open>Strings and conversions of the language\<close>

definition is_space :: "char \<Rightarrow> bool" where
  "is_space c =
     (let n = of_char c :: nat in (9 \<le> n \<and> n \<le> 13) \<or> (28 \<le> n \<and> n \<le> 32) \<or> n = 133 \<or> n = 160)"

definition py_strip :: "string \<Rightarrow> string" where
  "py_strip s = rev (dropWhile is_space (rev (dropWhile is_space s)))"

definition lower_char :: "char \<Rightarrow> char" where
  "lower_char c =
     (let n = of_char c :: nat
      in if (65 \<le> n \<and> n \<le> 90) \<or> (192 \<le> n \<and> n \<le> 222 \<and> n \<noteq> 215) then char_of (n + 32) else c)"

definition py_lower :: "string \<Rightarrow> string" where
  "py_lower = map lower_char"

fun type_name :: "pyval \<Rightarrow> string" where
  "type_name VNone = ''NoneType''"
| "type_name (VBool b) = ''bool''"
| "type_name (VInt i) = ''int''"
| "type_name (VFloat r s) = ''float''"
| "type_name (VStr s) = ''str''"
| "type_name (VList xs) = ''list''"
| "type_name (VDict d) = ''dict''"

definition not_iterable :: "pyval \<Rightarrow> py_error" where
  "not_iterable v = TypeError (quoted (type_name v) @ '' object is not iterable'')"

definition py_iter :: "pyval \<Rightarrow> pyval list res" where
  "py_iter v =
     (case v of
        VList xs \<Rightarrow> Inr xs
      | VDict d \<Rightarrow> Inr (map (\<lambda>e. VStr (fst e)) d)
      | VStr s \<Rightarrow> Inr (map (\<lambda>c. VStr [c]) s)
      | _ \<Rightarrow> Inl (not_iterable v))"

text \<open>\<open>dict(v)\<close> from a mapping or a sequence of pairs. Keys that are not strings are left out of the
  result: the callers look only string keys up.\<close>

definition put_pair :: "(string \<times> pyval) list \<Rightarrow> nat \<times> pyval \<Rightarrow> (string \<times> pyval) list res" where
  "put_pair d ip =
     (case py_iter (snd ip) of
        Inl e \<Rightarrow> Inl (TypeError (''cannot convert dictionary update sequence element #'' @ digits_of (fst ip) @ '' to a sequence''))
      | Inr parts \<Rightarrow>
          (case parts of
             [key, v] \<Rightarrow>
               (case key of
                  VStr k \<Rightarrow> Inr (od_put k v d)
                | VList xs \<Rightarrow> Inl (TypeError (''unhashable type: '' @ quoted ''list''))
                | VDict e \<Rightarrow> Inl (TypeError (''unhashable type: '' @ quoted ''dict''))
                | _ \<Rightarrow> Inr d)
           | _ \<Rightarrow> Inl (ValueError (''dictionary update sequence element #'' @ digits_of (fst ip) @ '' has length '' @
                digits_of (length parts) @ ''; 2 is required''))))"

definition py_dict :: "pyval \<Rightarrow> (string \<times> pyval) list res" where
  "py_dict v =
     (case v of
        VDict d \<Rightarrow> Inr d
      | _ \<Rightarrow> bind_res (py_iter v) (\<lambda>xs. fold_res put_pair [] (enumerate 0 xs)))"

text \<open>\<open>int(v)\<close>: the digits of a string may be separated by single underscores.\<close>

definition is_digit :: "char \<Rightarrow> bool" where
  "is_digit c = (let n = of_char c :: nat in 48 \<le> n \<and> n \<le> 57)"

fun parse_digits :: "bool \<Rightarrow> nat \<Rightarrow> string \<Rightarrow> nat option" where
  "parse_digits after_digit acc [] = (if after_digit then Some acc else None)"
| "parse_digits after_digit acc (c # cs) =
     (if is_digit c then parse_digits True (10 * acc + (of_char c - 48)) cs
      else if c = CHR ''_'' \<and> after_digit then
        (case cs of [] \<Rightarrow> None | x # xs \<Rightarrow> if is_digit x then parse_digits False acc cs else None)
      else None)"

definition parse_int :: "string \<Rightarrow> int option" where
  "parse_int s =
     (case py_strip s of
        [] \<Rightarrow> None
      | c # cs \<Rightarrow>
          if c = CHR ''-'' then map_option (\<lambda>n. - int n) (parse_digits False 0 cs)
          else if c = CHR ''+'' then map_option int (parse_digits False 0 cs)
          else map_option int (parse_digits False 0 (c # cs)))"

definition py_int :: "pyval \<Rightarrow> int res" where
  "py_int v =
     (case v of
        VInt i \<Rightarrow> Inr i
      | VBool b \<Rightarrow> Inr (if b then 1 else 0)
      | VFloat r s \<Rightarrow> Inr (if r < 0 then - floor (- r) else floor r)
      | VStr s \<Rightarrow>
          (case parse_int s of
             Some i \<Rightarrow> Inr i
           | None \<Rightarrow> Inl (ValueError (''invalid literal for int() with base 10: '' @ quoted s)))
      | _ \<Rightarrow> Inl (TypeError (''int() argument must be a string, a bytes-like object or a real number, not '' @ quoted (type_name v))))"

section \<open>Task names and media types\<close>

definition VIDEO_TASKS :: "string list" where
  "VIDEO_TASKS = [''t2v'', ''i2v'', ''fl2v'', ''vc'', ''s2v'', ''vsr'']"

definition IMAGE_TASKS :: "string list" where
  "IMAGE_TASKS = [''t2i'', ''i2i'', ''edit'']"

definition STRUCTURED_TASKS :: "string list" where
  "STRUCTURED_TASKS = [''vla_action'']"

definition is_video_task :: "string \<Rightarrow> bool" where
  "is_video_task task = (task \<in> set VIDEO_TASKS)"

definition is_image_task :: "string \<Rightarrow> bool" where
  "is_image_task task = (task \<in> set IMAGE_TASKS)"

definition infer_media_type_for_task :: "string \<Rightarrow> string" where
  "infer_media_type_for_task task =
     (if is_image_task task then ''image''
      else if is_video_task task then ''video''
      else if task \<in> set STRUCTURED_TASKS then ''structured''
      else ''video'')"

definition is_lower_letter :: "char \<Rightarrow> bool" where
  "is_lower_letter c = (let n = of_char c :: nat in 97 \<le> n \<and> n \<le> 122)"

definition matches_task_name :: "string \<Rightarrow> bool" where
  "matches_task_name s =
     (case s of
        [] \<Rightarrow> False
      | c # cs \<Rightarrow> is_lower_letter c \<and> 1 \<le> length cs \<and> length cs \<le> 31 \<and>
          list_all (\<lambda>x. is_lower_letter x \<or> is_digit x \<or> x = CHR ''_'') cs)"

definition bad_task_name :: "py_error" where
  "bad_task_name =
     ValueError (''Invalid task type format. Expected a lowercase identifier starting with a letter and containing only '' @
       ''letters, digits, or underscores.'')"

definition validate_task_name_format :: "string \<Rightarrow> string res" where
  "validate_task_name_format task =
     (let normalized = py_lower (py_strip task)
      in if matches_task_name normalized then Inr normalized else Inl bad_task_name)"

definition derive_media_types_from_tasks :: "string list \<Rightarrow> string list" where
  "derive_media_types_from_tasks tasks =
     (let media_types =
        (if list_ex (\<lambda>t. t \<in> set VIDEO_TASKS) tasks then [''video''] else []) @
        (if list_ex (\<lambda>t. t \<in> set IMAGE_TASKS) tasks then [''image''] else []) @
        (if list_ex (\<lambda>t. t \<in> set STRUCTURED_TASKS) tasks then [''structured''] else [])
      in if media_types = [] then [''unknown''] else media_types)"

section \<open>Contracts of parameters and tasks\<close>

definition add_normalized :: "string list \<Rightarrow> pyval \<Rightarrow> string list" where
  "add_normalized acc v =
     (let text = py_strip (py_str v) in if text \<noteq> [] \<and> text \<notin> set acc then acc @ [text] else acc)"

definition normalize_string_list :: "pyval \<Rightarrow> string list res" where
  "normalize_string_list raw =
     (case raw of
        VNone \<Rightarrow> Inr []
      | VStr s \<Rightarrow> Inr (foldl add_normalized [] [raw])
      | _ \<Rightarrow> bind_res (py_iter raw) (\<lambda>values. Inr (foldl add_normalized [] values)))"

fun infer_parameter_type :: "pyval \<Rightarrow> string" where
  "infer_parameter_type (VBool b) = ''boolean''"
| "infer_parameter_type (VInt i) = ''integer''"
| "infer_parameter_type (VFloat r s) = ''number''"
| "infer_parameter_type (VList xs) = ''array''"
| "infer_parameter_type (VDict d) = ''object''"
| "infer_parameter_type VNone = ''string''"
| "infer_parameter_type (VStr s) = ''string''"

record parameter_contract =
  pc_type :: string
  pc_required :: bool
  pc_default :: pyval
  pc_description :: string
  pc_enum :: "string list"
  pc_exposed :: bool

definition parameter_from_mapping :: "(string \<times> pyval) list \<Rightarrow> parameter_contract res" where
  "parameter_from_mapping raw =
     bind_res (normalize_string_list (dget raw ''enum'')) (\<lambda>enum.
       Inr \<lparr>pc_type = py_str (or_else (dget raw ''type'') (VStr (infer_parameter_type (dget raw ''default'')))),
            pc_required = truthy (dget raw ''required''),
            pc_default = dget raw ''default'',
            pc_description = py_str (or_else (dget raw ''description'') (VStr [])),
            pc_enum = enum,
            pc_exposed = (case od_get raw ''exposed'' of None \<Rightarrow> True | Some v \<Rightarrow> truthy v)\<rparr>)"

definition str_list :: "string list \<Rightarrow> pyval" where
  "str_list xs = VList (map VStr xs)"

definition parameter_to_metadata :: "parameter_contract \<Rightarrow> pyval" where
  "parameter_to_metadata p =
     VDict [(''type'', VStr (pc_type p)), (''required'', VBool (pc_required p)), (''default'', pc_default p),
            (''description'', VStr (pc_description p)), (''enum'', str_list (pc_enum p)),
            (''exposed'', VBool (pc_exposed p))]"

definition normalize_parameter_contracts :: "pyval \<Rightarrow> (string, parameter_contract) odict res" where
  "normalize_parameter_contracts raw =
     (case raw of
        VNone \<Rightarrow> Inr []
      | VDict d \<Rightarrow>
          fold_res (\<lambda>ps (name, v).
            if py_strip name = [] then Inr ps
            else bind_res (py_dict v) (\<lambda>m.
              bind_res (parameter_from_mapping m) (\<lambda>p. Inr (od_put (py_strip name) p ps)))) [] d
      | _ \<Rightarrow> Inl (TypeError ''Task contract parameters must be a mapping''))"

record task_contract =
  tc_task :: string
  tc_media_type :: string
  tc_required_inputs :: "string list"
  tc_optional_inputs :: "string list"
  tc_parameters :: "(string, parameter_contract) odict"

definition task_from_mapping :: "string \<Rightarrow> (string \<times> pyval) list \<Rightarrow> task_contract res" where
  "task_from_mapping task raw =
     bind_res (validate_task_name_format task) (\<lambda>normalized_task.
     bind_res (normalize_string_list (dget raw ''required_inputs'')) (\<lambda>required.
     bind_res (normalize_string_list (dget raw ''optional_inputs'')) (\<lambda>optional.
     bind_res (normalize_parameter_contracts (dget raw ''parameters'')) (\<lambda>parameters.
       Inr \<lparr>tc_task = normalized_task,
            tc_media_type = py_str (or_else (dget raw ''media_type'') (VStr (infer_media_type_for_task normalized_task))),
            tc_required_inputs = required, tc_optional_inputs = optional, tc_parameters = parameters\<rparr>))))"

definition task_to_metadata :: "task_contract \<Rightarrow> pyval" where
  "task_to_metadata t =
     VDict [(''media_type'', VStr (tc_media_type t)), (''required_inputs'', str_list (tc_required_inputs t)),
            (''optional_inputs'', str_list (tc_optional_inputs t)),
            (''parameters'', VDict (map (\<lambda>(name, p). (name, parameter_to_metadata p))
               (filter (\<lambda>(name, p). pc_exposed p) (tc_parameters t))))]"

definition default_required_inputs :: "string \<Rightarrow> string list" where
  "default_required_inputs task =
     (if task = ''i2i'' \<or> task = ''i2v'' then [''first_image_path'']
      else if task = ''fl2v'' then [''first_image_path'', ''last_image_path'']
      else if task = ''vc'' \<or> task = ''vsr'' then [''ref_video_path'']
      else [])"

definition default_optional_inputs :: "string \<Rightarrow> string list" where
  "default_optional_inputs task = (if task = ''i2v'' then [''last_image_path''] else [])"

definition default_contract_of :: "string \<Rightarrow> task_contract" where
  "default_contract_of task =
     \<lparr>tc_task = task, tc_media_type = infer_media_type_for_task task,
      tc_required_inputs = default_required_inputs task, tc_optional_inputs = default_optional_inputs task,
      tc_parameters = []\<rparr>"

definition default_task_contracts :: "string list \<Rightarrow> (string, task_contract) odict" where
  "default_task_contracts tasks = foldl (\<lambda>d task. od_put task (default_contract_of task) d) [] tasks"

definition default_task_contract :: "string \<Rightarrow> task_contract res" where
  "default_task_contract task =
     bind_res (validate_task_name_format task) (\<lambda>normalized_task. Inr (default_contract_of normalized_task))"

definition py_items :: "pyval \<Rightarrow> (string \<times> pyval) list res" where
  "py_items v =
     (case v of
        VDict d \<Rightarrow> Inr d
      | _ \<Rightarrow> Inl (AttributeError (quoted (type_name v) @ '' object has no attribute '' @ quoted ''items'')))"

section \<open>Contracts of pipelines\<close>

record pipeline_contract =
  pp_contract_version :: string
  pp_pipeline_name :: string
  pp_supported_tasks :: "string list"
  pp_supported_media_types :: "string list"
  pp_execution_mode :: string
  pp_max_concurrent :: int
  pp_get_pipeline :: string
  pp_run_with_file :: string
  pp_task_contracts :: "(string, task_contract) odict"

definition put_raw_task :: "(string, task_contract) odict \<Rightarrow> string \<times> pyval \<Rightarrow> (string, task_contract) odict res" where
  "put_raw_task d e =
     bind_res (py_dict (snd e)) (\<lambda>m.
     bind_res (task_from_mapping (fst e) m) (\<lambda>t.
     bind_res (validate_task_name_format (fst e)) (\<lambda>k. Inr (od_put k t d))))"

definition set_default_task :: "(string, task_contract) odict \<Rightarrow> string \<Rightarrow> (string, task_contract) odict" where
  "set_default_task d task =
     (case od_get d task of None \<Rightarrow> od_put task (default_contract_of task) d | Some t \<Rightarrow> d)"

definition build_task_contracts :: "(string \<times> pyval) list \<Rightarrow> string list \<Rightarrow> (string, task_contract) odict res" where
  "build_task_contracts raw tasks =
     bind_res (py_items (or_else (dget raw ''task_contracts'') (VDict []))) (\<lambda>items.
     bind_res (fold_res put_raw_task (default_task_contracts tasks) items) (\<lambda>d.
       let e = foldl set_default_task d tasks
       in Inr (map (\<lambda>task. (task, the (od_get e task))) tasks)))"

definition mapping_of :: "pyval \<Rightarrow> (string \<times> pyval) list res" where
  "mapping_of v =
     (case v of
        VDict d \<Rightarrow> Inr d
      | _ \<Rightarrow> Inl (AttributeError (quoted (type_name v) @ '' object has no attribute '' @ quoted ''get'')))"

definition from_mapping :: "string \<Rightarrow> (string \<times> pyval) list \<Rightarrow> pipeline_contract res" where
  "from_mapping fallback_name raw =
     (let pipeline_name = py_strip (py_str (or_else (dget raw ''pipeline_name'') (VStr fallback_name)))
      in if pipeline_name = [] then Inl (ValueError ''Pipeline contract requires a non-empty pipeline_name'')
      else bind_res (normalize_string_list (dget raw ''supported_tasks'')) (\<lambda>tasks.
        if tasks = [] then Inl (ValueError ''Pipeline contract requires at least one supported task'')
        else bind_res (normalize_string_list (dget raw ''supported_media_types'')) (\<lambda>media.
          bind_res (py_int (or_else (dget raw ''effective_max_concurrent_tasks'') (VInt 1))) (\<lambda>n.
            if n < 1 then Inl (ValueError ''Pipeline contract effective_max_concurrent_tasks must be >= 1'')
            else bind_res (mapping_of (or_else (dget raw ''entrypoints'') (VDict []))) (\<lambda>entry.
              bind_res (build_task_contracts raw tasks) (\<lambda>contracts.
                Inr \<lparr>pp_contract_version = py_str (or_else (dget raw ''contract_version'') (VStr ''v1'')),
                     pp_pipeline_name = pipeline_name,
                     pp_supported_tasks = tasks,
                     pp_supported_media_types = (if media = [] then derive_media_types_from_tasks tasks else media),
                     pp_execution_mode = py_str (or_else (dget raw ''execution_mode'') (VStr ''serial_single_pipeline'')),
                     pp_max_concurrent = n,
                     pp_get_pipeline = py_str (or_else (dget entry ''get_pipeline'') (VStr ''get_pipeline'')),
                     pp_run_with_file = py_str (or_else (dget entry ''run_with_file'') (VStr ''run_with_file'')),
                     pp_task_contracts = contracts\<rparr>))))))"

text \<open>\<open>Path(ppl_file).stem\<close> of a POSIX path.\<close>

fun split_on :: "char \<Rightarrow> string \<Rightarrow> string list" where
  "split_on sep [] = [[]]"
| "split_on sep (c # cs) =
     (if c = sep then [] # split_on sep cs
      else case split_on sep cs of [] \<Rightarrow> [[c]] | p # ps \<Rightarrow> (c # p) # ps)"

definition path_name :: "string \<Rightarrow> string" where
  "path_name path =
     (case rev (filter (\<lambda>p. p \<noteq> [] \<and> p \<noteq> ''.'') (split_on (CHR ''/'') path)) of [] \<Rightarrow> [] | p # ps \<Rightarrow> p)"

definition path_stem :: "string \<Rightarrow> string" where
  "path_stem path =
     (let name = path_name path;
          suffix = takeWhile (\<lambda>c. c \<noteq> CHR ''.'') (rev name);
          rest = drop (length suffix + 1) (rev name)
      in if suffix = [] \<or> rest = [] then name else rev rest)"

definition legacy_default :: "string \<Rightarrow> string \<Rightarrow> pipeline_contract" where
  "legacy_default ppl_file default_task =
     \<lparr>pp_contract_version = ''legacy'', pp_pipeline_name = path_stem ppl_file, pp_supported_tasks = [default_task],
      pp_supported_media_types = derive_media_types_from_tasks [default_task],
      pp_execution_mode = ''serial_single_pipeline'', pp_max_concurrent = 1, pp_get_pipeline = ''get_pipeline'',
      pp_run_with_file = ''run_with_file'', pp_task_contracts = default_task_contracts [default_task]\<rparr>"

definition to_metadata :: "pipeline_contract \<Rightarrow> (string \<times> pyval) list" where
  "to_metadata c =
     [(''contract_version'', VStr (pp_contract_version c)), (''pipeline_name'', VStr (pp_pipeline_name c)),
      (''supported_tasks'', str_list (pp_supported_tasks c)),
      (''supported_media_types'', str_list (pp_supported_media_types c)),
      (''execution_mode'', VStr (pp_execution_mode c)),
      (''effective_max_concurrent_tasks'', VInt (pp_max_concurrent c)),
      (''entrypoints'', VDict [(''get_pipeline'', VStr (pp_get_pipeline c)), (''run_with_file'', VStr (pp_run_with_file c))]),
      (''task_contracts'', VDict (od_map task_to_metadata (pp_task_contracts c)))]"

definition get_task_contract :: "string \<Rightarrow> pipeline_contract \<Rightarrow> task_contract option" where
  "get_task_contract task c = od_get (pp_task_contracts c) task"

text \<open>What a module offers under a name: something callable (with the outcome of calling it) or a value;
  a value is a contract already or data.\<close>

datatype manifest = IsContract pipeline_contract | IsValue pyval

datatype module_attr = Callable "manifest res" | NotCallable manifest

definition coerce_contract :: "string \<Rightarrow> manifest \<Rightarrow> pipeline_contract res" where
  "coerce_contract fallback_name raw =
     (case raw of
        IsContract c \<Rightarrow> Inr c
      | IsValue v \<Rightarrow>
          (case v of
             VDict d \<Rightarrow> from_mapping fallback_name d
           | _ \<Rightarrow> Inl (TypeError ''Pipeline contract must be a dict, PipelineContract, or returned from a callable'')))"

definition call_factory :: "(string \<times> module_attr) list \<Rightarrow> string \<Rightarrow> manifest res option" where
  "call_factory attrs name =
     (case od_get attrs name of Some (Callable r) \<Rightarrow> Some r | _ \<Rightarrow> None)"

definition read_attribute :: "(string \<times> module_attr) list \<Rightarrow> string \<Rightarrow> manifest option" where
  "read_attribute attrs name =
     (case od_get attrs name of
        None \<Rightarrow> None
      | Some (NotCallable m) \<Rightarrow> Some m
      | Some (Callable r) \<Rightarrow> Some (IsValue VNone))"

fun first_some :: "('a \<Rightarrow> 'b option) \<Rightarrow> 'a list \<Rightarrow> 'b option" where
  "first_some f [] = None"
| "first_some f (x # xs) = (case f x of None \<Rightarrow> first_some f xs | Some y \<Rightarrow> Some y)"

definition load_pipeline_contract ::
  "(string \<times> module_attr) list \<Rightarrow> string \<Rightarrow> string \<Rightarrow> (pipeline_contract \<times> bool) res" where
  "load_pipeline_contract attrs ppl_file default_task =
     (case first_some (call_factory attrs) [''get_pipeline_contract'', ''get_pipeline_manifest''] of
        Some r \<Rightarrow> bind_res r (\<lambda>raw. bind_res (coerce_contract (path_stem ppl_file) raw) (\<lambda>c. Inr (c, True)))
      | None \<Rightarrow>
          (case first_some (read_attribute attrs) [''PIPELINE_CONTRACT'', ''PIPELINE_MANIFEST''] of
             Some raw \<Rightarrow> bind_res (coerce_contract (path_stem ppl_file) raw) (\<lambda>c. Inr (c, True))
           | None \<Rightarrow> Inr (legacy_default ppl_file default_task, False)))"

section \<open>Normalised strings\<close>

text \<open>A stripped string keeps no blank at either end; the lists that are read have no blank, repeated or
  unstripped entry.\<close>

lemma dropWhile_last: "dropWhile P xs \<noteq> [] \<Longrightarrow> last (dropWhile P xs) = last xs"
  by (induction xs) auto

lemma strip_fixed: "s = [] \<or> (\<not> is_space (hd s) \<and> \<not> is_space (last s)) \<Longrightarrow> py_strip s = s"
proof -
  assume e: "s = [] \<or> (\<not> is_space (hd s) \<and> \<not> is_space (last s))"
  have f: "dropWhile is_space xs = xs" if "xs = [] \<or> \<not> is_space (hd xs)" for xs using that by (cases xs) auto
  have "dropWhile is_space s = s" using e by (intro f) auto
  moreover have "dropWhile is_space (rev s) = rev s" using e by (intro f) (auto simp: hd_rev)
  ultimately show ?thesis by (simp add: py_strip_def)
qed

lemma strip_ends: "py_strip s = [] \<or> (\<not> is_space (hd (py_strip s)) \<and> \<not> is_space (last (py_strip s)))"
proof -
  let ?t = "dropWhile is_space s" and ?u = "dropWhile is_space (rev (dropWhile is_space s))"
  have "\<not> is_space (hd (rev ?u))" if u: "?u \<noteq> []"
  proof -
    have t: "?t \<noteq> []"
    proof
      assume "?t = []"
      then have "?u = []" by (simp only: rev.simps dropWhile.simps)
      with u show False by (rule notE)
    qed
    have "hd (rev ?u) = last ?u" using u by (simp add: hd_rev)
    also have "\<dots> = last (rev ?t)" using u by (rule dropWhile_last)
    also have "\<dots> = hd ?t" using t by (simp add: last_rev)
    finally have e: "hd (rev ?u) = hd ?t" .
    show ?thesis unfolding e by (rule hd_dropWhile [OF t])
  qed
  moreover have "\<not> is_space (last (rev ?u))" if u: "?u \<noteq> []"
  proof -
    have "last (rev ?u) = hd ?u" using u by (simp add: last_rev)
    then show ?thesis using hd_dropWhile [OF u] by (simp only: not_False_eq_True)
  qed
  ultimately show ?thesis unfolding py_strip_def by blast
qed

lemma strip_strip [simp]: "py_strip (py_strip s) = py_strip s"
  by (rule strip_fixed [OF strip_ends])

definition norm_list :: "string list \<Rightarrow> bool" where
  "norm_list xs \<longleftrightarrow> distinct xs \<and> (\<forall>x \<in> set xs. x \<noteq> [] \<and> py_strip x = x)"

lemma norm_list_Nil [simp]: "norm_list []"
  by (simp add: norm_list_def)

lemma norm_list_add: "norm_list acc \<Longrightarrow> norm_list (add_normalized acc v)"
  by (auto simp: norm_list_def add_normalized_def Let_def)

lemma norm_list_fold: "norm_list acc \<Longrightarrow> norm_list (foldl add_normalized acc vs)"
  by (induction vs arbitrary: acc) (auto intro: norm_list_add)

lemma normalize_norm: "normalize_string_list raw = Inr xs \<Longrightarrow> norm_list xs"
  by (auto simp: normalize_string_list_def intro: norm_list_fold norm_list_add split: pyval.splits)

lemma fold_normalized: "norm_list (acc @ xs) \<Longrightarrow> foldl add_normalized acc (map VStr xs) = acc @ xs"
proof (induction xs arbitrary: acc)
  case (Cons x xs)
  then have "add_normalized acc (VStr x) = acc @ [x]" by (auto simp: norm_list_def add_normalized_def)
  with Cons show ?case by simp
qed simp

lemma normalize_str_list: "norm_list xs \<Longrightarrow> normalize_string_list (str_list xs) = Inr xs"
  using fold_normalized [of "[]" xs] by (simp add: normalize_string_list_def str_list_def py_iter_def)

lemma digits_of_nonempty [simp]: "digits_of n \<noteq> []"
  by (subst digits_of.simps) simp

fun floats_printed :: "pyval \<Rightarrow> bool" where
  "floats_printed (VFloat r s) = (s \<noteq> [])"
| "floats_printed (VList xs) = list_all floats_printed xs"
| "floats_printed (VDict d) = list_all (\<lambda>(k, v). floats_printed v) d"
| "floats_printed _ = True"

lemma truthy_text: "truthy v \<Longrightarrow> floats_printed v \<Longrightarrow> py_str v \<noteq> []"
  by (cases v) (auto simp: str_of_int_def)

lemma or_else_text: "floats_printed v \<Longrightarrow> s \<noteq> [] \<Longrightarrow> py_str (or_else v (VStr s)) \<noteq> []"
  by (simp add: or_else_def truthy_text)

lemma dget_printed: "list_all (\<lambda>(k, v). floats_printed v) d \<Longrightarrow> floats_printed (dget d k)"
  by (induction d) (auto simp: dget_def split: option.splits if_splits)

section \<open>The contract that is read\<close>

lemma if_Inr: "(if b then Inl e else r) = Inr y \<longleftrightarrow> \<not> b \<and> r = Inr y"
  by simp

abbreviation printed :: "(string \<times> pyval) list \<Rightarrow> bool" where
  "printed d \<equiv> list_all (\<lambda>(k, v). floats_printed v) d"

lemma printed_put: "printed d \<Longrightarrow> floats_printed v \<Longrightarrow> printed (od_put k v d)"
  by (induction d) auto

lemma printed_iter: "floats_printed v \<Longrightarrow> py_iter v = Inr xs \<Longrightarrow> list_all floats_printed xs"
  by (cases v) (auto simp: py_iter_def list_all_iff)

lemma printed_pair: "printed d \<Longrightarrow> floats_printed (snd ip) \<Longrightarrow> put_pair d ip = Inr e \<Longrightarrow> printed e"
  by (auto simp: put_pair_def printed_put split: sum.splits list.splits pyval.splits dest: printed_iter)

lemma printed_dict: "floats_printed v \<Longrightarrow> py_dict v = Inr d \<Longrightarrow> printed d"
proof (cases "\<exists>e. v = VDict e")
  case False
  assume v: "floats_printed v" and "py_dict v = Inr d"
  then have "bind_res (py_iter v) (\<lambda>xs. fold_res put_pair [] (enumerate 0 xs)) = Inr d"
    using False by (simp add: py_dict_def split: pyval.splits)
  then obtain xs where x: "py_iter v = Inr xs" "fold_res put_pair [] (enumerate 0 xs) = Inr d" by auto
  have p: "floats_printed (snd ip)" if "ip \<in> set (enumerate 0 xs)" for ip
  proof -
    have "snd ip \<in> set (map snd (enumerate 0 xs))" using that by (metis imageI list.set_map)
    then show ?thesis using printed_iter [OF v x(1)] by (simp add: list_all_iff)
  qed
  show ?thesis using x(2) by (rule fold_res_invariant) (auto dest: p intro: printed_pair)
qed (auto simp: py_dict_def)

definition parameter_ok :: "string \<times> parameter_contract \<Rightarrow> bool" where
  "parameter_ok e \<longleftrightarrow> fst e \<noteq> [] \<and> py_strip (fst e) = fst e \<and> pc_type (snd e) \<noteq> [] \<and> norm_list (pc_enum (snd e))"

definition task_ok :: "string \<Rightarrow> task_contract \<Rightarrow> bool" where
  "task_ok task t \<longleftrightarrow> tc_task t = task \<and> tc_media_type t \<noteq> [] \<and> norm_list (tc_required_inputs t) \<and>
     norm_list (tc_optional_inputs t) \<and> od_ok (tc_parameters t) \<and> list_all parameter_ok (tc_parameters t)"

definition contract_ok :: "pipeline_contract \<Rightarrow> bool" where
  "contract_ok c \<longleftrightarrow> pp_contract_version c \<noteq> [] \<and> pp_pipeline_name c \<noteq> [] \<and>
     py_strip (pp_pipeline_name c) = pp_pipeline_name c \<and> pp_supported_tasks c \<noteq> [] \<and>
     norm_list (pp_supported_tasks c) \<and> pp_supported_media_types c \<noteq> [] \<and> norm_list (pp_supported_media_types c) \<and>
     pp_execution_mode c \<noteq> [] \<and> 1 \<le> pp_max_concurrent c \<and> pp_get_pipeline c \<noteq> [] \<and> pp_run_with_file c \<noteq> [] \<and>
     od_keys (pp_task_contracts c) = pp_supported_tasks c \<and> (\<forall>(k, t) \<in> set (pp_task_contracts c). task_ok k t)"

lemma infer_type_nonempty: "infer_parameter_type v \<noteq> []"
  by (cases v) simp_all

lemma parameter_read:
  "printed m \<Longrightarrow> parameter_from_mapping m = Inr p \<Longrightarrow> pc_type p \<noteq> [] \<and> norm_list (pc_enum p)"
  using or_else_text [OF dget_printed, of m "infer_parameter_type (dget m ''default'')" "''type''"]
  by (auto simp: parameter_from_mapping_def infer_type_nonempty intro: normalize_norm)

lemma list_all_put: "list_all P d \<Longrightarrow> P (k, v) \<Longrightarrow> list_all P (od_put k v d)"
  by (induction d) auto

lemma parameters_read:
  assumes "floats_printed raw" and "normalize_parameter_contracts raw = Inr ps"
  shows "od_ok ps \<and> list_all parameter_ok ps"
proof (cases raw)
  case (VDict d)
  with assms(2) have "fold_res (\<lambda>ps (name, v).
            if py_strip name = [] then Inr ps
            else bind_res (py_dict v) (\<lambda>m.
              bind_res (parameter_from_mapping m) (\<lambda>p. Inr (od_put (py_strip name) p ps)))) [] d = Inr ps"
    by (simp add: normalize_parameter_contracts_def)
  then show ?thesis
  proof (rule fold_res_invariant)
    fix u :: "(string, parameter_contract) odict" and e :: "string \<times> pyval" and w
    assume e: "e \<in> set d" and u: "od_ok u \<and> list_all parameter_ok u"
      and s: "(case e of (name, v) \<Rightarrow> if py_strip name = [] then Inr u
            else bind_res (py_dict v) (\<lambda>m.
              bind_res (parameter_from_mapping m) (\<lambda>p. Inr (od_put (py_strip name) p u)))) = Inr w"
    obtain name v where n: "e = (name, v)" by (cases e)
    have v: "floats_printed v" using assms(1) e VDict n by (auto simp: list_all_iff)
    show "od_ok w \<and> list_all parameter_ok w"
    proof (cases "py_strip name = []")
      case False
      with s n obtain m p where m: "py_dict v = Inr m" "parameter_from_mapping m = Inr p" "w = od_put (py_strip name) p u"
        by auto
      have "parameter_ok (py_strip name, p)"
        using parameter_read [OF printed_dict [OF v m(1)] m(2)] False by (simp add: parameter_ok_def)
      with u m(3) show ?thesis by (simp add: list_all_put)
    qed (use s n u in simp)
  qed simp
qed (use assms(2) in \<open>auto simp: normalize_parameter_contracts_def\<close>)

lemma media_nonempty: "infer_media_type_for_task task \<noteq> []"
  by (simp add: infer_media_type_for_task_def)

lemma default_ok: "task_ok task (default_contract_of task)"
  by (simp add: task_ok_def default_contract_of_def media_nonempty default_required_inputs_def
      default_optional_inputs_def norm_list_def py_strip_def is_space_def)

lemma task_read:
  assumes m: "printed m" and t: "task_from_mapping name m = Inr t"
  shows "\<exists>task. validate_task_name_format name = Inr task \<and> task_ok task t"
proof -
  obtain task req opt ps where v: "validate_task_name_format name = Inr task"
    and r: "normalize_string_list (dget m ''required_inputs'') = Inr req"
      "normalize_string_list (dget m ''optional_inputs'') = Inr opt"
      "normalize_parameter_contracts (dget m ''parameters'') = Inr ps"
    and e: "t = \<lparr>tc_task = task,
      tc_media_type = py_str (or_else (dget m ''media_type'') (VStr (infer_media_type_for_task task))),
      tc_required_inputs = req, tc_optional_inputs = opt, tc_parameters = ps\<rparr>"
    using t unfolding task_from_mapping_def bind_res_Inr by blast
  have "py_str (or_else (dget m ''media_type'') (VStr (infer_media_type_for_task task))) \<noteq> []"
    by (rule or_else_text [OF dget_printed [OF m] media_nonempty])
  then have "task_ok task t"
    using normalize_norm [OF r(1)] normalize_norm [OF r(2)] parameters_read [OF dget_printed [OF m] r(3)]
    by (simp add: task_ok_def e)
  with v show ?thesis by blast
qed

lemma task_name_char:
  "is_lower_letter c \<or> is_digit c \<or> c = CHR ''_'' \<Longrightarrow> \<not> is_space c \<and> lower_char c = c"
  by (auto simp: is_lower_letter_def is_digit_def is_space_def lower_char_def Let_def)

lemma matches_chars: "matches_task_name s \<Longrightarrow> s \<noteq> [] \<and> (\<forall>c \<in> set s. \<not> is_space c \<and> lower_char c = c)"
  using task_name_char by (auto simp: matches_task_name_def list_all_iff split: list.splits)

lemma matches_fixed: "matches_task_name s \<Longrightarrow> py_strip s = s \<and> py_lower s = s"
proof -
  assume m: "matches_task_name s"
  have "py_strip s = s" using matches_chars [OF m] by (intro strip_fixed) simp
  moreover have "py_lower s = s" using matches_chars [OF m] by (simp add: py_lower_def map_idI)
  ultimately show ?thesis by simp
qed

lemma validate_fixed: "validate_task_name_format name = Inr k \<Longrightarrow> validate_task_name_format k = Inr k"
  by (auto simp: validate_task_name_format_def Let_def matches_fixed split: if_splits)

text \<open>What the dictionary of task contracts holds while it is built for the tasks \<open>tasks\<close>.\<close>

definition building :: "string list \<Rightarrow> (string, task_contract) odict \<Rightarrow> bool" where
  "building tasks d \<longleftrightarrow> (\<forall>t \<in> set tasks. od_get d t \<noteq> None) \<and>
     (\<forall>k t. od_get d k = Some t \<longrightarrow> task_ok k t) \<and>
     (\<forall>t \<in> set tasks. validate_task_name_format t \<noteq> Inr t \<longrightarrow> od_get d t = Some (default_contract_of t))"

lemma default_get:
  "od_get (foldl (\<lambda>d task. od_put task (default_contract_of task) d) d tasks) k =
     (if k \<in> set tasks then Some (default_contract_of k) else od_get d k)"
  by (induction tasks arbitrary: d) auto

lemma building_default: "building tasks (default_task_contracts tasks)"
  by (auto simp: building_def default_task_contracts_def default_get default_ok split: if_splits)

lemma building_put:
  assumes b: "building tasks d" and e: "floats_printed (snd e)" and p: "put_raw_task d e = Inr d'"
  shows "building tasks d'"
proof -
  obtain m t k where m: "py_dict (snd e) = Inr m" "task_from_mapping (fst e) m = Inr t"
    "validate_task_name_format (fst e) = Inr k" "d' = od_put k t d"
    using p by (auto simp: put_raw_task_def)
  have "task_ok k t" using task_read [OF printed_dict [OF e m(1)] m(2)] m(3) by auto
  moreover have "validate_task_name_format k = Inr k" by (rule validate_fixed [OF m(3)])
  ultimately show ?thesis using b unfolding m(4) building_def by auto
qed

lemma building_set_default: "building tasks d \<Longrightarrow> set ts \<subseteq> set tasks \<Longrightarrow> foldl set_default_task d ts = d"
  by (induction ts) (auto simp: building_def set_default_task_def)

lemma build_read:
  assumes raw: "printed raw" and r: "build_task_contracts raw tasks = Inr cs"
  shows "\<exists>d. building tasks d \<and> cs = map (\<lambda>task. (task, the (od_get d task))) tasks"
proof -
  obtain xs d where i: "py_items (or_else (dget raw ''task_contracts'') (VDict [])) = Inr xs"
    and d: "fold_res put_raw_task (default_task_contracts tasks) xs = Inr d"
    and cs: "cs = map (\<lambda>task. (task, the (od_get (foldl set_default_task d tasks) task))) tasks"
    using r unfolding build_task_contracts_def bind_res_Inr Let_def by blast
  have "floats_printed (or_else (dget raw ''task_contracts'') (VDict []))"
    by (simp add: or_else_def dget_printed [OF raw])
  then have x: "printed xs" using i by (auto simp: py_items_def split: pyval.splits)
  have b: "building tasks d"
  proof (rule fold_res_invariant [where P = "building tasks", OF d building_default])
    fix u e v
    assume e: "e \<in> set xs" and u: "building tasks u" "put_raw_task u e = Inr v"
    have "floats_printed (snd e)" using x e by (auto simp: list_all_iff)
    then show "building tasks v" by (rule building_put [OF u(1) _ u(2)])
  qed
  have "foldl set_default_task d tasks = d" by (rule building_set_default [OF b subset_refl])
  with b show ?thesis unfolding cs by (intro exI [of _ d]) simp
qed

lemma derive_norm: "derive_media_types_from_tasks tasks \<noteq> [] \<and> norm_list (derive_media_types_from_tasks tasks)"
  by (simp add: derive_media_types_from_tasks_def Let_def norm_list_def py_strip_def is_space_def)

lemma from_mapping_ok:
  assumes "from_mapping fallback_name raw = Inr c" and raw: "printed raw"
  shows "contract_ok c \<and> (\<forall>t \<in> set (pp_supported_tasks c).
    validate_task_name_format t \<noteq> Inr t \<longrightarrow> get_task_contract t c = Some (default_contract_of t))"
proof -
  note filled = or_else_text [OF dget_printed [OF raw]]
  define pn where "pn = py_strip (py_str (or_else (dget raw ''pipeline_name'') (VStr fallback_name)))"
  have pn: "pn \<noteq> []" "py_strip pn = pn"
    using assms(1) by (auto simp: from_mapping_def Let_def pn_def)
  obtain tasks media n entry cs where r: "normalize_string_list (dget raw ''supported_tasks'') = Inr tasks" "tasks \<noteq> []"
      "normalize_string_list (dget raw ''supported_media_types'') = Inr media" "\<not> n < 1"
      "mapping_of (or_else (dget raw ''entrypoints'') (VDict [])) = Inr entry" "build_task_contracts raw tasks = Inr cs"
    and c: "c = \<lparr>pp_contract_version = py_str (or_else (dget raw ''contract_version'') (VStr ''v1'')),
                 pp_pipeline_name = pn, pp_supported_tasks = tasks,
                 pp_supported_media_types = (if media = [] then derive_media_types_from_tasks tasks else media),
                 pp_execution_mode = py_str (or_else (dget raw ''execution_mode'') (VStr ''serial_single_pipeline'')),
                 pp_max_concurrent = n,
                 pp_get_pipeline = py_str (or_else (dget entry ''get_pipeline'') (VStr ''get_pipeline'')),
                 pp_run_with_file = py_str (or_else (dget entry ''run_with_file'') (VStr ''run_with_file'')),
                 pp_task_contracts = cs\<rparr>"
    using assms(1) pn(1) unfolding from_mapping_def Let_def pn_def [symmetric] if_Inr bind_res_Inr sum.inject by blast
  have "floats_printed (or_else (dget raw ''entrypoints'') (VDict []))" by (simp add: or_else_def dget_printed [OF raw])
  then have entry: "printed entry" using r(5) by (auto simp: mapping_of_def split: pyval.splits)
  obtain d where d: "building tasks d" "cs = map (\<lambda>task. (task, the (od_get d task))) tasks"
    using build_read [OF raw r(6)] by blast
  have "\<forall>(k, t) \<in> set cs. task_ok k t"
    using d by (auto simp: building_def)
  moreover have "od_keys cs = tasks" by (simp add: d(2) comp_def)
  moreover have "od_get cs t = Some (default_contract_of t)" if "t \<in> set tasks" "validate_task_name_format t \<noteq> Inr t" for t
    using that d by (auto simp: building_def map_of_map_keys map_of_map_restrict restrict_map_def)
  ultimately show ?thesis
    using pn r(2,4) normalize_norm [OF r(1)] normalize_norm [OF r(3)] derive_norm [of tasks]
      filled [of "''v1''" "''contract_version''"] filled [of "''serial_single_pipeline''" "''execution_mode''"]
      or_else_text [OF dget_printed [OF entry], of "''get_pipeline''" "''get_pipeline''"]
      or_else_text [OF dget_printed [OF entry], of "''run_with_file''" "''run_with_file''"]
    by (simp add: contract_ok_def c get_task_contract_def)
qed

text \<open>C35: A contract that is read is well formed. Whatever the manifest contains, \<open>from_mapping\<close> either
  raises or returns a contract with a stripped non-empty name, at least one task, distinct,
  non-empty and stripped task names and media types, a positive concurrency, and exactly one
  well-formed task contract for each task, under its name and in the order of the tasks. A
  supported task whose name is not in the normal form of task names has the default contract:
  a contract that the manifest gives for it is ignored.\<close>

theorem contract_well_formed:
  assumes "from_mapping fallback_name raw = Inr c" and "floats_printed (VDict raw)"
  shows "contract_ok c \<and> (\<forall>t \<in> set (pp_supported_tasks c).
    validate_task_name_format t \<noteq> Inr t \<longrightarrow> get_task_contract t c = Some (default_contract_of t))"
  using from_mapping_ok [OF assms(1)] assms(2) by simp

lemma contract_well_formed_witness:
  "\<exists>c. from_mapping ''demo'' [(''supported_tasks'', VList [VStr '' t2v '', VStr ''T2I'']),
        (''task_contracts'', VDict [(''T2I'', VDict [(''media_type'', VStr ''audio'')])])] = Inr c \<and>
      pp_supported_tasks c = [''t2v'', ''T2I''] \<and> contract_ok c \<and>
      get_task_contract ''T2I'' c = Some (default_contract_of ''T2I'')"
proof -
  let ?raw = "[(''supported_tasks'', VList [VStr '' t2v '', VStr ''T2I'']),
        (''task_contracts'', VDict [(''T2I'', VDict [(''media_type'', VStr ''audio'')])])]"
  let ?c = "projr (from_mapping ''demo'' ?raw)"
  have "is_ok (from_mapping ''demo'' ?raw)" by code_simp
  then have r: "from_mapping ''demo'' ?raw = Inr ?c" by (cases "from_mapping ''demo'' ?raw") simp_all
  have s: "pp_supported_tasks ?c = [''t2v'', ''T2I'']" by code_simp
  have "validate_task_name_format ''T2I'' = Inr ''t2i''" by code_simp
  moreover have "floats_printed (VDict ?raw)" by simp
  ultimately have "contract_ok ?c \<and> get_task_contract ''T2I'' ?c = Some (default_contract_of ''T2I'')"
    using contract_well_formed [OF r] s by simp
  with r s show ?thesis by blast
qed

section \<open>Reading the metadata back\<close>

lemma mapping_simps [simp]: "py_dict (VDict d) = Inr d" "py_items (VDict d) = Inr d" "mapping_of (VDict d) = Inr d"
  by (simp_all add: py_dict_def py_items_def mapping_of_def)

lemma or_else_str: "s \<noteq> [] \<Longrightarrow> or_else (VStr s) v = VStr s"
  by (simp add: or_else_def)

lemma parameter_back:
  assumes "pc_type p \<noteq> []" and "norm_list (pc_enum p)"
  shows "\<exists>m. parameter_to_metadata p = VDict m \<and> parameter_from_mapping m = Inr p"
  using assms
  by (simp add: parameter_to_metadata_def parameter_from_mapping_def dget_def normalize_str_list or_else_def)

lemma parameters_back:
  "od_ok (acc @ ps) \<Longrightarrow> list_all parameter_ok ps \<Longrightarrow>
     fold_res (\<lambda>ps (name, v).
            if py_strip name = [] then Inr ps
            else bind_res (py_dict v) (\<lambda>m.
              bind_res (parameter_from_mapping m) (\<lambda>p. Inr (od_put (py_strip name) p ps))))
       acc (map (\<lambda>(name, p). (name, parameter_to_metadata p)) ps) = Inr (acc @ ps)"
proof (induction ps arbitrary: acc)
  case (Cons e ps)
  obtain name p where e: "e = (name, p)" by (cases e)
  have ok: "name \<noteq> []" "py_strip name = name" "pc_type p \<noteq> []" "norm_list (pc_enum p)"
    using Cons.prems(2) e by (simp_all add: parameter_ok_def)
  obtain m where m: "parameter_to_metadata p = VDict m" "parameter_from_mapping m = Inr p"
    using parameter_back [OF ok(3,4)] by blast
  have "od_get acc name = None" using Cons.prems(1) e by (simp add: od_ok_def map_of_eq_None_iff)
  then have "od_put (py_strip name) p acc = acc @ [e]" by (simp add: ok(2) od_put_absent e)
  then show ?case using Cons.IH [of "acc @ [e]"] Cons.prems ok m by (simp add: e)
qed simp

definition all_exposed :: "pipeline_contract \<Rightarrow> bool" where
  "all_exposed c \<longleftrightarrow> (\<forall>(k, t) \<in> set (pp_task_contracts c). \<forall>(name, p) \<in> set (tc_parameters t). pc_exposed p)"

lemma task_back:
  assumes t: "task_ok k t" and k: "validate_task_name_format k = Inr k"
    and x: "\<forall>(name, p) \<in> set (tc_parameters t). pc_exposed p"
  shows "\<exists>m. task_to_metadata t = VDict m \<and> task_from_mapping k m = Inr t"
proof -
  have f: "filter (\<lambda>(name, p). pc_exposed p) (tc_parameters t) = tc_parameters t"
    using x by (simp add: filter_id_conv split_beta)
  have "normalize_parameter_contracts (VDict (map (\<lambda>(name, p). (name, parameter_to_metadata p)) (tc_parameters t))) =
      Inr (tc_parameters t)"
    using parameters_back [of "[]" "tc_parameters t"] t by (simp add: normalize_parameter_contracts_def task_ok_def)
  then show ?thesis
    using t by (simp add: task_to_metadata_def task_from_mapping_def f k dget_def normalize_str_list or_else_str task_ok_def)
qed

lemma tasks_back:
  "(\<forall>(k, t) \<in> set cs. task_ok k t \<and> validate_task_name_format k = Inr k \<and>
       (\<forall>(name, p) \<in> set (tc_parameters t). pc_exposed p)) \<Longrightarrow>
     fold_res put_raw_task d (od_map task_to_metadata cs) = Inr (foldl (\<lambda>d (k, t). od_put k t d) d cs)"
proof (induction cs arbitrary: d)
  case (Cons e cs)
  obtain k t where e: "e = (k, t)" by (cases e)
  obtain m where m: "task_to_metadata t = VDict m" "task_from_mapping k m = Inr t"
    using task_back [of k t] Cons.prems e by auto
  have "put_raw_task d (k, task_to_metadata t) = Inr (od_put k t d)"
    using Cons.prems e m by (simp add: put_raw_task_def)
  with Cons e show ?case by (simp add: od_map_def)
qed (simp add: od_map_def)

lemma puts_get:
  "od_get (foldl (\<lambda>d (k, t). od_put k t d) d cs) j =
     (case od_get (rev cs) j of None \<Rightarrow> od_get d j | Some t \<Rightarrow> Some t)"
  by (induction cs arbitrary: d) (auto simp: map_add_def split: option.splits)

lemma lookups: "od_ok cs \<Longrightarrow> map (\<lambda>k. (k, the (od_get cs k))) (od_keys cs) = cs"
  unfolding list.map_comp by (rule map_idI) (auto simp: od_ok_def)

lemma set_default_present: "\<forall>t \<in> set ts. od_get d t \<noteq> None \<Longrightarrow> foldl set_default_task d ts = d"
  by (induction ts) (auto simp: set_default_task_def)

lemma build_back:
  assumes cs: "\<forall>(k, t) \<in> set cs. task_ok k t \<and> validate_task_name_format k = Inr k \<and>
       (\<forall>(name, p) \<in> set (tc_parameters t). pc_exposed p)"
    and od: "od_ok cs" and raw: "dget raw ''task_contracts'' = VDict (od_map task_to_metadata cs)"
  shows "build_task_contracts raw (od_keys cs) = Inr cs"
proof -
  define d where "d = foldl (\<lambda>d (k, t). od_put k t d) (default_task_contracts (od_keys cs)) cs"
  have f: "fold_res put_raw_task (default_task_contracts (od_keys cs)) (od_map task_to_metadata cs) = Inr d"
    unfolding d_def by (rule tasks_back [OF cs])
  have "od_get (rev cs) j = od_get cs j" for j
  proof -
    have r: "od_get (rev cs) j = Some t \<longleftrightarrow> od_get cs j = Some t" for t
      using od by (simp add: od_ok_def rev_map [symmetric])
    then show ?thesis by (metis not_None_eq)
  qed
  moreover have p: "od_get cs k \<noteq> None" if "k \<in> set (od_keys cs)" for k
    using that by (simp add: map_of_eq_None_iff)
  ultimately have g: "od_get d k = od_get cs k" if "k \<in> set (od_keys cs)" for k
    using that unfolding d_def puts_get by (metis option.case_eq_if option.collapse)
  have "\<forall>k \<in> set (od_keys cs). od_get d k \<noteq> None" using g p by (metis (no_types))
  then have s: "foldl set_default_task d (od_keys cs) = d" by (rule set_default_present)
  have "map (\<lambda>task. (task, the (od_get d task))) (od_keys cs) = map (\<lambda>k. (k, the (od_get cs k))) (od_keys cs)"
    by (rule map_cong) (simp_all only: g refl)
  also have "\<dots> = cs" by (rule lookups [OF od])
  finally have m: "map (\<lambda>task. (task, the (od_get d task))) (od_keys cs) = cs" .
  have "or_else (dget raw ''task_contracts'') (VDict []) = VDict (od_map task_to_metadata cs)"
    unfolding raw by (cases cs) (simp_all add: or_else_def od_map_def)
  then show ?thesis unfolding build_task_contracts_def by (simp only: mapping_simps bind_res_simps f Let_def s m)
qed

lemma metadata_gets:
  "dget (to_metadata c) ''contract_version'' = VStr (pp_contract_version c)"
  "dget (to_metadata c) ''pipeline_name'' = VStr (pp_pipeline_name c)"
  "dget (to_metadata c) ''supported_tasks'' = str_list (pp_supported_tasks c)"
  "dget (to_metadata c) ''supported_media_types'' = str_list (pp_supported_media_types c)"
  "dget (to_metadata c) ''execution_mode'' = VStr (pp_execution_mode c)"
  "dget (to_metadata c) ''effective_max_concurrent_tasks'' = VInt (pp_max_concurrent c)"
  "dget (to_metadata c) ''entrypoints'' =
     VDict [(''get_pipeline'', VStr (pp_get_pipeline c)), (''run_with_file'', VStr (pp_run_with_file c))]"
  "dget (to_metadata c) ''task_contracts'' = VDict (od_map task_to_metadata (pp_task_contracts c))"
  by (simp_all add: to_metadata_def dget_def)

text \<open>C36: The metadata of a contract can be read back. For every contract that was read from a
  manifest whose tasks are named in normal form and whose parameters are all exposed, reading
  what \<open>to_metadata\<close> writes gives the same contract, under any fallback name.\<close>

theorem contract_round_trip:
  assumes "from_mapping fallback_name raw = Inr c" and "floats_printed (VDict raw)"
    and "\<forall>t \<in> set (pp_supported_tasks c). validate_task_name_format t = Inr t" and "all_exposed c"
  shows "from_mapping other_name (to_metadata c) = Inr c"
proof -
  have ok: "contract_ok c"
  proof -
    have raw: "printed raw" using assms(2) by simp
    show ?thesis using from_mapping_ok [OF assms(1) raw] by simp
  qed
  let ?cs = "pp_task_contracts c"
  have keys: "pp_supported_tasks c = od_keys ?cs" using ok by (simp add: contract_ok_def)
  have "\<forall>(k, t) \<in> set ?cs. task_ok k t \<and> validate_task_name_format k = Inr k \<and>
       (\<forall>(name, p) \<in> set (tc_parameters t). pc_exposed p)"
    using ok assms(3,4) keys by (fastforce simp: contract_ok_def all_exposed_def)
  moreover have "od_ok ?cs" using ok keys by (simp add: contract_ok_def norm_list_def od_ok_def)
  ultimately have b: "build_task_contracts (to_metadata c) (pp_supported_tasks c) = Inr ?cs"
    unfolding keys by (rule build_back) (simp add: to_metadata_def dget_def)
  have e: "dget [(''get_pipeline'', VStr x), (''run_with_file'', VStr y)] ''get_pipeline'' = VStr x"
    "dget [(''get_pipeline'', VStr x), (''run_with_file'', VStr y)] ''run_with_file'' = VStr y" for x y
    by (simp_all add: dget_def)
  have n: "or_else (VInt i) v = VInt i" "py_int (VInt i) = Inr i" if "1 \<le> i" for i v
    using that by (simp_all add: or_else_def py_int_def)
  have d: "or_else (VDict (x # xs)) v = VDict (x # xs)" for x xs v by (simp add: or_else_def)
  show ?thesis
    using ok b by (simp add: from_mapping_def contract_ok_def Let_def metadata_gets or_else_str normalize_str_list n d e)
qed

lemma contract_round_trip_witness:
  "\<exists>c. from_mapping ''demo'' [(''supported_tasks'', VList [VStr ''t2v'', VStr ''i2i'']), (''effective_max_concurrent_tasks'', VStr ''4''),
        (''task_contracts'', VDict [(''T2V'', VDict [(''parameters'', VDict [(''seed'', VDict [(''default'', VInt 42)])])])])] = Inr c \<and>
      pp_max_concurrent c = 4 \<and> from_mapping ''other'' (to_metadata c) = Inr c"
proof -
  let ?raw = "[(''supported_tasks'', VList [VStr ''t2v'', VStr ''i2i'']), (''effective_max_concurrent_tasks'', VStr ''4''),
        (''task_contracts'', VDict [(''T2V'', VDict [(''parameters'', VDict [(''seed'', VDict [(''default'', VInt 42)])])])])]"
  let ?c = "projr (from_mapping ''demo'' ?raw)"
  have "is_ok (from_mapping ''demo'' ?raw)" by code_simp
  then have r: "from_mapping ''demo'' ?raw = Inr ?c" by (cases "from_mapping ''demo'' ?raw") simp_all
  have m: "pp_max_concurrent ?c = 4" by code_simp
  have s: "pp_supported_tasks ?c = [''t2v'', ''i2i'']" by code_simp
  have "validate_task_name_format ''t2v'' = Inr ''t2v''" "validate_task_name_format ''i2i'' = Inr ''i2i''" by code_simp+
  then have v: "\<forall>t \<in> set (pp_supported_tasks ?c). validate_task_name_format t = Inr t" unfolding s by simp
  have x: "all_exposed ?c" by code_simp
  have f: "floats_printed (VDict ?raw)" by simp
  show ?thesis using contract_round_trip [OF r f v x, of "''other''"] r m by blast
qed

end
