(* ===== verification/Task_Manager.thy ===== *)
theory Task_Manager
  imports Pipeline_Contract
begin

text \<open>
  The task queue of the generation service, \<open>telefuser/service/core/task_manager.py\<close>.
  Every method runs under one re-entrant lock, so each is one atomic state transformer;
  wall-clock reads and the uuid of a new task are arguments. The service metrics the
  methods bump (\<open>telefuser/metrics/service_metrics.py\<close>) are a log of metric events.
  Times are exact rationals. \<open>TaskInfo.thread\<close> is never assigned in the sources, so the
  join in \<open>cancel_task\<close> is never taken and is left out.
\<close>

section \<open>State\<close>

datatype task_status =
    T_PENDING | T_PROCESSING | T_STREAMING | T_COMPLETED | T_FAILED | T_CANCELLED

record task_message =
  msg_task_id :: "string option"
  msg_fields :: "(string \<times> pyval) list"

record task_info =
  ti_status :: task_status
  ti_message :: "task_message option"
  ti_metadata :: "(string \<times> pyval) list"
  ti_start_time :: rat
  ti_end_time :: "rat option"
  ti_error :: "string option"
  ti_output_path :: "pyval"
  ti_peak_memory_mb :: "rat option"
  ti_inference_time_s :: "rat option"
  ti_result :: "pyval option"
  ti_stop_event :: bool

datatype metric = M_Created | M_Completed rat | M_Failed | M_Cancelled

record task_manager =
  max_queue_size :: int
  cleanup_keep_count :: int
  tm_max_concurrent :: int
  tm_tasks :: "(string, task_info) odict"
  tm_processing_lock :: bool
  tm_processing :: "(string, bool) odict"
  tm_zero_capacity :: bool
  total_tasks :: nat
  completed_tasks :: nat
  failed_tasks :: nat
  tm_metrics :: "metric list"

definition active_status :: "task_status \<Rightarrow> bool" where
  "active_status s = (s \<in> {T_PENDING, T_PROCESSING, T_STREAMING})"

definition terminal_status :: "task_status \<Rightarrow> bool" where
  "terminal_status s = (s \<in> {T_COMPLETED, T_FAILED, T_CANCELLED})"

definition new_task_manager :: "int \<Rightarrow> int \<Rightarrow> int \<Rightarrow> task_manager" where
  "new_task_manager queue keep conc =
     \<lparr>max_queue_size = queue, cleanup_keep_count = keep, tm_max_concurrent = max 1 conc,
      tm_tasks = [], tm_processing_lock = False, tm_processing = [], tm_zero_capacity = False,
      total_tasks = 0, completed_tasks = 0, failed_tasks = 0, tm_metrics = []\<rparr>"

section \<open>Request metadata\<close>

definition metadata_fields :: "string list" where
  "metadata_fields =
     [''task'', ''prompt'', ''negative_prompt'', ''resolution'', ''target_video_length'',
      ''aspect_ratio'', ''output_format'', ''model'', ''first_image_path'',
      ''last_image_path'', ''ref_video_path'']"

definition media_type_of :: "pyval \<Rightarrow> string" where
  "media_type_of v = (case v of VStr s \<Rightarrow> infer_media_type_for_task s | _ \<Rightarrow> ''video'')"

definition serialize_task_message :: "task_message option \<Rightarrow> (string \<times> pyval) list" where
  "serialize_task_message m =
     (case m of None \<Rightarrow> []
      | Some msg \<Rightarrow>
          let data = foldl (\<lambda>d f. let v = dget (msg_fields msg) f in
                              if v \<noteq> VNone \<and> v \<noteq> VStr [] then od_put f v d else d)
                       [] metadata_fields;
              task_name = or_else (dget data ''task'') (dget (msg_fields msg) ''task'')
          in if truthy task_name
             then od_put ''media_type'' (VStr (media_type_of task_name)) data
             else data)"

section \<open>Operations\<close>

definition count_status :: "(task_status \<Rightarrow> bool) \<Rightarrow> (string, task_info) odict \<Rightarrow> nat" where
  "count_status P d = length (filter (\<lambda>(k, t). P (ti_status t)) d)"

definition finish_key :: "task_info \<Rightarrow> rat" where
  "finish_key t = (case ti_end_time t of Some e \<Rightarrow> e | None \<Rightarrow> ti_start_time t)"

definition cleanup_old_tasks :: "task_manager \<Rightarrow> task_manager" where
  "cleanup_old_tasks m =
     (let n = int (length (tm_tasks m)); keep = cleanup_keep_count m in
      if n \<le> keep then m
      else let done = filter (\<lambda>(k, t). terminal_status (ti_status t)) (tm_tasks m);
               by_age = sort_key (\<lambda>(k, t). finish_key t) done;
               stale = map fst (take (nat (n - keep)) by_age)
           in m\<lparr>tm_tasks := foldl (\<lambda>d k. od_del k d) (tm_tasks m) stale\<rparr>)"

definition msg_task_id_of :: "task_message option \<Rightarrow> string option" where
  "msg_task_id_of m = (case m of None \<Rightarrow> None | Some msg \<Rightarrow> msg_task_id msg)"

definition msg_output_path :: "task_message option \<Rightarrow> pyval" where
  "msg_output_path m = (case m of None \<Rightarrow> VNone | Some msg \<Rightarrow> dget (msg_fields msg) ''output_path'')"

definition create_task ::
    "rat \<Rightarrow> string \<Rightarrow> task_message option \<Rightarrow> task_manager \<Rightarrow> string res \<times> task_manager" where
  "create_task now uuid msg m =
     (if tm_zero_capacity m then
        (Inl (RuntimeError ''No inference capacity: all pipeline replicas are dead''), m)
      else if (case msg_task_id_of msg of None \<Rightarrow> False
               | Some tid \<Rightarrow> od_get (tm_tasks m) tid \<noteq> None) then
        (Inl (RuntimeError (''Task ID '' @ the (msg_task_id_of msg) @ '' already exists'')), m)
      else if int (count_status active_status (tm_tasks m)) \<ge> max_queue_size m then
        (Inl (RuntimeError (''Task queue is full (max '' @ str_of_int (max_queue_size m)
                            @ '' tasks)'')), m)
      else
        let task_id = (case msg_task_id_of msg of Some tid \<Rightarrow> tid | None \<Rightarrow> uuid);
            info = \<lparr>ti_status = T_PENDING, ti_message = msg,
                    ti_metadata = serialize_task_message msg, ti_start_time = now,
                    ti_end_time = None, ti_error = None, ti_output_path = msg_output_path msg,
                    ti_peak_memory_mb = None, ti_inference_time_s = None, ti_result = None,
                    ti_stop_event = False\<rparr>;
            m1 = m\<lparr>tm_tasks := od_put task_id info (tm_tasks m),
                   total_tasks := total_tasks m + 1,
                   tm_metrics := tm_metrics m @ [M_Created]\<rparr>
        in (Inr task_id, cleanup_old_tasks m1))"

definition transition_to ::
    "rat \<Rightarrow> string \<Rightarrow> task_status \<Rightarrow> task_status list \<Rightarrow> task_manager
     \<Rightarrow> task_info res \<times> task_manager" where
  "transition_to now task_id target from_statuses m =
     (case od_get (tm_tasks m) task_id of
        None \<Rightarrow> (Inl (KeyError (''Task '' @ task_id @ '' not found'')), m)
      | Some t \<Rightarrow>
          if ti_status t \<notin> set from_statuses then (Inr t, m)
          else let t' = t\<lparr>ti_status := target, ti_start_time := now\<rparr> in
               (Inr t', m\<lparr>tm_tasks := move_to_end task_id (od_put task_id t' (tm_tasks m))\<rparr>))"

definition start_task :: "rat \<Rightarrow> string \<Rightarrow> task_manager \<Rightarrow> task_info res \<times> task_manager" where
  "start_task now task_id = transition_to now task_id T_PROCESSING [T_PENDING]"

definition start_streaming :: "rat \<Rightarrow> string \<Rightarrow> task_manager \<Rightarrow> task_info res \<times> task_manager" where
  "start_streaming now task_id = transition_to now task_id T_STREAMING [T_PENDING, T_PROCESSING]"

definition complete_task ::
    "rat \<Rightarrow> string \<Rightarrow> string option \<Rightarrow> rat option \<Rightarrow> rat option \<Rightarrow> pyval option
     \<Rightarrow> task_manager \<Rightarrow> task_manager" where
  "complete_task now task_id out peak inference result m =
     (case od_get (tm_tasks m) task_id of
        None \<Rightarrow> m
      | Some t \<Rightarrow>
          if terminal_status (ti_status t) then m
          else
            let duration = now - ti_start_time t;
                out' = (case out of Some p \<Rightarrow> if p \<noteq> [] then VStr p else ti_output_path t
                        | None \<Rightarrow> ti_output_path t);
                t' = t\<lparr>ti_status := T_COMPLETED, ti_end_time := Some now,
                       ti_output_path := out',
                       ti_inference_time_s := Some (case inference of Some i \<Rightarrow> i | None \<Rightarrow> duration),
                       ti_peak_memory_mb := peak, ti_result := result, ti_message := None\<rparr>
            in m\<lparr>tm_tasks := od_put task_id t' (tm_tasks m),
                 completed_tasks := completed_tasks m + 1,
                 tm_metrics := tm_metrics m @ [M_Completed duration]\<rparr>)"

definition fail_task :: "rat \<Rightarrow> string \<Rightarrow> string \<Rightarrow> task_manager \<Rightarrow> task_manager" where
  "fail_task now task_id err m =
     (case od_get (tm_tasks m) task_id of
        None \<Rightarrow> m
      | Some t \<Rightarrow>
          if terminal_status (ti_status t) then m
          else
            let t' = t\<lparr>ti_status := T_FAILED, ti_end_time := Some now,
                       ti_error := Some err, ti_message := None\<rparr>
            in m\<lparr>tm_tasks := od_put task_id t' (tm_tasks m),
                 failed_tasks := failed_tasks m + 1,
                 tm_metrics := tm_metrics m @ [M_Failed]\<rparr>)"

definition cancel_task :: "rat \<Rightarrow> string \<Rightarrow> task_manager \<Rightarrow> bool \<times> task_manager" where
  "cancel_task now task_id m =
     (case od_get (tm_tasks m) task_id of
        None \<Rightarrow> (False, m)
      | Some t \<Rightarrow>
          if ti_status t = T_COMPLETED \<or> ti_status t = T_FAILED then (False, m)
          else
            let t' = t\<lparr>ti_stop_event := True, ti_status := T_CANCELLED,
                       ti_end_time := Some now, ti_error := Some ''Task cancelled by user'',
                       ti_message := (if ti_status t = T_PENDING then None else ti_message t)\<rparr>
            in (True, m\<lparr>tm_tasks := od_put task_id t' (tm_tasks m),
                        tm_metrics := tm_metrics m @ [M_Cancelled]\<rparr>))"

definition cancel_all_tasks :: "rat \<Rightarrow> task_manager \<Rightarrow> task_manager" where
  "cancel_all_tasks now m =
     foldl (\<lambda>m' (k, t). if active_status (ti_status t) then snd (cancel_task now k m') else m')
       m (tm_tasks m)"

definition fail_pending_info :: "rat \<Rightarrow> string \<Rightarrow> task_info \<Rightarrow> task_info" where
  "fail_pending_info now err t =
     (if ti_status t = T_PENDING
      then t\<lparr>ti_status := T_FAILED, ti_end_time := Some now, ti_error := Some err,
             ti_message := None\<rparr>
      else t)"

definition fail_all_pending :: "rat \<Rightarrow> string \<Rightarrow> task_manager \<Rightarrow> task_manager" where
  "fail_all_pending now err m =
     (let n = count_status (\<lambda>s. s = T_PENDING) (tm_tasks m) in
      m\<lparr>tm_tasks := od_map (fail_pending_info now err) (tm_tasks m),
        failed_tasks := failed_tasks m + n,
        tm_metrics := tm_metrics m @ replicate n M_Failed\<rparr>)"

definition first_pending :: "(string, task_info) odict \<Rightarrow> string option" where
  "first_pending d = map_option fst (List.find (\<lambda>(k, t). ti_status t = T_PENDING) d)"

definition get_next_pending_task :: "task_manager \<Rightarrow> string option" where
  "get_next_pending_task m = first_pending (tm_tasks m)"

definition dead_error :: string where
  "dead_error = ''No inference capacity: all pipeline replicas are dead''"

definition claim_next_pending_task ::
    "rat \<Rightarrow> task_manager \<Rightarrow> string option \<times> task_manager" where
  "claim_next_pending_task now m =
     (if tm_zero_capacity m then (None, fail_all_pending now dead_error m)
      else if int (length (tm_processing m)) \<ge> tm_max_concurrent m then (None, m)
      else case first_pending (tm_tasks m) of
             None \<Rightarrow> (None, m)
           | Some k \<Rightarrow>
               let t = the (od_get (tm_tasks m) k);
                   t' = t\<lparr>ti_status := T_PROCESSING, ti_start_time := now\<rparr>
               in (Some k, m\<lparr>tm_tasks := move_to_end k (od_put k t' (tm_tasks m)),
                             tm_processing := od_put k True (tm_processing m)\<rparr>))"

definition release_processing_slot :: "string \<Rightarrow> task_manager \<Rightarrow> task_manager" where
  "release_processing_slot task_id m =
     (let m1 = m\<lparr>tm_processing := od_del task_id (tm_processing m)\<rparr> in
      case od_get (tm_tasks m1) task_id of
        None \<Rightarrow> m1
      | Some t \<Rightarrow>
          if terminal_status (ti_status t)
          then m1\<lparr>tm_tasks := od_put task_id (t\<lparr>ti_message := None\<rparr>) (tm_tasks m1)\<rparr>
          else m1)"

definition set_max_concurrent_processing :: "rat \<Rightarrow> int \<Rightarrow> task_manager \<Rightarrow> task_manager" where
  "set_max_concurrent_processing now n m =
     (let m1 = m\<lparr>tm_max_concurrent := max 0 n\<rparr> in
      if tm_max_concurrent m1 = 0
      then fail_all_pending now dead_error (m1\<lparr>tm_zero_capacity := True\<rparr>)
      else m1)"

definition acquire_processing_lock :: "task_manager \<Rightarrow> bool \<times> task_manager" where
  "acquire_processing_lock m =
     (if tm_processing_lock m then (False, m) else (True, m\<lparr>tm_processing_lock := True\<rparr>))"

definition release_processing_lock :: "task_manager \<Rightarrow> task_manager" where
  "release_processing_lock m =
     (if tm_processing_lock m then m\<lparr>tm_processing_lock := False\<rparr> else m)"

section \<open>Queries\<close>

definition get_task :: "string \<Rightarrow> task_manager \<Rightarrow> task_info option" where
  "get_task task_id m = od_get (tm_tasks m) task_id"

definition get_active_task_count :: "task_manager \<Rightarrow> nat" where
  "get_active_task_count m = count_status active_status (tm_tasks m)"

definition get_pending_task_count :: "task_manager \<Rightarrow> nat" where
  "get_pending_task_count m = count_status (\<lambda>s. s = T_PENDING) (tm_tasks m)"

definition is_processing :: "task_manager \<Rightarrow> bool" where
  "is_processing m = (length (tm_processing m) > 0)"

record cleanup_snapshot =
  snap_active :: "string list"
  snap_end_times :: "(string \<times> rat) list"
  snap_statuses :: "(string \<times> task_status) list"

definition get_artifact_cleanup_snapshot :: "task_manager \<Rightarrow> cleanup_snapshot" where
  "get_artifact_cleanup_snapshot m =
     (let term = filter (\<lambda>(k, t). terminal_status (ti_status t)) (tm_tasks m) in
      \<lparr>snap_active = map fst (filter (\<lambda>(k, t). active_status (ti_status t)) (tm_tasks m)),
       snap_end_times = map (\<lambda>(k, t). (k, finish_key t)) term,
       snap_statuses = map (\<lambda>(k, t). (k, ti_status t)) term\<rparr>)"

record service_status =
  ss_busy :: bool
  ss_current_task :: "string option"
  ss_current_tasks :: "string list"
  ss_processing_count :: nat
  ss_max_concurrent :: int
  ss_active_tasks :: "string list"
  ss_pending_tasks :: nat
  ss_total :: nat
  ss_completed :: nat
  ss_failed :: nat

definition get_service_status :: "task_manager \<Rightarrow> service_status" where
  "get_service_status m =
     \<lparr>ss_busy = (tm_processing m \<noteq> []),
      ss_current_task = (case tm_processing m of [] \<Rightarrow> None | (k, _) # _ \<Rightarrow> Some k),
      ss_current_tasks = od_keys (tm_processing m),
      ss_processing_count = length (tm_processing m),
      ss_max_concurrent = tm_max_concurrent m,
      ss_active_tasks = map fst (filter (\<lambda>(k, t). ti_status t = T_PROCESSING
                                                 \<or> ti_status t = T_STREAMING) (tm_tasks m)),
      ss_pending_tasks = count_status (\<lambda>s. s = T_PENDING) (tm_tasks m),
      ss_total = total_tasks m, ss_completed = completed_tasks m, ss_failed = failed_tasks m\<rparr>"

section \<open>Operations as events\<close>

datatype tm_op =
    Op_Create rat string "task_message option"
  | Op_Start rat string
  | Op_Stream rat string
  | Op_Complete rat string "string option" "rat option" "rat option" "pyval option"
  | Op_Fail rat string string
  | Op_Cancel rat string
  | Op_Cancel_All rat
  | Op_Claim rat
  | Op_Release string
  | Op_Set_Max rat int
  | Op_Lock
  | Op_Unlock

fun tm_step :: "task_manager \<Rightarrow> tm_op \<Rightarrow> task_manager" where
  "tm_step m (Op_Create now uuid msg) = snd (create_task now uuid msg m)"
| "tm_step m (Op_Start now k) = snd (start_task now k m)"
| "tm_step m (Op_Stream now k) = snd (start_streaming now k m)"
| "tm_step m (Op_Complete now k out peak inference res) = complete_task now k out peak inference res m"
| "tm_step m (Op_Fail now k e) = fail_task now k e m"
| "tm_step m (Op_Cancel now k) = snd (cancel_task now k m)"
| "tm_step m (Op_Cancel_All now) = cancel_all_tasks now m"
| "tm_step m (Op_Claim now) = snd (claim_next_pending_task now m)"
| "tm_step m (Op_Release k) = release_processing_slot k m"
| "tm_step m (Op_Set_Max now n) = set_max_concurrent_processing now n m"
| "tm_step m Op_Lock = snd (acquire_processing_lock m)"
| "tm_step m Op_Unlock = release_processing_lock m"

section \<open>Counting and pending order\<close>

abbreviation status_at :: "(string, task_info) odict \<Rightarrow> string \<Rightarrow> task_status option" where
  "status_at d k \<equiv> map_option ti_status (od_get d k)"

abbreviation hits :: "(task_status \<Rightarrow> bool) \<Rightarrow> task_status option \<Rightarrow> nat" where
  "hits P s \<equiv> (case s of None \<Rightarrow> 0 | Some x \<Rightarrow> of_bool (P x))"

lemma count_Cons [simp]:
  "count_status P (kt # d) = of_bool (P (ti_status (snd kt))) + count_status P d"
  by (cases kt) (simp add: count_status_def)

lemma count_Nil [simp]: "count_status P [] = 0"
  by (simp add: count_status_def)

lemma count_append [simp]: "count_status P (d @ e) = count_status P d + count_status P e"
  by (simp add: count_status_def)

lemma count_put:
  "count_status P (od_put k t d) + hits P (status_at d k) = count_status P d + of_bool (P (ti_status t))"
  by (induction d) auto

lemma del_absent: "k \<notin> set (od_keys d) \<Longrightarrow> od_del k d = d"
  by (induction d) auto

lemma count_del:
  "od_ok d \<Longrightarrow> count_status P (od_del k d) + hits P (status_at d k) = count_status P d"
  by (induction d) (auto simp: od_ok_def del_absent)

lemma count_move [simp]: "od_ok d \<Longrightarrow> count_status P (move_to_end k d) = count_status P d"
  using count_del [of d P k] by (auto simp: move_to_end_def split: option.splits)

lemma count_mono: "(\<And>s. P s \<Longrightarrow> Q s) \<Longrightarrow> count_status P d \<le> count_status Q d"
  by (induction d) (auto simp: of_bool_def)

lemma count_pos: "od_get d k = Some t \<Longrightarrow> P (ti_status t) \<Longrightarrow> 0 < count_status P d"
  by (induction d) (auto split: if_splits)

lemma count_zero_get: "count_status P d = 0 \<Longrightarrow> od_get d k = Some t \<Longrightarrow> \<not> P (ti_status t)"
  using count_pos by fastforce

definition pending_ids :: "(string, task_info) odict \<Rightarrow> string list" where
  "pending_ids d = map fst (filter (\<lambda>(k, t). ti_status t = T_PENDING) d)"

lemma pending_Nil [simp]: "pending_ids [] = []"
  by (simp add: pending_ids_def)

lemma pending_Cons [simp]:
  "pending_ids ((k, t) # d) = (if ti_status t = T_PENDING then k # pending_ids d else pending_ids d)"
  by (simp add: pending_ids_def)

lemma pending_append [simp]: "pending_ids (d @ e) = pending_ids d @ pending_ids e"
  by (simp add: pending_ids_def)

lemma pending_subset: "set (pending_ids d) \<subseteq> set (od_keys d)"
  by (auto simp: pending_ids_def)

lemma first_pending_hd:
  "first_pending d = (case pending_ids d of [] \<Rightarrow> None | k # _ \<Rightarrow> Some k)"
  by (induction d) (auto simp: first_pending_def split: if_splits)

lemma first_pending_get:
  "od_ok d \<Longrightarrow> first_pending d = Some k \<Longrightarrow> \<exists>t. od_get d k = Some t \<and> ti_status t = T_PENDING"
  by (induction d) (force simp: first_pending_def od_ok_def split: if_splits)+

lemma pending_del: "od_ok d \<Longrightarrow> pending_ids (od_del k d) = removeAll k (pending_ids d)"
  by (induction d) (auto simp: od_ok_def)

lemma pending_put_done:
  "od_ok d \<Longrightarrow> ti_status t \<noteq> T_PENDING \<Longrightarrow> pending_ids (od_put k t d) = removeAll k (pending_ids d)"
proof (induction d)
  case Nil
  then show ?case by simp
next
  case (Cons kt d)
  then have "k \<notin> set (pending_ids d)" if "k = fst kt"
    using that pending_subset [of d] by (auto simp: od_ok_def)
  with Cons show ?case by (cases kt) (auto simp: od_ok_def)
qed

lemma pending_move: "od_ok d \<Longrightarrow> status_at d k \<noteq> Some T_PENDING \<Longrightarrow>
  pending_ids (move_to_end k d) = removeAll k (pending_ids d)"
  by (auto simp: move_to_end_def pending_del split: option.splits)
     (metis (no_types, lifting) in_set_conv_decomp_first od_keys_dom domIff pending_subset
        removeAll_id subsetD)

section \<open>The queue invariant\<close>

text \<open>
  Keys are unique; every task ever created is active, completed, failed, cancelled or
  pruned, so active, completed and failed tasks together never exceed the number created;
  the active tasks fit the queue bound; and once capacity is gone nothing is pending.
\<close>

definition tm_inv :: "task_manager \<Rightarrow> bool" where
  "tm_inv m \<longleftrightarrow>
     od_ok (tm_tasks m) \<and> od_ok (tm_processing m) \<and>
     count_status active_status (tm_tasks m) + completed_tasks m + failed_tasks m \<le> total_tasks m \<and>
     int (count_status active_status (tm_tasks m)) \<le> max 0 (max_queue_size m) \<and>
     (tm_zero_capacity m \<longrightarrow> count_status (\<lambda>s. s = T_PENDING) (tm_tasks m) = 0)"

lemma tm_inv_new: "tm_inv (new_task_manager q k c)"
  by (simp add: tm_inv_def new_task_manager_def)

lemma active_terminal: "active_status s \<longleftrightarrow> \<not> terminal_status s"
  by (cases s) (auto simp: active_status_def terminal_status_def)

lemma status_facts [simp]:
  "active_status T_PENDING" "active_status T_PROCESSING" "active_status T_STREAMING"
  "\<not> active_status T_COMPLETED" "\<not> active_status T_FAILED" "\<not> active_status T_CANCELLED"
  "terminal_status T_COMPLETED" "terminal_status T_FAILED" "terminal_status T_CANCELLED"
  "\<not> terminal_status T_PENDING" "\<not> terminal_status T_PROCESSING" "\<not> terminal_status T_STREAMING"
  by (auto simp: active_status_def terminal_status_def)

text \<open>Rewriting one existing entry.\<close>

lemma count_put_Some:
  "od_get d k = Some t0 \<Longrightarrow>
     count_status P (od_put k t d) + of_bool (P (ti_status t0)) = count_status P d + of_bool (P (ti_status t))"
  using count_put [of P k t d] by simp

lemma count_dels_le: "od_ok d \<Longrightarrow> count_status P (foldl (\<lambda>d k. od_del k d) d ks) \<le> count_status P d"
proof (induction ks arbitrary: d)
  case Nil
  then show ?case by simp
next
  case (Cons k ks)
  have "count_status P (od_del k d) \<le> count_status P d"
    using count_del [OF Cons.prems, of P k] by linarith
  with Cons.IH [of "od_del k d"] Cons.prems show ?case by (auto intro: order.trans)
qed

lemma od_ok_dels [simp]: "od_ok d \<Longrightarrow> od_ok (foldl (\<lambda>d k. od_del k d) d ks)"
  by (induction ks arbitrary: d) auto

lemma get_foldl_del: "od_get (foldl (\<lambda>d k. od_del k d) d ks) j = (if j \<in> set ks then None else od_get d j)"
  by (induction ks arbitrary: d) auto

lemma tm_inv_del_tasks:
  assumes "tm_inv m"
  shows "tm_inv (m\<lparr>tm_tasks := foldl (\<lambda>d k. od_del k d) (tm_tasks m) ks\<rparr>)"
proof -
  from assms have ok: "od_ok (tm_tasks m)" by (simp add: tm_inv_def)
  show ?thesis
    using assms count_dels_le [OF ok, of active_status ks] count_dels_le [OF ok, of "\<lambda>s. s = T_PENDING" ks]
    by (auto simp: tm_inv_def)
qed

lemma tm_inv_cleanup: "tm_inv m \<Longrightarrow> tm_inv (cleanup_old_tasks m)"
  by (simp add: cleanup_old_tasks_def Let_def tm_inv_del_tasks)

lemma create_task_cases:
  obtains (refused) e where "create_task now uuid msg m = (Inl e, m)"
  | (created) task_id info where
      "fst (create_task now uuid msg m) = Inr task_id"
      "snd (create_task now uuid msg m) = cleanup_old_tasks
         (m\<lparr>tm_tasks := od_put task_id info (tm_tasks m), total_tasks := total_tasks m + 1,
            tm_metrics := tm_metrics m @ [M_Created]\<rparr>)"
      "ti_status info = T_PENDING" "ti_message info = msg"
      "\<not> tm_zero_capacity m"
      "int (count_status active_status (tm_tasks m)) < max_queue_size m"
      "task_id = (case msg_task_id_of msg of Some tid \<Rightarrow> tid | None \<Rightarrow> uuid)"
      "msg_task_id_of msg \<noteq> None \<Longrightarrow> od_get (tm_tasks m) task_id = None"
proof (cases "\<exists>e. create_task now uuid msg m = (Inl e, m)")
  case True
  with refused show ?thesis by blast
next
  case False
  show ?thesis
    by (rule created) (insert False, auto simp: create_task_def Let_def split: if_splits option.splits)
qed

lemma tm_inv_create: "tm_inv m \<Longrightarrow> tm_inv (snd (create_task now uuid msg m))"
proof (cases rule: create_task_cases [of now uuid msg m])
  case (refused e)
  then show "tm_inv m \<Longrightarrow> ?thesis" by simp
next
  case (created task_id info)
  assume inv: "tm_inv m"
  have "tm_inv (m\<lparr>tm_tasks := od_put task_id info (tm_tasks m), total_tasks := total_tasks m + 1,
                  tm_metrics := tm_metrics m @ [M_Created]\<rparr>)"
    using inv created count_put [of active_status task_id info "tm_tasks m"]
    by (simp add: tm_inv_def)
  then show ?thesis using created by (simp add: tm_inv_cleanup)
qed

lemma tm_inv_finish:
  assumes "tm_inv m" and "od_get (tm_tasks m) k = Some t" and "active_status (ti_status t)"
    and "\<not> active_status (ti_status t')"
  shows "tm_inv (m\<lparr>tm_tasks := od_put k t' (tm_tasks m), completed_tasks := Suc (completed_tasks m),
           tm_metrics := x\<rparr>)"
    and "tm_inv (m\<lparr>tm_tasks := od_put k t' (tm_tasks m), failed_tasks := Suc (failed_tasks m),
           tm_metrics := x\<rparr>)"
  using assms count_put_Some [of "tm_tasks m" k t active_status t']
    count_put_Some [of "tm_tasks m" k t "\<lambda>s. s = T_PENDING" t']
  by (auto simp: tm_inv_def of_bool_def split: if_splits)

lemma tm_inv_rewrite:
  assumes "tm_inv m" and "od_get (tm_tasks m) k = Some t"
    and "active_status (ti_status t') \<Longrightarrow> active_status (ti_status t)"
    and "ti_status t' = T_PENDING \<Longrightarrow> ti_status t = T_PENDING"
  shows "tm_inv (m\<lparr>tm_tasks := od_put k t' (tm_tasks m), tm_metrics := x\<rparr>)"
  using assms count_put_Some [of "tm_tasks m" k t active_status t']
    count_put_Some [of "tm_tasks m" k t "\<lambda>s. s = T_PENDING" t']
  by (auto simp: tm_inv_def of_bool_def split: if_splits)

lemma tm_inv_transition:
  assumes "tm_inv m" and "target \<noteq> T_PENDING" and "\<forall>s \<in> set from. active_status s"
  shows "tm_inv (snd (transition_to now k target from m))"
proof (cases "od_get (tm_tasks m) k")
  case None
  with assms show ?thesis by (simp add: transition_to_def)
next
  case (Some t)
  let ?t = "t\<lparr>ti_status := target, ti_start_time := now\<rparr>"
  have "tm_inv (m\<lparr>tm_tasks := od_put k ?t (tm_tasks m), tm_metrics := tm_metrics m\<rparr>)"
    if "ti_status t \<in> set from"
    using assms that by (intro tm_inv_rewrite [OF assms(1) Some]) auto
  then show ?thesis
    using assms Some by (auto simp: transition_to_def Let_def tm_inv_def)
qed

lemma tm_inv_complete: "tm_inv m \<Longrightarrow> tm_inv (complete_task now k out peak inference res m)"
  by (auto simp: complete_task_def Let_def active_terminal intro!: tm_inv_finish split: option.splits)

lemma tm_inv_fail: "tm_inv m \<Longrightarrow> tm_inv (fail_task now k e m)"
  by (auto simp: fail_task_def Let_def active_terminal intro!: tm_inv_finish split: option.splits)

lemma tm_inv_cancel: "tm_inv m \<Longrightarrow> tm_inv (snd (cancel_task now k m))"
  by (auto simp: cancel_task_def Let_def intro!: tm_inv_rewrite split: option.splits)

lemma tm_inv_cancel_all: "tm_inv m \<Longrightarrow> tm_inv (cancel_all_tasks now m)"
proof -
  have "tm_inv m \<Longrightarrow> tm_inv (foldl (\<lambda>m' (k, t). if active_status (ti_status t)
          then snd (cancel_task now k m') else m') m kts)" for kts m
  proof (induction kts arbitrary: m)
    case Nil
    then show ?case by simp
  next
    case (Cons kt kts)
    then show ?case by (cases kt) (simp add: tm_inv_cancel)
  qed
  then show "tm_inv m \<Longrightarrow> ?thesis" by (simp add: cancel_all_tasks_def)
qed

lemma fail_pending_status [simp]:
  "ti_status (fail_pending_info now e t) = (if ti_status t = T_PENDING then T_FAILED else ti_status t)"
  by (simp add: fail_pending_info_def)

lemma active_map_pending:
  "count_status active_status (od_map (fail_pending_info now e) d)
     + count_status (\<lambda>s. s = T_PENDING) d = count_status active_status d"
  by (induction d) (auto simp: od_map_def split: if_splits)

lemma pending_map_pending [simp]:
  "count_status (\<lambda>s. s = T_PENDING) (od_map (fail_pending_info now e) d) = 0"
  by (induction d) (auto simp: od_map_def split: if_splits)

lemma tm_inv_fail_all:
  assumes "tm_inv (m\<lparr>tm_zero_capacity := False\<rparr>)"
  shows "tm_inv (fail_all_pending now e m)"
  using assms active_map_pending [of now e "tm_tasks m"]
  by (auto simp: tm_inv_def fail_all_pending_def Let_def)

lemma tm_inv_claim: "tm_inv m \<Longrightarrow> tm_inv (snd (claim_next_pending_task now m))"
proof -
  assume inv: "tm_inv m"
  show ?thesis
  proof (cases "tm_zero_capacity m")
    case True
    with inv tm_inv_fail_all [of m now dead_error] show ?thesis
      by (simp add: claim_next_pending_task_def tm_inv_def)
  next
    case False
    show ?thesis
    proof (cases "first_pending (tm_tasks m)")
      case None
      with False inv show ?thesis by (simp add: claim_next_pending_task_def)
    next
      case (Some k)
      then obtain t where t: "od_get (tm_tasks m) k = Some t" "ti_status t = T_PENDING"
        using first_pending_get inv by (auto simp: tm_inv_def)
      with False Some inv
        count_put_Some [OF t(1), of active_status "t\<lparr>ti_status := T_PROCESSING, ti_start_time := now\<rparr>"]
      show ?thesis
        by (auto simp: claim_next_pending_task_def tm_inv_def Let_def)
    qed
  qed
qed

lemma tm_inv_release: "tm_inv m \<Longrightarrow> tm_inv (release_processing_slot k m)"
proof -
  assume inv: "tm_inv m"
  then have "tm_inv (m\<lparr>tm_processing := od_del k (tm_processing m)\<rparr>)"
    by (simp add: tm_inv_def)
  then have "od_get (tm_tasks m) k = Some t \<Longrightarrow> ti_status t' = ti_status t \<Longrightarrow>
      tm_inv (m\<lparr>tm_processing := od_del k (tm_processing m), tm_tasks := od_put k t' (tm_tasks m)\<rparr>)" for t t'
    using count_put_Some [of "tm_tasks m" k t _ t'] by (simp add: tm_inv_def)
  with \<open>tm_inv (m\<lparr>tm_processing := od_del k (tm_processing m)\<rparr>)\<close> show ?thesis
    by (auto simp: release_processing_slot_def Let_def split: option.splits)
qed

lemma tm_inv_set_max: "tm_inv m \<Longrightarrow> tm_inv (set_max_concurrent_processing now n m)"
  by (auto simp: set_max_concurrent_processing_def Let_def tm_inv_def [of m]
      tm_inv_def [of "m\<lparr>tm_max_concurrent := x\<rparr>" for x]
      tm_inv_def [of "m\<lparr>tm_max_concurrent := x, tm_zero_capacity := y\<rparr>" for x y]
      intro!: tm_inv_fail_all)

lemma tm_inv_locks:
  "tm_inv m \<Longrightarrow> tm_inv (snd (acquire_processing_lock m))"
  "tm_inv m \<Longrightarrow> tm_inv (release_processing_lock m)"
  by (auto simp: tm_inv_def acquire_processing_lock_def release_processing_lock_def)

lemmas tm_inv_ops = tm_inv_create tm_inv_transition tm_inv_complete tm_inv_fail tm_inv_cancel
  tm_inv_cancel_all tm_inv_claim tm_inv_release tm_inv_set_max tm_inv_locks

interpretation tm: invariant_machine tm_step tm_inv
proof unfold_locales
  fix m e
  assume "tm_inv m"
  then show "tm_inv (tm_step m e)"
    by (cases e) (simp_all add: start_task_def start_streaming_def tm_inv_ops)
qed

section \<open>The task lifecycle\<close>

inductive lifecycle :: "task_status \<Rightarrow> task_status \<Rightarrow> bool" where
  stay: "lifecycle s s"
| start: "lifecycle T_PENDING T_PROCESSING"
| stream: "s \<in> {T_PENDING, T_PROCESSING} \<Longrightarrow> lifecycle s T_STREAMING"
| finish: "active_status s \<Longrightarrow> terminal_status s' \<Longrightarrow> lifecycle s s'"

inductive_simps lifecycle_from: "lifecycle s s'"

declare lifecycle.stay [simp, intro] lifecycle.start [simp]

lemma lifecycle_trans: "lifecycle a b \<Longrightarrow> lifecycle b c \<Longrightarrow> lifecycle a c"
  by (cases a; cases b; cases c) (auto simp: lifecycle_from active_status_def terminal_status_def)

text \<open>What one operation does to the entry of a task: it follows the lifecycle or is pruned.\<close>

definition entry_follows :: "task_info option \<Rightarrow> task_info option \<Rightarrow> bool" where
  "entry_follows x y =
     (case x of None \<Rightarrow> y = None
      | Some t \<Rightarrow> (case y of None \<Rightarrow> terminal_status (ti_status t)
                  | Some t' \<Rightarrow> lifecycle (ti_status t) (ti_status t')))"

lemma follows_refl [simp]: "entry_follows x x"
  by (simp add: entry_follows_def split: option.splits)

lemma follows_Some: "entry_follows (Some t) (Some t') = lifecycle (ti_status t) (ti_status t')"
  by (simp add: entry_follows_def)

text \<open>Over a whole run an entry may first become terminal and then be pruned.\<close>

definition entry_run :: "task_info option \<Rightarrow> task_info option \<Rightarrow> bool" where
  "entry_run x y =
     (case x of None \<Rightarrow> y = None
      | Some t \<Rightarrow> (case y of None \<Rightarrow> True | Some t' \<Rightarrow> lifecycle (ti_status t) (ti_status t')))"

lemma follows_run_entry: "entry_follows x y \<Longrightarrow> entry_run y z \<Longrightarrow> entry_run x z"
  by (auto simp: entry_follows_def entry_run_def intro: lifecycle_trans split: option.splits)

lemma follows_trans:
  "entry_follows x y \<Longrightarrow> entry_follows y z \<Longrightarrow> (x = None \<longleftrightarrow> z = None) \<Longrightarrow> entry_follows x z"
  by (auto simp: entry_follows_def intro: lifecycle_trans split: option.splits)

abbreviation follows :: "task_manager \<Rightarrow> task_manager \<Rightarrow> string \<Rightarrow> bool" where
  "follows m m' k \<equiv> entry_follows (od_get (tm_tasks m) k) (od_get (tm_tasks m') k)"

lemma follows_put:
  "od_get d j = Some t \<Longrightarrow> lifecycle (ti_status t) (ti_status t') \<Longrightarrow>
     entry_follows (od_get d k) (od_get (od_put j t' d) k)"
  by (simp add: follows_Some)

lemma stale_terminal:
  assumes "od_ok d" and "k \<in> set (map fst (take n (sort_key f (filter (\<lambda>(k, t). terminal_status (ti_status t)) d))))"
  shows "\<exists>t. od_get d k = Some t \<and> terminal_status (ti_status t)"
proof -
  from assms(2) obtain t where "(k, t) \<in> set (filter (\<lambda>(k, t). terminal_status (ti_status t)) d)"
    by (auto dest!: in_set_takeD)
  with od_get_Some_iff [OF assms(1), of k t] show ?thesis by auto
qed

lemma follows_cleanup: "od_ok (tm_tasks m) \<Longrightarrow> follows m (cleanup_old_tasks m) k"
  using stale_terminal
  by (fastforce simp: cleanup_old_tasks_def Let_def get_foldl_del entry_follows_def split: option.splits)

definition creates :: "tm_op \<Rightarrow> string \<Rightarrow> bool" where
  "creates e k =
     (case e of Op_Create now uuid msg \<Rightarrow>
        k = (case msg_task_id_of msg of Some tid \<Rightarrow> tid | None \<Rightarrow> uuid)
      | _ \<Rightarrow> False)"

lemma follows_create:
  assumes "tm_inv m" and "\<not> creates (Op_Create now uuid msg) k"
  shows "follows m (snd (create_task now uuid msg m)) k"
proof (cases rule: create_task_cases [of now uuid msg m])
  case (refused e)
  then show ?thesis by simp
next
  case (created task_id info)
  let ?m = "m\<lparr>tm_tasks := od_put task_id info (tm_tasks m), total_tasks := total_tasks m + 1,
              tm_metrics := tm_metrics m @ [M_Created]\<rparr>"
  from created assms(2) have "k \<noteq> task_id" by (auto simp: creates_def)
  moreover have "follows ?m (cleanup_old_tasks ?m) k"
    using assms(1) by (intro follows_cleanup) (simp add: tm_inv_def)
  ultimately show ?thesis using created by simp
qed

lemma follows_transition:
  "(\<And>s. s \<in> set from \<Longrightarrow> lifecycle s target) \<Longrightarrow> follows m (snd (transition_to now j target from m)) k"
  by (auto simp: transition_to_def Let_def follows_Some split: option.splits)

lemma follows_complete: "follows m (complete_task now j out peak inference res m) k"
  by (auto simp: complete_task_def Let_def follows_Some active_terminal lifecycle.finish split: option.splits)

lemma follows_fail: "follows m (fail_task now j e m) k"
  by (auto simp: fail_task_def Let_def follows_Some active_terminal lifecycle.finish split: option.splits)

lemma lifecycle_cancel: "s \<noteq> T_COMPLETED \<Longrightarrow> s \<noteq> T_FAILED \<Longrightarrow> lifecycle s T_CANCELLED"
  by (cases s) (auto intro: lifecycle.intros)

lemma follows_cancel: "follows m (snd (cancel_task now j m)) k"
  by (auto simp: cancel_task_def Let_def follows_Some lifecycle_cancel split: option.splits)

lemma follows_cancel_all: "follows m (cancel_all_tasks now m) k"
proof -
  let ?f = "\<lambda>m' (k, t). if active_status (ti_status t) then snd (cancel_task now k m') else m'"
  have "follows m (foldl ?f m kts) k \<and>
      (od_get (tm_tasks m) k = None \<longleftrightarrow> od_get (tm_tasks (foldl ?f m kts)) k = None)" for kts
  proof (induction kts arbitrary: m)
    case Nil
    then show ?case by simp
  next
    case (Cons kt kts)
    have "od_get (tm_tasks m) k = None \<longleftrightarrow> od_get (tm_tasks (?f m kt)) k = None"
      by (cases kt) (auto simp: cancel_task_def Let_def split: option.splits)
    moreover have "follows m (?f m kt) k"
      by (cases kt) (simp add: follows_cancel)
    ultimately show ?case
      using Cons [of "?f m kt"] by (auto intro: follows_trans)
  qed
  from this [of "tm_tasks m"] show ?thesis by (simp add: cancel_all_tasks_def)
qed

lemma follows_fail_all: "follows m (fail_all_pending now e (m\<lparr>tm_max_concurrent := n, tm_zero_capacity := z\<rparr>)) k"
  by (auto simp: fail_all_pending_def Let_def entry_follows_def lifecycle.finish split: option.splits)

lemma follows_claim: "tm_inv m \<Longrightarrow> follows m (snd (claim_next_pending_task now m)) k"
  using follows_fail_all [of m k now dead_error "tm_zero_capacity m" "tm_max_concurrent m"]
  by (auto simp: claim_next_pending_task_def Let_def tm_inv_def entry_follows_def split: option.splits
      dest: first_pending_get)

lemma follows_release: "follows m (release_processing_slot j m) k"
  by (auto simp: release_processing_slot_def Let_def follows_Some split: option.splits)

lemma follows_set_max: "follows m (set_max_concurrent_processing now n m) k"
  using follows_fail_all [of m k now dead_error True 0]
  by (auto simp: set_max_concurrent_processing_def Let_def)

lemma follows_step:
  assumes "tm_inv m" and "\<not> creates e k"
  shows "follows m (tm_step m e) k"
  using assms
  by (cases e) (auto simp: start_task_def start_streaming_def acquire_processing_lock_def
      release_processing_lock_def follows_create follows_complete follows_fail follows_cancel
      follows_cancel_all follows_claim follows_release follows_set_max
      intro!: follows_transition lifecycle.stream)

lemma follows_run:
  assumes "tm_inv m" and "\<And>e. e \<in> set es \<Longrightarrow> \<not> creates e k"
  shows "entry_run (od_get (tm_tasks m) k) (od_get (tm_tasks (foldl tm_step m es)) k)"
  using assms
proof (induction es arbitrary: m)
  case Nil
  then show ?case by (simp add: entry_run_def split: option.splits)
next
  case (Cons e es)
  then have "follows m (tm_step m e) k" and "tm_inv (tm_step m e)"
    by (auto intro: follows_step tm.inv_step)
  with Cons show ?case by (auto intro: follows_run_entry)
qed

section \<open>First come, first served\<close>

lemma pending_iff:
  assumes "od_ok d"
  shows "k \<in> set (pending_ids d) \<longleftrightarrow> status_at d k = Some T_PENDING"
proof -
  have "k \<in> set (pending_ids d) \<longleftrightarrow> (\<exists>t. (k, t) \<in> set d \<and> ti_status t = T_PENDING)"
    by (force simp: pending_ids_def)
  then show ?thesis by (simp add: od_get_Some_iff [OF assms])
qed

lemma distinct_pending: "od_ok d \<Longrightarrow> distinct (pending_ids d)"
  by (auto simp: od_ok_def pending_ids_def distinct_map_filter)

lemma pending_dels:
  "od_ok d \<Longrightarrow> (\<And>k. k \<in> set ks \<Longrightarrow> status_at d k \<noteq> Some T_PENDING) \<Longrightarrow>
     pending_ids (foldl (\<lambda>d k. od_del k d) d ks) = pending_ids d"
proof (induction ks arbitrary: d)
  case Nil
  then show ?case by simp
next
  case (Cons k ks)
  have "k \<notin> set (pending_ids d)"
    using Cons.prems pending_iff [of d k] by auto
  then have "pending_ids (od_del k d) = pending_ids d"
    using Cons.prems by (simp add: pending_del)
  moreover have "pending_ids (foldl (\<lambda>d k. od_del k d) (od_del k d) ks) = pending_ids (od_del k d)"
    using Cons.prems by (intro Cons.IH) auto
  ultimately show ?case by simp
qed

lemma pending_cleanup:
  assumes "od_ok (tm_tasks m)"
  shows "pending_ids (tm_tasks (cleanup_old_tasks m)) = pending_ids (tm_tasks m)"
  using assms stale_terminal [OF assms]
  by (fastforce simp: cleanup_old_tasks_def Let_def intro!: pending_dels)

definition submit_request :: "rat \<Rightarrow> (string \<times> pyval) list \<Rightarrow> string \<Rightarrow> task_manager \<Rightarrow> task_manager" where
  "submit_request now flds tid m =
     snd (create_task now [] (Some \<lparr>msg_task_id = Some tid, msg_fields = flds\<rparr>) m)"

definition accepts_request :: "task_manager \<Rightarrow> string \<Rightarrow> bool" where
  "accepts_request m tid \<longleftrightarrow>
     \<not> tm_zero_capacity m \<and> od_get (tm_tasks m) tid = None \<and>
     int (get_active_task_count m) < max_queue_size m"

definition has_free_slot :: "task_manager \<Rightarrow> bool" where
  "has_free_slot m \<longleftrightarrow>
     \<not> tm_zero_capacity m \<and> int (length (tm_processing m)) < tm_max_concurrent m"

lemma submit_pending:
  assumes "tm_inv m" and "accepts_request m tid"
  shows "pending_ids (tm_tasks (submit_request now flds tid m)) = pending_ids (tm_tasks m) @ [tid]"
proof -
  have new: "od_get (tm_tasks m) tid = None" and ok: "od_ok (tm_tasks m)"
    using assms by (simp_all add: accepts_request_def tm_inv_def)
  have app: "od_put tid t (tm_tasks m) = tm_tasks m @ [(tid, t)]" and
       ok': "od_ok (tm_tasks m @ [(tid, t)])" for t
    using od_put_absent [OF new] od_ok_put [OF ok, of tid t] by simp_all
  show ?thesis
    using assms by (auto simp: submit_request_def accepts_request_def create_task_def
        msg_task_id_of_def Let_def get_active_task_count_def app pending_cleanup ok')
qed

lemma claim_pending:
  assumes "tm_inv m" and "has_free_slot m" and "pending_ids (tm_tasks m) = k # ks"
  shows "fst (claim_next_pending_task now m) = Some k \<and>
    pending_ids (tm_tasks (snd (claim_next_pending_task now m))) = ks"
proof -
  have ok: "od_ok (tm_tasks m)" using assms(1) by (simp add: tm_inv_def)
  have fp: "first_pending (tm_tasks m) = Some k"
    by (simp add: first_pending_hd assms(3))
  obtain t where t: "od_get (tm_tasks m) k = Some t" using first_pending_get [OF ok fp] by blast
  let ?t = "t\<lparr>ti_status := T_PROCESSING, ti_start_time := now\<rparr>"
  have "k \<notin> set ks" using distinct_pending [OF ok] assms(3) by simp
  then have "pending_ids (move_to_end k (od_put k ?t (tm_tasks m))) = ks"
    using ok by (subst pending_move) (auto simp: pending_put_done assms(3))
  with fp t assms(2) show ?thesis
    by (simp add: claim_next_pending_task_def has_free_slot_def Let_def)
qed

interpretation tmq: fifo_queue
  "\<lambda>m. pending_ids (tm_tasks m)" accepts_request "submit_request now flds"
  has_free_slot "claim_next_pending_task now'" tm_inv
  for now flds now'
proof unfold_locales
  fix m :: task_manager and tid
  assume "tm_inv m" and "accepts_request m tid"
  then show "pending_ids (tm_tasks (submit_request now flds tid m)) = pending_ids (tm_tasks m) @ [tid]"
    by (rule submit_pending)
next
  fix m :: task_manager and tid
  assume "tm_inv m"
  then show "tm_inv (submit_request now flds tid m)"
    by (simp add: submit_request_def tm_inv_create)
next
  fix m :: task_manager and k ks
  assume "tm_inv m" and "has_free_slot m" and "pending_ids (tm_tasks m) = k # ks"
  then show "fst (claim_next_pending_task now' m) = Some k \<and>
      pending_ids (tm_tasks (snd (claim_next_pending_task now' m))) = ks"
    by (rule claim_pending)
next
  fix m :: task_manager
  assume "pending_ids (tm_tasks m) = []"
  then show "fst (claim_next_pending_task now' m) = None"
    by (simp add: claim_next_pending_task_def first_pending_hd)
next
  fix m :: task_manager
  assume "tm_inv m"
  then show "tm_inv (snd (claim_next_pending_task now' m))"
    by (rule tm_inv_claim)
qed

section \<open>Capacity\<close>

lemma zero_capacity_step: "tm_zero_capacity m \<Longrightarrow> tm_zero_capacity (tm_step m e)"
proof (cases e)
  case (Op_Create now uuid msg)
  assume "tm_zero_capacity m"
  with Op_Create show ?thesis by (simp add: create_task_def)
next
  case (Op_Cancel_All now)
  assume z: "tm_zero_capacity m"
  have "tm_zero_capacity m' \<Longrightarrow> tm_zero_capacity (foldl (\<lambda>m' (k, t). if active_status (ti_status t)
          then snd (cancel_task now k m') else m') m' kts)" for kts m'
    by (induction kts arbitrary: m') (auto simp: cancel_task_def Let_def split: option.splits)
  with z Op_Cancel_All show ?thesis by (simp add: cancel_all_tasks_def)
qed (auto simp: start_task_def start_streaming_def transition_to_def complete_task_def fail_task_def
    cancel_task_def claim_next_pending_task_def fail_all_pending_def release_processing_slot_def
    set_max_concurrent_processing_def acquire_processing_lock_def release_processing_lock_def
    Let_def split: option.splits)

lemma zero_capacity_run: "tm_zero_capacity m \<Longrightarrow> tm_zero_capacity (foldl tm_step m es)"
  by (induction es arbitrary: m) (simp_all add: zero_capacity_step)

section \<open>Properties\<close>

lemma tm_reachable_inv: "tm_inv (foldl tm_step (new_task_manager q keep conc) es)"
  by (rule tm.inv_run [OF tm_inv_new])

lemma claim_processing:
  "int (length (tm_processing (snd (claim_next_pending_task now m)))) \<le>
     max (int (length (tm_processing m))) (tm_max_concurrent m)"
proof -
  have "length (od_put k v d) \<le> length d + 1" for k :: string and v :: bool and d
    by (induction d) auto
  then have put: "int (length (od_put k True (tm_processing m))) \<le> int (length (tm_processing m)) + 1" for k
    by (metis of_nat_1 of_nat_add of_nat_le_iff)
  show ?thesis
  proof (cases "tm_zero_capacity m \<or> int (length (tm_processing m)) \<ge> tm_max_concurrent m")
    case True
    then show ?thesis by (auto simp: claim_next_pending_task_def fail_all_pending_def Let_def)
  next
    case False
    then have "int (length (od_put k True (tm_processing m))) \<le> max (int (length (tm_processing m))) (tm_max_concurrent m)" for k
      using put [of k] by linarith
    with False show ?thesis by (simp add: claim_next_pending_task_def Let_def split: option.splits)
  qed
qed

text \<open>C1: After any interleaving of the task manager's operations, task ids are unique, the
  active, completed and failed tasks never outnumber the tasks created, the active tasks fit
  the queue bound, once the pool has lost all capacity no task is pending, and a claim never
  takes the tasks being processed above the limit in force.\<close>

theorem task_queue_invariant:
  shows "let m = foldl tm_step (new_task_manager q keep conc) es in
    distinct (od_keys (tm_tasks m))
    \<and> get_active_task_count m + completed_tasks m + failed_tasks m \<le> total_tasks m
    \<and> int (get_active_task_count m) \<le> max 0 (max_queue_size m)
    \<and> \<not> (tm_zero_capacity m \<and> get_pending_task_count m \<noteq> 0)
    \<and> int (length (tm_processing (snd (claim_next_pending_task now m)))) \<le>
        max (int (length (tm_processing m))) (tm_max_concurrent m)"
  using tm_reachable_inv [of q keep conc es]
    claim_processing [of now "foldl tm_step (new_task_manager q keep conc) es"]
  by (simp add: Let_def tm_inv_def od_ok_def get_active_task_count_def get_pending_task_count_def)

text \<open>C2: Whatever the other clients do, as long as nobody re-creates a task id, the status of
  that task only moves along the lifecycle: pending to processing or streaming, processing
  to streaming, any active status to a terminal one, and terminal statuses never change.\<close>

theorem task_status_lifecycle:
  assumes "tm_inv m" and "\<And>e. e \<in> set es \<Longrightarrow> \<not> creates e k"
    and "od_get (tm_tasks m) k = Some t"
    and "od_get (tm_tasks (foldl tm_step m es)) k = Some t'"
  shows "lifecycle (ti_status t) (ti_status t')"
proof -
  have "entry_run (od_get (tm_tasks m) k) (od_get (tm_tasks (foldl tm_step m es)) k)"
    by (rule follows_run [OF assms(1,2)])
  with assms(3,4) show ?thesis by (simp add: entry_run_def)
qed

definition demo_request :: "string \<Rightarrow> task_message option" where
  "demo_request tid = Some \<lparr>msg_task_id = Some tid, msg_fields = [(''task'', VStr ''t2v'')]\<rparr>"

definition demo_queue :: task_manager where
  "demo_queue = snd (create_task 1 [] (demo_request ''b'')
     (snd (create_task 0 [] (demo_request ''a'') (new_task_manager 3 10 1))))"

lemma demo_queue_inv: "tm_inv demo_queue"
  by (simp add: demo_queue_def tm_inv_create tm_inv_new)

lemmas demo_simps = demo_queue_def demo_request_def create_task_def new_task_manager_def
  msg_task_id_of_def msg_output_path_def cleanup_old_tasks_def count_status_def
  serialize_task_message_def metadata_fields_def dget_def or_else_def media_type_of_def Let_def
  infer_media_type_for_task_def is_image_task_def is_video_task_def IMAGE_TASKS_def VIDEO_TASKS_def

lemma demo_queue_tasks:
  "pending_ids (tm_tasks demo_queue) = [''a'', ''b''] \<and> tm_processing demo_queue = []
    \<and> tm_max_concurrent demo_queue = 1 \<and> \<not> tm_zero_capacity demo_queue
    \<and> max_queue_size demo_queue = 3 \<and> od_keys (tm_tasks demo_queue) = [''a'', ''b'']
    \<and> get_active_task_count demo_queue = 2"
  by (simp add: demo_simps get_active_task_count_def pending_ids_def)

theorem task_status_lifecycle_witness:
  "\<exists>t t'. od_get (tm_tasks demo_queue) ''a'' = Some t
     \<and> od_get (tm_tasks (foldl tm_step demo_queue [Op_Claim 2, Op_Fail 3 ''a'' ''x''])) ''a'' = Some t'
     \<and> ti_status t = T_PENDING \<and> ti_status t' = T_FAILED
     \<and> lifecycle (ti_status t) (ti_status t')"
proof -
  let ?es = "[Op_Claim 2, Op_Fail 3 ''a'' ''x'']"
  obtain t t' where g: "od_get (tm_tasks demo_queue) ''a'' = Some t"
      "od_get (tm_tasks (foldl tm_step demo_queue ?es)) ''a'' = Some t'"
      and st: "ti_status t = T_PENDING" "ti_status t' = T_FAILED"
    by (simp add: demo_simps claim_next_pending_task_def fail_task_def first_pending_def
        move_to_end_def)
  have "\<not> creates e ''a''" if "e \<in> set ?es" for e
    using that by (auto simp: creates_def)
  from task_status_lifecycle [OF demo_queue_inv this g] g st show ?thesis by blast
qed

text \<open>No operation loses a task that is still active: pruning old tasks only ever
  removes terminal ones.\<close>

theorem active_task_never_lost:
  assumes "tm_inv m" and "\<not> creates e k"
    and "od_get (tm_tasks m) k = Some t" and "active_status (ti_status t)"
  shows "od_get (tm_tasks (tm_step m e)) k \<noteq> None"
  using follows_step [OF assms(1,2)] assms(3,4)
  by (auto simp: entry_follows_def active_terminal split: option.splits)

theorem active_task_never_lost_witness:
  "\<exists>t. od_get (tm_tasks demo_queue) ''b'' = Some t \<and> active_status (ti_status t)
     \<and> od_get (tm_tasks (tm_step demo_queue (Op_Create 5 [] (demo_request ''c'')))) ''b'' \<noteq> None"
proof -
  obtain t where t: "od_get (tm_tasks demo_queue) ''b'' = Some t" "active_status (ti_status t)"
    by (simp add: demo_simps)
  have "\<not> creates (Op_Create 5 [] (demo_request ''c'')) ''b''"
    by (simp add: creates_def demo_request_def msg_task_id_of_def)
  from active_task_never_lost [OF demo_queue_inv this t] t show ?thesis by blast
qed

text \<open>C3: Pending tasks are claimed first come, first served: a request accepted now is
  claimed after every task that was pending before it, whatever has happened to the other
  tasks in the meantime.\<close>

theorem claim_is_fifo:
  assumes "tm_inv m" and "accepts_request m tid" and "has_free_slot (submit_request now flds tid m)"
    and "pending_ids (tm_tasks m) = x # xs"
  shows "fst (claim_next_pending_task now' (submit_request now flds tid m)) = Some x
    \<and> pending_ids (tm_tasks (snd (claim_next_pending_task now' (submit_request now flds tid m))))
        = xs @ [tid]"
  using assms by (rule tmq.submit_then_take)

theorem claim_is_fifo_witness:
  "fst (claim_next_pending_task 9 (submit_request 8 [] ''c'' demo_queue)) = Some ''a''
    \<and> pending_ids (tm_tasks (snd (claim_next_pending_task 9 (submit_request 8 [] ''c'' demo_queue))))
        = [''b'', ''c'']"
proof -
  have "accepts_request demo_queue ''c''"
    using demo_queue_tasks by (simp add: accepts_request_def) (simp add: demo_simps)
  moreover have "has_free_slot (submit_request 8 [] ''c'' demo_queue)"
    by (simp add: has_free_slot_def submit_request_def demo_simps)
  ultimately show ?thesis
    using claim_is_fifo [of demo_queue "''c''" 8 "[]" "''a''" "[''b'']" 9] demo_queue_inv demo_queue_tasks
    by simp
qed

text \<open>When the last replica is evicted the pool reports a capacity of zero; from then on,
  whatever operations follow (a later positive capacity included), nothing is claimed, every
  request is refused and nothing is pending.\<close>

theorem zero_capacity_is_final:
  assumes "tm_inv m" and "n \<le> 0"
  shows "let m' = foldl tm_step (set_max_concurrent_processing now n m) es in
    fst (claim_next_pending_task now' m') = None
    \<and> \<not> is_ok (fst (create_task now'' uuid msg m'))
    \<and> get_pending_task_count m' = 0"
proof -
  let ?m = "foldl tm_step (set_max_concurrent_processing now n m) es"
  have "tm_zero_capacity (set_max_concurrent_processing now n m)"
    using assms(2) by (simp add: set_max_concurrent_processing_def fail_all_pending_def Let_def)
  then have z: "tm_zero_capacity ?m" by (rule zero_capacity_run)
  have "tm_inv ?m" by (intro tm.inv_run tm_inv_set_max assms(1))
  with z show ?thesis
    by (simp add: Let_def claim_next_pending_task_def create_task_def tm_inv_def get_pending_task_count_def)
qed

theorem zero_capacity_is_final_witness:
  "fst (claim_next_pending_task 4
      (foldl tm_step (set_max_concurrent_processing 2 0 demo_queue) [Op_Set_Max 3 2])) = None"
  using zero_capacity_is_final [OF demo_queue_inv, of 0 2 "[Op_Set_Max 3 2]" 4] by (simp add: Let_def)

text \<open>Cancelling is not idempotent on the service metrics: \<open>cancel_task\<close> accepts a task
  that is already cancelled, reports success again, restamps its end time and counts one
  more cancelled task.\<close>

theorem cancel_counts_every_call:
  assumes "od_get (tm_tasks m) k = Some t" and "ti_status t = T_CANCELLED"
  shows "fst (cancel_task now k m)
    \<and> tm_metrics (snd (cancel_task now k m)) = tm_metrics m @ [M_Cancelled]
    \<and> map_option ti_end_time (od_get (tm_tasks (snd (cancel_task now k m))) k) = Some (Some now)"
  using assms by (simp add: cancel_task_def Let_def)

theorem cancel_counts_every_call_witness:
  "\<exists>t. od_get (tm_tasks (snd (cancel_task 5 ''a'' demo_queue))) ''a'' = Some t
     \<and> ti_status t = T_CANCELLED
     \<and> fst (cancel_task 6 ''a'' (snd (cancel_task 5 ''a'' demo_queue)))"
proof -
  obtain t where t: "od_get (tm_tasks (snd (cancel_task 5 ''a'' demo_queue))) ''a'' = Some t"
      "ti_status t = T_CANCELLED"
    by (simp add: demo_simps cancel_task_def)
  from cancel_counts_every_call [OF t, of 6] t show ?thesis by blast
qed

end
