(* ===== verification/Chunk_State.thy ===== *)
theory Chunk_State
  imports Prelude
begin

text \<open>
  The lifecycle of inferred action chunks, \<open>ActionChunkStateMachine\<close> of
  \<open>telefuser/vla/runtime/chunk_state.py\<close>, with the chunk type of
  \<open>telefuser/vla/contracts.py\<close>. Each method runs under one lock and is one atomic
  transformer; clock readings are arguments. A call of the recovery callback of a stateful
  policy is recorded in a log of episode ids. The action tensor is the list of its rows.
\<close>

section \<open>State\<close>

datatype chunk_status =
    C_PENDING | C_READY | C_EXECUTING | C_EXECUTED | C_SUPERSEDED | C_EXPIRED | C_REJECTED

datatype runtime_state = R_EMPTY | R_PENDING | R_READY | R_EXECUTING | R_HOLDING | R_STOPPED

datatype remainder_policy = DISCARD | RETAIN

datatype disconnect_policy = HOLD | STOP

record 'a action_chunk =
  ch_actions :: "'a list"
  ch_valid_length :: nat
  ch_observation_timestamp_ns :: int
  ch_sequence_id :: int
  ch_episode_id :: string

record ticket =
  tk_generation :: nat
  tk_sequence_id :: int
  tk_observation_timestamp_ns :: int
  tk_received_at :: rat
  tk_deadline_at :: "rat option"

record chunk_record =
  cr_ticket :: ticket
  cr_status :: chunk_status
  cr_started :: bool
  cr_completed :: bool
  cr_recovered :: bool
  cr_reason :: "string option"

record 'a chunk_machine =
  cm_episode_id :: string
  execute_horizon :: nat
  max_observation_age_ns :: "int option"
  cm_remainder_policy :: remainder_policy
  cm_disconnect_policy :: disconnect_policy
  cm_stateful_policy :: bool
  cm_terminal_history :: nat
  cm_generation :: nat
  cm_latest_sequence :: "int option"
  cm_latest_timestamp :: "int option"
  cm_pending :: "ticket option"
  cm_ready :: "(ticket \<times> 'a action_chunk) option"
  cm_executing :: "(ticket \<times> 'a action_chunk) option"
  cm_remainder :: "'a action_chunk option"
  cm_disconnected :: "runtime_state option"
  cm_records :: "(nat, chunk_record) odict"
  cm_recoveries :: "string list"

text \<open>The constructor, with its argument checks; a recovery callback is given or not.\<close>

definition new_chunk_machine ::
    "string \<Rightarrow> int \<Rightarrow> int option \<Rightarrow> remainder_policy \<Rightarrow> disconnect_policy \<Rightarrow> bool \<Rightarrow> bool \<Rightarrow> int
     \<Rightarrow> 'a chunk_machine res" where
  "new_chunk_machine episode horizon max_age rem disc stateful has_callback history =
     (if episode = [] then Inl (ValueError ''episode_id must be a non-empty string'')
      else if horizon < 1 then Inl (ValueError ''execute_horizon must be a positive integer'')
      else if (case max_age of None \<Rightarrow> False | Some a \<Rightarrow> a < 1) then
        Inl (ValueError ''max_observation_age_ns must be a positive integer'')
      else if stateful \<and> \<not> has_callback then
        Inl (ValueError ''stateful policies require a discard recovery callback'')
      else if history < 1 then Inl (ValueError ''terminal_history must be a positive integer'')
      else Inr \<lparr>cm_episode_id = episode, execute_horizon = nat horizon,
                max_observation_age_ns = max_age, cm_remainder_policy = rem,
                cm_disconnect_policy = disc, cm_stateful_policy = stateful,
                cm_terminal_history = nat history, cm_generation = 0,
                cm_latest_sequence = None, cm_latest_timestamp = None, cm_pending = None,
                cm_ready = None, cm_executing = None, cm_remainder = None,
                cm_disconnected = None, cm_records = [], cm_recoveries = []\<rparr>)"

definition runtime_state_of :: "'a chunk_machine \<Rightarrow> runtime_state" where
  "runtime_state_of s =
     (case cm_disconnected s of Some d \<Rightarrow> d
      | None \<Rightarrow>
          if cm_executing s \<noteq> None then R_EXECUTING
          else if cm_ready s \<noteq> None then R_READY
          else if cm_pending s \<noteq> None then R_PENDING
          else R_EMPTY)"

section \<open>Records and history\<close>

definition terminal_chunk :: "chunk_status \<Rightarrow> bool" where
  "terminal_chunk st = (st \<in> {C_EXECUTED, C_SUPERSEDED, C_EXPIRED, C_REJECTED})"

definition active_tickets :: "'a chunk_machine \<Rightarrow> ticket list" where
  "active_tickets s =
     (case cm_pending s of None \<Rightarrow> [] | Some t \<Rightarrow> [t])
     @ (case cm_ready s of None \<Rightarrow> [] | Some (t, _) \<Rightarrow> [t])
     @ (case cm_executing s of None \<Rightarrow> [] | Some (t, _) \<Rightarrow> [t])"

definition protected_gen :: "'a chunk_machine \<Rightarrow> nat \<Rightarrow> chunk_record \<Rightarrow> bool" where
  "protected_gen s g r \<longleftrightarrow>
     g \<in> set (map tk_generation (active_tickets s)) \<or> (cr_started r \<and> \<not> cr_completed r)"

definition removable :: "'a chunk_machine \<Rightarrow> nat list" where
  "removable s =
     map fst (filter (\<lambda>(g, r). terminal_chunk (cr_status r) \<and> \<not> protected_gen s g r) (cm_records s))"

definition trim_history :: "'a chunk_machine \<Rightarrow> 'a chunk_machine" where
  "trim_history s =
     (let old = removable s in
      s\<lparr>cm_records := foldl (\<lambda>d g. od_del g d) (cm_records s)
                        (take (length old - cm_terminal_history s) old)\<rparr>)"

definition upd_record :: "nat \<Rightarrow> (chunk_record \<Rightarrow> chunk_record) \<Rightarrow> 'a chunk_machine \<Rightarrow> 'a chunk_machine" where
  "upd_record g f s = s\<lparr>cm_records := AList.map_entry g f (cm_records s)\<rparr>"

definition set_terminal ::
    "nat \<Rightarrow> chunk_status \<Rightarrow> string \<Rightarrow> 'a chunk_machine \<Rightarrow> 'a chunk_machine" where
  "set_terminal g st reason s =
     trim_history (upd_record g (\<lambda>r. r\<lparr>cr_status := st, cr_reason := Some reason\<rparr>) s)"

definition recover_discarded :: "chunk_record \<Rightarrow> 'a chunk_machine \<Rightarrow> 'a chunk_machine" where
  "recover_discarded r s =
     (if \<not> cm_stateful_policy s \<or> \<not> cr_started r \<or> cr_recovered r then s
      else upd_record (tk_generation (cr_ticket r)) (\<lambda>r. r\<lparr>cr_recovered := True\<rparr>)
             (s\<lparr>cm_recoveries := cm_recoveries s @ [cm_episode_id s]\<rparr>))"

definition find_record :: "ticket \<Rightarrow> 'a chunk_machine \<Rightarrow> chunk_record option" where
  "find_record t s = od_get (cm_records s) (tk_generation t)"

definition unknown_ticket :: "ticket \<Rightarrow> py_error" where
  "unknown_ticket t =
     KeyError (''unknown or expired chunk ticket: '' @ str_of_int (int (tk_generation t)))"

definition observation_is_stale :: "'a chunk_machine \<Rightarrow> int \<Rightarrow> int option \<Rightarrow> bool" where
  "observation_is_stale s ts clock =
     (case (max_observation_age_ns s, clock) of
        (Some age, Some c) \<Rightarrow> c - ts > age
      | _ \<Rightarrow> False)"

definition validate_nonneg :: "int option \<Rightarrow> string \<Rightarrow> py_error option" where
  "validate_nonneg v name =
     (case v of None \<Rightarrow> None
      | Some i \<Rightarrow> if i < 0 then Some (ValueError (name @ '' must be a non-negative integer'')) else None)"

definition validate_ttl :: "rat option \<Rightarrow> py_error option" where
  "validate_ttl ttl =
     (case ttl of None \<Rightarrow> None
      | Some x \<Rightarrow> if x \<le> 0 then Some (ValueError ''request_ttl_ms must be a positive finite number'') else None)"

definition validate_chunk :: "'a chunk_machine \<Rightarrow> ticket \<Rightarrow> 'a action_chunk \<Rightarrow> py_error option" where
  "validate_chunk s t c =
     (if ch_episode_id c \<noteq> cm_episode_id s then
        Some (ValueError ''completed chunk episode_id does not match the runtime'')
      else if ch_sequence_id c \<noteq> tk_sequence_id t then
        Some (ValueError ''completed chunk sequence_id does not match its ticket'')
      else if ch_observation_timestamp_ns c \<noteq> tk_observation_timestamp_ns t then
        Some (ValueError ''completed chunk observation timestamp does not match its ticket'')
      else None)"

section \<open>Admission\<close>

definition supersede_pending :: "'a chunk_machine \<Rightarrow> 'a chunk_machine res" where
  "supersede_pending s =
     (case cm_pending s of None \<Rightarrow> Inr s
      | Some p \<Rightarrow>
          (case find_record p s of None \<Rightarrow> Inl (unknown_ticket p)
           | Some _ \<Rightarrow> Inr (set_terminal (tk_generation p) C_SUPERSEDED
                         ''a newer observation superseded the pending request'' s)))"

definition supersede_ready :: "'a chunk_machine \<Rightarrow> 'a chunk_machine res" where
  "supersede_ready s =
     (case cm_ready s of None \<Rightarrow> Inr s
      | Some (p, _) \<Rightarrow>
          (case find_record p s of None \<Rightarrow> Inl (unknown_ticket p)
           | Some _ \<Rightarrow> Inr ((set_terminal (tk_generation p) C_SUPERSEDED
                         ''a newer observation superseded the ready chunk'' s)\<lparr>cm_ready := None\<rparr>)))"

definition admit :: "ticket \<Rightarrow> 'a chunk_machine \<Rightarrow> 'a chunk_machine" where
  "admit t s =
     (let ts = tk_observation_timestamp_ns t in
      trim_history (s\<lparr>cm_pending := Some t, cm_latest_sequence := Some (tk_sequence_id t),
        cm_latest_timestamp :=
          (case cm_latest_timestamp s of None \<Rightarrow> Some ts
           | Some l \<Rightarrow> if ts > l then Some ts else Some l)\<rparr>))"

definition new_ticket :: "rat \<Rightarrow> int \<Rightarrow> int \<Rightarrow> rat option \<Rightarrow> 'a chunk_machine \<Rightarrow> ticket" where
  "new_ticket now seq ts ttl s =
     \<lparr>tk_generation = cm_generation s + 1, tk_sequence_id = seq,
      tk_observation_timestamp_ns = ts, tk_received_at = now,
      tk_deadline_at = map_option (\<lambda>ms. now + ms / 1000) ttl\<rparr>"

definition register_ticket :: "ticket \<Rightarrow> 'a chunk_machine \<Rightarrow> 'a chunk_machine" where
  "register_ticket t s =
     s\<lparr>cm_generation := tk_generation t,
       cm_records := od_put (tk_generation t)
         \<lparr>cr_ticket = t, cr_status = C_PENDING, cr_started = False, cr_completed = False,
          cr_recovered = False, cr_reason = None\<rparr> (cm_records s)\<rparr>"

text \<open>Why a request is turned away at admission, in the order the code tests it.\<close>

definition turned_away ::
    "ticket \<Rightarrow> int option \<Rightarrow> 'a chunk_machine \<Rightarrow> (chunk_status \<times> string) option" where
  "turned_away t clock s =
     (if cm_disconnected s \<noteq> None then Some (C_REJECTED, ''runtime is disconnected'')
      else if (case cm_latest_sequence s of None \<Rightarrow> False | Some l \<Rightarrow> tk_sequence_id t \<le> l) then
        Some (C_REJECTED, ''sequence_id is not newer than the latest request'')
      else if observation_is_stale s (tk_observation_timestamp_ns t) clock then
        Some (C_EXPIRED, ''observation timestamp is stale'')
      else if (case cm_latest_timestamp s of None \<Rightarrow> False
               | Some l \<Rightarrow> tk_observation_timestamp_ns t < l) then
        Some (C_REJECTED, ''observation timestamp moved backwards'')
      else None)"

definition submit ::
    "rat \<Rightarrow> int \<Rightarrow> int \<Rightarrow> rat option \<Rightarrow> int option \<Rightarrow> 'a chunk_machine \<Rightarrow> ticket res \<times> 'a chunk_machine" where
  "submit now seq ts ttl clock s =
     (case validate_nonneg (Some seq) ''sequence_id'' of Some e \<Rightarrow> (Inl e, s) | None \<Rightarrow>
      case validate_nonneg (Some ts) ''observation_timestamp_ns'' of Some e \<Rightarrow> (Inl e, s) | None \<Rightarrow>
      case validate_nonneg clock ''observation_clock_now_ns'' of Some e \<Rightarrow> (Inl e, s) | None \<Rightarrow>
      case validate_ttl ttl of Some e \<Rightarrow> (Inl e, s) | None \<Rightarrow>
      let t = new_ticket now seq ts ttl s;
          s1 = register_ticket t s
      in case turned_away t clock s1 of
           Some (st, why) \<Rightarrow> (Inr t, set_terminal (tk_generation t) st why s1)
         | None \<Rightarrow>
             (case supersede_pending s1 of Inl e \<Rightarrow> (Inl e, s1)
              | Inr s2 \<Rightarrow>
                  (case supersede_ready s2 of Inl e \<Rightarrow> (Inl e, s2)
                   | Inr s3 \<Rightarrow> (Inr t, admit t s3))))"

definition mark_inference_started :: "ticket \<Rightarrow> 'a chunk_machine \<Rightarrow> chunk_status res \<times> 'a chunk_machine" where
  "mark_inference_started t s =
     (case find_record t s of None \<Rightarrow> (Inl (unknown_ticket t), s)
      | Some r \<Rightarrow>
          (Inr (cr_status r),
           if cr_status r = C_PENDING
           then upd_record (tk_generation t) (\<lambda>r. r\<lparr>cr_started := True\<rparr>) s else s))"

section \<open>Completion\<close>

definition complete ::
    "rat \<Rightarrow> ticket \<Rightarrow> 'a action_chunk \<Rightarrow> int option \<Rightarrow> 'a chunk_machine
     \<Rightarrow> chunk_status res \<times> 'a chunk_machine" where
  "complete now t c clock s =
     (case validate_nonneg clock ''observation_clock_now_ns'' of Some e \<Rightarrow> (Inl e, s) | None \<Rightarrow>
      case find_record t s of None \<Rightarrow> (Inl (unknown_ticket t), s)
      | Some r0 \<Rightarrow>
        let g = tk_generation t;
            r = r0\<lparr>cr_completed := True\<rparr>;
            s1 = upd_record g (\<lambda>r. r\<lparr>cr_completed := True\<rparr>) s;
            discard = (\<lambda>st why. recover_discarded r (set_terminal g st why (s1\<lparr>cm_pending := None\<rparr>)))
        in if cr_status r \<noteq> C_PENDING \<or> cm_pending s1 \<noteq> Some t then
             (Inr (cr_status r), trim_history (recover_discarded r s1))
           else case validate_chunk s1 t c of
             Some e \<Rightarrow> (Inl e, discard C_REJECTED ''completed chunk failed validation'')
           | None \<Rightarrow>
               if (case tk_deadline_at t of None \<Rightarrow> False | Some d \<Rightarrow> now \<ge> d) then
                 (Inr C_EXPIRED, discard C_EXPIRED ''request_ttl_ms elapsed before completion'')
               else if observation_is_stale s1 (tk_observation_timestamp_ns t) clock then
                 (Inr C_EXPIRED, discard C_EXPIRED ''observation became stale before completion'')
               else
                 (Inr C_READY,
                  upd_record g (\<lambda>r. r\<lparr>cr_status := C_READY, cr_reason := None\<rparr>)
                    (s1\<lparr>cm_pending := None, cm_ready := Some (t, c)\<rparr>)))"

definition reject :: "ticket \<Rightarrow> string \<Rightarrow> 'a chunk_machine \<Rightarrow> chunk_status res \<times> 'a chunk_machine" where
  "reject t reason s =
     (if reason = [] then (Inl (ValueError ''reason must be a non-empty string''), s)
      else case find_record t s of None \<Rightarrow> (Inl (unknown_ticket t), s)
      | Some r0 \<Rightarrow>
        let g = tk_generation t;
            r = r0\<lparr>cr_completed := True\<rparr>;
            s1 = upd_record g (\<lambda>r. r\<lparr>cr_completed := True\<rparr>) s
        in if cr_status r \<noteq> C_PENDING \<or> cm_pending s1 \<noteq> Some t then
             (Inr (cr_status r), recover_discarded r s1)
           else (Inr C_REJECTED,
                 recover_discarded r (set_terminal g C_REJECTED reason (s1\<lparr>cm_pending := None\<rparr>))))"

section \<open>Execution\<close>

definition trim_chunk :: "nat \<Rightarrow> 'a action_chunk \<Rightarrow> 'a action_chunk" where
  "trim_chunk n c =
     (let v = min n (ch_valid_length c)
      in c\<lparr>ch_actions := take v (ch_actions c), ch_valid_length := v\<rparr>)"

definition rest_chunk :: "nat \<Rightarrow> 'a action_chunk \<Rightarrow> 'a action_chunk" where
  "rest_chunk n c =
     (let remaining = drop n (take (ch_valid_length c) (ch_actions c))
      in c\<lparr>ch_actions := remaining, ch_valid_length := length remaining\<rparr>)"

definition begin_execution :: "'a chunk_machine \<Rightarrow> 'a action_chunk option res \<times> 'a chunk_machine" where
  "begin_execution s =
     (if cm_disconnected s \<noteq> None then (Inr None, s)
      else if cm_executing s \<noteq> None then
        (Inl (RuntimeError ''an action chunk is already executing''), s)
      else case cm_ready s of None \<Rightarrow> (Inr None, s)
      | Some (t, c) \<Rightarrow>
          let n = min (execute_horizon s) (ch_valid_length c);
              ec = trim_chunk n c;
              s1 = s\<lparr>cm_ready := None,
                     cm_remainder := (if cm_remainder_policy s = RETAIN \<and> n < ch_valid_length c
                                      then Some (rest_chunk n c) else None),
                     cm_executing := Some (t, ec)\<rparr>
          in case find_record t s of
               None \<Rightarrow> (Inl (unknown_ticket t), s1)
             | Some _ \<Rightarrow>
                 (Inr (Some ec),
                  upd_record (tk_generation t) (\<lambda>r. r\<lparr>cr_status := C_EXECUTING\<rparr>) s1))"

definition finish_execution :: "bool \<Rightarrow> 'a chunk_machine \<Rightarrow> runtime_state res \<times> 'a chunk_machine" where
  "finish_execution success s =
     (case cm_executing s of
        None \<Rightarrow> (Inl (RuntimeError ''no action chunk is executing''), s)
      | Some (t, _) \<Rightarrow>
          (case find_record t s of None \<Rightarrow> (Inl (unknown_ticket t), s)
           | Some _ \<Rightarrow>
               let g = tk_generation t;
                   s1 = s\<lparr>cm_executing := None\<rparr>;
                   s2 = (if \<not> success then
                           set_terminal g C_REJECTED ''simulator execution failed''
                             (s1\<lparr>cm_remainder := None\<rparr>)
                         else case cm_remainder s1 of
                           Some rem \<Rightarrow>
                             upd_record g (\<lambda>r. r\<lparr>cr_status := C_READY, cr_reason := None\<rparr>)
                               (s1\<lparr>cm_ready := Some (t, rem), cm_remainder := None\<rparr>)
                         | None \<Rightarrow>
                             trim_history (upd_record g
                               (\<lambda>r. r\<lparr>cr_status := C_EXECUTED, cr_reason := None\<rparr>) s1))
               in (Inr (runtime_state_of s2), s2)))"

section \<open>Barriers\<close>

fun reject_tickets :: "string \<Rightarrow> bool \<Rightarrow> ticket list \<Rightarrow> 'a chunk_machine \<Rightarrow> unit res \<times> 'a chunk_machine" where
  "reject_tickets why recover [] s = (Inr (), s)"
| "reject_tickets why recover (t # ts) s =
     (case find_record t s of None \<Rightarrow> (Inl (unknown_ticket t), s)
      | Some r \<Rightarrow>
          let s1 = set_terminal (tk_generation t) C_REJECTED why s;
              s2 = (if recover then recover_discarded r s1 else s1)
          in reject_tickets why recover ts s2)"

definition clear_slots :: "'a chunk_machine \<Rightarrow> 'a chunk_machine" where
  "clear_slots s = s\<lparr>cm_pending := None, cm_ready := None, cm_executing := None, cm_remainder := None\<rparr>"

definition disconnect :: "'a chunk_machine \<Rightarrow> runtime_state res \<times> 'a chunk_machine" where
  "disconnect s =
     (case reject_tickets ''transport disconnected'' False (active_tickets s) s of
        (Inl e, s1) \<Rightarrow> (Inl e, s1)
      | (Inr _, s1) \<Rightarrow>
          let d = (if cm_disconnect_policy s1 = HOLD then R_HOLDING else R_STOPPED)
          in (Inr d, trim_history ((clear_slots s1)\<lparr>cm_disconnected := Some d\<rparr>)))"

definition reset :: "string option \<Rightarrow> 'a chunk_machine \<Rightarrow> unit res \<times> 'a chunk_machine" where
  "reset episode s =
     (if episode = Some [] then (Inl (ValueError ''episode_id must be a non-empty string''), s)
      else case reject_tickets ''runtime reset'' True (active_tickets s) s of
        (Inl e, s1) \<Rightarrow> (Inl e, s1)
      | (Inr _, s1) \<Rightarrow>
          (Inr (), trim_history ((clear_slots s1)
             \<lparr>cm_episode_id := (case episode of None \<Rightarrow> cm_episode_id s1 | Some e \<Rightarrow> e),
              cm_latest_sequence := None, cm_latest_timestamp := None, cm_disconnected := None\<rparr>)))"

section \<open>The live view of the records\<close>

text \<open>
  What the slots must agree with: the records that are not yet terminal, by generation.
  Trimming the history never changes it.
\<close>

definition live_entry :: "chunk_record \<Rightarrow> (ticket \<times> chunk_status) option" where
  "live_entry r = (if terminal_chunk (cr_status r) then None else Some (cr_ticket r, cr_status r))"

definition live :: "(nat, chunk_record) odict \<Rightarrow> nat \<Rightarrow> (ticket \<times> chunk_status) option" where
  "live d g = Option.bind (od_get d g) live_entry"

definition trimmed :: "'a chunk_machine \<Rightarrow> (nat, chunk_record) odict" where
  "trimmed s = cm_records (trim_history s)"

lemma trim_history_upd: "trim_history s = s\<lparr>cm_records := trimmed s\<rparr>"
  by (simp add: trimmed_def trim_history_def Let_def)

lemma get_foldl_del_nat: "od_get (foldl (\<lambda>d k. od_del k d) d ks) j = (if j \<in> set ks then None else od_get d j)"
  by (induction ks arbitrary: d) auto

lemma od_ok_foldl_del: "od_ok d \<Longrightarrow> od_ok (foldl (\<lambda>d k. od_del k d) d ks)"
  by (induction ks arbitrary: d) auto

lemma removable_terminal:
  assumes "od_ok (cm_records s)" and "g \<in> set (removable s)"
  shows "\<exists>r. od_get (cm_records s) g = Some r \<and> terminal_chunk (cr_status r) \<and> \<not> protected_gen s g r"
proof -
  from assms(2) obtain r where "(g, r) \<in> set (cm_records s)" "terminal_chunk (cr_status r)"
      "\<not> protected_gen s g r"
    by (auto simp: removable_def)
  with od_get_Some_iff [OF assms(1)] show ?thesis by blast
qed

lemma get_trimmed:
  assumes "od_ok (cm_records s)"
  shows "od_get (trimmed s) g = od_get (cm_records s) g \<or>
    od_get (trimmed s) g = None \<and>
      (\<exists>r. od_get (cm_records s) g = Some r \<and> terminal_chunk (cr_status r) \<and> \<not> protected_gen s g r)"
  using removable_terminal [OF assms, of g]
  by (auto simp: trimmed_def trim_history_def Let_def get_foldl_del_nat dest: in_set_takeD)

lemma live_trimmed [simp]: "od_ok (cm_records s) \<Longrightarrow> live (trimmed s) = live (cm_records s)"
proof (rule ext)
  fix g
  assume "od_ok (cm_records s)"
  from get_trimmed [OF this, of g] show "live (trimmed s) g = live (cm_records s) g"
    by (auto simp: live_def live_entry_def)
qed

lemma od_ok_trimmed [simp]: "od_ok (cm_records s) \<Longrightarrow> od_ok (trimmed s)"
  by (simp add: trimmed_def trim_history_def Let_def od_ok_foldl_del)

lemma live_map_entry [simp]:
  "live (AList.map_entry g f d) = (live d)(g := Option.bind (od_get d g) (live_entry \<circ> f))"
  by (rule ext) (simp add: live_def map_of_map_entry split: option.splits)

lemma keys_map_entry [simp]: "od_keys (AList.map_entry g f d) = od_keys d"
  by (induction d) auto

lemma od_ok_map_entry [simp]: "od_ok (AList.map_entry g f d) = od_ok d"
  by (simp add: od_ok_def)

lemma live_put [simp]: "live (od_put g r d) = (live d)(g := live_entry r)"
  by (rule ext) (simp add: live_def)

section \<open>The slot invariant\<close>

text \<open>
  With the default policy for remainders: the live records are exactly the tickets in the
  three slots, each with the slot's status; pending and ready never coexist and hold the
  newest accepted request; a chunk in a slot belongs to the slot's ticket and to the current
  episode; and a disconnected machine holds nothing.
\<close>

definition pend_map :: "ticket option \<Rightarrow> nat \<Rightarrow> (ticket \<times> chunk_status) option" where
  "pend_map x = (case x of None \<Rightarrow> Map.empty | Some t \<Rightarrow> [tk_generation t \<mapsto> (t, C_PENDING)])"

definition work_map ::
    "chunk_status \<Rightarrow> (ticket \<times> 'a action_chunk) option \<Rightarrow> nat \<Rightarrow> (ticket \<times> chunk_status) option" where
  "work_map st x = (case x of None \<Rightarrow> Map.empty | Some (t, _) \<Rightarrow> [tk_generation t \<mapsto> (t, st)])"

definition chunk_matches :: "'a chunk_machine \<Rightarrow> ticket \<Rightarrow> 'a action_chunk \<Rightarrow> bool" where
  "chunk_matches s t c \<longleftrightarrow>
     ch_episode_id c = cm_episode_id s \<and> ch_sequence_id c = tk_sequence_id t \<and>
     ch_observation_timestamp_ns c = tk_observation_timestamp_ns t"

definition records_ok :: "'a chunk_machine \<Rightarrow> bool" where
  "records_ok s \<longleftrightarrow>
     od_ok (cm_records s) \<and>
     (\<forall>g r. od_get (cm_records s) g = Some r \<longrightarrow>
        g \<le> cm_generation s \<and> tk_generation (cr_ticket r) = g)"

definition slots_ok :: "'a chunk_machine \<Rightarrow> bool" where
  "slots_ok s \<longleftrightarrow>
     live (cm_records s) =
       pend_map (cm_pending s) ++ work_map C_READY (cm_ready s) ++ work_map C_EXECUTING (cm_executing s) \<and>
     distinct (map tk_generation (active_tickets s))"

definition order_ok :: "'a chunk_machine \<Rightarrow> bool" where
  "order_ok s \<longleftrightarrow>
     (\<forall>t. cm_pending s = Some t \<longrightarrow> cm_ready s = None \<and> cm_latest_sequence s = Some (tk_sequence_id t)) \<and>
     (\<forall>t c. cm_ready s = Some (t, c) \<longrightarrow>
        cm_latest_sequence s = Some (tk_sequence_id t) \<and> chunk_matches s t c) \<and>
     (\<forall>t c. cm_executing s = Some (t, c) \<longrightarrow>
        chunk_matches s t c \<and> ch_valid_length c \<le> execute_horizon s \<and>
        (\<exists>l. cm_latest_sequence s = Some l \<and> tk_sequence_id t \<le> l)) \<and>
     (cm_disconnected s \<noteq> None \<longrightarrow> cm_pending s = None \<and> cm_ready s = None \<and> cm_executing s = None)"

definition chunk_inv :: "'a chunk_machine \<Rightarrow> bool" where
  "chunk_inv s \<longleftrightarrow>
     cm_remainder_policy s = DISCARD \<and> cm_remainder s = None \<and>
     records_ok s \<and> slots_ok s \<and> order_ok s"

lemmas chunk_inv_defs = chunk_inv_def records_ok_def slots_ok_def order_ok_def

lemma slot_live:
  assumes "slots_ok s"
  shows "cm_pending s = Some t \<Longrightarrow> live (cm_records s) (tk_generation t) = Some (t, C_PENDING)"
    and "cm_ready s = Some (t, c) \<Longrightarrow> live (cm_records s) (tk_generation t) = Some (t, C_READY)"
    and "cm_executing s = Some (t, c) \<Longrightarrow> live (cm_records s) (tk_generation t) = Some (t, C_EXECUTING)"
  using assms
  by (auto simp: slots_ok_def pend_map_def work_map_def active_tickets_def map_add_def
      split: option.splits)

lemma live_find:
  "live (cm_records s) (tk_generation t) = Some (t', st) \<Longrightarrow>
     \<exists>r. find_record t s = Some r \<and> cr_ticket r = t' \<and> cr_status r = st"
  by (auto simp: live_def live_entry_def find_record_def Option.bind_eq_Some_conv split: if_splits)

lemma slot_found:
  assumes "slots_ok s"
  shows "cm_pending s = Some t \<Longrightarrow> \<exists>r. find_record t s = Some r \<and> cr_ticket r = t \<and> cr_status r = C_PENDING"
    and "cm_ready s = Some (t, c) \<Longrightarrow> \<exists>r. find_record t s = Some r \<and> cr_ticket r = t \<and> cr_status r = C_READY"
    and "cm_executing s = Some (t, c) \<Longrightarrow>
      \<exists>r. find_record t s = Some r \<and> cr_ticket r = t \<and> cr_status r = C_EXECUTING"
  using slot_live [OF assms] live_find by blast+

lemma records_ok_trimmed:
  assumes "records_ok s"
  shows "records_ok (s\<lparr>cm_records := trimmed s\<rparr>)"
proof -
  have ok: "od_ok (cm_records s)" using assms by (simp add: records_ok_def)
  have "od_get (cm_records s) g = Some r" if "od_get (trimmed s) g = Some r" for g r
    using get_trimmed [OF ok, of g] that by auto
  with assms ok show ?thesis by (simp add: records_ok_def)
qed

text \<open>Trimming, and rewriting one record without changing its liveness, keep the invariant.\<close>

lemma chunk_inv_trim: "chunk_inv s \<Longrightarrow> chunk_inv (trim_history s)"
  using records_ok_trimmed [of s]
  by (simp add: chunk_inv_def trim_history_upd slots_ok_def order_ok_def active_tickets_def
      chunk_matches_def records_ok_def)

lemma records_ok_entry:
  "records_ok s \<Longrightarrow> (\<And>r. cr_ticket (f r) = cr_ticket r) \<Longrightarrow>
     records_ok (s\<lparr>cm_records := AList.map_entry g f (cm_records s)\<rparr>)"
  by (auto simp: records_ok_def map_of_map_entry split: option.splits if_splits)

lemma chunk_inv_entry:
  assumes "chunk_inv s" and "\<And>r. live_entry (f r) = live_entry r" and "\<And>r. cr_ticket (f r) = cr_ticket r"
  shows "chunk_inv (upd_record g f s)"
proof -
  have "live (AList.map_entry g f (cm_records s)) = live (cm_records s)"
    using assms(2) by (cases "od_get (cm_records s) g") (auto simp: fun_eq_iff live_def)
  with assms(1) records_ok_entry [of s f g] assms(3) show ?thesis
    by (simp add: chunk_inv_def upd_record_def slots_ok_def order_ok_def active_tickets_def chunk_matches_def)
qed

lemma chunk_inv_log: "chunk_inv (s\<lparr>cm_recoveries := l\<rparr>) = chunk_inv s"
  by (simp add: chunk_inv_def records_ok_def slots_ok_def order_ok_def active_tickets_def chunk_matches_def)

lemma live_entry_flags [simp]:
  "live_entry (r\<lparr>cr_recovered := b\<rparr>) = live_entry r"
  "live_entry (r\<lparr>cr_started := b\<rparr>) = live_entry r"
  "live_entry (r\<lparr>cr_completed := b\<rparr>) = live_entry r"
  by (simp_all add: live_entry_def)

lemma chunk_inv_recover: "chunk_inv s \<Longrightarrow> chunk_inv (recover_discarded r s)"
  by (auto simp: recover_discarded_def chunk_inv_log intro!: chunk_inv_entry)

lemma chunk_inv_mark: "chunk_inv s \<Longrightarrow> chunk_inv (snd (mark_inference_started t s))"
  by (auto simp: mark_inference_started_def split: option.splits intro!: chunk_inv_entry)

section \<open>Preservation\<close>

lemma slots_simps [simp]:
  "pend_map None = Map.empty" "work_map st None = Map.empty"
  "pend_map (Some t) = [tk_generation t \<mapsto> (t, C_PENDING)]"
  "work_map st (Some (t, c)) = [tk_generation t \<mapsto> (t, st)]"
  by (simp_all add: pend_map_def work_map_def)

lemma live_entry_terminal [simp]:
  "terminal_chunk st \<Longrightarrow> live_entry (r\<lparr>cr_status := st, cr_reason := why\<rparr>) = None"
  by (simp add: live_entry_def)

lemma terminal_simps [simp]:
  "terminal_chunk C_EXECUTED" "terminal_chunk C_SUPERSEDED" "terminal_chunk C_EXPIRED"
  "terminal_chunk C_REJECTED" "\<not> terminal_chunk C_PENDING" "\<not> terminal_chunk C_READY"
  "\<not> terminal_chunk C_EXECUTING"
  by (simp_all add: terminal_chunk_def)

lemma bind_None_fun [simp]: "Option.bind x (\<lambda>_. None) = None"
  by (cases x) auto

text \<open>Retiring the ticket of a slot and emptying the slot, in either order.\<close>

lemma set_terminal_upd:
  "set_terminal g st why s =
     s\<lparr>cm_records := trimmed (s\<lparr>cm_records := AList.map_entry g
         (\<lambda>r. r\<lparr>cr_status := st, cr_reason := Some why\<rparr>) (cm_records s)\<rparr>)\<rparr>"
  by (simp add: set_terminal_def trim_history_upd upd_record_def)

lemma live_set_terminal:
  assumes "od_ok (cm_records s)" and "terminal_chunk st"
  shows "live (cm_records (set_terminal g st why s)) = (live (cm_records s))(g := None)"
proof -
  have "live_entry \<circ> (\<lambda>r. r\<lparr>cr_status := st, cr_reason := Some why\<rparr>) = (\<lambda>_. None)"
    using assms(2) by (simp add: fun_eq_iff)
  with assms(1) show ?thesis by (simp add: set_terminal_upd)
qed

lemma records_ok_set_terminal: "records_ok s \<Longrightarrow> records_ok (set_terminal g st why s)"
proof -
  assume "records_ok s"
  then have "records_ok (s\<lparr>cm_records := AList.map_entry g
         (\<lambda>r. r\<lparr>cr_status := st, cr_reason := Some why\<rparr>) (cm_records s)\<rparr>)"
    by (rule records_ok_entry) simp
  from records_ok_trimmed [OF this] show ?thesis by (simp add: set_terminal_upd)
qed

lemma set_terminal_fields [simp]:
  "cm_pending (set_terminal g st why s) = cm_pending s"
  "cm_ready (set_terminal g st why s) = cm_ready s"
  "cm_executing (set_terminal g st why s) = cm_executing s"
  "cm_remainder (set_terminal g st why s) = cm_remainder s"
  "cm_remainder_policy (set_terminal g st why s) = cm_remainder_policy s"
  "cm_disconnected (set_terminal g st why s) = cm_disconnected s"
  "cm_latest_sequence (set_terminal g st why s) = cm_latest_sequence s"
  "cm_latest_timestamp (set_terminal g st why s) = cm_latest_timestamp s"
  "cm_generation (set_terminal g st why s) = cm_generation s"
  "cm_episode_id (set_terminal g st why s) = cm_episode_id s"
  "execute_horizon (set_terminal g st why s) = execute_horizon s"
  "active_tickets (set_terminal g st why s) = active_tickets s"
  "chunk_matches (set_terminal g st why s) = chunk_matches s"
  by (simp_all add: set_terminal_upd active_tickets_def chunk_matches_def fun_eq_iff)

lemma fresh_generation:
  "records_ok s \<Longrightarrow> g > cm_generation s \<Longrightarrow> od_get (cm_records s) g = None"
  by (cases "od_get (cm_records s) g") (fastforce simp: records_ok_def)+

lemma live_fresh: "records_ok s \<Longrightarrow> g > cm_generation s \<Longrightarrow> live (cm_records s) g = None"
  by (simp add: live_def fresh_generation)

lemma new_ticket_generation [simp]: "tk_generation (new_ticket now seq ts ttl s) = cm_generation s + 1"
  by (simp add: new_ticket_def)

lemma register_fields [simp]:
  "cm_pending (register_ticket t s) = cm_pending s"
  "cm_ready (register_ticket t s) = cm_ready s"
  "cm_executing (register_ticket t s) = cm_executing s"
  "cm_remainder (register_ticket t s) = cm_remainder s"
  "cm_remainder_policy (register_ticket t s) = cm_remainder_policy s"
  "cm_disconnected (register_ticket t s) = cm_disconnected s"
  "cm_latest_sequence (register_ticket t s) = cm_latest_sequence s"
  "cm_latest_timestamp (register_ticket t s) = cm_latest_timestamp s"
  "cm_generation (register_ticket t s) = tk_generation t"
  "cm_episode_id (register_ticket t s) = cm_episode_id s"
  "execute_horizon (register_ticket t s) = execute_horizon s"
  "active_tickets (register_ticket t s) = active_tickets s"
  "chunk_matches (register_ticket t s) = chunk_matches s"
  "live (cm_records (register_ticket t s)) = (live (cm_records s))(tk_generation t \<mapsto> (t, C_PENDING))"
  by (simp_all add: register_ticket_def active_tickets_def chunk_matches_def fun_eq_iff live_entry_def)

lemma records_ok_register:
  "records_ok s \<Longrightarrow> tk_generation t = cm_generation s + 1 \<Longrightarrow> records_ok (register_ticket t s)"
  by (force simp: records_ok_def register_ticket_def)

lemma records_ok_upd [simp]:
  "records_ok (s\<lparr>cm_pending := x\<rparr>) = records_ok s"
  "records_ok (s\<lparr>cm_ready := y\<rparr>) = records_ok s"
  "records_ok (s\<lparr>cm_executing := z\<rparr>) = records_ok s"
  "records_ok (s\<lparr>cm_remainder := w\<rparr>) = records_ok s"
  "records_ok (s\<lparr>cm_disconnected := v\<rparr>) = records_ok s"
  "records_ok (s\<lparr>cm_latest_sequence := u\<rparr>) = records_ok s"
  "records_ok (s\<lparr>cm_latest_timestamp := u\<rparr>) = records_ok s"
  "records_ok (s\<lparr>cm_episode_id := e\<rparr>) = records_ok s"
  by (simp_all add: records_ok_def)

lemma chunk_inv_turned_away:
  assumes "chunk_inv s" and "tk_generation t = cm_generation s + 1" and "terminal_chunk st"
  shows "chunk_inv (set_terminal (tk_generation t) st why (register_ticket t s))"
proof -
  have ro: "records_ok (register_ticket t s)"
    using assms by (intro records_ok_register) (simp_all add: chunk_inv_def)
  have "live (cm_records s) (tk_generation t) = None"
    using assms by (intro live_fresh) (simp_all add: chunk_inv_def)
  then have "live (cm_records (set_terminal (tk_generation t) st why (register_ticket t s)))
      = live (cm_records s)"
    using ro assms(3) by (subst live_set_terminal) (auto simp: records_ok_def)
  with assms(1) records_ok_set_terminal [OF ro] show ?thesis
    by (simp add: chunk_inv_def slots_ok_def order_ok_def)
qed

lemma slot_generations:
  assumes "chunk_inv s"
  shows "cm_pending s = Some t \<Longrightarrow> tk_generation t \<le> cm_generation s"
    and "cm_ready s = Some (t, c) \<Longrightarrow> tk_generation t \<le> cm_generation s"
    and "cm_executing s = Some (t, c) \<Longrightarrow> tk_generation t \<le> cm_generation s"
proof -
  have so: "slots_ok s" and ro: "records_ok s" using assms by (simp_all add: chunk_inv_def)
  have *: "find_record t s = Some r \<Longrightarrow> tk_generation t \<le> cm_generation s" for r
    using ro by (auto simp: records_ok_def find_record_def)
  show "cm_pending s = Some t \<Longrightarrow> tk_generation t \<le> cm_generation s"
    using slot_found(1) [OF so] * by blast
  show "cm_ready s = Some (t, c) \<Longrightarrow> tk_generation t \<le> cm_generation s"
    using slot_found(2) [OF so] * by blast
  show "cm_executing s = Some (t, c) \<Longrightarrow> tk_generation t \<le> cm_generation s"
    using slot_found(3) [OF so] * by blast
qed

text \<open>What admission leaves behind once the older pending or ready work is retired.\<close>

definition emptied :: "ticket \<Rightarrow> 'a chunk_machine \<Rightarrow> 'a chunk_machine \<Rightarrow> bool" where
  "emptied t s s3 \<longleftrightarrow>
     records_ok s3 \<and>
     live (cm_records s3) = (work_map C_EXECUTING (cm_executing s))(tk_generation t \<mapsto> (t, C_PENDING)) \<and>
     cm_ready s3 = None \<and> cm_executing s3 = cm_executing s \<and>
     cm_remainder_policy s3 = cm_remainder_policy s \<and> cm_remainder s3 = cm_remainder s \<and>
     cm_disconnected s3 = cm_disconnected s \<and> cm_latest_sequence s3 = cm_latest_sequence s \<and>
     chunk_matches s3 = chunk_matches s \<and> execute_horizon s3 = execute_horizon s"

lemma find_register:
  "tk_generation p \<noteq> tk_generation t \<Longrightarrow> find_record p (register_ticket t s) = find_record p s"
  by (simp add: find_record_def register_ticket_def)

lemma chunk_matches_upd [simp]:
  "chunk_matches (s\<lparr>cm_pending := y\<rparr>) = chunk_matches s"
  "chunk_matches (s\<lparr>cm_ready := x\<rparr>) = chunk_matches s"
  "chunk_matches (s\<lparr>cm_executing := x\<rparr>) = chunk_matches s"
  "chunk_matches (s\<lparr>cm_remainder := z\<rparr>) = chunk_matches s"
  by (simp_all add: chunk_matches_def fun_eq_iff)

lemma supersede_both:
  assumes inv: "chunk_inv s" and g: "tk_generation t = cm_generation s + 1"
  shows "\<exists>s2 s3. supersede_pending (register_ticket t s) = Inr s2 \<and> supersede_ready s2 = Inr s3 \<and> emptied t s s3"
proof -
  let ?r = "register_ticket t s"
  have so: "slots_ok s" and oo: "order_ok s" and ro: "records_ok ?r"
    using inv g by (auto simp: chunk_inv_def intro: records_ok_register)
  have ok: "od_ok (cm_records ?r)" using ro by (simp add: records_ok_def)
  note gens = slot_generations [OF inv]
  have dist: "distinct (map tk_generation (active_tickets s))" using so by (simp add: slots_ok_def)
  show ?thesis
  proof (cases "cm_pending s")
    case (Some p)
    let ?s2 = "set_terminal (tk_generation p) C_SUPERSEDED
                 ''a newer observation superseded the pending request'' ?r"
    have rdy: "cm_ready s = None" using oo Some by (simp add: order_ok_def)
    have "tk_generation p \<noteq> tk_generation t" using gens(1) [OF Some] g by simp
    then have sp: "supersede_pending ?r = Inr ?s2"
      using slot_found(1) [OF so Some] Some by (auto simp: supersede_pending_def find_register)
    have "live (cm_records ?s2) =
        (work_map C_EXECUTING (cm_executing s))(tk_generation t \<mapsto> (t, C_PENDING))"
      using so dist Some rdy gens g ok
      by (cases "cm_executing s") (auto simp: live_set_terminal slots_ok_def active_tickets_def fun_eq_iff)
    then have "emptied t s ?s2"
      using rdy records_ok_set_terminal [OF ro] by (simp add: emptied_def)
    then show ?thesis using sp rdy by (auto simp: supersede_ready_def)
  next
    case None
    have sp: "supersede_pending ?r = Inr ?r" using None by (simp add: supersede_pending_def)
    show ?thesis
    proof (cases "cm_ready s")
      case None': None
      have "emptied t s ?r"
        using so None None' ro by (auto simp: emptied_def slots_ok_def)
      then show ?thesis using sp None' by (auto simp: supersede_ready_def)
    next
      case (Some pc)
      then obtain p c where Some: "cm_ready s = Some (p, c)" by (cases pc) auto
      let ?s3 = "(set_terminal (tk_generation p) C_SUPERSEDED
                   ''a newer observation superseded the ready chunk'' ?r)\<lparr>cm_ready := None\<rparr>"
      have "tk_generation p \<noteq> tk_generation t" using gens(2) [OF Some] g by simp
      then have sr: "supersede_ready ?r = Inr ?s3"
        using slot_found(2) [OF so Some] Some by (auto simp: supersede_ready_def find_register)
      have "live (cm_records ?s3) =
          (work_map C_EXECUTING (cm_executing s))(tk_generation t \<mapsto> (t, C_PENDING))"
        using so dist Some None gens g ok
        by (cases "cm_executing s") (auto simp: live_set_terminal slots_ok_def active_tickets_def fun_eq_iff)
      then have "emptied t s ?s3"
        using records_ok_set_terminal [OF ro] by (simp add: emptied_def)
      then show ?thesis using sp sr by blast
    qed
  qed
qed

lemma chunk_matches_cong:
  "cm_episode_id s = cm_episode_id s' \<Longrightarrow> chunk_matches s = chunk_matches s'"
  by (simp add: chunk_matches_def fun_eq_iff)

lemma chunk_inv_admit:
  assumes inv: "chunk_inv s" and g: "tk_generation t = cm_generation s + 1"
    and e: "emptied t s s3" and free: "cm_disconnected s = None"
    and newer: "\<And>l. cm_latest_sequence s = Some l \<Longrightarrow> l < tk_sequence_id t"
  shows "chunk_inv (admit t s3)"
proof -
  let ?ts = "tk_observation_timestamp_ns t"
  let ?s = "s3\<lparr>cm_pending := Some t, cm_latest_sequence := Some (tk_sequence_id t),
        cm_latest_timestamp := (case cm_latest_timestamp s3 of None \<Rightarrow> Some ?ts
           | Some l \<Rightarrow> if ?ts > l then Some ?ts else Some l)\<rparr>"
  have ex: "tk_generation t' \<noteq> tk_generation t \<and> tk_sequence_id t' \<le> tk_sequence_id t"
    if "cm_executing s = Some (t', c)" for t' c
    using slot_generations(3) [OF inv that] g inv newer that
    by (force simp: chunk_inv_def order_ok_def)
  have m: "chunk_matches ?s = chunk_matches s"
    using e by (simp add: emptied_def chunk_matches_def fun_eq_iff)
  have "slots_ok ?s"
    using e ex by (cases "cm_executing s") (auto simp: emptied_def slots_ok_def active_tickets_def fun_eq_iff)
  moreover have "order_ok ?s"
    using e ex free inv m by (simp add: order_ok_def emptied_def chunk_inv_def)
  moreover have "records_ok ?s" using e by (simp add: emptied_def)
  ultimately have "chunk_inv ?s" using e inv by (simp add: chunk_inv_def emptied_def)
  then show ?thesis unfolding admit_def Let_def by (rule chunk_inv_trim)
qed

lemma turned_away_terminal: "turned_away t clock s = Some (st, why) \<Longrightarrow> terminal_chunk st"
  by (auto simp: turned_away_def split: if_splits)

lemma chunk_inv_submit: "chunk_inv s \<Longrightarrow> chunk_inv (snd (submit now seq ts ttl clock s))"
proof -
  assume inv: "chunk_inv s"
  let ?t = "new_ticket now seq ts ttl s"
  have g: "tk_generation ?t = cm_generation s + 1" by simp
  obtain s2 s3 where s23: "supersede_pending (register_ticket ?t s) = Inr s2"
      "supersede_ready s2 = Inr s3" "emptied ?t s s3"
    using supersede_both [OF inv g] by blast
  have "chunk_inv (admit ?t s3)" if "turned_away ?t clock (register_ticket ?t s) = None"
    using that by (intro chunk_inv_admit [OF inv g s23(3)]) (auto simp: turned_away_def split: if_splits)
  moreover have "chunk_inv (set_terminal (cm_generation s + 1) st why (register_ticket ?t s))"
    if "turned_away ?t clock (register_ticket ?t s) = Some (st, why)" for st why
    using chunk_inv_turned_away [OF inv g turned_away_terminal [OF that]] by simp
  ultimately show ?thesis
    using inv s23 by (auto simp: submit_def Let_def split: option.splits)
qed

lemma records_ok_ok [dest]: "records_ok s \<Longrightarrow> od_ok (cm_records s)"
  by (simp add: records_ok_def)

text \<open>Retiring the pending request, or the chunk in execution.\<close>

lemma retire_pending:
  assumes inv: "chunk_inv s" and p: "cm_pending s = Some t" and st: "terminal_chunk st"
  shows "chunk_inv (set_terminal (tk_generation t) st why (s\<lparr>cm_pending := None\<rparr>))"
proof -
  have so: "slots_ok s" and ro: "records_ok s" and oo: "order_ok s"
    using inv by (simp_all add: chunk_inv_def)
  have rdy: "cm_ready s = None" using oo p by (simp add: order_ok_def)
  let ?s = "set_terminal (tk_generation t) st why (s\<lparr>cm_pending := None\<rparr>)"
  have "live (cm_records ?s) = (live (cm_records s))(tk_generation t := None)"
    using st ro by (subst live_set_terminal) auto
  then have "slots_ok ?s"
    using so p rdy by (cases "cm_executing s") (auto simp: slots_ok_def active_tickets_def fun_eq_iff)
  moreover have "order_ok ?s"
    using oo by (simp add: order_ok_def)
  moreover have "records_ok ?s"
    using ro by (intro records_ok_set_terminal) simp
  ultimately show ?thesis using inv by (simp add: chunk_inv_def)
qed

lemma upd_record_fields [simp]:
  "cm_pending (upd_record g f s) = cm_pending s"
  "cm_ready (upd_record g f s) = cm_ready s"
  "cm_executing (upd_record g f s) = cm_executing s"
  "chunk_matches (upd_record g f s) = chunk_matches s"
  "cm_remainder (upd_record g f s) = cm_remainder s"
  "cm_remainder_policy (upd_record g f s) = cm_remainder_policy s"
  by (simp_all add: upd_record_def chunk_matches_def fun_eq_iff)

lemma retire_executing:
  assumes inv: "chunk_inv s" and p: "cm_executing s = Some (t, c)" and st: "terminal_chunk st"
  shows "chunk_inv (trim_history (upd_record (tk_generation t)
    (\<lambda>r. r\<lparr>cr_status := st, cr_reason := why\<rparr>) (s\<lparr>cm_executing := None\<rparr>)))"
    (is "chunk_inv (trim_history ?s)")
proof -
  have so: "slots_ok s" and ro: "records_ok s" and oo: "order_ok s"
    using inv by (simp_all add: chunk_inv_def)
  have "live_entry \<circ> (\<lambda>r. r\<lparr>cr_status := st, cr_reason := why\<rparr>) = (\<lambda>_. None)"
    using st by (simp add: fun_eq_iff)
  then have "live (cm_records ?s) = (live (cm_records s))(tk_generation t := None)"
    by (simp add: upd_record_def)
  then have "slots_ok ?s"
    using so p oo by (cases "cm_pending s"; cases "cm_ready s")
      (auto simp: slots_ok_def order_ok_def active_tickets_def fun_eq_iff)
  moreover have "order_ok ?s"
    using oo by (simp add: order_ok_def upd_record_def chunk_matches_def)
  moreover have "records_ok ?s"
    unfolding upd_record_def using ro by (intro records_ok_entry) (simp_all add: records_ok_def)
  moreover have "cm_remainder_policy ?s = DISCARD" "cm_remainder ?s = None"
    using inv by (simp_all add: chunk_inv_def)
  ultimately have "chunk_inv ?s" unfolding chunk_inv_def by blast
  then show ?thesis by (rule chunk_inv_trim)
qed

lemma promote_pending:
  assumes inv: "chunk_inv s" and p: "cm_pending s = Some t" and m: "chunk_matches s t c"
  shows "chunk_inv (upd_record (tk_generation t) (\<lambda>r. r\<lparr>cr_status := C_READY, cr_reason := None\<rparr>)
           (s\<lparr>cm_pending := None, cm_ready := Some (t, c)\<rparr>))" (is "chunk_inv ?s")
proof -
  have so: "slots_ok s" and ro: "records_ok s" and oo: "order_ok s"
    using inv by (simp_all add: chunk_inv_def)
  have rdy: "cm_ready s = None" using oo p by (simp add: order_ok_def)
  obtain r where r: "od_get (cm_records s) (tk_generation t) = Some r" "cr_ticket r = t"
    using slot_found(1) [OF so p] by (auto simp: find_record_def)
  have "slots_ok ?s"
    using so p rdy r by (cases "cm_executing s")
      (auto simp: slots_ok_def active_tickets_def fun_eq_iff upd_record_def live_entry_def)
  moreover have "order_ok ?s"
    using oo m p rdy by (auto simp: order_ok_def upd_record_def chunk_matches_cong [of ?s s]
        chunk_matches_def)
  moreover have "records_ok ?s"
    using records_ok_entry [of "s\<lparr>cm_pending := None, cm_ready := Some (t, c)\<rparr>"
        "\<lambda>r. r\<lparr>cr_status := C_READY, cr_reason := None\<rparr>" "tk_generation t"] ro
    by (simp add: upd_record_def)
  ultimately show ?thesis using inv by (simp add: chunk_inv_def upd_record_def)
qed

lemma start_ready:
  assumes inv: "chunk_inv s" and p: "cm_ready s = Some (t, c)" and free: "cm_executing s = None"
    and m: "chunk_matches s t ec" and n: "ch_valid_length ec \<le> execute_horizon s"
  shows "chunk_inv (upd_record (tk_generation t) (\<lambda>r. r\<lparr>cr_status := C_EXECUTING\<rparr>)
           (s\<lparr>cm_ready := None, cm_remainder := None, cm_executing := Some (t, ec)\<rparr>))"
    (is "chunk_inv ?s")
proof -
  have so: "slots_ok s" and ro: "records_ok s" and oo: "order_ok s"
    using inv by (simp_all add: chunk_inv_def)
  have pn: "cm_pending s = None" using oo p by (cases "cm_pending s") (auto simp: order_ok_def)
  obtain r where r: "od_get (cm_records s) (tk_generation t) = Some r" "cr_ticket r = t"
    using slot_found(2) [OF so p] by (auto simp: find_record_def)
  have "slots_ok ?s"
    using so p pn free r
    by (auto simp: slots_ok_def active_tickets_def fun_eq_iff upd_record_def live_entry_def)
  moreover have "order_ok ?s"
    using oo m n p pn by (auto simp: order_ok_def upd_record_def chunk_matches_cong [of ?s s]
        chunk_matches_def)
  moreover have "records_ok ?s"
    using records_ok_entry [of "s\<lparr>cm_ready := None, cm_remainder := None, cm_executing := Some (t, ec)\<rparr>"
        "\<lambda>r. r\<lparr>cr_status := C_EXECUTING\<rparr>" "tk_generation t"] ro
    by (simp add: upd_record_def)
  ultimately show ?thesis using inv by (simp add: chunk_inv_def upd_record_def)
qed

lemma validated_chunk: "validate_chunk s t c = None \<Longrightarrow> chunk_matches s t c"
  by (simp add: validate_chunk_def chunk_matches_def split: if_splits)

lemma chunk_inv_complete: "chunk_inv s \<Longrightarrow> chunk_inv (snd (complete now t c clock s))"
proof -
  assume inv: "chunk_inv s"
  let ?s1 = "upd_record (tk_generation t) (\<lambda>r. r\<lparr>cr_completed := True\<rparr>) s"
  have inv1: "chunk_inv ?s1" using inv by (intro chunk_inv_entry) auto
  have discard: "chunk_inv (recover_discarded r (set_terminal (tk_generation t) st why (?s1\<lparr>cm_pending := None\<rparr>)))"
    if "cm_pending s = Some t" "terminal_chunk st" for r st why
    using that by (intro chunk_inv_recover retire_pending inv1) auto
  have ready: "chunk_inv (upd_record (tk_generation t) (\<lambda>r. r\<lparr>cr_status := C_READY, cr_reason := None\<rparr>)
           (?s1\<lparr>cm_pending := None, cm_ready := Some (t, c)\<rparr>))"
    if "cm_pending s = Some t" "validate_chunk ?s1 t c = None"
    using that validated_chunk [of ?s1 t c] by (intro promote_pending inv1) auto
  show ?thesis
    using inv inv1 discard ready
    by (auto simp: complete_def Let_def chunk_inv_trim chunk_inv_recover split: option.splits)
qed

lemma chunk_inv_reject: "chunk_inv s \<Longrightarrow> chunk_inv (snd (reject t why s))"
proof -
  assume inv: "chunk_inv s"
  let ?s1 = "upd_record (tk_generation t) (\<lambda>r. r\<lparr>cr_completed := True\<rparr>) s"
  have inv1: "chunk_inv ?s1" using inv by (intro chunk_inv_entry) auto
  have "chunk_inv (recover_discarded r (set_terminal (tk_generation t) C_REJECTED why (?s1\<lparr>cm_pending := None\<rparr>)))"
    if "cm_pending s = Some t" for r
    using that by (intro chunk_inv_recover retire_pending inv1) auto
  with inv inv1 show ?thesis
    by (auto simp: reject_def Let_def chunk_inv_recover split: option.splits)
qed

lemma chunk_inv_begin: "chunk_inv s \<Longrightarrow> chunk_inv (snd (begin_execution s))"
proof -
  assume inv: "chunk_inv s"
  have "chunk_inv (upd_record (tk_generation t) (\<lambda>r. r\<lparr>cr_status := C_EXECUTING\<rparr>)
      (s\<lparr>cm_ready := None, cm_remainder := None,
         cm_executing := Some (t, trim_chunk (min (execute_horizon s) (ch_valid_length c)) c)\<rparr>))"
    if "cm_ready s = Some (t, c)" "cm_executing s = None" for t c
    using that inv by (intro start_ready [OF inv that])
      (auto simp: chunk_inv_def order_ok_def chunk_matches_def trim_chunk_def Let_def)
  moreover have "\<exists>r. find_record t s = Some r" if "cm_ready s = Some (t, c)" for t c
    using slot_found(2) [of s t c] inv that by (auto simp: chunk_inv_def)
  ultimately show ?thesis
    using inv by (fastforce simp: begin_execution_def Let_def chunk_inv_def [of s] split: option.splits)
qed

lemma chunk_inv_finish: "chunk_inv s \<Longrightarrow> chunk_inv (snd (finish_execution b s))"
proof -
  assume inv: "chunk_inv s"
  have rem: "cm_remainder s = None" using inv by (simp add: chunk_inv_def)
  show ?thesis
  proof (cases "cm_executing s")
    case None
    with inv show ?thesis by (simp add: finish_execution_def)
  next
    case (Some tc)
    then obtain t c where tc: "cm_executing s = Some (t, c)" by (cases tc) auto
    let ?s = "s\<lparr>cm_remainder := None\<rparr>"
    have "chunk_inv ?s" "cm_executing ?s = Some (t, c)" using inv tc rem by (cases s, simp)+
    then have "chunk_inv (set_terminal (tk_generation t) C_REJECTED w (?s\<lparr>cm_executing := None\<rparr>))" for w
      unfolding set_terminal_def by (rule retire_executing) simp
    moreover have eq: "s\<lparr>cm_executing := None, cm_remainder := None\<rparr> = ?s\<lparr>cm_executing := None\<rparr>"
      by simp
    ultimately have "chunk_inv (set_terminal (tk_generation t) C_REJECTED w
        (s\<lparr>cm_executing := None, cm_remainder := None\<rparr>))" for w
      by (simp only: eq)
    moreover have "chunk_inv (trim_history (upd_record (tk_generation t)
        (\<lambda>r. r\<lparr>cr_status := C_EXECUTED, cr_reason := None\<rparr>) (s\<lparr>cm_executing := None\<rparr>)))"
      by (rule retire_executing [OF inv tc]) simp
    ultimately show ?thesis
      using tc rem inv by (simp add: finish_execution_def Let_def split: option.splits)
  qed
qed


section \<open>Barriers keep the invariant\<close>

text \<open>Rejecting one live ticket, with or without recovery, touches only records and log.\<close>

definition relogged :: "(nat, chunk_record) odict \<Rightarrow> string list \<Rightarrow> 'a chunk_machine \<Rightarrow> 'a chunk_machine" where
  "relogged R L s = s\<lparr>cm_records := R, cm_recoveries := L\<rparr>"

lemma relogged_simps [simp]:
  "cm_records (relogged R L s) = R"
  "relogged R L (relogged R' L' s) = relogged R L s"
  "relogged (cm_records s) (cm_recoveries s) s = s"
  "cm_remainder_policy (relogged R L s) = cm_remainder_policy s"
  "cm_disconnect_policy (relogged R L s) = cm_disconnect_policy s"
  "cm_episode_id (relogged R L s) = cm_episode_id s"
  "cm_generation (relogged R L s) = cm_generation s"
  "records_ok (clear_slots s) = records_ok s"
  by (simp_all add: relogged_def records_ok_def clear_slots_def)

lemma records_ok_relogged: "records_ok (relogged R L s) = records_ok (s\<lparr>cm_records := R\<rparr>)"
  by (simp add: relogged_def records_ok_def)

lemma set_terminal_relogged: "set_terminal g st why s = relogged (cm_records (set_terminal g st why s)) (cm_recoveries s) s"
  by (simp add: relogged_def set_terminal_upd)

lemma recover_relogged:
  "\<exists>R L. recover_discarded r s = relogged R L s \<and> live R = live (cm_records s) \<and>
     (records_ok s \<longrightarrow> records_ok (relogged R L s))"
proof (cases "\<not> cm_stateful_policy s \<or> \<not> cr_started r \<or> cr_recovered r")
  case True
  then have "recover_discarded r s = relogged (cm_records s) (cm_recoveries s) s"
    by (auto simp: recover_discarded_def)
  then show ?thesis by (metis relogged_simps(3))
next
  case False
  let ?h = "tk_generation (cr_ticket r)" and ?f = "\<lambda>r. r\<lparr>cr_recovered := True\<rparr>"
  let ?R = "AList.map_entry ?h ?f (cm_records s)"
  have "live ?R = live (cm_records s)"
    by (cases "od_get (cm_records s) ?h") (auto simp: fun_eq_iff live_def)
  moreover have "records_ok (relogged ?R L s)" if "records_ok s" for L
    using records_ok_entry [OF that, of ?f ?h] by (simp add: records_ok_relogged)
  moreover have "recover_discarded r s = relogged ?R (cm_recoveries s @ [cm_episode_id s]) s"
    using False by (simp add: recover_discarded_def upd_record_def relogged_def)
  ultimately show ?thesis by metis
qed

lemma reject_one:
  assumes "records_ok s"
  shows "\<exists>R L. (if rec then recover_discarded r (set_terminal g C_REJECTED why s)
                else set_terminal g C_REJECTED why s) = relogged R L s \<and>
    records_ok (relogged R L s) \<and> live R = (live (cm_records s))(g := None)"
proof -
  let ?s1 = "set_terminal g C_REJECTED why s"
  have ro: "records_ok ?s1" using assms by (rule records_ok_set_terminal)
  have lv: "live (cm_records ?s1) = (live (cm_records s))(g := None)"
    using assms by (intro live_set_terminal) auto
  obtain R L where r: "recover_discarded r ?s1 = relogged R L ?s1" "live R = live (cm_records ?s1)"
      "records_ok (relogged R L ?s1)"
    using recover_relogged [of r ?s1] ro by blast
  have "relogged R L ?s1 = relogged R L s" by (subst set_terminal_relogged) simp
  with r lv ro set_terminal_relogged [of g C_REJECTED why s] show ?thesis by (cases rec) metis+
qed

lemma reject_tickets_spec:
  assumes "records_ok s" and "distinct (map tk_generation ts)"
    and "\<And>t. t \<in> set ts \<Longrightarrow> live (cm_records s) (tk_generation t) \<noteq> None"
  shows "\<exists>R L. reject_tickets why rec ts s = (Inr (), relogged R L s) \<and> records_ok (relogged R L s) \<and>
    live R = (\<lambda>g. if g \<in> tk_generation ` set ts then None else live (cm_records s) g)"
  using assms
proof (induction ts arbitrary: s)
  case Nil
  from Nil.prems(1) show ?case by (intro exI [of _ "cm_records s"] exI [of _ "cm_recoveries s"]) simp
next
  case (Cons t ts)
  from Cons.prems(3) [of t] obtain r where r: "find_record t s = Some r"
    by (cases "find_record t s") (auto simp: find_record_def live_def)
  obtain R L where s1: "(if rec then recover_discarded r (set_terminal (tk_generation t) C_REJECTED why s)
      else set_terminal (tk_generation t) C_REJECTED why s) = relogged R L s"
      "records_ok (relogged R L s)" "live R = (live (cm_records s))(tk_generation t := None)"
    using reject_one [OF Cons.prems(1)] by blast
  have "live (cm_records (relogged R L s)) (tk_generation u) \<noteq> None" if "u \<in> set ts" for u
    using Cons.prems(2) Cons.prems(3) [of u] imageI [OF that, of tk_generation] that s1(3)
    by (cases "tk_generation u = tk_generation t") simp_all
  from Cons.IH [OF s1(2) _ this] Cons.prems(2) obtain R' L' where
    "reject_tickets why rec ts (relogged R L s) = (Inr (), relogged R' L' s)"
    "records_ok (relogged R' L' s)"
    "live R' = (\<lambda>g. if g \<in> tk_generation ` set ts then None else live R g)" by fastforce
  with r s1 show ?case
    by (intro exI [of _ R'] exI [of _ L']) (auto simp: Let_def fun_eq_iff)
qed

lemma active_live:
  assumes "slots_ok s" and "t \<in> set (active_tickets s)"
  shows "live (cm_records s) (tk_generation t) \<noteq> None"
proof -
  from assms(2) have "cm_pending s = Some t \<or> (\<exists>c. cm_ready s = Some (t, c)) \<or> (\<exists>c. cm_executing s = Some (t, c))"
    by (cases "cm_pending s"; cases "cm_ready s"; cases "cm_executing s") (auto simp: active_tickets_def)
  then show ?thesis using slot_live [OF assms(1), of t] by auto
qed

lemma all_slots_rejected:
  assumes "slots_ok s"
  shows "(\<lambda>g. if g \<in> tk_generation ` set (active_tickets s) then None else live (cm_records s) g) = Map.empty"
  using assms by (cases "cm_pending s"; cases "cm_ready s"; cases "cm_executing s")
    (auto simp: slots_ok_def active_tickets_def fun_eq_iff)

text \<open>A machine whose records are all terminal and whose slots are empty.\<close>

definition quiescent :: "'a chunk_machine \<Rightarrow> bool" where
  "quiescent s \<longleftrightarrow>
     cm_pending s = None \<and> cm_ready s = None \<and> cm_executing s = None \<and> cm_remainder s = None \<and>
     live (cm_records s) = Map.empty"

lemma barrier:
  assumes "chunk_inv s"
  shows "\<exists>R L. reject_tickets why rec (active_tickets s) s = (Inr (), relogged R L s) \<and>
    records_ok (relogged R L s) \<and> live R = Map.empty"
proof -
  have so: "slots_ok s" and ro: "records_ok s" using assms by (simp_all add: chunk_inv_def)
  have d: "distinct (map tk_generation (active_tickets s))" using so by (simp add: slots_ok_def)
  from reject_tickets_spec [OF ro d active_live [OF so]] all_slots_rejected [OF so]
  show ?thesis by metis
qed

lemma quiescent_inv:
  "quiescent s \<Longrightarrow> records_ok s \<Longrightarrow> cm_remainder_policy s = DISCARD \<Longrightarrow> chunk_inv s"
  by (simp add: quiescent_def chunk_inv_def slots_ok_def order_ok_def active_tickets_def)

lemma quiescent_trim: "records_ok s \<Longrightarrow> quiescent s \<Longrightarrow> quiescent (trim_history s)"
  by (simp add: quiescent_def trim_history_upd records_ok_def)

lemma barrier_end:
  assumes "chunk_inv s" and "records_ok (relogged R L s)" and "live R = Map.empty"
    and f: "cm_records (f (clear_slots (relogged R L s))) = R" "cm_generation (f (clear_slots (relogged R L s))) = cm_generation s"
      "cm_remainder_policy (f (clear_slots (relogged R L s))) = cm_remainder_policy s"
      "cm_pending (f (clear_slots (relogged R L s))) = None" "cm_ready (f (clear_slots (relogged R L s))) = None"
      "cm_executing (f (clear_slots (relogged R L s))) = None" "cm_remainder (f (clear_slots (relogged R L s))) = None"
  shows "quiescent (trim_history (f (clear_slots (relogged R L s)))) \<and>
    chunk_inv (trim_history (f (clear_slots (relogged R L s))))"
proof -
  let ?s = "f (clear_slots (relogged R L s))"
  have "records_ok ?s" using assms(2) f(1,2) by (simp add: records_ok_def)
  moreover have "quiescent ?s" using assms(3) f by (simp add: quiescent_def)
  moreover have "cm_remainder_policy ?s = DISCARD" using assms(1) f(3) by (simp add: chunk_inv_def)
  ultimately show ?thesis using quiescent_inv [of ?s] quiescent_trim [of ?s] chunk_inv_trim [of ?s] by blast
qed

lemma disconnect_quiescent:
  assumes "chunk_inv s"
  shows "\<exists>d. fst (disconnect s) = Inr d \<and> cm_disconnected (snd (disconnect s)) = Some d \<and>
    quiescent (snd (disconnect s)) \<and> chunk_inv (snd (disconnect s))"
proof -
  obtain R L where b: "reject_tickets ''transport disconnected'' False (active_tickets s) s = (Inr (), relogged R L s)"
      "records_ok (relogged R L s)" "live R = Map.empty"
    using barrier [OF assms] by blast
  let ?d = "if cm_disconnect_policy s = HOLD then R_HOLDING else R_STOPPED"
  have "disconnect s = (Inr ?d, trim_history ((clear_slots (relogged R L s))\<lparr>cm_disconnected := Some ?d\<rparr>))"
    by (simp add: disconnect_def b Let_def)
  with barrier_end [OF assms b(2,3), of "\<lambda>s. s\<lparr>cm_disconnected := Some ?d\<rparr>"] show ?thesis
    by (simp add: trim_history_upd clear_slots_def)
qed

definition restarted :: "string option \<Rightarrow> 'a chunk_machine \<Rightarrow> 'a chunk_machine" where
  "restarted ep s = s\<lparr>cm_episode_id := (case ep of None \<Rightarrow> cm_episode_id s | Some e \<Rightarrow> e),
      cm_latest_sequence := None, cm_latest_timestamp := None, cm_disconnected := None\<rparr>"

lemma restarted_eq:
  "restarted ep (clear_slots s) = (clear_slots s)
     \<lparr>cm_episode_id := (case ep of None \<Rightarrow> cm_episode_id s | Some e \<Rightarrow> e),
      cm_latest_sequence := None, cm_latest_timestamp := None, cm_disconnected := None\<rparr>"
  by (cases ep; cases s) (simp_all add: restarted_def clear_slots_def)

lemma reset_quiescent:
  assumes "chunk_inv s" and "ep \<noteq> Some []"
  shows "fst (reset ep s) = Inr () \<and> quiescent (snd (reset ep s)) \<and> chunk_inv (snd (reset ep s)) \<and>
    runtime_state_of (snd (reset ep s)) = R_EMPTY"
proof -
  obtain R L where b: "reject_tickets ''runtime reset'' True (active_tickets s) s = (Inr (), relogged R L s)"
      "records_ok (relogged R L s)" "live R = Map.empty"
    using barrier [OF assms(1)] by blast
  have e: "reset ep s = (Inr (), trim_history (restarted ep (clear_slots (relogged R L s))))"
    using assms(2) restarted_eq [of ep "relogged R L s"] by (cases ep) (simp_all add: reset_def b)
  moreover have "cm_disconnected (trim_history (restarted ep (clear_slots (relogged R L s)))) = None"
    by (simp add: trim_history_upd restarted_def)
  moreover have "quiescent (trim_history (restarted ep (clear_slots (relogged R L s)))) \<and>
      chunk_inv (trim_history (restarted ep (clear_slots (relogged R L s))))"
    by (rule barrier_end [OF assms(1) b(2,3)]) (simp_all add: restarted_def clear_slots_def)
  ultimately show ?thesis by (simp add: runtime_state_of_def quiescent_def)
qed


section \<open>The machine\<close>

datatype 'a chunk_op =
    Submit rat int int "rat option" "int option"
  | Mark_Started ticket
  | Complete rat ticket "'a action_chunk" "int option"
  | Reject ticket string
  | Begin_Execution
  | Finish_Execution bool
  | Disconnect
  | Reset "string option"

primrec chunk_step :: "'a chunk_machine \<Rightarrow> 'a chunk_op \<Rightarrow> 'a chunk_machine" where
  "chunk_step s (Submit now seq ts ttl clock) = snd (submit now seq ts ttl clock s)"
| "chunk_step s (Mark_Started t) = snd (mark_inference_started t s)"
| "chunk_step s (Complete now t c clock) = snd (complete now t c clock s)"
| "chunk_step s (Reject t why) = snd (reject t why s)"
| "chunk_step s Begin_Execution = snd (begin_execution s)"
| "chunk_step s (Finish_Execution ok) = snd (finish_execution ok s)"
| "chunk_step s Disconnect = snd (disconnect s)"
| "chunk_step s (Reset ep) = snd (reset ep s)"

lemma chunk_inv_step: "chunk_inv s \<Longrightarrow> chunk_inv (chunk_step s e)"
proof (cases e)
  case Disconnect
  assume "chunk_inv s"
  with Disconnect disconnect_quiescent show ?thesis by auto
next
  case (Reset ep)
  assume "chunk_inv s"
  with Reset reset_quiescent [of s ep] show ?thesis by (cases "ep = Some []") (auto simp: reset_def)
qed (auto intro: chunk_inv_submit chunk_inv_mark chunk_inv_complete chunk_inv_reject
      chunk_inv_begin chunk_inv_finish)

lemma new_chunk_inv:
  "new_chunk_machine ep h age DISCARD dp sf cb hist = Inr s \<Longrightarrow> chunk_inv s"
  by (auto simp: new_chunk_machine_def chunk_inv_def records_ok_def slots_ok_def order_ok_def
      active_tickets_def live_def fun_eq_iff split: if_splits)

section \<open>Generations and the tickets in the slots\<close>

lemma trim_history_fields [simp]:
  "cm_generation (trim_history s) = cm_generation s"
  "active_tickets (trim_history s) = active_tickets s"
  by (simp_all add: trim_history_upd active_tickets_def)

lemma upd_record_active [simp]:
  "cm_generation (upd_record g f s) = cm_generation s"
  "active_tickets (upd_record g f s) = active_tickets s"
  by (simp_all add: upd_record_def active_tickets_def)

lemma recover_active [simp]:
  "cm_generation (recover_discarded r s) = cm_generation s"
  "active_tickets (recover_discarded r s) = active_tickets s"
  by (simp_all add: recover_discarded_def) (simp add: active_tickets_def)

lemma reject_tickets_active [simp]:
  "cm_generation (snd (reject_tickets why rec ts s)) = cm_generation s"
  by (induction ts arbitrary: s) (auto simp: Let_def split: option.splits)

lemma reject_tickets_generation:
  "reject_tickets why rec ts s = (r, s') \<Longrightarrow> cm_generation s' = cm_generation s"
  using reject_tickets_active [of why rec ts s] by simp

section \<open>Every ticket in a slot has its record\<close>

text \<open>This holds whatever the remainder policy is, where the slots and the records need not agree on the
  status: trimming spares the tickets in the slots, so no operation misses a record.\<close>

definition filed :: "'a chunk_machine \<Rightarrow> bool" where
  "filed s \<longleftrightarrow> records_ok s \<and> (\<forall>t \<in> set (active_tickets s). od_get (cm_records s) (tk_generation t) \<noteq> None)"

lemma chunk_inv_filed:
  assumes "chunk_inv s"
  shows "filed s"
proof -
  have "od_get (cm_records s) (tk_generation t) \<noteq> None" if "t \<in> set (active_tickets s)" for t
    using active_live [OF _ that] assms by (cases "od_get (cm_records s) (tk_generation t)") (auto simp: chunk_inv_def live_def)
  with assms show ?thesis by (simp add: filed_def chunk_inv_def)
qed

lemma new_machine_filed: "new_chunk_machine ep h age rp dp sf cb hist = Inr s \<Longrightarrow> filed s"
  by (auto simp: new_chunk_machine_def filed_def records_ok_def active_tickets_def split: if_splits)

lemma filed_find: "filed s \<Longrightarrow> t \<in> set (active_tickets s) \<Longrightarrow> \<exists>r. find_record t s = Some r"
  by (auto simp: filed_def find_record_def)

lemma filed_old: "filed s \<Longrightarrow> t \<in> set (active_tickets s) \<Longrightarrow> tk_generation t \<le> cm_generation s"
  by (auto simp: filed_def records_ok_def)

lemma slot_active:
  "cm_pending s = Some t \<Longrightarrow> t \<in> set (active_tickets s)"
  "cm_ready s = Some (t, c) \<Longrightarrow> t \<in> set (active_tickets s)"
  "cm_executing s = Some (t, c) \<Longrightarrow> t \<in> set (active_tickets s)"
  by (simp_all add: active_tickets_def)

lemma filed_less:
  assumes "filed s" and "cm_records s' = cm_records s" and "cm_generation s' = cm_generation s"
    and "set (active_tickets s') \<subseteq> set (active_tickets s)"
  shows "filed s'"
  using assms by (auto simp: filed_def records_ok_def)

lemma filed_entry:
  assumes "filed s" and "\<And>r. cr_ticket (f r) = cr_ticket r"
  shows "filed (upd_record g f s)"
proof -
  have "od_get (cm_records (upd_record g f s)) h = None \<longleftrightarrow> od_get (cm_records s) h = None" for h
    by (cases "od_get (cm_records s) g") (auto simp: upd_record_def map_of_map_entry)
  moreover have "records_ok (upd_record g f s)"
    using records_ok_entry [of s f g] assms by (simp add: upd_record_def filed_def)
  ultimately show ?thesis using assms(1) by (simp add: filed_def)
qed

lemma filed_trim:
  assumes "filed s"
  shows "filed (trim_history s)"
proof -
  have ro: "records_ok s" using assms by (simp add: filed_def)
  have "od_get (trimmed s) (tk_generation t) \<noteq> None" if t: "t \<in> set (active_tickets s)" for t
  proof -
    have "protected_gen s (tk_generation t) r" for r using t by (simp add: protected_gen_def)
    with get_trimmed [of s "tk_generation t"] ro assms t show ?thesis by (auto simp: filed_def)
  qed
  with records_ok_trimmed [OF ro] show ?thesis by (simp add: filed_def trim_history_upd active_tickets_def)
qed

lemma filed_terminal: "filed s \<Longrightarrow> filed (set_terminal g st why s)"
  unfolding set_terminal_def by (rule filed_trim, erule filed_entry) simp

lemma filed_recover: "filed s \<Longrightarrow> filed (recover_discarded r s)"
  by (auto simp: recover_discarded_def intro!: filed_entry elim!: filed_less simp: active_tickets_def)

lemma filed_register:
  assumes "filed s" and "tk_generation t = cm_generation s + 1"
  shows "filed (register_ticket t s)"
  using assms records_ok_register [of s t] by (auto simp: filed_def) (simp add: register_ticket_def)

lemma filed_admit:
  assumes "filed s" and "od_get (cm_records s) (tk_generation t) \<noteq> None"
  shows "filed (admit t s)"
  unfolding admit_def Let_def using assms
  by (intro filed_trim) (auto simp: filed_def records_ok_def active_tickets_def)

text \<open>Admission finds the work that it retires.\<close>

lemma supersede_pending_filed:
  assumes "filed s"
  shows "\<exists>s'. supersede_pending s = Inr s' \<and> filed s' \<and> active_tickets s' = active_tickets s \<and>
    cm_generation s' = cm_generation s \<and>
    (\<forall>g. g \<notin> tk_generation ` set (active_tickets s) \<longrightarrow> live (cm_records s') g = live (cm_records s) g)"
proof (cases "cm_pending s")
  case None
  with assms show ?thesis by (simp add: supersede_pending_def)
next
  case (Some p)
  have "\<exists>r. find_record p s = Some r" using filed_find [OF assms slot_active(1) [OF Some]] .
  moreover have "od_ok (cm_records s)" using assms by (auto simp: filed_def)
  ultimately show ?thesis using Some slot_active(1) [OF Some] filed_terminal [OF assms]
    by (auto simp: supersede_pending_def live_set_terminal)
qed

lemma supersede_ready_filed:
  assumes "filed s"
  shows "\<exists>s'. supersede_ready s = Inr s' \<and> filed s' \<and> set (active_tickets s') \<subseteq> set (active_tickets s) \<and>
    cm_generation s' = cm_generation s \<and>
    (\<forall>g. g \<notin> tk_generation ` set (active_tickets s) \<longrightarrow> live (cm_records s') g = live (cm_records s) g)"
proof (cases "cm_ready s")
  case None
  with assms show ?thesis by (simp add: supersede_ready_def)
next
  case (Some pc)
  then obtain p c where r: "cm_ready s = Some (p, c)" by (cases pc) auto
  let ?s = "(set_terminal (tk_generation p) C_SUPERSEDED ''a newer observation superseded the ready chunk'' s)\<lparr>cm_ready := None\<rparr>"
  have sub: "set (active_tickets ?s) \<subseteq> set (active_tickets s)" by (auto simp: active_tickets_def)
  have "filed ?s" by (rule filed_less [OF filed_terminal [OF assms]]) (use sub in simp_all)
  moreover have "\<exists>r. find_record p s = Some r" using filed_find [OF assms slot_active(2) [OF r]] .
  moreover have "od_ok (cm_records s)" using assms by (auto simp: filed_def)
  ultimately show ?thesis using r sub slot_active(2) [OF r]
    by (auto simp: supersede_ready_def live_set_terminal)
qed

text \<open>
  How one operation changes the slots: only a submission creates a ticket, with the next
  generation; every other ticket in a slot afterwards was in a slot before.
\<close>

definition advances :: "'a chunk_machine \<Rightarrow> 'a chunk_machine \<Rightarrow> bool" where
  "advances s s' \<longleftrightarrow>
     cm_generation s \<le> cm_generation s' \<and>
     (\<forall>t \<in> set (active_tickets s'). t \<in> set (active_tickets s) \<or> cm_generation s < tk_generation t)"

lemma advances_same:
  "cm_generation s' = cm_generation s \<Longrightarrow> set (active_tickets s') \<subseteq> set (active_tickets s) \<Longrightarrow> advances s s'"
  by (auto simp: advances_def)

lemma admit_tickets:
  "cm_generation (admit t s) = cm_generation s"
  "active_tickets (admit t s) = t # (case cm_ready s of None \<Rightarrow> [] | Some (t, _) \<Rightarrow> [t])
     @ (case cm_executing s of None \<Rightarrow> [] | Some (t, _) \<Rightarrow> [t])"
  by (simp_all add: admit_def Let_def) (simp add: active_tickets_def)

lemma supersede_generation:
  "supersede_pending s = Inr s' \<Longrightarrow> cm_generation s' = cm_generation s"
  "supersede_ready s = Inr s' \<Longrightarrow> cm_generation s' = cm_generation s"
  by (auto simp: supersede_pending_def supersede_ready_def split: option.splits)

lemma submit_filed:
  assumes "filed s"
  shows "filed (snd (submit now seq ts ttl clock s)) \<and> advances s (snd (submit now seq ts ttl clock s))"
proof -
  let ?t = "new_ticket now seq ts ttl s"
  let ?r = "register_ticket ?t s"
  have fr: "filed ?r" using assms by (intro filed_register) simp_all
  obtain s2 where s2: "supersede_pending ?r = Inr s2" "filed s2" "active_tickets s2 = active_tickets s"
    "cm_generation s2 = cm_generation s + 1"
    "\<forall>g. g \<notin> tk_generation ` set (active_tickets s) \<longrightarrow> live (cm_records s2) g = live (cm_records ?r) g"
    using supersede_pending_filed [OF fr] by auto
  obtain s3 where s3: "supersede_ready s2 = Inr s3" "filed s3" "set (active_tickets s3) \<subseteq> set (active_tickets s)"
    "cm_generation s3 = cm_generation s + 1"
    "\<forall>g. g \<notin> tk_generation ` set (active_tickets s) \<longrightarrow> live (cm_records s3) g = live (cm_records s2) g"
    using supersede_ready_filed [OF s2(2)] s2(3,4) by auto
  have "tk_generation ?t \<notin> tk_generation ` set (active_tickets s)"
    using filed_old [OF assms] by fastforce
  then have "live (cm_records s3) (tk_generation ?t) \<noteq> None" using s2(5) s3(5) by simp
  then have "od_get (cm_records s3) (tk_generation ?t) \<noteq> None"
    by (cases "od_get (cm_records s3) (tk_generation ?t)") (simp_all add: live_def)
  with s3(2) have f: "filed (admit ?t s3)" by (rule filed_admit)
  have "set (active_tickets (admit ?t s3)) \<subseteq> insert ?t (set (active_tickets s3))"
    unfolding admit_tickets(2) by (auto simp: active_tickets_def split: option.splits)
  then have a: "advances s (admit ?t s3)" using s3(3,4) by (auto simp: advances_def admit_tickets)
  have "advances s (set_terminal n st why ?r)" for n st why
    by (auto simp: advances_def register_ticket_def active_tickets_def)
  moreover have "advances s s" by (simp add: advances_def)
  ultimately show ?thesis using f a fr filed_terminal [OF fr] assms s2(1) s3(1)
    by (auto simp: submit_def Let_def split: option.splits)
qed

lemma advances_complete: "advances s (snd (complete now t c clock s))"
  by (rule advances_same)
    (auto simp: complete_def Let_def split: option.splits, auto simp: active_tickets_def split: option.splits)

lemma advances_others:
  "advances s (snd (mark_inference_started t s))"
  "advances s (snd (reject t why s))"
  "advances s (snd (begin_execution s))"
  "advances s (snd (finish_execution ok s))"
  by (rule advances_same;
      auto simp: mark_inference_started_def reject_def begin_execution_def finish_execution_def Let_def
        split: option.splits; auto simp: active_tickets_def split: option.splits)+

text \<open>Rejecting the tickets of the slots, and what becomes of their records.\<close>

definition rejected_at :: "nat \<Rightarrow> 'a chunk_machine \<Rightarrow> bool" where
  "rejected_at g s \<longleftrightarrow> pred_option (\<lambda>r. cr_status r = C_REJECTED) (od_get (cm_records s) g)"

lemma rejected_trim: "od_ok (cm_records s) \<Longrightarrow> rejected_at g s \<Longrightarrow> rejected_at g (trim_history s)"
  using get_trimmed [of s g] by (auto simp: rejected_at_def trim_history_upd)

lemma rejected_terminal:
  assumes "od_ok (cm_records s)" and "rejected_at g s \<or> h = g"
  shows "rejected_at g (set_terminal h C_REJECTED why s)"
  unfolding set_terminal_def using assms
  by (intro rejected_trim) (auto simp: rejected_at_def upd_record_def map_of_map_entry split: option.splits)

lemma rejected_recover: "rejected_at g s \<Longrightarrow> rejected_at g (recover_discarded r s)"
  by (auto simp: rejected_at_def recover_discarded_def upd_record_def map_of_map_entry split: option.splits)

lemma reject_tickets_filed:
  assumes "filed s" and "set ts \<subseteq> set (active_tickets s)"
  shows "\<exists>s'. reject_tickets why rec ts s = (Inr (), s') \<and> filed s' \<and> cm_generation s' = cm_generation s \<and>
    (\<forall>g. rejected_at g s \<or> g \<in> tk_generation ` set ts \<longrightarrow> rejected_at g s')"
  using assms
proof (induction ts arbitrary: s)
  case (Cons t ts)
  obtain r where r: "find_record t s = Some r" using filed_find [OF Cons.prems(1), of t] Cons.prems(2) by auto
  let ?s1 = "set_terminal (tk_generation t) C_REJECTED why s"
  let ?s2 = "if rec then recover_discarded r ?s1 else ?s1"
  have ok: "od_ok (cm_records s)" using Cons.prems(1) by (auto simp: filed_def)
  have f: "filed ?s2" using Cons.prems(1) by (simp add: filed_recover filed_terminal)
  have "set ts \<subseteq> set (active_tickets ?s2)" using Cons.prems(2) by simp
  from Cons.IH [OF f this] obtain s' where s': "reject_tickets why rec ts ?s2 = (Inr (), s')" "filed s'"
    "cm_generation s' = cm_generation ?s2"
    "\<forall>g. rejected_at g ?s2 \<or> g \<in> tk_generation ` set ts \<longrightarrow> rejected_at g s'" by blast
  have "rejected_at g ?s2" if "rejected_at g s \<or> tk_generation t = g" for g
    using rejected_terminal [OF ok that] by (simp add: rejected_recover)
  with s' r show ?case by (auto simp: Let_def)
qed simp

lemma filed_empty:
  assumes "records_ok s" and "cm_pending s = None" and "cm_ready s = None" and "cm_executing s = None"
  shows "filed s"
  using assms by (simp add: filed_def active_tickets_def)

lemma disconnect_filed:
  assumes "filed s"
  shows "filed (snd (disconnect s)) \<and> advances s (snd (disconnect s))"
proof -
  obtain s' where s': "reject_tickets ''transport disconnected'' False (active_tickets s) s = (Inr (), s')"
    "filed s'" "cm_generation s' = cm_generation s"
    using reject_tickets_filed [OF assms order.refl] by blast
  define d where "d = (clear_slots s')\<lparr>cm_disconnected := Some (if cm_disconnect_policy s' = HOLD then R_HOLDING else R_STOPPED)\<rparr>"
  have e: "snd (disconnect s) = trim_history d" by (simp add: disconnect_def s'(1) Let_def d_def)
  have "filed d" by (rule filed_empty) (use s'(2) in \<open>simp_all add: d_def filed_def clear_slots_def\<close>)
  moreover have "cm_generation d = cm_generation s" "active_tickets d = []"
    using s'(3) by (simp_all add: d_def clear_slots_def active_tickets_def)
  ultimately show ?thesis using e by (simp add: filed_trim advances_def)
qed

lemma reset_filed:
  assumes "filed s" and "ep \<noteq> Some []"
  shows "fst (reset ep s) = Inr () \<and> filed (snd (reset ep s)) \<and> active_tickets (snd (reset ep s)) = [] \<and>
    cm_remainder (snd (reset ep s)) = None \<and> runtime_state_of (snd (reset ep s)) = R_EMPTY \<and>
    cm_generation (snd (reset ep s)) = cm_generation s \<and>
    (\<forall>t \<in> set (active_tickets s). rejected_at (tk_generation t) (snd (reset ep s)))"
proof -
  obtain s' where s': "reject_tickets ''runtime reset'' True (active_tickets s) s = (Inr (), s')"
    "filed s'" "cm_generation s' = cm_generation s" "\<forall>g. g \<in> tk_generation ` set (active_tickets s) \<longrightarrow> rejected_at g s'"
    using reject_tickets_filed [OF assms(1) order.refl] by blast
  define d where "d = restarted ep (clear_slots s')"
  have e: "reset ep s = (Inr (), trim_history d)"
    using assms(2) restarted_eq [of ep s'] by (cases ep) (simp_all add: reset_def s'(1) d_def)
  have k: "cm_records d = cm_records s'" "cm_generation d = cm_generation s" "active_tickets d = []"
    "cm_remainder d = None" "cm_pending d = None" "cm_ready d = None" "cm_executing d = None" "cm_disconnected d = None"
    using s'(3) by (simp_all add: d_def restarted_def clear_slots_def active_tickets_def)
  have "filed d" by (rule filed_empty) (use s'(2) in \<open>simp_all add: d_def filed_def restarted_def clear_slots_def\<close>)
  moreover have "rejected_at (tk_generation t) (trim_history d)" if "t \<in> set (active_tickets s)" for t
    using s'(2,4) k(1) that by (intro rejected_trim) (auto simp: rejected_at_def filed_def)
  moreover have "cm_remainder (trim_history d) = None" "runtime_state_of (trim_history d) = R_EMPTY"
    using k unfolding trim_history_upd runtime_state_of_def by simp_all
  ultimately show ?thesis using e k by (simp add: filed_trim)
qed

lemma filed_slots:
  assumes "filed s"
  shows "filed (s\<lparr>cm_pending := None\<rparr>)"
    and "t \<in> set (active_tickets s) \<Longrightarrow> filed (s\<lparr>cm_pending := None, cm_ready := Some (t, c)\<rparr>)"
    and "t \<in> set (active_tickets s) \<Longrightarrow> filed (s\<lparr>cm_ready := None, cm_remainder := rem, cm_executing := Some (t, c)\<rparr>)"
    and "filed (s\<lparr>cm_executing := None\<rparr>)"
    and "filed (s\<lparr>cm_executing := None, cm_remainder := rem\<rparr>)"
    and "t \<in> set (active_tickets s) \<Longrightarrow> filed (s\<lparr>cm_executing := None, cm_ready := Some (t, c), cm_remainder := rem\<rparr>)"
  by (rule filed_less [OF assms]; auto simp: active_tickets_def)+

lemma complete_filed: "filed s \<Longrightarrow> filed (snd (complete now t c clock s))"
  by (auto simp: complete_def Let_def slot_active(1) split: option.splits
      intro!: filed_trim filed_recover filed_terminal filed_entry filed_slots)

lemma reject_filed: "filed s \<Longrightarrow> filed (snd (reject t why s))"
  by (auto simp: reject_def Let_def split: option.splits
      intro!: filed_recover filed_terminal filed_entry filed_slots)

lemma mark_filed: "filed s \<Longrightarrow> filed (snd (mark_inference_started t s))"
  by (auto simp: mark_inference_started_def split: option.splits intro!: filed_entry)

lemma begin_filed: "filed s \<Longrightarrow> filed (snd (begin_execution s))"
  by (auto simp: begin_execution_def Let_def slot_active(2) split: option.splits intro!: filed_entry filed_slots)

lemma finish_filed: "filed s \<Longrightarrow> filed (snd (finish_execution ok s))"
  by (auto simp: finish_execution_def Let_def slot_active(3) split: option.splits
      intro!: filed_trim filed_terminal filed_entry filed_slots)

lemma step_filed:
  assumes "filed s"
  shows "filed (chunk_step s e) \<and> advances s (chunk_step s e)"
proof (cases e)
  case Disconnect
  with disconnect_filed [OF assms] show ?thesis by simp
next
  case (Reset ep)
  with reset_filed [OF assms, of ep] assms show ?thesis
    by (cases "ep = Some []") (auto simp: reset_def advances_def)
qed (use submit_filed [OF assms] assms in \<open>auto simp: complete_filed reject_filed mark_filed begin_filed finish_filed
       intro: advances_complete advances_others\<close>)

interpretation filed: invariant_machine chunk_step filed
  by unfold_locales (use step_filed in blast)

lemma advances_step: "chunk_inv s \<Longrightarrow> advances s (chunk_step s e)"
  using step_filed chunk_inv_filed by blast

interpretation cm: ranked_machine chunk_step chunk_inv cm_generation
proof unfold_locales
  fix s :: "'a chunk_machine" and e
  assume i: "chunk_inv s"
  show "chunk_inv (chunk_step s e)" using i by (rule chunk_inv_step)
  show "cm_generation s \<le> cm_generation (chunk_step s e)"
    using advances_step [OF i] by (simp add: advances_def)
qed


section \<open>Requests being inferred are never forgotten\<close>

text \<open>The record of a request whose inference has started and not ended.\<close>

definition inflight :: "nat \<Rightarrow> 'a chunk_machine \<Rightarrow> bool" where
  "inflight g s \<longleftrightarrow> od_ok (cm_records s) \<and>
     (\<exists>r. od_get (cm_records s) g = Some r \<and> cr_started r \<and> \<not> cr_completed r)"

definition ends_inference :: "nat \<Rightarrow> 'a chunk_op \<Rightarrow> bool" where
  "ends_inference g e =
     (case e of Complete _ t _ _ \<Rightarrow> tk_generation t = g | Reject t _ \<Rightarrow> tk_generation t = g | _ \<Rightarrow> False)"

lemma inflight_trim: "inflight g s \<Longrightarrow> inflight g (trim_history s)"
  using get_trimmed [of s g] by (auto simp: inflight_def trim_history_upd protected_gen_def)

lemma inflight_entry:
  assumes "inflight g s"
    and "\<And>r. h = g \<Longrightarrow> cr_started r \<and> \<not> cr_completed r \<Longrightarrow> cr_started (f r) \<and> \<not> cr_completed (f r)"
  shows "inflight g (upd_record h f s)"
proof -
  obtain r where r: "od_ok (cm_records s)" "od_get (cm_records s) g = Some r"
      "cr_started r \<and> \<not> cr_completed r"
    using assms(1) by (auto simp: inflight_def)
  with assms(2) [of r] show ?thesis
    by (cases "h = g") (simp_all add: inflight_def upd_record_def map_of_map_entry)
qed

lemma inflight_terminal: "inflight g s \<Longrightarrow> inflight g (set_terminal h st why s)"
  unfolding set_terminal_def by (rule inflight_trim, erule inflight_entry) simp

lemma inflight_fields [simp]:
  "inflight g (s\<lparr>cm_pending := a\<rparr>) = inflight g s"
  "inflight g (s\<lparr>cm_ready := b\<rparr>) = inflight g s"
  "inflight g (s\<lparr>cm_executing := b\<rparr>) = inflight g s"
  "inflight g (s\<lparr>cm_remainder := c\<rparr>) = inflight g s"
  "inflight g (s\<lparr>cm_latest_sequence := d\<rparr>) = inflight g s"
  "inflight g (s\<lparr>cm_latest_timestamp := d\<rparr>) = inflight g s"
  "inflight g (s\<lparr>cm_disconnected := x\<rparr>) = inflight g s"
  "inflight g (s\<lparr>cm_episode_id := y\<rparr>) = inflight g s"
  "inflight g (s\<lparr>cm_recoveries := z\<rparr>) = inflight g s"
  "inflight g (clear_slots s) = inflight g s"
  by (simp_all add: inflight_def clear_slots_def)

lemma inflight_recover: "inflight g s \<Longrightarrow> inflight g (recover_discarded r s)"
  by (auto simp: recover_discarded_def intro!: inflight_entry)

lemma inflight_supersede:
  "inflight g s \<Longrightarrow> supersede_pending s = Inr s' \<Longrightarrow> inflight g s'"
  "inflight g s \<Longrightarrow> supersede_ready s = Inr s' \<Longrightarrow> inflight g s'"
  by (auto simp: supersede_pending_def supersede_ready_def inflight_terminal split: option.splits)

lemma inflight_admit: "inflight g s \<Longrightarrow> inflight g (admit t s)"
  unfolding admit_def Let_def by (rule inflight_trim) simp

lemma inflight_register: "inflight g s \<Longrightarrow> tk_generation t \<noteq> g \<Longrightarrow> inflight g (register_ticket t s)"
  by (auto simp: inflight_def register_ticket_def)

lemma inflight_reject_tickets: "inflight g s \<Longrightarrow> inflight g (snd (reject_tickets why rec ts s))"
  by (induction ts arbitrary: s)
    (auto simp: Let_def inflight_recover inflight_terminal split: option.splits)

lemma inflight_step:
  assumes inv: "chunk_inv s" and "inflight g s" and "\<not> ends_inference g e"
  shows "inflight g (chunk_step s e)"
proof (cases e)
  case (Submit now seq ts ttl clock)
  have "g \<le> cm_generation s" using assms(1,2) by (auto simp: chunk_inv_def records_ok_def inflight_def)
  then have "inflight g (register_ticket (new_ticket now seq ts ttl s) s)"
    using assms(2) by (intro inflight_register) auto
  then show ?thesis using Submit assms(2)
    by (auto simp: submit_def Let_def inflight_terminal split: option.splits sum.splits)
      (metis inflight_admit inflight_supersede)+
next
  case (Complete now t c clock)
  with assms(2,3) show ?thesis
    by (auto simp: complete_def Let_def ends_inference_def split: option.splits
        intro!: inflight_trim inflight_recover inflight_terminal inflight_entry)
next
  case (Reject t why)
  with assms(2,3) show ?thesis
    by (auto simp: reject_def Let_def ends_inference_def split: option.splits
        intro!: inflight_recover inflight_terminal inflight_entry)
next
  case (Finish_Execution ok)
  with assms(2) show ?thesis
    by (auto simp: finish_execution_def Let_def split: option.splits
        intro!: inflight_trim inflight_terminal inflight_entry)
next
  case Disconnect
  with inflight_reject_tickets [OF assms(2)] show ?thesis
    by (auto simp: disconnect_def Let_def split: prod.splits sum.splits intro!: inflight_trim) (metis snd_conv)+
next
  case (Reset ep)
  with assms(2) inflight_reject_tickets [OF assms(2)] show ?thesis
    by (auto simp: reset_def split: prod.splits sum.splits intro!: inflight_trim) (metis snd_conv)+
qed (use assms(2) in \<open>auto simp: mark_inference_started_def begin_execution_def Let_def
       split: option.splits intro!: inflight_entry\<close>)

lemma inflight_run:
  assumes "chunk_inv s" and "inflight g s" and "\<And>e. e \<in> set es \<Longrightarrow> \<not> ends_inference g e"
  shows "inflight g (foldl chunk_step s es)"
  using assms
proof (induction es arbitrary: s)
  case (Cons e es)
  then show ?case by (simp add: chunk_inv_step inflight_step)
qed simp

section \<open>Old tickets stay out of the slots\<close>

text \<open>Every ticket in a slot is younger than generation \<open>g\<close>.\<close>

definition younger :: "nat \<Rightarrow> 'a chunk_machine \<Rightarrow> bool" where
  "younger g s \<longleftrightarrow> filed s \<and> g \<le> cm_generation s \<and> (\<forall>t \<in> set (active_tickets s). g < tk_generation t)"

interpretation young: invariant_machine chunk_step "younger g" for g
proof unfold_locales
  fix s :: "'a chunk_machine" and e
  assume y: "younger g s"
  then have "filed s" by (simp add: younger_def)
  from step_filed [OF this, of e] have "filed (chunk_step s e)" "advances s (chunk_step s e)" by simp_all
  with y show "younger g (chunk_step s e)" by (auto simp: younger_def advances_def)
qed

lemma quiescent_younger:
  "chunk_inv s \<Longrightarrow> quiescent s \<Longrightarrow> g \<le> cm_generation s \<Longrightarrow> younger g s"
  by (simp add: younger_def quiescent_def active_tickets_def chunk_inv_filed)


section \<open>Properties\<close>

text \<open>A machine with the default policies, and two requests, for the concrete instances.\<close>

definition demo_machine :: "remainder_policy \<Rightarrow> int chunk_machine" where
  "demo_machine rp = (case new_chunk_machine ''ep'' 2 None rp HOLD False False 2 of Inr s \<Rightarrow> s)"

definition demo_ticket :: "nat \<Rightarrow> int \<Rightarrow> ticket" where
  "demo_ticket g seq = \<lparr>tk_generation = g, tk_sequence_id = seq, tk_observation_timestamp_ns = seq,
     tk_received_at = 0, tk_deadline_at = None\<rparr>"

definition demo_chunk :: "int \<Rightarrow> int action_chunk" where
  "demo_chunk seq = \<lparr>ch_actions = [1, 2, 3], ch_valid_length = 3, ch_observation_timestamp_ns = seq,
     ch_sequence_id = seq, ch_episode_id = ''ep''\<rparr>"

text \<open>C7: Under the default remainder policy, after any sequence of operations on a fresh
  machine (submissions, late or duplicate completions, rejections, execution, disconnects and
  resets in any order) the slots and the records agree: the non-terminal records are exactly
  the tickets in the three slots, each with the status of its slot; a pending request and a
  ready chunk never coexist and belong to the newest accepted sequence; a chunk in a slot is
  the one its ticket asked for, cut to the horizon once it executes; and a disconnected machine
  holds nothing.\<close>

theorem chunk_slots_agree:
  assumes "new_chunk_machine ep h age DISCARD dp sf cb hist = Inr s0"
  shows "records_ok (foldl chunk_step s0 es) \<and> slots_ok (foldl chunk_step s0 es) \<and>
    order_ok (foldl chunk_step s0 es) \<and> cm_remainder (foldl chunk_step s0 es) = None"
  using cm.inv_run [OF new_chunk_inv [OF assms], of es] by (simp add: chunk_inv_def)

lemma demo_new: "new_chunk_machine ''ep'' 2 None rp HOLD False False 2 = Inr (demo_machine rp)"
  by (simp add: demo_machine_def new_chunk_machine_def)

lemma demo_inv: "chunk_inv (demo_machine DISCARD)"
  using demo_new new_chunk_inv by blast

theorem chunk_slots_agree_witness:
  "let s = foldl chunk_step (demo_machine DISCARD)
     [Submit 0 0 0 None None, Submit 1 1 1 None None, Complete 2 (demo_ticket 1 0) (demo_chunk 0) None]
   in slots_ok s \<and> cm_pending s = Some ((demo_ticket 2 1)\<lparr>tk_received_at := 1\<rparr>)"
proof -
  have "slots_ok (foldl chunk_step (demo_machine DISCARD)
     [Submit 0 0 0 None None, Submit 1 1 1 None None, Complete 2 (demo_ticket 1 0) (demo_chunk 0) None])"
    using chunk_slots_agree [OF demo_new] by blast
  moreover have "cm_pending (foldl chunk_step (demo_machine DISCARD)
     [Submit 0 0 0 None None, Submit 1 1 1 None None, Complete 2 (demo_ticket 1 0) (demo_chunk 0) None])
      = Some ((demo_ticket 2 1)\<lparr>tk_received_at := 1\<rparr>)"
    by code_simp
  ultimately show ?thesis by (simp only: Let_def)
qed

text \<open>Publication. In every reachable state, a completed chunk becomes the ready chunk if
  and only if its ticket is the pending request, the chunk carries the machine's episode and
  the ticket's sequence and timestamp, the ticket's deadline has not been reached and the
  observation is not stale; every other completion leaves the ready slot as it was.\<close>

theorem chunk_published_iff:
  assumes "chunk_inv s" and "validate_nonneg clock ''observation_clock_now_ns'' = None"
  shows "cm_ready (snd (complete now t c clock s)) =
    (if cm_pending s = Some t \<and> chunk_matches s t c \<and>
        (\<forall>d. tk_deadline_at t = Some d \<longrightarrow> now < d) \<and>
        \<not> observation_is_stale s (tk_observation_timestamp_ns t) clock
     then Some (t, c) else cm_ready s)"
proof -
  have so: "slots_ok s" using assms(1) by (simp add: chunk_inv_def)
  have st: "observation_is_stale (upd_record g f s) = observation_is_stale s" for g f
    by (simp add: observation_is_stale_def upd_record_def fun_eq_iff)
  have vc: "validate_chunk (upd_record g f s) t c = None \<longleftrightarrow> chunk_matches s t c" for g f
    by (simp add: validate_chunk_def chunk_matches_def upd_record_def)
  have rd: "cm_ready (recover_discarded r s') = cm_ready s'" "cm_ready (trim_history s') = cm_ready s'"
    for r and s' :: "'a chunk_machine"
    by (simp_all add: recover_discarded_def trim_history_upd)
  show ?thesis
  proof (cases "cm_pending s = Some t")
    case False
    then show ?thesis using assms(2)
      by (auto simp: complete_def Let_def rd split: option.splits)
  next
    case True
    obtain r where r: "find_record t s = Some r" "cr_status r = C_PENDING"
      using slot_found(1) [OF so True] by blast
    show ?thesis
      using True r assms(2) vc [of "tk_generation t" "\<lambda>r. r\<lparr>cr_completed := True\<rparr>"]
      by (cases "validate_chunk (upd_record (tk_generation t) (\<lambda>r. r\<lparr>cr_completed := True\<rparr>) s) t c")
        (auto simp: complete_def Let_def rd st split: option.splits)
  qed
qed

theorem chunk_published_iff_witness:
  "let s = chunk_step (demo_machine DISCARD) (Submit 0 0 0 None None) in
   cm_ready (snd (complete 1 (demo_ticket 1 0) (demo_chunk 0) None s)) = Some (demo_ticket 1 0, demo_chunk 0) \<and>
   cm_ready (snd (complete 1 (demo_ticket 1 0) (demo_chunk 5) None s)) = None"
proof -
  let ?s = "chunk_step (demo_machine DISCARD) (Submit 0 0 0 None None)"
  have i: "chunk_inv ?s" by (rule chunk_inv_step [OF demo_inv])
  have p: "cm_pending ?s = Some (demo_ticket 1 0)" "cm_ready ?s = None"
    "cm_episode_id ?s = ''ep''" "max_observation_age_ns ?s = None" by code_simp+
  show ?thesis
    using chunk_published_iff [OF i, of None 1 "demo_ticket 1 0" "demo_chunk 0"]
      chunk_published_iff [OF i, of None 1 "demo_ticket 1 0" "demo_chunk 5"] p
    by (simp add: Let_def validate_nonneg_def chunk_matches_def demo_ticket_def demo_chunk_def
        observation_is_stale_def)
qed


text \<open>Execution takes the newest accepted request: in every reachable state, a chunk handed
  to the simulator carries the sequence of the latest accepted submission and the current
  episode, it is the ready chunk cut to at most the execution horizon, and afterwards the
  machine is executing it with the ready slot empty.\<close>

theorem begin_takes_newest:
  assumes "chunk_inv s" and "fst (begin_execution s) = Inr (Some ec)"
  shows "\<exists>t c. cm_ready s = Some (t, c) \<and>
    cm_latest_sequence s = Some (ch_sequence_id ec) \<and> ch_episode_id ec = cm_episode_id s \<and>
    ch_valid_length ec = min (execute_horizon s) (ch_valid_length c) \<and>
    ch_actions ec = take (ch_valid_length ec) (ch_actions c) \<and>
    cm_ready (snd (begin_execution s)) = None \<and> cm_executing (snd (begin_execution s)) = Some (t, ec) \<and>
    runtime_state_of (snd (begin_execution s)) = R_EXECUTING"
proof -
  have oo: "order_ok s" using assms(1) by (simp add: chunk_inv_def)
  have free: "cm_disconnected s = None" "cm_executing s = None"
    using assms(2) by (cases "cm_disconnected s"; cases "cm_executing s"; simp add: begin_execution_def)+
  then obtain t c where rdy: "cm_ready s = Some (t, c)"
    using assms(2) by (cases "cm_ready s") (auto simp: begin_execution_def)
  have m: "chunk_matches s t c" "cm_latest_sequence s = Some (tk_sequence_id t)"
    using oo rdy by (simp_all add: order_ok_def)
  obtain r where "find_record t s = Some r"
    using slot_found(2) [OF _ rdy] assms(1) by (auto simp: chunk_inv_def)
  with assms(2) free rdy m show ?thesis
    by (auto simp: begin_execution_def Let_def trim_chunk_def chunk_matches_def upd_record_def
        runtime_state_of_def)
qed

theorem begin_takes_newest_witness:
  "let s = foldl chunk_step (demo_machine DISCARD)
     [Submit 0 0 0 None None, Submit 1 4 4 None None,
      Complete 2 ((demo_ticket 2 4)\<lparr>tk_received_at := 1\<rparr>) (demo_chunk 4) None];
     ec = trim_chunk 2 (demo_chunk 4)
   in fst (begin_execution s) = Inr (Some ec) \<and> cm_latest_sequence s = Some (ch_sequence_id ec)"
proof -
  let ?s = "foldl chunk_step (demo_machine DISCARD)
     [Submit 0 0 0 None None, Submit 1 4 4 None None,
      Complete 2 ((demo_ticket 2 4)\<lparr>tk_received_at := 1\<rparr>) (demo_chunk 4) None]"
  have b: "fst (begin_execution ?s) = Inr (Some (trim_chunk 2 (demo_chunk 4)))" by code_simp
  from begin_takes_newest [OF cm.inv_run [OF demo_inv] b] b show ?thesis by (auto simp only: Let_def)
qed

text \<open>A request whose inference has started is never forgotten: whatever happens in
  between (newer submissions, execution, disconnects, resets, history trimming), as long as the
  worker has not reported the end of that inference its record is still there, so the report
  (a completion or a rejection) is accepted and never raises an unknown-ticket error.\<close>

theorem started_request_reports:
  assumes "chunk_inv s" and "fst (mark_inference_started t s) = Inr C_PENDING"
    and "\<not> (\<exists>r. find_record t s = Some r \<and> cr_completed r)"
    and "\<forall>e \<in> set es. \<not> ends_inference (tk_generation t) e"
  shows "find_record t (foldl chunk_step (snd (mark_inference_started t s)) es) \<noteq> None \<and>
    fst (reject t why (foldl chunk_step (snd (mark_inference_started t s)) es)) \<noteq> Inl (unknown_ticket t)"
proof -
  let ?s = "snd (mark_inference_started t s)"
  have "od_ok (cm_records s)" using assms(1) by (simp add: chunk_inv_def records_ok_def)
  with assms(2,3) have "inflight (tk_generation t) ?s"
    by (auto simp: mark_inference_started_def inflight_def find_record_def upd_record_def
        map_of_map_entry split: option.splits if_splits)
  with assms(4) have "inflight (tk_generation t) (foldl chunk_step ?s es)"
    by (intro inflight_run chunk_inv_mark assms(1)) auto
  then obtain r where "find_record t (foldl chunk_step ?s es) = Some r"
    by (auto simp: inflight_def find_record_def)
  then show ?thesis by (auto simp: reject_def unknown_ticket_def Let_def)
qed

theorem started_request_reports_witness:
  "let s = chunk_step (demo_machine DISCARD) (Submit 0 0 0 None None); t = demo_ticket 1 0 in
   find_record t (foldl chunk_step (snd (mark_inference_started t s))
     [Submit 1 1 1 None None, Submit 2 2 2 None None, Submit 3 3 3 None None, Submit 4 4 4 None None,
      Submit 5 5 5 None None, Disconnect, Reset None]) \<noteq> None"
proof -
  let ?s = "chunk_step (demo_machine DISCARD) (Submit 0 0 0 None None)" and ?t = "demo_ticket 1 0"
  have m: "fst (mark_inference_started ?t ?s) = Inr C_PENDING" by code_simp
  have r: "map_option cr_completed (find_record ?t ?s) = Some False" by code_simp
  have c: "\<not> (\<exists>r. find_record ?t ?s = Some r \<and> cr_completed r)" using r by auto
  show ?thesis
    using started_request_reports [OF chunk_inv_step [OF demo_inv] m c, of
      "[Submit 1 1 1 None None, Submit 2 2 2 None None, Submit 3 3 3 None None, Submit 4 4 4 None None,
      Submit 5 5 5 None None, Disconnect, Reset None]"]
    by (simp add: Let_def ends_inference_def del: foldl_Cons chunk_step.simps)
qed

text \<open>C8: A reset is a barrier, on a machine with any policies after any sequence of operations: to a
  proper episode it always succeeds, empties every slot and drops the remainder, the record of every
  request that was in a slot is rejected or already trimmed, and no request made before it ever reaches
  a slot again, whatever is completed, submitted or executed later.\<close>

theorem reset_is_a_barrier:
  assumes "new_chunk_machine ep0 h age rp dp sf cb hist = Inr s0" and "s = foldl chunk_step s0 es0" and "ep \<noteq> Some []"
  shows "fst (reset ep s) = Inr () \<and> runtime_state_of (snd (reset ep s)) = R_EMPTY \<and>
    active_tickets (snd (reset ep s)) = [] \<and> cm_remainder (snd (reset ep s)) = None \<and>
    (\<forall>t \<in> set (active_tickets s). pred_option (\<lambda>r. cr_status r = C_REJECTED) (find_record t (snd (reset ep s)))) \<and>
    (\<forall>t \<in> set (active_tickets (foldl chunk_step (snd (reset ep s)) es)). cm_generation s < tk_generation t)"
proof -
  have "filed s" unfolding assms(2) by (rule filed.inv_run [OF new_machine_filed [OF assms(1)]])
  note q = reset_filed [OF this assms(3)]
  have "younger (cm_generation s) (snd (reset ep s))" using q by (simp add: younger_def)
  from young.inv_run [OF this, of es] q show ?thesis
    by (simp add: younger_def rejected_at_def find_record_def)
qed

theorem reset_is_a_barrier_witness:
  "let s = foldl chunk_step (demo_machine RETAIN)
        [Submit 0 0 0 None None, Complete 0 (demo_ticket 1 0) (demo_chunk 0) None, Begin_Execution,
         Submit 0 1 1 None None, Complete 0 (demo_ticket 2 1) (demo_chunk 1) None] in
   active_tickets s = [demo_ticket 2 1, demo_ticket 1 0] \<and> fst (reset None s) = Inr () \<and>
   (\<forall>t \<in> set (active_tickets (foldl chunk_step (snd (reset None s))
      [Submit 1 0 0 None None, Complete 2 (demo_ticket 2 1) (demo_chunk 1) None])). 2 < tk_generation t)"
proof -
  define s where "s = foldl chunk_step (demo_machine RETAIN)
        [Submit 0 0 0 None None, Complete 0 (demo_ticket 1 0) (demo_chunk 0) None, Begin_Execution,
         Submit 0 1 1 None None, Complete 0 (demo_ticket 2 1) (demo_chunk 1) None]"
  have "active_tickets s = [demo_ticket 2 1, demo_ticket 1 0]" "cm_generation s = 2"
    unfolding s_def by code_simp+
  moreover note reset_is_a_barrier [OF demo_new s_def, of None
      "[Submit 1 0 0 None None, Complete 2 (demo_ticket 2 1) (demo_chunk 1) None]"]
  ultimately show ?thesis unfolding Let_def s_def [symmetric]
    by (simp del: foldl_Cons chunk_step.simps)
qed

text \<open>With the retaining policy the newest-wins rule fails: if a newer chunk became ready
  while a horizon with a remainder was executing, finishing that horizon puts the remainder of
  the old chunk back into the ready slot; the newer chunk is gone from every slot and its
  record stays READY.\<close>

theorem retained_remainder_drops_newer_chunk:
  assumes "cm_executing s = Some (t, ec)" and "cm_remainder s = Some rem" and "cm_ready s = Some (t2, c2)"
    and "cm_pending s = None" and "cm_disconnected s = None"
    and "find_record t s = Some r" and "find_record t2 s = Some r2" and "cr_status r2 = C_READY"
    and "tk_generation t \<noteq> tk_generation t2"
  shows "fst (finish_execution True s) = Inr R_READY \<and>
    cm_ready (snd (finish_execution True s)) = Some (t, rem) \<and>
    active_tickets (snd (finish_execution True s)) = [t] \<and>
    find_record t2 (snd (finish_execution True s)) = Some r2"
  using assms
  by (simp add: finish_execution_def Let_def find_record_def upd_record_def active_tickets_def
      runtime_state_of_def map_of_map_entry)

theorem retained_remainder_drops_newer_chunk_witness:
  "let s = foldl chunk_step (demo_machine RETAIN)
     [Submit 0 0 0 None None, Complete 0 (demo_ticket 1 0) (demo_chunk 0) None, Begin_Execution,
      Submit 0 1 1 None None, Complete 0 (demo_ticket 2 1) (demo_chunk 1) None]
   in cm_ready s = Some (demo_ticket 2 1, demo_chunk 1) \<and>
      cm_ready (snd (finish_execution True s)) = Some (demo_ticket 1 0, rest_chunk 2 (demo_chunk 0))"
proof -
  let ?s = "foldl chunk_step (demo_machine RETAIN)
     [Submit 0 0 0 None None, Complete 0 (demo_ticket 1 0) (demo_chunk 0) None, Begin_Execution,
      Submit 0 1 1 None None, Complete 0 (demo_ticket 2 1) (demo_chunk 1) None]"
  have e: "cm_executing ?s = Some (demo_ticket 1 0, trim_chunk 2 (demo_chunk 0))"
    "cm_remainder ?s = Some (rest_chunk 2 (demo_chunk 0))"
    "cm_ready ?s = Some (demo_ticket 2 1, demo_chunk 1)"
    "cm_pending ?s = None" "cm_disconnected ?s = None"
    "find_record (demo_ticket 1 0) ?s = Some \<lparr>cr_ticket = demo_ticket 1 0, cr_status = C_EXECUTING,
       cr_started = False, cr_completed = True, cr_recovered = False, cr_reason = None\<rparr>"
    "find_record (demo_ticket 2 1) ?s = Some \<lparr>cr_ticket = demo_ticket 2 1, cr_status = C_READY,
       cr_started = False, cr_completed = True, cr_recovered = False, cr_reason = None\<rparr>"
    by code_simp+
  show ?thesis
    using retained_remainder_drops_newer_chunk [OF e] e(3) by (simp add: Let_def demo_ticket_def)
qed

end
