(* ===== verification/Live_Scheduler.thy ===== *)
theory Live_Scheduler
  imports Prelude
begin

text \<open>
  Worker admission for LiveKit serving: \<open>LiveKitScheduler\<close> of
  \<open>telefuser/service/livekit/scheduler.py\<close>. Every method runs under one lock and is one
  transformer; the clock reading is an argument. The load ratio of two machine integers is an
  exact rational here. The theorems state that capacities are never exceeded, that no session
  is lost or held twice, that placement goes to a least loaded healthy worker, and what the
  FIFO queue guarantees and what it does not.
\<close>

section \<open>State\<close>

datatype worker_status =
    W_STARTING | W_IDLE | W_ASSIGNED | W_JOINING_ROOM | W_STARTING_PIPELINE | W_RUNNING
  | W_DRAINING | W_FAILED | W_STOPPED

record worker_state =
  ws_worker_id :: string
  ws_status :: worker_status
  ws_gpu_ids :: "string list"
  ws_session_ids :: "string list"
  ws_session_capacity :: nat
  ws_session_id :: "string option"
  ws_room_name :: "string option"
  ws_last_heartbeat_at :: rat
  ws_error :: "string option"

datatype admission =
    Assigned string string
  | Queued nat
  | Rejected string

record live_scheduler =
  sc_workers :: "(string, worker_state) odict"
  sc_queue_size :: nat
  sc_queue :: "(string \<times> string) list"
  sc_room_names :: "(string, string) odict"

definition worker_name :: "nat \<Rightarrow> string" where
  "worker_name i = ''worker-'' @ str_of_int (int i)"

definition new_scheduler ::
    "rat \<Rightarrow> int \<Rightarrow> string list list option \<Rightarrow> int \<Rightarrow> int \<Rightarrow> live_scheduler res" where
  "new_scheduler now num_workers gpu_groups queue_size max_sessions =
     (if num_workers < 1 then Inl (ValueError ''num_workers must be >= 1'')
      else if queue_size < 0 then Inl (ValueError ''queue_size must be >= 0'')
      else if max_sessions < 1 then Inl (ValueError ''max_sessions_per_worker must be >= 1'')
      else let groups = (case gpu_groups of None \<Rightarrow> replicate (nat num_workers) []
                         | Some gs \<Rightarrow> if gs = [] then replicate (nat num_workers) [] else gs)
      in if int (length groups) \<noteq> num_workers then
           Inl (ValueError (''Expected '' @ str_of_int num_workers @ '' GPU groups, got ''
                @ str_of_int (int (length groups))))
         else Inr \<lparr>sc_workers = map (\<lambda>i. (worker_name i,
                  \<lparr>ws_worker_id = worker_name i, ws_status = W_IDLE, ws_gpu_ids = groups ! i,
                   ws_session_ids = [], ws_session_capacity = nat max_sessions,
                   ws_session_id = None, ws_room_name = None, ws_last_heartbeat_at = now,
                   ws_error = None\<rparr>)) [0..<nat num_workers],
                sc_queue_size = nat queue_size, sc_queue = [], sc_room_names = []\<rparr>)"

section \<open>Choosing a worker\<close>

definition has_room :: "worker_state \<Rightarrow> bool" where
  "has_room w \<longleftrightarrow>
     ws_status w \<notin> {W_FAILED, W_STOPPED, W_DRAINING} \<and>
     length (ws_session_ids w) < ws_session_capacity w"

definition load_key :: "worker_state \<Rightarrow> rat \<times> nat \<times> string" where
  "load_key w =
     (of_nat (length (ws_session_ids w)) / of_nat (ws_session_capacity w),
      length (ws_session_ids w), ws_worker_id w)"

definition least_loaded_worker :: "live_scheduler \<Rightarrow> worker_state option" where
  "least_loaded_worker s = py_min load_key (filter has_room (od_vals (sc_workers s)))"

fun find_holder :: "string \<Rightarrow> (string, worker_state) odict \<Rightarrow> worker_state option" where
  "find_holder sid [] = None"
| "find_holder sid ((k, w) # ws) = (if sid \<in> set (ws_session_ids w) then Some w else find_holder sid ws)"

definition worker_for_session :: "string \<Rightarrow> live_scheduler \<Rightarrow> worker_state option" where
  "worker_for_session sid s = find_holder sid (sc_workers s)"

definition put_worker :: "worker_state \<Rightarrow> live_scheduler \<Rightarrow> live_scheduler" where
  "put_worker w s = s\<lparr>sc_workers := od_put (ws_worker_id w) w (sc_workers s)\<rparr>"

text \<open>A session takes a slot of a worker, the four assignments shared by all admissions.\<close>

definition seat :: "rat \<Rightarrow> string \<Rightarrow> string \<Rightarrow> worker_state \<Rightarrow> worker_state" where
  "seat now sid room w =
     w\<lparr>ws_status := W_ASSIGNED, ws_session_ids := ws_session_ids w @ [sid],
       ws_session_id := Some sid, ws_room_name := Some room, ws_last_heartbeat_at := now\<rparr>"

definition admit_session :: "rat \<Rightarrow> string \<Rightarrow> string \<Rightarrow> worker_state \<Rightarrow> live_scheduler \<Rightarrow> live_scheduler" where
  "admit_session now sid room w s =
     (put_worker (seat now sid room w) s)\<lparr>sc_room_names := od_put sid room (sc_room_names s)\<rparr>"

definition last_opt :: "'a list \<Rightarrow> 'a option" where
  "last_opt xs = (if xs = [] then None else Some (last xs))"

section \<open>Operations\<close>

definition assign :: "rat \<Rightarrow> string \<Rightarrow> string \<Rightarrow> live_scheduler \<Rightarrow> admission \<times> live_scheduler" where
  "assign now sid room s =
     (case least_loaded_worker s of
        Some w \<Rightarrow> (Assigned (ws_worker_id w) sid, admit_session now sid room (w\<lparr>ws_error := None\<rparr>) s)
      | None \<Rightarrow>
          if sc_queue_size s = 0 then (Rejected ''no_idle_worker'', s)
          else if length (sc_queue s) \<ge> sc_queue_size s then (Rejected ''queue_full'', s)
          else (Queued (length (sc_queue s) + 1), s\<lparr>sc_queue := sc_queue s @ [(sid, room)]\<rparr>))"

text \<open>A session leaves its worker: the slot, the room and the shown session.\<close>

definition down :: "worker_state \<Rightarrow> bool" where
  "down w \<longleftrightarrow> ws_status w \<in> {W_FAILED, W_STOPPED}"

definition vacate ::
    "rat \<Rightarrow> string \<Rightarrow> (string, string) odict \<Rightarrow> worker_state \<Rightarrow> worker_state" where
  "vacate now sid rooms w =
     (let left = remove1 sid (ws_session_ids w);
          shown = last_opt left;
          w1 = w\<lparr>ws_session_ids := left, ws_session_id := shown,
                 ws_room_name := Option.bind shown (od_get rooms)\<rparr>;
          w2 = (if down w1 then w1
                else w1\<lparr>ws_error := None, ws_status := (if left = [] then W_IDLE else W_ASSIGNED)\<rparr>)
      in w2\<lparr>ws_last_heartbeat_at := now\<rparr>)"

definition release_session :: "rat \<Rightarrow> string \<Rightarrow> live_scheduler \<Rightarrow> admission option \<times> live_scheduler" where
  "release_session now sid s =
     (case worker_for_session sid s of
        None \<Rightarrow> (None, s\<lparr>sc_queue := filter (\<lambda>q. fst q \<noteq> sid) (sc_queue s)\<rparr>)
      | Some w \<Rightarrow>
          let rooms = od_del sid (sc_room_names s);
              w1 = vacate now sid rooms w;
              s1 = (put_worker w1 s)\<lparr>sc_room_names := rooms\<rparr>
          in case sc_queue s1 of
               [] \<Rightarrow> (None, s1)
             | (q, room) # rest \<Rightarrow>
                 if down w1 then (None, s1)
                 else (Some (Assigned (ws_worker_id w1) q),
                       admit_session now q room w1 (s1\<lparr>sc_queue := rest\<rparr>)))"

text \<open>The loop of \<open>drain_queue\<close>: one queued session per round while a worker has room.\<close>

fun drain_loop ::
    "rat \<Rightarrow> (string \<times> string) list \<Rightarrow> live_scheduler \<Rightarrow> admission list \<times> live_scheduler" where
  "drain_loop now [] s = ([], s\<lparr>sc_queue := []\<rparr>)"
| "drain_loop now ((q, room) # rest) s =
     (case least_loaded_worker s of
        None \<Rightarrow> ([], s\<lparr>sc_queue := (q, room) # rest\<rparr>)
      | Some w \<Rightarrow>
          let (as, s') = drain_loop now rest (admit_session now q room w (s\<lparr>sc_queue := rest\<rparr>))
          in (Assigned (ws_worker_id w) q # as, s'))"

definition drain_queue :: "rat \<Rightarrow> live_scheduler \<Rightarrow> admission list \<times> live_scheduler" where
  "drain_queue now s = drain_loop now (sc_queue s) s"

definition reassign_session ::
    "rat \<Rightarrow> string \<Rightarrow> string \<Rightarrow> live_scheduler \<Rightarrow> admission res \<times> live_scheduler" where
  "reassign_session now sid target_id s =
     (case worker_for_session sid s of
        None \<Rightarrow> (Inl (KeyError (''Session '' @ sid @ '' is not assigned'')), s)
      | Some source \<Rightarrow>
          (case od_get (sc_workers s) target_id of
             None \<Rightarrow> (Inl (KeyError target_id), s)
           | Some target \<Rightarrow>
               if ws_worker_id source = ws_worker_id target then
                 (Inr (Assigned (ws_worker_id target) sid), s)
               else if ws_status target \<in> {W_FAILED, W_STOPPED, W_DRAINING} then
                 (Inl (RuntimeError (''Migration target '' @ target_id @ '' is not available'')), s)
               else if length (ws_session_ids target) \<ge> ws_session_capacity target then
                 (Inl (RuntimeError (''Migration target '' @ target_id
                    @ '' has no retained-session capacity'')), s)
               else
                 (Inr (Assigned (ws_worker_id target) sid),
                  put_worker (target\<lparr>ws_session_ids := ws_session_ids target @ [sid],
                      ws_session_id := Some sid, ws_room_name := od_get (sc_room_names s) sid,
                      ws_status := W_ASSIGNED, ws_error := None, ws_last_heartbeat_at := now\<rparr>)
                    (put_worker (vacate now sid (sc_room_names s) source) s))))"

definition touch_worker ::
    "rat \<Rightarrow> string \<Rightarrow> (worker_state \<Rightarrow> worker_state) \<Rightarrow> live_scheduler
     \<Rightarrow> worker_state res \<times> live_scheduler" where
  "touch_worker now wid f s =
     (case od_get (sc_workers s) wid of
        None \<Rightarrow> (Inl (KeyError wid), s)
      | Some w \<Rightarrow> let w' = (f w)\<lparr>ws_last_heartbeat_at := now\<rparr>
                 in (Inr w', s\<lparr>sc_workers := od_put wid w' (sc_workers s)\<rparr>))"

definition update_worker_status ::
    "rat \<Rightarrow> string \<Rightarrow> worker_status \<Rightarrow> live_scheduler \<Rightarrow> worker_state res \<times> live_scheduler" where
  "update_worker_status now wid st = touch_worker now wid (\<lambda>w. w\<lparr>ws_status := st\<rparr>)"

definition heartbeat :: "rat \<Rightarrow> string \<Rightarrow> live_scheduler \<Rightarrow> worker_state res \<times> live_scheduler" where
  "heartbeat now wid = touch_worker now wid (\<lambda>w. w)"

definition fail_worker :: "rat \<Rightarrow> string \<Rightarrow> string \<Rightarrow> live_scheduler \<Rightarrow> worker_state res \<times> live_scheduler" where
  "fail_worker now wid err = touch_worker now wid (\<lambda>w. w\<lparr>ws_status := W_FAILED, ws_error := Some err\<rparr>)"

definition update_worker_capacity ::
    "rat \<Rightarrow> string \<Rightarrow> int \<Rightarrow> live_scheduler \<Rightarrow> worker_state res \<times> live_scheduler" where
  "update_worker_capacity now wid cap s =
     (if cap < 1 then (Inl (ValueError ''worker session capacity must be positive''), s)
      else case od_get (sc_workers s) wid of
        None \<Rightarrow> (Inl (KeyError wid), s)
      | Some w \<Rightarrow>
          if int (length (ws_session_ids w)) > cap then
            (Inl (RuntimeError (''Worker '' @ wid @ '' already owns ''
                @ str_of_int (int (length (ws_session_ids w)))
                @ '' sessions, cannot reduce capacity to '' @ str_of_int cap)), s)
          else touch_worker now wid (\<lambda>w. w\<lparr>ws_session_capacity := nat cap\<rparr>) s)"

record scheduler_health =
  workers_total :: nat
  workers_idle :: nat
  workers_busy :: nat
  workers_failed :: nat
  queued_sessions :: nat

definition health_snapshot :: "live_scheduler \<Rightarrow> scheduler_health" where
  "health_snapshot s =
     (let ws = od_vals (sc_workers s) in
      \<lparr>workers_total = length ws,
       workers_idle = length (filter (\<lambda>w. ws_status w = W_IDLE) ws),
       workers_busy = length (filter (\<lambda>w. ws_session_ids w \<noteq> []) ws),
       workers_failed = length (filter (\<lambda>w. ws_status w = W_FAILED) ws),
       queued_sessions = length (sc_queue s)\<rparr>)"


section \<open>The invariant\<close>

definition workers_ok :: "(string, worker_state) odict \<Rightarrow> bool" where
  "workers_ok d \<longleftrightarrow>
     od_ok d \<and> (\<forall>(k, w) \<in> set d. ws_worker_id w = k \<and> length (ws_session_ids w) \<le> ws_session_capacity w)"

definition sched_inv :: "live_scheduler \<Rightarrow> bool" where
  "sched_inv s \<longleftrightarrow> workers_ok (sc_workers s) \<and> length (sc_queue s) \<le> sc_queue_size s"

definition holdings :: "live_scheduler \<Rightarrow> string list" where
  "holdings s = concat (map ws_session_ids (od_vals (sc_workers s)))"

text \<open>Every session the scheduler knows: those on the workers, then those waiting.\<close>

definition all_sessions :: "live_scheduler \<Rightarrow> string list" where
  "all_sessions s = holdings s @ map fst (sc_queue s)"

lemma workers_ok_get:
  "workers_ok d \<Longrightarrow> w \<in> set (od_vals d) \<Longrightarrow>
     od_get d (ws_worker_id w) = Some w \<and> length (ws_session_ids w) \<le> ws_session_capacity w"
  by (force simp: workers_ok_def od_ok_def)

lemma workers_ok_mem:
  "workers_ok d \<Longrightarrow> od_get d k = Some w \<Longrightarrow>
     ws_worker_id w = k \<and> w \<in> set (od_vals d) \<and> length (ws_session_ids w) \<le> ws_session_capacity w"
  by (auto simp: workers_ok_def dest!: map_of_SomeD intro: rev_image_eqI)

lemma workers_ok_put:
  assumes "workers_ok d" and "length (ws_session_ids w) \<le> ws_session_capacity w" and "k = ws_worker_id w"
  shows "workers_ok (od_put k w d)"
proof -
  have "set (od_put k w d) \<subseteq> insert (k, w) (set d)" by (induction d) (auto split: if_splits)
  with assms show ?thesis by (fastforce simp: workers_ok_def)
qed

lemma mset_put:
  "od_get d k = Some w \<Longrightarrow>
     mset (concat (map f (od_vals (od_put k w' d)))) + mset (f w) =
     mset (concat (map f (od_vals d))) + mset (f w')"
  by (induction d) (auto split: if_splits)

lemma put_worker_simps [simp]:
  "sc_queue (put_worker w s) = sc_queue s"
  "sc_queue_size (put_worker w s) = sc_queue_size s"
  "sc_room_names (put_worker w s) = sc_room_names s"
  "sc_workers (put_worker w s) = od_put (ws_worker_id w) w (sc_workers s)"
  by (simp_all add: put_worker_def)

lemma seat_simps [simp]:
  "ws_worker_id (seat now sid room w) = ws_worker_id w"
  "ws_session_ids (seat now sid room w) = ws_session_ids w @ [sid]"
  "ws_session_capacity (seat now sid room w) = ws_session_capacity w"
  by (simp_all add: seat_def)

lemma vacate_simps [simp]:
  "ws_worker_id (vacate now sid rooms w) = ws_worker_id w"
  "ws_session_ids (vacate now sid rooms w) = remove1 sid (ws_session_ids w)"
  "ws_session_capacity (vacate now sid rooms w) = ws_session_capacity w"
  "down (vacate now sid rooms w) = down w"
  by (simp_all add: vacate_def Let_def down_def)

lemma admit_session_simps [simp]:
  "sc_queue (admit_session now sid room w s) = sc_queue s"
  "sc_queue_size (admit_session now sid room w s) = sc_queue_size s"
  "sc_workers (admit_session now sid room w s) = od_put (ws_worker_id w) (seat now sid room w) (sc_workers s)"
  by (simp_all add: admit_session_def)

lemma least_loaded_SomeD:
  assumes "least_loaded_worker s = Some w"
  shows "w \<in> set (od_vals (sc_workers s))" and "has_room w"
    and "v \<in> set (od_vals (sc_workers s)) \<Longrightarrow> has_room v \<Longrightarrow> load_key w \<le> load_key v"
proof -
  have m: "py_min load_key (filter has_room (od_vals (sc_workers s))) = Some w"
    using assms by (simp add: least_loaded_worker_def)
  from py_min_in [OF m] show "w \<in> set (od_vals (sc_workers s))" "has_room w" by simp_all
  show "v \<in> set (od_vals (sc_workers s)) \<Longrightarrow> has_room v \<Longrightarrow> load_key w \<le> load_key v"
    by (rule py_min_least [OF m]) simp
qed

lemma least_loaded_NoneD:
  "least_loaded_worker s = None \<Longrightarrow> w \<in> set (od_vals (sc_workers s)) \<Longrightarrow> \<not> has_room w"
  by (auto simp: least_loaded_worker_def filter_empty_conv)

lemma find_holder_SomeD: "find_holder sid d = Some w \<Longrightarrow> w \<in> set (od_vals d) \<and> sid \<in> set (ws_session_ids w)"
  by (induction sid d rule: find_holder.induct) (auto split: if_splits)

lemma find_holder_NoneD: "find_holder sid d = None \<Longrightarrow> sid \<notin> set (concat (map ws_session_ids (od_vals d)))"
  by (induction sid d rule: find_holder.induct) (auto split: if_splits)

lemma room_capacity: "has_room w \<Longrightarrow> length (ws_session_ids w) < ws_session_capacity w"
  by (simp add: has_room_def)

subsection \<open>One admission\<close>

lemma sched_inv_put:
  "sched_inv s \<Longrightarrow> length (ws_session_ids w) \<le> ws_session_capacity w \<Longrightarrow> sched_inv (put_worker w s)"
  by (simp add: sched_inv_def workers_ok_put)

lemma sched_inv_admit:
  "sched_inv s \<Longrightarrow> length (ws_session_ids w) < ws_session_capacity w \<Longrightarrow> sched_inv (admit_session now sid room w s)"
  by (simp add: sched_inv_def workers_ok_put)

lemma sched_inv_queue: "sched_inv s \<Longrightarrow> length q \<le> sc_queue_size s \<Longrightarrow> sched_inv (s\<lparr>sc_queue := q\<rparr>)"
  by (simp add: sched_inv_def)

lemma sched_inv_rooms [simp]: "sched_inv (s\<lparr>sc_room_names := r\<rparr>) = sched_inv s"
  by (simp add: sched_inv_def)

lemma mset_holdings_put:
  assumes "od_get (sc_workers s) (ws_worker_id w') = Some w"
  shows "mset (holdings (put_worker w' s)) + mset (ws_session_ids w) = mset (holdings s) + mset (ws_session_ids w')"
  using mset_put [OF assms, of ws_session_ids w'] by (simp add: holdings_def)

lemma mset_holdings_admit:
  assumes "od_get (sc_workers s) (ws_worker_id w) = Some w0" and "ws_session_ids w0 = ws_session_ids w"
  shows "mset (holdings (admit_session now sid room w s)) = add_mset sid (mset (holdings s))"
  using mset_put [OF assms(1), of ws_session_ids "seat now sid room w"] assms(2)
  by (simp add: holdings_def)

lemma holdings_fields [simp]:
  "holdings (s\<lparr>sc_room_names := r\<rparr>) = holdings s"
  "holdings (s\<lparr>sc_queue := q\<rparr>) = holdings s"
  by (simp_all add: holdings_def)

lemma least_loaded_get:
  assumes "sched_inv s" and "least_loaded_worker s = Some w"
  shows "od_get (sc_workers s) (ws_worker_id w) = Some w"
  using workers_ok_get [OF _ least_loaded_SomeD(1) [OF assms(2)]] assms(1) by (simp add: sched_inv_def)

lemma holder_get:
  assumes "sched_inv s" and "worker_for_session sid s = Some w"
  shows "od_get (sc_workers s) (ws_worker_id w) = Some w" and "sid \<in> set (ws_session_ids w)"
    and "length (ws_session_ids w) \<le> ws_session_capacity w"
  using find_holder_SomeD [of sid "sc_workers s" w] workers_ok_get [of "sc_workers s" w] assms
  by (auto simp: sched_inv_def worker_for_session_def)

subsection \<open>Preservation\<close>

lemma sched_inv_new: "new_scheduler now n groups qs ms = Inr s \<Longrightarrow> sched_inv s"
proof -
  have inj: "inj worker_name"
    by (rule injI) (simp add: worker_name_def)
  have ok: "workers_ok (map (\<lambda>i. (worker_name i, F i)) ns)"
    if "\<And>i. ws_worker_id (F i) = worker_name i" "\<And>i. ws_session_ids (F i) = []" "distinct ns" for F ns
    using that inj by (auto simp: workers_ok_def od_ok_def distinct_map comp_def inj_on_def dest: injD)
  assume "new_scheduler now n groups qs ms = Inr s"
  then show ?thesis
    by (auto simp: new_scheduler_def Let_def sched_inv_def intro!: ok split: if_splits)
qed

lemma sched_inv_assign: "sched_inv s \<Longrightarrow> sched_inv (snd (assign now sid room s))"
  using least_loaded_SomeD(2) [THEN room_capacity]
  by (auto simp: assign_def intro!: sched_inv_admit sched_inv_queue split: option.splits)

lemma length_remove1_less: "x \<in> set xs \<Longrightarrow> length xs \<le> n \<Longrightarrow> length (remove1 x xs) < n"
  by (cases xs) (auto simp: length_remove1 dest: length_pos_if_in_set)

lemma sched_inv_release: "sched_inv s \<Longrightarrow> sched_inv (snd (release_session now sid s))"
proof (cases "worker_for_session sid s")
  case None
  assume i: "sched_inv s"
  have "length (filter (\<lambda>q. fst q \<noteq> sid) (sc_queue s)) \<le> sc_queue_size s"
    using i le_trans [OF length_filter_le] by (auto simp: sched_inv_def)
  with None i show ?thesis by (simp add: release_session_def sched_inv_queue)
next
  case (Some w)
  assume i: "sched_inv s"
  note h = holder_get [OF i Some]
  have l: "length (remove1 sid (ws_session_ids w)) < ws_session_capacity w"
    using h(2,3) by (rule length_remove1_less)
  have "sched_inv (put_worker (vacate now sid r w) s)" for r
    using i l by (intro sched_inv_put) simp_all
  moreover have "length rest \<le> sc_queue_size s" if "sc_queue s = q # rest" for q rest
    using i that by (simp add: sched_inv_def)
  ultimately show ?thesis using Some l
    by (auto simp: release_session_def Let_def split: list.splits intro!: sched_inv_admit sched_inv_queue)
qed

lemma sched_inv_drain_loop:
  "sched_inv s \<Longrightarrow> length q \<le> sc_queue_size s \<Longrightarrow> sched_inv (snd (drain_loop now q s))"
proof (induction now q s rule: drain_loop.induct)
  case (1 now s)
  then show ?case by (simp add: sched_inv_queue)
next
  case (2 now q room rest s)
  show ?case
  proof (cases "least_loaded_worker s")
    case None
    with 2 show ?thesis by (simp add: sched_inv_queue)
  next
    case (Some w)
    have "sched_inv (admit_session now q room w (s\<lparr>sc_queue := rest\<rparr>))"
      using 2(2,3) room_capacity [OF least_loaded_SomeD(2) [OF Some]]
      by (intro sched_inv_admit sched_inv_queue) auto
    with 2(1) [OF Some] 2(3) Some show ?thesis by (simp add: split_def Let_def)
  qed
qed

lemma sched_inv_reassign: "sched_inv s \<Longrightarrow> sched_inv (snd (reassign_session now sid t s))"
proof -
  assume i: "sched_inv s"
  have "length (remove1 sid (ws_session_ids w)) \<le> ws_session_capacity w"
    if "worker_for_session sid s = Some w" for w
    using length_remove1_less [OF holder_get(2,3) [OF i that]] by simp
  with i show ?thesis
    by (auto simp: reassign_session_def intro!: sched_inv_put split: option.splits)
qed

lemma sched_inv_touch:
  assumes "sched_inv s" and "\<And>w. od_get (sc_workers s) wid = Some w \<Longrightarrow>
    ws_worker_id (f w) = ws_worker_id w \<and> length (ws_session_ids (f w)) \<le> ws_session_capacity (f w)"
  shows "sched_inv (snd (touch_worker now wid f s))"
proof (cases "od_get (sc_workers s) wid")
  case (Some w)
  with assms workers_ok_mem [of "sc_workers s" wid w] show ?thesis
    by (simp add: touch_worker_def Let_def sched_inv_def workers_ok_put)
qed (use assms in \<open>simp add: touch_worker_def\<close>)

lemma sched_inv_updates:
  assumes "sched_inv s"
  shows "sched_inv (snd (update_worker_status now wid st s))"
    and "sched_inv (snd (heartbeat now wid s))"
    and "sched_inv (snd (fail_worker now wid err s))"
    and "sched_inv (snd (update_worker_capacity now wid cap s))"
proof -
  have "ws_worker_id w = wid \<and> length (ws_session_ids w) \<le> ws_session_capacity w"
    if "od_get (sc_workers s) wid = Some w" for w
    using workers_ok_mem [OF _ that] assms by (simp add: sched_inv_def)
  then show "sched_inv (snd (update_worker_status now wid st s))"
    "sched_inv (snd (heartbeat now wid s))" "sched_inv (snd (fail_worker now wid err s))"
    "sched_inv (snd (update_worker_capacity now wid cap s))"
    unfolding update_worker_status_def heartbeat_def fail_worker_def update_worker_capacity_def
    by (auto intro!: sched_inv_touch assms split: option.splits)
qed


section \<open>The machine\<close>

datatype sched_op =
    Assign rat string string
  | Release rat string
  | Drain rat
  | Reassign rat string string
  | Set_Status rat string worker_status
  | Heartbeat rat string
  | Fail rat string string
  | Set_Capacity rat string int

primrec sched_step :: "live_scheduler \<Rightarrow> sched_op \<Rightarrow> live_scheduler" where
  "sched_step s (Assign now sid room) = snd (assign now sid room s)"
| "sched_step s (Release now sid) = snd (release_session now sid s)"
| "sched_step s (Drain now) = snd (drain_queue now s)"
| "sched_step s (Reassign now sid wid) = snd (reassign_session now sid wid s)"
| "sched_step s (Set_Status now wid st) = snd (update_worker_status now wid st s)"
| "sched_step s (Heartbeat now wid) = snd (heartbeat now wid s)"
| "sched_step s (Fail now wid err) = snd (fail_worker now wid err s)"
| "sched_step s (Set_Capacity now wid cap) = snd (update_worker_capacity now wid cap s)"

lemma sched_inv_drain: "sched_inv s \<Longrightarrow> sched_inv (snd (drain_queue now s))"
  unfolding drain_queue_def by (rule sched_inv_drain_loop) (simp_all add: sched_inv_def)

interpretation ls: invariant_machine sched_step sched_inv
proof unfold_locales
  fix s e
  assume "sched_inv s"
  then show "sched_inv (sched_step s e)"
    by (cases e) (simp_all add: sched_inv_assign sched_inv_release sched_inv_drain sched_inv_reassign
        sched_inv_updates)
qed

section \<open>Conservation of sessions\<close>

lemma mset_all: "mset (all_sessions s) = mset (holdings s) + mset (map fst (sc_queue s))"
  by (simp add: all_sessions_def)

lemma assign_mset:
  assumes "sched_inv s"
  shows "mset (all_sessions (snd (assign now sid room s))) =
    (case fst (assign now sid room s) of Rejected _ \<Rightarrow> mset (all_sessions s) | _ \<Rightarrow> add_mset sid (mset (all_sessions s)))"
  using least_loaded_get [OF assms]
  by (auto simp: assign_def mset_all mset_holdings_admit split: option.splits)

lemma vacated_mset:
  assumes "sched_inv s" and "worker_for_session sid s = Some w"
  shows "add_mset sid (mset (holdings (put_worker (vacate now sid rooms w) s))) = mset (holdings s)"
proof -
  let ?A = "mset (holdings (put_worker (vacate now sid rooms w) s))"
  let ?R = "mset (ws_session_ids w) - {#sid#}"
  have "mset (ws_session_ids w) = ?R + {#sid#}"
    using holder_get(2) [OF assms] by simp
  moreover have "mset (holdings (put_worker (vacate now sid rooms w) s)) + mset (ws_session_ids w)
      = mset (holdings s) + mset (remove1 sid (ws_session_ids w))"
    using mset_holdings_put [of s "vacate now sid rooms w" w] holder_get(1) [OF assms] by simp
  ultimately have "?A + (?R + {#sid#}) = mset (holdings s) + ?R" by simp
  then have "add_mset sid ?A + ?R = mset (holdings s) + ?R" by (simp add: ac_simps)
  then show ?thesis by (rule add_right_imp_eq)
qed

lemma release_mset:
  assumes "sched_inv s" and "worker_for_session sid s = Some w"
  shows "add_mset sid (mset (all_sessions (snd (release_session now sid s)))) = mset (all_sessions s)"
proof -
  let ?w = "vacate now sid (od_del sid (sc_room_names s)) w"
  let ?s1 = "(put_worker ?w s)\<lparr>sc_room_names := od_del sid (sc_room_names s)\<rparr>"
  have h: "add_mset sid (mset (holdings ?s1)) = mset (holdings s)"
    using vacated_mset [OF assms] by simp
  have q: "sc_queue ?s1 = sc_queue s" by simp
  show ?thesis
  proof (cases "sc_queue s")
    case Nil
    then have "snd (release_session now sid s) = ?s1"
      using assms(2) by (simp add: release_session_def Let_def)
    then show ?thesis using h q by (simp only: mset_all) simp
  next
    case (Cons qr rest)
    obtain q' room where qr: "qr = (q', room)" by (cases qr)
    let ?s2 = "admit_session now q' room ?w (?s1\<lparr>sc_queue := rest\<rparr>)"
    have g: "mset (holdings ?s2) = add_mset q' (mset (holdings ?s1))"
      by (subst mset_holdings_admit [of _ _ ?w]) simp_all
    have "snd (release_session now sid s) = (if down ?w then ?s1 else ?s2)"
      using assms(2) Cons qr by (simp add: release_session_def Let_def)
    moreover have "mset (all_sessions ?s2) = mset (all_sessions ?s1)"
      using g Cons qr by (simp add: mset_all del: put_worker_simps(4))
    ultimately have "mset (all_sessions (snd (release_session now sid s))) = mset (all_sessions ?s1)" by simp
    then show ?thesis using h q by (simp only: mset_all) simp
  qed
qed

lemma mset_filter_known: "sid \<notin># mset xs \<Longrightarrow> filter (\<lambda>x. x \<noteq> sid) xs = xs"
  by (induction xs) auto

lemma release_unknown:
  assumes "worker_for_session sid s = None"
  shows "all_sessions (snd (release_session now sid s)) = filter (\<lambda>x. x \<noteq> sid) (all_sessions s)"
proof -
  have "sid \<notin> set (holdings s)"
    using find_holder_NoneD assms by (simp add: worker_for_session_def holdings_def)
  then show ?thesis
    using assms by (simp add: release_session_def all_sessions_def mset_filter_known filter_map comp_def)
qed

lemma drain_loop_mset:
  assumes "sched_inv s" and "length q \<le> sc_queue_size s"
  shows "mset (all_sessions (snd (drain_loop now q s))) = mset (holdings s) + mset (map fst q)"
  using assms
proof (induction now q s rule: drain_loop.induct)
  case (1 now s)
  then show ?case by (simp add: mset_all)
next
  case (2 now q room rest s)
  show ?case
  proof (cases "least_loaded_worker s")
    case None
    then show ?thesis by (simp add: mset_all)
  next
    case (Some w)
    have i: "sched_inv (admit_session now q room w (s\<lparr>sc_queue := rest\<rparr>))"
      using 2(2,3) room_capacity [OF least_loaded_SomeD(2) [OF Some]]
      by (intro sched_inv_admit sched_inv_queue) auto
    have "mset (holdings (admit_session now q room w (s\<lparr>sc_queue := rest\<rparr>))) = add_mset q (mset (holdings s))"
      using least_loaded_get [OF 2(2) Some] by (subst mset_holdings_admit) simp_all
    with 2(1) [OF Some i] 2(3) Some show ?thesis by (simp add: split_def Let_def)
  qed
qed

lemma drain_mset:
  assumes "sched_inv s"
  shows "mset (all_sessions (snd (drain_queue now s))) = mset (all_sessions s)"
  using drain_loop_mset [OF assms, of "sc_queue s" now] assms
  by (simp add: drain_queue_def mset_all sched_inv_def)

lemma reassign_mset:
  assumes "sched_inv s"
  shows "mset (all_sessions (snd (reassign_session now sid wid s))) = mset (all_sessions s)"
proof (cases "worker_for_session sid s")
  case None
  then show ?thesis by (simp add: reassign_session_def)
next
  case (Some src)
  show ?thesis
  proof (cases "od_get (sc_workers s) wid")
    case None
    with Some show ?thesis by (simp add: reassign_session_def)
  next
    case (Some target)
    note src = \<open>worker_for_session sid s = Some src\<close>
    let ?s1 = "put_worker (vacate now sid (sc_room_names s) src) s"
    let ?t = "target\<lparr>ws_session_ids := ws_session_ids target @ [sid], ws_session_id := Some sid,
       ws_room_name := od_get (sc_room_names s) sid, ws_status := W_ASSIGNED, ws_error := None,
       ws_last_heartbeat_at := now\<rparr>"
    have id: "ws_worker_id target = wid"
      using workers_ok_mem [OF _ Some] assms by (simp add: sched_inv_def)
    have "mset (holdings (put_worker ?t ?s1)) = mset (holdings s)" if "ws_worker_id src \<noteq> ws_worker_id target"
    proof -
      have "mset (holdings (put_worker ?t ?s1)) + mset (ws_session_ids target) =
          mset (holdings ?s1) + mset (ws_session_ids ?t)"
        by (rule mset_holdings_put) (use Some id that in simp)
      then have "mset (holdings (put_worker ?t ?s1)) = add_mset sid (mset (holdings ?s1))" by simp
      with vacated_mset [OF assms src] show ?thesis by simp
    qed
    with src Some show ?thesis by (auto simp: reassign_session_def mset_all)
  qed
qed

lemma touch_mset:
  assumes "\<And>w. ws_session_ids (f w) = ws_session_ids w"
  shows "mset (all_sessions (snd (touch_worker now wid f s))) = mset (all_sessions s)"
proof (cases "od_get (sc_workers s) wid")
  case (Some w)
  from mset_put [OF this, of ws_session_ids "(f w)\<lparr>ws_last_heartbeat_at := now\<rparr>"] Some assms
  show ?thesis by (simp add: touch_worker_def Let_def mset_all holdings_def)
qed (simp add: touch_worker_def)

lemma updates_mset:
  "mset (all_sessions (snd (update_worker_status now wid st s))) = mset (all_sessions s)"
  "mset (all_sessions (snd (heartbeat now wid s))) = mset (all_sessions s)"
  "mset (all_sessions (snd (fail_worker now wid err s))) = mset (all_sessions s)"
  "mset (all_sessions (snd (update_worker_capacity now wid cap s))) = mset (all_sessions s)"
  unfolding update_worker_status_def heartbeat_def fail_worker_def update_worker_capacity_def
  by (auto simp: touch_mset split: option.splits)

text \<open>A run in which every admission uses an identifier the scheduler does not know yet.\<close>

fun fresh_run :: "live_scheduler \<Rightarrow> sched_op list \<Rightarrow> bool" where
  "fresh_run s [] = True"
| "fresh_run s (e # es) =
     ((case e of Assign _ sid _ \<Rightarrow> sid \<notin> set (all_sessions s) | _ \<Rightarrow> True) \<and> fresh_run (sched_step s e) es)"

lemma distinct_step:
  assumes "sched_inv s" and "distinct (all_sessions s)" and "fresh_run s (e # es)"
  shows "distinct (all_sessions (sched_step s e))"
proof -
  have same: "distinct (all_sessions s')" if "mset (all_sessions s') = mset (all_sessions s)" for s'
    using assms(2) that by (metis mset_eq_imp_distinct_iff)
  have less: "distinct (all_sessions s')" if "add_mset x (mset (all_sessions s')) = mset (all_sessions s)" for s' x
    using assms(2) that by (metis distinct.simps(2) mset.simps(2) mset_eq_imp_distinct_iff)
  show ?thesis
  proof (cases e)
    case (Assign now sid room)
    with assms(3) have "distinct (sid # all_sessions s)" using assms(2) by simp
    then have "distinct (all_sessions s')" if "mset (all_sessions s') = add_mset sid (mset (all_sessions s))" for s'
      using that by (metis mset.simps(2) mset_eq_imp_distinct_iff)
    with Assign same assign_mset [OF assms(1), of now sid room] show ?thesis
      by (simp split: admission.splits)
  next
    case (Release now sid)
    show ?thesis
    proof (cases "worker_for_session sid s")
      case None
      from release_unknown [OF this] Release assms(2) show ?thesis by simp
    next
      case (Some w)
      from less [OF release_mset [OF assms(1) Some]] Release show ?thesis by simp
    qed
  qed (simp_all add: same drain_mset reassign_mset updates_mset assms(1))
qed

lemma distinct_run:
  "sched_inv s \<Longrightarrow> distinct (all_sessions s) \<Longrightarrow> fresh_run s es \<Longrightarrow> distinct (all_sessions (foldl sched_step s es))"
proof (induction es arbitrary: s)
  case (Cons e es)
  have "distinct (all_sessions (sched_step s e))"
    using distinct_step Cons.prems by blast
  moreover have "sched_inv (sched_step s e)" using Cons.prems(1) by (rule ls.inv_step)
  ultimately show ?case using Cons.IH Cons.prems(3) by simp
qed simp


section \<open>The waiting queue as a FIFO\<close>

text \<open>
  Submitting is an admission that finds no worker but a place in the queue; taking is the
  release of a session that a healthy worker holds.
\<close>

definition can_wait :: "live_scheduler \<Rightarrow> string \<times> string \<Rightarrow> bool" where
  "can_wait s q \<longleftrightarrow> least_loaded_worker s = None \<and> length (sc_queue s) < sc_queue_size s"

definition wait_for :: "rat \<Rightarrow> string \<times> string \<Rightarrow> live_scheduler \<Rightarrow> live_scheduler" where
  "wait_for now q s = snd (assign now (fst q) (snd q) s)"

definition can_hand_over :: "string \<Rightarrow> live_scheduler \<Rightarrow> bool" where
  "can_hand_over sid s = (case worker_for_session sid s of None \<Rightarrow> False | Some w \<Rightarrow> \<not> down w)"

definition hand_over :: "rat \<Rightarrow> string \<Rightarrow> live_scheduler \<Rightarrow> (string \<times> string) option \<times> live_scheduler" where
  "hand_over now sid s =
     (case release_session now sid s of
        (Some (Assigned _ q), s') \<Rightarrow> (map_option (Pair q) (od_get (sc_room_names s') q), s')
      | (_, s') \<Rightarrow> (None, s'))"

lemma release_rooms:
  "worker_for_session sid s = Some w \<Longrightarrow> \<not> down w \<Longrightarrow> sc_queue s = (q, room) # rest \<Longrightarrow>
     release_session now sid s = (r, s') \<Longrightarrow>
     r = Some (Assigned (ws_worker_id w) q) \<and> od_get (sc_room_names s') q = Some room \<and> sc_queue s' = rest"
  by (auto simp: release_session_def Let_def admit_session_def)

interpretation lsq: fifo_queue sc_queue can_wait "wait_for now" "can_hand_over sid" "hand_over now sid" sched_inv
  for now sid
proof unfold_locales
  fix s a
  assume "sched_inv s" "can_wait s a"
  then show "sc_queue (wait_for now a s) = sc_queue s @ [a]"
    by (auto simp: can_wait_def wait_for_def assign_def)
next
  fix s a
  assume "sched_inv s" "can_wait s a"
  then show "sched_inv (wait_for now a s)" by (simp add: wait_for_def sched_inv_assign)
next
  fix s x xs
  assume a: "sched_inv s" "can_hand_over sid s" "sc_queue s = x # xs"
  obtain q room where x: "x = (q, room)" by (cases x)
  obtain w where w: "worker_for_session sid s = Some w" "\<not> down w"
    using a(2) by (auto simp: can_hand_over_def split: option.splits)
  obtain r s' where r: "release_session now sid s = (r, s')" by fastforce
  from release_rooms [OF w _ r] a(3) x
  show "fst (hand_over now sid s) = Some x \<and> sc_queue (snd (hand_over now sid s)) = xs"
    by (auto simp: hand_over_def r)
next
  fix s
  assume "sched_inv s" "sc_queue s = []"
  then show "fst (hand_over now sid s) = None"
    by (auto simp: hand_over_def release_session_def Let_def split: option.splits)
next
  fix s
  assume "sched_inv s"
  then have "sched_inv (snd (release_session now sid s))" by (rule sched_inv_release)
  then show "sched_inv (snd (hand_over now sid s))"
    by (auto simp: hand_over_def split: prod.splits option.splits admission.splits)
qed

lemma drain_loop_fifo:
  "drain_loop now q s = (as, s') \<Longrightarrow>
     \<exists>wids. as = map (\<lambda>(w, x). Assigned w (fst x)) (zip wids q) \<and> length wids \<le> length q \<and>
       sc_queue s' = drop (length wids) q \<and> (sc_queue s' = [] \<or> least_loaded_worker s' = None)"
proof (induction now q s arbitrary: as s' rule: drain_loop.induct)
  case (1 now s)
  then show ?case by (intro exI [of _ "[]"]) auto
next
  case (2 now q room rest s)
  show ?case
  proof (cases "least_loaded_worker s")
    case None
    with 2(2) show ?thesis
      by (intro exI [of _ "[]"]) (auto simp: least_loaded_worker_def)
  next
    case (Some w)
    obtain as1 where d: "drain_loop now rest (admit_session now q room w (s\<lparr>sc_queue := rest\<rparr>)) = (as1, s')"
        "as = Assigned (ws_worker_id w) q # as1"
      using 2(2) Some by (auto split: prod.splits)
    from 2(1) [OF Some d(1)] obtain wids where
      "as1 = map (\<lambda>(w, x). Assigned w (fst x)) (zip wids rest)" "length wids \<le> length rest"
      "sc_queue s' = drop (length wids) rest" "sc_queue s' = [] \<or> least_loaded_worker s' = None" by blast
    with d(2) show ?thesis by (intro exI [of _ "ws_worker_id w # wids"]) auto
  qed
qed

section \<open>Properties\<close>

definition demo_scheduler :: "int \<Rightarrow> int \<Rightarrow> int \<Rightarrow> live_scheduler" where
  "demo_scheduler n q m = (case new_scheduler 0 n None q m of Inr s \<Rightarrow> s)"

text \<open>C17: After any sequence of operations on a fresh scheduler in which every admission uses
  an identifier that the scheduler does not know, no worker holds more sessions than its
  capacity, the queue is within its bound, and no session appears twice: it is on one worker,
  or waiting once, or unknown.\<close>

theorem scheduler_capacity_and_uniqueness:
  assumes "new_scheduler now n groups qs ms = Inr s0" and "fresh_run s0 es"
  shows "sched_inv (foldl sched_step s0 es) \<and> distinct (all_sessions (foldl sched_step s0 es))"
proof -
  have i: "sched_inv s0" using assms(1) by (rule sched_inv_new)
  have "all_sessions s0 = []"
    using assms(1) by (auto simp: new_scheduler_def Let_def all_sessions_def holdings_def split: if_splits)
  with distinct_run [OF i _ assms(2)] ls.inv_run [OF i] show ?thesis by simp
qed

theorem scheduler_capacity_and_uniqueness_witness:
  "let s = foldl sched_step (demo_scheduler 2 3 1)
     [Assign 1 ''a'' ''ra'', Assign 2 ''b'' ''rb'', Assign 3 ''c'' ''rc'', Fail 4 ''worker-1'' ''oom'', Release 5 ''a'']
   in sched_inv s \<and> all_sessions s = [''c'', ''b'']"
proof -
  have n: "new_scheduler 0 2 None 3 1 = Inr (demo_scheduler 2 3 1)" by code_simp
  let ?es = "[Assign 1 ''a'' ''ra'', Assign 2 ''b'' ''rb'', Assign 3 ''c'' ''rc'', Fail 4 ''worker-1'' ''oom'', Release 5 ''a'']"
  have f: "fresh_run (demo_scheduler 2 3 1) ?es" by code_simp
  have a: "all_sessions (foldl sched_step (demo_scheduler 2 3 1) ?es) = [''c'', ''b'']" by code_simp
  from scheduler_capacity_and_uniqueness [OF n f] a show ?thesis by (simp only: Let_def)
qed

text \<open>Placement: an assigned session sits on a worker that was in service and had room,
  whose load ratio (then number of sessions, then name) is least among all such workers, and a
  session is queued or refused only when no worker in service has room.\<close>

theorem assign_least_loaded:
  assumes "sched_inv s"
  shows "case fst (assign now sid room s) of
      Assigned wid sid' \<Rightarrow> sid' = sid \<and>
        (\<exists>w. od_get (sc_workers s) wid = Some w \<and> has_room w \<and>
           (\<forall>v \<in> set (od_vals (sc_workers s)). has_room v \<longrightarrow> load_key w \<le> load_key v) \<and>
           map_option ws_session_ids (od_get (sc_workers (snd (assign now sid room s))) wid)
             = Some (ws_session_ids w @ [sid]))
    | Queued p \<Rightarrow> (\<forall>v \<in> set (od_vals (sc_workers s)). \<not> has_room v) \<and>
        p = length (sc_queue (snd (assign now sid room s))) \<and> p \<le> sc_queue_size s
    | Rejected _ \<Rightarrow> (\<forall>v \<in> set (od_vals (sc_workers s)). \<not> has_room v) \<and>
        length (sc_queue s) = sc_queue_size s \<and> snd (assign now sid room s) = s"
proof (cases "least_loaded_worker s")
  case None
  with assms least_loaded_NoneD [OF None] show ?thesis
    by (auto simp: assign_def sched_inv_def)
next
  case (Some w)
  with least_loaded_get [OF assms Some] least_loaded_SomeD [OF Some] show ?thesis
    by (auto simp: assign_def)
qed

theorem assign_least_loaded_witness:
  "let s = foldl sched_step (demo_scheduler 2 3 2) [Assign 1 ''a'' ''ra''] in
   fst (assign 2 ''b'' ''rb'' s) = Assigned ''worker-1'' ''b'' \<and>
   (\<exists>w. od_get (sc_workers s) ''worker-1'' = Some w \<and> has_room w)"
proof -
  let ?s = "foldl sched_step (demo_scheduler 2 3 2) [Assign 1 ''a'' ''ra'']"
  have n: "new_scheduler 0 2 None 3 2 = Inr (demo_scheduler 2 3 2)" by code_simp
  have a: "fst (assign 2 ''b'' ''rb'' ?s) = Assigned ''worker-1'' ''b''" by code_simp
  have i: "sched_inv ?s" by (rule ls.inv_run [OF sched_inv_new [OF n]])
  from assign_least_loaded [OF i, where now = 2 and sid = "''b''" and room = "''rb''"] a
  show ?thesis by (simp only: Let_def admission.case) blast
qed

text \<open>Waiting sessions are served in arrival order. When a session held by a worker in
  service is released, the session that has waited longest takes its place; a session that
  starts to wait now is behind every other. And draining the queue assigns a prefix of it, in
  order, and stops only when the queue is empty or no worker has room.\<close>

theorem waiting_sessions_in_order:
  assumes "sched_inv s"
  shows "(can_wait s a \<and> can_hand_over sid (wait_for now a s) \<and> sc_queue s = x # xs \<longrightarrow>
      fst (hand_over now sid (wait_for now a s)) = Some x \<and>
      sc_queue (snd (hand_over now sid (wait_for now a s))) = xs @ [a]) \<and>
    (\<exists>wids. fst (drain_queue now s) = map (\<lambda>(w, q). Assigned w (fst q)) (zip wids (sc_queue s)) \<and>
      length wids \<le> length (sc_queue s) \<and>
      sc_queue (snd (drain_queue now s)) = drop (length wids) (sc_queue s) \<and>
      (length wids = length (sc_queue s) \<or> least_loaded_worker (snd (drain_queue now s)) = None))"
proof -
  obtain as s' where d: "drain_queue now s = (as, s')" by fastforce
  from drain_loop_fifo [OF d [unfolded drain_queue_def]] obtain wids where
    "as = map (\<lambda>(w, x). Assigned w (fst x)) (zip wids (sc_queue s))" "length wids \<le> length (sc_queue s)"
    "sc_queue s' = drop (length wids) (sc_queue s)" "sc_queue s' = [] \<or> least_loaded_worker s' = None" by blast
  with d lsq.submit_then_take [OF assms] show ?thesis by (intro conjI impI exI [of _ wids]) auto
qed

theorem waiting_sessions_in_order_witness:
  "let s = foldl sched_step (demo_scheduler 1 3 1) [Assign 1 ''a'' ''ra'', Assign 2 ''b'' ''rb''] in
   fst (hand_over 4 ''a'' (wait_for 4 (''c'', ''rc'') s)) = Some (''b'', ''rb'')"
proof -
  let ?s = "foldl sched_step (demo_scheduler 1 3 1) [Assign 1 ''a'' ''ra'', Assign 2 ''b'' ''rb'']"
  have n: "new_scheduler 0 1 None 3 1 = Inr (demo_scheduler 1 3 1)" by code_simp
  have c: "can_wait ?s (''c'', ''rc'')" "can_hand_over ''a'' (wait_for 4 (''c'', ''rc'') ?s)"
    "sc_queue ?s = [(''b'', ''rb'')]" by code_simp+
  have i: "sched_inv ?s" by (rule ls.inv_run [OF sched_inv_new [OF n]])
  from waiting_sessions_in_order [OF i, of "(''c'', ''rc'')" "''a''" 4 "(''b'', ''rb'')" "[]"] c
  show ?thesis by (simp only: Let_def)
qed

text \<open>Admission is not FIFO between new and waiting sessions: whenever a worker has room
  while sessions wait, a new session is given that room and the waiting ones stay where they
  are. Such states are reachable, because a status update, a capacity update, a migration and
  the release of a session on a failed worker free room without serving the queue.\<close>

theorem new_session_overtakes_queue:
  assumes "least_loaded_worker s = Some w" and "sc_queue s \<noteq> []"
  shows "fst (assign now sid room s) = Assigned (ws_worker_id w) sid \<and>
    sc_queue (snd (assign now sid room s)) = sc_queue s"
  using assms by (simp add: assign_def)

theorem new_session_overtakes_queue_witness:
  "let s = foldl sched_step (demo_scheduler 1 3 1)
     [Assign 1 ''a'' ''ra'', Assign 2 ''b'' ''rb'', Fail 3 ''worker-0'' ''oom'', Release 4 ''a'',
      Set_Status 5 ''worker-0'' W_IDLE]
   in fst (assign 6 ''c'' ''rc'' s) = Assigned ''worker-0'' ''c'' \<and>
      sc_queue (snd (assign 6 ''c'' ''rc'' s)) = [(''b'', ''rb'')]"
proof -
  let ?s = "foldl sched_step (demo_scheduler 1 3 1)
     [Assign 1 ''a'' ''ra'', Assign 2 ''b'' ''rb'', Fail 3 ''worker-0'' ''oom'', Release 4 ''a'',
      Set_Status 5 ''worker-0'' W_IDLE]"
  have q: "sc_queue ?s = [(''b'', ''rb'')]" by code_simp
  have l: "map_option ws_worker_id (least_loaded_worker ?s) = Some ''worker-0''" by code_simp
  then obtain w where w: "least_loaded_worker ?s = Some w" "ws_worker_id w = ''worker-0''" by auto
  have "sc_queue ?s \<noteq> []" unfolding q by simp
  from new_session_overtakes_queue [OF w(1) this, of 6 "''c''" "''rc''"] q w(2) show ?thesis
    by (simp only: Let_def)
qed

end
