(* ===== verification/Turbo_Router.thy ===== *)
theory Turbo_Router
  imports Prelude
begin

text \<open>
  Session ownership and two-phase migration: \<open>TurboServeOwnershipTable\<close> of
  \<open>telefuser/service/livekit/turboserve.py\<close> and \<open>TurboServePipelineRouter\<close> of
  \<open>telefuser/service/livekit/pipeline_router.py\<close>. A migration call leaves the router's lock
  between its phases, so it is split into the steps that other calls can interleave with:
  begin (locked), transfer (unlocked, calls into the two backends), commit or abort (locked),
  one step per buffered chunk that is replayed (unlocked), and the clean-up of the source. A push
  likewise decides under the lock where its chunk goes and calls the backend after leaving it; in
  between the chunk is one of \<open>rt_pushes\<close>.
  Calls into a backend are recorded in a log; whether one raises is an argument of the step.
\<close>

section \<open>The ownership table\<close>

record ownership =
  ow_session_id :: string
  ow_worker_id :: string
  ow_epoch :: nat

record migration_token =
  mt_token_id :: string
  mt_session_id :: string
  mt_source_worker_id :: string
  mt_target_worker_id :: string
  mt_source_epoch :: nat

record ownership_table =
  ot_owners :: "(string, ownership) odict"
  ot_pending :: "(string, migration_token) odict"

definition register_owner :: "string \<Rightarrow> string \<Rightarrow> ownership_table \<Rightarrow> ownership res \<times> ownership_table" where
  "register_owner sid w s =
     (if od_get (ot_owners s) sid \<noteq> None then
        (Inl (ValueError (''TurboServe session '' @ sid @ '' already has an owner'')), s)
      else let o1 = \<lparr>ow_session_id = sid, ow_worker_id = w, ow_epoch = 1\<rparr>
           in (Inr o1, s\<lparr>ot_owners := od_put sid o1 (ot_owners s)\<rparr>))"

definition owner_of :: "string \<Rightarrow> ownership_table \<Rightarrow> ownership res" where
  "owner_of sid s = (case od_get (ot_owners s) sid of None \<Rightarrow> Inl (KeyError sid) | Some o1 \<Rightarrow> Inr o1)"

definition prepare_migration ::
    "string \<Rightarrow> string \<Rightarrow> string \<Rightarrow> string \<Rightarrow> ownership_table \<Rightarrow> migration_token res \<times> ownership_table" where
  "prepare_migration tid sid source target s =
     (case od_get (ot_owners s) sid of
        None \<Rightarrow> (Inl (KeyError sid), s)
      | Some o1 \<Rightarrow>
          if ow_worker_id o1 \<noteq> source then
            (Inl (RuntimeError ''Migration source does not own the session''), s)
          else if od_get (ot_pending s) sid \<noteq> None then
            (Inl (RuntimeError ''Session already has a pending migration''), s)
          else let t = \<lparr>mt_token_id = tid, mt_session_id = sid, mt_source_worker_id = source,
                        mt_target_worker_id = target, mt_source_epoch = ow_epoch o1\<rparr>
               in (Inr t, s\<lparr>ot_pending := od_put sid t (ot_pending s)\<rparr>))"

definition commit_migration :: "migration_token \<Rightarrow> ownership_table \<Rightarrow> ownership res \<times> ownership_table" where
  "commit_migration t s =
     (let sid = mt_session_id t in
      if od_get (ot_pending s) sid \<noteq> Some t then
        (Inl (RuntimeError ''Migration token is stale or already completed''), s)
      else case od_get (ot_owners s) sid of
        None \<Rightarrow> (Inl (KeyError sid), s)
      | Some o1 \<Rightarrow>
          if ow_worker_id o1 \<noteq> mt_source_worker_id t \<or> ow_epoch o1 \<noteq> mt_source_epoch t then
            (Inl (RuntimeError ''Session ownership changed while migration was prepared''), s)
          else let o2 = \<lparr>ow_session_id = sid, ow_worker_id = mt_target_worker_id t,
                         ow_epoch = ow_epoch o1 + 1\<rparr>
               in (Inr o2, s\<lparr>ot_owners := od_put sid o2 (ot_owners s),
                            ot_pending := od_del sid (ot_pending s)\<rparr>))"

definition abort_migration :: "migration_token \<Rightarrow> ownership_table \<Rightarrow> ownership_table" where
  "abort_migration t s =
     (if od_get (ot_pending s) (mt_session_id t) = Some t
      then s\<lparr>ot_pending := od_del (mt_session_id t) (ot_pending s)\<rparr> else s)"

definition release_owner :: "string \<Rightarrow> ownership_table \<Rightarrow> ownership_table" where
  "release_owner sid s =
     s\<lparr>ot_pending := od_del sid (ot_pending s), ot_owners := od_del sid (ot_owners s)\<rparr>"

section \<open>The router\<close>

type_synonym chunk = "(string \<times> pyval) list"

datatype backend_event =
    B_Create string string
  | B_Push string string chunk
  | B_Close string string
  | B_Prepare string string
  | B_Import string string nat
  | B_Commit string string
  | B_Abort string string

text \<open>Where a running call of \<open>migrate_session\<close> stands.\<close>

datatype call_stage =
    Transferring
  | Imported
  | Replaying string "chunk list" bool

datatype transfer_result =
    T_Ok | T_No_Service | T_Prepare_Fails | T_Import_Fails | T_Tracking_Fails

record router =
  rt_backends :: "string list"
  rt_routes :: "(string, string) odict"
  rt_ownership :: ownership_table
  rt_pending_chunks :: "(string, chunk list) odict"
  rt_pushes :: "(string \<times> string \<times> chunk) list"
  rt_cleanup_failures :: nat
  rt_log :: "backend_event list"
  rt_calls :: "(migration_token, call_stage) odict"

definition new_router :: "string list \<Rightarrow> router res" where
  "new_router backends =
     (if backends = [] then Inl (ValueError ''TurboServe router requires at least one backend'')
      else Inr \<lparr>rt_backends = backends, rt_routes = [], rt_ownership = \<lparr>ot_owners = [], ot_pending = []\<rparr>,
                rt_pending_chunks = [], rt_pushes = [], rt_cleanup_failures = 0, rt_log = [], rt_calls = []\<rparr>)"

definition logged :: "backend_event list \<Rightarrow> router \<Rightarrow> router" where
  "logged es s = s\<lparr>rt_log := rt_log s @ es\<rparr>"

definition unknown_session :: "string \<Rightarrow> py_error" where
  "unknown_session sid = KeyError (''Unknown routed pipeline session '' @ sid)"

text \<open>\<open>create_session\<close>: the backend has made the session and returned its identifier.\<close>

definition create_session :: "string \<Rightarrow> string \<Rightarrow> router \<Rightarrow> string res \<times> router" where
  "create_session w sid s =
     (if w \<notin> set (rt_backends s) then (Inl (KeyError w), s)
      else let s1 = logged [B_Create w sid] s in
      if od_get (rt_routes s1) sid \<noteq> None then
        (Inl (ValueError (''Pipeline session '' @ sid @ '' is already routed'')), logged [B_Close w sid] s1)
      else case register_owner sid w (rt_ownership s1) of
        (Inl e, _) \<Rightarrow> (Inl e, logged [B_Close w sid] s1)
      | (Inr _, t) \<Rightarrow> (Inr sid, s1\<lparr>rt_ownership := t, rt_routes := od_put sid w (rt_routes s1)\<rparr>))"

text \<open>\<open>push_chunk\<close> under the lock, and its call of the backend.\<close>

definition push_chunk :: "string \<Rightarrow> chunk \<Rightarrow> router \<Rightarrow> unit res \<times> router" where
  "push_chunk sid c s =
     (case od_get (rt_pending_chunks s) sid of
        Some buffered \<Rightarrow> (Inr (), s\<lparr>rt_pending_chunks := od_put sid (buffered @ [c]) (rt_pending_chunks s)\<rparr>)
      | None \<Rightarrow>
          (case od_get (rt_routes s) sid of
             None \<Rightarrow> (Inl (unknown_session sid), s)
           | Some w \<Rightarrow> (Inr (), s\<lparr>rt_pushes := rt_pushes s @ [(w, sid, c)]\<rparr>)))"

definition push_lands :: "string \<times> string \<times> chunk \<Rightarrow> router \<Rightarrow> router" where
  "push_lands x s =
     (if x \<in> set (rt_pushes s) then
        (case x of (w, sid, c) \<Rightarrow> logged [B_Push w sid c] (s\<lparr>rt_pushes := remove1 x (rt_pushes s)\<rparr>))
      else s)"

definition close_session :: "string \<Rightarrow> router \<Rightarrow> router" where
  "close_session sid s =
     (case od_get (rt_routes s) sid of
        None \<Rightarrow> s
      | Some w \<Rightarrow> logged [B_Close w sid]
          (s\<lparr>rt_routes := od_del sid (rt_routes s), rt_ownership := release_owner sid (rt_ownership s)\<rparr>))"

definition migrate_begin :: "string \<Rightarrow> string \<Rightarrow> string \<Rightarrow> router \<Rightarrow> ownership option res \<times> router" where
  "migrate_begin tid sid target s =
     (case od_get (rt_routes s) sid of
        None \<Rightarrow> (Inl (KeyError sid), s)
      | Some source \<Rightarrow>
          if source = target then
            (case owner_of sid (rt_ownership s) of Inl e \<Rightarrow> (Inl e, s) | Inr o1 \<Rightarrow> (Inr (Some o1), s))
          else if target \<notin> set (rt_backends s) then (Inl (KeyError target), s)
          else case prepare_migration tid sid source target (rt_ownership s) of
            (Inl e, _) \<Rightarrow> (Inl e, s)
          | (Inr t, tab) \<Rightarrow>
              (Inr None, s\<lparr>rt_ownership := tab, rt_pending_chunks := od_put sid [] (rt_pending_chunks s),
                           rt_calls := od_put t Transferring (rt_calls s)\<rparr>))"

text \<open>
  The calls into the backends inside the \<open>try\<close> block, up to the first that raises, followed
  by the undo calls of the \<open>except\<close> block. The flag \<open>imported\<close> is set after the publisher
  tracking call, so it is never set when the block raises and the target is never closed.
\<close>

fun transfer_events :: "transfer_result \<Rightarrow> migration_token \<Rightarrow> backend_event list" where
  "transfer_events T_No_Service t = []"
| "transfer_events T_Prepare_Fails t = []"
| "transfer_events T_Import_Fails t =
     [B_Prepare (mt_source_worker_id t) (mt_session_id t), B_Abort (mt_source_worker_id t) (mt_session_id t)]"
| "transfer_events T_Tracking_Fails t =
     [B_Prepare (mt_source_worker_id t) (mt_session_id t),
      B_Import (mt_target_worker_id t) (mt_session_id t) (mt_source_epoch t + 1),
      B_Abort (mt_source_worker_id t) (mt_session_id t)]"
| "transfer_events T_Ok t =
     [B_Prepare (mt_source_worker_id t) (mt_session_id t),
      B_Import (mt_target_worker_id t) (mt_session_id t) (mt_source_epoch t + 1)]"

definition buffered_chunks :: "string \<Rightarrow> router \<Rightarrow> chunk list" where
  "buffered_chunks sid s = (case od_get (rt_pending_chunks s) sid of None \<Rightarrow> [] | Some cs \<Rightarrow> cs)"

definition migrate_transfer :: "migration_token \<Rightarrow> transfer_result \<Rightarrow> router \<Rightarrow> router" where
  "migrate_transfer t r s =
     (if od_get (rt_calls s) t \<noteq> Some Transferring then s
      else let s1 = logged (transfer_events r t) s; sid = mt_session_id t in
        if r = T_Ok then s1\<lparr>rt_calls := od_put t Imported (rt_calls s1)\<rparr>
        else s1\<lparr>rt_pending_chunks := od_del sid (rt_pending_chunks s1),
                rt_ownership := abort_migration t (rt_ownership s1),
                rt_calls := od_put t (Replaying (mt_source_worker_id t) (buffered_chunks sid s1) False)
                              (rt_calls s1)\<rparr>)"

definition migrate_commit :: "migration_token \<Rightarrow> router \<Rightarrow> ownership option res \<times> router" where
  "migrate_commit t s =
     (let sid = mt_session_id t in
      if od_get (rt_calls s) t \<noteq> Some Imported then (Inr None, s)
      else case commit_migration t (rt_ownership s) of
        (Inl e, _) \<Rightarrow> (Inl e, s\<lparr>rt_calls := od_del t (rt_calls s)\<rparr>)
      | (Inr o1, tab) \<Rightarrow>
          let s1 = s\<lparr>rt_ownership := tab, rt_routes := od_put sid (mt_target_worker_id t) (rt_routes s)\<rparr>
          in case od_get (rt_pending_chunks s1) sid of
               None \<Rightarrow> (Inl (KeyError sid), s1\<lparr>rt_calls := od_del t (rt_calls s1)\<rparr>)
             | Some cs \<Rightarrow>
                 (Inr (Some o1),
                  s1\<lparr>rt_pending_chunks := od_del sid (rt_pending_chunks s1),
                     rt_calls := od_put t (Replaying (mt_target_worker_id t) cs True) (rt_calls s1)\<rparr>))"

definition migrate_replay :: "migration_token \<Rightarrow> router \<Rightarrow> router" where
  "migrate_replay t s =
     (case od_get (rt_calls s) t of
        Some (Replaying w (c # cs) b) \<Rightarrow>
          logged [B_Push w (mt_session_id t) c] (s\<lparr>rt_calls := od_put t (Replaying w cs b) (rt_calls s)\<rparr>)
      | _ \<Rightarrow> s)"

text \<open>The end of the call: after a commit the source is told to drop its copy.\<close>

definition migrate_finish :: "migration_token \<Rightarrow> bool \<Rightarrow> router \<Rightarrow> router" where
  "migrate_finish t cleanup_ok s =
     (case od_get (rt_calls s) t of
        Some (Replaying _ [] committed) \<Rightarrow>
          let s1 = s\<lparr>rt_calls := od_del t (rt_calls s)\<rparr> in
          if \<not> committed then s1
          else if cleanup_ok then logged [B_Commit (mt_source_worker_id t) (mt_session_id t)] s1
          else s1\<lparr>rt_cleanup_failures := rt_cleanup_failures s1 + 1\<rparr>
      | _ \<Rightarrow> s)"

definition retained_by_worker :: "router \<Rightarrow> (string \<times> nat) list" where
  "retained_by_worker s =
     map (\<lambda>w. (w, length (filter (\<lambda>v. v = w) (od_vals (rt_routes s))))) (rt_backends s)"

datatype router_op =
    Create string string
  | Push string chunk
  | Lands "string \<times> string \<times> chunk"
  | Close string
  | Migrate string string string
  | Transfer migration_token transfer_result
  | Commit migration_token
  | Replay migration_token
  | Finish migration_token bool

primrec router_step :: "router \<Rightarrow> router_op \<Rightarrow> router" where
  "router_step s (Create w sid) = snd (create_session w sid s)"
| "router_step s (Push sid c) = snd (push_chunk sid c s)"
| "router_step s (Lands x) = push_lands x s"
| "router_step s (Close sid) = close_session sid s"
| "router_step s (Migrate tid sid w) = snd (migrate_begin tid sid w s)"
| "router_step s (Transfer t r) = migrate_transfer t r s"
| "router_step s (Commit t) = snd (migrate_commit t s)"
| "router_step s (Replay t) = migrate_replay t s"
| "router_step s (Finish t ok) = migrate_finish t ok s"


section \<open>Routes follow ownership\<close>

text \<open>
  The table and the routes agree, and a pending token describes the owner as it still is.
\<close>

definition own_ok :: "string set \<Rightarrow> (string \<Rightarrow> string option) \<Rightarrow> ownership_table \<Rightarrow> bool" where
  "own_ok B R tab \<longleftrightarrow>
     (\<forall>sid. R sid = map_option ow_worker_id (od_get (ot_owners tab) sid)) \<and>
     (\<forall>sid ow. od_get (ot_owners tab) sid = Some ow \<longrightarrow>
        ow_session_id ow = sid \<and> 1 \<le> ow_epoch ow \<and> ow_worker_id ow \<in> B) \<and>
     (\<forall>sid t. od_get (ot_pending tab) sid = Some t \<longrightarrow>
        mt_session_id t = sid \<and> mt_target_worker_id t \<in> B \<and>
        (\<exists>ow. od_get (ot_owners tab) sid = Some ow \<and>
           ow_worker_id ow = mt_source_worker_id t \<and> ow_epoch ow = mt_source_epoch t))"

definition router_inv :: "router \<Rightarrow> bool" where
  "router_inv s \<longleftrightarrow>
     od_ok (rt_calls s) \<and> own_ok (set (rt_backends s)) (od_get (rt_routes s)) (rt_ownership s)"

lemma own_okD:
  assumes "own_ok B R tab"
  shows "R sid = map_option ow_worker_id (od_get (ot_owners tab) sid)"
    and "od_get (ot_owners tab) sid = Some ow \<Longrightarrow> ow_session_id ow = sid \<and> 1 \<le> ow_epoch ow \<and> ow_worker_id ow \<in> B"
    and "od_get (ot_pending tab) sid = Some t \<Longrightarrow> mt_session_id t = sid \<and> mt_target_worker_id t \<in> B \<and>
        (\<exists>ow. od_get (ot_owners tab) sid = Some ow \<and>
           ow_worker_id ow = mt_source_worker_id t \<and> ow_epoch ow = mt_source_epoch t)"
  using assms unfolding own_ok_def by blast+

lemma own_okI:
  assumes "\<And>sid. R sid = map_option ow_worker_id (od_get (ot_owners tab) sid)"
    and "\<And>sid ow. od_get (ot_owners tab) sid = Some ow \<Longrightarrow>
      ow_session_id ow = sid \<and> 1 \<le> ow_epoch ow \<and> ow_worker_id ow \<in> B"
    and "\<And>sid t. od_get (ot_pending tab) sid = Some t \<Longrightarrow> mt_session_id t = sid \<and> mt_target_worker_id t \<in> B \<and>
        (\<exists>ow. od_get (ot_owners tab) sid = Some ow \<and>
           ow_worker_id ow = mt_source_worker_id t \<and> ow_epoch ow = mt_source_epoch t)"
  shows "own_ok B R tab"
  using assms unfolding own_ok_def by blast

lemma own_ok_register:
  assumes "own_ok B R tab" and "w \<in> B" and "R sid = None"
  shows "\<exists>ow tab'. register_owner sid w tab = (Inr ow, tab') \<and> own_ok B (R(sid \<mapsto> w)) tab'"
proof -
  note d = own_okD [OF assms(1)]
  have n: "od_get (ot_owners tab) sid = None" using d(1) [of sid] assms(3) by simp
  let ?o = "\<lparr>ow_session_id = sid, ow_worker_id = w, ow_epoch = 1\<rparr>"
  have "own_ok B (R(sid \<mapsto> w)) (tab\<lparr>ot_owners := od_put sid ?o (ot_owners tab)\<rparr>)"
  proof (rule own_okI)
    fix s' t
    assume "od_get (ot_pending (tab\<lparr>ot_owners := od_put sid ?o (ot_owners tab)\<rparr>)) s' = Some t"
    with d(3) [of s' t] n show "mt_session_id t = s' \<and> mt_target_worker_id t \<in> B \<and>
        (\<exists>ow. od_get (ot_owners (tab\<lparr>ot_owners := od_put sid ?o (ot_owners tab)\<rparr>)) s' = Some ow \<and>
           ow_worker_id ow = mt_source_worker_id t \<and> ow_epoch ow = mt_source_epoch t)"
      by (cases "s' = sid") simp_all
  qed (use d(1,2) assms(2) in \<open>auto split: if_splits\<close>)
  with n show ?thesis by (simp add: register_owner_def Let_def)
qed

lemma own_ok_release:
  assumes "own_ok B R tab"
  shows "own_ok B (\<lambda>k. if k = sid then None else R k) (release_owner sid tab)"
proof (rule own_okI)
  note d = own_okD [OF assms]
  fix s'
  show "(if s' = sid then None else R s') =
      map_option ow_worker_id (od_get (ot_owners (release_owner sid tab)) s')"
    using d(1) [of s'] by (simp add: release_owner_def)
  show "ow_session_id ow = s' \<and> 1 \<le> ow_epoch ow \<and> ow_worker_id ow \<in> B"
    if "od_get (ot_owners (release_owner sid tab)) s' = Some ow" for ow
    using that d(2) [of s' ow] by (simp add: release_owner_def split: if_splits)
  show "mt_session_id t = s' \<and> mt_target_worker_id t \<in> B \<and>
      (\<exists>ow. od_get (ot_owners (release_owner sid tab)) s' = Some ow \<and>
         ow_worker_id ow = mt_source_worker_id t \<and> ow_epoch ow = mt_source_epoch t)"
    if "od_get (ot_pending (release_owner sid tab)) s' = Some t" for t
    using that d(3) [of s' t] by (simp add: release_owner_def split: if_splits)
qed

lemma own_ok_prepare:
  assumes "own_ok B R tab" and "prepare_migration tid sid source target tab = (Inr t, tab')" and "target \<in> B"
  shows "own_ok B R tab' \<and> mt_session_id t = sid"
proof -
  note d = own_okD [OF assms(1)]
  obtain ow where ow: "od_get (ot_owners tab) sid = Some ow" "ow_worker_id ow = source"
      "t = \<lparr>mt_token_id = tid, mt_session_id = sid, mt_source_worker_id = source,
            mt_target_worker_id = target, mt_source_epoch = ow_epoch ow\<rparr>"
      "tab' = tab\<lparr>ot_pending := od_put sid t (ot_pending tab)\<rparr>"
    using assms(2) by (auto simp: prepare_migration_def Let_def split: option.splits if_splits)
  have "own_ok B R tab'"
  proof (rule own_okI)
    fix s' t'
    assume p: "od_get (ot_pending tab') s' = Some t'"
    show "mt_session_id t' = s' \<and> mt_target_worker_id t' \<in> B \<and>
        (\<exists>ow. od_get (ot_owners tab') s' = Some ow \<and>
           ow_worker_id ow = mt_source_worker_id t' \<and> ow_epoch ow = mt_source_epoch t')"
    proof (cases "s' = sid")
      case True
      with p ow(4) have "t' = t" by simp
      with True ow assms(3) show ?thesis by simp
    next
      case False
      with p ow(4) have "od_get (ot_pending tab) s' = Some t'" by simp
      from d(3) [OF this] ow(4) show ?thesis by simp
    qed
  qed (use ow(4) d(1,2) in simp_all)
  then show ?thesis using ow(3) by simp
qed

lemma own_ok_drop_pending:
  assumes "own_ok B R tab"
  shows "own_ok B R (tab\<lparr>ot_pending := od_del sid (ot_pending tab)\<rparr>)"
proof (rule own_okI)
  note d = own_okD [OF assms]
  fix s' t
  assume "od_get (ot_pending (tab\<lparr>ot_pending := od_del sid (ot_pending tab)\<rparr>)) s' = Some t"
  with d(3) [of s' t] show "mt_session_id t = s' \<and> mt_target_worker_id t \<in> B \<and>
      (\<exists>ow. od_get (ot_owners (tab\<lparr>ot_pending := od_del sid (ot_pending tab)\<rparr>)) s' = Some ow \<and>
         ow_worker_id ow = mt_source_worker_id t \<and> ow_epoch ow = mt_source_epoch t)"
    by (simp split: if_splits)
qed (use own_okD(1,2) [OF assms] in simp_all)

lemma own_ok_abort: "own_ok B R tab \<Longrightarrow> own_ok B R (abort_migration t tab)"
  by (simp add: abort_migration_def own_ok_drop_pending)

text \<open>Committing the pending token always succeeds, and raises the epoch by one.\<close>

definition next_owner :: "migration_token \<Rightarrow> ownership" where
  "next_owner t = \<lparr>ow_session_id = mt_session_id t, ow_worker_id = mt_target_worker_id t,
     ow_epoch = mt_source_epoch t + 1\<rparr>"

lemma commit_when_pending:
  assumes "own_ok B R tab" and "od_get (ot_pending tab) (mt_session_id t) = Some t"
  shows "commit_migration t tab = (Inr (next_owner t),
     tab\<lparr>ot_owners := od_put (mt_session_id t) (next_owner t) (ot_owners tab),
         ot_pending := od_del (mt_session_id t) (ot_pending tab)\<rparr>)"
  using own_okD(3) [OF assms] assms(2) by (auto simp: commit_migration_def Let_def next_owner_def)

lemma commit_when_stale:
  "od_get (ot_pending tab) (mt_session_id t) \<noteq> Some t \<Longrightarrow>
     commit_migration t tab = (Inl (RuntimeError ''Migration token is stale or already completed''), tab)"
  by (simp add: commit_migration_def)

lemma own_ok_commit:
  assumes "own_ok B R tab" and "commit_migration t tab = (Inr ow, tab')"
  shows "own_ok B (R(mt_session_id t \<mapsto> mt_target_worker_id t)) tab' \<and> ow = next_owner t \<and>
    od_get (ot_owners tab') (mt_session_id t) = Some (next_owner t)"
proof -
  have p: "od_get (ot_pending tab) (mt_session_id t) = Some t"
    using assms(2) commit_when_stale [of tab t] by fastforce
  note d = own_okD [OF assms(1)]
  have c: "ow = next_owner t" "tab' = tab\<lparr>ot_owners := od_put (mt_session_id t) (next_owner t) (ot_owners tab),
         ot_pending := od_del (mt_session_id t) (ot_pending tab)\<rparr>"
    using commit_when_pending [OF assms(1) p] assms(2) by simp_all
  have "own_ok B (R(mt_session_id t \<mapsto> mt_target_worker_id t)) tab'"
  proof (rule own_okI)
    fix s' t'
    assume "od_get (ot_pending tab') s' = Some t'"
    with c(2) d(3) [of s' t'] show "mt_session_id t' = s' \<and> mt_target_worker_id t' \<in> B \<and>
        (\<exists>ow. od_get (ot_owners tab') s' = Some ow \<and>
           ow_worker_id ow = mt_source_worker_id t' \<and> ow_epoch ow = mt_source_epoch t')"
      by (simp split: if_splits)
  qed (use c d(1,2) d(3) [OF p] in \<open>auto simp: next_owner_def split: if_splits\<close>)
  with c show ?thesis by simp
qed

lemma logged_simps [simp]:
  "rt_backends (logged es s) = rt_backends s" "rt_routes (logged es s) = rt_routes s"
  "rt_ownership (logged es s) = rt_ownership s" "rt_calls (logged es s) = rt_calls s"
  "rt_pending_chunks (logged es s) = rt_pending_chunks s" "rt_pushes (logged es s) = rt_pushes s" "rt_log (logged es s) = rt_log s @ es"
  by (simp_all add: logged_def)

lemma router_inv_create:
  assumes "router_inv s"
  shows "router_inv (snd (create_session w sid s))"
proof -
  have "own_ok (set (rt_backends s)) (od_get (rt_routes s)) (rt_ownership s)"
    using assms by (simp add: router_inv_def)
  from own_ok_register [OF this, of w sid] assms show ?thesis
    by (auto simp: create_session_def Let_def router_inv_def)
qed

lemma router_inv_close: "router_inv s \<Longrightarrow> router_inv (close_session sid s)"
  using own_ok_release [of _ _ "rt_ownership s" sid]
  by (auto simp: close_session_def router_inv_def split: option.splits)

lemma router_inv_begin: "router_inv s \<Longrightarrow> router_inv (snd (migrate_begin tid sid w s))"
  by (auto simp: migrate_begin_def router_inv_def owner_of_def dest: own_ok_prepare
      split: option.splits sum.splits prod.splits)

lemma router_inv_transfer: "router_inv s \<Longrightarrow> router_inv (migrate_transfer t r s)"
  by (simp add: migrate_transfer_def Let_def router_inv_def own_ok_abort)

lemma router_inv_commit: "router_inv s \<Longrightarrow> router_inv (snd (migrate_commit t s))"
  by (auto simp: migrate_commit_def Let_def router_inv_def dest: own_ok_commit
      split: option.splits sum.splits prod.splits)

lemma router_inv_replay: "router_inv s \<Longrightarrow> router_inv (migrate_replay t s)"
  by (auto simp: migrate_replay_def router_inv_def split: option.splits call_stage.splits list.splits)

lemma router_inv_finish: "router_inv s \<Longrightarrow> router_inv (migrate_finish t ok s)"
  by (auto simp: migrate_finish_def Let_def router_inv_def split: option.splits call_stage.splits list.splits)

lemma router_inv_push: "router_inv s \<Longrightarrow> router_inv (snd (push_chunk sid c s))" "router_inv s \<Longrightarrow> router_inv (push_lands x s)"
  by (auto simp: push_chunk_def push_lands_def router_inv_def split: option.splits prod.split)

interpretation rt: invariant_machine router_step router_inv
proof unfold_locales
  fix s e
  assume "router_inv s"
  then show "router_inv (router_step s e)"
    by (cases e) (simp_all add: router_inv_create router_inv_push router_inv_close router_inv_begin
        router_inv_transfer router_inv_commit router_inv_replay router_inv_finish)
qed

lemma router_inv_new: "new_router bs = Inr s \<Longrightarrow> router_inv s"
  by (auto simp: new_router_def router_inv_def own_ok_def split: if_splits)


section \<open>Where the chunks of a session are\<close>

text \<open>The chunks of a session that a worker has received, those on their way to it in a push, and those
  that a migration call still replays to it.\<close>

definition received_by :: "string \<Rightarrow> string \<Rightarrow> backend_event \<Rightarrow> chunk list" where
  "received_by sid w e = (case e of B_Push w' sid' c \<Rightarrow> if sid' = sid \<and> w' = w then [c] else [] | _ \<Rightarrow> [])"

definition pushed_to :: "string \<Rightarrow> string \<Rightarrow> string \<times> string \<times> chunk \<Rightarrow> chunk list" where
  "pushed_to sid w x = (case x of (w', sid', c) \<Rightarrow> if sid' = sid \<and> w' = w then [c] else [])"

definition replayed_to :: "string \<Rightarrow> string \<Rightarrow> migration_token \<times> call_stage \<Rightarrow> chunk list" where
  "replayed_to sid w x =
     (if mt_session_id (fst x) = sid then (case snd x of Replaying w' cs _ \<Rightarrow> if w' = w then cs else [] | _ \<Rightarrow> []) else [])"

definition sent_to :: "string \<Rightarrow> string \<Rightarrow> router \<Rightarrow> chunk multiset" where
  "sent_to sid w s =
     mset (concat (map (received_by sid w) (rt_log s))) + mset (concat (map (pushed_to sid w) (rt_pushes s))) +
     mset (concat (map (replayed_to sid w) (rt_calls s)))"

text \<open>
  What a step does with chunks of a session: the chunk it accepts, and the chunks that it assigns to
  a worker. A push outside a migration goes to the worker of the route; the buffer of a migration
  goes to the target when the migration commits and back to the source when it fails.
\<close>

fun accepts :: "string \<Rightarrow> router \<Rightarrow> router_op \<Rightarrow> chunk list" where
  "accepts sid s (Push sid' c) = (if sid' = sid \<and> is_ok (fst (push_chunk sid' c s)) then [c] else [])"
| "accepts sid s e = []"

fun assigns :: "string \<Rightarrow> router \<Rightarrow> router_op \<Rightarrow> (string \<times> chunk) list" where
  "assigns sid s (Push sid' c) =
     (if sid' \<noteq> sid \<or> od_get (rt_pending_chunks s) sid \<noteq> None then []
      else case od_get (rt_routes s) sid of None \<Rightarrow> [] | Some w \<Rightarrow> [(w, c)])"
| "assigns sid s (Transfer t r) =
     (if mt_session_id t = sid \<and> od_get (rt_calls s) t = Some Transferring \<and> r \<noteq> T_Ok
      then map (Pair (mt_source_worker_id t)) (buffered_chunks sid s) else [])"
| "assigns sid s (Commit t) =
     (if mt_session_id t = sid \<and> is_ok (fst (migrate_commit t s)) \<and> od_get (rt_calls s) t = Some Imported
      then map (Pair (mt_target_worker_id t)) (buffered_chunks sid s) else [])"
| "assigns sid s e = []"

primrec accepted :: "string \<Rightarrow> router \<Rightarrow> router_op list \<Rightarrow> chunk list" where
  "accepted sid s [] = []"
| "accepted sid s (e # es) = accepts sid s e @ accepted sid (router_step s e) es"

text \<open>With each assignment goes the route that the session has after the step.\<close>

primrec assigned :: "string \<Rightarrow> router \<Rightarrow> router_op list \<Rightarrow> ((string \<times> chunk) \<times> string option) list" where
  "assigned sid s [] = []"
| "assigned sid s (e # es) =
     map (\<lambda>x. (x, od_get (rt_routes (router_step s e)) sid)) (assigns sid s e) @ assigned sid (router_step s e) es"

text \<open>Identifiers are not reused: the pipeline sessions and the migration tokens have fresh ones.\<close>

definition created :: "router \<Rightarrow> string list" where
  "created s = concat (map (\<lambda>e. case e of B_Create w sid \<Rightarrow> [sid] | _ \<Rightarrow> []) (rt_log s))"

fun fresh_op :: "router \<Rightarrow> router_op \<Rightarrow> bool" where
  "fresh_op s (Create w sid) \<longleftrightarrow> sid \<notin> set (created s)"
| "fresh_op s (Migrate tid sid w) \<longleftrightarrow> tid \<notin> mt_token_id ` set (od_keys (rt_calls s))"
| "fresh_op s e \<longleftrightarrow> True"

primrec fresh_ops :: "router \<Rightarrow> router_op list \<Rightarrow> bool" where
  "fresh_ops s [] \<longleftrightarrow> True"
| "fresh_ops s (e # es) \<longleftrightarrow> fresh_op s e \<and> fresh_ops (router_step s e) es"

subsection \<open>Only a running migration of an open session has a buffer\<close>

text \<open>
  What is known of a session \<open>sid\<close>: \<open>K\<close> says whether it has been created, \<open>R\<close> is its route, \<open>P\<close> its pending
  token, \<open>b\<close> says whether it has a buffer.
\<close>

definition known_session :: "bool \<Rightarrow> string option \<Rightarrow> migration_token option \<Rightarrow> bool \<Rightarrow> bool" where
  "known_session K R P b \<longleftrightarrow> (R \<noteq> None \<longrightarrow> K) \<and> (b \<longrightarrow> K \<and> (P \<noteq> None \<or> R = None))"

definition migrations_ok :: "router \<Rightarrow> bool" where
  "migrations_ok s \<longleftrightarrow>
     (\<forall>sid. known_session (sid \<in> set (created s)) (od_get (rt_routes s) sid) (od_get (ot_pending (rt_ownership s)) sid)
        (od_get (rt_pending_chunks s) sid \<noteq> None)) \<and>
     (\<forall>t st. od_get (rt_calls s) t = Some st \<longrightarrow> mt_session_id t \<in> set (created s) \<and>
        (st = Transferring \<or> st = Imported \<longrightarrow>
           od_get (ot_pending (rt_ownership s)) (mt_session_id t) = Some t \<or> od_get (rt_routes s) (mt_session_id t) = None))"

definition moves_ok :: "router \<Rightarrow> bool" where
  "moves_ok s \<longleftrightarrow> router_inv s \<and> migrations_ok s"

lemma buffered_simps [simp]:
  "buffered_chunks sid (logged es s) = buffered_chunks sid s"
  "buffered_chunks sid (s\<lparr>rt_calls := c\<rparr>) = buffered_chunks sid s"
  "buffered_chunks sid (s\<lparr>rt_ownership := a\<rparr>) = buffered_chunks sid s"
  "buffered_chunks sid (s\<lparr>rt_routes := b\<rparr>) = buffered_chunks sid s"
  "buffered_chunks sid (s\<lparr>rt_pushes := q\<rparr>) = buffered_chunks sid s"
  "buffered_chunks sid (s\<lparr>rt_cleanup_failures := n\<rparr>) = buffered_chunks sid s"
  by (simp_all add: buffered_chunks_def)

lemma created_logged: "created (logged es s) = created s @ concat (map (\<lambda>e. case e of B_Create w sid \<Rightarrow> [sid] | _ \<Rightarrow> []) es)"
  by (simp add: created_def)

lemma created_same [simp]:
  "created (s\<lparr>rt_calls := c\<rparr>) = created s" "created (s\<lparr>rt_pending_chunks := p\<rparr>) = created s"
  "created (s\<lparr>rt_ownership := a\<rparr>) = created s" "created (s\<lparr>rt_routes := b\<rparr>) = created s"
  "created (s\<lparr>rt_cleanup_failures := n\<rparr>) = created s" "created (s\<lparr>rt_pushes := q\<rparr>) = created s"
  "created (logged [B_Push w sid ch] s) = created s" "created (logged [B_Close w sid] s) = created s"
  "created (logged [B_Commit w sid] s) = created s" "created (logged (transfer_events r t) s) = created s"
  by (simp_all add: created_def) (cases r; simp)

lemma migrations_okI:
  assumes "\<And>sid. known_session (sid \<in> set (created s)) (od_get (rt_routes s) sid) (od_get (ot_pending (rt_ownership s)) sid)
        (od_get (rt_pending_chunks s) sid \<noteq> None)"
    and "\<And>t st. od_get (rt_calls s) t = Some st \<Longrightarrow> mt_session_id t \<in> set (created s) \<and>
        (st = Transferring \<or> st = Imported \<longrightarrow>
           od_get (ot_pending (rt_ownership s)) (mt_session_id t) = Some t \<or> od_get (rt_routes s) (mt_session_id t) = None)"
  shows "migrations_ok s"
  using assms unfolding migrations_ok_def by blast

lemma migrations_okD:
  assumes "migrations_ok s"
  shows "known_session (sid \<in> set (created s)) (od_get (rt_routes s) sid) (od_get (ot_pending (rt_ownership s)) sid)
        (od_get (rt_pending_chunks s) sid \<noteq> None)"
    and "od_get (rt_calls s) t = Some st \<Longrightarrow> mt_session_id t \<in> set (created s)"
    and "od_get (rt_calls s) t = Some st \<Longrightarrow> st = Transferring \<or> st = Imported \<Longrightarrow>
           od_get (ot_pending (rt_ownership s)) (mt_session_id t) = Some t \<or> od_get (rt_routes s) (mt_session_id t) = None"
proof -
  have a: "\<forall>t st. od_get (rt_calls s) t = Some st \<longrightarrow> mt_session_id t \<in> set (created s) \<and>
        (st = Transferring \<or> st = Imported \<longrightarrow>
           od_get (ot_pending (rt_ownership s)) (mt_session_id t) = Some t \<or> od_get (rt_routes s) (mt_session_id t) = None)"
    using assms unfolding migrations_ok_def by (rule conjunct2)
  show "known_session (sid \<in> set (created s)) (od_get (rt_routes s) sid) (od_get (ot_pending (rt_ownership s)) sid)
        (od_get (rt_pending_chunks s) sid \<noteq> None)"
    using assms unfolding migrations_ok_def by blast
  assume c: "od_get (rt_calls s) t = Some st"
  note b = mp [OF spec [OF spec [OF a, of t], of st] c]
  from b show "mt_session_id t \<in> set (created s)" by (rule conjunct1)
  assume "st = Transferring \<or> st = Imported"
  with b show "od_get (ot_pending (rt_ownership s)) (mt_session_id t) = Some t \<or> od_get (rt_routes s) (mt_session_id t) = None"
    by (rule conjunct2 [THEN mp])
qed

lemma migrations_create:
  assumes ok: "moves_ok s" and f: "fresh_op s (Create w sid)"
  shows "migrations_ok (snd (create_session w sid s))"
proof (cases "w \<in> set (rt_backends s)")
  case True
  note d = migrations_okD [of s]
  have m: "migrations_ok s" and i: "router_inv s" using ok by (simp_all add: moves_ok_def)
  have n: "od_get (rt_routes s) sid = None" "od_get (rt_pending_chunks s) sid = None"
    using d(1) [OF m, of sid] f by (auto simp: known_session_def)
  have o: "own_ok (set (rt_backends s)) (od_get (rt_routes s)) (rt_ownership s)" using i by (simp add: router_inv_def)
  obtain ow tab where r: "register_owner sid w (rt_ownership s) = (Inr ow, tab)"
    using own_ok_register [OF o True n(1)] by blast
  have tab: "ot_pending tab = ot_pending (rt_ownership s)"
    using r by (auto simp: register_owner_def Let_def split: if_splits)
  have e: "snd (create_session w sid s) =
      (logged [B_Create w sid] s)\<lparr>rt_ownership := tab, rt_routes := od_put sid w (rt_routes s)\<rparr>"
    using True n(1) r by (simp add: create_session_def Let_def)
  show ?thesis unfolding e
  proof (rule migrations_okI, goal_cases)
    case (1 x)
    then show ?case using d(1) [OF m, of x] n by (auto simp: known_session_def created_logged tab)
  next
    case (2 t st)
    then have t: "od_get (rt_calls s) t = Some st" by simp
    then have "mt_session_id t \<noteq> sid" using d(2) [OF m t] f by auto
    with d(2,3) [OF m t] show ?case by (auto simp: created_logged tab)
  qed
qed (use ok in \<open>simp add: create_session_def moves_ok_def\<close>)

lemma migrations_close: "migrations_ok s \<Longrightarrow> migrations_ok (close_session sid s)"
proof (cases "od_get (rt_routes s) sid")
  case (Some w)
  assume m: "migrations_ok s"
  note d = migrations_okD [OF m]
  show ?thesis
  proof (rule migrations_okI, goal_cases)
    case (1 x)
    then show ?case using d(1) [of x] Some by (auto simp: close_session_def release_owner_def known_session_def)
  next
    case (2 t st)
    then show ?case using d(2,3) [of t st] Some by (auto simp: close_session_def release_owner_def)
  qed
qed (simp add: close_session_def)

lemma migrations_begin:
  assumes m: "migrations_ok s" and f: "fresh_op s (Migrate tid sid w)"
  shows "migrations_ok (snd (migrate_begin tid sid w s))"
proof (cases "\<exists>t tab. migrate_begin tid sid w s =
    (Inr None, s\<lparr>rt_ownership := tab, rt_pending_chunks := od_put sid [] (rt_pending_chunks s),
                 rt_calls := od_put t Transferring (rt_calls s)\<rparr>) \<and>
    od_get (rt_routes s) sid \<noteq> None \<and> od_get (ot_pending (rt_ownership s)) sid = None \<and> mt_session_id t = sid \<and>
    tab = (rt_ownership s)\<lparr>ot_pending := od_put sid t (ot_pending (rt_ownership s))\<rparr>")
  case True
  then obtain t tab where t: "migrate_begin tid sid w s =
    (Inr None, s\<lparr>rt_ownership := tab, rt_pending_chunks := od_put sid [] (rt_pending_chunks s),
                 rt_calls := od_put t Transferring (rt_calls s)\<rparr>)"
    "od_get (rt_routes s) sid \<noteq> None" "od_get (ot_pending (rt_ownership s)) sid = None" "mt_session_id t = sid"
    "tab = (rt_ownership s)\<lparr>ot_pending := od_put sid t (ot_pending (rt_ownership s))\<rparr>" by blast
  note d = migrations_okD [OF m]
  show ?thesis unfolding t(1) snd_conv
  proof (rule migrations_okI, goal_cases)
    case (1 x)
    then show ?case using d(1) [of x] t by (auto simp: known_session_def)
  next
    case (2 t' st)
    show ?case
    proof (cases "t' = t")
      case True
      then show ?thesis using t d(1) [of sid] by (auto simp: known_session_def)
    next
      case False
      then have c: "od_get (rt_calls s) t' = Some st" using 2 by simp
      show ?thesis using d(2,3) [OF c] t by auto
    qed
  qed
next
  case False
  then have "snd (migrate_begin tid sid w s) = s"
    by (auto simp: migrate_begin_def prepare_migration_def Let_def split: option.splits sum.splits prod.splits)
  with m show ?thesis by simp
qed

lemma abort_other:
  "x \<noteq> mt_session_id t \<Longrightarrow> od_get (ot_pending (abort_migration t tab)) x = od_get (ot_pending tab) x"
  "u \<noteq> t \<Longrightarrow> od_get (ot_pending tab) x = Some u \<Longrightarrow> od_get (ot_pending (abort_migration t tab)) x = Some u"
  by (auto simp: abort_migration_def)

lemma migrations_transfer:
  assumes m: "migrations_ok s"
  shows "migrations_ok (migrate_transfer t r s)"
proof (cases "od_get (rt_calls s) t = Some Transferring")
  case True
  note tr = this
  note d = migrations_okD [OF m]
  let ?sid = "mt_session_id t"
  show ?thesis
  proof (cases "r = T_Ok")
    case ok: True
    show ?thesis
    proof (rule migrations_okI, goal_cases)
      case (1 x)
      then show ?case using d(1) [of x] True ok by (simp add: migrate_transfer_def Let_def created_logged)
    next
      case (2 t' st)
      then show ?case using d(2,3) [of t' st] d(2,3) [OF True] True ok
        by (auto simp: migrate_transfer_def Let_def created_logged split: if_splits)
    qed
  next
    case bad: False
    let ?v = "Replaying (mt_source_worker_id t) (buffered_chunks ?sid s) False"
    show ?thesis
    proof (rule migrations_okI, goal_cases)
      case (1 x)
      then show ?case using d(1) [of x] True bad abort_other(1) [of x t "rt_ownership s"]
        by (cases "x = ?sid") (auto simp: migrate_transfer_def Let_def known_session_def)
    next
      case (2 t' st)
      show ?case
      proof (cases "t' = t")
        case True
        then have "st = ?v" using 2 tr bad by (simp add: migrate_transfer_def Let_def)
        then show ?thesis using True d(2) [OF tr] tr bad by (simp add: migrate_transfer_def Let_def)
      next
        case False
        then have c: "od_get (rt_calls s) t' = Some st" using 2 tr bad by (simp add: migrate_transfer_def Let_def)
        show ?thesis using d(2,3) [OF c] abort_other(2) [OF False, of "rt_ownership s"] tr bad
          by (auto simp: migrate_transfer_def Let_def)
      qed
    qed
  qed
qed (use m in \<open>simp add: migrate_transfer_def\<close>)

lemma pending_unique:
  assumes "od_get (rt_calls s) t' = Some st" and "st = Transferring \<or> st = Imported" and m: "migrations_ok s"
    and "od_get (ot_pending (rt_ownership s)) sid = Some t" and "od_get (rt_routes s) sid \<noteq> None" and "mt_session_id t' = sid"
  shows "t' = t"
  using migrations_okD(3) [OF m assms(1,2)] assms(4-6) by auto

lemma migrations_commit:
  assumes ok: "moves_ok s"
  shows "migrations_ok (snd (migrate_commit t s))"
proof -
  have m: "migrations_ok s" and i: "router_inv s" using ok by (simp_all add: moves_ok_def)
  note d = migrations_okD [OF m]
  let ?sid = "mt_session_id t"
  have o: "own_ok (set (rt_backends s)) (od_get (rt_routes s)) (rt_ownership s)" using i by (simp add: router_inv_def)
  have dropped: "migrations_ok (s\<lparr>rt_calls := od_del t (rt_calls s)\<rparr>)"
  proof (rule migrations_okI, goal_cases)
    case (1 x)
    then show ?case using d(1) [of x] by simp
  next
    case (2 t' st)
    then show ?case using d(2,3) [of t' st] by (auto split: if_splits)
  qed
  show ?thesis
  proof (cases "od_get (rt_calls s) t = Some Imported \<and> od_get (ot_pending (rt_ownership s)) ?sid = Some t")
    case True
    let ?tab = "(rt_ownership s)\<lparr>ot_owners := od_put ?sid (next_owner t) (ot_owners (rt_ownership s)),
      ot_pending := od_del ?sid (ot_pending (rt_ownership s))\<rparr>"
    have c: "commit_migration t (rt_ownership s) = (Inr (next_owner t), ?tab)"
      by (rule commit_when_pending [OF o]) (use True in simp)
    have r: "od_get (rt_routes s) ?sid \<noteq> None" using own_okD(1) [OF o, of ?sid] own_okD(3) [OF o conjunct2 [OF True]] by auto
    have k: "?sid \<in> set (created s)" by (rule d(2) [OF conjunct1 [OF True]])
    let ?s = "s\<lparr>rt_ownership := ?tab, rt_routes := od_put ?sid (mt_target_worker_id t) (rt_routes s)\<rparr>"
    have others: "mt_session_id t' \<noteq> ?sid" if "od_get (rt_calls s) t' = Some st" "st = Transferring \<or> st = Imported" "t' \<noteq> t" for t' st
      using pending_unique [OF that(1,2) m _ r] True that(3) by auto
    have e: "snd (migrate_commit t s) = (case od_get (rt_pending_chunks s) ?sid of
        None \<Rightarrow> ?s\<lparr>rt_calls := od_del t (rt_calls s)\<rparr>
      | Some cs \<Rightarrow> ?s\<lparr>rt_pending_chunks := od_del ?sid (rt_pending_chunks s),
          rt_calls := od_put t (Replaying (mt_target_worker_id t) cs True) (rt_calls s)\<rparr>)"
      using True c by (simp add: migrate_commit_def Let_def split: option.split)
    show ?thesis
    proof (rule migrations_okI, goal_cases)
      case (1 x)
      then show ?case unfolding e using d(1) [of x] k by (auto simp: known_session_def split: option.split)
    next
      case (2 t' st)
      then show ?case unfolding e using d(2,3) [of t' st] k others [of t' st]
        by (auto split: option.splits if_splits)
    qed
  next
    case False
    then have "snd (migrate_commit t s) = s \<or> snd (migrate_commit t s) = s\<lparr>rt_calls := od_del t (rt_calls s)\<rparr>"
      using commit_when_stale [of "rt_ownership s" t] by (auto simp: migrate_commit_def Let_def)
    with m dropped show ?thesis by auto
  qed
qed

text \<open>The steps that leave routes, tokens and buffers alone and start no call.\<close>

lemma migrations_same:
  assumes m: "migrations_ok s" and "created s' = created s" and "rt_routes s' = rt_routes s" and "rt_ownership s' = rt_ownership s"
    and "rt_pending_chunks s' = rt_pending_chunks s"
    and "\<And>t st. od_get (rt_calls s') t = Some st \<Longrightarrow>
      \<exists>st'. od_get (rt_calls s) t = Some st' \<and> (st = Transferring \<or> st = Imported \<longrightarrow> st' = st)"
  shows "migrations_ok s'"
proof -
  note d = migrations_okD [OF m]
  show ?thesis
  proof (rule migrations_okI, goal_cases)
    case (1 x)
    show ?case using d(1) [of x] assms(2-5) by simp
  next
    case (2 t st)
    obtain st' where st': "od_get (rt_calls s) t = Some st'" "st = Transferring \<or> st = Imported \<longrightarrow> st' = st"
      using assms(6) [OF 2] by blast
    show ?case using d(2,3) [OF st'(1)] st'(2) assms(2-5) by auto
  qed
qed

lemma migrations_rest:
  assumes m: "migrations_ok s"
  shows "migrations_ok (migrate_replay t s)" and "migrations_ok (migrate_finish t ok s)" and "migrations_ok (push_lands x s)"
proof -
  have "migrate_replay t s = s \<or> (\<exists>w c cs b. od_get (rt_calls s) t = Some (Replaying w (c # cs) b) \<and>
      migrate_replay t s = logged [B_Push w (mt_session_id t) c] (s\<lparr>rt_calls := od_put t (Replaying w cs b) (rt_calls s)\<rparr>))"
    by (auto simp: migrate_replay_def split: option.split call_stage.split list.split)
  then show "migrations_ok (migrate_replay t s)"
  proof (elim disjE exE conjE)
    fix w c cs b
    assume "migrate_replay t s = logged [B_Push w (mt_session_id t) c] (s\<lparr>rt_calls := od_put t (Replaying w cs b) (rt_calls s)\<rparr>)"
      and "od_get (rt_calls s) t = Some (Replaying w (c # cs) b)"
    then show ?thesis by (intro migrations_same [OF m]) (simp_all split: if_splits, auto)
  qed (use m in simp)
  have f: "rt_calls (migrate_finish t ok s) = rt_calls s \<or> rt_calls (migrate_finish t ok s) = od_del t (rt_calls s)"
    by (auto simp: migrate_finish_def Let_def split: option.split call_stage.split list.split)
  have g: "created (migrate_finish t ok s) = created s \<and> rt_routes (migrate_finish t ok s) = rt_routes s \<and>
      rt_ownership (migrate_finish t ok s) = rt_ownership s \<and> rt_pending_chunks (migrate_finish t ok s) = rt_pending_chunks s"
    by (simp add: migrate_finish_def Let_def split: option.split call_stage.split list.split)
  show "migrations_ok (migrate_finish t ok s)"
    by (rule migrations_same [OF m]) (use f g in \<open>auto split: if_splits\<close>)
  show "migrations_ok (push_lands x s)"
    by (rule migrations_same [OF m]) (auto simp: push_lands_def split: prod.splits if_splits)
qed

lemma migrations_push:
  assumes m: "migrations_ok s"
  shows "migrations_ok (snd (push_chunk sid c s))"
proof (rule migrations_okI, goal_cases)
  case (1 x)
  then show ?case using migrations_okD(1) [OF m, of x] by (auto simp: push_chunk_def split: option.splits)
next
  case (2 t st)
  then have "od_get (rt_calls s) t = Some st" by (auto simp: push_chunk_def split: option.splits)
  from migrations_okD(2,3) [OF m this] show ?case by (auto simp: push_chunk_def split: option.splits)
qed

lemma moves_ok_step: "moves_ok s \<Longrightarrow> fresh_op s e \<Longrightarrow> moves_ok (router_step s e)"
proof -
  assume ok: "moves_ok s" and f: "fresh_op s e"
  then have m: "migrations_ok s" and "router_inv s" by (simp_all add: moves_ok_def)
  then have "router_inv (router_step s e)" by (intro rt.inv_step)
  moreover have "migrations_ok (router_step s e)"
  proof (cases e)
    case (Create w sid)
    then show ?thesis using migrations_create [OF ok] f by simp
  next
    case (Migrate tid sid w)
    then show ?thesis using migrations_begin [OF m] f by simp
  qed (use m ok in \<open>simp_all add: migrations_push migrations_rest migrations_close migrations_transfer migrations_commit\<close>)
  ultimately show ?thesis by (simp add: moves_ok_def)
qed

lemma moves_ok_new: "new_router bs = Inr s \<Longrightarrow> moves_ok s"
  using router_inv_new [of bs s] by (auto simp: new_router_def moves_ok_def migrations_ok_def known_session_def split: if_splits)

subsection \<open>Every chunk goes where it was assigned\<close>

lemma sent_simps [simp]:
  "sent_to sid w (s\<lparr>rt_pending_chunks := p\<rparr>) = sent_to sid w s"
  "sent_to sid w (s\<lparr>rt_ownership := a\<rparr>) = sent_to sid w s"
  "sent_to sid w (s\<lparr>rt_routes := b\<rparr>) = sent_to sid w s"
  "sent_to sid w (s\<lparr>rt_cleanup_failures := n\<rparr>) = sent_to sid w s"
  by (simp_all add: sent_to_def)

lemma sent_logged:
  "sent_to sid w (logged es s) = sent_to sid w s + mset (concat (map (received_by sid w) es))"
  by (simp add: sent_to_def)

lemma received_other [simp]:
  "received_by sid w (B_Create v x) = []" "received_by sid w (B_Close v x) = []" "received_by sid w (B_Commit v x) = []"
  "received_by sid w (B_Prepare v x) = []" "received_by sid w (B_Import v x n) = []" "received_by sid w (B_Abort v x) = []"
  "received_by sid w (B_Push v x c) = (if x = sid \<and> v = w then [c] else [])"
  by (simp_all add: received_by_def)

lemma transfer_no_push [simp]: "concat (map (received_by sid w) (transfer_events r t)) = []"
  by (cases r) simp_all

lemma replayed_simps [simp]:
  "replayed_to sid w (t, Transferring) = []" "replayed_to sid w (t, Imported) = []"
  "replayed_to sid w (t, Replaying v cs b) = (if mt_session_id t = sid \<and> v = w then cs else [])"
  by (simp_all add: replayed_to_def)

lemma assigned_all [simp]: "map snd (filter (\<lambda>x. fst x = w) (map (Pair v) cs)) = (if v = w then cs else [])"
  by (induction cs) auto

lemma replays_put:
  assumes "od_get d t = Some st" and "replayed_to sid w (t, st) = []"
  shows "mset (concat (map (replayed_to sid w) (od_put t v d))) =
    mset (concat (map (replayed_to sid w) d)) + mset (replayed_to sid w (t, v))"
  using mset_entries_put [OF assms(1), of "replayed_to sid w" v] assms(2) by simp

lemma replays_del:
  assumes "od_ok d" and "od_get d t = Some st" and "replayed_to sid w (t, st) = []"
  shows "mset (concat (map (replayed_to sid w) (od_del t d))) = mset (concat (map (replayed_to sid w) d))"
  using mset_entries_del [OF assms(1,2), of "replayed_to sid w"] assms(3) by simp

lemma mset_concat_remove1:
  "x \<in> set xs \<Longrightarrow> mset (concat (map f (remove1 x xs))) + mset (f x) = mset (concat (map f xs))"
  by (induction xs) auto

definition goes_to :: "string \<Rightarrow> (string \<times> chunk) list \<Rightarrow> chunk list" where
  "goes_to w xs = map snd (filter (\<lambda>x. fst x = w) xs)"

lemma goes_to_simps [simp]:
  "goes_to w [] = []" "goes_to w (xs @ ys) = goes_to w xs @ goes_to w ys"
  "goes_to w (map (Pair v) cs) = (if v = w then cs else [])" "goes_to w [(v, c)] = (if v = w then [c] else [])"
  by (simp_all add: goes_to_def)

lemma sent_create: "sent_to sid w (snd (create_session v x s)) = sent_to sid w s"
  by (auto simp: create_session_def Let_def sent_logged split: sum.split prod.split)

lemma sent_close: "sent_to sid w (close_session x s) = sent_to sid w s"
  by (simp add: close_session_def sent_logged split: option.split)

lemma sent_push: "sent_to sid w (snd (push_chunk x c s)) = sent_to sid w s + mset (goes_to w (assigns sid s (Push x c)))"
  by (auto simp: push_chunk_def sent_to_def pushed_to_def split: option.split)

lemma sent_lands: "sent_to sid w (push_lands x s) = sent_to sid w s"
proof (cases "x \<in> set (rt_pushes s)")
  case True
  obtain v y c where x: "x = (v, y, c)" by (cases x) auto
  have "mset (concat (map (pushed_to sid w) (remove1 x (rt_pushes s)))) + mset (pushed_to sid w x) =
      mset (concat (map (pushed_to sid w) (rt_pushes s)))"
    by (rule mset_concat_remove1 [OF True])
  then show ?thesis using True by (auto simp: x push_lands_def sent_to_def pushed_to_def)
qed (simp add: push_lands_def)

lemma sent_begin:
  assumes "fresh_op s (Migrate tid x v)"
  shows "sent_to sid w (snd (migrate_begin tid x v s)) = sent_to sid w s"
proof -
  have "od_get (rt_calls s) t = None" if "mt_token_id t = tid" for t
    using assms that by (force simp: map_of_eq_None_iff)
  then have "mset (concat (map (replayed_to sid w) (od_put t Transferring (rt_calls s)))) =
      mset (concat (map (replayed_to sid w) (rt_calls s)))" if "mt_token_id t = tid" for t
    using mset_entries_absent [of "rt_calls s" t "replayed_to sid w" Transferring] that by simp
  then show ?thesis
    by (auto simp: migrate_begin_def prepare_migration_def Let_def sent_to_def split: option.split sum.split)
qed

lemma sent_transfer:
  "sent_to sid w (migrate_transfer t r s) = sent_to sid w s + mset (goes_to w (assigns sid s (Transfer t r)))"
proof (cases "od_get (rt_calls s) t = Some Transferring")
  case True
  note p = replays_put [OF True, of sid w]
  show ?thesis
    using True p by (auto simp: migrate_transfer_def Let_def sent_to_def)
qed (simp add: migrate_transfer_def)

lemma sent_commit:
  assumes "router_inv s"
  shows "sent_to sid w (snd (migrate_commit t s)) = sent_to sid w s + mset (goes_to w (assigns sid s (Commit t)))"
proof (cases "od_get (rt_calls s) t = Some Imported")
  case True
  have ok: "od_ok (rt_calls s)" using assms by (simp add: router_inv_def)
  note p = replays_put [OF True, of sid w] and d = replays_del [OF ok True, of sid w]
  show ?thesis
    using True p d by (auto simp: migrate_commit_def Let_def sent_to_def buffered_chunks_def split: option.split sum.split prod.split)
qed (simp add: migrate_commit_def Let_def)

lemma sent_replay: "sent_to sid w (migrate_replay t s) = sent_to sid w s"
proof (cases "\<exists>v c cs b. od_get (rt_calls s) t = Some (Replaying v (c # cs) b)")
  case True
  then obtain v c cs b where st: "od_get (rt_calls s) t = Some (Replaying v (c # cs) b)" by blast
  show ?thesis
    using mset_entries_put [OF st, of "replayed_to sid w" "Replaying v cs b"] st
    by (auto simp: migrate_replay_def sent_to_def)
qed (auto simp: migrate_replay_def split: option.splits call_stage.splits list.splits)

lemma sent_finish:
  assumes "router_inv s"
  shows "sent_to sid w (migrate_finish t ok s) = sent_to sid w s"
proof (cases "\<exists>v b. od_get (rt_calls s) t = Some (Replaying v [] b)")
  case True
  then obtain v b where st: "od_get (rt_calls s) t = Some (Replaying v [] b)" by blast
  have "od_ok (rt_calls s)" using assms by (simp add: router_inv_def)
  from replays_del [OF this st, of sid w] st show ?thesis
    by (auto simp: migrate_finish_def Let_def sent_to_def)
qed (auto simp: migrate_finish_def split: option.splits call_stage.splits list.splits)

lemma sent_step:
  assumes "router_inv s" and "fresh_op s e"
  shows "sent_to sid w (router_step s e) = sent_to sid w s + mset (goes_to w (assigns sid s e))"
proof (cases e)
  case (Migrate tid x v)
  then show ?thesis using sent_begin [of s tid x v sid w] assms(2) by simp
qed (use assms in \<open>simp_all add: sent_create sent_close sent_lands sent_replay sent_finish
    sent_push [simplified] sent_transfer [simplified] sent_commit [simplified]\<close>)

text \<open>The buffer takes what is accepted and not assigned, and gives up what is assigned.\<close>

lemma buffer_step:
  assumes ok: "moves_ok s" and f: "fresh_op s e"
  shows "mset (buffered_chunks sid s) + mset (accepts sid s e) =
    mset (buffered_chunks sid (router_step s e)) + mset (map snd (assigns sid s e))"
proof (cases e)
  case (Create w x)
  then show ?thesis by (auto simp: create_session_def Let_def split: sum.split prod.split)
next
  case (Push x c)
  then show ?thesis by (auto simp: push_chunk_def buffered_chunks_def split: option.split)
next
  case (Migrate tid x w)
  have "od_get (rt_pending_chunks s) x = None" if "od_get (rt_routes s) x \<noteq> None" "od_get (ot_pending (rt_ownership s)) x = None"
    using migrations_okD(1) [of s x] ok that by (auto simp: moves_ok_def known_session_def)
  then show ?thesis using Migrate
    by (auto simp: migrate_begin_def prepare_migration_def Let_def buffered_chunks_def split: option.splits sum.splits)
next
  case (Transfer t r)
  then show ?thesis by (auto simp: migrate_transfer_def Let_def buffered_chunks_def multiset.map_comp comp_def)
next
  case (Commit t)
  then show ?thesis
    by (auto simp: migrate_commit_def Let_def buffered_chunks_def multiset.map_comp comp_def split: option.split sum.split prod.split)
qed (simp_all add: close_session_def push_lands_def migrate_replay_def migrate_finish_def Let_def
    split: option.split call_stage.split list.split prod.split)

text \<open>A chunk is assigned to the worker of the route, unless the session has been closed.\<close>

lemma assigned_to_route:
  assumes ok: "moves_ok s" and x: "(w, c) \<in> set (assigns sid s e)"
  shows "od_get (rt_routes (router_step s e)) sid \<in> {Some w, None}"
proof (cases e)
  case (Push y d)
  then show ?thesis using x by (auto simp: push_chunk_def split: if_splits option.splits)
next
  case (Transfer t r)
  then have t: "mt_session_id t = sid" "od_get (rt_calls s) t = Some Transferring" "w = mt_source_worker_id t"
    using x by (auto split: if_splits)
  have m: "migrations_ok s" and i: "router_inv s" using ok by (simp_all add: moves_ok_def)
  have "rt_routes (migrate_transfer t r s) = rt_routes s" by (simp add: migrate_transfer_def Let_def)
  moreover have "od_get (rt_routes s) sid = Some w" if "od_get (ot_pending (rt_ownership s)) sid = Some t"
  proof -
    have o: "own_ok (set (rt_backends s)) (od_get (rt_routes s)) (rt_ownership s)" using i by (simp add: router_inv_def)
    from own_okD(3) [OF o that] own_okD(1) [OF o, of sid] t(3) show ?thesis by auto
  qed
  ultimately show ?thesis using migrations_okD(3) [OF m t(2)] t(1) Transfer by auto
next
  case (Commit t)
  then show ?thesis using x
    by (auto simp: migrate_commit_def Let_def split: if_splits option.splits sum.splits prod.splits)
qed (use x in auto)

text \<open>The same for a run.\<close>

lemma flow_trans: "a + x = b + y \<Longrightarrow> b + u = c + v \<Longrightarrow> a + (x + u) = c + (y + v)" for a :: "'a multiset"
  by (simp add: add.assoc [symmetric])

lemma buffer_run:
  "moves_ok s \<Longrightarrow> fresh_ops s es \<Longrightarrow>
     mset (buffered_chunks sid s) + mset (accepted sid s es) =
     mset (buffered_chunks sid (foldl router_step s es)) + mset (map snd (map fst (assigned sid s es)))"
proof (induction es arbitrary: s)
  case (Cons e es)
  then have f: "fresh_op s e" "fresh_ops (router_step s e) es" by simp_all
  have m: "map fst (assigned sid s (e # es)) = assigns sid s e @ map fst (assigned sid (router_step s e) es)"
    by (simp add: comp_def)
  show ?case
    unfolding m accepted.simps map_append mset_append foldl.simps
    by (rule flow_trans [OF buffer_step [OF Cons.prems(1) f(1)] Cons.IH [OF moves_ok_step [OF Cons.prems(1) f(1)] f(2)]])
qed simp

lemma sent_run:
  "moves_ok s \<Longrightarrow> fresh_ops s es \<Longrightarrow>
     sent_to sid w (foldl router_step s es) = sent_to sid w s + mset (goes_to w (map fst (assigned sid s es)))"
proof (induction es arbitrary: s)
  case (Cons e es)
  then have f: "router_inv s" "fresh_op s e" "fresh_ops (router_step s e) es" by (simp_all add: moves_ok_def)
  have m: "map fst (assigned sid s (e # es)) = assigns sid s e @ map fst (assigned sid (router_step s e) es)"
    by (simp add: comp_def)
  show ?case
    using sent_step [OF f(1,2), of sid w] Cons.IH [OF moves_ok_step [OF Cons.prems(1) f(2)] f(3)]
    unfolding m by simp
qed (simp add: goes_to_def)

lemma route_run:
  "moves_ok s \<Longrightarrow> fresh_ops s es \<Longrightarrow> ((w, c), r) \<in> set (assigned sid s es) \<Longrightarrow> r = Some w \<or> r = None"
proof (induction es arbitrary: s)
  case (Cons e es)
  then have f: "fresh_op s e" "fresh_ops (router_step s e) es" by simp_all
  show ?case
    using Cons.prems(3) assigned_to_route [OF Cons.prems(1), of w c sid e]
      Cons.IH [OF moves_ok_step [OF Cons.prems(1) f(1)] f(2)] by auto
qed simp

section \<open>Properties\<close>

definition demo_router :: router where
  "demo_router = (case new_router [''A'', ''B''] of Inr s \<Rightarrow> s)"

definition demo_token :: migration_token where
  "demo_token = \<lparr>mt_token_id = ''m1'', mt_session_id = ''s'', mt_source_worker_id = ''A'',
     mt_target_worker_id = ''B'', mt_source_epoch = 1\<rparr>"

lemma demo_router_new: "new_router [''A'', ''B''] = Inr demo_router"
  by (simp add: demo_router_def new_router_def)

definition epoch_of :: "string \<Rightarrow> router \<Rightarrow> nat" where
  "epoch_of sid s = (case od_get (ot_owners (rt_ownership s)) sid of None \<Rightarrow> 0 | Some ow \<Rightarrow> ow_epoch ow)"

text \<open>C21: In every state a router can reach, each session is routed to the worker that the
  ownership table names, that worker is one of the backends, and a migration token commits if
  and only if it is the session's pending one: then the target becomes the owner and the route,
  with the next epoch. No step other than closing the session lowers its epoch.\<close>

theorem routes_follow_ownership:
  assumes "new_router bs = Inr s0"
  shows "let s = foldl router_step s0 es in
    (\<forall>sid. od_get (rt_routes s) sid = map_option ow_worker_id (od_get (ot_owners (rt_ownership s)) sid)) \<and>
    (\<forall>sid w. od_get (rt_routes s) sid = Some w \<longrightarrow> w \<in> set (rt_backends s)) \<and>
    (\<forall>t. is_ok (fst (commit_migration t (rt_ownership s))) \<longleftrightarrow>
       od_get (ot_pending (rt_ownership s)) (mt_session_id t) = Some t) \<and>
    (\<forall>t ow tab. commit_migration t (rt_ownership s) = (Inr ow, tab) \<longrightarrow>
       ow_worker_id ow = mt_target_worker_id t \<and> ow_epoch ow = epoch_of (mt_session_id t) s + 1)"
proof -
  let ?s = "foldl router_step s0 es"
  have o1: "own_ok (set (rt_backends ?s)) (od_get (rt_routes ?s)) (rt_ownership ?s)"
    using rt.inv_run [OF router_inv_new [OF assms], of es] by (simp add: router_inv_def)
  note d = own_okD [OF o1]
  have c: "is_ok (fst (commit_migration t (rt_ownership ?s))) \<longleftrightarrow>
      od_get (ot_pending (rt_ownership ?s)) (mt_session_id t) = Some t" for t
    using commit_when_pending [OF o1, of t] commit_when_stale [of "rt_ownership ?s" t]
    by (cases "od_get (ot_pending (rt_ownership ?s)) (mt_session_id t) = Some t") simp_all
  have w: "w \<in> set (rt_backends ?s)" if "od_get (rt_routes ?s) sid = Some w" for sid w
    using that d(1) [of sid] d(2) [of sid] by auto
  have n: "ow_worker_id ow = mt_target_worker_id t \<and> ow_epoch ow = epoch_of (mt_session_id t) ?s + 1"
    if "commit_migration t (rt_ownership ?s) = (Inr ow, tab)" for t ow tab
  proof -
    have p: "od_get (ot_pending (rt_ownership ?s)) (mt_session_id t) = Some t"
      using c [of t] that by simp
    with own_ok_commit [OF o1 that] d(3) [OF p] show ?thesis
      by (auto simp: next_owner_def epoch_of_def)
  qed
  show ?thesis unfolding Let_def using d(1) w c n by blast
qed

theorem routes_follow_ownership_witness:
  "let s = foldl router_step demo_router [Create ''A'' ''s'', Migrate ''m1'' ''s'' ''B'', Transfer demo_token T_Ok]
   in is_ok (fst (commit_migration demo_token (rt_ownership s)))"
proof -
  let ?s = "foldl router_step demo_router [Create ''A'' ''s'', Migrate ''m1'' ''s'' ''B'', Transfer demo_token T_Ok]"
  have p: "od_get (ot_pending (rt_ownership ?s)) (mt_session_id demo_token) = Some demo_token" by code_simp
  from routes_follow_ownership [OF demo_router_new, of "[Create ''A'' ''s'', Migrate ''m1'' ''s'' ''B'', Transfer demo_token T_Ok]"] p
  show ?thesis unfolding Let_def by blast
qed

text \<open>C22: No control chunk is lost, duplicated or sent to the wrong worker by a migration, provided that
  pipeline session and migration token identifiers are not reused. In any run, however pushes,
  migration phases and closings interleave and whichever migrations fail, every chunk accepted for a
  session is either in the session's buffer or has been assigned to one worker, once; what a worker
  has received, is being pushed and is being replayed is what was assigned to it; and a chunk is
  assigned to the worker to which the session is then routed (unless the session is closed).\<close>

theorem chunks_are_conserved:
  assumes "new_router bs = Inr s0" and "fresh_ops s0 es" and "s = foldl router_step s0 es"
  shows "mset (accepted sid s0 es) = mset (buffered_chunks sid s) + mset (map snd (map fst (assigned sid s0 es))) \<and>
    (\<forall>w. sent_to sid w s = mset (goes_to w (map fst (assigned sid s0 es)))) \<and>
    (\<forall>w c r. ((w, c), r) \<in> set (assigned sid s0 es) \<longrightarrow> r = Some w \<or> r = None)"
proof -
  have n: "buffered_chunks sid s0 = []" "sent_to sid w s0 = {#}" for w
    using assms(1) by (auto simp: new_router_def buffered_chunks_def sent_to_def split: if_splits)
  note ok = moves_ok_new [OF assms(1)]
  have "sent_to sid w s = mset (goes_to w (map fst (assigned sid s0 es)))" for w
    using sent_run [OF ok assms(2), of sid w] n unfolding assms(3) by simp
  moreover have "mset (accepted sid s0 es) = mset (buffered_chunks sid s) + mset (map snd (map fst (assigned sid s0 es)))"
    using buffer_run [OF ok assms(2), of sid] n unfolding assms(3) by simp
  ultimately show ?thesis using route_run [OF ok assms(2)] by blast
qed

text \<open>
  One chunk is pushed before a migration and two during it; the first still lands on the source, the
  others are replayed to the target.
\<close>

definition demo_ops :: "router_op list" where
  "demo_ops =
     [Create ''A'' ''s'', Push ''s'' [(''n'', VInt 1)], Migrate ''m1'' ''s'' ''B'', Push ''s'' [(''n'', VInt 2)],
      Transfer demo_token T_Ok, Push ''s'' [(''n'', VInt 3)], Lands (''A'', ''s'', [(''n'', VInt 1)]), Commit demo_token,
      Replay demo_token]"

lemma chunks_are_conserved_witness:
  "sent_to ''s'' ''B'' (foldl router_step demo_router demo_ops) = {#[(''n'', VInt 2)], [(''n'', VInt 3)]#} \<and>
   sent_to ''s'' ''A'' (foldl router_step demo_router demo_ops) = {#[(''n'', VInt 1)]#}"
proof -
  have c: "fresh_ops demo_router demo_ops"
    "goes_to ''A'' (map fst (assigned ''s'' demo_router demo_ops)) = [[(''n'', VInt 1)]]"
    "goes_to ''B'' (map fst (assigned ''s'' demo_router demo_ops)) = [[(''n'', VInt 2)], [(''n'', VInt 3)]]"
    by code_simp+
  from chunks_are_conserved [OF demo_router_new c(1) refl, of "''s''"] c(2,3) show ?thesis by simp
qed

text \<open>The order of the chunks is not kept. While a committed migration still replays its
  buffer, which it does after it has left the lock, a chunk pushed now goes straight to the new
  owner, ahead of every buffered chunk that was accepted before it.\<close>

theorem late_chunk_overtakes_buffer:
  assumes "od_get (rt_calls s) t = Some (Replaying w (c # cs) True)"
    and "od_get (rt_routes s) (mt_session_id t) = Some w"
    and "od_get (rt_pending_chunks s) (mt_session_id t) = None"
  shows "rt_log (foldl router_step s [Push (mt_session_id t) late, Lands (w, mt_session_id t, late), Replay t]) =
    rt_log s @ [B_Push w (mt_session_id t) late, B_Push w (mt_session_id t) c]"
  using assms by (simp add: push_chunk_def push_lands_def migrate_replay_def)

text \<open>
  A push that was decided before a migration began may reach the source after the session has left it.
\<close>

lemma late_push_reaches_old_owner:
  "rt_log (foldl router_step demo_router [Create ''A'' ''s'', Push ''s'' [], Migrate ''m1'' ''s'' ''B'', Transfer demo_token T_Ok,
     Commit demo_token, Finish demo_token True, Lands (''A'', ''s'', [])]) =
   [B_Create ''A'' ''s'', B_Prepare ''A'' ''s'', B_Import ''B'' ''s'' 2, B_Commit ''A'' ''s'', B_Push ''A'' ''s'' []]"
  by code_simp

text \<open>Two ways in which a migration leaks the copy that it has made on the target. If the
  publisher-tracking call raises, the copy has been imported but the call never closes it and
  the source stays the owner. If the session is closed while the migration runs, the commit
  raises, the copy is not closed either, and the buffer stays behind: later pushes to the closed
  session are accepted and delivered to nobody.\<close>

theorem migration_leaks:
  "(od_get (rt_calls s) t = Some Transferring \<longrightarrow>
      B_Import (mt_target_worker_id t) (mt_session_id t) (mt_source_epoch t + 1)
        \<in> set (rt_log (migrate_transfer t T_Tracking_Fails s)) \<and>
      (\<forall>w. B_Close w (mt_session_id t) \<in> set (rt_log (migrate_transfer t T_Tracking_Fails s)) \<longrightarrow>
         B_Close w (mt_session_id t) \<in> set (rt_log s)) \<and>
      rt_routes (migrate_transfer t T_Tracking_Fails s) = rt_routes s) \<and>
   (od_get (rt_calls s) t = Some Imported \<and> od_get (rt_routes s) (mt_session_id t) = Some w \<and>
    od_get (rt_pending_chunks s) (mt_session_id t) = Some cs \<longrightarrow>
      (let s1 = close_session (mt_session_id t) s; s2 = snd (migrate_commit t s1);
           p = push_chunk (mt_session_id t) c s2 in
       fst (migrate_commit t s1) = Inl (RuntimeError ''Migration token is stale or already completed'') \<and>
       od_get (rt_calls s2) t = None \<and> fst p = Inr () \<and>
       rt_log (snd p) = rt_log s @ [B_Close w (mt_session_id t)]))"
proof -
  have stale: "commit_migration t (release_owner (mt_session_id t) tab) =
      (Inl (RuntimeError ''Migration token is stale or already completed''), release_owner (mt_session_id t) tab)" for tab
    by (rule commit_when_stale) (simp add: release_owner_def)
  show ?thesis
    by (simp add: migrate_transfer_def close_session_def migrate_commit_def push_chunk_def stale Let_def)
qed

theorem migration_leaks_witness:
  "let s = foldl router_step demo_router [Create ''A'' ''s'', Migrate ''m1'' ''s'' ''B'', Transfer demo_token T_Ok];
       s2 = snd (migrate_commit demo_token (close_session ''s'' s)) in
   fst (push_chunk ''s'' [] s2) = Inr () \<and>
   rt_log (snd (push_chunk ''s'' [] s2)) =
     [B_Create ''A'' ''s'', B_Prepare ''A'' ''s'', B_Import ''B'' ''s'' 2, B_Close ''A'' ''s'']"
proof -
  let ?s = "foldl router_step demo_router [Create ''A'' ''s'', Migrate ''m1'' ''s'' ''B'', Transfer demo_token T_Ok]"
  have h: "od_get (rt_calls ?s) demo_token = Some Imported" "od_get (rt_routes ?s) ''s'' = Some ''A''"
    "od_get (rt_pending_chunks ?s) ''s'' = Some []"
    "rt_log ?s = [B_Create ''A'' ''s'', B_Prepare ''A'' ''s'', B_Import ''B'' ''s'' 2]" by code_simp+
  have m: "mt_session_id demo_token = ''s''" by (simp add: demo_token_def)
  show ?thesis
    using migration_leaks [of ?s demo_token "''A''" "[]" "[]"] h unfolding m by (simp only: Let_def) simp
qed

end
