(* ===== verification/Turbo_Cluster.thy ===== *)
theory Turbo_Cluster
  imports Prelude
begin

text \<open>
  The closed-loop cluster scheduler \<open>TurboServeClusterScheduler\<close> of
  \<open>telefuser/service/livekit/turboserve.py\<close>: worker budget with held scale-in, placement at
  that budget, and migration-aware rebalancing under the analytic latency model. Floats are
  exact rationals; the float power of the frame factor is the argument \<open>pw\<close>. The metadata is
  kept without the rounding to three decimals.
\<close>

section \<open>Inputs\<close>

record session_view =
  sv_session_id :: string
  sv_active :: bool
  sv_state_size_mb :: rat
  sv_chunk_compute_units :: rat
  sv_prompt_tokens :: int
  sv_resolution :: string
  sv_frame_count :: int

record runtime_calibration =
  average_migration_total_ms :: rat
  cal_base_chunk_latency_ms :: rat

record scheduling_snapshot =
  sn_time_seconds :: rat
  sn_sessions :: "(string, session_view) odict"
  sn_placement :: "(string, string option) odict"
  sn_current_workers :: int
  sn_worker_order :: "string list"
  sn_capacity_per_worker :: int
  sn_calibration :: runtime_calibration

record scheduler_config =
  enable_autoscaling :: bool
  enable_migration :: bool
  cf_min_workers :: int
  cf_max_workers :: int
  cf_capacity_per_worker :: int
  cf_target_utilization :: rat
  scale_in_hold_seconds :: rat
  migration_eta :: rat
  min_gain_ms :: rat
  rebalance_iteration_limit :: nat

record latency_model =
  migration_alpha_ms :: rat
  migration_bandwidth_mb_per_ms :: rat
  base_chunk_latency_ms :: rat
  load_penalty_ms :: rat
  quadratic_load_penalty_ms :: rat
  prompt_token_penalty_ms :: rat
  frame_reference_count :: rat
  frame_exponent :: rat
  min_frame_factor :: rat
  resolution_factors :: "(string, rat) odict"

definition default_latency_model :: latency_model where
  "default_latency_model =
     \<lparr>migration_alpha_ms = 8, migration_bandwidth_mb_per_ms = 32, base_chunk_latency_ms = 180,
      load_penalty_ms = 55, quadratic_load_penalty_ms = 18, prompt_token_penalty_ms = 15 / 1000,
      frame_reference_count = 64, frame_exponent = 1 / 2, min_frame_factor = 1 / 2,
      resolution_factors = [(''360p'', 45 / 100), (''480p'', 65 / 100), (''720p'', 1),
        (''1080p'', 17 / 10), (''4k'', 32 / 10)]\<rparr>"

section \<open>The latency model\<close>

definition migration_cost_ms :: "latency_model \<Rightarrow> session_view \<Rightarrow> runtime_calibration \<Rightarrow> rat" where
  "migration_cost_ms m v c =
     (if average_migration_total_ms c > 0 then average_migration_total_ms c
      else migration_alpha_ms m
           + sv_state_size_mb v / max (1 / 1000000000) (migration_bandwidth_mb_per_ms m))"

definition session_latency_ms ::
    "(rat \<Rightarrow> rat \<Rightarrow> rat) \<Rightarrow> latency_model \<Rightarrow> session_view \<Rightarrow> int \<Rightarrow> int \<Rightarrow> runtime_calibration \<Rightarrow> rat" where
  "session_latency_ms pw m v colocated capacity c =
     (let base = (if cal_base_chunk_latency_ms c \<noteq> 0 then cal_base_chunk_latency_ms c
                  else base_chunk_latency_ms m);
          load = max 1 colocated;
          normalized = of_int load / of_int (max 1 capacity);
          factor = (case od_get (resolution_factors m) (sv_resolution v) of None \<Rightarrow> 1 | Some f \<Rightarrow> f);
          frames = max (min_frame_factor m)
            (pw (of_int (max 1 (sv_frame_count v)) / frame_reference_count m) (frame_exponent m));
          compute = base * sv_chunk_compute_units v * factor * frames
      in compute + prompt_token_penalty_ms m * of_int (sv_prompt_tokens v)
         + load_penalty_ms m * of_int (load - 1)
         + quadratic_load_penalty_ms m * normalized * normalized)"

section \<open>The worker budget\<close>

record hold_state =
  scale_in_target :: "int option"
  scale_in_deadline_seconds :: "rat option"

definition no_hold :: hold_state where
  "no_hold = \<lparr>scale_in_target = None, scale_in_deadline_seconds = None\<rparr>"

datatype scale_action = SA_DISABLED | SA_SCALE_OUT | SA_SCALE_IN | SA_HOLD_SCALE_IN | SA_HOLD

definition clamp :: "scheduler_config \<Rightarrow> int \<Rightarrow> int \<Rightarrow> int" where
  "clamp cfg v maximum = min (min maximum (cf_max_workers cfg)) (max (cf_min_workers cfg) v)"

definition effective_capacity :: "scheduler_config \<Rightarrow> scheduling_snapshot \<Rightarrow> int" where
  "effective_capacity cfg sn = max 1 (min (sn_capacity_per_worker sn) (cf_capacity_per_worker cfg))"

definition target_budget :: "scheduler_config \<Rightarrow> int \<Rightarrow> int \<Rightarrow> int \<Rightarrow> int" where
  "target_budget cfg active capacity maximum =
     (if active \<le> 0 then clamp cfg (cf_min_workers cfg) maximum
      else let utilization = min 1 (max (1 / 100) (cf_target_utilization cfg));
               hard = \<lceil>(of_int active :: rat) / of_int capacity\<rceil>;
               target = \<lceil>of_int active / (of_int capacity * utilization)\<rceil>
           in clamp cfg (max hard target) maximum)"

definition active_count :: "scheduling_snapshot \<Rightarrow> int" where
  "active_count sn = int (length (filter sv_active (od_vals (sn_sessions sn))))"

fun index_of :: "'a \<Rightarrow> 'a list \<Rightarrow> int" where
  "index_of x [] = 0"
| "index_of x (y # ys) = (if x = y then 0 else 1 + index_of x ys)"

definition owner_in :: "scheduling_snapshot \<Rightarrow> string \<Rightarrow> string option" where
  "owner_in sn sid = (case od_get (sn_placement sn) sid of None \<Rightarrow> None | Some w \<Rightarrow> w)"

text \<open>Without migration the budget must still reach the last worker that owns active work.\<close>

definition pinned_target :: "scheduling_snapshot \<Rightarrow> int \<Rightarrow> int" where
  "pinned_target sn target =
     foldl (\<lambda>t (sid, v).
        case owner_in sn sid of
          Some w \<Rightarrow> if sv_active v \<and> w \<in> set (sn_worker_order sn)
                    then max t (index_of w (sn_worker_order sn) + 1) else t
        | None \<Rightarrow> t) target (sn_sessions sn)"

definition wanted_budget :: "scheduler_config \<Rightarrow> scheduling_snapshot \<Rightarrow> int" where
  "wanted_budget cfg sn =
     (let target = target_budget cfg (active_count sn) (effective_capacity cfg sn)
                     (int (length (sn_worker_order sn)))
      in if enable_migration cfg then target else pinned_target sn target)"

definition autoscale_budget ::
    "scheduler_config \<Rightarrow> scheduling_snapshot \<Rightarrow> hold_state \<Rightarrow> (int \<times> scale_action) \<times> hold_state" where
  "autoscale_budget cfg sn h =
     (let current = clamp cfg (sn_current_workers sn) (int (length (sn_worker_order sn))) in
      if \<not> enable_autoscaling cfg then ((current, SA_DISABLED), no_hold)
      else let target = wanted_budget cfg sn in
        if target > current then ((target, SA_SCALE_OUT), no_hold)
        else if target < current then
          let h1 = (case (scale_in_target h, scale_in_deadline_seconds h) of
                      (t, Some d) \<Rightarrow> if t = Some target then h
                        else \<lparr>scale_in_target = Some target,
                              scale_in_deadline_seconds =
                                Some (sn_time_seconds sn + max 0 (scale_in_hold_seconds cfg))\<rparr>
                    | (t, None) \<Rightarrow> \<lparr>scale_in_target = Some target,
                              scale_in_deadline_seconds =
                                Some (sn_time_seconds sn + max 0 (scale_in_hold_seconds cfg))\<rparr>)
          in (case scale_in_deadline_seconds h1 of
                Some d \<Rightarrow> if sn_time_seconds sn \<ge> d then ((target, SA_SCALE_IN), no_hold)
                          else ((current, SA_HOLD_SCALE_IN), h1)
              | None \<Rightarrow> ((current, SA_HOLD_SCALE_IN), h1))
        else ((current, SA_HOLD), no_hold))"

section \<open>Placement at the budget\<close>

type_synonym loads = "(string, string list) odict"
type_synonym placement = "(string, string option) odict"

text \<open>\<open>xs[:n]\<close>, where a negative bound counts from the end.\<close>

definition slice_to :: "int \<Rightarrow> 'a list \<Rightarrow> 'a list" where
  "slice_to n xs = (if n < 0 then take (nat (int (length xs) + n)) xs else take (nat n) xs)"

definition empty_loads :: "string list \<Rightarrow> loads" where
  "empty_loads ws = foldl (\<lambda>d w. od_put w [] d) [] ws"

definition load_of :: "loads \<Rightarrow> string \<Rightarrow> string list" where
  "load_of l w = (case od_get l w of None \<Rightarrow> [] | Some xs \<Rightarrow> xs)"

definition put_session :: "string \<Rightarrow> string \<Rightarrow> placement \<times> loads \<Rightarrow> placement \<times> loads" where
  "put_session sid w pl =
     (od_put sid (Some w) (fst pl), od_put w (load_of (snd pl) w @ [sid]) (snd pl))"

definition keep_owner ::
    "scheduler_config \<Rightarrow> scheduling_snapshot \<Rightarrow> int \<Rightarrow> (placement \<times> loads) \<times> string list \<Rightarrow> string
     \<Rightarrow> (placement \<times> loads) \<times> string list" where
  "keep_owner cfg sn capacity st sid =
     (let pl = fst st; nowhere = (od_put sid None (fst pl), snd pl) in
      case od_get (sn_sessions sn) sid of
        None \<Rightarrow> st
      | Some v \<Rightarrow>
          if \<not> sv_active v then (nowhere, snd st)
          else case owner_in sn sid of
            Some w \<Rightarrow>
              if od_get (snd pl) w \<noteq> None
                 \<and> (\<not> enable_migration cfg \<or> int (length (load_of (snd pl) w)) < capacity)
              then (put_session sid w pl, snd st) else (nowhere, snd st @ [sid])
          | None \<Rightarrow> (nowhere, snd st @ [sid]))"

definition place_pending :: "int \<Rightarrow> placement \<times> loads \<Rightarrow> string \<Rightarrow> placement \<times> loads" where
  "place_pending capacity pl sid =
     (case py_min (\<lambda>w. (length (load_of (snd pl) w), w))
             (map fst (filter (\<lambda>(w, xs). int (length xs) < capacity) (snd pl))) of
        None \<Rightarrow> pl
      | Some w \<Rightarrow> put_session sid w pl)"

section \<open>Rebalancing\<close>

definition view_of :: "scheduling_snapshot \<Rightarrow> string \<Rightarrow> session_view" where
  "view_of sn sid = the (od_get (sn_sessions sn) sid)"

definition max_or_zero :: "rat list \<Rightarrow> rat" where
  "max_or_zero xs = (case py_max (\<lambda>x. x) xs of None \<Rightarrow> 0 | Some x \<Rightarrow> x)"

definition worker_worst ::
    "(rat \<Rightarrow> rat \<Rightarrow> rat) \<Rightarrow> latency_model \<Rightarrow> scheduling_snapshot \<Rightarrow> int \<Rightarrow> string list \<Rightarrow> rat" where
  "worker_worst pw m sn capacity sids =
     max_or_zero (map (\<lambda>sid. session_latency_ms pw m (view_of sn sid) (int (length sids)) capacity
                              (sn_calibration sn)) sids)"

definition bottleneck ::
    "(rat \<Rightarrow> rat \<Rightarrow> rat) \<Rightarrow> latency_model \<Rightarrow> scheduling_snapshot \<Rightarrow> int \<Rightarrow> loads \<Rightarrow> rat" where
  "bottleneck pw m sn capacity l = max_or_zero (map (worker_worst pw m sn capacity) (od_vals l))"

definition move_session :: "string \<Rightarrow> string \<Rightarrow> string \<Rightarrow> loads \<Rightarrow> loads" where
  "move_session sid source target l =
     (let l1 = od_put source (remove1 sid (load_of l source)) l
      in od_put target (load_of l1 target @ [sid]) l1)"

definition move_candidates :: "int \<Rightarrow> string \<Rightarrow> loads \<Rightarrow> (string \<times> string) list" where
  "move_candidates capacity source l =
     concat (map (\<lambda>sid. map (Pair sid)
        (map fst (filter (\<lambda>(w, xs). w \<noteq> source \<and> int (length xs) < capacity) l))) (load_of l source))"

definition move_score ::
    "(rat \<Rightarrow> rat \<Rightarrow> rat) \<Rightarrow> latency_model \<Rightarrow> scheduler_config \<Rightarrow> scheduling_snapshot \<Rightarrow> int \<Rightarrow> string \<Rightarrow> loads
     \<Rightarrow> string \<times> string \<Rightarrow> rat \<times> rat \<times> string \<times> string" where
  "move_score pw m cfg sn capacity source l mv =
     (bottleneck pw m sn capacity l
        - bottleneck pw m sn capacity (move_session (fst mv) source (snd mv) l)
        - migration_eta cfg * migration_cost_ms m (view_of sn (fst mv)) (sn_calibration sn),
      - sv_state_size_mb (view_of sn (fst mv)), snd mv, fst mv)"

text \<open>At most \<open>n\<close> rounds; the counters are moves and evaluated candidates.\<close>

fun rebalance ::
    "(rat \<Rightarrow> rat \<Rightarrow> rat) \<Rightarrow> latency_model \<Rightarrow> scheduler_config \<Rightarrow> scheduling_snapshot \<Rightarrow> int \<Rightarrow> nat
     \<Rightarrow> placement \<times> loads \<Rightarrow> nat \<times> nat \<Rightarrow> (placement \<times> loads) \<times> (nat \<times> nat)" where
  "rebalance pw m cfg sn capacity 0 pl cnt = (pl, cnt)"
| "rebalance pw m cfg sn capacity (Suc n) pl cnt =
     (case py_max (\<lambda>w. (worker_worst pw m sn capacity (load_of (snd pl) w),
                        length (load_of (snd pl) w), w)) (od_keys (snd pl)) of
        None \<Rightarrow> (pl, cnt)
      | Some source \<Rightarrow>
          if load_of (snd pl) source = [] then (pl, cnt)
          else let cands = move_candidates capacity source (snd pl);
                   score = move_score pw m cfg sn capacity source (snd pl);
                   evals = snd cnt + length cands
               in case py_max score cands of
                    None \<Rightarrow> (pl, (fst cnt, evals))
                  | Some (sid, target) \<Rightarrow>
                      if fst (score (sid, target)) \<le> min_gain_ms cfg then (pl, (fst cnt, evals))
                      else rebalance pw m cfg sn capacity n
                             (od_put sid (Some target) (fst pl), move_session sid source target (snd pl))
                             (fst cnt + 1, evals))"

section \<open>One control decision\<close>

record placement_metadata =
  pm_rebalance_moves :: nat
  pm_candidate_evaluations :: nat
  pm_unplaced_active :: nat
  pm_bottleneck_before_ms :: rat
  pm_bottleneck_after_ms :: rat
  pm_rho_max :: rat

definition first_placement :: "scheduler_config \<Rightarrow> scheduling_snapshot \<Rightarrow> int \<Rightarrow> placement \<times> loads" where
  "first_placement cfg sn budget =
     (let capacity = effective_capacity cfg sn;
          st = foldl (keep_owner cfg sn capacity)
                 (([], empty_loads (slice_to budget (sn_worker_order sn))), [])
                 (sort (od_keys (sn_sessions sn)))
      in foldl (place_pending capacity) (fst st) (snd st))"

definition place_at_budget ::
    "(rat \<Rightarrow> rat \<Rightarrow> rat) \<Rightarrow> latency_model \<Rightarrow> scheduler_config \<Rightarrow> scheduling_snapshot \<Rightarrow> int
     \<Rightarrow> (placement \<times> loads) \<times> placement_metadata" where
  "place_at_budget pw m cfg sn budget =
     (let capacity = effective_capacity cfg sn;
          p1 = first_placement cfg sn budget;
          p2 = (if enable_migration cfg
                then rebalance pw m cfg sn capacity (rebalance_iteration_limit cfg) p1 (0, 0)
                else (p1, (0, 0)))
      in (fst p2,
          \<lparr>pm_rebalance_moves = fst (snd p2), pm_candidate_evaluations = snd (snd p2),
           pm_unplaced_active = length (filter (\<lambda>(sid, v). sv_active v \<and>
              (case od_get (fst (fst p2)) sid of Some (Some w) \<Rightarrow> False | _ \<Rightarrow> True)) (sn_sessions sn)),
           pm_bottleneck_before_ms = bottleneck pw m sn capacity (snd p1),
           pm_bottleneck_after_ms = bottleneck pw m sn capacity (snd (fst p2)),
           pm_rho_max = max_or_zero (map (\<lambda>xs. of_nat (length xs) / of_int capacity)
                                      (od_vals (snd (fst p2))))\<rparr>))"

definition decide ::
    "(rat \<Rightarrow> rat \<Rightarrow> rat) \<Rightarrow> latency_model \<Rightarrow> scheduler_config \<Rightarrow> scheduling_snapshot \<Rightarrow> hold_state
     \<Rightarrow> (int \<times> scale_action \<times> placement \<times> placement_metadata) \<times> hold_state" where
  "decide pw m cfg sn h =
     (let ((budget, action), h') = autoscale_budget cfg sn h;
          (pl, meta) = place_at_budget pw m cfg sn budget
      in ((budget, action, fst pl, meta), h'))"


section \<open>Placement and loads agree\<close>

text \<open>
  The invariant of every phase: the loads are exactly the placement read backwards, over a
  fixed set of workers.
\<close>

definition agree :: "string set \<Rightarrow> placement \<times> loads \<Rightarrow> bool" where
  "agree W pl \<longleftrightarrow>
     od_ok (snd pl) \<and> set (od_keys (snd pl)) = W \<and>
     (\<forall>sid w. od_get (fst pl) sid = Some (Some w) \<longrightarrow> w \<in> W) \<and>
     (\<forall>w \<in> W. distinct (load_of (snd pl) w)) \<and>
     (\<forall>w \<in> W. \<forall>sid. sid \<in> set (load_of (snd pl) w) \<longleftrightarrow> od_get (fst pl) sid = Some (Some w))"

lemma agreeD:
  assumes "agree W pl"
  shows "od_ok (snd pl)" and "set (od_keys (snd pl)) = W"
    and "od_get (fst pl) sid = Some (Some w) \<Longrightarrow> w \<in> W"
    and "w \<in> W \<Longrightarrow> distinct (load_of (snd pl) w)"
    and "w \<in> W \<Longrightarrow> sid \<in> set (load_of (snd pl) w) \<longleftrightarrow> od_get (fst pl) sid = Some (Some w)"
  using assms unfolding agree_def by blast+

lemma load_of_put [simp]: "load_of (od_put w xs l) v = (if v = w then xs else load_of l v)"
  by (simp add: load_of_def)

lemma agree_put:
  assumes a: "agree W pl" and w: "w \<in> W" and n: "\<And>v. od_get (fst pl) sid \<noteq> Some (Some v)"
  shows "agree W (put_session sid w pl)"
proof -
  note d = agreeD [OF a]
  have fresh: "sid \<notin> set (load_of (snd pl) v)" if "v \<in> W" for v using d(5) [OF that] n by simp
  show ?thesis
    unfolding agree_def put_session_def
    using d(1,2) w fresh d(3,4,5) by (auto simp: insert_absorb)
qed

lemma agree_nowhere:
  assumes a: "agree W pl" and n: "\<And>v. od_get (fst pl) sid \<noteq> Some (Some v)"
  shows "agree W (od_put sid None (fst pl), snd pl)"
  using agreeD [OF a] n unfolding agree_def by auto

lemma agree_move:
  assumes a: "agree W pl" and s: "source \<in> W" and t: "target \<in> W" "target \<noteq> source"
    and sid: "sid \<in> set (load_of (snd pl) source)"
  shows "agree W (od_put sid (Some target) (fst pl), move_session sid source target (snd pl))"
proof -
  note d = agreeD [OF a]
  have here: "od_get (fst pl) sid = Some (Some source)" using d(5) [OF s] sid by simp
  have ld: "load_of (move_session sid source target (snd pl)) v =
      (if v = target then load_of (snd pl) target @ [sid]
       else if v = source then remove1 sid (load_of (snd pl) source) else load_of (snd pl) v)" for v
    using t(2) by (simp add: move_session_def Let_def)
  have ks: "set (od_keys (move_session sid source target (snd pl))) = W"
    using d(2) s t by (auto simp: move_session_def Let_def)
  have dist: "distinct (load_of (move_session sid source target (snd pl)) v)" if "v \<in> W" for v
    using d(4) [OF that] d(4) [OF s] d(4) [OF t(1)] d(5) [OF t(1), of sid] here t(2)
    by (simp add: ld)
  have mem: "x \<in> set (load_of (move_session sid source target (snd pl)) v) \<longleftrightarrow>
      od_get (od_put sid (Some target) (fst pl)) x = Some (Some v)" if "v \<in> W" for v x
    using d(5) [OF that, of x] d(5) [OF that, of sid] d(4) [OF s] here t(2) by (auto simp: ld)
  have ok: "od_ok (move_session sid source target (snd pl))"
    using d(1) by (simp add: move_session_def Let_def)
  show ?thesis
    unfolding agree_def using ks dist mem ok d(3) t(1) by (auto split: if_splits)
qed

text \<open>Capacities, and the length of the loads along each phase.\<close>

definition fits :: "int \<Rightarrow> placement \<times> loads \<Rightarrow> bool" where
  "fits capacity pl \<longleftrightarrow> (\<forall>w \<in> set (od_keys (snd pl)). int (length (load_of (snd pl) w)) \<le> capacity)"

lemma fits_put:
  "fits c pl \<Longrightarrow> int (length (load_of (snd pl) w)) < c \<Longrightarrow> fits c (put_session sid w pl)"
  unfolding fits_def put_session_def by (simp add: image_iff [symmetric] ball_simps)

lemma fits_move:
  assumes "fits c pl" and "target \<noteq> source" and "int (length (load_of (snd pl) target)) < c"
    and "source \<in> set (od_keys (snd pl))" and "target \<in> set (od_keys (snd pl))"
  shows "fits c (p, move_session sid source target (snd pl))"
proof -
  have "length (remove1 sid (load_of (snd pl) source)) \<le> length (load_of (snd pl) source)"
    by (simp add: length_remove1)
  with assms show ?thesis by (force simp: fits_def move_session_def Let_def)
qed

lemma keys_empty_loads: "set (od_keys (empty_loads ws)) = set ws \<and> od_ok (empty_loads ws) \<and> (\<forall>w. load_of (empty_loads ws) w = [])"
proof -
  have "set (od_keys (foldl (\<lambda>d w. od_put w [] d) d ws)) = set (od_keys d) \<union> set ws \<and>
      od_ok (foldl (\<lambda>d w. od_put w [] d) d ws) \<and> (\<forall>w. load_of (foldl (\<lambda>d w. od_put w [] d) d ws) w = [])"
    if "od_ok d" "\<forall>w. load_of d w = []" for d
    using that by (induction ws arbitrary: d) auto
  from this [of "[]"] show ?thesis by (simp add: empty_loads_def load_of_def)
qed

lemma load_of_mem: "od_ok l \<Longrightarrow> (w, xs) \<in> set l \<Longrightarrow> load_of l w = xs"
  by (simp add: load_of_def od_ok_def)

subsection \<open>The first pass\<close>

text \<open>
  After the owners have been looked at for the sessions \<open>done\<close>: those are placed or marked,
  an active session without a worker is pending, and a kept session is where it was.
\<close>

definition pass_ok ::
    "scheduler_config \<Rightarrow> scheduling_snapshot \<Rightarrow> int \<Rightarrow> string set \<Rightarrow> string set
     \<Rightarrow> (placement \<times> loads) \<times> string list \<Rightarrow> bool" where
  "pass_ok cfg sn capacity W seen st \<longleftrightarrow>
     agree W (fst st) \<and> dom (od_get (fst (fst st))) = seen \<and>
     (enable_migration cfg \<longrightarrow> fits capacity (fst st)) \<and>
     distinct (snd st) \<and> set (snd st) \<subseteq> seen \<and>
     (\<forall>sid \<in> seen. sid \<in> set (snd st) \<or> (\<exists>w. od_get (fst (fst st)) sid = Some (Some w))
        \<longleftrightarrow> sv_active (view_of sn sid)) \<and>
     (\<forall>sid \<in> set (snd st). od_get (fst (fst st)) sid = Some None) \<and>
     (\<forall>sid \<in> seen. \<forall>w \<in> W. \<not> enable_migration cfg \<and> sv_active (view_of sn sid) \<and> owner_in sn sid = Some w
        \<longrightarrow> od_get (fst (fst st)) sid = Some (Some w))"

lemma pass_okD:
  assumes "pass_ok cfg sn c W seen (pl, q)"
  shows "agree W pl" and "dom (od_get (fst pl)) = seen" and "enable_migration cfg \<Longrightarrow> fits c pl"
    and "distinct q" and "set q \<subseteq> seen"
    and "x \<in> seen \<Longrightarrow> x \<in> set q \<or> (\<exists>w. od_get (fst pl) x = Some (Some w)) \<longleftrightarrow> sv_active (view_of sn x)"
    and "x \<in> set q \<Longrightarrow> od_get (fst pl) x = Some None"
    and "x \<in> seen \<Longrightarrow> w \<in> W \<Longrightarrow> \<not> enable_migration cfg \<Longrightarrow> sv_active (view_of sn x) \<Longrightarrow>
      owner_in sn x = Some w \<Longrightarrow> od_get (fst pl) x = Some (Some w)"
  using assms unfolding pass_ok_def by auto

text \<open>One more session: a new placement entry, and possibly a new pending session.\<close>

lemma pass_extend:
  assumes p: "pass_ok cfg sn c W seen (pl, q)" and n: "sid \<notin> seen"
    and ag: "agree W (od_put sid x (fst pl), l)" and fi: "enable_migration cfg \<Longrightarrow> fits c (od_put sid x (fst pl), l)"
    and q': "q' = q \<and> (sv_active (view_of sn sid) \<longleftrightarrow> x \<noteq> None) \<or>
        q' = q @ [sid] \<and> x = None \<and> sv_active (view_of sn sid)"
    and pin: "\<And>w. w \<in> W \<Longrightarrow> \<not> enable_migration cfg \<Longrightarrow> sv_active (view_of sn sid) \<Longrightarrow>
        owner_in sn sid = Some w \<Longrightarrow> x = Some w"
  shows "pass_ok cfg sn c W (insert sid seen) ((od_put sid x (fst pl), l), q')"
proof -
  note d = pass_okD [OF p]
  have nq: "sid \<notin> set q" using d(5) n by blast
  have dom: "dom (od_get (od_put sid x (fst pl))) = insert sid seen"
    using d(2) by (simp only: od_get_put dom_fun_upd option.simps if_False)
  have iff: "y \<in> set q' \<or> (\<exists>w. od_get (od_put sid x (fst pl)) y = Some (Some w)) \<longleftrightarrow> sv_active (view_of sn y)"
    if "y \<in> insert sid seen" for y
    using that q' nq d(6) [of y] by (cases "y = sid") auto
  have pend: "od_get (od_put sid x (fst pl)) y = Some None" if "y \<in> set q'" for y
    using that q' nq d(7) [of y] by (cases "y = sid") auto
  have stay: "od_get (od_put sid x (fst pl)) y = Some (Some w)"
    if "y \<in> insert sid seen" "w \<in> W" "\<not> enable_migration cfg \<and> sv_active (view_of sn y) \<and> owner_in sn y = Some w" for y w
    using that pin [of w] d(8) [of y w] n by (cases "y = sid") auto
  have qq: "distinct q'" "set q' \<subseteq> insert sid seen" using q' d(4,5) nq by auto
  show ?thesis
    unfolding pass_ok_def fst_conv snd_conv
  proof (intro conjI ballI impI)
    show "agree W (od_put sid x (fst pl), l)" by (rule ag)
    show "fits c (od_put sid x (fst pl), l)" if "enable_migration cfg" using that by (rule fi)
    show "dom (od_get (od_put sid x (fst pl))) = insert sid seen" by (rule dom)
    show "distinct q'" "set q' \<subseteq> insert sid seen" by (rule qq)+
    show "y \<in> set q' \<or> (\<exists>w. od_get (od_put sid x (fst pl)) y = Some (Some w)) \<longleftrightarrow> sv_active (view_of sn y)"
      if "y \<in> insert sid seen" for y using that by (rule iff)
    show "od_get (od_put sid x (fst pl)) y = Some None" if "y \<in> set q'" for y using that by (rule pend)
    show "od_get (od_put sid x (fst pl)) y = Some (Some w)"
      if "y \<in> insert sid seen" "w \<in> W" "\<not> enable_migration cfg \<and> sv_active (view_of sn y) \<and> owner_in sn y = Some w"
      for y w using that by (rule stay)
  qed
qed

lemma pass_step:
  assumes p: "pass_ok cfg sn c W seen st" and n: "sid \<notin> seen" and v: "od_get (sn_sessions sn) sid = Some v"
  shows "pass_ok cfg sn c W (insert sid seen) (keep_owner cfg sn c st sid)"
proof -
  obtain pl q where st: "st = (pl, q)" by (cases st)
  have a: "agree W pl" and dm: "dom (od_get (fst pl)) = seen" and q: "distinct q" "set q \<subseteq> seen"
    using p by (simp_all add: pass_ok_def st)
  have new: "od_get (fst pl) sid \<noteq> Some x" for x using dm n by (auto simp: dom_def)
  have none: "agree W (od_put sid None (fst pl), snd pl)" by (rule agree_nowhere [OF a]) (simp add: new)
  have vv: "view_of sn sid = v" using v by (simp add: view_of_def)
  have nq: "sid \<notin> set q" using q n by blast
  show ?thesis
  proof (cases "sv_active v \<and> (\<exists>w. owner_in sn sid = Some w \<and> od_get (snd pl) w \<noteq> None \<and>
      (\<not> enable_migration cfg \<or> int (length (load_of (snd pl) w)) < c))")
    case True
    then obtain w where w: "owner_in sn sid = Some w" "od_get (snd pl) w \<noteq> None"
        "\<not> enable_migration cfg \<or> int (length (load_of (snd pl) w)) < c" by blast
    have e: "keep_owner cfg sn c st sid = (put_session sid w pl, q)"
      using True w v by (simp add: keep_owner_def st Let_def)
    have wW: "w \<in> W" using agreeD(2) [OF a] w(2) od_keys_dom [of "snd pl"] by (simp add: dom_def)
    have ag: "agree W (put_session sid w pl)" by (rule agree_put [OF a wW]) (simp add: new)
    have fi: "enable_migration cfg \<Longrightarrow> fits c (put_session sid w pl)"
      using p w(3) by (auto simp: pass_ok_def st intro: fits_put)
    show ?thesis unfolding e put_session_def
      by (rule pass_extend [OF p [unfolded st] n ag [unfolded put_session_def] fi [unfolded put_session_def]])
        (use True w(1) vv in auto)
  next
    case False
    then have e: "keep_owner cfg sn c st sid =
        ((od_put sid None (fst pl), snd pl), if sv_active v then q @ [sid] else q)"
      using v by (auto simp: keep_owner_def st Let_def split: option.splits)
    have no: "\<not> (\<not> enable_migration cfg \<and> sv_active v \<and> owner_in sn sid = Some w)" if "w \<in> W" for w
      using False that agreeD(2) [OF a] od_keys_dom [of "snd pl"] by (auto simp: dom_def)
    have fi: "enable_migration cfg \<Longrightarrow> fits c (od_put sid None (fst pl), snd pl)"
      using pass_okD(3) [OF p [unfolded st]] by (simp add: fits_def)
    show ?thesis unfolding e
      by (rule pass_extend [OF p [unfolded st] n none fi]) (use no vv in auto)
  qed
qed

lemma pass_fold:
  assumes "pass_ok cfg sn c W seen st" and "distinct sids" and "set sids \<inter> seen = {}"
    and "set sids \<subseteq> dom (od_get (sn_sessions sn))"
  shows "pass_ok cfg sn c W (seen \<union> set sids) (foldl (keep_owner cfg sn c) st sids)"
  using assms
proof (induction sids arbitrary: seen st)
  case Nil
  then show ?case by simp
next
  case (Cons sid sids)
  obtain v where "od_get (sn_sessions sn) sid = Some v" using Cons.prems(4) by auto
  with Cons.prems have "pass_ok cfg sn c W (insert sid seen) (keep_owner cfg sn c st sid)"
    by (intro pass_step) auto
  from Cons.IH [OF this] Cons.prems show ?case by (simp add: insert_commute)
qed


subsection \<open>The second pass\<close>

definition full :: "int \<Rightarrow> string set \<Rightarrow> placement \<times> loads \<Rightarrow> bool" where
  "full c W pl \<longleftrightarrow> (\<forall>w \<in> W. c \<le> int (length (load_of (snd pl) w)))"

definition at_worker :: "placement \<Rightarrow> string \<Rightarrow> bool" where
  "at_worker p sid \<longleftrightarrow> (\<exists>w. od_get p sid = Some (Some w))"

definition pend_ok ::
    "scheduler_config \<Rightarrow> scheduling_snapshot \<Rightarrow> int \<Rightarrow> string set \<Rightarrow> string set \<Rightarrow> string list
     \<Rightarrow> placement \<times> loads \<Rightarrow> bool" where
  "pend_ok cfg sn c W S rem pl \<longleftrightarrow>
     agree W pl \<and> dom (od_get (fst pl)) = S \<and> (enable_migration cfg \<longrightarrow> fits c pl) \<and>
     distinct rem \<and> set rem \<subseteq> S \<and>
     (\<forall>sid \<in> set rem. od_get (fst pl) sid = Some None \<and> sv_active (view_of sn sid)) \<and>
     (\<forall>sid \<in> S. at_worker (fst pl) sid \<longrightarrow> sv_active (view_of sn sid)) \<and>
     (\<forall>sid \<in> S. sv_active (view_of sn sid) \<longrightarrow> sid \<in> set rem \<or> at_worker (fst pl) sid \<or> full c W pl) \<and>
     (\<forall>sid \<in> S. \<forall>w \<in> W. \<not> enable_migration cfg \<and> sv_active (view_of sn sid) \<and> owner_in sn sid = Some w
        \<longrightarrow> od_get (fst pl) sid = Some (Some w))"

lemma pass_to_pend: "pass_ok cfg sn c W S st \<Longrightarrow> pend_ok cfg sn c W S (snd st) (fst st)"
  unfolding pass_ok_def pend_ok_def at_worker_def by blast

lemma at_worker_put [simp]: "at_worker (od_put sid (Some w) p) x \<longleftrightarrow> x = sid \<or> at_worker p x"
  by (simp add: at_worker_def)

lemma put_session_fst [simp]: "fst (put_session sid w pl) = od_put sid (Some w) (fst pl)"
  by (simp add: put_session_def)

lemma pend_step:
  assumes p: "pend_ok cfg sn c W S (sid # rem) pl"
  shows "pend_ok cfg sn c W S rem (place_pending c pl sid)"
proof -
  let ?f = "filter (\<lambda>(w, xs). int (length xs) < c) (snd pl)"
  let ?key = "\<lambda>w. (length (load_of (snd pl) w), w)"
  have a: "agree W pl" and none: "od_get (fst pl) sid = Some None" and act: "sv_active (view_of sn sid)"
    using p by (auto simp: pend_ok_def)
  note d = agreeD [OF a]
  show ?thesis
  proof (cases "py_min ?key (map fst ?f)")
    case None
    then have "?f = []" by simp
    have "c \<le> int (length (load_of (snd pl) w))" if w: "w \<in> W" for w
    proof -
      obtain xs where m: "(w, xs) \<in> set (snd pl)" using w d(2) by auto
      then have "\<not> int (length xs) < c" using \<open>?f = []\<close> by (auto simp: filter_empty_conv)
      with load_of_mem [OF d(1) m] show ?thesis by simp
    qed
    then have "full c W pl" by (simp add: full_def)
    with p None show ?thesis by (auto simp: place_pending_def pend_ok_def)
  next
    case (Some w)
    from py_min_in [OF Some] obtain xs where m: "(w, xs) \<in> set (snd pl)" "int (length xs) < c" by auto
    then have w: "w \<in> W" and l: "int (length (load_of (snd pl) w)) < c"
      using d(2) load_of_mem [OF d(1) m(1)] by (auto intro: rev_image_eqI)
    have e: "place_pending c pl sid = put_session sid w pl" using Some by (simp add: place_pending_def)
    have ag: "agree W (put_session sid w pl)" by (rule agree_put [OF a w]) (simp add: none)
    have fu: "full c W (put_session sid w pl)" if "full c W pl"
      using that l w by (auto simp: full_def)
    have fi: "enable_migration cfg \<longrightarrow> fits c (put_session sid w pl)"
      using p fits_put [OF _ l, of sid] by (auto simp: pend_ok_def)
    have S: "insert sid (dom (od_get (fst pl))) = S" using p by (auto simp: pend_ok_def)
    have pin: "\<forall>x \<in> S. \<forall>v \<in> W. \<not> enable_migration cfg \<and> sv_active (view_of sn x) \<and> owner_in sn x = Some v
        \<longrightarrow> od_get (od_put sid (Some w) (fst pl)) x = Some (Some v)"
    proof (intro ballI impI)
      fix x v
      assume "x \<in> S" "v \<in> W" "\<not> enable_migration cfg \<and> sv_active (view_of sn x) \<and> owner_in sn x = Some v"
      then have "od_get (fst pl) x = Some (Some v)" using p unfolding pend_ok_def by blast
      with none show "od_get (od_put sid (Some w) (fst pl)) x = Some (Some v)" by auto
    qed
    show ?thesis
      unfolding e pend_ok_def put_session_fst
    proof (intro conjI)
      show "dom (od_get (od_put sid (Some w) (fst pl))) = S"
        using S by (simp only: od_get_put dom_fun_upd option.simps if_False)
      show "\<forall>x \<in> set rem. od_get (od_put sid (Some w) (fst pl)) x = Some None \<and> sv_active (view_of sn x)"
        using p by (auto simp: pend_ok_def)
      show "\<forall>x \<in> S. at_worker (od_put sid (Some w) (fst pl)) x \<longrightarrow> sv_active (view_of sn x)"
        using p act by (auto simp: pend_ok_def)
      show "\<forall>x \<in> S. sv_active (view_of sn x) \<longrightarrow> x \<in> set rem \<or>
          at_worker (od_put sid (Some w) (fst pl)) x \<or> full c W (put_session sid w pl)"
        using p fu by (auto simp: pend_ok_def)
    qed (use p ag fi pin in \<open>simp_all add: pend_ok_def\<close>)
  qed
qed

lemma pend_fold: "pend_ok cfg sn c W S rem pl \<Longrightarrow> pend_ok cfg sn c W S [] (foldl (place_pending c) pl rem)"
proof (induction rem arbitrary: pl)
  case (Cons sid rem)
  from Cons.IH [OF pend_step [OF Cons.prems]] show ?case by simp
qed simp

text \<open>The result of the two passes.\<close>

lemma first_placement_ok:
  assumes "od_ok (sn_sessions sn)"
  shows "pend_ok cfg sn (effective_capacity cfg sn) (set (slice_to b (sn_worker_order sn)))
    (dom (od_get (sn_sessions sn))) [] (first_placement cfg sn b)"
proof -
  let ?c = "effective_capacity cfg sn" and ?W = "set (slice_to b (sn_worker_order sn))"
  let ?ids = "sort (od_keys (sn_sessions sn))"
  let ?st = "(([], empty_loads (slice_to b (sn_worker_order sn))), []) :: (placement \<times> loads) \<times> string list"
  have "agree ?W (fst ?st)" "fits ?c (fst ?st)"
    using keys_empty_loads [of "slice_to b (sn_worker_order sn)"]
    by (auto simp: agree_def fits_def effective_capacity_def)
  then have "pass_ok cfg sn ?c ?W {} ?st" by (simp add: pass_ok_def)
  then have "pass_ok cfg sn ?c ?W ({} \<union> set ?ids) (foldl (keep_owner cfg sn ?c) ?st ?ids)"
    by (rule pass_fold) (use assms in \<open>auto simp: od_ok_def dom_map_of_conv_image_fst\<close>)
  then have "pend_ok cfg sn ?c ?W (dom (od_get (sn_sessions sn)))
      (snd (foldl (keep_owner cfg sn ?c) ?st ?ids)) (fst (foldl (keep_owner cfg sn ?c) ?st ?ids))"
    by (intro pass_to_pend) (simp add: dom_map_of_conv_image_fst)
  from pend_fold [OF this] show ?thesis by (simp add: first_placement_def Let_def)
qed

subsection \<open>Rebalancing keeps the agreement and never worsens the bottleneck\<close>

lemma candidate_facts:
  assumes "agree W pl" and "(sid, target) \<in> set (move_candidates c source (snd pl))"
  shows "sid \<in> set (load_of (snd pl) source)" and "target \<in> W" and "target \<noteq> source"
    and "int (length (load_of (snd pl) target)) < c"
  using assms agreeD(2) [OF assms(1)] load_of_mem [OF agreeD(1) [OF assms(1)]]
  by (auto simp: move_candidates_def)

lemma no_candidates_when_full:
  assumes "agree W pl" and "full c W pl"
  shows "move_candidates c source (snd pl) = []"
proof -
  have "\<not> int (length xs) < c" if "(w, xs) \<in> set (snd pl)" for w xs
    using assms that agreeD(2) [OF assms(1)] load_of_mem [OF agreeD(1) [OF assms(1)] that]
    by (force simp: full_def)
  then show ?thesis by (auto simp: move_candidates_def filter_empty_conv)
qed

text \<open>What a round preserves: agreement, capacity, who is placed, and a full cluster.\<close>

definition reb_ok :: "string set \<Rightarrow> int \<Rightarrow> placement \<times> loads \<Rightarrow> placement \<times> loads \<Rightarrow> bool" where
  "reb_ok W c pl pl' \<longleftrightarrow>
     agree W pl' \<and> fits c pl' \<and> dom (od_get (fst pl')) = dom (od_get (fst pl)) \<and>
     (\<forall>sid. at_worker (fst pl') sid = at_worker (fst pl) sid) \<and> (full c W pl \<longrightarrow> pl' = pl)"

lemma rebalance_round:
  assumes a: "agree W pl" and f: "fits c pl" and s: "source \<in> W"
    and cand: "(sid, target) \<in> set (move_candidates c source (snd pl))"
  shows "reb_ok W c pl (od_put sid (Some target) (fst pl), move_session sid source target (snd pl))"
proof -
  note cf = candidate_facts [OF a cand]
  have here: "od_get (fst pl) sid = Some (Some source)" using agreeD(5) [OF a s] cf(1) by simp
  have "\<not> full c W pl" using no_candidates_when_full [OF a] cand by auto
  moreover have "fits c (od_put sid (Some target) (fst pl), move_session sid source target (snd pl))"
    using fits_move [OF f cf(3,4)] s cf(2) agreeD(2) [OF a] by simp
  ultimately show ?thesis
    using agree_move [OF a s cf(2,3,1)] here by (auto simp: reb_ok_def at_worker_def split: if_splits)
qed

lemma rebalance_ok:
  assumes "agree W pl" and "fits c pl"
  shows "reb_ok W c pl (fst (rebalance pw m cfg sn c n pl cnt))"
  using assms
proof (induction n arbitrary: pl cnt)
  case 0
  then show ?case by (simp add: reb_ok_def)
next
  case (Suc n)
  have same: "reb_ok W c pl pl" using Suc.prems by (simp add: reb_ok_def)
  let ?key = "\<lambda>w. (worker_worst pw m sn c (load_of (snd pl) w), length (load_of (snd pl) w), w)"
  show ?case
  proof (cases "py_max ?key (od_keys (snd pl))")
    case None
    then show ?thesis using same by simp
  next
    case (Some source)
    have s: "source \<in> W" using py_max_in [OF Some] agreeD(2) [OF Suc.prems(1)] by simp
    let ?score = "move_score pw m cfg sn c source (snd pl)"
    show ?thesis
    proof (cases "load_of (snd pl) source = [] \<or> py_max ?score (move_candidates c source (snd pl)) = None \<or>
        (\<exists>mv. py_max ?score (move_candidates c source (snd pl)) = Some mv \<and> fst (?score mv) \<le> min_gain_ms cfg)")
      case True
      then show ?thesis using same Some by (auto simp: Let_def split: option.splits)
    next
      case False
      then obtain x where x: "py_max ?score (move_candidates c source (snd pl)) = Some x"
          "\<not> fst (?score x) \<le> min_gain_ms cfg" "load_of (snd pl) source \<noteq> []"
        by (cases "py_max ?score (move_candidates c source (snd pl))") blast+
      obtain sid target where "x = (sid, target)" by (cases x)
      with x have mv: "py_max ?score (move_candidates c source (snd pl)) = Some (sid, target)"
          "\<not> fst (?score (sid, target)) \<le> min_gain_ms cfg" "load_of (snd pl) source \<noteq> []" by simp_all
      let ?pl = "(od_put sid (Some target) (fst pl), move_session sid source target (snd pl))"
      have r: "reb_ok W c pl ?pl" using rebalance_round [OF Suc.prems s py_max_in [OF mv(1)]] .
      then have "agree W ?pl" "fits c ?pl" by (simp_all add: reb_ok_def)
      from Suc.IH [OF this, of "(fst cnt + 1, snd cnt + length (move_candidates c source (snd pl)))"] r
      have "reb_ok W c pl (fst (rebalance pw m cfg sn c n ?pl
          (fst cnt + 1, snd cnt + length (move_candidates c source (snd pl)))))"
        using no_candidates_when_full [OF Suc.prems(1)] py_max_in [OF mv(1)] by (auto simp: reb_ok_def)
      then show ?thesis using Some mv by (simp add: Let_def)
    qed
  qed
qed

text \<open>
  What one move must do: take a session from the worker whose worst predicted latency is the
  greatest (the fuller one, then the one with the greater name, among equals) to another one with
  room, and lower the bottleneck by more than the threshold and the weighted cost of the migration.
\<close>

definition worst_worker ::
    "(rat \<Rightarrow> rat \<Rightarrow> rat) \<Rightarrow> latency_model \<Rightarrow> scheduling_snapshot \<Rightarrow> int \<Rightarrow> loads \<Rightarrow> string option" where
  "worst_worker pw m sn c l =
     py_max (\<lambda>w. (worker_worst pw m sn c (load_of l w), length (load_of l w), w)) (od_keys l)"

definition gaining_move ::
    "(rat \<Rightarrow> rat \<Rightarrow> rat) \<Rightarrow> latency_model \<Rightarrow> scheduler_config \<Rightarrow> scheduling_snapshot \<Rightarrow> int
     \<Rightarrow> placement \<times> loads \<Rightarrow> placement \<times> loads \<Rightarrow> bool" where
  "gaining_move pw m cfg sn c pl pl' \<longleftrightarrow>
     (\<exists>source sid target. worst_worker pw m sn c (snd pl) = Some source \<and>
        sid \<in> set (load_of (snd pl) source) \<and> target \<noteq> source \<and>
        (\<exists>xs. (target, xs) \<in> set (snd pl) \<and> int (length xs) < c) \<and>
        pl' = (od_put sid (Some target) (fst pl), move_session sid source target (snd pl)) \<and>
        bottleneck pw m sn c (snd pl') + min_gain_ms cfg +
          migration_eta cfg * migration_cost_ms m (view_of sn sid) (sn_calibration sn)
          < bottleneck pw m sn c (snd pl))"

lemma gaining_move_candidate:
  assumes "worst_worker pw m sn c (snd pl) = Some source"
  shows "gaining_move pw m cfg sn c pl pl' \<longleftrightarrow>
    (\<exists>mv \<in> set (move_candidates c source (snd pl)). min_gain_ms cfg < fst (move_score pw m cfg sn c source (snd pl) mv) \<and>
       pl' = (od_put (fst mv) (Some (snd mv)) (fst pl), move_session (fst mv) source (snd mv) (snd pl)))"
proof -
  have cand: "(sid, target) \<in> set (move_candidates c source (snd pl)) \<longleftrightarrow>
      sid \<in> set (load_of (snd pl) source) \<and> target \<noteq> source \<and> (\<exists>xs. (target, xs) \<in> set (snd pl) \<and> int (length xs) < c)" for sid target
    by (force simp: move_candidates_def)
  have gain: "min_gain_ms cfg < fst (move_score pw m cfg sn c source (snd pl) (sid, target)) \<longleftrightarrow>
      bottleneck pw m sn c (move_session sid source target (snd pl)) + min_gain_ms cfg +
        migration_eta cfg * migration_cost_ms m (view_of sn sid) (sn_calibration sn) < bottleneck pw m sn c (snd pl)" for sid target
    by (simp add: move_score_def) linarith
  show ?thesis (is "?l \<longleftrightarrow> ?r")
  proof
    assume ?l
    then obtain sid target where f: "sid \<in> set (load_of (snd pl) source)" "target \<noteq> source"
      "\<exists>xs. (target, xs) \<in> set (snd pl) \<and> int (length xs) < c"
      "pl' = (od_put sid (Some target) (fst pl), move_session sid source target (snd pl))"
      "bottleneck pw m sn c (snd pl') + min_gain_ms cfg +
        migration_eta cfg * migration_cost_ms m (view_of sn sid) (sn_calibration sn) < bottleneck pw m sn c (snd pl)"
      unfolding gaining_move_def assms option.inject by blast
    have "min_gain_ms cfg < fst (move_score pw m cfg sn c source (snd pl) (sid, target))"
      using f(4,5) gain [of sid target] by simp
    moreover have "(sid, target) \<in> set (move_candidates c source (snd pl))" using f(1-3) cand by blast
    ultimately show ?r using f(4) by (intro bexI [of _ "(sid, target)"]) simp_all
  next
    assume ?r
    then obtain sid target where "(sid, target) \<in> set (move_candidates c source (snd pl))"
      and "pl' = (od_put sid (Some target) (fst pl), move_session sid source target (snd pl))"
      and "min_gain_ms cfg < fst (move_score pw m cfg sn c source (snd pl) (sid, target))" by auto
    then show ?l unfolding gaining_move_def assms gain cand
      by (intro exI [of _ source] exI [of _ sid] exI [of _ target]) simp
  qed
qed

lemma no_gain:
  assumes "worst_worker pw m sn c (snd pl) = Some source"
    and "\<forall>mv. py_max (move_score pw m cfg sn c source (snd pl)) (move_candidates c source (snd pl)) = Some mv \<longrightarrow>
      fst (move_score pw m cfg sn c source (snd pl) mv) \<le> min_gain_ms cfg"
  shows "\<not> gaining_move pw m cfg sn c pl pl'"
proof -
  let ?f = "move_score pw m cfg sn c source (snd pl)" and ?cs = "move_candidates c source (snd pl)"
  have "fst (?f mv) \<le> min_gain_ms cfg" if mv: "mv \<in> set ?cs" for mv
  proof -
    obtain b where b: "py_max ?f ?cs = Some b" using mv by (cases "py_max ?f ?cs") auto
    have "?f mv \<le> ?f b" by (rule py_max_greatest [OF b mv])
    then have "fst (?f mv) \<le> fst (?f b)" by (cases "?f mv"; cases "?f b") auto
    with assms(2) b show ?thesis by force
  qed
  then show ?thesis unfolding gaining_move_candidate [OF assms(1)] by (auto simp: not_less)
qed

lemma rebalance_moves:
  "\<exists>k \<le> n. fst (snd (rebalance pw m cfg sn c n pl cnt)) = fst cnt + k \<and>
     (gaining_move pw m cfg sn c ^^ k) pl (fst (rebalance pw m cfg sn c n pl cnt)) \<and>
     (k < n \<longrightarrow> (\<forall>q. \<not> gaining_move pw m cfg sn c (fst (rebalance pw m cfg sn c n pl cnt)) q))"
proof (induction n arbitrary: pl cnt)
  case (Suc n)
  show ?case
  proof (cases "worst_worker pw m sn c (snd pl)")
    case None
    then have "\<not> gaining_move pw m cfg sn c pl q" for q by (simp add: gaining_move_def)
    moreover have "rebalance pw m cfg sn c (Suc n) pl cnt = (pl, cnt)" using None by (simp add: worst_worker_def)
    ultimately show ?thesis by (intro exI [of _ 0]) simp
  next
    case (Some source)
    let ?score = "move_score pw m cfg sn c source (snd pl)"
    let ?cands = "move_candidates c source (snd pl)"
    note eq = Some [unfolded worst_worker_def]
    show ?thesis
    proof (cases "load_of (snd pl) source \<noteq> [] \<and> (\<exists>mv. py_max ?score ?cands = Some mv \<and> min_gain_ms cfg < fst (?score mv))")
      case True
      then obtain sid target where mv: "py_max ?score ?cands = Some (sid, target)" "min_gain_ms cfg < fst (?score (sid, target))"
          "load_of (snd pl) source \<noteq> []" by auto
      let ?pl = "(od_put sid (Some target) (fst pl), move_session sid source target (snd pl))"
      let ?cnt = "(fst cnt + 1, snd cnt + length ?cands)"
      have e: "rebalance pw m cfg sn c (Suc n) pl cnt = rebalance pw m cfg sn c n ?pl ?cnt"
        using eq mv by (simp add: Let_def)
      have g: "gaining_move pw m cfg sn c pl ?pl"
        unfolding gaining_move_candidate [OF Some] using py_max_in [OF mv(1)] mv(2) by force
      obtain k where k: "k \<le> n" "fst (snd (rebalance pw m cfg sn c n ?pl ?cnt)) = fst ?cnt + k"
        "(gaining_move pw m cfg sn c ^^ k) ?pl (fst (rebalance pw m cfg sn c n ?pl ?cnt))"
        "k < n \<longrightarrow> (\<forall>q. \<not> gaining_move pw m cfg sn c (fst (rebalance pw m cfg sn c n ?pl ?cnt)) q)"
        using Suc.IH [of ?pl ?cnt] by blast
      show ?thesis unfolding e
        by (intro exI [of _ "Suc k"]) (use k relpowp_Suc_I2 [of "gaining_move pw m cfg sn c", OF g k(3)] in simp)
    next
      case False
      have "\<not> gaining_move pw m cfg sn c pl q" for q
      proof (cases "load_of (snd pl) source = []")
        case True
        then have "?cands = []" by (simp add: move_candidates_def)
        then show ?thesis unfolding gaining_move_candidate [OF Some] by simp
      next
        case loaded: False
        with False show ?thesis by (intro no_gain [OF Some]) (auto simp: not_less)
      qed
      moreover have "\<exists>v. rebalance pw m cfg sn c (Suc n) pl cnt = (pl, fst cnt, v)"
        using False eq by (cases cnt) (auto simp: Let_def split: option.split)
      ultimately show ?thesis by (intro exI [of _ 0]) auto
    qed
  qed
qed simp

section \<open>Held scale-in\<close>

definition current_budget :: "scheduler_config \<Rightarrow> scheduling_snapshot \<Rightarrow> int" where
  "current_budget cfg sn = clamp cfg (sn_current_workers sn) (int (length (sn_worker_order sn)))"

definition hold_after :: "scheduler_config \<Rightarrow> scheduling_snapshot list \<Rightarrow> hold_state" where
  "hold_after cfg sns = foldl (\<lambda>h sn. snd (autoscale_budget cfg sn h)) no_hold sns"

text \<open>The pending scale-in was first asked for at tick \<open>j\<close> and at every tick since.\<close>

definition asked_since ::
    "scheduler_config \<Rightarrow> scheduling_snapshot list \<Rightarrow> int \<Rightarrow> rat \<Rightarrow> nat \<Rightarrow> bool" where
  "asked_since cfg sns t d j \<longleftrightarrow>
     j < length sns \<and> d = sn_time_seconds (sns ! j) + max 0 (scale_in_hold_seconds cfg) \<and>
     (\<forall>i. j \<le> i \<and> i < length sns \<longrightarrow> wanted_budget cfg (sns ! i) = t \<and> t < current_budget cfg (sns ! i))"

definition hold_ok :: "scheduler_config \<Rightarrow> scheduling_snapshot list \<Rightarrow> hold_state \<Rightarrow> bool" where
  "hold_ok cfg sns h \<longleftrightarrow>
     (\<forall>d. scale_in_deadline_seconds h = Some d \<longrightarrow>
        (\<exists>t j. scale_in_target h = Some t \<and> asked_since cfg sns t d j))"

lemma hold_ok_no_hold [simp]: "hold_ok cfg sns no_hold"
  by (simp add: hold_ok_def no_hold_def)

definition restarted_hold :: "scheduler_config \<Rightarrow> scheduling_snapshot \<Rightarrow> hold_state" where
  "restarted_hold cfg sn =
     \<lparr>scale_in_target = Some (wanted_budget cfg sn),
      scale_in_deadline_seconds = Some (sn_time_seconds sn + max 0 (scale_in_hold_seconds cfg))\<rparr>"

definition held :: "scheduler_config \<Rightarrow> scheduling_snapshot \<Rightarrow> hold_state \<Rightarrow> hold_state" where
  "held cfg sn h =
     (if scale_in_deadline_seconds h \<noteq> None \<and> scale_in_target h = Some (wanted_budget cfg sn) then h
      else restarted_hold cfg sn)"

lemma autoscale_cases:
  "autoscale_budget cfg sn h =
     (if \<not> enable_autoscaling cfg then ((current_budget cfg sn, SA_DISABLED), no_hold)
      else if wanted_budget cfg sn > current_budget cfg sn then ((wanted_budget cfg sn, SA_SCALE_OUT), no_hold)
      else if wanted_budget cfg sn < current_budget cfg sn then
        (if sn_time_seconds sn \<ge> the (scale_in_deadline_seconds (held cfg sn h))
         then ((wanted_budget cfg sn, SA_SCALE_IN), no_hold)
         else ((current_budget cfg sn, SA_HOLD_SCALE_IN), held cfg sn h))
      else ((current_budget cfg sn, SA_HOLD), no_hold))"
  by (cases "scale_in_deadline_seconds h")
    (auto simp: autoscale_budget_def Let_def current_budget_def held_def restarted_hold_def)

lemma held_ok:
  assumes h: "hold_ok cfg sns h" and lt: "wanted_budget cfg sn < current_budget cfg sn"
  shows "\<exists>d j. scale_in_deadline_seconds (held cfg sn h) = Some d \<and>
    scale_in_target (held cfg sn h) = Some (wanted_budget cfg sn) \<and>
    asked_since cfg (sns @ [sn]) (wanted_budget cfg sn) d j"
proof (cases "scale_in_deadline_seconds h \<noteq> None \<and> scale_in_target h = Some (wanted_budget cfg sn)")
  case True
  then obtain d j where "scale_in_deadline_seconds h = Some d"
      "asked_since cfg sns (wanted_budget cfg sn) d j"
    using h by (auto simp: hold_ok_def)
  with True lt show ?thesis
    by (intro exI [of _ d] exI [of _ j]) (auto simp: held_def asked_since_def nth_append less_Suc_eq)
next
  case False
  with lt show ?thesis
    by (intro exI [of _ "sn_time_seconds sn + max 0 (scale_in_hold_seconds cfg)"] exI [of _ "length sns"])
      (auto simp: held_def restarted_hold_def asked_since_def nth_append less_Suc_eq)
qed

lemma hold_after_ok: "hold_ok cfg sns (hold_after cfg sns)"
proof (induction sns rule: rev_induct)
  case Nil
  show ?case by (simp add: hold_after_def)
next
  case (snoc sn sns)
  have e: "hold_after cfg (sns @ [sn]) = snd (autoscale_budget cfg sn (hold_after cfg sns))"
    by (simp add: hold_after_def)
  have "hold_ok cfg (sns @ [sn]) (held cfg sn (hold_after cfg sns))"
    if "wanted_budget cfg sn < current_budget cfg sn"
    using held_ok [OF snoc that] unfolding hold_ok_def by fastforce
  then show ?case unfolding e autoscale_cases by auto
qed

section \<open>Properties\<close>

definition sessions_at :: "placement \<Rightarrow> string \<Rightarrow> string set" where
  "sessions_at p w = {sid. od_get p sid = Some (Some w)}"

lemma sessions_at_load:
  assumes "agree W pl" and "w \<in> W"
  shows "card (sessions_at (fst pl) w) = length (load_of (snd pl) w)"
proof -
  have "sessions_at (fst pl) w = set (load_of (snd pl) w)"
    using agreeD(5) [OF assms] by (auto simp: sessions_at_def)
  with agreeD(4) [OF assms] show ?thesis by (simp add: distinct_card)
qed

lemma pend_rebalanced:
  assumes p: "pend_ok cfg sn c W S [] pl" and r: "reb_ok W c pl pl'" and m: "enable_migration cfg"
  shows "pend_ok cfg sn c W S [] pl'"
proof -
  have w: "at_worker (fst pl') sid = at_worker (fst pl) sid" for sid using r by (simp add: reb_ok_def)
  have f: "full c W pl'" if "full c W pl" using r that by (simp add: reb_ok_def)
  have "\<forall>sid \<in> S. sv_active (view_of sn sid) \<longrightarrow> sid \<in> set [] \<or> at_worker (fst pl) sid \<or> full c W pl"
    and "\<forall>sid \<in> S. at_worker (fst pl) sid \<longrightarrow> sv_active (view_of sn sid)"
    and d: "dom (od_get (fst pl)) = S"
    using p unfolding pend_ok_def by blast+
  then have a: "\<forall>sid \<in> S. sv_active (view_of sn sid) \<longrightarrow> sid \<in> set [] \<or> at_worker (fst pl') sid \<or> full c W pl'"
    and b: "\<forall>sid \<in> S. at_worker (fst pl') sid \<longrightarrow> sv_active (view_of sn sid)"
    using w f by blast+
  have "agree W pl'" "fits c pl'" "dom (od_get (fst pl')) = S" using r d by (simp_all add: reb_ok_def)
  then show ?thesis unfolding pend_ok_def using a b m by simp
qed

definition budget_workers :: "scheduling_snapshot \<Rightarrow> int \<Rightarrow> string set" where
  "budget_workers sn b = set (slice_to b (sn_worker_order sn))"

lemma place_at_budget_ok:
  assumes "od_ok (sn_sessions sn)"
  shows "pend_ok cfg sn (effective_capacity cfg sn) (budget_workers sn b) (dom (od_get (sn_sessions sn))) []
    (fst (place_at_budget pw m cfg sn b))"
proof -
  let ?W = "budget_workers sn b" and ?c = "effective_capacity cfg sn"
  let ?p = "first_placement cfg sn b"
  have p: "pend_ok cfg sn ?c ?W (dom (od_get (sn_sessions sn))) [] ?p"
    unfolding budget_workers_def by (rule first_placement_ok [OF assms(1)])
  show ?thesis
  proof (cases "enable_migration cfg")
    case False
    then show ?thesis using p by (simp add: place_at_budget_def Let_def)
  next
    case True
    let ?q = "fst (rebalance pw m cfg sn ?c (rebalance_iteration_limit cfg) ?p (0, 0))"
    have "agree ?W ?p" "fits ?c ?p" using p True by (simp_all add: pend_ok_def)
    then have r: "reb_ok ?W ?c ?p ?q" by (rule rebalance_ok)
    from pend_rebalanced [OF p this True] have "pend_ok cfg sn ?c ?W (dom (od_get (sn_sessions sn))) [] ?q" .
    then show ?thesis using True by (simp add: place_at_budget_def Let_def)
  qed
qed


text \<open>C23: Placement at a budget is feasible and complete: every session gets an entry, only
  active sessions are put on a worker, and only on a worker within the budget; with migration
  enabled no worker gets more sessions than the capacity; with migration disabled an active
  session whose owner is within the budget stays there; and an active session is left without a
  worker only if every worker within the budget is at capacity.\<close>

theorem placement_feasible:
  assumes "od_ok (sn_sessions sn)"
  shows "let p = fst (fst (place_at_budget pw m cfg sn b)); c = effective_capacity cfg sn in
    dom (od_get p) = dom (od_get (sn_sessions sn)) \<and>
    (\<forall>sid w. od_get p sid = Some (Some w) \<longrightarrow> w \<in> budget_workers sn b \<and> sv_active (view_of sn sid)) \<and>
    (enable_migration cfg \<longrightarrow> (\<forall>w \<in> budget_workers sn b. int (card (sessions_at p w)) \<le> c)) \<and>
    (\<forall>sid w. \<not> enable_migration cfg \<and> sid \<in> dom (od_get p) \<and> sv_active (view_of sn sid) \<and>
       owner_in sn sid = Some w \<and> w \<in> budget_workers sn b \<longrightarrow> od_get p sid = Some (Some w)) \<and>
    (\<forall>sid. od_get p sid = Some None \<and> sv_active (view_of sn sid) \<longrightarrow>
       (\<forall>w \<in> budget_workers sn b. c \<le> int (card (sessions_at p w))))"
proof -
  let ?q = "fst (place_at_budget pw m cfg sn b)"
  let ?c = "effective_capacity cfg sn" and ?W = "budget_workers sn b"
  have p: "pend_ok cfg sn ?c ?W (dom (od_get (sn_sessions sn))) [] ?q"
    by (rule place_at_budget_ok [OF assms])
  have a: "agree ?W ?q" and dm: "dom (od_get (fst ?q)) = dom (od_get (sn_sessions sn))"
    using p by (simp_all add: pend_ok_def)
  note card = sessions_at_load [OF a]
  have cap: "int (card (sessions_at (fst ?q) w)) \<le> ?c" if "enable_migration cfg" "w \<in> ?W" for w
  proof -
    have "fits ?c ?q" using p that(1) by (simp add: pend_ok_def)
    then have "int (length (load_of (snd ?q) w)) \<le> ?c"
      using that(2) agreeD(2) [OF a] unfolding fits_def by blast
    with card [OF that(2)] show ?thesis by simp
  qed
  have act: "w \<in> ?W \<and> sv_active (view_of sn sid)" if "od_get (fst ?q) sid = Some (Some w)" for sid w
  proof -
    have "sid \<in> dom (od_get (sn_sessions sn))" unfolding dm [symmetric] using that by blast
    moreover have "\<forall>sid \<in> dom (od_get (sn_sessions sn)). at_worker (fst ?q) sid \<longrightarrow> sv_active (view_of sn sid)"
      using p unfolding pend_ok_def by blast
    ultimately show ?thesis using that agreeD(3) [OF a that] unfolding at_worker_def by blast
  qed
  have pin: "od_get (fst ?q) sid = Some (Some w)"
    if "\<not> enable_migration cfg \<and> sid \<in> dom (od_get (fst ?q)) \<and> sv_active (view_of sn sid) \<and>
       owner_in sn sid = Some w \<and> w \<in> ?W" for sid w
  proof -
    have "sid \<in> dom (od_get (sn_sessions sn))" using that unfolding dm by blast
    moreover have "\<forall>sid \<in> dom (od_get (sn_sessions sn)). \<forall>w \<in> ?W. \<not> enable_migration cfg \<and>
        sv_active (view_of sn sid) \<and> owner_in sn sid = Some w \<longrightarrow> od_get (fst ?q) sid = Some (Some w)"
      using p unfolding pend_ok_def by (elim conjE)
    ultimately show ?thesis using that by blast
  qed
  have fl: "?c \<le> int (card (sessions_at (fst ?q) w))"
    if "od_get (fst ?q) sid = Some None \<and> sv_active (view_of sn sid)" "w \<in> ?W" for sid w
  proof -
    have "sid \<in> dom (od_get (sn_sessions sn))" using that(1) dm by auto
    then have "full ?c ?W ?q" using p that(1) by (auto simp: pend_ok_def at_worker_def)
    with card [OF that(2)] that(2) show ?thesis by (simp add: full_def)
  qed
  show ?thesis unfolding Let_def using dm act cap pin fl by blast
qed

definition demo_config :: "bool \<Rightarrow> scheduler_config" where
  "demo_config mig = \<lparr>enable_autoscaling = True, enable_migration = mig, cf_min_workers = 1,
     cf_max_workers = 8, cf_capacity_per_worker = 2, cf_target_utilization = 1,
     scale_in_hold_seconds = 5, migration_eta = 1 / 4, min_gain_ms = 1, rebalance_iteration_limit = 3\<rparr>"

definition demo_view :: "string \<Rightarrow> bool \<Rightarrow> session_view" where
  "demo_view sid a = \<lparr>sv_session_id = sid, sv_active = a, sv_state_size_mb = 32, sv_chunk_compute_units = 1,
     sv_prompt_tokens = 0, sv_resolution = ''720p'', sv_frame_count = 64\<rparr>"

definition demo_snapshot :: "rat \<Rightarrow> (string \<times> bool) list \<Rightarrow> (string \<times> string option) list \<Rightarrow> int \<Rightarrow> scheduling_snapshot" where
  "demo_snapshot t ss pl cur = \<lparr>sn_time_seconds = t, sn_sessions = map (\<lambda>(s, a). (s, demo_view s a)) ss,
     sn_placement = pl, sn_current_workers = cur, sn_worker_order = [''A'', ''B'', ''C''],
     sn_capacity_per_worker = 2,
     sn_calibration = \<lparr>average_migration_total_ms = 0, cal_base_chunk_latency_ms = 0\<rparr>\<rparr>"

theorem placement_feasible_witness:
  "let p = fst (fst (place_at_budget (\<lambda>x _. x) default_latency_model (demo_config False)
       (demo_snapshot 0 [(''s'', True), (''t'', False)] [(''s'', Some ''B'')] 2) 2))
   in od_get p ''s'' = Some (Some ''B'')"
proof -
  let ?sn = "demo_snapshot 0 [(''s'', True), (''t'', False)] [(''s'', Some ''B'')] 2"
  let ?cfg = "demo_config False"
  let ?p = "fst (fst (place_at_budget (\<lambda>x _. x) default_latency_model ?cfg ?sn 2))"
  have ok: "od_ok (sn_sessions ?sn)" by (simp add: demo_snapshot_def od_ok_def)
  have h: "\<not> enable_migration ?cfg" "''s'' \<in> dom (od_get (sn_sessions ?sn))"
    "sv_active (view_of ?sn ''s'')" "owner_in ?sn ''s'' = Some ''B''" "''B'' \<in> budget_workers ?sn 2"
    by (simp_all add: demo_config_def demo_snapshot_def view_of_def demo_view_def owner_in_def
        budget_workers_def slice_to_def numeral_2_eq_2 domIff)
  from placement_feasible [OF ok, of "\<lambda>x _. x" default_latency_model ?cfg 2] h
  show ?thesis unfolding Let_def by blast
qed

text \<open>C25: Rebalancing is a sequence of moves, as many as it reports and at most the configured limit, from
  the first placement to the final one. Each takes a session from the worker with the greatest worst
  predicted latency to another one with room, and lowers the predicted bottleneck by strictly more
  than the threshold and the weighted migration cost of that session together. It stops before the
  limit only when no move of that worker's sessions does that. The reported bottlenecks are those
  before the first and after the last move, and without migration there is no move.\<close>

theorem rebalance_lowers_bottleneck:
  assumes "place_at_budget pw m cfg sn b = (pl, meta)" and "c = effective_capacity cfg sn"
  shows "(gaining_move pw m cfg sn c ^^ pm_rebalance_moves meta) (first_placement cfg sn b) pl \<and>
    pm_rebalance_moves meta \<le> rebalance_iteration_limit cfg \<and>
    (enable_migration cfg \<and> pm_rebalance_moves meta < rebalance_iteration_limit cfg \<longrightarrow>
       (\<forall>q. \<not> gaining_move pw m cfg sn c pl q)) \<and>
    (\<not> enable_migration cfg \<longrightarrow> pm_rebalance_moves meta = 0) \<and>
    pm_bottleneck_before_ms meta = bottleneck pw m sn c (snd (first_placement cfg sn b)) \<and>
    pm_bottleneck_after_ms meta = bottleneck pw m sn c (snd pl)"
  using rebalance_moves [of "rebalance_iteration_limit cfg" pw m cfg sn c "first_placement cfg sn b" "(0, 0)"] assms
  by (cases "enable_migration cfg") (auto simp: place_at_budget_def Let_def)

definition demo_busy :: scheduling_snapshot where
  "demo_busy = demo_snapshot 0 [(''s'', True), (''t'', True)] [(''s'', Some ''A''), (''t'', Some ''A'')] 2"

theorem rebalance_lowers_bottleneck_witness:
  "gaining_move (\<lambda>x _. x) default_latency_model (demo_config True) demo_busy 2
     (first_placement (demo_config True) demo_busy 2)
     (fst (place_at_budget (\<lambda>x _. x) default_latency_model (demo_config True) demo_busy 2))"
proof -
  let ?r = "place_at_budget (\<lambda>x _. x) default_latency_model (demo_config True) demo_busy 2"
  have m: "pm_rebalance_moves (snd ?r) = 1" "2 = effective_capacity (demo_config True) demo_busy" by code_simp+
  obtain pl meta where r: "?r = (pl, meta)" by fastforce
  from conjunct1 [OF rebalance_lowers_bottleneck [OF r m(2)]] m(1) show ?thesis unfolding r by (simp add: eq_OO)
qed

text \<open>C24: A scale-in happens only after it has been asked for without interruption for the hold
  time: if a tick scales in to a budget, then there is an earlier tick, at least the hold time
  ago, such that at every tick since then exactly this budget was wanted and it was below the
  current one. A single busier tick in between starts the wait again.\<close>

theorem scale_in_only_after_hold:
  assumes "fst (autoscale_budget cfg sn (hold_after cfg sns)) = (t, SA_SCALE_IN)"
  shows "\<exists>j d. asked_since cfg (sns @ [sn]) t d j \<and> d \<le> sn_time_seconds sn \<and>
    sn_time_seconds ((sns @ [sn]) ! j) + scale_in_hold_seconds cfg \<le> sn_time_seconds sn"
proof -
  let ?h = "hold_after cfg sns"
  have lt: "wanted_budget cfg sn < current_budget cfg sn" and t: "t = wanted_budget cfg sn"
    and due: "the (scale_in_deadline_seconds (held cfg sn ?h)) \<le> sn_time_seconds sn"
    using assms unfolding autoscale_cases by (auto split: if_splits)
  obtain d j where dj: "scale_in_deadline_seconds (held cfg sn ?h) = Some d"
      "asked_since cfg (sns @ [sn]) (wanted_budget cfg sn) d j"
    using held_ok [OF hold_after_ok lt] by blast
  have "sn_time_seconds ((sns @ [sn]) ! j) + scale_in_hold_seconds cfg \<le> d"
    using dj(2) by (simp add: asked_since_def)
  with dj due t show ?thesis by (intro exI [of _ j] exI [of _ d]) simp
qed

theorem scale_in_only_after_hold_witness:
  "let quiet = (\<lambda>t. demo_snapshot t [(''s'', True)] [] 3) in
   fst (autoscale_budget (demo_config True) (quiet 7) (hold_after (demo_config True) [quiet 1, quiet 4])) = (1, SA_SCALE_IN) \<and>
   (\<exists>j d. asked_since (demo_config True) [quiet 1, quiet 4, quiet 7] 1 d j \<and> d \<le> 7)"
proof -
  let ?q = "\<lambda>t. demo_snapshot t [(''s'', True)] [] 3"
  have a: "fst (autoscale_budget (demo_config True) (?q 7) (hold_after (demo_config True) [?q 1, ?q 4])) = (1, SA_SCALE_IN)"
    by code_simp
  have t: "sn_time_seconds (?q 7) = 7" by (simp add: demo_snapshot_def)
  from scale_in_only_after_hold [OF a] a t show ?thesis
    by (simp only: Let_def append.simps) blast
qed

text \<open>With autoscaling enabled the budget covers the demand: the active sessions fit on the
  budgeted workers, unless the budget is already the upper limit (the configured maximum or the
  number of workers there are); and the budget never exceeds that limit.\<close>

theorem budget_covers_demand:
  assumes "enable_autoscaling cfg" and "fst (autoscale_budget cfg sn h) = (b, act)"
    and "enable_migration cfg" and "0 \<le> cf_min_workers cfg"
  shows "b \<le> min (int (length (sn_worker_order sn))) (cf_max_workers cfg) \<and>
    (b = min (int (length (sn_worker_order sn))) (cf_max_workers cfg) \<or>
     active_count sn \<le> b * effective_capacity cfg sn)"
proof -
  let ?M = "min (int (length (sn_worker_order sn))) (cf_max_workers cfg)"
  let ?c = "effective_capacity cfg sn" and ?a = "active_count sn"
  have c: "1 \<le> ?c" by (simp add: effective_capacity_def)
  have cl: "clamp cfg v (int (length (sn_worker_order sn))) \<le> ?M \<and>
      (clamp cfg v (int (length (sn_worker_order sn))) = ?M \<or> v \<le> clamp cfg v (int (length (sn_worker_order sn))))" for v
    by (auto simp: clamp_def)
  have b: "wanted_budget cfg sn \<le> b" "b = wanted_budget cfg sn \<or> b = current_budget cfg sn"
    using assms(1,2) unfolding autoscale_cases by (auto split: if_splits)
  have le: "b \<le> ?M" using b(2) cl assms(3)
    by (auto simp: wanted_budget_def target_budget_def current_budget_def Let_def)
  show ?thesis
  proof (cases "?a \<le> 0")
    case True
    have "wanted_budget cfg sn = ?M \<or> cf_min_workers cfg \<le> wanted_budget cfg sn"
      using True cl assms(3) by (simp add: wanted_budget_def target_budget_def Let_def)
    then have "b = ?M \<or> 0 \<le> b" using b(1) le assms(4) by auto
    then have "b = ?M \<or> 0 \<le> b * ?c" using c by auto
    then show ?thesis using le True by auto
  next
    case False
    let ?hard = "\<lceil>(of_int ?a :: rat) / of_int ?c\<rceil>"
    have "wanted_budget cfg sn = ?M \<or> ?hard \<le> wanted_budget cfg sn"
      using False cl assms(3) by (fastforce simp: wanted_budget_def target_budget_def Let_def)
    moreover have "?a \<le> ?hard * ?c"
    proof -
      have cp: "(0 :: rat) < of_int ?c" using c by simp
      have "(of_int ?a :: rat) / of_int ?c \<le> of_int ?hard" by (rule le_of_int_ceiling)
      then have "(of_int ?a :: rat) \<le> of_int ?hard * of_int ?c"
        by (simp only: pos_divide_le_eq [OF cp])
      then show ?thesis by (simp add: of_int_mult [symmetric] del: of_int_mult)
    qed
    moreover have "?hard * ?c \<le> b * ?c" if "?hard \<le> b" using that c by (intro mult_right_mono) simp_all
    ultimately show ?thesis using b(1) le by force
  qed
qed


theorem budget_covers_demand_witness:
  "active_count demo_busy \<le> 1 * effective_capacity (demo_config True) demo_busy"
proof -
  have h: "enable_autoscaling (demo_config True)" "enable_migration (demo_config True)"
    "0 \<le> cf_min_workers (demo_config True)" "int (length (sn_worker_order demo_busy)) = 3"
    "cf_max_workers (demo_config True) = 8"
    by (simp_all add: demo_config_def demo_busy_def demo_snapshot_def)
  have b: "fst (fst (autoscale_budget (demo_config True) demo_busy
      \<lparr>scale_in_target = Some 1, scale_in_deadline_seconds = Some 0\<rparr>)) = 1" by code_simp
  then obtain act where "fst (autoscale_budget (demo_config True) demo_busy
      \<lparr>scale_in_target = Some 1, scale_in_deadline_seconds = Some 0\<rparr>) = (1, act)"
    by (metis prod.collapse)
  from budget_covers_demand [OF h(1) this h(2,3)] h(4,5) show ?thesis by simp
qed

end
