(* ===== verification/Stream_Spec.thy ===== *)
theory Stream_Spec
  imports Prelude
begin

text \<open>
  The declaration of a streaming pipeline and its validation: the specification classes and
  \<open>StreamingPipelineOrchestrator._validate\<close> of
  \<open>telefuser/orchestrator/streaming_pipeline_orchestrator.py\<close>. A frozen set is a list without
  repetitions, in the order in which the set is iterated. The theorems are about the
  topological order: it is a linear extension of the stage graph when it is found, and it is
  refused exactly when the graph has a cycle.
\<close>

section \<open>Specifications\<close>

datatype stage_ordering = ORD_NONE | PER_SESSION_STRICT

record stage_spec =
  sg_stage_id :: string
  sg_consumes :: "string list"
  sg_produces :: "string list"
  sg_ordering :: stage_ordering
  sg_max_in_flight_per_session :: int
  sg_max_in_flight_global :: int
  sg_resource_group :: "string option"

record resource_group_spec =
  rg_name :: string
  rg_max_concurrency :: int

record edge_spec =
  eg_artifact :: string
  eg_target_stage :: string
  eg_source_stage :: "string option"
  eg_capacity_per_session :: int

record pipeline_spec =
  sp_stages :: "stage_spec list"
  sp_edges :: "edge_spec list"
  sp_output_artifacts :: "string list"
  sp_output_capacity_per_session :: int
  sp_resource_groups :: "resource_group_spec list"
  sp_latency_anchor_artifact :: "string option"

definition check :: "bool \<Rightarrow> string \<Rightarrow> py_error option" where
  "check bad msg = (if bad then Some (ValueError msg) else None)"

text \<open>The first failing check of a sequence is the exception that is raised.\<close>

fun first_error :: "py_error option list \<Rightarrow> py_error option" where
  "first_error [] = None"
| "first_error (None # cs) = first_error cs"
| "first_error (Some e # cs) = Some e"

definition stage_spec_error :: "stage_spec \<Rightarrow> py_error option" where
  "stage_spec_error s = first_error
     [check (sg_stage_id s = [] \<or> sg_consumes s = [] \<or> sg_produces s = [])
        ''A stage requires a non-empty ID, at least one input, and at least one output'',
      check (sg_resource_group s = Some []) ''resource_group must be non-empty when provided'',
      check (sg_max_in_flight_per_session s < 1) ''max_in_flight_per_session must be at least one'',
      check (sg_max_in_flight_global s < 1) ''max_in_flight_global must be at least one'',
      check (sg_max_in_flight_per_session s > sg_max_in_flight_global s)
        ''max_in_flight_per_session cannot exceed max_in_flight_global'',
      check (sg_ordering s = PER_SESSION_STRICT \<and> sg_max_in_flight_per_session s \<noteq> 1)
        ''PER_SESSION_STRICT stages require max_in_flight_per_session=1'']"

definition resource_group_error :: "resource_group_spec \<Rightarrow> py_error option" where
  "resource_group_error g = first_error
     [check (rg_name g = []) ''A resource group requires a non-empty name'',
      check (rg_max_concurrency g < 1) ''max_concurrency must be at least one'']"

definition edge_spec_error :: "edge_spec \<Rightarrow> py_error option" where
  "edge_spec_error e = first_error
     [check (eg_artifact e = [] \<or> eg_target_stage e = []) ''An edge requires artifact and target_stage'',
      check (eg_capacity_per_session e < 1) ''capacity_per_session must be at least one'']"

definition pipeline_spec_error :: "pipeline_spec \<Rightarrow> py_error option" where
  "pipeline_spec_error p = first_error
     [check (sp_output_capacity_per_session p < 1) ''output_capacity_per_session must be at least one'',
      check (sp_latency_anchor_artifact p = Some [])
        ''latency_anchor_artifact must be non-empty when provided'']"

text \<open>A specification whose parts were all constructed without an exception.\<close>

definition spec_built :: "pipeline_spec \<Rightarrow> bool" where
  "spec_built p \<longleftrightarrow>
     pipeline_spec_error p = None \<and>
     (\<forall>s \<in> set (sp_stages p). stage_spec_error s = None \<and> distinct (sg_consumes s) \<and> distinct (sg_produces s)) \<and>
     (\<forall>e \<in> set (sp_edges p). edge_spec_error e = None) \<and>
     (\<forall>g \<in> set (sp_resource_groups p). resource_group_error g = None) \<and>
     distinct (sp_output_artifacts p)"

section \<open>Producers and edges\<close>

definition stage_ids :: "pipeline_spec \<Rightarrow> string list" where
  "stage_ids p = map sg_stage_id (sp_stages p)"

definition stage_of :: "pipeline_spec \<Rightarrow> string \<Rightarrow> stage_spec option" where
  "stage_of p sid = find (\<lambda>s. sg_stage_id s = sid) (sp_stages p)"

fun add_producers :: "string \<Rightarrow> string list \<Rightarrow> (string, string) odict \<Rightarrow> (string, string) odict res" where
  "add_producers sid [] d = Inr d"
| "add_producers sid (a # as) d =
     (case od_get d a of
        Some prev \<Rightarrow> if prev \<noteq> sid then Inl (ValueError (''Artifact '' @ a @ '' has multiple producers''))
                     else add_producers sid as (od_put a sid d)
      | None \<Rightarrow> add_producers sid as (od_put a sid d))"

fun declared_producers :: "stage_spec list \<Rightarrow> (string, string) odict \<Rightarrow> (string, string) odict res" where
  "declared_producers [] d = Inr d"
| "declared_producers (s # ss) d =
     (case add_producers (sg_stage_id s) (sg_produces s) d of
        Inl e \<Rightarrow> Inl e
      | Inr d' \<Rightarrow> declared_producers ss d')"

record stage_graph =
  gr_adjacency :: "(string, string list) odict"
  gr_indegree :: "(string, int) odict"
  gr_grouped :: "(string, edge_spec list) odict"
  gr_external :: "string list"
  gr_seen :: "(string \<times> string option \<times> string) list"

definition targets_of :: "(string, string list) odict \<Rightarrow> string \<Rightarrow> string list" where
  "targets_of adj u = (case od_get adj u of None \<Rightarrow> [] | Some ts \<Rightarrow> ts)"

definition degree_of :: "(string, int) odict \<Rightarrow> string \<Rightarrow> int" where
  "degree_of d v = (case od_get d v of None \<Rightarrow> 0 | Some n \<Rightarrow> n)"

definition edges_of :: "(string, edge_spec list) odict \<Rightarrow> string \<Rightarrow> edge_spec list" where
  "edges_of g a = (case od_get g a of None \<Rightarrow> [] | Some es \<Rightarrow> es)"

text \<open>One round of the edge loop: an internal edge links its stages once.\<close>

definition link_stages :: "string \<Rightarrow> string \<Rightarrow> stage_graph \<Rightarrow> stage_graph" where
  "link_stages u v g =
     (if v \<in> set (targets_of (gr_adjacency g) u) then g
      else g\<lparr>gr_adjacency := od_put u (targets_of (gr_adjacency g) u @ [v]) (gr_adjacency g),
             gr_indegree := od_put v (degree_of (gr_indegree g) v + 1) (gr_indegree g)\<rparr>)"

definition add_edge ::
    "pipeline_spec \<Rightarrow> (string, string) odict \<Rightarrow> edge_spec \<Rightarrow> stage_graph \<Rightarrow> stage_graph res" where
  "add_edge p producers e g =
     (let a = eg_artifact e; key = (a, eg_source_stage e, eg_target_stage e);
          g1 = g\<lparr>gr_seen := key # gr_seen g\<rparr>;
          grouped = (\<lambda>h. h\<lparr>gr_grouped := od_put a (edges_of (gr_grouped h) a @ [e]) (gr_grouped h)\<rparr>)
      in if key \<in> set (gr_seen g) then Inl (ValueError (''Duplicate edge for artifact '' @ a))
      else if (case stage_of p (eg_target_stage e) of None \<Rightarrow> True | Some t \<Rightarrow> a \<notin> set (sg_consumes t)) then
        Inl (ValueError (''Invalid target for artifact '' @ a))
      else case eg_source_stage e of
        None \<Rightarrow>
          if od_get producers a \<noteq> None then
            Inl (ValueError (''Produced artifact '' @ a @ '' cannot also be external input''))
          else Inr (grouped (g1\<lparr>gr_external := gr_external g1 @ [a]\<rparr>))
      | Some u \<Rightarrow>
          if stage_of p u = None \<or> od_get producers a \<noteq> Some u then
            Inl (ValueError (''Invalid source for artifact '' @ a))
          else Inr (grouped (link_stages u (eg_target_stage e) g1)))"

fun add_edges ::
    "pipeline_spec \<Rightarrow> (string, string) odict \<Rightarrow> edge_spec list \<Rightarrow> stage_graph \<Rightarrow> stage_graph res" where
  "add_edges p producers [] g = Inr g"
| "add_edges p producers (e # es) g =
     (case add_edge p producers e g of Inl err \<Rightarrow> Inl err | Inr g' \<Rightarrow> add_edges p producers es g')"

definition empty_graph :: "pipeline_spec \<Rightarrow> stage_graph" where
  "empty_graph p =
     \<lparr>gr_adjacency = map (\<lambda>s. (s, [])) (stage_ids p), gr_indegree = map (\<lambda>s. (s, 0)) (stage_ids p),
      gr_grouped = [], gr_external = [], gr_seen = []\<rparr>"

definition stage_connection_error :: "pipeline_spec \<Rightarrow> stage_graph \<Rightarrow> stage_spec \<Rightarrow> py_error option" where
  "stage_connection_error p g s = first_error
     [check (\<exists>a \<in> set (sg_consumes s). \<not> (\<exists>e \<in> set (edges_of (gr_grouped g) a). eg_target_stage e = sg_stage_id s))
        (''Stage '' @ sg_stage_id s @ '' consumes an unconnected artifact''),
      check (\<exists>a \<in> set (sg_produces s).
               \<not> (\<exists>e \<in> set (edges_of (gr_grouped g) a). eg_source_stage e = Some (sg_stage_id s)) \<and>
               a \<notin> set (sp_output_artifacts p))
        (''Stage '' @ sg_stage_id s @ '' produces an unconnected artifact'')]"

section \<open>Topological order\<close>

text \<open>The targets in the order of the stages' positions in the specification.\<close>

definition sorted_targets :: "string list \<Rightarrow> string list \<Rightarrow> string list" where
  "sorted_targets ids ts = filter (\<lambda>v. v \<in> set ts) ids"

fun release_targets :: "string list \<Rightarrow> string list \<times> (string, int) odict \<Rightarrow> string list \<times> (string, int) odict" where
  "release_targets [] st = st"
| "release_targets (v # vs) (roots, deg) =
     (let n = degree_of deg v - 1
      in release_targets vs (if n = 0 then roots @ [v] else roots, od_put v n deg))"

definition degree_sum :: "(string, int) odict \<Rightarrow> nat" where
  "degree_sum d = (\<Sum>k \<in> dom (od_get d). nat (degree_of d k))"

lemma degree_of_put [simp]: "degree_of (od_put v n d) w = (if w = v then n else degree_of d w)"
  by (simp add: degree_of_def)

lemma degree_sum_put:
  "degree_sum (od_put v n d) + nat (degree_of d v) = degree_sum d + nat n"
proof -
  let ?D = "dom (od_get d)"
  have f: "finite ?D" by (rule finite_dom_map_of)
  have dm: "dom (od_get (od_put v n d)) = insert v ?D"
    by (simp only: od_get_put dom_fun_upd option.simps if_False)
  have z: "degree_sum d = (\<Sum>k \<in> insert v ?D. nat (degree_of d k))"
    unfolding degree_sum_def by (rule sum.mono_neutral_left) (use f in \<open>auto simp: degree_of_def split: option.splits\<close>)
  have "degree_sum (od_put v n d) = (\<Sum>k \<in> insert v ?D. nat (if k = v then n else degree_of d k))"
    unfolding degree_sum_def dm by simp
  also have "\<dots> = nat n + (\<Sum>k \<in> insert v ?D - {v}. nat (degree_of d k))"
    using f by (subst sum.remove [of _ v]) (auto intro!: sum.cong)
  finally show ?thesis
    unfolding z using f sum.remove [of "insert v ?D" v "\<lambda>k. nat (degree_of d k)"] by simp
qed

lemma release_targets_measure:
  "degree_sum (snd (release_targets vs (roots, deg))) + length (fst (release_targets vs (roots, deg)))
     \<le> degree_sum deg + length roots"
proof (induction vs arbitrary: roots deg)
  case (Cons v vs)
  let ?n = "degree_of deg v - 1"
  have "degree_sum (od_put v ?n deg) + (if ?n = 0 then 1 else 0) \<le> degree_sum deg"
    using degree_sum_put [of v ?n deg] by (auto split: if_splits)
  with Cons [of "if ?n = 0 then roots @ [v] else roots" "od_put v ?n deg"] show ?case
    by (auto simp: Let_def split: if_splits)
qed simp

function kahn :: "string list \<Rightarrow> (string, string list) odict \<Rightarrow> string list \<Rightarrow> string list \<Rightarrow> (string, int) odict
    \<Rightarrow> string list" where
  "kahn ids adj [] out deg = out"
| "kahn ids adj (r # roots) out deg =
     (let st = release_targets (sorted_targets ids (targets_of adj r)) (roots, deg)
      in kahn ids adj (fst st) (out @ [r]) (snd st))"
  by pat_completeness auto
termination
proof (relation "measure (\<lambda>(ids, adj, roots, out, deg). degree_sum deg + length roots)")
  fix ids adj out deg and r :: string and roots st
  assume "st = release_targets (sorted_targets ids (targets_of adj r)) (roots, deg)"
  with release_targets_measure [of "sorted_targets ids (targets_of adj r)" roots deg]
  show "((ids, adj, fst st, out @ [r], snd st), ids, adj, r # roots, out, deg)
      \<in> measure (\<lambda>(ids, adj, roots, out, deg). degree_sum deg + length roots)" by simp
qed simp

definition topological_order :: "pipeline_spec \<Rightarrow> stage_graph \<Rightarrow> string list" where
  "topological_order p g =
     kahn (stage_ids p) (gr_adjacency g)
       (filter (\<lambda>v. degree_of (gr_indegree g) v = 0) (stage_ids p)) [] (gr_indegree g)"


section \<open>Reachable artifacts\<close>

fun reach_pass :: "stage_spec list \<Rightarrow> string list \<times> string list \<Rightarrow> string list \<times> string list" where
  "reach_pass [] st = st"
| "reach_pass (s # ss) st =
     (if sg_stage_id s \<in> set (fst st) \<or> \<not> set (sg_consumes s) \<subseteq> set (snd st) then reach_pass ss st
      else reach_pass ss (fst st @ [sg_stage_id s], snd st @ sg_produces s))"

lemma reach_pass_grows:
  "\<exists>new. fst (reach_pass ss st) = fst st @ new \<and> set new \<subseteq> sg_stage_id ` set ss \<and> set new \<inter> set (fst st) = {}"
proof (induction ss arbitrary: st)
  case (Cons s ss)
  show ?case
  proof (cases "sg_stage_id s \<in> set (fst st) \<or> \<not> set (sg_consumes s) \<subseteq> set (snd st)")
    case True
    obtain new where "fst (reach_pass ss st) = fst st @ new" "set new \<subseteq> sg_stage_id ` set ss"
        "set new \<inter> set (fst st) = {}"
      using Cons [of st] by blast
    with True show ?thesis by (intro exI [of _ new]) auto
  next
    case False
    obtain new where "fst (reach_pass ss (fst st @ [sg_stage_id s], snd st @ sg_produces s))
          = (fst st @ [sg_stage_id s]) @ new" "set new \<subseteq> sg_stage_id ` set ss"
        "set new \<inter> set (fst st @ [sg_stage_id s]) = {}"
      using Cons [of "(fst st @ [sg_stage_id s], snd st @ sg_produces s)"] by auto
    with False show ?thesis by (intro exI [of _ "sg_stage_id s # new"]) auto
  qed
qed simp

text \<open>The \<open>while made_progress\<close> loop: passes over the stages until one adds nothing.\<close>

function reach_all :: "stage_spec list \<Rightarrow> string list \<times> string list \<Rightarrow> string list \<times> string list" where
  "reach_all ss st =
     (let st' = reach_pass ss st in if fst st' = fst st then st' else reach_all ss st')"
  by pat_completeness auto
termination
proof (relation "measure (\<lambda>(ss, st). card (sg_stage_id ` set ss - set (fst st)))")
  fix ss :: "stage_spec list" and st st'
  assume st': "st' = reach_pass ss st" and ne: "fst st' \<noteq> fst st"
  obtain new where "fst st' = fst st @ new" "set new \<subseteq> sg_stage_id ` set ss" "set new \<inter> set (fst st) = {}"
    using reach_pass_grows [of ss st] st' by blast
  with ne have "sg_stage_id ` set ss - set (fst st') \<subset> sg_stage_id ` set ss - set (fst st)"
    by (cases new) auto
  then show "((ss, st'), ss, st) \<in> measure (\<lambda>(ss, st). card (sg_stage_id ` set ss - set (fst st)))"
    by (simp add: psubset_card_mono)
qed simp

declare reach_all.simps [simp del]

section \<open>Validation\<close>

record validated =
  vg_edges_by_artifact :: "(string, edge_spec list) odict"
  vg_topological_stage_ids :: "string list"

definition names_error :: "pipeline_spec \<Rightarrow> string list \<Rightarrow> py_error option" where
  "names_error p actors = first_error
     [check (sp_stages p = []) ''A streaming pipeline requires at least one stage'',
      check (\<not> distinct (map rg_name (sp_resource_groups p))) ''Streaming resource group names must be unique'',
      check (\<exists>s \<in> set (sp_stages p). case sg_resource_group s of None \<Rightarrow> False
               | Some n \<Rightarrow> n \<notin> set (map rg_name (sp_resource_groups p))) ''Unknown streaming resource groups'',
      check (\<not> distinct (stage_ids p) \<or> set actors \<noteq> set (stage_ids p))
        ''Stage IDs and actor IDs must match exactly'']"

definition connection_error :: "pipeline_spec \<Rightarrow> (string, string) odict \<Rightarrow> stage_graph \<Rightarrow> py_error option" where
  "connection_error p producers g = first_error
     (map (stage_connection_error p g) (sp_stages p)
      @ map (\<lambda>a. check (od_get producers a = None) (''Output artifact '' @ a @ '' has no producer''))
          (sp_output_artifacts p)
      @ [check (case sp_latency_anchor_artifact p of None \<Rightarrow> False | Some a \<Rightarrow> a \<notin> set (gr_external g))
           ''Latency anchor artifact is not an external input''])"

definition cycle_error :: py_error where
  "cycle_error = ValueError ''Streaming pipeline graph contains a cycle''"

definition validate :: "pipeline_spec \<Rightarrow> string list \<Rightarrow> validated res" where
  "validate p actors =
     (case names_error p actors of Some e \<Rightarrow> Inl e | None \<Rightarrow>
      case declared_producers (sp_stages p) [] of Inl e \<Rightarrow> Inl e | Inr producers \<Rightarrow>
      case add_edges p producers (sp_edges p) (empty_graph p) of Inl e \<Rightarrow> Inl e | Inr g \<Rightarrow>
      case connection_error p producers g of Some e \<Rightarrow> Inl e | None \<Rightarrow>
      let order = topological_order p g in
      if length order \<noteq> length (stage_ids p) then Inl cycle_error
      else if \<not> set (sp_output_artifacts p) \<subseteq> set (snd (reach_all (sp_stages p) ([], gr_external g))) then
        Inl (ValueError ''Unreachable output artifacts'')
      else Inr \<lparr>vg_edges_by_artifact = gr_grouped g, vg_topological_stage_ids = order\<rparr>)"

section \<open>The stage graph that the edges build\<close>

definition linked :: "stage_graph \<Rightarrow> string \<Rightarrow> string \<Rightarrow> bool" where
  "linked g u v \<longleftrightarrow> v \<in> set (targets_of (gr_adjacency g) u)"

text \<open>
  After a prefix of the edges: stages are linked exactly by the internal edges seen, once
  each, and the in-degrees count the links.
\<close>

definition graph_ok :: "pipeline_spec \<Rightarrow> edge_spec list \<Rightarrow> stage_graph \<Rightarrow> bool" where
  "graph_ok p es g \<longleftrightarrow>
     (\<forall>u v. linked g u v \<longleftrightarrow> (\<exists>e \<in> set es. eg_source_stage e = Some u \<and> eg_target_stage e = v)) \<and>
     (\<forall>u v. linked g u v \<longrightarrow> u \<in> set (stage_ids p) \<and> v \<in> set (stage_ids p)) \<and>
     (\<forall>v. degree_of (gr_indegree g) v = int (card {u. linked g u v}))"

lemma stage_of_Some: "stage_of p sid = Some s \<Longrightarrow> sg_stage_id s = sid \<and> sid \<in> set (stage_ids p) \<and> s \<in> set (sp_stages p)"
  by (auto simp: stage_of_def stage_ids_def find_Some_iff)

lemma targets_of_put [simp]: "targets_of (od_put u ts adj) w = (if w = u then ts else targets_of adj w)"
  by (simp add: targets_of_def)

lemma linked_finite: "finite {u. linked g u v}"
proof -
  have "od_get (gr_adjacency g) u \<noteq> None" if "linked g u v" for u
    using that by (cases "od_get (gr_adjacency g) u") (simp_all add: linked_def targets_of_def)
  then have "{u. linked g u v} \<subseteq> dom (od_get (gr_adjacency g))" by blast
  then show ?thesis by (rule finite_subset) (rule finite_dom_map_of)
qed

lemma link_stages_linked:
  "linked (link_stages u v g) x y \<longleftrightarrow> linked g x y \<or> (x = u \<and> y = v)"
  by (auto simp: link_stages_def linked_def)

lemma link_stages_degree:
  assumes "\<forall>w. degree_of (gr_indegree g) w = int (card {u. linked g u w})"
  shows "degree_of (gr_indegree (link_stages u v g)) w = int (card {x. linked (link_stages u v g) x w})"
proof (cases "linked g u v")
  case True
  then have "link_stages u v g = g" by (simp add: link_stages_def linked_def)
  with assms show ?thesis by simp
next
  case False
  then have "degree_of (gr_indegree (link_stages u v g)) w = degree_of (gr_indegree g) w + (if w = v then 1 else 0)"
    by (simp add: link_stages_def linked_def)
  moreover have "{x. linked (link_stages u v g) x w} = (if w = v then insert u {x. linked g x w} else {x. linked g x w})"
    by (auto simp: link_stages_linked)
  ultimately show ?thesis using assms False linked_finite [of g v] by auto
qed

lemma linked_cong: "gr_adjacency g' = gr_adjacency g \<Longrightarrow> linked g' = linked g"
  by (simp add: linked_def fun_eq_iff)

lemma add_edge_ok:
  assumes "graph_ok p es g" and "add_edge p producers e g = Inr g'"
  shows "graph_ok p (es @ [e]) g'"
proof (cases "eg_source_stage e")
  case None
  then have "gr_adjacency g' = gr_adjacency g" "gr_indegree g' = gr_indegree g"
    using assms(2) by (auto simp: add_edge_def Let_def split: if_splits)
  with assms(1) linked_cong [of g' g] None show ?thesis by (simp add: graph_ok_def)
next
  case (Some u)
  let ?v = "eg_target_stage e" and ?g1 = "g\<lparr>gr_seen := (eg_artifact e, eg_source_stage e, eg_target_stage e) # gr_seen g\<rparr>"
  have st: "stage_of p ?v \<noteq> None" "stage_of p u \<noteq> None"
    and g': "gr_adjacency g' = gr_adjacency (link_stages u ?v ?g1)" "gr_indegree g' = gr_indegree (link_stages u ?v ?g1)"
    using assms(2) Some by (auto simp: add_edge_def Let_def split: if_splits option.splits)
  have ids: "u \<in> set (stage_ids p)" "?v \<in> set (stage_ids p)" using st stage_of_Some by blast+
  have l: "linked g' x y \<longleftrightarrow> linked g x y \<or> (x = u \<and> y = ?v)" for x y
    using linked_cong [OF g'(1)] linked_cong [of ?g1 g] by (simp add: link_stages_linked)
  have d: "degree_of (gr_indegree g') w = int (card {x. linked g' x w})" for w
    using link_stages_degree [of ?g1 u ?v w] assms(1) linked_cong [OF g'(1)] linked_cong [of ?g1 g] g'(2)
    by (simp add: graph_ok_def)
  show ?thesis using assms(1) l d ids Some unfolding graph_ok_def by auto
qed

lemma add_edges_ok:
  "add_edges p producers es g = Inr g' \<Longrightarrow> graph_ok p es0 g \<Longrightarrow> graph_ok p (es0 @ es) g'"
proof (induction es arbitrary: es0 g)
  case (Cons e es)
  obtain g1 where g1: "add_edge p producers e g = Inr g1" "add_edges p producers es g1 = Inr g'"
    using Cons.prems(1) by (auto split: sum.splits)
  from Cons.IH [OF g1(2) add_edge_ok [OF Cons.prems(2) g1(1)]] show ?case by simp
qed simp

lemma empty_graph_ok: "graph_ok p [] (empty_graph p)"
proof -
  have "targets_of (gr_adjacency (empty_graph p)) u = []" for u
    by (cases "od_get (gr_adjacency (empty_graph p)) u")
      (auto simp: empty_graph_def targets_of_def dest!: map_of_SomeD)
  then have "\<not> linked (empty_graph p) u v" for u v by (simp add: linked_def)
  moreover have "degree_of (gr_indegree (empty_graph p)) v = 0" for v
    by (cases "od_get (gr_indegree (empty_graph p)) v")
      (auto simp: empty_graph_def degree_of_def dest!: map_of_SomeD)
  ultimately show ?thesis by (simp add: graph_ok_def)
qed


section \<open>Kahn's algorithm\<close>

lemma release_targets_degree:
  "distinct vs \<Longrightarrow> degree_of (snd (release_targets vs (roots, deg))) w =
     degree_of deg w - (if w \<in> set vs then 1 else 0)"
  by (induction vs arbitrary: roots deg) (auto simp: Let_def)

lemma release_targets_roots:
  "distinct vs \<Longrightarrow> fst (release_targets vs (roots, deg)) = roots @ filter (\<lambda>v. degree_of deg v = 1) vs"
proof (induction vs arbitrary: roots deg)
  case (Cons v vs)
  then have "filter (\<lambda>x. degree_of (od_put v (degree_of deg v - 1) deg) x = 1) vs = filter (\<lambda>x. degree_of deg x = 1) vs"
    by (intro filter_cong) auto
  with Cons show ?case by (simp add: Let_def)
qed simp

text \<open>Every stage of the list is preceded by all its predecessors.\<close>

definition preds_first :: "stage_graph \<Rightarrow> string list \<Rightarrow> bool" where
  "preds_first g out \<longleftrightarrow> (\<forall>xs v ys. out = xs @ v # ys \<longrightarrow> {u. linked g u v} \<subseteq> set xs)"

lemma preds_first_snoc:
  assumes "preds_first g out" and "{u. linked g u r} \<subseteq> set out"
  shows "preds_first g (out @ [r])"
  unfolding preds_first_def
proof (intro allI impI)
  fix xs v ys
  assume e: "out @ [r] = xs @ v # ys"
  show "{u. linked g u v} \<subseteq> set xs"
  proof (cases ys rule: rev_cases)
    case Nil
    with e assms(2) show ?thesis by simp
  next
    case (snoc ys' y)
    with e have "out = xs @ v # ys'" by simp
    with assms(1) show ?thesis unfolding preds_first_def by blast
  qed
qed

text \<open>The loop invariant: the degree of a stage counts its predecessors not yet put out.\<close>

definition kahn_inv :: "string list \<Rightarrow> stage_graph \<Rightarrow> string list \<Rightarrow> string list \<Rightarrow> (string, int) odict \<Rightarrow> bool" where
  "kahn_inv ids g roots out deg \<longleftrightarrow>
     distinct (out @ roots) \<and> set (out @ roots) \<subseteq> set ids \<and> preds_first g out \<and>
     (\<forall>v \<in> set ids. degree_of deg v = int (card {u. linked g u v \<and> u \<notin> set out})) \<and>
     (\<forall>v \<in> set ids. v \<in> set (out @ roots) \<longleftrightarrow> degree_of deg v = 0)"

lemma open_preds_finite: "finite {u. linked g u v \<and> u \<notin> X}"
  by (rule finite_subset [OF _ linked_finite [of g v]]) auto

lemma kahn_round:
  assumes inv: "kahn_inv ids g (r # roots) out deg" and ids: "distinct ids"
    and "\<And>u v. linked g u v \<Longrightarrow> v \<in> set ids"
  defines "st \<equiv> release_targets (sorted_targets ids (targets_of (gr_adjacency g) r)) (roots, deg)"
  shows "kahn_inv ids g (fst st) (out @ [r]) (snd st)"
proof -
  let ?T = "sorted_targets ids (targets_of (gr_adjacency g) r)"
  have T: "distinct ?T" using ids by (simp add: sorted_targets_def)
  have inT: "v \<in> set ?T \<longleftrightarrow> linked g r v" for v
    using assms(3) [of r v] by (auto simp: sorted_targets_def linked_def)
  have dist: "distinct (out @ r # roots)" and sub: "set (out @ r # roots) \<subseteq> set ids"
    and pf: "preds_first g out"
    and deg: "\<And>v. v \<in> set ids \<Longrightarrow> degree_of deg v = int (card {u. linked g u v \<and> u \<notin> set out})"
    and iff: "\<And>v. v \<in> set ids \<Longrightarrow> v \<in> set (out @ r # roots) \<longleftrightarrow> degree_of deg v = 0"
    using inv unfolding kahn_inv_def by blast+
  have r: "r \<in> set ids" "r \<notin> set out" using sub dist by (simp_all)
  have "card {u. linked g u r \<and> u \<notin> set out} = 0" using iff [OF r(1)] deg [OF r(1)] by simp
  then have pr: "{u. linked g u r} \<subseteq> set out" using open_preds_finite [of g r "set out"] by auto
  have deg': "degree_of (snd st) v = int (card {u. linked g u v \<and> u \<notin> set (out @ [r])})"
    if "v \<in> set ids" for v
  proof (cases "linked g r v")
    case True
    then have "{u. linked g u v \<and> u \<notin> set (out @ [r])} = {u. linked g u v \<and> u \<notin> set out} - {r}"
      "r \<in> {u. linked g u v \<and> u \<notin> set out}" using r by auto
    then have "card {u. linked g u v \<and> u \<notin> set out} = Suc (card {u. linked g u v \<and> u \<notin> set (out @ [r])})"
      by (simp only: card.remove [OF open_preds_finite])
    with deg [OF that] True show ?thesis
      unfolding st_def release_targets_degree [OF T] by (simp add: inT)
  next
    case False
    then have "{u. linked g u v \<and> u \<notin> set (out @ [r])} = {u. linked g u v \<and> u \<notin> set out}" by auto
    with deg [OF that] False show ?thesis
      unfolding st_def release_targets_degree [OF T] by (simp add: inT)
  qed
  have roots': "fst st = roots @ filter (\<lambda>v. degree_of deg v = 1) ?T"
    unfolding st_def by (rule release_targets_roots [OF T])
  have new: "v \<notin> set (out @ r # roots)" if "v \<in> set ?T" "degree_of deg v = 1" for v
    using that iff [of v] assms(3) [of r v] inT by auto
  have "distinct ((out @ [r]) @ fst st)"
    unfolding roots' using dist T new by auto
  moreover have "set ((out @ [r]) @ fst st) \<subseteq> set ids"
    unfolding roots' using sub assms(3) inT by auto
  moreover have "v \<in> set ((out @ [r]) @ fst st) \<longleftrightarrow> degree_of (snd st) v = 0" if v: "v \<in> set ids" for v
  proof -
    have "degree_of (snd st) v = degree_of deg v - (if v \<in> set ?T then 1 else 0)"
      unfolding st_def by (rule release_targets_degree [OF T])
    moreover have "degree_of deg v \<noteq> 0" if "v \<in> set ?T"
    proof -
      have "linked g r v" using that inT by simp
      then have "r \<in> {u. linked g u v \<and> u \<notin> set out}" using r(2) by simp
      then have "card {u. linked g u v \<and> u \<notin> set out} \<noteq> 0"
        unfolding card_0_eq [OF open_preds_finite] by blast
      with deg [OF v] show ?thesis by simp
    qed
    ultimately show ?thesis unfolding roots' using iff [OF v] by auto
  qed
  ultimately show ?thesis
    unfolding kahn_inv_def using preds_first_snoc [OF pf pr] deg' by blast
qed

lemma kahn_result:
  "kahn_inv ids g roots out deg \<Longrightarrow> distinct ids \<Longrightarrow> (\<And>u v. linked g u v \<Longrightarrow> v \<in> set ids) \<Longrightarrow>
     \<exists>deg'. kahn_inv ids g [] (kahn ids (gr_adjacency g) roots out deg) deg'"
proof (induction ids "gr_adjacency g" roots out deg rule: kahn.induct)
  case (1 ids out deg)
  then show ?case by auto
next
  case (2 ids r roots out deg)
  let ?st = "release_targets (sorted_targets ids (targets_of (gr_adjacency g) r)) (roots, deg)"
  have "kahn_inv ids g (fst ?st) (out @ [r]) (snd ?st)" by (rule kahn_round [OF 2(2-4)])
  from 2(1) [OF refl this 2(3,4)] show ?case by (simp add: Let_def)
qed

text \<open>A set of stages each of which waits for another one of the set.\<close>

definition deadlocked :: "pipeline_spec \<Rightarrow> string set \<Rightarrow> bool" where
  "deadlocked p C \<longleftrightarrow>
     C \<noteq> {} \<and> C \<subseteq> set (stage_ids p) \<and>
     (\<forall>v \<in> C. \<exists>e \<in> set (sp_edges p). eg_target_stage e = v \<and> (\<exists>u \<in> C. eg_source_stage e = Some u))"

lemma topological_order_cases:
  assumes "distinct (stage_ids p)" and "add_edges p producers (sp_edges p) (empty_graph p) = Inr g"
  shows "distinct (topological_order p g) \<and> set (topological_order p g) \<subseteq> set (stage_ids p) \<and>
    preds_first g (topological_order p g) \<and>
    (length (topological_order p g) = length (stage_ids p) \<longleftrightarrow> \<not> (\<exists>C. deadlocked p C))"
proof -
  let ?ids = "stage_ids p" and ?out = "topological_order p g"
  have G: "graph_ok p (sp_edges p) g" using add_edges_ok [OF assms(2) empty_graph_ok] by simp
  have L: "linked g u v \<Longrightarrow> v \<in> set ?ids" for u v using G by (auto simp: graph_ok_def)
  have deg: "degree_of (gr_indegree g) v = int (card {u. linked g u v})" for v using G by (simp add: graph_ok_def)
  have "kahn_inv ?ids g (filter (\<lambda>v. degree_of (gr_indegree g) v = 0) ?ids) [] (gr_indegree g)"
    using assms(1) deg by (auto simp: kahn_inv_def preds_first_def)
  then have "\<exists>deg'. kahn_inv ?ids g [] ?out deg'"
    unfolding topological_order_def by (rule kahn_result) (use assms(1) L in blast)+
  then obtain deg' where k: "kahn_inv ?ids g [] ?out deg'" by blast
  have d: "distinct ?out" and sub: "set ?out \<subseteq> set ?ids" and pf: "preds_first g ?out"
    using k by (auto simp: kahn_inv_def)
  have left: "\<exists>u. linked g u v \<and> u \<notin> set ?out" if "v \<in> set ?ids" "v \<notin> set ?out" for v
  proof -
    have "card {u. linked g u v \<and> u \<notin> set ?out} \<noteq> 0" using k that by (auto simp: kahn_inv_def)
    then show ?thesis by (metis (mono_tags, lifting) Collect_empty_eq card.empty)
  qed
  have "deadlocked p (set ?ids - set ?out)" if "set ?ids - set ?out \<noteq> {}"
    unfolding deadlocked_def
  proof (intro conjI ballI that)
    fix v
    assume "v \<in> set ?ids - set ?out"
    then obtain u where "linked g u v" "u \<notin> set ?out" using left by blast
    with G show "\<exists>e \<in> set (sp_edges p). eg_target_stage e = v \<and> (\<exists>u \<in> set ?ids - set ?out. eg_source_stage e = Some u)"
      unfolding graph_ok_def by blast
  qed auto
  moreover have "\<not> deadlocked p C" if full: "set ?out = set ?ids" for C
  proof
    assume C: "deadlocked p C"
    have "set xs \<inter> C = {}" if "\<exists>ys. ?out = xs @ ys" for xs
      using that
    proof (induction xs rule: rev_induct)
      case (snoc v xs)
      then obtain ys where ys: "?out = xs @ v # ys" by auto
      with snoc.IH have "set xs \<inter> C = {}" by blast
      moreover have "v \<notin> C"
      proof
        assume "v \<in> C"
        then obtain u where "u \<in> C" "linked g u v" using C G unfolding deadlocked_def graph_ok_def by blast
        moreover have "{u. linked g u v} \<subseteq> set xs" using pf ys unfolding preds_first_def by blast
        ultimately show False using \<open>set xs \<inter> C = {}\<close> by blast
      qed
      ultimately show ?case by auto
    qed simp
    then have "set ?out \<inter> C = {}" by (metis append_Nil2)
    with C full show False by (auto simp: deadlocked_def)
  qed
  moreover have "length ?out = length ?ids \<longleftrightarrow> set ?out = set ?ids"
    using d sub assms(1) by (metis card_subset_eq distinct_card List.finite_set)
  ultimately show ?thesis using d sub pf by blast
qed

definition precedes :: "string list \<Rightarrow> string \<Rightarrow> string \<Rightarrow> bool" where
  "precedes order u v \<longleftrightarrow> (\<exists>xs ys. order = xs @ v # ys \<and> u \<in> set xs)"

lemma not_cycle_error:
  "names_error p actors \<noteq> Some cycle_error"
  "connection_error p producers g \<noteq> Some cycle_error"
proof -
  have "first_error cs = Some e \<Longrightarrow> Some e \<in> set cs" for cs e
    by (induction cs rule: first_error.induct) auto
  note M = this
  show "names_error p actors \<noteq> Some cycle_error"
    by (auto simp: names_error_def check_def cycle_error_def dest!: M)
  have "stage_connection_error p g s \<noteq> Some cycle_error" for s
    by (auto simp: stage_connection_error_def check_def cycle_error_def dest!: M)
  then show "connection_error p producers g \<noteq> Some cycle_error"
    unfolding connection_error_def
    by (auto simp: check_def cycle_error_def dest!: M) (metis+)
qed

lemma not_cycle_error2:
  "declared_producers ss d \<noteq> Inl cycle_error" "add_edges p producers es g \<noteq> Inl cycle_error"
proof -
  have "add_producers sid as d \<noteq> Inl cycle_error" for sid as d
    by (induction sid as d rule: add_producers.induct) (auto simp: cycle_error_def split: option.splits)
  then show "declared_producers ss d \<noteq> Inl cycle_error"
    by (induction ss d rule: declared_producers.induct) (auto split: sum.splits)
  have "add_edge p producers e g \<noteq> Inl cycle_error" for e g
    by (auto simp: add_edge_def Let_def cycle_error_def split: option.splits if_splits)
  then show "add_edges p producers es g \<noteq> Inl cycle_error"
    by (induction p producers es g rule: add_edges.induct) (auto split: sum.splits)
qed

lemma validate_InrD:
  assumes "validate p actors = Inr v"
  obtains producers g where "distinct (stage_ids p)" "set actors = set (stage_ids p)"
    "declared_producers (sp_stages p) [] = Inr producers"
    "add_edges p producers (sp_edges p) (empty_graph p) = Inr g"
    "connection_error p producers g = None"
    "length (topological_order p g) = length (stage_ids p)"
    "v = \<lparr>vg_edges_by_artifact = gr_grouped g, vg_topological_stage_ids = topological_order p g\<rparr>"
proof -
  have "names_error p actors = None" using assms by (cases "names_error p actors") (simp_all add: validate_def)
  then have "distinct (stage_ids p)" "set actors = set (stage_ids p)"
    by (auto simp: names_error_def check_def split: if_splits)
  with assms that \<open>names_error p actors = None\<close> show thesis
    by (auto simp: validate_def Let_def split: sum.splits option.splits if_splits)
qed

lemma validate_cycleD:
  assumes "validate p actors = Inl cycle_error"
  obtains producers g where "distinct (stage_ids p)"
    "add_edges p producers (sp_edges p) (empty_graph p) = Inr g"
    "length (topological_order p g) \<noteq> length (stage_ids p)"
proof -
  have n: "names_error p actors = None"
    using assms not_cycle_error(1) [of p actors] by (cases "names_error p actors") (simp_all add: validate_def)
  then have "distinct (stage_ids p)" by (auto simp: names_error_def check_def split: if_splits)
  moreover obtain producers where pr: "declared_producers (sp_stages p) [] = Inr producers"
    using assms n not_cycle_error2(1) [of "sp_stages p" "[]"]
    by (cases "declared_producers (sp_stages p) []") (simp_all add: validate_def)
  moreover obtain g where g: "add_edges p producers (sp_edges p) (empty_graph p) = Inr g"
    using assms n pr not_cycle_error2(2) [of p producers "sp_edges p" "empty_graph p"]
    by (cases "add_edges p producers (sp_edges p) (empty_graph p)") (simp_all add: validate_def)
  moreover have c: "connection_error p producers g = None"
    using assms n pr g not_cycle_error(2) [of p producers g]
    by (cases "connection_error p producers g") (simp_all add: validate_def)
  moreover have "length (topological_order p g) \<noteq> length (stage_ids p)"
    using assms n pr g c by (auto simp: validate_def Let_def cycle_error_def split: if_splits)
  ultimately show thesis using that by blast
qed

text \<open>C26: The validation computes a topological order and detects exactly the cycles. When
  \<open>_validate\<close> accepts a specification, the stage identifiers it stores are a permutation of
  the declared stages in which the source of every internal edge stands before its target, and
  no set of stages waits for itself; when it reports a cycle, such a set of stages exists.\<close>

theorem validate_orders_stages:
  "(validate p actors = Inr v \<longrightarrow>
      mset (vg_topological_stage_ids v) = mset (stage_ids p) \<and> distinct (vg_topological_stage_ids v) \<and>
      (\<forall>e \<in> set (sp_edges p). \<forall>u. eg_source_stage e = Some u \<longrightarrow>
         precedes (vg_topological_stage_ids v) u (eg_target_stage e)) \<and>
      \<not> (\<exists>C. deadlocked p C)) \<and>
   (validate p actors = Inl cycle_error \<longrightarrow> (\<exists>C. deadlocked p C))"
proof (intro conjI impI)
  assume "validate p actors = Inr v"
  then obtain producers g where d: "distinct (stage_ids p)"
    and g: "add_edges p producers (sp_edges p) (empty_graph p) = Inr g"
    and len: "length (topological_order p g) = length (stage_ids p)"
    and v: "vg_topological_stage_ids v = topological_order p g"
    by (elim validate_InrD) auto
  note T = topological_order_cases [OF d g]
  have G: "graph_ok p (sp_edges p) g" using add_edges_ok [OF g empty_graph_ok] by simp
  have s: "set (topological_order p g) = set (stage_ids p)"
    using T len d by (metis List.finite_set card_subset_eq distinct_card)
  show "mset (vg_topological_stage_ids v) = mset (stage_ids p)"
    using T s d v by (simp add: set_eq_iff_mset_eq_distinct)
  show "distinct (vg_topological_stage_ids v)" using T v by simp
  show "\<nexists>C. deadlocked p C" using T len by blast
  show "\<forall>e \<in> set (sp_edges p). \<forall>u. eg_source_stage e = Some u \<longrightarrow>
      precedes (vg_topological_stage_ids v) u (eg_target_stage e)"
  proof (intro ballI allI impI)
    fix e u
    assume "e \<in> set (sp_edges p)" "eg_source_stage e = Some u"
    then have l: "linked g u (eg_target_stage e)" using G unfolding graph_ok_def by blast
    then have "eg_target_stage e \<in> set (topological_order p g)" using G s unfolding graph_ok_def by blast
    then obtain xs ys where o: "topological_order p g = xs @ eg_target_stage e # ys" by (meson split_list)
    with T l have "u \<in> set xs" unfolding preds_first_def by blast
    with o show "precedes (vg_topological_stage_ids v) u (eg_target_stage e)"
      unfolding precedes_def v by blast
  qed
next
  assume "validate p actors = Inl cycle_error"
  then show "\<exists>C. deadlocked p C"
    by (elim validate_cycleD) (use topological_order_cases in blast)
qed

definition demo_stage :: "string \<Rightarrow> string list \<Rightarrow> string list \<Rightarrow> stage_spec" where
  "demo_stage sid ins outs =
     \<lparr>sg_stage_id = sid, sg_consumes = ins, sg_produces = outs, sg_ordering = PER_SESSION_STRICT,
      sg_max_in_flight_per_session = 1, sg_max_in_flight_global = 2, sg_resource_group = None\<rparr>"

definition demo_edge :: "string \<Rightarrow> string option \<Rightarrow> string \<Rightarrow> edge_spec" where
  "demo_edge a src tgt =
     \<lparr>eg_artifact = a, eg_target_stage = tgt, eg_source_stage = src, eg_capacity_per_session = 2\<rparr>"

definition demo_pipeline :: "edge_spec list \<Rightarrow> pipeline_spec" where
  "demo_pipeline es =
     \<lparr>sp_stages = [demo_stage ''dec'' [''z''] [''y''], demo_stage ''den'' [''x''] [''z'']],
      sp_edges = es, sp_output_artifacts = [''y''], sp_output_capacity_per_session = 1,
      sp_resource_groups = [], sp_latency_anchor_artifact = None\<rparr>"

definition demo_loop :: pipeline_spec where
  "demo_loop =
     (demo_pipeline [demo_edge ''z'' (Some ''den'') ''dec'', demo_edge ''y'' (Some ''dec'') ''den''])
       \<lparr>sp_stages := [demo_stage ''dec'' [''z''] [''y''], demo_stage ''den'' [''y''] [''z'']]\<rparr>"

lemma validate_orders_stages_witness:
  "(\<exists>C. deadlocked demo_loop C) \<and> (\<exists>v. validate (demo_pipeline [demo_edge ''z'' (Some ''den'') ''dec'', demo_edge ''x'' None ''den'']) [''den'', ''dec''] = Inr v \<and>
     precedes (vg_topological_stage_ids v) ''den'' ''dec'')"
proof -
  have "(case validate demo_loop [''den'', ''dec''] of Inl e \<Rightarrow> e = cycle_error | Inr v \<Rightarrow> False)" by code_simp
  then have "validate demo_loop [''den'', ''dec''] = Inl cycle_error" by (simp split: sum.splits)
  then have c: "\<exists>C. deadlocked demo_loop C" using validate_orders_stages by blast
  let ?p = "demo_pipeline [demo_edge ''z'' (Some ''den'') ''dec'', demo_edge ''x'' None ''den'']"
  have "isl (validate ?p [''den'', ''dec'']) = False" by code_simp
  then obtain v where v: "validate ?p [''den'', ''dec''] = Inr v" by (cases "validate ?p [''den'', ''dec'']") auto
  have "demo_edge ''z'' (Some ''den'') ''dec'' \<in> set (sp_edges ?p)" by (simp add: demo_pipeline_def)
  with validate_orders_stages [of ?p "[''den'', ''dec'']" v] v
  have "precedes (vg_topological_stage_ids v) ''den'' ''dec''" by (fastforce simp: demo_edge_def)
  with v c show ?thesis by blast
qed

end
