(* ===== verification/Stream_Run.thy ===== *)
theory Stream_Run
  imports Stream_Spec
begin

text \<open>
  The run-time of the streaming pipeline orchestrator
  (\<open>telefuser/orchestrator/streaming_pipeline_orchestrator.py\<close>): sessions, bounded artifact
  slots, admission of stage invocations, completions, ordered emission and session cleanup.
  Every operation runs under the orchestrator's lock and is a function on its state.

  The stage actors are not part of the class: their replies to \<open>health\<close> and \<open>submit\<close> are an
  argument, indexed by the number of actor calls made so far, and the completion of an
  accepted invocation is an event of its own (an actor answers from its own thread). The
  request identifier (a fresh UUID in the code) is the number of the \<open>submit\<close> call. An
  operation reads the clock once; its reading is an argument. Artifacts are values of an
  arbitrary type.
\<close>

section \<open>State\<close>

datatype session_status = SESSION_RUNNING | SESSION_CANCELLED | SESSION_FAILED | SESSION_CLOSED

datatype close_reason = REASON_CANCELLED | REASON_FAILED | REASON_CLOSED | REASON_SHUTDOWN

datatype actor_state = ACTOR_RUNNING | ACTOR_FAILED | ACTOR_CLOSED

record task_key =
  tk_session_id :: string
  tk_session_epoch :: int
  tk_sequence_id :: int
  tk_stage_id :: string
  tk_request_id :: nat

record stage_timing =
  tm_stage_id :: string
  tm_sequence_id :: int
  tm_inputs_ready_at :: "rat option"
  tm_admitted_at :: "rat option"
  tm_completed_at :: "rat option"

record 'v artifact_slot =
  sl_value :: 'v
  sl_remaining :: "string set"

record 'v invocation =
  iv_key :: task_key
  iv_inputs :: "(string \<times> 'v) list"
  iv_is_first :: bool
  iv_is_last :: bool

text \<open>The last field is the log of the invocations of the session that an actor accepted.\<close>

record 'v session_runtime =
  rt_session_id :: string
  rt_epoch :: int
  rt_final :: "int option"
  rt_status :: session_status
  rt_frontiers :: "(string, int) odict"
  rt_artifacts :: "(int \<times> string, 'v artifact_slot) odict"
  rt_in_flight :: "(string \<times> int, task_key) odict"
  rt_outputs :: "(int \<times> string \<times> 'v) list"
  rt_pending :: "(int \<times> string, 'v) odict"
  rt_next_emit :: int
  rt_timings :: "(string \<times> int, stage_timing) odict"
  rt_ingress :: "(int, rat) odict"
  rt_emitted :: "(int, rat) odict"
  rt_missing :: "(string \<times> int, string list) odict"
  rt_blocking :: "(string \<times> int, string) odict"
  rt_cleaned :: "string list"
  rt_cleanup_scheduled :: bool
  rt_cleanup_complete :: bool
  rt_error :: "py_error option"
  rt_cleanup_error :: "py_error option"
  rt_accepted :: "'v invocation list"

record 'v orchestrator =
  or_sessions :: "(string, 'v session_runtime) odict"
  or_session_order :: "string list"
  or_epoch :: int
  or_closed :: bool
  or_recent_keys :: "task_key list"
  or_stale_epoch_results :: nat
  or_orphaned_results :: nat
  or_duplicate_results :: nat
  or_cleanup_failures :: nat
  or_slot_leaks :: nat
  or_cleanup_queue :: "(string \<times> int) list"
  or_calls :: nat

text \<open>A validated specification, as the constructor keeps it.\<close>

record config =
  cf_spec :: pipeline_spec
  cf_valid :: validated

definition new_orchestrator :: "'v orchestrator" where
  "new_orchestrator =
     \<lparr>or_sessions = [], or_session_order = [], or_epoch = 0, or_closed = False, or_recent_keys = [],
      or_stale_epoch_results = 0, or_orphaned_results = 0, or_duplicate_results = 0,
      or_cleanup_failures = 0, or_slot_leaks = 0, or_cleanup_queue = [], or_calls = 0\<rparr>"

definition build :: "pipeline_spec \<Rightarrow> string list \<Rightarrow> config res" where
  "build p actors = (case validate p actors of Inl e \<Rightarrow> Inl e | Inr v \<Rightarrow> Inr \<lparr>cf_spec = p, cf_valid = v\<rparr>)"

definition artifact_edges :: "config \<Rightarrow> string \<Rightarrow> edge_spec list" where
  "artifact_edges c a = edges_of (vg_edges_by_artifact (cf_valid c)) a"

definition upd_runtime ::
    "string \<Rightarrow> ('v session_runtime \<Rightarrow> 'v session_runtime) \<Rightarrow> 'v orchestrator \<Rightarrow> 'v orchestrator" where
  "upd_runtime sid f s =
     (case od_get (or_sessions s) sid of
        None \<Rightarrow> s
      | Some rt \<Rightarrow> s\<lparr>or_sessions := od_put sid (f rt) (or_sessions s)\<rparr>)"

section \<open>Actor replies\<close>

datatype health_reply =
    NoHealthMethod
  | HealthRaises string
  | Health actor_state "string option"

datatype submit_reply = Accepted | Busy | SubmitRaises py_error

record actor_env =
  ae_health :: "nat \<Rightarrow> string \<Rightarrow> health_reply"
  ae_submit :: "nat \<Rightarrow> string \<Rightarrow> submit_reply"

definition actor_state_value :: "actor_state \<Rightarrow> string" where
  "actor_state_value st = (case st of ACTOR_RUNNING \<Rightarrow> ''running'' | ACTOR_FAILED \<Rightarrow> ''failed'' | ACTOR_CLOSED \<Rightarrow> ''closed'')"

text \<open>\<open>_actor_failure\<close>: the error that an unhealthy actor causes, if any. StreamingActorFailedError
  is a RuntimeError.\<close>

definition health_error :: "health_reply \<Rightarrow> string \<Rightarrow> py_error option" where
  "health_error h sid =
     (case h of
        NoHealthMethod \<Rightarrow> None
      | HealthRaises m \<Rightarrow> Some (RuntimeError (''Streaming stage actor '' @ sid @ '' health check failed: '' @ m))
      | Health st reason \<Rightarrow>
          if st = ACTOR_RUNNING then None
          else Some (RuntimeError (''Streaming stage actor '' @ sid @ '' is '' @ actor_state_value st @
                 (case reason of None \<Rightarrow> [] | Some r \<Rightarrow> if r = [] then [] else '': '' @ r))))"

definition actor_failure :: "actor_env \<Rightarrow> string \<Rightarrow> 'v orchestrator \<Rightarrow> py_error option \<times> 'v orchestrator" where
  "actor_failure env sid s = (health_error (ae_health env (or_calls s) sid) sid, s\<lparr>or_calls := or_calls s + 1\<rparr>)"

section \<open>Counting\<close>

definition tally :: "('k \<times> 'w \<Rightarrow> bool) \<Rightarrow> ('k, 'w) odict \<Rightarrow> nat" where
  "tally P d = length (filter P d)"

definition edge_occupancy :: "'v session_runtime \<Rightarrow> edge_spec \<Rightarrow> nat" where
  "edge_occupancy rt e =
     tally (\<lambda>((q, a), sl). a = eg_artifact e \<and> eg_target_stage e \<in> sl_remaining sl) (rt_artifacts rt)"

definition produces_artifact :: "config \<Rightarrow> string \<Rightarrow> string \<Rightarrow> bool" where
  "produces_artifact c sid a = (case stage_of (cf_spec c) sid of None \<Rightarrow> False | Some s \<Rightarrow> a \<in> set (sg_produces s))"

definition reserved_count :: "config \<Rightarrow> 'v session_runtime \<Rightarrow> string \<Rightarrow> nat" where
  "reserved_count c rt a = tally (\<lambda>((sid, q), k). produces_artifact c sid a) (rt_in_flight rt)"

definition output_occupancy :: "'v session_runtime \<Rightarrow> string \<Rightarrow> nat" where
  "output_occupancy rt a =
     length (filter (\<lambda>(q, b, v). b = a) (rt_outputs rt)) + tally (\<lambda>((q, b), v). b = a) (rt_pending rt)"

definition session_stage_count :: "'v session_runtime \<Rightarrow> string \<Rightarrow> nat" where
  "session_stage_count rt sid = tally (\<lambda>((st, q), k). st = sid) (rt_in_flight rt)"

definition stage_in_flight_count :: "'v orchestrator \<Rightarrow> string \<Rightarrow> nat" where
  "stage_in_flight_count s sid = sum_list (map (\<lambda>rt. session_stage_count rt sid) (od_vals (or_sessions s)))"

definition in_group :: "config \<Rightarrow> string \<Rightarrow> string \<Rightarrow> bool" where
  "in_group c sid g = (case stage_of (cf_spec c) sid of None \<Rightarrow> False | Some st \<Rightarrow> sg_resource_group st = Some g)"

definition session_group_count :: "config \<Rightarrow> 'v session_runtime \<Rightarrow> string \<Rightarrow> nat" where
  "session_group_count c rt g = tally (\<lambda>((st, q), k). in_group c st g) (rt_in_flight rt)"

definition group_in_flight_count :: "config \<Rightarrow> 'v orchestrator \<Rightarrow> string \<Rightarrow> nat" where
  "group_in_flight_count c s g = sum_list (map (\<lambda>rt. session_group_count c rt g) (od_vals (or_sessions s)))"

definition group_of :: "pipeline_spec \<Rightarrow> string \<Rightarrow> resource_group_spec option" where
  "group_of p g = find (\<lambda>r. rg_name r = g) (sp_resource_groups p)"

text \<open>A group that the specification does not declare raises KeyError in the code; validation
  excludes it, and here it has no room.\<close>

definition group_room :: "config \<Rightarrow> 'v orchestrator \<Rightarrow> string \<Rightarrow> bool" where
  "group_room c s g =
     (case group_of (cf_spec c) g of
        None \<Rightarrow> False
      | Some r \<Rightarrow> int (group_in_flight_count c s g) < rg_max_concurrency r)"

definition has_execution_capacity :: "config \<Rightarrow> 'v orchestrator \<Rightarrow> stage_spec \<Rightarrow> bool" where
  "has_execution_capacity c s st =
     (if int (stage_in_flight_count s (sg_stage_id st)) \<ge> sg_max_in_flight_global st then False
      else case sg_resource_group st of None \<Rightarrow> True | Some g \<Rightarrow> group_room c s g)"

definition resource_group_is_full :: "config \<Rightarrow> 'v orchestrator \<Rightarrow> stage_spec \<Rightarrow> bool" where
  "resource_group_is_full c s st = (case sg_resource_group st of None \<Rightarrow> False | Some g \<Rightarrow> \<not> group_room c s g)"

definition has_output_capacity :: "config \<Rightarrow> 'v session_runtime \<Rightarrow> stage_spec \<Rightarrow> bool" where
  "has_output_capacity c rt st \<longleftrightarrow>
     (\<forall>a \<in> set (sg_produces st). \<forall>e \<in> set (artifact_edges c a).
        eg_source_stage e = Some (sg_stage_id st) \<longrightarrow>
        int (edge_occupancy rt e + reserved_count c rt (eg_artifact e)) < eg_capacity_per_session e) \<and>
     (\<forall>a \<in> set (sg_produces st). a \<in> set (sp_output_artifacts (cf_spec c)) \<longrightarrow>
        int (output_occupancy rt a + reserved_count c rt a) < sp_output_capacity_per_session (cf_spec c))"

section \<open>Which sequence a stage can run\<close>

definition waits_for :: "'v session_runtime \<Rightarrow> int \<Rightarrow> string \<Rightarrow> string \<Rightarrow> bool" where
  "waits_for rt q a sid =
     (case od_get (rt_artifacts rt) (q, a) of None \<Rightarrow> False | Some sl \<Rightarrow> sid \<in> sl_remaining sl)"

definition inputs_ready :: "'v session_runtime \<Rightarrow> stage_spec \<Rightarrow> int \<Rightarrow> bool" where
  "inputs_ready rt st q \<longleftrightarrow> (\<forall>a \<in> set (sg_consumes st). waits_for rt q a (sg_stage_id st))"

definition sequence_ids :: "'v session_runtime \<Rightarrow> int list" where
  "sequence_ids rt = sort (remdups (map fst (od_keys (rt_artifacts rt))))"

definition frontier_of :: "'v session_runtime \<Rightarrow> string \<Rightarrow> int" where
  "frontier_of rt sid = (case od_get (rt_frontiers rt) sid of None \<Rightarrow> 0 | Some q \<Rightarrow> q)"

definition runnable_sequence :: "'v session_runtime \<Rightarrow> stage_spec \<Rightarrow> int option" where
  "runnable_sequence rt st =
     (if int (session_stage_count rt (sg_stage_id st)) \<ge> sg_max_in_flight_per_session st then None
      else find (\<lambda>q. od_get (rt_in_flight rt) (sg_stage_id st, q) = None \<and> inputs_ready rt st q)
             (if sg_ordering st = PER_SESSION_STRICT then [frontier_of rt (sg_stage_id st)] else sequence_ids rt))"

definition has_admissible_task :: "config \<Rightarrow> 'v orchestrator \<Rightarrow> 'v session_runtime \<Rightarrow> bool" where
  "has_admissible_task c s rt \<longleftrightarrow>
     (\<exists>st \<in> set (sp_stages (cf_spec c)).
        runnable_sequence rt st \<noteq> None \<and> has_execution_capacity c s st \<and> has_output_capacity c rt st)"

section \<open>Taking and restoring inputs\<close>

type_synonym 'v slots = "(int \<times> string, 'v artifact_slot) odict"

fun take_inputs :: "string \<Rightarrow> int \<Rightarrow> string list \<Rightarrow> 'v slots \<Rightarrow> (string \<times> 'v) list \<times> 'v slots" where
  "take_inputs sid q [] d = ([], d)"
| "take_inputs sid q (a # as) d =
     (case od_get d (q, a) of
        None \<Rightarrow> take_inputs sid q as d
      | Some sl \<Rightarrow>
          let sl' = sl\<lparr>sl_remaining := sl_remaining sl - {sid}\<rparr>;
              d' = (if sl_remaining sl' = {} then od_del (q, a) d else od_put (q, a) sl' d);
              r = take_inputs sid q as d'
          in ((a, sl_value sl) # fst r, snd r))"

fun restore_inputs :: "string \<Rightarrow> int \<Rightarrow> (string \<times> 'v) list \<Rightarrow> 'v slots \<Rightarrow> 'v slots" where
  "restore_inputs sid q [] d = d"
| "restore_inputs sid q ((a, v) # ins) d =
     restore_inputs sid q ins
       (case od_get d (q, a) of
          None \<Rightarrow> od_put (q, a) \<lparr>sl_value = v, sl_remaining = {sid}\<rparr> d
        | Some sl \<Rightarrow> od_put (q, a) (sl\<lparr>sl_remaining := insert sid (sl_remaining sl)\<rparr>) d)"

section \<open>Failing sessions\<close>

definition discard_buffered :: "'v session_runtime \<Rightarrow> 'v session_runtime" where
  "discard_buffered rt = rt\<lparr>rt_artifacts := [], rt_outputs := [], rt_pending := []\<rparr>"

definition schedule_failed_cleanup :: "string \<Rightarrow> 'v orchestrator \<Rightarrow> 'v orchestrator" where
  "schedule_failed_cleanup sid s =
     (case od_get (or_sessions s) sid of
        None \<Rightarrow> s
      | Some rt \<Rightarrow>
          if rt_status rt \<noteq> SESSION_FAILED \<or> rt_in_flight rt \<noteq> [] \<or> rt_cleanup_scheduled rt then s
          else (upd_runtime sid (\<lambda>r. r\<lparr>rt_cleanup_scheduled := True\<rparr>) s)
                 \<lparr>or_cleanup_queue := or_cleanup_queue s @ [(sid, rt_epoch rt)]\<rparr>)"

definition fail_runtime :: "string \<Rightarrow> py_error \<Rightarrow> 'v orchestrator \<Rightarrow> 'v orchestrator" where
  "fail_runtime sid err s =
     (case od_get (or_sessions s) sid of
        None \<Rightarrow> s
      | Some rt \<Rightarrow>
          if rt_status rt \<noteq> SESSION_RUNNING then s
          else schedule_failed_cleanup sid
                 (upd_runtime sid (\<lambda>r. discard_buffered (r\<lparr>rt_status := SESSION_FAILED, rt_error := Some err\<rparr>)) s))"

fun fail_sessions ::
    "string list \<Rightarrow> py_error \<Rightarrow> (string \<times> py_error) option \<Rightarrow> 'v orchestrator \<Rightarrow> 'v orchestrator" where
  "fail_sessions [] err origin s = s"
| "fail_sessions (sid # sids) err origin s =
     fail_sessions sids err origin
       (fail_runtime sid (case origin of Some (o_sid, e) \<Rightarrow> if o_sid = sid then e else err | None \<Rightarrow> err) s)"

definition fail_all_sessions :: "py_error \<Rightarrow> (string \<times> py_error) option \<Rightarrow> 'v orchestrator \<Rightarrow> 'v orchestrator" where
  "fail_all_sessions err origin s = fail_sessions (od_keys (or_sessions s)) err origin s"

section \<open>Timings\<close>

text \<open>A reading that is given replaces the stored one, except that the first time the inputs
  were ready is kept.\<close>

definition set_timing ::
    "string \<Rightarrow> int \<Rightarrow> rat option \<Rightarrow> rat option \<Rightarrow> rat option \<Rightarrow> 'v session_runtime \<Rightarrow> 'v session_runtime" where
  "set_timing sid q ready admitted completed rt =
     (let cur = (case od_get (rt_timings rt) (sid, q) of
                   Some tm \<Rightarrow> tm
                 | None \<Rightarrow> \<lparr>tm_stage_id = sid, tm_sequence_id = q, tm_inputs_ready_at = None,
                            tm_admitted_at = None, tm_completed_at = None\<rparr>)
      in rt\<lparr>rt_timings := od_put (sid, q)
           \<lparr>tm_stage_id = sid, tm_sequence_id = q,
            tm_inputs_ready_at = (if tm_inputs_ready_at cur \<noteq> None then tm_inputs_ready_at cur else ready),
            tm_admitted_at = (if admitted \<noteq> None then admitted else tm_admitted_at cur),
            tm_completed_at = (if completed \<noteq> None then completed else tm_completed_at cur)\<rparr> (rt_timings rt)\<rparr>)"

fun observe_sequences :: "rat \<Rightarrow> stage_spec \<Rightarrow> int list \<Rightarrow> 'v session_runtime \<Rightarrow> 'v session_runtime" where
  "observe_sequences t st [] rt = rt"
| "observe_sequences t st (q # qs) rt =
     observe_sequences t st qs
       (if inputs_ready rt st q then set_timing (sg_stage_id st) q (Some t) None None rt else rt)"

fun observe_stages :: "rat \<Rightarrow> stage_spec list \<Rightarrow> int list \<Rightarrow> 'v session_runtime \<Rightarrow> 'v session_runtime" where
  "observe_stages t [] qs rt = rt"
| "observe_stages t (st # sts) qs rt = observe_stages t sts qs (observe_sequences t st qs rt)"

definition observe_input_readiness :: "config \<Rightarrow> rat \<Rightarrow> 'v session_runtime \<Rightarrow> 'v session_runtime" where
  "observe_input_readiness c t rt = observe_stages t (sp_stages (cf_spec c)) (sequence_ids rt) rt"

definition record_missing_inputs :: "stage_spec \<Rightarrow> int \<Rightarrow> 'v session_runtime \<Rightarrow> 'v session_runtime" where
  "record_missing_inputs st q rt =
     rt\<lparr>rt_missing := od_put (sg_stage_id st, q + 1)
          (sort (filter (\<lambda>a. \<not> waits_for rt (q + 1) a (sg_stage_id st)) (sg_consumes st))) (rt_missing rt)\<rparr>"

section \<open>Admission\<close>

datatype admission = Admitted | NotAdmitted | AdmissionFailed

definition task_key_of :: "'v orchestrator \<Rightarrow> 'v session_runtime \<Rightarrow> stage_spec \<Rightarrow> int \<Rightarrow> task_key" where
  "task_key_of s rt st q =
     \<lparr>tk_session_id = rt_session_id rt, tk_session_epoch = rt_epoch rt, tk_sequence_id = q,
      tk_stage_id = sg_stage_id st, tk_request_id = or_calls s\<rparr>"

text \<open>The state after the actor accepted the invocation, and after it did not.\<close>

definition accept_task ::
    "rat \<Rightarrow> string \<Rightarrow> 'v session_runtime \<Rightarrow> stage_spec \<Rightarrow> int \<Rightarrow> 'v orchestrator \<Rightarrow> 'v orchestrator" where
  "accept_task t sid rt st q s =
     (let taken = take_inputs (sg_stage_id st) q (sg_consumes st) (rt_artifacts rt);
          key = task_key_of s rt st q;
          inv = \<lparr>iv_key = key, iv_inputs = fst taken, iv_is_first = (q = 0), iv_is_last = (rt_final rt = Some q)\<rparr>
      in (upd_runtime sid
            (\<lambda>r. (set_timing (sg_stage_id st) q None (Some t) None (r\<lparr>rt_artifacts := snd taken\<rparr>))
                   \<lparr>rt_in_flight := od_put (sg_stage_id st, q) key (rt_in_flight r),
                    rt_accepted := rt_accepted r @ [inv]\<rparr>) s)
           \<lparr>or_calls := or_calls s + 1\<rparr>)"

definition return_inputs ::
    "string \<Rightarrow> 'v session_runtime \<Rightarrow> stage_spec \<Rightarrow> int \<Rightarrow> 'v orchestrator \<Rightarrow> 'v orchestrator" where
  "return_inputs sid rt st q s =
     (let taken = take_inputs (sg_stage_id st) q (sg_consumes st) (rt_artifacts rt)
      in upd_runtime sid
           (\<lambda>r. r\<lparr>rt_artifacts := restore_inputs (sg_stage_id st) q (fst taken) (snd taken)\<rparr>)
           (s\<lparr>or_calls := or_calls s + 1\<rparr>))"

definition submit_task ::
    "actor_env \<Rightarrow> rat \<Rightarrow> string \<Rightarrow> 'v session_runtime \<Rightarrow> stage_spec \<Rightarrow> int \<Rightarrow> 'v orchestrator
      \<Rightarrow> 'v orchestrator \<times> admission" where
  "submit_task env t sid rt st q s =
     (case ae_submit env (or_calls s) (sg_stage_id st) of
        Accepted \<Rightarrow> (accept_task t sid rt st q s, Admitted)
      | Busy \<Rightarrow> (return_inputs sid rt st q s, NotAdmitted)
      | SubmitRaises e \<Rightarrow>
          (case actor_failure env (sg_stage_id st) (return_inputs sid rt st q s) of
             (None, s2) \<Rightarrow> (fail_runtime sid e s2, AdmissionFailed)
           | (Some err, s2) \<Rightarrow> (fail_all_sessions err (Some (sid, e)) s2, AdmissionFailed)))"

text \<open>\<open>setdefault\<close>: the first blocking reason is kept.\<close>

definition note_blocking :: "string \<Rightarrow> stage_spec \<Rightarrow> int \<Rightarrow> string \<Rightarrow> 'v orchestrator \<Rightarrow> 'v orchestrator" where
  "note_blocking sid st q reason s =
     upd_runtime sid (\<lambda>r. r\<lparr>rt_blocking :=
       (case od_get (rt_blocking r) (sg_stage_id st, q) of
          Some x \<Rightarrow> rt_blocking r
        | None \<Rightarrow> od_put (sg_stage_id st, q) reason (rt_blocking r))\<rparr>) s"

definition try_stage ::
    "actor_env \<Rightarrow> config \<Rightarrow> rat \<Rightarrow> string \<Rightarrow> stage_spec \<Rightarrow> 'v orchestrator \<Rightarrow> 'v orchestrator \<times> admission" where
  "try_stage env c t sid st s0 =
     (case actor_failure env (sg_stage_id st) s0 of
        (Some err, s) \<Rightarrow> (fail_all_sessions err None s, AdmissionFailed)
      | (None, s) \<Rightarrow>
          (case od_get (or_sessions s) sid of
             None \<Rightarrow> (s, NotAdmitted)
           | Some rt \<Rightarrow>
               (case runnable_sequence rt st of
                  None \<Rightarrow> (s, NotAdmitted)
                | Some q \<Rightarrow>
                    if \<not> has_execution_capacity c s st then
                      (note_blocking sid st q
                         (if resource_group_is_full c s st then ''resource_group'' else ''stage_capacity'') s,
                       NotAdmitted)
                    else if \<not> has_output_capacity c rt st then
                      (note_blocking sid st q ''edge_capacity'' s, NotAdmitted)
                    else submit_task env t sid rt st q s)))"

fun pump_stages ::
    "actor_env \<Rightarrow> config \<Rightarrow> rat \<Rightarrow> string \<Rightarrow> stage_spec list \<Rightarrow> 'v orchestrator \<Rightarrow> 'v orchestrator \<times> bool" where
  "pump_stages env c t sid [] s = (s, False)"
| "pump_stages env c t sid (st # sts) s =
     (case try_stage env c t sid st s of
        (s', Admitted) \<Rightarrow> (s', True)
      | (s', AdmissionFailed) \<Rightarrow> (s', False)
      | (s', NotAdmitted) \<Rightarrow> pump_stages env c t sid sts s')"

definition pump_once :: "actor_env \<Rightarrow> config \<Rightarrow> rat \<Rightarrow> string \<Rightarrow> 'v orchestrator \<Rightarrow> 'v orchestrator \<times> bool" where
  "pump_once env c t sid s = pump_stages env c t sid (sp_stages (cf_spec c)) s"

definition session_running :: "'v orchestrator \<Rightarrow> string \<Rightarrow> bool" where
  "session_running s sid =
     (case od_get (or_sessions s) sid of None \<Rightarrow> False | Some rt \<Rightarrow> rt_status rt = SESSION_RUNNING)"

text \<open>One pass of the round-robin loop: \<open>n\<close> times, the head of the order goes to its tail
  and is pumped once.\<close>

fun pump_round :: "actor_env \<Rightarrow> config \<Rightarrow> rat \<Rightarrow> nat \<Rightarrow> 'v orchestrator \<Rightarrow> 'v orchestrator \<times> bool" where
  "pump_round env c t 0 s = (s, False)"
| "pump_round env c t (Suc n) s =
     (case or_session_order s of
        [] \<Rightarrow> (s, False)
      | sid # rest \<Rightarrow>
          let s1 = s\<lparr>or_session_order := rest @ [sid]\<rparr>;
              r = (if session_running s1 sid then pump_once env c t sid s1 else (s1, False));
              r' = pump_round env c t n (fst r)
          in (fst r', snd r \<or> snd r'))"

section \<open>The steps of the scheduler loop\<close>

text \<open>Every pass of the loop is a sequence of these steps; the invariants are shown for each
  of them once.\<close>

inductive sched_step :: "config \<Rightarrow> rat \<Rightarrow> 'v orchestrator \<Rightarrow> 'v orchestrator \<Rightarrow> bool" for c t where
  tick: "sched_step c t s (s\<lparr>or_calls := n\<rparr>)" if "or_calls s \<le> n"
| rotate: "sched_step c t s (s\<lparr>or_session_order := rest @ [sid]\<rparr>)" if "or_session_order s = sid # rest"
| fail: "sched_step c t s (fail_runtime sid e s)"
| block: "sched_step c t s (note_blocking sid st q reason s)"
| restore: "sched_step c t s (return_inputs sid rt st q s)"
    if "od_get (or_sessions s) sid = Some rt" "inputs_ready rt st q" "st \<in> set (sp_stages (cf_spec c))"
| admit: "sched_step c t s (accept_task t sid rt st q s)"
    if "od_get (or_sessions s) sid = Some rt" "rt_status rt = SESSION_RUNNING"
      "st \<in> set (sp_stages (cf_spec c))" "runnable_sequence rt st = Some q"
      "has_execution_capacity c s st" "has_output_capacity c rt st"

inductive_cases sched_stepE: "sched_step c t s s'"

abbreviation sched_steps :: "config \<Rightarrow> rat \<Rightarrow> 'v orchestrator \<Rightarrow> 'v orchestrator \<Rightarrow> bool" where
  "sched_steps c t \<equiv> (sched_step c t)\<^sup>*\<^sup>*"

lemma runnable_inputs_ready: "runnable_sequence rt st = Some q \<Longrightarrow> inputs_ready rt st q"
  by (auto simp: runnable_sequence_def find_Some_iff split: if_splits)

lemma fail_sessions_steps: "sched_steps c t s (fail_sessions sids err origin s)"
proof (induction sids arbitrary: s)
  case (Cons sid sids)
  from Cons [of "fail_runtime sid _ s"] show ?case
    unfolding fail_sessions.simps by (rule converse_rtranclp_into_rtranclp [of "sched_step c t", OF sched_step.fail])
qed simp

lemma upd_runtime_get [simp]:
  "od_get (or_sessions (upd_runtime sid f s)) x =
     (if x = sid then map_option f (od_get (or_sessions s) sid) else od_get (or_sessions s) x)"
  by (auto simp: upd_runtime_def split: option.splits)

lemma try_stage_steps:
  assumes "st \<in> set (sp_stages (cf_spec c))" and "session_running s sid"
  shows "sched_steps c t s (fst (try_stage env c t sid st s)) \<and>
    (snd (try_stage env c t sid st s) = NotAdmitted \<longrightarrow> session_running (fst (try_stage env c t sid st s)) sid)"
proof -
  let ?s1 = "s\<lparr>or_calls := or_calls s + 1\<rparr>"
  obtain rt where rt: "od_get (or_sessions s) sid = Some rt" "rt_status rt = SESSION_RUNNING"
    using assms(2) by (auto simp: session_running_def split: option.splits)
  have tk: "sched_step c t s ?s1" by (rule sched_step.tick) simp
  note go = converse_rtranclp_into_rtranclp [of "sched_step c t", OF tk]
  have run: "session_running (upd_runtime sid f s') sid"
    if "od_get (or_sessions s') sid = Some rt'" "rt_status (f rt') = SESSION_RUNNING" for f rt' s'
    using that by (auto simp: session_running_def)
  show ?thesis
  proof (cases "health_error (ae_health env (or_calls s) (sg_stage_id st)) (sg_stage_id st)")
    case (Some err)
    then show ?thesis
      using go [OF fail_sessions_steps] by (simp add: try_stage_def actor_failure_def fail_all_sessions_def)
  next
    case None
    note H = this
    show ?thesis
    proof (cases "runnable_sequence rt st")
      case None
      with H rt go show ?thesis
        by (simp add: try_stage_def actor_failure_def session_running_def)
    next
      case (Some q)
      have blk: "sched_step c t ?s1 (note_blocking sid st q r ?s1)" for r by (rule sched_step.block)
      show ?thesis
      proof (cases "has_execution_capacity c ?s1 st \<and> has_output_capacity c rt st")
        case False
        then show ?thesis
          using H rt Some go [OF r_into_rtranclp [of "sched_step c t", OF blk]]
          by (auto simp: try_stage_def actor_failure_def note_blocking_def intro!: run)
      next
        case True
        have T: "try_stage env c t sid st s = submit_task env t sid rt st q ?s1"
          using H rt Some True by (simp add: try_stage_def actor_failure_def)
        have ir: "inputs_ready rt st q" using Some by (rule runnable_inputs_ready)
        have g1: "od_get (or_sessions ?s1) sid = Some rt" using rt by simp
        have re: "sched_step c t ?s1 (return_inputs sid rt st q ?s1)"
          by (rule sched_step.restore [OF g1 ir assms(1)])
        show ?thesis
        proof (cases "ae_submit env (or_calls ?s1) (sg_stage_id st)")
          case Accepted
          have "sched_step c t ?s1 (accept_task t sid rt st q ?s1)"
            using True by (intro sched_step.admit [OF g1 rt(2) assms(1) Some]) auto
          with Accepted T go [OF r_into_rtranclp [of "sched_step c t"]] show ?thesis
            by (simp add: submit_task_def)
        next
          case Busy
          with T go [OF r_into_rtranclp [of "sched_step c t", OF re]] rt show ?thesis
            by (auto simp: submit_task_def return_inputs_def Let_def intro!: run)
        next
          case (SubmitRaises e)
          let ?s2 = "return_inputs sid rt st q ?s1"
          have "sched_step c t ?s2 (?s2\<lparr>or_calls := or_calls ?s2 + 1\<rparr>)" by (rule sched_step.tick) simp
          then have "sched_steps c t s (?s2\<lparr>or_calls := or_calls ?s2 + 1\<rparr>)"
            using tk re by (meson r_into_rtranclp rtranclp.rtrancl_into_rtrancl)
          then have "sched_steps c t s (fail_runtime sid e (?s2\<lparr>or_calls := or_calls ?s2 + 1\<rparr>))"
              "sched_steps c t s (fail_all_sessions x y (?s2\<lparr>or_calls := or_calls ?s2 + 1\<rparr>))" for x y
            using sched_step.fail [of c t "?s2\<lparr>or_calls := or_calls ?s2 + 1\<rparr>" sid e] fail_sessions_steps
            unfolding fail_all_sessions_def
            by (blast intro: rtranclp.rtrancl_into_rtrancl rtranclp_trans)+
          with SubmitRaises T show ?thesis
            by (simp add: submit_task_def actor_failure_def split: option.splits)
        qed
      qed
    qed
  qed
qed

lemma pump_stages_steps:
  "set sts \<subseteq> set (sp_stages (cf_spec c)) \<Longrightarrow> session_running s sid \<Longrightarrow>
     sched_steps c t s (fst (pump_stages env c t sid sts s))"
proof (induction sts arbitrary: s)
  case (Cons st sts)
  have T: "sched_steps c t s (fst (try_stage env c t sid st s))"
      "snd (try_stage env c t sid st s) = NotAdmitted \<Longrightarrow> session_running (fst (try_stage env c t sid st s)) sid"
    using try_stage_steps [of st c s sid t env] Cons.prems by auto
  obtain s' r where r: "try_stage env c t sid st s = (s', r)" by (cases "try_stage env c t sid st s")
  show ?case
  proof (cases r)
    case NotAdmitted
    with Cons.IH [of s'] Cons.prems T r have "sched_steps c t s' (fst (pump_stages env c t sid sts s'))" by simp
    with T(1) r NotAdmitted show ?thesis by simp
  qed (use T r in simp_all)
qed simp

lemma pump_round_steps: "sched_steps c t s (fst (pump_round env c t n s))"
proof (induction n arbitrary: s)
  case (Suc n)
  show ?case
  proof (cases "or_session_order s")
    case (Cons sid rest)
    let ?s1 = "s\<lparr>or_session_order := rest @ [sid]\<rparr>"
    let ?r = "if session_running ?s1 sid then pump_once env c t sid ?s1 else (?s1, False)"
    have "sched_steps c t ?s1 (fst ?r)"
      using pump_stages_steps [of "sp_stages (cf_spec c)" c ?s1 sid t env] by (simp add: pump_once_def)
    then have "sched_steps c t s (fst ?r)"
      using sched_step.rotate [OF Cons, of c t] by (metis converse_rtranclp_into_rtranclp)
    with Suc [of "fst ?r"] Cons show ?thesis by (simp add: Let_def)
  qed simp
qed simp

section \<open>The loop ends\<close>

text \<open>The room that is left under the per-session limits; every admission uses some of it up.\<close>

definition stage_room :: "config \<Rightarrow> (string \<times> int, task_key) odict \<Rightarrow> nat" where
  "stage_room c fl = sum_list (map (\<lambda>st. nat (sg_max_in_flight_per_session st
     - int (tally (\<lambda>((x, q), k). x = sg_stage_id st) fl))) (sp_stages (cf_spec c)))"

definition headroom :: "config \<Rightarrow> 'v orchestrator \<Rightarrow> nat" where
  "headroom c s = sum_list (map (\<lambda>rt. stage_room c (rt_in_flight rt)) (od_vals (or_sessions s)))"

definition flights :: "'v orchestrator \<Rightarrow> (string, (string \<times> int, task_key) odict) odict" where
  "flights s = od_map rt_in_flight (or_sessions s)"

lemma headroom_flights: "headroom c s = sum_list (map (stage_room c) (od_vals (flights s)))"
  by (simp add: headroom_def flights_def od_map_def comp_def split_beta)

lemma od_map_put: "od_map f (od_put k v d) = od_put k (f v) (od_map f d)"
  by (induction d) (auto simp: od_map_def)

lemma od_put_same: "od_get d k = Some v \<Longrightarrow> od_put k v d = d"
  by (induction d) (auto split: if_splits)

lemma flights_upd:
  "(\<And>rt. od_get (or_sessions s) sid = Some rt \<Longrightarrow> rt_in_flight (f rt) = rt_in_flight rt) \<Longrightarrow>
     flights (upd_runtime sid f s) = flights s"
  by (auto simp: upd_runtime_def flights_def od_map_put intro!: od_put_same split: option.splits)

lemma flights_fields [simp]:
  "flights (s\<lparr>or_calls := n\<rparr>) = flights s" "flights (s\<lparr>or_session_order := x\<rparr>) = flights s"
  "flights (s\<lparr>or_cleanup_queue := cq\<rparr>) = flights s"
  by (simp_all add: flights_def)

lemma flights_fail_runtime: "flights (fail_runtime sid e s) = flights s"
  by (auto simp: fail_runtime_def schedule_failed_cleanup_def discard_buffered_def flights_upd split: option.splits)

lemma flights_note_blocking: "flights (note_blocking sid st q r s) = flights s"
  by (auto simp: note_blocking_def intro: flights_upd)

lemma flights_return_inputs: "flights (return_inputs sid rt st q s) = flights s"
  by (simp add: return_inputs_def Let_def flights_upd)

lemma set_timing_same [simp]:
  "rt_in_flight (set_timing a q x y z rt) = rt_in_flight rt"
  "rt_artifacts (set_timing a q x y z rt) = rt_artifacts rt"
  "rt_status (set_timing a q x y z rt) = rt_status rt"
  "rt_epoch (set_timing a q x y z rt) = rt_epoch rt"
  "rt_session_id (set_timing a q x y z rt) = rt_session_id rt"
  "rt_frontiers (set_timing a q x y z rt) = rt_frontiers rt"
  "rt_outputs (set_timing a q x y z rt) = rt_outputs rt"
  "rt_pending (set_timing a q x y z rt) = rt_pending rt"
  "rt_next_emit (set_timing a q x y z rt) = rt_next_emit rt"
  "rt_accepted (set_timing a q x y z rt) = rt_accepted rt"
  by (simp_all add: set_timing_def Let_def)

lemma flights_accept_task:
  "od_get (or_sessions s) sid = Some rt \<Longrightarrow>
     flights (accept_task t sid rt st q s) =
       od_put sid (od_put (sg_stage_id st, q) (task_key_of s rt st q) (rt_in_flight rt)) (flights s)"
  by (simp add: accept_task_def Let_def upd_runtime_def flights_def od_map_put)

lemma tally_absent: "od_get d k = None \<Longrightarrow> tally P (od_put k v d) = tally P d + (if P (k, v) then 1 else 0)"
  by (simp add: tally_def od_put_absent)

lemma sum_list_put_less:
  "od_get d k = Some w \<Longrightarrow> f v < f w \<Longrightarrow> sum_list (map f (od_vals (od_put k v d))) < (sum_list (map f (od_vals d)) :: nat)"
  by (induction d) (auto split: if_splits)

lemma sum_list_less:
  "(\<And>y. f y \<le> g y) \<Longrightarrow> f x < g x \<Longrightarrow> x \<in> set ys \<Longrightarrow> sum_list (map f ys) < (sum_list (map g ys) :: nat)"
  by (induction ys) (auto intro: add_less_le_mono add_le_less_mono sum_list_mono)

lemma headroom_accept:
  assumes "od_get (or_sessions s) sid = Some rt" and "st \<in> set (sp_stages (cf_spec c))"
    and "runnable_sequence rt st = Some q"
  shows "headroom c (accept_task t sid rt st q s) < headroom c s"
proof -
  let ?key = "task_key_of s rt st q" and ?fl = "rt_in_flight rt"
  have fresh: "od_get ?fl (sg_stage_id st, q) = None"
    and room: "int (tally (\<lambda>((x, q), k). x = sg_stage_id st) ?fl) < sg_max_in_flight_per_session st"
    using assms(3) by (auto simp: runnable_sequence_def find_Some_iff session_stage_count_def split: if_splits)
  let ?f = "\<lambda>fl st. nat (sg_max_in_flight_per_session st - int (tally (\<lambda>((x, q), k). x = sg_stage_id st) fl))"
  have le: "?f (od_put (sg_stage_id st, q) ?key ?fl) y \<le> ?f ?fl y" for y
    by (simp add: tally_absent [OF fresh])
  moreover have "?f (od_put (sg_stage_id st, q) ?key ?fl) st < ?f ?fl st"
    using room by (simp add: tally_absent [OF fresh])
  ultimately have "sum_list (map (?f (od_put (sg_stage_id st, q) ?key ?fl)) (sp_stages (cf_spec c)))
      < sum_list (map (?f ?fl) (sp_stages (cf_spec c)))"
    using assms(2) by (rule sum_list_less)
  then show ?thesis
    unfolding headroom_flights flights_accept_task [OF assms(1)] stage_room_def
    using assms(1) by (intro sum_list_put_less [of _ _ ?fl]) (simp_all add: flights_def stage_room_def)
qed

lemma step_headroom: "sched_step c t s s' \<Longrightarrow> headroom c s' \<le> headroom c s"
proof (induction rule: sched_step.induct)
  case (admit s sid rt st q)
  then show ?case using headroom_accept [OF admit(1,3,4)] by (rule_tac less_imp_le)
qed (simp_all add: headroom_flights flights_fail_runtime flights_note_blocking flights_return_inputs)

lemma steps_headroom: "sched_steps c t s s' \<Longrightarrow> headroom c s' \<le> headroom c s"
  by (induction rule: rtranclp_induct) (auto dest: step_headroom)

lemma try_stage_admitted:
  assumes "try_stage env c t sid st s = (s', Admitted)" and "st \<in> set (sp_stages (cf_spec c))"
  shows "headroom c s' < headroom c s"
proof -
  let ?s1 = "s\<lparr>or_calls := or_calls s + 1\<rparr>"
  obtain rt q where rt: "od_get (or_sessions ?s1) sid = Some rt" "runnable_sequence rt st = Some q"
    and s': "s' = accept_task t sid rt st q ?s1"
    using assms(1)
    by (auto simp: try_stage_def actor_failure_def submit_task_def
        split: option.splits if_splits submit_reply.splits)
  have "headroom c ?s1 = headroom c s" by (simp add: headroom_flights)
  with headroom_accept [OF rt(1) assms(2) rt(2)] s' show ?thesis by simp
qed

lemma pump_stages_headroom:
  "set sts \<subseteq> set (sp_stages (cf_spec c)) \<Longrightarrow> session_running s sid \<Longrightarrow>
     snd (pump_stages env c t sid sts s) \<Longrightarrow> headroom c (fst (pump_stages env c t sid sts s)) < headroom c s"
proof (induction sts arbitrary: s)
  case (Cons st sts)
  obtain s' r where r: "try_stage env c t sid st s = (s', r)" by (cases "try_stage env c t sid st s")
  have m: "st \<in> set (sp_stages (cf_spec c))" using Cons.prems by simp
  note T = try_stage_steps [OF m Cons.prems(2), of t env, unfolded r fst_conv snd_conv]
  show ?case
  proof (cases r)
    case Admitted
    with try_stage_admitted [OF _ m] r show ?thesis by simp
  next
    case AdmissionFailed
    with Cons.prems r show ?thesis by simp
  next
    case NotAdmitted
    with Cons r T steps_headroom [of c t s s'] show ?thesis by fastforce
  qed
qed simp

lemma pump_round_headroom: "snd (pump_round env c t n s) \<Longrightarrow> headroom c (fst (pump_round env c t n s)) < headroom c s"
proof (induction n arbitrary: s)
  case (Suc n)
  then obtain sid rest where o: "or_session_order s = sid # rest"
    by (cases "or_session_order s") simp_all
  let ?s1 = "s\<lparr>or_session_order := rest @ [sid]\<rparr>"
  let ?r = "if session_running ?s1 sid then pump_once env c t sid ?s1 else (?s1, False)"
  have h: "headroom c ?s1 = headroom c s" by (simp add: headroom_flights)
  have le: "headroom c (fst ?r) \<le> headroom c s"
    using steps_headroom [OF pump_stages_steps [of "sp_stages (cf_spec c)" c ?s1 sid t env]] h
    by (simp add: pump_once_def)
  have lt: "snd ?r \<Longrightarrow> headroom c (fst ?r) < headroom c s"
    using pump_stages_headroom [of "sp_stages (cf_spec c)" c ?s1 sid env t] h
    by (simp add: pump_once_def split: if_splits)
  have le2: "headroom c (fst (pump_round env c t n (fst ?r))) \<le> headroom c (fst ?r)"
    by (rule steps_headroom [OF pump_round_steps])
  have e: "pump_round env c t (Suc n) s
      = (fst (pump_round env c t n (fst ?r)), snd ?r \<or> snd (pump_round env c t n (fst ?r)))"
    using o by (simp add: Let_def)
  show ?case
    using Suc.prems Suc.IH [of "fst ?r"] le lt le2 unfolding e fst_conv snd_conv by linarith
qed simp

function pump_all :: "actor_env \<Rightarrow> config \<Rightarrow> rat \<Rightarrow> 'v orchestrator \<Rightarrow> 'v orchestrator" where
  "pump_all env c t s =
     (let r = pump_round env c t (length (or_session_order s)) s
      in if snd r then pump_all env c t (fst r) else fst r)"
  by pat_completeness auto
termination
  by (relation "measure (\<lambda>(env, c, t, s). headroom c s)") (auto simp: pump_round_headroom)

declare pump_all.simps [simp del]

lemma pump_all_steps: "sched_steps c t s (pump_all env c t s)"
proof (induction env c t s rule: pump_all.induct)
  case (1 env c t s)
  then show ?case
    using pump_round_steps [of c t s env "length (or_session_order s)"]
    by (subst pump_all.simps) (auto simp: Let_def)
qed

section \<open>Sessions and inputs\<close>

definition unknown_session :: "string \<Rightarrow> py_error" where
  "unknown_session sid = KeyError (''Unknown streaming session '' @ sid)"

definition runtime_of :: "'v orchestrator \<Rightarrow> string \<Rightarrow> 'v session_runtime res" where
  "runtime_of s sid = (case od_get (or_sessions s) sid of None \<Rightarrow> Inl (unknown_session sid) | Some rt \<Rightarrow> Inr rt)"

definition active_runtime :: "'v orchestrator \<Rightarrow> string \<Rightarrow> 'v session_runtime res" where
  "active_runtime s sid =
     (case runtime_of s sid of
        Inl e \<Rightarrow> Inl e
      | Inr rt \<Rightarrow> if rt_status rt \<noteq> SESSION_RUNNING then Inl (RuntimeError (''Session '' @ sid @ '' is not accepting input''))
                 else Inr rt)"

definition new_runtime :: "config \<Rightarrow> string \<Rightarrow> int \<Rightarrow> int option \<Rightarrow> 'v session_runtime" where
  "new_runtime c sid epoch fin =
     \<lparr>rt_session_id = sid, rt_epoch = epoch, rt_final = fin, rt_status = SESSION_RUNNING,
      rt_frontiers = map (\<lambda>st. (st, 0)) (stage_ids (cf_spec c)), rt_artifacts = [], rt_in_flight = [],
      rt_outputs = [], rt_pending = [], rt_next_emit = 0, rt_timings = [], rt_ingress = [], rt_emitted = [],
      rt_missing = [], rt_blocking = [], rt_cleaned = [], rt_cleanup_scheduled = False,
      rt_cleanup_complete = False, rt_error = None, rt_cleanup_error = None, rt_accepted = []\<rparr>"

definition create_session ::
    "config \<Rightarrow> string \<Rightarrow> int option \<Rightarrow> 'v orchestrator \<Rightarrow> int res \<times> 'v orchestrator" where
  "create_session c sid fin s =
     (if (case fin of None \<Rightarrow> False | Some q \<Rightarrow> q < 0) then
        (Inl (ValueError ''final_sequence_id must be non-negative''), s)
      else if or_closed s then (Inl (RuntimeError ''Streaming pipeline orchestrator is closed''), s)
      else if (case od_get (or_sessions s) sid of
                 None \<Rightarrow> False
               | Some rt \<Rightarrow> rt_status rt = SESSION_RUNNING \<or> rt_in_flight rt \<noteq> []) then
        (Inl (ValueError (''Session '' @ sid @ '' is still active'')), s)
      else (Inr (or_epoch s + 1),
            s\<lparr>or_epoch := or_epoch s + 1,
              or_sessions := od_put sid (new_runtime c sid (or_epoch s + 1) fin) (or_sessions s),
              or_session_order := remove1 sid (or_session_order s) @ [sid]\<rparr>))"

definition external_input_edges :: "config \<Rightarrow> string \<Rightarrow> edge_spec list res" where
  "external_input_edges c a =
     (let es = artifact_edges c a
      in if es = [] \<or> (\<exists>e \<in> set es. eg_source_stage e \<noteq> None) then
           Inl (ValueError (''Artifact '' @ a @ '' is not an external input''))
         else Inr es)"

text \<open>The first artifact of the mapping that cannot be pushed decides the exception.\<close>

fun input_error :: "config \<Rightarrow> 'v session_runtime \<Rightarrow> int \<Rightarrow> string list \<Rightarrow> py_error option" where
  "input_error c rt q [] = None"
| "input_error c rt q (a # as) =
     (case external_input_edges c a of
        Inl e \<Rightarrow> Some e
      | Inr es \<Rightarrow>
          if od_get (rt_artifacts rt) (q, a) \<noteq> None then
            Some (ValueError (''Artifact '' @ a @ '' already exists for sequence '' @ str_of_int q))
          else input_error c rt q as)"

definition input_room :: "config \<Rightarrow> 'v session_runtime \<Rightarrow> string list \<Rightarrow> bool" where
  "input_room c rt as \<longleftrightarrow>
     (\<forall>a \<in> set as. \<forall>e \<in> set (artifact_edges c a). int (edge_occupancy rt e) < eg_capacity_per_session e)"

fun store_inputs :: "config \<Rightarrow> int \<Rightarrow> (string \<times> 'v) list \<Rightarrow> 'v slots \<Rightarrow> 'v slots" where
  "store_inputs c q [] d = d"
| "store_inputs c q ((a, v) # ins) d =
     store_inputs c q ins
       (od_put (q, a) \<lparr>sl_value = v, sl_remaining = set (map eg_target_stage (artifact_edges c a))\<rparr> d)"

definition accept_inputs ::
    "config \<Rightarrow> rat \<Rightarrow> int \<Rightarrow> (string \<times> 'v) list \<Rightarrow> 'v session_runtime \<Rightarrow> 'v session_runtime" where
  "accept_inputs c t q ins rt =
     (let anchor = sp_latency_anchor_artifact (cf_spec c);
          rt1 = (if (case anchor of None \<Rightarrow> True | Some a \<Rightarrow> a \<in> fst ` set ins) \<and> od_get (rt_ingress rt) q = None
                 then rt\<lparr>rt_ingress := od_put q t (rt_ingress rt)\<rparr> else rt)
      in observe_input_readiness c t (rt1\<lparr>rt_artifacts := store_inputs c q ins (rt_artifacts rt)\<rparr>))"

definition try_push_inputs ::
    "actor_env \<Rightarrow> config \<Rightarrow> rat \<Rightarrow> string \<Rightarrow> int \<Rightarrow> (string \<times> 'v) list \<Rightarrow> 'v orchestrator \<Rightarrow> bool res \<times> 'v orchestrator" where
  "try_push_inputs env c t sid q ins s =
     (if q < 0 then (Inl (ValueError ''sequence_id must be non-negative''), s)
      else if ins = [] then (Inl (ValueError ''At least one input artifact is required''), s)
      else case active_runtime s sid of
        Inl e \<Rightarrow> (Inl e, s)
      | Inr rt \<Rightarrow>
          if (case rt_final rt of None \<Rightarrow> False | Some f \<Rightarrow> q > f) then
            (Inl (ValueError (''Sequence '' @ str_of_int q @ '' exceeds the final sequence'')), s)
          else case input_error c rt q (map fst ins) of
            Some e \<Rightarrow> (Inl e, s)
          | None \<Rightarrow>
              if \<not> input_room c rt (map fst ins) then (Inr False, s)
              else (Inr True, pump_all env c t (upd_runtime sid (accept_inputs c t q ins) s)))"

definition push_input ::
    "actor_env \<Rightarrow> config \<Rightarrow> rat \<Rightarrow> string \<Rightarrow> int \<Rightarrow> string \<Rightarrow> 'v \<Rightarrow> 'v orchestrator \<Rightarrow> unit res \<times> 'v orchestrator" where
  "push_input env c t sid q a v s =
     (case try_push_inputs env c t sid q [(a, v)] s of
        (Inl e, s') \<Rightarrow> (Inl e, s')
      | (Inr ok, s') \<Rightarrow> (if ok then Inr () else Inl (RuntimeError (''Input edge for '' @ a @ '' is full'')), s'))"

fun all_input_room :: "config \<Rightarrow> 'v session_runtime \<Rightarrow> string list \<Rightarrow> bool res" where
  "all_input_room c rt [] = Inr True"
| "all_input_room c rt (a # as) =
     (case external_input_edges c a of
        Inl e \<Rightarrow> Inl e
      | Inr es \<Rightarrow>
          if \<forall>e \<in> set es. int (edge_occupancy rt e) < eg_capacity_per_session e then all_input_room c rt as
          else Inr False)"

definition can_push_inputs :: "config \<Rightarrow> string \<Rightarrow> string list \<Rightarrow> 'v orchestrator \<Rightarrow> bool res" where
  "can_push_inputs c sid as s =
     (if as = [] then Inl (ValueError ''At least one input artifact is required'')
      else case active_runtime s sid of Inl e \<Rightarrow> Inl e | Inr rt \<Rightarrow> all_input_room c rt as)"

definition finish_inputs ::
    "actor_env \<Rightarrow> config \<Rightarrow> rat \<Rightarrow> string \<Rightarrow> int \<Rightarrow> 'v orchestrator \<Rightarrow> unit res \<times> 'v orchestrator" where
  "finish_inputs env c t sid q s =
     (if q < 0 then (Inl (ValueError ''final_sequence_id must be non-negative''), s)
      else case active_runtime s sid of
        Inl e \<Rightarrow> (Inl e, s)
      | Inr rt \<Rightarrow>
          if rt_final rt \<noteq> None \<and> rt_final rt \<noteq> Some q then
            (Inl (ValueError ''final_sequence_id cannot be changed''), s)
          else if \<exists>((x, y), tm) \<in> set (rt_timings rt). y = q \<and> tm_admitted_at tm \<noteq> None then
            (Inl (RuntimeError ''final_sequence_id must be declared before its first stage is admitted''), s)
          else (Inr (), pump_all env c t (upd_runtime sid (\<lambda>r. r\<lparr>rt_final := Some q\<rparr>) s)))"

definition poll_outputs ::
    "actor_env \<Rightarrow> config \<Rightarrow> rat \<Rightarrow> string \<Rightarrow> 'v orchestrator
      \<Rightarrow> (int \<times> string \<times> 'v) list res \<times> 'v orchestrator" where
  "poll_outputs env c t sid s =
     (case runtime_of s sid of
        Inl e \<Rightarrow> (Inl e, s)
      | Inr rt \<Rightarrow> (Inr (rt_outputs rt), pump_all env c t (upd_runtime sid (\<lambda>r. r\<lparr>rt_outputs := []\<rparr>) s)))"

section \<open>Emission\<close>

fun emit_artifacts :: "int \<Rightarrow> string list \<Rightarrow> 'v session_runtime \<Rightarrow> 'v session_runtime" where
  "emit_artifacts q [] rt = rt"
| "emit_artifacts q (a # as) rt =
     emit_artifacts q as
       (case od_get (rt_pending rt) (q, a) of
          None \<Rightarrow> rt
        | Some v \<Rightarrow> rt\<lparr>rt_pending := od_del (q, a) (rt_pending rt), rt_outputs := rt_outputs rt @ [(q, a, v)]\<rparr>)"

definition output_names :: "config \<Rightarrow> string list" where
  "output_names c = sort (sp_output_artifacts (cf_spec c))"

definition emit_sequence :: "config \<Rightarrow> rat \<Rightarrow> 'v session_runtime \<Rightarrow> 'v session_runtime" where
  "emit_sequence c t rt =
     (let q = rt_next_emit rt; rt' = emit_artifacts q (output_names c) rt
      in rt'\<lparr>rt_emitted := od_put q t (rt_emitted rt'), rt_next_emit := q + 1\<rparr>)"

definition emit_ready :: "config \<Rightarrow> 'v session_runtime \<Rightarrow> bool" where
  "emit_ready c rt \<longleftrightarrow>
     (\<forall>a \<in> set (sp_output_artifacts (cf_spec c)). od_get (rt_pending rt) (rt_next_emit rt, a) \<noteq> None)"

lemma length_del_le: "length (od_del k d) \<le> length d"
  by (rule length_delete_le)

lemma length_del_less: "od_get d k = Some v \<Longrightarrow> length (od_del k d) < length d"
  by (induction d) (auto simp: le_imp_less_Suc length_del_le split: if_splits)

lemma emit_artifacts_le: "length (rt_pending (emit_artifacts q as rt)) \<le> length (rt_pending rt)"
proof (induction as arbitrary: rt)
  case (Cons a as)
  show ?case
  proof (cases "od_get (rt_pending rt) (q, a)")
    case (Some v)
    let ?rt = "rt\<lparr>rt_pending := od_del (q, a) (rt_pending rt), rt_outputs := rt_outputs rt @ [(q, a, v)]\<rparr>"
    from Cons [of ?rt] length_del_le [of "(q, a)" "rt_pending rt"] Some show ?thesis by simp
  qed (use Cons [of rt] in simp)
qed simp

lemma emit_sequence_less:
  assumes "output_names c \<noteq> []" and "emit_ready c rt"
  shows "length (rt_pending (emit_sequence c t rt)) < length (rt_pending rt)"
proof -
  obtain a as where o: "output_names c = a # as" using assms(1) by (cases "output_names c") simp_all
  then have "a \<in> set (sp_output_artifacts (cf_spec c))"
    by (metis list.set_intros(1) output_names_def set_sort)
  then obtain v where v: "od_get (rt_pending rt) (rt_next_emit rt, a) = Some v"
    using assms(2) by (auto simp: emit_ready_def)
  let ?rt = "rt\<lparr>rt_pending := od_del (rt_next_emit rt, a) (rt_pending rt),
    rt_outputs := rt_outputs rt @ [(rt_next_emit rt, a, v)]\<rparr>"
  show ?thesis
    using emit_artifacts_le [of "rt_next_emit rt" as ?rt] length_del_less [OF v] v o
    by (simp add: emit_sequence_def Let_def)
qed

function emit_ready_outputs :: "config \<Rightarrow> rat \<Rightarrow> 'v session_runtime \<Rightarrow> 'v session_runtime" where
  "emit_ready_outputs c t rt =
     (if output_names c = [] then rt
      else if emit_ready c rt then emit_ready_outputs c t (emit_sequence c t rt) else rt)"
  by pat_completeness auto
termination
  by (relation "measure (\<lambda>(c, t, rt). length (rt_pending rt))") (auto simp: emit_sequence_less)

declare emit_ready_outputs.simps [simp del]

section \<open>Completions\<close>

datatype 'v completion = Returned "(string \<times> 'v) list" | Raised py_error

definition stage_targets :: "config \<Rightarrow> string \<Rightarrow> string \<Rightarrow> string list" where
  "stage_targets c sid a = map eg_target_stage (filter (\<lambda>e. eg_source_stage e = Some sid) (artifact_edges c a))"

fun store_results ::
    "config \<Rightarrow> string \<Rightarrow> int \<Rightarrow> (string \<times> 'v) list \<Rightarrow> 'v session_runtime \<Rightarrow> 'v session_runtime" where
  "store_results c sid q [] rt = rt"
| "store_results c sid q ((a, v) # res) rt =
     (let rt1 = (if a \<in> set (sp_output_artifacts (cf_spec c))
                 then rt\<lparr>rt_pending := od_put (q, a) v (rt_pending rt)\<rparr> else rt);
          ts = stage_targets c sid a
      in store_results c sid q res
           (if ts = [] then rt1
            else rt1\<lparr>rt_artifacts := od_put (q, a) \<lparr>sl_value = v, sl_remaining = set ts\<rparr> (rt_artifacts rt1)\<rparr>))"

definition accept_results ::
    "config \<Rightarrow> rat \<Rightarrow> stage_spec \<Rightarrow> int \<Rightarrow> (string \<times> 'v) list \<Rightarrow> 'v session_runtime \<Rightarrow> 'v session_runtime" where
  "accept_results c t st q res rt =
     (let rt1 = emit_ready_outputs c t (store_results c (sg_stage_id st) q res rt);
          rt2 = (if sg_ordering st = PER_SESSION_STRICT
                 then rt1\<lparr>rt_frontiers := od_put (sg_stage_id st) (q + 1) (rt_frontiers rt1)\<rparr> else rt1)
      in observe_input_readiness c t (record_missing_inputs st q rt2))"

definition terminal_key_limit :: nat where
  "terminal_key_limit = 4096"

definition record_terminal_key :: "task_key \<Rightarrow> 'v orchestrator \<Rightarrow> 'v orchestrator" where
  "record_terminal_key key s =
     (if key \<in> set (or_recent_keys s) then s
      else s\<lparr>or_recent_keys :=
             (if length (or_recent_keys s) \<ge> terminal_key_limit then tl (or_recent_keys s) else or_recent_keys s) @ [key]\<rparr>)"

definition count_stray :: "task_key \<Rightarrow> 'v orchestrator \<Rightarrow> 'v orchestrator" where
  "count_stray key s =
     (if key \<in> set (or_recent_keys s) then s\<lparr>or_duplicate_results := or_duplicate_results s + 1\<rparr>
      else s\<lparr>or_orphaned_results := or_orphaned_results s + 1\<rparr>)"

text \<open>The effect of an active completion on its session, before the next pump.\<close>

definition settle ::
    "actor_env \<Rightarrow> config \<Rightarrow> rat \<Rightarrow> string \<Rightarrow> task_key \<Rightarrow> 'v completion \<Rightarrow> 'v orchestrator \<Rightarrow> 'v orchestrator" where
  "settle env c t sid key outcome s =
     (case actor_failure env (tk_stage_id key) s of
        (Some err, s1) \<Rightarrow>
          fail_all_sessions err (case outcome of Raised e \<Rightarrow> Some (sid, e) | Returned res \<Rightarrow> None) s1
      | (None, s1) \<Rightarrow>
          if \<not> session_running s1 sid then s1
          else case outcome of
            Raised e \<Rightarrow> fail_runtime sid e s1
          | Returned res \<Rightarrow>
              (case stage_of (cf_spec c) (tk_stage_id key) of
                 None \<Rightarrow> fail_runtime sid (KeyError (tk_stage_id key)) s1
               | Some st \<Rightarrow>
                   if fst ` set res \<noteq> set (sg_produces st) then
                     fail_runtime sid (ValueError (''Invalid output from '' @ tk_stage_id key)) s1
                   else upd_runtime sid (accept_results c t st (tk_sequence_id key) res) s1))"

definition complete ::
    "actor_env \<Rightarrow> config \<Rightarrow> rat \<Rightarrow> string \<Rightarrow> task_key \<Rightarrow> 'v completion \<Rightarrow> 'v orchestrator \<Rightarrow> 'v orchestrator" where
  "complete env c t sid key outcome s =
     (let slot = (tk_stage_id key, tk_sequence_id key)
      in case od_get (or_sessions s) sid of
           None \<Rightarrow> pump_all env c t (count_stray key s)
         | Some rt \<Rightarrow>
             if rt_epoch rt \<noteq> tk_session_epoch key then
               pump_all env c t (s\<lparr>or_stale_epoch_results := or_stale_epoch_results s + 1\<rparr>)
             else if od_get (rt_in_flight rt) slot \<noteq> Some key then pump_all env c t (count_stray key s)
             else
               let s1 = record_terminal_key key
                     (upd_runtime sid (\<lambda>r. set_timing (fst slot) (snd slot) None None (Some t)
                         (r\<lparr>rt_in_flight := od_del slot (rt_in_flight r)\<rparr>)) s);
                   s2 = settle env c t sid key outcome s1
               in pump_all env c t (schedule_failed_cleanup sid s2))"

section \<open>Cancelling, closing and cleanup\<close>

text \<open>\<open>cancel_session\<close> and \<open>close_session\<close> change the state under the lock, then clean the
  session's stages without it, and the latter finally removes the session. The three parts are
  separate operations. A cleanup runs once the in-flight invocations have drained, with the
  outcome of every stage's closer as an argument, or gives up at its deadline.\<close>

definition cancel_begin :: "string \<Rightarrow> 'v orchestrator \<Rightarrow> bool res \<times> 'v orchestrator" where
  "cancel_begin sid s =
     (case runtime_of s sid of
        Inl e \<Rightarrow> (Inl e, s)
      | Inr rt \<Rightarrow>
          if rt_status rt = SESSION_RUNNING then
            (Inr True, upd_runtime sid (\<lambda>r. discard_buffered (r\<lparr>rt_status := SESSION_CANCELLED\<rparr>)) s)
          else (Inr (rt_status rt = SESSION_CANCELLED), s))"

definition session_close_reason :: "session_status \<Rightarrow> bool \<Rightarrow> close_reason" where
  "session_close_reason status shutdown =
     (if status = SESSION_CANCELLED then REASON_CANCELLED
      else if status = SESSION_FAILED then REASON_FAILED
      else if shutdown then REASON_SHUTDOWN else REASON_CLOSED)"

definition end_session :: "'v session_runtime \<Rightarrow> 'v session_runtime" where
  "end_session r =
     discard_buffered (if rt_status r = SESSION_RUNNING then r\<lparr>rt_status := SESSION_CLOSED\<rparr> else r)"

definition close_begin :: "string \<Rightarrow> 'v orchestrator \<Rightarrow> close_reason res \<times> 'v orchestrator" where
  "close_begin sid s =
     (case runtime_of s sid of
        Inl e \<Rightarrow> (Inl e, s)
      | Inr rt \<Rightarrow>
          (Inr (session_close_reason (rt_status (end_session rt)) False), upd_runtime sid end_session s))"

datatype closer_outcome = NoCloser | CloserReturned | CloserRaised py_error | NoTimeLeft

text \<open>Over the stages in reverse topological order: the stages cleaned, the number of
  failures, the first error and the stages whose closer was called.\<close>

fun close_stages ::
    "(string \<Rightarrow> closer_outcome) \<Rightarrow> string list \<Rightarrow> string list \<times> nat \<times> py_error option \<times> string list
      \<Rightarrow> string list \<times> nat \<times> py_error option \<times> string list" where
  "close_stages outcome [] acc = acc"
| "close_stages outcome (sid # sids) (cleaned, n, err, called) =
     close_stages outcome sids
       (if sid \<in> set cleaned then (cleaned, n, err, called)
        else case outcome sid of
          NoCloser \<Rightarrow> (cleaned @ [sid], n, err, called)
        | CloserReturned \<Rightarrow> (cleaned @ [sid], n, err, called @ [sid])
        | CloserRaised e \<Rightarrow> (cleaned, n + 1, (if err = None then Some e else err), called @ [sid])
        | NoTimeLeft \<Rightarrow> (cleaned, n + 1, (if err = None then Some (TimeoutError (''Timed out cleaning stage '' @ sid)) else err), called))"

definition cleanup_failed :: "string \<Rightarrow> py_error" where
  "cleanup_failed sid = RuntimeError (''Failed to clean streaming session '' @ sid)"

definition cleanup_drained ::
    "config \<Rightarrow> (string \<Rightarrow> closer_outcome) \<Rightarrow> string \<Rightarrow> 'v orchestrator \<Rightarrow> unit res \<times> 'v orchestrator" where
  "cleanup_drained c outcome sid s =
     (case od_get (or_sessions s) sid of
        None \<Rightarrow> (Inl (unknown_session sid), s)
      | Some rt \<Rightarrow>
          if rt_cleanup_complete rt then (Inr (), s)
          else
            let order = vg_topological_stage_ids (cf_valid c);
                (cleaned, n, err, called) = close_stages outcome (rev order) (rt_cleaned rt, 0, None, []);
                leaked = length (rt_artifacts rt);
                err' = (if leaked \<noteq> 0 \<and> err = None
                        then Some (RuntimeError (''Session '' @ sid @ '' retained artifact slots after cleanup'')) else err);
                s1 = s\<lparr>or_cleanup_failures := or_cleanup_failures s + n + (if leaked \<noteq> 0 then 1 else 0),
                       or_slot_leaks := or_slot_leaks s + leaked\<rparr>
            in (if err' = None then Inr () else Inl (cleanup_failed sid),
                upd_runtime sid
                  (\<lambda>r. (if leaked \<noteq> 0 then discard_buffered r else r)
                     \<lparr>rt_cleaned := cleaned,
                      rt_cleanup_complete := (err' = None \<and> length cleaned = length order),
                      rt_cleanup_error := err'\<rparr>) s1))"

text \<open>The drain, or the wait for another cleanup of the session, runs into its deadline.\<close>

definition cleanup_timed_out :: "string \<Rightarrow> 'v orchestrator \<Rightarrow> unit res \<times> 'v orchestrator" where
  "cleanup_timed_out sid s =
     (let e = TimeoutError (''Timed out draining streaming session '' @ sid)
      in (Inl e, upd_runtime sid (\<lambda>r. r\<lparr>rt_cleanup_error := Some e\<rparr>)
                   (s\<lparr>or_cleanup_failures := or_cleanup_failures s + 1\<rparr>)))"

definition close_finish :: "string \<Rightarrow> int \<Rightarrow> 'v orchestrator \<Rightarrow> 'v orchestrator" where
  "close_finish sid epoch s =
     (case od_get (or_sessions s) sid of
        None \<Rightarrow> s
      | Some rt \<Rightarrow>
          if rt_epoch rt = epoch then
            s\<lparr>or_sessions := od_del sid (or_sessions s), or_session_order := remove1 sid (or_session_order s)\<rparr>
          else s)"

definition shutdown_begin :: "'v orchestrator \<Rightarrow> 'v orchestrator" where
  "shutdown_begin s =
     (if or_closed s then s
      else s\<lparr>or_closed := True, or_sessions := od_map end_session (or_sessions s)\<rparr>)"

definition shutdown_end :: "'v orchestrator \<Rightarrow> 'v orchestrator" where
  "shutdown_end s = s\<lparr>or_sessions := [], or_session_order := []\<rparr>"

section \<open>The orchestrator as a machine\<close>

datatype 'v stream_event =
    Create string "int option"
  | Push string int "(string \<times> 'v) list"
  | Finish string int
  | Poll string
  | Completion task_key "'v completion"
  | Cancel string
  | CloseBegin string
  | Cleanup string "string \<Rightarrow> closer_outcome"
  | CleanupTimeout string
  | CloseFinish string int
  | ShutdownBegin
  | ShutdownEnd

text \<open>A cleanup works on a session that has ended and has drained; a close removes the session
  it cleaned; the sessions are cleared by a shutdown that has begun. What does not meet
  these conditions is not an event of the code and leaves the state as it is.\<close>

definition session_ended :: "'v session_runtime \<Rightarrow> bool" where
  "session_ended rt \<longleftrightarrow> rt_status rt \<noteq> SESSION_RUNNING"

definition drained :: "'v orchestrator \<Rightarrow> string \<Rightarrow> bool" where
  "drained s sid =
     (case od_get (or_sessions s) sid of None \<Rightarrow> False | Some rt \<Rightarrow> session_ended rt \<and> rt_in_flight rt = [])"

definition ended :: "'v orchestrator \<Rightarrow> string \<Rightarrow> bool" where
  "ended s sid = (case od_get (or_sessions s) sid of None \<Rightarrow> False | Some rt \<Rightarrow> session_ended rt)"

fun exec :: "actor_env \<Rightarrow> config \<Rightarrow> 'v orchestrator \<Rightarrow> rat \<times> 'v stream_event \<Rightarrow> 'v orchestrator" where
  "exec env c s (t, Create sid fin) = snd (create_session c sid fin s)"
| "exec env c s (t, Push sid q ins) = snd (try_push_inputs env c t sid q ins s)"
| "exec env c s (t, Finish sid q) = snd (finish_inputs env c t sid q s)"
| "exec env c s (t, Poll sid) = snd (poll_outputs env c t sid s)"
| "exec env c s (t, Completion key outcome) = complete env c t (tk_session_id key) key outcome s"
| "exec env c s (t, Cancel sid) = snd (cancel_begin sid s)"
| "exec env c s (t, CloseBegin sid) = snd (close_begin sid s)"
| "exec env c s (t, Cleanup sid outcome) = (if drained s sid then snd (cleanup_drained c outcome sid s) else s)"
| "exec env c s (t, CleanupTimeout sid) = (if ended s sid then snd (cleanup_timed_out sid s) else s)"
| "exec env c s (t, CloseFinish sid epoch) = (if drained s sid then close_finish sid epoch s else s)"
| "exec env c s (t, ShutdownBegin) = shutdown_begin s"
| "exec env c s (t, ShutdownEnd) = (if or_closed s then shutdown_end s else s)"

end
