(* ===== verification/Stream_Safety.thy ===== *)
theory Stream_Safety
  imports Stream_Run
begin

text \<open>
  Safety of the streaming orchestrator: what a validated specification guarantees about its
  edges, the interface of a session invariant (what every operation does to one session), and
  the invariants themselves: bounded buffers, limits on concurrency, strict order, ordered
  emission.
\<close>

section \<open>What validation guarantees\<close>

definition edges_ok :: "pipeline_spec \<Rightarrow> (string, string) odict \<Rightarrow> (string, edge_spec list) odict \<Rightarrow> bool" where
  "edges_ok p producers g \<longleftrightarrow>
     (\<forall>a. \<forall>e \<in> set (edges_of g a). e \<in> set (sp_edges p) \<and> eg_artifact e = a \<and>
        eg_source_stage e = od_get producers a)"

lemma edges_of_put [simp]: "edges_of (od_put a es g) b = (if b = a then es else edges_of g b)"
  by (simp add: edges_of_def)

lemma add_edge_grouped:
  assumes "add_edge p producers e g = Inr g'" and "edges_ok p producers (gr_grouped g)" and "e \<in> set (sp_edges p)"
  shows "edges_ok p producers (gr_grouped g')"
proof -
  have "gr_grouped g' = od_put (eg_artifact e) (edges_of (gr_grouped g) (eg_artifact e) @ [e]) (gr_grouped g) \<and>
      eg_source_stage e = od_get producers (eg_artifact e)"
    using assms(1) by (auto simp: add_edge_def Let_def link_stages_def split: if_splits option.splits)
  with assms(2,3) show ?thesis by (auto simp: edges_ok_def)
qed

lemma add_edges_grouped:
  "add_edges p producers es g = Inr g' \<Longrightarrow> edges_ok p producers (gr_grouped g) \<Longrightarrow>
     set es \<subseteq> set (sp_edges p) \<Longrightarrow> edges_ok p producers (gr_grouped g')"
  by (induction es arbitrary: g) (auto dest: add_edge_grouped split: sum.splits)

lemma add_producers_get:
  "add_producers sid as d = Inr d' \<Longrightarrow>
     (\<forall>a \<in> set as. od_get d' a = Some sid) \<and> (\<forall>a u. od_get d a = Some u \<longrightarrow> od_get d' a = Some u)"
proof (induction as arbitrary: d)
  case (Cons a as)
  then have r: "add_producers sid as (od_put a sid d) = Inr d'" and n: "od_get d a = None \<or> od_get d a = Some sid"
    by (auto split: option.splits if_splits)
  have B: "od_get d' b = Some u" if "od_get (od_put a sid d) b = Some u" for b u
    using Cons.IH [OF r] that by blast
  have "od_get d' b = Some u" if "od_get d b = Some u" for b u
    using B [of b u] that n by (cases "b = a") auto
  with B [of a sid] Cons.IH [OF r] show ?case by auto
qed simp

lemma declared_producers_get:
  "declared_producers ss d = Inr d' \<Longrightarrow>
     (\<forall>s \<in> set ss. \<forall>a \<in> set (sg_produces s). od_get d' a = Some (sg_stage_id s)) \<and>
     (\<forall>a u. od_get d a = Some u \<longrightarrow> od_get d' a = Some u)"
proof (induction ss arbitrary: d)
  case (Cons s ss)
  then obtain d1 where d1: "add_producers (sg_stage_id s) (sg_produces s) d = Inr d1" "declared_producers ss d1 = Inr d'"
    by (auto split: sum.splits)
  from Cons.IH [OF d1(2)] add_producers_get [OF d1(1)] show ?case by auto
qed simp

text \<open>The facts of a validated specification that the run-time relies on.\<close>

definition config_ok :: "config \<Rightarrow> bool" where
  "config_ok c \<longleftrightarrow>
     distinct (stage_ids (cf_spec c)) \<and> spec_built (cf_spec c) \<and>
     set (vg_topological_stage_ids (cf_valid c)) = set (stage_ids (cf_spec c)) \<and>
     distinct (vg_topological_stage_ids (cf_valid c)) \<and>
     (\<exists>producers. edges_ok (cf_spec c) producers (vg_edges_by_artifact (cf_valid c)) \<and>
        (\<forall>s \<in> set (sp_stages (cf_spec c)). \<forall>a \<in> set (sg_produces s). od_get producers a = Some (sg_stage_id s)))"

lemma build_config_ok:
  assumes "build p actors = Inr c" and "spec_built p"
  shows "config_ok c"
proof -
  obtain v where v: "validate p actors = Inr v" and c: "c = \<lparr>cf_spec = p, cf_valid = v\<rparr>"
    using assms(1) by (auto simp: build_def split: sum.splits)
  obtain producers g where d: "distinct (stage_ids p)"
    and pr: "declared_producers (sp_stages p) [] = Inr producers"
    and g: "add_edges p producers (sp_edges p) (empty_graph p) = Inr g"
    and len: "length (topological_order p g) = length (stage_ids p)"
    and vv: "v = \<lparr>vg_edges_by_artifact = gr_grouped g, vg_topological_stage_ids = topological_order p g\<rparr>"
    by (rule validate_InrD [OF v]) blast
  note T = topological_order_cases [OF d g]
  have "set (topological_order p g) = set (stage_ids p)"
    using T len d by (metis List.finite_set card_subset_eq distinct_card)
  moreover have "edges_ok p producers (gr_grouped g)"
    using add_edges_grouped [OF g] by (simp add: empty_graph_def edges_ok_def edges_of_def)
  moreover have "\<forall>s \<in> set (sp_stages p). \<forall>a \<in> set (sg_produces s). od_get producers a = Some (sg_stage_id s)"
    using declared_producers_get [OF pr] by blast
  ultimately show ?thesis using d T assms(2) unfolding config_ok_def c vv by auto
qed

lemma find_distinct: "distinct (map f xs) \<Longrightarrow> x \<in> set xs \<Longrightarrow> find (\<lambda>y. f y = f x) xs = Some x"
  by (induction xs) (auto simp: image_iff)

lemma stage_of_in: "config_ok c \<Longrightarrow> st \<in> set (sp_stages (cf_spec c)) \<Longrightarrow> stage_of (cf_spec c) (sg_stage_id st) = Some st"
  unfolding config_ok_def stage_of_def stage_ids_def by (blast intro: find_distinct)

lemma config_edge:
  assumes "config_ok c" and "e \<in> set (artifact_edges c a)"
  shows "eg_artifact e = a \<and> 1 \<le> eg_capacity_per_session e \<and>
    (\<forall>sid. produces_artifact c sid a \<longrightarrow> eg_source_stage e = Some sid)"
proof -
  obtain producers where ok: "edges_ok (cf_spec c) producers (vg_edges_by_artifact (cf_valid c))"
    and pr: "\<forall>s \<in> set (sp_stages (cf_spec c)). \<forall>a \<in> set (sg_produces s). od_get producers a = Some (sg_stage_id s)"
    using assms(1) unfolding config_ok_def by blast
  from ok assms(2) have e: "e \<in> set (sp_edges (cf_spec c))" "eg_artifact e = a" "eg_source_stage e = od_get producers a"
    unfolding edges_ok_def artifact_edges_def by blast+
  have "edge_spec_error e = None" using assms(1) e(1) unfolding config_ok_def spec_built_def by blast
  then have "1 \<le> eg_capacity_per_session e" by (auto simp: edge_spec_error_def check_def split: if_splits)
  moreover have "eg_source_stage e = Some sid" if "produces_artifact c sid a" for sid
    using that pr e(3) stage_of_Some by (fastforce simp: produces_artifact_def split: option.splits)
  ultimately show ?thesis using e by blast
qed

section \<open>The interface of a session invariant\<close>

text \<open>What the invariants read of a session; timings, flags and error texts are not part of it.\<close>

definition core where
  "core rt = (rt_session_id rt, rt_epoch rt, rt_status rt, rt_frontiers rt, rt_artifacts rt, rt_in_flight rt,
     rt_outputs rt, rt_pending rt, rt_next_emit rt, rt_accepted rt)"

definition after_results ::
    "config \<Rightarrow> rat \<Rightarrow> stage_spec \<Rightarrow> int \<Rightarrow> (string \<times> 'v) list \<Rightarrow> 'v session_runtime \<Rightarrow> 'v session_runtime" where
  "after_results c t st q res rt =
     (let rt1 = emit_ready_outputs c t (store_results c (sg_stage_id st) q res
           (rt\<lparr>rt_in_flight := od_del (sg_stage_id st, q) (rt_in_flight rt)\<rparr>))
      in if sg_ordering st = PER_SESSION_STRICT
         then rt1\<lparr>rt_frontiers := od_put (sg_stage_id st) (q + 1) (rt_frontiers rt1)\<rparr> else rt1)"

text \<open>The operations on one session depend on, and change, its core only.\<close>

lemma coreD:
  assumes "core rt' = core rt"
  shows "rt_session_id rt' = rt_session_id rt" "rt_epoch rt' = rt_epoch rt" "rt_status rt' = rt_status rt"
    "rt_frontiers rt' = rt_frontiers rt" "rt_artifacts rt' = rt_artifacts rt" "rt_in_flight rt' = rt_in_flight rt"
    "rt_outputs rt' = rt_outputs rt" "rt_pending rt' = rt_pending rt" "rt_next_emit rt' = rt_next_emit rt"
    "rt_accepted rt' = rt_accepted rt"
  using assms by (simp_all add: core_def)

lemma core_set_timing [simp]: "core (set_timing a q x y z rt) = core rt"
  by (simp add: core_def)

lemma core_observe [simp]: "core (observe_input_readiness c t rt) = core rt"
proof -
  have a: "core (observe_sequences t st qs rt) = core rt" for st qs rt
    by (induction qs arbitrary: rt) simp_all
  have "core (observe_stages t sts qs rt) = core rt" for sts qs rt
    by (induction sts arbitrary: rt) (simp_all add: a)
  then show ?thesis by (simp add: observe_input_readiness_def)
qed

lemma core_missing [simp]: "core (record_missing_inputs st q rt) = core rt"
  by (simp add: record_missing_inputs_def core_def)

lemma core_store_results: "core rt = core rt' \<Longrightarrow> core (store_results c sid q res rt) = core (store_results c sid q res rt')"
proof (induction res arbitrary: rt rt')
  case (Cons r res)
  obtain a v where r: "r = (a, v)" by (cases r)
  note [simp] = coreD [OF Cons.prems]
  show ?case unfolding r store_results.simps Let_def
    by (rule Cons.IH) (use Cons.prems in \<open>simp add: core_def\<close>)
qed simp

lemma core_emit_artifacts: "core rt = core rt' \<Longrightarrow> core (emit_artifacts q as rt) = core (emit_artifacts q as rt')"
proof (induction as arbitrary: rt rt')
  case (Cons a as)
  note [simp] = coreD [OF Cons.prems]
  show ?case unfolding emit_artifacts.simps
    by (rule Cons.IH) (use Cons.prems in \<open>auto simp: core_def split: option.splits\<close>)
qed simp

lemma core_emit: "core rt = core rt' \<Longrightarrow> core (emit_ready_outputs c t rt) = core (emit_ready_outputs c t rt')"
proof (induction c t rt arbitrary: rt' rule: emit_ready_outputs.induct)
  case (1 c t rt)
  note D = coreD [OF 1(2)]
  have e: "core (emit_sequence c t rt) = core (emit_sequence c t rt')"
    using core_emit_artifacts [OF 1(2), of "rt_next_emit rt" "output_names c"] D
    by (simp add: emit_sequence_def Let_def core_def)
  have r: "emit_ready c rt = emit_ready c rt'" using D by (simp add: emit_ready_def)
  show ?case
    using 1(1) [OF _ _ e] 1(2) r
    by (subst (1 2) emit_ready_outputs.simps) simp
qed

lemma core_accept_results:
  assumes "core rt' = core (rt\<lparr>rt_in_flight := od_del (sg_stage_id st, q) (rt_in_flight rt)\<rparr>)"
  shows "core (accept_results c t st q res rt') = core (after_results c t st q res rt)"
  using core_emit [OF core_store_results [OF assms], of c t c "sg_stage_id st" q res]
  by (simp add: accept_results_def after_results_def Let_def) (simp add: core_def)

definition all_sessions :: "(string \<Rightarrow> 'v session_runtime \<Rightarrow> bool) \<Rightarrow> 'v orchestrator \<Rightarrow> bool" where
  "all_sessions Q s \<longleftrightarrow> (\<forall>sid rt. od_get (or_sessions s) sid = Some rt \<longrightarrow> Q sid rt)"

lemma all_sessions_upd:
  "all_sessions Q s \<Longrightarrow> (\<And>rt. od_get (or_sessions s) sid = Some rt \<Longrightarrow> Q sid rt \<Longrightarrow> Q sid (f rt)) \<Longrightarrow>
     all_sessions Q (upd_runtime sid f s)"
  by (auto simp: all_sessions_def split: if_splits)

lemma all_sessions_cong: "or_sessions s' = or_sessions s \<Longrightarrow> all_sessions Q s' \<longleftrightarrow> all_sessions Q s"
  by (simp add: all_sessions_def)

lemma all_sessions_fields [simp]:
  "all_sessions Q (s\<lparr>or_calls := n\<rparr>) = all_sessions Q s"
  "all_sessions Q (s\<lparr>or_session_order := x\<rparr>) = all_sessions Q s"
  "all_sessions Q (s\<lparr>or_cleanup_queue := cq\<rparr>) = all_sessions Q s"
  "all_sessions Q (s\<lparr>or_stale_epoch_results := n\<rparr>) = all_sessions Q s"
  "all_sessions Q (s\<lparr>or_orphaned_results := n\<rparr>) = all_sessions Q s"
  "all_sessions Q (s\<lparr>or_duplicate_results := n\<rparr>) = all_sessions Q s"
  "all_sessions Q (s\<lparr>or_cleanup_failures := n\<rparr>) = all_sessions Q s"
  "all_sessions Q (s\<lparr>or_slot_leaks := n\<rparr>) = all_sessions Q s"
  "all_sessions Q (s\<lparr>or_recent_keys := ks\<rparr>) = all_sessions Q s"
  "all_sessions Q (s\<lparr>or_closed := b\<rparr>) = all_sessions Q s"
  "all_sessions Q (s\<lparr>or_epoch := e\<rparr>) = all_sessions Q s"
  by (simp_all add: all_sessions_def)

lemma all_sessions_get: "all_sessions Q s \<Longrightarrow> od_get (or_sessions s) sid = Some rt \<Longrightarrow> Q sid rt"
  by (simp add: all_sessions_def)

locale session_steps =
  fixes P :: "config \<Rightarrow> string \<Rightarrow> 'v session_runtime \<Rightarrow> bool"
  assumes P_core: "P c sid rt \<Longrightarrow> core rt' = core rt \<Longrightarrow> P c sid rt'"
    and P_stop: "P c sid rt \<Longrightarrow> status \<noteq> SESSION_RUNNING \<Longrightarrow> P c sid (discard_buffered (rt\<lparr>rt_status := status\<rparr>))"
    and P_return: "config_ok c \<Longrightarrow> P c sid rt \<Longrightarrow> inputs_ready rt st q \<Longrightarrow>
      P c sid (rt\<lparr>rt_artifacts := restore_inputs (sg_stage_id st) q
                (fst (take_inputs (sg_stage_id st) q (sg_consumes st) (rt_artifacts rt)))
                (snd (take_inputs (sg_stage_id st) q (sg_consumes st) (rt_artifacts rt)))\<rparr>)"
    and P_admit: "config_ok c \<Longrightarrow> P c sid rt \<Longrightarrow> rt_status rt = SESSION_RUNNING \<Longrightarrow> st \<in> set (sp_stages (cf_spec c)) \<Longrightarrow>
      runnable_sequence rt st = Some q \<Longrightarrow> has_output_capacity c rt st \<Longrightarrow>
      key = \<lparr>tk_session_id = rt_session_id rt, tk_session_epoch = rt_epoch rt, tk_sequence_id = q,
             tk_stage_id = sg_stage_id st, tk_request_id = n\<rparr> \<Longrightarrow>
      P c sid (rt\<lparr>rt_artifacts := snd (take_inputs (sg_stage_id st) q (sg_consumes st) (rt_artifacts rt)),
              rt_in_flight := od_put (sg_stage_id st, q) key (rt_in_flight rt),
              rt_accepted := rt_accepted rt @ [\<lparr>iv_key = key, iv_inputs = ins, iv_is_first = (q = 0),
                iv_is_last = (rt_final rt = Some q)\<rparr>]\<rparr>)"
    and P_push: "config_ok c \<Longrightarrow> P c sid rt \<Longrightarrow> rt_status rt = SESSION_RUNNING \<Longrightarrow>
      input_error c rt q (map fst ins) = None \<Longrightarrow> input_room c rt (map fst ins) \<Longrightarrow>
      P c sid (rt\<lparr>rt_artifacts := store_inputs c q ins (rt_artifacts rt)\<rparr>)"
    and P_off: "P c sid rt \<Longrightarrow> rt_status rt \<noteq> SESSION_RUNNING \<Longrightarrow> P c sid (rt\<lparr>rt_in_flight := od_del k (rt_in_flight rt)\<rparr>)"
    and P_results: "config_ok c \<Longrightarrow> P c sid rt \<Longrightarrow> rt_status rt = SESSION_RUNNING \<Longrightarrow> st \<in> set (sp_stages (cf_spec c)) \<Longrightarrow>
      od_get (rt_in_flight rt) (sg_stage_id st, q) \<noteq> None \<Longrightarrow> fst ` set res = set (sg_produces st) \<Longrightarrow>
      P c sid (after_results c t st q res rt)"
begin

lemma keep_fail: "all_sessions (P c) s \<Longrightarrow> all_sessions (P c) (fail_runtime sid e s)"
proof -
  assume a: "all_sessions (P c) s"
  let ?f = "\<lambda>r. discard_buffered (r\<lparr>rt_status := SESSION_FAILED, rt_error := Some e\<rparr>)"
  have "all_sessions (P c) (upd_runtime sid ?f s)"
    by (rule all_sessions_upd [OF a], rule P_core, rule P_stop [where status = SESSION_FAILED])
      (simp_all add: core_def discard_buffered_def)
  then show ?thesis
    using a unfolding fail_runtime_def schedule_failed_cleanup_def
    by (auto split: option.splits intro!: all_sessions_upd intro: P_core simp: core_def)
qed

lemma keep_schedule: "all_sessions (P c) s \<Longrightarrow> all_sessions (P c) (schedule_failed_cleanup sid s)"
  by (auto simp: schedule_failed_cleanup_def core_def split: option.splits intro!: all_sessions_upd intro: P_core)

lemma keep_step:
  "sched_step c t s s' \<Longrightarrow> config_ok c \<Longrightarrow> all_sessions (P c) s \<Longrightarrow> all_sessions (P c) s'"
proof (induction rule: sched_step.induct)
  case (fail s sid e)
  then show ?case by (intro keep_fail)
next
  case (block s sid st q reason)
  then show ?case
    by (auto simp: note_blocking_def core_def intro!: all_sessions_upd intro: P_core)
next
  case (restore s sid rt st q)
  then show ?case
    using P_return [OF _ all_sessions_get [of "P c"], of s sid rt st q]
    by (auto simp: return_inputs_def Let_def intro!: all_sessions_upd)
next
  case (admit s sid rt st q)
  have "P c sid (rt\<lparr>rt_artifacts := snd (take_inputs (sg_stage_id st) q (sg_consumes st) (rt_artifacts rt)),
        rt_in_flight := od_put (sg_stage_id st, q) (task_key_of s rt st q) (rt_in_flight rt),
        rt_accepted := rt_accepted rt @ [\<lparr>iv_key = task_key_of s rt st q, iv_inputs = ins, iv_is_first = (q = 0),
                iv_is_last = (rt_final rt = Some q)\<rparr>]\<rparr>)" for ins
    using admit unfolding task_key_of_def
    by (intro P_admit [OF _ all_sessions_get [of "P c"]]) auto
  note new = P_core [OF this]
  show ?case
    unfolding accept_task_def Let_def all_sessions_fields
    by (rule all_sessions_upd)
      (use admit in \<open>auto intro!: new [of _ "fst (take_inputs (sg_stage_id st) q (sg_consumes st) (rt_artifacts rt))"]
        simp: core_def\<close>)
qed simp_all

lemma keep_steps:
  "sched_steps c t s s' \<Longrightarrow> config_ok c \<Longrightarrow> all_sessions (P c) s \<Longrightarrow> all_sessions (P c) s'"
  by (induction rule: rtranclp_induct) (auto dest: keep_step)

lemma keep_pump: "config_ok c \<Longrightarrow> all_sessions (P c) s \<Longrightarrow> all_sessions (P c) (pump_all env c t s)"
  by (rule keep_steps [OF pump_all_steps])

lemma keep_upd_core:
  "all_sessions (P c) s \<Longrightarrow> (\<And>rt. core (f rt) = core rt) \<Longrightarrow> all_sessions (P c) (upd_runtime sid f s)"
  by (rule all_sessions_upd) (auto intro: P_core)

lemma keep_create:
  "all_sessions (P c) s \<Longrightarrow> (\<And>epoch. P c sid (new_runtime c sid epoch fin)) \<Longrightarrow>
     all_sessions (P c) (snd (create_session c sid fin s))"
  by (auto simp: create_session_def all_sessions_def split: if_splits)

lemma keep_push:
  assumes c: "config_ok c" and a: "all_sessions (P c) s"
  shows "all_sessions (P c) (snd (try_push_inputs env c t sid q ins s))"
proof -
  have "all_sessions (P c) (pump_all env c t (upd_runtime sid (accept_inputs c t q ins) s))"
    if r: "active_runtime s sid = Inr rt" and e: "input_error c rt q (map fst ins) = None"
      and i: "input_room c rt (map fst ins)" for rt
  proof (rule keep_pump [OF c], rule all_sessions_upd [OF a])
    fix rt'
    assume g: "od_get (or_sessions s) sid = Some rt'" and p: "P c sid rt'"
    with r have [simp]: "rt' = rt" "rt_status rt = SESSION_RUNNING"
      by (auto simp: active_runtime_def runtime_of_def split: if_splits)
    have "core (accept_inputs c t q ins rt) = core (rt\<lparr>rt_artifacts := store_inputs c q ins (rt_artifacts rt)\<rparr>)"
      by (simp add: accept_inputs_def Let_def) (simp add: core_def)
    with P_core [OF P_push [OF c p]] e i show "P c sid (accept_inputs c t q ins rt')" by simp
  qed
  then show ?thesis using a by (auto simp: try_push_inputs_def split: sum.splits option.splits)
qed

lemma keep_finish: "config_ok c \<Longrightarrow> all_sessions (P c) s \<Longrightarrow> all_sessions (P c) (snd (finish_inputs env c t sid q s))"
  by (auto simp: finish_inputs_def core_def split: sum.splits intro!: keep_pump keep_upd_core)

lemma keep_poll:
  "config_ok c \<Longrightarrow> all_sessions (P c) s \<Longrightarrow> (\<And>rt. P c sid rt \<Longrightarrow> P c sid (rt\<lparr>rt_outputs := []\<rparr>)) \<Longrightarrow>
     all_sessions (P c) (snd (poll_outputs env c t sid s))"
  by (auto simp: poll_outputs_def split: sum.splits intro!: keep_pump all_sessions_upd)

lemma keep_fail_all: "all_sessions (P c) s \<Longrightarrow> all_sessions (P c) (fail_all_sessions err origin s)"
proof -
  have "all_sessions (P c) s \<Longrightarrow> all_sessions (P c) (fail_sessions sids err origin s)" for sids s
    by (induction sids arbitrary: s) (simp_all add: keep_fail)
  then show "all_sessions (P c) s \<Longrightarrow> ?thesis" by (simp add: fail_all_sessions_def)
qed

text \<open>While a completion is handled, the running session may be without its invocation and without
  its results; if it is failed at this point it has the property again.\<close>

abbreviation mid_completion :: "config \<Rightarrow> string \<Rightarrow> string \<Rightarrow> 'v session_runtime \<Rightarrow> bool" where
  "mid_completion c sid x rt \<equiv>
     P c x rt \<or> (x = sid \<and> rt_status rt = SESSION_RUNNING \<and> P c x (discard_buffered (rt\<lparr>rt_status := SESSION_FAILED\<rparr>)))"

lemma mid_fail:
  assumes w: "all_sessions (mid_completion c sid) s"
  shows "all_sessions (mid_completion c sid) (fail_runtime x e s) \<and>
    (x = sid \<longrightarrow> all_sessions (P c) (fail_runtime x e s))"
proof -
  let ?f = "\<lambda>r. discard_buffered (r\<lparr>rt_status := SESSION_FAILED, rt_error := Some e\<rparr>)"
  have f: "P c x (?f rt)" if "mid_completion c sid x rt" for rt
    using that P_core [OF P_stop [of c x rt SESSION_FAILED], of "?f rt"]
      P_core [of c x "discard_buffered (rt\<lparr>rt_status := SESSION_FAILED\<rparr>)" "?f rt"]
    by (auto simp: core_def discard_buffered_def)
  have flag: "all_sessions Q s' \<Longrightarrow> (\<And>y rt rt'. Q y rt \<Longrightarrow> core rt' = core rt \<Longrightarrow> Q y rt') \<Longrightarrow>
      all_sessions Q (schedule_failed_cleanup x s')" for Q and s' :: "'v orchestrator"
    by (auto simp: schedule_failed_cleanup_def core_def split: option.splits intro!: all_sessions_upd)
  have same: "mid_completion c sid y rt'" if "mid_completion c sid y rt" "core rt' = core rt" for y rt rt'
    using that P_core [of c y rt rt'] coreD [OF that(2)]
      P_core [of c y "discard_buffered (rt\<lparr>rt_status := SESSION_FAILED\<rparr>)" "discard_buffered (rt'\<lparr>rt_status := SESSION_FAILED\<rparr>)"]
    by (auto simp: core_def discard_buffered_def)
  show ?thesis
  proof (cases "session_running s x")
    case False
    then have "fail_runtime x e s = s"
      by (auto simp: fail_runtime_def session_running_def split: option.splits)
    with False w show ?thesis by (fastforce simp: all_sessions_def session_running_def)
  next
    case True
    then have "fail_runtime x e s = schedule_failed_cleanup x (upd_runtime x ?f s)"
      by (auto simp: fail_runtime_def session_running_def split: option.splits)
    moreover have "all_sessions (mid_completion c sid) (upd_runtime x ?f s)"
      using w f by (auto simp: all_sessions_def)
    moreover have "all_sessions (P c) (upd_runtime x ?f s)" if "x = sid"
      using w f that by (auto simp: all_sessions_def)
    ultimately show ?thesis using flag [OF _ same] flag [of "P c"] P_core by auto
  qed
qed

lemma mid_fail_all:
  assumes "all_sessions (mid_completion c sid) s" and "od_get (or_sessions s) sid \<noteq> None"
  shows "all_sessions (P c) (fail_all_sessions err origin s)"
proof -
  have settled: "all_sessions (P c) s' \<Longrightarrow> all_sessions (P c) (fail_sessions sids err origin s')" for sids s'
    by (induction sids arbitrary: s') (simp_all add: keep_fail)
  have sid: "sid \<in> set (od_keys (or_sessions s))" unfolding od_keys_dom using assms(2) by blast
  have "all_sessions (mid_completion c sid) s' \<Longrightarrow> sid \<in> set sids \<Longrightarrow>
      all_sessions (P c) (fail_sessions sids err origin s')" for sids s'
    by (induction sids arbitrary: s') (auto simp: mid_fail settled)
  then show ?thesis
    using assms(1) sid unfolding fail_all_sessions_def by blast
qed

lemma keep_complete:
  assumes c: "config_ok c" and a: "all_sessions (P c) s"
  shows "all_sessions (P c) (complete env c t sid key outcome s)"
proof -
  let ?slot = "(tk_stage_id key, tk_sequence_id key)"
  let ?off = "\<lambda>r. set_timing (fst ?slot) (snd ?slot) None None (Some t) (r\<lparr>rt_in_flight := od_del ?slot (rt_in_flight r)\<rparr>)"
  let ?s1 = "record_terminal_key key (upd_runtime sid ?off s)"
  have stray: "all_sessions (P c) (count_stray key s)" using a by (simp add: count_stray_def)
  have "all_sessions (P c) (settle env c t sid key outcome ?s1)"
    if g: "od_get (or_sessions s) sid = Some rt" and k: "od_get (rt_in_flight rt) ?slot = Some key" for rt
  proof -
    have stopped: "P c x (discard_buffered (?off rt'\<lparr>rt_status := SESSION_FAILED\<rparr>))" if "P c x rt'" for x rt'
      by (rule P_core [OF P_off [OF P_stop [OF that, of SESSION_FAILED], of ?slot]])
        (simp_all add: core_def discard_buffered_def)
    have off: "P c x (?off rt')" if "P c x rt'" "rt_status rt' \<noteq> SESSION_RUNNING" for x rt'
      by (rule P_core [OF P_off [OF that]]) simp
    have "mid_completion c sid sid (?off rt')" if "P c sid rt'" for rt'
      using off [OF that] stopped [OF that] by (cases "rt_status rt' = SESSION_RUNNING") simp_all
    then have "all_sessions (mid_completion c sid) (upd_runtime sid ?off s)"
      using a by (intro all_sessions_upd) (auto simp: all_sessions_def)
    then have a1: "all_sessions (mid_completion c sid) ?s1" by (simp add: record_terminal_key_def)
    let ?s2 = "?s1\<lparr>or_calls := or_calls ?s1 + 1\<rparr>"
    have a2: "all_sessions (mid_completion c sid) ?s2" using a1 by simp
    have g2: "od_get (or_sessions ?s2) sid = Some (?off rt)"
      using g by (simp add: record_terminal_key_def)
    have res: "all_sessions (P c) (upd_runtime sid (accept_results c t st (tk_sequence_id key) res) ?s2)"
      if run: "session_running ?s2 sid" and st: "stage_of (cf_spec c) (tk_stage_id key) = Some st"
        and keys: "fst ` set res = set (sg_produces st)" for st res
    proof -
      have id: "sg_stage_id st = tk_stage_id key" "st \<in> set (sp_stages (cf_spec c))" using stage_of_Some [OF st] by auto
      have run': "rt_status rt = SESSION_RUNNING" using run g2 by (simp add: session_running_def)
      have "P c sid (after_results c t st (tk_sequence_id key) res rt)"
        using P_results [OF c all_sessions_get [OF a g] run' id(2)] k keys by (simp add: id(1))
      then have "P c sid (accept_results c t st (tk_sequence_id key) res (?off rt))"
        by (rule P_core) (simp add: core_accept_results id(1))
      with a2 g2 show ?thesis by (auto simp: all_sessions_def)
    qed
    have idle: "all_sessions (P c) ?s2" if "\<not> session_running ?s2 sid"
      using a2 that by (fastforce simp: all_sessions_def session_running_def)
    have "all_sessions (P c) (fail_all_sessions err origin ?s2)" for err origin
      using g2 by (intro mid_fail_all [OF a2]) simp
    moreover have "all_sessions (P c) (fail_runtime sid e ?s2)" for e
      using mid_fail [OF a2] by blast
    ultimately show ?thesis
      using res idle
      by (auto simp: settle_def actor_failure_def split: option.splits completion.splits)
  qed
  then show ?thesis
    using a c stray unfolding complete_def Let_def
    by (auto split: option.splits intro!: keep_pump keep_schedule)
qed

text \<open>A step keeps the property unless it creates or polls a session for which it does not hold
  afterwards.\<close>

lemma keep_exec_unless:
  assumes c: "config_ok c" and a: "all_sessions (P c) s"
    and new: "\<And>t sid fin epoch. ev = (t, Create sid fin) \<Longrightarrow> P c sid (new_runtime c sid epoch fin)"
    and poll: "\<And>t sid rt. ev = (t, Poll sid) \<Longrightarrow> P c sid rt \<Longrightarrow> P c sid (rt\<lparr>rt_outputs := []\<rparr>)"
  shows "all_sessions (P c) (exec env c s ev)"
proof -
  have stop: "P c sid (discard_buffered r)" if "P c sid r" "rt_status r \<noteq> SESSION_RUNNING" for sid r
    using P_stop [OF that] by simp
  have fin: "P c sid (end_session r)" if "P c sid r" for sid r
    using that P_stop [OF that, of SESSION_CLOSED] stop [OF that] by (auto simp: end_session_def)
  have clean: "all_sessions (P c) (snd (cleanup_drained c oc sid s))" if d: "drained s sid" for oc sid
  proof -
    have r: "rt_status rt \<noteq> SESSION_RUNNING" if "od_get (or_sessions s) sid = Some rt" for rt
      using d that by (simp add: drained_def session_ended_def)
    have k: "P c sid (rt\<lparr>rt_cleaned := cl, rt_cleanup_complete := cc, rt_cleanup_error := ce\<rparr>)" if "P c sid rt" for rt cl cc ce
      by (rule P_core [OF that]) (simp add: core_def)
    have "P c sid (discard_buffered rt)" if "P c sid rt" "od_get (or_sessions s) sid = Some rt" for rt
      using stop [OF that(1) r [OF that(2)]] .
    with k show ?thesis
      using a by (auto simp: cleanup_drained_def Let_def split: option.splits prod.splits intro!: all_sessions_upd)
  qed
  obtain t e where [simp]: "ev = (t, e)" by (cases ev)
  show ?thesis
  proof (cases e)
    case (Cancel sid)
    have "P c sid (discard_buffered (rt\<lparr>rt_status := SESSION_CANCELLED\<rparr>))" if "P c sid rt" for sid rt
      by (rule P_stop [OF that]) simp
    then show ?thesis using a Cancel by (auto simp: cancel_begin_def split: sum.splits intro!: all_sessions_upd)
  next
    case (CloseBegin sid)
    then show ?thesis using a fin by (auto simp: close_begin_def split: sum.splits intro!: all_sessions_upd)
  next
    case (CleanupTimeout sid)
    then show ?thesis using a by (auto simp: cleanup_timed_out_def Let_def core_def intro!: keep_upd_core)
  next
    case ShutdownBegin
    then show ?thesis using a fin by (auto simp: shutdown_begin_def all_sessions_def)
  next
    case (Cleanup sid oc)
    then show ?thesis using a clean by simp
  next
    case (CloseFinish sid epoch)
    then show ?thesis using a by (auto simp: close_finish_def all_sessions_def split: option.splits)
  next
    case ShutdownEnd
    then show ?thesis using a by (auto simp: shutdown_end_def all_sessions_def)
  qed (use a c new poll in \<open>simp_all add: keep_create keep_push keep_finish keep_poll keep_complete\<close>)
qed

end

locale session_invariant = session_steps +
  assumes P_new: "config_ok c \<Longrightarrow> P c sid (new_runtime c sid epoch fin)"
    and P_poll: "P c sid rt \<Longrightarrow> P c sid (rt\<lparr>rt_outputs := []\<rparr>)"
begin

lemma keep_exec: "config_ok c \<Longrightarrow> all_sessions (P c) s \<Longrightarrow> all_sessions (P c) (exec env c s ev)"
  by (rule keep_exec_unless) (auto intro: P_new P_poll)

lemma keep_run: "config_ok c \<Longrightarrow> all_sessions (P c) s \<Longrightarrow> all_sessions (P c) (foldl (exec env c) s evs)"
  by (induction evs arbitrary: s) (simp_all add: keep_exec)

lemma keep_reachable: "config_ok c \<Longrightarrow> all_sessions (P c) (foldl (exec env c) new_orchestrator evs)"
  by (rule keep_run) (simp_all add: all_sessions_def new_orchestrator_def)

end

end
