(* ===== verification/Stream_Bounds.thy ===== *)
theory Stream_Bounds
  imports Stream_Safety
begin

text \<open>
  Bounded buffers of the streaming orchestrator: with the room reserved by the invocations in
  flight, no edge holds more artifacts than its capacity and no output buffer more than its
  own; and the limits on concurrency per session, per stage and per resource group.
\<close>

section \<open>Who waits for a slot\<close>

definition slot_waits :: "'v slots \<Rightarrow> int \<Rightarrow> string \<Rightarrow> string \<Rightarrow> bool" where
  "slot_waits d q a x \<longleftrightarrow> (\<exists>sl. od_get d (q, a) = Some sl \<and> x \<in> sl_remaining sl)"

lemma waits_for_slot: "waits_for rt q a x = slot_waits (rt_artifacts rt) q a x"
  by (auto simp: waits_for_def slot_waits_def split: option.splits)

lemma slot_waits_put [simp]:
  "slot_waits (od_put (q, a) sl d) q' b x \<longleftrightarrow> (if q' = q \<and> b = a then x \<in> sl_remaining sl else slot_waits d q' b x)"
  by (auto simp: slot_waits_def)

lemma slot_waits_del [simp]:
  "slot_waits (od_del (q, a) d) q' b x \<longleftrightarrow> \<not> (q' = q \<and> b = a) \<and> slot_waits d q' b x"
  by (auto simp: slot_waits_def)

lemma take_waits:
  "slot_waits (snd (take_inputs sid q as d)) q' b x \<longleftrightarrow> slot_waits d q' b x \<and> \<not> (q' = q \<and> b \<in> set as \<and> x = sid)"
proof (induction as arbitrary: d)
  case (Cons a as)
  show ?case
  proof (cases "od_get d (q, a)")
    case None
    then have "\<not> slot_waits d q a x" for x by (simp add: slot_waits_def)
    with None Cons [of d] show ?thesis by auto
  next
    case (Some sl)
    then have w: "slot_waits d q a x \<longleftrightarrow> x \<in> sl_remaining sl" for x by (simp add: slot_waits_def)
    with Some Cons show ?thesis by (auto simp: Let_def)
  qed
qed simp

lemma take_names: "fst ` set (fst (take_inputs sid q as d)) = {a \<in> set as. od_get d (q, a) \<noteq> None}"
proof (induction as arbitrary: d)
  case (Cons a as)
  show ?case
  proof (cases "od_get d (q, a)")
    case None
    with Cons [of d] show ?thesis by auto
  next
    case (Some sl)
    with Cons show ?thesis by (auto simp: Let_def)
  qed
qed simp

lemma restore_waits:
  "slot_waits (restore_inputs sid q ins d) q' b x \<longleftrightarrow> slot_waits d q' b x \<or> (q' = q \<and> b \<in> fst ` set ins \<and> x = sid)"
proof (induction ins arbitrary: d)
  case (Cons i ins)
  obtain a v where i: "i = (a, v)" by (cases i)
  show ?case
  proof (cases "od_get d (q, a)")
    case None
    then have "\<not> slot_waits d q a x" for x by (simp add: slot_waits_def)
    with None i Cons show ?thesis by auto
  next
    case (Some sl)
    then have w: "slot_waits d q a x \<longleftrightarrow> x \<in> sl_remaining sl" for x by (simp add: slot_waits_def)
    with Some i Cons show ?thesis by auto
  qed
qed simp

lemma restore_take_waits:
  assumes "inputs_ready rt st q"
  shows "slot_waits (restore_inputs (sg_stage_id st) q (fst (take_inputs (sg_stage_id st) q (sg_consumes st) (rt_artifacts rt)))
      (snd (take_inputs (sg_stage_id st) q (sg_consumes st) (rt_artifacts rt)))) q' b x
    \<longleftrightarrow> slot_waits (rt_artifacts rt) q' b x"
  using assms unfolding restore_waits take_waits take_names
  by (auto simp: inputs_ready_def waits_for_slot) (auto simp: slot_waits_def)

lemma od_ok_take: "od_ok d \<Longrightarrow> od_ok (snd (take_inputs sid q as d))"
  by (induction as arbitrary: d) (auto simp: Let_def split: option.splits)

lemma od_ok_restore: "od_ok d \<Longrightarrow> od_ok (restore_inputs sid q ins d)"
proof (induction ins arbitrary: d)
  case (Cons i ins)
  obtain a v where "i = (a, v)" by (cases i)
  with Cons show ?case by (simp split: option.splits)
qed simp

lemma store_inputs_waits:
  "slot_waits (store_inputs c q ins d) q' b x \<Longrightarrow> slot_waits d q' b x \<or> (q' = q \<and> b \<in> fst ` set ins)"
proof (induction ins arbitrary: d)
  case (Cons i ins)
  obtain a v where "i = (a, v)" by (cases i)
  with Cons.prems Cons.IH show ?case by (fastforce split: if_splits)
qed simp

lemma od_ok_store_inputs: "od_ok d \<Longrightarrow> od_ok (store_inputs c q ins d)"
  by (induction c q ins d rule: store_inputs.induct) simp_all

lemma store_results_waits:
  "slot_waits (rt_artifacts (store_results c sid q res rt)) q' b x \<Longrightarrow>
     slot_waits (rt_artifacts rt) q' b x \<or> (q' = q \<and> b \<in> fst ` set res)"
proof (induction res arbitrary: rt)
  case (Cons r res)
  obtain a v where r: "r = (a, v)" by (cases r)
  from Cons.prems Cons.IH r show ?case
    by (auto simp: Let_def split: if_splits) (fastforce split: if_splits)+
qed simp

section \<open>Counting\<close>

lemma tally_card: "od_ok d \<Longrightarrow> tally P d = card {k. \<exists>v. od_get d k = Some v \<and> P (k, v)}"
proof (induction d)
  case (Cons e d)
  obtain k v where e: "e = (k, v)" by (cases e)
  then have ok: "od_ok d" and k: "od_get d k = None"
    using Cons.prems by (auto simp: od_ok_def map_of_eq_None_iff)
  let ?S = "{j. \<exists>v. od_get d j = Some v \<and> P (j, v)}"
  have f: "finite ?S" by (rule finite_subset [OF _ finite_dom_map_of [of d]]) auto
  have "{j. \<exists>w. od_get (e # d) j = Some w \<and> P (j, w)} = (if P (k, v) then insert k ?S else ?S)"
    using k e by auto
  moreover have "k \<notin> ?S" using k by simp
  ultimately show ?case using Cons.IH [OF ok] f e by (simp add: tally_def)
qed (simp add: tally_def)

lemma tally_del:
  "od_ok d \<Longrightarrow> od_get d k = Some v \<Longrightarrow> tally P (od_del k d) + (if P (k, v) then 1 else 0) = tally P d"
proof -
  assume a: "od_ok d" "od_get d k = Some v"
  have "{j. \<exists>w. od_get (od_del k d) j = Some w \<and> P (j, w)} = {j. \<exists>w. od_get d j = Some w \<and> P (j, w)} - {k}"
    by auto
  moreover have "finite {j. \<exists>w. od_get d j = Some w \<and> P (j, w)}"
    by (rule finite_subset [OF _ finite_dom_map_of [of d]]) auto
  ultimately show ?thesis
    using a card.remove [of "{j. \<exists>w. od_get d j = Some w \<and> P (j, w)}" k] by (auto simp: tally_card)
qed

lemma tally_del_le: "tally P (od_del k d) \<le> tally P d"
proof (induction d)
  case (Cons a d)
  then show ?case by (cases a) (auto simp: tally_def)
qed (simp add: tally_def)

lemma waits_finite: "finite {q. slot_waits d q a x}"
proof -
  have "(\<lambda>q. (q, a)) ` {q. slot_waits d q a x} \<subseteq> dom (od_get d)" by (auto simp: slot_waits_def)
  then have "finite ((\<lambda>q. (q, a)) ` {q. slot_waits d q a x})" by (rule finite_subset) (rule finite_dom_map_of)
  then show ?thesis by (rule finite_imageD) (simp add: inj_on_def)
qed

lemma edge_occupancy_card:
  assumes "od_ok (rt_artifacts rt)"
  shows "edge_occupancy rt e = card {q. slot_waits (rt_artifacts rt) q (eg_artifact e) (eg_target_stage e)}"
  unfolding edge_occupancy_def tally_card [OF assms]
  by (rule trans [OF arg_cong [where f = card and y = "(\<lambda>q. (q, eg_artifact e)) `
        {q. slot_waits (rt_artifacts rt) q (eg_artifact e) (eg_target_stage e)}"] card_image])
    (auto simp: slot_waits_def inj_on_def)

lemma edge_occupancy_le:
  assumes "od_ok (rt_artifacts rt)" and "od_ok (rt_artifacts rt')"
    and "\<And>q. slot_waits (rt_artifacts rt') q (eg_artifact e) (eg_target_stage e) \<Longrightarrow>
      slot_waits (rt_artifacts rt) q (eg_artifact e) (eg_target_stage e) \<or> (extra \<and> q = q0)"
  shows "edge_occupancy rt' e \<le> edge_occupancy rt e + (if extra then 1 else 0)"
proof -
  let ?A = "\<lambda>rt. {q. slot_waits (rt_artifacts rt) q (eg_artifact e) (eg_target_stage e)}"
  have "?A rt' \<subseteq> (if extra then insert q0 (?A rt) else ?A rt)" using assms(3) by auto
  then have "card (?A rt') \<le> card (if extra then insert q0 (?A rt) else ?A rt)"
    by (rule card_mono [rotated]) (simp add: waits_finite)
  also have "\<dots> \<le> card (?A rt) + (if extra then 1 else 0)" by (simp add: card_insert_le_m1 card_insert_if waits_finite)
  finally show ?thesis by (simp add: edge_occupancy_card assms(1,2))
qed

section \<open>Bounded buffers\<close>

definition buffers_ok :: "config \<Rightarrow> 'v session_runtime \<Rightarrow> bool" where
  "buffers_ok c rt \<longleftrightarrow>
     (\<forall>a. \<forall>e \<in> set (artifact_edges c a).
        int (edge_occupancy rt e + reserved_count c rt a) \<le> eg_capacity_per_session e) \<and>
     (\<forall>a \<in> set (sp_output_artifacts (cf_spec c)).
        int (output_occupancy rt a + reserved_count c rt a) \<le> sp_output_capacity_per_session (cf_spec c))"

definition dicts_ok :: "'v session_runtime \<Rightarrow> bool" where
  "dicts_ok rt \<longleftrightarrow> od_ok (rt_artifacts rt) \<and> od_ok (rt_in_flight rt) \<and> od_ok (rt_pending rt)"

definition bounded :: "config \<Rightarrow> 'v session_runtime \<Rightarrow> bool" where
  "bounded c rt \<longleftrightarrow> dicts_ok rt \<and> (config_ok c \<longrightarrow> buffers_ok c rt)"

lemma buffers_mono:
  assumes "buffers_ok c rt"
    and "\<And>a e. e \<in> set (artifact_edges c a) \<Longrightarrow>
      edge_occupancy rt' e + reserved_count c rt' a \<le> edge_occupancy rt e + reserved_count c rt a"
    and "\<And>a. output_occupancy rt' a + reserved_count c rt' a \<le> output_occupancy rt a + reserved_count c rt a"
  shows "buffers_ok c rt'"
  using assms unfolding buffers_ok_def by (meson of_nat_mono order_trans)

text \<open>The entries of the pending outputs are counted like those of the edges.\<close>

lemma output_occupancy_pending:
  "od_ok (rt_pending rt) \<Longrightarrow> output_occupancy rt a = length (filter (\<lambda>(q, b, v). b = a) (rt_outputs rt))
     + card {q. od_get (rt_pending rt) (q, a) \<noteq> None}"
  unfolding output_occupancy_def
  by (simp only: tally_card add_left_cancel)
    (rule trans [OF arg_cong [where f = card and y = "(\<lambda>q. (q, a)) ` {q. od_get (rt_pending rt) (q, a) \<noteq> None}"]
        card_image], auto simp: inj_on_def)

lemma pending_finite: "finite {q. od_get d (q, a) \<noteq> None}"
proof -
  have "(\<lambda>q. (q, a)) ` {q. od_get d (q, a) \<noteq> None} \<subseteq> dom (od_get d)" by auto
  then have "finite ((\<lambda>q. (q, a)) ` {q. od_get d (q, a) \<noteq> None})" by (rule finite_subset) (rule finite_dom_map_of)
  then show ?thesis by (rule finite_imageD) (simp add: inj_on_def)
qed

lemma pending_finite_ex [simp]: "finite {q. \<exists>y. od_get d (q, a) = Some y}"
  using pending_finite [of d a] by simp

lemma store_results_fields [simp]:
  "rt_in_flight (store_results c sid q res rt) = rt_in_flight rt"
  "rt_outputs (store_results c sid q res rt) = rt_outputs rt"
  "rt_status (store_results c sid q res rt) = rt_status rt"
  "rt_frontiers (store_results c sid q res rt) = rt_frontiers rt"
  "rt_next_emit (store_results c sid q res rt) = rt_next_emit rt"
  "rt_epoch (store_results c sid q res rt) = rt_epoch rt"
  "rt_session_id (store_results c sid q res rt) = rt_session_id rt"
  by (induction c sid q res rt rule: store_results.induct) (simp_all add: Let_def)

lemma store_results_pending:
  "od_get (rt_pending (store_results c sid q res rt)) (q', b) \<noteq> None \<Longrightarrow>
     od_get (rt_pending rt) (q', b) \<noteq> None \<or> (q' = q \<and> b \<in> fst ` set res)"
proof (induction res arbitrary: rt)
  case (Cons r res)
  obtain a v where r: "r = (a, v)" by (cases r)
  from Cons.prems Cons.IH r show ?case
    by (auto simp: Let_def split: if_splits) (fastforce split: if_splits)+
qed simp

lemma dicts_store_results: "dicts_ok rt \<Longrightarrow> dicts_ok (store_results c sid q res rt)"
proof (induction res arbitrary: rt)
  case (Cons r res)
  obtain a v where r: "r = (a, v)" by (cases r)
  show ?case unfolding r store_results.simps Let_def
    by (rule Cons.IH) (use Cons.prems in \<open>simp add: dicts_ok_def\<close>)
qed simp

lemma emit_artifacts_fields [simp]:
  "rt_artifacts (emit_artifacts q as rt) = rt_artifacts rt"
  "rt_in_flight (emit_artifacts q as rt) = rt_in_flight rt"
  "rt_status (emit_artifacts q as rt) = rt_status rt"
  "rt_frontiers (emit_artifacts q as rt) = rt_frontiers rt"
  "rt_epoch (emit_artifacts q as rt) = rt_epoch rt"
  "rt_session_id (emit_artifacts q as rt) = rt_session_id rt"
  by (induction as arbitrary: rt) (auto split: option.splits)

lemma emit_artifacts_occupancy:
  "od_ok (rt_pending rt) \<Longrightarrow>
     od_ok (rt_pending (emit_artifacts q as rt)) \<and>
     output_occupancy (emit_artifacts q as rt) b = output_occupancy rt b"
proof (induction as arbitrary: rt)
  case (Cons a as)
  show ?case
  proof (cases "od_get (rt_pending rt) (q, a)")
    case (Some v)
    let ?rt = "rt\<lparr>rt_pending := od_del (q, a) (rt_pending rt), rt_outputs := rt_outputs rt @ [(q, a, v)]\<rparr>"
    have "output_occupancy ?rt b = output_occupancy rt b"
      using tally_del [OF Cons.prems Some, of "\<lambda>((q, b'), v). b' = b"]
      by (auto simp: output_occupancy_def split: if_splits)
    with Cons.IH [of ?rt] Cons.prems Some show ?thesis by simp
  qed (use Cons in simp)
qed simp

lemma emit_ready_outputs_keeps:
  "rt_artifacts (emit_ready_outputs c t rt) = rt_artifacts rt \<and>
   rt_in_flight (emit_ready_outputs c t rt) = rt_in_flight rt \<and>
   rt_status (emit_ready_outputs c t rt) = rt_status rt \<and>
   rt_frontiers (emit_ready_outputs c t rt) = rt_frontiers rt \<and>
   rt_epoch (emit_ready_outputs c t rt) = rt_epoch rt \<and>
   rt_session_id (emit_ready_outputs c t rt) = rt_session_id rt \<and>
   (od_ok (rt_pending rt) \<longrightarrow>
     od_ok (rt_pending (emit_ready_outputs c t rt)) \<and>
     (\<forall>b. output_occupancy (emit_ready_outputs c t rt) b = output_occupancy rt b))"
proof (induction c t rt rule: emit_ready_outputs.induct)
  case (1 c t rt)
  have "output_occupancy (rt'\<lparr>rt_emitted := x, rt_next_emit := y\<rparr>) b = output_occupancy rt' b" for rt' :: "'a session_runtime" and x y b
    by (simp add: output_occupancy_def)
  with 1 show ?case
    using emit_artifacts_occupancy [of rt "rt_next_emit rt" "output_names c"]
    by (subst (1 2 3 4 5 6 7 8) emit_ready_outputs.simps) (auto simp: emit_sequence_def Let_def)
qed

lemma reserved_le_off: "reserved_count c (rt\<lparr>rt_in_flight := od_del k (rt_in_flight rt)\<rparr>) a \<le> reserved_count c rt a"
  by (simp add: reserved_count_def tally_del_le)

lemma same_slots_occupancy [simp]:
  "edge_occupancy (rt\<lparr>rt_in_flight := x\<rparr>) e = edge_occupancy rt e"
  "edge_occupancy (rt\<lparr>rt_outputs := y\<rparr>) e = edge_occupancy rt e"
  "edge_occupancy (rt\<lparr>rt_frontiers := z\<rparr>) e = edge_occupancy rt e"
  "output_occupancy (rt\<lparr>rt_in_flight := x\<rparr>) a = output_occupancy rt a"
  "output_occupancy (rt\<lparr>rt_artifacts := w\<rparr>) a = output_occupancy rt a"
  "output_occupancy (rt\<lparr>rt_frontiers := z\<rparr>) a = output_occupancy rt a"
  "reserved_count c (rt\<lparr>rt_artifacts := w\<rparr>) a = reserved_count c rt a"
  "reserved_count c (rt\<lparr>rt_outputs := y\<rparr>) a = reserved_count c rt a"
  "reserved_count c (rt\<lparr>rt_frontiers := z\<rparr>) a = reserved_count c rt a"
  "edge_occupancy (rt\<lparr>rt_accepted := lg\<rparr>) e = edge_occupancy rt e"
  "output_occupancy (rt\<lparr>rt_accepted := lg\<rparr>) a = output_occupancy rt a"
  "reserved_count c (rt\<lparr>rt_accepted := lg\<rparr>) a = reserved_count c rt a"
  by (simp_all add: edge_occupancy_def output_occupancy_def reserved_count_def)

lemma bounded_core: "bounded c rt \<Longrightarrow> core rt' = core rt \<Longrightarrow> bounded c rt'"
  by (simp add: bounded_def dicts_ok_def buffers_ok_def edge_occupancy_def output_occupancy_def
      reserved_count_def core_def)

lemma bounded_new: "config_ok c \<Longrightarrow> bounded c (new_runtime c sid epoch fin)"
proof -
  assume c: "config_ok c"
  then have "1 \<le> sp_output_capacity_per_session (cf_spec c)"
    by (auto simp: config_ok_def spec_built_def pipeline_spec_error_def check_def split: if_splits)
  moreover have "e \<in> set (artifact_edges c a) \<Longrightarrow> 1 \<le> eg_capacity_per_session e" for a e
    using config_edge [OF c] by blast
  ultimately show ?thesis
    by (fastforce simp: bounded_def dicts_ok_def buffers_ok_def edge_occupancy_def output_occupancy_def
        reserved_count_def new_runtime_def tally_def)
qed

lemma bounded_stop: "bounded c rt \<Longrightarrow> bounded c (discard_buffered (rt\<lparr>rt_status := st\<rparr>))"
proof -
  assume b: "bounded c rt"
  let ?rt = "discard_buffered (rt\<lparr>rt_status := st\<rparr>)"
  have "edge_occupancy ?rt e = 0" "output_occupancy ?rt a = 0" "reserved_count c ?rt a = reserved_count c rt a" for e a
    by (simp_all add: edge_occupancy_def output_occupancy_def reserved_count_def discard_buffered_def tally_def)
  note le = this
  have "buffers_ok c ?rt" if "config_ok c"
    by (rule buffers_mono [of c rt]) (use that b le in \<open>simp_all add: bounded_def\<close>)
  then show ?thesis using b by (simp add: bounded_def dicts_ok_def discard_buffered_def)
qed

lemma bounded_return:
  assumes "bounded c rt" and "inputs_ready rt st q"
  shows "bounded c (rt\<lparr>rt_artifacts := restore_inputs (sg_stage_id st) q
      (fst (take_inputs (sg_stage_id st) q (sg_consumes st) (rt_artifacts rt)))
      (snd (take_inputs (sg_stage_id st) q (sg_consumes st) (rt_artifacts rt)))\<rparr>)" (is "bounded c ?rt")
proof -
  have ok: "dicts_ok rt" using assms by (simp add: bounded_def)
  then have ok': "od_ok (rt_artifacts ?rt)" by (simp add: dicts_ok_def od_ok_take od_ok_restore)
  have "edge_occupancy ?rt e \<le> edge_occupancy rt e" for e
    using edge_occupancy_le [of rt ?rt e False] ok ok' restore_take_waits [OF assms(2)]
    by (simp add: dicts_ok_def)
  note le = this
  have "buffers_ok c ?rt" if "config_ok c"
    by (rule buffers_mono [of c rt]) (use that assms le in \<open>simp_all add: bounded_def\<close>)
  with ok ok' show ?thesis by (simp add: bounded_def dicts_ok_def)
qed

lemma bounded_admit:
  assumes c: "config_ok c" and b: "bounded c rt" and st: "st \<in> set (sp_stages (cf_spec c))"
    and r: "runnable_sequence rt st = Some q" and cap: "has_output_capacity c rt st"
  shows "bounded c (rt\<lparr>rt_artifacts := snd (take_inputs (sg_stage_id st) q (sg_consumes st) (rt_artifacts rt)),
      rt_in_flight := od_put (sg_stage_id st, q) key (rt_in_flight rt), rt_accepted := lg\<rparr>)" (is "bounded c ?rt")
proof -
  have ok: "dicts_ok rt" and B: "buffers_ok c rt" using b c by (simp_all add: bounded_def)
  have fresh: "od_get (rt_in_flight rt) (sg_stage_id st, q) = None"
    using r by (auto simp: runnable_sequence_def find_Some_iff split: if_splits)
  have pr: "produces_artifact c (sg_stage_id st) a \<longleftrightarrow> a \<in> set (sg_produces st)" for a
    by (simp add: produces_artifact_def stage_of_in [OF c st])
  have rc: "reserved_count c ?rt a = reserved_count c rt a + (if a \<in> set (sg_produces st) then 1 else 0)" for a
    using tally_absent [OF fresh] by (simp add: reserved_count_def pr)
  have eo: "edge_occupancy ?rt e \<le> edge_occupancy rt e" for e
    using edge_occupancy_le [of rt ?rt e False] ok by (simp add: dicts_ok_def od_ok_take take_waits)
  have "int (edge_occupancy ?rt e + reserved_count c ?rt a) \<le> eg_capacity_per_session e"
    if e: "e \<in> set (artifact_edges c a)" for a e
  proof (cases "a \<in> set (sg_produces st)")
    case True
    then have "int (edge_occupancy rt e + reserved_count c rt a) < eg_capacity_per_session e"
      using cap e config_edge [OF c e] pr unfolding has_output_capacity_def by metis
    with eo [of e] True show ?thesis unfolding rc by simp
  next
    case False
    have "int (edge_occupancy rt e + reserved_count c rt a) \<le> eg_capacity_per_session e"
      using B e unfolding buffers_ok_def by blast
    with eo [of e] False show ?thesis unfolding rc by simp
  qed
  moreover have "int (output_occupancy ?rt a + reserved_count c ?rt a) \<le> sp_output_capacity_per_session (cf_spec c)"
    if "a \<in> set (sp_output_artifacts (cf_spec c))" for a
    using B cap that rc [of a] unfolding buffers_ok_def has_output_capacity_def
    by (cases "a \<in> set (sg_produces st)") fastforce+
  ultimately show ?thesis
    using ok by (simp add: bounded_def dicts_ok_def buffers_ok_def od_ok_take)
qed

lemma input_error_None:
  "input_error c rt q as = None \<Longrightarrow> a \<in> set as \<Longrightarrow> e \<in> set (artifact_edges c a) \<Longrightarrow> eg_source_stage e = None"
  by (induction as) (auto simp: external_input_edges_def Let_def split: if_splits sum.splits)

lemma bounded_push:
  assumes c: "config_ok c" and b: "bounded c rt" and err: "input_error c rt q (map fst ins) = None"
    and room: "input_room c rt (map fst ins)"
  shows "bounded c (rt\<lparr>rt_artifacts := store_inputs c q ins (rt_artifacts rt)\<rparr>)" (is "bounded c ?rt")
proof -
  have ok: "dicts_ok rt" and B: "buffers_ok c rt" using b c by (simp_all add: bounded_def)
  have "int (edge_occupancy ?rt e + reserved_count c ?rt a) \<le> eg_capacity_per_session e"
    if e: "e \<in> set (artifact_edges c a)" for a e
  proof -
    have eo: "edge_occupancy ?rt e \<le> edge_occupancy rt e + (if a \<in> fst ` set ins then 1 else 0)"
      using ok store_inputs_waits config_edge [OF c e]
      by (intro edge_occupancy_le [where ?q0.0 = q]) (auto simp: dicts_ok_def od_ok_store_inputs dest!: store_inputs_waits)
    have le: "int (edge_occupancy rt e + reserved_count c rt a) \<le> eg_capacity_per_session e"
      using B e unfolding buffers_ok_def by blast
    show ?thesis
    proof (cases "a \<in> fst ` set ins")
      case True
      then have "eg_source_stage e = None" using input_error_None [OF err _ e] by simp
      then have "\<not> produces_artifact c sid a" for sid using config_edge [OF c e] by auto
      then have "reserved_count c rt a = 0" by (simp add: reserved_count_def tally_def split_beta)
      moreover have "int (edge_occupancy rt e) < eg_capacity_per_session e"
        using room True e by (auto simp: input_room_def)
      ultimately show ?thesis using eo True by simp
    qed (use eo le in simp)
  qed
  then show ?thesis
    using ok B by (auto simp: bounded_def dicts_ok_def buffers_ok_def od_ok_store_inputs)
qed

lemma bounded_results:
  assumes c: "config_ok c" and b: "bounded c rt" and st: "st \<in> set (sp_stages (cf_spec c))"
    and k: "od_get (rt_in_flight rt) (sg_stage_id st, q) \<noteq> None" and res: "fst ` set res = set (sg_produces st)"
  shows "bounded c (after_results c t st q res rt)"
proof -
  let ?off = "rt\<lparr>rt_in_flight := od_del (sg_stage_id st, q) (rt_in_flight rt)\<rparr>"
  let ?st = "store_results c (sg_stage_id st) q res ?off" and ?rt = "after_results c t st q res rt"
  have ok: "dicts_ok rt" and B: "buffers_ok c rt" using b c by (simp_all add: bounded_def)
  have ok1: "dicts_ok ?st" using ok by (intro dicts_store_results) (simp add: dicts_ok_def)
  note E = emit_ready_outputs_keeps [of c t ?st]
  have [simp]: "rt_artifacts ?rt = rt_artifacts ?st" "rt_in_flight ?rt = od_del (sg_stage_id st, q) (rt_in_flight rt)"
      "rt_pending ?rt = rt_pending (emit_ready_outputs c t ?st)"
    using E by (simp_all add: after_results_def Let_def)
  have oo: "output_occupancy ?rt a = output_occupancy ?st a" for a
    using E ok1 by (simp add: after_results_def Let_def dicts_ok_def)
  have okr: "dicts_ok ?rt" using E ok1 ok by (simp add: dicts_ok_def)
  have pr: "produces_artifact c (sg_stage_id st) a \<longleftrightarrow> a \<in> set (sg_produces st)" for a
    by (simp add: produces_artifact_def stage_of_in [OF c st])
  have rc: "reserved_count c ?rt a + (if a \<in> fst ` set res then 1 else 0) = reserved_count c rt a" for a
    using k tally_del [of "rt_in_flight rt" "(sg_stage_id st, q)" _ "\<lambda>((sid, q), k). produces_artifact c sid a"] ok
    by (auto simp: reserved_count_def dicts_ok_def pr res)
  have "edge_occupancy ?rt e \<le> edge_occupancy rt e + (if a \<in> fst ` set res then 1 else 0)"
    if "e \<in> set (artifact_edges c a)" for a e
    using config_edge [OF c that] ok okr store_results_waits [of c "sg_stage_id st" q res ?off]
    by (intro edge_occupancy_le [where ?q0.0 = q]) (auto simp: dicts_ok_def)
  moreover have "output_occupancy ?st a \<le> output_occupancy rt a + (if a \<in> fst ` set res then 1 else 0)" for a
  proof -
    let ?A = "\<lambda>r. {q. od_get (rt_pending r) (q, a) \<noteq> None}"
    have "?A ?st \<subseteq> (if a \<in> fst ` set res then insert q (?A rt) else ?A rt)"
      using store_results_pending [of c "sg_stage_id st" q res ?off _ a] by (auto split: if_splits)
    then have "card (?A ?st) \<le> card (if a \<in> fst ` set res then insert q (?A rt) else ?A rt)"
      by (rule card_mono [rotated]) (simp add: pending_finite)
    also have "\<dots> \<le> card (?A rt) + (if a \<in> fst ` set res then 1 else 0)"
      by (simp add: card_insert_if pending_finite)
    finally show ?thesis using ok ok1 by (simp add: output_occupancy_pending dicts_ok_def)
  qed
  ultimately have "buffers_ok c ?rt"
    by (intro buffers_mono [OF B]) (fastforce simp: rc [symmetric] oo)+
  then show ?thesis using okr by (simp add: bounded_def)
qed

interpretation buf: session_invariant "\<lambda>c sid. bounded c"
proof
  fix c :: config and rt :: "'a session_runtime"
  assume "bounded c rt"
  then have "dicts_ok rt" and B: "config_ok c \<Longrightarrow> buffers_ok c rt" by (simp_all add: bounded_def)
  then have ok: "dicts_ok (rt\<lparr>rt_outputs := []\<rparr>)" "dicts_ok (rt\<lparr>rt_in_flight := od_del k (rt_in_flight rt)\<rparr>)" for k
    by (simp_all add: dicts_ok_def)
  have "buffers_ok c (rt\<lparr>rt_outputs := []\<rparr>)" if "config_ok c"
    by (rule buffers_mono [OF B [OF that]]) (simp_all add: output_occupancy_def reserved_count_def)
  then show "bounded c (rt\<lparr>rt_outputs := []\<rparr>)" using ok by (simp add: bounded_def)
  have "buffers_ok c (rt\<lparr>rt_in_flight := od_del k (rt_in_flight rt)\<rparr>)" if "config_ok c" for k
    by (rule buffers_mono [OF B [OF that]]) (simp_all add: reserved_le_off)
  then show "bounded c (rt\<lparr>rt_in_flight := od_del k (rt_in_flight rt)\<rparr>)" for k
    using ok by (simp add: bounded_def)
qed (rule bounded_new bounded_stop bounded_return bounded_admit bounded_push bounded_results bounded_core; assumption)+

section \<open>Limits on concurrency\<close>

text \<open>The invocations in flight, over all sessions, of the stages that satisfy a predicate.\<close>

definition usage :: "(string \<Rightarrow> bool) \<Rightarrow> 'v orchestrator \<Rightarrow> nat" where
  "usage p s = sum_list (map (tally (\<lambda>((x, q), k). p x)) (od_vals (flights s)))"

lemma stage_usage: "stage_in_flight_count s sid = usage (\<lambda>x. x = sid) s"
  by (simp add: stage_in_flight_count_def usage_def flights_def od_map_def session_stage_count_def comp_def split_beta)

lemma group_usage: "group_in_flight_count c s g = usage (\<lambda>x. in_group c x g) s"
  by (simp add: group_in_flight_count_def usage_def flights_def od_map_def session_group_count_def comp_def split_beta)

lemma usage_cong: "flights s' = flights s \<Longrightarrow> usage p s' = usage p s"
  by (simp add: usage_def)

lemma sum_list_put:
  "od_get d k = Some w \<Longrightarrow> sum_list (map f (od_vals (od_put k v d))) + f w = sum_list (map f (od_vals d)) + (f v :: nat)"
  by (induction d) (auto split: if_splits)

lemma sum_list_del: "sum_list (map f (od_vals (od_del k d))) \<le> (sum_list (map f (od_vals d)) :: nat)"
  by (induction d) auto

lemma od_map_del: "od_map f (od_del k d) = od_del k (od_map f d)"
  by (induction d) (auto simp: od_map_def)

lemma flights_get: "od_get (flights s) sid = map_option rt_in_flight (od_get (or_sessions s) sid)"
  by (simp add: flights_def)

lemma usage_accept:
  assumes "od_get (or_sessions s) sid = Some rt" and "runnable_sequence rt st = Some q"
  shows "usage p (accept_task t sid rt st q s) = usage p s + (if p (sg_stage_id st) then 1 else 0)"
proof -
  have fresh: "od_get (rt_in_flight rt) (sg_stage_id st, q) = None"
    using assms(2) by (auto simp: runnable_sequence_def find_Some_iff split: if_splits)
  let ?f = "tally (\<lambda>((x, q), k). p x)" and ?key = "task_key_of s rt st q"
  have "?f (od_put (sg_stage_id st, q) ?key (rt_in_flight rt)) = ?f (rt_in_flight rt) + (if p (sg_stage_id st) then 1 else 0)"
    by (simp add: tally_absent [OF fresh])
  moreover have "od_get (flights s) sid = Some (rt_in_flight rt)" using assms(1) by (simp add: flights_get)
  note sum_list_put [OF this, of ?f "od_put (sg_stage_id st, q) ?key (rt_in_flight rt)"]
  ultimately show ?thesis
    unfolding usage_def flights_accept_task [OF assms(1)] by linarith
qed

text \<open>A limit that the admission check of every counted stage enforces is never exceeded.\<close>

definition enforced :: "config \<Rightarrow> (string \<Rightarrow> bool) \<Rightarrow> nat \<Rightarrow> 'v orchestrator \<Rightarrow> bool" where
  "enforced c p n s \<longleftrightarrow>
     (\<forall>st \<in> set (sp_stages (cf_spec c)). p (sg_stage_id st) \<longrightarrow> has_execution_capacity c s st \<longrightarrow> usage p s < n)"

lemma step_usage:
  "sched_step c t s s' \<Longrightarrow> enforced c p n s \<Longrightarrow> usage p s \<le> n \<Longrightarrow> usage p s' \<le> n"
proof (induction rule: sched_step.induct)
  case (admit s sid rt st q)
  then show ?case by (auto simp: usage_accept enforced_def)
qed (simp_all add: usage_def flights_fail_runtime flights_note_blocking flights_return_inputs)

lemma steps_usage:
  assumes "sched_steps c t s s'" and e: "\<And>s :: 'v orchestrator. enforced c p n s"
    and "usage p (s :: 'v orchestrator) \<le> n"
  shows "usage p s' \<le> n"
  using assms(1,3) by (induction rule: rtranclp_induct) (auto intro: step_usage e)

lemma pump_usage:
  "(\<And>s :: 'v orchestrator. enforced c p n s) \<Longrightarrow> usage p (s :: 'v orchestrator) \<le> n \<Longrightarrow> usage p (pump_all env c t s) \<le> n"
  by (rule steps_usage [OF pump_all_steps])

lemma observe_in_flight [simp]: "rt_in_flight (observe_input_readiness c t rt) = rt_in_flight rt"
  by (rule coreD(6) [OF core_observe])

lemma accept_results_in_flight [simp]: "rt_in_flight (accept_results c t st q res rt) = rt_in_flight rt"
  using emit_ready_outputs_keeps [of c t "store_results c (sg_stage_id st) q res rt"]
  by (simp add: accept_results_def Let_def record_missing_inputs_def)

lemma fail_all_flights: "flights (fail_all_sessions err origin s) = flights s"
proof -
  have "flights (fail_sessions sids err origin s) = flights s" for sids
    by (induction sids arbitrary: s) (simp_all add: flights_fail_runtime)
  then show ?thesis by (simp add: fail_all_sessions_def)
qed

lemma schedule_flights: "flights (schedule_failed_cleanup sid s) = flights s"
  by (auto simp: schedule_failed_cleanup_def flights_upd split: option.splits)

lemma settle_flights: "flights (settle env c t sid key outcome s) = flights s"
  by (auto simp: settle_def actor_failure_def fail_all_flights flights_fail_runtime flights_upd
      split: option.splits completion.splits)

lemma usage_off:
  "usage p (upd_runtime sid (\<lambda>r. set_timing x y None None z (r\<lparr>rt_in_flight := od_del k (rt_in_flight r)\<rparr>)) s) \<le> usage p s"
proof (cases "od_get (or_sessions s) sid")
  case (Some rt)
  let ?f = "tally (\<lambda>((x, q), k). p x)"
  have "sum_list (map ?f (od_vals (od_put sid (od_del k (rt_in_flight rt)) (flights s)))) + ?f (rt_in_flight rt)
      = sum_list (map ?f (od_vals (flights s))) + ?f (od_del k (rt_in_flight rt))"
    by (rule sum_list_put) (simp add: flights_get Some)
  then show ?thesis
    using Some tally_del_le [of "\<lambda>((x, q), k). p x" k "rt_in_flight rt"]
    by (simp add: usage_def upd_runtime_def flights_def od_map_put)
qed (simp add: upd_runtime_def)

lemma exec_usage:
  assumes e: "\<And>s :: 'v orchestrator. enforced c p n s" and u: "usage p (s :: 'v orchestrator) \<le> n"
  shows "usage p (exec env c s ev) \<le> n"
proof -
  have same: "usage p s' \<le> n" if "flights s' = flights s" for s' :: "'v orchestrator"
    using usage_cong [OF that, of p] u by simp
  have pump: "usage p (pump_all env c t s') \<le> n" if "flights s' = flights s" for env t and s' :: "'v orchestrator"
    by (rule pump_usage [OF e same [OF that]])
  obtain t x where [simp]: "ev = (t, x)" by (cases ev)
  show ?thesis
  proof (cases x)
    case (Create sid fin)
    show ?thesis
    proof (cases "od_get (or_sessions s) sid")
      case None
      then have "usage p (s\<lparr>or_epoch := e', or_sessions := od_put sid (new_runtime c sid e' fin) (or_sessions s),
          or_session_order := o'\<rparr>) = usage p s" for e' o'
        by (simp add: usage_def flights_def od_map_def od_put_absent new_runtime_def tally_def)
      then show ?thesis using Create u by (auto simp: create_session_def)
    next
      case (Some rt)
      have "usage p (s\<lparr>or_epoch := e', or_sessions := od_put sid (new_runtime c sid e' fin) (or_sessions s),
          or_session_order := o'\<rparr>) = usage p s" if "rt_in_flight rt = []" for e' o'
        using that Some by (simp add: usage_def flights_def od_map_put new_runtime_def od_put_same)
      then show ?thesis using Create u Some by (auto simp: create_session_def)
    qed
  next
    case (Push sid q ins)
    have "flights (upd_runtime sid (accept_inputs c t q ins) s) = flights s"
      by (rule flights_upd) (simp add: accept_inputs_def Let_def)
    then show ?thesis using Push u by (auto simp: try_push_inputs_def intro!: pump split: sum.splits option.splits)
  next
    case (Finish sid q)
    then show ?thesis using u by (auto simp: finish_inputs_def flights_upd intro!: pump split: sum.splits)
  next
    case (Poll sid)
    then show ?thesis using u by (auto simp: poll_outputs_def flights_upd intro!: pump split: sum.splits)
  next
    case (Completion key outcome)
    have stray: "usage p (pump_all env c t (count_stray key s)) \<le> n"
        "usage p (pump_all env c t (s\<lparr>or_stale_epoch_results := m\<rparr>)) \<le> n" for m
      by (rule pump, simp add: count_stray_def flights_def)+
    have off: "usage p (schedule_failed_cleanup sid (settle env c t sid key outcome (record_terminal_key key
        (upd_runtime sid (\<lambda>r. set_timing a b None None z (r\<lparr>rt_in_flight := od_del k (rt_in_flight r)\<rparr>)) s)))) \<le> n" for sid a b z k
      using usage_off [of p sid a b z k s] u
      by (simp add: usage_def schedule_flights settle_flights record_terminal_key_def) (simp add: flights_def)
    show ?thesis
      using stray pump_usage [OF e off] unfolding Completion \<open>ev = (t, x)\<close> exec.simps complete_def Let_def
      by (simp split: option.splits)
  next
    case (Cancel sid)
    then show ?thesis using u by (auto simp: cancel_begin_def discard_buffered_def flights_upd intro!: same split: sum.splits)
  next
    case (CloseBegin sid)
    then show ?thesis
      using u by (auto simp: close_begin_def end_session_def discard_buffered_def flights_upd intro!: same split: sum.splits)
  next
    case (Cleanup sid oc)
    then show ?thesis
      using u by (auto simp: cleanup_drained_def Let_def discard_buffered_def split: option.splits prod.splits
          intro!: same flights_upd [THEN trans]) (simp_all add: flights_def)
  next
    case (CleanupTimeout sid)
    then show ?thesis
      using u by (auto simp: cleanup_timed_out_def Let_def intro!: same flights_upd [THEN trans]) (simp add: flights_def)
  next
    case (CloseFinish sid epoch)
    have "usage p (s\<lparr>or_sessions := od_del sid (or_sessions s), or_session_order := o'\<rparr>) \<le> usage p s" for o'
    proof -
      have "od_map rt_in_flight (od_del sid (or_sessions s)) = od_del sid (flights s)"
        by (simp add: flights_def od_map_del)
      then show ?thesis
        using sum_list_del [of _ sid "flights s"] by (simp only: usage_def) (simp add: flights_def)
    qed
    then show ?thesis using CloseFinish u by (auto simp: close_finish_def split: option.splits intro: order_trans)
  next
    case ShutdownBegin
    then show ?thesis using u
      by (auto simp: shutdown_begin_def flights_def od_map_def comp_def split_beta end_session_def discard_buffered_def intro!: same)
  next
    case ShutdownEnd
    then show ?thesis using u by (simp add: shutdown_end_def usage_def flights_def od_map_def)
  qed
qed

section \<open>What is in flight\<close>

text \<open>Every entry is filed under its own key; a stage stays within its limit for the session and a
  strict stage works on its frontier; a session that has ended holds no artifact.\<close>

definition keys_ok :: "'v session_runtime \<Rightarrow> bool" where
  "keys_ok rt \<longleftrightarrow> od_ok (rt_in_flight rt) \<and>
     (\<forall>x q k. od_get (rt_in_flight rt) (x, q) = Some k \<longrightarrow>
        tk_stage_id k = x \<and> tk_sequence_id k = q \<and> tk_session_id k = rt_session_id rt \<and>
        tk_session_epoch k = rt_epoch rt)"

definition stage_ok :: "'v session_runtime \<Rightarrow> stage_spec \<Rightarrow> bool" where
  "stage_ok rt st \<longleftrightarrow>
     int (session_stage_count rt (sg_stage_id st)) \<le> sg_max_in_flight_per_session st \<and>
     (sg_ordering st = PER_SESSION_STRICT \<longrightarrow> rt_status rt = SESSION_RUNNING \<longrightarrow>
        (\<forall>q. od_get (rt_in_flight rt) (sg_stage_id st, q) \<noteq> None \<longrightarrow> q = frontier_of rt (sg_stage_id st)))"

definition emptied :: "'v session_runtime \<Rightarrow> bool" where
  "emptied rt \<longleftrightarrow> rt_artifacts rt = [] \<and> rt_outputs rt = [] \<and> rt_pending rt = []"

definition flow_ok :: "config \<Rightarrow> 'v session_runtime \<Rightarrow> bool" where
  "flow_ok c rt \<longleftrightarrow> keys_ok rt \<and> (\<forall>st \<in> set (sp_stages (cf_spec c)). config_ok c \<longrightarrow> stage_ok rt st) \<and>
     (rt_status rt \<noteq> SESSION_RUNNING \<longrightarrow> emptied rt)"

lemma stage_bounds:
  assumes "config_ok c" and "st \<in> set (sp_stages (cf_spec c))"
  shows "1 \<le> sg_max_in_flight_per_session st \<and> 1 \<le> sg_max_in_flight_global st \<and> sg_consumes st \<noteq> [] \<and>
    (sg_ordering st = PER_SESSION_STRICT \<longrightarrow> sg_max_in_flight_per_session st = 1)"
proof -
  have "stage_spec_error st = None" using assms unfolding config_ok_def spec_built_def by blast
  then show ?thesis by (auto simp: stage_spec_error_def check_def split: if_splits)
qed

lemma flow_core: "flow_ok c rt \<Longrightarrow> core rt' = core rt \<Longrightarrow> flow_ok c rt'"
  by (simp add: flow_ok_def keys_ok_def stage_ok_def emptied_def session_stage_count_def frontier_of_def core_def)

lemma flow_new: "config_ok c \<Longrightarrow> flow_ok c (new_runtime c sid epoch fin)"
  using stage_bounds [of c]
  by (fastforce simp: flow_ok_def keys_ok_def stage_ok_def new_runtime_def session_stage_count_def tally_def)

lemma flow_slots:
  "flow_ok c rt \<Longrightarrow> rt_status rt = SESSION_RUNNING \<or> d = [] \<Longrightarrow> flow_ok c (rt\<lparr>rt_artifacts := d\<rparr>)"
  by (auto simp: flow_ok_def keys_ok_def stage_ok_def emptied_def session_stage_count_def frontier_of_def)

lemma flow_stop: "flow_ok c rt \<Longrightarrow> st \<noteq> SESSION_RUNNING \<Longrightarrow> flow_ok c (discard_buffered (rt\<lparr>rt_status := st\<rparr>))"
  by (simp add: flow_ok_def keys_ok_def stage_ok_def emptied_def session_stage_count_def discard_buffered_def)

lemma take_empty: "take_inputs sid q as [] = ([], [])"
  by (induction as) simp_all

lemma flow_return:
  "flow_ok c rt \<Longrightarrow> flow_ok c (rt\<lparr>rt_artifacts := restore_inputs x q (fst (take_inputs x q as (rt_artifacts rt)))
     (snd (take_inputs x q as (rt_artifacts rt)))\<rparr>)"
  by (rule flow_slots) (auto simp: flow_ok_def emptied_def take_empty)

lemma flow_admit:
  assumes c: "config_ok c" and f: "flow_ok c rt" and run: "rt_status rt = SESSION_RUNNING"
    and r: "runnable_sequence rt st = Some q" and st: "st \<in> set (sp_stages (cf_spec c))"
    and key: "key = \<lparr>tk_session_id = rt_session_id rt, tk_session_epoch = rt_epoch rt, tk_sequence_id = q,
      tk_stage_id = sg_stage_id st, tk_request_id = n\<rparr>"
  shows "flow_ok c (rt\<lparr>rt_artifacts := d, rt_in_flight := od_put (sg_stage_id st, q) key (rt_in_flight rt),
      rt_accepted := lg\<rparr>)" (is "flow_ok c ?rt")
proof -
  have fresh: "od_get (rt_in_flight rt) (sg_stage_id st, q) = None"
    and room: "int (session_stage_count rt (sg_stage_id st)) < sg_max_in_flight_per_session st"
    and front: "sg_ordering st = PER_SESSION_STRICT \<Longrightarrow> q = frontier_of rt (sg_stage_id st)"
    using r by (auto simp: runnable_sequence_def find_Some_iff split: if_splits)
  have "keys_ok ?rt" using f by (auto simp: flow_ok_def keys_ok_def key)
  moreover have "stage_ok ?rt st'" if "st' \<in> set (sp_stages (cf_spec c))" for st'
  proof -
    have ok: "stage_ok rt st'" using f c that by (simp add: flow_ok_def)
    have "st' = st" if "sg_stage_id st' = sg_stage_id st"
      using that stage_of_in [OF c st] stage_of_in [OF c \<open>st' \<in> _\<close>] by simp
    moreover have "session_stage_count ?rt (sg_stage_id st') =
        session_stage_count rt (sg_stage_id st') + (if sg_stage_id st' = sg_stage_id st then 1 else 0)"
      by (simp add: session_stage_count_def tally_absent [OF fresh])
    ultimately show ?thesis
      using ok room front by (auto simp: stage_ok_def frontier_of_def)
  qed
  ultimately show ?thesis using run by (simp add: flow_ok_def)
qed

lemma flow_off: "flow_ok c rt \<Longrightarrow> flow_ok c (rt\<lparr>rt_in_flight := od_del k (rt_in_flight rt)\<rparr>)"
proof -
  assume f: "flow_ok c rt"
  have "session_stage_count (rt\<lparr>rt_in_flight := od_del k (rt_in_flight rt)\<rparr>) x \<le> session_stage_count rt x" for x
    by (simp add: session_stage_count_def tally_del_le)
  note le = this [THEN of_nat_mono, where 'a = int, THEN order_trans]
  have "stage_ok rt st \<Longrightarrow> stage_ok (rt\<lparr>rt_in_flight := od_del k (rt_in_flight rt)\<rparr>) st" for st
    by (auto simp: stage_ok_def frontier_of_def intro: le split: if_splits)
  then show ?thesis using f by (auto simp: flow_ok_def keys_ok_def emptied_def split: if_splits)
qed

lemma flow_results:
  assumes c: "config_ok c" and f: "flow_ok c rt" and run: "rt_status rt = SESSION_RUNNING"
    and st: "st \<in> set (sp_stages (cf_spec c))" and k: "od_get (rt_in_flight rt) (sg_stage_id st, q) \<noteq> None"
  shows "flow_ok c (after_results c t st q res rt)"
proof -
  let ?off = "rt\<lparr>rt_in_flight := od_del (sg_stage_id st, q) (rt_in_flight rt)\<rparr>" and ?rt = "after_results c t st q res rt"
  have F: "flow_ok c ?off" by (rule flow_off [OF f])
  note E = emit_ready_outputs_keeps [of c t "store_results c (sg_stage_id st) q res ?off"]
  have [simp]: "rt_in_flight ?rt = rt_in_flight ?off" "rt_status ?rt = SESSION_RUNNING" "rt_epoch ?rt = rt_epoch ?off"
      "rt_session_id ?rt = rt_session_id ?off"
    using E run by (simp_all add: after_results_def Let_def)
  have fr: "frontier_of ?rt x = (if x = sg_stage_id st \<and> sg_ordering st = PER_SESSION_STRICT then q + 1 else frontier_of rt x)" for x
    using E by (simp add: after_results_def Let_def frontier_of_def)
  have "stage_ok ?rt st'" if st': "st' \<in> set (sp_stages (cf_spec c))" for st'
  proof -
    have ok: "stage_ok ?off st'" "stage_ok rt st'" using F f c st' by (simp_all add: flow_ok_def)
    have same: "st' = st" if "sg_stage_id st' = sg_stage_id st"
      using that stage_of_in [OF c st] stage_of_in [OF c st'] by simp
    have "od_get (rt_in_flight ?off) (sg_stage_id st, q') = None" if "sg_ordering st = PER_SESSION_STRICT" for q'
    proof -
      have "stage_ok rt st" using f c st by (simp add: flow_ok_def)
      then have "\<forall>q'. od_get (rt_in_flight rt) (sg_stage_id st, q') \<noteq> None \<longrightarrow> q' = frontier_of rt (sg_stage_id st)"
        using that run by (simp add: stage_ok_def)
      with k have "od_get (rt_in_flight rt) (sg_stage_id st, q') = None" if "q' \<noteq> q" using that by metis
      then show ?thesis by simp
    qed
    moreover have "frontier_of ?off x = frontier_of rt x" for x by (simp add: frontier_of_def)
    ultimately show ?thesis
      using ok(1) same run
      by (cases "sg_stage_id st' = sg_stage_id st") (auto simp: stage_ok_def session_stage_count_def fr)
  qed
  then show ?thesis using F by (simp add: flow_ok_def keys_ok_def)
qed

interpretation flow: session_invariant "\<lambda>c sid. flow_ok c"
proof
  fix c :: config and rt :: "'a session_runtime" and st q k ins
  show "flow_ok c rt \<Longrightarrow> rt_status rt = SESSION_RUNNING \<Longrightarrow> flow_ok c (rt\<lparr>rt_artifacts := store_inputs c q ins (rt_artifacts rt)\<rparr>)"
    by (simp add: flow_slots)
  show "flow_ok c rt \<Longrightarrow> flow_ok c (rt\<lparr>rt_outputs := []\<rparr>)"
    by (simp add: flow_ok_def keys_ok_def stage_ok_def emptied_def session_stage_count_def frontier_of_def)
qed (rule flow_new flow_stop flow_return flow_admit flow_off flow_results flow_core; assumption)+

section \<open>The bounds of a running orchestrator\<close>

definition run_events :: "actor_env \<Rightarrow> config \<Rightarrow> (rat \<times> 'v stream_event) list \<Rightarrow> 'v orchestrator" where
  "run_events env c evs = foldl (exec env c) new_orchestrator evs"

text \<open>C27: Backpressure holds. Whatever the clients push and poll and whatever the actors answer, at
  every moment and for every session of an orchestrator that was built from a specification,
  the artifacts waiting on an edge together with those that the invocations in flight may
  still produce for it never exceed the capacity of the edge, and the outputs that are
  queued or pending, with those that may still come, never exceed the output capacity.\<close>

theorem buffers_never_overflow:
  assumes "build p actors = Inr c" and "spec_built p"
    and "od_get (or_sessions (run_events env c evs)) sid = Some rt"
  shows "(\<forall>a. \<forall>e \<in> set (artifact_edges c a).
        int (edge_occupancy rt e + reserved_count c rt a) \<le> eg_capacity_per_session e) \<and>
    (\<forall>a \<in> set (sp_output_artifacts p).
        int (output_occupancy rt a + reserved_count c rt a) \<le> sp_output_capacity_per_session p)"
proof -
  have c: "config_ok c" by (rule build_config_ok [OF assms(1,2)])
  have "cf_spec c = p" using assms(1) by (auto simp: build_def split: sum.splits)
  moreover have "bounded c rt"
    using all_sessions_get [OF buf.keep_reachable [OF c]] assms(3) by (simp add: run_events_def)
  ultimately show ?thesis using c by (simp add: bounded_def buffers_ok_def)
qed

definition always_accept :: actor_env where
  "always_accept = \<lparr>ae_health = (\<lambda>n sid. Health ACTOR_RUNNING None), ae_submit = (\<lambda>n sid. Accepted)\<rparr>"

definition demo_spec :: pipeline_spec where
  "demo_spec = demo_pipeline [demo_edge ''z'' (Some ''den'') ''dec'', demo_edge ''x'' None ''den'']"

definition demo_config :: config where
  "demo_config =
     (case build demo_spec [''den'', ''dec''] of
        Inr c \<Rightarrow> c | Inl e \<Rightarrow> \<lparr>cf_spec = demo_spec, cf_valid = \<lparr>vg_edges_by_artifact = [], vg_topological_stage_ids = []\<rparr>\<rparr>)"

definition demo_events :: "(rat \<times> int stream_event) list" where
  "demo_events =
     [(1, Create ''s'' None), (2, Push ''s'' 0 [(''x'', 7)]), (3, Push ''s'' 1 [(''x'', 8)]),
      (4, Completion \<lparr>tk_session_id = ''s'', tk_session_epoch = 1, tk_sequence_id = 0, tk_stage_id = ''den'', tk_request_id = 2\<rparr>
            (Returned [(''z'', 70)]))]"

lemma demo_built: "build demo_spec [''den'', ''dec''] = Inr demo_config" "spec_built demo_spec"
proof -
  have "\<not> isl (build demo_spec [''den'', ''dec''])" by code_simp
  then show "build demo_spec [''den'', ''dec''] = Inr demo_config"
    by (cases "build demo_spec [''den'', ''dec'']") (simp_all add: demo_config_def)
  show "spec_built demo_spec" by code_simp
qed

lemma demo_run:
  "map_option (map iv_inputs \<circ> rt_accepted)
       (od_get (or_sessions (run_events always_accept demo_config demo_events)) ''s'') =
     Some [[(''x'', 7)], [(''z'', 70)], [(''x'', 8)]]"
  by code_simp

lemma buffers_never_overflow_witness:
  "\<exists>rt. od_get (or_sessions (run_events always_accept demo_config demo_events)) ''s'' = Some rt \<and>
     int (output_occupancy rt ''y'' + reserved_count demo_config rt ''y'') \<le> 1"
proof -
  have "od_get (or_sessions (run_events always_accept demo_config demo_events)) ''s'' \<noteq> None" by code_simp
  then obtain rt where rt: "od_get (or_sessions (run_events always_accept demo_config demo_events)) ''s'' = Some rt"
    by blast
  from buffers_never_overflow [OF demo_built rt] rt show ?thesis
    by (auto simp: demo_spec_def demo_pipeline_def)
qed

text \<open>The limits at which the admission checks stop.\<close>

lemma stage_enforced:
  assumes "config_ok c" and st: "st \<in> set (sp_stages (cf_spec c))"
  shows "enforced c (\<lambda>x. x = sg_stage_id st) (nat (sg_max_in_flight_global st)) s"
  unfolding enforced_def
proof (intro ballI impI)
  fix st'
  assume "st' \<in> set (sp_stages (cf_spec c))" "sg_stage_id st' = sg_stage_id st" "has_execution_capacity c s st'"
  moreover from this have "st' = st" using stage_of_in [OF assms] stage_of_in [OF assms(1)] by fastforce
  ultimately show "usage (\<lambda>x. x = sg_stage_id st) s < nat (sg_max_in_flight_global st)"
    by (auto simp: has_execution_capacity_def stage_usage split: if_splits)
qed

lemma group_enforced:
  assumes c: "config_ok c" and g: "group_of (cf_spec c) g = Some r"
  shows "enforced c (\<lambda>x. in_group c x g) (nat (rg_max_concurrency r)) s"
  unfolding enforced_def
proof (intro ballI impI)
  fix st
  assume st: "st \<in> set (sp_stages (cf_spec c))" and i: "in_group c (sg_stage_id st) g" and cap: "has_execution_capacity c s st"
  have "sg_resource_group st = Some g" using i stage_of_in [OF c st] by (simp add: in_group_def)
  with cap g show "usage (\<lambda>x. in_group c x g) s < nat (rg_max_concurrency r)"
    by (auto simp: has_execution_capacity_def group_room_def group_usage split: if_splits)
qed

lemma run_usage:
  assumes "\<And>s :: 'v orchestrator. enforced c p n s"
  shows "usage p (run_events env c evs :: 'v orchestrator) \<le> n"
proof -
  have "usage p s \<le> n \<Longrightarrow> usage p (foldl (exec env c) s evs) \<le> n" for s :: "'v orchestrator"
    by (induction evs arbitrary: s) (auto intro: exec_usage [OF assms])
  then show ?thesis by (simp add: run_events_def new_orchestrator_def usage_def flights_def od_map_def)
qed

text \<open>C28: The limits on concurrency hold at every moment: per stage over all sessions, per
  resource group over all its stages and sessions, and per stage within a session, where a
  stage with strict order has at most one invocation in flight, at the session's frontier.\<close>

theorem concurrency_is_limited:
  assumes "build p actors = Inr c" and "spec_built p" and "s = run_events env c evs"
  shows "(\<forall>st \<in> set (sp_stages p). int (stage_in_flight_count s (sg_stage_id st)) \<le> sg_max_in_flight_global st) \<and>
    (\<forall>g r. group_of p g = Some r \<longrightarrow> int (group_in_flight_count c s g) \<le> rg_max_concurrency r) \<and>
    (\<forall>sid rt. od_get (or_sessions s) sid = Some rt \<longrightarrow>
      (\<forall>st \<in> set (sp_stages p).
        int (session_stage_count rt (sg_stage_id st)) \<le> sg_max_in_flight_per_session st \<and>
        (sg_ordering st = PER_SESSION_STRICT \<longrightarrow> rt_status rt = SESSION_RUNNING \<longrightarrow>
          (\<forall>q. od_get (rt_in_flight rt) (sg_stage_id st, q) \<noteq> None \<longrightarrow> q = frontier_of rt (sg_stage_id st)))))"
proof -
  have c: "config_ok c" by (rule build_config_ok [OF assms(1,2)])
  have p: "cf_spec c = p" using assms(1) by (auto simp: build_def split: sum.splits)
  have "int (stage_in_flight_count s (sg_stage_id st)) \<le> sg_max_in_flight_global st" if "st \<in> set (sp_stages p)" for st
    using run_usage [OF stage_enforced [OF c], of st env evs] stage_bounds [OF c, of st] that
    by (simp add: stage_usage p assms(3)) linarith
  moreover have "int (group_in_flight_count c s g) \<le> rg_max_concurrency r" if g: "group_of p g = Some r" for g r
  proof -
    have "r \<in> set (sp_resource_groups p)" using g by (auto simp: group_of_def find_Some_iff)
    then have "resource_group_error r = None" using c p unfolding config_ok_def spec_built_def by blast
    then have "1 \<le> rg_max_concurrency r" by (auto simp: resource_group_error_def check_def split: if_splits)
    then show ?thesis
      using run_usage [OF group_enforced [OF c], of g r env evs] g
      by (simp add: group_usage p assms(3))
  qed
  moreover have "flow_ok c rt" if "od_get (or_sessions s) sid = Some rt" for sid rt
    using all_sessions_get [OF flow.keep_reachable [OF c]] that by (simp add: run_events_def assms(3))
  ultimately show ?thesis using c p by (fastforce simp: flow_ok_def stage_ok_def)
qed

lemma concurrency_is_limited_witness:
  "int (stage_in_flight_count (run_events always_accept demo_config demo_events) ''den'') \<le> 2"
proof -
  have "demo_stage ''den'' [''x''] [''z''] \<in> set (sp_stages demo_spec)" by (simp add: demo_spec_def demo_pipeline_def)
  with concurrency_is_limited [OF demo_built refl, of always_accept demo_events] show ?thesis
    by (fastforce simp: demo_stage_def)
qed

end
