(* ===== verification/Stream_Order.thy ===== *)
theory Stream_Order
  imports Stream_Bounds
begin

text \<open>
  Order and progress in the streaming orchestrator: the outputs that a client polls are those
  of the sequences 0, 1, 2, ... each once; a strict stage receives the sequences in order,
  each once; a pump leaves no work that could be admitted; a sequence that is pushed a second
  time blocks the edge of a strict stage.
\<close>

section \<open>Outputs in order\<close>

definition labels :: "(int \<times> string \<times> 'v) list \<Rightarrow> (int \<times> string) list" where
  "labels outs = map (\<lambda>(q, a, v). (q, a)) outs"

text \<open>What a client should see of the first \<open>n\<close> sequences.\<close>

definition in_order :: "config \<Rightarrow> int \<Rightarrow> (int \<times> string) list" where
  "in_order c n = concat (map (\<lambda>q. map (Pair q) (output_names c)) [0..n - 1])"

lemma in_order_0 [simp]: "in_order c 0 = []"
  by (simp add: in_order_def)

lemma in_order_Suc: "0 \<le> n \<Longrightarrow> in_order c (n + 1) = in_order c n @ map (Pair n) (output_names c)"
  by (simp add: in_order_def upto_rec2)

lemma emit_artifacts_labels:
  "distinct as \<Longrightarrow> (\<And>a. a \<in> set as \<Longrightarrow> od_get (rt_pending rt) (q, a) \<noteq> None) \<Longrightarrow>
     labels (rt_outputs (emit_artifacts q as rt)) = labels (rt_outputs rt) @ map (Pair q) as \<and>
     rt_next_emit (emit_artifacts q as rt) = rt_next_emit rt"
proof (induction as arbitrary: rt)
  case (Cons a as)
  then obtain v where v: "od_get (rt_pending rt) (q, a) = Some v" by fastforce
  let ?rt = "rt\<lparr>rt_pending := od_del (q, a) (rt_pending rt), rt_outputs := rt_outputs rt @ [(q, a, v)]\<rparr>"
  have "labels (rt_outputs (emit_artifacts q as ?rt)) = labels (rt_outputs ?rt) @ map (Pair q) as \<and>
      rt_next_emit (emit_artifacts q as ?rt) = rt_next_emit ?rt"
    using Cons.prems by (intro Cons.IH) auto
  with v show ?case by (simp add: labels_def)
qed simp

lemma emit_ready_outputs_labels:
  "distinct (output_names c) \<Longrightarrow> 0 \<le> rt_next_emit rt \<Longrightarrow> ls @ labels (rt_outputs rt) = in_order c (rt_next_emit rt) \<Longrightarrow>
     0 \<le> rt_next_emit (emit_ready_outputs c t rt) \<and>
     ls @ labels (rt_outputs (emit_ready_outputs c t rt)) = in_order c (rt_next_emit (emit_ready_outputs c t rt))"
proof (induction c t rt rule: emit_ready_outputs.induct)
  case (1 c t rt)
  show ?case
  proof (cases "output_names c \<noteq> [] \<and> emit_ready c rt")
    case True
    then have p: "od_get (rt_pending rt) (rt_next_emit rt, a) \<noteq> None" if "a \<in> set (output_names c)" for a
      using that by (auto simp: emit_ready_def output_names_def)
    note E = emit_artifacts_labels [OF 1(2) p]
    have "0 \<le> rt_next_emit (emit_sequence c t rt)"
        "ls @ labels (rt_outputs (emit_sequence c t rt)) = in_order c (rt_next_emit (emit_sequence c t rt))"
      using E 1(3,4) by (simp_all add: emit_sequence_def Let_def in_order_Suc flip: append_assoc)
    with 1(1) [OF _ _ 1(2)] True show ?thesis
      by (subst (1 2 3) emit_ready_outputs.simps) simp
  next
    case False
    with 1(3,4) show ?thesis by (subst (1 2 3) emit_ready_outputs.simps) auto
  qed
qed

text \<open>With \<open>ls\<close> already polled from the running session \<open>x\<close>.\<close>

definition delivered_ok :: "(int \<times> string) list \<Rightarrow> string \<Rightarrow> config \<Rightarrow> string \<Rightarrow> 'v session_runtime \<Rightarrow> bool" where
  "delivered_ok ls x c sid rt \<longleftrightarrow>
     (sid = x \<longrightarrow> rt_status rt = SESSION_RUNNING \<longrightarrow>
        0 \<le> rt_next_emit rt \<and> ls @ labels (rt_outputs rt) = in_order c (rt_next_emit rt))"

interpretation emit: session_steps "delivered_ok ls x" for ls x
proof
  fix c :: config and sid and rt :: "'a session_runtime" and st :: stage_spec and q res t
  assume c: "config_ok c" and d: "delivered_ok ls x c sid rt" and run: "rt_status rt = SESSION_RUNNING"
  let ?rt = "store_results c (sg_stage_id st) q res
      (rt\<lparr>rt_in_flight := od_del (sg_stage_id st, q) (rt_in_flight rt)\<rparr>)"
  have "distinct (output_names c)"
    using c by (simp add: config_ok_def spec_built_def output_names_def)
  then show "delivered_ok ls x c sid (after_results c t st q res rt)"
    using emit_ready_outputs_labels [of c ?rt ls t] d run
    by (auto simp: delivered_ok_def after_results_def Let_def)
qed (auto simp: delivered_ok_def core_def discard_buffered_def)

text \<open>The labels polled so far from the current epoch of a session.\<close>

definition poll_labels :: "(int \<times> string \<times> 'v) list res \<Rightarrow> (int \<times> string) list" where
  "poll_labels r = (case r of Inl e \<Rightarrow> [] | Inr outs \<Rightarrow> labels outs)"

fun track ::
    "actor_env \<Rightarrow> config \<Rightarrow> string \<Rightarrow> 'v orchestrator \<times> (int \<times> string) list \<Rightarrow> rat \<times> 'v stream_event
      \<Rightarrow> 'v orchestrator \<times> (int \<times> string) list" where
  "track env c x (s, ls) (t, ev) =
     (exec env c s (t, ev),
      (case ev of
         Create sid fin \<Rightarrow> if sid = x \<and> is_ok (fst (create_session c sid fin s)) then [] else ls
       | Poll sid \<Rightarrow> if sid = x then ls @ poll_labels (fst (poll_outputs env c t sid s)) else ls
       | _ \<Rightarrow> ls))"

lemma track_keeps:
  assumes c: "config_ok c" and a: "all_sessions (delivered_ok ls x c) s" and r: "track env c x (s, ls) ev = (s', ls')"
  shows "all_sessions (delivered_ok ls' x c) s'"
proof -
  obtain t e where ev [simp]: "ev = (t, e)" by (cases ev)
  have s': "s' = exec env c s (t, e)" using r by simp
  show ?thesis
  proof (cases "(\<exists>fin. e = Create x fin) \<or> e = Poll x")
    case False
    then have "ls' = ls" using r by (auto split: stream_event.splits if_splits)
    moreover have "all_sessions (delivered_ok ls x c) (exec env c s (t, e))"
      by (rule emit.keep_exec_unless [OF c a]) (use False in \<open>auto simp: delivered_ok_def\<close>)
    ultimately show ?thesis using s' by simp
  next
    case True
    then consider (create) fin where "e = Create x fin" | (poll) "e = Poll x" by blast
    then show ?thesis
    proof cases
      case create
      show ?thesis
      proof (cases "is_ok (fst (create_session c x fin s))")
        case True
        then have "ls' = []" using create r by simp
        with True create s' a show ?thesis
          by (auto simp: create_session_def all_sessions_def delivered_ok_def new_runtime_def labels_def split: if_splits)
      next
        case False
        then have "snd (create_session c x fin s) = s" by (auto simp: create_session_def split: if_splits)
        with False create s' r a show ?thesis by simp
      qed
    next
      case poll
      show ?thesis
      proof (cases "od_get (or_sessions s) x")
        case None
        with poll s' r a show ?thesis by (simp add: poll_outputs_def runtime_of_def poll_labels_def)
      next
        case (Some rt)
        have ls': "ls' = ls @ labels (rt_outputs rt)"
          using poll r Some by (simp add: poll_outputs_def runtime_of_def poll_labels_def)
        have "all_sessions (delivered_ok ls' x c) (upd_runtime x (\<lambda>r. r\<lparr>rt_outputs := []\<rparr>) s)"
          using a Some by (auto simp: all_sessions_def delivered_ok_def ls' labels_def)
        then show ?thesis using emit.keep_pump [OF c] poll s' Some by (simp add: poll_outputs_def runtime_of_def)
      qed
    qed
  qed
qed

text \<open>C29: Outputs come in sequence order, each exactly once. While a session runs, what its client
  has polled since the session was created, followed by what is still queued, is the outputs
  of the sequences 0, 1, 2, ... up to the next one to emit, each sequence with all its output
  artifacts in alphabetical order: nothing is lost, repeated or reordered, in whatever order
  the stages complete.\<close>

theorem outputs_in_order_once:
  assumes "build p actors = Inr c" and "spec_built p"
    and "foldl (track env c sid) (new_orchestrator, []) evs = (s, polled)"
    and "od_get (or_sessions s) sid = Some rt" and "rt_status rt = SESSION_RUNNING"
  shows "polled @ labels (rt_outputs rt) = in_order c (rt_next_emit rt)"
proof -
  have c: "config_ok c" by (rule build_config_ok [OF assms(1,2)])
  have "all_sessions (delivered_ok (snd (foldl (track env c sid) r evs)) sid c) (fst (foldl (track env c sid) r evs))"
    if "all_sessions (delivered_ok (snd r) sid c) (fst r)" for r
    using that
  proof (induction evs arbitrary: r)
    case (Cons ev evs)
    have "all_sessions (delivered_ok (snd (track env c sid r ev)) sid c) (fst (track env c sid r ev))"
      by (rule track_keeps [OF c Cons.prems]) simp
    from Cons.IH [OF this] show ?case by simp
  qed simp
  from this [of "(new_orchestrator, [])"] assms(3)
  have "all_sessions (delivered_ok polled sid c) s" by (simp add: all_sessions_def new_orchestrator_def)
  from all_sessions_get [OF this assms(4)] assms(5) show ?thesis by (simp add: delivered_ok_def)
qed

definition demo_poll :: "(rat \<times> int stream_event) list" where
  "demo_poll = demo_events @
     [(5, Completion \<lparr>tk_session_id = ''s'', tk_session_epoch = 1, tk_sequence_id = 0, tk_stage_id = ''dec'', tk_request_id = 9\<rparr>
            (Returned [(''y'', 700)])), (6, Poll ''s'')]"

lemma outputs_in_order_once_witness:
  "snd (foldl (track always_accept demo_config ''s'') (new_orchestrator, []) demo_poll) = [(0, ''y'')] \<and>
     (\<exists>rt :: int session_runtime. snd (foldl (track always_accept demo_config ''s'') (new_orchestrator, []) demo_poll) @ labels (rt_outputs rt)
        = in_order demo_config (rt_next_emit rt))"
proof -
  let ?r = "foldl (track always_accept demo_config ''s'') (new_orchestrator, []) demo_poll"
  have "snd ?r = [(0, ''y'')]" by code_simp
  moreover have "map_option rt_status (od_get (or_sessions (fst ?r)) ''s'') = Some SESSION_RUNNING" by code_simp
  then obtain rt where rt: "od_get (or_sessions (fst ?r)) ''s'' = Some rt" "rt_status rt = SESSION_RUNNING" by auto
  moreover have "foldl (track always_accept demo_config ''s'') (new_orchestrator, []) demo_poll = (fst ?r, snd ?r)" by simp
  from outputs_in_order_once [OF demo_built this rt]
  have "snd ?r @ labels (rt_outputs rt) = in_order demo_config (rt_next_emit rt)" .
  ultimately show ?thesis by blast
qed

section \<open>Strict stages\<close>

text \<open>The sequences that a stage was given in this epoch, in the order of their admission.\<close>

definition stage_sequences :: "'v session_runtime \<Rightarrow> string \<Rightarrow> int list" where
  "stage_sequences rt sid =
     map (\<lambda>iv. tk_sequence_id (iv_key iv)) (filter (\<lambda>iv. tk_stage_id (iv_key iv) = sid) (rt_accepted rt))"

definition strict_ok :: "'v session_runtime \<Rightarrow> string \<Rightarrow> bool" where
  "strict_ok rt sid \<longleftrightarrow>
     (let f = frontier_of rt sid
      in 0 \<le> f \<and> stage_sequences rt sid = [0..f - 1] @ (if od_get (rt_in_flight rt) (sid, f) = None then [] else [f]))"

definition order_ok :: "config \<Rightarrow> 'v session_runtime \<Rightarrow> bool" where
  "order_ok c rt \<longleftrightarrow> flow_ok c rt \<and>
     (config_ok c \<longrightarrow> rt_status rt = SESSION_RUNNING \<longrightarrow>
        (\<forall>st \<in> set (sp_stages (cf_spec c)). sg_ordering st = PER_SESSION_STRICT \<longrightarrow> strict_ok rt (sg_stage_id st)))"

lemma strict_ok_cong:
  "rt_frontiers rt' = rt_frontiers rt \<Longrightarrow> rt_in_flight rt' = rt_in_flight rt \<Longrightarrow> rt_accepted rt' = rt_accepted rt \<Longrightarrow>
     strict_ok rt' sid = strict_ok rt sid"
  by (simp add: strict_ok_def frontier_of_def stage_sequences_def)

lemma order_core: "order_ok c rt \<Longrightarrow> core rt' = core rt \<Longrightarrow> order_ok c rt'"
  using flow_core [of c rt rt'] coreD [of rt' rt] strict_ok_cong [of rt' rt] by (simp add: order_ok_def)

lemma order_new:
  assumes "config_ok c" and rt_def: "rt = new_runtime c sid epoch fin"
  shows "order_ok c rt"
proof -
  have "frontier_of rt x = 0" for x
    by (auto simp: rt_def frontier_of_def new_runtime_def dest!: map_of_SomeD split: option.splits)
  moreover have "rt_in_flight rt = []" "rt_accepted rt = []"
    by (simp_all add: rt_def new_runtime_def)
  moreover have "flow_ok c rt" unfolding rt_def by (rule flow_new [OF assms(1)])
  ultimately show ?thesis
    by (simp add: order_ok_def strict_ok_def stage_sequences_def Let_def)
qed

lemma order_slots:
  "order_ok c rt \<Longrightarrow> flow_ok c (rt\<lparr>rt_artifacts := d\<rparr>) \<Longrightarrow> order_ok c (rt\<lparr>rt_artifacts := d\<rparr>)"
  by (simp add: order_ok_def strict_ok_def frontier_of_def stage_sequences_def)

lemma order_admit:
  assumes c: "config_ok c" and o: "order_ok c rt" and run: "rt_status rt = SESSION_RUNNING"
    and r: "runnable_sequence rt st = Some q" and st: "st \<in> set (sp_stages (cf_spec c))"
    and key: "key = \<lparr>tk_session_id = rt_session_id rt, tk_session_epoch = rt_epoch rt, tk_sequence_id = q,
      tk_stage_id = sg_stage_id st, tk_request_id = n\<rparr>"
  shows "order_ok c (rt\<lparr>rt_artifacts := d, rt_in_flight := od_put (sg_stage_id st, q) key (rt_in_flight rt),
      rt_accepted := rt_accepted rt @ [\<lparr>iv_key = key, iv_inputs = ins, iv_is_first = fi, iv_is_last = la\<rparr>]\<rparr>)"
    (is "order_ok c ?rt")
proof -
  have fl: "flow_ok c rt" using o by (simp add: order_ok_def)
  have fresh: "od_get (rt_in_flight rt) (sg_stage_id st, q) = None"
    and front: "sg_ordering st = PER_SESSION_STRICT \<Longrightarrow> q = frontier_of rt (sg_stage_id st)"
    using r by (auto simp: runnable_sequence_def find_Some_iff split: if_splits)
  have "strict_ok ?rt (sg_stage_id st')"
    if st': "st' \<in> set (sp_stages (cf_spec c))" "sg_ordering st' = PER_SESSION_STRICT" for st'
  proof -
    have ok: "strict_ok rt (sg_stage_id st')" using o c run st' by (simp add: order_ok_def)
    have fr: "frontier_of ?rt x = frontier_of rt x" for x by (simp add: frontier_of_def)
    show ?thesis
    proof (cases "sg_stage_id st' = sg_stage_id st")
      case True
      then have "st' = st" using stage_of_in [OF c st] stage_of_in [OF c st'(1)] by simp
      with front st'(2) have "frontier_of rt (sg_stage_id st) = q" by simp
      with ok fresh \<open>st' = st\<close> show ?thesis
        unfolding strict_ok_def Let_def fr by (simp add: stage_sequences_def key)
    next
      case False
      with ok show ?thesis unfolding strict_ok_def Let_def fr by (simp add: stage_sequences_def key)
    qed
  qed
  then show ?thesis using flow_admit [OF c fl run r st key] by (simp add: order_ok_def)
qed

lemma emit_artifacts_accepted: "rt_accepted (emit_artifacts q as rt) = rt_accepted rt"
  by (induction q as rt rule: emit_artifacts.induct) (simp_all split: option.splits)

lemma emit_accepted: "rt_accepted (emit_ready_outputs c t rt) = rt_accepted rt"
proof (induction c t rt rule: emit_ready_outputs.induct)
  case (1 c t rt)
  then show ?case
    by (subst emit_ready_outputs.simps) (simp add: emit_sequence_def Let_def emit_artifacts_accepted)
qed

lemma store_accepted: "rt_accepted (store_results c sid q res rt) = rt_accepted rt"
  by (induction c sid q res rt rule: store_results.induct) (simp_all add: Let_def)

lemma order_results:
  assumes c: "config_ok c" and o: "order_ok c rt" and run: "rt_status rt = SESSION_RUNNING"
    and st: "st \<in> set (sp_stages (cf_spec c))" and k: "od_get (rt_in_flight rt) (sg_stage_id st, q) \<noteq> None"
  shows "order_ok c (after_results c t st q res rt)"
proof -
  let ?off = "rt\<lparr>rt_in_flight := od_del (sg_stage_id st, q) (rt_in_flight rt)\<rparr>" and ?rt = "after_results c t st q res rt"
  have fl: "flow_ok c rt" using o by (simp add: order_ok_def)
  have sq: "stage_sequences ?rt x = stage_sequences rt x" for x
    by (simp add: stage_sequences_def after_results_def Let_def emit_accepted store_accepted)
  note E = emit_ready_outputs_keeps [of c t "store_results c (sg_stage_id st) q res ?off"]
  have fi: "rt_in_flight ?rt = od_del (sg_stage_id st, q) (rt_in_flight rt)"
    using E by (simp add: after_results_def Let_def)
  have fr: "frontier_of ?rt x = (if x = sg_stage_id st \<and> sg_ordering st = PER_SESSION_STRICT then q + 1 else frontier_of rt x)" for x
    using E by (simp add: after_results_def Let_def frontier_of_def)
  have "strict_ok ?rt (sg_stage_id st')"
    if st': "st' \<in> set (sp_stages (cf_spec c))" "sg_ordering st' = PER_SESSION_STRICT" for st'
  proof -
    have ok: "strict_ok rt (sg_stage_id st')" using o c run st' by (simp add: order_ok_def)
    show ?thesis
    proof (cases "sg_stage_id st' = sg_stage_id st")
      case True
      then have e: "st' = st" using stage_of_in [OF c st] stage_of_in [OF c st'(1)] by simp
      have "stage_ok rt st" using fl c st by (simp add: flow_ok_def)
      then have only: "od_get (rt_in_flight rt) (sg_stage_id st, q') \<noteq> None \<Longrightarrow> q' = frontier_of rt (sg_stage_id st)" for q'
        using st'(2) e run by (simp add: stage_ok_def)
      then have q: "q = frontier_of rt (sg_stage_id st)" using k by blast
      moreover have "od_get (rt_in_flight rt) (sg_stage_id st, q + 1) = None" using only [of "q + 1"] q by force
      moreover have "strict_ok rt (sg_stage_id st)" using ok e by simp
      ultimately show ?thesis
        using st'(2) k unfolding e strict_ok_def Let_def fr sq fi by (simp add: upto_rec2)
    next
      case False
      with ok show ?thesis unfolding strict_ok_def Let_def fr sq fi by simp
    qed
  qed
  then show ?thesis using flow_results [OF c fl run st k] by (simp add: order_ok_def)
qed

interpretation ord: session_invariant "\<lambda>c sid. order_ok c"
proof
  fix c :: config and rt :: "'a session_runtime" and st :: stage_spec and q k ins status
  show "order_ok c rt \<Longrightarrow> status \<noteq> SESSION_RUNNING \<Longrightarrow> order_ok c (discard_buffered (rt\<lparr>rt_status := status\<rparr>))"
    by (simp add: order_ok_def flow_stop) (simp add: discard_buffered_def)
  show "order_ok c rt \<Longrightarrow> rt_status rt \<noteq> SESSION_RUNNING \<Longrightarrow>
      order_ok c (rt\<lparr>rt_in_flight := od_del k (rt_in_flight rt)\<rparr>)"
    by (simp add: order_ok_def flow_off)
  show "order_ok c rt \<Longrightarrow> order_ok c (rt\<lparr>rt_artifacts := restore_inputs (sg_stage_id st) q
      (fst (take_inputs (sg_stage_id st) q (sg_consumes st) (rt_artifacts rt)))
      (snd (take_inputs (sg_stage_id st) q (sg_consumes st) (rt_artifacts rt)))\<rparr>)"
    by (rule order_slots) (simp_all add: order_ok_def flow_return)
  show "order_ok c rt \<Longrightarrow> rt_status rt = SESSION_RUNNING \<Longrightarrow>
      order_ok c (rt\<lparr>rt_artifacts := store_inputs c q ins (rt_artifacts rt)\<rparr>)"
    by (rule order_slots) (simp_all add: order_ok_def flow_slots)
  show "order_ok c rt \<Longrightarrow> order_ok c (rt\<lparr>rt_outputs := []\<rparr>)"
    using flow.P_poll [of c rt] by (simp add: order_ok_def strict_ok_def frontier_of_def stage_sequences_def)
qed (rule order_new [OF _ refl] order_admit order_results order_core; assumption)+

text \<open>C30: A strict stage receives the items of a session in order and each exactly once: the
  sequences of the invocations that its actor accepted in the session's epoch are 0, 1, 2,
  ... up to its frontier, and the frontier itself while an invocation for it is in flight.
  Retries after a busy actor and completions of other stages in any order do not change this.\<close>

theorem strict_stage_in_order:
  assumes "build p actors = Inr c" and "spec_built p"
    and "od_get (or_sessions (run_events env c evs)) sid = Some rt" and "rt_status rt = SESSION_RUNNING"
    and "st \<in> set (sp_stages p)" and "sg_ordering st = PER_SESSION_STRICT"
  shows "stage_sequences rt (sg_stage_id st) = [0..frontier_of rt (sg_stage_id st) - 1] @
    (if od_get (rt_in_flight rt) (sg_stage_id st, frontier_of rt (sg_stage_id st)) = None then []
     else [frontier_of rt (sg_stage_id st)])"
proof -
  have c: "config_ok c" by (rule build_config_ok [OF assms(1,2)])
  have "cf_spec c = p" using assms(1) by (auto simp: build_def split: sum.splits)
  moreover have "order_ok c rt"
    using all_sessions_get [OF ord.keep_reachable [OF c]] assms(3) by (simp add: run_events_def)
  ultimately show ?thesis using c assms(4-6) by (simp add: order_ok_def strict_ok_def Let_def)
qed

lemma strict_stage_in_order_witness:
  "\<exists>rt :: int session_runtime.
     od_get (or_sessions (run_events always_accept demo_config demo_events)) ''s'' = Some rt \<and>
     stage_sequences rt ''den'' = [0..frontier_of rt ''den'' - 1] @
       (if od_get (rt_in_flight rt) (''den'', frontier_of rt ''den'') = None then [] else [frontier_of rt ''den''])"
proof -
  let ?s = "run_events always_accept demo_config demo_events"
  have "map_option rt_status (od_get (or_sessions ?s) ''s'') = Some SESSION_RUNNING" by code_simp
  then obtain rt where rt: "od_get (or_sessions ?s) ''s'' = Some rt" "rt_status rt = SESSION_RUNNING" by auto
  have st: "demo_stage ''den'' [''x''] [''z''] \<in> set (sp_stages demo_spec)"
      "sg_ordering (demo_stage ''den'' [''x''] [''z'']) = PER_SESSION_STRICT"
    by (simp_all add: demo_spec_def demo_pipeline_def demo_stage_def)
  from strict_stage_in_order [OF demo_built rt st] rt(1) show ?thesis by (auto simp: demo_stage_def)
qed

section \<open>Progress\<close>

text \<open>Admission depends on the cores of the sessions only.\<close>

definition view where
  "view s = od_map core (or_sessions s)"

lemma view_fields [simp]:
  "view (s\<lparr>or_calls := n\<rparr>) = view s" "view (s\<lparr>or_session_order := x\<rparr>) = view s"
  by (simp_all add: view_def)

lemma view_upd: "(\<And>rt. core (f rt) = core rt) \<Longrightarrow> view (upd_runtime sid f s) = view s"
  by (auto simp: upd_runtime_def view_def od_map_put intro!: od_put_same split: option.splits)

lemma view_flights: "view s' = view s \<Longrightarrow> flights s' = flights s"
proof -
  have "flights s = od_map (\<lambda>(a, b, d, e, f, g, h). g) (view s)" for s :: "'v orchestrator"
    by (simp add: flights_def view_def od_map_def core_def comp_def split_beta)
  then show "view s' = view s \<Longrightarrow> ?thesis" by metis
qed

lemma view_get:
  assumes "view s' = view s" and "od_get (or_sessions s') sid = Some rt'"
  shows "\<exists>rt. od_get (or_sessions s) sid = Some rt \<and> core rt' = core rt"
proof -
  have "od_get (view s') sid = od_get (view s) sid" using assms(1) by simp
  then have "Some (core rt') = map_option core (od_get (or_sessions s) sid)"
    using assms(2) by (simp add: view_def)
  then show ?thesis by (cases "od_get (or_sessions s) sid") auto
qed

definition stage_admissible :: "config \<Rightarrow> 'v orchestrator \<Rightarrow> 'v session_runtime \<Rightarrow> stage_spec \<Rightarrow> bool" where
  "stage_admissible c s rt st \<longleftrightarrow>
     runnable_sequence rt st \<noteq> None \<and> has_execution_capacity c s st \<and> has_output_capacity c rt st"

lemma admissible_stages:
  "has_admissible_task c s rt \<longleftrightarrow> (\<exists>st \<in> set (sp_stages (cf_spec c)). stage_admissible c s rt st)"
  by (simp add: has_admissible_task_def stage_admissible_def)

lemma admissible_cong:
  assumes "view s' = view s" and "core rt' = core rt"
  shows "stage_admissible c s' rt' st = stage_admissible c s rt st"
proof -
  note D = coreD [OF assms(2)]
  have "stage_in_flight_count s' x = stage_in_flight_count s x" "group_in_flight_count c s' g = group_in_flight_count c s g" for x g
    using view_flights [OF assms(1)] by (simp_all add: stage_usage group_usage usage_def)
  then have "has_execution_capacity c s' st = has_execution_capacity c s st"
    by (simp add: has_execution_capacity_def group_room_def cong: option.case_cong)
  moreover have "inputs_ready rt' st q = inputs_ready rt st q" for q
    by (simp add: inputs_ready_def waits_for_def D)
  then have "runnable_sequence rt' st = runnable_sequence rt st"
    by (simp add: runnable_sequence_def session_stage_count_def sequence_ids_def frontier_of_def D)
  moreover have "has_output_capacity c rt' st = has_output_capacity c rt st"
    by (simp add: has_output_capacity_def edge_occupancy_def output_occupancy_def reserved_count_def D)
  ultimately show ?thesis by (simp add: stage_admissible_def)
qed

text \<open>Actors that are healthy and accept what they are given.\<close>

definition accepting :: "actor_env \<Rightarrow> bool" where
  "accepting env \<longleftrightarrow> (\<forall>n sid. health_error (ae_health env n sid) sid = None \<and> ae_submit env n sid = Accepted)"

lemma try_stage_accepting:
  assumes env: "accepting env" and rt: "od_get (or_sessions s) sid = Some rt"
    and no: "snd (try_stage env c t sid st s) \<noteq> Admitted"
  shows "snd (try_stage env c t sid st s) = NotAdmitted \<and> view (fst (try_stage env c t sid st s)) = view s \<and>
    \<not> stage_admissible c s rt st"
proof -
  let ?s1 = "s\<lparr>or_calls := or_calls s + 1\<rparr>"
  have v: "view (note_blocking sid st q r ?s1) = view s" for q r
    unfolding note_blocking_def by (subst view_upd) (simp_all add: core_def)
  have e: "has_execution_capacity c ?s1 st = has_execution_capacity c s st"
    by (simp add: has_execution_capacity_def group_room_def stage_in_flight_count_def group_in_flight_count_def
        cong: option.case_cong)
  have T: "try_stage env c t sid st s =
      (case runnable_sequence rt st of
         None \<Rightarrow> (?s1, NotAdmitted)
       | Some q \<Rightarrow>
           if \<not> has_execution_capacity c ?s1 st then
             (note_blocking sid st q (if resource_group_is_full c ?s1 st then ''resource_group'' else ''stage_capacity'') ?s1, NotAdmitted)
           else if \<not> has_output_capacity c rt st then (note_blocking sid st q ''edge_capacity'' ?s1, NotAdmitted)
           else (accept_task t sid rt st q ?s1, Admitted))"
    using env rt
    by (cases "runnable_sequence rt st") (simp_all add: try_stage_def actor_failure_def accepting_def submit_task_def)
  show ?thesis
    using no v e unfolding T by (cases "runnable_sequence rt st") (auto simp: stage_admissible_def)
qed

lemma pump_stages_accepting:
  assumes "accepting env" and "od_get (or_sessions s) sid = Some rt" and "\<not> snd (pump_stages env c t sid sts s)"
  shows "view (fst (pump_stages env c t sid sts s)) = view s \<and> (\<forall>st \<in> set sts. \<not> stage_admissible c s rt st)"
  using assms(2,3)
proof (induction sts arbitrary: s rt)
  case (Cons st sts)
  obtain s1 r where r: "try_stage env c t sid st s = (s1, r)" by (cases "try_stage env c t sid st s")
  have na: "r \<noteq> Admitted" using Cons.prems(2) r by auto
  from try_stage_accepting [OF assms(1) Cons.prems(1), of c t st] na r
  have t: "r = NotAdmitted" "view s1 = view s" "\<not> stage_admissible c s rt st" by auto
  obtain rt1 where rt1: "od_get (or_sessions s1) sid = Some rt1" "core rt1 = core rt"
    using view_get [OF t(2) [symmetric] Cons.prems(1)] by metis
  have "\<not> snd (pump_stages env c t sid sts s1)" using Cons.prems(2) r t(1) by simp
  from Cons.IH [OF rt1(1) this] admissible_cong [OF t(2) rt1(2)] t r show ?case by simp
qed simp

lemma upd_runtime_order [simp]: "or_session_order (upd_runtime sid f s) = or_session_order s"
  by (auto simp: upd_runtime_def split: option.splits)

lemma fail_runtime_order [simp]: "or_session_order (fail_runtime sid e s) = or_session_order s"
  by (auto simp: fail_runtime_def schedule_failed_cleanup_def split: option.splits)

lemma fail_all_order [simp]: "or_session_order (fail_all_sessions err origin s) = or_session_order s"
proof -
  have "or_session_order (fail_sessions sids err origin s) = or_session_order s" for sids
    by (induction sids arbitrary: s) simp_all
  then show ?thesis by (simp add: fail_all_sessions_def)
qed

lemma submit_order: "or_session_order (fst (submit_task env t sid rt st q s)) = or_session_order s"
  by (auto simp: submit_task_def accept_task_def return_inputs_def actor_failure_def Let_def
      split: submit_reply.splits option.splits)

lemma try_stage_order: "or_session_order (fst (try_stage env c t sid st s)) = or_session_order s"
  by (auto simp: try_stage_def actor_failure_def note_blocking_def submit_order split: option.splits)

lemma pump_stages_order: "or_session_order (fst (pump_stages env c t sid sts s)) = or_session_order s"
proof (induction sts arbitrary: s)
  case (Cons st sts)
  obtain s1 r where r: "try_stage env c t sid st s = (s1, r)" by (cases "try_stage env c t sid st s")
  then have "or_session_order s1 = or_session_order s" using try_stage_order [of env c t sid st s] by simp
  with r Cons [of s1] show ?case by (cases r) simp_all
qed simp

definition nothing_admissible :: "config \<Rightarrow> 'v orchestrator \<Rightarrow> string \<Rightarrow> bool" where
  "nothing_admissible c s sid \<longleftrightarrow>
     (\<forall>rt. od_get (or_sessions s) sid = Some rt \<longrightarrow> rt_status rt = SESSION_RUNNING \<longrightarrow> \<not> has_admissible_task c s rt)"

lemma nothing_admissible_view:
  assumes "view s' = view s" and "nothing_admissible c s sid"
  shows "nothing_admissible c s' sid"
  unfolding nothing_admissible_def
proof (intro allI impI)
  fix rt'
  assume g: "od_get (or_sessions s') sid = Some rt'" and run: "rt_status rt' = SESSION_RUNNING"
  obtain rt where rt: "od_get (or_sessions s) sid = Some rt" "core rt' = core rt"
    using view_get [OF assms(1) g] by blast
  then have "\<not> has_admissible_task c s rt"
    using assms(2) run coreD(3) [OF rt(2)] by (simp add: nothing_admissible_def)
  then show "\<not> has_admissible_task c s' rt'"
    unfolding admissible_stages using admissible_cong [OF assms(1) rt(2)] by simp
qed

lemma pump_once_quiet:
  assumes "accepting env" and "session_running s sid" and "\<not> snd (pump_once env c t sid s)"
  shows "view (fst (pump_once env c t sid s)) = view s \<and> nothing_admissible c s sid"
proof -
  obtain rt where rt: "od_get (or_sessions s) sid = Some rt"
    using assms(2) by (auto simp: session_running_def split: option.splits)
  from pump_stages_accepting [OF assms(1) rt assms(3) [unfolded pump_once_def]] rt show ?thesis
    by (simp add: pump_once_def nothing_admissible_def admissible_stages)
qed

lemma pump_round_quiet:
  "accepting env \<Longrightarrow> n \<le> length (or_session_order s) \<Longrightarrow> \<not> snd (pump_round env c t n s) \<Longrightarrow>
     view (fst (pump_round env c t n s)) = view s \<and>
     set (or_session_order (fst (pump_round env c t n s))) = set (or_session_order s) \<and>
     (\<forall>sid \<in> set (take n (or_session_order s)). nothing_admissible c s sid)"
proof (induction n arbitrary: s)
  case (Suc n)
  then obtain sid rest where o: "or_session_order s = sid # rest"
    by (cases "or_session_order s") simp_all
  let ?s1 = "s\<lparr>or_session_order := rest @ [sid]\<rparr>"
  let ?r = "if session_running ?s1 sid then pump_once env c t sid ?s1 else (?s1, False)"
  have e: "pump_round env c t (Suc n) s
      = (fst (pump_round env c t n (fst ?r)), snd ?r \<or> snd (pump_round env c t n (fst ?r)))"
    using o by (simp add: Let_def)
  have no: "\<not> snd ?r" "\<not> snd (pump_round env c t n (fst ?r))" using Suc.prems(3) unfolding e by simp_all
  have ord: "or_session_order (fst ?r) = rest @ [sid]"
    using pump_stages_order [of env c t sid "sp_stages (cf_spec c)" ?s1] by (simp add: pump_once_def)
  have "view (fst ?r) = view ?s1 \<and> nothing_admissible c ?s1 sid"
  proof (cases "session_running ?s1 sid")
    case True
    with no(1) pump_once_quiet [OF Suc.prems(1) True, of c t] show ?thesis by simp
  next
    case False
    then show ?thesis by (auto simp: nothing_admissible_def session_running_def)
  qed
  then have v: "view (fst ?r) = view s" and q: "nothing_admissible c s sid"
    using nothing_admissible_view [of s ?s1 c sid] by simp_all
  have "n \<le> length (or_session_order (fst ?r))" using Suc.prems(2) o unfolding ord by simp
  note IH = Suc.IH [OF Suc.prems(1) this no(2)]
  have "nothing_admissible c s x" if "x \<in> set (take n rest)" for x
  proof -
    have "x \<in> set (take n (or_session_order (fst ?r)))" using that unfolding ord by simp
    with IH have "nothing_admissible c (fst ?r) x" by blast
    then show ?thesis by (rule nothing_admissible_view [OF v [symmetric]])
  qed
  with IH v q show ?case unfolding e o ord fst_conv by auto
qed simp

text \<open>C31: The scheduler loop ends with no work left undone. When the actors are healthy and
  accept what they are given, then after every pump no running session in the round-robin
  order has a stage whose inputs are ready, for which there is room under the concurrency
  limits and on its output edges: whatever can be admitted has been admitted. (That the loop
  ends for all actors is the totality of \<open>pump_all\<close>, shown by the room that every admission
  uses up.)\<close>

theorem pump_leaves_nothing_admissible:
  assumes "accepting env" and "sid \<in> set (or_session_order (pump_all env c t s))"
    and "od_get (or_sessions (pump_all env c t s)) sid = Some rt" and "rt_status rt = SESSION_RUNNING"
  shows "\<not> has_admissible_task c (pump_all env c t s) rt"
proof -
  have "\<forall>sid \<in> set (or_session_order (pump_all env c t s)). nothing_admissible c (pump_all env c t s) sid"
    using assms(1)
  proof (induction env c t s rule: pump_all.induct)
    case (1 env c t s)
    let ?r = "pump_round env c t (length (or_session_order s)) s"
    show ?case
    proof (cases "snd ?r")
      case True
      with 1 show ?thesis by (subst (1 2) pump_all.simps) (simp add: Let_def)
    next
      case False
      from pump_round_quiet [OF 1(2) order_refl False]
      have "view (fst ?r) = view s" "set (or_session_order (fst ?r)) = set (or_session_order s)"
        "\<forall>sid \<in> set (or_session_order s). nothing_admissible c s sid" by simp_all
      then have "\<forall>sid \<in> set (or_session_order (fst ?r)). nothing_admissible c (fst ?r) sid"
        using nothing_admissible_view by blast
      with False show ?thesis by (subst (1 2) pump_all.simps) (simp add: Let_def)
    qed
  qed
  with assms(2-4) show ?thesis by (auto simp: nothing_admissible_def)
qed

lemma pump_leaves_nothing_admissible_witness:
  "\<exists>rt. od_get (or_sessions (pump_all always_accept demo_config 9 (run_events always_accept demo_config demo_events))) ''s'' = Some rt \<and>
     \<not> has_admissible_task demo_config
         (pump_all always_accept demo_config 9 (run_events always_accept demo_config demo_events)) rt"
proof -
  let ?s = "pump_all always_accept demo_config 9 (run_events always_accept demo_config demo_events)"
  have a: "accepting always_accept" by (simp add: accepting_def always_accept_def health_error_def)
  have o: "''s'' \<in> set (or_session_order ?s)" by code_simp
  have "map_option rt_status (od_get (or_sessions ?s) ''s'') = Some SESSION_RUNNING" by code_simp
  then obtain rt where rt: "od_get (or_sessions ?s) ''s'' = Some rt" "rt_status rt = SESSION_RUNNING" by auto
  from pump_leaves_nothing_admissible [OF a o rt] rt(1) show ?thesis by blast
qed

section \<open>A sequence pushed twice\<close>

definition stuck_ok :: "string \<Rightarrow> int \<Rightarrow> string \<Rightarrow> stage_spec \<Rightarrow> config \<Rightarrow> string \<Rightarrow> 'v session_runtime \<Rightarrow> bool" where
  "stuck_ok x q a st c sid rt \<longleftrightarrow> flow_ok c rt \<and>
     (sid = x \<longrightarrow> rt_status rt = SESSION_RUNNING \<longrightarrow>
      st \<in> set (sp_stages (cf_spec c)) \<longrightarrow> sg_ordering st = PER_SESSION_STRICT \<longrightarrow>
      (\<exists>e \<in> set (artifact_edges c a). eg_source_stage e = None) \<longrightarrow>
        slot_waits (rt_artifacts rt) q a (sg_stage_id st) \<and> q < frontier_of rt (sg_stage_id st))"

lemma store_inputs_keeps:
  "input_error c rt q' (map fst ins) = None \<Longrightarrow> slot_waits (rt_artifacts rt) q a x \<Longrightarrow>
     slot_waits (store_inputs c q' ins (rt_artifacts rt)) q a x"
proof -
  assume e: "input_error c rt q' (map fst ins) = None" and w: "slot_waits (rt_artifacts rt) q a x"
  have "(q', b) \<noteq> (q, a)" if "b \<in> fst ` set ins" for b
  proof
    assume "(q', b) = (q, a)"
    then have "od_get (rt_artifacts rt) (q', b) \<noteq> None" using w by (auto simp: slot_waits_def)
    moreover have "input_error c rt q' as = None \<Longrightarrow> b \<in> set as \<Longrightarrow> od_get (rt_artifacts rt) (q', b) = None" for as
      by (induction as) (auto split: sum.splits if_splits)
    ultimately show False using e that by auto
  qed
  then have "slot_waits d q a x \<Longrightarrow> slot_waits (store_inputs c q' ins d) q a x" for d
  proof (induction ins arbitrary: d)
    case (Cons i ins)
    obtain b v where i: "i = (b, v)" by (cases i)
    then have ne: "\<not> (q = q' \<and> a = b)" using Cons.prems by auto
    show ?case unfolding i store_inputs.simps
      by (rule Cons.IH) (use Cons.prems i ne in auto)
  qed simp
  with w show ?thesis by blast
qed

lemma store_results_keeps:
  "a \<notin> fst ` set res \<Longrightarrow> slot_waits (rt_artifacts rt) q a x \<Longrightarrow>
     slot_waits (rt_artifacts (store_results c sid q' res rt)) q a x"
  by (induction c sid q' res rt rule: store_results.induct) (auto simp: Let_def)

interpretation stuck: session_steps "stuck_ok x q a st" for x q a st
proof
  fix c :: config and sid key n t and rt :: "'v session_runtime" and st' :: stage_spec and q' and ins res :: "(string \<times> 'v) list"
  assume c: "config_ok c" and s: "stuck_ok x q a st c sid rt" and run: "rt_status rt = SESSION_RUNNING"
  have fl: "flow_ok c rt" using s by (simp add: stuck_ok_def)
  show "stuck_ok x q a st c sid (rt\<lparr>rt_artifacts := store_inputs c q' ins (rt_artifacts rt)\<rparr>)"
    if "input_error c rt q' (map fst ins) = None"
    using s run store_inputs_keeps [OF that] flow_slots [OF fl] by (auto simp: stuck_ok_def frontier_of_def)
  assume st': "st' \<in> set (sp_stages (cf_spec c))"
  show "stuck_ok x q a st c sid (rt\<lparr>rt_artifacts := snd (take_inputs (sg_stage_id st') q' (sg_consumes st') (rt_artifacts rt)),
      rt_in_flight := od_put (sg_stage_id st', q') key (rt_in_flight rt),
      rt_accepted := rt_accepted rt @ [\<lparr>iv_key = key, iv_inputs = ins, iv_is_first = (q' = 0), iv_is_last = (rt_final rt = Some q')\<rparr>]\<rparr>)"
    (is "stuck_ok x q a st c sid ?rt")
    if r: "runnable_sequence rt st' = Some q'" and key: "key = \<lparr>tk_session_id = rt_session_id rt, tk_session_epoch = rt_epoch rt,
        tk_sequence_id = q', tk_stage_id = sg_stage_id st', tk_request_id = n\<rparr>"
  proof -
    have ne: "q' \<noteq> q" if "st \<in> set (sp_stages (cf_spec c))" "sg_ordering st = PER_SESSION_STRICT"
        "q < frontier_of rt (sg_stage_id st)" "sg_stage_id st' = sg_stage_id st"
    proof -
      have "Some st' = Some st" unfolding stage_of_in [OF c st', symmetric] stage_of_in [OF c that(1), symmetric] that(4) ..
      then have "st' = st" by simp
      then have "q' = frontier_of rt (sg_stage_id st)"
        using r that(2) by (auto simp: runnable_sequence_def find_Some_iff split: if_splits)
      with that(3) show ?thesis by simp
    qed
    have fr: "frontier_of ?rt y = frontier_of rt y" for y by (simp add: frontier_of_def)
    have w: "slot_waits (rt_artifacts ?rt) q a y \<longleftrightarrow>
        slot_waits (rt_artifacts rt) q a y \<and> \<not> (q = q' \<and> a \<in> set (sg_consumes st') \<and> y = sg_stage_id st')" for y
      by (simp add: take_waits)
    show ?thesis
      unfolding stuck_ok_def w fr
    proof (intro conjI impI)
      show "flow_ok c ?rt" by (rule flow_admit [OF c fl run r st' key])
      assume h: "sid = x" "st \<in> set (sp_stages (cf_spec c))" "sg_ordering st = PER_SESSION_STRICT"
        "\<exists>e \<in> set (artifact_edges c a). eg_source_stage e = None"
      then have i: "slot_waits (rt_artifacts rt) q a (sg_stage_id st)" "q < frontier_of rt (sg_stage_id st)"
        using s run unfolding stuck_ok_def by blast+
      show "slot_waits (rt_artifacts rt) q a (sg_stage_id st)" "q < frontier_of rt (sg_stage_id st)" by fact+
      show "\<not> (q = q' \<and> a \<in> set (sg_consumes st') \<and> sg_stage_id st = sg_stage_id st')"
        using ne [OF h(2,3) i(2)] by auto
    qed
  qed
  show "stuck_ok x q a st c sid (after_results c t st' q' res rt)" (is "stuck_ok x q a st c sid ?rt")
    if k: "od_get (rt_in_flight rt) (sg_stage_id st', q') \<noteq> None" and res: "fst ` set res = set (sg_produces st')"
  proof -
    let ?off = "rt\<lparr>rt_in_flight := od_del (sg_stage_id st', q') (rt_in_flight rt)\<rparr>"
    note E = emit_ready_outputs_keeps [of c t "store_results c (sg_stage_id st') q' res ?off"]
    have ar: "rt_artifacts ?rt = rt_artifacts (store_results c (sg_stage_id st') q' res ?off)"
      using E by (simp add: after_results_def Let_def)
    have fr: "frontier_of ?rt y = (if y = sg_stage_id st' \<and> sg_ordering st' = PER_SESSION_STRICT then q' + 1 else frontier_of rt y)" for y
      using E by (simp add: after_results_def Let_def frontier_of_def)
    have notres: "a \<notin> fst ` set res" if "\<exists>e \<in> set (artifact_edges c a). eg_source_stage e = None"
    proof
      assume "a \<in> fst ` set res"
      then have "produces_artifact c (sg_stage_id st') a" using res stage_of_in [OF c st'] by (simp add: produces_artifact_def)
      with config_edge [OF c] that show False by fastforce
    qed
    have "q < frontier_of ?rt (sg_stage_id st)"
      if "st \<in> set (sp_stages (cf_spec c))" "sg_ordering st = PER_SESSION_STRICT" "q < frontier_of rt (sg_stage_id st)"
    proof (cases "sg_stage_id st = sg_stage_id st'")
      case True
      have "stage_ok rt st" using fl c that(1) by (simp add: flow_ok_def)
      then have "q' = frontier_of rt (sg_stage_id st)" using k True that(2) run by (auto simp: stage_ok_def)
      with that(3) True show ?thesis unfolding fr by auto
    qed (use that in \<open>simp add: fr\<close>)
    moreover have "flow_ok c ?rt" by (rule flow_results [OF c fl run st' k])
    moreover have "rt_status ?rt = SESSION_RUNNING" using E run by (simp add: after_results_def Let_def)
    ultimately show ?thesis
      using s run notres store_results_keeps [of a res ?off q "sg_stage_id st" c "sg_stage_id st'" q']
      by (auto simp: stuck_ok_def ar)
  qed
next
  fix c :: config and sid k status and rt rt' :: "'v session_runtime" and st' :: stage_spec and q'
  assume s: "stuck_ok x q a st c sid rt"
  then have fl: "flow_ok c rt" by (simp add: stuck_ok_def)
  show "stuck_ok x q a st c sid rt'" if "core rt' = core rt"
    using s flow_core [OF fl that] coreD [OF that] by (simp add: stuck_ok_def frontier_of_def)
  show "stuck_ok x q a st c sid (discard_buffered (rt\<lparr>rt_status := status\<rparr>))" if "status \<noteq> SESSION_RUNNING"
    using flow_stop [OF fl that] that by (simp add: stuck_ok_def discard_buffered_def)
  show "stuck_ok x q a st c sid (rt\<lparr>rt_artifacts := restore_inputs (sg_stage_id st') q'
      (fst (take_inputs (sg_stage_id st') q' (sg_consumes st') (rt_artifacts rt)))
      (snd (take_inputs (sg_stage_id st') q' (sg_consumes st') (rt_artifacts rt)))\<rparr>)" if "inputs_ready rt st' q'"
    using s flow_return [OF fl] restore_take_waits [OF that] by (simp add: stuck_ok_def frontier_of_def)
  show "stuck_ok x q a st c sid (rt\<lparr>rt_in_flight := od_del k (rt_in_flight rt)\<rparr>)" if "rt_status rt \<noteq> SESSION_RUNNING"
    using that flow_off [OF fl] by (simp add: stuck_ok_def)
qed

lemma store_inputs_new:
  "a \<in> fst ` set ins \<Longrightarrow> y \<in> set (map eg_target_stage (artifact_edges c a)) \<Longrightarrow> slot_waits (store_inputs c q ins d) q a y"
proof (induction ins arbitrary: d)
  case (Cons i ins)
  obtain b v where i: "i = (b, v)" by (cases i)
  have keep: "slot_waits (store_inputs c q js d) q a y" if "slot_waits d q a y" for js d
    using that
  proof (induction js arbitrary: d)
    case (Cons j js)
    obtain b' v' where j: "j = (b', v')" by (cases j)
    show ?case unfolding j store_inputs.simps
      by (rule Cons.IH) (use Cons.prems \<open>y \<in> _\<close> in auto)
  qed simp
  show ?case
  proof (cases "a = b")
    case True
    then show ?thesis unfolding i store_inputs.simps
      by (intro keep) (use Cons.prems(2) in auto)
  next
    case False
    then show ?thesis unfolding i store_inputs.simps
      by (intro Cons.IH) (use Cons.prems i in auto)
  qed
qed simp

lemma push_accepted_stuck:
  assumes c: "config_ok c" and fl: "all_sessions (\<lambda>sid. flow_ok c) s"
    and push: "try_push_inputs env c t x q ins s = (Inr True, s')" and a: "a \<in> fst ` set ins"
    and tgt: "sg_stage_id st \<in> set (map eg_target_stage (artifact_edges c a))"
    and rt: "od_get (or_sessions s) x = Some rt" and f: "q < frontier_of rt (sg_stage_id st)"
  shows "all_sessions (stuck_ok x q a st c) s'"
proof -
  have s': "s' = pump_all env c t (upd_runtime x (accept_inputs c t q ins) s)"
    and run: "rt_status rt = SESSION_RUNNING"
    using push rt by (auto simp: try_push_inputs_def active_runtime_def runtime_of_def split: if_splits option.splits)
  let ?rt = "accept_inputs c t q ins rt"
  have co: "core ?rt = core (rt\<lparr>rt_artifacts := store_inputs c q ins (rt_artifacts rt)\<rparr>)"
    by (simp add: accept_inputs_def Let_def) (simp add: core_def)
  have "flow_ok c rt" by (rule all_sessions_get [OF fl rt])
  then have "flow_ok c ?rt" using run by (intro flow_core [OF flow_slots co]) auto
  moreover have "slot_waits (rt_artifacts ?rt) q a (sg_stage_id st)"
    using store_inputs_new [OF a tgt] coreD(5) [OF co] by simp
  moreover have "frontier_of ?rt (sg_stage_id st) = frontier_of rt (sg_stage_id st)"
    using coreD(4) [OF co] by (simp add: frontier_of_def)
  ultimately have "stuck_ok x q a st c x ?rt" using f by (simp add: stuck_ok_def)
  then have "all_sessions (stuck_ok x q a st c) (upd_runtime x (accept_inputs c t q ins) s)"
    using fl rt by (auto simp: all_sessions_def stuck_ok_def)
  then show ?thesis unfolding s' by (rule stuck.keep_pump [OF c])
qed

text \<open>An item that is pushed again after a strict stage has processed it is accepted and blocks
  the edge for good. The duplicate check sees only artifacts that are still buffered, so a
  push of a sequence below the frontier of the strict stage that consumes it succeeds; from
  then on, as long as the session runs, whatever happens, the artifact waits for the stage
  and takes up one place of its edge.\<close>

theorem repushed_item_blocks_edge:
  assumes "build p actors = Inr c" and "spec_built p" and "s = run_events env c evs"
    and st: "st \<in> set (sp_stages p)" "sg_ordering st = PER_SESSION_STRICT"
    and e: "e \<in> set (artifact_edges c a)" "eg_source_stage e = None" "eg_target_stage e = sg_stage_id st"
    and rt: "od_get (or_sessions s) x = Some rt" and below: "q < frontier_of rt (sg_stage_id st)"
    and push: "try_push_inputs env c t x q [(a, v)] s = (Inr True, s')"
    and later: "\<And>t' fin. (t', Create x fin) \<notin> set evs'"
    and rt': "od_get (or_sessions (foldl (exec env c) s' evs')) x = Some rt'" "rt_status rt' = SESSION_RUNNING"
  shows "waits_for rt' q a (sg_stage_id st) \<and> q < frontier_of rt' (sg_stage_id st) \<and> 1 \<le> edge_occupancy rt' e"
proof -
  have c: "config_ok c" by (rule build_config_ok [OF assms(1,2)])
  have p: "cf_spec c = p" using assms(1) by (auto simp: build_def split: sum.splits)
  have fl: "all_sessions (\<lambda>sid. flow_ok c) s"
    unfolding assms(3) run_events_def by (rule flow.keep_reachable [OF c])
  have bo: "all_sessions (\<lambda>sid. bounded c) (foldl (exec env c) s' evs')"
  proof -
    have "all_sessions (\<lambda>sid. bounded c) (snd (try_push_inputs env c t x q [(a, v)] s))"
      unfolding assms(3) run_events_def by (rule buf.keep_push [OF c buf.keep_reachable [OF c]])
    then show ?thesis using push by (simp add: buf.keep_run [OF c])
  qed
  have "all_sessions (stuck_ok x q a st c) s'"
    by (rule push_accepted_stuck [OF c fl push _ _ rt below]) (use e in \<open>auto simp: image_iff intro: bexI [of _ e]\<close>)
  then have "all_sessions (stuck_ok x q a st c) (foldl (exec env c) s' evs')"
    using later
  proof (induction evs' arbitrary: s')
    case (Cons ev evs')
    have "all_sessions (stuck_ok x q a st c) (exec env c s' ev)"
    proof (rule stuck.keep_exec_unless [OF c Cons.prems(1)])
      fix t' sid fin epoch
      assume "ev = (t', Create sid fin)"
      then have "sid \<noteq> x" using Cons.prems(2) by auto
      then show "stuck_ok x q a st c sid (new_runtime c sid epoch fin)" by (simp add: stuck_ok_def flow_new [OF c])
    next
      fix t' sid and r :: "'a session_runtime"
      assume "stuck_ok x q a st c sid r"
      then show "stuck_ok x q a st c sid (r\<lparr>rt_outputs := []\<rparr>)"
        using flow.P_poll [of c r] by (simp add: stuck_ok_def frontier_of_def)
    qed
    with Cons show ?case by simp
  qed simp
  from all_sessions_get [OF this rt'(1)] rt'(2) st e(1,2) p
  have w: "slot_waits (rt_artifacts rt') q a (sg_stage_id st)" "q < frontier_of rt' (sg_stage_id st)"
    unfolding stuck_ok_def by blast+
  have "bounded c rt'" by (rule all_sessions_get [OF bo rt'(1)])
  then have "edge_occupancy rt' e = card {q. slot_waits (rt_artifacts rt') q a (sg_stage_id st)}"
    using edge_occupancy_card [of rt' e] config_edge [OF c e(1)] e(3) by (simp add: bounded_def dicts_ok_def)
  moreover have "card {q. slot_waits (rt_artifacts rt') q a (sg_stage_id st)} \<noteq> 0"
    unfolding card_0_eq [OF waits_finite] using w(1) by blast
  ultimately show ?thesis using w by (simp add: waits_for_slot)
qed

lemma repushed_item_blocks_edge_witness:
  "\<exists>rt' :: int session_runtime. 1 \<le> edge_occupancy rt' (demo_edge ''x'' None ''den'') \<and> waits_for rt' 0 ''x'' ''den''"
proof -
  let ?s = "run_events always_accept demo_config demo_events"
  let ?r = "try_push_inputs always_accept demo_config 7 ''s'' 0 [(''x'', 9)] ?s"
  let ?s2 = "foldl (exec always_accept demo_config) (snd ?r) [(8, Poll ''s'')]"
  have "map_option (\<lambda>rt. frontier_of rt ''den'') (od_get (or_sessions ?s) ''s'') = Some 1" by code_simp
  then obtain rt where rt: "od_get (or_sessions ?s) ''s'' = Some rt" "0 < frontier_of rt ''den''" by auto
  have "fst ?r = Inr True" by code_simp
  then have push: "?r = (Inr True, snd ?r)" by (metis prod.collapse)
  have "map_option rt_status (od_get (or_sessions ?s2) ''s'') = Some SESSION_RUNNING" by code_simp
  then obtain rt' where rt': "od_get (or_sessions ?s2) ''s'' = Some rt'" "rt_status rt' = SESSION_RUNNING" by auto
  have st: "demo_stage ''den'' [''x''] [''z''] \<in> set (sp_stages demo_spec)"
      "sg_ordering (demo_stage ''den'' [''x''] [''z'']) = PER_SESSION_STRICT"
    and id: "sg_stage_id (demo_stage ''den'' [''x''] [''z'']) = ''den''"
    by (simp_all add: demo_spec_def demo_pipeline_def demo_stage_def)
  have e: "demo_edge ''x'' None ''den'' \<in> set (artifact_edges demo_config ''x'')" by code_simp
  have e2: "eg_source_stage (demo_edge ''x'' None ''den'') = None"
      "eg_target_stage (demo_edge ''x'' None ''den'') = sg_stage_id (demo_stage ''den'' [''x''] [''z''])"
    by (simp_all add: demo_edge_def id)
  have "waits_for rt' 0 ''x'' (sg_stage_id (demo_stage ''den'' [''x''] [''z''])) \<and>
      0 < frontier_of rt' (sg_stage_id (demo_stage ''den'' [''x''] [''z''])) \<and>
      1 \<le> edge_occupancy rt' (demo_edge ''x'' None ''den'')"
    by (rule repushed_item_blocks_edge [OF demo_built refl st e e2 rt(1) _ push _ rt']) (use rt(2) id in simp_all)
  then show ?thesis by (auto simp: id)
qed

end
