(* ===== verification/Stream_Report.thy ===== *)
theory Stream_Report
  imports Stream_Run
begin

text \<open>
  What the streaming orchestrator reports: artifact statistics, resource-group usage, anomaly
  counters, stage timings, latency metrics and the classification of idle intervals
  (\<open>telefuser/orchestrator/streaming_pipeline_orchestrator.py\<close>). Times are exact rationals, and
  the percentile fractions are the decimal numbers of the source.
\<close>

section \<open>Counters\<close>

record artifact_stats =
  st_slot_count :: nat
  st_reference_count :: nat

definition artifact_stats_of :: "string \<Rightarrow> 'v orchestrator \<Rightarrow> artifact_stats res" where
  "artifact_stats_of sid s =
     (case runtime_of s sid of
        Inl e \<Rightarrow> Inl e
      | Inr rt \<Rightarrow> Inr \<lparr>st_slot_count = length (rt_artifacts rt),
          st_reference_count = sum_list (map (\<lambda>sl. card (sl_remaining sl)) (od_vals (rt_artifacts rt)))\<rparr>)"

definition resource_group_usage :: "config \<Rightarrow> string \<Rightarrow> 'v orchestrator \<Rightarrow> nat res" where
  "resource_group_usage c g s =
     (if group_of (cf_spec c) g = None then Inl (KeyError (''Unknown streaming resource group '' @ g))
      else Inr (group_in_flight_count c s g))"

record diagnostics =
  dg_stale_epoch_results :: nat
  dg_orphaned_results :: nat
  dg_duplicate_results :: nat
  dg_cleanup_failures :: nat
  dg_slot_leaks :: nat

definition diagnostics_of :: "'v orchestrator \<Rightarrow> diagnostics" where
  "diagnostics_of s =
     \<lparr>dg_stale_epoch_results = or_stale_epoch_results s, dg_orphaned_results = or_orphaned_results s,
      dg_duplicate_results = or_duplicate_results s, dg_cleanup_failures = or_cleanup_failures s,
      dg_slot_leaks = or_slot_leaks s\<rparr>"

section \<open>Latencies\<close>

record latency_summary =
  ls_count :: nat
  ls_minimum :: "rat option"
  ls_p50 :: "rat option"
  ls_p95 :: "rat option"
  ls_maximum :: "rat option"
  ls_mean :: "rat option"

text \<open>Linear interpolation between the two neighbours of a position in the ordered samples.\<close>

definition interpolate :: "rat list \<Rightarrow> rat \<Rightarrow> rat" where
  "interpolate xs position =
     (let lower = nat \<lfloor>position\<rfloor>; upper = min (lower + 1) (length xs - 1); weight = position - of_nat lower
      in xs ! lower * (1 - weight) + xs ! upper * weight)"

definition percentile :: "rat list \<Rightarrow> rat \<Rightarrow> rat" where
  "percentile xs fraction = interpolate xs (of_nat (length xs - 1) * fraction)"

definition summarize_latencies :: "rat list \<Rightarrow> latency_summary" where
  "summarize_latencies values =
     (let ordered = sort values
      in if ordered = [] then
           \<lparr>ls_count = 0, ls_minimum = None, ls_p50 = None, ls_p95 = None, ls_maximum = None, ls_mean = None\<rparr>
         else
           \<lparr>ls_count = length ordered, ls_minimum = Some (hd ordered), ls_p50 = Some (percentile ordered (1/2)),
            ls_p95 = Some (percentile ordered (95/100)), ls_maximum = Some (last ordered),
            ls_mean = Some (sum_list ordered / of_nat (length ordered))\<rparr>)"

record session_metrics =
  sm_ingress :: "(int \<times> rat) list"
  sm_emitted :: "(int \<times> rat) list"
  sm_first_output_latency :: "rat option"
  sm_control_to_output :: latency_summary
  sm_chunk_period :: latency_summary

fun control_latencies :: "(int, rat) odict \<Rightarrow> (int \<times> rat) list \<Rightarrow> rat list" where
  "control_latencies ingress [] = []"
| "control_latencies ingress ((q, t) # es) =
     (case od_get ingress q of
        None \<Rightarrow> control_latencies ingress es
      | Some i \<Rightarrow> (t - i) # control_latencies ingress es)"

definition session_metrics_of :: "string \<Rightarrow> 'v orchestrator \<Rightarrow> session_metrics res" where
  "session_metrics_of sid s =
     (case runtime_of s sid of
        Inl e \<Rightarrow> Inl e
      | Inr rt \<Rightarrow>
          let ingress = sort (rt_ingress rt); emitted = sort (rt_emitted rt)
          in Inr \<lparr>sm_ingress = ingress, sm_emitted = emitted,
               sm_first_output_latency =
                 (if ingress \<noteq> [] \<and> emitted \<noteq> [] then Some (snd (hd emitted) - snd (hd ingress)) else None),
               sm_control_to_output = summarize_latencies (control_latencies (rt_ingress rt) emitted),
               sm_chunk_period = summarize_latencies
                 (map (\<lambda>(previous, current). snd current - snd previous) (zip emitted (tl emitted)))\<rparr>)"

section \<open>Stage timings and idle intervals\<close>

text \<open>The timings in the order of their sequences, equal sequences in the order of insertion.\<close>

definition ordered_timings :: "'v session_runtime \<Rightarrow> stage_timing list" where
  "ordered_timings rt = map snd (sort_key (\<lambda>((sid, q), tm). q) (rt_timings rt))"

definition stage_timings :: "config \<Rightarrow> string \<Rightarrow> string \<Rightarrow> 'v orchestrator \<Rightarrow> stage_timing list res" where
  "stage_timings c sid stage s =
     (if stage_of (cf_spec c) stage = None then Inl (KeyError (''Unknown streaming stage '' @ stage))
      else case runtime_of s sid of
        Inl e \<Rightarrow> Inl e
      | Inr rt \<Rightarrow> Inr (filter (\<lambda>tm. tm_stage_id tm = stage) (ordered_timings rt)))"

record idle_interval =
  ii_stage_id :: string
  ii_previous_sequence_id :: int
  ii_sequence_id :: int
  ii_idle_seconds :: rat
  ii_reason :: string
  ii_missing_inputs :: "string list"

definition or_empty :: "string list option \<Rightarrow> string list" where
  "or_empty x = (case x of None \<Rightarrow> [] | Some xs \<Rightarrow> xs)"

definition causal_inputs :: "string list \<Rightarrow> string" where
  "causal_inputs missing =
     (let present = filter (\<lambda>a. a \<in> set missing) [''condition'', ''control'']
      in if present = [] then ''inputs_not_ready''
         else case present of [a] \<Rightarrow> a | a # b # _ \<Rightarrow> a @ ''+'' @ b)"

definition idle_reason ::
    "'v session_runtime \<Rightarrow> string \<Rightarrow> int \<Rightarrow> rat \<Rightarrow> rat option \<Rightarrow> rat \<Rightarrow> string list \<Rightarrow> string" where
  "idle_reason rt stage q idle ready completed missing =
     (if idle \<le> 1/1000 then ''continuous''
      else if (case ready of None \<Rightarrow> True | Some r \<Rightarrow> r > completed) then causal_inputs missing
      else case od_get (rt_blocking rt) (stage, q) of None \<Rightarrow> ''scheduler_admission'' | Some r \<Rightarrow> r)"

definition idle_between :: "'v session_runtime \<Rightarrow> string \<Rightarrow> stage_timing \<Rightarrow> stage_timing \<Rightarrow> idle_interval" where
  "idle_between rt stage previous current =
     (let completed = the (tm_completed_at previous);
          idle = max 0 (the (tm_admitted_at current) - completed);
          missing = or_empty (od_get (rt_missing rt) (stage, tm_sequence_id current))
      in \<lparr>ii_stage_id = stage, ii_previous_sequence_id = tm_sequence_id previous,
          ii_sequence_id = tm_sequence_id current, ii_idle_seconds = idle,
          ii_reason = idle_reason rt stage (tm_sequence_id current) idle (tm_inputs_ready_at current) completed missing,
          ii_missing_inputs = missing\<rparr>)"

definition stage_idle_intervals :: "string \<Rightarrow> string \<Rightarrow> 'v orchestrator \<Rightarrow> idle_interval list res" where
  "stage_idle_intervals sid stage s =
     (case runtime_of s sid of
        Inl e \<Rightarrow> Inl e
      | Inr rt \<Rightarrow>
          let timings = filter (\<lambda>tm. tm_stage_id tm = stage \<and> tm_admitted_at tm \<noteq> None \<and> tm_completed_at tm \<noteq> None)
                 (ordered_timings rt)
          in Inr (map (\<lambda>(previous, current). idle_between rt stage previous current) (zip timings (tl timings))))"

section \<open>The summary is ordered\<close>

lemma interpolate_between:
  assumes "sorted xs" and "0 \<le> p" and "p \<le> of_nat (length xs - 1)" and "xs \<noteq> []"
  shows "xs ! nat \<lfloor>p\<rfloor> \<le> interpolate xs p \<and>
    interpolate xs p \<le> xs ! min (nat \<lfloor>p\<rfloor> + 1) (length xs - 1) \<and> nat \<lfloor>p\<rfloor> \<le> length xs - 1"
proof -
  let ?l = "nat \<lfloor>p\<rfloor>" and ?n = "length xs - 1"
  let ?u = "min (?l + 1) ?n" and ?w = "p - of_nat (nat \<lfloor>p\<rfloor>)"
  have fl: "of_nat ?l = (of_int \<lfloor>p\<rfloor> :: rat)" using assms(2) by simp
  have w: "0 \<le> ?w" "?w \<le> 1" using fl by linarith+
  have "(of_nat ?l :: rat) \<le> of_nat ?n" using fl assms(3) of_int_floor_le [of p] by linarith
  then have l: "?l \<le> ?n" by (simp only: of_nat_le_iff)
  moreover have "?n < length xs" using assms(4) by (cases xs) auto
  ultimately have le: "xs ! ?l \<le> xs ! ?u" using assms(1) by (intro sorted_nth_mono) auto
  have e: "interpolate xs p = xs ! ?l + ?w * (xs ! ?u - xs ! ?l)"
    by (simp add: interpolate_def Let_def algebra_simps)
  have "0 \<le> ?w * (xs ! ?u - xs ! ?l)" using w le by simp
  moreover have "?w * (xs ! ?u - xs ! ?l) \<le> xs ! ?u - xs ! ?l"
    using mult_right_mono [OF w(2), of "xs ! ?u - xs ! ?l"] le by simp
  ultimately show ?thesis using e l by simp
qed

lemma interpolate_mono:
  assumes "sorted xs" and "0 \<le> p" and "p \<le> q" and "q \<le> of_nat (length xs - 1)" and "xs \<noteq> []"
  shows "interpolate xs p \<le> interpolate xs q"
proof (cases "\<lfloor>p\<rfloor> = \<lfloor>q\<rfloor>")
  case True
  let ?l = "nat \<lfloor>q\<rfloor>"
  let ?u = "min (?l + 1) (length xs - 1)"
  have l: "?l \<le> length xs - 1" using interpolate_between [of xs q] assms by simp
  moreover have "length xs - 1 < length xs" using assms(5) by (cases xs) auto
  ultimately have le: "xs ! ?l \<le> xs ! ?u" using assms(1) by (intro sorted_nth_mono) auto
  have "interpolate xs r = xs ! ?l + (r - of_nat ?l) * (xs ! ?u - xs ! ?l)" if "\<lfloor>r\<rfloor> = \<lfloor>q\<rfloor>" for r
    using that by (simp add: interpolate_def Let_def algebra_simps)
  then show ?thesis using True assms(3) le by (simp add: mult_right_mono)
next
  case False
  then have lt: "\<lfloor>p\<rfloor> < \<lfloor>q\<rfloor>" using floor_mono [OF assms(3)] by simp
  have P: "interpolate xs p \<le> xs ! min (nat \<lfloor>p\<rfloor> + 1) (length xs - 1)"
    using interpolate_between [of xs p] assms by simp
  have Q: "xs ! nat \<lfloor>q\<rfloor> \<le> interpolate xs q" "nat \<lfloor>q\<rfloor> \<le> length xs - 1"
    using interpolate_between [of xs q] assms by simp_all
  have "nat \<lfloor>p\<rfloor> + 1 \<le> nat \<lfloor>q\<rfloor>" using lt assms(2) zero_le_floor [of p] by linarith
  moreover have "length xs - 1 < length xs" using assms(5) by (cases xs) auto
  ultimately have "xs ! min (nat \<lfloor>p\<rfloor> + 1) (length xs - 1) \<le> xs ! nat \<lfloor>q\<rfloor>"
    using assms(1) Q(2) by (intro sorted_nth_mono) auto
  with P Q show ?thesis by linarith
qed

lemma sum_list_bounds:
  "(\<forall>x \<in> set xs. lo \<le> x \<and> x \<le> (hi :: rat)) \<Longrightarrow>
     of_nat (length xs) * lo \<le> sum_list xs \<and> sum_list xs \<le> of_nat (length xs) * hi"
  by (induction xs) (auto simp: algebra_simps)

text \<open>The latency summary is ordered: the minimum is at most the median, the median at most the
  95th percentile and that at most the maximum, the mean lies between minimum and maximum,
  and these two are samples.\<close>

theorem latency_summary_ordered:
  assumes "vs \<noteq> []"
  shows "\<exists>lo p50 p95 hi mean. summarize_latencies vs =
      \<lparr>ls_count = length vs, ls_minimum = Some lo, ls_p50 = Some p50, ls_p95 = Some p95,
       ls_maximum = Some hi, ls_mean = Some mean\<rparr> \<and>
    lo \<le> p50 \<and> p50 \<le> p95 \<and> p95 \<le> hi \<and> lo \<le> mean \<and> mean \<le> hi \<and> {lo, hi} \<subseteq> set vs \<and>
    (\<forall>v \<in> set vs. lo \<le> v \<and> v \<le> hi)"
proof -
  let ?xs = "sort vs"
  have ne: "?xs \<noteq> []" using assms by (metis length_0_conv length_sort)
  have s: "sorted ?xs" by simp
  let ?n = "length ?xs - 1" and ?N = "of_nat (length ?xs - 1) :: rat"
  have lo: "hd ?xs = ?xs ! 0" and hi: "last ?xs = ?xs ! ?n" using ne by (simp_all add: hd_conv_nth last_conv_nth)
  have zero: "interpolate ?xs 0 = ?xs ! 0" by (simp add: interpolate_def Let_def)
  have top: "interpolate ?xs ?N = ?xs ! ?n" by (simp add: interpolate_def Let_def)
  have "?xs ! 0 \<le> percentile ?xs (1/2)"
    unfolding percentile_def zero [symmetric] by (rule interpolate_mono [OF s]) (use ne in auto)
  moreover have "percentile ?xs (1/2) \<le> percentile ?xs (95/100)"
    unfolding percentile_def by (rule interpolate_mono [OF s]) (use ne in auto)
  moreover have "percentile ?xs (95/100) \<le> ?xs ! ?n"
    unfolding percentile_def top [symmetric] by (rule interpolate_mono [OF s]) (use ne in auto)
  moreover have ends: "hd ?xs \<le> v \<and> v \<le> last ?xs" if "v \<in> set ?xs" for v
    using s that ne unfolding lo hi by (metis (no_types, lifting) One_nat_def Suc_pred bot_nat_0.extremum
      in_set_conv_nth length_greater_0_conv less_Suc_eq_le diff_less zero_less_one sorted_nth_mono)
  moreover have "of_nat (length ?xs) * hd ?xs \<le> sum_list ?xs \<and> sum_list ?xs \<le> of_nat (length ?xs) * last ?xs"
    by (rule sum_list_bounds) (use ends in blast)
  then have "hd ?xs \<le> sum_list ?xs / of_nat (length ?xs)" "sum_list ?xs / of_nat (length ?xs) \<le> last ?xs"
    using assms by (simp_all add: pos_le_divide_eq pos_divide_le_eq mult.commute)
  moreover have "hd ?xs \<in> set vs" "last ?xs \<in> set vs" using ne hd_in_set last_in_set by fastforce+
  ultimately show ?thesis
    using ne unfolding summarize_latencies_def Let_def by (auto simp: lo hi)
qed

lemma latency_summary_ordered_witness:
  "ls_p50 (summarize_latencies [3, 1, 2]) = Some 2 \<and>
     (\<exists>lo p50 p95 hi mean. summarize_latencies [3, 1, 2] =
       \<lparr>ls_count = 3, ls_minimum = Some lo, ls_p50 = Some p50, ls_p95 = Some p95,
        ls_maximum = Some hi, ls_mean = Some mean\<rparr> \<and> lo \<le> p50 \<and> p50 \<le> p95 \<and> p95 \<le> hi)"
proof -
  have "ls_p50 (summarize_latencies [3, 1, 2]) = Some 2" by code_simp
  then show ?thesis using latency_summary_ordered [of "[3, 1, 2]"] by auto
qed

end
