(* ===== verification/Replica_Link.thy ===== *)
theory Replica_Link
  imports Prelude
begin

text \<open>
  The link between the main process and one replica subprocess
  (\<open>telefuser/service/core/replica_worker.py\<close>): the bounded waits of \<open>ReplicaHandle\<close>, what its
  calls return or raise, and a machine of the two ends of the pipe with the cancellation
  events. A call is numbered; a message and a reply carry the number of their call, which the
  code does not send. The reading thread of a call goes on when the call is cancelled; it ends
  with a reply, with an end of file or an operating system error, or with nothing when its time
  is over or the process is dead.
\<close>

section \<open>The calls of a handle\<close>

type_synonym reply = "string \<times> pyval"

datatype call_error = ReplicaDead string | ReplicaVLA string string | Plain py_error

type_synonym call_result = "call_error + pyval"

text \<open>A turn of the polling loop: a reply, an end of file or operating system error, or silence and
  whether the process is still alive. The list ends when the deadline passes.\<close>

datatype poll_turn = Received reply | ConnectionLost string | Silent bool

fun recv_with_health_check :: "poll_turn list \<Rightarrow> string + reply option" where
  "recv_with_health_check [] = Inr None"
| "recv_with_health_check (Received r # turns) = Inr (Some r)"
| "recv_with_health_check (ConnectionLost e # turns) = Inl e"
| "recv_with_health_check (Silent alive # turns) =
     (if alive then recv_with_health_check turns else Inr None)"

definition replica_name :: "nat \<Rightarrow> string" where
  "replica_name rid = ''Replica '' @ digits_of rid"

definition not_alive :: "nat \<Rightarrow> call_error" where
  "not_alive rid = ReplicaDead (replica_name rid @ '' process is not alive'')"

definition ipc_failed :: "nat \<Rightarrow> string \<Rightarrow> call_error" where
  "ipc_failed rid e = ReplicaDead (replica_name rid @ '' IPC failed: '' @ e)"

definition no_response :: "nat \<Rightarrow> string \<Rightarrow> bool \<Rightarrow> call_error" where
  "no_response rid timeout alive =
     ReplicaDead (replica_name rid @ '' did not respond within '' @ timeout @ ''s (process alive: '' @
       py_str (VBool alive) @ '')'')"

text \<open>What both calls do with the pipe: the reply, or the error of a replica that is then dead.
  \<open>send\<close> is the error of \<open>conn.send\<close>, if it has one.\<close>

definition round_trip :: "nat \<Rightarrow> string \<Rightarrow> bool \<Rightarrow> string option \<Rightarrow> poll_turn list \<Rightarrow> bool \<Rightarrow> call_error + reply" where
  "round_trip rid timeout alive send turns alive_after =
     (if \<not> alive then Inl (not_alive rid)
      else case send of
        Some e \<Rightarrow> Inl (ipc_failed rid e)
      | None \<Rightarrow>
          (case recv_with_health_check turns of
             Inl e \<Rightarrow> Inl (ipc_failed rid e)
           | Inr None \<Rightarrow> Inl (no_response rid timeout alive_after)
           | Inr (Some r) \<Rightarrow> Inr r))"

text \<open>The second component is \<open>_dead\<close> after the call.\<close>

definition run_task ::
  "nat \<Rightarrow> string \<Rightarrow> bool \<Rightarrow> string option \<Rightarrow> poll_turn list \<Rightarrow> bool \<Rightarrow> bool \<Rightarrow> call_result \<times> bool" where
  "run_task rid timeout alive send turns alive_after dead =
     (case round_trip rid timeout alive send turns alive_after of
        Inl e \<Rightarrow> (Inl e, True)
      | Inr (tag, payload) \<Rightarrow>
          if tag = ''error'' then (Inl (Plain (RuntimeError (replica_name rid @ '': '' @ py_str payload))), dead)
          else (Inr payload, dead))"

definition bad_timeout :: "pyval \<Rightarrow> bool" where
  "bad_timeout t =
     (case t of
        VNone \<Rightarrow> False
      | VInt i \<Rightarrow> i \<le> 0
      | VFloat r s \<Rightarrow> r \<le> 0
      | _ \<Rightarrow> True)"

definition vla_error_of :: "(string \<times> pyval) list \<Rightarrow> call_error" where
  "vla_error_of d =
     ReplicaVLA
       (case od_get d ''type'' of None \<Rightarrow> ''RuntimeError'' | Some v \<Rightarrow> py_str v)
       (case od_get d ''message'' of None \<Rightarrow> '''' | Some v \<Rightarrow> py_str v)"

definition run_vla_operation ::
  "nat \<Rightarrow> string \<Rightarrow> pyval \<Rightarrow> pyval \<Rightarrow> bool \<Rightarrow> string option \<Rightarrow> poll_turn list \<Rightarrow> bool \<Rightarrow> bool \<Rightarrow> call_result \<times> bool" where
  "run_vla_operation rid timeout operation timeout_s alive send turns alive_after dead =
     (if \<not> (case operation of VStr s \<Rightarrow> s \<noteq> [] | _ \<Rightarrow> False) then
        (Inl (Plain (ValueError ''operation must be a non-empty string'')), dead)
      else if bad_timeout timeout_s then
        (Inl (Plain (ValueError ''timeout_s must be None or a positive number'')), dead)
      else case round_trip rid timeout alive send turns alive_after of
        Inl e \<Rightarrow> (Inl e, True)
      | Inr (tag, response) \<Rightarrow>
          (if tag = ''vla_error'' then
             (case response of
                VDict d \<Rightarrow> Inl (vla_error_of d)
              | _ \<Rightarrow> Inl (Plain (RuntimeError (replica_name rid @ '' returned an invalid VLA error''))))
           else if tag = ''error'' then Inl (Plain (RuntimeError (replica_name rid @ '': '' @ py_str response)))
           else case response of
             VDict d \<Rightarrow>
               if tag = ''ok'' then Inr response
               else Inl (Plain (RuntimeError (replica_name rid @ '' returned an invalid VLA response'')))
           | _ \<Rightarrow> Inl (Plain (RuntimeError (replica_name rid @ '' returned an invalid VLA response''))),
           dead))"

section \<open>The two ends of the pipe\<close>

datatype message = TaskMessage nat pyval | VlaMessage nat string pyval | ShutdownMessage

text \<open>A task runs with its own stop event in the child.\<close>

datatype child_state = Waiting | RunningTask nat bool | RunningVla nat | Exited

datatype forwarder = NoForwarder | Forwarding | ForwarderDone

record link =
  lk_to_child :: "message list"
  lk_to_parent :: "(nat \<times> reply) list"
  lk_child :: child_state
  lk_provider :: bool
  lk_alive :: bool
  lk_dead :: bool
  lk_cancel_event :: bool
  lk_stop_event :: bool
  lk_forwarder :: forwarder
  lk_current :: "nat option"
  lk_readers :: "nat list"
  lk_answers :: "(nat \<times> nat \<times> reply) list"
  lk_failed :: "nat list"
  lk_next :: nat

definition new_link :: "bool \<Rightarrow> link" where
  "new_link provider =
     \<lparr>lk_to_child = [], lk_to_parent = [], lk_child = Waiting, lk_provider = provider, lk_alive = True,
      lk_dead = False, lk_cancel_event = False,
      lk_stop_event = False, lk_forwarder = NoForwarder, lk_current = None, lk_readers = [], lk_answers = [],
      lk_failed = [], lk_next = 0\<rparr>"

text \<open>
  The pool lets a call begin when the last one has ended, and never on a handle that is marked dead:
  it evicts that replica instead. The call sends its message and starts its reader; \<open>sent\<close> is
  false when \<open>conn.send\<close> raises. A call that cannot be sent marks the handle dead.
\<close>

definition fail_call :: "nat \<Rightarrow> link \<Rightarrow> link" where
  "fail_call c s = s\<lparr>lk_dead := True, lk_failed := lk_failed s @ [c], lk_current := None, lk_forwarder := NoForwarder\<rparr>"

definition begin_call :: "(nat \<Rightarrow> message) \<Rightarrow> bool \<Rightarrow> link \<Rightarrow> link" where
  "begin_call m sent s =
     (if lk_alive s \<and> sent then
        s\<lparr>lk_to_child := lk_to_child s @ [m (lk_next s)], lk_current := Some (lk_next s),
          lk_readers := lk_readers s @ [lk_next s], lk_next := lk_next s + 1\<rparr>
      else fail_call (lk_next s) (s\<lparr>lk_next := lk_next s + 1\<rparr>))"

definition start_task :: "bool \<Rightarrow> pyval \<Rightarrow> bool \<Rightarrow> link \<Rightarrow> link" where
  "start_task stop task_data sent s =
     (if lk_current s \<noteq> None \<or> lk_dead s then s
      else begin_call (\<lambda>c. TaskMessage c task_data) sent
             (s\<lparr>lk_cancel_event := False, lk_stop_event := stop, lk_forwarder := Forwarding\<rparr>))"

definition start_vla :: "string \<Rightarrow> pyval \<Rightarrow> bool \<Rightarrow> link \<Rightarrow> link" where
  "start_vla operation payload sent s =
     (if lk_current s \<noteq> None \<or> lk_dead s then s else begin_call (\<lambda>c. VlaMessage c operation payload) sent s)"

definition forward_cancel :: "link \<Rightarrow> link" where
  "forward_cancel s =
     (if lk_forwarder s = Forwarding \<and> lk_stop_event s
      then s\<lparr>lk_cancel_event := True, lk_forwarder := ForwarderDone\<rparr> else s)"

text \<open>The coroutine of the call ends: it takes the answer, or it is cancelled and its reader stays.\<close>

definition end_call :: "link \<Rightarrow> link" where
  "end_call s = s\<lparr>lk_current := None, lk_forwarder := NoForwarder\<rparr>"

definition reader_turn :: "nat \<Rightarrow> link \<Rightarrow> link" where
  "reader_turn c s =
     (if c \<notin> set (lk_readers s) then s
      else case lk_to_parent s of
        [] \<Rightarrow> s
      | r # rest \<Rightarrow>
          let q = s\<lparr>lk_to_parent := rest, lk_readers := remove1 c (lk_readers s), lk_answers := lk_answers s @ [(c, r)]\<rparr>
          in if lk_current s = Some c then end_call q else q)"

text \<open>
  A reader that ends without a reply: its time is over or the process is dead (\<open>None\<close>), or the pipe
  has failed. If its call still waits for it, the call raises and the handle is marked dead; the
  reply may still come.
\<close>

definition reader_fails :: "nat \<Rightarrow> link \<Rightarrow> link" where
  "reader_fails c s =
     (if c \<notin> set (lk_readers s) then s
      else
        let q = s\<lparr>lk_readers := remove1 c (lk_readers s)\<rparr>
        in if lk_current s = Some c then fail_call c q else q)"

text \<open>The process ends, whatever it was doing.\<close>

definition process_dies :: "link \<Rightarrow> link" where
  "process_dies s = s\<lparr>lk_alive := False, lk_child := Exited\<rparr>"

definition shutdown_link :: "link \<Rightarrow> link" where
  "shutdown_link s = s\<lparr>lk_to_child := lk_to_child s @ [ShutdownMessage]\<rparr>"

definition send_reply :: "nat \<Rightarrow> reply \<Rightarrow> link \<Rightarrow> link" where
  "send_reply c r s = s\<lparr>lk_to_parent := lk_to_parent s @ [(c, r)]\<rparr>"

definition vla_error :: "string \<Rightarrow> string \<Rightarrow> reply" where
  "vla_error type_name text = (''vla_error'', VDict [(''type'', VStr type_name), (''message'', VStr text)])"

text \<open>\<open>_task_loop\<close>: it takes a message when it waits, and answers when the service or the provider
  has returned or raised.\<close>

definition child_receive :: "link \<Rightarrow> link" where
  "child_receive s =
     (case (lk_child s, lk_to_child s) of
        (Waiting, ShutdownMessage # rest) \<Rightarrow> s\<lparr>lk_to_child := rest, lk_child := Exited\<rparr>
      | (Waiting, TaskMessage c d # rest) \<Rightarrow>
          s\<lparr>lk_to_child := rest, lk_cancel_event := False, lk_child := RunningTask c False\<rparr>
      | (Waiting, VlaMessage c operation d # rest) \<Rightarrow>
          if lk_provider s then s\<lparr>lk_to_child := rest, lk_child := RunningVla c\<rparr>
          else send_reply c (vla_error ''RuntimeError'' ''replica has no VLA provider'') (s\<lparr>lk_to_child := rest\<rparr>)
      | _ \<Rightarrow> s)"

datatype work_outcome = Returned pyval | Raised string string

definition task_reply :: "work_outcome \<Rightarrow> reply" where
  "task_reply w = (case w of Returned v \<Rightarrow> (''ok'', v) | Raised t m \<Rightarrow> (''error'', VStr m))"

definition vla_reply :: "work_outcome \<Rightarrow> reply" where
  "vla_reply w = (case w of Returned v \<Rightarrow> (''ok'', v) | Raised t m \<Rightarrow> vla_error t m)"

definition child_finish :: "work_outcome \<Rightarrow> link \<Rightarrow> link" where
  "child_finish w s =
     (case lk_child s of
        RunningTask c stop \<Rightarrow>
          (send_reply c (task_reply w) s)\<lparr>lk_cancel_event := True, lk_child := Waiting\<rparr>
      | RunningVla c \<Rightarrow> (send_reply c (vla_reply w) s)\<lparr>lk_child := Waiting\<rparr>
      | _ \<Rightarrow> s)"

definition cancel_watcher :: "link \<Rightarrow> link" where
  "cancel_watcher s =
     (case lk_child s of
        RunningTask c stop \<Rightarrow> if lk_cancel_event s then s\<lparr>lk_child := RunningTask c True\<rparr> else s
      | _ \<Rightarrow> s)"

datatype link_event =
    StartTask bool pyval bool
  | StartVla string pyval bool
  | SetStop
  | ForwarderTurn
  | ReaderTurn nat
  | ReaderFails nat
  | Abandon
  | ShutdownCall
  | ProcessDies
  | ChildReceive
  | ChildFinish work_outcome
  | WatcherTurn

fun link_exec :: "link \<Rightarrow> link_event \<Rightarrow> link" where
  "link_exec s (StartTask stop d sent) = start_task stop d sent s"
| "link_exec s (StartVla operation d sent) = start_vla operation d sent s"
| "link_exec s SetStop = s\<lparr>lk_stop_event := True\<rparr>"
| "link_exec s ForwarderTurn = forward_cancel s"
| "link_exec s (ReaderTurn c) = reader_turn c s"
| "link_exec s (ReaderFails c) = reader_fails c s"
| "link_exec s ProcessDies = process_dies s"
| "link_exec s Abandon = end_call s"
| "link_exec s ShutdownCall = shutdown_link s"
| "link_exec s ChildReceive = child_receive s"
| "link_exec s (ChildFinish w) = child_finish w s"
| "link_exec s WatcherTurn = cancel_watcher s"

section \<open>Every call gets its own reply\<close>

fun message_call :: "message \<Rightarrow> nat list" where
  "message_call (TaskMessage c d) = [c]"
| "message_call (VlaMessage c operation d) = [c]"
| "message_call ShutdownMessage = []"

fun child_call :: "child_state \<Rightarrow> nat list" where
  "child_call (RunningTask c stop) = [c]"
| "child_call (RunningVla c) = [c]"
| "child_call Waiting = []"
| "child_call Exited = []"

definition outstanding :: "link \<Rightarrow> nat list" where
  "outstanding s = concat (map message_call (lk_to_child s)) @ child_call (lk_child s) @ map fst (lk_to_parent s)"

definition current_call :: "link \<Rightarrow> nat list" where
  "current_call s = (case lk_current s of None \<Rightarrow> [] | Some c \<Rightarrow> [c])"

text \<open>
  While no call is abandoned, the call that runs is the only one that reads, nothing but that call
  and the one that has failed is in the pipe, and the calls before have been answered in order,
  each with its own reply. The first call that fails is the last one.
\<close>

definition link_ok :: "link \<Rightarrow> bool" where
  "link_ok s \<longleftrightarrow> (outstanding s = [] \<or> outstanding s = lk_failed s @ current_call s) \<and> lk_readers s = current_call s \<and>
     map fst (lk_answers s) @ lk_failed s @ current_call s = [0..<lk_next s] \<and>
     (\<forall>(c, d, r) \<in> set (lk_answers s). c = d) \<and>
     (if lk_dead s then (\<exists>c. lk_failed s = [c]) \<and> lk_current s = None else lk_failed s = [])"

lemma start_ok:
  assumes "lk_current s = None" and "\<not> lk_dead s" and "link_ok s" and "message_call (m (lk_next s)) = [lk_next s]"
  shows "link_ok (begin_call m sent s)"
  using assms by (auto simp: link_ok_def begin_call_def fail_call_def outstanding_def current_call_def)

lemma reader_ok:
  assumes ok: "link_ok s"
  shows "link_ok (reader_turn c s)" and "link_ok (reader_fails c s)"
proof -
  have cur: "lk_current s = Some c" "lk_readers s = [c]" "\<not> lk_dead s" "lk_failed s = []" if "c \<in> set (lk_readers s)"
    using ok that by (auto simp: link_ok_def current_call_def split: option.splits if_splits)
  show "link_ok (reader_turn c s)"
  proof (cases "c \<in> set (lk_readers s) \<and> lk_to_parent s \<noteq> []")
    case True
    then obtain d r rest where p: "lk_to_parent s = (d, r) # rest" by (cases "lk_to_parent s") auto
    have "outstanding s = [c]" using ok True cur p by (auto simp: link_ok_def outstanding_def current_call_def)
    then have "d = c" "rest = []" "concat (map message_call (lk_to_child s)) = []" "child_call (lk_child s) = []"
      using p by (auto simp: outstanding_def append_eq_Cons_conv Cons_eq_append_conv)
    then show ?thesis
      using ok True cur p by (auto simp: link_ok_def reader_turn_def end_call_def outstanding_def current_call_def)
  next
    case False
    then have "reader_turn c s = s" by (auto simp: reader_turn_def)
    with ok show ?thesis by simp
  qed
  show "link_ok (reader_fails c s)"
  proof (cases "c \<in> set (lk_readers s)")
    case True
    note k = cur [OF True]
    have a: "map fst (lk_answers s) @ [c] = [0..<lk_next s]" "outstanding s = [] \<or> outstanding s = [c]"
      "\<forall>(c, d, r) \<in> set (lk_answers s). c = d"
      using ok k by (simp_all add: link_ok_def current_call_def)
    have e: "reader_fails c s = fail_call c (s\<lparr>lk_readers := []\<rparr>)" using k by (simp add: reader_fails_def)
    have "outstanding (reader_fails c s) = outstanding s" unfolding e by (simp add: fail_call_def outstanding_def)
    then show ?thesis using a k unfolding link_ok_def e by (simp add: fail_call_def current_call_def)
  next
    case False
    then show ?thesis using ok by (simp add: reader_fails_def)
  qed
qed

lemma dies_ok: "link_ok s \<Longrightarrow> link_ok (process_dies s)"
proof -
  assume ok: "link_ok s"
  have "length (lk_failed s @ current_call s) \<le> 1"
    using ok by (auto simp: link_ok_def current_call_def split: if_splits option.splits)
  then have l: "length (outstanding s) \<le> 1" using ok by (auto simp: link_ok_def)
  have "outstanding (process_dies s) = [] \<or> outstanding (process_dies s) = outstanding s" if "outstanding s = lk_failed s @ current_call s"
  proof (cases "child_call (lk_child s)")
    case Nil
    then show ?thesis by (simp add: outstanding_def process_dies_def)
  next
    case (Cons x xs)
    have "length (outstanding (process_dies s)) + length (child_call (lk_child s)) = length (outstanding s)"
      by (simp add: outstanding_def process_dies_def)
    moreover have "0 < length (child_call (lk_child s))" using Cons by simp
    ultimately have "length (outstanding (process_dies s)) = 0" using l by linarith
    then show ?thesis by (simp only: length_0_conv simp_thms)
  qed
  moreover have "outstanding s = [] \<Longrightarrow> outstanding (process_dies s) = []" by (simp add: outstanding_def process_dies_def)
  ultimately have "outstanding (process_dies s) = [] \<or> outstanding (process_dies s) = lk_failed s @ current_call s"
    using ok by (auto simp: link_ok_def)
  with ok show ?thesis by (simp add: link_ok_def process_dies_def current_call_def)
qed

text \<open>The child moves a call from one place to the next.\<close>

lemma moved_ok:
  assumes "link_ok s" and "outstanding t = outstanding s" and "lk_current t = lk_current s" and "lk_readers t = lk_readers s"
    and "lk_answers t = lk_answers s" and "lk_failed t = lk_failed s" and "lk_dead t = lk_dead s" and "lk_next t = lk_next s"
  shows "link_ok t"
  using assms by (simp add: link_ok_def current_call_def)

lemma at_most_one: "link_ok s \<Longrightarrow> length (outstanding s) \<le> 1"
  by (auto simp: link_ok_def current_call_def split: if_splits option.splits)

lemma receive_ok: "link_ok s \<Longrightarrow> link_ok (child_receive s)"
proof (cases "lk_child s = Waiting \<and> lk_to_child s \<noteq> []")
  case True
  assume ok: "link_ok s"
  obtain m rest where t: "lk_to_child s = m # rest" using True by (cases "lk_to_child s") auto
  have one: "length (outstanding s) \<le> 1" using ok by (rule at_most_one)
  have "length (message_call m) + length (concat (map message_call rest)) \<le> 1" using one t by (simp add: outstanding_def)
  then have n: "message_call m = [] \<or> concat (map message_call rest) = []" by (cases "message_call m") auto
  have "outstanding (child_receive s) = outstanding s"
    using True t one n
    by (cases m) (simp_all add: child_receive_def outstanding_def send_reply_def del: concat_eq_Nil_conv)
  then show ?thesis
    by (rule moved_ok [OF ok])
      (use True t in \<open>cases m; simp add: child_receive_def send_reply_def\<close>)+
next
  case False
  assume ok: "link_ok s"
  have "child_receive s = s"
    using False by (auto simp: child_receive_def split: child_state.splits list.splits)
  with ok show ?thesis by simp
qed

lemma finish_ok: "link_ok s \<Longrightarrow> link_ok (child_finish w s)"
proof -
  assume ok: "link_ok s"
  have "length (outstanding s) \<le> 1" using ok by (rule at_most_one)
  then have "outstanding (child_finish w s) = outstanding s"
    by (cases "lk_child s") (auto simp: child_finish_def outstanding_def send_reply_def)
  then show ?thesis
    by (rule moved_ok [OF ok]) (cases "lk_child s"; simp add: child_finish_def send_reply_def)+
qed

lemma watcher_ok: "link_ok s \<Longrightarrow> link_ok (cancel_watcher s)"
  by (auto simp: link_ok_def cancel_watcher_def outstanding_def current_call_def split: child_state.splits)

lemma flags_ok:
  "link_ok s \<Longrightarrow> link_ok (s\<lparr>lk_stop_event := b\<rparr>)"
  "link_ok s \<Longrightarrow> link_ok (s\<lparr>lk_cancel_event := b, lk_stop_event := b', lk_forwarder := f\<rparr>)"
  "link_ok s \<Longrightarrow> link_ok (forward_cancel s)"
  "link_ok s \<Longrightarrow> link_ok (shutdown_link s)"
  by (auto simp: outstanding_def forward_cancel_def shutdown_link_def intro: moved_ok)

lemma link_ok_exec:
  assumes ok: "link_ok s" and n: "ev \<noteq> Abandon"
  shows "link_ok (link_exec s ev)"
proof (cases ev)
  case (StartTask stop d sent)
  then show ?thesis using ok by (simp add: start_task_def start_ok flags_ok)
next
  case (StartVla operation d sent)
  then show ?thesis using ok by (simp add: start_vla_def start_ok)
qed (use ok n in \<open>simp_all add: reader_ok dies_ok receive_ok finish_ok watcher_ok flags_ok\<close>)

text \<open>The machine as it runs while no caller is cancelled.\<close>

definition steady_exec :: "link \<Rightarrow> link_event \<Rightarrow> link" where
  "steady_exec s ev = (if ev = Abandon then s else link_exec s ev)"

interpretation steady: invariant_machine steady_exec link_ok
  by unfold_locales (simp add: steady_exec_def link_ok_exec)

lemma steady_run: "Abandon \<notin> set evs \<Longrightarrow> foldl link_exec s evs = foldl steady_exec s evs"
  by (induction evs arbitrary: s) (auto simp: steady_exec_def)

lemma link_ok_run: "Abandon \<notin> set evs \<Longrightarrow> link_ok (foldl link_exec (new_link provider) evs)"
  unfolding steady_run
  by (rule steady.inv_run) (simp add: link_ok_def new_link_def outstanding_def current_call_def)

text \<open>C34: A reply reaches the call that it answers. While no caller is cancelled, whatever the order
  in which the two processes and the threads take their turns, whichever calls run out of time and
  whenever the process or the pipe fails, the calls of a replica are answered one by one in the
  order in which they were made, each by the reply to its own message. A call that gets no reply,
  because it could not be sent, ran out of time or lost the process or the pipe, is the last one: it
  leaves the handle dead, and the pool makes no other call on it. Between two calls of a handle that
  is not dead nothing is left in the pipe.\<close>

theorem replies_match_calls:
  assumes "Abandon \<notin> set evs" and "s = foldl link_exec (new_link provider) evs"
  shows "map fst (lk_answers s) = [0..<length (lk_answers s)] \<and>
    (\<forall>(c, d, r) \<in> set (lk_answers s). c = d) \<and>
    lk_failed s = (if lk_dead s then [length (lk_answers s)] else []) \<and>
    (lk_dead s \<longrightarrow> lk_current s = None) \<and>
    (lk_current s = None \<longrightarrow> lk_next s = length (lk_answers s) + length (lk_failed s) \<and> lk_readers s = [] \<and>
       (\<not> lk_dead s \<longrightarrow> lk_to_parent s = []))"
proof -
  have ok: "link_ok s" unfolding assms(2) by (rule link_ok_run [OF assms(1)])
  then have a: "map fst (lk_answers s) @ lk_failed s @ current_call s = [0..<lk_next s]" by (simp add: link_ok_def)
  have l: "length (lk_answers s) + length (lk_failed s) + length (current_call s) = lk_next s"
    using arg_cong [OF a, of length] by simp
  have "map fst (lk_answers s) = take (length (lk_answers s)) [0..<lk_next s]"
    unfolding a [symmetric] by simp
  then have m: "map fst (lk_answers s) = [0..<length (lk_answers s)]" using l by (simp add: take_upt)
  have "c = length (lk_answers s)" if "lk_failed s = [c]" for c
  proof -
    have "([0..<lk_next s]) ! length (lk_answers s) = c" unfolding a [symmetric] that by (simp add: nth_append)
    then show ?thesis using l that by simp
  qed
  then show ?thesis using ok m l by (auto simp: link_ok_def outstanding_def current_call_def split: if_splits)
qed

text \<open>Two calls are answered; the third runs out of time, its reply comes late, and a fourth is not made.\<close>

definition demo_calls :: "link_event list" where
  "demo_calls =
     [StartTask False VNone True, ChildReceive, ChildFinish (Returned (VInt 1)), ReaderTurn 0,
      StartVla ''reset'' VNone True, ChildReceive, ChildFinish (Raised ''ValueError'' ''x''), ReaderTurn 1,
      StartVla ''predict'' VNone True, ChildReceive, ReaderFails 2, ChildFinish (Returned (VDict [])),
      StartVla ''reset'' VNone True, ReaderTurn 3]"

lemma replies_match_calls_witness:
  "lk_answers (foldl link_exec (new_link True) demo_calls) =
     [(0, 0, ''ok'', VInt 1), (1, 1, vla_error ''ValueError'' ''x'')] \<and>
   lk_failed (foldl link_exec (new_link True) demo_calls) = [2] \<and>
   lk_next (foldl link_exec (new_link True) demo_calls) = 3"
proof -
  let ?s = "foldl link_exec (new_link True) demo_calls"
  have c: "lk_answers ?s = [(0, 0, ''ok'', VInt 1), (1, 1, vla_error ''ValueError'' ''x'')]" "lk_dead ?s" by code_simp+
  have "Abandon \<notin> set demo_calls" by (simp add: demo_calls_def)
  from replies_match_calls [OF this refl, of True] show ?thesis unfolding c(1) using c(2) by simp
qed

section \<open>A call that is cancelled\<close>

text \<open>A cancelled call gives its reply to the next one. The reading thread of \<open>run_vla_operation\<close>
  and the operation in the subprocess go on when the awaiting coroutine is cancelled, and
  replies carry no number. If the caller of a running operation is cancelled and the session
  sends its next operation, the reply to the old one can be returned as the result of the new
  one, whatever it is.\<close>

theorem cancelled_call_misleads_next:
  assumes "Abandon \<notin> set before" and "s = foldl link_exec (new_link provider) before"
    and "lk_child s = RunningVla c" and "lk_alive s" "\<not> lk_dead s"
  shows "c \<noteq> lk_next s \<and>
    last (lk_answers (foldl link_exec s [Abandon, StartVla operation payload True, ChildFinish w, ReaderTurn (lk_next s)])) =
      (lk_next s, c, vla_reply w)"
proof -
  have ok: "link_ok s" unfolding assms(2) by (rule link_ok_run [OF assms(1)])
  then have "outstanding s = current_call s"
    using assms(3,5) by (auto simp: link_ok_def outstanding_def)
  then have cur: "lk_current s = Some c" "lk_to_parent s = []"
    using assms(3) by (auto simp: outstanding_def current_call_def append_eq_Cons_conv split: option.splits)
  then have "c \<in> set (map fst (lk_answers s) @ lk_failed s @ current_call s)" by (simp add: current_call_def)
  then have "c \<in> set [0..<lk_next s]" using ok unfolding link_ok_def by (elim conjE) simp
  then have "c \<noteq> lk_next s" by simp
  then show ?thesis
    using cur assms(3-5)
    by (simp add: end_call_def start_vla_def begin_call_def child_finish_def send_reply_def reader_turn_def Let_def)
qed

lemma cancelled_call_misleads_next_witness:
  "\<exists>s. lk_child s = RunningVla 0 \<and>
     last (lk_answers (foldl link_exec s [Abandon, StartVla ''predict'' VNone True, ChildFinish (Returned (VDict [])), ReaderTurn 1])) =
       (1, 0, ''ok'', VDict [])"
proof -
  let ?evs = "[StartVla ''reset'' VNone True, ChildReceive]"
  let ?s = "foldl link_exec (new_link True) ?evs"
  have c: "lk_child ?s = RunningVla 0" by code_simp
  have n: "lk_next ?s = 1" by code_simp
  have ad: "lk_alive ?s" "\<not> lk_dead ?s" by code_simp+
  have "Abandon \<notin> set ?evs" by simp
  note cancelled_call_misleads_next [OF this refl c ad, of "''predict''" VNone "Returned (VDict [])"]
  then have "last (lk_answers (foldl link_exec ?s [Abandon, StartVla ''predict'' VNone True, ChildFinish (Returned (VDict [])),
      ReaderTurn 1])) = (1, 0, ''ok'', VDict [])"
    unfolding n by (simp only: vla_reply_def work_outcome.case)
  with c show ?thesis by blast
qed

section \<open>A cancellation that comes early\<close>

text \<open>What holds for a task once its cancellation has been lost: the forwarding thread has ended, the
  event that it set has been cleared, and nothing that is still in the pipe sets it again.\<close>

definition cancel_lost :: "nat \<Rightarrow> link \<Rightarrow> bool" where
  "cancel_lost c s \<longleftrightarrow>
     (\<forall>m \<in> set (lk_to_child s). \<forall>d e. m \<noteq> TaskMessage d e) \<and> lk_forwarder s \<noteq> Forwarding \<and>
     lk_child s \<noteq> RunningTask c True \<and> (lk_child s = RunningTask c False \<longrightarrow> \<not> lk_cancel_event s)"

lemma cancel_lost_exec: "cancel_lost c s \<Longrightarrow> (\<forall>stop d sent. ev \<noteq> StartTask stop d sent) \<Longrightarrow> cancel_lost c (link_exec s ev)"
proof -
  assume l: "cancel_lost c s" and n: "\<forall>stop d sent. ev \<noteq> StartTask stop d sent"
  show ?thesis
  proof (cases ev)
    case ChildReceive
    then show ?thesis
      using l by (auto simp: cancel_lost_def child_receive_def send_reply_def
          split: child_state.splits list.splits message.splits)
  qed (use l n in \<open>auto simp: cancel_lost_def start_vla_def begin_call_def fail_call_def forward_cancel_def reader_turn_def
      reader_fails_def process_dies_def end_call_def shutdown_link_def child_finish_def send_reply_def cancel_watcher_def Let_def
      split: list.splits child_state.splits\<close>)
qed

lemma cancel_lost_run:
  "cancel_lost c s \<Longrightarrow> \<forall>stop d sent. StartTask stop d sent \<notin> set evs \<Longrightarrow> cancel_lost c (foldl link_exec s evs)"
proof (induction evs arbitrary: s)
  case (Cons ev evs)
  then have "cancel_lost c (link_exec s ev)" using cancel_lost_exec [of c s ev] by auto
  with Cons show ?case by simp
qed simp

text \<open>A task whose stop event is set when the forwarding thread starts is not cancelled when the
  subprocess reads its message after that: \<open>_task_loop\<close> clears the cancellation event first and
  nobody sets it again before the task has ended. In the other order the task sees it.\<close>

theorem early_cancel_is_lost:
  assumes "lk_current s = None" and "lk_to_child s = []" and "lk_child s = Waiting" and "lk_alive s" "\<not> lk_dead s"
    and "\<forall>stop d sent. StartTask stop d sent \<notin> set later"
  shows "lk_child (foldl link_exec s ([StartTask True task_data True, ForwarderTurn, ChildReceive] @ later)) \<noteq>
      RunningTask (lk_next s) True \<and>
    lk_child (foldl link_exec s [StartTask True task_data True, ChildReceive, ForwarderTurn, WatcherTurn]) =
      RunningTask (lk_next s) True"
proof -
  let ?q = "foldl link_exec s [StartTask True task_data True, ForwarderTurn, ChildReceive]"
  have "cancel_lost (lk_next s) ?q"
    using assms(1-5) by (simp add: cancel_lost_def start_task_def begin_call_def forward_cancel_def child_receive_def)
  then have "cancel_lost (lk_next s) (foldl link_exec ?q later)" by (rule cancel_lost_run [OF _ assms(6)])
  then have "lk_child (foldl link_exec ?q later) \<noteq> RunningTask (lk_next s) True" by (simp add: cancel_lost_def)
  moreover have "lk_child (foldl link_exec s [StartTask True task_data True, ChildReceive, ForwarderTurn, WatcherTurn]) =
      RunningTask (lk_next s) True"
    using assms(1-5)
    by (simp add: start_task_def begin_call_def forward_cancel_def child_receive_def cancel_watcher_def)
  ultimately show ?thesis unfolding foldl_append by (rule conjI)
qed

section \<open>A dead replica\<close>

text \<open>A call marks its replica dead exactly when it raises ReplicaDeadError, and never revives it.\<close>

lemma run_task_dead:
  "run_task rid timeout alive send turns alive_after False = (r, dead) \<Longrightarrow>
     dead \<longleftrightarrow> (\<exists>m. r = Inl (ReplicaDead m))"
  by (auto simp: run_task_def round_trip_def not_alive_def ipc_failed_def no_response_def
      split: sum.splits prod.splits if_splits option.splits)

lemma run_vla_operation_dead:
  "run_vla_operation rid timeout operation timeout_s alive send turns alive_after False = (r, dead) \<Longrightarrow>
     dead \<longleftrightarrow> (\<exists>m. r = Inl (ReplicaDead m))"
  by (auto simp: run_vla_operation_def round_trip_def not_alive_def ipc_failed_def no_response_def vla_error_of_def
      split: sum.splits prod.splits if_splits option.splits pyval.splits)

text \<open>A reply that the polling loop returns was received while the process was alive in every turn before.\<close>

lemma recv_some:
  "recv_with_health_check turns = Inr (Some r) \<longleftrightarrow>
     (\<exists>n rest. turns = replicate n (Silent True) @ Received r # rest)"
proof (induction turns rule: recv_with_health_check.induct)
  case (2 q turns)
  show ?case
  proof
    assume "\<exists>n rest. Received q # turns = replicate n (Silent True) @ Received r # rest"
    then obtain n rest where "Received q # turns = replicate n (Silent True) @ Received r # rest" by blast
    then show "recv_with_health_check (Received q # turns) = Inr (Some r)" by (cases n) auto
  next
    assume "recv_with_health_check (Received q # turns) = Inr (Some r)"
    then show "\<exists>n rest. Received q # turns = replicate n (Silent True) @ Received r # rest"
      by (intro exI [of _ 0] exI [of _ turns]) simp
  qed
next
  case (3 e turns)
  show ?case by (auto simp: Cons_eq_append_conv Cons_replicate_eq)
next
  case (4 alive turns)
  have "(\<exists>n rest. Silent alive # turns = replicate n (Silent True) @ Received r # rest) \<longleftrightarrow>
      alive \<and> (\<exists>n rest. turns = replicate n (Silent True) @ Received r # rest)" (is "?l \<longleftrightarrow> ?r")
  proof
    assume ?l
    then obtain n rest where "Silent alive # turns = replicate n (Silent True) @ Received r # rest" by blast
    then show ?r by (cases n) auto
  next
    assume ?r
    then obtain n rest where "Silent alive # turns = replicate (Suc n) (Silent True) @ Received r # rest" by auto
    then show ?l by blast
  qed
  with 4 show ?case by simp
qed simp

end
