(* ===== verification/Pipeline_Pool.thy ===== *)
theory Pipeline_Pool
  imports Replica_Link
begin

text \<open>
  The pool of pipeline replicas (\<open>telefuser/service/core/pipeline_pool.py\<close>) with the outcomes of
  a replica handle (\<open>replica_worker.py\<close>). The pool is driven by one event loop: between two
  awaits an operation runs alone, so the operations are split at their awaits and an
  interleaving is a list of events. A call that is suspended in the middle, holding a
  replica, is a frame of the state. Whether a replica is dead is an argument of each event.
\<close>

section \<open>State\<close>

datatype replica_status = IDLE | BUSY | SESSION_RESERVED | SESSION_BUSY | DEAD

record replica_lease =
  rl_replica_id :: nat
  rl_lock_held :: bool
  rl_closing :: bool
  rl_identity :: nat

text \<open>A task holding a replica, an \<open>open_session\<close> that has taken one, a request that holds the lock of
  a session's lease, and a \<open>close_session\<close> that waits for it.\<close>

datatype pool_frame =
    TaskFrame nat
  | OpenFrame string nat
  | RequestFrame string nat nat
  | CloseFrame string nat

record pool =
  pl_num_replicas :: nat
  pl_handles :: nat
  pl_available :: "nat list"
  pl_status :: "replica_status list"
  pl_live_count :: int
  pl_leases :: "(string, replica_lease) odict"
  pl_opening :: "string list"
  pl_session_shutdown :: bool
  pl_is_running :: bool
  pl_capacity_updates :: "int list"
  pl_next_identity :: nat
  pl_frames :: "pool_frame list"

definition new_pool :: "nat \<Rightarrow> pool" where
  "new_pool n =
     \<lparr>pl_num_replicas = n, pl_handles = 0, pl_available = [], pl_status = [], pl_live_count = int n,
      pl_leases = [], pl_opening = [], pl_session_shutdown = False, pl_is_running = False,
      pl_capacity_updates = [], pl_next_identity = 0, pl_frames = []\<rparr>"

section \<open>Starting\<close>

text \<open>What the parent sees of one replica's startup: it reports ready with the same VLA metadata as
  the first replica, or with other metadata, or it fails in some other way.\<close>

datatype startup = Ready | OtherMetadata | StartupFailed

definition cleanup_started :: "pool \<Rightarrow> pool" where
  "cleanup_started p = p\<lparr>pl_handles := 0, pl_status := []\<rparr>"

definition add_replica :: "nat \<Rightarrow> pool \<Rightarrow> pool" where
  "add_replica i p =
     p\<lparr>pl_handles := pl_handles p + 1, pl_status := pl_status p @ [IDLE], pl_available := pl_available p @ [i]\<rparr>"

fun start_replicas :: "nat \<Rightarrow> startup list \<Rightarrow> pool \<Rightarrow> bool \<times> pool" where
  "start_replicas i [] p = (True, p\<lparr>pl_is_running := True, pl_session_shutdown := False\<rparr>)"
| "start_replicas i (r # rs) p =
     (if r = StartupFailed \<or> (r = OtherMetadata \<and> i \<noteq> 0) then (False, cleanup_started p)
      else start_replicas (i + 1) rs (add_replica i p))"

definition start_all :: "startup list \<Rightarrow> pool \<Rightarrow> bool \<times> pool" where
  "start_all outcomes p = start_replicas 0 outcomes p"

section \<open>Eviction and return of a replica\<close>

definition set_status :: "nat \<Rightarrow> replica_status \<Rightarrow> pool \<Rightarrow> pool" where
  "set_status i st p = p\<lparr>pl_status := (pl_status p)[i := st]\<rparr>"

definition evict_replica :: "nat \<Rightarrow> pool \<Rightarrow> pool" where
  "evict_replica i p =
     (if pl_status p ! i = DEAD then p
      else (set_status i DEAD p)
             \<lparr>pl_live_count := pl_live_count p - 1, pl_capacity_updates := pl_capacity_updates p @ [pl_live_count p - 1]\<rparr>)"

definition return_replica :: "(nat \<Rightarrow> bool) \<Rightarrow> nat \<Rightarrow> pool \<Rightarrow> pool" where
  "return_replica dead i p =
     (if i \<ge> pl_handles p then p
      else if dead i then (if i < length (pl_status p) \<and> pl_status p ! i \<noteq> DEAD then evict_replica i p else p)
      else (set_status i IDLE p)\<lparr>pl_available := pl_available p @ [i]\<rparr>)"

definition all_dead :: py_error where
  "all_dead = RuntimeError ''All pipeline replicas are dead; no inference capacity''"

definition shutting_down :: py_error where
  "shutting_down = RuntimeError ''pipeline pool is shutting down''"

text \<open>One turn of the waiting loops: no live replica left, an index from the queue (whose replica may
  turn out to be dead), or nothing within the polling interval.\<close>

datatype take_outcome = Took nat | Evicted nat | StillWaiting | NoCapacity

definition take_replica :: "(nat \<Rightarrow> bool) \<Rightarrow> pool \<Rightarrow> take_outcome \<times> pool" where
  "take_replica dead p =
     (if pl_live_count p = 0 then (NoCapacity, p)
      else case pl_available p of
        [] \<Rightarrow> (StillWaiting, p)
      | i # rest \<Rightarrow>
          let q = p\<lparr>pl_available := rest\<rparr>
          in if dead i then (Evicted i, evict_replica i q) else (Took i, q))"

section \<open>Tasks\<close>

text \<open>The body of \<open>acquire\<close> ends normally, with a ReplicaDeadError, or with any other exception (an
  error that the replica reports, a cancellation).\<close>

datatype body_outcome = BodyOk | BodyReplicaDead | BodyRaises

text \<open>How a call of the handle ends the body that makes it.\<close>

definition body_outcome_of :: "call_result \<Rightarrow> body_outcome" where
  "body_outcome_of r =
     (case r of
        Inr payload \<Rightarrow> BodyOk
      | Inl (ReplicaDead m) \<Rightarrow> BodyReplicaDead
      | Inl _ \<Rightarrow> BodyRaises)"

definition add_frame :: "pool_frame \<Rightarrow> pool \<Rightarrow> pool" where
  "add_frame f p = p\<lparr>pl_frames := pl_frames p @ [f]\<rparr>"

definition drop_frame :: "pool_frame \<Rightarrow> pool \<Rightarrow> pool" where
  "drop_frame f p = p\<lparr>pl_frames := remove1 f (pl_frames p)\<rparr>"

definition acquire_turn :: "(nat \<Rightarrow> bool) \<Rightarrow> pool \<Rightarrow> nat option res \<times> pool" where
  "acquire_turn dead p =
     (case take_replica dead p of
        (NoCapacity, q) \<Rightarrow> (Inl all_dead, q)
      | (Took i, q) \<Rightarrow> (Inr (Some i), add_frame (TaskFrame i) (set_status i BUSY q))
      | (_, q) \<Rightarrow> (Inr None, q))"

definition release_task :: "nat \<Rightarrow> body_outcome \<Rightarrow> pool \<Rightarrow> unit res \<times> pool" where
  "release_task i outcome p =
     (let q = drop_frame (TaskFrame i) p
      in case outcome of
           BodyReplicaDead \<Rightarrow> (Inl (RuntimeError ''ReplicaDeadError''), evict_replica i q)
         | BodyRaises \<Rightarrow> (Inl (RuntimeError ''task failed''), q)
         | BodyOk \<Rightarrow>
             if i < length (pl_status q) then
               (Inr (), (set_status i IDLE q)\<lparr>pl_available := pl_available q @ [i]\<rparr>)
             else (Inl (IndexError ''list assignment index out of range''), q))"

section \<open>Session leases\<close>

definition open_begin :: "string \<Rightarrow> pool \<Rightarrow> unit res \<times> pool" where
  "open_begin sid p =
     (if sid = [] then (Inl (ValueError ''session_id must be a non-empty string''), p)
      else if pl_session_shutdown p then (Inl shutting_down, p)
      else if od_get (pl_leases p) sid \<noteq> None \<or> sid \<in> set (pl_opening p) then
        (Inl (ValueError (''pipeline session is already open: '' @ quoted sid)), p)
      else (Inr (), p\<lparr>pl_opening := pl_opening p @ [sid]\<rparr>))"

definition stop_opening :: "string \<Rightarrow> pool \<Rightarrow> pool" where
  "stop_opening sid p = p\<lparr>pl_opening := removeAll sid (pl_opening p)\<rparr>"

text \<open>A turn of \<open>_take_available_replica\<close>; with \<open>deadline\<close> the caller's timeout has expired.\<close>

definition open_turn :: "(nat \<Rightarrow> bool) \<Rightarrow> bool \<Rightarrow> string \<Rightarrow> pool \<Rightarrow> nat option res \<times> pool" where
  "open_turn dead deadline sid p =
     (if pl_session_shutdown p then (Inl shutting_down, stop_opening sid p)
      else if pl_live_count p = 0 then (Inl all_dead, stop_opening sid p)
      else if deadline then
        (Inl (TimeoutError ''timed out waiting for an available pipeline replica''), stop_opening sid p)
      else case take_replica dead p of
        (Took i, q) \<Rightarrow> (Inr (Some i), add_frame (OpenFrame sid i) q)
      | (_, q) \<Rightarrow> (Inr None, q))"

definition open_finish :: "(nat \<Rightarrow> bool) \<Rightarrow> string \<Rightarrow> nat \<Rightarrow> pool \<Rightarrow> nat res \<times> pool" where
  "open_finish dead sid i p =
     (let q = drop_frame (OpenFrame sid i) p
      in if pl_session_shutdown q then (Inl shutting_down, return_replica dead i (stop_opening sid q))
         else
           (Inr i, set_status i SESSION_RESERVED
              ((stop_opening sid q)
                 \<lparr>pl_leases := od_put sid \<lparr>rl_replica_id = i, rl_lock_held = False, rl_closing = False,
                                          rl_identity = pl_next_identity q\<rparr> (pl_leases q),
                  pl_next_identity := pl_next_identity q + 1\<rparr>)))"

text \<open>The opener is cancelled while it waits for the lock of the leases.\<close>

definition open_abort :: "(nat \<Rightarrow> bool) \<Rightarrow> string \<Rightarrow> nat \<Rightarrow> pool \<Rightarrow> pool" where
  "open_abort dead sid i p = return_replica dead i (stop_opening sid (drop_frame (OpenFrame sid i) p))"

definition unknown_lease :: "string \<Rightarrow> py_error" where
  "unknown_lease sid = KeyError (''unknown pipeline session: '' @ quoted sid)"

definition closing_lease :: "string \<Rightarrow> py_error" where
  "closing_lease sid = KeyError (''unknown or closing pipeline session: '' @ quoted sid)"

definition get_session_lease :: "string \<Rightarrow> pool \<Rightarrow> replica_lease res" where
  "get_session_lease sid p =
     (if sid = [] then Inl (ValueError ''session_id must be a non-empty string'')
      else case od_get (pl_leases p) sid of
        None \<Rightarrow> Inl (unknown_lease sid)
      | Some l \<Rightarrow> if rl_closing l then Inl (closing_lease sid) else Inr l)"

definition lease_is :: "string \<Rightarrow> nat \<Rightarrow> pool \<Rightarrow> replica_lease option" where
  "lease_is sid ident p =
     (case od_get (pl_leases p) sid of None \<Rightarrow> None | Some l \<Rightarrow> if rl_identity l = ident then Some l else None)"

definition set_lock :: "string \<Rightarrow> bool \<Rightarrow> pool \<Rightarrow> pool" where
  "set_lock sid b p =
     (case od_get (pl_leases p) sid of
        None \<Rightarrow> p
      | Some l \<Rightarrow> p\<lparr>pl_leases := od_put sid (l\<lparr>rl_lock_held := b\<rparr>) (pl_leases p)\<rparr>)"

definition drop_lease :: "string \<Rightarrow> pool \<Rightarrow> pool" where
  "drop_lease sid p = p\<lparr>pl_leases := od_del sid (pl_leases p)\<rparr>"

text \<open>\<open>acquire_session\<close> from the moment it holds the lock of the lease \<open>ident\<close> that it looked up.\<close>

definition request_locked :: "(nat \<Rightarrow> bool) \<Rightarrow> string \<Rightarrow> nat \<Rightarrow> pool \<Rightarrow> nat res \<times> pool" where
  "request_locked dead sid ident p =
     (case lease_is sid ident p of
        None \<Rightarrow> (Inl (closing_lease sid), p)
      | Some l \<Rightarrow>
          if rl_closing l then (Inl (closing_lease sid), p)
          else
            let i = rl_replica_id l
            in if dead i then (Inl (RuntimeError ''ReplicaDeadError''), evict_replica i (drop_lease sid p))
               else (Inr i, add_frame (RequestFrame sid ident i) (set_lock sid True (set_status i SESSION_BUSY p))))"

definition request_end :: "string \<Rightarrow> nat \<Rightarrow> nat \<Rightarrow> body_outcome \<Rightarrow> pool \<Rightarrow> unit res \<times> pool" where
  "request_end sid ident i outcome p =
     (let q = drop_frame (RequestFrame sid ident i) p
      in case outcome of
           BodyReplicaDead \<Rightarrow> (Inl (RuntimeError ''ReplicaDeadError''), evict_replica i (drop_lease sid q))
         | BodyRaises \<Rightarrow> (Inl (RuntimeError ''operation failed''), set_lock sid False q)
         | BodyOk \<Rightarrow>
             (Inr (), set_lock sid False (if pl_status q ! i \<noteq> DEAD then set_status i SESSION_RESERVED q else q)))"

definition close_begin :: "string \<Rightarrow> pool \<Rightarrow> nat res \<times> pool" where
  "close_begin sid p =
     (case get_session_lease sid p of
        Inl e \<Rightarrow> (Inl e, p)
      | Inr l \<Rightarrow>
          (Inr (rl_identity l),
           add_frame (CloseFrame sid (rl_identity l))
             (p\<lparr>pl_leases := od_put sid (l\<lparr>rl_closing := True\<rparr>) (pl_leases p)\<rparr>)))"

definition close_locked :: "(nat \<Rightarrow> bool) \<Rightarrow> string \<Rightarrow> nat \<Rightarrow> pool \<Rightarrow> nat res \<times> pool" where
  "close_locked dead sid ident p =
     (let q = drop_frame (CloseFrame sid ident) p
      in case lease_is sid ident q of
           None \<Rightarrow> (Inl (unknown_lease sid), q)
         | Some l \<Rightarrow> (Inr (rl_replica_id l), return_replica dead (rl_replica_id l) (drop_lease sid q)))"

definition session_bindings :: "pool \<Rightarrow> (string \<times> nat) list" where
  "session_bindings p = map (\<lambda>(sid, l). (sid, rl_replica_id l)) (sort_key fst (pl_leases p))"

section \<open>Shutdown\<close>

definition shutdown_begin :: "pool \<Rightarrow> pool" where
  "shutdown_begin p =
     p\<lparr>pl_session_shutdown := True, pl_leases := od_map (\<lambda>l. l\<lparr>rl_closing := True\<rparr>) (pl_leases p)\<rparr>"

definition shutdown_end :: "pool \<Rightarrow> pool" where
  "shutdown_end p = p\<lparr>pl_leases := [], pl_opening := [], pl_handles := 0, pl_status := [], pl_is_running := False\<rparr>"

section \<open>The pool as a machine\<close>

datatype pool_event =
    AcquireTurn "nat \<Rightarrow> bool"
  | ReleaseTask nat body_outcome
  | OpenBegin string
  | OpenTurn "nat \<Rightarrow> bool" bool string
  | OpenFinish "nat \<Rightarrow> bool" string nat
  | OpenAbort "nat \<Rightarrow> bool" string nat
  | RequestLocked "nat \<Rightarrow> bool" string nat
  | RequestEnd string nat nat body_outcome
  | CloseBegin string
  | CloseLocked "nat \<Rightarrow> bool" string nat
  | ShutdownBegin

text \<open>A call continues only where it is suspended, and a lease's lock is granted when it is free.\<close>

definition lock_free :: "string \<Rightarrow> nat \<Rightarrow> pool \<Rightarrow> bool" where
  "lock_free sid ident p = (case lease_is sid ident p of None \<Rightarrow> True | Some l \<Rightarrow> \<not> rl_lock_held l)"

fun opens :: "string \<Rightarrow> pool_frame \<Rightarrow> bool" where
  "opens sid (OpenFrame x i) \<longleftrightarrow> x = sid"
| "opens sid _ \<longleftrightarrow> False"

fun requests :: "string \<Rightarrow> pool_frame \<Rightarrow> bool" where
  "requests sid (RequestFrame x ident i) \<longleftrightarrow> x = sid"
| "requests sid _ \<longleftrightarrow> False"

definition can_open :: "string \<Rightarrow> pool \<Rightarrow> bool" where
  "can_open sid p \<longleftrightarrow> sid \<in> set (pl_opening p) \<and> (\<forall>f \<in> set (pl_frames p). \<not> opens sid f)"

lemma opens_iff: "opens sid f \<longleftrightarrow> (\<exists>i. f = OpenFrame sid i)"
  by (cases f) auto

fun exec :: "pool \<Rightarrow> pool_event \<Rightarrow> pool" where
  "exec p (AcquireTurn dead) = snd (acquire_turn dead p)"
| "exec p (ReleaseTask i outcome) = (if TaskFrame i \<in> set (pl_frames p) then snd (release_task i outcome p) else p)"
| "exec p (OpenBegin sid) = snd (open_begin sid p)"
| "exec p (OpenTurn dead deadline sid) = (if can_open sid p then snd (open_turn dead deadline sid p) else p)"
| "exec p (OpenFinish dead sid i) = (if OpenFrame sid i \<in> set (pl_frames p) then snd (open_finish dead sid i p) else p)"
| "exec p (OpenAbort dead sid i) = (if OpenFrame sid i \<in> set (pl_frames p) then open_abort dead sid i p else p)"
| "exec p (RequestLocked dead sid ident) = (if lock_free sid ident p then snd (request_locked dead sid ident p) else p)"
| "exec p (RequestEnd sid ident i outcome) =
     (if RequestFrame sid ident i \<in> set (pl_frames p) then snd (request_end sid ident i outcome p) else p)"
| "exec p (CloseBegin sid) = snd (close_begin sid p)"
| "exec p (CloseLocked dead sid ident) =
     (if CloseFrame sid ident \<in> set (pl_frames p) \<and> lock_free sid ident p then snd (close_locked dead sid ident p) else p)"
| "exec p ShutdownBegin = shutdown_begin p"

section \<open>Who holds a replica\<close>

fun frame_replicas :: "pool_frame \<Rightarrow> nat list" where
  "frame_replicas (TaskFrame i) = [i]"
| "frame_replicas (OpenFrame sid i) = [i]"
| "frame_replicas (RequestFrame sid ident i) = []"
| "frame_replicas (CloseFrame sid ident) = []"

definition holders :: "pool \<Rightarrow> nat multiset" where
  "holders p = mset (pl_available p) + mset (concat (map frame_replicas (pl_frames p))) +
     mset (concat (map (\<lambda>e. [rl_replica_id (snd e)]) (pl_leases p)))"

definition dead_count :: "replica_status list \<Rightarrow> nat" where
  "dead_count st = length (filter (\<lambda>x. x = DEAD) st)"

text \<open>Every index is held at most once, by a call, a lease or the queue, and its replica has not been
  evicted; the live count is the number of replicas that have not been evicted.\<close>

definition seats_ok :: "nat \<Rightarrow> replica_status list \<Rightarrow> int \<Rightarrow> nat multiset \<Rightarrow> bool" where
  "seats_ok n st live M \<longleftrightarrow>
     length st = n \<and> (\<forall>i. count M i \<le> 1) \<and> (\<forall>i \<in># M. i < n \<and> st ! i \<noteq> DEAD) \<and>
     live = int n - int (dead_count st)"

definition places_ok :: "pool \<Rightarrow> bool" where
  "places_ok p \<longleftrightarrow> seats_ok (pl_handles p) (pl_status p) (pl_live_count p) (holders p)"

text \<open>What a suspended call may rely on.\<close>

fun frame_ok :: "pool \<Rightarrow> pool_frame \<Rightarrow> bool" where
  "frame_ok p (OpenFrame sid i) \<longleftrightarrow> sid \<in> set (pl_opening p)"
| "frame_ok p (RequestFrame sid ident i) \<longleftrightarrow>
     (\<exists>l. lease_is sid ident p = Some l \<and> rl_replica_id l = i \<and> rl_lock_held l)"
| "frame_ok p (TaskFrame i) \<longleftrightarrow> True"
| "frame_ok p (CloseFrame sid ident) \<longleftrightarrow> True"

definition at_most_one :: "('a \<Rightarrow> bool) \<Rightarrow> 'a list \<Rightarrow> bool" where
  "at_most_one P xs \<longleftrightarrow> length (filter P xs) \<le> 1"

definition frames_ok :: "pool \<Rightarrow> bool" where
  "frames_ok p \<longleftrightarrow> od_ok (pl_leases p) \<and> distinct (pl_opening p) \<and>
     (\<forall>sid \<in> set (pl_opening p). od_get (pl_leases p) sid = None) \<and>
     (\<forall>f \<in> set (pl_frames p). frame_ok p f) \<and>
     (\<forall>sid. at_most_one (opens sid) (pl_frames p) \<and> at_most_one (requests sid) (pl_frames p))"

lemma dead_count_alive: "i < length st \<Longrightarrow> st ! i \<noteq> DEAD \<Longrightarrow> s \<noteq> DEAD \<Longrightarrow> dead_count (st[i := s]) = dead_count st"
  by (induction st arbitrary: i) (auto simp: dead_count_def nth_Cons' list_update_code split: nat.splits)

lemma dead_count_dead: "i < length st \<Longrightarrow> st ! i \<noteq> DEAD \<Longrightarrow> dead_count (st[i := DEAD]) = dead_count st + 1"
  by (induction st arbitrary: i) (auto simp: dead_count_def nth_Cons' split: nat.splits)

lemma seats_update:
  "seats_ok n st live M \<Longrightarrow> i \<in># M \<Longrightarrow> s \<noteq> DEAD \<Longrightarrow> seats_ok n (st[i := s]) live M"
  by (auto simp: seats_ok_def dead_count_alive nth_list_update)

lemma seats_remove:
  assumes "seats_ok n st live (add_mset i M)"
  shows "seats_ok n st live M"
proof -
  have "count M j \<le> 1" for j
  proof -
    have "count (add_mset i M) j \<le> 1" using assms unfolding seats_ok_def by blast
    then show ?thesis by (simp split: if_splits)
  qed
  with assms show ?thesis by (simp add: seats_ok_def)
qed

lemma seats_taken:
  assumes "seats_ok n st live (add_mset i M)"
  shows "i < n \<and> st ! i \<noteq> DEAD \<and> i \<notin># M"
proof -
  have "count (add_mset i M) i \<le> 1" using assms unfolding seats_ok_def by blast
  then have "i \<notin># M" by (simp add: not_in_iff)
  with assms show ?thesis by (simp add: seats_ok_def)
qed

lemma seats_evict:
  assumes "seats_ok n st live (add_mset i M)"
  shows "seats_ok n (st[i := DEAD]) (live - 1) M"
proof -
  note T = seats_taken [OF assms]
  have "seats_ok n st live M" by (rule seats_remove [OF assms])
  with T show ?thesis
    by (auto simp: seats_ok_def dead_count_dead nth_list_update)
qed

section \<open>Every operation keeps the places\<close>

lemma mset_remove1_concat:
  "f \<in> set fs \<Longrightarrow> mset (concat (map g (remove1 f fs))) + mset (g f) = mset (concat (map g fs))"
  by (induction fs) auto

lemma holders_simps [simp]:
  "holders (set_status i st p) = holders p"
  "holders (add_frame f p) = holders p + mset (frame_replicas f)"
  "holders (stop_opening sid p) = holders p"
  "holders (p\<lparr>pl_opening := os\<rparr>) = holders p"
  "holders (p\<lparr>pl_session_shutdown := b\<rparr>) = holders p"
  "holders (p\<lparr>pl_next_identity := k\<rparr>) = holders p"
  "holders (p\<lparr>pl_status := ss\<rparr>) = holders p"
  "holders (p\<lparr>pl_live_count := lc\<rparr>) = holders p"
  "holders (p\<lparr>pl_capacity_updates := cu\<rparr>) = holders p"
  by (simp_all add: holders_def set_status_def add_frame_def stop_opening_def)

lemma holders_available: "holders (p\<lparr>pl_available := pl_available p @ [i]\<rparr>) = add_mset i (holders p)"
  by (simp add: holders_def)

lemma holders_take: "pl_available p = i # rest \<Longrightarrow> holders p = add_mset i (holders (p\<lparr>pl_available := rest\<rparr>))"
  by (simp add: holders_def)

lemma holders_drop_frame: "f \<in> set (pl_frames p) \<Longrightarrow> holders p = holders (drop_frame f p) + mset (frame_replicas f)"
  using mset_remove1_concat [of f "pl_frames p" frame_replicas] by (simp add: holders_def drop_frame_def)

lemma drop_frame_empty: "frame_replicas f = [] \<Longrightarrow> holders (drop_frame f p) = holders p"
  using mset_remove1_concat [of f "pl_frames p" frame_replicas]
  by (cases "f \<in> set (pl_frames p)") (simp_all add: holders_def drop_frame_def remove1_idem)

lemma holders_drop_lease:
  "od_ok (pl_leases p) \<Longrightarrow> od_get (pl_leases p) sid = Some l \<Longrightarrow>
     holders p = add_mset (rl_replica_id l) (holders (drop_lease sid p))"
  using mset_entries_del [of "pl_leases p" sid l "\<lambda>e. [rl_replica_id (snd e)]"]
  by (simp add: holders_def drop_lease_def)

lemma holders_new_lease:
  "od_get (pl_leases p) sid = None \<Longrightarrow>
     holders (p\<lparr>pl_leases := od_put sid l (pl_leases p)\<rparr>) = add_mset (rl_replica_id l) (holders p)"
  using mset_entries_absent [of "pl_leases p" sid "\<lambda>e. [rl_replica_id (snd e)]" l]
  by (simp add: holders_def)

lemma holders_same_lease:
  "od_get (pl_leases p) sid = Some l \<Longrightarrow> rl_replica_id l' = rl_replica_id l \<Longrightarrow>
     holders (p\<lparr>pl_leases := od_put sid l' (pl_leases p)\<rparr>) = holders p"
  using mset_entries_put [of "pl_leases p" sid l "\<lambda>e. [rl_replica_id (snd e)]" l']
  by (simp add: holders_def)

lemma holders_set_lock [simp]: "holders (set_lock sid b p) = holders p"
  by (auto simp: set_lock_def holders_same_lease split: option.splits)

text \<open>The fields that the places depend on.\<close>

lemma place_fields [simp]:
  "pl_handles (set_status i st p) = pl_handles p" "pl_live_count (set_status i st p) = pl_live_count p"
  "pl_status (set_status i st p) = (pl_status p)[i := st]"
  "pl_handles (add_frame f p) = pl_handles p" "pl_live_count (add_frame f p) = pl_live_count p"
  "pl_status (add_frame f p) = pl_status p"
  "pl_handles (drop_frame f p) = pl_handles p" "pl_live_count (drop_frame f p) = pl_live_count p"
  "pl_status (drop_frame f p) = pl_status p"
  "pl_handles (stop_opening sid p) = pl_handles p" "pl_live_count (stop_opening sid p) = pl_live_count p"
  "pl_status (stop_opening sid p) = pl_status p"
  "pl_handles (drop_lease sid p) = pl_handles p" "pl_live_count (drop_lease sid p) = pl_live_count p"
  "pl_status (drop_lease sid p) = pl_status p"
  "pl_handles (set_lock sid b p) = pl_handles p" "pl_live_count (set_lock sid b p) = pl_live_count p"
  "pl_status (set_lock sid b p) = pl_status p"
  by (auto simp: set_status_def add_frame_def drop_frame_def stop_opening_def drop_lease_def set_lock_def
      split: option.splits)

text \<open>A pool from whose places the index \<open>i\<close> was just taken.\<close>

definition without :: "nat \<Rightarrow> pool \<Rightarrow> bool" where
  "without i p \<longleftrightarrow> seats_ok (pl_handles p) (pl_status p) (pl_live_count p) (add_mset i (holders p))"

lemma without_evict: "without i p \<Longrightarrow> places_ok (evict_replica i p)"
proof -
  assume w: "without i p"
  have "pl_status p ! i \<noteq> DEAD" using seats_taken [OF w [unfolded without_def]] by simp
  with seats_evict [OF w [unfolded without_def]] show ?thesis
    by (simp add: evict_replica_def places_ok_def)
qed

lemma without_lost: "without i p \<Longrightarrow> places_ok p"
  unfolding without_def places_ok_def by (rule seats_remove)

lemma without_back:
  "without i p \<Longrightarrow> s \<noteq> DEAD \<Longrightarrow> places_ok ((set_status i s p)\<lparr>pl_available := pl_available p @ [i]\<rparr>)"
  using seats_update [of "pl_handles p" "pl_status p" "pl_live_count p" "add_mset i (holders p)" i s]
    holders_available [of "set_status i s p" i]
  by (simp add: without_def places_ok_def) (simp add: set_status_def)

lemma without_return: "without i p \<Longrightarrow> places_ok (return_replica dead i p)"
  using seats_taken [of "pl_handles p" "pl_status p" "pl_live_count p" i "holders p"]
    without_lost [of i p] without_evict [of i p] without_back [of i p IDLE]
  by (simp add: return_replica_def without_def)

lemma take_replica_places:
  assumes "places_ok p" and "take_replica dead p = (r, q)"
  shows "case r of Took i \<Rightarrow> without i q \<and> \<not> dead i | _ \<Rightarrow> places_ok q"
proof (cases "pl_live_count p = 0 \<or> pl_available p = []")
  case True
  with assms show ?thesis by (auto simp: take_replica_def split: list.splits if_splits)
next
  case False
  then obtain i rest where a: "pl_available p = i # rest" by (cases "pl_available p") auto
  have "without i (p\<lparr>pl_available := rest\<rparr>)"
    using assms(1) holders_take [OF a] by (simp add: without_def places_ok_def)
  with assms(2) False a without_evict [OF this] show ?thesis
    by (auto simp: take_replica_def Let_def split: if_splits)
qed

lemma acquire_places: "places_ok p \<Longrightarrow> places_ok (snd (acquire_turn dead p))"
proof -
  assume p: "places_ok p"
  obtain r q where r: "take_replica dead p = (r, q)" by (cases "take_replica dead p")
  note T = take_replica_places [OF p r]
  show ?thesis
  proof (cases r)
    case (Took i)
    with T have "without i q" by simp
    then have "seats_ok (pl_handles q) ((pl_status q)[i := BUSY]) (pl_live_count q) (add_mset i (holders q))"
      unfolding without_def by (rule seats_update) auto
    then show ?thesis using Took r by (simp add: acquire_turn_def places_ok_def)
  qed (use T r in \<open>simp_all add: acquire_turn_def\<close>)
qed

lemma release_places:
  assumes "places_ok p" and "TaskFrame i \<in> set (pl_frames p)"
  shows "places_ok (snd (release_task i outcome p))"
proof -
  have "without i (drop_frame (TaskFrame i) p)"
    using assms holders_drop_frame [OF assms(2)] by (simp add: without_def places_ok_def)
  then show ?thesis
    using without_evict [of i] without_lost [of i] without_back [of i "drop_frame (TaskFrame i) p" IDLE]
    by (cases outcome) (auto simp: release_task_def Let_def)
qed

lemma open_turn_places: "places_ok p \<Longrightarrow> places_ok (snd (open_turn dead deadline sid p))"
proof -
  assume p: "places_ok p"
  obtain r q where r: "take_replica dead p = (r, q)" by (cases "take_replica dead p")
  note T = take_replica_places [OF p r]
  have s: "places_ok (stop_opening sid p)" using p by (simp add: places_ok_def)
  show ?thesis
  proof (cases r)
    case (Took i)
    with T have "places_ok (add_frame (OpenFrame sid i) q)" by (simp add: places_ok_def without_def)
    then show ?thesis using Took r s by (simp add: open_turn_def)
  qed (use T r s in \<open>simp_all add: open_turn_def\<close>)
qed

lemma open_frame_without:
  "places_ok p \<Longrightarrow> OpenFrame sid i \<in> set (pl_frames p) \<Longrightarrow> without i (stop_opening sid (drop_frame (OpenFrame sid i) p))"
  using holders_drop_frame [of "OpenFrame sid i" p] by (simp add: without_def places_ok_def)

lemma open_finish_places:
  assumes "places_ok p" and "frames_ok p" and f: "OpenFrame sid i \<in> set (pl_frames p)"
  shows "places_ok (snd (open_finish dead sid i p))"
proof (cases "pl_session_shutdown p")
  case True
  then show ?thesis
    using without_return [OF open_frame_without [OF assms(1) f]] by (simp add: open_finish_def drop_frame_def Let_def)
next
  case False
  let ?q = "stop_opening sid (drop_frame (OpenFrame sid i) p)"
  have "frame_ok p (OpenFrame sid i)" using assms(2) f unfolding frames_ok_def by blast
  then have "sid \<in> set (pl_opening p)" by simp
  then have "od_get (pl_leases p) sid = None" using assms(2) unfolding frames_ok_def by blast
  then have n: "od_get (pl_leases ?q) sid = None" by (simp add: stop_opening_def drop_frame_def)
  have w: "without i ?q" by (rule open_frame_without [OF assms(1) f])
  let ?l = "\<lparr>rl_replica_id = i, rl_lock_held = False, rl_closing = False, rl_identity = pl_next_identity ?q\<rparr>"
  have h: "holders (?q\<lparr>pl_leases := od_put sid ?l (pl_leases ?q), pl_next_identity := k\<rparr>) = add_mset i (holders ?q)" for k
    using holders_new_lease [OF n, of ?l] by simp
  have "seats_ok (pl_handles ?q) ((pl_status ?q)[i := SESSION_RESERVED]) (pl_live_count ?q) (add_mset i (holders ?q))"
    using w unfolding without_def by (rule seats_update) auto
  then have "places_ok (set_status i SESSION_RESERVED
      (?q\<lparr>pl_leases := od_put sid ?l (pl_leases ?q), pl_next_identity := pl_next_identity ?q + 1\<rparr>))"
    using h by (simp add: places_ok_def)
  then show ?thesis using False by (simp add: open_finish_def Let_def drop_frame_def stop_opening_def)
qed

lemma lease_isD: "lease_is sid ident p = Some l \<Longrightarrow> od_get (pl_leases p) sid = Some l \<and> rl_identity l = ident"
  by (auto simp: lease_is_def split: option.splits if_splits)

lemma drop_lease_without:
  "places_ok p \<Longrightarrow> frames_ok p \<Longrightarrow> od_get (pl_leases p) sid = Some l \<Longrightarrow> without (rl_replica_id l) (drop_lease sid p)"
  using holders_drop_lease [of p sid l] by (simp add: without_def places_ok_def frames_ok_def)

lemma lease_holds: "od_get (pl_leases p) sid = Some l \<Longrightarrow> rl_replica_id l \<in># holders p"
proof -
  assume "od_get (pl_leases p) sid = Some l"
  then have "(sid, l) \<in> set (pl_leases p)" by (rule map_of_SomeD)
  then have "rl_replica_id l \<in> (\<lambda>e. rl_replica_id (snd e)) ` set (pl_leases p)" by force
  then show ?thesis by (simp add: holders_def)
qed

lemma set_status_places:
  "places_ok p \<Longrightarrow> i \<in># holders p \<Longrightarrow> s \<noteq> DEAD \<Longrightarrow> places_ok (set_status i s p)"
  using seats_update [of "pl_handles p" "pl_status p" "pl_live_count p" "holders p" i s] by (simp add: places_ok_def)

lemma set_lock_places [simp]: "places_ok (set_lock sid b p) = places_ok p"
  by (simp add: places_ok_def)

lemma add_call_places: "frame_replicas f = [] \<Longrightarrow> places_ok (add_frame f p) = places_ok p"
  by (simp add: places_ok_def)

lemma drop_call_places: "frame_replicas f = [] \<Longrightarrow> places_ok (drop_frame f p) = places_ok p"
  by (simp add: places_ok_def drop_frame_empty)

lemma request_locked_places:
  assumes "places_ok p" and "frames_ok p"
  shows "places_ok (snd (request_locked dead sid ident p))"
proof (cases "lease_is sid ident p")
  case (Some l)
  note g = lease_isD [OF Some]
  have "places_ok (evict_replica (rl_replica_id l) (drop_lease sid p))"
    by (rule without_evict [OF drop_lease_without [OF assms]]) (use g in simp)
  moreover have "places_ok (set_status (rl_replica_id l) SESSION_BUSY p)"
    using lease_holds g by (intro set_status_places assms) auto
  ultimately show ?thesis using Some assms(1) by (simp add: request_locked_def Let_def add_call_places)
qed (simp add: request_locked_def assms)

lemma drop_frame_leases [simp]: "pl_leases (drop_frame f p) = pl_leases p"
  by (simp add: drop_frame_def)

lemma request_end_places:
  assumes "places_ok p" and "frames_ok p" and f: "RequestFrame sid ident i \<in> set (pl_frames p)"
  shows "places_ok (snd (request_end sid ident i outcome p))"
proof -
  let ?q = "drop_frame (RequestFrame sid ident i) p"
  have q: "places_ok ?q" using assms(1) by (simp add: drop_call_places)
  have "frame_ok p (RequestFrame sid ident i)" using assms(2) f unfolding frames_ok_def by blast
  then obtain l where "lease_is sid ident p = Some l" "rl_replica_id l = i" by auto
  then have l: "od_get (pl_leases ?q) sid = Some l" "rl_replica_id l = i" using lease_isD [of sid ident p l] by simp_all
  have "od_ok (pl_leases ?q)" using assms(2) by (simp add: frames_ok_def)
  then have "without i (drop_lease sid ?q)"
    using q holders_drop_lease [of ?q sid l] l by (simp add: without_def places_ok_def)
  moreover have "places_ok (set_status i SESSION_RESERVED ?q)"
    using lease_holds [OF l(1)] l(2) by (intro set_status_places q) auto
  ultimately show ?thesis
    using q without_evict by (cases outcome) (auto simp: request_end_def Let_def)
qed

lemma close_begin_places: "places_ok p \<Longrightarrow> places_ok (snd (close_begin sid p))"
proof -
  assume p: "places_ok p"
  have "places_ok (p\<lparr>pl_leases := od_put sid (l\<lparr>rl_closing := True\<rparr>) (pl_leases p)\<rparr>)"
    if "od_get (pl_leases p) sid = Some l" for l
    using p holders_same_lease [OF that, of "l\<lparr>rl_closing := True\<rparr>"] by (simp add: places_ok_def)
  with p show ?thesis
    by (auto simp: close_begin_def get_session_lease_def add_call_places split: sum.splits option.splits if_splits)
qed

lemma close_locked_places:
  assumes "places_ok p" and "frames_ok p"
  shows "places_ok (snd (close_locked dead sid ident p))"
proof -
  let ?q = "drop_frame (CloseFrame sid ident) p"
  have q: "places_ok ?q" using assms(1) by (simp add: drop_call_places)
  have "without (rl_replica_id l) (drop_lease sid ?q)" if "lease_is sid ident ?q = Some l" for l
    using q holders_drop_lease [of ?q sid l] lease_isD [OF that] assms(2)
    by (simp add: without_def places_ok_def frames_ok_def)
  then show ?thesis using q without_return by (auto simp: close_locked_def Let_def split: option.splits)
qed

section \<open>Suspended calls\<close>

lemma at_most_one_drop: "at_most_one P xs \<Longrightarrow> at_most_one P (remove1 x xs)"
  by (simp add: at_most_one_def filter_remove1 length_remove1)

lemma at_most_one_none: "at_most_one P xs \<Longrightarrow> x \<in> set xs \<Longrightarrow> P x \<Longrightarrow> y \<in> set (remove1 x xs) \<Longrightarrow> \<not> P y"
proof
  assume a: "at_most_one P xs" "x \<in> set xs" "P x" "y \<in> set (remove1 x xs)" "P y"
  then have "y \<in> set (filter P (remove1 x xs))" by simp
  then have "filter P (remove1 x xs) \<noteq> []" by (metis empty_iff list.set(1))
  moreover have "length (filter P (remove1 x xs)) = length (filter P xs) - 1"
    using a by (simp add: filter_remove1 length_remove1)
  ultimately show False using a(1) by (simp add: at_most_one_def)
qed

lemma at_most_one_add: "at_most_one P xs \<Longrightarrow> (P x \<Longrightarrow> \<forall>y \<in> set xs. \<not> P y) \<Longrightarrow> at_most_one P (xs @ [x])"
  by (cases "P x") (simp_all add: at_most_one_def)

definition calls where
  "calls p = (pl_leases p, pl_opening p, pl_frames p)"

lemma frames_cong: "calls p' = calls p \<Longrightarrow> frames_ok p' = frames_ok p"
proof -
  assume c: "calls p' = calls p"
  then have "frame_ok p' f = frame_ok p f" for f by (cases f) (simp_all add: calls_def lease_is_def)
  with c show ?thesis by (simp add: frames_ok_def calls_def)
qed

lemma calls_simps [simp]:
  "calls (set_status i st p) = calls p" "calls (evict_replica i p) = calls p"
  "calls (return_replica dead i p) = calls p" "calls (p\<lparr>pl_available := av\<rparr>) = calls p"
  by (simp_all add: calls_def set_status_def evict_replica_def return_replica_def)

lemma calls_take: "take_replica dead p = (r, q) \<Longrightarrow> calls q = calls p"
  by (auto simp: take_replica_def Let_def split: if_splits list.splits)

lemma frames_add:
  assumes "frames_ok p" and "frame_ok p f" and "\<And>sid i. f = OpenFrame sid i \<Longrightarrow> \<forall>j. OpenFrame sid j \<notin> set (pl_frames p)"
    and "\<And>sid ident i. f = RequestFrame sid ident i \<Longrightarrow> \<forall>ident' j. RequestFrame sid ident' j \<notin> set (pl_frames p)"
  shows "frames_ok (add_frame f p)"
proof -
  have "frame_ok (add_frame f p) g = frame_ok p g" for g by (cases g) (simp_all add: add_frame_def lease_is_def)
  moreover have "at_most_one (opens sid) (pl_frames p @ [f])" for sid
  proof (rule at_most_one_add)
    show "at_most_one (opens sid) (pl_frames p)" using assms(1) by (simp add: frames_ok_def)
    show "\<forall>y \<in> set (pl_frames p). \<not> opens sid y" if "opens sid f"
      using that assms(3) by (cases f) (auto elim!: opens.elims)
  qed
  moreover have "at_most_one (requests sid) (pl_frames p @ [f])" for sid
  proof (rule at_most_one_add)
    show "at_most_one (requests sid) (pl_frames p)" using assms(1) by (simp add: frames_ok_def)
    show "\<forall>y \<in> set (pl_frames p). \<not> requests sid y" if "requests sid f"
      using that assms(4) by (cases f) (auto elim!: requests.elims)
  qed
  ultimately show ?thesis using assms(1,2) by (auto simp: frames_ok_def) (auto simp: add_frame_def)
qed

lemma frames_drop: "frames_ok p \<Longrightarrow> frames_ok (drop_frame f p)"
proof -
  assume p: "frames_ok p"
  have "frame_ok (drop_frame f p) g = frame_ok p g" for g by (cases g) (simp_all add: drop_frame_def lease_is_def)
  moreover have "set (pl_frames (drop_frame f p)) \<subseteq> set (pl_frames p)"
    by (simp add: drop_frame_def set_remove1_subset)
  ultimately show ?thesis
    using p by (auto simp: frames_ok_def) (simp_all add: drop_frame_def at_most_one_drop)
qed

text \<open>A lease that no request is using may be changed or dropped.\<close>

definition no_request :: "string \<Rightarrow> pool \<Rightarrow> bool" where
  "no_request sid p \<longleftrightarrow> (\<forall>ident i. RequestFrame sid ident i \<notin> set (pl_frames p))"

lemma lease_is_other: "x \<noteq> sid \<Longrightarrow> lease_is x ident (p\<lparr>pl_leases := od_put sid l (pl_leases p)\<rparr>) = lease_is x ident p"
  "x \<noteq> sid \<Longrightarrow> lease_is x ident (drop_lease sid p) = lease_is x ident p"
  by (simp_all add: lease_is_def drop_lease_def)

lemma frames_drop_lease: "frames_ok p \<Longrightarrow> no_request sid p \<Longrightarrow> frames_ok (drop_lease sid p)"
proof -
  assume p: "frames_ok p" and n: "no_request sid p"
  have "frame_ok (drop_lease sid p) f" if "f \<in> set (pl_frames p)" for f
  proof -
    have "frame_ok p f" using p that by (simp add: frames_ok_def)
    show ?thesis
    proof (cases f)
      case (RequestFrame x ident i)
      then have "x \<noteq> sid" using n that unfolding no_request_def by blast
      with \<open>frame_ok p f\<close> RequestFrame show ?thesis by (simp add: lease_is_other)
    qed (use \<open>frame_ok p f\<close> in \<open>simp_all add: drop_lease_def\<close>)
  qed
  then show ?thesis using p by (auto simp: frames_ok_def drop_lease_def)
qed

lemma frames_put_lease:
  assumes "frames_ok p" and "no_request sid p" and "sid \<notin> set (pl_opening p)"
  shows "frames_ok (p\<lparr>pl_leases := od_put sid l (pl_leases p)\<rparr>)"
proof -
  have "frame_ok (p\<lparr>pl_leases := od_put sid l (pl_leases p)\<rparr>) f" if "f \<in> set (pl_frames p)" for f
  proof -
    have "frame_ok p f" using assms(1) that by (simp add: frames_ok_def)
    show ?thesis
    proof (cases f)
      case (RequestFrame x ident i)
      then have "x \<noteq> sid" using assms(2) that unfolding no_request_def by blast
      with \<open>frame_ok p f\<close> RequestFrame show ?thesis by (simp add: lease_is_other)
    qed (use \<open>frame_ok p f\<close> in simp_all)
  qed
  then show ?thesis using assms by (auto simp: frames_ok_def)
qed

lemma unlocked_no_request:
  assumes "frames_ok p" and "lease_is sid ident p = Some l" and "\<not> rl_lock_held l"
  shows "no_request sid p"
  unfolding no_request_def
proof (intro allI notI)
  fix ident' i
  assume "RequestFrame sid ident' i \<in> set (pl_frames p)"
  then have "frame_ok p (RequestFrame sid ident' i)" using assms(1) unfolding frames_ok_def by blast
  with assms(2,3) show False by (auto dest!: lease_isD)
qed

lemma frames_stop_opening:
  "frames_ok p \<Longrightarrow> (\<And>i. OpenFrame sid i \<notin> set (pl_frames p)) \<Longrightarrow> frames_ok (stop_opening sid p)"
proof -
  assume p: "frames_ok p" and n: "\<And>i. OpenFrame sid i \<notin> set (pl_frames p)"
  have "frame_ok (stop_opening sid p) f" if "f \<in> set (pl_frames p)" for f
  proof -
    have "frame_ok p f" using p that by (simp add: frames_ok_def)
    show ?thesis
    proof (cases f)
      case (OpenFrame x i)
      then have "x \<noteq> sid" using n that by blast
      with \<open>frame_ok p f\<close> OpenFrame show ?thesis by (simp add: stop_opening_def)
    qed (use \<open>frame_ok p f\<close> in \<open>simp_all add: stop_opening_def lease_is_def\<close>)
  qed
  then show ?thesis using p by (auto simp: frames_ok_def) (auto simp: stop_opening_def distinct_removeAll)
qed

lemma open_frame_gone:
  assumes "frames_ok p" and "OpenFrame sid i \<in> set (pl_frames p)"
  shows "OpenFrame sid j \<notin> set (pl_frames (drop_frame (OpenFrame sid i) p))"
proof
  assume j: "OpenFrame sid j \<in> set (pl_frames (drop_frame (OpenFrame sid i) p))"
  have "at_most_one (opens sid) (pl_frames p)" using assms(1) by (simp add: frames_ok_def)
  from at_most_one_none [OF this assms(2) _ j [unfolded drop_frame_def, simplified]] show False by simp
qed

lemma frames_end_opening:
  "frames_ok p \<Longrightarrow> OpenFrame sid i \<in> set (pl_frames p) \<Longrightarrow> frames_ok (stop_opening sid (drop_frame (OpenFrame sid i) p))"
  by (rule frames_stop_opening [OF frames_drop]) (auto dest: open_frame_gone)

lemma opening_no_request:
  "frames_ok p \<Longrightarrow> sid \<in> set (pl_opening p) \<Longrightarrow> no_request sid p"
  unfolding no_request_def
proof (intro allI notI)
  fix ident i
  assume p: "frames_ok p" "sid \<in> set (pl_opening p)" "RequestFrame sid ident i \<in> set (pl_frames p)"
  then have "frame_ok p (RequestFrame sid ident i)" "od_get (pl_leases p) sid = None" unfolding frames_ok_def by blast+
  then show False by (auto dest!: lease_isD)
qed

lemma no_request_drop: "no_request sid p \<Longrightarrow> no_request sid (drop_frame f p)"
  by (simp add: no_request_def drop_frame_def notin_set_remove1)

lemma frames_open_finish:
  assumes p: "frames_ok p" and f: "OpenFrame sid i \<in> set (pl_frames p)"
  shows "frames_ok (snd (open_finish dead sid i p))"
proof -
  let ?q = "stop_opening sid (drop_frame (OpenFrame sid i) p)"
  have q: "frames_ok ?q" by (rule frames_end_opening [OF p f])
  have "frame_ok p (OpenFrame sid i)" using p f unfolding frames_ok_def by blast
  then have "no_request sid p" by (intro opening_no_request p) simp
  then have n: "no_request sid ?q" using no_request_drop by (simp add: no_request_def stop_opening_def)
  have le: "pl_leases ?q = pl_leases p" by (simp add: stop_opening_def)
  have "frames_ok (set_status i st (?q\<lparr>pl_leases := od_put sid l (pl_leases p), pl_next_identity := k\<rparr>))" for st l k
  proof -
    have "frames_ok (?q\<lparr>pl_leases := od_put sid l (pl_leases p)\<rparr>)"
      using frames_put_lease [OF q n, of l] unfolding le by (simp add: stop_opening_def)
    then show ?thesis by (rule iffD1 [OF frames_cong, rotated]) (simp add: calls_def set_status_def)
  qed
  moreover have "frames_ok (return_replica dead i ?q)" using q frames_cong [of "return_replica dead i ?q" ?q] by simp
  ultimately show ?thesis by (auto simp: open_finish_def Let_def)
qed

lemma frames_set_lock:
  assumes p: "frames_ok p" and n: "no_request sid p"
  shows "frames_ok (set_lock sid b p)"
proof (cases "od_get (pl_leases p) sid")
  case (Some l)
  have "sid \<notin> set (pl_opening p)" using p Some by (auto simp: frames_ok_def)
  with frames_put_lease [OF p n this] Some show ?thesis by (simp add: set_lock_def)
qed (simp add: set_lock_def p)

lemma frames_request_locked:
  assumes p: "frames_ok p" and free: "lock_free sid ident p"
  shows "frames_ok (snd (request_locked dead sid ident p))"
proof (cases "lease_is sid ident p")
  case (Some l)
  then have n: "no_request sid p" using free by (intro unlocked_no_request [OF p]) (simp_all add: lock_free_def)
  note g = lease_isD [OF Some]
  let ?i = "rl_replica_id l"
  let ?q = "set_lock sid True (set_status ?i SESSION_BUSY p)"
  have nq: "no_request sid (set_status ?i SESSION_BUSY p)" using n by (simp add: no_request_def set_status_def)
  have ps: "frames_ok (set_status ?i SESSION_BUSY p)" using p frames_cong [of "set_status ?i SESSION_BUSY p" p] by simp
  have "frames_ok (add_frame (RequestFrame sid ident ?i) ?q)"
  proof (rule frames_add [OF frames_set_lock [OF ps nq]])
    show "frame_ok ?q (RequestFrame sid ident ?i)"
      using g by (simp add: set_lock_def set_status_def lease_is_def)
    show "\<forall>ident' j. RequestFrame x ident' j \<notin> set (pl_frames ?q)" if "RequestFrame sid ident ?i = RequestFrame x y z" for x y z
      using n that g by (simp add: no_request_def set_lock_def set_status_def)
  qed simp
  moreover have "frames_ok (evict_replica ?i (drop_lease sid p))"
    using frames_drop_lease [OF p n] frames_cong [of "evict_replica ?i (drop_lease sid p)" "drop_lease sid p"] by simp
  ultimately show ?thesis using Some p by (simp add: request_locked_def Let_def)
qed (simp add: request_locked_def p)

lemma request_gone:
  assumes "frames_ok p" and f: "RequestFrame sid ident i \<in> set (pl_frames p)"
  shows "no_request sid (drop_frame (RequestFrame sid ident i) p)"
  unfolding no_request_def
proof (intro allI notI)
  fix ident' j
  assume j: "RequestFrame sid ident' j \<in> set (pl_frames (drop_frame (RequestFrame sid ident i) p))"
  have "at_most_one (requests sid) (pl_frames p)" using assms(1) by (simp add: frames_ok_def)
  from at_most_one_none [OF this f _ j [unfolded drop_frame_def, simplified]] show False by simp
qed

lemma frames_request_end:
  assumes p: "frames_ok p" and f: "RequestFrame sid ident i \<in> set (pl_frames p)"
  shows "frames_ok (snd (request_end sid ident i outcome p))"
proof -
  let ?q = "drop_frame (RequestFrame sid ident i) p"
  have q: "frames_ok ?q" by (rule frames_drop [OF p])
  have n: "no_request sid ?q" by (rule request_gone [OF p f])
  have s: "frames_ok (set_status i SESSION_RESERVED ?q)"
    using q frames_cong [of "set_status i SESSION_RESERVED ?q" ?q] by simp
  have "no_request sid (set_status i SESSION_RESERVED ?q)" using n by (simp add: no_request_def set_status_def)
  note fs = frames_set_lock [OF q n] frames_set_lock [OF s this]
  have "frames_ok (evict_replica i (drop_lease sid ?q))"
    using frames_drop_lease [OF q n] frames_cong [of "evict_replica i (drop_lease sid ?q)" "drop_lease sid ?q"] by simp
  with fs show ?thesis by (cases outcome) (simp_all add: request_end_def Let_def)
qed

lemma frames_open_turn: "frames_ok p \<Longrightarrow> can_open sid p \<Longrightarrow> frames_ok (snd (open_turn dead deadline sid p))"
proof -
  assume p: "frames_ok p" and o: "can_open sid p"
  obtain r q where r: "take_replica dead p = (r, q)" by (cases "take_replica dead p")
  have c: "calls q = calls p" by (rule calls_take [OF r])
  have q: "frames_ok q" using p frames_cong [OF c] by simp
  have "frames_ok (add_frame (OpenFrame sid i) q)" for i
    using o c by (intro frames_add [OF q]) (auto simp: can_open_def calls_def opens_iff)
  moreover have "frames_ok (stop_opening sid p)" using o by (intro frames_stop_opening [OF p]) (auto simp: can_open_def opens_iff)
  ultimately show ?thesis using q r by (auto simp: open_turn_def split: take_outcome.splits)
qed

lemma frames_open_begin: "frames_ok p \<Longrightarrow> frames_ok (snd (open_begin sid p))"
proof -
  assume p: "frames_ok p"
  have "frame_ok p f \<Longrightarrow> frame_ok (p\<lparr>pl_opening := pl_opening p @ [sid]\<rparr>) f" for f
    by (cases f) (simp_all add: lease_is_def)
  with p show ?thesis by (auto simp: open_begin_def frames_ok_def)
qed

lemma frames_close_begin: "frames_ok p \<Longrightarrow> frames_ok (snd (close_begin sid p))"
proof (cases "get_session_lease sid p")
  case (Inr l)
  assume p: "frames_ok p"
  let ?p = "p\<lparr>pl_leases := od_put sid (l\<lparr>rl_closing := True\<rparr>) (pl_leases p)\<rparr>"
  have l: "od_get (pl_leases p) sid = Some l"
    using Inr by (auto simp: get_session_lease_def split: if_splits option.splits)
  have "frame_ok p f \<Longrightarrow> frame_ok ?p f" for f
    using l by (cases f) (auto simp: lease_is_def split: if_splits)
  then have "frames_ok ?p" using p l by (auto simp: frames_ok_def)
  then have "frames_ok (add_frame (CloseFrame sid (rl_identity l)) ?p)" by (rule frames_add) auto
  then show ?thesis using Inr by (simp add: close_begin_def)
qed (simp add: close_begin_def)

lemma frames_close_locked:
  assumes p: "frames_ok p" and free: "lock_free sid ident p"
  shows "frames_ok (snd (close_locked dead sid ident p))"
proof -
  let ?q = "drop_frame (CloseFrame sid ident) p"
  have q: "frames_ok ?q" by (rule frames_drop [OF p])
  have "frames_ok (return_replica dead i (drop_lease sid ?q))" if l: "lease_is sid ident ?q = Some l" for l i
  proof -
    have "no_request sid ?q"
      using free l by (intro unlocked_no_request [OF q l]) (simp add: lock_free_def lease_is_def)
    then show ?thesis
      using frames_drop_lease [OF q] frames_cong [of "return_replica dead i (drop_lease sid ?q)" "drop_lease sid ?q"] by simp
  qed
  with q show ?thesis by (simp add: close_locked_def Let_def split: option.splits)
qed

lemma frames_release: "frames_ok p \<Longrightarrow> frames_ok (snd (release_task i outcome p))"
proof -
  assume "frames_ok p"
  then have q: "frames_ok (drop_frame (TaskFrame i) p)" by (rule frames_drop)
  have "frames_ok (evict_replica i (drop_frame (TaskFrame i) p))"
      "frames_ok ((set_status i IDLE (drop_frame (TaskFrame i) p))\<lparr>pl_available := av\<rparr>)" for av
    using q by (rule iffD2 [OF frames_cong, rotated], simp)+
  with q show ?thesis by (cases outcome) (simp_all add: release_task_def Let_def)
qed

lemma frames_acquire: "frames_ok p \<Longrightarrow> frames_ok (snd (acquire_turn dead p))"
proof -
  assume p: "frames_ok p"
  obtain r q where r: "take_replica dead p = (r, q)" by (cases "take_replica dead p")
  have q: "frames_ok q" using p frames_cong [OF calls_take [OF r]] by simp
  have "frames_ok (set_status i BUSY q)" for i using q frames_cong [of "set_status i BUSY q" q] by simp
  then have "frames_ok (add_frame (TaskFrame i) (set_status i BUSY q))" for i by (rule frames_add) auto
  with q r show ?thesis by (auto simp: acquire_turn_def split: take_outcome.splits)
qed

lemma shutdown_ok: "frames_ok p \<Longrightarrow> frames_ok (shutdown_begin p)" "places_ok p \<Longrightarrow> places_ok (shutdown_begin p)"
proof -
  assume p: "frames_ok p"
  have "frame_ok p f \<Longrightarrow> frame_ok (shutdown_begin p) f" for f
    by (cases f) (auto simp: lease_is_def shutdown_begin_def split: option.splits if_splits)
  with p show "frames_ok (shutdown_begin p)" by (auto simp: frames_ok_def) (auto simp: shutdown_begin_def)
next
  have "holders (shutdown_begin p) = holders p"
    by (simp add: holders_def shutdown_begin_def od_map_def comp_def split_beta)
  then show "places_ok p \<Longrightarrow> places_ok (shutdown_begin p)" by (simp add: places_ok_def) (simp add: shutdown_begin_def)
qed

lemma open_abort_ok:
  "places_ok p \<Longrightarrow> frames_ok p \<Longrightarrow> OpenFrame sid i \<in> set (pl_frames p) \<Longrightarrow>
     places_ok (open_abort dead sid i p) \<and> frames_ok (open_abort dead sid i p)"
  using without_return [OF open_frame_without] frames_end_opening [of p sid i]
    frames_cong [of "open_abort dead sid i p" "stop_opening sid (drop_frame (OpenFrame sid i) p)"]
  by (simp add: open_abort_def)

lemma open_begin_places: "places_ok p \<Longrightarrow> places_ok (snd (open_begin sid p))"
  by (simp add: open_begin_def places_ok_def)

definition pool_ok :: "pool \<Rightarrow> bool" where
  "pool_ok p \<longleftrightarrow> places_ok p \<and> frames_ok p"

lemma pool_ok_exec: "pool_ok p \<Longrightarrow> pool_ok (exec p ev)"
proof -
  assume "pool_ok p"
  then have p: "places_ok p" "frames_ok p" by (simp_all add: pool_ok_def)
  show ?thesis
    using p unfolding pool_ok_def
    by (cases ev) (simp_all add: acquire_places frames_acquire release_places frames_release frames_open_begin
        open_turn_places frames_open_turn open_finish_places frames_open_finish open_abort_ok
        request_locked_places frames_request_locked request_end_places frames_request_end
        close_begin_places frames_close_begin close_locked_places frames_close_locked shutdown_ok
        open_begin_places)
qed

interpretation pool: invariant_machine exec pool_ok
  by unfold_locales (rule pool_ok_exec)

lemma start_replicas_ok:
  "start_replicas i rs p = (True, q) \<Longrightarrow> pl_frames p = [] \<Longrightarrow> pl_leases p = [] \<Longrightarrow> pl_opening p = [] \<Longrightarrow>
     pl_handles p = i \<Longrightarrow> length (pl_status p) = i \<Longrightarrow> dead_count (pl_status p) = 0 \<Longrightarrow>
     pl_available p = [0..<i] \<Longrightarrow> pl_live_count p = int (i + length rs) \<Longrightarrow>
     pool_ok q \<and> pl_handles q = i + length rs"
proof (induction i rs p rule: start_replicas.induct)
  case (1 i p)
  have nd: "st ! j \<noteq> DEAD" if "dead_count st = 0" "j < length st" for st j
    using that by (auto simp: dead_count_def filter_empty_conv)
  have "count (mset [0..<i]) j \<le> 1" for j using distinct_count_atmost_1 [of "[0..<i]"] by (simp split: if_splits)
  with 1 nd show ?case
    by (auto simp: pool_ok_def places_ok_def seats_ok_def frames_ok_def holders_def at_most_one_def)
next
  case (2 i r rs p)
  then show ?case by (auto simp: add_replica_def dead_count_def split: if_splits)
qed

section \<open>Exclusive replicas\<close>

lemma handles_exec: "pl_handles (exec p ev) = pl_handles p"
proof -
  have e: "pl_handles (evict_replica i p) = pl_handles p" for i p by (simp add: evict_replica_def)
  have r: "pl_handles (return_replica dead i p) = pl_handles p" for dead i p
    by (simp add: return_replica_def e)
  have t: "pl_handles q = pl_handles p" if "take_replica dead p = (x, q)" for dead x q
    using that by (auto simp: take_replica_def Let_def e split: if_splits list.splits)
  show ?thesis
  proof (cases ev)
    case (AcquireTurn dead)
    then show ?thesis
      by (cases "take_replica dead p", cases "fst (take_replica dead p)") (auto simp: acquire_turn_def dest: t)
  next
    case (OpenTurn dead deadline sid)
    then show ?thesis
      by (cases "take_replica dead p", cases "fst (take_replica dead p)") (auto simp: open_turn_def dest: t)
  qed (auto simp: release_task_def open_begin_def open_finish_def open_abort_def request_locked_def request_end_def
      close_begin_def close_locked_def shutdown_begin_def Let_def e r split: body_outcome.splits sum.splits option.splits)
qed

text \<open>C32: A replica is never used by two at once. From a fresh pool whose start succeeded, under every
  interleaving of tasks, session openings, session requests, closings and deaths of replicas,
  each replica is held at most once - by the queue of available replicas, a task, an opening
  session or the lease of a session -, no evicted replica is held, and the live count is the
  number of replicas that have not been evicted.\<close>

theorem replica_held_once:
  assumes "start_all outcomes (new_pool (length outcomes)) = (True, p0)" and "p = foldl exec p0 evs"
  shows "(\<forall>i. count (holders p) i \<le> 1) \<and>
    (\<forall>i \<in># holders p. i < length outcomes \<and> pl_status p ! i \<noteq> DEAD) \<and>
    pl_live_count p = int (length outcomes) - int (dead_count (pl_status p))"
proof -
  have s: "pool_ok p0 \<and> pl_handles p0 = 0 + length outcomes"
    by (rule start_replicas_ok [OF assms(1) [unfolded start_all_def]]) (simp_all add: new_pool_def dead_count_def)
  then have ok: "pool_ok p" unfolding assms(2) using pool.inv_run by blast
  have "pl_handles (foldl exec q evs) = pl_handles q" for q by (induction evs arbitrary: q) (simp_all add: handles_exec)
  then have "pl_handles p = length outcomes" using s by (simp add: assms(2))
  with ok show ?thesis by (simp add: pool_ok_def places_ok_def seats_ok_def)
qed

definition all_alive :: "nat \<Rightarrow> bool" where
  "all_alive i \<longleftrightarrow> False"

lemma replica_held_once_witness:
  "\<exists>p0. start_all [Ready, Ready] (new_pool 2) = (True, p0) \<and>
     pl_frames (foldl exec p0 [AcquireTurn all_alive, OpenBegin ''s'', OpenTurn all_alive False ''s'']) =
       [TaskFrame 0, OpenFrame ''s'' 1] \<and>
     count (holders (foldl exec p0 [AcquireTurn all_alive, OpenBegin ''s'', OpenTurn all_alive False ''s''])) 0 \<le> 1"
proof -
  let ?p0 = "snd (start_all [Ready, Ready] (new_pool 2))"
  have l: "length [Ready, Ready] = 2" by simp
  have "fst (start_all [Ready, Ready] (new_pool 2)) = True" by code_simp
  then have s: "start_all [Ready, Ready] (new_pool (length [Ready, Ready])) = (True, ?p0)"
    unfolding l by (metis prod.collapse)
  moreover have "pl_frames (foldl exec ?p0 [AcquireTurn all_alive, OpenBegin ''s'', OpenTurn all_alive False ''s'']) =
       [TaskFrame 0, OpenFrame ''s'' 1]"
    by code_simp
  ultimately show ?thesis using replica_held_once [OF s refl] unfolding l by blast
qed

section \<open>A failing task\<close>

text \<open>A replica that is gone behaves as if a task held it that never ends.\<close>

definition phantom :: "nat \<Rightarrow> pool \<Rightarrow> pool" where
  "phantom i p = p\<lparr>pl_frames := TaskFrame i # pl_frames p\<rparr>"

lemma phantom_ops:
  "phantom i (set_status j st p) = set_status j st (phantom i p)"
  "phantom i (evict_replica j p) = evict_replica j (phantom i p)"
  "phantom i (return_replica dead j p) = return_replica dead j (phantom i p)"
  "phantom i (add_frame f p) = add_frame f (phantom i p)"
  "f \<noteq> TaskFrame i \<Longrightarrow> phantom i (drop_frame f p) = drop_frame f (phantom i p)"
  "phantom i (stop_opening sid p) = stop_opening sid (phantom i p)"
  "phantom i (drop_lease sid p) = drop_lease sid (phantom i p)"
  "phantom i (set_lock sid b p) = set_lock sid b (phantom i p)"
  by (auto simp: phantom_def set_status_def evict_replica_def return_replica_def add_frame_def drop_frame_def
      stop_opening_def drop_lease_def set_lock_def split: option.splits)

lemma phantom_reads [simp]:
  "pl_leases (phantom i p) = pl_leases p" "pl_opening (phantom i p) = pl_opening p"
  "pl_status (phantom i p) = pl_status p" "pl_live_count (phantom i p) = pl_live_count p"
  "pl_available (phantom i p) = pl_available p" "pl_session_shutdown (phantom i p) = pl_session_shutdown p"
  "pl_next_identity (phantom i p) = pl_next_identity p" "pl_handles (phantom i p) = pl_handles p"
  "lease_is sid ident (phantom i p) = lease_is sid ident p"
  "get_session_lease sid (phantom i p) = get_session_lease sid p"
  "pl_frames (phantom i p) = TaskFrame i # pl_frames p"
  "lease_is sid ident (drop_frame f q) = lease_is sid ident q"
  "pl_available (drop_frame f q) = pl_available q"
  "pl_next_identity (drop_frame f q) = pl_next_identity q" "pl_session_shutdown (drop_frame f q) = pl_session_shutdown q"
  by (simp_all add: phantom_def lease_is_def get_session_lease_def drop_frame_def)

lemma phantom_updates:
  "phantom i (p\<lparr>pl_available := av\<rparr>) = (phantom i p)\<lparr>pl_available := av\<rparr>"
  "phantom i (p\<lparr>pl_opening := os\<rparr>) = (phantom i p)\<lparr>pl_opening := os\<rparr>"
  "phantom i (p\<lparr>pl_leases := ls\<rparr>) = (phantom i p)\<lparr>pl_leases := ls\<rparr>"
  "phantom i (p\<lparr>pl_next_identity := k\<rparr>) = (phantom i p)\<lparr>pl_next_identity := k\<rparr>"
  by (simp_all add: phantom_def)

lemma phantom_take: "take_replica dead (phantom i p) = (fst (take_replica dead p), phantom i (snd (take_replica dead p)))"
  by (auto simp: take_replica_def Let_def phantom_ops phantom_updates split: list.splits)

lemma phantom_exec:
  assumes "\<forall>outcome. ev \<noteq> ReleaseTask i outcome"
  shows "exec (phantom i p) ev = phantom i (exec p ev)"
proof (cases ev)
  case (AcquireTurn dead)
  then show ?thesis
    by (cases "take_replica dead p", cases "fst (take_replica dead p)")
      (simp_all add: acquire_turn_def phantom_take phantom_ops)
next
  case (OpenTurn dead deadline sid)
  then show ?thesis
    by (cases "take_replica dead p", cases "fst (take_replica dead p)")
      (simp_all add: open_turn_def phantom_take phantom_ops can_open_def)
next
  case (RequestLocked dead sid ident)
  then show ?thesis
    by (simp add: request_locked_def lock_free_def phantom_ops Let_def split: option.splits)
next
  case ShutdownBegin
  then show ?thesis by (simp add: shutdown_begin_def phantom_def)
qed (use assms in \<open>auto simp: release_task_def open_begin_def open_finish_def open_abort_def request_end_def
      close_begin_def close_locked_def lock_free_def phantom_ops phantom_updates Let_def
      split: body_outcome.splits sum.splits option.splits\<close>)

lemma phantom_run:
  "pool_ok (phantom i p) \<Longrightarrow> \<forall>outcome. ReleaseTask i outcome \<notin> set evs \<Longrightarrow> pool_ok (phantom i (foldl exec p evs))"
proof (induction evs arbitrary: p)
  case (Cons ev evs)
  then have e: "\<forall>outcome. ev \<noteq> ReleaseTask i outcome" by auto
  have "pool_ok (phantom i (exec p ev))"
    using pool_ok_exec [OF Cons.prems(1), of ev] phantom_exec [OF e] by simp
  with Cons show ?case by simp
qed simp

lemma frames_phantom: "frames_ok p \<Longrightarrow> frames_ok (phantom i p)"
proof -
  assume p: "frames_ok p"
  have "frame_ok (phantom i p) g = frame_ok p g" for g by (cases g) (simp_all add: phantom_def lease_is_def)
  then show ?thesis using p by (simp add: frames_ok_def at_most_one_def phantom_def)
qed

lemma drop_task_phantom: "TaskFrame i \<in> set (pl_frames p) \<Longrightarrow> pool_ok p \<Longrightarrow> pool_ok (phantom i (drop_frame (TaskFrame i) p))"
proof -
  assume f: "TaskFrame i \<in> set (pl_frames p)" and p: "pool_ok p"
  let ?q = "drop_frame (TaskFrame i) p"
  have "holders (phantom i ?q) = holders ?q + {#i#}" by (simp add: holders_def phantom_def)
  also have "\<dots> = holders p" using holders_drop_frame [OF f] by simp
  finally have h: "holders (phantom i ?q) = holders p" .
  have e: "pl_handles (phantom i ?q) = pl_handles p" "pl_status (phantom i ?q) = pl_status p"
    "pl_live_count (phantom i ?q) = pl_live_count p" by (simp_all add: phantom_def drop_frame_def)
  have "places_ok (phantom i ?q)" using p unfolding pool_ok_def places_ok_def h e by blast
  moreover have "frames_ok ?q" using p unfolding pool_ok_def by (blast intro: frames_drop)
  ultimately show ?thesis unfolding pool_ok_def by (blast intro: frames_phantom)
qed

text \<open>C33: A task that fails takes its replica out of service for good. \<open>acquire\<close> puts the replica back
  when its body ends normally and evicts it on ReplicaDeadError; on any other exception - the
  RuntimeError for an error that the replica reports, a cancelled request - it does neither.
  From then on no interleaving of later calls gives the replica to anyone again, although it
  still counts as live; a pool with one replica then waits for ever in \<open>acquire\<close>.\<close>

theorem failing_task_leaks_replica:
  assumes "start_all outcomes (new_pool (length outcomes)) = (True, p0)" and "p = foldl exec p0 before"
    and f: "TaskFrame i \<in> set (pl_frames p)"
    and "q = foldl exec (snd (release_task i BodyRaises p)) later"
    and other: "\<forall>outcome. ReleaseTask i outcome \<notin> set later"
  shows "i \<notin># holders q \<and> pl_status q ! i \<noteq> DEAD \<and> 1 \<le> pl_live_count q \<and>
    (length outcomes = 1 \<longrightarrow> fst (acquire_turn dead q) = Inr None) \<and>
    body_outcome_of (fst (run_task i timeout True None [Received (''error'', message)] True False)) = BodyRaises"
proof -
  have s: "pool_ok p0 \<and> pl_handles p0 = 0 + length outcomes"
    by (rule start_replicas_ok [OF assms(1) [unfolded start_all_def]]) (simp_all add: new_pool_def dead_count_def)
  then have ok: "pool_ok p" unfolding assms(2) using pool.inv_run by blast
  have h: "pl_handles (foldl exec r evs) = pl_handles r" for r evs
    by (induction evs arbitrary: r) (simp_all add: handles_exec)
  have "pl_handles (snd (release_task i BodyRaises p)) = pl_handles p" by (simp add: release_task_def)
  then have n: "pl_handles q = length outcomes" using s h by (simp add: assms(2,4))
  have "snd (release_task i BodyRaises p) = drop_frame (TaskFrame i) p" by (simp add: release_task_def)
  then have "pool_ok (phantom i q)"
    unfolding assms(4) using phantom_run [OF drop_task_phantom [OF f ok] other] by simp
  then have w: "without i q"
    by (simp add: pool_ok_def places_ok_def without_def) (simp add: holders_def phantom_def)
  note T = seats_taken [OF w [unfolded without_def]]
  have S: "seats_ok (pl_handles q) (pl_status q) (pl_live_count q) (holders q)"
    using without_lost [OF w] by (simp add: places_ok_def)
  have "dead_count (pl_status q) < length (pl_status q)"
    using length_filter_less [of "pl_status q ! i" "pl_status q" "\<lambda>x. x = DEAD"] T S
    unfolding dead_count_def seats_ok_def by (metis nth_mem)
  then have live: "1 \<le> pl_live_count q" using S by (simp add: seats_ok_def)
  have "fst (acquire_turn dead q) = Inr None" if one: "length outcomes = 1"
  proof -
    have "j \<notin> set (pl_available q)" for j
    proof
      assume "j \<in> set (pl_available q)"
      then have "j \<in># holders q" by (simp add: holders_def)
      then show False using S T one n by (auto simp: seats_ok_def)
    qed
    then have "pl_available q = []" by (cases "pl_available q") auto
    then show ?thesis using live by (simp add: acquire_turn_def take_replica_def)
  qed
  moreover have "body_outcome_of (fst (run_task i timeout True None [Received (''error'', message)] True False)) = BodyRaises"
    by (simp add: run_task_def round_trip_def body_outcome_of_def)
  ultimately show ?thesis using T live by simp
qed

lemma failing_task_leaks_replica_witness:
  "\<exists>p. TaskFrame 0 \<in> set (pl_frames p) \<and>
     fst (acquire_turn all_alive (snd (release_task 0 BodyRaises p))) = Inr None"
proof -
  let ?started = "snd (start_all [Ready] (new_pool 1))"
  let ?p = "foldl exec ?started [AcquireTurn all_alive]"
  have l: "length [Ready] = 1" by simp
  have "fst (start_all [Ready] (new_pool 1)) = True" by code_simp
  then have s: "start_all [Ready] (new_pool (length [Ready])) = (True, ?started)"
    unfolding l by (simp only: prod_eq_iff fst_conv snd_conv)
  have "pl_frames ?p = [TaskFrame 0]" by code_simp
  then have f: "TaskFrame 0 \<in> set (pl_frames ?p)" by simp
  have e: "snd (release_task 0 BodyRaises ?p) = foldl exec (snd (release_task 0 BodyRaises ?p)) []" by simp
  have "fst (acquire_turn all_alive (snd (release_task 0 BodyRaises ?p))) = Inr None"
    using failing_task_leaks_replica [OF s refl f e, of all_alive] l by simp
  with f show ?thesis by blast
qed

section \<open>Starting again\<close>

lemma start_available:
  "start_replicas i rs p = (b, q) \<Longrightarrow> \<exists>k. pl_available q = pl_available p @ [i..<i + k] \<and> (b \<longrightarrow> k = length rs)"
proof (induction i rs p rule: start_replicas.induct)
  case (1 i p)
  then show ?case by (intro exI [of _ 0]) auto
next
  case (2 i r rs p)
  show ?case
  proof (cases "r = StartupFailed \<or> (r = OtherMetadata \<and> i \<noteq> 0)")
    case True
    with 2(2) show ?thesis by (intro exI [of _ 0]) (auto simp: cleanup_started_def)
  next
    case False
    have "start_replicas i (r # rs) p = start_replicas (i + 1) rs (add_replica i p)"
      by (simp only: start_replicas.simps False if_False)
    with 2(2) have "start_replicas (i + 1) rs (add_replica i p) = (b, q)" by (simp only:)
    from 2(1) [OF False this] obtain k where
      "pl_available q = pl_available (add_replica i p) @ [i + 1..<i + 1 + k]" "b \<longrightarrow> k = length rs" by blast
    then show ?thesis
      by (intro exI [of _ "k + 1"]) (simp add: add_replica_def upt_conv_Cons)
  qed
qed

text \<open>A pool that is started again hands the same replica to two callers. Neither the cleanup of a
  failed start nor the shutdown empties the queue of available replicas, so after the next
  successful start every index that was still waiting is in the queue twice.\<close>

theorem restart_shares_replica:
  assumes "start_all outcomes p = (True, q)" and "i \<in> set (pl_available p)" and "i < length outcomes"
  shows "2 \<le> count (holders q) i \<and>
    pl_available (shutdown_end (shutdown_begin p)) = pl_available p \<and>
    (\<forall>failed r. start_all failed p = (False, r) \<longrightarrow> set (pl_available p) \<subseteq> set (pl_available r))"
proof -
  obtain k where k: "pl_available q = pl_available p @ [0..<k]" "k = length outcomes"
    using start_available [OF assms(1) [unfolded start_all_def]] by auto
  have a: "1 \<le> count (mset (pl_available p)) i" using assms(2) by (simp add: Suc_le_eq count_greater_zero_iff)
  have "0 < count (mset [0..<k]) i" unfolding count_greater_zero_iff set_mset_mset using assms(3) k(2) by simp
  then have "2 \<le> count (holders q) i"
    using a unfolding holders_def k(1) mset_append count_union by linarith
  moreover have "set (pl_available p) \<subseteq> set (pl_available r)" if "start_all failed p = (False, r)" for failed r
    using start_available [OF that [unfolded start_all_def]] by auto
  ultimately show ?thesis by (simp add: shutdown_end_def shutdown_begin_def)
qed

lemma restart_shares_replica_witness:
  "pl_frames (foldl exec (snd (start_all [Ready, Ready] (snd (start_all [Ready, StartupFailed] (new_pool 2)))))
      [AcquireTurn all_alive, AcquireTurn all_alive]) = [TaskFrame 0, TaskFrame 0] \<and>
   2 \<le> count (holders (snd (start_all [Ready, Ready] (snd (start_all [Ready, StartupFailed] (new_pool 2)))))) 0"
proof -
  let ?p = "snd (start_all [Ready, StartupFailed] (new_pool 2))"
  have "fst (start_all [Ready, Ready] ?p) = True" by code_simp
  then have s: "start_all [Ready, Ready] ?p = (True, snd (start_all [Ready, Ready] ?p))"
    by (simp only: prod_eq_iff fst_conv snd_conv)
  have "pl_available ?p = [0]" by code_simp
  then have "0 \<in> set (pl_available ?p)" by simp
  from restart_shares_replica [OF s this] have "2 \<le> count (holders (snd (start_all [Ready, Ready] ?p))) 0" by simp
  moreover have "pl_frames (foldl exec (snd (start_all [Ready, Ready] ?p))
      [AcquireTurn all_alive, AcquireTurn all_alive]) = [TaskFrame 0, TaskFrame 0]" by code_simp
  ultimately show ?thesis by blast
qed

end
