(* ===== verification/Contract_Templates.thy ===== *)
theory Contract_Templates
  imports Pipeline_Contract
begin

text \<open>
  The reusable task contracts and manifests of the example pipelines
  (\<open>telefuser/service/core/contract_templates.py\<close>). An argument that is None or empty is the
  empty list or string here, as the code treats both alike.
\<close>

section \<open>The shared parameters\<close>

definition strs :: "string list \<Rightarrow> pyval" where
  "strs xs = VList (map VStr xs)"

definition base_parameter :: "string \<Rightarrow> bool \<Rightarrow> pyval \<Rightarrow> string \<Rightarrow> string list \<Rightarrow> (string \<times> pyval) list" where
  "base_parameter ty required dflt description enum =
     [(''type'', VStr ty), (''required'', VBool required), (''default'', dflt), (''description'', VStr description)] @
     (if enum = [] then [] else [(''enum'', strs enum)]) @ [(''exposed'', VBool True)]"

definition BASE_PARAMETER_CONTRACTS :: "(string, (string \<times> pyval) list) odict" where
  "BASE_PARAMETER_CONTRACTS =
     [(''prompt'', base_parameter ''string'' True (VStr []) ''Primary generation prompt.'' []),
      (''negative_prompt'', base_parameter ''string'' False (VStr []) ''Negative prompt appended to the example defaults.'' []),
      (''seed'', base_parameter ''integer'' False (VInt 42) ''Random seed for reproducibility.'' []),
      (''output_path'', base_parameter ''string'' False (VStr []) ''Destination path for the generated artifact.'' []),
      (''resolution'', base_parameter ''string'' False (VStr ''720p'') ''Target output resolution.''
         [''480p'', ''720p'', ''1080p'']),
      (''aspect_ratio'', base_parameter ''string'' False (VStr ''16:9'') ''Requested aspect ratio when the example supports it.''
         [''16:9'', ''9:16'', ''4:3'', ''3:4'', ''1:1'', ''2:3'', ''3:2'']),
      (''target_video_length'', base_parameter ''integer'' False (VInt 5)
         ''Requested output video length in seconds when supported.'' []),
      (''output_format'', base_parameter ''string'' False (VStr ''png'') ''Requested image output format.''
         [''png'', ''jpg'', ''jpeg'', ''webp''])]"

definition TASK_PARAMETER_KEYS :: "(string, string list) odict" where
  "TASK_PARAMETER_KEYS =
     [(''t2v'', [''prompt'', ''negative_prompt'', ''seed'', ''resolution'', ''aspect_ratio'', ''target_video_length'', ''output_path'']),
      (''i2v'', [''prompt'', ''negative_prompt'', ''seed'', ''resolution'', ''aspect_ratio'', ''target_video_length'', ''output_path'']),
      (''fl2v'', [''prompt'', ''negative_prompt'', ''seed'', ''resolution'', ''aspect_ratio'', ''target_video_length'', ''output_path'']),
      (''vc'', [''prompt'', ''negative_prompt'', ''seed'', ''resolution'', ''target_video_length'', ''output_path'']),
      (''vsr'', [''prompt'', ''negative_prompt'', ''seed'', ''resolution'', ''output_path'']),
      (''s2v'', [''prompt'', ''negative_prompt'', ''seed'', ''resolution'', ''target_video_length'', ''output_path'']),
      (''t2i'', [''prompt'', ''negative_prompt'', ''seed'', ''resolution'', ''aspect_ratio'', ''output_format'', ''output_path'']),
      (''i2i'', [''prompt'', ''negative_prompt'', ''seed'', ''resolution'', ''aspect_ratio'', ''output_format'', ''output_path'']),
      (''edit'', [''prompt'', ''negative_prompt'', ''seed'', ''resolution'', ''aspect_ratio'', ''output_format'', ''output_path''])]"

section \<open>Templates\<close>

definition get_or :: "'v \<Rightarrow> ('k, 'v) odict \<Rightarrow> 'k \<Rightarrow> 'v" where
  "get_or v d k = (case od_get d k of None \<Rightarrow> v | Some x \<Rightarrow> x)"

definition dict_update :: "('k, 'v) odict \<Rightarrow> ('k, 'v) odict \<Rightarrow> ('k, 'v) odict" where
  "dict_update d e = foldl (\<lambda>d (k, v). od_put k v d) d e"

definition template_parameters :: "string \<Rightarrow> (string, (string \<times> pyval) list) odict" where
  "template_parameters task =
     foldl (\<lambda>d name. case od_get BASE_PARAMETER_CONTRACTS name of None \<Rightarrow> d | Some p \<Rightarrow> od_put name p d) []
       (get_or [] TASK_PARAMETER_KEYS task)"

definition override_parameter ::
  "(string, (string \<times> pyval) list) odict \<Rightarrow> string \<times> (string \<times> pyval) list \<Rightarrow> (string, (string \<times> pyval) list) odict" where
  "override_parameter ps e = od_put (fst e) (dict_update (get_or [] ps (fst e)) (snd e)) ps"

definition build_task_contract_template ::
  "string \<Rightarrow> (string, (string \<times> pyval) list) odict \<Rightarrow> string list \<Rightarrow> string list \<Rightarrow> string list \<Rightarrow> string \<Rightarrow>
     (string \<times> pyval) list res" where
  "build_task_contract_template task overrides excluded required optional media_type =
     bind_res (default_task_contract task) (\<lambda>base.
       let parameters = foldl (\<lambda>ps name. od_del name ps)
             (foldl override_parameter (template_parameters (tc_task base)) overrides) excluded
       in Inr [(''media_type'', VStr (if media_type = [] then tc_media_type base else media_type)),
               (''required_inputs'', strs (if required = [] then tc_required_inputs base else required)),
               (''optional_inputs'', strs (if optional = [] then tc_optional_inputs base else optional)),
               (''parameters'', VDict (od_map VDict parameters))])"

definition normalized_tasks :: "pyval list \<Rightarrow> string list" where
  "normalized_tasks tasks = filter (\<lambda>t. t \<noteq> []) (map (\<lambda>v. py_strip (py_str v)) tasks)"

definition manifest_contract ::
  "(string, (string \<times> pyval) list) odict \<Rightarrow> (string, (string \<times> pyval) list) odict \<Rightarrow> string \<Rightarrow>
     (string, (string \<times> pyval) list) odict res" where
  "manifest_contract custom d task =
     bind_res (case get_or [] custom task of [] \<Rightarrow> build_task_contract_template task [] [] [] [] [] | c \<Rightarrow> Inr c)
       (\<lambda>c. Inr (od_put task c d))"

definition build_pipeline_manifest ::
  "string \<Rightarrow> pyval list \<Rightarrow> (string, (string \<times> pyval) list) odict \<Rightarrow> string \<Rightarrow> int \<Rightarrow> (string, pyval) odict \<Rightarrow>
     (string \<times> pyval) list res" where
  "build_pipeline_manifest pipeline_name supported_tasks custom execution_mode max_concurrent entrypoints =
     bind_res (fold_res (manifest_contract custom) [] (normalized_tasks supported_tasks)) (\<lambda>contracts.
       Inr [(''contract_version'', VStr ''v1''), (''pipeline_name'', VStr pipeline_name),
            (''supported_tasks'', strs (normalized_tasks supported_tasks)),
            (''supported_media_types'',
               VList (rev (remdups (rev (map (\<lambda>e. get_or (VStr ''unknown'') (snd e) ''media_type'') contracts))))),
            (''execution_mode'', VStr execution_mode),
            (''effective_max_concurrent_tasks'', VInt max_concurrent),
            (''entrypoints'', VDict (if entrypoints = [] then
                [(''get_pipeline'', VStr ''get_pipeline''), (''run_with_file'', VStr ''run_with_file'')] else entrypoints)),
            (''task_contracts'', VDict (od_map VDict contracts))])"

section \<open>What the templates give\<close>

text \<open>The template of each known task is read as a contract with the inputs and the media type of the
  task's default contract and every parameter of the template, all exposed.\<close>

lemma templates_load:
  "list_all (\<lambda>task.
     case bind_res (build_task_contract_template task [] [] [] [] []) (task_from_mapping task) of
       Inl e \<Rightarrow> False
     | Inr t \<Rightarrow>
         tc_task t = task \<and> tc_media_type t = infer_media_type_for_task task \<and>
         tc_required_inputs t = default_required_inputs task \<and> tc_optional_inputs t = default_optional_inputs task \<and>
         od_keys (tc_parameters t) = get_or [] TASK_PARAMETER_KEYS task \<and>
         list_all (\<lambda>e. pc_exposed (snd e)) (tc_parameters t))
   (VIDEO_TASKS @ IMAGE_TASKS @ STRUCTURED_TASKS)"
  by code_simp

text \<open>A manifest names its tasks as they are given, so a task that is not in normal form keeps its name in
  the manifest, but its template is then read under the normal form and dropped.\<close>

lemma manifest_case:
  "bind_res (build_pipeline_manifest ''demo'' [VStr ''T2V''] [] ''serial_single_pipeline'' 1 [])
     (\<lambda>raw. bind_res (from_mapping ''demo'' raw) (\<lambda>c. Inr (map_option (map fst \<circ> tc_parameters) (get_task_contract ''T2V'' c)))) =
   Inr (Some [])"
  by code_simp

end
