(* ===== verification/Stage_Actor.thy ===== *)
theory Stage_Actor
  imports Prelude
begin

text \<open>
  The stage actor with a bounded mailbox, \<open>LocalStageActor\<close> of
  \<open>telefuser/orchestrator/streaming_pipeline_orchestrator.py\<close>, and the adapter that drives a
  parallel worker with it (\<open>parallel_worker_stage_actor.py\<close>). Callers, the closing thread and
  the actor's own thread interleave at the operations on the mailbox and on the lock; what the
  handler and the session closer do is the outcome that a turn of the thread carries.
\<close>

section \<open>State\<close>

datatype actor_message = Invoke nat | CloseSession nat | Stop

text \<open>The thread waits for a message, runs the handler or the session closer, or has ended.\<close>

datatype actor_thread = Waiting | Handling nat | ClosingSession nat | Ended

datatype future_state = Pending | Running | Cancelled | Resolved pyval | Failed string

definition terminal :: "future_state \<Rightarrow> bool" where
  "terminal f \<longleftrightarrow> f \<noteq> Pending \<and> f \<noteq> Running"

text \<open>\<open>sa_closing\<close> are the calls of \<open>close_session\<close> that have been counted and not yet put, \<open>sa_stopping\<close>
  a \<open>close\<close> that has not yet put its message.\<close>

record actor =
  sa_capacity :: nat
  sa_mailbox :: "actor_message list"
  sa_closed :: bool
  sa_failure :: "string option"
  sa_pending_invocations :: int
  sa_pending_session_closes :: int
  sa_thread :: actor_thread
  sa_futures :: "future_state list"
  sa_invocations :: "nat list"
  sa_closing :: "nat list"
  sa_stopping :: bool

definition new_actor :: "nat \<Rightarrow> actor res" where
  "new_actor capacity =
     (if capacity < 1 then Inl (ValueError ''mailbox_capacity must be at least one'')
      else Inr \<lparr>sa_capacity = capacity, sa_mailbox = [], sa_closed = False, sa_failure = None,
                sa_pending_invocations = 0, sa_pending_session_closes = 0, sa_thread = Waiting, sa_futures = [],
                sa_invocations = [], sa_closing = [], sa_stopping = False\<rparr>)"

section \<open>The callers\<close>

definition room :: "actor \<Rightarrow> bool" where
  "room a \<longleftrightarrow> length (sa_mailbox a) < sa_capacity a"

definition put_message :: "actor_message \<Rightarrow> actor \<Rightarrow> actor" where
  "put_message m a = a\<lparr>sa_mailbox := sa_mailbox a @ [m]\<rparr>"

definition refusal :: "actor \<Rightarrow> py_error option" where
  "refusal a =
     (if sa_closed a then Some (RuntimeError ''Stage actor is closed'')
      else map_option (\<lambda>r. RuntimeError (''Stage actor has failed: '' @ r)) (sa_failure a))"

definition submit :: "actor \<Rightarrow> nat res \<times> actor" where
  "submit a =
     (case refusal a of
        Some e \<Rightarrow> (Inl e, a)
      | None \<Rightarrow>
          if \<not> room a then (Inl (RuntimeError ''Stage actor mailbox is full''), a)
          else let i = length (sa_futures a)
               in (Inr i, (put_message (Invoke i) a)
                     \<lparr>sa_futures := sa_futures a @ [Pending], sa_invocations := sa_invocations a @ [i],
                      sa_pending_invocations := sa_pending_invocations a + 1\<rparr>))"

text \<open>\<open>Future.cancel\<close> by the owner of an invocation.\<close>

definition cancel_future :: "nat \<Rightarrow> actor \<Rightarrow> actor" where
  "cancel_future i a =
     (if i \<in> set (sa_invocations a) \<and> sa_futures a ! i = Pending
      then a\<lparr>sa_futures := (sa_futures a)[i := Cancelled]\<rparr> else a)"

datatype actor_state = FAILED | CLOSED | RUNNING

definition health :: "actor \<Rightarrow> actor_state \<times> int \<times> string option" where
  "health a =
     (if sa_failure a \<noteq> None then FAILED else if sa_closed a then CLOSED else RUNNING,
      sa_pending_invocations a, sa_failure a)"

text \<open>\<open>barrier\<close> returns when this holds and raises TimeoutError when it does not in time.\<close>

definition quiescent :: "actor \<Rightarrow> bool" where
  "quiescent a \<longleftrightarrow> sa_pending_invocations a = 0 \<and> sa_pending_session_closes a = 0"

definition close_session_begin :: "bool \<Rightarrow> actor \<Rightarrow> nat res \<times> actor" where
  "close_session_begin negative_timeout a =
     (if negative_timeout then (Inl (ValueError ''timeout must be non-negative''), a)
      else case refusal a of
        Some e \<Rightarrow> (Inl e, a)
      | None \<Rightarrow>
          let i = length (sa_futures a)
          in (Inr i, a\<lparr>sa_futures := sa_futures a @ [Pending], sa_closing := sa_closing a @ [i],
                       sa_pending_session_closes := sa_pending_session_closes a + 1\<rparr>))"

text \<open>The blocking put of the counted call \<open>i\<close>: it is done when there is room; with \<open>expired\<close> the
  caller's time runs out before.\<close>

definition close_session_put :: "bool \<Rightarrow> nat \<Rightarrow> actor \<Rightarrow> unit res \<times> actor" where
  "close_session_put expired i a =
     (if i \<notin> set (sa_closing a) then (Inr (), a)
      else let b = a\<lparr>sa_closing := remove1 i (sa_closing a)\<rparr>
           in if room a then (Inr (), put_message (CloseSession i) b)
              else if expired then
                (Inl (TimeoutError ''Timed out submitting stage session cleanup''),
                 b\<lparr>sa_pending_session_closes := sa_pending_session_closes b - 1\<rparr>)
              else (Inr (), a))"

definition close_begin :: "actor \<Rightarrow> actor" where
  "close_begin a = (if sa_closed a then a else a\<lparr>sa_closed := True, sa_stopping := True\<rparr>)"

definition close_put :: "actor \<Rightarrow> actor" where
  "close_put a = (if sa_stopping a \<and> room a then (put_message Stop a)\<lparr>sa_stopping := False\<rparr> else a)"

section \<open>The thread\<close>

definition set_future :: "nat \<Rightarrow> future_state \<Rightarrow> actor \<Rightarrow> actor" where
  "set_future i f a = a\<lparr>sa_futures := (sa_futures a)[i := f]\<rparr>"

definition finish_invocation :: "actor \<Rightarrow> actor" where
  "finish_invocation a = a\<lparr>sa_pending_invocations := sa_pending_invocations a - 1\<rparr>"

definition finish_session_close :: "actor \<Rightarrow> actor" where
  "finish_session_close a = a\<lparr>sa_pending_session_closes := sa_pending_session_closes a - 1\<rparr>"

definition take_message :: "actor \<Rightarrow> actor" where
  "take_message a =
     (case sa_mailbox a of
        [] \<Rightarrow> a
      | m # rest \<Rightarrow>
          let b = a\<lparr>sa_mailbox := rest\<rparr>
          in case m of
               Stop \<Rightarrow> b\<lparr>sa_thread := Ended\<rparr>
             | CloseSession i \<Rightarrow> b\<lparr>sa_thread := ClosingSession i\<rparr>
             | Invoke i \<Rightarrow>
                 if sa_futures a ! i = Cancelled then finish_invocation b
                 else (set_future i Running b)\<lparr>sa_thread := Handling i\<rparr>)"

datatype work_outcome = Returned pyval | Raised string

fun outcome_state :: "work_outcome \<Rightarrow> future_state" where
  "outcome_state (Returned v) = Resolved v"
| "outcome_state (Raised e) = Failed e"

text \<open>One turn of \<open>_run\<close>: it takes a message, or the handler or the closer ends with \<open>out\<close>.\<close>

definition thread_turn :: "work_outcome \<Rightarrow> actor \<Rightarrow> actor" where
  "thread_turn out a =
     (case sa_thread a of
        Waiting \<Rightarrow> take_message a
      | Handling i \<Rightarrow> finish_invocation ((set_future i (outcome_state out) a)\<lparr>sa_thread := Waiting\<rparr>)
      | ClosingSession i \<Rightarrow> finish_session_close ((set_future i (outcome_state out) a)\<lparr>sa_thread := Waiting\<rparr>)
      | Ended \<Rightarrow> a)"

text \<open>\<open>_fail\<close>: the loop ends with an exception between two messages, and the mailbox is emptied.\<close>

fun drain_message :: "string \<Rightarrow> actor \<Rightarrow> actor_message \<Rightarrow> actor" where
  "drain_message reason a Stop = a"
| "drain_message reason a (CloseSession i) =
     finish_session_close
       (if terminal (sa_futures a ! i) then a else set_future i (Failed (''Stage actor failed: '' @ reason)) a)"
| "drain_message reason a (Invoke i) =
     finish_invocation
       (if terminal (sa_futures a ! i) then a else set_future i (Failed (''Stage actor failed: '' @ reason)) a)"

definition fail_loop :: "string \<Rightarrow> actor \<Rightarrow> actor" where
  "fail_loop reason a =
     (if sa_thread a \<noteq> Waiting then a
      else (foldl (drain_message reason) (a\<lparr>sa_failure := Some reason\<rparr>) (sa_mailbox a))
             \<lparr>sa_mailbox := [], sa_thread := Ended\<rparr>)"

datatype actor_event =
    Submit
  | CancelFuture nat
  | CloseSessionBegin bool
  | CloseSessionPut bool nat
  | CloseBegin
  | ClosePut
  | ThreadTurn work_outcome
  | FailLoop string

fun actor_exec :: "actor \<Rightarrow> actor_event \<Rightarrow> actor" where
  "actor_exec a Submit = snd (submit a)"
| "actor_exec a (CancelFuture i) = cancel_future i a"
| "actor_exec a (CloseSessionBegin negative) = snd (close_session_begin negative a)"
| "actor_exec a (CloseSessionPut expired i) = snd (close_session_put expired i a)"
| "actor_exec a CloseBegin = close_begin a"
| "actor_exec a ClosePut = close_put a"
| "actor_exec a (ThreadTurn out) = thread_turn out a"
| "actor_exec a (FailLoop reason) = fail_loop reason a"

section \<open>The adapter of a parallel worker\<close>

text \<open>\<open>wk_failed\<close> and \<open>wk_closed\<close> are the worker's attributes, absent ones read as False and None.\<close>

record worker_flags =
  wk_failed :: bool
  wk_failure_reason :: "string option"
  wk_closed :: bool

definition worker_health :: "worker_flags \<Rightarrow> actor \<Rightarrow> actor_state \<times> int \<times> string option" where
  "worker_health w a =
     (case health a of
        (st, pending, reason) \<Rightarrow>
          if wk_failed w then (FAILED, pending, wk_failure_reason w)
          else if wk_closed w then (CLOSED, pending, reason)
          else (st, pending, reason))"

text \<open>A worker method returns a value or something to call for it; the builders and the method are
  parameters.\<close>

datatype 'v worker_result = Value 'v | Deferred "'v res"

definition invoke_worker ::
  "('i \<Rightarrow> 'a res) \<Rightarrow> ('a \<Rightarrow> 'v worker_result res) \<Rightarrow> ('v \<Rightarrow> 'i \<Rightarrow> 'o res) \<Rightarrow> 'i \<Rightarrow> 'o res" where
  "invoke_worker input_builder method_of output_builder invocation =
     bind_res (input_builder invocation) (\<lambda>args.
     bind_res (method_of args) (\<lambda>result.
     bind_res (case result of Value v \<Rightarrow> Inr v | Deferred r \<Rightarrow> r) (\<lambda>v.
       output_builder v invocation)))"

section \<open>What is accepted is counted until it is finished\<close>

fun invoke_ids :: "actor_message \<Rightarrow> nat list" where
  "invoke_ids (Invoke i) = [i]"
| "invoke_ids (CloseSession i) = []"
| "invoke_ids Stop = []"

fun close_ids :: "actor_message \<Rightarrow> nat list" where
  "close_ids (Invoke i) = []"
| "close_ids (CloseSession i) = [i]"
| "close_ids Stop = []"

fun handled_ids :: "actor_thread \<Rightarrow> nat list" where
  "handled_ids (Handling i) = [i]"
| "handled_ids _ = []"

fun closed_ids :: "actor_thread \<Rightarrow> nat list" where
  "closed_ids (ClosingSession i) = [i]"
| "closed_ids _ = []"

definition open_invocations :: "actor \<Rightarrow> nat list" where
  "open_invocations a = concat (map invoke_ids (sa_mailbox a)) @ handled_ids (sa_thread a)"

definition open_closes :: "actor \<Rightarrow> nat list" where
  "open_closes a = concat (map close_ids (sa_mailbox a)) @ closed_ids (sa_thread a) @ sa_closing a"

text \<open>No invocation waits behind the message that stops the thread.\<close>

fun stop_last :: "actor_message list \<Rightarrow> bool" where
  "stop_last [] = True"
| "stop_last (Stop # ms) = (concat (map invoke_ids ms) = [])"
| "stop_last (m # ms) = stop_last ms"

definition counts_ok :: "actor \<Rightarrow> bool" where
  "counts_ok a \<longleftrightarrow> sa_pending_invocations a = int (length (open_invocations a)) \<and>
     sa_pending_session_closes a = int (length (open_closes a)) \<and>
     length (sa_mailbox a) \<le> sa_capacity a"

definition ids_ok :: "actor \<Rightarrow> bool" where
  "ids_ok a \<longleftrightarrow> (\<forall>i \<in> set (open_invocations a) \<union> set (open_closes a) \<union> set (sa_invocations a). i < length (sa_futures a)) \<and>
     (\<forall>i \<in> set (sa_invocations a). terminal (sa_futures a ! i) \<or> i \<in> set (open_invocations a))"

definition stop_ok :: "actor \<Rightarrow> bool" where
  "stop_ok a \<longleftrightarrow> stop_last (sa_mailbox a) \<and>
     (sa_stopping a \<or> Stop \<in> set (sa_mailbox a) \<longrightarrow> sa_closed a) \<and>
     (sa_thread a = Ended \<longrightarrow> refusal a \<noteq> None \<and> concat (map invoke_ids (sa_mailbox a)) = [])"

definition actor_ok :: "actor \<Rightarrow> bool" where
  "actor_ok a \<longleftrightarrow> counts_ok a \<and> ids_ok a \<and> stop_ok a"

lemma stop_last_append:
  "stop_last (ms @ [m]) \<longleftrightarrow> stop_last ms \<and> (Stop \<in> set ms \<longrightarrow> invoke_ids m = [])"
proof (induction ms rule: stop_last.induct)
  case 1
  show ?case by (cases m) simp_all
qed auto

lemma no_invokes_last [simp]: "\<forall>m \<in> set ms. invoke_ids m = [] \<Longrightarrow> stop_last ms"
  by (induction ms rule: stop_last.induct) auto

lemma stop_last_tail: "stop_last (m # ms) \<Longrightarrow> m \<noteq> Stop \<Longrightarrow> stop_last ms"
  by (cases m) auto

lemma settled_simps [simp]:
  "terminal Cancelled" "terminal (Resolved v)" "terminal (Failed e)" "\<not> terminal Pending" "\<not> terminal Running"
  "terminal (outcome_state out)"
  by (auto simp: terminal_def) (cases out; simp)+

lemma new_actor_ok: "new_actor n = Inr a \<Longrightarrow> actor_ok a"
  by (auto simp: new_actor_def actor_ok_def counts_ok_def ids_ok_def stop_ok_def open_invocations_def open_closes_def
      refusal_def split: if_splits)

lemma submit_actor: "actor_ok a \<Longrightarrow> actor_ok (snd (submit a))"
proof -
  assume a: "actor_ok a"
  show ?thesis
  proof (cases "refusal a = None \<and> room a")
    case True
    then have "\<not> sa_closed a" by (auto simp: refusal_def split: if_splits)
    with a True show ?thesis
      by (auto simp: actor_ok_def counts_ok_def ids_ok_def stop_ok_def submit_def put_message_def Let_def room_def
          open_invocations_def open_closes_def nth_append less_Suc_eq stop_last_append refusal_def)
  next
    case False
    then have "snd (submit a) = a" by (auto simp: submit_def split: option.splits)
    with a show ?thesis by simp
  qed
qed

lemma cancel_actor: "actor_ok a \<Longrightarrow> actor_ok (cancel_future i a)"
  by (auto simp: actor_ok_def counts_ok_def ids_ok_def stop_ok_def cancel_future_def open_invocations_def
      open_closes_def nth_list_update refusal_def)

lemma close_session_begin_actor: "actor_ok a \<Longrightarrow> actor_ok (snd (close_session_begin negative a))"
proof -
  assume a: "actor_ok a"
  show ?thesis
  proof (cases "\<not> negative \<and> refusal a = None")
    case True
    with a show ?thesis
      by (auto simp: actor_ok_def counts_ok_def ids_ok_def stop_ok_def close_session_begin_def Let_def
          open_invocations_def open_closes_def nth_append less_Suc_eq refusal_def)
  next
    case False
    then have "snd (close_session_begin negative a) = a" by (auto simp: close_session_begin_def split: option.splits)
    with a show ?thesis by simp
  qed
qed

lemma length_remove1_int: "x \<in> set xs \<Longrightarrow> int (length (remove1 x xs)) = int (length xs) - 1"
  using length_pos_if_in_set [of x xs] by (simp add: length_remove1 of_nat_diff Suc_leI)

lemma close_session_put_actor: "actor_ok a \<Longrightarrow> actor_ok (snd (close_session_put expired i a))"
  by (auto simp: actor_ok_def counts_ok_def ids_ok_def stop_ok_def close_session_put_def Let_def put_message_def room_def
      open_invocations_def open_closes_def stop_last_append length_remove1_int refusal_def
      dest: notin_set_remove1 set_mp [OF set_remove1_subset])

lemma close_actor: "actor_ok a \<Longrightarrow> actor_ok (close_begin a)" "actor_ok a \<Longrightarrow> actor_ok (close_put a)"
  by (auto simp: actor_ok_def counts_ok_def ids_ok_def stop_ok_def close_begin_def close_put_def put_message_def room_def
      open_invocations_def open_closes_def stop_last_append refusal_def)

lemma take_actor: "actor_ok a \<Longrightarrow> sa_thread a = Waiting \<Longrightarrow> actor_ok (take_message a)"
proof (cases "sa_mailbox a")
  case (Cons m rest)
  assume a: "actor_ok a" and w: "sa_thread a = Waiting"
  show ?thesis
  proof (cases m)
    case (Invoke i)
    with a w Cons show ?thesis
      by (auto simp: actor_ok_def counts_ok_def ids_ok_def stop_ok_def take_message_def Let_def finish_invocation_def
          set_future_def open_invocations_def open_closes_def nth_list_update refusal_def)
  next
    case (CloseSession i)
    with a w Cons show ?thesis
      by (auto simp: actor_ok_def counts_ok_def ids_ok_def stop_ok_def take_message_def Let_def
          open_invocations_def open_closes_def refusal_def)
  next
    case Stop
    with a w Cons show ?thesis
      by (auto simp: actor_ok_def counts_ok_def ids_ok_def stop_ok_def take_message_def Let_def
          open_invocations_def open_closes_def refusal_def)
  qed
qed (simp add: take_message_def)

lemma turn_actor: "actor_ok a \<Longrightarrow> actor_ok (thread_turn out a)"
proof (cases "sa_thread a")
  case Waiting
  then show "actor_ok a \<Longrightarrow> actor_ok (thread_turn out a)" by (simp add: thread_turn_def take_actor)
next
  case (Handling i)
  then show "actor_ok a \<Longrightarrow> actor_ok (thread_turn out a)"
    by (auto simp: thread_turn_def actor_ok_def counts_ok_def ids_ok_def stop_ok_def finish_invocation_def
        set_future_def open_invocations_def open_closes_def nth_list_update refusal_def)
next
  case (ClosingSession i)
  then show "actor_ok a \<Longrightarrow> actor_ok (thread_turn out a)"
    by (auto simp: thread_turn_def actor_ok_def counts_ok_def ids_ok_def stop_ok_def finish_session_close_def
        set_future_def open_invocations_def open_closes_def nth_list_update refusal_def)
qed (simp add: thread_turn_def)

text \<open>Emptying the mailbox settles every message in it.\<close>

lemma drain_fields:
  "sa_invocations (foldl (drain_message r) a ms) = sa_invocations a \<and>
   sa_closing (foldl (drain_message r) a ms) = sa_closing a \<and>
   sa_thread (foldl (drain_message r) a ms) = sa_thread a \<and>
   sa_failure (foldl (drain_message r) a ms) = sa_failure a \<and>
   sa_closed (foldl (drain_message r) a ms) = sa_closed a \<and>
   sa_stopping (foldl (drain_message r) a ms) = sa_stopping a \<and>
   sa_capacity (foldl (drain_message r) a ms) = sa_capacity a \<and>
   length (sa_futures (foldl (drain_message r) a ms)) = length (sa_futures a) \<and>
   sa_pending_invocations (foldl (drain_message r) a ms) =
     sa_pending_invocations a - int (length (concat (map invoke_ids ms))) \<and>
   sa_pending_session_closes (foldl (drain_message r) a ms) =
     sa_pending_session_closes a - int (length (concat (map close_ids ms)))"
proof (induction ms arbitrary: a)
  case (Cons m ms)
  then show ?case by (cases m) (auto simp: finish_session_close_def finish_invocation_def set_future_def)
qed simp

lemma terminal_other: "terminal (xs ! i) \<Longrightarrow> \<not> terminal (xs ! j) \<Longrightarrow> terminal (xs[j := f] ! i)"
  by (metis nth_list_update_neq)

lemma drain_keeps: "terminal (sa_futures a ! i) \<Longrightarrow> terminal (sa_futures (foldl (drain_message r) a ms) ! i)"
proof (induction ms arbitrary: a)
  case (Cons m ms)
  have "terminal (sa_futures (drain_message r a m) ! i)"
    using Cons.prems
    by (cases m) (auto simp: finish_session_close_def finish_invocation_def set_future_def terminal_other)
  with Cons.IH show ?case by simp
qed simp

lemma drain_settles:
  "i \<in> set (concat (map invoke_ids ms)) \<Longrightarrow> i < length (sa_futures a) \<Longrightarrow>
     terminal (sa_futures (foldl (drain_message r) a ms) ! i)"
proof (induction ms arbitrary: a)
  case (Cons m ms)
  have l: "i < length (sa_futures (drain_message r a m))"
    using Cons.prems(2) drain_fields [of r a "[m]"] by simp
  show ?case
  proof (cases "i \<in> set (invoke_ids m)")
    case True
    then have "terminal (sa_futures (drain_message r a m) ! i)"
      using Cons.prems(2) by (cases m) (auto simp: finish_invocation_def set_future_def)
    then show ?thesis using drain_keeps by simp
  next
    case False
    with Cons l show ?thesis by simp
  qed
qed simp

lemma fail_actor: "actor_ok a \<Longrightarrow> actor_ok (fail_loop reason a)"
proof (cases "sa_thread a = Waiting")
  case True
  assume a: "actor_ok a"
  let ?b = "a\<lparr>sa_failure := Some reason\<rparr>"
  note F = drain_fields [of reason ?b "sa_mailbox a"]
  have t: "terminal (sa_futures (foldl (drain_message reason) ?b (sa_mailbox a)) ! i)" if "i \<in> set (sa_invocations a)" for i
  proof -
    have "i < length (sa_futures ?b)" "terminal (sa_futures ?b ! i) \<or> i \<in> set (concat (map invoke_ids (sa_mailbox a)))"
      using a that True by (auto simp: actor_ok_def ids_ok_def open_invocations_def)
    then show ?thesis using drain_keeps drain_settles by blast
  qed
  have c: "counts_ok (fail_loop reason a)"
    using a True F by (simp add: actor_ok_def counts_ok_def fail_loop_def open_invocations_def open_closes_def)
  moreover have "ids_ok (fail_loop reason a)"
    using a True F t by (simp add: actor_ok_def ids_ok_def fail_loop_def open_invocations_def open_closes_def)
  moreover have "stop_ok (fail_loop reason a)"
    using a True F by (simp add: actor_ok_def stop_ok_def fail_loop_def refusal_def)
  ultimately show ?thesis by (simp add: actor_ok_def)
qed (simp add: fail_loop_def)

lemma actor_ok_exec: "actor_ok a \<Longrightarrow> actor_ok (actor_exec a ev)"
  by (cases ev) (simp_all add: submit_actor cancel_actor close_session_begin_actor close_session_put_actor close_actor
      turn_actor fail_actor)

interpretation actor: invariant_machine actor_exec actor_ok
  by unfold_locales (rule actor_ok_exec)

section \<open>The thread ends\<close>

definition stopping :: "actor \<Rightarrow> bool" where
  "stopping a \<longleftrightarrow> Stop \<in> set (sa_mailbox a) \<or> sa_thread a = Ended"

text \<open>The turns that the thread still takes once the message that stops it is in the mailbox.\<close>

definition turns_left :: "actor \<Rightarrow> nat" where
  "turns_left a =
     (case sa_thread a of
        Ended \<Rightarrow> 0
      | Waiting \<Rightarrow> 2 * length (takeWhile (\<lambda>m. m \<noteq> Stop) (sa_mailbox a)) + 1
      | _ \<Rightarrow> 2 * length (takeWhile (\<lambda>m. m \<noteq> Stop) (sa_mailbox a)) + 2)"

fun is_turn :: "actor_event \<Rightarrow> bool" where
  "is_turn (ThreadTurn out) = True"
| "is_turn _ = False"

lemma turns_grow:
  assumes s: "stopping a" and b: "sa_thread b = sa_thread a" and m: "sa_mailbox b = sa_mailbox a @ ms"
  shows "stopping b \<and> turns_left b = turns_left a"
proof (cases "sa_thread a = Ended")
  case True
  with b show ?thesis by (simp add: stopping_def turns_left_def)
next
  case False
  with s have "Stop \<in> set (sa_mailbox a)" by (simp add: stopping_def)
  moreover from this have "takeWhile (\<lambda>m. m \<noteq> Stop) (sa_mailbox b) = takeWhile (\<lambda>m. m \<noteq> Stop) (sa_mailbox a)"
    unfolding m by (rule takeWhile_append1) simp
  ultimately show ?thesis unfolding stopping_def turns_left_def b m by (cases "sa_thread a") simp_all
qed

lemma callers_grow:
  "\<exists>ms. sa_mailbox (snd (submit a)) = sa_mailbox a @ ms \<and> sa_thread (snd (submit a)) = sa_thread a"
  "\<exists>ms. sa_mailbox (snd (close_session_put expired i a)) = sa_mailbox a @ ms \<and>
     sa_thread (snd (close_session_put expired i a)) = sa_thread a"
  "\<exists>ms. sa_mailbox (close_put a) = sa_mailbox a @ ms \<and> sa_thread (close_put a) = sa_thread a"
  "\<exists>ms. sa_mailbox (cancel_future i a) = sa_mailbox a @ ms \<and> sa_thread (cancel_future i a) = sa_thread a"
  "\<exists>ms. sa_mailbox (snd (close_session_begin negative a)) = sa_mailbox a @ ms \<and>
     sa_thread (snd (close_session_begin negative a)) = sa_thread a"
  "\<exists>ms. sa_mailbox (close_begin a) = sa_mailbox a @ ms \<and> sa_thread (close_begin a) = sa_thread a"
  by (simp_all add: submit_def close_session_put_def close_put_def put_message_def cancel_future_def
      close_session_begin_def close_begin_def Let_def split: option.split)

lemma thread_turn_left: "stopping a \<Longrightarrow> stopping (thread_turn out a) \<and> turns_left (thread_turn out a) \<le> turns_left a - 1"
proof (cases "sa_thread a")
  case Waiting
  assume "stopping a"
  with Waiting obtain m rest where "sa_mailbox a = m # rest" by (cases "sa_mailbox a") (auto simp: stopping_def)
  with Waiting \<open>stopping a\<close> show ?thesis
    by (cases m) (auto simp: thread_turn_def take_message_def Let_def stopping_def turns_left_def finish_invocation_def
        set_future_def)
qed (auto simp: thread_turn_def stopping_def turns_left_def finish_invocation_def finish_session_close_def set_future_def)

lemma event_left:
  assumes s: "stopping a"
  shows "stopping (actor_exec a ev) \<and> turns_left (actor_exec a ev) \<le> (if is_turn ev then turns_left a - 1 else turns_left a)"
proof (cases ev)
  case Submit
  then show ?thesis using callers_grow(1) [of a] turns_grow [OF s, of "actor_exec a ev"] by (metis actor_exec.simps is_turn.simps order_refl)
next
  case (CloseSessionPut expired i)
  then show ?thesis using callers_grow(2) [of expired i a] turns_grow [OF s, of "actor_exec a ev"] by (metis actor_exec.simps is_turn.simps order_refl)
next
  case ClosePut
  then show ?thesis using callers_grow(3) [of a] turns_grow [OF s, of "actor_exec a ev"] by (metis actor_exec.simps is_turn.simps order_refl)
next
  case (FailLoop reason)
  have "stopping (fail_loop reason a) \<and> turns_left (fail_loop reason a) \<le> turns_left a"
    using s by (simp add: fail_loop_def stopping_def turns_left_def)
  with FailLoop show ?thesis by simp
next
  case (CancelFuture i)
  then show ?thesis using callers_grow(4) [of i a] turns_grow [OF s, of "actor_exec a ev"] by (metis actor_exec.simps is_turn.simps order_refl)
next
  case (CloseSessionBegin negative)
  then show ?thesis using callers_grow(5) [of negative a] turns_grow [OF s, of "actor_exec a ev"] by (metis actor_exec.simps is_turn.simps order_refl)
next
  case CloseBegin
  then show ?thesis using callers_grow(6) [of a] turns_grow [OF s, of "actor_exec a ev"] by (metis actor_exec.simps is_turn.simps order_refl)
qed (use thread_turn_left [OF s] in simp)

lemma run_left:
  "stopping a \<Longrightarrow> stopping (foldl actor_exec a evs) \<and>
     turns_left (foldl actor_exec a evs) \<le> turns_left a - length (filter is_turn evs)"
proof (induction evs arbitrary: a)
  case (Cons ev evs)
  note E = event_left [OF Cons.prems, of ev]
  then have "stopping (actor_exec a ev)" by blast
  from Cons.IH [OF this] E show ?case by (auto split: if_splits)
qed simp

lemma actor_reached: "new_actor capacity = Inr a0 \<Longrightarrow> actor_ok (foldl actor_exec a0 evs)"
  by (rule actor.inv_run [OF new_actor_ok])

text \<open>C37: A closed actor finishes what it has accepted. Once \<open>close\<close> has put its message, whatever
  callers do in between and whatever the handler returns or raises, the thread ends after at
  most two turns for each message in the mailbox and two more; then every accepted invocation
  has a result, an error or has been cancelled, none is counted as pending, and the actor no
  longer reports itself as running. The mailbox never holds more than its capacity.\<close>

theorem closed_actor_drains:
  assumes "new_actor capacity = Inr a0" and "a = foldl actor_exec a0 before"
    and "Stop \<in> set (sa_mailbox a)" and "b = foldl actor_exec a evs"
    and "2 * length (sa_mailbox a) + 2 \<le> length (filter is_turn evs)"
  shows "sa_thread b = Ended \<and> sa_pending_invocations b = 0 \<and>
    (\<forall>i \<in> set (sa_invocations b). terminal (sa_futures b ! i)) \<and>
    fst (health b) \<noteq> RUNNING \<and> length (sa_mailbox b) \<le> sa_capacity b"
proof -
  have s: "stopping a" using assms(3) by (simp add: stopping_def)
  have "turns_left a \<le> 2 * length (sa_mailbox a) + 2"
    using length_takeWhile_le [of "\<lambda>m. m \<noteq> Stop" "sa_mailbox a"]
    by (cases "sa_thread a") (simp_all add: turns_left_def)
  then have "turns_left b = 0" using run_left [OF s, of evs] assms(4,5) by simp
  then have e: "sa_thread b = Ended" by (cases "sa_thread b") (simp_all add: turns_left_def)
  have "actor_ok b"
    using actor_reached [OF assms(1), of "before @ evs"] by (simp add: assms(2,4))
  then show ?thesis
    using e by (auto simp: actor_ok_def counts_ok_def ids_ok_def stop_ok_def open_invocations_def health_def refusal_def
        split: if_splits)
qed

lemma closed_actor_drains_witness:
  "\<exists>a. new_actor 2 = Inr a \<and>
     sa_futures (foldl actor_exec a ([Submit, ThreadTurn (Returned VNone), Submit, CancelFuture 1, CloseBegin, ClosePut] @
       replicate 6 (ThreadTurn (Raised ''boom'')))) = [Failed ''boom'', Cancelled] \<and>
     sa_pending_invocations (foldl actor_exec a ([Submit, ThreadTurn (Returned VNone), Submit, CancelFuture 1, CloseBegin, ClosePut] @
       replicate 6 (ThreadTurn (Raised ''boom'')))) = 0"
proof -
  let ?a = "projr (new_actor 2)"
  let ?before = "[Submit, ThreadTurn (Returned VNone), Submit, CancelFuture 1, CloseBegin, ClosePut]"
  let ?evs = "replicate 6 (ThreadTurn (Raised ''boom''))"
  have "is_ok (new_actor 2)" by code_simp
  then have n: "new_actor 2 = Inr ?a" by (cases "new_actor 2") simp_all
  have m: "sa_mailbox (foldl actor_exec ?a ?before) = [Invoke 1, Stop]" by code_simp
  then have s: "Stop \<in> set (sa_mailbox (foldl actor_exec ?a ?before))" by simp
  have l: "2 * length (sa_mailbox (foldl actor_exec ?a ?before)) + 2 \<le> length (filter is_turn ?evs)"
    unfolding m by code_simp
  have "sa_pending_invocations (foldl actor_exec (foldl actor_exec ?a ?before) ?evs) = 0"
    using closed_actor_drains [OF n refl s refl l] by blast
  moreover have "sa_futures (foldl actor_exec ?a (?before @ ?evs)) = [Failed ''boom'', Cancelled]" by code_simp
  ultimately show ?thesis using n unfolding foldl_append by blast
qed

section \<open>A session closed too late\<close>

text \<open>A call of \<open>close_session\<close> that was counted before \<open>close\<close> and puts its message when the thread has
  ended is never served: no later event makes the actor quiescent, so \<open>barrier\<close> always times out.\<close>

lemma late_session_close:
  assumes "actor_ok a" and "sa_thread a = Ended" and "open_closes a \<noteq> []" and "sa_closing a = []"
    and "\<forall>negative. CloseSessionBegin negative \<notin> set evs"
  shows "\<not> quiescent (foldl actor_exec a evs)"
proof -
  have "actor_ok (foldl actor_exec a evs) \<and> sa_thread (foldl actor_exec a evs) = Ended \<and>
      open_closes (foldl actor_exec a evs) \<noteq> [] \<and> sa_closing (foldl actor_exec a evs) = []"
    using assms
  proof (induction evs arbitrary: a)
    case (Cons ev evs)
    have "sa_thread (actor_exec a ev) = Ended \<and> open_closes (actor_exec a ev) \<noteq> [] \<and> sa_closing (actor_exec a ev) = []"
    proof (cases ev)
      case (CloseSessionBegin negative)
      then show ?thesis using Cons.prems(5) by auto
    qed (use Cons.prems in \<open>auto simp: submit_def cancel_future_def close_session_put_def close_begin_def close_put_def
        put_message_def thread_turn_def fail_loop_def open_closes_def Let_def split: option.splits\<close>)
    then show ?case using Cons.IH [OF actor_ok_exec [OF Cons.prems(1)]] Cons.prems(5) by simp
  qed simp
  then show ?thesis by (auto simp: actor_ok_def counts_ok_def quiescent_def)
qed

lemma late_session_close_case:
  "case new_actor 1 of
     Inl e \<Rightarrow> False
   | Inr a \<Rightarrow>
       let b = foldl actor_exec a [CloseSessionBegin False, CloseBegin, ClosePut, ThreadTurn (Returned VNone), CloseSessionPut False 0]
       in sa_thread b = Ended \<and> sa_closing b = [] \<and> open_closes b = [0]"
  by code_simp

end
