(* ===== verification/Session_Memory.thy ===== *)
theory Session_Memory
  imports Prelude
begin

text \<open>
  How many sessions a device can retain, and the slots they occupy
  (\<open>telefuser/cache/session_memory.py\<close>). Byte counts are unbounded integers, as in the code;
  what a worker measures on its device is an argument.
\<close>

section \<open>Policies, budgets and snapshots\<close>

record capacity_policy =
  cp_safety_margin_percent :: int
  cp_minimum_safety_margin_bytes :: int
  cp_max_capacity :: int

definition new_policy :: "int \<Rightarrow> int \<Rightarrow> int \<Rightarrow> capacity_policy res" where
  "new_policy percent minimum max_capacity =
     (if \<not> (0 \<le> percent \<and> percent < 100) then Inl (ValueError ''safety_margin_percent must be in [0, 100)'')
      else if minimum < 0 then Inl (ValueError ''minimum_safety_margin_bytes must be non-negative'')
      else if max_capacity < 1 then Inl (ValueError ''max_capacity must be positive'')
      else Inr \<lparr>cp_safety_margin_percent = percent, cp_minimum_safety_margin_bytes = minimum,
                cp_max_capacity = max_capacity\<rparr>)"

record memory_budget =
  mb_persistent :: int
  mb_replaced :: int

definition new_budget :: "int \<Rightarrow> int \<Rightarrow> memory_budget res" where
  "new_budget persistent replaced =
     (if persistent < 0 then Inl (ValueError ''persistent_bytes_per_session must be non-negative'')
      else if replaced < 0 then Inl (ValueError ''replaced_warmup_transient_bytes must be non-negative'')
      else Inr \<lparr>mb_persistent = persistent, mb_replaced = replaced\<rparr>)"

text \<open>The entries of a snapshot that are read; a missing role is the empty string.\<close>

record memory_snapshot =
  ms_device_index :: int
  ms_device_name :: string
  ms_role :: string
  ms_total :: int
  ms_free :: int
  ms_allocated :: int
  ms_reserved :: int
  ms_peak_allocated :: int

type_synonym budgets = "(string, memory_budget) odict"

definition raw_transient :: "memory_snapshot \<Rightarrow> int" where
  "raw_transient s = max (ms_peak_allocated s - ms_allocated s) 0"

definition transient_bytes :: "memory_snapshot \<Rightarrow> memory_budget option \<Rightarrow> int \<times> int" where
  "transient_bytes s b =
     (let raw = raw_transient s; replaced = (case b of None \<Rightarrow> 0 | Some m \<Rightarrow> mb_replaced m)
      in (raw, max (raw - replaced) 0))"

section \<open>The capacity of one device\<close>

definition group_by_device :: "memory_snapshot list \<Rightarrow> (int, memory_snapshot list) odict" where
  "group_by_device snaps =
     foldl (\<lambda>d s. od_put (ms_device_index s)
         ((case od_get d (ms_device_index s) of None \<Rightarrow> [] | Some ss \<Rightarrow> ss) @ [s]) d) [] snaps"

definition cached_bytes :: "memory_snapshot \<Rightarrow> int" where
  "cached_bytes s = max (ms_reserved s - ms_allocated s) 0"

definition persistent_of :: "budgets \<Rightarrow> memory_snapshot \<Rightarrow> int" where
  "persistent_of budgets s = (case od_get budgets (ms_role s) of None \<Rightarrow> 0 | Some b \<Rightarrow> mb_persistent b)"

definition snapshot_growth :: "budgets \<Rightarrow> int \<Rightarrow> memory_snapshot \<Rightarrow> int" where
  "snapshot_growth budgets candidate s =
     max (candidate * persistent_of budgets s + snd (transient_bytes s (od_get budgets (ms_role s))) - cached_bytes s) 0"

definition physical_growth :: "budgets \<Rightarrow> int \<Rightarrow> memory_snapshot list \<Rightarrow> int \<Rightarrow> int" where
  "physical_growth budgets untracked snaps candidate =
     foldl (\<lambda>g s. g + snapshot_growth budgets candidate s) (candidate * untracked) snaps"

text \<open>\<open>min\<close> over the snapshots of a device, which are never none.\<close>

fun least :: "int list \<Rightarrow> int" where
  "least [] = 0"
| "least [x] = x"
| "least (x # y # xs) = min x (least (y # xs))"

definition safety_margin :: "capacity_policy \<Rightarrow> int \<Rightarrow> int" where
  "safety_margin p total_bytes = max (total_bytes * cp_safety_margin_percent p div 100) (cp_minimum_safety_margin_bytes p)"

text \<open>The loop over the candidates keeps the last one that fits and stops at the first that does not.\<close>

fun last_fitting :: "(int \<Rightarrow> bool) \<Rightarrow> int list \<Rightarrow> int \<Rightarrow> int" where
  "last_fitting fits [] computed = computed"
| "last_fitting fits (c # cs) computed = (if fits c then last_fitting fits cs c else computed)"

definition fits_on :: "capacity_policy \<Rightarrow> budgets \<Rightarrow> int \<Rightarrow> memory_snapshot list \<Rightarrow> int \<Rightarrow> bool" where
  "fits_on p budgets untracked snaps candidate \<longleftrightarrow>
     physical_growth budgets untracked snaps candidate + safety_margin p (least (map ms_total snaps))
       \<le> least (map ms_free snaps)"

record device_capacity =
  dc_device_index :: int
  dc_device_name :: string
  dc_total_bytes :: int
  dc_free_bytes :: int
  dc_reusable_reserved_bytes :: int
  dc_raw_transient_headroom_bytes :: int
  dc_transient_headroom_bytes :: int
  dc_safety_margin_bytes :: int
  dc_persistent_bytes_per_session :: int
  dc_persistent_bytes_by_role :: "(string, int) odict"
  dc_untracked_bytes_per_session :: int
  dc_computed_capacity :: int

definition role_counts :: "budgets \<Rightarrow> memory_snapshot list \<Rightarrow> (string, int) odict" where
  "role_counts budgets snaps =
     foldl (\<lambda>d s. if od_get budgets (ms_role s) = None then d
        else od_put (ms_role s) ((case od_get d (ms_role s) of None \<Rightarrow> 0 | Some n \<Rightarrow> n) + 1) d) [] snaps"

definition role_bytes :: "budgets \<Rightarrow> memory_snapshot list \<Rightarrow> (string, int) odict" where
  "role_bytes budgets snaps =
     map (\<lambda>(role, n). (role, (case od_get budgets role of None \<Rightarrow> 0 | Some b \<Rightarrow> mb_persistent b) * n))
       (role_counts budgets snaps)"

definition device_plan :: "capacity_policy \<Rightarrow> budgets \<Rightarrow> int \<Rightarrow> int \<times> memory_snapshot list \<Rightarrow> device_capacity" where
  "device_plan p budgets untracked ds =
     (let snaps = snd ds; total_bytes = least (map ms_total snaps); free_bytes = least (map ms_free snaps);
          bytes = role_bytes budgets snaps
      in \<lparr>dc_device_index = fst ds,
          dc_device_name = ms_device_name (hd snaps),
          dc_total_bytes = total_bytes,
          dc_free_bytes = free_bytes,
          dc_reusable_reserved_bytes = sum_list (map cached_bytes snaps),
          dc_raw_transient_headroom_bytes = sum_list (map raw_transient snaps),
          dc_transient_headroom_bytes =
            sum_list (map (\<lambda>s. snd (transient_bytes s (od_get budgets (ms_role s)))) snaps),
          dc_safety_margin_bytes = safety_margin p total_bytes,
          dc_persistent_bytes_per_session = sum_list (od_vals bytes),
          dc_persistent_bytes_by_role = bytes,
          dc_untracked_bytes_per_session = untracked,
          dc_computed_capacity = last_fitting (fits_on p budgets untracked snaps) [1..cp_max_capacity p] 0\<rparr>)"

section \<open>The plan\<close>

record capacity_plan =
  pn_computed_capacity :: int
  pn_effective_capacity :: int
  pn_configured_limit :: "int option"
  pn_limiting_device :: "int option"
  pn_devices :: "device_capacity list"

definition insufficient :: "device_capacity \<Rightarrow> py_error" where
  "insufficient d =
     RuntimeError (''Insufficient GPU memory for one retained session: device='' @ str_of_int (dc_device_index d) @
       '' free='' @ str_of_int (dc_free_bytes d) @ '' reusable_reserved='' @ str_of_int (dc_reusable_reserved_bytes d) @
       '' transient_headroom='' @ str_of_int (dc_transient_headroom_bytes d) @ '' safety_margin='' @
       str_of_int (dc_safety_margin_bytes d) @ '' bytes_per_session='' @
       str_of_int (dc_persistent_bytes_per_session d + dc_untracked_bytes_per_session d))"

definition calculate_session_capacity ::
  "capacity_policy \<Rightarrow> budgets \<Rightarrow> int option \<Rightarrow> int \<Rightarrow> memory_snapshot list \<Rightarrow> capacity_plan res" where
  "calculate_session_capacity p budgets limit untracked snaps =
     (if (case limit of None \<Rightarrow> False | Some n \<Rightarrow> n < 1) then
        Inl (ValueError ''configured_limit must be positive when provided'')
      else if untracked < 0 then Inl (ValueError ''untracked_bytes_per_session must be non-negative'')
      else if list_ex (\<lambda>role. role = []) (od_keys budgets) then Inl (ValueError ''role budget names must not be empty'')
      else
        let plans = map (device_plan p budgets untracked) (sort_key fst (group_by_device snaps))
        in case py_min dc_computed_capacity plans of
             None \<Rightarrow>
               let fallback = min (case limit of None \<Rightarrow> 1 | Some n \<Rightarrow> n) (cp_max_capacity p)
               in Inr \<lparr>pn_computed_capacity = fallback, pn_effective_capacity = fallback, pn_configured_limit = limit,
                       pn_limiting_device = None, pn_devices = []\<rparr>
           | Some d \<Rightarrow>
               if dc_computed_capacity d < 1 then Inl (insufficient d)
               else Inr \<lparr>pn_computed_capacity = dc_computed_capacity d,
                         pn_effective_capacity =
                           (case limit of None \<Rightarrow> dc_computed_capacity d | Some n \<Rightarrow> min (dc_computed_capacity d) n),
                         pn_configured_limit = limit, pn_limiting_device = Some (dc_device_index d),
                         pn_devices = plans\<rparr>)"

section \<open>Slots\<close>

record slot_pool =
  sp_capacity :: int
  sp_name :: string
  sp_free :: "int list"

definition new_slot_pool :: "int \<Rightarrow> string \<Rightarrow> slot_pool res" where
  "new_slot_pool capacity name =
     (if capacity < 1 then Inl (ValueError (''slot pool capacity must be positive, got '' @ str_of_int capacity))
      else if name = [] then Inl (ValueError ''slot pool name must not be empty'')
      else Inr \<lparr>sp_capacity = capacity, sp_name = name, sp_free = rev [0..capacity - 1]\<rparr>)"

definition try_acquire :: "slot_pool \<Rightarrow> int option \<times> slot_pool" where
  "try_acquire p =
     (if sp_free p = [] then (None, p) else (Some (last (sp_free p)), p\<lparr>sp_free := butlast (sp_free p)\<rparr>))"

definition acquire :: "slot_pool \<Rightarrow> int res \<times> slot_pool" where
  "acquire p =
     (case try_acquire p of
        (None, q) \<Rightarrow> (Inl (RuntimeError (sp_name p @ '' pool is full (capacity='' @ str_of_int (sp_capacity p) @ '')'')), q)
      | (Some i, q) \<Rightarrow> (Inr i, q))"

definition release :: "int \<Rightarrow> slot_pool \<Rightarrow> unit res \<times> slot_pool" where
  "release slot p =
     (if \<not> (0 \<le> slot \<and> slot < sp_capacity p) then
        (Inl (ValueError (sp_name p @ '' slot '' @ str_of_int slot @ '' is outside capacity '' @ str_of_int (sp_capacity p))), p)
      else if slot \<in> set (sp_free p) then
        (Inl (RuntimeError (sp_name p @ '' slot '' @ str_of_int slot @ '' was released twice'')), p)
      else (Inr (), p\<lparr>sp_free := sp_free p @ [slot]\<rparr>))"

text \<open>A pool with the slots that have been given out and not released.\<close>

datatype slot_event = Acquire | Release int

fun slot_exec :: "slot_pool \<times> int list \<Rightarrow> slot_event \<Rightarrow> slot_pool \<times> int list" where
  "slot_exec (p, held) Acquire =
     (case acquire p of (Inl e, q) \<Rightarrow> (q, held) | (Inr i, q) \<Rightarrow> (q, held @ [i]))"
| "slot_exec (p, held) (Release slot) =
     (case release slot p of (Inl e, q) \<Rightarrow> (q, held) | (Inr u, q) \<Rightarrow> (q, remove1 slot held))"

section \<open>The plan is the largest that fits\<close>

lemma last_fitting_upto:
  "let r = last_fitting fits [a..m] (a - 1)
   in a - 1 \<le> r \<and> r \<le> max m (a - 1) \<and> (\<forall>c. a \<le> c \<and> c \<le> r \<longrightarrow> fits c) \<and> \<not> (r < m \<and> fits (r + 1))"
proof (induction a m rule: upto.induct)
  case (1 a m)
  show ?case
  proof (cases "a \<le> m")
    case True
    then have u: "[a..m] = a # [a + 1..m]" by (rule upto_rec1)
    show ?thesis
    proof (cases "fits a")
      case f: True
      define r where "r = last_fitting fits [a + 1..m] a"
      have r: "a \<le> r" "r \<le> max m a" "\<forall>c. a + 1 \<le> c \<and> c \<le> r \<longrightarrow> fits c" "\<not> (r < m \<and> fits (r + 1))"
        using 1 [OF True] by (simp_all add: Let_def r_def)
      have "fits c" if "a \<le> c" "c \<le> r" for c using r(3) f that by (cases "c = a") auto
      with r True f show ?thesis by (auto simp: u Let_def r_def [symmetric])
    qed (use True in \<open>auto simp: u Let_def\<close>)
  qed (auto simp: Let_def)
qed

lemma snapshot_growth_mono:
  "0 \<le> persistent_of budgets s \<Longrightarrow> c \<le> c' \<Longrightarrow> snapshot_growth budgets c s \<le> snapshot_growth budgets c' s"
proof -
  assume "0 \<le> persistent_of budgets s" "c \<le> c'"
  then have "c * persistent_of budgets s \<le> c' * persistent_of budgets s" by (rule mult_right_mono [rotated])
  then show ?thesis by (simp add: snapshot_growth_def)
qed

lemma growth_fold_mono:
  "(\<And>s. s \<in> set ss \<Longrightarrow> f s \<le> g s) \<Longrightarrow> (x :: int) \<le> y \<Longrightarrow> foldl (\<lambda>t s. t + f s) x ss \<le> foldl (\<lambda>t s. t + g s) y ss"
proof (induction ss arbitrary: x y)
  case (Cons s ss)
  have "x + f s \<le> y + g s" using Cons.prems by (intro add_mono) auto
  with Cons show ?case by simp
qed simp

lemma fits_mono:
  "\<forall>b \<in> set (od_vals budgets). 0 \<le> mb_persistent b \<Longrightarrow> 0 \<le> untracked \<Longrightarrow> fits_on p budgets untracked snaps c' \<Longrightarrow>
     c \<le> c' \<Longrightarrow> fits_on p budgets untracked snaps c"
proof -
  assume b: "\<forall>b \<in> set (od_vals budgets). 0 \<le> mb_persistent b" and u: "0 \<le> untracked"
    and f: "fits_on p budgets untracked snaps c'" and c: "c \<le> c'"
  have p: "0 \<le> persistent_of budgets s" for s
  proof (cases "od_get budgets (ms_role s)")
    case (Some x)
    then have "x \<in> set (od_vals budgets)" by (rule od_vals_get)
    with b Some show ?thesis by (simp only: persistent_of_def option.case)
  qed (simp add: persistent_of_def)
  have "physical_growth budgets untracked snaps c \<le> physical_growth budgets untracked snaps c'"
    unfolding physical_growth_def
    by (rule growth_fold_mono) (simp_all add: snapshot_growth_mono [OF p c] mult_right_mono c u)
  with f show ?thesis by (simp add: fits_on_def)
qed

lemma group_nonempty: "snaps \<noteq> [] \<Longrightarrow> group_by_device snaps \<noteq> []"
proof -
  assume "snaps \<noteq> []"
  then obtain s ss where "snaps = ss @ [s]" by (metis rev_exhaust)
  moreover have "od_put k v d \<noteq> []" for k :: int and v :: "memory_snapshot list" and d by (cases d) auto
  ultimately show ?thesis by (simp add: group_by_device_def)
qed

definition within_limit :: "int option \<Rightarrow> int \<Rightarrow> bool" where
  "within_limit limit n \<longleftrightarrow> (case limit of None \<Rightarrow> True | Some l \<Rightarrow> n \<le> l)"

lemma sort_key_fst: "map fst (sort_key fst xs) = sort (map fst xs)" for xs :: "('a :: linorder \<times> 'b) list"
  by (rule sym, rule properties_for_sort) (simp_all add: sorted_sort_key)

text \<open>The capacity of a device is the largest number of sessions, within the policy, that fits on it.\<close>

lemma device_plan_largest:
  assumes p: "cp_max_capacity p = max_capacity" "1 \<le> max_capacity"
    and budgets: "\<forall>b \<in> set (od_vals budgets). 0 \<le> mb_persistent b" and u: "0 \<le> untracked" and m: "1 \<le> m"
  shows "m \<le> dc_computed_capacity (device_plan p budgets untracked g) \<longleftrightarrow> m \<le> max_capacity \<and> fits_on p budgets untracked (snd g) m"
proof -
  let ?fits = "fits_on p budgets untracked (snd g)"
  define n where "n = last_fitting ?fits [1..max_capacity] 0"
  have L: "0 \<le> n" "n \<le> max max_capacity 0" "\<forall>c. 1 \<le> c \<and> c \<le> n \<longrightarrow> ?fits c" "\<not> (n < max_capacity \<and> ?fits (n + 1))"
    using last_fitting_upto [of ?fits 1 max_capacity] by (simp_all add: n_def Let_def)
  have "?fits (n + 1)" if "?fits m" "n < m" by (rule fits_mono [OF budgets u that(1)]) (use that in simp)
  then have "m \<le> n \<longleftrightarrow> m \<le> max_capacity \<and> ?fits m" using L m p(2) by fastforce
  then show ?thesis by (simp add: device_plan_def n_def Let_def p)
qed

definition valid_request :: "budgets \<Rightarrow> int option \<Rightarrow> int \<Rightarrow> bool" where
  "valid_request budgets limit untracked \<longleftrightarrow>
     (case limit of None \<Rightarrow> True | Some n \<Rightarrow> 1 \<le> n) \<and> 0 \<le> untracked \<and> [] \<notin> set (od_keys budgets) \<and>
     (\<forall>b \<in> set (od_vals budgets). 0 \<le> mb_persistent b)"

text \<open>C38: The plan is the largest safe one, or it is refused. Let the policy and the budgets be ones that
  their constructors accept, the limit positive if there is one, the untracked bytes not negative,
  the role names not empty, and let there be a snapshot. If one session does not fit on some device,
  with the safety margin, the plan is refused with the error that names such a device. Otherwise it is made,
  and: the devices of the plan are those of the snapshots; for each the capacity is the largest
  number of sessions, within the policy's maximum, whose growth fits with the margin into the free
  memory of that device; and the planned number is the largest within the maximum and the
  configured limit that fits on every device.\<close>

theorem planned_capacity_is_largest:
  assumes "new_policy percent minimum max_capacity = Inr p"
    and "valid_request budgets limit untracked" and "snaps \<noteq> []"
  shows "case calculate_session_capacity p budgets limit untracked snaps of
      Inl e \<Rightarrow> \<exists>g \<in> set (group_by_device snaps). \<not> fits_on p budgets untracked (snd g) 1 \<and>
        e = insufficient (device_plan p budgets untracked g)
    | Inr plan \<Rightarrow>
        (\<forall>g \<in> set (group_by_device snaps). fits_on p budgets untracked (snd g) 1) \<and>
        map dc_device_index (pn_devices plan) = sort (od_keys (group_by_device snaps)) \<and>
        (\<forall>g \<in> set (group_by_device snaps). \<exists>d \<in> set (pn_devices plan). dc_device_index d = fst g \<and>
           (\<forall>m. 1 \<le> m \<longrightarrow> (m \<le> dc_computed_capacity d \<longleftrightarrow> m \<le> max_capacity \<and> fits_on p budgets untracked (snd g) m))) \<and>
        (\<forall>m. 1 \<le> m \<longrightarrow> (m \<le> pn_effective_capacity plan \<longleftrightarrow>
           m \<le> max_capacity \<and> within_limit limit m \<and> (\<forall>g \<in> set (group_by_device snaps). fits_on p budgets untracked (snd g) m)))"
proof -
  have p: "cp_max_capacity p = max_capacity" "1 \<le> max_capacity"
    using assms(1) by (auto simp: new_policy_def split: if_splits)
  have bu: "\<forall>b \<in> set (od_vals budgets). 0 \<le> mb_persistent b" "0 \<le> untracked"
    and l: "case limit of None \<Rightarrow> True | Some n \<Rightarrow> 1 \<le> n" and r: "[] \<notin> set (od_keys budgets)"
    using assms(2) unfolding valid_request_def by blast+
  note large = device_plan_largest [OF p bu]
  let ?plan = "device_plan p budgets untracked" and ?G = "group_by_device snaps"
  let ?plans = "map ?plan (sort_key fst ?G)"
  have "length ?plans = length ?G" by simp
  then have ne: "?plans \<noteq> []" using group_nonempty [OF assms(3)] by (metis length_0_conv)
  then obtain d where d: "py_min dc_computed_capacity ?plans = Some d" by (metis option.exhaust py_min_None)
  obtain g where g: "g \<in> set ?G" "d = ?plan g" using py_min_in [OF d] by auto
  have least: "m \<le> dc_computed_capacity d \<longleftrightarrow> m \<le> max_capacity \<and> (\<forall>g \<in> set ?G. fits_on p budgets untracked (snd g) m)" if m: "1 \<le> m" for m
  proof
    assume "m \<le> dc_computed_capacity d"
    then have "m \<le> dc_computed_capacity (?plan x)" if "x \<in> set ?G" for x
      using py_min_least [OF d, of "?plan x"] that by fastforce
    then show "m \<le> max_capacity \<and> (\<forall>g \<in> set ?G. fits_on p budgets untracked (snd g) m)" using large [OF m] g(1) by blast
  qed (use large [OF m] g in blast)
  have calc: "calculate_session_capacity p budgets limit untracked snaps =
      (if dc_computed_capacity d < 1 then Inl (insufficient d)
       else Inr \<lparr>pn_computed_capacity = dc_computed_capacity d,
                 pn_effective_capacity = (case limit of None \<Rightarrow> dc_computed_capacity d | Some n \<Rightarrow> min (dc_computed_capacity d) n),
                 pn_configured_limit = limit, pn_limiting_device = Some (dc_device_index d), pn_devices = ?plans\<rparr>)"
    using l bu(2) r d by (auto simp: calculate_session_capacity_def Let_def list_ex_iff split: option.split)
  show ?thesis
  proof (cases "dc_computed_capacity d < 1")
    case True
    then have "\<not> fits_on p budgets untracked (snd g) 1" using large [of 1 g] g(2) p(2) by auto
    then show ?thesis using calc True g by auto
  next
    case False
    have "map dc_device_index ?plans = sort (od_keys ?G)"
      by (simp add: comp_def device_plan_def Let_def sort_key_fst)
    moreover have "\<exists>d \<in> set ?plans. dc_device_index d = fst g \<and>
        (\<forall>m. 1 \<le> m \<longrightarrow> (m \<le> dc_computed_capacity d \<longleftrightarrow> m \<le> max_capacity \<and> fits_on p budgets untracked (snd g) m))"
      if "g \<in> set ?G" for g
      using that large by (intro bexI [of _ "?plan g"]) (auto simp: device_plan_def Let_def)
    moreover have "\<forall>g \<in> set ?G. fits_on p budgets untracked (snd g) 1" using least [of 1] False by auto
    moreover have "m \<le> (case limit of None \<Rightarrow> dc_computed_capacity d | Some n \<Rightarrow> min (dc_computed_capacity d) n) \<longleftrightarrow>
        m \<le> max_capacity \<and> within_limit limit m \<and> (\<forall>g \<in> set ?G. fits_on p budgets untracked (snd g) m)" if "1 \<le> m" for m
      using least [OF that] by (auto simp: within_limit_def split: option.split)
    ultimately show ?thesis unfolding calc using False by simp
  qed
qed

definition demo_snapshot :: memory_snapshot where
  "demo_snapshot =
     \<lparr>ms_device_index = 0, ms_device_name = ''gpu'', ms_role = ''dit'', ms_total = 1000, ms_free = 400, ms_allocated = 300,
      ms_reserved = 350, ms_peak_allocated = 320\<rparr>"

lemma planned_capacity_is_largest_witness:
  "\<exists>plan. calculate_session_capacity \<lparr>cp_safety_margin_percent = 5, cp_minimum_safety_margin_bytes = 0, cp_max_capacity = 64\<rparr>
       [(''dit'', \<lparr>mb_persistent = 100, mb_replaced = 20\<rparr>)] None 0 [demo_snapshot] = Inr plan \<and>
     pn_effective_capacity plan = 4 \<and>
     fits_on \<lparr>cp_safety_margin_percent = 5, cp_minimum_safety_margin_bytes = 0, cp_max_capacity = 64\<rparr>
       [(''dit'', \<lparr>mb_persistent = 100, mb_replaced = 20\<rparr>)] 0 [demo_snapshot] 4"
proof -
  let ?p = "\<lparr>cp_safety_margin_percent = 5, cp_minimum_safety_margin_bytes = 0, cp_max_capacity = 64\<rparr>"
  let ?b = "[(''dit'', \<lparr>mb_persistent = 100, mb_replaced = 20\<rparr>)]"
  let ?r = "calculate_session_capacity ?p ?b None 0 [demo_snapshot]"
  have c: "(case ?r of Inl e \<Rightarrow> 0 | Inr plan \<Rightarrow> pn_effective_capacity plan) = 4" by code_simp
  then obtain plan where r: "?r = Inr plan" by (cases ?r) simp_all
  with c have e: "pn_effective_capacity plan = 4" by simp
  have p: "new_policy 5 0 64 = Inr ?p" by (simp add: new_policy_def)
  have b: "valid_request ?b None 0" by (simp add: valid_request_def)
  have n: "[demo_snapshot] \<noteq> []" by simp
  have g: "group_by_device [demo_snapshot] = [(0, [demo_snapshot])]"
    by (simp add: group_by_device_def demo_snapshot_def)
  have "1 \<le> (4 :: int) \<longrightarrow> (4 \<le> pn_effective_capacity plan \<longleftrightarrow>
      (4 :: int) \<le> 64 \<and> within_limit None 4 \<and> (\<forall>g \<in> set (group_by_device [demo_snapshot]). fits_on ?p ?b 0 (snd g) 4))"
    using planned_capacity_is_largest [OF p b n] unfolding r sum.case by blast
  then have "fits_on ?p ?b 0 [demo_snapshot] 4" unfolding e g by simp
  with r e show ?thesis by blast
qed

section \<open>Slots are exclusive\<close>

definition slots_ok :: "slot_pool \<times> int list \<Rightarrow> bool" where
  "slots_ok s \<longleftrightarrow> mset (sp_free (fst s)) + mset (snd s) = mset [0..sp_capacity (fst s) - 1]"

lemma slots_distinct: "slots_ok (p, held) \<Longrightarrow> distinct (sp_free p @ held)"
proof -
  assume "slots_ok (p, held)"
  then have "mset (sp_free p @ held) = mset [0..sp_capacity p - 1]" by (simp add: slots_ok_def)
  then show ?thesis by (metis distinct_upto mset_eq_imp_distinct_iff)
qed

lemma slots_set: "slots_ok (p, held) \<Longrightarrow> set (sp_free p) \<union> set held = {0..sp_capacity p - 1}"
proof -
  assume "slots_ok (p, held)"
  then have "mset (sp_free p @ held) = mset [0..sp_capacity p - 1]" by (simp add: slots_ok_def)
  then have "set (sp_free p @ held) = set [0..sp_capacity p - 1]" by (metis set_mset_mset)
  then show ?thesis by simp
qed

lemma slots_step: "slots_ok s \<Longrightarrow> slots_ok (slot_exec s ev)"
proof -
  assume ok: "slots_ok s"
  obtain p held where s: "s = (p, held)" by (cases s)
  show ?thesis
  proof (cases ev)
    case Acquire
    show ?thesis
    proof (cases "sp_free p = []")
      case False
      have "add_mset (last (sp_free p)) (mset (butlast (sp_free p)) + mset held) =
          mset (butlast (sp_free p) @ [last (sp_free p)]) + mset held"
        by (simp del: append_butlast_last_id)
      also have "\<dots> = mset (sp_free p) + mset held" using False by simp
      finally have e: "add_mset (last (sp_free p)) (mset (butlast (sp_free p)) + mset held) = mset (sp_free p) + mset held" .
      show ?thesis using ok False by (simp add: s Acquire acquire_def try_acquire_def slots_ok_def e)
    qed (use ok in \<open>simp add: s Acquire acquire_def try_acquire_def\<close>)
  next
    case (Release slot)
    show ?thesis
    proof (cases "0 \<le> slot \<and> slot < sp_capacity p \<and> slot \<notin> set (sp_free p)")
      case True
      then have "slot \<in> set held" using slots_set [of p held] ok s by auto
      then have e: "add_mset slot (mset (sp_free p) + (mset held - {#slot#})) = mset (sp_free p) + mset held"
        by (metis insert_DiffM set_mset_mset union_mset_add_mset_right)
      show ?thesis using ok True by (simp add: s Release release_def slots_ok_def e)
    qed (use ok in \<open>auto simp: s Release release_def\<close>)
  qed
qed

interpretation slots: invariant_machine slot_exec slots_ok
  by unfold_locales (rule slots_step)

lemma new_slots_ok: "new_slot_pool n name = Inr p \<Longrightarrow> slots_ok (p, []) \<and> sp_capacity p = n"
  by (auto simp: new_slot_pool_def slots_ok_def split: if_splits)

lemma slots_capacity: "sp_capacity (fst (foldl slot_exec s evs)) = sp_capacity (fst s)"
proof (induction evs arbitrary: s)
  case (Cons ev evs)
  obtain p held where s: "s = (p, held)" by (cases s)
  have "sp_capacity (fst (slot_exec s ev)) = sp_capacity (fst s)"
    by (cases ev) (auto simp: s acquire_def try_acquire_def release_def)
  with Cons show ?case by simp
qed simp

text \<open>A slot has one holder. After any sequence of acquisitions and releases, the slots that have
  been given out and not released are distinct slots of the pool, the free slots are exactly the
  others, and an acquisition is refused exactly when every slot is held.\<close>

theorem slots_have_one_holder:
  assumes "new_slot_pool n name = Inr p0" and "(p, held) = foldl slot_exec (p0, []) evs"
  shows "distinct held \<and> set held \<subseteq> {0..n - 1} \<and> set (sp_free p) = {0..n - 1} - set held \<and>
    (is_ok (fst (acquire p)) \<longleftrightarrow> int (length held) < n)"
proof -
  have i: "slots_ok (p0, [])" and n: "sp_capacity p0 = n" using new_slots_ok [OF assms(1)] by simp_all
  have ok: "slots_ok (p, held)" unfolding assms(2) by (rule slots.inv_run [OF i])
  have c: "sp_capacity p = n" using slots_capacity [of "(p0, [])" evs] assms(2) n by (metis fst_conv)
  have d: "distinct (sp_free p @ held)" by (rule slots_distinct [OF ok])
  have u: "set (sp_free p) \<union> set held = {0..n - 1}" using slots_set [OF ok] c by simp
  have "1 \<le> n" using assms(1) by (auto simp: new_slot_pool_def split: if_splits)
  moreover have "length (sp_free p @ held) = nat n"
  proof -
    have "length (sp_free p @ held) = card ({0..n - 1})" using distinct_card [OF d] u by simp
    then show ?thesis by simp
  qed
  ultimately have "int (length (sp_free p)) + int (length held) = n" by simp
  moreover have "is_ok (fst (acquire p)) \<longleftrightarrow> sp_free p \<noteq> []" by (simp add: acquire_def try_acquire_def)
  ultimately have "is_ok (fst (acquire p)) \<longleftrightarrow> int (length held) < n" by (cases "sp_free p") auto
  with d u show ?thesis by auto
qed

lemma slots_have_one_holder_witness:
  "\<exists>p0 p. new_slot_pool 2 ''pool'' = Inr p0 \<and>
     foldl slot_exec (p0, []) [Acquire, Acquire, Release 0, Release 0, Acquire, Acquire] = (p, [1, 0]) \<and>
     \<not> is_ok (fst (acquire p))"
proof -
  let ?p0 = "projr (new_slot_pool 2 ''pool'')"
  let ?s = "foldl slot_exec (?p0, []) [Acquire, Acquire, Release 0, Release 0, Acquire, Acquire]"
  have "is_ok (new_slot_pool 2 ''pool'')" by code_simp
  then have n: "new_slot_pool 2 ''pool'' = Inr ?p0" by (cases "new_slot_pool 2 ''pool''") simp_all
  have h: "snd ?s = [1, 0]" by code_simp
  then have s: "(fst ?s, [1, 0]) = ?s" by (metis prod.collapse)
  have "\<not> is_ok (fst (acquire (fst ?s)))" using slots_have_one_holder [OF n s] by simp
  with n s show ?thesis by metis
qed

end
