(* ===== verification/Artifact_Store.thy ===== *)
theory Artifact_Store
  imports Pipeline_Contract
begin

text \<open>
  The local artifact store (\<open>telefuser/service/core/artifact_store.py\<close>): which paths it hands
  out, the identifiers of artifacts, and the cleanup of expired, oversized and surplus task
  directories. A resolved path is the list of its components; what \<open>Path.resolve\<close> makes of a
  path is the parameter \<open>rs\<close>. The file system of the cleanup is its files and directories; a
  directory whose removal fails is left as it was.
\<close>

section \<open>Paths\<close>

type_synonym path = "string list"

text \<open>The components of \<open>Path(text)\<close>, and whether it is absolute.\<close>

definition path_parts :: "string \<Rightarrow> path" where
  "path_parts text = filter (\<lambda>p. p \<noteq> [] \<and> p \<noteq> ''.'') (split_on (CHR ''/'') text)"

definition is_absolute :: "string \<Rightarrow> bool" where
  "is_absolute text \<longleftrightarrow> (case text of [] \<Rightarrow> False | c # cs \<Rightarrow> c = CHR ''/'')"

definition as_posix :: "path \<Rightarrow> string" where
  "as_posix p = join_with ''/'' p"

definition is_relative_to :: "path \<Rightarrow> path \<Rightarrow> bool" where
  "is_relative_to p base \<longleftrightarrow> take (length base) p = base"

definition relative_to :: "path \<Rightarrow> path \<Rightarrow> path" where
  "relative_to p base = drop (length base) p"

text \<open>The store is its resolved root, \<open>base\<close>.\<close>

type_synonym store = path

definition legacy_output_dir :: "store \<Rightarrow> path" where
  "legacy_output_dir base = base @ [''outputs'']"

definition legacy_output_video_dir :: "store \<Rightarrow> path" where
  "legacy_output_video_dir base = base @ [''outputs'', ''videos'']"

definition legacy_output_image_dir :: "store \<Rightarrow> path" where
  "legacy_output_image_dir base = base @ [''outputs'', ''images'']"

definition tasks_dir :: "store \<Rightarrow> path" where
  "tasks_dir base = base @ [''tasks'']"

definition media_dir_name :: "string \<Rightarrow> string" where
  "media_dir_name media_type = (if media_type = ''image'' then ''images'' else ''videos'')"

definition resolve_under :: "(path \<Rightarrow> path) \<Rightarrow> path \<Rightarrow> string \<Rightarrow> path res" where
  "resolve_under rs base relative_path =
     (if is_absolute relative_path then Inl (ValueError ''Absolute paths are not allowed'')
      else
        let resolved_root = rs base; resolved_path = rs (resolved_root @ path_parts relative_path)
        in if is_relative_to resolved_path resolved_root then Inr resolved_path
           else Inl (ValueError ''Path escapes the service cache directory''))"

definition validate_task_id :: "string \<Rightarrow> string res" where
  "validate_task_id task_id =
     (if task_id = [] \<or> CHR ''/'' \<in> set task_id \<or> CHR 0x5C \<in> set task_id \<or> task_id = ''.'' \<or> task_id = ''..''
      then Inl (ValueError ''Invalid task_id for artifact path'') else Inr task_id)"

definition task_root :: "(path \<Rightarrow> path) \<Rightarrow> store \<Rightarrow> string \<Rightarrow> path res" where
  "task_root rs base task_id = bind_res (validate_task_id task_id) (resolve_under rs (tasks_dir base))"

definition task_output_dir :: "(path \<Rightarrow> path) \<Rightarrow> store \<Rightarrow> string \<Rightarrow> string \<Rightarrow> path res" where
  "task_output_dir rs base task_id media_type =
     bind_res (task_root rs base task_id) (\<lambda>d. Inr (d @ [''outputs'', media_dir_name media_type]))"

definition task_input_dir :: "(path \<Rightarrow> path) \<Rightarrow> store \<Rightarrow> string \<Rightarrow> string \<Rightarrow> path res" where
  "task_input_dir rs base task_id media_type =
     bind_res (task_root rs base task_id) (\<lambda>d. Inr (d @ [''inputs'', media_dir_name media_type]))"

definition task_tmp_dir :: "(path \<Rightarrow> path) \<Rightarrow> store \<Rightarrow> string \<Rightarrow> path res" where
  "task_tmp_dir rs base task_id = bind_res (task_root rs base task_id) (\<lambda>d. Inr (d @ [''tmp'']))"

text \<open>Without a task, \<open>task_id\<close> is empty.\<close>

definition output_path :: "(path \<Rightarrow> path) \<Rightarrow> store \<Rightarrow> string \<Rightarrow> string \<Rightarrow> string \<Rightarrow> path res" where
  "output_path rs base out media_type task_id =
     (if task_id \<noteq> [] then bind_res (task_output_dir rs base task_id media_type) (\<lambda>d. resolve_under rs d out)
      else resolve_under rs
             (if media_dir_name media_type = ''images'' then legacy_output_image_dir base else legacy_output_video_dir base) out)"

section \<open>Downloadable artifacts\<close>

definition is_allowed_output_path :: "(path \<Rightarrow> path) \<Rightarrow> store \<Rightarrow> path \<Rightarrow> bool" where
  "is_allowed_output_path rs base p \<longleftrightarrow>
     is_relative_to p (rs (legacy_output_dir base)) \<or>
     (is_relative_to p (rs (tasks_dir base)) \<and>
      (let parts = relative_to p (rs (tasks_dir base))
       in 4 \<le> length parts \<and> parts ! 1 = ''outputs'' \<and> (parts ! 2 = ''images'' \<or> parts ! 2 = ''videos'')))"

definition LOCAL_PREFIX :: string where
  "LOCAL_PREFIX = ''local:''"

definition has_prefix :: "string \<Rightarrow> string \<Rightarrow> bool" where
  "has_prefix pre text \<longleftrightarrow> take (length pre) text = pre"

definition resolve_artifact_id :: "(path \<Rightarrow> path) \<Rightarrow> store \<Rightarrow> string \<Rightarrow> path res" where
  "resolve_artifact_id rs base artifact_id =
     (if \<not> has_prefix LOCAL_PREFIX artifact_id then Inl (ValueError ''Unsupported artifact backend'')
      else
        let relative_path = drop (length LOCAL_PREFIX) artifact_id
        in if relative_path = [] then Inl (ValueError ''Artifact id is empty'')
           else bind_res (resolve_under rs base relative_path) (\<lambda>p.
             if is_allowed_output_path rs base p then Inr p
             else Inl (ValueError ''Access to this artifact is not allowed'')))"

text \<open>A relative path that is not an artifact id is resolved against the working directory \<open>cwd\<close>.\<close>

definition resolve_text :: "(path \<Rightarrow> path) \<Rightarrow> path \<Rightarrow> string \<Rightarrow> path" where
  "resolve_text rs cwd text = rs (if is_absolute text then path_parts text else cwd @ path_parts text)"

definition artifact_id_for_path :: "(path \<Rightarrow> path) \<Rightarrow> path \<Rightarrow> store \<Rightarrow> string \<Rightarrow> string res" where
  "artifact_id_for_path rs cwd base file_path =
     bind_res (if has_prefix LOCAL_PREFIX file_path then resolve_artifact_id rs base file_path
               else Inr (resolve_text rs cwd file_path)) (\<lambda>p.
       if \<not> is_relative_to p base then Inl (ValueError ''Artifact path is outside the service cache directory'')
       else if \<not> is_allowed_output_path rs base p then Inl (ValueError ''Artifact path is not a downloadable output'')
       else Inr (LOCAL_PREFIX @ as_posix (relative_to p base)))"

definition first_existing :: "(path \<Rightarrow> bool) \<Rightarrow> (path \<Rightarrow> path) \<Rightarrow> string \<Rightarrow> path option \<Rightarrow> path \<Rightarrow> path option res" where
  "first_existing exists rs text found base =
     (case found of
        Some p \<Rightarrow> Inr found
      | None \<Rightarrow> bind_res (resolve_under rs base text) (\<lambda>p. Inr (if exists p then Some p else None)))"

definition resolve_output_file :: "(path \<Rightarrow> bool) \<Rightarrow> (path \<Rightarrow> path) \<Rightarrow> path \<Rightarrow> store \<Rightarrow> string \<Rightarrow> path res" where
  "resolve_output_file exists rs cwd base file_path =
     (if has_prefix LOCAL_PREFIX file_path then resolve_artifact_id rs base file_path
      else if is_absolute file_path then
        let p = resolve_text rs cwd file_path
        in if is_allowed_output_path rs base p then Inr p else Inl (ValueError ''Access to this file is not allowed'')
      else bind_res (resolve_under rs base file_path) (\<lambda>candidate.
        if exists candidate \<and> is_allowed_output_path rs base (rs candidate) then Inr candidate
        else bind_res (fold_res (first_existing exists rs file_path) None
               [legacy_output_video_dir base, legacy_output_image_dir base, legacy_output_dir base]) (\<lambda>found.
          case found of Some p \<Rightarrow> Inr p | None \<Rightarrow> resolve_under rs (legacy_output_dir base) file_path)))"

section \<open>Access is confined\<close>

definition clean_part :: "string \<Rightarrow> bool" where
  "clean_part c \<longleftrightarrow> c \<noteq> [] \<and> c \<noteq> ''.'' \<and> CHR ''/'' \<notin> set c"

text \<open>What \<open>Path.resolve\<close> promises: a resolved path has no dots and is its own resolution; and the
  directories that the store has made below its resolved root are not links.\<close>

definition canonical :: "(path \<Rightarrow> path) \<Rightarrow> bool" where
  "canonical rs \<longleftrightarrow> (\<forall>p. rs (rs p) = rs p \<and> (\<forall>c \<in> set (rs p). clean_part c))"

definition own_dirs :: "(path \<Rightarrow> path) \<Rightarrow> store \<Rightarrow> bool" where
  "own_dirs rs base \<longleftrightarrow>
     (\<forall>d \<in> {base, legacy_output_dir base, legacy_output_video_dir base, legacy_output_image_dir base, tasks_dir base}. rs d = d)"

lemma split_on_none: "sep \<notin> set c \<Longrightarrow> split_on sep c = [c]"
  by (induction c) auto

lemma split_on_sep: "sep \<notin> set c \<Longrightarrow> split_on sep (c @ sep # rest) = c # split_on sep rest"
  by (induction c) auto

lemma split_join: "p \<noteq> [] \<Longrightarrow> \<forall>c \<in> set p. clean_part c \<Longrightarrow> split_on (CHR ''/'') (as_posix p) = p"
proof (induction p)
  case (Cons c p)
  then show ?case
    by (cases p) (simp_all add: as_posix_def clean_part_def split_on_none split_on_sep)
qed simp

lemma parts_of_posix: "\<forall>c \<in> set p. clean_part c \<Longrightarrow> path_parts (as_posix p) = p"
proof (cases "p = []")
  case False
  assume c: "\<forall>c \<in> set p. clean_part c"
  then have "filter (\<lambda>p. p \<noteq> [] \<and> p \<noteq> ''.'') p = p" by (simp add: filter_id_conv clean_part_def)
  with False c show ?thesis by (simp add: path_parts_def split_join)
qed (simp add: path_parts_def as_posix_def)

lemma posix_relative: "\<forall>c \<in> set p. clean_part c \<Longrightarrow> \<not> is_absolute (as_posix p)"
proof (cases p)
  case (Cons c q)
  assume "\<forall>c \<in> set p. clean_part c"
  with Cons obtain x xs where "c = x # xs" "x \<noteq> CHR ''/''" by (cases c) (auto simp: clean_part_def)
  with Cons show ?thesis by (cases q) (simp_all add: as_posix_def is_absolute_def)
qed (simp add: as_posix_def is_absolute_def)

lemma posix_empty: "\<forall>c \<in> set p. clean_part c \<Longrightarrow> as_posix p = [] \<Longrightarrow> p = []"
  by (cases p; cases "tl p") (auto simp: as_posix_def clean_part_def)

lemma relative_split: "is_relative_to p d \<Longrightarrow> d @ relative_to p d = p"
  by (metis append_take_drop_id is_relative_to_def relative_to_def)

lemma relative_append: "is_relative_to p (d @ e) \<Longrightarrow> is_relative_to p d"
proof -
  assume "is_relative_to p (d @ e)"
  then have "p = (d @ e) @ relative_to p (d @ e)" by (rule relative_split [symmetric])
  then have "take (length d) p = d" by (metis append_assoc append_eq_conv_conj)
  then show ?thesis by (simp add: is_relative_to_def)
qed

lemma resolve_under_in: "resolve_under rs d text = Inr p \<Longrightarrow> is_relative_to p (rs d) \<and> (\<exists>q. p = rs q)"
  by (auto simp: resolve_under_def Let_def split: if_splits)

lemma not_allowed_base: "own_dirs rs base \<Longrightarrow> \<not> is_allowed_output_path rs base base"
proof -
  have "\<not> is_relative_to base (base @ [x])" for x :: string by (simp add: is_relative_to_def)
  moreover assume "own_dirs rs base"
  ultimately show ?thesis
    by (simp add: is_allowed_output_path_def own_dirs_def legacy_output_dir_def tasks_dir_def)
qed

lemma legacy_allowed:
  "own_dirs rs base \<Longrightarrow> d \<in> {legacy_output_video_dir base, legacy_output_image_dir base, legacy_output_dir base} \<Longrightarrow>
     is_relative_to p (rs d) \<Longrightarrow> is_allowed_output_path rs base p"
  using relative_append [of p "base @ [''outputs'']" "[''videos'']"] relative_append [of p "base @ [''outputs'']" "[''images'']"]
  by (auto simp: own_dirs_def is_allowed_output_path_def legacy_output_dir_def legacy_output_video_dir_def
      legacy_output_image_dir_def)

lemma id_allowed: "resolve_artifact_id rs base i = Inr p \<Longrightarrow> is_allowed_output_path rs base p"
  by (auto simp: resolve_artifact_id_def Let_def split: if_splits)

lemma found_allowed:
  "own_dirs rs base \<Longrightarrow> fold_res (first_existing exists rs text) None
       [legacy_output_video_dir base, legacy_output_image_dir base, legacy_output_dir base] = Inr (Some p) \<Longrightarrow>
     is_allowed_output_path rs base p"
proof -
  assume o: "own_dirs rs base" and "fold_res (first_existing exists rs text) None
       [legacy_output_video_dir base, legacy_output_image_dir base, legacy_output_dir base] = Inr (Some p)"
  then show ?thesis
    by (auto simp: first_existing_def split: option.splits if_splits
        dest!: resolve_under_in intro: legacy_allowed [OF o])
qed

text \<open>C39: Artifacts are served from the output directories only, and identifiers are stable. A path that
  the store resolves for a download, from a name, a path or an identifier, lies under the legacy
  outputs or under the images or videos of some task's outputs, whatever links and dots the
  request contains; and the identifier that the store gives for a file is resolved to that file.\<close>

theorem artifact_access_confined:
  assumes "canonical rs" and own: "own_dirs rs base"
  shows "(resolve_output_file exists rs cwd base text = Inr p \<longrightarrow> is_allowed_output_path rs base p) \<and>
    (artifact_id_for_path rs cwd base text = Inr i \<and> \<not> has_prefix LOCAL_PREFIX text \<longrightarrow>
       resolve_artifact_id rs base i = Inr (resolve_text rs cwd text))"
proof (intro conjI impI)
  have idem: "rs (rs q) = rs q" and clean: "\<forall>c \<in> set (rs q). clean_part c" for q
    using assms(1) by (simp_all add: canonical_def)
  {
    assume r: "resolve_output_file exists rs cwd base text = Inr p"
    have last: "is_allowed_output_path rs base p" if "resolve_under rs (legacy_output_dir base) text = Inr p"
      using legacy_allowed [OF own, of "legacy_output_dir base"] resolve_under_in [OF that] by blast
    have candidate: "rs p = p" if "resolve_under rs base text = Inr p" using resolve_under_in [OF that] idem by auto
    show "is_allowed_output_path rs base p"
    proof (cases "has_prefix LOCAL_PREFIX text \<or> is_absolute text")
      case True
      then show ?thesis using r by (auto simp: resolve_output_file_def Let_def intro: id_allowed split: if_splits)
    next
      case False
      then obtain c where c: "resolve_under rs base text = Inr c"
        and d: "(if exists c \<and> is_allowed_output_path rs base (rs c) then Inr c
          else bind_res (fold_res (first_existing exists rs text) None
               [legacy_output_video_dir base, legacy_output_image_dir base, legacy_output_dir base]) (\<lambda>found.
            case found of Some p \<Rightarrow> Inr p | None \<Rightarrow> resolve_under rs (legacy_output_dir base) text)) = Inr p"
        using r unfolding resolve_output_file_def by auto
      show ?thesis
      proof (cases "exists c \<and> is_allowed_output_path rs base (rs c)")
        case True
        then show ?thesis using d c candidate by auto
      next
        case False
        then obtain found where "fold_res (first_existing exists rs text) None
               [legacy_output_video_dir base, legacy_output_image_dir base, legacy_output_dir base] = Inr found"
          and "(case found of Some p \<Rightarrow> Inr p | None \<Rightarrow> resolve_under rs (legacy_output_dir base) text) = Inr p"
          using d unfolding if_not_P [OF False] bind_res_Inr by blast
        then show ?thesis using last found_allowed [OF own] by (cases found) auto
      qed
    qed
  next
    assume i: "artifact_id_for_path rs cwd base text = Inr i \<and> \<not> has_prefix LOCAL_PREFIX text"
    let ?p = "resolve_text rs cwd text"
    have p: "is_relative_to ?p base" "is_allowed_output_path rs base ?p" "i = LOCAL_PREFIX @ as_posix (relative_to ?p base)"
      using i by (auto simp: artifact_id_for_path_def split: if_splits)
    obtain q where q: "?p = rs q" by (auto simp: resolve_text_def)
    have "set (relative_to ?p base) \<subseteq> set ?p" by (simp add: relative_to_def set_drop_subset)
    then have cl: "\<forall>c \<in> set (relative_to ?p base). clean_part c" using clean [of q] q by auto
    have "relative_to ?p base \<noteq> []"
      using relative_split [OF p(1)] p(2) not_allowed_base [OF own] by (metis append_Nil2)
    then have ne: "as_posix (relative_to ?p base) \<noteq> []" using posix_empty [OF cl] by blast
    have b: "rs base = base" using own by (simp add: own_dirs_def)
    have "rs (rs base @ path_parts (as_posix (relative_to ?p base))) = rs ?p"
      unfolding parts_of_posix [OF cl] b relative_split [OF p(1)] ..
    also have "\<dots> = ?p" unfolding q by (rule idem)
    finally have "resolve_under rs base (as_posix (relative_to ?p base)) = Inr ?p"
      using p(1) posix_relative [OF cl] by (simp add: resolve_under_def Let_def b)
    then show "resolve_artifact_id rs base i = Inr ?p"
      using p(2,3) ne by (simp add: resolve_artifact_id_def has_prefix_def LOCAL_PREFIX_def)
  }
qed

text \<open>Resolution in a file system without links.\<close>

definition lexical_step :: "path \<Rightarrow> string \<Rightarrow> path" where
  "lexical_step acc c = (if c = ''..'' then butlast acc else if clean_part c then acc @ [c] else acc)"

definition lexical :: "path \<Rightarrow> path" where
  "lexical p = foldl lexical_step [] p"

lemma lexical_clean: "\<forall>c \<in> set acc. clean_part c \<and> c \<noteq> ''..'' \<Longrightarrow>
    \<forall>c \<in> set (foldl lexical_step acc p). clean_part c \<and> c \<noteq> ''..''"
proof (induction p arbitrary: acc)
  case (Cons c p)
  have "\<forall>x \<in> set (lexical_step acc c). clean_part x \<and> x \<noteq> ''..''"
    using Cons.prems in_set_butlastD [of _ acc] unfolding lexical_step_def by (simp split: if_split)
  with Cons.IH show ?case by simp
qed simp

lemma lexical_fixed: "\<forall>c \<in> set p. clean_part c \<and> c \<noteq> ''..'' \<Longrightarrow> foldl lexical_step acc p = acc @ p"
  by (induction p arbitrary: acc) (auto simp: lexical_step_def)

lemma canonical_lexical: "canonical lexical"
proof -
  have c: "\<forall>c \<in> set (lexical p). clean_part c \<and> c \<noteq> ''..''" for p
    unfolding lexical_def by (rule lexical_clean) simp
  have "lexical (lexical p) = lexical p" for p
    unfolding lexical_def [of "lexical p"] using lexical_fixed [OF c, of "[]"] by (simp only: append_Nil)
  with c show ?thesis unfolding canonical_def by blast
qed

lemma artifact_access_confined_witness:
  "artifact_id_for_path lexical [] [''srv''] ''/srv/outputs/./videos/a.mp4'' = Inr ''local:outputs/videos/a.mp4'' \<and>
   resolve_artifact_id lexical [''srv''] ''local:outputs/videos/a.mp4'' = Inr [''srv'', ''outputs'', ''videos'', ''a.mp4'']"
proof -
  have o: "own_dirs lexical [''srv'']" by (simp add: own_dirs_def) code_simp
  have i: "artifact_id_for_path lexical [] [''srv''] ''/srv/outputs/./videos/a.mp4'' = Inr ''local:outputs/videos/a.mp4''"
    by code_simp
  have n: "\<not> has_prefix LOCAL_PREFIX ''/srv/outputs/./videos/a.mp4''" by code_simp
  have t: "resolve_text lexical [] ''/srv/outputs/./videos/a.mp4'' = [''srv'', ''outputs'', ''videos'', ''a.mp4'']" by code_simp
  show ?thesis
    using artifact_access_confined [OF canonical_lexical o, of "\<lambda>p. True" "[]" "''/srv/outputs/./videos/a.mp4''" "[]"
        "''local:outputs/videos/a.mp4''"] i n unfolding t by blast
qed

section \<open>Cleanup\<close>

record stored_file =
  fi_path :: path
  fi_size :: int
  fi_mtime :: rat

record file_system =
  fs_files :: "stored_file list"
  fs_dirs :: "path list"

definition below :: "path \<Rightarrow> path \<Rightarrow> bool" where
  "below d p \<longleftrightarrow> p \<noteq> d \<and> is_relative_to p d"

definition dir_exists :: "path \<Rightarrow> file_system \<Rightarrow> bool" where
  "dir_exists d f \<longleftrightarrow> d \<in> set (fs_dirs f) \<or> d \<in> set (map fi_path (fs_files f))"

definition tree_size :: "path \<Rightarrow> file_system \<Rightarrow> int" where
  "tree_size d f = (if dir_exists d f then sum_list (map fi_size (filter (\<lambda>x. below d (fi_path x)) (fs_files f))) else 0)"

definition rmtree :: "path \<Rightarrow> file_system \<Rightarrow> file_system" where
  "rmtree d f =
     f\<lparr>fs_files := filter (\<lambda>x. \<not> is_relative_to (fi_path x) d) (fs_files f),
       fs_dirs := filter (\<lambda>p. \<not> is_relative_to p d) (fs_dirs f)\<rparr>"

definition is_part_file :: "stored_file \<Rightarrow> bool" where
  "is_part_file x \<longleftrightarrow>
     (case rev (fi_path x) of [] \<Rightarrow> False | name # ps \<Rightarrow> take 5 (rev name) = rev ''.part'')"

definition expired_part :: "store \<Rightarrow> int \<Rightarrow> rat \<Rightarrow> stored_file \<Rightarrow> bool" where
  "expired_part base tmp_retention now x \<longleftrightarrow>
     0 < tmp_retention \<and> below base (fi_path x) \<and> is_part_file x \<and> of_int tmp_retention \<le> now - fi_mtime x"

definition cleanup_tmp_files :: "store \<Rightarrow> int \<Rightarrow> rat \<Rightarrow> file_system \<Rightarrow> nat \<times> file_system" where
  "cleanup_tmp_files base tmp_retention now f =
     (length (filter (expired_part base tmp_retention now) (fs_files f)),
      f\<lparr>fs_files := filter (\<lambda>x. \<not> expired_part base tmp_retention now x) (fs_files f)\<rparr>)"

record cleanup_request =
  rq_active :: "string list"
  rq_end_times :: "(string \<times> rat option) list"
  rq_statuses :: "(string \<times> string) list"
  rq_retention :: int
  rq_tmp_retention :: int
  rq_mode :: string
  rq_preserve_failed :: bool
  rq_max_total :: int
  rq_max_task :: int
  rq_now :: rat

definition protected_terminal_task_ids :: "cleanup_request \<Rightarrow> string list" where
  "protected_terminal_task_ids rq =
     (if \<not> rq_preserve_failed rq \<or> rq_statuses rq = [] then []
      else map fst (filter (\<lambda>(tid, st). tid \<notin> set (rq_active rq) \<and> py_lower st = ''failed'') (rq_statuses rq)))"

definition blocked :: "cleanup_request \<Rightarrow> string \<Rightarrow> bool" where
  "blocked rq tid \<longleftrightarrow> tid \<in> set (rq_active rq) \<or> tid \<in> set (protected_terminal_task_ids rq)"

record sweep =
  sw_fs :: file_system
  sw_removed :: "string list"
  sw_errors :: "string list"

text \<open>
  Whether removing the directory of a task fails, with what text, and which paths below the directory
  are gone by then.
\<close>

type_synonym rm_failures = "string \<Rightarrow> (string \<times> (path \<Rightarrow> bool)) option"

definition partly_removed :: "path \<Rightarrow> (path \<Rightarrow> bool) \<Rightarrow> file_system \<Rightarrow> file_system" where
  "partly_removed d gone f =
     f\<lparr>fs_files := filter (\<lambda>x. \<not> (is_relative_to (fi_path x) d \<and> gone (fi_path x))) (fs_files f),
       fs_dirs := filter (\<lambda>p. \<not> (is_relative_to p d \<and> gone p)) (fs_dirs f)\<rparr>"

definition remove_task :: "bool \<Rightarrow> rm_failures \<Rightarrow> string \<Rightarrow> path \<Rightarrow> sweep \<Rightarrow> sweep" where
  "remove_task report fails tid d s =
     (case fails tid of
        None \<Rightarrow> s\<lparr>sw_fs := rmtree d (sw_fs s), sw_removed := sw_removed s @ [tid]\<rparr>
      | Some (e, gone) \<Rightarrow>
          let t = s\<lparr>sw_fs := partly_removed d gone (sw_fs s)\<rparr>
          in if report then
               t\<lparr>sw_errors := sw_errors t @ [''Failed to remove artifact directory for task '' @ tid @ '': '' @ e]\<rparr>
             else t)"

text \<open>One iteration of the three loops over the terminal tasks: \<open>due\<close> is tested before the directory is
  looked at and \<open>wanted\<close> after it is known to exist. An exception ends the loop and the cleanup.\<close>

definition visit_task ::
  "(path \<Rightarrow> path) \<Rightarrow> store \<Rightarrow> rm_failures \<Rightarrow> bool \<Rightarrow> (string \<times> rat option \<Rightarrow> bool) \<Rightarrow> (path \<Rightarrow> file_system \<Rightarrow> bool)
     \<Rightarrow> string \<times> rat option \<Rightarrow> sweep \<Rightarrow> unit res \<times> sweep" where
  "visit_task rs base fails report due wanted e s =
     (if \<not> due e then (Inr (), s)
      else case task_root rs base (fst e) of
        Inl err \<Rightarrow> (Inl err, s)
      | Inr d \<Rightarrow>
          if dir_exists d (sw_fs s) \<and> wanted d (sw_fs s) then (Inr (), remove_task report fails (fst e) d s)
          else (Inr (), s))"

fun visit_all :: "('e \<Rightarrow> sweep \<Rightarrow> unit res \<times> sweep) \<Rightarrow> 'e list \<Rightarrow> sweep \<Rightarrow> unit res \<times> sweep" where
  "visit_all f [] s = (Inr (), s)"
| "visit_all f (e # es) s = (case f e s of (Inl err, t) \<Rightarrow> (Inl err, t) | (Inr u, t) \<Rightarrow> visit_all f es t)"

definition then_sweep :: "unit res \<times> sweep \<Rightarrow> (sweep \<Rightarrow> unit res \<times> sweep) \<Rightarrow> unit res \<times> sweep" where
  "then_sweep r f = (case r of (Inl err, t) \<Rightarrow> (Inl err, t) | (Inr u, t) \<Rightarrow> f t)"

definition due_by_retention :: "cleanup_request \<Rightarrow> string \<times> rat option \<Rightarrow> bool" where
  "due_by_retention rq e \<longleftrightarrow> \<not> blocked rq (fst e) \<and>
     (case snd e of None \<Rightarrow> False | Some end_ts \<Rightarrow> of_int (rq_retention rq) \<le> rq_now rq - end_ts)"

definition cleanup_terminal_tasks ::
  "(path \<Rightarrow> path) \<Rightarrow> store \<Rightarrow> rm_failures \<Rightarrow> cleanup_request \<Rightarrow> sweep \<Rightarrow> unit res \<times> sweep" where
  "cleanup_terminal_tasks rs base fails rq =
     visit_all (visit_task rs base fails False (\<lambda>e. \<not> blocked rq (fst e)) (\<lambda>d f. True)) (rq_end_times rq)"

definition cleanup_expired_tasks ::
  "(path \<Rightarrow> path) \<Rightarrow> store \<Rightarrow> rm_failures \<Rightarrow> cleanup_request \<Rightarrow> sweep \<Rightarrow> unit res \<times> sweep" where
  "cleanup_expired_tasks rs base fails rq =
     visit_all (visit_task rs base fails True (due_by_retention rq) (\<lambda>d f. True)) (rq_end_times rq)"

definition cleanup_oversized_tasks ::
  "(path \<Rightarrow> path) \<Rightarrow> store \<Rightarrow> rm_failures \<Rightarrow> cleanup_request \<Rightarrow> sweep \<Rightarrow> unit res \<times> sweep" where
  "cleanup_oversized_tasks rs base fails rq s =
     visit_all (visit_task rs base fails False
         (\<lambda>e. \<not> blocked rq (fst e) \<and> fst e \<notin> set (sw_removed s))
         (\<lambda>d f. rq_max_task rq < tree_size d f)) (rq_end_times rq) s"

text \<open>The candidates of the capacity cleanup, with their end times, where none is zero.\<close>

definition add_candidate ::
  "(path \<Rightarrow> path) \<Rightarrow> store \<Rightarrow> cleanup_request \<Rightarrow> file_system \<Rightarrow> (string \<times> rat \<times> path) list \<Rightarrow> string \<times> rat option
     \<Rightarrow> (string \<times> rat \<times> path) list res" where
  "add_candidate rs base rq f cs e =
     (if blocked rq (fst e) then Inr cs
      else bind_res (task_root rs base (fst e)) (\<lambda>d.
        Inr (if dir_exists d f then cs @ [(fst e, case snd e of None \<Rightarrow> 0 | Some t \<Rightarrow> t, d)] else cs)))"

fun free_capacity :: "rm_failures \<Rightarrow> int \<Rightarrow> int \<Rightarrow> (string \<times> rat \<times> path) list \<Rightarrow> sweep \<Rightarrow> sweep" where
  "free_capacity fails max_total current [] s = s"
| "free_capacity fails max_total current ((tid, t, d) # cs) s =
     (if current \<le> max_total then s
      else free_capacity fails max_total
             (if fails tid = None then current - tree_size d (sw_fs s) else current) cs
             (remove_task False fails tid d s))"

definition cleanup_capacity ::
  "(path \<Rightarrow> path) \<Rightarrow> store \<Rightarrow> rm_failures \<Rightarrow> cleanup_request \<Rightarrow> sweep \<Rightarrow> unit res \<times> sweep" where
  "cleanup_capacity rs base fails rq s =
     (let current = tree_size base (sw_fs s)
      in if current \<le> rq_max_total rq then (Inr (), s)
         else case fold_res (add_candidate rs base rq (sw_fs s)) [] (rq_end_times rq) of
           Inl err \<Rightarrow> (Inl err, s)
         | Inr cs \<Rightarrow> (Inr (), free_capacity fails (rq_max_total rq) current (sort_key (\<lambda>c. fst (snd c)) cs) s))"

definition cleanup :: "(path \<Rightarrow> path) \<Rightarrow> store \<Rightarrow> rm_failures \<Rightarrow> cleanup_request \<Rightarrow> file_system \<Rightarrow> unit res \<times> sweep" where
  "cleanup rs base fails rq f =
     (let s = \<lparr>sw_fs = snd (cleanup_tmp_files base (rq_tmp_retention rq) (rq_now rq) f), sw_removed = [], sw_errors = []\<rparr>
      in if rq_mode rq \<noteq> ''persistent'' \<and> rq_mode rq \<noteq> ''ephemeral'' then
           (Inl (ValueError (''Unsupported artifact persistence mode: '' @ rq_mode rq)), s)
         else
           then_sweep
             (then_sweep
               (if rq_mode rq = ''ephemeral'' then cleanup_terminal_tasks rs base fails rq s
                else if 0 < rq_retention rq then cleanup_expired_tasks rs base fails rq s
                else (Inr (), s))
               (\<lambda>t. if 0 < rq_max_task rq then cleanup_oversized_tasks rs base fails rq t else (Inr (), t)))
             (\<lambda>t. if 0 < rq_max_total rq then cleanup_capacity rs base fails rq t else (Inr (), t)))"

section \<open>What a cleanup may remove\<close>

text \<open>Task directories are not links, and no plain file has the place of a task directory.\<close>

definition plain_tasks :: "(path \<Rightarrow> path) \<Rightarrow> store \<Rightarrow> bool" where
  "plain_tasks rs base \<longleftrightarrow> rs (tasks_dir base) = tasks_dir base \<and>
     (\<forall>tid. validate_task_id tid = Inr tid \<longrightarrow> rs (tasks_dir base @ [tid]) = tasks_dir base @ [tid])"

definition task_dir :: "store \<Rightarrow> string \<Rightarrow> path" where
  "task_dir base tid = tasks_dir base @ [tid]"

lemma task_root_plain:
  "plain_tasks rs base \<Longrightarrow> task_root rs base tid =
     (case validate_task_id tid of Inl e \<Rightarrow> Inl e | Inr t \<Rightarrow> Inr (task_dir base tid))"
proof (cases "validate_task_id tid")
  case (Inr t)
  assume p: "plain_tasks rs base"
  have t: "t = tid" and "tid \<noteq> []" "CHR ''/'' \<notin> set tid" "tid \<noteq> ''.''"
    using Inr by (auto simp: validate_task_id_def split: if_splits)
  moreover from this have "path_parts tid = [tid]" by (simp add: path_parts_def split_on_none)
  moreover have "\<not> is_absolute tid" using \<open>CHR ''/'' \<notin> set tid\<close> by (cases tid) (auto simp: is_absolute_def)
  ultimately show ?thesis
    using p Inr by (simp add: task_root_def resolve_under_def plain_tasks_def task_dir_def is_relative_to_def Let_def)
qed (simp add: task_root_def)

lemma task_dirs_apart: "is_relative_to p (task_dir base a) \<Longrightarrow> a \<noteq> t \<Longrightarrow> \<not> is_relative_to p (task_dir base t)"
  unfolding is_relative_to_def task_dir_def by (metis append1_eq_conv length_append_singleton)

lemma rmtree_keeps:
  "x \<in> set (fs_files f) \<Longrightarrow> \<not> is_relative_to (fi_path x) d \<Longrightarrow> x \<in> set (fs_files (rmtree d f))"
  "x \<in> set (fs_files f) \<Longrightarrow> \<not> is_relative_to (fi_path x) d \<Longrightarrow> x \<in> set (fs_files (partly_removed d gone f))"
  by (simp_all add: rmtree_def partly_removed_def)

text \<open>A task whose directory may be removed: it is terminal, and neither active nor protected.\<close>

definition removable :: "cleanup_request \<Rightarrow> string \<Rightarrow> bool" where
  "removable rq tid \<longleftrightarrow> \<not> blocked rq tid \<and> tid \<in> fst ` set (rq_end_times rq)"

text \<open>
  \<open>spared\<close>: the files of \<open>F\<close>, none of which belongs to a removable task, are still there, no file is new,
  and only removable tasks have been removed.
\<close>

definition spared :: "cleanup_request \<Rightarrow> stored_file set \<Rightarrow> stored_file set \<Rightarrow> sweep \<Rightarrow> bool" where
  "spared rq F G s \<longleftrightarrow> F \<subseteq> set (fs_files (sw_fs s)) \<and> set (fs_files (sw_fs s)) \<subseteq> G \<and> (\<forall>tid \<in> set (sw_removed s). removable rq tid)"

lemma spared_remove:
  assumes "spared rq F G s" and F: "\<And>x tid. x \<in> F \<Longrightarrow> removable rq tid \<Longrightarrow> \<not> is_relative_to (fi_path x) (task_dir base tid)"
    and t: "removable rq tid"
  shows "spared rq F G (remove_task report fails tid (task_dir base tid) s)"
proof -
  have "F \<subseteq> set (fs_files (rmtree (task_dir base tid) (sw_fs s)))"
    "F \<subseteq> set (fs_files (partly_removed (task_dir base tid) gone (sw_fs s)))" for gone
    using assms(1) F [OF _ t] rmtree_keeps by (auto simp: spared_def)
  with assms(1) t show ?thesis
    by (auto simp: spared_def remove_task_def rmtree_def partly_removed_def Let_def split: option.split)
qed

lemma spared_visit:
  assumes p: "plain_tasks rs base" and F: "\<And>x tid. x \<in> F \<Longrightarrow> removable rq tid \<Longrightarrow> \<not> is_relative_to (fi_path x) (task_dir base tid)"
    and due: "\<And>e. due e \<Longrightarrow> \<not> blocked rq (fst e)"
  shows "spared rq F G s \<Longrightarrow> set es \<subseteq> set (rq_end_times rq) \<Longrightarrow>
    spared rq F G (snd (visit_all (visit_task rs base fails report due wanted) es s))"
proof (induction es arbitrary: s)
  case (Cons e es)
  show ?case
  proof (cases "due e \<and> (\<exists>t. validate_task_id (fst e) = Inr t) \<and> dir_exists (task_dir base (fst e)) (sw_fs s) \<and>
      wanted (task_dir base (fst e)) (sw_fs s)")
    case True
    then have "visit_task rs base fails report due wanted e s = (Inr (), remove_task report fails (fst e) (task_dir base (fst e)) s)"
      by (auto simp: visit_task_def task_root_plain [OF p])
    moreover have "removable rq (fst e)" using Cons.prems(2) True due by (simp add: removable_def)
    then have "spared rq F G (remove_task report fails (fst e) (task_dir base (fst e)) s)"
      by (intro spared_remove [OF Cons.prems(1) F])
    ultimately show ?thesis using Cons by simp
  next
    case False
    then have "snd (visit_task rs base fails report due wanted e s) = s"
      by (auto simp: visit_task_def task_root_plain [OF p] split: sum.splits)
    then show ?thesis using Cons by (cases "visit_task rs base fails report due wanted e s") (auto split: sum.splits)
  qed
qed simp

lemma candidates_read:
  assumes p: "plain_tasks rs base" and c: "fold_res (add_candidate rs base rq f) [] (rq_end_times rq) = Inr cs"
  shows "\<forall>(tid, t, d) \<in> set cs. d = task_dir base tid \<and> \<not> blocked rq tid \<and> tid \<in> fst ` set (rq_end_times rq) \<and> dir_exists d f"
proof (rule fold_res_invariant [OF c])
  fix u e v
  assume e: "e \<in> set (rq_end_times rq)"
    and u: "\<forall>(tid, t, d) \<in> set u. d = task_dir base tid \<and> \<not> blocked rq tid \<and> tid \<in> fst ` set (rq_end_times rq) \<and> dir_exists d f"
    and v: "add_candidate rs base rq f u e = Inr v"
  show "\<forall>(tid, t, d) \<in> set v. d = task_dir base tid \<and> \<not> blocked rq tid \<and> tid \<in> fst ` set (rq_end_times rq) \<and> dir_exists d f"
    using e u v by (auto simp: add_candidate_def task_root_plain [OF p] split: if_splits sum.splits)
qed simp

lemma spared_free:
  assumes F: "\<And>x tid. x \<in> F \<Longrightarrow> removable rq tid \<Longrightarrow> \<not> is_relative_to (fi_path x) (task_dir base tid)"
  shows "spared rq F G s \<Longrightarrow>
    \<forall>(tid, t, d) \<in> set cs. d = task_dir base tid \<and> removable rq tid \<Longrightarrow>
    spared rq F G (free_capacity fails max_total current cs s)"
proof (induction fails max_total current cs s rule: free_capacity.induct)
  case (2 fails max_total current tid t d cs s)
  then have s: "spared rq F G (remove_task False fails tid d s)" using spared_remove [OF _ F] by auto
  show ?case
  proof (cases "current \<le> max_total")
    case False
    then show ?thesis
      unfolding free_capacity.simps if_not_P [OF False] using "2.IH" [OF False s] "2.prems"(2) by (meson list.set_intros(2))
  qed (use "2.prems" in simp)
qed simp

lemma spared_capacity:
  assumes p: "plain_tasks rs base" and F: "\<And>x tid. x \<in> F \<Longrightarrow> removable rq tid \<Longrightarrow> \<not> is_relative_to (fi_path x) (task_dir base tid)" and s: "spared rq F G s"
  shows "spared rq F G (snd (cleanup_capacity rs base fails rq s))"
proof (cases "fold_res (add_candidate rs base rq (sw_fs s)) [] (rq_end_times rq)")
  case (Inr cs)
  have "spared rq F G (free_capacity fails (rq_max_total rq) n (sort_key (\<lambda>c. fst (snd c)) cs) s)" for n
    using candidates_read [OF p Inr] by (intro spared_free [OF F s]) (auto simp: removable_def)
  then show ?thesis using s Inr by (simp add: cleanup_capacity_def Let_def)
qed (use s in \<open>simp add: cleanup_capacity_def Let_def\<close>)

lemma spared_cleanup:
  assumes p: "plain_tasks rs base" and F: "\<And>x tid. x \<in> F \<Longrightarrow> removable rq tid \<Longrightarrow> \<not> is_relative_to (fi_path x) (task_dir base tid)"
    and f: "F \<subseteq> set (fs_files f)" "\<And>x. x \<in> F \<Longrightarrow> \<not> expired_part base (rq_tmp_retention rq) (rq_now rq) x" and G: "set (fs_files f) \<subseteq> G"
  shows "spared rq F G (snd (cleanup rs base fails rq f))"
proof -
  define s where
    "s = \<lparr>sw_fs = snd (cleanup_tmp_files base (rq_tmp_retention rq) (rq_now rq) f), sw_removed = [], sw_errors = []\<rparr>"
  define s1 where
    "s1 = (if rq_mode rq = ''ephemeral'' then cleanup_terminal_tasks rs base fails rq s
                else if 0 < rq_retention rq then cleanup_expired_tasks rs base fails rq s else (Inr (), s))"
  define s2 where
    "s2 = then_sweep s1 (\<lambda>t. if 0 < rq_max_task rq then cleanup_oversized_tasks rs base fails rq t else (Inr (), t))"
  have s: "spared rq F G s" using f G by (auto simp: spared_def s_def cleanup_tmp_files_def)
  note V = spared_visit [OF p F]
  have "spared rq F G (snd s1)"
    using s by (auto simp: s1_def cleanup_terminal_tasks_def cleanup_expired_tasks_def due_by_retention_def intro!: V)
  then have "spared rq F G (snd s2)"
    by (auto simp: s2_def then_sweep_def cleanup_oversized_tasks_def intro!: V split: prod.split sum.split)
  then have "spared rq F G (snd (then_sweep s2 (\<lambda>t. if 0 < rq_max_total rq then cleanup_capacity rs base fails rq t else (Inr (), t))))"
    by (auto simp: then_sweep_def intro!: spared_capacity [OF p F] split: prod.split sum.split)
  then show ?thesis using s unfolding cleanup_def Let_def s_def [symmetric] s1_def [symmetric] s2_def [symmetric] by simp
qed

section \<open>What a cleanup achieves\<close>

definition tidy :: "store \<Rightarrow> file_system \<Rightarrow> bool" where
  "tidy base f \<longleftrightarrow> base \<in> set (fs_dirs f) \<and>
     (\<forall>x \<in> set (fs_files f). \<forall>tid. is_relative_to (fi_path x) (task_dir base tid) \<longrightarrow>
        fi_path x \<noteq> task_dir base tid \<and> task_dir base tid \<in> set (fs_dirs f))"

lemma task_dir_below: "is_relative_to p (task_dir base tid) \<Longrightarrow> below base p"
proof -
  assume p: "is_relative_to p (task_dir base tid)"
  have "is_relative_to p base"
    using p relative_append [of p base "[''tasks'', tid]"] by (simp add: task_dir_def tasks_dir_def)
  moreover have "p \<noteq> base" using p by (auto simp: is_relative_to_def task_dir_def tasks_dir_def)
  ultimately show ?thesis by (simp add: below_def)
qed

lemma tidy_rmtree: "tidy base f \<Longrightarrow> tidy base (rmtree (task_dir base tid) f)"
proof -
  assume t: "tidy base f"
  have "\<not> is_relative_to base (task_dir base tid)" by (simp add: is_relative_to_def task_dir_def tasks_dir_def)
  moreover have "is_relative_to (task_dir base a) (task_dir base tid) \<longleftrightarrow> a = tid" for a
    by (simp add: is_relative_to_def task_dir_def)
  ultimately show ?thesis using t by (auto simp: tidy_def rmtree_def)
qed

lemma sum_without:
  "\<forall>x \<in> set xs. Q x \<longrightarrow> P x \<Longrightarrow>
     sum_list (map g (filter P (filter (\<lambda>x. \<not> Q x) xs))) = sum_list (map g (filter P xs)) - sum_list (map g (filter Q xs))"
  for g :: "'a \<Rightarrow> int"
  by (induction xs) auto

lemma tree_size_rmtree:
  assumes t: "tidy base f"
  shows "tree_size base (rmtree (task_dir base tid) f) = tree_size base f - tree_size (task_dir base tid) f"
proof -
  let ?d = "task_dir base tid"
  have b: "below ?d (fi_path x) \<longleftrightarrow> is_relative_to (fi_path x) ?d" if "x \<in> set (fs_files f)" for x
    using t that by (auto simp: tidy_def below_def)
  have "dir_exists base (rmtree ?d f)" "dir_exists base f"
    using tidy_rmtree [OF t, of tid] t by (simp_all add: tidy_def dir_exists_def)
  moreover have "sum_list (map fi_size (filter (\<lambda>x. below base (fi_path x)) (filter (\<lambda>x. \<not> is_relative_to (fi_path x) ?d) (fs_files f)))) =
      sum_list (map fi_size (filter (\<lambda>x. below base (fi_path x)) (fs_files f))) -
      sum_list (map fi_size (filter (\<lambda>x. is_relative_to (fi_path x) ?d) (fs_files f)))"
    by (rule sum_without) (simp add: task_dir_below)
  moreover have "tree_size ?d f = sum_list (map fi_size (filter (\<lambda>x. is_relative_to (fi_path x) ?d) (fs_files f)))"
  proof (cases "dir_exists ?d f")
    case True
    have "filter (\<lambda>x. below ?d (fi_path x)) (fs_files f) = filter (\<lambda>x. is_relative_to (fi_path x) ?d) (fs_files f)"
      by (rule filter_cong) (simp_all add: b)
    with True show ?thesis by (simp add: tree_size_def)
  next
    case False
    then have "filter (\<lambda>x. is_relative_to (fi_path x) ?d) (fs_files f) = []"
      using t by (auto simp: tidy_def dir_exists_def filter_empty_conv)
    with False show ?thesis by (simp add: tree_size_def)
  qed
  ultimately show ?thesis by (simp add: tree_size_def rmtree_def dir_exists_def)
qed

lemma gone_stays: "\<not> dir_exists d f \<Longrightarrow> \<not> dir_exists d (rmtree e f)" "\<not> dir_exists d f \<Longrightarrow> \<not> dir_exists d (partly_removed e g f)"
  by (auto simp: dir_exists_def rmtree_def partly_removed_def)

lemma rmtree_gone: "\<not> dir_exists d (rmtree d f)"
  by (auto simp: dir_exists_def rmtree_def is_relative_to_def)

lemma gone_free: "\<not> dir_exists d (sw_fs s) \<Longrightarrow> \<not> dir_exists d (sw_fs (free_capacity fails m n cs s))"
proof (induction fails m n cs s rule: free_capacity.induct)
  case (2 fails m n tid t e cs s)
  then have g: "\<not> dir_exists d (sw_fs (remove_task False fails tid e s))"
    by (auto simp: remove_task_def gone_stays Let_def split: option.split)
  show ?case
  proof (cases "n \<le> m")
    case False
    then show ?thesis unfolding free_capacity.simps if_not_P [OF False] by (rule "2.IH" [OF _ g])
  qed (use "2.prems" in simp)
qed simp

lemma free_capacity_enough:
  "fails = (\<lambda>tid. None) \<Longrightarrow> tidy base (sw_fs s) \<Longrightarrow> current = tree_size base (sw_fs s) \<Longrightarrow>
     \<forall>(tid, t, d) \<in> set cs. d = task_dir base tid \<Longrightarrow>
     tree_size base (sw_fs (free_capacity fails m current cs s)) \<le> m \<or>
     (\<forall>(tid, t, d) \<in> set cs. \<not> dir_exists d (sw_fs (free_capacity fails m current cs s)))"
proof (induction fails m current cs s rule: free_capacity.induct)
  case (2 fails m current tid t d cs s)
  let ?s = "remove_task False fails tid d s"
  have s: "sw_fs ?s = rmtree (task_dir base tid) (sw_fs s)" "d = task_dir base tid"
    using "2.prems" by (simp_all add: remove_task_def)
  show ?case
  proof (cases "current \<le> m")
    case False
    have e: "free_capacity fails m current ((tid, t, d) # cs) s = free_capacity fails m (tree_size base (sw_fs ?s)) cs ?s"
      using False "2.prems"(1-3) tree_size_rmtree [of base "sw_fs s" tid] s by simp
    have c: "(if fails tid = None then current - tree_size d (sw_fs s) else current) = tree_size base (sw_fs ?s)"
      using "2.prems"(1-3) tree_size_rmtree [of base "sw_fs s" tid] s by simp
    have "\<not> dir_exists d (sw_fs (free_capacity fails m (tree_size base (sw_fs ?s)) cs ?s))"
    proof (rule gone_free)
      show "\<not> dir_exists d (sw_fs ?s)" unfolding s(1) unfolding s(2) by (rule rmtree_gone)
    qed
    moreover have "tree_size base (sw_fs (free_capacity fails m (tree_size base (sw_fs ?s)) cs ?s)) \<le> m \<or>
        (\<forall>(tid, t, d) \<in> set cs. \<not> dir_exists d (sw_fs (free_capacity fails m (tree_size base (sw_fs ?s)) cs ?s)))"
      using "2.IH" [OF False] "2.prems" tidy_rmtree [of base "sw_fs s" tid] unfolding c s(1) by auto
    ultimately show ?thesis unfolding e by auto
  qed (use "2.prems" in simp)
qed simp

lemma candidates_complete:
  assumes p: "plain_tasks rs base"
  shows "fold_res (add_candidate rs base rq f) cs0 es = Inr cs \<Longrightarrow>
    set cs0 \<subseteq> set cs \<and>
    (\<forall>e \<in> set es. \<not> blocked rq (fst e) \<longrightarrow> dir_exists (task_dir base (fst e)) f \<longrightarrow>
       (\<exists>t. (fst e, t, task_dir base (fst e)) \<in> set cs))"
proof (induction es arbitrary: cs0)
  case (Cons e es)
  then obtain cs1 where c: "add_candidate rs base rq f cs0 e = Inr cs1" "fold_res (add_candidate rs base rq f) cs1 es = Inr cs"
    by auto
  note I = Cons.IH [OF c(2)]
  have "set cs0 \<subseteq> set cs1 \<and> (\<not> blocked rq (fst e) \<longrightarrow> dir_exists (task_dir base (fst e)) f \<longrightarrow>
       (\<exists>t. (fst e, t, task_dir base (fst e)) \<in> set cs1))"
    using c(1) by (auto simp: add_candidate_def task_root_plain [OF p] split: if_splits sum.splits)
  with I show ?case by fastforce
qed simp

lemma tidy_remove:
  "tidy base (sw_fs s) \<Longrightarrow> tidy base (sw_fs (remove_task report (\<lambda>tid. None) tid (task_dir base tid) s))"
  by (simp add: remove_task_def tidy_rmtree)

lemma tidy_visit:
  "plain_tasks rs base \<Longrightarrow> tidy base (sw_fs s) \<Longrightarrow>
     tidy base (sw_fs (snd (visit_all (visit_task rs base (\<lambda>tid. None) report due wanted) es s)))"
proof (induction es arbitrary: s)
  case (Cons e es)
  have "tidy base (sw_fs (snd (visit_task rs base (\<lambda>tid. None) report due wanted e s)))"
    using Cons.prems(2) by (simp add: visit_task_def task_root_plain [OF Cons.prems(1)] tidy_remove split: sum.split)
  with Cons show ?case by (cases "visit_task rs base (\<lambda>tid. None) report due wanted e s") (auto split: sum.splits)
qed simp

lemma tidy_then:
  "tidy base (sw_fs (snd r)) \<Longrightarrow> (\<And>t. tidy base (sw_fs t) \<Longrightarrow> tidy base (sw_fs (snd (g t)))) \<Longrightarrow>
     tidy base (sw_fs (snd (then_sweep r g)))"
  by (cases r) (auto simp: then_sweep_def split: sum.split)

lemma capacity_reached:
  assumes p: "plain_tasks rs base" and t: "tidy base (sw_fs s)"
    and r: "cleanup_capacity rs base (\<lambda>tid. None) rq s = (Inr (), s')"
  shows "tree_size base (sw_fs s') \<le> rq_max_total rq \<or>
    (\<forall>e \<in> set (rq_end_times rq). \<not> blocked rq (fst e) \<longrightarrow> \<not> dir_exists (task_dir base (fst e)) (sw_fs s'))"
proof (cases "tree_size base (sw_fs s) \<le> rq_max_total rq")
  case False
  then obtain cs where c: "fold_res (add_candidate rs base rq (sw_fs s)) [] (rq_end_times rq) = Inr cs"
    and s': "s' = free_capacity (\<lambda>tid. None) (rq_max_total rq) (tree_size base (sw_fs s)) (sort_key (\<lambda>c. fst (snd c)) cs) s"
    using r by (auto simp: cleanup_capacity_def Let_def split: sum.splits)
  have "\<forall>(tid, t, d) \<in> set (sort_key (\<lambda>c. fst (snd c)) cs). d = task_dir base tid"
    using candidates_read [OF p c] by auto
  from free_capacity_enough [OF refl t refl this, of "rq_max_total rq"]
  have "tree_size base (sw_fs s') \<le> rq_max_total rq \<or> (\<forall>(tid, t, d) \<in> set cs. \<not> dir_exists d (sw_fs s'))"
    by (simp add: s')
  moreover have "\<not> dir_exists (task_dir base tid) (sw_fs s')" if "\<not> dir_exists (task_dir base tid) (sw_fs s)" for tid
    using gone_free [OF that] by (simp add: s')
  ultimately show ?thesis using candidates_complete [OF p c] by fastforce
qed (use r in \<open>simp add: cleanup_capacity_def Let_def\<close>)

lemma cleanup_reaches_bound:
  assumes p: "plain_tasks rs base" and f: "tidy base f" and m: "0 < rq_max_total rq"
    and c: "cleanup rs base (\<lambda>tid. None) rq f = (Inr (), s')"
  shows "tree_size base (sw_fs s') \<le> rq_max_total rq \<or>
    (\<forall>e \<in> set (rq_end_times rq). \<not> blocked rq (fst e) \<longrightarrow> \<not> dir_exists (task_dir base (fst e)) (sw_fs s'))"
proof -
  let ?n = "(\<lambda>tid. None) :: rm_failures"
  define s where
    "s = \<lparr>sw_fs = snd (cleanup_tmp_files base (rq_tmp_retention rq) (rq_now rq) f), sw_removed = [], sw_errors = []\<rparr>"
  define s1 where
    "s1 = (if rq_mode rq = ''ephemeral'' then cleanup_terminal_tasks rs base ?n rq s
                else if 0 < rq_retention rq then cleanup_expired_tasks rs base ?n rq s else (Inr (), s))"
  define s2 where
    "s2 = then_sweep s1 (\<lambda>t. if 0 < rq_max_task rq then cleanup_oversized_tasks rs base ?n rq t else (Inr (), t))"
  have "tidy base (sw_fs s)" using f by (auto simp: s_def tidy_def cleanup_tmp_files_def)
  then have "tidy base (sw_fs (snd s1))"
    by (simp add: s1_def cleanup_terminal_tasks_def cleanup_expired_tasks_def tidy_visit [OF p])
  then have "tidy base (sw_fs (snd s2))"
    unfolding s2_def by (rule tidy_then) (simp add: cleanup_oversized_tasks_def tidy_visit [OF p])
  moreover have "then_sweep s2 (\<lambda>t. if 0 < rq_max_total rq then cleanup_capacity rs base ?n rq t else (Inr (), t)) = (Inr (), s')"
    using c unfolding cleanup_def Let_def s_def [symmetric] s1_def [symmetric] s2_def [symmetric]
    by (simp only: split: if_splits) simp_all
  then have "cleanup_capacity rs base ?n rq (snd s2) = (Inr (), s')"
    using m by (simp add: then_sweep_def split: prod.splits sum.splits)
  ultimately show "tree_size base (sw_fs s') \<le> rq_max_total rq \<or>
        (\<forall>e \<in> set (rq_end_times rq). \<not> blocked rq (fst e) \<longrightarrow> \<not> dir_exists (task_dir base (fst e)) (sw_fs s'))"
    by (rule capacity_reached [OF p])
qed

text \<open>C40: A cleanup removes only what it may and reaches its bound. Let no task directory be a link.
  Whatever the settings, with removals that fail half-way and when it ends with an exception: every
  file that is gone was a temporary file past its retention or belonged to a terminal task that is
  neither active nor protected, no file is new, and the tasks it reports as removed are of that kind;
  so every other file of an active or protected task is still there. When it returns normally with
  no failed removal under a positive bound on the total size, the root being a directory and no plain
  file having the place of a task directory, the store is within the bound or no removable task is
  left.\<close>

theorem cleanup_spares_and_bounds:
  assumes p: "plain_tasks rs base" and r: "cleanup rs base fails rq f = (r, s')"
  shows "(\<forall>x \<in> set (fs_files f) - set (fs_files (sw_fs s')).
        expired_part base (rq_tmp_retention rq) (rq_now rq) x \<or>
        (\<exists>tid. removable rq tid \<and> is_relative_to (fi_path x) (task_dir base tid))) \<and>
    set (fs_files (sw_fs s')) \<subseteq> set (fs_files f) \<and>
    (\<forall>tid \<in> set (sw_removed s'). removable rq tid) \<and>
    (\<forall>x \<in> set (fs_files f). \<forall>a. is_relative_to (fi_path x) (task_dir base a) \<and> blocked rq a \<and>
        \<not> expired_part base (rq_tmp_retention rq) (rq_now rq) x \<longrightarrow> x \<in> set (fs_files (sw_fs s'))) \<and>
    (tidy base f \<and> 0 < rq_max_total rq \<and> fails = (\<lambda>tid. None) \<and> r = Inr () \<longrightarrow>
        tree_size base (sw_fs s') \<le> rq_max_total rq \<or>
        (\<forall>tid. removable rq tid \<longrightarrow> \<not> dir_exists (task_dir base tid) (sw_fs s')))"
proof -
  let ?F = "{x \<in> set (fs_files f). \<not> expired_part base (rq_tmp_retention rq) (rq_now rq) x \<and>
    (\<forall>tid. removable rq tid \<longrightarrow> \<not> is_relative_to (fi_path x) (task_dir base tid))}"
  have "spared rq ?F (set (fs_files f)) (snd (cleanup rs base fails rq f))"
    by (rule spared_cleanup [OF p]) blast+
  then have s: "?F \<subseteq> set (fs_files (sw_fs s'))" "set (fs_files (sw_fs s')) \<subseteq> set (fs_files f)"
    "\<forall>tid \<in> set (sw_removed s'). removable rq tid"
    unfolding r snd_conv spared_def by blast+
  have "x \<in> set (fs_files (sw_fs s'))" if x: "x \<in> set (fs_files f)" "is_relative_to (fi_path x) (task_dir base a)" "blocked rq a"
      "\<not> expired_part base (rq_tmp_retention rq) (rq_now rq) x" for x a
  proof -
    have "\<not> is_relative_to (fi_path x) (task_dir base tid)" if "removable rq tid" for tid
      by (rule task_dirs_apart [OF x(2)]) (use that x(3) in \<open>auto simp: removable_def\<close>)
    then show ?thesis using x(1,4) s(1) by blast
  qed
  moreover have "tree_size base (sw_fs s') \<le> rq_max_total rq \<or>
      (\<forall>tid. removable rq tid \<longrightarrow> \<not> dir_exists (task_dir base tid) (sw_fs s'))"
    if "tidy base f" "0 < rq_max_total rq" "fails = (\<lambda>tid. None)" "r = Inr ()"
  proof -
    have "cleanup rs base (\<lambda>tid. None) rq f = (Inr (), s')" using r that(3,4) by simp
    from cleanup_reaches_bound [OF p that(1,2) this] show ?thesis unfolding removable_def by fastforce
  qed
  moreover have "expired_part base (rq_tmp_retention rq) (rq_now rq) x \<or>
      (\<exists>tid. removable rq tid \<and> is_relative_to (fi_path x) (task_dir base tid))"
    if "x \<in> set (fs_files f) - set (fs_files (sw_fs s'))" for x
    using that s(1) by blast
  ultimately show ?thesis using s(2,3) by (intro conjI) blast+
qed

lemma plain_lexical: "\<forall>c \<in> set base. clean_part c \<and> c \<noteq> ''..'' \<Longrightarrow> plain_tasks lexical base"
proof -
  assume b: "\<forall>c \<in> set base. clean_part c \<and> c \<noteq> ''..''"
  have t: "\<forall>c \<in> set (tasks_dir base). clean_part c \<and> c \<noteq> ''..''"
    using b by (auto simp: tasks_dir_def clean_part_def)
  have "lexical (tasks_dir base @ [tid]) = tasks_dir base @ [tid]" if "validate_task_id tid = Inr tid" for tid
  proof -
    have "clean_part tid \<and> tid \<noteq> ''..''" using that by (auto simp: validate_task_id_def clean_part_def split: if_splits)
    with t have "\<forall>c \<in> set (tasks_dir base @ [tid]). clean_part c \<and> c \<noteq> ''..''" by simp
    then show ?thesis unfolding lexical_def using lexical_fixed [of "tasks_dir base @ [tid]" "[]"] by (simp del: foldl_append)
  qed
  moreover have "lexical (tasks_dir base) = tasks_dir base"
    using lexical_fixed [OF t, of "[]"] by (simp add: lexical_def)
  ultimately show ?thesis by (simp add: plain_tasks_def)
qed

definition sample_files :: file_system where
  "sample_files = \<lparr>
     fs_files =
       [\<lparr>fi_path = [''srv'', ''tasks'', ''a'', ''x.mp4''], fi_size = 8, fi_mtime = 1\<rparr>,
        \<lparr>fi_path = [''srv'', ''tasks'', ''b'', ''y.mp4''], fi_size = 7, fi_mtime = 1\<rparr>,
        \<lparr>fi_path = [''srv'', ''tasks'', ''c'', ''z.mp4''], fi_size = 2, fi_mtime = 1\<rparr>],
     fs_dirs = [[''srv''], [''srv'', ''tasks''], [''srv'', ''tasks'', ''a''], [''srv'', ''tasks'', ''b''],
      [''srv'', ''tasks'', ''c'']]\<rparr>"

definition sample_request :: cleanup_request where
  "sample_request = \<lparr>rq_active = [''a''], rq_end_times = [(''b'', Some 5), (''c'', Some 6)], rq_statuses = [], rq_retention = 0,
     rq_tmp_retention = 0, rq_mode = ''persistent'', rq_preserve_failed = False, rq_max_total = 10, rq_max_task = 0, rq_now = 9\<rparr>"

lemma cleanup_spares_and_bounds_witness:
  "tree_size [''srv''] sample_files = 17 \<and>
   hd (fs_files sample_files) \<in> set (fs_files (sw_fs (snd (cleanup lexical [''srv''] (\<lambda>tid. None) sample_request sample_files)))) \<and>
   tree_size [''srv''] (sw_fs (snd (cleanup lexical [''srv''] (\<lambda>tid. None) sample_request sample_files))) \<le> 10"
proof -
  have p: "plain_tasks lexical [''srv'']" by (rule plain_lexical) (simp add: clean_part_def)
  have t: "tidy [''srv''] sample_files"
    by (auto simp: tidy_def sample_files_def is_relative_to_def task_dir_def tasks_dir_def)
  have c: "cleanup lexical [''srv''] (\<lambda>tid. None) sample_request sample_files =
      (Inr (), snd (cleanup lexical [''srv''] (\<lambda>tid. None) sample_request sample_files))"
    by code_simp
  have a: "hd (fs_files sample_files) \<in> set (fs_files sample_files) \<and>
      is_relative_to (fi_path (hd (fs_files sample_files))) (task_dir [''srv''] ''a'') \<and> blocked sample_request ''a'' \<and>
      \<not> expired_part [''srv''] (rq_tmp_retention sample_request) (rq_now sample_request) (hd (fs_files sample_files))"
    by code_simp
  have b: "rq_max_total sample_request = 10" "removable sample_request ''c''"
    and e: "dir_exists (task_dir [''srv''] ''c'') (sw_fs (snd (cleanup lexical [''srv''] (\<lambda>tid. None) sample_request sample_files)))"
    by code_simp+
  have z: "tree_size [''srv''] sample_files = 17" by code_simp
  note C = cleanup_spares_and_bounds [OF p c]
  have "hd (fs_files sample_files) \<in> set (fs_files (sw_fs (snd (cleanup lexical [''srv''] (\<lambda>tid. None) sample_request sample_files))))"
    using conjunct1 [OF conjunct2 [OF conjunct2 [OF conjunct2 [OF C]]]] a by blast
  moreover have "tree_size [''srv''] (sw_fs (snd (cleanup lexical [''srv''] (\<lambda>tid. None) sample_request sample_files))) \<le> 10"
    using conjunct2 [OF conjunct2 [OF conjunct2 [OF conjunct2 [OF C]]]] t b e by auto
  ultimately show ?thesis using z by blast
qed

end
