(* ===== verification/Session_Registry.thy ===== *)
theory Session_Registry
  imports Prelude
begin

text \<open>
  The records of LiveKit sessions, \<open>SessionRegistry\<close> of
  \<open>telefuser/service/livekit/session_registry.py\<close>. The registry is the dictionary of its
  records; readers get copies, which values are. The clock reading is an argument.
\<close>

datatype session_status =
    S_PENDING | S_QUEUED | S_ASSIGNED | S_JOINING_ROOM | S_STARTING_PIPELINE | S_RUNNING
  | S_DRAINING | S_CLOSED | S_FAILED | S_EXPIRED

definition terminal :: "session_status \<Rightarrow> bool" where
  "terminal st \<longleftrightarrow> st \<in> {S_CLOSED, S_FAILED, S_EXPIRED}"

record session_record =
  sr_session_id :: string
  sr_room_name :: string
  sr_controller :: string
  sr_status :: session_status
  sr_worker_id :: "string option"
  sr_pipeline :: "string option"
  sr_config :: "(string \<times> pyval) list"
  sr_error :: "string option"
  sr_created_at :: rat
  sr_updated_at :: rat
  sr_expires_at :: "rat option"
  sr_participants :: int

type_synonym registry = "(string, session_record) odict"

definition live :: "session_record \<Rightarrow> bool" where
  "live r \<longleftrightarrow> \<not> terminal (sr_status r)"

section \<open>Operations\<close>

definition create_record ::
  "rat \<Rightarrow> string \<Rightarrow> string \<Rightarrow> string \<Rightarrow> (string \<times> pyval) list \<Rightarrow> int option \<Rightarrow> registry
     \<Rightarrow> session_record res \<times> registry" where
  "create_record now sid room controller config timeout_s reg =
     (let r = \<lparr>sr_session_id = sid,
               sr_room_name = (if room = [] then ''tf-world-'' @ sid else room),
               sr_controller = controller, sr_status = S_PENDING, sr_worker_id = None, sr_pipeline = None,
               sr_config = config, sr_error = None, sr_created_at = now, sr_updated_at = now,
               sr_expires_at = (case timeout_s of None \<Rightarrow> None
                                | Some t \<Rightarrow> if t = 0 then None else Some (now + of_int t)),
               sr_participants = 0\<rparr>
      in if od_get reg sid \<noteq> None then (Inl (ValueError (''Session '' @ sid @ '' already exists'')), reg)
         else (Inr r, od_put sid r reg))"

definition not_found :: "string \<Rightarrow> py_error" where
  "not_found sid = KeyError (''Session '' @ sid @ '' not found'')"

definition require :: "string \<Rightarrow> registry \<Rightarrow> session_record res" where
  "require sid reg = (case od_get reg sid of None \<Rightarrow> Inl (not_found sid) | Some r \<Rightarrow> Inr r)"

definition update_record ::
  "rat \<Rightarrow> string \<Rightarrow> (session_record \<Rightarrow> session_record) \<Rightarrow> registry \<Rightarrow> session_record res \<times> registry" where
  "update_record now sid f reg =
     (case od_get reg sid of
        None \<Rightarrow> (Inl (not_found sid), reg)
      | Some r \<Rightarrow> let r' = (f r)\<lparr>sr_updated_at := now\<rparr> in (Inr r', od_put sid r' reg))"

definition assign_worker :: "rat \<Rightarrow> string \<Rightarrow> string \<Rightarrow> registry \<Rightarrow> session_record res \<times> registry" where
  "assign_worker now sid wid = update_record now sid (\<lambda>r. r\<lparr>sr_status := S_ASSIGNED, sr_worker_id := Some wid\<rparr>)"

definition set_pipeline_session :: "rat \<Rightarrow> string \<Rightarrow> string \<Rightarrow> registry \<Rightarrow> session_record res \<times> registry" where
  "set_pipeline_session now sid pid = update_record now sid (\<lambda>r. r\<lparr>sr_pipeline := Some pid\<rparr>)"

definition update_status ::
  "rat \<Rightarrow> string \<Rightarrow> session_status \<Rightarrow> string option \<Rightarrow> registry \<Rightarrow> session_record res \<times> registry" where
  "update_status now sid st err = update_record now sid (\<lambda>r. r\<lparr>sr_status := st, sr_error := err\<rparr>)"

definition set_participant_count :: "rat \<Rightarrow> string \<Rightarrow> int \<Rightarrow> registry \<Rightarrow> session_record res \<times> registry" where
  "set_participant_count now sid n = update_record now sid (\<lambda>r. r\<lparr>sr_participants := n\<rparr>)"

definition close_record :: "rat \<Rightarrow> string \<Rightarrow> registry \<Rightarrow> session_record res \<times> registry" where
  "close_record now sid = update_status now sid S_CLOSED None"

definition fail_record :: "rat \<Rightarrow> string \<Rightarrow> string \<Rightarrow> registry \<Rightarrow> session_record res \<times> registry" where
  "fail_record now sid err = update_status now sid S_FAILED (Some err)"

definition expire_record :: "rat \<Rightarrow> string \<Rightarrow> registry \<Rightarrow> session_record res \<times> registry" where
  "expire_record now sid = update_status now sid S_EXPIRED None"

definition delete_record :: "string \<Rightarrow> registry \<Rightarrow> bool \<times> registry" where
  "delete_record sid reg = (od_get reg sid \<noteq> None, od_del sid reg)"

definition expired_active_records :: "rat \<Rightarrow> registry \<Rightarrow> session_record list" where
  "expired_active_records now reg =
     filter (\<lambda>r. \<not> terminal (sr_status r) \<and> (case sr_expires_at r of None \<Rightarrow> False | Some t \<Rightarrow> t \<le> now)) (od_vals reg)"

definition prunable :: "rat \<Rightarrow> session_record \<Rightarrow> bool" where
  "prunable before r \<longleftrightarrow> terminal (sr_status r) \<and> sr_updated_at r < before"

definition prune_terminal :: "rat \<Rightarrow> registry \<Rightarrow> nat \<times> registry" where
  "prune_terminal before reg =
     (length (filter (\<lambda>e. prunable before (snd e)) reg), filter (\<lambda>e. \<not> prunable before (snd e)) reg)"

section \<open>Facts\<close>

lemma update_record_result:
  "update_record now sid f reg = (Inr r, reg') \<Longrightarrow>
     \<exists>r0. od_get reg sid = Some r0 \<and> r = (f r0)\<lparr>sr_updated_at := now\<rparr> \<and> reg' = od_put sid r reg"
  by (auto simp: update_record_def Let_def split: option.splits)

lemma update_record_error: "update_record now sid f reg = (Inl e, reg') \<Longrightarrow> od_get reg sid = None \<and> reg' = reg"
  by (auto simp: update_record_def Let_def split: option.splits)

lemma update_record_get:
  "od_get (snd (update_record now sid f reg)) k =
     (if k = sid then map_option (\<lambda>r. (f r)\<lparr>sr_updated_at := now\<rparr>) (od_get reg sid) else od_get reg k)"
  by (auto simp: update_record_def Let_def split: option.split)

lemma update_record_ok: "od_ok reg \<Longrightarrow> od_ok (snd (update_record now sid f reg))"
  by (simp add: update_record_def Let_def split: option.split)

lemma prune_get: "od_ok reg \<Longrightarrow> od_get (snd (prune_terminal b reg)) k =
    (case od_get reg k of None \<Rightarrow> None | Some r \<Rightarrow> if prunable b r then None else Some r)"
proof (induction reg)
  case (Cons e reg)
  have "od_get reg (fst e) = None" using Cons.prems by (simp add: od_ok_def map_of_eq_None_iff)
  with Cons show ?case by (cases e) (auto simp: prune_terminal_def od_ok_def split: option.splits)
qed (simp add: prune_terminal_def)

lemma prune_ok: "od_ok reg \<Longrightarrow> od_ok (snd (prune_terminal b reg))"
  by (induction reg) (auto simp: prune_terminal_def od_ok_def)

lemmas record_updates = assign_worker_def set_pipeline_session_def update_status_def set_participant_count_def
  close_record_def fail_record_def expire_record_def

end
