(* ===== verification/Room_Pool.thy ===== *)
theory Room_Pool
  imports Live_Scheduler Session_Registry
begin

text \<open>
  Room workers of LiveKit serving and the pool that runs them in the API process:
  \<open>MultiSessionLiveKitWorker\<close> (\<open>telefuser/service/livekit/multi_session_worker.py\<close>) and
  \<open>InProcessLiveKitWorkerPool\<close> (\<open>telefuser/service/livekit/worker_pool.py\<close>). Each started session
  is an asyncio task on one worker; a task waits for the event loop, serves its room, and ends.
  What the pipeline and the room do in between is the environment's.
\<close>

section \<open>The status a worker shows\<close>

text \<open>The order in which a worker prefers the statuses of its sessions; those it never shows come last.\<close>

primrec status_rank :: "worker_status \<Rightarrow> nat" where
  "status_rank W_RUNNING = 0"
| "status_rank W_DRAINING = 1"
| "status_rank W_STARTING_PIPELINE = 2"
| "status_rank W_JOINING_ROOM = 3"
| "status_rank W_ASSIGNED = 4"
| "status_rank W_STARTING = 5"
| "status_rank W_IDLE = 6"
| "status_rank W_FAILED = 7"
| "status_rank W_STOPPED = 8"

instantiation worker_status :: linorder
begin

definition less_eq_worker_status :: "worker_status \<Rightarrow> worker_status \<Rightarrow> bool" where
  "less_eq_worker_status a b \<longleftrightarrow> status_rank a \<le> status_rank b"

definition less_worker_status :: "worker_status \<Rightarrow> worker_status \<Rightarrow> bool" where
  "less_worker_status a b \<longleftrightarrow> status_rank a < status_rank b"

instance
proof
  fix a b c :: worker_status
  show "a < b \<longleftrightarrow> a \<le> b \<and> \<not> b \<le> a" by (auto simp: less_eq_worker_status_def less_worker_status_def)
  show "a \<le> a" by (simp add: less_eq_worker_status_def)
  show "a \<le> b \<Longrightarrow> b \<le> c \<Longrightarrow> a \<le> c" by (simp add: less_eq_worker_status_def)
  show "a \<le> b \<Longrightarrow> b \<le> a \<Longrightarrow> a = b"
    by (cases a; cases b) (simp_all add: less_eq_worker_status_def)
  show "a \<le> b \<or> b \<le> a" by (auto simp: less_eq_worker_status_def)
qed

end

definition shown_statuses :: "worker_status list" where
  "shown_statuses = [W_RUNNING, W_DRAINING, W_STARTING_PIPELINE, W_JOINING_ROOM, W_ASSIGNED, W_STARTING]"

definition aggregate_status :: "(string, worker_status) odict \<Rightarrow> worker_status" where
  "aggregate_status ds = (case filter (\<lambda>st. st \<in> set (od_vals ds)) shown_statuses of [] \<Rightarrow> W_IDLE | st # rest \<Rightarrow> st)"

text \<open>The shown status is the least one of the sessions, idle when there is none.\<close>

lemma aggregate_in:
  "aggregate_status ds \<noteq> W_IDLE \<Longrightarrow> aggregate_status ds \<in> set (od_vals ds)"
proof (cases "filter (\<lambda>st. st \<in> set (od_vals ds)) shown_statuses")
  case (Cons st rest)
  then have "st \<in> set (filter (\<lambda>st. st \<in> set (od_vals ds)) shown_statuses)" by (metis list.set_intros(1))
  then have "st \<in> set (od_vals ds)" unfolding set_filter by blast
  then show ?thesis unfolding aggregate_status_def Cons by simp
qed (simp add: aggregate_status_def)

lemma aggregate_least:
  assumes "st \<in> set (od_vals ds)" and "st \<le> W_STARTING"
  shows "aggregate_status ds \<le> st"
proof -
  let ?f = "filter (\<lambda>st. st \<in> set (od_vals ds)) shown_statuses"
  have "st \<in> set shown_statuses" using assms(2) by (cases st) (simp_all add: shown_statuses_def less_eq_worker_status_def)
  with assms(1) have m: "st \<in> set ?f" unfolding set_filter by blast
  have "sorted shown_statuses" by (simp add: shown_statuses_def less_eq_worker_status_def)
  then have sorted: "sorted ?f" using sorted_filter [of id] by simp
  show ?thesis
  proof (cases ?f)
    case (Cons x xs)
    show ?thesis using m sorted unfolding aggregate_status_def Cons by auto
  qed (use m in simp)
qed

section \<open>Workers and their pool\<close>

record room_worker =
  mw_started :: bool
  mw_capacity :: int
  mw_sessions :: "string list"
  mw_statuses :: "(string, worker_status) odict"

datatype task_phase = Waiting | Serving | Failed py_error | Ended

definition task_over :: "task_phase \<Rightarrow> bool" where
  "task_over ph \<longleftrightarrow> ph \<noteq> Waiting \<and> ph \<noteq> Serving"

record room_pool =
  wp_started :: bool
  wp_workers :: "(string, room_worker) odict"
  wp_active :: "string list"
  wp_tasks :: "(string, string \<times> task_phase) odict"

definition new_room_worker :: "int option \<Rightarrow> room_worker" where
  "new_room_worker limit =
     \<lparr>mw_started = False, mw_capacity = (case limit of None \<Rightarrow> 1 | Some n \<Rightarrow> if n = 0 then 1 else n),
      mw_sessions = [], mw_statuses = []\<rparr>"

definition new_room_pool :: "int option \<Rightarrow> string list \<Rightarrow> int option \<Rightarrow> room_pool res" where
  "new_room_pool limit wids initial =
     (if (case initial of None \<Rightarrow> False | Some n \<Rightarrow> \<not> (1 \<le> n \<and> n \<le> int (length wids))) then
        Inl (ValueError ''initial_workers must be within the configured worker pool'')
      else Inr \<lparr>wp_started = False, wp_workers = map (\<lambda>w. (w, new_room_worker limit)) wids, wp_active = [], wp_tasks = []\<rparr>)"

definition put_room_worker :: "string \<Rightarrow> room_worker \<Rightarrow> room_pool \<Rightarrow> room_pool" where
  "put_room_worker wid w p = p\<lparr>wp_workers := od_put wid w (wp_workers p)\<rparr>"

definition put_task :: "string \<Rightarrow> string \<Rightarrow> task_phase \<Rightarrow> room_pool \<Rightarrow> room_pool" where
  "put_task sid wid ph p = p\<lparr>wp_tasks := od_put sid (wid, ph) (wp_tasks p)\<rparr>"

definition start_room_session :: "session_record \<Rightarrow> room_pool \<Rightarrow> unit res \<times> room_pool" where
  "start_room_session r p =
     (if \<not> wp_started p then (Inl (RuntimeError ''LiveKit worker pool is not started''), p)
      else case sr_worker_id r of
        None \<Rightarrow> (Inl (RuntimeError (''Session '' @ sr_session_id r @ '' has no assigned worker'')), p)
      | Some wid \<Rightarrow>
          if wid \<notin> set (wp_active p) then (Inl (RuntimeError (''Worker '' @ wid @ '' is not active'')), p)
          else if od_get (wp_tasks p) (sr_session_id r) \<noteq> None then
            (Inl (RuntimeError (''Session '' @ sr_session_id r @ '' is already running'')), p)
          else if od_get (wp_workers p) wid = None then (Inl (KeyError wid), p)
          else (Inr (), put_task (sr_session_id r) wid Waiting p))"

text \<open>
  The first step of a task: the worker takes the session in, or the task fails. Nobody is told
  of that failure but the log.
\<close>

definition take_in :: "string \<Rightarrow> string \<Rightarrow> room_worker \<Rightarrow> unit res \<times> room_worker" where
  "take_in wid sid w =
     (if \<not> mw_started w then (Inl (RuntimeError (''Worker '' @ wid @ '' is not started'')), w)
      else if sid \<in> set (mw_sessions w) then (Inl (RuntimeError (''Session '' @ sid @ '' is already running'')), w)
      else if mw_capacity w \<le> int (length (mw_sessions w)) then
        (Inl (RuntimeError (''Worker '' @ wid @ '' retained-session capacity is full'')), w)
      else (Inr (), w\<lparr>mw_sessions := mw_sessions w @ [sid], mw_statuses := od_put sid W_ASSIGNED (mw_statuses w)\<rparr>))"

definition task_begin :: "string \<Rightarrow> room_pool \<Rightarrow> room_pool" where
  "task_begin sid p =
     (case od_get (wp_tasks p) sid of
        Some (wid, Waiting) \<Rightarrow>
          (case od_get (wp_workers p) wid of
             None \<Rightarrow> p
           | Some w \<Rightarrow>
               (case take_in wid sid w of
                  (Inl err, w') \<Rightarrow> put_task sid wid (Failed err) p
                | (Inr u, w') \<Rightarrow> put_task sid wid Serving (put_room_worker wid w' p)))
      | _ \<Rightarrow> p)"

text \<open>The worker that serves a session, when one does.\<close>

definition serving :: "room_pool \<Rightarrow> string \<Rightarrow> string option" where
  "serving p sid = (case od_get (wp_tasks p) sid of Some (wid, Serving) \<Rightarrow> Some wid | _ \<Rightarrow> None)"

text \<open>A status of a session's runner, and the status its worker then publishes.\<close>

definition runner_status :: "string \<Rightarrow> worker_status \<Rightarrow> room_pool \<Rightarrow> (string \<times> worker_status) option \<times> room_pool" where
  "runner_status sid st p =
     (case serving p sid of
        None \<Rightarrow> (None, p)
      | Some wid \<Rightarrow>
          (case od_get (wp_workers p) wid of
             None \<Rightarrow> (None, p)
           | Some w \<Rightarrow>
               if od_get (mw_statuses w) sid = None then (None, p)
               else let w' = w\<lparr>mw_statuses := od_put sid st (mw_statuses w)\<rparr>
                    in (Some (wid, aggregate_status (mw_statuses w')), put_room_worker wid w' p)))"

text \<open>
  The \<open>finally\<close> of \<open>run_session\<close>: the worker forgets the session and publishes its status. \<open>ph\<close> is how
  the task has ended, \<open>Failed\<close> when the runner has raised.
\<close>

definition runner_end :: "string \<Rightarrow> task_phase \<Rightarrow> room_pool \<Rightarrow> (string \<times> worker_status) option \<times> room_pool" where
  "runner_end sid ph p =
     (case serving p sid of
        None \<Rightarrow> (None, p)
      | Some wid \<Rightarrow>
          (case od_get (wp_workers p) wid of
             None \<Rightarrow> (None, put_task sid wid ph p)
           | Some w \<Rightarrow>
               let w' = w\<lparr>mw_sessions := removeAll sid (mw_sessions w), mw_statuses := od_del sid (mw_statuses w)\<rparr>
               in (Some (wid, aggregate_status (mw_statuses w')), put_task sid wid ph (put_room_worker wid w' p))))"

text \<open>A task that is cancelled before its first step never enters its body.\<close>

definition task_cancel :: "string \<Rightarrow> room_pool \<Rightarrow> room_pool" where
  "task_cancel sid p =
     (case od_get (wp_tasks p) sid of Some (wid, Waiting) \<Rightarrow> put_task sid wid Ended p | _ \<Rightarrow> p)"

definition task_done :: "string \<Rightarrow> room_pool \<Rightarrow> room_pool" where
  "task_done sid p =
     (case od_get (wp_tasks p) sid of
        Some (wid, ph) \<Rightarrow> if task_over ph then p\<lparr>wp_tasks := od_del sid (wp_tasks p)\<rparr> else p
      | None \<Rightarrow> p)"

section \<open>Scaling\<close>

definition next_inactive :: "room_pool \<Rightarrow> string option" where
  "next_inactive p = find (\<lambda>w. w \<notin> set (wp_active p)) (od_keys (wp_workers p))"

text \<open>
  Loading the pipeline of a worker: \<open>capacity\<close> is what its adapter reports, \<open>refusal\<close> the exception of
  the callback that announces it.
\<close>

definition load_worker :: "bool \<Rightarrow> int \<Rightarrow> py_error option \<Rightarrow> room_worker \<Rightarrow> unit res \<times> room_worker" where
  "load_worker bidirectional capacity refusal w =
     (if mw_started w then (Inr (), w)
      else if refusal \<noteq> None then (Inl (the refusal), w\<lparr>mw_capacity := capacity\<rparr>)
      else if 1 < capacity \<and> \<not> bidirectional then
        (Inl (RuntimeError ''Multiple retained sessions require a BidirectionalService pipeline''),
         w\<lparr>mw_capacity := capacity\<rparr>)
      else (Inr (), w\<lparr>mw_capacity := capacity, mw_started := True\<rparr>))"

definition scale_out :: "bool \<Rightarrow> int \<Rightarrow> py_error option \<Rightarrow> room_pool \<Rightarrow> string option \<times> room_pool" where
  "scale_out bidirectional capacity refusal p =
     (if \<not> wp_started p then (None, p)
      else case next_inactive p of
        None \<Rightarrow> (None, p)
      | Some wid \<Rightarrow>
          (case od_get (wp_workers p) wid of
             None \<Rightarrow> (None, p)
           | Some w \<Rightarrow>
               (case load_worker bidirectional capacity refusal w of
                  (Inl err, w') \<Rightarrow> (None, put_room_worker wid w' p)
                | (Inr u, w') \<Rightarrow> (Some wid, (put_room_worker wid w' p)\<lparr>wp_active := wp_active p @ [wid]\<rparr>))))"

definition scale_in_candidate :: "(string \<Rightarrow> nat) \<Rightarrow> room_pool \<Rightarrow> string option" where
  "scale_in_candidate retained p =
     find (\<lambda>w. w \<in> set (wp_active p) \<and> w \<notin> set (map fst (od_vals (wp_tasks p))) \<and> retained w = 0)
       (rev (od_keys (wp_workers p)))"

text \<open>Retiring a worker: it stops admitting, then waits for its adapter to close, and is inactive after that.\<close>

definition retire_begin :: "(string \<Rightarrow> nat) \<Rightarrow> room_pool \<Rightarrow> string option \<times> room_pool" where
  "retire_begin retained p =
     (if \<not> wp_started p then (None, p)
      else case scale_in_candidate retained p of
        None \<Rightarrow> (None, p)
      | Some wid \<Rightarrow>
          (case od_get (wp_workers p) wid of
             None \<Rightarrow> (None, p)
           | Some w \<Rightarrow> (Some wid, put_room_worker wid (w\<lparr>mw_started := False\<rparr>) p)))"

definition retire_end :: "string \<Rightarrow> room_pool \<Rightarrow> room_pool" where
  "retire_end wid p = p\<lparr>wp_active := removeAll wid (wp_active p)\<rparr>"

text \<open>Starting and closing the pool. When it closes it has stopped the sessions it knew of.\<close>

definition open_pool :: "room_pool \<Rightarrow> room_pool" where
  "open_pool p = p\<lparr>wp_started := True\<rparr>"

definition close_pool :: "room_pool \<Rightarrow> room_pool" where
  "close_pool p =
     p\<lparr>wp_workers := map (\<lambda>(k, w). (k, if k \<in> set (wp_active p) then w\<lparr>mw_started := False\<rparr> else w)) (wp_workers p),
       wp_active := [], wp_started := False\<rparr>"

section \<open>The invariant of the pool\<close>

definition worker_ok :: "room_pool \<Rightarrow> string \<Rightarrow> room_worker \<Rightarrow> bool" where
  "worker_ok p wid w \<longleftrightarrow>
     distinct (mw_sessions w) \<and> int (length (mw_sessions w)) \<le> max 0 (mw_capacity w) \<and>
     (\<forall>sid. sid \<in> set (mw_sessions w) \<longleftrightarrow> serving p sid = Some wid) \<and>
     (wp_started p \<longrightarrow> \<not> mw_started w \<longrightarrow> mw_sessions w = [])"

definition room_ok :: "room_pool \<Rightarrow> bool" where
  "room_ok p \<longleftrightarrow>
     (\<forall>wid w. od_get (wp_workers p) wid = Some w \<longrightarrow> worker_ok p wid w) \<and>
     (\<forall>sid wid ph. od_get (wp_tasks p) sid = Some (wid, ph) \<longrightarrow> od_get (wp_workers p) wid \<noteq> None)"

lemma serving_put [simp]:
  "serving (put_task sid wid ph p) x = (if x = sid then (if ph = Serving then Some wid else None) else serving p x)"
  by (cases ph) (auto simp: serving_def put_task_def)

lemma serving_worker [simp]: "serving (put_room_worker wid w p) = serving p"
  by (rule ext) (simp add: serving_def put_room_worker_def)

lemma serving_active [simp]: "serving (p\<lparr>wp_active := a\<rparr>) = serving p" "serving (p\<lparr>wp_started := b\<rparr>) = serving p"
  by (rule ext, simp add: serving_def)+

lemma pool_fields [simp]:
  "wp_workers (put_task sid wid ph p) = wp_workers p"
  "wp_tasks (put_room_worker wid w p) = wp_tasks p"
  "wp_tasks (put_task sid wid ph p) = od_put sid (wid, ph) (wp_tasks p)"
  "wp_workers (put_room_worker wid w p) = od_put wid w (wp_workers p)"
  "wp_started (put_task sid wid ph p) = wp_started p"
  "wp_started (put_room_worker wid w p) = wp_started p"
  "wp_active (put_task sid wid ph p) = wp_active p"
  "wp_active (put_room_worker wid w p) = wp_active p"
  by (simp_all add: put_task_def put_room_worker_def)

lemma room_okD: "room_ok p \<Longrightarrow> od_get (wp_workers p) wid = Some w \<Longrightarrow> worker_ok p wid w"
  by (simp add: room_ok_def)

lemma worker_ok_cong:
  "serving p' = serving p \<Longrightarrow> wp_started p' = wp_started p \<Longrightarrow> worker_ok p' = worker_ok p"
  by (intro ext) (simp add: worker_ok_def)

lemma room_ok_task:
  assumes "room_ok p" and "od_get (wp_workers p) wid \<noteq> None" and "serving p sid = None" and "ph \<noteq> Serving"
  shows "room_ok (put_task sid wid ph p)"
proof -
  have "serving (put_task sid wid ph p) = serving p" using assms(3,4) by (auto intro!: ext)
  then have "worker_ok (put_task sid wid ph p) = worker_ok p" by (rule worker_ok_cong) simp
  with assms(1,2) show ?thesis by (auto simp: room_ok_def)
qed

lemma room_ok_start: "room_ok p \<Longrightarrow> room_ok (snd (start_room_session r p))"
  by (auto simp: start_room_session_def serving_def intro!: room_ok_task split: option.split)

lemma room_ok_begin: "room_ok p \<Longrightarrow> room_ok (task_begin sid p)"
proof -
  assume ok: "room_ok p"
  show ?thesis
  proof (cases "\<exists>wid w. od_get (wp_tasks p) sid = Some (wid, Waiting) \<and> od_get (wp_workers p) wid = Some w")
    case True
    then obtain wid w where t: "od_get (wp_tasks p) sid = Some (wid, Waiting)" "od_get (wp_workers p) wid = Some w" by blast
    then have n: "serving p sid = None" by (simp add: serving_def)
    note w = room_okD [OF ok t(2)]
    show ?thesis
    proof (cases "take_in wid sid w")
      case (Pair r w')
      show ?thesis
      proof (cases r)
        case (Inl e)
        have "room_ok (put_task sid wid (Failed e) p)" by (rule room_ok_task [OF ok _ n]) (simp_all add: t(2))
        then show ?thesis using t Pair Inl by (simp add: task_begin_def)
      next
        case (Inr u)
        then have w': "w' = w\<lparr>mw_sessions := mw_sessions w @ [sid], mw_statuses := od_put sid W_ASSIGNED (mw_statuses w)\<rparr>"
          "mw_started w" "sid \<notin> set (mw_sessions w)" "int (length (mw_sessions w)) < mw_capacity w"
          using Pair by (auto simp: take_in_def split: if_splits)
        have "worker_ok (put_task sid wid Serving (put_room_worker wid w' p)) wid w'"
          using w w' n by (auto simp: worker_ok_def)
        moreover have "worker_ok (put_task sid wid Serving (put_room_worker wid w' p)) v x"
          if "od_get (wp_workers p) v = Some x" "v \<noteq> wid" for v x
          using room_okD [OF ok that(1)] that(2) n by (auto simp: worker_ok_def)
        ultimately have "room_ok (put_task sid wid Serving (put_room_worker wid w' p))"
          using ok t(2) by (auto simp: room_ok_def)
        then show ?thesis using t Pair Inr by (simp add: task_begin_def)
      qed
    qed
  next
    case False
    then have "task_begin sid p = p"
      by (auto simp: task_begin_def split: option.split task_phase.split)
    with ok show ?thesis by simp
  qed
qed

lemma room_ok_worker:
  assumes ok: "room_ok p" and w: "od_get (wp_workers p) wid = Some w"
    and same: "mw_sessions w' = mw_sessions w" "mw_capacity w' = mw_capacity w" "mw_started w' = mw_started w"
  shows "room_ok (put_room_worker wid w' p)"
proof -
  have c: "worker_ok (put_room_worker wid w' p) = worker_ok p" by (rule worker_ok_cong) simp_all
  have "worker_ok p wid w'" using room_okD [OF ok w] same by (simp add: worker_ok_def)
  with ok show ?thesis by (auto simp: room_ok_def c)
qed

lemma room_ok_known: "room_ok p \<Longrightarrow> od_get (wp_tasks p) sid = Some (wid, ph) \<Longrightarrow> \<exists>w. od_get (wp_workers p) wid = Some w"
  unfolding room_ok_def by blast

lemma serving_task: "serving p sid = Some wid \<longleftrightarrow> od_get (wp_tasks p) sid = Some (wid, Serving)"
  by (auto simp: serving_def split: option.splits prod.splits task_phase.splits)

lemma room_ok_status: "room_ok p \<Longrightarrow> room_ok (snd (runner_status sid st p))"
  by (auto simp: runner_status_def Let_def intro!: room_ok_worker split: option.split)

lemma room_ok_end:
  assumes ok: "room_ok p" and ph: "ph \<noteq> Serving"
  shows "room_ok (snd (runner_end sid ph p))"
proof (cases "serving p sid")
  case (Some wid)
  then have t: "od_get (wp_tasks p) sid = Some (wid, Serving)" by (simp add: serving_task)
  obtain w where w: "od_get (wp_workers p) wid = Some w" using room_ok_known [OF ok t] by blast
  let ?w = "w\<lparr>mw_sessions := removeAll sid (mw_sessions w), mw_statuses := od_del sid (mw_statuses w)\<rparr>"
  let ?p = "put_task sid wid ph (put_room_worker wid ?w p)"
  note k = room_okD [OF ok w]
  have "length (removeAll sid (mw_sessions w)) \<le> length (mw_sessions w)" by simp
  then have l: "int (length (removeAll sid (mw_sessions w))) \<le> max 0 (mw_capacity w)"
    using k unfolding worker_ok_def by linarith
  have "worker_ok ?p wid ?w"
    using k Some l ph by (auto simp: worker_ok_def distinct_removeAll simp del: removeAll_filter_not_eq)
  moreover have "worker_ok ?p v x" if "od_get (wp_workers p) v = Some x" "v \<noteq> wid" for v x
    using room_okD [OF ok that(1)] that(2) Some ph by (auto simp: worker_ok_def)
  ultimately have "room_ok ?p" using ok w by (auto simp: room_ok_def)
  then show ?thesis using Some w by (simp add: runner_end_def Let_def)
qed (simp add: runner_end_def ok)

lemma room_ok_cancel: "room_ok p \<Longrightarrow> room_ok (task_cancel sid p)"
proof -
  assume ok: "room_ok p"
  show ?thesis
  proof (cases "\<exists>wid. od_get (wp_tasks p) sid = Some (wid, Waiting)")
    case True
    then obtain wid where t: "od_get (wp_tasks p) sid = Some (wid, Waiting)" by blast
    then have "od_get (wp_workers p) wid \<noteq> None" using ok by (force simp: room_ok_def)
    then have "room_ok (put_task sid wid Ended p)" by (rule room_ok_task [OF ok]) (simp_all add: serving_def t)
    with t show ?thesis by (simp add: task_cancel_def)
  next
    case False
    then have "task_cancel sid p = p" by (auto simp: task_cancel_def split: option.split task_phase.split)
    with ok show ?thesis by simp
  qed
qed

lemma room_ok_done: "room_ok p \<Longrightarrow> room_ok (task_done sid p)"
proof -
  assume ok: "room_ok p"
  show ?thesis
  proof (cases "\<exists>wid ph. od_get (wp_tasks p) sid = Some (wid, ph) \<and> task_over ph")
    case True
    let ?p = "p\<lparr>wp_tasks := od_del sid (wp_tasks p)\<rparr>"
    have "serving ?p = serving p" using True by (auto simp: serving_def task_over_def intro!: ext split: task_phase.split)
    then have "worker_ok ?p = worker_ok p" by (rule worker_ok_cong) simp
    with ok have "room_ok ?p" by (auto simp: room_ok_def)
    with True show ?thesis by (auto simp: task_done_def)
  next
    case False
    then have "task_done sid p = p" by (auto simp: task_done_def split: option.split)
    with ok show ?thesis by simp
  qed
qed

lemma room_ok_idle_worker:
  assumes ok: "room_ok p" and w: "od_get (wp_workers p) wid = Some w" and e: "mw_sessions w = []" "mw_sessions w' = []"
    and s: "serving p' = serving p" "wp_tasks p' = wp_tasks p" "wp_started p' = wp_started p"
    and o: "wp_workers p' = od_put wid w' (wp_workers p)"
  shows "room_ok p'"
proof -
  have c: "worker_ok p' = worker_ok p" by (rule worker_ok_cong) (rule s)+
  have "worker_ok p wid w'" using room_okD [OF ok w] e by (simp add: worker_ok_def)
  with ok show ?thesis by (auto simp: room_ok_def c s(2) o)
qed

lemma room_ok_scale_out: "room_ok p \<Longrightarrow> room_ok (snd (scale_out b c a p))"
proof -
  assume ok: "room_ok p"
  show ?thesis
  proof (cases "wp_started p \<and> (\<exists>wid w. next_inactive p = Some wid \<and> od_get (wp_workers p) wid = Some w)")
    case True
    then obtain wid w where n: "wp_started p" "next_inactive p = Some wid" "od_get (wp_workers p) wid = Some w" by blast
    obtain r w' where l: "load_worker b c a w = (r, w')" by fastforce
    note k = room_okD [OF ok n(3)]
    have "room_ok (put_room_worker wid w' p) \<and> room_ok ((put_room_worker wid w' p)\<lparr>wp_active := wp_active p @ [wid]\<rparr>)"
    proof (cases "mw_started w")
      case True
      then have "w' = w" using l by (simp add: load_worker_def)
      have m: "room_ok (put_room_worker wid w' p)" by (rule room_ok_worker [OF ok n(3)]) (simp_all add: \<open>w' = w\<close>)
      have c: "worker_ok ((put_room_worker wid w' p)\<lparr>wp_active := wp_active p @ [wid]\<rparr>) = worker_ok (put_room_worker wid w' p)"
        by (rule worker_ok_cong) simp_all
      show ?thesis using m by (auto simp: room_ok_def c)
    next
      case False
      then have e: "mw_sessions w = []" "mw_sessions w' = []"
        using k n(1) l by (auto simp: worker_ok_def load_worker_def split: if_splits)
      show ?thesis by (intro conjI; rule room_ok_idle_worker [OF ok n(3) e]) simp_all
    qed
    then show ?thesis using n l by (simp add: scale_out_def split: sum.split)
  next
    case False
    then have "snd (scale_out b c a p) = p" by (auto simp: scale_out_def split: option.split)
    with ok show ?thesis by simp
  qed
qed

lemma candidate_idle:
  assumes "room_ok p" and "scale_in_candidate retained p = Some wid" and "od_get (wp_workers p) wid = Some w"
  shows "mw_sessions w = []"
proof -
  have n: "wid \<notin> set (map fst (od_vals (wp_tasks p)))"
    using assms(2) by (auto simp: scale_in_candidate_def find_Some_iff)
  have "serving p sid \<noteq> Some wid" for sid
    using n by (force simp: serving_task dest!: map_of_SomeD)
  then show ?thesis
    using room_okD [OF assms(1,3)] by (auto simp: worker_ok_def)
qed

lemma room_ok_retire: "room_ok p \<Longrightarrow> room_ok (snd (retire_begin retained p))" "room_ok p \<Longrightarrow> room_ok (retire_end wid p)"
proof -
  assume ok: "room_ok p"
  show "room_ok (snd (retire_begin retained p))"
  proof (cases "wp_started p \<and> (\<exists>wid w. scale_in_candidate retained p = Some wid \<and> od_get (wp_workers p) wid = Some w)")
    case True
    then obtain wid w where n: "wp_started p" "scale_in_candidate retained p = Some wid" "od_get (wp_workers p) wid = Some w" by blast
    have e: "mw_sessions w = []" by (rule candidate_idle [OF ok n(2,3)])
    have "room_ok (put_room_worker wid (w\<lparr>mw_started := False\<rparr>) p)"
      by (rule room_ok_idle_worker [OF ok n(3) e]) (simp_all add: e)
    then show ?thesis using n by (simp add: retire_begin_def)
  next
    case False
    then have "snd (retire_begin retained p) = p" by (auto simp: retire_begin_def split: option.split)
    with ok show ?thesis by simp
  qed
  have "worker_ok (retire_end wid p) = worker_ok p" by (rule worker_ok_cong) (simp_all add: retire_end_def)
  with ok show "room_ok (retire_end wid p)" by (auto simp: room_ok_def retire_end_def)
qed

lemma room_ok_close: "room_ok p \<Longrightarrow> room_ok (close_pool p)"
proof -
  assume ok: "room_ok p"
  have g: "od_get (wp_workers (close_pool p)) v =
      map_option (\<lambda>w. if v \<in> set (wp_active p) then w\<lparr>mw_started := False\<rparr> else w) (od_get (wp_workers p) v)" for v
  proof -
    have "od_get (map (\<lambda>(k, w). (k, if k \<in> set a then w\<lparr>mw_started := False\<rparr> else w)) ws) v =
        map_option (\<lambda>w. if v \<in> set a then w\<lparr>mw_started := False\<rparr> else w) (od_get ws v)" for a ws
      by (induction ws) auto
    then show ?thesis by (simp add: close_pool_def)
  qed
  have s: "serving (close_pool p) = serving p" by (rule ext) (simp add: serving_def close_pool_def)
  show ?thesis
    unfolding room_ok_def
  proof (intro conjI allI impI)
    fix wid w
    assume "od_get (wp_workers (close_pool p)) wid = Some w"
    then obtain w0 where "od_get (wp_workers p) wid = Some w0" "mw_sessions w = mw_sessions w0" "mw_capacity w = mw_capacity w0"
      by (auto simp: g)
    with room_okD [OF ok this(1)] show "worker_ok (close_pool p) wid w"
      by (simp add: worker_ok_def s) (simp add: close_pool_def)
  next
    fix sid wid ph
    assume "od_get (wp_tasks (close_pool p)) sid = Some (wid, ph)"
    then have "od_get (wp_tasks p) sid = Some (wid, ph)" by (simp add: close_pool_def)
    from room_ok_known [OF ok this] show "od_get (wp_workers (close_pool p)) wid \<noteq> None" by (auto simp: g)
  qed
qed

lemma room_ok_new: "new_room_pool limit wids initial = Inr p \<Longrightarrow> room_ok p \<and> room_ok (open_pool p)"
proof -
  assume "new_room_pool limit wids initial = Inr p"
  then have p: "wp_tasks p = []" "wp_workers p = map (\<lambda>w. (w, new_room_worker limit)) wids"
    by (auto simp: new_room_pool_def split: if_splits)
  have "serving p sid = None" "serving (open_pool p) sid = None" for sid by (simp_all add: serving_def open_pool_def p(1))
  moreover have "mw_sessions w = []" if "od_get (wp_workers p) v = Some w" for v w
    using that unfolding p(2) by (auto simp: new_room_worker_def dest!: map_of_SomeD)
  ultimately show ?thesis
    by (auto simp: room_ok_def worker_ok_def open_pool_def p(1))
qed

end
