(* ===== verification/Live_Runtime.thy ===== *)
theory Live_Runtime
  imports Room_Pool
begin

text \<open>
  The coordinator of LiveKit serving, \<open>LiveKitServeRuntime\<close> of
  \<open>telefuser/service/livekit/runtime.py\<close>, over the registry, the admission scheduler and the room
  pool. API calls and the callbacks of the workers run on one event loop: a method without an
  await is one transformer, a method with one is a transformer per segment, and a call that
  waits for a session to stop is an entry of \<open>lr_stopping\<close>. The serving metrics and the
  autoscaling decisions are left out; their effects, scaling and migration, are operations.
\<close>

section \<open>State\<close>

datatype stop_kind = Deleting | Expiring | Deadline

record live_config =
  lc_control_idle_timeout :: pyval
  lc_session_timeout :: "int option"
  lc_controller_timeout :: rat
  lc_room_empty_timeout :: rat

record session_request =
  sq_identity :: string
  sq_prompt :: "string option"
  sq_image_path :: "string option"
  sq_config :: "(string \<times> pyval) list"

record live_runtime =
  lr_registry :: registry
  lr_scheduler :: live_scheduler
  lr_pool :: room_pool
  lr_finished :: "string list"
  lr_expiring :: "string list"
  lr_controller_deadlines :: "(string, rat) odict"
  lr_empty_deadlines :: "(string, rat) odict"
  lr_capacities :: "(string, int) odict"
  lr_closing :: bool
  lr_closed :: bool
  lr_stopping :: "(string \<times> stop_kind) list"
  lr_due :: "string list"
  lr_late :: "string list"
  lr_migrating :: "(string \<times> string) list"
  lr_retiring :: "string list"

definition new_runtime :: "live_scheduler \<Rightarrow> room_pool \<Rightarrow> live_runtime" where
  "new_runtime sc p =
     \<lparr>lr_registry = [], lr_scheduler = sc, lr_pool = open_pool p, lr_finished = [], lr_expiring = [],
      lr_controller_deadlines = [], lr_empty_deadlines = [], lr_capacities = [], lr_closing = False,
      lr_closed = False, lr_stopping = [], lr_due = [], lr_late = [], lr_migrating = [], lr_retiring = []\<rparr>"

section \<open>Finishing a session\<close>

definition finish_status ::
  "rat \<Rightarrow> string \<Rightarrow> session_record \<Rightarrow> string option \<Rightarrow> bool \<Rightarrow> live_runtime \<Rightarrow> session_record res \<times> registry" where
  "finish_status now sid cur err expired s =
     (if terminal (sr_status cur) then (Inr cur, lr_registry s)
      else if expired \<or> sid \<in> set (lr_expiring s) then expire_record now sid (lr_registry s)
      else case err of
        Some e \<Rightarrow> if e \<noteq> ''cancelled'' then fail_record now sid e (lr_registry s) else close_record now sid (lr_registry s)
      | None \<Rightarrow> close_record now sid (lr_registry s))"

text \<open>\<open>_finish_session\<close> up to the start of the session that takes the released place.\<close>

definition settle ::
  "rat \<Rightarrow> string \<Rightarrow> string option \<Rightarrow> bool \<Rightarrow> live_runtime \<Rightarrow> (session_record \<times> admission option) res \<times> live_runtime" where
  "settle now sid err expired s =
     (case require sid (lr_registry s) of
        Inl e \<Rightarrow> (Inl e, s)
      | Inr cur \<Rightarrow>
          if sid \<in> set (lr_finished s) then (Inr (cur, None), s)
          else
            let (r, reg) = finish_status now sid cur err expired s;
                s1 = s\<lparr>lr_finished := sid # lr_finished s, lr_registry := reg\<rparr>
            in case r of
                 Inl e \<Rightarrow> (Inl e, s1)
               | Inr rec \<Rightarrow>
                   let (adm, sc) = release_session now sid (lr_scheduler s1)
                   in (Inr (rec, adm), s1\<lparr>lr_scheduler := sc\<rparr>))"

text \<open>The \<open>try\<close> block of \<open>_start_queued_session\<close>.\<close>

definition start_assigned :: "rat \<Rightarrow> string \<Rightarrow> string \<Rightarrow> live_runtime \<Rightarrow> unit res \<times> live_runtime" where
  "start_assigned now wid sid s =
     (case assign_worker now sid wid (lr_registry s) of
        (Inl e, reg) \<Rightarrow> (Inl e, s)
      | (Inr rec, reg) \<Rightarrow>
          let (r, p) = start_room_session rec (lr_pool s) in (r, s\<lparr>lr_registry := reg, lr_pool := p\<rparr>))"

text \<open>A release takes the session it admits out of the queue.\<close>

lemma release_shorter:
  "release_session now sid sc = (Some a, sc') \<Longrightarrow> Suc (length (sc_queue sc')) = length (sc_queue sc)"
  by (auto simp: release_session_def Let_def split: option.splits list.splits if_splits)

lemma settle_shorter:
  assumes "settle now sid err expired s = (Inr (rec, Some a), s')"
  shows "Suc (length (sc_queue (lr_scheduler s'))) = length (sc_queue (lr_scheduler s))"
  using assms
  by (auto simp: settle_def Let_def release_shorter split: sum.splits if_splits prod.splits)

lemma start_assigned_scheduler: "start_assigned now wid sid s = (r, s') \<Longrightarrow> lr_scheduler s' = lr_scheduler s"
  by (auto simp: start_assigned_def split: sum.splits prod.splits)

lemma serve_shorter:
  assumes "start_assigned now wid sid s = (Inl e, s1)" and "settle now sid x False (s1\<lparr>lr_registry := reg\<rparr>) = (Inr (rec, adm), s2)"
  shows "(case adm of None \<Rightarrow> 0 | Some a \<Rightarrow> Suc (length (sc_queue (lr_scheduler s2)))) < Suc (length (sc_queue (lr_scheduler s)))"
proof (cases adm)
  case (Some a)
  from settle_shorter [OF assms(2) [unfolded Some]] start_assigned_scheduler [OF assms(1)] Some show ?thesis by simp
qed simp

text \<open>
  \<open>_start_queued_session\<close>: a session that cannot be started is failed and finished, which may
  admit the next one. \<open>_finish_session\<close> and it call each other; the queue gets shorter.
\<close>

function (sequential) serve :: "rat \<Rightarrow> admission option \<Rightarrow> live_runtime \<Rightarrow> unit res \<times> live_runtime" where
  "serve now (Some (Assigned wid sid)) s =
     (case start_assigned now wid sid s of
        (Inr u, s1) \<Rightarrow> (Inr (), s1)
      | (Inl e, s1) \<Rightarrow>
          (case fail_record now sid (error_text e) (lr_registry s1) of
             (Inl e', reg) \<Rightarrow> (Inl e', s1)
           | (Inr rec, reg) \<Rightarrow>
               (case settle now sid (Some (error_text e)) False (s1\<lparr>lr_registry := reg\<rparr>) of
                  (Inl e', s2) \<Rightarrow> (Inl e', s2)
                | (Inr (rec', adm), s2) \<Rightarrow> if lr_closing s2 then (Inr (), s2) else serve now adm s2)))"
| "serve now adm s = (Inr (), s)"
  by pat_completeness auto
termination
proof (relation "measure (\<lambda>(now, adm, s). case adm of None \<Rightarrow> 0 | Some a \<Rightarrow> Suc (length (sc_queue (lr_scheduler s))))")
qed (simp, simp, use serve_shorter in metis)

definition finish_session ::
  "rat \<Rightarrow> string \<Rightarrow> string option \<Rightarrow> bool \<Rightarrow> live_runtime \<Rightarrow> session_record res \<times> live_runtime" where
  "finish_session now sid err expired s =
     (case settle now sid err expired s of
        (Inl e, s1) \<Rightarrow> (Inl e, s1)
      | (Inr (rec, adm), s1) \<Rightarrow>
          if lr_closing s1 then (Inr rec, s1)
          else (case serve now adm s1 of (Inl e, s2) \<Rightarrow> (Inl e, s2) | (Inr u, s2) \<Rightarrow> (Inr rec, s2)))"

section \<open>The session API\<close>

definition session_config :: "live_config \<Rightarrow> string \<Rightarrow> session_request \<Rightarrow> (string \<times> pyval) list" where
  "session_config c sid rq =
     (let d0 = od_put ''control_idle_timeout'' (lc_control_idle_timeout c) (od_put ''session_id'' (VStr sid) (sq_config rq));
          d1 = (case sq_prompt rq of None \<Rightarrow> d0 | Some p \<Rightarrow> od_put ''prompt'' (VStr p) d0)
      in case sq_image_path rq of None \<Rightarrow> d1 | Some p \<Rightarrow> od_put ''image_path'' (VStr p) d1)"

text \<open>
  \<open>token\<close> is the exception of the token service, if it raises one. The result is the record
  and the admission; a rejected session leaves no record.
\<close>

definition create_session ::
  "live_config \<Rightarrow> rat \<Rightarrow> string \<Rightarrow> session_request \<Rightarrow> py_error option \<Rightarrow> live_runtime
     \<Rightarrow> (session_record \<times> admission) res \<times> live_runtime" where
  "create_session c now sid rq token s =
     (let room = ''tf-world-'' @ sid
      in case create_record now sid room (sq_identity rq) (session_config c sid rq) (lc_session_timeout c) (lr_registry s) of
           (Inl e, reg) \<Rightarrow> (Inl e, s)
         | (Inr rec, reg) \<Rightarrow>
             let (adm, sc) = assign now sid room (lr_scheduler s);
                 s1 = s\<lparr>lr_registry := reg, lr_scheduler := sc\<rparr>
             in case adm of
                  Rejected reason \<Rightarrow> (Inr (rec, adm), s1\<lparr>lr_registry := snd (delete_record sid reg)\<rparr>)
                | _ \<Rightarrow>
                    let (r, reg') = (case adm of Assigned wid x \<Rightarrow> assign_worker now sid wid reg
                                     | _ \<Rightarrow> update_status now sid S_QUEUED None reg);
                        s2 = s1\<lparr>lr_registry := reg'\<rparr>
                    in case r of
                         Inl e \<Rightarrow> (Inl e, s2)
                       | Inr rec' \<Rightarrow>
                           (case token of
                              Some e \<Rightarrow>
                                (Inl e, s2\<lparr>lr_scheduler := snd (release_session now sid sc),
                                           lr_registry := snd (delete_record sid reg')\<rparr>)
                            | None \<Rightarrow>
                                (case adm of
                                   Assigned wid x \<Rightarrow>
                                     (case start_room_session rec' (lr_pool s2) of
                                        (Inr u, p) \<Rightarrow> (Inr (rec', adm), s2\<lparr>lr_pool := p\<rparr>)
                                      | (Inl e, p) \<Rightarrow>
                                          (Inl e, s2\<lparr>lr_scheduler := snd (release_session now sid sc),
                                                     lr_registry := snd (fail_record now sid (error_text e) reg')\<rparr>))
                                 | _ \<Rightarrow> (Inr (rec', adm), s2))))"

definition create_viewer_token :: "string \<Rightarrow> live_runtime \<Rightarrow> session_record res" where
  "create_viewer_token sid s =
     bind_res (require sid (lr_registry s)) (\<lambda>r.
       if terminal (sr_status r) then Inl (ValueError (''Session '' @ sid @ '' is not active'')) else Inr r)"

text \<open>
  The pool's \<open>stop_session\<close> returns at once when the session has no task, and waits for the task
  otherwise; an exception of the task is raised in it, which the reaper suppresses and a deletion
  does not. \<open>finish_stopped\<close> is what follows the wait.
\<close>

definition finish_stopped :: "rat \<Rightarrow> string \<Rightarrow> stop_kind \<Rightarrow> live_runtime \<Rightarrow> session_record res \<times> live_runtime" where
  "finish_stopped now sid k s =
     (let (r, s1) = finish_session now sid None (k \<noteq> Deleting) s;
          s2 = (if k = Deleting then s1 else s1\<lparr>lr_expiring := removeAll sid (lr_expiring s1)\<rparr>);
          s3 = (if k = Deadline then
                  s2\<lparr>lr_controller_deadlines := od_del sid (lr_controller_deadlines s2),
                     lr_empty_deadlines := od_del sid (lr_empty_deadlines s2)\<rparr>
                else s2)
      in (r, s3))"

definition stop_then_finish :: "rat \<Rightarrow> string \<Rightarrow> stop_kind \<Rightarrow> live_runtime \<Rightarrow> session_record option res \<times> live_runtime" where
  "stop_then_finish now sid k s =
     (let finish = (case finish_stopped now sid k s of (Inl e, s1) \<Rightarrow> (Inl e, s1) | (Inr r, s1) \<Rightarrow> (Inr (Some r), s1))
      in case od_get (wp_tasks (lr_pool s)) sid of
           None \<Rightarrow> finish
         | Some (wid, ph) \<Rightarrow>
             (case ph of
                Failed e \<Rightarrow> if k = Deleting then (Inl e, s) else finish
              | Ended \<Rightarrow> finish
              | _ \<Rightarrow> (Inr None, s\<lparr>lr_stopping := (sid, k) # lr_stopping s\<rparr>)))"

definition set_draining :: "rat \<Rightarrow> string \<Rightarrow> live_runtime \<Rightarrow> live_runtime" where
  "set_draining now sid s = s\<lparr>lr_registry := snd (update_status now sid S_DRAINING None (lr_registry s))\<rparr>"

definition delete_session :: "rat \<Rightarrow> string \<Rightarrow> live_runtime \<Rightarrow> session_record option res \<times> live_runtime" where
  "delete_session now sid s =
     (case require sid (lr_registry s) of
        Inl e \<Rightarrow> (Inl e, s)
      | Inr r \<Rightarrow>
          if terminal (sr_status r) then (Inr (Some r), s)
          else stop_then_finish now sid Deleting (set_draining now sid s))"

definition stop_returns :: "rat \<Rightarrow> string \<Rightarrow> stop_kind \<Rightarrow> live_runtime \<Rightarrow> live_runtime" where
  "stop_returns now sid k s =
     (if (sid, k) \<in> set (lr_stopping s) \<and>
         (case od_get (wp_tasks (lr_pool s)) sid of None \<Rightarrow> True | Some (wid, ph) \<Rightarrow> ph = Ended \<or> task_over ph \<and> k \<noteq> Deleting)
      then snd (finish_stopped now sid k (s\<lparr>lr_stopping := remove1 (sid, k) (lr_stopping s)\<rparr>))
      else s)"

section \<open>The reaper\<close>

text \<open>
  One coroutine: it collects the sessions that are past their lifetime in \<open>lr_due\<close> and stops one
  after the other, waiting for each; then it does the same with those whose deadline has passed,
  which it collects in \<open>lr_late\<close>.
\<close>

definition reaper_free :: "live_runtime \<Rightarrow> bool" where
  "reaper_free s \<longleftrightarrow> \<not> lr_closing s \<and> \<not> lr_closed s \<and> (\<forall>e \<in> set (lr_stopping s). snd e = Deleting)"

definition reap_scan :: "rat \<Rightarrow> live_runtime \<Rightarrow> live_runtime" where
  "reap_scan now s =
     (if reaper_free s \<and> lr_due s = [] then
        s\<lparr>lr_due := map sr_session_id (expired_active_records now (lr_registry s))\<rparr>
      else s)"

definition reap_next :: "rat \<Rightarrow> live_runtime \<Rightarrow> live_runtime" where
  "reap_next now s =
     (if \<not> reaper_free s then s
      else case lr_due s of
        [] \<Rightarrow> s
      | sid # rest \<Rightarrow>
          let s1 = s\<lparr>lr_due := rest, lr_expiring := sid # lr_expiring s\<rparr>
          in case od_get (lr_registry s) sid of
               None \<Rightarrow> s1\<lparr>lr_due := []\<rparr>
             | Some r \<Rightarrow>
                 snd (stop_then_finish now sid Expiring (if terminal (sr_status r) then s1 else set_draining now sid s1)))"

definition deadline_passed :: "rat \<Rightarrow> string \<Rightarrow> live_runtime \<Rightarrow> bool" where
  "deadline_passed now sid s \<longleftrightarrow>
     (case od_get (lr_controller_deadlines s) sid of None \<Rightarrow> False | Some t \<Rightarrow> t \<le> now) \<or>
     (case od_get (lr_empty_deadlines s) sid of None \<Rightarrow> False | Some t \<Rightarrow> t \<le> now)"

definition deadline_scan :: "rat \<Rightarrow> live_runtime \<Rightarrow> live_runtime" where
  "deadline_scan now s =
     (if reaper_free s \<and> lr_due s = [] \<and> lr_late s = [] then
        s\<lparr>lr_late := filter (\<lambda>sid. deadline_passed now sid s)
             (remdups (od_keys (lr_controller_deadlines s) @ od_keys (lr_empty_deadlines s)))\<rparr>
      else s)"

definition reap_deadline :: "rat \<Rightarrow> live_runtime \<Rightarrow> live_runtime" where
  "reap_deadline now s =
     (if \<not> reaper_free s then s
      else case lr_late s of
        [] \<Rightarrow> s
      | sid # rest \<Rightarrow>
          let s1 = s\<lparr>lr_late := rest\<rparr>
          in case od_get (lr_registry s) sid of
               None \<Rightarrow> s1
             | Some r \<Rightarrow>
                 if terminal (sr_status r) then s1
                 else snd (stop_then_finish now sid Deadline
                             (set_draining now sid (s1\<lparr>lr_expiring := sid # lr_expiring s1\<rparr>))))"

definition prune :: "rat \<Rightarrow> live_runtime \<Rightarrow> live_runtime" where
  "prune now s = s\<lparr>lr_registry := snd (prune_terminal (now - 3600) (lr_registry s))\<rparr>"

section \<open>Callbacks of the workers\<close>

definition on_worker_status :: "rat \<Rightarrow> string \<Rightarrow> worker_status \<Rightarrow> live_runtime \<Rightarrow> live_runtime" where
  "on_worker_status now wid st s = s\<lparr>lr_scheduler := snd (update_worker_status now wid st (lr_scheduler s))\<rparr>"

definition on_worker_capacity :: "rat \<Rightarrow> string \<Rightarrow> int \<Rightarrow> live_runtime \<Rightarrow> unit res \<times> live_runtime" where
  "on_worker_capacity now wid capacity s =
     (case update_worker_capacity now wid capacity (lr_scheduler s) of
        (Inl e, sc) \<Rightarrow> (Inl e, s\<lparr>lr_scheduler := sc\<rparr>)
      | (Inr w, sc) \<Rightarrow> (Inr (), s\<lparr>lr_scheduler := sc, lr_capacities := od_put wid capacity (lr_capacities s)\<rparr>))"

text \<open>The capacity that the autoscaling and placement controllers work with.\<close>

definition effective_capacity :: "live_runtime \<Rightarrow> int option" where
  "effective_capacity s = py_min id (od_vals (lr_capacities s))"

definition publish_status :: "rat \<Rightarrow> (string \<times> worker_status) option \<Rightarrow> live_runtime \<Rightarrow> live_runtime" where
  "publish_status now shown s = (case shown of None \<Rightarrow> s | Some (wid, st) \<Rightarrow> on_worker_status now wid st s)"

definition on_session_status :: "rat \<Rightarrow> string \<Rightarrow> session_status \<Rightarrow> string option \<Rightarrow> live_runtime \<Rightarrow> unit res \<times> live_runtime" where
  "on_session_status now sid st err s =
     (case require sid (lr_registry s) of
        Inl e \<Rightarrow> (Inl e, s)
      | Inr r \<Rightarrow>
          if terminal (sr_status r) then (Inr (), s)
          else (Inr (), s\<lparr>lr_registry := snd (update_status now sid st err (lr_registry s))\<rparr>))"

definition on_pipeline_session :: "rat \<Rightarrow> string \<Rightarrow> string \<Rightarrow> live_runtime \<Rightarrow> live_runtime" where
  "on_pipeline_session now sid pid s = s\<lparr>lr_registry := snd (set_pipeline_session now sid pid (lr_registry s))\<rparr>"

definition on_session_finished :: "rat \<Rightarrow> string \<Rightarrow> string option \<Rightarrow> live_runtime \<Rightarrow> session_record res \<times> live_runtime" where
  "on_session_finished now sid err s = finish_session now sid err False s"

definition on_control_received :: "string \<Rightarrow> live_runtime \<Rightarrow> live_runtime" where
  "on_control_received sid s = s\<lparr>lr_controller_deadlines := od_del sid (lr_controller_deadlines s)\<rparr>"

definition on_participant_event ::
  "live_config \<Rightarrow> rat \<Rightarrow> string \<Rightarrow> string \<Rightarrow> string \<Rightarrow> int \<Rightarrow> live_runtime \<Rightarrow> live_runtime" where
  "on_participant_event c now sid event identity n s =
     (case od_get (lr_registry s) sid of
        None \<Rightarrow> s
      | Some r \<Rightarrow>
          if terminal (sr_status r) then s
          else
            let s1 = s\<lparr>lr_registry := snd (set_participant_count now sid (max 0 n) (lr_registry s))\<rparr>;
                s2 = (if event = ''connected'' \<and> identity = sr_controller r then
                        s1\<lparr>lr_controller_deadlines := od_del sid (lr_controller_deadlines s1)\<rparr>
                      else if event = ''disconnected'' \<and> identity = sr_controller r then
                        s1\<lparr>lr_controller_deadlines := od_put sid (now + lc_controller_timeout c) (lr_controller_deadlines s1)\<rparr>
                      else s1)
            in if n = 0 then s2\<lparr>lr_empty_deadlines := od_put sid (now + lc_room_empty_timeout c) (lr_empty_deadlines s2)\<rparr>
               else s2\<lparr>lr_empty_deadlines := od_del sid (lr_empty_deadlines s2)\<rparr>)"

text \<open>A deletion that waits for a task ends with the exception of the task.\<close>

definition fail_deletion :: "string \<Rightarrow> live_runtime \<Rightarrow> live_runtime" where
  "fail_deletion sid s = s\<lparr>lr_stopping := filter (\<lambda>e. e \<noteq> (sid, Deleting)) (lr_stopping s)\<rparr>"

text \<open>
  A runner ends: it closes its room, tells the runtime, and its worker forgets the session. When
  the runtime raises, because it has no record of the session any more, the task fails with that.
\<close>

definition runner_finishes :: "rat \<Rightarrow> string \<Rightarrow> string option \<Rightarrow> live_runtime \<Rightarrow> live_runtime" where
  "runner_finishes now sid err s =
     (if serving (lr_pool s) sid = None then s
      else
        let (r, s1) = on_session_finished now sid err s;
            (shown, p) = runner_end sid (case r of Inl e \<Rightarrow> Failed e | Inr rec \<Rightarrow> Ended) (lr_pool s1);
            s2 = publish_status now shown (s1\<lparr>lr_pool := p\<rparr>)
        in case r of Inl e \<Rightarrow> fail_deletion sid s2 | Inr rec \<Rightarrow> s2)"

text \<open>
  A runner that is cancelled while it closes its room never tells the runtime; its worker forgets
  the session all the same.
\<close>

definition runner_cut :: "rat \<Rightarrow> string \<Rightarrow> live_runtime \<Rightarrow> live_runtime" where
  "runner_cut now sid s =
     (let (shown, p) = runner_end sid Ended (lr_pool s) in publish_status now shown (s\<lparr>lr_pool := p\<rparr>))"

text \<open>A task that fails at its start.\<close>

definition task_starts :: "string \<Rightarrow> live_runtime \<Rightarrow> live_runtime" where
  "task_starts sid s =
     (let p = task_begin sid (lr_pool s);
          s1 = s\<lparr>lr_pool := p\<rparr>
      in if map_option snd (od_get (wp_tasks (lr_pool s)) sid) = Some Waiting \<and> serving p sid = None
         then fail_deletion sid s1 else s1)"

section \<open>Scaling, migration and closing\<close>

definition add_worker :: "rat \<Rightarrow> bool \<Rightarrow> int \<Rightarrow> live_runtime \<Rightarrow> live_runtime" where
  "add_worker now bidirectional capacity s =
     (case next_inactive (lr_pool s) of
        None \<Rightarrow> s
      | Some wid \<Rightarrow>
          if (case od_get (wp_workers (lr_pool s)) wid of None \<Rightarrow> False | Some w \<Rightarrow> mw_started w) then
            s\<lparr>lr_pool := snd (scale_out bidirectional capacity None (lr_pool s))\<rparr>
          else
            let (r, s1) = on_worker_capacity now wid capacity s;
                (ready, p) = scale_out bidirectional capacity (case r of Inl e \<Rightarrow> Some e | Inr u \<Rightarrow> None) (lr_pool s1)
            in publish_status now (map_option (\<lambda>w. (w, W_IDLE)) ready) (s1\<lparr>lr_pool := p\<rparr>))"

text \<open>The sessions that an added worker takes from the queue.\<close>

fun serve_all :: "rat \<Rightarrow> admission list \<Rightarrow> live_runtime \<Rightarrow> unit res \<times> live_runtime" where
  "serve_all now [] s = (Inr (), s)"
| "serve_all now (a # as) s = (case serve now (Some a) s of (Inl e, s1) \<Rightarrow> (Inl e, s1) | (Inr u, s1) \<Rightarrow> serve_all now as s1)"

definition drain_and_start :: "rat \<Rightarrow> live_runtime \<Rightarrow> live_runtime" where
  "drain_and_start now s =
     (let (as, sc) = drain_queue now (lr_scheduler s) in snd (serve_all now as (s\<lparr>lr_scheduler := sc\<rparr>)))"

definition retire_worker :: "(string \<Rightarrow> nat) \<Rightarrow> live_runtime \<Rightarrow> live_runtime" where
  "retire_worker retained s =
     (case retire_begin retained (lr_pool s) of
        (None, p) \<Rightarrow> s
      | (Some wid, p) \<Rightarrow> s\<lparr>lr_pool := p, lr_retiring := wid # lr_retiring s\<rparr>)"

definition worker_retired :: "rat \<Rightarrow> string \<Rightarrow> live_runtime \<Rightarrow> live_runtime" where
  "worker_retired now wid s =
     (if wid \<in> set (lr_retiring s) then
        on_worker_status now wid W_STOPPED
          (s\<lparr>lr_pool := retire_end wid (lr_pool s), lr_retiring := remove1 wid (lr_retiring s)\<rparr>)
      else s)"

text \<open>The checks before a migration, and what follows when the pool has moved the pipeline state.\<close>

definition migrate_check :: "string \<Rightarrow> string \<Rightarrow> live_runtime \<Rightarrow> unit res \<times> live_runtime" where
  "migrate_check sid target s =
     (case require sid (lr_registry s) of
        Inl e \<Rightarrow> (Inl e, s)
      | Inr r \<Rightarrow>
          if sr_pipeline r = None then
            (Inl (RuntimeError (''Session '' @ sid @ '' has not created its pipeline state yet'')), s)
          else case od_get (sc_workers (lr_scheduler s)) target of
            None \<Rightarrow> (Inl (KeyError (''Unknown migration target '' @ target)), s)
          | Some w \<Rightarrow>
              if sr_worker_id r \<noteq> Some target \<and> ws_session_capacity w \<le> length (ws_session_ids w) then
                (Inl (RuntimeError (''Migration target '' @ target @ '' has no retained-session capacity'')), s)
              else if target \<notin> set (wp_active (lr_pool s)) then
                (Inl (RuntimeError (''Migration target '' @ target @ '' is not active'')), s)
              else (Inr (), s\<lparr>lr_migrating := (sid, target) # lr_migrating s\<rparr>))"

definition migrate_done :: "rat \<Rightarrow> string \<Rightarrow> string \<Rightarrow> py_error option \<Rightarrow> live_runtime \<Rightarrow> unit res \<times> live_runtime" where
  "migrate_done now sid target failure s =
     (if (sid, target) \<notin> set (lr_migrating s) then (Inr (), s)
      else
        let s1 = s\<lparr>lr_migrating := remove1 (sid, target) (lr_migrating s)\<rparr>
        in if failure \<noteq> None then (Inl (the failure), s1)
           else case reassign_session now sid target (lr_scheduler s1) of
             (Inl e, sc) \<Rightarrow> (Inl e, s1\<lparr>lr_scheduler := sc\<rparr>)
           | (Inr a, sc) \<Rightarrow>
               (case assign_worker now sid target (lr_registry s1) of
                  (Inl e, reg) \<Rightarrow> (Inl e, s1\<lparr>lr_scheduler := sc\<rparr>)
                | (Inr rec, reg) \<Rightarrow> (Inr (), s1\<lparr>lr_scheduler := sc, lr_registry := reg\<rparr>)))"

text \<open>Closing first cancels the reaper and the autoscaling loop, wherever they wait.\<close>

definition close_begin :: "live_runtime \<Rightarrow> live_runtime" where
  "close_begin s =
     (if lr_closed s \<or> lr_closing s then s
      else s\<lparr>lr_closing := True, lr_stopping := filter (\<lambda>e. snd e = Deleting) (lr_stopping s), lr_due := [],
             lr_late := [], lr_expiring := [], lr_migrating := [], lr_retiring := []\<rparr>)"

definition finish_live :: "rat \<Rightarrow> live_runtime \<Rightarrow> string \<Rightarrow> live_runtime" where
  "finish_live now s sid = snd (finish_session now sid (Some ''runtime closed'') False s)"

text \<open>When the pool has closed, the sessions that are still live are finished.\<close>

definition close_end :: "rat \<Rightarrow> live_runtime \<Rightarrow> live_runtime" where
  "close_end now s =
     (if \<not> lr_closing s then s
      else
        let s1 = foldl (\<lambda>t wid. on_worker_status now wid W_STOPPED t) s (wp_active (lr_pool s));
            s2 = s1\<lparr>lr_pool := close_pool (lr_pool s1)\<rparr>;
            s3 = foldl (finish_live now) s2 (map sr_session_id (filter live (od_vals (lr_registry s2))))
        in s3\<lparr>lr_closing := False, lr_closed := True\<rparr>)"

section \<open>The machine\<close>

text \<open>
  Session identifiers are fresh: \<open>new_session_id\<close> never returns one that the service has used. A
  runner reports only while it serves. Everything else may happen at any time.
\<close>

datatype live_event =
    Create rat string session_request "py_error option"
  | Delete rat string
  | Stop_returns rat string stop_kind
  | Reap_scan rat
  | Reap_next rat
  | Deadline_scan rat
  | Reap_deadline rat
  | Prune rat
  | Task_starts string
  | Task_cancelled string
  | Task_done string
  | Runner_shows rat string worker_status
  | Runner_reports rat string session_status "string option"
  | Runner_pipeline rat string string
  | Runner_control string
  | Runner_participant rat string string string int
  | Runner_finishes rat string "string option"
  | Runner_cut rat string
  | Worker_status rat string worker_status
  | Add_worker rat bool int
  | Drain_and_start rat
  | Retire_worker "string \<Rightarrow> nat"
  | Worker_retired rat string
  | Migrate string string
  | Migrated rat string string "py_error option"
  | Close_begin
  | Close_end rat

definition fresh_id :: "string \<Rightarrow> live_runtime \<Rightarrow> bool" where
  "fresh_id sid s \<longleftrightarrow>
     sid \<notin> set (od_keys (lr_registry s)) \<and> sid \<notin> set (lr_finished s) \<and>
     sid \<notin> set (all_sessions (lr_scheduler s)) \<and> sid \<notin> set (od_keys (wp_tasks (lr_pool s)))"

fun live_step :: "live_config \<Rightarrow> live_runtime \<Rightarrow> live_event \<Rightarrow> live_runtime" where
  "live_step c s (Create now sid rq token) = (if fresh_id sid s then snd (create_session c now sid rq token s) else s)"
| "live_step c s (Delete now sid) = snd (delete_session now sid s)"
| "live_step c s (Stop_returns now sid k) = stop_returns now sid k s"
| "live_step c s (Reap_scan now) = reap_scan now s"
| "live_step c s (Reap_next now) = reap_next now s"
| "live_step c s (Deadline_scan now) = deadline_scan now s"
| "live_step c s (Reap_deadline now) = reap_deadline now s"
| "live_step c s (Prune now) = prune now s"
| "live_step c s (Task_starts sid) = task_starts sid s"
| "live_step c s (Task_cancelled sid) = s\<lparr>lr_pool := task_cancel sid (lr_pool s)\<rparr>"
| "live_step c s (Task_done sid) = s\<lparr>lr_pool := task_done sid (lr_pool s)\<rparr>"
| "live_step c s (Runner_shows now sid st) =
     (let (shown, p) = runner_status sid st (lr_pool s) in publish_status now shown (s\<lparr>lr_pool := p\<rparr>))"
| "live_step c s (Runner_reports now sid st err) =
     (if serving (lr_pool s) sid = None then s else snd (on_session_status now sid st err s))"
| "live_step c s (Runner_pipeline now sid pid) = on_pipeline_session now sid pid s"
| "live_step c s (Runner_control sid) = on_control_received sid s"
| "live_step c s (Runner_participant now sid event identity n) = on_participant_event c now sid event identity n s"
| "live_step c s (Runner_finishes now sid err) = runner_finishes now sid err s"
| "live_step c s (Runner_cut now sid) = runner_cut now sid s"
| "live_step c s (Worker_status now wid st) = on_worker_status now wid st s"
| "live_step c s (Add_worker now bidirectional capacity) = add_worker now bidirectional capacity s"
| "live_step c s (Drain_and_start now) = drain_and_start now s"
| "live_step c s (Retire_worker retained) = retire_worker retained s"
| "live_step c s (Worker_retired now wid) = worker_retired now wid s"
| "live_step c s (Migrate sid target) = snd (migrate_check sid target s)"
| "live_step c s (Migrated now sid target failure) = snd (migrate_done now sid target failure s)"
| "live_step c s Close_begin = close_begin s"
| "live_step c s (Close_end now) = close_end now s"

text \<open>
  Two steps can lose a session that has a place. The reaper removes a terminal record an hour after
  its last change, also when the runner of the session still serves, and a runner that has reported
  its failure may be cancelled before it tells the runtime that it has ended. \<open>losses\<close> are the
  sessions that a run loses.
\<close>

fun losing :: "live_runtime \<Rightarrow> live_event \<Rightarrow> string list" where
  "losing s (Prune now) =
     filter (\<lambda>sid. case od_get (lr_registry s) sid of None \<Rightarrow> False | Some r \<Rightarrow> prunable (now - 3600) r)
       (all_sessions (lr_scheduler s))"
| "losing s (Runner_cut now sid) =
     (case od_get (lr_registry s) sid of
        None \<Rightarrow> []
      | Some r \<Rightarrow> if serving (lr_pool s) sid \<noteq> None \<and> terminal (sr_status r) \<and> sid \<in> set (all_sessions (lr_scheduler s))
                  then [sid] else [])"
| "losing s e = []"

primrec losses :: "live_config \<Rightarrow> live_runtime \<Rightarrow> live_event list \<Rightarrow> string list" where
  "losses c s [] = []"
| "losses c s (e # es) = losing s e @ losses c (live_step c s e) es"

section \<open>The books of the service\<close>

text \<open>
  A session that has a place in the scheduler is not finished, and its record is live or its
  runner still serves (but for the sessions in \<open>X\<close>, those that are lost); a live record has a place. Records are kept
  under their own identifier.
\<close>

definition books ::
  "string set \<Rightarrow> live_scheduler \<Rightarrow> (string \<Rightarrow> session_record option) \<Rightarrow> (string \<Rightarrow> string option) \<Rightarrow> string set \<Rightarrow> bool" where
  "books X sc reg srv fin \<longleftrightarrow>
     sched_inv sc \<and> distinct (all_sessions sc) \<and>
     (\<forall>sid \<in> set (all_sessions sc). sid \<notin> fin \<and> (sid \<notin> X \<longrightarrow> (\<exists>r. reg sid = Some r \<and> (live r \<or> srv sid \<noteq> None)))) \<and>
     (\<forall>sid r. reg sid = Some r \<longrightarrow> live r \<longrightarrow> sid \<in> set (all_sessions sc)) \<and>
     (\<forall>sid r. reg sid = Some r \<longrightarrow> sr_session_id r = sid)"

abbreviation held :: "live_runtime \<Rightarrow> string set" where
  "held s \<equiv> set (all_sessions (lr_scheduler s))"

abbreviation books_of :: "string set \<Rightarrow> live_runtime \<Rightarrow> bool" where
  "books_of X s \<equiv> books X (lr_scheduler s) (map_of (lr_registry s)) (serving (lr_pool s)) (set (lr_finished s))"

definition lr_ok :: "string set \<Rightarrow> live_runtime \<Rightarrow> bool" where
  "lr_ok X s \<longleftrightarrow> books_of X s \<and> od_ok (lr_registry s) \<and> room_ok (lr_pool s)"

lemma books_scheduler:
  assumes "books X sc reg srv fin" and "sched_inv sc'" and "mset (all_sessions sc') = mset (all_sessions sc)"
  shows "books X sc' reg srv fin"
proof -
  have "set (all_sessions sc') = set (all_sessions sc)" "distinct (all_sessions sc') = distinct (all_sessions sc)"
    using assms(3) mset_eq_setD mset_eq_imp_distinct_iff by blast+
  with assms show ?thesis by (simp add: books_def)
qed

lemma books_record:
  assumes "books X sc reg srv fin" and "reg sid = Some r0" and "sr_session_id r = sr_session_id r0" and "live r \<Longrightarrow> sid \<in> set (all_sessions sc)"
    and "sid \<in> set (all_sessions sc) \<Longrightarrow> sid \<notin> X \<Longrightarrow> live r \<or> srv sid \<noteq> None"
  shows "books X sc (reg(sid \<mapsto> r)) srv fin"
  using assms by (auto simp: books_def)

lemma books_same_life:
  assumes "books X sc reg srv fin" and "reg sid = Some r0" and "sr_session_id r = sr_session_id r0" and "live r = live r0"
  shows "books X sc (reg(sid \<mapsto> r)) srv fin"
  using assms by (auto simp: books_def)

lemma release_books:
  assumes i: "sched_inv sc" and d: "distinct (all_sessions sc)"
  shows "sched_inv (snd (release_session now sid sc)) \<and> distinct (all_sessions (snd (release_session now sid sc))) \<and>
    set (all_sessions (snd (release_session now sid sc))) = set (all_sessions sc) - {sid}"
proof (cases "worker_for_session sid sc")
  case None
  show ?thesis using release_unknown [OF None] d sched_inv_release [OF i] by auto
next
  case (Some w)
  let ?xs = "all_sessions (snd (release_session now sid sc))"
  have m: "mset (sid # ?xs) = mset (all_sessions sc)" using release_mset [OF i Some] by simp
  have "distinct (sid # ?xs)" using mset_eq_imp_distinct_iff [OF m] d by simp
  moreover have "set (sid # ?xs) = set (all_sessions sc)" using mset_eq_setD [OF m] by simp
  ultimately show ?thesis using sched_inv_release [OF i] by auto
qed

lemma books_release:
  assumes "books (insert sid X) sc reg srv fin" and "reg sid = Some r" and "\<not> live r"
  shows "books X (snd (release_session now sid sc)) reg srv (insert sid fin)"
proof -
  have sc: "sched_inv sc" "distinct (all_sessions sc)" using assms(1) by (simp_all add: books_def)
  from release_books [OF this, of now sid] assms show ?thesis by (auto simp: books_def)
qed

lemma release_admitted:
  assumes "distinct (all_sessions sc)" and "release_session now sid sc = (Some (Assigned w q), sc')"
  shows "q \<in> fst ` set (sc_queue sc) \<and> q \<noteq> sid"
proof -
  obtain w0 where w0: "worker_for_session sid sc = Some w0"
    using assms(2) by (auto simp: release_session_def split: option.splits)
  then have "sid \<in> set (holdings sc)"
    using find_holder_SomeD [of sid "sc_workers sc" w0] by (auto simp: worker_for_session_def holdings_def)
  moreover have "q \<in> fst ` set (sc_queue sc)"
    using assms(2) w0 by (auto simp: release_session_def Let_def split: list.splits if_splits)
  ultimately show ?thesis using assms(1) by (auto simp: all_sessions_def)
qed

lemma release_queue: "set (sc_queue (snd (release_session now sid sc))) \<subseteq> set (sc_queue sc)"
  by (auto simp: release_session_def Let_def split: option.split list.split)

section \<open>Finishing keeps the books\<close>

lemma finish_status_result:
  assumes "od_get (lr_registry s) sid = Some cur"
  shows "\<exists>rec reg. finish_status now sid cur err expired s = (Inr rec, reg) \<and> \<not> live rec \<and> sr_session_id rec = sr_session_id cur \<and>
    map_of reg = (map_of (lr_registry s))(sid \<mapsto> rec) \<and> (od_ok (lr_registry s) \<longrightarrow> od_ok reg)"
proof (cases "terminal (sr_status cur)")
  case True
  then show ?thesis using assms by (auto simp: finish_status_def live_def fun_upd_idem)
next
  case False
  then show ?thesis
    using assms
    by (auto simp: finish_status_def record_updates update_record_def Let_def live_def terminal_def split: option.split)
qed

lemma settle_ok:
  assumes b: "books_of (insert sid X) s" and o: "od_ok (lr_registry s)" "room_ok (lr_pool s)" and c: "od_get (lr_registry s) sid = Some cur"
  obtains rec adm s' where "settle now sid err expired s = (Inr (rec, adm), s')" and "lr_ok X s'"
    and "held s - {sid} \<subseteq> held s'" and "set (sc_queue (lr_scheduler s')) \<subseteq> set (sc_queue (lr_scheduler s))"
    and "\<And>w q. adm = Some (Assigned w q) \<Longrightarrow> q \<in> held s' \<and> q \<in> fst ` set (sc_queue (lr_scheduler s))"
    and "lr_closing s' = lr_closing s" and "lr_pool s' = lr_pool s"
    and "set (lr_finished s') = insert sid (set (lr_finished s))"
    and "\<exists>r. od_get (lr_registry s') sid = Some r \<and> (\<not> live r \<or> sid \<in> set (lr_finished s))"
    and "\<And>x. x \<noteq> sid \<Longrightarrow> od_get (lr_registry s') x = od_get (lr_registry s) x"
proof (cases "sid \<in> set (lr_finished s)")
  case True
  then have "sid \<notin> held s" using b by (auto simp: books_def)
  then have "books_of X s" using b by (auto simp: books_def)
  then show ?thesis
    by (intro that [of cur None s]) (use True o c in \<open>auto simp: settle_def lr_ok_def require_def\<close>)
next
  case False
  obtain rec reg where f: "finish_status now sid cur err expired s = (Inr rec, reg)" and d: "\<not> live rec" "sr_session_id rec = sr_session_id cur"
    and g: "map_of reg = (map_of (lr_registry s))(sid \<mapsto> rec)" and ok: "od_ok reg"
    using finish_status_result [OF c, of now err expired] o by blast
  obtain adm sc where r: "release_session now sid (lr_scheduler s) = (adm, sc)" by fastforce
  let ?s = "s\<lparr>lr_finished := sid # lr_finished s, lr_registry := reg, lr_scheduler := sc\<rparr>"
  have i: "sched_inv (lr_scheduler s)" "distinct (all_sessions (lr_scheduler s))" using b by (simp_all add: books_def)
  have "books (insert sid X) (lr_scheduler s) (map_of reg) (serving (lr_pool s)) (set (lr_finished s))"
    unfolding g by (rule books_record [OF b c]) (simp_all add: d)
  from books_release [OF this, of rec now] have "books_of X ?s" by (simp add: g d r)
  then have l: "lr_ok X ?s" using ok o by (simp add: lr_ok_def)
  have h: "held ?s = held s - {sid}" using release_books [OF i, of now sid] r by simp
  have q: "q \<in> fst ` set (sc_queue (lr_scheduler s)) \<and> q \<noteq> sid" if "adm = Some (Assigned w q)" for w q
    using release_admitted [OF i(2)] r that by blast
  have e: "settle now sid err expired s = (Inr (rec, adm), ?s)"
    using False c f r by (simp add: settle_def require_def Let_def)
  show ?thesis
  proof (rule that [OF e l])
    show "held s - {sid} \<subseteq> held ?s" using h by simp
    show "set (sc_queue (lr_scheduler ?s)) \<subseteq> set (sc_queue (lr_scheduler s))" using release_queue [of now sid "lr_scheduler s"] r by simp
    show "q \<in> held ?s \<and> q \<in> fst ` set (sc_queue (lr_scheduler s))" if "adm = Some (Assigned w q)" for w q
      using q [OF that] h by (auto simp: all_sessions_def)
  qed (use g d in auto)
qed

lemma start_serving: "serving (snd (start_room_session r p)) = serving p"
  by (rule ext) (auto simp: start_room_session_def serving_def split: option.split)

lemma start_room_error: "start_room_session r p = (Inl e, p') \<Longrightarrow> p' = p"
  by (auto simp: start_room_session_def split: if_splits option.splits)

lemma start_assigned_ok:
  assumes ok: "lr_ok X s" and h: "sid \<in> held s" and k: "od_get (lr_registry s) sid \<noteq> None"
  obtains r s' where "start_assigned now wid sid s = (r, s')" and "lr_ok X s'" and "lr_scheduler s' = lr_scheduler s"
    and "lr_finished s' = lr_finished s" and "lr_closing s' = lr_closing s" and "od_get (lr_registry s') sid \<noteq> None"
    and "\<And>x. x \<noteq> sid \<Longrightarrow> od_get (lr_registry s') x = od_get (lr_registry s) x"
proof -
  have b: "books_of X s" and o: "od_ok (lr_registry s)" "room_ok (lr_pool s)" using ok by (simp_all add: lr_ok_def)
  obtain r0 where r0: "od_get (lr_registry s) sid = Some r0" using k by blast
  let ?r = "r0\<lparr>sr_status := S_ASSIGNED, sr_worker_id := Some wid, sr_updated_at := now\<rparr>"
  have a: "assign_worker now sid wid (lr_registry s) = (Inr ?r, od_put sid ?r (lr_registry s))"
    by (simp add: assign_worker_def update_record_def r0 Let_def)
  obtain r p where p: "start_room_session ?r (lr_pool s) = (r, p)" by fastforce
  let ?s = "s\<lparr>lr_registry := od_put sid ?r (lr_registry s), lr_pool := p\<rparr>"
  have sv: "serving p = serving (lr_pool s)" using start_serving [of ?r "lr_pool s"] p by simp
  have rp: "room_ok p" using room_ok_start [OF o(2), of ?r] p by simp
  have "books X (lr_scheduler s) ((map_of (lr_registry s))(sid \<mapsto> ?r)) (serving (lr_pool s)) (set (lr_finished s))"
    by (rule books_record [OF b r0]) (simp_all add: h live_def terminal_def)
  then have "books_of X ?s" by (simp add: sv)
  then have l: "lr_ok X ?s" using o(1) rp by (simp add: lr_ok_def)
  have e: "start_assigned now wid sid s = (r, ?s)" using a p by (simp add: start_assigned_def)
  show ?thesis by (rule that [OF e l]) simp_all
qed

text \<open>Starting the admitted session, with the cascade of failures it may cause.\<close>

lemma serve_ok:
  "lr_ok X s \<Longrightarrow> \<forall>w q. adm = Some (Assigned w q) \<longrightarrow> q \<in> held s \<Longrightarrow>
     lr_ok X (snd (serve now adm s)) \<and>
     set (sc_queue (lr_scheduler (snd (serve now adm s)))) \<subseteq> set (sc_queue (lr_scheduler s)) \<and>
     held s - ({q. \<exists>w. adm = Some (Assigned w q)} \<union> fst ` set (sc_queue (lr_scheduler s))) \<subseteq> held (snd (serve now adm s)) \<and>
     lr_closing (snd (serve now adm s)) = lr_closing s \<and> set (lr_finished s) \<subseteq> set (lr_finished (snd (serve now adm s)))"
proof (induction now adm s rule: serve.induct)
  case (1 now wid sid s)
  have h: "sid \<in> held s" using "1.prems"(2) by blast
  show ?case
  proof (cases "od_get (lr_registry s) sid = None")
    case True
    then have "serve now (Some (Assigned wid sid)) s = (Inl (not_found sid), s)"
      by (simp add: start_assigned_def assign_worker_def update_record_def fail_record_def update_status_def)
    with "1.prems" show ?thesis by simp
  next
    case False
    obtain r s1 where s1: "start_assigned now wid sid s = (r, s1)" "lr_ok X s1" "lr_scheduler s1 = lr_scheduler s"
      "lr_finished s1 = lr_finished s" "lr_closing s1 = lr_closing s" "od_get (lr_registry s1) sid \<noteq> None"
      by (rule start_assigned_ok [OF "1.prems"(1) h False, of now wid]) blast
    show ?thesis
    proof (cases r)
      case (Inr u)
      then show ?thesis using s1 by auto
    next
      case (Inl e)
      obtain r1 where r1: "od_get (lr_registry s1) sid = Some r1" using s1(6) by blast
      let ?r = "r1\<lparr>sr_status := S_FAILED, sr_error := Some (error_text e), sr_updated_at := now\<rparr>"
      let ?s = "s1\<lparr>lr_registry := od_put sid ?r (lr_registry s1)\<rparr>"
      have f: "fail_record now sid (error_text e) (lr_registry s1) = (Inr ?r, od_put sid ?r (lr_registry s1))"
        by (simp add: fail_record_def update_status_def update_record_def r1 Let_def)
      have b1: "books_of X s1" and o: "od_ok (lr_registry s1)" "room_ok (lr_pool s1)" using s1(2) by (simp_all add: lr_ok_def)
      have "books (insert sid X) (lr_scheduler s1) (map_of (lr_registry s1)) (serving (lr_pool s1)) (set (lr_finished s1))"
        using b1 by (auto simp: books_def)
      then have "books (insert sid X) (lr_scheduler s1) ((map_of (lr_registry s1))(sid \<mapsto> ?r)) (serving (lr_pool s1)) (set (lr_finished s1))"
        by (rule books_record) (simp_all add: r1 live_def terminal_def)
      then have b: "books_of (insert sid X) ?s" by simp
      obtain rec adm s2 where s2: "settle now sid (Some (error_text e)) False ?s = (Inr (rec, adm), s2)" "lr_ok X s2"
        "held ?s - {sid} \<subseteq> held s2" "set (sc_queue (lr_scheduler s2)) \<subseteq> set (sc_queue (lr_scheduler ?s))"
        "\<And>w q. adm = Some (Assigned w q) \<Longrightarrow> q \<in> held s2 \<and> q \<in> fst ` set (sc_queue (lr_scheduler ?s))"
        "lr_closing s2 = lr_closing ?s" "set (lr_finished s2) = insert sid (set (lr_finished ?s))"
        by (rule settle_ok [OF b, of ?r now "Some (error_text e)" False]) (use o in auto)
      show ?thesis
      proof (cases "lr_closing s2")
        case True
        then have "serve now (Some (Assigned wid sid)) s = (Inr (), s2)" using s1(1) Inl f s2(1) by simp
        then show ?thesis using s1 s2 by auto
      next
        case False
        have eq: "serve now (Some (Assigned wid sid)) s = serve now adm s2" using s1(1) Inl f s2(1) False by simp
        have fm: "(Inl e, s1) = start_assigned now wid sid s" using s1(1) Inl by simp
        have I: "lr_ok X (snd (serve now adm s2)) \<and>
            set (sc_queue (lr_scheduler (snd (serve now adm s2)))) \<subseteq> set (sc_queue (lr_scheduler s2)) \<and>
            held s2 - ({q. \<exists>w. adm = Some (Assigned w q)} \<union> fst ` set (sc_queue (lr_scheduler s2))) \<subseteq> held (snd (serve now adm s2)) \<and>
            lr_closing (snd (serve now adm s2)) = lr_closing s2 \<and> set (lr_finished s2) \<subseteq> set (lr_finished (snd (serve now adm s2)))"
          by (rule "1.IH" [OF fm refl f [symmetric] refl s2(1) [symmetric] refl refl False s2(2)]) (use s2(5) in blast)
        let ?A = "{q. \<exists>w. adm = Some (Assigned w q)}"
        have q: "fst ` set (sc_queue (lr_scheduler s2)) \<subseteq> fst ` set (sc_queue (lr_scheduler s))" "?A \<subseteq> fst ` set (sc_queue (lr_scheduler s))"
          using s1(3) s2(4,5) image_mono [OF s2(4), of fst] by auto
        have "held s - ({sid} \<union> fst ` set (sc_queue (lr_scheduler s))) \<subseteq> held s2 - (?A \<union> fst ` set (sc_queue (lr_scheduler s2)))"
          using q s1(3) s2(3) by auto
        also have "\<dots> \<subseteq> held (snd (serve now adm s2))" using I by blast
        finally show ?thesis unfolding eq using I s1(3-5) s2(4,6,7) by auto
      qed
    qed
  qed
qed auto

lemma finish_accounted:
  assumes b: "books_of (insert sid X) s" and o: "od_ok (lr_registry s)" "room_ok (lr_pool s)" and c: "od_get (lr_registry s) sid \<noteq> None"
  shows "lr_ok X (snd (finish_session now sid err ex s)) \<and>
    insert sid (set (lr_finished s)) \<subseteq> set (lr_finished (snd (finish_session now sid err ex s))) \<and>
    lr_closing (snd (finish_session now sid err ex s)) = lr_closing s"
proof -
  obtain cur where cur: "od_get (lr_registry s) sid = Some cur" using c by blast
  obtain rec adm s1 where s1: "settle now sid err ex s = (Inr (rec, adm), s1)" "lr_ok X s1"
    "\<And>w q. adm = Some (Assigned w q) \<Longrightarrow> q \<in> held s1 \<and> q \<in> fst ` set (sc_queue (lr_scheduler s))"
    "lr_closing s1 = lr_closing s" "set (lr_finished s1) = insert sid (set (lr_finished s))"
    by (rule settle_ok [OF b o cur, of now err ex]) blast
  have "\<forall>w q. adm = Some (Assigned w q) \<longrightarrow> q \<in> held s1" using s1(3) by blast
  note I = serve_ok [OF s1(2) this]
  obtain r s2 where s2: "serve now adm s1 = (r, s2)" by fastforce
  show ?thesis using I [of now] s1 s2 by (cases r) (auto simp: finish_session_def)
qed

lemma books_weaken: "books X sc reg srv fin \<Longrightarrow> X \<subseteq> Y \<Longrightarrow> books Y sc reg srv fin"
  by (auto simp: books_def)

lemma lr_okD: "lr_ok X s \<Longrightarrow> books_of X s" "lr_ok X s \<Longrightarrow> od_ok (lr_registry s)" "lr_ok X s \<Longrightarrow> room_ok (lr_pool s)"
  by (simp_all add: lr_ok_def)

lemma lr_ok_except: "lr_ok X s \<Longrightarrow> books_of (insert sid X) s"
  by (rule books_weaken [OF lr_okD(1)]) blast+

lemma lr_ok_more: "lr_ok X s \<Longrightarrow> X \<subseteq> Y \<Longrightarrow> lr_ok Y s"
  by (auto simp: lr_ok_def intro: books_weaken)

lemma finish_keeps: "lr_ok X s \<Longrightarrow> lr_ok X (snd (finish_session now sid err ex s))"
proof (cases "od_get (lr_registry s) sid")
  case None
  then have "settle now sid err ex s = (Inl (not_found sid), s)" by (simp add: settle_def require_def)
  then show "lr_ok X s \<Longrightarrow> ?thesis" by (simp add: finish_session_def)
qed (use finish_accounted [of sid X s, OF lr_ok_except] lr_okD in blast)

lemma lr_ok_fields [simp]:
  "lr_ok X (s\<lparr>lr_expiring := a\<rparr>) = lr_ok X s" "lr_ok X (s\<lparr>lr_controller_deadlines := d\<rparr>) = lr_ok X s"
  "lr_ok X (s\<lparr>lr_empty_deadlines := d\<rparr>) = lr_ok X s" "lr_ok X (s\<lparr>lr_capacities := m\<rparr>) = lr_ok X s"
  "lr_ok X (s\<lparr>lr_stopping := b\<rparr>) = lr_ok X s" "lr_ok X (s\<lparr>lr_due := e\<rparr>) = lr_ok X s" "lr_ok X (s\<lparr>lr_late := e\<rparr>) = lr_ok X s"
  "lr_ok X (s\<lparr>lr_migrating := f\<rparr>) = lr_ok X s" "lr_ok X (s\<lparr>lr_retiring := g\<rparr>) = lr_ok X s"
  "lr_ok X (s\<lparr>lr_closing := h\<rparr>) = lr_ok X s" "lr_ok X (s\<lparr>lr_closed := h\<rparr>) = lr_ok X s"
  by (simp_all add: lr_ok_def)

lemma lr_ok_fail_deletion [simp]: "lr_ok X (fail_deletion sid s) = lr_ok X s"
  by (simp add: fail_deletion_def)

lemma lr_ok_scheduler:
  "lr_ok X s \<Longrightarrow> sched_inv sc \<Longrightarrow> mset (all_sessions sc) = mset (all_sessions (lr_scheduler s)) \<Longrightarrow> lr_ok X (s\<lparr>lr_scheduler := sc\<rparr>)"
  by (auto simp: lr_ok_def intro: books_scheduler)

lemma lr_ok_sched: "lr_ok X s \<Longrightarrow> sched_inv (lr_scheduler s)"
  by (simp add: lr_ok_def books_def)

lemma lr_ok_status: "lr_ok X s \<Longrightarrow> lr_ok X (on_worker_status now wid st s)"
  unfolding on_worker_status_def
  by (rule lr_ok_scheduler [OF _ sched_inv_updates(1) updates_mset(1)]) (simp_all add: lr_ok_sched)

lemma lr_ok_publish: "lr_ok X s \<Longrightarrow> lr_ok X (publish_status now shown s)"
  by (auto simp: publish_status_def lr_ok_status split: option.split)

lemma lr_ok_capacity: "lr_ok X s \<Longrightarrow> lr_ok X (snd (on_worker_capacity now wid cap s))"
proof -
  assume ok: "lr_ok X s"
  have "lr_ok X (s\<lparr>lr_scheduler := snd (update_worker_capacity now wid cap (lr_scheduler s))\<rparr>)"
    by (rule lr_ok_scheduler [OF ok sched_inv_updates(4) updates_mset(4)]) (rule lr_ok_sched [OF ok])
  then show ?thesis by (cases "update_worker_capacity now wid cap (lr_scheduler s)") (auto simp: on_worker_capacity_def split: sum.split)
qed

lemma lr_ok_pool: "lr_ok X s \<Longrightarrow> room_ok p \<Longrightarrow> serving p = serving (lr_pool s) \<Longrightarrow> lr_ok X (s\<lparr>lr_pool := p\<rparr>)"
  by (simp add: lr_ok_def)

text \<open>A record update that keeps the life of the record, or gives up the life of one whose runner serves.\<close>

lemma lr_ok_update:
  assumes ok: "lr_ok X s" and f: "\<And>r. od_get (lr_registry s) sid = Some r \<Longrightarrow>
      sr_session_id (f r) = sr_session_id r \<and>
      (live (f r) = live r \<or> \<not> live (f r) \<and> serving (lr_pool s) sid \<noteq> None)"
  shows "lr_ok X (s\<lparr>lr_registry := snd (update_record now sid f (lr_registry s))\<rparr>)"
proof (cases "od_get (lr_registry s) sid")
  case (Some r)
  let ?r = "(f r)\<lparr>sr_updated_at := now\<rparr>"
  have l: "live ?r = live (f r)" by (simp add: live_def)
  note b = lr_okD(1) [OF ok]
  have "books X (lr_scheduler s) ((map_of (lr_registry s))(sid \<mapsto> ?r)) (serving (lr_pool s)) (set (lr_finished s))"
    using conjunct2 [OF f [OF Some]]
  proof
    assume "live (f r) = live r"
    then show ?thesis using f [OF Some] by (intro books_same_life [OF b Some]) (simp_all add: l)
  next
    assume "\<not> live (f r) \<and> serving (lr_pool s) sid \<noteq> None"
    then show ?thesis using f [OF Some] by (intro books_record [OF b Some]) (simp_all add: l)
  qed
  with ok Some show ?thesis by (simp add: lr_ok_def update_record_def Let_def)
qed (use ok in \<open>simp add: update_record_def\<close>)

section \<open>Every operation keeps the books\<close>

lemma books_add:
  assumes "books X sc reg srv fin" and "sched_inv sc'" and "mset (all_sessions sc') = add_mset sid (mset (all_sessions sc))"
    and "sid \<notin> set (all_sessions sc)" and "sid \<notin> fin" and "live r" and "sr_session_id r = sid"
  shows "books X sc' (reg(sid \<mapsto> r)) srv fin"
proof -
  have m: "mset (sid # all_sessions sc) = mset (all_sessions sc')" using assms(3) by simp
  have "distinct (all_sessions sc')" using mset_eq_imp_distinct_iff [OF m] assms(1,4) by (simp add: books_def)
  moreover have "set (all_sessions sc') = insert sid (set (all_sessions sc))" using mset_eq_setD [OF m] by auto
  ultimately show ?thesis using assms by (auto simp: books_def)
qed

lemma books_drop:
  assumes "books X sc reg srv fin" and "\<And>r. v = Some r \<Longrightarrow> \<not> live r \<and> sr_session_id r = sid"
  shows "books X (snd (release_session now sid sc)) (reg(sid := v)) srv fin"
proof -
  have sc: "sched_inv sc" "distinct (all_sessions sc)" using assms(1) by (simp_all add: books_def)
  from release_books [OF this, of now sid] assms show ?thesis by (auto simp: books_def)
qed

lemma create_record_fresh:
  assumes "od_get reg sid = None"
  obtains rec where "create_record now sid room ctrl cfg t reg = (Inr rec, od_put sid rec reg)" and "live rec" and "sr_session_id rec = sid"
  using assms by (auto simp: create_record_def Let_def live_def terminal_def)

lemma created_books:
  assumes ok: "lr_ok X s" and fresh: "fresh_id sid s" and a: "assign now sid room (lr_scheduler s) = (adm, sc)"
    and nr: "\<And>x. adm \<noteq> Rejected x" and r: "live r" "sr_session_id r = sid"
  shows "books X sc ((map_of (lr_registry s))(sid \<mapsto> r)) (serving (lr_pool s)) (set (lr_finished s))"
proof -
  have i: "sched_inv (lr_scheduler s)" using ok by (rule lr_ok_sched)
  have "sched_inv sc" using sched_inv_assign [OF i, of now sid room] a by simp
  moreover have "mset (all_sessions sc) = add_mset sid (mset (all_sessions (lr_scheduler s)))"
    using assign_mset [OF i, of now sid room] a nr by (cases adm) auto
  ultimately show ?thesis
    using fresh by (intro books_add [OF lr_okD(1) [OF ok]] r) (simp_all add: fresh_id_def)
qed

lemma lr_ok_create:
  assumes ok: "lr_ok X s" and fresh: "fresh_id sid s"
  shows "lr_ok X (snd (create_session c now sid rq token s))"
proof -
  let ?room = "''tf-world-'' @ sid"
  let ?reg = "lr_registry s"
  have n: "od_get ?reg sid = None" using fresh by (simp add: fresh_id_def map_of_eq_None_iff)
  obtain rec where rec: "create_record now sid ?room (sq_identity rq) (session_config c sid rq) (lc_session_timeout c) ?reg
      = (Inr rec, od_put sid rec ?reg)" "live rec" "sr_session_id rec = sid"
    by (rule create_record_fresh [OF n, of now ?room "sq_identity rq" "session_config c sid rq" "lc_session_timeout c"]) blast
  obtain adm sc where a: "assign now sid ?room (lr_scheduler s) = (adm, sc)" by fastforce
  have o: "od_ok ?reg" "room_ok (lr_pool s)" by (rule lr_okD(2,3) [OF ok])+
  show ?thesis
  proof (cases "\<exists>x. adm = Rejected x")
    case True
    have i: "sched_inv (lr_scheduler s)" using ok by (rule lr_ok_sched)
    have "sched_inv sc" using sched_inv_assign [OF i, of now sid ?room] a by simp
    moreover have "mset (all_sessions sc) = mset (all_sessions (lr_scheduler s))"
      using assign_mset [OF i, of now sid ?room] a True by auto
    ultimately have l: "lr_ok X (s\<lparr>lr_scheduler := sc\<rparr>)" by (rule lr_ok_scheduler [OF ok])
    have e: "map_of (od_del sid (od_put sid rec ?reg)) = map_of ?reg" by (rule ext) (use n in simp)
    have "lr_ok X (s\<lparr>lr_scheduler := sc, lr_registry := od_del sid (od_put sid rec ?reg)\<rparr>)"
      using l o by (simp add: lr_ok_def e del: od_get_put od_get_del)
    then show ?thesis using True rec(1) a by (auto simp: create_session_def delete_record_def)
  next
    case False
    let ?up = "case adm of Assigned wid x \<Rightarrow> assign_worker now sid wid (od_put sid rec ?reg)
                 | _ \<Rightarrow> update_status now sid S_QUEUED None (od_put sid rec ?reg)"
    obtain rec' where up: "?up = (Inr rec', od_put sid rec' (od_put sid rec ?reg))" and live: "live rec'" "sr_session_id rec' = sid"
      using False rec(3)
      by (cases adm) (auto simp: record_updates update_record_def Let_def live_def terminal_def)
    let ?s2 = "s\<lparr>lr_scheduler := sc, lr_registry := od_put sid rec' (od_put sid rec ?reg)\<rparr>"
    have nr: "\<And>x. adm \<noteq> Rejected x" using False by blast
    have b: "books X sc ((map_of ?reg)(sid \<mapsto> rec')) (serving (lr_pool s)) (set (lr_finished s))"
      by (rule created_books [OF ok fresh a nr live])
    have l: "lr_ok X ?s2" using b o by (simp add: lr_ok_def)
    have body: "create_session c now sid rq token s =
      (case token of
         Some e \<Rightarrow> (Inl e, ?s2\<lparr>lr_scheduler := snd (release_session now sid sc),
                             lr_registry := snd (delete_record sid (lr_registry ?s2))\<rparr>)
       | None \<Rightarrow>
           (case adm of
              Assigned wid x \<Rightarrow>
                (case start_room_session rec' (lr_pool ?s2) of
                   (Inr u, p) \<Rightarrow> (Inr (rec', adm), ?s2\<lparr>lr_pool := p\<rparr>)
                 | (Inl e, p) \<Rightarrow>
                     (Inl e, ?s2\<lparr>lr_scheduler := snd (release_session now sid sc),
                                lr_registry := snd (fail_record now sid (error_text e) (lr_registry ?s2))\<rparr>))
            | _ \<Rightarrow> (Inr (rec', adm), ?s2)))"
      using False rec(1) a up by (cases adm; cases token) (auto simp: create_session_def split: prod.split sum.split)
    show ?thesis
    proof (cases token)
      case (Some e)
      have "books X (snd (release_session now sid sc)) ((map_of (lr_registry ?s2))(sid := None)) (serving (lr_pool s)) (set (lr_finished s))"
        by (rule books_drop) (use b in simp_all)
      moreover have "map_of (od_del sid (lr_registry ?s2)) = (map_of (lr_registry ?s2))(sid := None)" by (rule ext) simp
      ultimately show ?thesis using Some o unfolding body
        by (simp add: lr_ok_def delete_record_def del: od_get_put od_get_del)
    next
      case None
      show ?thesis
      proof (cases "\<exists>wid x. adm = Assigned wid x")
        case True
        then obtain wid x where w: "adm = Assigned wid x" by blast
        obtain r p where p: "start_room_session rec' (lr_pool s) = (r, p)" by fastforce
        show ?thesis
        proof (cases r)
          case (Inr u)
          have "lr_ok X (?s2\<lparr>lr_pool := p\<rparr>)"
            using room_ok_start [OF o(2), of rec'] start_serving [of rec' "lr_pool s"] p
            by (intro lr_ok_pool [OF l]) simp_all
          then show ?thesis using None w p Inr unfolding body by simp
        next
          case (Inl e)
          let ?f = "rec'\<lparr>sr_status := S_FAILED, sr_error := Some (error_text e), sr_updated_at := now\<rparr>"
          have f: "snd (fail_record now sid (error_text e) (od_put sid rec' reg)) = od_put sid ?f (od_put sid rec' reg)" for reg
            by (simp add: fail_record_def update_status_def update_record_def Let_def)
          have "books X (snd (release_session now sid sc)) ((map_of (lr_registry ?s2))(sid := Some ?f))
              (serving (lr_pool s)) (set (lr_finished s))"
            by (rule books_drop) (use b live in \<open>simp_all add: live_def terminal_def\<close>)
          then show ?thesis using None w p Inl o unfolding body by (simp add: lr_ok_def f)
        qed
      next
        case False
        then show ?thesis using None l unfolding body by (cases adm) simp_all
      qed
    qed
  qed
qed

lemma lr_ok_stopped: "lr_ok X s \<Longrightarrow> lr_ok X (snd (finish_stopped now sid k s))"
proof -
  assume "lr_ok X s"
  then have "lr_ok X (snd (finish_session now sid None (k \<noteq> Deleting) s))" by (rule finish_keeps)
  then show ?thesis by (cases k) (simp_all add: finish_stopped_def split_def Let_def)
qed

lemma lr_ok_stop: "lr_ok X s \<Longrightarrow> lr_ok X (snd (stop_then_finish now sid k s))"
proof -
  assume ok: "lr_ok X s"
  obtain r s1 where f: "finish_stopped now sid k s = (r, s1)" by fastforce
  then have "lr_ok X s1" using lr_ok_stopped [OF ok, of now sid k] by simp
  with ok show ?thesis
    by (auto simp: stop_then_finish_def f Let_def split: sum.splits option.splits task_phase.splits)
qed

lemma lr_ok_draining:
  "lr_ok X s \<Longrightarrow> (\<And>r. od_get (lr_registry s) sid = Some r \<Longrightarrow> live r) \<Longrightarrow> lr_ok X (set_draining now sid s)"
  unfolding set_draining_def update_status_def
  by (rule lr_ok_update) (simp_all add: live_def terminal_def)

lemma lr_ok_delete: "lr_ok X s \<Longrightarrow> lr_ok X (snd (delete_session now sid s))"
  by (auto simp: delete_session_def require_def live_def intro!: lr_ok_stop lr_ok_draining split: option.splits)

lemma lr_ok_stop_returns: "lr_ok X s \<Longrightarrow> lr_ok X (stop_returns now sid k s)"
  by (simp add: stop_returns_def lr_ok_stopped)

lemma lr_ok_reap:
  assumes ok: "lr_ok X s"
  shows "lr_ok X (reap_scan now s)" and "lr_ok X (reap_next now s)" and "lr_ok X (deadline_scan now s)" and "lr_ok X (reap_deadline now s)"
proof -
  show "lr_ok X (reap_scan now s)" using ok by (simp add: reap_scan_def)
  show "lr_ok X (reap_next now s)"
    using ok
    by (auto simp: reap_next_def Let_def live_def intro!: lr_ok_stop lr_ok_draining split: list.split option.split)
  show "lr_ok X (deadline_scan now s)" using ok by (simp add: deadline_scan_def)
  show "lr_ok X (reap_deadline now s)"
    using ok
    by (auto simp: reap_deadline_def Let_def live_def intro!: lr_ok_stop lr_ok_draining split: list.split option.split)
qed

lemma lr_ok_prune:
  assumes ok: "lr_ok X s"
  shows "lr_ok (X \<union> set (losing s (Prune now))) (prune now s)"
proof -
  let ?reg = "snd (prune_terminal (now - 3600) (lr_registry s))"
  let ?X = "X \<union> set (losing s (Prune now))"
  note b = lr_okD(1) [OF ok] and o = lr_okD(2) [OF ok]
  have g: "map_of ?reg k = (case map_of (lr_registry s) k of None \<Rightarrow> None | Some r \<Rightarrow> if prunable (now - 3600) r then None else Some r)" for k
    by (rule prune_get [OF o])
  have keep: "\<not> prunable (now - 3600) r" if "live r" for r
    using that by (simp add: prunable_def live_def)
  have "books ?X (lr_scheduler s) (map_of ?reg) (serving (lr_pool s)) (set (lr_finished s))"
    unfolding books_def
  proof (intro conjI ballI allI impI)
    fix x assume x: "x \<in> held s" "x \<notin> ?X"
    then obtain r where r: "map_of (lr_registry s) x = Some r" "live r \<or> serving (lr_pool s) x \<noteq> None"
      using b by (auto simp: books_def)
    with x have "\<not> prunable (now - 3600) r" by auto
    with r show "\<exists>r. map_of ?reg x = Some r \<and> (live r \<or> serving (lr_pool s) x \<noteq> None)" by (auto simp: g)
  next
    fix x r assume "map_of ?reg x = Some r" "live r"
    then show "x \<in> held s" using b by (auto simp: g books_def split: option.splits if_splits)
  next
    fix x r assume "map_of ?reg x = Some r"
    then show "sr_session_id r = x" using b by (auto simp: g books_def split: option.splits if_splits)
  qed (use b in \<open>auto simp: books_def\<close>)
  with ok prune_ok [OF o] show ?thesis by (simp add: prune_def lr_ok_def)
qed

lemma task_phases:
  "serving (task_cancel sid p) = serving p"
  "serving (task_done sid p) = serving p"
  "snd (runner_status sid st p) = p' \<Longrightarrow> serving p' = serving p"
proof -
  show "serving (task_cancel sid p) = serving p"
    by (rule ext) (auto simp: task_cancel_def serving_def split: option.splits task_phase.splits)
  show "serving (task_done sid p) = serving p"
    by (rule ext) (auto simp: task_done_def serving_def task_over_def split: option.splits task_phase.splits)
  show "snd (runner_status sid st p) = p' \<Longrightarrow> serving p' = serving p"
    by (auto simp: runner_status_def Let_def split: option.splits)
qed

lemma lr_ok_serving_more:
  assumes ok: "lr_ok X s" and p: "room_ok p" and m: "\<And>x. serving (lr_pool s) x \<noteq> None \<Longrightarrow> serving p x \<noteq> None"
  shows "lr_ok X (s\<lparr>lr_pool := p\<rparr>)"
proof -
  have "books X (lr_scheduler s) (map_of (lr_registry s)) (serving p) (set (lr_finished s))"
    using lr_okD(1) [OF ok] m unfolding books_def by blast
  with ok p show ?thesis by (simp add: lr_ok_def)
qed

lemma begin_serving: "serving p x \<noteq> None \<Longrightarrow> serving (task_begin sid p) x \<noteq> None"
  by (auto simp: task_begin_def serving_def split: option.splits task_phase.splits sum.splits prod.splits)

lemma lr_ok_tasks:
  assumes ok: "lr_ok X s"
  shows "lr_ok X (task_starts sid s)" and "lr_ok X (s\<lparr>lr_pool := task_cancel sid (lr_pool s)\<rparr>)"
    and "lr_ok X (s\<lparr>lr_pool := task_done sid (lr_pool s)\<rparr>)"
proof -
  note p = lr_okD(3) [OF ok]
  have "lr_ok X (s\<lparr>lr_pool := task_begin sid (lr_pool s)\<rparr>)"
    by (rule lr_ok_serving_more [OF ok room_ok_begin [OF p]]) (rule begin_serving)
  then show "lr_ok X (task_starts sid s)" by (simp add: task_starts_def Let_def)
  show "lr_ok X (s\<lparr>lr_pool := task_cancel sid (lr_pool s)\<rparr>)"
    by (rule lr_ok_pool [OF ok room_ok_cancel [OF p]]) (rule task_phases)
  show "lr_ok X (s\<lparr>lr_pool := task_done sid (lr_pool s)\<rparr>)"
    by (rule lr_ok_pool [OF ok room_ok_done [OF p]]) (rule task_phases)
qed

lemma lr_ok_shows:
  "lr_ok X s \<Longrightarrow> runner_status sid st (lr_pool s) = (shown, p) \<Longrightarrow> lr_ok X (publish_status now shown (s\<lparr>lr_pool := p\<rparr>))"
  using room_ok_status [of "lr_pool s" sid st] task_phases(3) [of sid st "lr_pool s" p]
  by (intro lr_ok_publish lr_ok_pool) (auto dest: lr_okD)

lemma lr_ok_reports:
  "lr_ok X s \<Longrightarrow> serving (lr_pool s) sid \<noteq> None \<Longrightarrow> lr_ok X (snd (on_session_status now sid st err s))"
proof -
  assume ok: "lr_ok X s" and v: "serving (lr_pool s) sid \<noteq> None"
  have "lr_ok X (s\<lparr>lr_registry := snd (update_status now sid st err (lr_registry s))\<rparr>)"
    if "od_get (lr_registry s) sid = Some r" "\<not> terminal (sr_status r)" for r
    unfolding update_status_def by (rule lr_ok_update [OF ok]) (use that v in \<open>simp add: live_def\<close>)
  then show ?thesis using ok by (auto simp: on_session_status_def require_def split: option.split)
qed

lemma lr_ok_annotations:
  assumes ok: "lr_ok X s"
  shows "lr_ok X (on_pipeline_session now sid pid s)" and "lr_ok X (on_control_received sid s)"
    and "lr_ok X (on_participant_event c now sid event identity n s)"
proof -
  show "lr_ok X (on_pipeline_session now sid pid s)"
    unfolding on_pipeline_session_def set_pipeline_session_def by (rule lr_ok_update [OF ok]) (simp add: live_def)
  show "lr_ok X (on_control_received sid s)" using ok by (simp add: on_control_received_def)
  have "lr_ok X (s\<lparr>lr_registry := snd (set_participant_count now sid m (lr_registry s))\<rparr>)" for m
    unfolding set_participant_count_def by (rule lr_ok_update [OF ok]) (simp add: live_def)
  then show "lr_ok X (on_participant_event c now sid event identity n s)"
    using ok by (auto simp: on_participant_event_def Let_def split: option.split)
qed

lemma lr_ok_serving_held:
  assumes ok: "lr_ok X s" and p: "room_ok p" and m: "\<And>x. x \<in> held s \<Longrightarrow> serving p x = serving (lr_pool s) x"
  shows "lr_ok X (s\<lparr>lr_pool := p\<rparr>)"
proof -
  have "books X (lr_scheduler s) (map_of (lr_registry s)) (serving p) (set (lr_finished s))"
    using lr_okD(1) [OF ok] m unfolding books_def by simp
  with ok p show ?thesis by (simp add: lr_ok_def)
qed

text \<open>After a session has been finished it has no place, unless it was lost.\<close>

lemma finished_not_held:
  assumes ok: "lr_ok X s" and h: "sid \<in> held (snd (finish_session now sid err ex s))"
  shows "sid \<in> X"
proof (cases "od_get (lr_registry s) sid")
  case None
  then have "snd (finish_session now sid err ex s) = s" by (simp add: finish_session_def settle_def require_def)
  then show ?thesis using h lr_okD(1) [OF ok] None by (auto simp: books_def)
next
  case (Some r)
  have "lr_ok X (snd (finish_session now sid err ex s)) \<and> sid \<in> set (lr_finished (snd (finish_session now sid err ex s)))"
    using finish_accounted [of sid X s now err ex, OF lr_ok_except [OF ok] lr_okD(2) [OF ok] lr_okD(3) [OF ok]] Some by auto
  then show ?thesis using h lr_okD(1) [of X "snd (finish_session now sid err ex s)"] by (auto simp: books_def)
qed

lemma runner_end_serving: "x \<noteq> sid \<Longrightarrow> serving (snd (runner_end sid ph p)) x = serving p x"
  by (auto simp: runner_end_def Let_def split: option.split)

lemma lr_ok_runner_end:
  assumes ok: "lr_ok X s" and ph: "ph \<noteq> Serving" and h: "sid \<in> held s \<Longrightarrow> sid \<notin> X \<Longrightarrow> \<exists>r. od_get (lr_registry s) sid = Some r \<and> live r"
    and p: "runner_end sid ph (lr_pool s) = (shown, p)"
  shows "lr_ok X (s\<lparr>lr_pool := p\<rparr>)"
proof -
  have v: "serving p x = serving (lr_pool s) x" if "x \<noteq> sid" for x
    using runner_end_serving [OF that, of ph "lr_pool s"] p by simp
  have "books X (lr_scheduler s) (map_of (lr_registry s)) (serving p) (set (lr_finished s))"
    unfolding books_def
  proof (intro conjI ballI allI impI)
    fix x assume x: "x \<in> held s" "x \<notin> X"
    show "\<exists>r. map_of (lr_registry s) x = Some r \<and> (live r \<or> serving p x \<noteq> None)"
    proof (cases "x = sid")
      case True
      then show ?thesis using h x by blast
    next
      case False
      show ?thesis using lr_okD(1) [OF ok] x unfolding books_def v [OF False] by blast
    qed
  qed (use lr_okD(1) [OF ok] in \<open>auto simp: books_def\<close>)
  moreover have "room_ok p" using room_ok_end [OF lr_okD(3) [OF ok] ph, of sid] p by simp
  ultimately show ?thesis using ok by (simp add: lr_ok_def)
qed

lemma lr_ok_runner_finishes:
  assumes ok: "lr_ok X s"
  shows "lr_ok X (runner_finishes now sid err s)"
proof -
  obtain r s1 where f: "finish_session now sid err False s = (r, s1)" by fastforce
  let ?ph = "case r of Inl e \<Rightarrow> Failed e | Inr rec \<Rightarrow> Ended"
  obtain shown p where p: "runner_end sid ?ph (lr_pool s1) = (shown, p)" by fastforce
  have ok1: "lr_ok X s1" using finish_keeps [OF ok, of now sid err False] f by simp
  have ph: "?ph \<noteq> Serving" by (simp split: sum.split)
  have "sid \<in> held s1 \<Longrightarrow> sid \<in> X" using finished_not_held [OF ok, of sid now err False] f by simp
  then have "lr_ok X (s1\<lparr>lr_pool := p\<rparr>)" by (intro lr_ok_runner_end [OF ok1 ph _ p]) blast
  then have "lr_ok X (publish_status now shown (s1\<lparr>lr_pool := p\<rparr>))" by (rule lr_ok_publish)
  then show ?thesis
    using ok f p by (simp add: runner_finishes_def on_session_finished_def Let_def split: sum.split)
qed

lemma lr_ok_runner_cut:
  assumes ok: "lr_ok X s"
  shows "lr_ok (X \<union> set (losing s (Runner_cut now sid))) (runner_cut now sid s)"
proof -
  let ?X = "X \<union> set (losing s (Runner_cut now sid))"
  obtain shown p where p: "runner_end sid Ended (lr_pool s) = (shown, p)" by fastforce
  have ok1: "lr_ok ?X s" by (rule lr_ok_more [OF ok]) blast
  show ?thesis
  proof (cases "serving (lr_pool s) sid")
    case None
    then have "p = lr_pool s" using p by (simp add: runner_end_def)
    then show ?thesis using ok1 p by (simp add: runner_cut_def lr_ok_publish)
  next
    case (Some w)
    have "\<exists>r. od_get (lr_registry s) sid = Some r \<and> live r" if h: "sid \<in> held s" "sid \<notin> ?X"
    proof -
      obtain r where "od_get (lr_registry s) sid = Some r" using h lr_okD(1) [OF ok] by (auto simp: books_def)
      then show ?thesis using h Some by (auto simp: live_def split: if_splits)
    qed
    then have "lr_ok ?X (s\<lparr>lr_pool := p\<rparr>)" by (intro lr_ok_runner_end [OF ok1 _ _ p]) simp_all
    then show ?thesis using p by (simp add: runner_cut_def lr_ok_publish)
  qed
qed

lemma scaling_serving: "serving (snd (scale_out b c e p)) = serving p" "serving (snd (retire_begin retained p)) = serving p"
    "serving (retire_end wid p) = serving p" "serving (close_pool p) = serving p"
proof -
  show "serving (snd (scale_out b c e p)) = serving p"
    by (auto simp: scale_out_def split: option.split sum.split prod.split)
  show "serving (snd (retire_begin retained p)) = serving p" by (auto simp: retire_begin_def split: option.split)
  show "serving (retire_end wid p) = serving p" by (simp add: retire_end_def)
  show "serving (close_pool p) = serving p" by (rule ext) (simp add: close_pool_def serving_def)
qed

lemma lr_ok_pools:
  assumes ok: "lr_ok X s"
  shows "lr_ok X (s\<lparr>lr_pool := snd (scale_out b c e (lr_pool s))\<rparr>)" and "lr_ok X (s\<lparr>lr_pool := snd (retire_begin retained (lr_pool s))\<rparr>)"
    and "lr_ok X (s\<lparr>lr_pool := retire_end wid (lr_pool s)\<rparr>)" and "lr_ok X (s\<lparr>lr_pool := close_pool (lr_pool s)\<rparr>)"
  using lr_okD(3) [OF ok]
  by (auto intro!: lr_ok_pool [OF ok] room_ok_scale_out room_ok_retire room_ok_close simp: scaling_serving)

lemma lr_ok_add_worker: "lr_ok X s \<Longrightarrow> lr_ok X (add_worker now b c s)"
proof -
  assume ok: "lr_ok X s"
  show ?thesis
  proof (cases "next_inactive (lr_pool s)")
    case (Some wid)
    obtain r s1 where c: "on_worker_capacity now wid c s = (r, s1)" by fastforce
    then have ok1: "lr_ok X s1" using lr_ok_capacity [OF ok, of now wid c] by simp
    obtain ready p where p: "scale_out b c (case r of Inl e \<Rightarrow> Some e | Inr u \<Rightarrow> None) (lr_pool s1) = (ready, p)" by fastforce
    have "lr_ok X (s1\<lparr>lr_pool := p\<rparr>)"
      using lr_ok_pools(1) [OF ok1, of b c "case r of Inl e \<Rightarrow> Some e | Inr u \<Rightarrow> None"] p by simp
    then show ?thesis
      using Some c p lr_ok_pools(1) [OF ok, of b c None] by (simp add: add_worker_def lr_ok_publish split: option.split)
  qed (simp add: add_worker_def ok)
qed

lemma lr_ok_retire: "lr_ok X s \<Longrightarrow> lr_ok X (retire_worker retained s)" "lr_ok X s \<Longrightarrow> lr_ok X (worker_retired now wid s)"
proof -
  assume ok: "lr_ok X s"
  show "lr_ok X (retire_worker retained s)"
    using lr_ok_pools(2) [OF ok, of retained] ok
    by (cases "retire_begin retained (lr_pool s)") (auto simp: retire_worker_def split: option.split)
  have "lr_ok X (s\<lparr>lr_pool := retire_end wid (lr_pool s), lr_retiring := remove1 wid (lr_retiring s)\<rparr>)"
    using lr_ok_pools(3) [OF ok, of wid] by simp
  then show "lr_ok X (worker_retired now wid s)" using ok by (simp add: worker_retired_def lr_ok_status)
qed

lemma reassign_held:
  "reassign_session now sid target sc = (Inr a, sc') \<Longrightarrow> sid \<in> set (all_sessions sc)"
  using find_holder_SomeD [of sid "sc_workers sc"]
  by (auto simp: reassign_session_def worker_for_session_def all_sessions_def holdings_def split: option.splits)

lemma lr_ok_migrated: "lr_ok X s \<Longrightarrow> lr_ok X (snd (migrate_done now sid target failure s))"
proof -
  assume ok: "lr_ok X s"
  have i: "sched_inv (lr_scheduler s)" using ok by (rule lr_ok_sched)
  obtain r sc where r: "reassign_session now sid target (lr_scheduler s) = (r, sc)" by fastforce
  have m: "mset (all_sessions sc) = mset (all_sessions (lr_scheduler s))"
    using reassign_mset [OF i, of now sid target] r by simp
  have ok1: "lr_ok X (s\<lparr>lr_scheduler := sc\<rparr>)"
    using sched_inv_reassign [OF i, of now sid target] r m by (intro lr_ok_scheduler [OF ok]) simp_all
  have ok2: "lr_ok X (s\<lparr>lr_scheduler := sc, lr_registry := snd (assign_worker now sid target (lr_registry s))\<rparr>)" if "r = Inr a" for a
  proof (cases "map_of (lr_registry s) sid")
    case None
    then show ?thesis using ok1 by (simp add: assign_worker_def update_record_def)
  next
    case (Some r0)
    note r0 = Some
    have h: "sid \<in> set (all_sessions sc)" using reassign_held [of now sid target "lr_scheduler s" a sc] r that mset_eq_setD [OF m] by simp
    let ?r = "r0\<lparr>sr_status := S_ASSIGNED, sr_worker_id := Some target, sr_updated_at := now\<rparr>"
    have "books X sc ((map_of (lr_registry s))(sid \<mapsto> ?r)) (serving (lr_pool s)) (set (lr_finished s))"
      by (rule books_record [of _ _ _ _ _ _ r0]) (use h r0 lr_okD(1) [OF ok1] in \<open>simp_all add: live_def terminal_def\<close>)
    then show ?thesis using ok r0 by (simp add: lr_ok_def assign_worker_def update_record_def Let_def)
  qed
  obtain r' reg where a: "assign_worker now sid target (lr_registry s) = (r', reg)" by fastforce
  show ?thesis
  proof (cases "(sid, target) \<in> set (lr_migrating s) \<and> failure = None")
    case True
    have f: "lr_ok X (s\<lparr>lr_migrating := x, lr_scheduler := sc\<rparr>)" "\<And>a. r = Inr a \<Longrightarrow> lr_ok X (s\<lparr>lr_migrating := x, lr_scheduler := sc, lr_registry := reg\<rparr>)" for x
      using ok1 ok2 a by (simp_all add: lr_ok_def)
    show ?thesis using True f r a by (auto simp: migrate_done_def Let_def split: sum.split)
  next
    case False
    then show ?thesis using ok by (auto simp: migrate_done_def Let_def)
  qed
qed

lemma serve_all_ok:
  "lr_ok X s \<Longrightarrow> as = map (\<lambda>(w, x). Assigned w (fst x)) ws \<Longrightarrow> distinct (map (fst \<circ> snd) ws) \<Longrightarrow>
     \<forall>e \<in> set ws. fst (snd e) \<in> held s \<and> fst (snd e) \<notin> fst ` set (sc_queue (lr_scheduler s)) \<Longrightarrow>
     lr_ok X (snd (serve_all now as s)) \<and>
     set (lr_finished s) \<subseteq> set (lr_finished (snd (serve_all now as s)))"
proof (induction now as s arbitrary: ws rule: serve_all.induct)
  case (2 now a as s)
  obtain w x ws' where ws: "ws = (w, x) # ws'" "a = Assigned w (fst x)" "as = map (\<lambda>(w, x). Assigned w (fst x)) ws'"
    using "2.prems"(2) by (cases ws) auto
  obtain r s1 where s1: "serve now (Some a) s = (r, s1)" by fastforce
  have I: "lr_ok X s1" "set (sc_queue (lr_scheduler s1)) \<subseteq> set (sc_queue (lr_scheduler s))"
    "held s - ({fst x} \<union> fst ` set (sc_queue (lr_scheduler s))) \<subseteq> held s1" "set (lr_finished s) \<subseteq> set (lr_finished s1)"
    using serve_ok [OF "2.prems"(1), of "Some a" now] "2.prems"(4) ws s1 by auto
  have "\<forall>e \<in> set ws'. fst (snd e) \<in> held s1 \<and> fst (snd e) \<notin> fst ` set (sc_queue (lr_scheduler s1))"
  proof
    fix e assume e: "e \<in> set ws'"
    then have "fst (snd e) \<in> held s - ({fst x} \<union> fst ` set (sc_queue (lr_scheduler s)))"
      using "2.prems"(3,4) ws(1) by (auto simp: image_iff)
    with I(2,3) show "fst (snd e) \<in> held s1 \<and> fst (snd e) \<notin> fst ` set (sc_queue (lr_scheduler s1))" by blast
  qed
  moreover have "distinct (map (fst \<circ> snd) ws')" using "2.prems"(3) ws(1) by (simp add: comp_def)
  ultimately have "lr_ok X (snd (serve_all now as s1)) \<and>
      set (lr_finished s1) \<subseteq> set (lr_finished (snd (serve_all now as s1)))" if "r = Inr u" for u
    using "2.IH" [OF s1 [symmetric] that I(1) ws(3)] by blast
  then show ?case using s1 I(1,4) by (cases r) auto
qed simp

lemma lr_ok_drain: "lr_ok X s \<Longrightarrow> lr_ok X (drain_and_start now s) \<and> set (lr_finished s) \<subseteq> set (lr_finished (drain_and_start now s))"
proof -
  assume ok: "lr_ok X s"
  have i: "sched_inv (lr_scheduler s)" using ok by (rule lr_ok_sched)
  obtain as sc where d: "drain_queue now (lr_scheduler s) = (as, sc)" by fastforce
  let ?q = "sc_queue (lr_scheduler s)"
  have m: "mset (all_sessions sc) = mset (all_sessions (lr_scheduler s))" using drain_mset [OF i, of now] d by simp
  have ok1: "lr_ok X (s\<lparr>lr_scheduler := sc\<rparr>)"
    using sched_inv_drain [OF i, of now] d m by (intro lr_ok_scheduler [OF ok]) simp_all
  obtain wids where w: "as = map (\<lambda>(w, x). Assigned w (fst x)) (zip wids ?q)" "length wids \<le> length ?q" "sc_queue sc = drop (length wids) ?q"
    using drain_loop_fifo [of now ?q "lr_scheduler s" as sc] d by (auto simp: drain_queue_def)
  have "distinct (map fst ?q)" using lr_okD(1) [OF ok] by (simp add: books_def all_sessions_def)
  then have t: "distinct (map fst (take (length wids) ?q) @ map fst (drop (length wids) ?q))"
    by (metis append_take_drop_id map_append)
  have z: "map snd (zip wids ?q) = take (length wids) ?q" using w(2) by (simp add: map_snd_zip_take)
  have ids: "map (fst \<circ> snd) (zip wids ?q) = map fst (take (length wids) ?q)" using z by (metis map_map)
  have "fst (snd e) \<in> held (s\<lparr>lr_scheduler := sc\<rparr>) \<and> fst (snd e) \<notin> fst ` set (sc_queue sc)" if e: "e \<in> set (zip wids ?q)" for e
  proof -
    have "fst (snd e) \<in> set (map (fst \<circ> snd) (zip wids ?q))" using e by force
    then have f: "fst (snd e) \<in> set (map fst (take (length wids) ?q))" unfolding ids .
    then have "fst (snd e) \<in> fst ` set ?q" by (auto dest: in_set_takeD)
    then have "fst (snd e) \<in> held s" by (simp add: all_sessions_def)
    moreover have "fst (snd e) \<notin> fst ` set (sc_queue sc)" using f t unfolding w(3) by auto
    ultimately show ?thesis using mset_eq_setD [OF m] by simp
  qed
  then have "lr_ok X (snd (serve_all now as (s\<lparr>lr_scheduler := sc\<rparr>))) \<and>
      set (lr_finished s) \<subseteq> set (lr_finished (snd (serve_all now as (s\<lparr>lr_scheduler := sc\<rparr>))))"
    using serve_all_ok [OF ok1 w(1)] ids t by simp
  then show ?thesis by (simp add: drain_and_start_def d)
qed

lemma lr_ok_foldl: "(\<And>t x. lr_ok X t \<Longrightarrow> lr_ok X (f t x)) \<Longrightarrow> lr_ok X s \<Longrightarrow> lr_ok X (foldl f s xs)"
  by (induction xs arbitrary: s) auto

lemma lr_ok_close: "lr_ok X s \<Longrightarrow> lr_ok X (close_begin s)" "lr_ok X s \<Longrightarrow> lr_ok X (close_end now s)"
proof -
  assume ok: "lr_ok X s"
  show "lr_ok X (close_begin s)" using ok by (simp add: close_begin_def)
  define s1 where "s1 = foldl (\<lambda>t wid. on_worker_status now wid W_STOPPED t) s (wp_active (lr_pool s))"
  have "lr_ok X s1" unfolding s1_def by (rule lr_ok_foldl [OF lr_ok_status ok])
  then have "lr_ok X (s1\<lparr>lr_pool := close_pool (lr_pool s1)\<rparr>)" by (rule lr_ok_pools(4))
  then have "lr_ok X (foldl (finish_live now) (s1\<lparr>lr_pool := close_pool (lr_pool s1)\<rparr>) xs)" for xs
    by (rule lr_ok_foldl [rotated]) (simp add: finish_live_def finish_keeps)
  then show "lr_ok X (close_end now s)"
    using ok unfolding close_end_def Let_def s1_def [symmetric] by simp
qed

subsection \<open>Finished sessions stay finished\<close>

lemma fin_finish: "lr_ok X s \<Longrightarrow> set (lr_finished s) \<subseteq> set (lr_finished (snd (finish_session now sid err ex s)))"
proof (cases "od_get (lr_registry s) sid")
  case None
  then show ?thesis by (simp add: finish_session_def settle_def require_def)
next
  case (Some r)
  assume ok: "lr_ok X s"
  then show ?thesis
    using finish_accounted [of sid X s now err ex, OF lr_ok_except [OF ok] lr_okD(2) [OF ok] lr_okD(3) [OF ok]] Some by auto
qed

lemma fin_stopped: "lr_ok X s \<Longrightarrow> set (lr_finished s) \<subseteq> set (lr_finished (snd (finish_stopped now sid k s)))"
  using fin_finish [of X s now sid None "k \<noteq> Deleting"] by (cases k) (simp_all add: finish_stopped_def split_def Let_def)

lemma fin_stop: "lr_ok X s \<Longrightarrow> set (lr_finished s) \<subseteq> set (lr_finished (snd (stop_then_finish now sid k s)))"
proof -
  assume ok: "lr_ok X s"
  obtain r s1 where f: "finish_stopped now sid k s = (r, s1)" by fastforce
  then have "set (lr_finished s) \<subseteq> set (lr_finished s1)" using fin_stopped [OF ok, of now sid k] by simp
  then show ?thesis by (auto simp: stop_then_finish_def f Let_def split: sum.splits option.splits task_phase.splits)
qed

lemma fin_same:
  "lr_finished (set_draining now sid s) = lr_finished s" "lr_finished (on_worker_status now wid st s) = lr_finished s"
  "lr_finished (publish_status now shown s) = lr_finished s" "lr_finished (snd (on_worker_capacity now wid cap s)) = lr_finished s"
  "lr_finished (snd (create_session c now sid rq token s)) = lr_finished s"
  "lr_finished (snd (on_session_status now sid st2 err s)) = lr_finished s"
  "lr_finished (runner_cut now sid s) = lr_finished s" "lr_finished (task_starts sid s) = lr_finished s"
  "lr_finished (snd (migrate_check sid target s)) = lr_finished s" "lr_finished (snd (migrate_done now sid target failure s)) = lr_finished s"
  by (auto simp: set_draining_def on_worker_status_def publish_status_def on_worker_capacity_def create_session_def
      on_session_status_def migrate_check_def migrate_done_def runner_cut_def task_starts_def fail_deletion_def Let_def
      split: option.split sum.split prod.split admission.split)

lemma fin_delete: "lr_ok X s \<Longrightarrow> set (lr_finished s) \<subseteq> set (lr_finished (snd (delete_session now sid s)))"
proof (cases "\<exists>r. od_get (lr_registry s) sid = Some r \<and> live r")
  case True
  assume ok: "lr_ok X s"
  from True obtain r where r: "od_get (lr_registry s) sid = Some r" "live r" by blast
  have "lr_ok X (set_draining now sid s)" by (rule lr_ok_draining [OF ok]) (use r in simp)
  from fin_stop [OF this, of now sid Deleting] show ?thesis
    using r by (simp add: delete_session_def require_def live_def fin_same)
next
  case False
  then show ?thesis by (auto simp: delete_session_def require_def live_def split: option.split)
qed

lemma fin_reap:
  assumes ok: "lr_ok X s"
  shows "set (lr_finished s) \<subseteq> set (lr_finished (reap_next now s))"
    and "set (lr_finished s) \<subseteq> set (lr_finished (reap_deadline now s))"
proof -
  have n: "set (lr_finished t) \<subseteq> set (lr_finished (snd (stop_then_finish now x k
      (if terminal (sr_status r) then t else set_draining now x t))))"
    if t: "lr_ok X t" "od_get (lr_registry t) x = Some r" for x k r t
  proof (cases "terminal (sr_status r)")
    case True
    then show ?thesis using fin_stop [OF t(1), of now x k] by simp
  next
    case False
    have "lr_ok X (set_draining now x t)" by (rule lr_ok_draining [OF t(1)]) (use t(2) False in \<open>simp add: live_def\<close>)
    from fin_stop [OF this, of now x k] False show ?thesis by (simp add: fin_same)
  qed
  show "set (lr_finished s) \<subseteq> set (lr_finished (reap_next now s))"
  proof (cases "reaper_free s \<and> lr_due s \<noteq> []")
    case True
    then obtain x d where d: "lr_due s = x # d" by (cases "lr_due s") auto
    show ?thesis
    proof (cases "od_get (lr_registry s) x")
      case (Some r)
      then show ?thesis
        using True d n [of "s\<lparr>lr_due := d, lr_expiring := x # lr_expiring s\<rparr>" x r Expiring] ok
        by (simp add: reap_next_def Let_def)
    qed (simp add: reap_next_def Let_def d)
  qed (auto simp: reap_next_def)
  show "set (lr_finished s) \<subseteq> set (lr_finished (reap_deadline now s))"
  proof (cases "reaper_free s \<and> lr_late s \<noteq> []")
    case True
    then obtain x d where d: "lr_late s = x # d" by (cases "lr_late s") auto
    show ?thesis
    proof (cases "od_get (lr_registry s) x")
      case (Some r)
      show ?thesis
      proof (cases "terminal (sr_status r)")
        case False
        then show ?thesis
          using Some True d n [of "s\<lparr>lr_late := d, lr_expiring := x # lr_expiring s\<rparr>" x r Deadline] ok
          by (simp add: reap_deadline_def Let_def)
      qed (simp add: reap_deadline_def Let_def d Some)
    qed (simp add: reap_deadline_def Let_def d)
  qed (auto simp: reap_deadline_def)
qed

lemma fin_ends:
  assumes ok: "lr_ok X s"
  shows "set (lr_finished s) \<subseteq> set (lr_finished (runner_finishes now sid err s))"
    and "set (lr_finished s) \<subseteq> set (lr_finished (stop_returns now sid k s))"
    and "lr_finished (add_worker now b cap s) = lr_finished s"
    and "lr_finished (retire_worker retained s) = lr_finished s" and "lr_finished (worker_retired now wid s) = lr_finished s"
proof -
  show "set (lr_finished s) \<subseteq> set (lr_finished (runner_finishes now sid err s))"
    using fin_finish [OF ok, of now sid err False]
    by (auto simp: runner_finishes_def on_session_finished_def fail_deletion_def Let_def fin_same split: prod.split sum.split)
  show "set (lr_finished s) \<subseteq> set (lr_finished (stop_returns now sid k s))"
    using fin_stopped [of X "s\<lparr>lr_stopping := remove1 (sid, k) (lr_stopping s)\<rparr>" now sid k] ok
    by (simp add: stop_returns_def)
  have c: "on_worker_capacity now wid cap s = (r, s1) \<Longrightarrow> lr_finished s1 = lr_finished s" for wid r s1
    using fin_same(4) [of now wid cap s] by simp
  show "lr_finished (add_worker now b cap s) = lr_finished s"
    by (auto simp: add_worker_def fin_same split: option.split prod.split dest: c)
  show "lr_finished (retire_worker retained s) = lr_finished s"
    by (auto simp: retire_worker_def split: option.split prod.split)
  show "lr_finished (worker_retired now wid s) = lr_finished s"
    by (simp add: worker_retired_def fin_same)
qed

subsection \<open>Closing\<close>

lemma finish_closing:
  assumes ok: "lr_ok X s" and c: "lr_closing s"
  shows "lr_ok X (finish_live now s sid) \<and> lr_closing (finish_live now s sid) \<and>
    set (lr_finished s) \<subseteq> set (lr_finished (finish_live now s sid)) \<and>
    (\<forall>r. od_get (lr_registry (finish_live now s sid)) sid = Some r \<longrightarrow> \<not> live r) \<and>
    (\<forall>x. x \<noteq> sid \<longrightarrow> od_get (lr_registry (finish_live now s sid)) x = od_get (lr_registry s) x)"
proof (cases "od_get (lr_registry s) sid")
  case None
  then have "finish_live now s sid = s" by (simp add: finish_live_def finish_session_def settle_def require_def)
  with ok c None show ?thesis by simp
next
  case (Some cur)
  obtain rec adm s1 where s1: "settle now sid (Some ''runtime closed'') False s = (Inr (rec, adm), s1)" "lr_ok X s1"
    "lr_closing s1 = lr_closing s" "set (lr_finished s1) = insert sid (set (lr_finished s))"
    "\<And>x. x \<noteq> sid \<Longrightarrow> od_get (lr_registry s1) x = od_get (lr_registry s) x"
    by (rule settle_ok [OF lr_ok_except [OF ok] lr_okD(2) [OF ok] lr_okD(3) [OF ok] Some, of now "Some ''runtime closed''" False]) blast
  have e: "finish_live now s sid = s1" using s1(1,3) c by (simp add: finish_live_def finish_session_def)
  have "\<not> live r" if "od_get (lr_registry s1) sid = Some r" for r
    using lr_okD(1) [OF s1(2)] s1(4) that by (auto simp: books_def)
  then show ?thesis unfolding e using s1 c by auto
qed

lemma finish_all_closing:
  "lr_ok X s \<Longrightarrow> lr_closing s \<Longrightarrow>
     lr_ok X (foldl (finish_live now) s xs) \<and> set (lr_finished s) \<subseteq> set (lr_finished (foldl (finish_live now) s xs)) \<and>
     (\<forall>x r. od_get (lr_registry (foldl (finish_live now) s xs)) x = Some r \<longrightarrow> live r \<longrightarrow>
        x \<notin> set xs \<and> od_get (lr_registry s) x = Some r)"
proof (induction xs arbitrary: s)
  case (Cons y xs)
  note f = finish_closing [OF Cons.prems, of now y]
  have I: "lr_ok X (foldl (finish_live now) (finish_live now s y) xs) \<and>
      set (lr_finished (finish_live now s y)) \<subseteq> set (lr_finished (foldl (finish_live now) (finish_live now s y) xs)) \<and>
      (\<forall>x r. od_get (lr_registry (foldl (finish_live now) (finish_live now s y) xs)) x = Some r \<longrightarrow> live r \<longrightarrow>
        x \<notin> set xs \<and> od_get (lr_registry (finish_live now s y)) x = Some r)"
    by (rule Cons.IH) (use f in blast)+
  show ?case unfolding foldl.simps
  proof (intro conjI allI impI)
    fix x r
    assume r: "od_get (lr_registry (foldl (finish_live now) (finish_live now s y) xs)) x = Some r" "live r"
    then have x: "x \<notin> set xs" "od_get (lr_registry (finish_live now s y)) x = Some r" using I by blast+
    then have "x \<noteq> y" using f r(2) by blast
    then show "x \<notin> set (y # xs)" "od_get (lr_registry s) x = Some r" using x f by auto
  qed (use I f in auto)
qed simp

lemma stopped_frame:
  "lr_registry (foldl (\<lambda>t wid. on_worker_status now wid st t) s ws) = lr_registry s"
  "lr_pool (foldl (\<lambda>t wid. on_worker_status now wid st t) s ws) = lr_pool s"
  "lr_finished (foldl (\<lambda>t wid. on_worker_status now wid st t) s ws) = lr_finished s"
  "lr_closing (foldl (\<lambda>t wid. on_worker_status now wid st t) s ws) = lr_closing s"
  by (induction ws arbitrary: s) (simp_all add: on_worker_status_def)

lemma close_end_result:
  assumes ok: "lr_ok X s" and c: "lr_closing s"
  shows "set (lr_finished s) \<subseteq> set (lr_finished (close_end now s)) \<and> lr_closed (close_end now s) \<and>
    (\<forall>x r. od_get (lr_registry (close_end now s)) x = Some r \<longrightarrow> \<not> live r)"
proof -
  define s1 where "s1 = foldl (\<lambda>t wid. on_worker_status now wid W_STOPPED t) s (wp_active (lr_pool s))"
  define s2 where "s2 = s1\<lparr>lr_pool := close_pool (lr_pool s1)\<rparr>"
  let ?xs = "map sr_session_id (filter live (od_vals (lr_registry s2)))"
  let ?s3 = "foldl (finish_live now) s2 ?xs"
  have e: "close_end now s = ?s3\<lparr>lr_closing := False, lr_closed := True\<rparr>"
    using c unfolding close_end_def Let_def s1_def [symmetric] s2_def [symmetric] by simp
  have "lr_ok X s1" unfolding s1_def by (rule lr_ok_foldl [OF lr_ok_status ok])
  then have ok2: "lr_ok X s2" unfolding s2_def by (rule lr_ok_pools(4))
  have c2: "lr_closing s2" "lr_finished s2 = lr_finished s" using c by (simp_all add: s2_def s1_def stopped_frame)
  note F = finish_all_closing [OF ok2 c2(1), of now ?xs]
  have f: "set (lr_finished s) \<subseteq> set (lr_finished ?s3)" using conjunct1 [OF conjunct2 [OF F]] unfolding c2(2) .
  have "\<not> live r" if r: "od_get (lr_registry ?s3) x = Some r" for x r
  proof
    assume l: "live r"
    then have x: "x \<notin> set ?xs" "od_get (lr_registry s2) x = Some r" using F r by blast+
    then have "sr_session_id r = x" using lr_okD(1) [OF ok2] by (auto simp: books_def)
    moreover have "r \<in> set (filter live (od_vals (lr_registry s2)))" using od_vals_get [OF x(2)] l by simp
    ultimately have "x \<in> set ?xs" by force
    with x(1) show False by simp
  qed
  then have n: "\<forall>x r. od_get (lr_registry ?s3) x = Some r \<longrightarrow> \<not> live r" by blast
  define t where "t = ?s3"
  show ?thesis using f n unfolding e t_def [symmetric] by simp
qed

text \<open>The finished sessions are the rank of the machine: no step forgets one.\<close>

lemma lr_ok_step:
  assumes ok: "lr_ok X s"
  shows "lr_ok (X \<union> set (losing s e)) (live_step c s e)"
proof (cases e)
  case (Runner_shows now sid st)
  obtain shown p where p: "runner_status sid st (lr_pool s) = (shown, p)" by fastforce
  show ?thesis using lr_ok_shows [OF ok p, of now] by (simp add: Runner_shows p)
next
  case (Migrate sid target)
  show ?thesis using ok by (auto simp: Migrate migrate_check_def require_def split: option.split)
next
  case (Prune now)
  show ?thesis using lr_ok_prune [OF ok, of now] unfolding Prune live_step.simps .
next
  case (Runner_cut now sid)
  show ?thesis using lr_ok_runner_cut [OF ok, of now sid] unfolding Runner_cut live_step.simps .
qed (use ok in \<open>simp_all add: lr_ok_create lr_ok_delete lr_ok_stop_returns lr_ok_reap lr_ok_tasks
    lr_ok_reports lr_ok_annotations lr_ok_runner_finishes lr_ok_status lr_ok_add_worker lr_ok_drain lr_ok_retire
    lr_ok_migrated lr_ok_close\<close>)

lemma lr_ok_run: "lr_ok X s \<Longrightarrow> lr_ok (X \<union> set (losses c s es)) (foldl (live_step c) s es)"
proof (induction es arbitrary: X s)
  case (Cons e es)
  from Cons.IH [OF lr_ok_step [OF Cons.prems, of e c]] show ?case by (simp add: Un_assoc)
qed simp

interpretation live: ranked_machine "live_step c" "lr_ok UNIV" "\<lambda>s. set (lr_finished s)" for c
proof unfold_locales
  fix s e
  assume ok: "lr_ok UNIV s"
  show "set (lr_finished s) \<subseteq> set (lr_finished (live_step c s e))"
  proof (cases e)
    case (Runner_shows now sid st)
    obtain shown p where p: "runner_status sid st (lr_pool s) = (shown, p)" by fastforce
    show ?thesis by (simp add: Runner_shows p fin_same)
  next
    case (Close_end now)
    show ?thesis
    proof (cases "lr_closing s")
      case True
      then show ?thesis using close_end_result [OF ok True, of now] by (simp add: Close_end)
    qed (simp add: Close_end close_end_def)
  qed (use ok in \<open>simp_all add: fin_same fin_delete fin_ends fin_reap lr_ok_drain prune_def
      reap_scan_def deadline_scan_def on_pipeline_session_def on_control_received_def on_participant_event_def close_begin_def Let_def split: option.split\<close>)
  show "lr_ok UNIV (live_step c s e)" using lr_ok_step [OF ok, of e c] by simp
qed

section \<open>Properties\<close>

lemma new_scheduler_empty: "new_scheduler now n groups qs ms = Inr sc \<Longrightarrow> all_sessions sc = []"
  by (auto simp: new_scheduler_def Let_def all_sessions_def holdings_def comp_def split: if_splits)

lemma lr_ok_new:
  assumes "new_scheduler now n groups qs ms = Inr sc" and "new_room_pool limit wids initial = Inr p"
  shows "lr_ok X (new_runtime sc p)"
  using sched_inv_new [OF assms(1)] new_scheduler_empty [OF assms(1)] room_ok_new [OF assms(2)]
  by (simp add: lr_ok_def new_runtime_def books_def)

definition demo_config :: live_config where
  "demo_config = \<lparr>lc_control_idle_timeout = VInt 30, lc_session_timeout = Some 600, lc_controller_timeout = 15, lc_room_empty_timeout = 60\<rparr>"

definition demo_request :: session_request where
  "demo_request = \<lparr>sq_identity = ''ann'', sq_prompt = None, sq_image_path = None, sq_config = []\<rparr>"

text \<open>One worker for one session and a queue for one, and the pool of the worker.\<close>

definition demo_sched :: live_scheduler where
  "demo_sched = (case new_scheduler 0 1 None 1 1 of Inr s \<Rightarrow> s)"

definition demo_pool :: room_pool where
  "demo_pool = (case new_room_pool (Some 1) [''worker-0''] None of Inr p \<Rightarrow> p)"

lemma demo_live_new: "new_scheduler 0 1 None 1 1 = Inr demo_sched" "new_room_pool (Some 1) [''worker-0''] None = Inr demo_pool"
  by (simp_all add: demo_sched_def demo_pool_def new_scheduler_def new_room_pool_def Let_def)

lemma lr_ok_reached:
  assumes "new_scheduler now n groups qs ms = Inr sc" and "new_room_pool limit wids initial = Inr p"
  shows "lr_ok (set (losses c (new_runtime sc p) es)) (foldl (live_step c) (new_runtime sc p) es)"
  using lr_ok_run [OF lr_ok_new [OF assms, of "{}"], of c es] by simp

text \<open>C18: The books of the service always balance. Whatever API calls, callbacks, scaling, migrations,
  expirations and failures happen, in any order: no session has two places in the scheduler, no
  worker holds more than its capacity, every live session has a place, and a place belongs to a
  live session, to one whose runner still serves, or to one of the sessions the run has lost, whose
  record was pruned while it had its place or whose runner was cancelled in closing its room after
  it had reported failure. A finished session has no place and no live record.\<close>

theorem live_sessions_accounted:
  assumes "new_scheduler now n groups qs ms = Inr sc" and "new_room_pool limit wids initial = Inr p"
    and "s = foldl (live_step c) (new_runtime sc p) es"
  shows "sched_inv (lr_scheduler s) \<and> distinct (all_sessions (lr_scheduler s)) \<and>
    (\<forall>sid r. od_get (lr_registry s) sid = Some r \<longrightarrow> live r \<longrightarrow> sid \<in> set (all_sessions (lr_scheduler s))) \<and>
    (\<forall>sid \<in> set (all_sessions (lr_scheduler s)).
       sid \<in> set (losses c (new_runtime sc p) es) \<or>
       (\<exists>r. od_get (lr_registry s) sid = Some r \<and> (live r \<or> serving (lr_pool s) sid \<noteq> None))) \<and>
    (\<forall>sid \<in> set (lr_finished s). sid \<notin> set (all_sessions (lr_scheduler s)) \<and>
       (\<forall>r. od_get (lr_registry s) sid = Some r \<longrightarrow> \<not> live r))"
proof -
  have "books_of (set (losses c (new_runtime sc p) es)) s"
    unfolding assms(3) by (rule lr_okD(1) [OF lr_ok_reached [OF assms(1,2)]])
  then show ?thesis unfolding books_def by blast
qed

definition demo_events :: "live_event list" where
  "demo_events = [Add_worker 1 True 1, Create 2 ''a'' demo_request None, Create 3 ''b'' demo_request None,
     Task_starts ''a'', Runner_finishes 4 ''a'' None]"

lemma live_sessions_accounted_witness:
  "let s = foldl (live_step demo_config) (new_runtime demo_sched demo_pool) demo_events in
     distinct (all_sessions (lr_scheduler s)) \<and> ''b'' \<in> set (all_sessions (lr_scheduler s)) \<and> ''a'' \<notin> set (all_sessions (lr_scheduler s))"
proof -
  have f: "''a'' \<in> set (lr_finished (foldl (live_step demo_config) (new_runtime demo_sched demo_pool) demo_events))"
    "map_option live (od_get (lr_registry (foldl (live_step demo_config) (new_runtime demo_sched demo_pool) demo_events)) ''b'') = Some True"
    by code_simp+
  then show ?thesis
    using live_sessions_accounted [OF demo_live_new refl, of demo_config demo_events] unfolding Let_def by blast
qed

text \<open>Ending a session is final. Once a session has been finished, by its runner, a deletion, the
  reaper or the closing of the service, it has no place in the scheduler and no live record, and no
  later sequence of events gives it one back.\<close>

theorem finished_is_final:
  assumes "new_scheduler now n groups qs ms = Inr sc" and "new_room_pool limit wids initial = Inr p"
    and "s = foldl (live_step c) (new_runtime sc p) es"
    and "finish_session t sid err expired s = (Inr rec, s1)"
    and "s2 = foldl (live_step c) s1 es'"
  shows "sid \<in> set (lr_finished s2) \<and> sid \<notin> set (all_sessions (lr_scheduler s2)) \<and>
    (\<forall>r. od_get (lr_registry s2) sid = Some r \<longrightarrow> \<not> live r)"
proof -
  have ok: "lr_ok UNIV s" unfolding assms(3) by (rule live.inv_run [OF lr_ok_new [OF assms(1,2)]])
  have "od_get (lr_registry s) sid \<noteq> None"
  proof
    assume "od_get (lr_registry s) sid = None"
    then have "finish_session t sid err expired s = (Inl (not_found sid), s)"
      by (simp add: finish_session_def settle_def require_def)
    with assms(4) show False by simp
  qed
  from finish_accounted [of sid UNIV s t err expired, OF lr_ok_except [OF ok] lr_okD(2) [OF ok] lr_okD(3) [OF ok] this]
  have s1: "lr_ok UNIV s1" "sid \<in> set (lr_finished s1)" using assms(4) by simp_all
  have "lr_ok UNIV s2" unfolding assms(5) by (rule live.inv_run [OF s1(1)])
  then have b: "books_of UNIV s2" by (rule lr_okD)
  have "sid \<in> set (lr_finished s2)" using live.rank_run [OF s1(1), of c es'] s1(2) unfolding assms(5) by blast
  with b show ?thesis unfolding books_def by blast
qed

definition demo_state :: live_runtime where
  "demo_state = foldl (live_step demo_config) (new_runtime demo_sched demo_pool) (take 4 demo_events)"

lemma finished_is_final_witness:
  "''a'' \<notin> set (all_sessions (lr_scheduler
     (foldl (live_step demo_config) (snd (finish_session 4 ''a'' None False demo_state))
       [Runner_finishes 5 ''a'' (Some ''x''), Create 6 ''a'' demo_request None])))"
proof -
  have f: "is_ok (fst (finish_session 4 ''a'' None False demo_state))" by code_simp
  then obtain rec s1 where s1: "finish_session 4 ''a'' None False demo_state = (Inr rec, s1)"
    by (cases "finish_session 4 ''a'' None False demo_state"; cases "fst (finish_session 4 ''a'' None False demo_state)") auto
  note F = finished_is_final [OF demo_live_new demo_state_def s1 refl]
  show ?thesis unfolding s1 snd_conv using conjunct1 [OF conjunct2 [OF F]] .
qed



section \<open>Handing a place over\<close>

lemma release_hands_over:
  assumes "worker_for_session sid sc = Some w" and "\<not> down w" and "sc_queue sc = (q, room) # rest"
  obtains sc' where "release_session now sid sc = (Some (Assigned (ws_worker_id w) q), sc')" and "sc_queue sc' = rest"
  using assms by (auto simp: release_session_def Let_def)

text \<open>C20: A place that becomes free is used. While the runtime is not closing and its pool is started, let a
  session end whose worker is neither failed nor stopped and active in the pool, let others wait, and let
  both it and the first of those that wait have their record, and the latter no task yet. Then the first
  leaves the queue, its record is assigned to that worker, and the pool has a task for it.\<close>

theorem finish_hands_over:
  assumes "new_scheduler now n groups qs ms = Inr sc" and "new_room_pool limit wids initial = Inr p"
    and "s = foldl (live_step c) (new_runtime sc p) es"
    and w: "worker_for_session sid (lr_scheduler s) = Some w" "\<not> down w"
    and q: "sc_queue (lr_scheduler s) = (q, room) # rest" and "\<not> lr_closing s"
    and known: "od_get (lr_registry s) sid \<noteq> None" "od_get (lr_registry s) q \<noteq> None"
    and pool: "wp_started (lr_pool s)" "ws_worker_id w \<in> set (wp_active (lr_pool s))"
      "od_get (wp_workers (lr_pool s)) (ws_worker_id w) \<noteq> None" "od_get (wp_tasks (lr_pool s)) q = None"
  shows "let s' = snd (finish_session t sid err expired s) in
    sc_queue (lr_scheduler s') = rest \<and>
    map_option (\<lambda>r. (sr_status r, sr_worker_id r)) (od_get (lr_registry s') q) = Some (S_ASSIGNED, Some (ws_worker_id w)) \<and>
    od_get (wp_tasks (lr_pool s')) q = Some (ws_worker_id w, Waiting)"
proof -
  have ok: "lr_ok UNIV s" unfolding assms(3) by (rule live.inv_run [OF lr_ok_new [OF assms(1,2)]])
  note b = lr_okD(1) [OF ok]
  obtain sc' where r: "release_session t sid (lr_scheduler s) = (Some (Assigned (ws_worker_id w) q), sc')" "sc_queue sc' = rest"
    by (rule release_hands_over [OF w q])
  have h: "sid \<in> held s"
    using find_holder_SomeD [of sid "sc_workers (lr_scheduler s)" w] w(1)
    by (auto simp: worker_for_session_def all_sessions_def holdings_def)
  then obtain cur where cur: "od_get (lr_registry s) sid = Some cur" "sid \<notin> set (lr_finished s)" using b known by (auto simp: books_def)
  have qh: "q \<in> held s" using q by (simp add: all_sessions_def)
  have qs: "q \<noteq> sid" using release_admitted [OF _ r(1)] b by (simp add: books_def)
  obtain rq where rq: "od_get (lr_registry s) q = Some rq" "sr_session_id rq = q" using b known by (auto simp: books_def)
  obtain rec reg where f: "finish_status t sid cur err expired s = (Inr rec, reg)" "map_of reg = (map_of (lr_registry s))(sid \<mapsto> rec)"
    using finish_status_result [OF cur(1), of t err expired] by blast
  let ?s1 = "s\<lparr>lr_finished := sid # lr_finished s, lr_registry := reg, lr_scheduler := sc'\<rparr>"
  have se: "settle t sid err expired s = (Inr (rec, Some (Assigned (ws_worker_id w) q)), ?s1)"
    using cur f(1) r(1) by (simp add: settle_def require_def Let_def)
  let ?rq = "rq\<lparr>sr_status := S_ASSIGNED, sr_worker_id := Some (ws_worker_id w), sr_updated_at := t\<rparr>"
  have a: "assign_worker t q (ws_worker_id w) reg = (Inr ?rq, od_put q ?rq reg)"
    using f(2) rq(1) qs by (simp add: assign_worker_def update_record_def Let_def)
  have st: "start_room_session ?rq (lr_pool s) = (Inr (), put_task q (ws_worker_id w) Waiting (lr_pool s))"
    using pool rq(2) by (auto simp: start_room_session_def)
  have "finish_session t sid err expired s =
      (Inr rec, ?s1\<lparr>lr_registry := od_put q ?rq reg, lr_pool := put_task q (ws_worker_id w) Waiting (lr_pool s)\<rparr>)"
    using se assms(7) a st by (simp add: finish_session_def start_assigned_def)
  then show ?thesis using r(2) by simp
qed

lemma finish_hands_over_witness:
  "od_get (wp_tasks (lr_pool (snd (finish_session 4 ''a'' None False demo_state)))) ''b'' = Some (''worker-0'', Waiting)"
proof -
  obtain w where w: "worker_for_session ''a'' (lr_scheduler demo_state) = Some w"
    by (cases "worker_for_session ''a'' (lr_scheduler demo_state)") (simp_all add: demo_state_def, code_simp)
  have "map_option (\<lambda>w. (ws_worker_id w, down w)) (worker_for_session ''a'' (lr_scheduler demo_state)) = Some (''worker-0'', False)"
    by code_simp
  then have d: "ws_worker_id w = ''worker-0''" "\<not> down w" using w by simp_all
  have q: "sc_queue (lr_scheduler demo_state) = [(''b'', ''tf-world-b'')]" by code_simp
  have c: "\<not> lr_closing demo_state" "wp_started (lr_pool demo_state)" "''worker-0'' \<in> set (wp_active (lr_pool demo_state))"
    "map_option mw_started (od_get (wp_workers (lr_pool demo_state)) ''worker-0'') = Some True"
    "od_get (wp_tasks (lr_pool demo_state)) ''b'' = None"
    "od_get (lr_registry demo_state) ''a'' \<noteq> None" "od_get (lr_registry demo_state) ''b'' \<noteq> None"
    by code_simp+
  have "od_get (wp_workers (lr_pool demo_state)) (ws_worker_id w) \<noteq> None" using c(4) d(1) by auto
  from finish_hands_over [OF demo_live_new demo_state_def w d(2) q c(1,6,7,2) _ this c(5), of 4 None False] c(3) d(1)
  show ?thesis by (simp add: Let_def)
qed

section \<open>Sessions that wait for ever\<close>

lemma find_holder_new:
  "sid \<notin> set (concat (map ws_session_ids (od_vals d))) \<Longrightarrow> sid \<in> set (ws_session_ids w) \<Longrightarrow>
     find_holder sid (od_put k w d) = Some w"
  by (induction d) auto

text \<open>
  When a session that got a place cannot be created, because no token can be made for it, its place
  goes to the first waiting session; but the admission that says so is dropped. That session has
  left the queue and holds the place, without a task and with the record it had.
\<close>

lemma failed_create_strands_waiting:
  assumes ok: "lr_ok X s" and fresh: "fresh_id sid s"
    and l: "least_loaded_worker (lr_scheduler s) = Some w" and q: "sc_queue (lr_scheduler s) = (q, room) # rest"
  shows "let s' = snd (create_session c now sid rq (Some e) s) in
    sc_queue (lr_scheduler s') = rest \<and> q \<in> set (holdings (lr_scheduler s')) \<and>
    od_get (lr_registry s') q = od_get (lr_registry s) q \<and> lr_pool s' = lr_pool s"
proof -
  let ?room = "''tf-world-'' @ sid"
  let ?sc = "lr_scheduler s"
  let ?w = "w\<lparr>ws_error := None\<rparr>"
  let ?sc1 = "admit_session now sid ?room ?w ?sc"
  have i: "sched_inv ?sc" using ok by (rule lr_ok_sched)
  have n: "od_get (lr_registry s) sid = None" using fresh by (simp add: fresh_id_def map_of_eq_None_iff)
  have a: "assign now sid ?room ?sc = (Assigned (ws_worker_id w) sid, ?sc1)" by (simp add: assign_def l)
  have "sid \<notin> set (holdings ?sc)" using fresh by (simp add: fresh_id_def all_sessions_def)
  then have h: "worker_for_session sid ?sc1 = Some (seat now sid ?room ?w)"
    unfolding worker_for_session_def holdings_def by (simp add: find_holder_new)
  have d: "\<not> down (seat now sid ?room ?w)" by (simp add: down_def seat_def)
  have q1: "sc_queue ?sc1 = (q, room) # rest" using q by simp
  obtain sc2 where r: "release_session now sid ?sc1 = (Some (Assigned (ws_worker_id w) q), sc2)" "sc_queue sc2 = rest"
    using release_hands_over [OF h d q1, of now] by auto
  have i1: "sched_inv ?sc1" using sched_inv_assign [OF i, of now sid ?room] a by simp
  have m1: "mset (all_sessions ?sc1) = add_mset sid (mset (all_sessions ?sc))" using assign_mset [OF i, of now sid ?room] a by simp
  have ds: "distinct (all_sessions ?sc)" "sid \<notin> held s" using lr_okD(1) [OF ok] fresh by (simp_all add: books_def fresh_id_def)
  have d1: "distinct (all_sessions ?sc1)"
    using mset_eq_imp_distinct_iff [of "sid # all_sessions ?sc" "all_sessions ?sc1"] m1 ds by simp
  have "q \<in> held s" "q \<notin> fst ` set rest" "q \<noteq> sid" using ds q by (auto simp: all_sessions_def)
  moreover have "set (all_sessions ?sc1) = insert sid (held s)" using mset_eq_setD [of "sid # all_sessions ?sc" "all_sessions ?sc1"] m1 by simp
  ultimately have "q \<in> set (all_sessions sc2)" using release_books [OF i1 d1, of now sid] r(1) by auto
  then have "q \<in> set (holdings sc2)" using r(2) \<open>q \<notin> fst ` set rest\<close> by (auto simp: all_sessions_def)
  moreover have "\<exists>reg. snd (create_session c now sid rq (Some e) s) = s\<lparr>lr_scheduler := sc2, lr_registry := od_del sid reg\<rparr> \<and>
      od_get reg q = od_get (lr_registry s) q"
    using a r n \<open>q \<noteq> sid\<close>
    by (auto simp: create_session_def create_record_def Let_def assign_worker_def update_record_def delete_record_def)
  ultimately show ?thesis using r(2) \<open>q \<noteq> sid\<close> by (auto simp: Let_def)
qed

text \<open>
  A worker that is being retired has stopped, but until its adapter has closed it is active and
  the scheduler still counts it as idle. A session that is given to it then is lost: its task
  fails without a callback, and its record stays live, with a place and without a runner.
\<close>

lemma retiring_worker_loses_session:
  assumes "od_get (wp_tasks (lr_pool s)) sid = Some (wid, Waiting)" and "od_get (wp_workers (lr_pool s)) wid = Some w"
    and "\<not> mw_started w"
  shows "let s' = live_step c (live_step c s (Task_starts sid)) (Task_done sid) in
    od_get (wp_tasks (lr_pool s')) sid = None \<and> lr_registry s' = lr_registry s \<and> lr_scheduler s' = lr_scheduler s"
  using assms by (simp add: Let_def task_starts_def fail_deletion_def task_begin_def take_in_def task_done_def task_over_def)

lemma lost_session_reachable:
  "let s = foldl (live_step demo_config)
       (new_runtime (demo_scheduler 2 1 1) (case new_room_pool (Some 1) [''worker-0'', ''worker-1''] None of Inr p \<Rightarrow> p))
       [Add_worker 1 True 1, Add_worker 2 True 1, Retire_worker (\<lambda>w. 0), Create 3 ''a'' demo_request None,
        Create 4 ''b'' demo_request None, Task_starts ''b'', Task_done ''b'', Worker_retired 5 ''worker-1''] in
   map_option sr_status (od_get (lr_registry s) ''b'') = Some S_ASSIGNED \<and> ''b'' \<in> set (holdings (lr_scheduler s)) \<and>
   od_get (wp_tasks (lr_pool s)) ''b'' = None \<and> wp_active (lr_pool s) = [''worker-0'']"
  by code_simp

section \<open>Lost sessions\<close>

text \<open>
  The two ways to lose a session happen. In both runs the session has reported failure; then its
  record is pruned before its runner ends, or its runner is cancelled in closing the room. In the
  end it has its place, no runner and no live record, deleting it changes nothing, and closing the
  service does not free the place.
\<close>

definition lost_run :: "live_event list \<Rightarrow> live_runtime" where
  "lost_run es = foldl (live_step demo_config) (new_runtime demo_sched demo_pool)
     (take 2 demo_events @ [Task_starts ''a'', Runner_reports 3 ''a'' S_FAILED (Some ''x'')] @ es)"

lemma pruned_session_keeps_place:
  "let s = lost_run [Prune 4000, Runner_finishes 4001 ''a'' (Some ''x''), Task_done ''a'', Delete 4002 ''a'', Close_begin, Close_end 4003] in
   all_sessions (lr_scheduler s) = [''a''] \<and> serving (lr_pool s) ''a'' = None \<and> wp_tasks (lr_pool s) = [] \<and> lr_registry s = []"
  by code_simp

lemma cut_session_keeps_place:
  "let s = lost_run [Runner_cut 4 ''a'', Task_done ''a'', Delete 5 ''a'', Close_begin, Close_end 6] in
   all_sessions (lr_scheduler s) = [''a''] \<and> serving (lr_pool s) ''a'' = None \<and> wp_tasks (lr_pool s) = [] \<and>
   map_option sr_status (od_get (lr_registry s) ''a'') = Some S_FAILED"
  by code_simp

end
