(* ===== verification/VLA_Messages.thy ===== *)
theory VLA_Messages
  imports Pipeline_Contract Replica_Link
begin

text \<open>
  The messages of the VLA WebSocket service (\<open>telefuser/service/vla_session.py\<close>): the error codes of
  the protocol and the classification of exceptions into them, and the readers of the fields of
  a message. A message is an object of JSON values.
\<close>

section \<open>Errors of the protocol\<close>

datatype error_code =
    INVALID_MESSAGE | UNSUPPORTED_VERSION | SESSION_EXISTS | UNKNOWN_SESSION | UNKNOWN_COMPONENT
  | ACTION_SPACE_MISMATCH | OBSERVATION_SPACE_MISMATCH | OUT_OF_ORDER | SUPERSEDED | EXPIRED
  | TIMEOUT | REPLICA_UNAVAILABLE | SESSION_UNAVAILABLE | INTERNAL_ERROR

text \<open>An exception that reaches the session: one of the protocol, or one of a call of the backend
  (a dead replica, an error that a replica reports, any other).\<close>

datatype vla_error = Protocol error_code string | Call call_error

fun vla_error_text :: "vla_error \<Rightarrow> string" where
  "vla_error_text (Protocol c m) = m"
| "vla_error_text (Call (ReplicaDead m)) = m"
| "vla_error_text (Call (ReplicaVLA t m)) = m"
| "vla_error_text (Call (Plain e)) = error_text e"

text \<open>\<open>needle in haystack\<close> for strings.\<close>

fun contains :: "string \<Rightarrow> string \<Rightarrow> bool" where
  "contains [] needle = (needle = [])"
| "contains (c # cs) needle = (take (length needle) (c # cs) = needle \<or> contains cs needle)"

definition value_error_code :: "string \<Rightarrow> error_code" where
  "value_error_code message =
     (let normalized = py_lower message in
      if contains normalized ''observation space'' \<or> contains normalized ''observation-space'' then
        OBSERVATION_SPACE_MISMATCH
      else if contains normalized ''action space'' \<or> contains normalized ''action-space'' then
        ACTION_SPACE_MISMATCH
      else if contains normalized ''sequence_id'' \<or> contains normalized ''must increase'' then OUT_OF_ORDER
      else if contains normalized ''stale'' \<or> contains normalized ''expired'' then EXPIRED
      else if contains normalized ''already open'' then SESSION_EXISTS
      else INVALID_MESSAGE)"

fun error_code_of :: "vla_error \<Rightarrow> error_code" where
  "error_code_of (Protocol c m) = c"
| "error_code_of (Call (ReplicaDead m)) = REPLICA_UNAVAILABLE"
| "error_code_of (Call (ReplicaVLA t m)) =
     (if t = ''KeyError'' then
        (if contains (py_lower m) ''model_id'' \<or> contains (py_lower m) ''embodiment_id''
         then UNKNOWN_COMPONENT else UNKNOWN_SESSION)
      else if t = ''ValueError'' \<or> t = ''TypeError'' then value_error_code m
      else INTERNAL_ERROR)"
| "error_code_of (Call (Plain (KeyError m))) = UNKNOWN_SESSION"
| "error_code_of (Call (Plain (ValueError m))) = value_error_code m"
| "error_code_of (Call (Plain (RuntimeError m))) =
     (if contains (py_lower m) ''replica'' then REPLICA_UNAVAILABLE else INTERNAL_ERROR)"
| "error_code_of (Call (Plain _)) = INTERNAL_ERROR"

fun code_value :: "error_code \<Rightarrow> string" where
  "code_value INVALID_MESSAGE = ''invalid_message''"
| "code_value UNSUPPORTED_VERSION = ''unsupported_version''"
| "code_value SESSION_EXISTS = ''session_exists''"
| "code_value UNKNOWN_SESSION = ''unknown_session''"
| "code_value UNKNOWN_COMPONENT = ''unknown_component''"
| "code_value ACTION_SPACE_MISMATCH = ''action_space_mismatch''"
| "code_value OBSERVATION_SPACE_MISMATCH = ''observation_space_mismatch''"
| "code_value OUT_OF_ORDER = ''out_of_order''"
| "code_value SUPERSEDED = ''superseded''"
| "code_value EXPIRED = ''expired''"
| "code_value TIMEOUT = ''timeout''"
| "code_value REPLICA_UNAVAILABLE = ''replica_unavailable''"
| "code_value SESSION_UNAVAILABLE = ''session_unavailable''"
| "code_value INTERNAL_ERROR = ''internal_error''"

section \<open>Reading a message\<close>

type_synonym msg = "(string \<times> pyval) list"

definition VLA_SESSION_PROTOCOL_VERSION :: string where
  "VLA_SESSION_PROTOCOL_VERSION = ''1.0''"

definition invalid_message :: "string \<Rightarrow> vla_error" where
  "invalid_message m = Protocol INVALID_MESSAGE m"

definition required_string :: "msg \<Rightarrow> string \<Rightarrow> vla_error + string" where
  "required_string m f =
     (case dget m f of
        VStr s \<Rightarrow> if s = [] then Inl (invalid_message (f @ '' must be a non-empty string'')) else Inr s
      | _ \<Rightarrow> Inl (invalid_message (f @ '' must be a non-empty string'')))"

definition optional_string :: "msg \<Rightarrow> string \<Rightarrow> vla_error + string option" where
  "optional_string m f =
     (case dget m f of
        VNone \<Rightarrow> Inr None
      | VStr s \<Rightarrow> if s = [] then Inl (invalid_message (f @ '' must be a non-empty string'')) else Inr (Some s)
      | _ \<Rightarrow> Inl (invalid_message (f @ '' must be a non-empty string'')))"

definition optional_nonneg :: "msg \<Rightarrow> string \<Rightarrow> vla_error + int option" where
  "optional_nonneg m f =
     (case dget m f of
        VNone \<Rightarrow> Inr None
      | VInt i \<Rightarrow> if i < 0 then Inl (invalid_message (f @ '' must be a non-negative integer'')) else Inr (Some i)
      | _ \<Rightarrow> Inl (invalid_message (f @ '' must be a non-negative integer'')))"

definition required_nonneg :: "msg \<Rightarrow> string \<Rightarrow> vla_error + int" where
  "required_nonneg m f =
     (case optional_nonneg m f of
        Inl e \<Rightarrow> Inl e
      | Inr None \<Rightarrow> Inl (invalid_message (f @ '' is required''))
      | Inr (Some i) \<Rightarrow> Inr i)"

definition optional_positive :: "msg \<Rightarrow> string \<Rightarrow> vla_error + int option" where
  "optional_positive m f =
     (case optional_nonneg m f of
        Inl e \<Rightarrow> Inl e
      | Inr None \<Rightarrow> Inr None
      | Inr (Some i) \<Rightarrow> if i < 1 then Inl (invalid_message (f @ '' must be a positive integer'')) else Inr (Some i))"

text \<open>In seconds. A number of a message is finite.\<close>

definition bad_ttl :: vla_error where
  "bad_ttl = invalid_message ''request_ttl_ms must be a positive finite number''"

definition optional_timeout_s :: "msg \<Rightarrow> vla_error + rat option" where
  "optional_timeout_s m =
     (case dget m ''request_ttl_ms'' of
        VNone \<Rightarrow> Inr None
      | VInt i \<Rightarrow> if i \<le> 0 then Inl bad_ttl else Inr (Some (of_int i / 1000))
      | VFloat r s \<Rightarrow> if r \<le> 0 then Inl bad_ttl else Inr (Some (r / 1000))
      | _ \<Rightarrow> Inl bad_ttl)"

text \<open>What \<open>submit\<close> reads of a PREDICT message, in its order.\<close>

record request =
  rq_timestamp :: int
  rq_timeout_s :: "rat option"
  rq_sequence_id :: int
  rq_clock :: "int option"

definition read_request :: "msg \<Rightarrow> vla_error + request" where
  "read_request m =
     (case required_nonneg m ''observation_timestamp_ns'' of Inl e \<Rightarrow> Inl e | Inr ts \<Rightarrow>
      case optional_timeout_s m of Inl e \<Rightarrow> Inl e | Inr ttl \<Rightarrow>
      case required_nonneg m ''sequence_id'' of Inl e \<Rightarrow> Inl e | Inr seq \<Rightarrow>
      case optional_nonneg m ''observation_clock_now_ns'' of Inl e \<Rightarrow> Inl e | Inr clock \<Rightarrow>
      Inr \<lparr>rq_timestamp = ts, rq_timeout_s = ttl, rq_sequence_id = seq, rq_clock = clock\<rparr>)"

end
