(* ===== verification/VLA_Session.thy ===== *)
theory VLA_Session
  imports VLA_Messages Chunk_State
begin

text \<open>
  The session of the VLA WebSocket service, \<open>_SessionRuntime\<close> of
  \<open>telefuser/service/vla_session.py\<close>, which keeps one prediction at the backend and one waiting
  request in front of the chunk state machine of \<open>Chunk_State\<close>, and the invariant that every
  event keeps. The coroutines are split at their awaits; a suspended runner is a phase of the
  state, a suspended RESET or CLOSE a control. The answers of the backend and the clock are
  arguments of the events. What the runtime asks of the backend and what becomes of it is kept
  in a log. The conversion of a chunk to the wire is taken to succeed.
\<close>

section \<open>State of a session runtime\<close>

definition chunk_status_of :: "ticket \<Rightarrow> 'a chunk_machine \<Rightarrow> chunk_status res" where
  "chunk_status_of t s = (case find_record t s of None \<Rightarrow> Inl (unknown_ticket t) | Some r \<Rightarrow> Inr (cr_status r))"

definition chunk_reason_of :: "ticket \<Rightarrow> 'a chunk_machine \<Rightarrow> string option res" where
  "chunk_reason_of t s = (case find_record t s of None \<Rightarrow> Inl (unknown_ticket t) | Some r \<Rightarrow> Inr (cr_reason r))"

text \<open>\<open>reason or message\<close>.\<close>

definition reason_or :: "string option \<Rightarrow> string \<Rightarrow> string" where
  "reason_or why dflt = (case why of None \<Rightarrow> dflt | Some w \<Rightarrow> if w = [] then dflt else w)"

text \<open>A request that was admitted: what was read of its message, its ticket, and its future, named
  by the number of the request.\<close>

record job =
  jb_request :: request
  jb_ticket :: ticket
  jb_id :: nat

datatype 'a outcome = Answered "'a action_chunk" | Failed vla_error

text \<open>The task that runs \<open>_run\<close>: created and not yet begun; waiting for a prediction; waiting for one
  whose time is over; waiting for the reset of the backend after that; waiting for the reset after a
  discarded result.\<close>

datatype phase = Created | Predicting job | Overdue job | Recovering job | Rewinding job

text \<open>A suspended \<open>reset\<close> or \<open>close\<close>: it waits for the runner, or for the backend.\<close>

datatype control =
    Reset_waits "string option"
  | Reset_backend "string option"
  | Close_waits bool
  | Close_backend bool

datatype session_note =
    Predict_call nat
  | Discarded nat
  | Reset_call "string option"
  | Reset_done
  | Close_call

record 'a session_runtime =
  vs_state :: "'a chunk_machine"
  vs_stateful :: bool
  vs_waiting :: "job option"
  vs_runner :: "phase option"
  vs_accepting :: bool
  vs_recovering :: bool
  vs_barrier :: bool
  vs_control :: "control option"
  vs_requests :: nat
  vs_answers :: "(nat \<times> 'a outcome) list"
  vs_crashed :: "nat list"
  vs_log :: "session_note list"

definition new_session_runtime :: "'a chunk_machine \<Rightarrow> bool \<Rightarrow> 'a session_runtime" where
  "new_session_runtime st stateful =
     \<lparr>vs_state = st, vs_stateful = stateful, vs_waiting = None, vs_runner = None, vs_accepting = True,
      vs_recovering = False, vs_barrier = False, vs_control = None, vs_requests = 0, vs_answers = [],
      vs_crashed = [], vs_log = []\<rparr>"

text \<open>\<open>_fail\<close> and \<open>_succeed\<close>: the first outcome of a future stays.\<close>

definition answered :: "nat \<Rightarrow> 'a session_runtime \<Rightarrow> bool" where
  "answered i s \<longleftrightarrow> i \<in> set (map fst (vs_answers s))"

definition settle_job :: "nat \<Rightarrow> 'a outcome \<Rightarrow> 'a session_runtime \<Rightarrow> 'a session_runtime" where
  "settle_job i v s = (if answered i s then s else s\<lparr>vs_answers := vs_answers s @ [(i, v)]\<rparr>)"

definition fail_job :: "job \<Rightarrow> vla_error \<Rightarrow> 'a session_runtime \<Rightarrow> 'a session_runtime" where
  "fail_job j e s = settle_job (jb_id j) (Failed e) s"

definition fail_waiting :: "vla_error \<Rightarrow> 'a session_runtime \<Rightarrow> 'a session_runtime" where
  "fail_waiting e s = (case vs_waiting s of None \<Rightarrow> s | Some w \<Rightarrow> (fail_job w e s)\<lparr>vs_waiting := None\<rparr>)"

definition note_that :: "session_note \<Rightarrow> 'a session_runtime \<Rightarrow> 'a session_runtime" where
  "note_that n s = s\<lparr>vs_log := vs_log s @ [n]\<rparr>"

section \<open>Admission\<close>

text \<open>A future that is created already settled.\<close>

definition reply_at_once :: "error_code \<Rightarrow> string \<Rightarrow> 'a session_runtime \<Rightarrow> (vla_error + nat) \<times> 'a session_runtime" where
  "reply_at_once c m s =
     (Inr (vs_requests s), settle_job (vs_requests s) (Failed (Protocol c m)) (s\<lparr>vs_requests := vs_requests s + 1\<rparr>))"

definition wait_in_line :: "job \<Rightarrow> 'a session_runtime \<Rightarrow> 'a session_runtime" where
  "wait_in_line j s =
     (let s1 = fail_waiting (Protocol SUPERSEDED ''a newer observation superseded the waiting request'') s
      in s1\<lparr>vs_waiting := Some j,
            vs_runner := (case vs_runner s1 of None \<Rightarrow> Some Created | Some p \<Rightarrow> Some p)\<rparr>)"

definition submit_request :: "rat \<Rightarrow> msg \<Rightarrow> 'a session_runtime \<Rightarrow> (vla_error + nat) \<times> 'a session_runtime" where
  "submit_request now m s =
     (if \<not> vs_accepting s \<or> vs_recovering s then
        reply_at_once SESSION_UNAVAILABLE ''session is not accepting predictions'' s
      else case read_request m of Inl e \<Rightarrow> (Inl e, s)
      | Inr r \<Rightarrow>
        (case submit now (rq_sequence_id r) (rq_timestamp r) (map_option (\<lambda>t. t * 1000) (rq_timeout_s r))
                (rq_clock r) (vs_state s) of
           (Inl e, st) \<Rightarrow> (Inl (Call (Plain e)), s\<lparr>vs_state := st\<rparr>)
         | (Inr t, st) \<Rightarrow>
             let s1 = s\<lparr>vs_state := st\<rparr> in
             (case find_record t st of None \<Rightarrow> (Inl (Call (Plain (unknown_ticket t))), s1)
              | Some rec \<Rightarrow>
                  if cr_status rec = C_REJECTED then
                    reply_at_once OUT_OF_ORDER (reason_or (cr_reason rec) ''action chunk was rejected'') s1
                  else if cr_status rec = C_EXPIRED then
                    reply_at_once EXPIRED (reason_or (cr_reason rec) ''observation expired'') s1
                  else
                    (Inr (vs_requests s),
                     wait_in_line \<lparr>jb_request = r, jb_ticket = t, jb_id = vs_requests s\<rparr>
                       (s1\<lparr>vs_requests := vs_requests s + 1\<rparr>)))))"

section \<open>The runner\<close>

text \<open>An exception leaves the loop of \<open>_run\<close>; a job that was being handled and has no answer yet is
  recorded as lost.\<close>

definition crash :: "job \<Rightarrow> vla_error \<Rightarrow> 'a session_runtime \<Rightarrow> 'a session_runtime" where
  "crash j e s =
     (let s1 = (if answered (jb_id j) s then s else s\<lparr>vs_crashed := vs_crashed s @ [jb_id j]\<rparr>)
      in (fail_waiting e (s1\<lparr>vs_accepting := False\<rparr>))\<lparr>vs_runner := None\<rparr>)"

text \<open>The head of the loop, up to the await of the next prediction.\<close>

definition next_job :: "'a session_runtime \<Rightarrow> 'a session_runtime" where
  "next_job s =
     (case vs_waiting s of None \<Rightarrow> s\<lparr>vs_runner := None\<rparr>
      | Some j \<Rightarrow>
        let s1 = s\<lparr>vs_waiting := None\<rparr>; t = jb_ticket j in
        (case find_record t (vs_state s1) of None \<Rightarrow> crash j (Call (Plain (unknown_ticket t))) s1
         | Some rec \<Rightarrow>
             if cr_status rec \<noteq> C_PENDING then
               (fail_job j (Protocol SUPERSEDED (reason_or (cr_reason rec) ''action chunk was superseded'')) s1)
                 \<lparr>vs_runner := None\<rparr>
             else
               note_that (Predict_call (jb_id j))
                 (s1\<lparr>vs_state := snd (mark_inference_started t (vs_state s1)),
                     vs_runner := Some (Predicting j)\<rparr>)))"

text \<open>The wait for a prediction ends with a result, with an exception, or because the time is over.\<close>

definition discard_result :: "job \<Rightarrow> chunk_status \<Rightarrow> 'a session_runtime \<Rightarrow> 'a session_runtime" where
  "discard_result j completion s =
     (case chunk_reason_of (jb_ticket j) (vs_state s) of
        Inl e \<Rightarrow> crash j (Call (Plain e)) s
      | Inr why \<Rightarrow>
          let s1 = fail_job j (Protocol (if completion = C_EXPIRED then EXPIRED else SUPERSEDED)
                     (reason_or why ''action chunk was discarded'')) s
          in if vs_stateful s1 \<and> \<not> vs_barrier s1
             then note_that (Reset_call None) (s1\<lparr>vs_runner := Some (Rewinding j)\<rparr>)
             else next_job s1)"

definition predicted :: "rat \<Rightarrow> job \<Rightarrow> 'a action_chunk \<Rightarrow> 'a session_runtime \<Rightarrow> 'a session_runtime" where
  "predicted now j c s =
     (case complete now (jb_ticket j) c (rq_clock (jb_request j)) (vs_state s) of
        (Inl e, st) \<Rightarrow> crash j (Call (Plain e)) (note_that (Discarded (jb_id j)) (s\<lparr>vs_state := st\<rparr>))
      | (Inr completion, st) \<Rightarrow>
          if completion = C_READY then next_job (settle_job (jb_id j) (Answered c) (s\<lparr>vs_state := st\<rparr>))
          else discard_result j completion (note_that (Discarded (jb_id j)) (s\<lparr>vs_state := st\<rparr>)))"

definition prediction_failed :: "job \<Rightarrow> vla_error \<Rightarrow> 'a session_runtime \<Rightarrow> 'a session_runtime" where
  "prediction_failed j e s =
     (case reject (jb_ticket j) (reason_or (Some (vla_error_text e)) ''VLA inference failed'') (vs_state s) of
        (Inl x, st) \<Rightarrow> crash j (Call (Plain x)) (s\<lparr>vs_state := st\<rparr>)
      | (Inr _, st) \<Rightarrow> next_job (fail_job j e (s\<lparr>vs_state := st\<rparr>)))"

definition timed_out :: "job \<Rightarrow> 'a session_runtime \<Rightarrow> 'a session_runtime" where
  "timed_out j s =
     (fail_job j (Protocol TIMEOUT ''PREDICT exceeded request_ttl_ms'') (s\<lparr>vs_recovering := True\<rparr>))
       \<lparr>vs_runner := Some (Overdue j)\<rparr>"

text \<open>The late result of a prediction whose time is over, and the end of the recovery. The flag
  \<open>_recovering\<close> is cleared on every way out.\<close>

definition settle_overdue ::
    "rat \<Rightarrow> job \<Rightarrow> vla_error + 'a action_chunk \<Rightarrow> 'a session_runtime \<Rightarrow> py_error option \<times> 'a session_runtime" where
  "settle_overdue now j r s =
     (case r of
        Inl e \<Rightarrow>
          (case reject (jb_ticket j) (reason_or (Some (vla_error_text e)) ''timed-out VLA inference failed'') (vs_state s) of
             (Inl x, st) \<Rightarrow> (Some x, s\<lparr>vs_state := st\<rparr>)
           | (Inr _, st) \<Rightarrow> (None, s\<lparr>vs_state := st\<rparr>))
      | Inr c \<Rightarrow>
          (case complete now (jb_ticket j) c (rq_clock (jb_request j)) (vs_state s) of
             (Inl x, st) \<Rightarrow> (Some x, note_that (Discarded (jb_id j)) (s\<lparr>vs_state := st\<rparr>))
           | (Inr _, st) \<Rightarrow> (None, note_that (Discarded (jb_id j)) (s\<lparr>vs_state := st\<rparr>))))"

definition overdue_result :: "rat \<Rightarrow> job \<Rightarrow> vla_error + 'a action_chunk \<Rightarrow> 'a session_runtime \<Rightarrow> 'a session_runtime" where
  "overdue_result now j r s =
     (case settle_overdue now j r s of
        (Some x, s1) \<Rightarrow> crash j (Call (Plain x)) (s1\<lparr>vs_recovering := False\<rparr>)
      | (None, s1) \<Rightarrow>
          if vs_barrier s1 then next_job (s1\<lparr>vs_recovering := False\<rparr>)
          else note_that (Reset_call None) (s1\<lparr>vs_runner := Some (Recovering j)\<rparr>))"

text \<open>A time-out that the backend itself raises is taken for the one of the wait.\<close>

definition prediction_result :: "rat \<Rightarrow> job \<Rightarrow> vla_error + 'a action_chunk \<Rightarrow> 'a session_runtime \<Rightarrow> 'a session_runtime" where
  "prediction_result now j r s =
     (case r of
        Inr c \<Rightarrow> predicted now j c s
      | Inl (Call (Plain (TimeoutError m))) \<Rightarrow> overdue_result now j r (timed_out j s)
      | Inl e \<Rightarrow> prediction_failed j e s)"

definition backend_was_reset :: "vla_error option \<Rightarrow> 'a session_runtime \<Rightarrow> 'a session_runtime" where
  "backend_was_reset r s =
     (case vs_runner s of
        Some (Recovering j) \<Rightarrow>
          (case r of
             Some e \<Rightarrow> crash j e (s\<lparr>vs_recovering := False\<rparr>)
           | None \<Rightarrow>
               let s1 = note_that Reset_done s in
               (case reset None (vs_state s1) of
                  (Inl x, st) \<Rightarrow> crash j (Call (Plain x)) (s1\<lparr>vs_state := st, vs_recovering := False\<rparr>)
                | (Inr _, st) \<Rightarrow> next_job (s1\<lparr>vs_state := st, vs_recovering := False\<rparr>)))
      | Some (Rewinding j) \<Rightarrow>
          (case r of
             Some e \<Rightarrow> crash j e s
           | None \<Rightarrow> next_job (note_that Reset_done s))
      | _ \<Rightarrow> s)"

section \<open>Barriers\<close>

text \<open>The part of \<open>reset\<close> and \<open>close\<close> before the first await; an invalid episode raises at once.\<close>

definition raise_barrier :: "string option \<Rightarrow> string \<Rightarrow> control \<Rightarrow> 'a session_runtime \<Rightarrow> 'a session_runtime" where
  "raise_barrier episode why c s =
     (let s1 = s\<lparr>vs_accepting := False, vs_barrier := True\<rparr> in
      case reset episode (vs_state s1) of
        (Inl e, st) \<Rightarrow> s1\<lparr>vs_state := st\<rparr>
      | (Inr _, st) \<Rightarrow>
          (fail_waiting (Protocol SESSION_UNAVAILABLE why) (s1\<lparr>vs_state := st\<rparr>))\<lparr>vs_control := Some c\<rparr>)"

definition reset_begin :: "string option \<Rightarrow> 'a session_runtime \<Rightarrow> 'a session_runtime" where
  "reset_begin episode s = raise_barrier episode ''request was discarded by RESET'' (Reset_waits episode) s"

definition close_session_begin :: "bool \<Rightarrow> 'a session_runtime \<Rightarrow> 'a session_runtime" where
  "close_session_begin disc s = raise_barrier None ''request was discarded by CLOSE'' (Close_waits disc) s"

text \<open>The runner has ended, and the backend is called.\<close>

definition control_call :: "'a session_runtime \<Rightarrow> 'a session_runtime" where
  "control_call s =
     (case vs_control s of
        Some (Reset_waits ep) \<Rightarrow> note_that (Reset_call ep) (s\<lparr>vs_control := Some (Reset_backend ep)\<rparr>)
      | Some (Close_waits d) \<Rightarrow> note_that Close_call (s\<lparr>vs_control := Some (Close_backend d)\<rparr>)
      | _ \<Rightarrow> s)"

definition control_end :: "vla_error option \<Rightarrow> 'a session_runtime \<Rightarrow> 'a session_runtime" where
  "control_end r s =
     (case vs_control s of
        Some (Reset_backend ep) \<Rightarrow>
          (case r of
             Some e \<Rightarrow> s\<lparr>vs_control := None\<rparr>
           | None \<Rightarrow>
               let s1 = note_that Reset_done (s\<lparr>vs_control := None\<rparr>) in
               (case reset ep (vs_state s1) of
                  (Inl x, st) \<Rightarrow> s1\<lparr>vs_state := st\<rparr>
                | (Inr _, st) \<Rightarrow> s1\<lparr>vs_state := st, vs_barrier := False, vs_accepting := True\<rparr>))
      | Some (Close_backend d) \<Rightarrow>
          (case r of
             Some e \<Rightarrow> s\<lparr>vs_control := None\<rparr>
           | None \<Rightarrow> s\<lparr>vs_state := (if d then snd (disconnect (vs_state s)) else vs_state s), vs_control := None\<rparr>)
      | _ \<Rightarrow> s)"

section \<open>The runtime as a machine\<close>

datatype 'a vla_event =
    Arrives rat msg
  | Runner_begins
  | Time_is_over
  | Backend_predicts rat "vla_error + 'a action_chunk"
  | Backend_resets "vla_error option"
  | Reset_begins msg
  | Close_begins bool
  | Control_calls
  | Control_ends "vla_error option"

text \<open>A coroutine continues only where it is suspended. One control runs at a time: the receiver of
  the connection awaits it.\<close>

fun vla_step :: "'a session_runtime \<Rightarrow> 'a vla_event \<Rightarrow> 'a session_runtime" where
  "vla_step s (Arrives now m) = snd (submit_request now m s)"
| "vla_step s Runner_begins = (if vs_runner s = Some Created then next_job s else s)"
| "vla_step s Time_is_over =
     (case vs_runner s of
        Some (Predicting j) \<Rightarrow> if rq_timeout_s (jb_request j) = None then s else timed_out j s
      | _ \<Rightarrow> s)"
| "vla_step s (Backend_predicts now r) =
     (case vs_runner s of
        Some (Predicting j) \<Rightarrow> prediction_result now j r s
      | Some (Overdue j) \<Rightarrow> overdue_result now j r s
      | _ \<Rightarrow> s)"
| "vla_step s (Backend_resets r) = backend_was_reset r s"
| "vla_step s (Reset_begins m) =
     (case optional_string m ''episode_id'' of
        Inl e \<Rightarrow> s
      | Inr ep \<Rightarrow> if vs_control s = None then reset_begin ep s else s)"
| "vla_step s (Close_begins d) = (if vs_control s = None then close_session_begin d s else s)"
| "vla_step s Control_calls = (if vs_runner s = None then control_call s else s)"
| "vla_step s (Control_ends r) = control_end r s"


section \<open>Accounts of the requests\<close>

text \<open>The requests that wait or are being predicted, and the equation that every state keeps: each
  request that got a future has one answer, was lost in a crash, or is still in hand.\<close>

definition waiting_list :: "'a session_runtime \<Rightarrow> nat list" where
  "waiting_list s = (case vs_waiting s of None \<Rightarrow> [] | Some w \<Rightarrow> [jb_id w])"

definition predicting_list :: "'a session_runtime \<Rightarrow> nat list" where
  "predicting_list s = (case vs_runner s of Some (Predicting j) \<Rightarrow> [jb_id j] | _ \<Rightarrow> [])"

definition accounts :: "nat multiset \<Rightarrow> 'a session_runtime \<Rightarrow> bool" where
  "accounts M s \<longleftrightarrow>
     mset (map fst (vs_answers s)) + mset (vs_crashed s) + M = mset [0..<vs_requests s]"

lemma accounts_fresh:
  assumes "accounts (add_mset i M) s"
  shows "\<not> answered i s"
proof
  assume "answered i s"
  then have "0 < count (mset (map fst (vs_answers s))) i"
    unfolding answered_def by (metis count_greater_zero_iff set_mset_mset)
  moreover have "count (mset [0..<vs_requests s]) i \<le> 1"
    using distinct_count_atmost_1 [of "[0..<vs_requests s]"] by (metis distinct_upt le_refl zero_le_one)
  moreover have "count (mset (map fst (vs_answers s))) i + 1 \<le> count (mset [0..<vs_requests s]) i"
    using arg_cong [where f = "\<lambda>m. count m i", OF assms [unfolded accounts_def]] by (simp del: mset_map mset_upt)
  ultimately show False by linarith
qed

lemma settle_fields [simp]:
  "vs_state (settle_job i v s) = vs_state s" "vs_stateful (settle_job i v s) = vs_stateful s"
  "vs_waiting (settle_job i v s) = vs_waiting s" "vs_runner (settle_job i v s) = vs_runner s"
  "vs_accepting (settle_job i v s) = vs_accepting s" "vs_recovering (settle_job i v s) = vs_recovering s"
  "vs_barrier (settle_job i v s) = vs_barrier s" "vs_control (settle_job i v s) = vs_control s"
  "vs_requests (settle_job i v s) = vs_requests s" "vs_crashed (settle_job i v s) = vs_crashed s"
  "vs_log (settle_job i v s) = vs_log s"
  by (simp_all add: settle_job_def)

lemma fail_waiting_fields [simp]:
  "vs_state (fail_waiting e s) = vs_state s" "vs_stateful (fail_waiting e s) = vs_stateful s"
  "vs_waiting (fail_waiting e s) = None" "vs_runner (fail_waiting e s) = vs_runner s"
  "vs_accepting (fail_waiting e s) = vs_accepting s" "vs_recovering (fail_waiting e s) = vs_recovering s"
  "vs_barrier (fail_waiting e s) = vs_barrier s" "vs_control (fail_waiting e s) = vs_control s"
  "vs_requests (fail_waiting e s) = vs_requests s" "vs_crashed (fail_waiting e s) = vs_crashed s"
  "vs_log (fail_waiting e s) = vs_log s"
  by (simp_all add: fail_waiting_def fail_job_def split: option.splits)

lemma note_fields [simp]:
  "vs_state (note_that n s) = vs_state s" "vs_stateful (note_that n s) = vs_stateful s"
  "vs_waiting (note_that n s) = vs_waiting s" "vs_runner (note_that n s) = vs_runner s"
  "vs_accepting (note_that n s) = vs_accepting s" "vs_recovering (note_that n s) = vs_recovering s"
  "vs_barrier (note_that n s) = vs_barrier s" "vs_control (note_that n s) = vs_control s"
  "vs_requests (note_that n s) = vs_requests s" "vs_crashed (note_that n s) = vs_crashed s"
  "vs_answers (note_that n s) = vs_answers s" "vs_log (note_that n s) = vs_log s @ [n]"
  by (simp_all add: note_that_def)

lemma settle_keeps: "answered i s \<Longrightarrow> answered i (settle_job k v s)"
  by (simp add: settle_job_def answered_def)

lemma settle_answers [simp]: "answered i (settle_job i v s)"
  by (simp add: settle_job_def answered_def)

lemma settle_again: "answered i s \<Longrightarrow> settle_job i v s = s"
  by (simp add: settle_job_def)

lemma accounts_settle: "accounts (add_mset i M) s \<Longrightarrow> accounts M (settle_job i v s)"
  using accounts_fresh [of i M s] by (simp add: settle_job_def accounts_def)

lemma accounts_cong:
  "vs_answers s' = vs_answers s \<Longrightarrow> vs_crashed s' = vs_crashed s \<Longrightarrow> vs_requests s' = vs_requests s \<Longrightarrow>
   accounts M s' = accounts M s"
  by (simp add: accounts_def)

lemma accounts_fail_waiting: "accounts (mset (waiting_list s) + M) s \<Longrightarrow> accounts M (fail_waiting e s)"
proof (cases "vs_waiting s")
  case (Some w)
  assume "accounts (mset (waiting_list s) + M) s"
  with Some have "accounts M (settle_job (jb_id w) (Failed e) s)"
    by (simp add: waiting_list_def accounts_settle)
  with Some show ?thesis by (simp add: fail_waiting_def fail_job_def accounts_def)
qed (simp add: fail_waiting_def waiting_list_def)

lemma accounts_new:
  "accounts M s \<Longrightarrow> accounts (add_mset (vs_requests s) M) (s\<lparr>vs_requests := vs_requests s + 1\<rparr>)"
  by (simp add: accounts_def)


section \<open>The log\<close>

text \<open>Whether a discarded result has left its mark on the backend, and that no prediction starts then.\<close>

definition note_taint :: "bool \<Rightarrow> session_note \<Rightarrow> bool" where
  "note_taint d n = (case n of Discarded i \<Rightarrow> True | Reset_done \<Rightarrow> False | _ \<Rightarrow> d)"

definition tainted :: "session_note list \<Rightarrow> bool" where
  "tainted ns = foldl note_taint False ns"

fun is_predict :: "session_note \<Rightarrow> bool" where
  "is_predict (Predict_call i) = True"
| "is_predict _ = False"

definition rewound :: "session_note list \<Rightarrow> bool" where
  "rewound ns \<longleftrightarrow> (\<forall>k < length ns. is_predict (ns ! k) \<longrightarrow> \<not> tainted (take k ns))"

lemma tainted_snoc [simp]: "tainted (ns @ [n]) = note_taint (tainted ns) n"
  by (simp add: tainted_def)

lemma note_taint_simps [simp]:
  "note_taint d (Predict_call i) = d" "note_taint d (Discarded i) = True" "note_taint d (Reset_call ep) = d"
  "note_taint d Reset_done = False" "note_taint d Close_call = d"
  by (simp_all add: note_taint_def)

lemma rewound_Nil [simp]: "rewound []" "\<not> tainted []"
  by (simp_all add: rewound_def tainted_def)

lemma rewound_snoc [simp]: "rewound (ns @ [n]) \<longleftrightarrow> rewound ns \<and> (is_predict n \<longrightarrow> \<not> tainted ns)"
  by (auto simp: rewound_def nth_append less_Suc_eq)

section \<open>The invariant\<close>

definition chunk_ids :: "'a session_runtime \<Rightarrow> nat list" where
  "chunk_ids s = map fst (filter (\<lambda>a. case snd a of Answered c \<Rightarrow> True | Failed e \<Rightarrow> False) (vs_answers s))"

text \<open>What holds between two awaits of the runner, with the request \<open>L\<close> in its hand.\<close>

definition core :: "nat list \<Rightarrow> 'a session_runtime \<Rightarrow> bool" where
  "core L s \<longleftrightarrow> chunk_inv (vs_state s) \<and> accounts (mset (waiting_list s) + mset L) s \<and>
     sorted_wrt (<) (chunk_ids s @ L @ waiting_list s) \<and>
     (vs_waiting s \<noteq> None \<longrightarrow> vs_accepting s) \<and>
     (vs_accepting s \<longrightarrow> \<not> vs_barrier s \<and> vs_control s = None) \<and>
     (vs_stateful s \<longrightarrow> rewound (vs_log s))"

definition in_recovery :: "phase option \<Rightarrow> bool" where
  "in_recovery p = (case p of Some (Overdue j) \<Rightarrow> True | Some (Recovering j) \<Rightarrow> True | _ \<Rightarrow> False)"

definition resetting :: "phase option \<Rightarrow> bool" where
  "resetting p = (case p of Some (Rewinding j) \<Rightarrow> True | Some (Recovering j) \<Rightarrow> True | _ \<Rightarrow> False)"

definition at_backend :: "control option \<Rightarrow> bool" where
  "at_backend c = (case c of Some (Reset_backend ep) \<Rightarrow> True | Some (Close_backend d) \<Rightarrow> True | _ \<Rightarrow> False)"

definition past_answer :: "phase option \<Rightarrow> nat option" where
  "past_answer p =
     (case p of Some (Overdue j) \<Rightarrow> Some (jb_id j) | Some (Recovering j) \<Rightarrow> Some (jb_id j)
      | Some (Rewinding j) \<Rightarrow> Some (jb_id j) | _ \<Rightarrow> None)"

definition vs_ok :: "'a session_runtime \<Rightarrow> bool" where
  "vs_ok s \<longleftrightarrow> core (predicting_list s) s \<and>
     (vs_waiting s \<noteq> None \<longrightarrow> vs_runner s \<noteq> None) \<and>
     vs_recovering s = in_recovery (vs_runner s) \<and>
     (at_backend (vs_control s) \<longrightarrow> vs_runner s = None) \<and>
     (\<forall>i. past_answer (vs_runner s) = Some i \<longrightarrow> answered i s) \<and>
     (vs_stateful s \<and> tainted (vs_log s) \<and> vs_accepting s \<longrightarrow> resetting (vs_runner s))"

text \<open>The runner has no request in its hand and may go on.\<close>

definition calm :: "'a session_runtime \<Rightarrow> bool" where
  "calm s \<longleftrightarrow> core [] s \<and> \<not> vs_recovering s \<and> \<not> at_backend (vs_control s) \<and>
     \<not> (vs_stateful s \<and> tainted (vs_log s) \<and> vs_accepting s)"

lemma chunk_ids_settle:
  "chunk_ids (settle_job i (Failed e) s) = chunk_ids s"
  "\<not> answered i s \<Longrightarrow> chunk_ids (settle_job i (Answered c) s) = chunk_ids s @ [i]"
  by (simp_all add: settle_job_def chunk_ids_def)

lemma chunk_ids_fields [simp]:
  "chunk_ids (note_that n s) = chunk_ids s"
  "chunk_ids (fail_waiting e s) = chunk_ids s"
  by (simp_all add: chunk_ids_def note_that_def)
    (auto simp: fail_waiting_def fail_job_def settle_job_def split: option.splits)

lemma chunk_ids_upd [simp]:
  "chunk_ids (s\<lparr>vs_control := c\<rparr>) = chunk_ids s" "chunk_ids (s\<lparr>vs_state := st\<rparr>) = chunk_ids s"
  "chunk_ids (s\<lparr>vs_accepting := b\<rparr>) = chunk_ids s" "chunk_ids (s\<lparr>vs_barrier := b\<rparr>) = chunk_ids s"
  by (simp_all add: chunk_ids_def)

lemma phase_simps [simp]:
  "in_recovery None = False" "in_recovery (Some Created) = False" "in_recovery (Some (Predicting j)) = False"
  "in_recovery (Some (Rewinding j)) = False" "in_recovery (Some (Overdue j)) = True"
  "in_recovery (Some (Recovering j)) = True"
  "resetting (Some (Rewinding j)) = True" "resetting (Some (Recovering j)) = True"
  "resetting None = False" "resetting (Some Created) = False" "resetting (Some (Predicting j)) = False"
  "resetting (Some (Overdue j)) = False"
  "past_answer None = None" "past_answer (Some Created) = None" "past_answer (Some (Predicting j)) = None"
  "past_answer (Some (Overdue j)) = Some (jb_id j)" "past_answer (Some (Recovering j)) = Some (jb_id j)"
  "past_answer (Some (Rewinding j)) = Some (jb_id j)"
  "at_backend None = False" "at_backend (Some (Reset_waits ep)) = False" "at_backend (Some (Close_waits d)) = False"
  "at_backend (Some (Reset_backend ep)) = True" "at_backend (Some (Close_backend d)) = True"
  by (simp_all add: in_recovery_def resetting_def past_answer_def at_backend_def)

lemma core_facts:
  assumes "core L s"
  shows "chunk_inv (vs_state s)" and "accounts (mset (waiting_list s) + mset L) s"
    and "sorted_wrt (<) (chunk_ids s @ L @ waiting_list s)"
    and "vs_waiting s \<noteq> None \<Longrightarrow> vs_accepting s" and "vs_accepting s \<Longrightarrow> \<not> vs_barrier s"
    and "vs_accepting s \<Longrightarrow> vs_control s = None" and "vs_stateful s \<Longrightarrow> rewound (vs_log s)"
  using assms by (simp_all add: core_def)

lemma core_cong:
  "core L s \<Longrightarrow> vs_state s' = vs_state s \<Longrightarrow> vs_stateful s' = vs_stateful s \<Longrightarrow> vs_waiting s' = vs_waiting s \<Longrightarrow>
   vs_accepting s' = vs_accepting s \<Longrightarrow> vs_barrier s' = vs_barrier s \<Longrightarrow> vs_control s' = vs_control s \<Longrightarrow>
   vs_requests s' = vs_requests s \<Longrightarrow> vs_crashed s' = vs_crashed s \<Longrightarrow> vs_answers s' = vs_answers s \<Longrightarrow>
   vs_log s' = vs_log s \<Longrightarrow> core L s'"
  by (simp add: core_def accounts_def chunk_ids_def waiting_list_def)

lemma core_state: "core L s \<Longrightarrow> chunk_inv st \<Longrightarrow> core L (s\<lparr>vs_state := st\<rparr>)"
  by (simp add: core_def accounts_def chunk_ids_def waiting_list_def)

lemma core_fields [simp]:
  "core L (s\<lparr>vs_runner := p\<rparr>) = core L s" "core L (s\<lparr>vs_recovering := b\<rparr>) = core L s"
  by (simp_all add: core_def accounts_def chunk_ids_def waiting_list_def)

lemma core_note:
  "core L s \<Longrightarrow> (vs_stateful s \<and> tainted (vs_log s) \<Longrightarrow> \<not> is_predict n) \<Longrightarrow> core L (note_that n s)"
  by (auto simp: core_def accounts_def waiting_list_def)

lemma core_settle:
  assumes "core [i] s"
  shows "core [] (settle_job i v s)"
proof -
  have "\<not> answered i s" using core_facts(2) [OF assms] by (simp add: accounts_fresh)
  with core_facts [OF assms] show ?thesis
    by (cases v) (auto simp: core_def accounts_settle chunk_ids_settle sorted_wrt_append waiting_list_def)
qed

lemma core_fail_again: "core [] s \<Longrightarrow> answered i s \<Longrightarrow> core [] (settle_job i v s)"
  by (simp add: settle_again)


lemma core_fail_waiting: "core L s \<Longrightarrow> core L (fail_waiting e s)"
  using accounts_fail_waiting [of s "mset L" e]
  by (auto simp: core_def sorted_wrt_append waiting_list_def)

lemma core_stop: "core L s \<Longrightarrow> vs_waiting s = None \<Longrightarrow> core L (s\<lparr>vs_accepting := False\<rparr>)"
  by (simp add: core_def accounts_def chunk_ids_def waiting_list_def)

lemma core_lost: "core [i] s \<Longrightarrow> core [] (s\<lparr>vs_crashed := vs_crashed s @ [i]\<rparr>)"
  by (auto simp: core_def accounts_def chunk_ids_def waiting_list_def sorted_wrt_append ac_simps)

lemma core_take: "core [] s \<Longrightarrow> vs_waiting s = Some j \<Longrightarrow> core [jb_id j] (s\<lparr>vs_waiting := None\<rparr>)"
  by (simp add: core_def accounts_def chunk_ids_def waiting_list_def)

lemma fail_waiting_stop:
  "fail_waiting e (s\<lparr>vs_accepting := b\<rparr>) = (fail_waiting e s)\<lparr>vs_accepting := b\<rparr>"
  by (cases "vs_waiting s") (simp_all add: fail_waiting_def fail_job_def settle_job_def answered_def)

text \<open>A job in the runner's hand: it is the one that has no answer, or it has one already.\<close>

definition in_hand :: "job \<Rightarrow> 'a session_runtime \<Rightarrow> bool" where
  "in_hand j s \<longleftrightarrow> core [jb_id j] s \<or> core [] s \<and> answered (jb_id j) s"

lemma in_hand_fail: "in_hand j s \<Longrightarrow> core [] (fail_job j e s)"
  unfolding in_hand_def fail_job_def by (auto intro: core_settle core_fail_again)

lemma crash_ok:
  assumes "in_hand j s" and "\<not> vs_recovering s" and "\<not> at_backend (vs_control s)"
  shows "vs_ok (crash j e s)"
proof -
  let ?s1 = "if answered (jb_id j) s then s else s\<lparr>vs_crashed := vs_crashed s @ [jb_id j]\<rparr>"
  have "core [] ?s1"
  proof (cases "core [jb_id j] s")
    case True
    then have "\<not> answered (jb_id j) s" using core_facts(2) [OF True] by (simp add: accounts_fresh)
    with True show ?thesis by (simp add: core_lost)
  qed (use assms(1) in \<open>auto simp: in_hand_def\<close>)
  then have "core [] ((fail_waiting e ?s1)\<lparr>vs_accepting := False\<rparr>)"
    by (intro core_stop core_fail_waiting) simp_all
  then show ?thesis using assms(2,3)
    by (simp add: vs_ok_def crash_def Let_def fail_waiting_stop predicting_list_def)
qed

lemma next_job_ok:
  assumes "calm s"
  shows "vs_ok (next_job s)"
proof (cases "vs_waiting s")
  case None
  with assms show ?thesis by (simp add: next_job_def calm_def vs_ok_def predicting_list_def)
next
  case (Some j)
  note c = assms [unfolded calm_def]
  let ?s1 = "s\<lparr>vs_waiting := None\<rparr>"
  have t: "core [jb_id j] ?s1" using c Some by (simp add: core_take)
  then have h: "in_hand j ?s1" by (simp add: in_hand_def)
  have a: "vs_accepting s" using c Some by (auto dest: core_facts(4))
  show ?thesis
  proof (cases "find_record (jb_ticket j) (vs_state s)")
    case None
    with Some crash_ok [OF h] c show ?thesis by (simp add: next_job_def)
  next
    case (Some r)
    show ?thesis
    proof (cases "cr_status r = C_PENDING")
      case False
      with Some \<open>vs_waiting s = Some j\<close> c in_hand_fail [OF h] show ?thesis
        by (simp add: next_job_def vs_ok_def predicting_list_def fail_job_def)
    next
      case True
      let ?s2 = "?s1\<lparr>vs_state := snd (mark_inference_started (jb_ticket j) (vs_state s))\<rparr>"
      have "core [jb_id j] ?s2"
        by (rule core_state [OF t chunk_inv_mark]) (use core_facts(1) [OF t] in simp)
      then have "core [jb_id j] (note_that (Predict_call (jb_id j)) (?s2\<lparr>vs_runner := Some (Predicting j)\<rparr>))"
        using c a by (intro core_note) auto
      with True Some \<open>vs_waiting s = Some j\<close> c a show ?thesis
        by (simp add: next_job_def vs_ok_def predicting_list_def)
    qed
  qed
qed


section \<open>Every event keeps the invariant\<close>

lemma vs_okD:
  assumes "vs_ok s"
  shows "core (predicting_list s) s" and "vs_waiting s \<noteq> None \<Longrightarrow> vs_runner s \<noteq> None"
    and "vs_recovering s = in_recovery (vs_runner s)" and "at_backend (vs_control s) \<Longrightarrow> vs_runner s = None"
    and "past_answer (vs_runner s) = Some i \<Longrightarrow> answered i s"
    and "vs_stateful s \<Longrightarrow> tainted (vs_log s) \<Longrightarrow> vs_accepting s \<Longrightarrow> resetting (vs_runner s)"
  using assms by (auto simp: vs_ok_def)

lemma answered_fields [simp]:
  "answered i (s\<lparr>vs_state := st\<rparr>) = answered i s" "answered i (s\<lparr>vs_recovering := b\<rparr>) = answered i s"
  "answered i (s\<lparr>vs_runner := p\<rparr>) = answered i s" "answered i (note_that n s) = answered i s"
  by (simp_all add: answered_def)

lemma predicting_state [simp]: "predicting_list (s\<lparr>vs_state := st\<rparr>) = predicting_list s"
  by (simp add: predicting_list_def)

lemma vs_ok_state: "vs_ok s \<Longrightarrow> chunk_inv st \<Longrightarrow> vs_ok (s\<lparr>vs_state := st\<rparr>)"
  by (simp add: vs_ok_def core_state)

lemma requests_bound: "core L s \<Longrightarrow> i \<in> set (map fst (vs_answers s) @ vs_crashed s @ L @ waiting_list s) \<Longrightarrow> i < vs_requests s"
proof -
  assume c: "core L s" and i: "i \<in> set (map fst (vs_answers s) @ vs_crashed s @ L @ waiting_list s)"
  from arg_cong [where f = set_mset, OF core_facts(2) [OF c, unfolded accounts_def]]
  have "set (map fst (vs_answers s)) \<union> set (vs_crashed s) \<union> (set (waiting_list s) \<union> set L) = {0..<vs_requests s}"
    by simp
  then have "set (map fst (vs_answers s) @ vs_crashed s @ L @ waiting_list s) = {0..<vs_requests s}" by auto
  with i have "i \<in> {0..<vs_requests s}" by (simp only:)
  then show ?thesis by simp
qed

lemma core_reply: "core L s \<Longrightarrow> core L (snd (reply_at_once c m s))"
proof -
  assume c: "core L s"
  let ?s1 = "s\<lparr>vs_requests := vs_requests s + 1\<rparr>"
  have "accounts (add_mset (vs_requests s) (mset (waiting_list s) + mset L)) ?s1"
    by (rule accounts_new) (rule core_facts(2) [OF c])
  then have "accounts (mset (waiting_list s) + mset L) (settle_job (vs_requests s) (Failed (Protocol c' m)) ?s1)" for c'
    by (rule accounts_settle)
  moreover have "chunk_ids ?s1 = chunk_ids s" by (simp add: chunk_ids_def)
  ultimately show ?thesis using core_facts [OF c]
    by (auto simp: reply_at_once_def core_def waiting_list_def chunk_ids_settle)
qed

lemma reply_fields [simp]:
  "vs_stateful (snd (reply_at_once c m s)) = vs_stateful s" "vs_waiting (snd (reply_at_once c m s)) = vs_waiting s"
  "vs_runner (snd (reply_at_once c m s)) = vs_runner s" "vs_accepting (snd (reply_at_once c m s)) = vs_accepting s"
  "vs_recovering (snd (reply_at_once c m s)) = vs_recovering s" "vs_control (snd (reply_at_once c m s)) = vs_control s"
  "vs_log (snd (reply_at_once c m s)) = vs_log s" "vs_state (snd (reply_at_once c m s)) = vs_state s"
  "vs_barrier (snd (reply_at_once c m s)) = vs_barrier s"
  by (simp_all add: reply_at_once_def)

lemma reply_keeps: "answered i s \<Longrightarrow> answered i (snd (reply_at_once c m s))"
  by (simp add: reply_at_once_def settle_job_def answered_def)

lemma vs_ok_reply: "vs_ok s \<Longrightarrow> vs_ok (snd (reply_at_once c m s))"
  by (auto simp: vs_ok_def predicting_list_def core_reply reply_keeps)

lemma fail_waiting_keeps: "answered i s \<Longrightarrow> answered i (fail_waiting e s)"
  by (cases "vs_waiting s") (simp_all add: fail_waiting_def fail_job_def settle_job_def answered_def)

lemma vs_ok_line:
  assumes "vs_ok s" and "vs_accepting s" and "\<not> vs_recovering s" and "jb_id j = vs_requests s"
  shows "vs_ok (wait_in_line j (s\<lparr>vs_requests := vs_requests s + 1\<rparr>))"
proof -
  define e where "e = Protocol SUPERSEDED ''a newer observation superseded the waiting request''"
  let ?L = "predicting_list s" and ?s1 = "fail_waiting e s"
  let ?s2 = "fail_waiting e (s\<lparr>vs_requests := vs_requests s + 1\<rparr>)"
  have c: "core ?L ?s1" using vs_okD(1) [OF assms(1)] by (rule core_fail_waiting)
  have e2: "?s2 = ?s1\<lparr>vs_requests := vs_requests s + 1\<rparr>"
    by (cases "vs_waiting s") (simp_all add: fail_waiting_def fail_job_def settle_job_def answered_def)
  note e2 = e2 [simplified]
  have "accounts (add_mset (vs_requests ?s1) (mset (waiting_list ?s1) + mset ?L)) (?s1\<lparr>vs_requests := vs_requests ?s1 + 1\<rparr>)"
    by (rule accounts_new) (rule core_facts(2) [OF c])
  then have "accounts (add_mset (jb_id j) (mset ?L)) ?s2"
    using assms(4) by (simp add: waiting_list_def e2)
  moreover have "i < jb_id j" if "i \<in> set (chunk_ids ?s1 @ ?L)" for i
  proof -
    have "i \<in> set (map fst (vs_answers ?s1) @ vs_crashed ?s1 @ ?L @ waiting_list ?s1)"
      using that by (auto simp: chunk_ids_def)
    from requests_bound [OF c this] assms(4) show ?thesis by simp
  qed
  moreover have "chunk_ids ?s2 = chunk_ids ?s1" by (simp add: chunk_ids_def e2)
  moreover have "past_answer (vs_runner s) = Some i \<Longrightarrow> answered i ?s2" for i
    using fail_waiting_keeps [OF vs_okD(5) [OF assms(1), of i], of e] by (simp add: e2 answered_def)
  ultimately show ?thesis using core_facts [OF c] assms(2,3) vs_okD(3,4,6) [OF assms(1)]
    by (cases "vs_runner s")
      (auto simp: wait_in_line_def Let_def vs_ok_def core_def predicting_list_def waiting_list_def sorted_wrt_append
        answered_def accounts_def chunk_ids_def e_def [symmetric])
qed

lemma submit_chunk_inv: "chunk_inv s \<Longrightarrow> submit now seq ts ttl clock s = (r, st) \<Longrightarrow> chunk_inv st"
  using chunk_inv_submit [of s now seq ts ttl clock] by simp

lemma vs_ok_submit:
  assumes "vs_ok s"
  shows "vs_ok (snd (submit_request now m s))"
proof -
  note inv = submit_chunk_inv [OF core_facts(1) [OF vs_okD(1) [OF assms]]]
  have "vs_ok (s\<lparr>vs_state := st\<rparr>)" if "submit now a b c d (vs_state s) = (x, st)" for now a b c d x st
    using inv [OF that] by (rule vs_ok_state [OF assms])
  moreover have "vs_ok (wait_in_line \<lparr>jb_request = r, jb_ticket = t, jb_id = vs_requests s\<rparr>
      (s\<lparr>vs_state := st, vs_requests := Suc (vs_requests s)\<rparr>))"
    if "vs_ok (s\<lparr>vs_state := st\<rparr>)" "vs_accepting s" "\<not> vs_recovering s" for r t st
    using vs_ok_line [OF that(1)] that(2,3) by simp
  ultimately show ?thesis using assms
    by (auto simp: submit_request_def Let_def vs_ok_reply split: prod.splits sum.splits option.splits)
qed


lemma complete_chunk_inv: "chunk_inv s \<Longrightarrow> complete now t c clock s = (r, st) \<Longrightarrow> chunk_inv st"
  using chunk_inv_complete [of s now t c clock] by simp

lemma reject_chunk_inv: "chunk_inv s \<Longrightarrow> reject t why s = (r, st) \<Longrightarrow> chunk_inv st"
  using chunk_inv_reject [of s t why] by simp

lemma reset_chunk_inv: "chunk_inv s \<Longrightarrow> reset ep s = (r, st) \<Longrightarrow> chunk_inv st"
  using chunk_inv_step [of s "Reset ep"] by simp

lemma in_hand_state: "in_hand j s \<Longrightarrow> chunk_inv st \<Longrightarrow> in_hand j (s\<lparr>vs_state := st\<rparr>)"
  by (auto simp: in_hand_def core_state)

lemma in_hand_note: "in_hand j s \<Longrightarrow> \<not> is_predict n \<Longrightarrow> in_hand j (note_that n s)"
  by (auto simp: in_hand_def core_note answered_def)

lemma in_hand_recovering [simp]: "in_hand j (s\<lparr>vs_recovering := b\<rparr>) = in_hand j s"
  by (simp add: in_hand_def answered_def)

lemma in_hand_core: "in_hand j s \<Longrightarrow> core [] s \<or> core [jb_id j] s"
  by (auto simp: in_hand_def)

lemma settle_answered [simp]: "answered (jb_id j) (fail_job j e s)"
  by (simp add: fail_job_def)

lemma fail_job_fields [simp]:
  "vs_state (fail_job j e s) = vs_state s" "vs_stateful (fail_job j e s) = vs_stateful s"
  "vs_waiting (fail_job j e s) = vs_waiting s" "vs_runner (fail_job j e s) = vs_runner s"
  "vs_accepting (fail_job j e s) = vs_accepting s" "vs_recovering (fail_job j e s) = vs_recovering s"
  "vs_barrier (fail_job j e s) = vs_barrier s" "vs_control (fail_job j e s) = vs_control s"
  "vs_log (fail_job j e s) = vs_log s"
  by (simp_all add: fail_job_def)

text \<open>The runner at an await with an answered job in its hand.\<close>

definition quiet :: "'a session_runtime \<Rightarrow> bool" where
  "quiet s \<longleftrightarrow> \<not> vs_recovering s \<and> \<not> at_backend (vs_control s)"

lemma quiet_simps [simp]:
  "quiet (s\<lparr>vs_state := st\<rparr>) = quiet s" "quiet (note_that n s) = quiet s" "quiet (settle_job i v s) = quiet s"
  "quiet (fail_job j e s) = quiet s"
  by (simp_all add: quiet_def)

lemma barrier_stops: "core L s \<Longrightarrow> vs_barrier s \<Longrightarrow> \<not> vs_accepting s"
  by (auto dest: core_facts(5))

lemma discard_result_ok:
  assumes "core [jb_id j] s" and "quiet s"
  shows "vs_ok (discard_result j completion s)"
proof -
  have h: "in_hand j s" using assms(1) by (simp add: in_hand_def)
  have f: "core [] (fail_job j e s)" for e using h by (rule in_hand_fail)
  have "vs_ok (note_that (Reset_call None) ((fail_job j e s)\<lparr>vs_runner := Some (Rewinding j)\<rparr>))" for e
    using f assms(2) by (auto simp: vs_ok_def predicting_list_def quiet_def intro!: core_note)
  moreover have "calm (fail_job j e s)" if "\<not> (vs_stateful s \<and> \<not> vs_barrier s)" for e
    using f that assms(2) barrier_stops [OF assms(1)] by (auto simp: calm_def quiet_def)
  ultimately show ?thesis using crash_ok [OF h] assms(2)
    by (auto simp: discard_result_def Let_def quiet_def next_job_ok split: sum.splits)
qed

lemma predicting_facts:
  assumes "vs_ok s" and "vs_runner s = Some (Predicting j)"
  shows "core [jb_id j] s" and "quiet s" and "\<not> (vs_stateful s \<and> tainted (vs_log s) \<and> vs_accepting s)"
  using vs_okD [OF assms(1)] assms(2) by (auto simp: predicting_list_def quiet_def)

lemma predicted_ok:
  assumes "vs_ok s" and "vs_runner s = Some (Predicting j)"
  shows "vs_ok (predicted now j c s)"
proof -
  note f = predicting_facts [OF assms]
  obtain r st where c: "complete now (jb_ticket j) c (rq_clock (jb_request j)) (vs_state s) = (r, st)"
    by (cases "complete now (jb_ticket j) c (rq_clock (jb_request j)) (vs_state s)")
  let ?s1 = "s\<lparr>vs_state := st\<rparr>"
  have s1: "core [jb_id j] ?s1" using f(1) complete_chunk_inv [OF core_facts(1) [OF f(1)] c] by (rule core_state)
  then have d: "core [jb_id j] (note_that (Discarded (jb_id j)) ?s1)" by (rule core_note) simp
  show ?thesis
  proof (cases r)
    case (Inl e)
    from d have "in_hand j (note_that (Discarded (jb_id j)) ?s1)" by (simp add: in_hand_def)
    from crash_ok [OF this] f(2) c Inl show ?thesis by (simp add: predicted_def quiet_def)
  next
    case (Inr completion)
    have "calm (settle_job (jb_id j) (Answered c) ?s1)"
      using core_settle [OF s1] f(2,3) by (simp add: calm_def quiet_def)
    with discard_result_ok [OF d] f(2) c Inr show ?thesis
      by (simp add: predicted_def next_job_ok)
  qed
qed

lemma prediction_failed_ok:
  assumes "vs_ok s" and "vs_runner s = Some (Predicting j)"
  shows "vs_ok (prediction_failed j e s)"
proof -
  note f = predicting_facts [OF assms]
  let ?why = "reason_or (Some (vla_error_text e)) ''VLA inference failed''"
  obtain r st where c: "reject (jb_ticket j) ?why (vs_state s) = (r, st)"
    by (cases "reject (jb_ticket j) ?why (vs_state s)")
  have h: "in_hand j (s\<lparr>vs_state := st\<rparr>)"
    using f(1) reject_chunk_inv [OF core_facts(1) [OF f(1)] c] by (simp add: in_hand_def core_state)
  have "calm (fail_job j e (s\<lparr>vs_state := st\<rparr>))"
    using in_hand_fail [OF h] f(2,3) by (simp add: calm_def quiet_def)
  with crash_ok [OF h] f(2) c show ?thesis
    by (auto simp: prediction_failed_def quiet_def next_job_ok split: sum.splits)
qed

lemma timed_out_ok:
  assumes "vs_ok s" and "vs_runner s = Some (Predicting j)"
  shows "vs_ok (timed_out j s)"
proof -
  note f = predicting_facts [OF assms]
  have "in_hand j (s\<lparr>vs_recovering := True\<rparr>)" using f(1) by (simp add: in_hand_def)
  then have "core [] (fail_job j e (s\<lparr>vs_recovering := True\<rparr>))" for e by (rule in_hand_fail)
  with f(2,3) show ?thesis by (simp add: timed_out_def vs_ok_def predicting_list_def quiet_def)
qed

lemma settle_overdue_facts:
  assumes "core L s" and "settle_overdue now j r s = (x, s1)"
  shows "core L s1" and "answered i s \<Longrightarrow> answered i s1" and "vs_control s1 = vs_control s"
    and "vs_accepting s1 = vs_accepting s" and "vs_recovering s1 = vs_recovering s"
proof -
  have "chunk_inv st" if "complete now (jb_ticket j) c k (vs_state s) = (y, st)" for c k y st
    using complete_chunk_inv [OF core_facts(1) [OF assms(1)] that] .
  moreover have "chunk_inv st" if "reject (jb_ticket j) w (vs_state s) = (y, st)" for w y st
    using reject_chunk_inv [OF core_facts(1) [OF assms(1)] that] .
  ultimately show "core L s1" using assms
    by (auto simp: settle_overdue_def split: sum.splits prod.splits intro!: core_note core_state)
  show "answered i s \<Longrightarrow> answered i s1" and "vs_control s1 = vs_control s"
    "vs_accepting s1 = vs_accepting s" "vs_recovering s1 = vs_recovering s"
    using assms(2) by (auto simp: settle_overdue_def answered_def split: sum.splits prod.splits)
qed

lemma overdue_ok:
  assumes "vs_ok s" and "vs_runner s = Some (Overdue j)"
  shows "vs_ok (overdue_result now j r s)"
proof -
  have c: "core [] s" and a: "answered (jb_id j) s" and b: "\<not> at_backend (vs_control s)" and r: "vs_recovering s"
    using vs_okD [OF assms(1)] assms(2) by (auto simp: predicting_list_def)
  obtain x s1 where e: "settle_overdue now j r s = (x, s1)" by (cases "settle_overdue now j r s")
  note f = settle_overdue_facts [OF c e]
  have h: "in_hand j (s1\<lparr>vs_recovering := False\<rparr>)" using f(1) f(2) [OF a] by (simp add: in_hand_def)
  have "vs_ok (note_that (Reset_call None) (s1\<lparr>vs_runner := Some (Recovering j)\<rparr>))"
    using f(1,3,5) f(2) [OF a] b r
    by (auto simp: vs_ok_def predicting_list_def intro!: core_note)
  moreover have "calm (s1\<lparr>vs_recovering := False\<rparr>)" if "vs_barrier s1"
    using f(1,3) b barrier_stops [OF f(1) that] by (simp add: calm_def)
  ultimately show ?thesis using crash_ok [OF h] f(3) b e
    by (auto simp: overdue_result_def next_job_ok split: option.splits)
qed

lemma prediction_result_ok:
  assumes "vs_ok s" and "vs_runner s = Some (Predicting j)"
  shows "vs_ok (prediction_result now j r s)"
proof -
  have "vs_ok (overdue_result now j r (timed_out j s))"
    by (rule overdue_ok [OF timed_out_ok [OF assms]]) (simp add: timed_out_def)
  with predicted_ok [OF assms] prediction_failed_ok [OF assms] show ?thesis
    by (auto simp: prediction_result_def split: sum.splits vla_error.splits call_error.splits py_error.splits)
qed

lemma calm_state: "calm s \<Longrightarrow> chunk_inv st \<Longrightarrow> calm (s\<lparr>vs_state := st\<rparr>)"
  by (simp add: calm_def core_state)

lemma backend_was_reset_ok:
  assumes "vs_ok s"
  shows "vs_ok (backend_was_reset r s)"
proof -
  note k = vs_okD [OF assms]
  have m: "calm (note_that Reset_done (s\<lparr>vs_recovering := False\<rparr>))" "in_hand j (note_that Reset_done (s\<lparr>vs_recovering := False\<rparr>))"
      "in_hand j (s\<lparr>vs_recovering := False\<rparr>)" "\<not> at_backend (vs_control s)"
    if "vs_runner s = Some (Recovering j) \<or> vs_runner s = Some (Rewinding j)" for j
    using k(1,4) k(5) [of "jb_id j"] that
    by (auto simp: calm_def predicting_list_def in_hand_def intro!: core_note)
  have n: "note_that n (s\<lparr>vs_recovering := b\<rparr>) = (note_that n s)\<lparr>vs_recovering := b\<rparr>" for n b
    by (simp add: note_that_def)
  have z: "s\<lparr>vs_recovering := False\<rparr> = s" if "vs_runner s = Some (Rewinding j)" for j
    using k(3) that by simp
  have "vs_ok (case reset None (vs_state s) of
        (Inl x, st) \<Rightarrow> crash j (Call (Plain x)) ((note_that Reset_done s)\<lparr>vs_state := st, vs_recovering := False\<rparr>)
      | (Inr y, st) \<Rightarrow> next_job ((note_that Reset_done s)\<lparr>vs_state := st, vs_recovering := False\<rparr>))"
    if q: "vs_runner s = Some (Recovering j)" for j
  proof -
    obtain y st where e: "reset None (vs_state s) = (y, st)" by (cases "reset None (vs_state s)")
    have i: "chunk_inv st" by (rule reset_chunk_inv [OF core_facts(1) [OF k(1)] e])
    note m2 = m [OF disjI1, OF q, unfolded n]
    have w: "t\<lparr>vs_recovering := b, vs_state := st\<rparr> = t\<lparr>vs_state := st, vs_recovering := b\<rparr>"
      for b and t :: "'a session_runtime" by simp
    from calm_state [OF m2(1) i] in_hand_state [OF m2(2) i] m2(4) e show ?thesis unfolding w
      by (auto simp: next_job_ok crash_ok split: sum.splits)
  qed
  moreover have "vs_ok (crash j e (s\<lparr>vs_recovering := False\<rparr>))"
    if "vs_runner s = Some (Recovering j) \<or> vs_runner s = Some (Rewinding j)" for j e
    by (rule crash_ok [OF m(3) [OF that]]) (use m(4) [OF that] in simp_all)
  moreover have "vs_ok (next_job (note_that Reset_done s))" if "vs_runner s = Some (Rewinding j)" for j
    using next_job_ok [OF m(1) [OF disjI2, OF that]] z [OF that] by simp
  moreover have "vs_ok (crash j e s)" if "vs_runner s = Some (Rewinding j)" for j e
    by (rule crash_ok [OF m(3) [OF disjI2, OF that, unfolded z [OF that]]])
      (use m(4) [OF disjI2, OF that] k(3) that in simp_all)
  ultimately show ?thesis using assms
    by (cases r) (auto simp: backend_was_reset_def Let_def split: option.split phase.split)
qed

lemma raise_barrier_ok:
  assumes "vs_ok s" and "vs_control s = None" and "\<not> at_backend (Some c)" and "ep \<noteq> Some []"
  shows "vs_ok (raise_barrier ep why c s)"
proof -
  note k = vs_okD [OF assms(1)]
  obtain r st where e: "reset ep (vs_state s) = (r, st)" by (cases "reset ep (vs_state s)")
  have i: "chunk_inv st" by (rule reset_chunk_inv [OF core_facts(1) [OF k(1)] e])
  let ?w = "Protocol SESSION_UNAVAILABLE why"
  have f: "fail_waiting ?w (s\<lparr>vs_accepting := False, vs_barrier := True, vs_state := st\<rparr>) =
      (fail_waiting ?w s)\<lparr>vs_accepting := False, vs_barrier := True, vs_state := st\<rparr>"
    by (cases "vs_waiting s") (simp_all add: fail_waiting_def fail_job_def settle_job_def answered_def)
  have "core (predicting_list s) (fail_waiting ?w s)" using k(1) by (rule core_fail_waiting)
  with i have "vs_ok ((fail_waiting ?w s)\<lparr>vs_accepting := False, vs_barrier := True, vs_state := st, vs_control := Some c\<rparr>)"
    using k(3,5) assms(3) fail_waiting_keeps [of _ s ?w]
    by (auto simp: vs_ok_def core_def accounts_def chunk_ids_def waiting_list_def predicting_list_def answered_def)
  moreover have "r = Inr ()" using reset_quiescent [OF core_facts(1) [OF k(1)] assms(4)] e by simp
  ultimately show ?thesis using e f
    by (simp add: raise_barrier_def Let_def)
qed

lemma control_call_ok: "vs_ok s \<Longrightarrow> vs_runner s = None \<Longrightarrow> vs_ok (control_call s)"
  by (auto simp: control_call_def vs_ok_def core_def accounts_def chunk_ids_def waiting_list_def predicting_list_def
      note_that_def answered_def split: option.splits control.splits)

lemma disconnect_chunk_inv: "chunk_inv s \<Longrightarrow> chunk_inv (snd (disconnect s))"
  using chunk_inv_step [of s Disconnect] by simp

lemma control_end_ok:
  assumes "vs_ok s"
  shows "vs_ok (control_end r s)"
proof -
  note k = vs_okD [OF assms]
  have i: "chunk_inv (snd (reset ep (vs_state s)))" "chunk_inv (snd (disconnect (vs_state s)))" for ep
    using reset_chunk_inv [OF core_facts(1) [OF k(1)], of ep] disconnect_chunk_inv [OF core_facts(1) [OF k(1)]]
    by (metis prod.collapse)+
  have w: "vs_waiting s = None" if "vs_runner s = None" using k(2) that by (cases "vs_waiting s") auto
  have n: "vs_ok (s\<lparr>vs_control := None\<rparr>)" if "at_backend (vs_control s)"
    using k k(4) [OF that] w that
    by (auto simp: vs_ok_def core_def accounts_def chunk_ids_def waiting_list_def predicting_list_def answered_def)
  have d: "vs_ok ((note_that Reset_done (s\<lparr>vs_control := None\<rparr>))\<lparr>vs_state := snd (reset ep (vs_state s))\<rparr>)"
      "vs_ok ((note_that Reset_done (s\<lparr>vs_control := None\<rparr>))
        \<lparr>vs_state := snd (reset ep (vs_state s)), vs_barrier := False, vs_accepting := True\<rparr>)"
    if "at_backend (vs_control s)" for ep
    using k k(4) [OF that] w that i
    by (auto simp: vs_ok_def core_def accounts_def chunk_ids_def waiting_list_def predicting_list_def answered_def)
  show ?thesis
  proof (cases "at_backend (vs_control s)")
    case False
    with assms show ?thesis by (auto simp: control_end_def split: option.splits control.splits)
  next
    case True
    have z: "vs_ok (s\<lparr>vs_control := None, vs_state := st\<rparr>)" if "chunk_inv st" for st
      using vs_ok_state [OF n [OF True] that] .
    have "s\<lparr>vs_state := st, vs_control := None\<rparr> = s\<lparr>vs_control := None, vs_state := st\<rparr>" for st by simp
    note z = z [folded this]
    have "vs_ok (s\<lparr>vs_control := None\<rparr>)" by (rule n [OF True])
    moreover have "vs_ok (s\<lparr>vs_state := vs_state s, vs_control := None\<rparr>)"
      by (rule z) (rule core_facts(1) [OF k(1)])
    ultimately show ?thesis using assms d [OF True] z [OF i(2)]
      by (cases r; simp add: control_end_def Let_def split_beta split: option.split control.split sum.split)
  qed
qed

lemma optional_string_nonempty: "optional_string m f = Inr ep \<Longrightarrow> ep \<noteq> Some []"
  by (auto simp: optional_string_def split: pyval.splits if_splits)

lemma vs_ok_step: "vs_ok s \<Longrightarrow> vs_ok (vla_step s e)"
proof (cases e)
  case (Reset_begins m)
  assume "vs_ok s"
  with Reset_begins raise_barrier_ok [of s "Reset_waits ep" ep for ep] optional_string_nonempty show ?thesis
    by (auto simp: reset_begin_def split: sum.splits)
next
  case (Close_begins d)
  assume "vs_ok s"
  with Close_begins show ?thesis by (auto simp: close_session_begin_def intro!: raise_barrier_ok)
next
  case Runner_begins
  assume "vs_ok s"
  then have "calm s" if "vs_runner s = Some Created"
    using vs_okD [of s] that by (auto simp: calm_def predicting_list_def)
  with \<open>vs_ok s\<close> Runner_begins show ?thesis by (simp add: next_job_ok)
qed (auto simp: vs_ok_submit timed_out_ok prediction_result_ok overdue_ok
    backend_was_reset_ok control_call_ok control_end_ok split: option.splits phase.splits)

lemma vs_ok_new: "chunk_inv st \<Longrightarrow> vs_ok (new_session_runtime st stateful)"
  by (simp add: new_session_runtime_def vs_ok_def core_def accounts_def chunk_ids_def waiting_list_def predicting_list_def)

interpretation vla: invariant_machine vla_step vs_ok
  by unfold_locales (rule vs_ok_step)

end
