(* ===== verification/VLA_Answers.thy ===== *)
theory VLA_Answers
  imports VLA_Session
begin

text \<open>
  What a session of the VLA service answers: the records that the chunk machine keeps for the
  requests in hand, and the properties of every run. A request gets one answer, in order; a
  stateful policy never predicts on a history with a discarded result; RESET separates the
  requests before it from those after it; and the end of a prediction answers its request.
\<close>

section \<open>Sorted histories\<close>

text \<open>The records of the chunk machine are in the order of their generations, so the history drops the
  oldest first: a record stays while its generation is among the newest \<open>terminal_history\<close>.\<close>

definition in_order :: "'a chunk_machine \<Rightarrow> bool" where
  "in_order s \<longleftrightarrow> sorted_wrt (<) (od_keys (cm_records s)) \<and> (\<forall>g \<in> set (od_keys (cm_records s)). g \<le> cm_generation s)"

lemma keys_foldl_del: "od_keys (foldl (\<lambda>d k. od_del k d) d ks) = filter (\<lambda>k. k \<notin> set ks) (od_keys d)"
proof (induction ks arbitrary: d)
  case (Cons k ks)
  have "od_keys (od_del k d) = filter (\<lambda>x. x \<noteq> k) (od_keys d)"
    by (induction d) auto
  with Cons show ?case by (auto intro: filter_cong)
qed simp

lemma in_order_trim: "in_order s \<Longrightarrow> in_order (trim_history s)"
  by (auto simp: in_order_def trim_history_def Let_def keys_foldl_del sorted_wrt_filter)

lemma in_order_upd [simp]: "in_order (upd_record g f s) = in_order s"
  by (simp add: in_order_def upd_record_def)

lemma in_order_fields [simp]:
  "in_order (s\<lparr>cm_pending := a\<rparr>) = in_order s" "in_order (s\<lparr>cm_ready := b\<rparr>) = in_order s"
  "in_order (s\<lparr>cm_executing := b\<rparr>) = in_order s" "in_order (s\<lparr>cm_remainder := c\<rparr>) = in_order s"
  "in_order (s\<lparr>cm_latest_sequence := d\<rparr>) = in_order s" "in_order (s\<lparr>cm_latest_timestamp := d\<rparr>) = in_order s"
  "in_order (s\<lparr>cm_disconnected := x\<rparr>) = in_order s" "in_order (s\<lparr>cm_episode_id := y\<rparr>) = in_order s"
  "in_order (s\<lparr>cm_recoveries := z\<rparr>) = in_order s" "in_order (clear_slots s) = in_order s"
  by (simp_all add: in_order_def clear_slots_def)

lemma in_order_terminal: "in_order s \<Longrightarrow> in_order (set_terminal g st why s)"
  by (simp add: set_terminal_def in_order_trim)

lemma in_order_recover [simp]: "in_order (recover_discarded r s) = in_order s"
  by (simp add: recover_discarded_def)

lemma in_order_register: "in_order s \<Longrightarrow> tk_generation t = cm_generation s + 1 \<Longrightarrow> in_order (register_ticket t s)"
proof -
  assume i: "in_order s" and g: "tk_generation t = cm_generation s + 1"
  then have "od_get (cm_records s) (tk_generation t) = None"
    by (fastforce simp: in_order_def map_of_eq_None_iff)
  with i g show ?thesis
    by (simp add: in_order_def register_ticket_def od_put_absent sorted_wrt_append less_Suc_eq_le le_SucI)
qed

lemma in_order_supersede:
  "in_order s \<Longrightarrow> supersede_pending s = Inr s' \<Longrightarrow> in_order s'"
  "in_order s \<Longrightarrow> supersede_ready s = Inr s' \<Longrightarrow> in_order s'"
  by (auto simp: supersede_pending_def supersede_ready_def in_order_terminal split: option.splits)

lemma in_order_reject_tickets: "in_order s \<Longrightarrow> in_order (snd (reject_tickets why rc ts s))"
  by (induction ts arbitrary: s) (auto simp: Let_def in_order_terminal split: option.splits)

lemma in_order_step: "in_order s \<Longrightarrow> in_order (chunk_step s e)"
proof (cases e)
  case (Submit now seq ts ttl clock)
  assume o: "in_order s"
  then have r: "in_order (register_ticket (new_ticket now seq ts ttl s) s)"
    by (rule in_order_register) simp
  have "in_order (admit t s3)" if "supersede_pending (register_ticket (new_ticket now seq ts ttl s) s) = Inr s2"
    "supersede_ready s2 = Inr s3" for t s2 s3
    using in_order_supersede [OF r] in_order_supersede that
    by (auto simp: admit_def Let_def intro!: in_order_trim)
  with o r Submit show ?thesis
    by (auto simp: submit_def Let_def in_order_terminal split: option.splits sum.splits intro: in_order_supersede)
next
  case (Disconnect)
  assume "in_order s"
  from in_order_reject_tickets [OF this] Disconnect show ?thesis
    by (auto simp: disconnect_def Let_def split: prod.splits sum.splits intro!: in_order_trim) (metis snd_conv)+
next
  case (Reset ep)
  assume "in_order s"
  with in_order_reject_tickets [OF this] Reset show ?thesis
    by (auto simp: reset_def split: prod.splits sum.splits intro!: in_order_trim) (metis snd_conv)+
qed (auto simp: mark_inference_started_def complete_def reject_def begin_execution_def finish_execution_def Let_def
      split: option.splits intro!: in_order_trim in_order_terminal)

interpretation ordered: invariant_machine chunk_step in_order
  by unfold_locales (rule in_order_step)






section \<open>The jobs and their records\<close>

text \<open>A record that is neither marked completed nor ready, or is gone.\<close>

definition not_done :: "chunk_record \<Rightarrow> bool" where
  "not_done r \<longleftrightarrow> \<not> cr_completed r \<and> cr_status r \<noteq> C_READY"

lemma not_done_simps [simp]:
  "not_done (r\<lparr>cr_started := b\<rparr>) = not_done r" "not_done (r\<lparr>cr_recovered := b\<rparr>) = not_done r"
  "not_done (r\<lparr>cr_status := C_EXECUTING\<rparr>) \<longleftrightarrow> \<not> cr_completed r"
  by (simp_all add: not_done_def)

definition uncompleted :: "nat \<Rightarrow> 'a chunk_machine \<Rightarrow> bool" where
  "uncompleted g s \<longleftrightarrow> (\<forall>r. od_get (cm_records s) g = Some r \<longrightarrow> not_done r)"

lemma uncompleted_trim: "uncompleted g s \<Longrightarrow> uncompleted g (trim_history s)"
  by (auto simp: uncompleted_def trim_history_def Let_def get_foldl_del_nat split: if_splits)

lemma uncompleted_entry:
  assumes "uncompleted g s" and "\<And>r. h = g \<Longrightarrow> not_done r \<Longrightarrow> not_done (f r)"
  shows "uncompleted g (upd_record h f s)"
  using assms by (cases "h = g") (auto simp: uncompleted_def upd_record_def map_of_map_entry split: option.splits)

lemma uncompleted_terminal: "uncompleted g s \<Longrightarrow> st \<noteq> C_READY \<Longrightarrow> uncompleted g (set_terminal h st why s)"
  unfolding set_terminal_def by (rule uncompleted_trim, erule uncompleted_entry) (simp add: not_done_def)

lemma turned_away_not_ready [simp]: "turned_away t clock s \<noteq> Some (C_READY, why)"
  using turned_away_terminal [of t clock s C_READY why] by (auto simp: terminal_chunk_def)

text \<open>The operations that a session makes.\<close>

definition session_op :: "'a chunk_op \<Rightarrow> bool" where
  "session_op e = (case e of Begin_Execution \<Rightarrow> False | Finish_Execution b \<Rightarrow> False | _ \<Rightarrow> True)"

lemma session_op_simps [simp]:
  "session_op (Submit now seq ts ttl clock)" "session_op (Mark_Started t)" "session_op (Complete now t c clock)"
  "session_op (Reject t why)" "session_op Disconnect" "session_op (Reset ep)"
  "\<not> session_op Begin_Execution" "\<not> session_op (Finish_Execution b)"
  by (simp_all add: session_op_def)

lemma uncompleted_fields [simp]:
  "uncompleted g (s\<lparr>cm_pending := a\<rparr>) = uncompleted g s" "uncompleted g (s\<lparr>cm_ready := b\<rparr>) = uncompleted g s"
  "uncompleted g (s\<lparr>cm_executing := b\<rparr>) = uncompleted g s" "uncompleted g (s\<lparr>cm_remainder := c\<rparr>) = uncompleted g s"
  "uncompleted g (s\<lparr>cm_latest_sequence := d\<rparr>) = uncompleted g s" "uncompleted g (s\<lparr>cm_latest_timestamp := d\<rparr>) = uncompleted g s"
  "uncompleted g (s\<lparr>cm_disconnected := x\<rparr>) = uncompleted g s" "uncompleted g (s\<lparr>cm_episode_id := y\<rparr>) = uncompleted g s"
  "uncompleted g (s\<lparr>cm_recoveries := z\<rparr>) = uncompleted g s" "uncompleted g (clear_slots s) = uncompleted g s"
  by (simp_all add: uncompleted_def clear_slots_def)

lemma uncompleted_recover: "uncompleted g s \<Longrightarrow> uncompleted g (recover_discarded r s)"
  by (auto simp: recover_discarded_def intro!: uncompleted_entry)

lemma uncompleted_reject_tickets: "uncompleted g s \<Longrightarrow> uncompleted g (snd (reject_tickets why rc ts s))"
  by (induction ts arbitrary: s) (auto simp: Let_def uncompleted_recover uncompleted_terminal split: option.splits)

lemma uncompleted_supersede:
  "uncompleted g s \<Longrightarrow> supersede_pending s = Inr s' \<Longrightarrow> uncompleted g s'"
  "uncompleted g s \<Longrightarrow> supersede_ready s = Inr s' \<Longrightarrow> uncompleted g s'"
  by (auto simp: supersede_pending_def supersede_ready_def uncompleted_terminal split: option.splits)

lemma uncompleted_step:
  assumes "uncompleted g s" and "\<not> ends_inference g e" and "session_op e"
  shows "uncompleted g (chunk_step s e)"
proof (cases e)
  case (Submit now seq ts ttl clock)
  let ?t = "new_ticket now seq ts ttl s"
  have r: "uncompleted g (register_ticket ?t s)"
    using assms(1) by (auto simp: uncompleted_def register_ticket_def not_done_def)
  have "uncompleted g (admit ?t s3)" if "supersede_pending (register_ticket ?t s) = Inr s2" "supersede_ready s2 = Inr s3" for s2 s3
    using uncompleted_supersede [OF r] uncompleted_supersede that
    by (auto simp: admit_def Let_def intro!: uncompleted_trim)
  with assms(1) r Submit show ?thesis
    by (auto simp: submit_def Let_def split: option.splits sum.splits intro: uncompleted_supersede intro!: uncompleted_terminal)
next
  case (Complete now t c clock)
  with assms show ?thesis
    by (auto simp: complete_def Let_def ends_inference_def split: option.splits
        intro!: uncompleted_trim uncompleted_recover uncompleted_terminal uncompleted_entry)
next
  case (Reject t why)
  with assms show ?thesis
    by (auto simp: reject_def Let_def ends_inference_def split: option.splits
        intro!: uncompleted_recover uncompleted_terminal uncompleted_entry)
next
  case Disconnect
  with uncompleted_reject_tickets [OF assms(1)] show ?thesis
    by (auto simp: disconnect_def Let_def split: prod.splits sum.splits intro!: uncompleted_trim) (metis snd_conv)+
next
  case (Reset ep)
  with assms(1) uncompleted_reject_tickets [OF assms(1)] show ?thesis
    by (auto simp: reset_def split: prod.splits sum.splits intro!: uncompleted_trim) (metis snd_conv)+
qed (use assms in \<open>auto simp: mark_inference_started_def split: option.splits intro!: uncompleted_entry\<close>)

lemma submit_generation:
  "submit now seq ts ttl clock s = (Inr t, st) \<Longrightarrow>
   tk_generation t = cm_generation s + 1 \<and> cm_generation st = cm_generation s + 1"
  by (auto simp: submit_def Let_def supersede_pending_def supersede_ready_def admit_def register_ticket_def
      split: option.splits sum.splits prod.splits)

lemma mark_inflight:
  assumes "chunk_inv s" and "uncompleted (tk_generation t) s" and "find_record t s = Some r" and "cr_status r = C_PENDING"
  shows "inflight (tk_generation t) (snd (mark_inference_started t s))"
  using assms by (auto simp: mark_inference_started_def inflight_def uncompleted_def not_done_def find_record_def upd_record_def
      map_of_map_entry chunk_inv_def records_ok_def)


text \<open>The request whose prediction the runner awaits, and what is known of the tickets of the requests in hand.\<close>

definition hand_job :: "phase option \<Rightarrow> job option" where
  "hand_job p = (case p of Some (Predicting j) \<Rightarrow> Some j | Some (Overdue j) \<Rightarrow> Some j | _ \<Rightarrow> None)"

definition gen_of :: "job \<Rightarrow> nat" where
  "gen_of j = tk_generation (jb_ticket j)"

definition clock_ok :: "job \<Rightarrow> bool" where
  "clock_ok j \<longleftrightarrow> validate_nonneg (rq_clock (jb_request j)) ''observation_clock_now_ns'' = None"

definition waiting_known :: "job option \<Rightarrow> 'a chunk_machine \<Rightarrow> bool" where
  "waiting_known w s \<longleftrightarrow> chunk_inv s \<and> in_order s \<and>
     (\<forall>j. w = Some j \<longrightarrow> uncompleted (gen_of j) s \<and> gen_of j \<le> cm_generation s \<and> clock_ok j)"

definition hand_known :: "job option \<Rightarrow> job option \<Rightarrow> 'a chunk_machine \<Rightarrow> bool" where
  "hand_known h w s \<longleftrightarrow>
     (\<forall>j. h = Some j \<longrightarrow> inflight (gen_of j) s \<and> uncompleted (gen_of j) s \<and> clock_ok j \<and> (\<forall>k. w = Some k \<longrightarrow> gen_of j < gen_of k))"

definition tracked :: "'a session_runtime \<Rightarrow> bool" where
  "tracked s \<longleftrightarrow> waiting_known (vs_waiting s) (vs_state s) \<and>
     hand_known (hand_job (vs_runner s)) (vs_waiting s) (vs_state s)"

lemma hand_job_simps [simp]:
  "hand_job None = None" "hand_job (Some Created) = None" "hand_job (Some (Predicting j)) = Some j"
  "hand_job (Some (Overdue j)) = Some j" "hand_job (Some (Recovering j)) = None" "hand_job (Some (Rewinding j)) = None"
  by (simp_all add: hand_job_def)

lemma known_None [simp]:
  "hand_known None w s" "waiting_known None s \<longleftrightarrow> chunk_inv s \<and> in_order s"
  by (simp_all add: hand_known_def waiting_known_def)

lemma known_drop: "waiting_known w s \<Longrightarrow> waiting_known None s" "hand_known h w s \<Longrightarrow> hand_known h None s"
  by (auto simp: waiting_known_def hand_known_def)

lemma waiting_known_step:
  assumes "waiting_known w s" and "\<And>j. w = Some j \<Longrightarrow> \<not> ends_inference (gen_of j) e" and "session_op e"
  shows "waiting_known w (chunk_step s e)"
proof -
  have "chunk_inv s" using assms(1) by (simp add: waiting_known_def)
  then have "cm_generation s \<le> cm_generation (chunk_step s e)" using cm.rank_step by blast
  with assms show ?thesis
    by (auto simp: waiting_known_def chunk_inv_step in_order_step uncompleted_step intro: order_trans)
qed

lemma hand_known_step:
  assumes "hand_known h w s" and "waiting_known w s" and "\<And>j. h = Some j \<Longrightarrow> \<not> ends_inference (gen_of j) e" and "session_op e"
  shows "hand_known h w (chunk_step s e)"
  using assms by (auto simp: hand_known_def waiting_known_def inflight_step uncompleted_step)

lemma tracked_step:
  assumes "tracked s" and "\<And>g. \<not> ends_inference g e" and "session_op e"
  shows "tracked (s\<lparr>vs_state := chunk_step (vs_state s) e\<rparr>)"
  using assms by (simp add: tracked_def waiting_known_step hand_known_step)

lemma no_end [simp]:
  "\<not> ends_inference g (Submit now seq ts ttl clock)" "\<not> ends_inference g (Reset ep)" "\<not> ends_inference g Disconnect"
  by (simp_all add: ends_inference_def)

lemma tracked_fields [simp]:
  "tracked (s\<lparr>vs_accepting := b\<rparr>) = tracked s" "tracked (s\<lparr>vs_recovering := b\<rparr>) = tracked s"
  "tracked (s\<lparr>vs_barrier := b\<rparr>) = tracked s" "tracked (s\<lparr>vs_control := c\<rparr>) = tracked s"
  "tracked (s\<lparr>vs_requests := n\<rparr>) = tracked s" "tracked (s\<lparr>vs_crashed := l\<rparr>) = tracked s"
  "tracked (note_that x s) = tracked s" "tracked (settle_job i v s) = tracked s" "tracked (fail_job j e s) = tracked s"
  by (simp_all add: tracked_def)

lemma tracked_drop: "tracked s \<Longrightarrow> tracked (fail_waiting e s)"
  by (auto simp: tracked_def dest: known_drop)

lemma tracked_crash: "waiting_known (vs_waiting s) (vs_state s) \<Longrightarrow> tracked (crash j e s)"
  by (auto simp: tracked_def crash_def Let_def dest: known_drop)

lemma tracked_next: "waiting_known (vs_waiting s) (vs_state s) \<Longrightarrow> tracked (next_job s)"
proof (cases "vs_waiting s")
  case (Some j)
  assume w: "waiting_known (vs_waiting s) (vs_state s)"
  note d = known_drop(1) [OF w]
  have "chunk_inv (snd (mark_inference_started t (vs_state s)))" "in_order (snd (mark_inference_started t (vs_state s)))" for t
    using chunk_inv_step [of "vs_state s" "Mark_Started t"] in_order_step [of "vs_state s" "Mark_Started t"] d by simp_all
  moreover have "inflight (gen_of j) (snd (mark_inference_started (jb_ticket j) (vs_state s)))"
    and "uncompleted (gen_of j) (snd (mark_inference_started (jb_ticket j) (vs_state s)))"
    if "find_record (jb_ticket j) (vs_state s) = Some r" "cr_status r = C_PENDING" for r
    using uncompleted_step [of "gen_of j" "vs_state s" "Mark_Started (jb_ticket j)"] w Some
      mark_inflight [OF _ _ that] by (simp_all add: waiting_known_def gen_of_def ends_inference_def)
  moreover have "clock_ok j" using w Some by (simp add: waiting_known_def)
  ultimately show ?thesis using Some d tracked_crash [of "s\<lparr>vs_waiting := None\<rparr>"]
    by (auto simp: next_job_def Let_def tracked_def fail_job_def hand_known_def split: option.splits)
qed (simp add: next_job_def tracked_def)

lemma tracked_submit:
  assumes "tracked s"
  shows "tracked (snd (submit_request now m s))"
proof -
  have st: "tracked (s\<lparr>vs_state := st\<rparr>)" if "submit now a b c d (vs_state s) = (x, st)" for a b c d x st
    using tracked_step [OF assms, of "Submit now a b c d"] that by simp
  have reply: "tracked (snd (reply_at_once c x s'))" if "tracked s'" for c x and s' :: "'a session_runtime"
    using that by (simp add: reply_at_once_def)
  have line: "tracked (wait_in_line \<lparr>jb_request = r, jb_ticket = t, jb_id = i\<rparr> (s\<lparr>vs_state := st, vs_requests := n\<rparr>))"
    if e: "submit now a b c d (vs_state s) = (Inr t, st)" and q: "read_request m = Inr r" for a b c d r t i st n
  proof -
    have v: "clock_ok \<lparr>jb_request = r, jb_ticket = t, jb_id = i\<rparr>"
      using q by (auto simp: clock_ok_def read_request_def optional_nonneg_def validate_nonneg_def
          split: sum.splits option.splits pyval.splits if_splits)
    have k: "waiting_known None st" "hand_known (hand_job (vs_runner s)) None st"
      using st [OF e] by (auto simp: tracked_def dest: known_drop)
    have g: "tk_generation t = cm_generation (vs_state s) + 1" "cm_generation st = cm_generation (vs_state s) + 1"
      using submit_generation [OF e] by simp_all
    have "od_get (cm_records (vs_state s)) (tk_generation t) = None"
      using assms g(1) by (fastforce simp: tracked_def waiting_known_def in_order_def map_of_eq_None_iff)
    then have "uncompleted (tk_generation t) (vs_state s)" by (simp add: uncompleted_def)
    from uncompleted_step [OF this no_end(1), of now a b c d] e have u: "uncompleted (tk_generation t) st" by simp
    have "gen_of j \<le> cm_generation (vs_state s)" if "hand_job (vs_runner s) = Some j" for j
      using assms that by (force simp: tracked_def hand_known_def waiting_known_def inflight_def in_order_def dest: map_of_SomeD)
    with k u g v show ?thesis
      by (auto simp: wait_in_line_def tracked_def waiting_known_def hand_known_def gen_of_def less_Suc_eq_le split: option.splits)
  qed
  from assms st reply line show ?thesis
    by (auto simp: submit_request_def Let_def split: prod.splits sum.splits option.splits)
qed


lemma hand_done:
  assumes "tracked s" and "hand_job (vs_runner s) = Some j" and "\<And>g. ends_inference g e \<Longrightarrow> g = gen_of j" and "session_op e"
  shows "waiting_known (vs_waiting s) (chunk_step (vs_state s) e)"
proof (rule waiting_known_step)
  show "waiting_known (vs_waiting s) (vs_state s)" using assms(1) by (simp add: tracked_def)
  show "\<not> ends_inference (gen_of k) e" if "vs_waiting s = Some k" for k
    using assms that by (auto simp: tracked_def hand_known_def)
qed (rule assms(4))

lemma ends_simps [simp]:
  "ends_inference g (Complete now t c clock) \<longleftrightarrow> g = tk_generation t"
  "ends_inference g (Reject t why) \<longleftrightarrow> g = tk_generation t"
  by (auto simp: ends_inference_def)

lemma tracked_at_await:
  "waiting_known (vs_waiting s) (vs_state s) \<Longrightarrow> hand_job (Some p) = None \<Longrightarrow> tracked (s\<lparr>vs_runner := Some p\<rparr>)"
  by (simp add: tracked_def)

lemma tracked_discard:
  "waiting_known (vs_waiting s) (vs_state s) \<Longrightarrow> tracked (discard_result j x s)"
  by (auto simp: discard_result_def Let_def tracked_crash tracked_next tracked_at_await split: sum.splits)

lemma tracked_predicted:
  assumes "tracked s" and "vs_runner s = Some (Predicting j)"
  shows "tracked (predicted now j c s)"
proof -
  have "waiting_known (vs_waiting s) st"
    if "complete now (jb_ticket j) c (rq_clock (jb_request j)) (vs_state s) = (x, st)" for x st
    using hand_done [OF assms(1), of j "Complete now (jb_ticket j) c (rq_clock (jb_request j))"] assms(2) that
    by (simp add: gen_of_def)
  then show ?thesis
    by (auto simp: predicted_def tracked_crash tracked_next tracked_discard split: prod.splits sum.splits)
qed

lemma tracked_failed:
  assumes "tracked s" and "vs_runner s = Some (Predicting j)"
  shows "tracked (prediction_failed j e s)"
proof -
  have "waiting_known (vs_waiting s) st" if "reject (jb_ticket j) why (vs_state s) = (x, st)" for why x st
    using hand_done [OF assms(1), of j "Reject (jb_ticket j) why"] assms(2) that by (simp add: gen_of_def)
  then show ?thesis
    by (auto simp: prediction_failed_def tracked_crash tracked_next split: prod.splits sum.splits)
qed

lemma tracked_timed_out: "tracked s \<Longrightarrow> vs_runner s = Some (Predicting j) \<Longrightarrow> tracked (timed_out j s)"
  by (simp add: timed_out_def tracked_def)

lemma tracked_overdue:
  assumes "tracked s" and "vs_runner s = Some (Overdue j)"
  shows "tracked (overdue_result now j r s)"
proof -
  obtain x s1 where e: "settle_overdue now j r s = (x, s1)" by (cases "settle_overdue now j r s")
  have "waiting_known (vs_waiting s) st"
    if "complete now (jb_ticket j) c (rq_clock (jb_request j)) (vs_state s) = (x, st)" for c x st
    using hand_done [OF assms(1), of j "Complete now (jb_ticket j) c (rq_clock (jb_request j))"] assms(2) that
    by (simp add: gen_of_def)
  moreover have "waiting_known (vs_waiting s) st" if "reject (jb_ticket j) why (vs_state s) = (x, st)" for why x st
    using hand_done [OF assms(1), of j "Reject (jb_ticket j) why"] assms(2) that by (simp add: gen_of_def)
  ultimately have w: "waiting_known (vs_waiting s1) (vs_state s1)"
    using e by (auto simp: settle_overdue_def split: sum.splits prod.splits)
  then have "tracked (s1\<lparr>vs_runner := Some (Recovering j)\<rparr>)" by (simp add: tracked_def)
  with w e show ?thesis
    by (auto simp: overdue_result_def tracked_crash tracked_next split: option.splits)
qed

lemma tracked_result:
  assumes "tracked s" and "vs_runner s = Some (Predicting j)"
  shows "tracked (prediction_result now j r s)"
proof -
  have "tracked (overdue_result now j r (timed_out j s))"
    by (rule tracked_overdue [OF tracked_timed_out [OF assms]]) (simp add: timed_out_def)
  with tracked_predicted [OF assms] tracked_failed [OF assms] show ?thesis
    by (auto simp: prediction_result_def split: sum.splits vla_error.splits call_error.splits py_error.splits)
qed

lemma tracked_backend_reset: "tracked s \<Longrightarrow> tracked (backend_was_reset r s)"
proof -
  assume t: "tracked s"
  then have w: "waiting_known (vs_waiting s) (vs_state s)" by (simp add: tracked_def)
  have "waiting_known (vs_waiting s) st" if "reset None (vs_state s) = (x, st)" for x st
    using waiting_known_step [OF w, of "Reset None"] that by simp
  with t w show ?thesis
    by (auto simp: backend_was_reset_def Let_def tracked_crash tracked_next split: option.splits phase.splits prod.splits sum.splits)
qed

lemma tracked_reset: "tracked s \<Longrightarrow> reset ep (vs_state s) = (x, st) \<Longrightarrow> tracked (s\<lparr>vs_state := st\<rparr>)"
  using tracked_step [of s "Reset ep"] by simp

lemma tracked_barrier: "tracked s \<Longrightarrow> tracked (raise_barrier ep why c s)"
  using tracked_reset [of "s\<lparr>vs_accepting := False, vs_barrier := True\<rparr>" ep]
  by (auto simp: raise_barrier_def Let_def intro!: tracked_drop split: prod.splits sum.splits)

lemma tracked_control_end: "tracked s \<Longrightarrow> tracked (control_end r s)"
  using tracked_reset [of "note_that Reset_done (s\<lparr>vs_control := None\<rparr>)"] tracked_step [of s Disconnect]
  by (auto simp: control_end_def Let_def split: option.splits control.splits prod.splits sum.splits)

lemma tracked_vla_step: "tracked s \<Longrightarrow> tracked (vla_step s e)"
proof (cases e)
  case Runner_begins
  assume "tracked s"
  then have "tracked (next_job s)" by (intro tracked_next) (simp add: tracked_def)
  with \<open>tracked s\<close> show ?thesis using Runner_begins by simp
qed (auto simp: tracked_submit tracked_timed_out tracked_result tracked_overdue tracked_backend_reset reset_begin_def
    close_session_begin_def tracked_barrier control_call_def tracked_control_end
    split: option.splits phase.splits sum.splits control.splits)

interpretation vla_tracked: invariant_machine vla_step tracked
  by unfold_locales (rule tracked_vla_step)

lemma tracked_new: "chunk_inv st \<Longrightarrow> in_order st \<Longrightarrow> tracked (new_session_runtime st stateful)"
  by (simp add: new_session_runtime_def tracked_def)


section \<open>Answers are final\<close>

definition keeps_answers :: "'a session_runtime \<Rightarrow> 'a session_runtime \<Rightarrow> bool" where
  "keeps_answers s t \<longleftrightarrow> (\<exists>more. vs_answers t = vs_answers s @ more)"


lemma keeps_refl [simp]: "keeps_answers s s"
  by (simp add: keeps_answers_def)



lemma keeps_fields [simp]:
  "keeps_answers s (t\<lparr>vs_state := st\<rparr>) = keeps_answers s t" "keeps_answers s (t\<lparr>vs_runner := p\<rparr>) = keeps_answers s t"
  "keeps_answers s (t\<lparr>vs_waiting := w\<rparr>) = keeps_answers s t" "keeps_answers s (note_that n t) = keeps_answers s t"
  "keeps_answers s (t\<lparr>vs_recovering := b\<rparr>) = keeps_answers s t" "keeps_answers s (t\<lparr>vs_accepting := b\<rparr>) = keeps_answers s t"
  "keeps_answers (s\<lparr>vs_state := st\<rparr>) t = keeps_answers s t" "keeps_answers (s\<lparr>vs_waiting := w\<rparr>) t = keeps_answers s t"
  "keeps_answers (s\<lparr>vs_recovering := b\<rparr>) t = keeps_answers s t" "keeps_answers (s\<lparr>vs_accepting := b\<rparr>) t = keeps_answers s t"
  "keeps_answers (s\<lparr>vs_crashed := l\<rparr>) t = keeps_answers s t" "keeps_answers (note_that n s) t = keeps_answers s t"
  by (simp_all add: keeps_answers_def note_that_def)





section \<open>What a session answers\<close>

text \<open>The chunk machine as \<open>_open_session\<close> makes it.\<close>

definition session_chunks :: "string \<Rightarrow> int \<Rightarrow> int option \<Rightarrow> 'a chunk_machine res" where
  "session_chunks episode horizon max_age = new_chunk_machine episode horizon max_age DISCARD HOLD False False 128"

lemma session_chunks_ok:
  assumes "session_chunks ep h age = Inr st"
  shows "chunk_inv st" and "in_order st"
  using assms new_chunk_inv [of ep h age HOLD False False 128 st]
  by (auto simp: session_chunks_def new_chunk_machine_def in_order_def split: if_splits)

lemma session_reached:
  assumes "session_chunks ep h age = Inr st" and "s = foldl vla_step (new_session_runtime st stateful) es"
  shows "vs_ok s" and "tracked s"
  unfolding assms(2) using session_chunks_ok [OF assms(1)]
  by (simp_all add: vla.inv_run vla_tracked.inv_run vs_ok_new tracked_new)

text \<open>A session with a client that sends observations, for the concrete instances.\<close>

definition demo_msg :: "int \<Rightarrow> int \<Rightarrow> msg" where
  "demo_msg seq ts = [(''observation_timestamp_ns'', VInt ts), (''sequence_id'', VInt seq)]"

definition demo_result :: "int \<Rightarrow> int \<Rightarrow> string \<Rightarrow> int action_chunk" where
  "demo_result seq ts ep = \<lparr>ch_actions = [1, 2], ch_valid_length = 2, ch_observation_timestamp_ns = ts,
     ch_sequence_id = seq, ch_episode_id = ep\<rparr>"

definition demo_chunks :: "nat \<Rightarrow> int chunk_machine" where
  "demo_chunks n = \<lparr>cm_episode_id = ''ep'', execute_horizon = 2, max_observation_age_ns = None,
     cm_remainder_policy = DISCARD, cm_disconnect_policy = HOLD, cm_stateful_policy = False, cm_terminal_history = n,
     cm_generation = 0, cm_latest_sequence = None, cm_latest_timestamp = None, cm_pending = None, cm_ready = None,
     cm_executing = None, cm_remainder = None, cm_disconnected = None, cm_records = [], cm_recoveries = []\<rparr>"

definition demo_job :: "nat \<Rightarrow> rat \<Rightarrow> int \<Rightarrow> int \<Rightarrow> job" where
  "demo_job i now seq ts = \<lparr>jb_request = \<lparr>rq_timestamp = ts, rq_timeout_s = None, rq_sequence_id = seq, rq_clock = None\<rparr>,
     jb_ticket = \<lparr>tk_generation = i + 1, tk_sequence_id = seq, tk_observation_timestamp_ns = ts, tk_received_at = now,
       tk_deadline_at = None\<rparr>, jb_id = i\<rparr>"

definition demo_run :: "bool \<Rightarrow> int vla_event list \<Rightarrow> int session_runtime" where
  "demo_run stateful es = foldl vla_step (new_session_runtime (demo_chunks 128) stateful) es"

text \<open>A second observation arrives while the first is predicted, and the first result is discarded.\<close>

definition demo_stream :: "int vla_event list" where
  "demo_stream = [Arrives 0 (demo_msg 0 10), Runner_begins, Arrives 1 (demo_msg 1 11),
     Backend_predicts 2 (Inr (demo_result 0 10 ''ep'')), Backend_resets None]"

lemma demo_session: "session_chunks ''ep'' 2 None = Inr (demo_chunks 128)"
  by (simp add: session_chunks_def new_chunk_machine_def demo_chunks_def)

text \<open>C9: Each request of a session has one answer, or was lost in a crash of the runner, or waits, or is
  being predicted; results are delivered in the order of the requests, and when no runner is active
  nothing waits.\<close>

theorem requests_answered_once:
  assumes "session_chunks ep h age = Inr st" and "s = foldl vla_step (new_session_runtime st stateful) es"
  shows "mset (map fst (vs_answers s)) + mset (vs_crashed s) + mset (waiting_list s @ predicting_list s) =
      mset [0..<vs_requests s] \<and>
    sorted_wrt (<) (chunk_ids s @ predicting_list s @ waiting_list s) \<and>
    (vs_runner s = None \<longrightarrow> waiting_list s = [])"
proof -
  note k = vs_okD [OF session_reached(1) [OF assms]]
  from core_facts(2,3) [OF k(1)] k(2) show ?thesis
    by (cases "vs_waiting s") (auto simp: accounts_def waiting_list_def)
qed

lemma requests_answered_once_witness:
  "mset (map fst (vs_answers (demo_run True demo_stream))) + {#1#} = mset [0..<2] \<and>
   chunk_ids (demo_run True demo_stream) = [] \<and> vs_runner (demo_run True demo_stream) = Some (Predicting (demo_job 1 1 1 11))"
proof -
  have "waiting_list (demo_run True demo_stream) @ predicting_list (demo_run True demo_stream) = [1]"
    "vs_crashed (demo_run True demo_stream) = []" "vs_requests (demo_run True demo_stream) = 2"
    "chunk_ids (demo_run True demo_stream) = []" "vs_runner (demo_run True demo_stream) = Some (Predicting (demo_job 1 1 1 11))"
    by code_simp+
  with requests_answered_once [OF demo_session refl, of True demo_stream] show ?thesis
    by (simp add: demo_run_def [symmetric] del: mset_map)
qed

lemma tainted_since: "tainted ns \<longleftrightarrow> (\<exists>k i. k < length ns \<and> ns ! k = Discarded i \<and> Reset_done \<notin> set (drop k ns))"
proof (induction ns rule: rev_induct)
  case (snoc n ns)
  show ?case
  proof (cases n)
    case (Discarded i)
    then have "\<exists>k j. k < length (ns @ [n]) \<and> (ns @ [n]) ! k = Discarded j \<and> Reset_done \<notin> set (drop k (ns @ [n]))"
      by (intro exI [of _ "length ns"] exI [of _ i]) simp
    with Discarded show ?thesis by simp
  qed (use snoc in \<open>auto simp: nth_append less_Suc_eq\<close>)
qed simp

lemma stateful_parts [simp]:
  "vs_stateful (crash j e s) = vs_stateful s" "vs_stateful (next_job s) = vs_stateful s"
  "vs_stateful (discard_result j x s) = vs_stateful s" "vs_stateful (predicted now j c s) = vs_stateful s"
  "vs_stateful (prediction_failed j e s) = vs_stateful s" "vs_stateful (timed_out j s) = vs_stateful s"
  "vs_stateful (wait_in_line j s) = vs_stateful s" "vs_stateful (raise_barrier ep why ctl s) = vs_stateful s"
proof -
  show c: "vs_stateful (crash j e s) = vs_stateful s" for j e and s :: "'a session_runtime"
    by (simp add: crash_def Let_def)
  show n: "vs_stateful (next_job s) = vs_stateful s" for s :: "'a session_runtime"
    by (simp add: next_job_def c Let_def split: option.split)
  show d: "vs_stateful (discard_result j x s) = vs_stateful s" for x and s :: "'a session_runtime"
    by (simp add: discard_result_def c n Let_def split: sum.split)
  show "vs_stateful (predicted now j c s) = vs_stateful s"
    by (simp add: predicted_def c n d split: sum.split prod.split)
  show "vs_stateful (prediction_failed j e s) = vs_stateful s"
    by (simp add: prediction_failed_def c n split: sum.split prod.split)
qed (simp_all add: timed_out_def wait_in_line_def raise_barrier_def Let_def split: sum.split prod.split)

lemma settle_overdue_stateful: "settle_overdue now j r s = (x, t) \<Longrightarrow> vs_stateful t = vs_stateful s"
  by (auto simp: settle_overdue_def split: sum.splits prod.splits)

lemma overdue_stateful [simp]: "vs_stateful (overdue_result now j r s) = vs_stateful s"
  using settle_overdue_stateful [of now j r s]
  by (auto simp: overdue_result_def split: prod.splits option.splits)

lemma step_stateful [simp]: "vs_stateful (vla_step s e) = vs_stateful s"
  by (cases e)
    (auto simp: submit_request_def Let_def prediction_result_def backend_was_reset_def reset_begin_def
      close_session_begin_def control_call_def control_end_def
      split: prod.split sum.split option.split phase.split control.split vla_error.split call_error.split py_error.split)

lemma run_stateful: "vs_stateful (foldl vla_step s es) = vs_stateful s"
  by (induction es arbitrary: s) simp_all

text \<open>C10: A stateful policy never predicts on a history with a discarded result in it: between a
  discarded result and the next prediction of the session the backend is reset.\<close>

theorem history_is_rewound:
  assumes "session_chunks ep h age = Inr st" and "s = foldl vla_step (new_session_runtime st True) es"
    and "k < n" and "n < length (vs_log s)" and "vs_log s ! k = Discarded i" and "vs_log s ! n = Predict_call j"
  shows "Reset_done \<in> set (take (n - k) (drop k (vs_log s)))"
proof -
  have st: "vs_stateful s" unfolding assms(2) run_stateful by (simp add: new_session_runtime_def)
  have "rewound (vs_log s)" using core_facts(7) [OF vs_okD(1) [OF session_reached(1) [OF assms(1,2)]] st] .
  then have "\<not> tainted (take n (vs_log s))" using assms(4,6) by (force simp: rewound_def)
  then have "Reset_done \<in> set (drop k (take n (vs_log s)))"
    using assms(3-5) unfolding tainted_since by auto
  then show ?thesis by (simp add: drop_take)
qed

lemma history_is_rewound_witness:
  "vs_log (demo_run True demo_stream) = [Predict_call 0, Discarded 0, Reset_call None, Reset_done, Predict_call 1] \<and>
   Reset_done \<in> set (take 3 (drop 1 (vs_log (demo_run True demo_stream))))"
proof -
  have l: "vs_log (demo_run True demo_stream) = [Predict_call 0, Discarded 0, Reset_call None, Reset_done, Predict_call 1]"
    by code_simp
  with history_is_rewound [OF demo_session refl, of 1 4 demo_stream 0 1] show ?thesis
    by (simp add: demo_run_def)
qed


section \<open>A result is an answer\<close>

text \<open>The record of generation \<open>g\<close> is there and too new for the history to drop it.\<close>

definition recent :: "nat \<Rightarrow> 'a chunk_machine \<Rightarrow> bool" where
  "recent g s \<longleftrightarrow> in_order s \<and> od_get (cm_records s) g \<noteq> None \<and> cm_generation s - g < cm_terminal_history s"



lemma recent_fields [simp]:
  "recent g (s\<lparr>cm_pending := a\<rparr>) = recent g s" "recent g (s\<lparr>cm_ready := b\<rparr>) = recent g s"
  "recent g (s\<lparr>cm_recoveries := z\<rparr>) = recent g s"
  by (simp_all add: recent_def)


















section \<open>RESET separates episodes\<close>

text \<open>After a barrier: the requests numbered below \<open>k\<close> came before it, \<open>g\<close> is the generation of the chunk
  machine at the barrier, and \<open>A\<close> the early requests that were answered with a chunk by then.\<close>

definition sealed_off :: "nat \<Rightarrow> nat \<Rightarrow> nat set \<Rightarrow> 'a session_runtime \<Rightarrow> bool" where
  "sealed_off k g A s \<longleftrightarrow> younger g (vs_state s) \<and> (\<forall>w. vs_waiting s = Some w \<longrightarrow> k \<le> jb_id w) \<and>
     k \<le> vs_requests s \<and> set (chunk_ids s) \<inter> {..<k} = A"

definition old_hand :: "nat \<Rightarrow> nat \<Rightarrow> 'a session_runtime \<Rightarrow> bool" where
  "old_hand k g s \<longleftrightarrow>
     (\<forall>j. vs_runner s = Some (Predicting j) \<and> jb_id j < k \<longrightarrow> gen_of j \<le> g \<and> \<not> vs_accepting s)"

definition sealed :: "nat \<Rightarrow> nat \<Rightarrow> nat set \<Rightarrow> 'a session_runtime \<Rightarrow> bool" where
  "sealed k g A s \<longleftrightarrow> sealed_off k g A s \<and> old_hand k g s"

lemma sealed_state: "sealed_off k g A s \<Longrightarrow> sealed_off k g A (s\<lparr>vs_state := chunk_step (vs_state s) e\<rparr>)"
  using young.inv_step [of g "vs_state s" e] by (simp add: sealed_off_def chunk_ids_def)

lemma sealed_fields [simp]:
  "sealed_off k g A (s\<lparr>vs_runner := p\<rparr>) = sealed_off k g A s" "sealed_off k g A (s\<lparr>vs_recovering := b\<rparr>) = sealed_off k g A s"
  "sealed_off k g A (s\<lparr>vs_accepting := b\<rparr>) = sealed_off k g A s" "sealed_off k g A (s\<lparr>vs_barrier := b\<rparr>) = sealed_off k g A s"
  "sealed_off k g A (s\<lparr>vs_control := c\<rparr>) = sealed_off k g A s" "sealed_off k g A (s\<lparr>vs_crashed := l\<rparr>) = sealed_off k g A s"
  "sealed_off k g A (note_that n s) = sealed_off k g A s"
  by (simp_all add: sealed_off_def) (simp_all add: chunk_ids_def)

lemma sealed_note_state [simp]:
  "sealed_off k g A ((note_that n s)\<lparr>vs_state := st\<rparr>) = sealed_off k g A (s\<lparr>vs_state := st\<rparr>)"
  by (simp add: sealed_off_def chunk_ids_def)

lemma sealed_fail [simp]: "sealed_off k g A (settle_job i (Failed e) s) = sealed_off k g A s"
  by (simp add: sealed_off_def chunk_ids_settle)

lemma sealed_fail_job [simp]: "sealed_off k g A (fail_job j e s) = sealed_off k g A s"
  by (simp add: fail_job_def)

lemma sealed_no_wait: "sealed_off k g A s \<Longrightarrow> sealed_off k g A (s\<lparr>vs_waiting := None\<rparr>)"
  by (simp add: sealed_off_def chunk_ids_def)

lemma sealed_fail_waiting: "sealed_off k g A s \<Longrightarrow> sealed_off k g A (fail_waiting e s)"
  by (simp add: sealed_off_def)

lemma old_hand_simps:
  "old_hand k g (s\<lparr>vs_runner := None\<rparr>)" "old_hand k g (s\<lparr>vs_runner := Some (Rewinding j)\<rparr>)"
  "old_hand k g (s\<lparr>vs_runner := Some (Recovering j)\<rparr>)" "old_hand k g (s\<lparr>vs_runner := Some (Overdue j)\<rparr>)"
  "old_hand k g (note_that n s) = old_hand k g s"
  by (simp_all add: old_hand_def)

lemma sealed_crash: "sealed_off k g A s \<Longrightarrow> sealed k g A (crash j e s)"
  by (simp add: sealed_def crash_def Let_def sealed_fail_waiting old_hand_simps)

lemma sealed_next: "sealed_off k g A s \<Longrightarrow> sealed k g A (next_job s)"
proof (cases "vs_waiting s")
  case (Some j)
  assume q: "sealed_off k g A s"
  then have o: "sealed_off k g A (s\<lparr>vs_waiting := None\<rparr>)" by (rule sealed_no_wait)
  have "k \<le> jb_id j" using q Some by (simp add: sealed_off_def)
  then have "old_hand k g (t\<lparr>vs_runner := Some (Predicting j)\<rparr>)" for t :: "'a session_runtime"
    by (simp add: old_hand_def)
  with o Some sealed_crash [OF o] sealed_state [OF o, of "Mark_Started (jb_ticket j)"] show ?thesis
    by (auto simp: next_job_def Let_def sealed_def old_hand_simps split: option.split)
qed (simp add: next_job_def sealed_def old_hand_simps)

lemma sealed_waits:
  "sealed_off k g A s \<Longrightarrow> sealed k g A (note_that n (s\<lparr>vs_runner := Some (Rewinding j)\<rparr>))"
  "sealed_off k g A s \<Longrightarrow> sealed k g A (note_that n (s\<lparr>vs_runner := Some (Recovering j)\<rparr>))"
  "sealed_off k g A s \<Longrightarrow> sealed k g A (s\<lparr>vs_runner := Some (Overdue j)\<rparr>)"
  by (simp_all add: sealed_def old_hand_simps)

lemma complete_ready_pending:
  assumes "uncompleted (tk_generation t) s" and "complete now t c clock s = (Inr C_READY, st')"
  shows "cm_pending s = Some t"
  using assms
  by (auto simp: complete_def Let_def uncompleted_def not_done_def find_record_def upd_record_def split: option.splits if_splits)

lemma sealed_predicted:
  assumes "sealed k g A s" and "tracked s" and "vs_runner s = Some (Predicting j)"
  shows "sealed k g A (predicted now j c s)"
proof -
  have o: "sealed_off k g A s" using assms(1) by (simp add: sealed_def)
  obtain x st' where e: "complete now (jb_ticket j) c (rq_clock (jb_request j)) (vs_state s) = (x, st')"
    by (cases "complete now (jb_ticket j) c (rq_clock (jb_request j)) (vs_state s)")
  have n: "sealed_off k g A (s\<lparr>vs_state := st'\<rparr>)"
    using sealed_state [OF o, of "Complete now (jb_ticket j) c (rq_clock (jb_request j))"] e by simp
  have d: "sealed k g A (discard_result j y t)" if "sealed_off k g A t" for y and t :: "'a session_runtime"
    using that by (simp add: discard_result_def Let_def sealed_crash sealed_next sealed_waits split: sum.split)
  show ?thesis
  proof (cases "x = Inr C_READY")
    case True
    have "cm_pending (vs_state s) = Some (jb_ticket j)"
      using complete_ready_pending [of "jb_ticket j" "vs_state s"] e True assms(2,3)
      by (auto simp: tracked_def hand_known_def gen_of_def)
    then have "jb_ticket j \<in> set (active_tickets (vs_state s))" by (simp add: active_tickets_def)
    then have "g < gen_of j" using o by (auto simp: sealed_off_def younger_def gen_of_def)
    then have "\<not> jb_id j < k" using assms(1,3) by (auto simp: sealed_def old_hand_def)
    with n have "sealed_off k g A (settle_job (jb_id j) (Answered c) (s\<lparr>vs_state := st'\<rparr>))"
      by (auto simp: sealed_off_def chunk_ids_def settle_job_def)
    with e True show ?thesis by (simp add: predicted_def sealed_next)
  next
    case False
    with e n d show ?thesis by (auto simp: predicted_def sealed_crash split: sum.split)
  qed
qed

lemma sealed_overdue:
  assumes "sealed_off k g A s"
  shows "sealed k g A (overdue_result now j r s)"
proof -
  obtain x s1 where e: "settle_overdue now j r s = (x, s1)" by (cases "settle_overdue now j r s")
  have "sealed_off k g A (s\<lparr>vs_state := st\<rparr>)"
    if "complete now (jb_ticket j) c (rq_clock (jb_request j)) (vs_state s) = (y, st)" for c y st
    using sealed_state [OF assms, of "Complete now (jb_ticket j) c (rq_clock (jb_request j))"] that by simp
  moreover have "sealed_off k g A (s\<lparr>vs_state := st\<rparr>)" if "reject (jb_ticket j) why (vs_state s) = (y, st)" for why y st
    using sealed_state [OF assms, of "Reject (jb_ticket j) why"] that by simp
  ultimately have "sealed_off k g A s1"
    using e by (auto simp: settle_overdue_def split: sum.splits prod.splits)
  with e show ?thesis
    by (simp add: overdue_result_def sealed_crash sealed_next sealed_waits split: option.split)
qed

lemma sealed_result:
  assumes "sealed k g A s" and "tracked s" and "vs_runner s = Some (Predicting j)"
  shows "sealed k g A (prediction_result now j r s)"
proof -
  have o: "sealed_off k g A s" using assms(1) by (simp add: sealed_def)
  have "sealed_off k g A (timed_out j s)" using o by (simp add: timed_out_def)
  then have "sealed k g A (overdue_result now j r (timed_out j s))" by (rule sealed_overdue)
  moreover have "sealed_off k g A (s\<lparr>vs_state := st\<rparr>)" if "reject (jb_ticket j) why (vs_state s) = (y, st)" for why y st
    using sealed_state [OF o, of "Reject (jb_ticket j) why"] that by simp
  then have "sealed k g A (prediction_failed j e s)" for e
    by (auto simp: prediction_failed_def sealed_crash sealed_next split: prod.split sum.split)
  ultimately show ?thesis using sealed_predicted [OF assms]
    by (auto simp: prediction_result_def split: sum.split vla_error.split call_error.split py_error.split)
qed

lemma sealed_backend_reset: "sealed k g A s \<Longrightarrow> sealed k g A (backend_was_reset r s)"
proof -
  assume q: "sealed k g A s"
  then have o: "sealed_off k g A s" by (simp add: sealed_def)
  have "sealed_off k g A (s\<lparr>vs_state := st\<rparr>)" if "reset None (vs_state s) = (y, st)" for y st
    using sealed_state [OF o, of "Reset None"] that by simp
  then show ?thesis using q o
    by (auto simp: backend_was_reset_def Let_def sealed_crash sealed_next
        split: option.split phase.split prod.split sum.split)
qed

lemma sealed_reply: "sealed_off k g A s \<Longrightarrow> sealed_off k g A (snd (reply_at_once c m s))"
  by (simp add: reply_at_once_def) (simp add: sealed_off_def chunk_ids_def)

lemma sealed_submit:
  assumes "sealed k g A s"
  shows "sealed k g A (snd (submit_request now m s))"
proof -
  have o: "sealed_off k g A s" and h: "old_hand k g s" using assms by (simp_all add: sealed_def)
  have st: "sealed_off k g A (s\<lparr>vs_state := st\<rparr>)" if "submit now a b c d (vs_state s) = (y, st)" for a b c d y st
    using sealed_state [OF o, of "Submit now a b c d"] that by simp
  have hs: "old_hand k g (s\<lparr>vs_state := st\<rparr>)" for st using h unfolding old_hand_def by simp blast
  have hr: "old_hand k g (snd (reply_at_once c m t))" if "old_hand k g t" for c m and t :: "'a session_runtime"
    using that unfolding old_hand_def by simp blast
  have line: "sealed k g A (wait_in_line \<lparr>jb_request = r, jb_ticket = t, jb_id = vs_requests s\<rparr>
      (s\<lparr>vs_state := st, vs_requests := Suc (vs_requests s)\<rparr>))"
    if e: "submit now a b c d (vs_state s) = (y, st)" for a b c d r t y st
  proof -
    have q: "sealed_off k g A (s\<lparr>vs_state := st, vs_requests := Suc (vs_requests s)\<rparr>)"
      using st [OF e] by (simp add: sealed_off_def chunk_ids_def)
    then have "k \<le> vs_requests s" using o by (simp add: sealed_off_def)
    with sealed_fail_waiting [OF q] h show ?thesis
      by (auto simp: wait_in_line_def Let_def sealed_def sealed_off_def old_hand_def chunk_ids_def split: option.split)
  qed
  from assms o st hs hr line show ?thesis
    by (auto simp: submit_request_def Let_def sealed_def sealed_reply split: prod.splits sum.splits option.splits)
qed

lemma sealed_barrier: "sealed k g A s \<Longrightarrow> sealed k g A (raise_barrier ep why c s)"
proof -
  assume q: "sealed k g A s"
  then have o: "sealed_off k g A s" by (simp add: sealed_def)
  have "sealed_off k g A (s\<lparr>vs_state := st\<rparr>)" if "reset ep (vs_state s) = (y, st)" for y st
    using sealed_state [OF o, of "Reset ep"] that by simp
  then have "sealed_off k g A (s\<lparr>vs_accepting := b, vs_barrier := d, vs_state := st\<rparr>)"
    if "reset ep (vs_state s) = (y, st)" for b d y st
    using that by (simp add: sealed_off_def chunk_ids_def)
  then show ?thesis using q
    by (auto simp: raise_barrier_def Let_def sealed_def old_hand_def intro!: sealed_fail_waiting split: prod.splits sum.splits)
qed


lemma sealed_control_end:
  assumes "sealed k g A s" and "vs_ok s"
  shows "sealed k g A (control_end r s)"
proof -
  have o: "sealed_off k g A s" using assms(1) by (simp add: sealed_def)
  have "sealed_off k g A (s\<lparr>vs_state := st\<rparr>)" if "reset ep (vs_state s) = (y, st)" for ep y st
    using sealed_state [OF o, of "Reset ep"] that by simp
  then have r: "sealed_off k g A ((note_that Reset_done (s\<lparr>vs_control := None\<rparr>))\<lparr>vs_state := st\<rparr>)"
    if "reset ep (vs_state s) = (y, st)" for ep y st
    using that by (simp add: sealed_off_def chunk_ids_def)
  have d: "sealed_off k g A (s\<lparr>vs_state := snd (disconnect (vs_state s))\<rparr>)"
    using sealed_state [OF o, of Disconnect] by simp
  have "old_hand k g (t :: 'a session_runtime)" if "at_backend (vs_control s)" "vs_runner t = vs_runner s" for t
    using vs_okD(4) [OF assms(2) that(1)] that(2) by (simp add: old_hand_def)
  with assms(1) o r d show ?thesis
    by (auto simp: control_end_def Let_def sealed_def split: option.splits control.splits prod.splits sum.splits)
qed

lemma sealed_step:
  assumes "sealed k g A s" and "vs_ok s" and "tracked s"
  shows "sealed k g A (vla_step s e)"
proof (cases e)
  case (Time_is_over)
  have "sealed_off k g A (timed_out j s)" for j using assms(1) by (simp add: timed_out_def sealed_def)
  then have "sealed k g A (timed_out j s)" for j by (simp add: sealed_def timed_out_def old_hand_simps)
  with assms(1) Time_is_over show ?thesis by (auto split: option.splits phase.splits)
next
  case (Backend_predicts now r)
  have "sealed k g A (overdue_result now j r s)" for j
    by (rule sealed_overdue) (use assms(1) in \<open>simp add: sealed_def\<close>)
  with assms sealed_result Backend_predicts show ?thesis by (auto split: option.splits phase.splits)
next
  case Control_calls
  have "sealed_off k g A s" using assms(1) by (simp add: sealed_def)
  with assms(1) Control_calls show ?thesis
    by (auto simp: control_call_def sealed_def old_hand_def split: option.splits control.splits)
next
  case Runner_begins
  have "sealed_off k g A s" using assms(1) by (simp add: sealed_def)
  with assms(1) Runner_begins show ?thesis by (simp add: sealed_next)
qed (use assms in \<open>auto simp: sealed_submit sealed_backend_reset reset_begin_def close_session_begin_def sealed_barrier
      sealed_control_end split: sum.splits\<close>)

lemma sealed_run:
  "sealed k g A s \<Longrightarrow> vs_ok s \<Longrightarrow> tracked s \<Longrightarrow> sealed k g A (foldl vla_step s es)"
  by (induction es arbitrary: s) (auto simp: sealed_step vs_ok_step tracked_vla_step)

lemma sealed_at_reset:
  assumes "vs_ok s" and "tracked s" and "ep \<noteq> Some []"
  shows "sealed (vs_requests s) (cm_generation (vs_state s)) (set (chunk_ids s)) (reset_begin ep s)"
proof -
  let ?st = "snd (reset ep (vs_state s))"
  have c: "chunk_inv (vs_state s)" by (rule core_facts(1) [OF vs_okD(1) [OF assms(1)]])
  note q = reset_quiescent [OF c assms(3)]
  have g: "cm_generation (vs_state s) \<le> cm_generation ?st" using cm.rank_step [OF c, of "Reset ep"] by simp
  have y: "younger (cm_generation (vs_state s)) ?st" by (rule quiescent_younger) (use q g in auto)
  have h: "gen_of j \<le> cm_generation (vs_state s)" if "vs_runner s = Some (Predicting j)" for j
    using assms(2) that
    by (force simp: tracked_def hand_known_def waiting_known_def inflight_def in_order_def dest: map_of_SomeD)
  have i: "set (chunk_ids s) \<subseteq> {..<vs_requests s}"
    using requests_bound [OF vs_okD(1) [OF assms(1)]] by (auto simp: chunk_ids_def)
  obtain st' where e: "reset ep (vs_state s) = (Inr (), st')" "?st = st'"
    using q by (cases "reset ep (vs_state s)") simp
  show ?thesis using y h i e
    by (auto simp: reset_begin_def raise_barrier_def Let_def sealed_def sealed_off_def old_hand_def)
qed

text \<open>C12: RESET is a barrier. Of the requests that came before it none is answered with a chunk after it,
  and when the session accepts requests again each of them has its answer or was lost in a crash of the
  runner.\<close>

theorem reset_separates_requests:
  assumes "session_chunks ep0 h age = Inr st" and "s = foldl vla_step (new_session_runtime st stateful) es"
    and "vs_control s = None" and "optional_string m ''episode_id'' = Inr ep"
    and "t = foldl vla_step (vla_step s (Reset_begins m)) es'"
  shows "set (chunk_ids t) \<inter> {..<vs_requests s} = set (chunk_ids s) \<and>
    (vs_accepting t \<longrightarrow> {..<vs_requests s} \<subseteq> set (map fst (vs_answers t)) \<union> set (vs_crashed t))"
proof -
  note ok = session_reached [OF assms(1,2)]
  let ?s1 = "vla_step s (Reset_begins m)"
  have "sealed (vs_requests s) (cm_generation (vs_state s)) (set (chunk_ids s)) ?s1"
    using sealed_at_reset [OF ok optional_string_nonempty [OF assms(4)]] assms(3,4) by simp
  then have q: "sealed (vs_requests s) (cm_generation (vs_state s)) (set (chunk_ids s)) t"
    unfolding assms(5) by (rule sealed_run) (rule vs_ok_step [OF ok(1)] tracked_vla_step [OF ok(2)])+
  have "vs_ok t" unfolding assms(5) by (rule vla.inv_run [OF vs_ok_step [OF ok(1)]])
  from arg_cong [where f = set_mset, OF core_facts(2) [OF vs_okD(1) [OF this], unfolded accounts_def]]
  have a: "set (map fst (vs_answers t)) \<union> set (vs_crashed t) \<union> (set (waiting_list t) \<union> set (predicting_list t)) = {0..<vs_requests t}"
    by simp
  have w: "set (waiting_list t) \<inter> {..<vs_requests s} = {}"
    using q by (cases "vs_waiting t") (auto simp: sealed_def sealed_off_def waiting_list_def)
  have p: "set (predicting_list t) \<inter> {..<vs_requests s} = {}" if "vs_accepting t"
    using q that by (auto simp: sealed_def old_hand_def predicting_list_def split: option.splits phase.splits)
  have k: "vs_requests s \<le> vs_requests t" "set (chunk_ids t) \<inter> {..<vs_requests s} = set (chunk_ids s)"
    using q by (simp_all add: sealed_def sealed_off_def)
  have "{..<vs_requests s} \<subseteq> {0..<vs_requests t}" using k(1) by auto
  with a w p k(2) show ?thesis by blast
qed

definition demo_reset :: "int session_runtime" where
  "demo_reset = foldl vla_step (vla_step (demo_run True [Arrives 0 (demo_msg 0 10), Runner_begins]) (Reset_begins []))
     [Backend_predicts 1 (Inr (demo_result 0 10 ''ep'')), Control_calls, Control_ends None]"

lemma reset_separates_requests_witness:
  "set (chunk_ids demo_reset) \<inter> {..<1} = {} \<and> {..<1} \<subseteq> set (map fst (vs_answers demo_reset)) \<and>
   vs_accepting demo_reset"
proof -
  let ?s = "demo_run True [Arrives 0 (demo_msg 0 10), Runner_begins]"
  have c: "vs_control ?s = None" "optional_string [] ''episode_id'' = Inr None" "vs_requests ?s = 1"
    "chunk_ids ?s = []" "vs_accepting demo_reset" "vs_crashed demo_reset = []"
    by code_simp+
  from reset_separates_requests [OF demo_session demo_run_def c(1,2) demo_reset_def] c(3-6) show ?thesis by simp
qed

section \<open>Requests that are lost\<close>

text \<open>A result that does not belong to its request ends the runner: the request never gets an answer, and
  the session accepts nothing until a RESET.\<close>

lemma foreign_result_loses_request:
  "vs_crashed (demo_run False [Arrives 0 (demo_msg 0 10), Runner_begins, Backend_predicts 1 (Inr (demo_result 0 10 ''other''))]) = [0]"
  "vs_answers (demo_run False [Arrives 0 (demo_msg 0 10), Runner_begins, Backend_predicts 1 (Inr (demo_result 0 10 ''other''))]) = []"
  "\<not> vs_accepting (demo_run False [Arrives 0 (demo_msg 0 10), Runner_begins, Backend_predicts 1 (Inr (demo_result 0 10 ''other''))])"
  by code_simp+

text \<open>As many newer observations during one prediction as the history of the chunk machine keeps do the
  same, here with a history of two: the record of the superseded request is dropped when it
  completes, and reading its reason raises.\<close>

definition overrun_stream :: "int vla_event list" where
  "overrun_stream = [Arrives 0 (demo_msg 0 10), Runner_begins, Arrives 1 (demo_msg 1 11), Arrives 1 (demo_msg 2 12),
     Arrives 1 (demo_msg 3 13), Backend_predicts 2 (Inr (demo_result 0 10 ''ep''))]"

lemma overrun_loses_request:
  "vs_crashed (foldl vla_step (new_session_runtime (demo_chunks 2) False) overrun_stream) = [0]"
  "\<not> vs_accepting (foldl vla_step (new_session_runtime (demo_chunks 2) False) overrun_stream)"
  "map fst (vs_answers (foldl vla_step (new_session_runtime (demo_chunks 2) False) overrun_stream)) = [1, 2, 3]"
  by code_simp+

end
