(* ===== verification/VLA_Contracts.thy ===== *)
theory VLA_Contracts
  imports VLA_Messages
begin

text \<open>
  The semantic contracts of VLA components (\<open>telefuser/vla/contracts.py\<close>): observation and action
  spaces with the checks of their constructors, compatibility between two declared spaces, the
  validation of an observation, and the wire form of the spaces
  (\<open>telefuser/vla/serialization.py\<close>). A constructor takes the values that it is called with, of
  any type, and returns the space or the exception.
\<close>

section \<open>Checks on values\<close>

definition nonempty_str :: "pyval \<Rightarrow> bool" where
  "nonempty_str v = (case v of VStr s \<Rightarrow> s \<noteq> [] | _ \<Rightarrow> False)"

definition str_of :: "pyval \<Rightarrow> string" where
  "str_of v = (case v of VStr s \<Rightarrow> s | _ \<Rightarrow> [])"

definition invalid :: "string \<Rightarrow> 'a res" where
  "invalid m = Inl (ValueError m)"

lemma nonempty_simps [simp]:
  "nonempty_str (VStr s) \<longleftrightarrow> s \<noteq> []" "\<not> nonempty_str VNone" "str_of (VStr s) = s"
  by (simp_all add: nonempty_str_def str_of_def)

lemma nonempty_eq: "nonempty_str v \<longleftrightarrow> (\<exists>s. v = VStr s \<and> s \<noteq> [])"
  by (cases v) (auto simp: nonempty_str_def)

text \<open>A value that is not hashable cannot be looked up in a set.\<close>

definition hash_error :: "pyval \<Rightarrow> py_error option" where
  "hash_error v =
     (case v of
        VList xs \<Rightarrow> Some (TypeError (''unhashable type: '' @ quoted ''list''))
      | VDict d \<Rightarrow> Some (TypeError (''unhashable type: '' @ quoted ''dict''))
      | _ \<Rightarrow> None)"

text \<open>The number that a value compares as, if it does.\<close>

definition number_of_val :: "pyval \<Rightarrow> rat option" where
  "number_of_val v =
     (case v of
        VInt i \<Rightarrow> Some (of_int i)
      | VFloat r s \<Rightarrow> Some r
      | VBool b \<Rightarrow> Some (if b then 1 else 0)
      | _ \<Rightarrow> None)"

section \<open>Spaces\<close>

record image_spec =
  im_name :: string
  im_dtype :: string
  im_layout :: string
  im_channels :: int

definition make_image_spec :: "pyval \<Rightarrow> pyval \<Rightarrow> pyval \<Rightarrow> pyval \<Rightarrow> image_spec res" where
  "make_image_spec name dtype layout channels =
     (if \<not> nonempty_str name then invalid ''image observation name must be a non-empty string''
      else if \<not> nonempty_str dtype then invalid ''image observation dtype must be a non-empty string''
      else case hash_error layout of Some e \<Rightarrow> Inl e
      | None \<Rightarrow>
        if layout \<noteq> VStr ''HWC'' \<and> layout \<noteq> VStr ''CHW'' then invalid ''image observation layout must be HWC or CHW''
        else case channels of
          VInt n \<Rightarrow>
            if n < 1 then invalid ''image observation channels must be a positive integer''
            else Inr \<lparr>im_name = str_of name, im_dtype = str_of dtype, im_layout = str_of layout, im_channels = n\<rparr>
        | _ \<Rightarrow> invalid ''image observation channels must be a positive integer'')"

record observation_space =
  os_state_names :: "string list"
  os_images :: "image_spec list"
  os_allow_extra :: bool
  os_timestamp_unit :: string
  os_timestamp_clock :: string

definition make_observation_space ::
    "pyval list \<Rightarrow> image_spec list \<Rightarrow> pyval \<Rightarrow> pyval \<Rightarrow> pyval \<Rightarrow> observation_space res" where
  "make_observation_space names images extra tunit clock =
     (if names = [] then invalid ''state_dimension_names must be a non-empty tuple''
      else if \<not> list_all nonempty_str names then invalid ''state_dimension_names must contain non-empty strings''
      else if \<not> distinct (map str_of names) then invalid ''state_dimension_names must be unique''
      else if \<not> distinct (map im_name images) then invalid ''image observation names must be unique''
      else case extra of
        VBool b \<Rightarrow>
          if tunit \<noteq> VStr ''nanosecond'' then invalid ''timestamp_unit must be nanosecond''
          else if \<not> nonempty_str clock then invalid ''timestamp_clock must be a non-empty string''
          else Inr \<lparr>os_state_names = map str_of names, os_images = images, os_allow_extra = b,
                    os_timestamp_unit = ''nanosecond'', os_timestamp_clock = str_of clock\<rparr>
      | _ \<Rightarrow> invalid ''allow_extra_images must be a boolean'')"

text \<open>The control frequency is None, an int or a float.\<close>

record action_space =
  as_representation :: string
  as_dimensions :: "string list"
  as_units :: "string list"
  as_frame :: "string option"
  as_control_hz :: pyval
  as_normalized :: bool
  as_profile :: "string option"

definition bad_frequency :: "pyval \<Rightarrow> bool" where
  "bad_frequency hz =
     (case hz of
        VNone \<Rightarrow> False
      | VInt i \<Rightarrow> i \<le> 0
      | VFloat r s \<Rightarrow> r \<le> 0
      | _ \<Rightarrow> True)"

definition opt_str :: "pyval \<Rightarrow> string option" where
  "opt_str v = (case v of VStr s \<Rightarrow> Some s | _ \<Rightarrow> None)"

definition make_action_space ::
    "pyval \<Rightarrow> pyval list \<Rightarrow> pyval list \<Rightarrow> pyval \<Rightarrow> pyval \<Rightarrow> pyval \<Rightarrow> pyval \<Rightarrow> action_space res" where
  "make_action_space kind dims units frame hz normalized profile =
     (if \<not> nonempty_str kind then invalid ''action representation must be a non-empty string''
      else if dims = [] \<or> \<not> list_all nonempty_str dims then invalid ''dimension_names must contain non-empty strings''
      else if \<not> distinct (map str_of dims) then invalid ''dimension_names must be unique''
      else if length units \<noteq> length dims \<or> \<not> list_all nonempty_str units then
        invalid ''units must contain one non-empty value per action dimension''
      else if frame \<noteq> VNone \<and> \<not> nonempty_str frame then invalid ''frame must be None or a non-empty string''
      else if bad_frequency hz then invalid ''control_hz must be None or a positive finite number''
      else case normalized of
        VBool b \<Rightarrow>
          if b \<and> \<not> nonempty_str profile then invalid ''normalized action spaces require a normalization_profile''
          else if \<not> b \<and> profile \<noteq> VNone then invalid ''unnormalized action spaces cannot declare a normalization_profile''
          else Inr \<lparr>as_representation = str_of kind, as_dimensions = map str_of dims,
                    as_units = map str_of units, as_frame = opt_str frame, as_control_hz = hz,
                    as_normalized = b, as_profile = opt_str profile\<rparr>
      | _ \<Rightarrow> invalid ''normalized must be a boolean'')"

definition action_width :: "action_space \<Rightarrow> nat" where
  "action_width a = length (as_dimensions a)"

section \<open>Compatibility\<close>

definition mismatch :: "string \<Rightarrow> string list \<Rightarrow> unit res" where
  "mismatch context names =
     (if names = [] then Inr ()
      else invalid (context @ '' mismatch in fields: '' @ py_repr (VList (map VStr names))))"

definition named_if :: "bool \<Rightarrow> string \<Rightarrow> string list" where
  "named_if b name = (if b then [name] else [])"

text \<open>Images are compared by name, in any order; the names of a space are distinct.\<close>

definition images_by_name :: "observation_space \<Rightarrow> string \<Rightarrow> image_spec option" where
  "images_by_name o' = map_of (rev (map (\<lambda>i. (im_name i, i)) (os_images o')))"

definition same_images :: "observation_space \<Rightarrow> observation_space \<Rightarrow> bool" where
  "same_images x y \<longleftrightarrow> set (map im_name (os_images x)) = set (map im_name (os_images y)) \<and>
     (\<forall>n \<in> set (map im_name (os_images x)). images_by_name x n = images_by_name y n)"

definition observation_mismatches :: "observation_space \<Rightarrow> observation_space \<Rightarrow> string list" where
  "observation_mismatches x y =
     named_if (os_state_names x \<noteq> os_state_names y) ''state_dimension_names''
     @ named_if (\<not> same_images x y) ''images''
     @ named_if (os_allow_extra x \<noteq> os_allow_extra y) ''allow_extra_images''
     @ named_if (os_timestamp_unit x \<noteq> os_timestamp_unit y) ''timestamp_unit''
     @ named_if (os_timestamp_clock x \<noteq> os_timestamp_clock y) ''timestamp_clock''"

definition require_same_observations :: "string \<Rightarrow> observation_space \<Rightarrow> observation_space \<Rightarrow> unit res" where
  "require_same_observations context x y = mismatch context (observation_mismatches x y)"

text \<open>A frequency that one side leaves open matches any.\<close>

definition action_mismatches :: "action_space \<Rightarrow> action_space \<Rightarrow> string list" where
  "action_mismatches x y =
     named_if (as_representation x \<noteq> as_representation y) ''representation''
     @ named_if (as_dimensions x \<noteq> as_dimensions y) ''dimension_names''
     @ named_if (as_units x \<noteq> as_units y) ''units''
     @ named_if (as_frame x \<noteq> as_frame y) ''frame''
     @ named_if (as_normalized x \<noteq> as_normalized y) ''normalized''
     @ named_if (as_profile x \<noteq> as_profile y) ''normalization_profile''
     @ named_if (as_control_hz x \<noteq> VNone \<and> as_control_hz y \<noteq> VNone \<and>
                 number_of_val (as_control_hz x) \<noteq> number_of_val (as_control_hz y)) ''control_hz''"

definition require_compatible :: "string \<Rightarrow> action_space \<Rightarrow> action_space \<Rightarrow> unit res" where
  "require_compatible context x y = mismatch context (action_mismatches x y)"

section \<open>Observations\<close>

text \<open>A camera image: the shape and the type of a tensor-like value, or a value that is none.\<close>

datatype camera_image = Tensor_Like "nat list" string | Not_Tensor

record 'v robot_state =
  rs_values :: "'v list"
  rs_names :: "string list"
  rs_timestamp_ns :: int

definition make_robot_state :: "'v list \<Rightarrow> pyval list \<Rightarrow> pyval \<Rightarrow> 'v robot_state res" where
  "make_robot_state vals names ts =
     (if \<not> list_all nonempty_str names then invalid ''robot state dimension_names must be a tuple of non-empty strings''
      else if length vals \<noteq> length names then
        invalid ''robot state values must be one-dimensional and match dimension_names''
      else if \<not> distinct (map str_of names) then invalid ''robot state dimension_names must be unique''
      else case ts of
        VInt t \<Rightarrow>
          if t < 0 then invalid ''robot state timestamp_ns must be a non-negative integer''
          else Inr \<lparr>rs_values = vals, rs_names = map str_of names, rs_timestamp_ns = t\<rparr>
      | _ \<Rightarrow> invalid ''robot state timestamp_ns must be a non-negative integer'')"

record 'v robot_observation =
  ro_state :: "'v robot_state"
  ro_images :: "(string, camera_image) odict"

definition str_list_repr :: "string list \<Rightarrow> string" where
  "str_list_repr xs = py_repr (VList (map VStr xs))"

definition strip_torch :: "string \<Rightarrow> string" where
  "strip_torch s = (if take 6 s = ''torch.'' then drop 6 s else s)"

definition image_error :: "image_spec \<Rightarrow> camera_image \<Rightarrow> py_error option" where
  "image_error i img =
     (let what = ''robot observation image '' @ quoted (im_name i) in
      case img of
        Not_Tensor \<Rightarrow> Some (TypeError (what @ '' must be tensor-like''))
      | Tensor_Like shape dtype \<Rightarrow>
          if length shape \<noteq> 3 then Some (ValueError (what @ '' must be rank 3''))
          else if int (shape ! (if im_layout i = ''HWC'' then 2 else 0)) \<noteq> im_channels i then
            Some (ValueError (what @ '' must have '' @ str_of_int (im_channels i) @ '' channels in '' @ im_layout i @ '' layout''))
          else if strip_torch dtype \<noteq> im_dtype i then
            Some (ValueError (what @ '' dtype must be '' @ im_dtype i @ '', got '' @ strip_torch dtype))
          else None)"

fun first_image_error :: "(string, camera_image) odict \<Rightarrow> image_spec list \<Rightarrow> py_error option" where
  "first_image_error images [] = None"
| "first_image_error images (i # is) =
     (case od_get images (im_name i) of
        None \<Rightarrow> Some (KeyError (im_name i))
      | Some img \<Rightarrow>
          (case image_error i img of Some e \<Rightarrow> Some e | None \<Rightarrow> first_image_error images is))"

definition validate_observation :: "observation_space \<Rightarrow> 'v robot_observation \<Rightarrow> unit res" where
  "validate_observation sp ob =
     (if rs_names (ro_state ob) \<noteq> os_state_names sp then
        invalid ''robot observation space mismatch in state_dimension_names''
      else
        let expected = map im_name (os_images sp);
            actual = od_keys (ro_images ob);
            missing = sort (filter (\<lambda>n. n \<notin> set actual) expected);
            surplus = sort (filter (\<lambda>n. n \<notin> set expected) actual)
        in if missing \<noteq> [] then invalid (''robot observation space is missing images: '' @ str_list_repr missing)
           else if \<not> os_allow_extra sp \<and> surplus \<noteq> [] then
             invalid (''robot observation space has unexpected images: '' @ str_list_repr surplus)
           else case first_image_error (ro_images ob) (os_images sp) of
             Some e \<Rightarrow> Inl e
           | None \<Rightarrow> Inr ())"

section \<open>The wire form of the spaces\<close>

definition opt_val :: "string option \<Rightarrow> pyval" where
  "opt_val x = (case x of None \<Rightarrow> VNone | Some s \<Rightarrow> VStr s)"

definition action_space_to_wire :: "action_space \<Rightarrow> (string \<times> pyval) list" where
  "action_space_to_wire a =
     [(''schema'', VStr ''telefuser.vla.action_space''), (''schema_version'', VInt 1),
      (''representation'', VStr (as_representation a)), (''dimension_names'', str_list (as_dimensions a)),
      (''units'', str_list (as_units a)), (''frame'', opt_val (as_frame a)), (''control_hz'', as_control_hz a),
      (''normalized'', VBool (as_normalized a)), (''normalization_profile'', opt_val (as_profile a))]"

text \<open>True and 1.0 are equal to the version 1.\<close>

definition require_schema :: "(string \<times> pyval) list \<Rightarrow> string \<Rightarrow> unit res" where
  "require_schema p expected =
     (if dget p ''schema'' \<noteq> VStr expected then invalid (''expected schema '' @ quoted expected)
      else if number_of_val (dget p ''schema_version'') \<noteq> Some 1 then
        invalid (''unsupported VLA schema version: '' @ py_repr (dget p ''schema_version''))
      else Inr ())"

text \<open>A missing key or a TypeError of the constructor.\<close>

definition as_payload_error :: "string \<Rightarrow> 'a res \<Rightarrow> 'a res" where
  "as_payload_error what r =
     (case r of
        Inl (KeyError m) \<Rightarrow> invalid (''invalid '' @ what @ '' payload'')
      | Inl (TypeError m) \<Rightarrow> invalid (''invalid '' @ what @ '' payload'')
      | _ \<Rightarrow> r)"

definition required_key :: "(string \<times> pyval) list \<Rightarrow> string \<Rightarrow> pyval res" where
  "required_key p k = (case od_get p k of None \<Rightarrow> Inl (KeyError k) | Some v \<Rightarrow> Inr v)"

definition get_or :: "(string \<times> pyval) list \<Rightarrow> string \<Rightarrow> pyval \<Rightarrow> pyval" where
  "get_or p k v = (case od_get p k of None \<Rightarrow> v | Some x \<Rightarrow> x)"

definition action_space_from_wire :: "(string \<times> pyval) list \<Rightarrow> action_space res" where
  "action_space_from_wire p =
     bind_res (require_schema p ''telefuser.vla.action_space'') (\<lambda>_.
       case (dget p ''dimension_names'', dget p ''units'') of
         (VList dims, VList units) \<Rightarrow>
           as_payload_error ''VLA action-space''
             (bind_res (required_key p ''representation'') (\<lambda>kind.
              bind_res (required_key p ''normalized'') (\<lambda>normalized.
              make_action_space kind dims units (dget p ''frame'') (dget p ''control_hz'') normalized
                (dget p ''normalization_profile''))))
       | _ \<Rightarrow> invalid ''VLA action-space dimension_names and units must be arrays'')"

definition image_to_wire :: "image_spec \<Rightarrow> pyval" where
  "image_to_wire i =
     VDict [(''name'', VStr (im_name i)), (''dtype'', VStr (im_dtype i)), (''layout'', VStr (im_layout i)),
            (''channels'', VInt (im_channels i))]"

definition observation_space_to_wire :: "observation_space \<Rightarrow> (string \<times> pyval) list" where
  "observation_space_to_wire x =
     [(''schema'', VStr ''telefuser.vla.observation_space''), (''schema_version'', VInt 1),
      (''state_dimension_names'', str_list (os_state_names x)),
      (''images'', VList (map image_to_wire (os_images x))), (''allow_extra_images'', VBool (os_allow_extra x)),
      (''timestamp_unit'', VStr (os_timestamp_unit x)), (''timestamp_clock'', VStr (os_timestamp_clock x))]"

definition is_dict :: "pyval \<Rightarrow> bool" where
  "is_dict v = (case v of VDict d \<Rightarrow> True | _ \<Rightarrow> False)"

definition image_from_wire :: "pyval \<Rightarrow> image_spec res" where
  "image_from_wire v =
     (case v of
        VDict d \<Rightarrow>
          bind_res (required_key d ''name'') (\<lambda>name.
            make_image_spec name (get_or d ''dtype'' (VStr ''uint8'')) (get_or d ''layout'' (VStr ''HWC''))
              (get_or d ''channels'' (VInt 3)))
      | _ \<Rightarrow> Inl (TypeError (type_name v)))"

fun images_from_wire :: "pyval list \<Rightarrow> image_spec list res" where
  "images_from_wire [] = Inr []"
| "images_from_wire (v # vs) =
     bind_res (image_from_wire v) (\<lambda>i. bind_res (images_from_wire vs) (\<lambda>is. Inr (i # is)))"

definition observation_space_from_wire :: "(string \<times> pyval) list \<Rightarrow> observation_space res" where
  "observation_space_from_wire p =
     bind_res (require_schema p ''telefuser.vla.observation_space'') (\<lambda>_.
       case (dget p ''state_dimension_names'', dget p ''images'') of
         (VList names, VList images) \<Rightarrow>
           if \<not> list_all is_dict images then invalid ''VLA observation-space images must contain objects''
           else
             as_payload_error ''VLA observation-space''
               (bind_res (images_from_wire images) (\<lambda>is.
                make_observation_space names is (get_or p ''allow_extra_images'' (VBool True))
                  (get_or p ''timestamp_unit'' (VStr ''nanosecond''))
                  (get_or p ''timestamp_clock'' (VStr ''observation_source_monotonic''))))
       | _ \<Rightarrow> invalid ''VLA observation-space state_dimension_names and images must be arrays'')"

section \<open>Reading back what was written\<close>

lemma list_all_nonempty_str [simp]: "list_all nonempty_str (map VStr xs) \<longleftrightarrow> list_all (\<lambda>s. s \<noteq> []) xs"
  by (induction xs) simp_all

lemma map_str_of [simp]: "map str_of (map VStr xs) = xs"
  by (induction xs) simp_all

lemma strs_again: "list_all nonempty_str vs \<Longrightarrow> map VStr (map str_of vs) = vs"
  by (induction vs) (auto simp: nonempty_eq)

lemma opt_str_val [simp]: "opt_str (opt_val x) = x"
  by (cases x) (simp_all add: opt_str_def opt_val_def)

lemma opt_val_str: "v = VNone \<or> nonempty_str v \<Longrightarrow> opt_val (opt_str v) = v"
  by (auto simp: opt_val_def opt_str_def nonempty_eq)

text \<open>A space that a constructor made, written as the arguments that make it again.\<close>

lemma action_space_again:
  assumes "make_action_space kind dims units frame hz normalized profile = Inr a"
  shows "make_action_space (VStr (as_representation a)) (map VStr (as_dimensions a)) (map VStr (as_units a))
    (opt_val (as_frame a)) (as_control_hz a) (VBool (as_normalized a)) (opt_val (as_profile a)) = Inr a"
proof -
  have f: "opt_val (opt_str frame) = frame" "opt_val (opt_str profile) = profile" "VStr (str_of kind) = kind"
    "map VStr (map str_of dims) = dims" "map VStr (map str_of units) = units" "VBool (as_normalized a) = normalized"
    using assms by (auto simp: make_action_space_def invalid_def nonempty_eq intro!: opt_val_str
        simp: strs_again [simplified] split: if_splits pyval.splits)
  have a: "a = \<lparr>as_representation = str_of kind, as_dimensions = map str_of dims, as_units = map str_of units,
      as_frame = opt_str frame, as_control_hz = hz, as_normalized = as_normalized a, as_profile = opt_str profile\<rparr>"
    using assms by (auto simp: make_action_space_def invalid_def split: if_splits pyval.splits)
  then have "as_representation a = str_of kind" "as_dimensions a = map str_of dims" "as_units a = map str_of units"
    "as_frame a = opt_str frame" "as_control_hz a = hz" "as_profile a = opt_str profile"
    by (metis action_space.select_convs)+
  with f assms show ?thesis by (simp only:)
qed

lemma observation_space_again:
  assumes "make_observation_space names images extra tunit clock = Inr x"
  shows "make_observation_space (map VStr (os_state_names x)) (os_images x) (VBool (os_allow_extra x))
    (VStr (os_timestamp_unit x)) (VStr (os_timestamp_clock x)) = Inr x"
  using assms by (auto simp: make_observation_space_def invalid_def strs_again nonempty_eq
      simp del: map_map list_all_nonempty_str split: if_splits pyval.splits)

lemma image_again:
  "make_image_spec name dtype layout channels = Inr i \<Longrightarrow> image_from_wire (image_to_wire i) = Inr i"
  by (auto simp: make_image_spec_def invalid_def image_from_wire_def image_to_wire_def required_key_def get_or_def
      hash_error_def nonempty_eq split: if_splits pyval.splits option.splits)

lemma images_again:
  "\<forall>i \<in> set images. image_from_wire (image_to_wire i) = Inr i \<Longrightarrow> images_from_wire (map image_to_wire images) = Inr images"
  by (induction images) simp_all


lemma wire_gets [simp]:
  "dget (action_space_to_wire a) ''schema'' = VStr ''telefuser.vla.action_space''"
  "dget (action_space_to_wire a) ''schema_version'' = VInt 1"
  "dget (action_space_to_wire a) ''dimension_names'' = str_list (as_dimensions a)"
  "dget (action_space_to_wire a) ''units'' = str_list (as_units a)"
  "dget (action_space_to_wire a) ''frame'' = opt_val (as_frame a)"
  "dget (action_space_to_wire a) ''control_hz'' = as_control_hz a"
  "dget (action_space_to_wire a) ''normalization_profile'' = opt_val (as_profile a)"
  "required_key (action_space_to_wire a) ''representation'' = Inr (VStr (as_representation a))"
  "required_key (action_space_to_wire a) ''normalized'' = Inr (VBool (as_normalized a))"
  by (simp_all add: dget_def action_space_to_wire_def required_key_def)

lemma observation_gets [simp]:
  "dget (observation_space_to_wire x) ''schema'' = VStr ''telefuser.vla.observation_space''"
  "dget (observation_space_to_wire x) ''schema_version'' = VInt 1"
  "dget (observation_space_to_wire x) ''state_dimension_names'' = str_list (os_state_names x)"
  "dget (observation_space_to_wire x) ''images'' = VList (map image_to_wire (os_images x))"
  "get_or (observation_space_to_wire x) ''allow_extra_images'' v = VBool (os_allow_extra x)"
  "get_or (observation_space_to_wire x) ''timestamp_unit'' v = VStr (os_timestamp_unit x)"
  "get_or (observation_space_to_wire x) ''timestamp_clock'' v = VStr (os_timestamp_clock x)"
  by (simp_all add: dget_def observation_space_to_wire_def get_or_def)

lemma all_dicts [simp]: "list_all is_dict (map image_to_wire is)"
  by (induction "is") (simp_all add: is_dict_def image_to_wire_def)

text \<open>C16: A space that was declared and sent is read back as it was: the wire form of every action space and
  of every observation space that the constructors accept is accepted, and gives the same space.\<close>

theorem spaces_round_trip:
  assumes "make_action_space kind dims units frame hz normalized profile = Inr a"
    and "make_observation_space names images extra tunit clock = Inr x"
    and "\<And>i. i \<in> set images \<Longrightarrow> \<exists>n d l c. make_image_spec n d l c = Inr i"
  shows "action_space_from_wire (action_space_to_wire a) = Inr a \<and>
    observation_space_from_wire (observation_space_to_wire x) = Inr x"
proof
  show "action_space_from_wire (action_space_to_wire a) = Inr a"
    using action_space_again [OF assms(1)]
    by (simp add: action_space_from_wire_def require_schema_def number_of_val_def str_list_def as_payload_error_def)
  have i: "os_images x = images" using assms(2)
    by (auto simp: make_observation_space_def invalid_def split: if_splits pyval.splits)
  have "\<forall>i \<in> set images. image_from_wire (image_to_wire i) = Inr i"
    using assms(3) image_again by blast
  then have "images_from_wire (map image_to_wire (os_images x)) = Inr (os_images x)"
    unfolding i by (rule images_again)
  then show "observation_space_from_wire (observation_space_to_wire x) = Inr x"
    using observation_space_again [OF assms(2)]
    by (simp add: observation_space_from_wire_def require_schema_def number_of_val_def str_list_def as_payload_error_def)
qed

definition demo_camera :: image_spec where
  "demo_camera = \<lparr>im_name = ''cam'', im_dtype = ''uint8'', im_layout = ''HWC'', im_channels = 3\<rparr>"

definition demo_space :: action_space where
  "demo_space = \<lparr>as_representation = ''joint'', as_dimensions = [''a'', ''b''], as_units = [''rad'', ''rad''],
     as_frame = None, as_control_hz = VInt 30, as_normalized = False, as_profile = None\<rparr>"

definition demo_observations :: observation_space where
  "demo_observations = \<lparr>os_state_names = [''a'', ''b''], os_images = [demo_camera], os_allow_extra = True,
     os_timestamp_unit = ''nanosecond'', os_timestamp_clock = ''c''\<rparr>"

lemma demo_made:
  "make_image_spec (VStr ''cam'') (VStr ''uint8'') (VStr ''HWC'') (VInt 3) = Inr demo_camera"
  "make_action_space (VStr ''joint'') [VStr ''a'', VStr ''b''] [VStr ''rad'', VStr ''rad''] VNone (VInt 30) (VBool False) VNone
     = Inr demo_space"
  "make_observation_space [VStr ''a'', VStr ''b''] [demo_camera] (VBool True) (VStr ''nanosecond'') (VStr ''c'')
     = Inr demo_observations"
  by (simp_all add: make_image_spec_def hash_error_def demo_camera_def make_action_space_def bad_frequency_def opt_str_def
      demo_space_def make_observation_space_def demo_observations_def)

lemma spaces_round_trip_witness:
  "action_space_from_wire (action_space_to_wire demo_space) = Inr demo_space \<and>
   observation_space_from_wire (observation_space_to_wire demo_observations) = Inr demo_observations"
  by (rule spaces_round_trip [OF demo_made(2,3)]) (use demo_made(1) in auto)

end
