(* ===== verification/VLA_Local.thy ===== *)
theory VLA_Local
  imports VLA_Contracts VLA_Answers
begin

text \<open>
  VLA sessions inside a process: the registry of loaded components
  (\<open>telefuser/vla/registry.py\<close>), the preparation of chunks and the safety policies
  (\<open>vla/runtime/executor.py\<close>, \<open>safety.py\<close>), the session that binds a policy to an embodiment and
  the manager of the sessions (\<open>vla/session.py\<close>), and their dispatcher in a replica
  (\<open>service/vla_replica.py\<close>). What a policy and an embodiment return is an argument of the
  operation that calls them. An element of a tensor is a floating point value with exact
  finite part; a tensor of two dimensions is the list of its rows.
\<close>

section \<open>Tensor elements\<close>

datatype fval = Fin rat | PosInf | NegInf | NaN

definition finite_val :: "fval \<Rightarrow> bool" where
  "finite_val v = (case v of Fin r \<Rightarrow> True | _ \<Rightarrow> False)"

text \<open>A comparison with NaN is false.\<close>

fun less_val :: "fval \<Rightarrow> fval \<Rightarrow> bool" where
  "less_val (Fin a) (Fin b) = (a < b)"
| "less_val NegInf (Fin b) = True"
| "less_val NegInf PosInf = True"
| "less_val (Fin a) PosInf = True"
| "less_val _ _ = False"

text \<open>\<open>|a - b|\<close> of finite values.\<close>

definition distance :: "fval \<Rightarrow> fval \<Rightarrow> fval" where
  "distance a b = (case (a, b) of (Fin x, Fin y) \<Rightarrow> Fin (abs (x - y)) | _ \<Rightarrow> NaN)"

definition any_pair :: "('a \<Rightarrow> 'b \<Rightarrow> bool) \<Rightarrow> 'a list \<Rightarrow> 'b list \<Rightarrow> bool" where
  "any_pair P xs ys = list_ex (\<lambda>(x, y). P x y) (zip xs ys)"

definition check :: "bool \<Rightarrow> string \<Rightarrow> unit res" where
  "check b m = (if b then Inr () else Inl (ValueError m))"

lemma check_simps [simp]: "check b m = Inr u \<longleftrightarrow> b" "check True m = Inr ()"
  by (simp_all add: check_def)

section \<open>Chunks with their action space\<close>

type_synonym row = "fval list"

record robot_chunk =
  rc_chunk :: "row action_chunk"
  rc_space :: action_space

text \<open>The checks of the constructor, on a tensor of two dimensions with at least one row or none; the message
  about the width is given without its numbers.\<close>

definition make_chunk ::
    "row list \<Rightarrow> action_space \<Rightarrow> int \<Rightarrow> int \<Rightarrow> int \<Rightarrow> string \<Rightarrow> robot_chunk res" where
  "make_chunk rows sp valid ts seq ep =
     bind_res (check (list_all (\<lambda>r. length r = action_width sp) rows) ''actions width must match the action space dimension'') (\<lambda>_.
     bind_res (check (1 \<le> valid \<and> valid \<le> int (length rows)) ''valid_length must be within the action tensor horizon'') (\<lambda>_.
     bind_res (check (0 \<le> ts) ''observation_timestamp_ns must be a non-negative integer'') (\<lambda>_.
     bind_res (check (0 \<le> seq) ''sequence_id must be a non-negative integer'') (\<lambda>_.
     bind_res (check (ep \<noteq> []) ''episode_id must be a non-empty string'') (\<lambda>_.
     Inr \<lparr>rc_chunk = \<lparr>ch_actions = rows, ch_valid_length = nat valid, ch_observation_timestamp_ns = ts,
                     ch_sequence_id = seq, ch_episode_id = ep\<rparr>,
          rc_space = sp\<rparr>)))))"

abbreviation rc_episode :: "robot_chunk \<Rightarrow> string" where
  "rc_episode c \<equiv> ch_episode_id (rc_chunk c)"

abbreviation rc_sequence :: "robot_chunk \<Rightarrow> int" where
  "rc_sequence c \<equiv> ch_sequence_id (rc_chunk c)"

abbreviation rc_timestamp :: "robot_chunk \<Rightarrow> int" where
  "rc_timestamp c \<equiv> ch_observation_timestamp_ns (rc_chunk c)"

abbreviation rc_valid :: "robot_chunk \<Rightarrow> nat" where
  "rc_valid c \<equiv> ch_valid_length (rc_chunk c)"

section \<open>Safety policies\<close>

datatype safety_policy = Finite_Safety | Bounded_Safety "fval list" "fval list" "fval list option"

definition valid_rows :: "robot_chunk \<Rightarrow> row list" where
  "valid_rows c = take (rc_valid c) (ch_actions (rc_chunk c))"

definition finite_safety :: "robot_chunk \<Rightarrow> fval robot_state \<Rightarrow> unit res" where
  "finite_safety c st =
     bind_res (check (list_all finite_val (rs_values st)) ''robot state must contain only finite values'') (\<lambda>_.
     check (list_all (list_all finite_val) (valid_rows c)) ''robot actions must contain only finite values'')"

definition delta_safety :: "nat \<Rightarrow> robot_chunk \<Rightarrow> fval robot_state \<Rightarrow> fval list option \<Rightarrow> unit res" where
  "delta_safety d c st delta =
     (case delta of None \<Rightarrow> Inr ()
      | Some m \<Rightarrow>
          bind_res (check (length m = d) ''max_initial_delta must match the robot action dimension'') (\<lambda>_.
          bind_res (check (length (rs_values st) = d) ''robot state dimension must match action delta safety checks'') (\<lambda>_.
          check (\<not> any_pair (\<lambda>x y. less_val y x) (map2 distance (hd (valid_rows c)) (rs_values st)) m)
            ''first robot action exceeds configured state delta limits'')))"

definition safety_check :: "safety_policy \<Rightarrow> robot_chunk \<Rightarrow> fval robot_state \<Rightarrow> unit res" where
  "safety_check p c st =
     bind_res (finite_safety c st) (\<lambda>_.
       case p of
         Finite_Safety \<Rightarrow> Inr ()
       | Bounded_Safety lower upper delta \<Rightarrow>
           let d = action_width (rc_space c) in
           bind_res (check (length lower = d \<and> length upper = d) ''safety bounds must match the robot action dimension'') (\<lambda>_.
           bind_res (check (\<not> any_pair (\<lambda>l u. less_val u l) lower upper) ''safety lower bounds must not exceed upper bounds'') (\<lambda>_.
           bind_res (check (\<not> list_ex (\<lambda>r. any_pair less_val r lower \<or> any_pair (\<lambda>x u. less_val u x) r upper) (valid_rows c))
              ''robot actions exceed configured safety bounds'') (\<lambda>_.
           delta_safety d c st delta))))"

section \<open>The executor\<close>

record chunk_executor =
  ce_space :: action_space
  ce_horizon :: "int option"
  ce_safety :: safety_policy
  ce_max_age :: "int option"

definition make_executor :: "action_space \<Rightarrow> int option \<Rightarrow> safety_policy option \<Rightarrow> int option \<Rightarrow> chunk_executor res" where
  "make_executor sp horizon safety age =
     bind_res (check (case horizon of None \<Rightarrow> True | Some h \<Rightarrow> h \<ge> 1) ''execute_horizon must be positive'') (\<lambda>_.
     bind_res (check (case age of None \<Rightarrow> True | Some a \<Rightarrow> a \<ge> 1) ''max_observation_age_ns must be positive'') (\<lambda>_.
     Inr \<lparr>ce_space = sp, ce_horizon = horizon, ce_safety = (case safety of None \<Rightarrow> Finite_Safety | Some p \<Rightarrow> p),
          ce_max_age = age\<rparr>))"

definition age_check :: "int option \<Rightarrow> int option \<Rightarrow> int \<Rightarrow> unit res" where
  "age_check max_age now ts =
     (case max_age of None \<Rightarrow> Inr ()
      | Some age \<Rightarrow>
          (case now of None \<Rightarrow> Inl (ValueError ''now_ns is required when max_observation_age_ns is configured'')
           | Some n \<Rightarrow>
               bind_res (check (0 \<le> n) ''now_ns must be a non-negative integer'') (\<lambda>_.
               bind_res (check (ts \<le> n) ''now_ns cannot precede the observation timestamp'') (\<lambda>_.
               check (n - ts \<le> age) ''robot action chunk is stale''))))"

definition prepare_chunk :: "chunk_executor \<Rightarrow> int option \<Rightarrow> fval robot_state \<Rightarrow> robot_chunk \<Rightarrow> robot_chunk res" where
  "prepare_chunk ex now st c =
     bind_res (require_compatible ''robot action space'' (ce_space ex) (rc_space c)) (\<lambda>_.
     bind_res (age_check (ce_max_age ex) now (rc_timestamp c)) (\<lambda>_.
     let v = (case ce_horizon ex of None \<Rightarrow> int (rc_valid c) | Some h \<Rightarrow> min (int (rc_valid c)) h) in
     bind_res (make_chunk (take (nat v) (ch_actions (rc_chunk c))) (rc_space c) v (rc_timestamp c) (rc_sequence c) (rc_episode c)) (\<lambda>p.
     bind_res (safety_check (ce_safety ex) p st) (\<lambda>_. Inr p))))"

text \<open>\<open>iter_actions\<close>: the row, sequence id, step and episode of each action.\<close>

definition iter_actions :: "robot_chunk \<Rightarrow> (row \<times> int \<times> nat \<times> string) list" where
  "iter_actions c =
     map (\<lambda>i. (ch_actions (rc_chunk c) ! i, rc_sequence c, i, rc_episode c)) [0..<rc_valid c]"

section \<open>Components\<close>

record capabilities =
  vc_model_id :: string
  vc_space :: action_space
  vc_max_horizon :: int
  vc_stateful :: bool
  vc_supports_seed :: bool

definition make_capabilities :: "string \<Rightarrow> action_space \<Rightarrow> int \<Rightarrow> bool \<Rightarrow> bool \<Rightarrow> capabilities res" where
  "make_capabilities mid sp horizon stateful seed =
     bind_res (check (mid \<noteq> []) ''model_id must be a non-empty string'') (\<lambda>_.
     bind_res (check (1 \<le> horizon) ''max_horizon must be positive'') (\<lambda>_.
     Inr \<lparr>vc_model_id = mid, vc_space = sp, vc_max_horizon = horizon, vc_stateful = stateful, vc_supports_seed = seed\<rparr>))"

record embodiment =
  em_id :: string
  em_observations :: observation_space
  em_model_space :: action_space
  em_robot_space :: action_space

record registry =
  rg_policies :: "(string, capabilities) odict"
  rg_embodiments :: "(string, embodiment) odict"

definition register_component :: "(string, 'c) odict \<Rightarrow> string \<Rightarrow> 'c \<Rightarrow> bool \<Rightarrow> (string, 'c) odict res" where
  "register_component d cid c replace =
     (if cid = [] then Inl (ValueError ''component ID must be a non-empty string'')
      else if od_get d cid \<noteq> None \<and> \<not> replace then
        Inl (ValueError (''VLA component is already registered: '' @ quoted cid))
      else Inr (od_put cid c d))"

definition register_policy :: "string \<Rightarrow> capabilities \<Rightarrow> bool \<Rightarrow> registry \<Rightarrow> registry res" where
  "register_policy mid p replace r =
     bind_res (check (vc_model_id p = mid) ''registered model_id must match policy capabilities'') (\<lambda>_.
     bind_res (register_component (rg_policies r) mid p replace) (\<lambda>d. Inr (r\<lparr>rg_policies := d\<rparr>)))"

definition register_embodiment :: "string \<Rightarrow> embodiment \<Rightarrow> bool \<Rightarrow> registry \<Rightarrow> registry res" where
  "register_embodiment eid e replace r =
     bind_res (check (em_id e = eid) ''registered embodiment_id must match the adapter'') (\<lambda>_.
     bind_res (register_component (rg_embodiments r) eid e replace) (\<lambda>d. Inr (r\<lparr>rg_embodiments := d\<rparr>)))"

definition get_policy :: "registry \<Rightarrow> string \<Rightarrow> capabilities res" where
  "get_policy r mid =
     (case od_get (rg_policies r) mid of
        None \<Rightarrow> Inl (KeyError (''unknown VLA model_id: '' @ quoted mid)) | Some p \<Rightarrow> Inr p)"

definition get_embodiment :: "registry \<Rightarrow> string \<Rightarrow> embodiment res" where
  "get_embodiment r eid =
     (case od_get (rg_embodiments r) eid of
        None \<Rightarrow> Inl (KeyError (''unknown VLA embodiment_id: '' @ quoted eid)) | Some e \<Rightarrow> Inr e)"

definition model_ids :: "registry \<Rightarrow> string list" where
  "model_ids r = sort (od_keys (rg_policies r))"

definition embodiment_ids :: "registry \<Rightarrow> string list" where
  "embodiment_ids r = sort (od_keys (rg_embodiments r))"

section \<open>Sessions\<close>

record session_contract =
  sc_session_id :: string
  sc_episode_id :: string
  sc_model_id :: string
  sc_embodiment_id :: string

record local_session =
  ls_contract :: session_contract
  ls_policy :: capabilities
  ls_embodiment :: embodiment
  ls_executor :: chunk_executor
  ls_last :: "int option"

record vla_request =
  vr_instruction :: string
  vr_episode_id :: string
  vr_sequence_id :: int
  vr_timestamp_ns :: int
  vr_seed :: "int option"

definition make_request :: "string \<Rightarrow> string \<Rightarrow> int \<Rightarrow> int \<Rightarrow> int option \<Rightarrow> vla_request res" where
  "make_request instruction ep seq ts seed =
     bind_res (check (py_strip instruction \<noteq> []) ''instruction must be a non-empty string'') (\<lambda>_.
     bind_res (check (ep \<noteq> []) ''episode_id must be a non-empty string'') (\<lambda>_.
     bind_res (check (0 \<le> seq) ''sequence_id must be a non-negative integer'') (\<lambda>_.
     bind_res (check (0 \<le> ts) ''observation_timestamp_ns must be a non-negative integer'') (\<lambda>_.
     Inr \<lparr>vr_instruction = instruction, vr_episode_id = ep, vr_sequence_id = seq, vr_timestamp_ns = ts, vr_seed = seed\<rparr>))))"

text \<open>What a component returns: a chunk of the class it must return, or something else.\<close>

datatype returned = A_Chunk robot_chunk | Another_Value

definition chunk_returned :: "string \<Rightarrow> returned res \<Rightarrow> robot_chunk res" where
  "chunk_returned m r =
     bind_res r (\<lambda>v. case v of A_Chunk c \<Rightarrow> Inr c | Another_Value \<Rightarrow> Inl (TypeError m))"

definition check_model_chunk :: "capabilities \<Rightarrow> vla_request \<Rightarrow> robot_chunk \<Rightarrow> unit res" where
  "check_model_chunk caps rq c =
     bind_res (require_compatible ''policy output action space'' (vc_space caps) (rc_space c)) (\<lambda>_.
     bind_res (check (int (rc_valid c) \<le> vc_max_horizon caps) ''policy output exceeds its declared maximum horizon'') (\<lambda>_.
     bind_res (check (rc_episode c = vr_episode_id rq) ''policy output episode_id does not match the request'') (\<lambda>_.
     bind_res (check (rc_sequence c = vr_sequence_id rq) ''policy output sequence_id does not match the request'') (\<lambda>_.
     check (rc_timestamp c = vr_timestamp_ns rq) ''policy output observation timestamp does not match the request''))))"

definition check_robot_chunk :: "robot_chunk \<Rightarrow> robot_chunk \<Rightarrow> unit res" where
  "check_robot_chunk mc rc =
     bind_res (check (rc_episode rc = rc_episode mc) ''embodiment output episode_id does not match the model chunk'') (\<lambda>_.
     bind_res (check (rc_sequence rc = rc_sequence mc) ''embodiment output sequence_id does not match the model chunk'') (\<lambda>_.
     check (rc_timestamp rc = rc_timestamp mc) ''embodiment output observation timestamp does not match the model chunk''))"

text \<open>The arguments are the outcomes of \<open>encode_observation\<close>, of the policy and of \<open>decode_actions\<close>.\<close>

definition predict_chunk ::
    "fval robot_observation \<Rightarrow> string \<Rightarrow> int \<Rightarrow> int option \<Rightarrow> int option \<Rightarrow> unit res \<Rightarrow> (vla_request \<Rightarrow> returned res)
     \<Rightarrow> (robot_chunk \<Rightarrow> returned res) \<Rightarrow> local_session \<Rightarrow> robot_chunk res" where
  "predict_chunk ob instruction seq seed now encoded policy decode s =
     bind_res (check (0 \<le> seq) ''sequence_id must be a non-negative integer'') (\<lambda>_.
     bind_res (case ls_last s of None \<Rightarrow> Inr ()
               | Some l \<Rightarrow> check (l < seq) (''sequence_id must increase within a session: got '' @ str_of_int seq
                     @ '', last accepted '' @ str_of_int l)) (\<lambda>_.
     bind_res (check (seed = None \<or> vc_supports_seed (ls_policy s))
                 (''VLA policy '' @ quoted (vc_model_id (ls_policy s)) @ '' does not support seeded inference'')) (\<lambda>_.
     bind_res (validate_observation (em_observations (ls_embodiment s)) ob) (\<lambda>_.
     bind_res encoded (\<lambda>_.
     bind_res (make_request instruction (sc_episode_id (ls_contract s)) seq (rs_timestamp_ns (ro_state ob)) seed) (\<lambda>rq.
     bind_res (chunk_returned ''VLA policy must return ModelActionChunk'' (policy rq)) (\<lambda>mc.
     bind_res (check_model_chunk (ls_policy s) rq mc) (\<lambda>_.
     bind_res (chunk_returned ''embodiment adapter must return RobotActionChunk'' (decode mc)) (\<lambda>rc.
     bind_res (check_robot_chunk mc rc) (\<lambda>_.
     prepare_chunk (ls_executor s) now (ro_state ob) rc))))))))))"

definition predict ::
    "fval robot_observation \<Rightarrow> string \<Rightarrow> int \<Rightarrow> int option \<Rightarrow> int option \<Rightarrow> unit res \<Rightarrow> (vla_request \<Rightarrow> returned res)
     \<Rightarrow> (robot_chunk \<Rightarrow> returned res) \<Rightarrow> local_session \<Rightarrow> robot_chunk res \<times> local_session" where
  "predict ob instruction seq seed now encoded policy decode s =
     (case predict_chunk ob instruction seq seed now encoded policy decode s of
        Inl e \<Rightarrow> (Inl e, s)
      | Inr c \<Rightarrow> (Inr c, s\<lparr>ls_last := Some seq\<rparr>))"

text \<open>The first argument is the outcome of the reset of the policy.\<close>

definition reset_local :: "unit res \<Rightarrow> string option \<Rightarrow> local_session \<Rightarrow> unit res \<times> local_session" where
  "reset_local policy_reset ep s =
     (case policy_reset of
        Inl e \<Rightarrow> (Inl e, s)
      | Inr _ \<Rightarrow>
          (case ep of
             None \<Rightarrow> (Inr (), s\<lparr>ls_last := None\<rparr>)
           | Some x \<Rightarrow>
               if x = [] then (Inl (ValueError ''episode_id must be a non-empty string''), s)
               else (Inr (), s\<lparr>ls_contract := (ls_contract s)\<lparr>sc_episode_id := x\<rparr>, ls_last := None\<rparr>)))"

definition close_local :: "unit res \<Rightarrow> local_session \<Rightarrow> unit res \<times> local_session" where
  "close_local policy_reset s =
     (case policy_reset of Inl e \<Rightarrow> (Inl e, s) | Inr _ \<Rightarrow> (Inr (), s\<lparr>ls_last := None\<rparr>))"

section \<open>The manager\<close>

record session_manager =
  mg_registry :: registry
  mg_sessions :: "(string, local_session) odict"

definition open_local ::
    "string \<Rightarrow> string \<Rightarrow> string \<Rightarrow> string \<Rightarrow> int option \<Rightarrow> safety_policy option \<Rightarrow> int option \<Rightarrow> session_manager
     \<Rightarrow> local_session res \<times> session_manager" where
  "open_local sid mid eid ep horizon safety age m =
     (let made =
        bind_res (check (sid \<noteq> []) ''session_id must be a non-empty string'') (\<lambda>_.
        bind_res (check (ep \<noteq> []) ''episode_id must be a non-empty string'') (\<lambda>_.
        bind_res (check (od_get (mg_sessions m) sid = None) (''VLA session is already open: '' @ quoted sid)) (\<lambda>_.
        bind_res (get_policy (mg_registry m) mid) (\<lambda>p.
        bind_res (get_embodiment (mg_registry m) eid) (\<lambda>e.
        bind_res (require_compatible ''policy and embodiment action space'' (em_model_space e) (vc_space p)) (\<lambda>_.
        bind_res (make_executor (em_robot_space e) horizon safety age) (\<lambda>ex.
        Inr \<lparr>ls_contract = \<lparr>sc_session_id = sid, sc_episode_id = ep, sc_model_id = mid, sc_embodiment_id = eid\<rparr>,
             ls_policy = p, ls_embodiment = e, ls_executor = ex, ls_last = None\<rparr>)))))))
      in case made of
           Inl err \<Rightarrow> (Inl err, m)
         | Inr s \<Rightarrow> (Inr s, m\<lparr>mg_sessions := od_put sid s (mg_sessions m)\<rparr>))"

definition unknown_vla_session :: "string \<Rightarrow> py_error" where
  "unknown_vla_session sid = KeyError (''unknown VLA session_id: '' @ quoted sid)"

definition get_local :: "string \<Rightarrow> session_manager \<Rightarrow> local_session res" where
  "get_local sid m = (case od_get (mg_sessions m) sid of None \<Rightarrow> Inl (unknown_vla_session sid) | Some s \<Rightarrow> Inr s)"

text \<open>An operation on one session, whose state is shared with the table.\<close>

definition on_session ::
    "string \<Rightarrow> (local_session \<Rightarrow> 'r res \<times> local_session) \<Rightarrow> session_manager \<Rightarrow> 'r res \<times> session_manager" where
  "on_session sid f m =
     (case get_local sid m of
        Inl e \<Rightarrow> (Inl e, m)
      | Inr s \<Rightarrow> (case f s of (r, t) \<Rightarrow> (r, m\<lparr>mg_sessions := od_put sid t (mg_sessions m)\<rparr>)))"

definition reset_session :: "unit res \<Rightarrow> string \<Rightarrow> string option \<Rightarrow> session_manager \<Rightarrow> unit res \<times> session_manager" where
  "reset_session policy_reset sid ep m = on_session sid (reset_local policy_reset ep) m"

definition close_session_local :: "unit res \<Rightarrow> string \<Rightarrow> session_manager \<Rightarrow> unit res \<times> session_manager" where
  "close_session_local policy_reset sid m =
     (case get_local sid m of
        Inl e \<Rightarrow> (Inl e, m)
      | Inr s \<Rightarrow> (fst (close_local policy_reset s), m\<lparr>mg_sessions := od_del sid (mg_sessions m)\<rparr>))"

definition session_ids :: "session_manager \<Rightarrow> string list" where
  "session_ids m = sort (od_keys (mg_sessions m))"

section \<open>The dispatcher of a replica\<close>

text \<open>The readers of a payload raise ValueError where those of a message raise a protocol error.\<close>

definition as_value_error :: "vla_error + 'a \<Rightarrow> 'a res" where
  "as_value_error r = (case r of Inl e \<Rightarrow> Inl (ValueError (vla_error_text e)) | Inr x \<Rightarrow> Inr x)"

definition optional_integer :: "msg \<Rightarrow> string \<Rightarrow> vla_error + int option" where
  "optional_integer m f =
     (case dget m f of
        VNone \<Rightarrow> Inr None
      | VInt i \<Rightarrow> Inr (Some i)
      | _ \<Rightarrow> Inl (invalid_message (f @ '' must be an integer'')))"

definition expected_actions :: "msg \<Rightarrow> action_space \<Rightarrow> unit res" where
  "expected_actions p sp =
     (case dget p ''expected_robot_action_space'' of
        VNone \<Rightarrow> Inr ()
      | VDict d \<Rightarrow>
          bind_res (action_space_from_wire d)
            (\<lambda>x. require_compatible ''client and embodiment robot action space'' x sp)
      | _ \<Rightarrow> Inl (ValueError ''expected_robot_action_space must be an object''))"

definition expected_observations :: "msg \<Rightarrow> observation_space \<Rightarrow> unit res" where
  "expected_observations p sp =
     (case dget p ''expected_robot_observation_space'' of
        VNone \<Rightarrow> Inr ()
      | VDict d \<Rightarrow>
          bind_res (observation_space_from_wire d)
            (\<lambda>x. require_same_observations ''client and embodiment robot observation space'' x sp)
      | _ \<Rightarrow> Inl (ValueError ''expected_robot_observation_space must be an object''))"

definition opened_response :: "string \<Rightarrow> string \<Rightarrow> string \<Rightarrow> capabilities \<Rightarrow> embodiment \<Rightarrow> msg" where
  "opened_response sid mid eid p e =
     [(''session_id'', VStr sid), (''model_id'', VStr mid), (''embodiment_id'', VStr eid),
      (''model_action_space'', VDict (action_space_to_wire (vc_space p))),
      (''robot_action_space'', VDict (action_space_to_wire (em_robot_space e))),
      (''robot_observation_space'', VDict (observation_space_to_wire (em_observations e))),
      (''max_horizon'', VInt (vc_max_horizon p)), (''stateful'', VBool (vc_stateful p)),
      (''supports_seed'', VBool (vc_supports_seed p))]"

definition replica_open :: "msg \<Rightarrow> session_manager \<Rightarrow> msg res \<times> session_manager" where
  "replica_open p m =
     (let parts =
        bind_res (as_value_error (required_string p ''session_id'')) (\<lambda>sid.
        bind_res (as_value_error (required_string p ''model_id'')) (\<lambda>mid.
        bind_res (as_value_error (required_string p ''embodiment_id'')) (\<lambda>eid.
        bind_res (get_policy (mg_registry m) mid) (\<lambda>pol.
        bind_res (get_embodiment (mg_registry m) eid) (\<lambda>e.
        bind_res (expected_actions p (em_robot_space e)) (\<lambda>_.
        bind_res (expected_observations p (em_observations e)) (\<lambda>_.
        bind_res (as_value_error (required_string p ''episode_id'')) (\<lambda>ep.
        bind_res (as_value_error (optional_positive p ''execute_horizon'')) (\<lambda>h.
        bind_res (as_value_error (optional_positive p ''max_observation_age_ns'')) (\<lambda>age.
        Inr (sid, mid, eid, pol, e, ep, h, age)))))))))))
      in case parts of
           Inl err \<Rightarrow> (Inl err, m)
         | Inr (sid, mid, eid, pol, e, ep, h, age) \<Rightarrow>
             (case open_local sid mid eid ep h None age m of
                (Inl err, m') \<Rightarrow> (Inl err, m')
              | (Inr _, m') \<Rightarrow> (Inr (opened_response sid mid eid pol e), m')))"

text \<open>What the components answer to one operation: the decoded observation, the encoding of it, the
  policy, the decoding of its actions, and the reset of the policy.\<close>

record outcomes =
  oc_observation :: "fval robot_observation res"
  oc_encoded :: "unit res"
  oc_policy :: "vla_request \<Rightarrow> returned res"
  oc_decode :: "robot_chunk \<Rightarrow> returned res"
  oc_reset :: "unit res"

text \<open>The timestamp of the message, instruction, sequence id, seed and clock, after the decoded observation.\<close>

definition tensor_limit_ok :: "msg \<Rightarrow> bool" where
  "tensor_limit_ok p =
     (case od_get p ''_max_tensor_bytes'' of
        None \<Rightarrow> True
      | Some (VInt n) \<Rightarrow> 1 \<le> n
      | _ \<Rightarrow> False)"

definition replica_predict :: "outcomes \<Rightarrow> string \<Rightarrow> msg \<Rightarrow> session_manager \<Rightarrow> robot_chunk res \<times> session_manager" where
  "replica_predict oc sid p m =
     (let parts =
        bind_res (check (is_dict (dget p ''observation'')) ''PREDICT requires an observation object'') (\<lambda>_.
        bind_res (check (tensor_limit_ok p) ''_max_tensor_bytes must be a positive integer'') (\<lambda>_.
        bind_res (oc_observation oc) (\<lambda>ob.
        bind_res (as_value_error (required_nonneg p ''observation_timestamp_ns'')) (\<lambda>ts.
        bind_res (check (ts = rs_timestamp_ns (ro_state ob))
                    ''PREDICT observation_timestamp_ns must match observation.state.timestamp_ns'') (\<lambda>_.
        bind_res (get_local sid m) (\<lambda>_.
        bind_res (as_value_error (required_string p ''instruction'')) (\<lambda>ins.
        bind_res (as_value_error (required_nonneg p ''sequence_id'')) (\<lambda>seq.
        bind_res (as_value_error (optional_integer p ''seed'')) (\<lambda>seed.
        bind_res (as_value_error (optional_nonneg p ''observation_clock_now_ns'')) (\<lambda>now.
        Inr (ob, ins, seq, seed, now)))))))))))
      in case parts of
           Inl err \<Rightarrow> (Inl err, m)
         | Inr (ob, ins, seq, seed, now) \<Rightarrow>
             on_session sid (predict ob ins seq seed now (oc_encoded oc) (oc_policy oc) (oc_decode oc)) m)"

text \<open>\<open>str.upper\<close>, on the letters of ASCII.\<close>

definition upper_char :: "char \<Rightarrow> char" where
  "upper_char c = (let n = of_char c :: nat in if 97 \<le> n \<and> n \<le> 122 then char_of (n - 32) else c)"

datatype replica_answer = Opened_Answer msg | Chunk_Answer string robot_chunk | Session_Answer string

definition map_ok :: "('a \<Rightarrow> 'b) \<Rightarrow> 'a res \<times> 's \<Rightarrow> 'b res \<times> 's" where
  "map_ok f p = (case p of (Inl e, s) \<Rightarrow> (Inl e, s) | (Inr x, s) \<Rightarrow> (Inr (f x), s))"

definition dispatch :: "outcomes \<Rightarrow> string \<Rightarrow> msg \<Rightarrow> session_manager \<Rightarrow> replica_answer res \<times> session_manager" where
  "dispatch oc operation p m =
     (let op = map upper_char operation in
      if op = ''OPEN'' then map_ok Opened_Answer (replica_open p m)
      else case as_value_error (required_string p ''session_id'') of
        Inl e \<Rightarrow> (Inl e, m)
      | Inr sid \<Rightarrow>
          if op = ''PREDICT'' then map_ok (Chunk_Answer sid) (replica_predict oc sid p m)
          else if op = ''RESET'' then
            (case as_value_error (optional_string p ''episode_id'') of
               Inl e \<Rightarrow> (Inl e, m)
             | Inr ep \<Rightarrow> map_ok (\<lambda>_. Session_Answer sid) (reset_session (oc_reset oc) sid ep m))
          else if op = ''CLOSE'' then map_ok (\<lambda>_. Session_Answer sid) (close_session_local (oc_reset oc) sid m)
          else (Inl (ValueError (''unsupported VLA replica operation: '' @ quoted op)), m))"

text \<open>Closing a replica releases its sessions in the order of their ids.\<close>

fun close_each :: "(string \<Rightarrow> unit res) \<Rightarrow> string list \<Rightarrow> session_manager \<Rightarrow> unit res \<times> session_manager" where
  "close_each reset_of [] m = (Inr (), m)"
| "close_each reset_of (sid # sids) m =
     (case close_session_local (reset_of sid) sid m of
        (Inl e, m') \<Rightarrow> (Inl e, m')
      | (Inr _, m') \<Rightarrow> close_each reset_of sids m')"

definition close_provider :: "(string \<Rightarrow> unit res) \<Rightarrow> session_manager \<Rightarrow> unit res \<times> session_manager" where
  "close_provider reset_of m = close_each reset_of (session_ids m) m"

section \<open>What a prediction guarantees\<close>

text \<open>The rows of a chunk as a safety policy wants them, given the state of the robot before the first one:
  finite values, each within its bounds, and the first row no further from the state than the limits.\<close>

definition row_within :: "fval list \<Rightarrow> fval list \<Rightarrow> row \<Rightarrow> bool" where
  "row_within lower upper r \<longleftrightarrow> length r = length lower \<and> length r = length upper \<and>
     (\<forall>i < length r. \<not> less_val (r ! i) (lower ! i) \<and> \<not> less_val (upper ! i) (r ! i))"

definition row_near :: "fval list \<Rightarrow> fval list \<Rightarrow> row \<Rightarrow> bool" where
  "row_near limits st r \<longleftrightarrow> length limits = length r \<and> length st = length r \<and>
     (\<forall>i < length r. \<not> less_val (limits ! i) (distance (r ! i) (st ! i)))"

definition rows_safe :: "safety_policy \<Rightarrow> fval list \<Rightarrow> row list \<Rightarrow> bool" where
  "rows_safe p st rows \<longleftrightarrow> list_all finite_val st \<and> list_all (list_all finite_val) rows \<and>
     (case p of
        Finite_Safety \<Rightarrow> True
      | Bounded_Safety lower upper delta \<Rightarrow>
          list_all (row_within lower upper) rows \<and> pred_option (\<lambda>limits. row_near limits st (hd rows)) delta)"

text \<open>How many rows of a decoded chunk are handed out.\<close>

definition cut_length :: "chunk_executor \<Rightarrow> nat \<Rightarrow> int" where
  "cut_length ex valid = (case ce_horizon ex of None \<Rightarrow> int valid | Some h \<Rightarrow> min (int valid) h)"

lemma any_pair_nth: "length xs = length ys \<Longrightarrow> any_pair P xs ys \<longleftrightarrow> (\<exists>i < length xs. P (xs ! i) (ys ! i))"
  by (auto simp: any_pair_def list_ex_iff set_zip)

lemma make_chunk_ok:
  assumes "make_chunk rows sp valid ts seq ep = Inr c"
  shows "rc_valid c = nat valid" "ch_actions (rc_chunk c) = rows" "rc_episode c = ep" "rc_sequence c = seq"
    "rc_timestamp c = ts" "rc_space c = sp" "1 \<le> valid" "valid \<le> int (length rows)"
    "list_all (\<lambda>r. length r = action_width sp) rows"
  using assms by (auto simp: make_chunk_def)

lemma rows_within_bounds:
  assumes "safety_check (Bounded_Safety lower upper delta) c st = Inr ()"
    and "list_all (\<lambda>r. length r = action_width (rc_space c)) (valid_rows c)"
  shows "list_all (row_within lower upper) (valid_rows c)"
  using assms
  by (fastforce simp: safety_check_def finite_safety_def Let_def list_all_iff list_ex_iff row_within_def any_pair_nth)

lemma first_row_near:
  assumes "delta_safety d c st (Some limits) = Inr ()" and "length (hd (valid_rows c)) = d"
  shows "row_near limits (rs_values st) (hd (valid_rows c))"
  using assms by (auto simp: delta_safety_def row_near_def any_pair_nth)

lemma safety_rows:
  assumes "safety_check p c st = Inr ()" and w: "list_all (\<lambda>r. length r = action_width (rc_space c)) (valid_rows c)"
    and "valid_rows c \<noteq> []"
  shows "rows_safe p (rs_values st) (valid_rows c)"
proof -
  have f: "list_all finite_val (rs_values st)" "list_all (list_all finite_val) (valid_rows c)"
    using assms(1) by (auto simp: safety_check_def finite_safety_def)
  show ?thesis
  proof (cases p)
    case Finite_Safety
    with f show ?thesis by (simp add: rows_safe_def)
  next
    case (Bounded_Safety lower upper delta)
    have "length (hd (valid_rows c)) = action_width (rc_space c)"
      using w assms(3) by (cases "valid_rows c") auto
    moreover have "delta_safety (action_width (rc_space c)) c st delta = Inr ()"
      using assms(1) Bounded_Safety by (auto simp: safety_check_def Let_def)
    ultimately have "pred_option (\<lambda>limits. row_near limits (rs_values st) (hd (valid_rows c))) delta"
      using first_row_near by (cases delta) auto
    with f rows_within_bounds [OF assms(1) [unfolded Bounded_Safety] w] Bounded_Safety
    show ?thesis by (simp add: rows_safe_def)
  qed
qed

lemma mismatch_none [simp]: "mismatch context ns = Inr u \<longleftrightarrow> ns = []"
  by (simp add: mismatch_def invalid_def)

lemma chunk_returned_ok: "chunk_returned m r = Inr c \<Longrightarrow> r = Inr (A_Chunk c)"
  by (cases r; cases "projr r") (auto simp: chunk_returned_def)

lemma age_checked:
  "age_check a now ts = Inr () \<Longrightarrow> pred_option (\<lambda>a. \<exists>n. now = Some n \<and> ts \<le> n \<and> n - ts \<le> a) a"
  by (auto simp: age_check_def split: option.splits)

lemma prepared:
  assumes "prepare_chunk ex now st c = Inr p"
  shows "rc_episode p = rc_episode c \<and> rc_sequence p = rc_sequence c \<and> rc_timestamp p = rc_timestamp c \<and>
    action_mismatches (ce_space ex) (rc_space p) = [] \<and> age_check (ce_max_age ex) now (rc_timestamp p) = Inr () \<and>
    ch_actions (rc_chunk p) = take (rc_valid p) (ch_actions (rc_chunk c)) \<and> 1 \<le> rc_valid p \<and>
    int (rc_valid p) = cut_length ex (rc_valid c) \<and> length (ch_actions (rc_chunk p)) = rc_valid p \<and>
    rows_safe (ce_safety ex) (rs_values st) (ch_actions (rc_chunk p))"
proof -
  define v where "v = (case ce_horizon ex of None \<Rightarrow> int (rc_valid c) | Some h \<Rightarrow> min (int (rc_valid c)) h)"
  have p: "make_chunk (take (nat v) (ch_actions (rc_chunk c))) (rc_space c) v (rc_timestamp c) (rc_sequence c) (rc_episode c) = Inr p"
    and s: "safety_check (ce_safety ex) p st = Inr ()" and m: "action_mismatches (ce_space ex) (rc_space c) = []"
    and a: "age_check (ce_max_age ex) now (rc_timestamp c) = Inr ()"
    using assms by (auto simp: prepare_chunk_def Let_def v_def [symmetric] require_compatible_def)
  note k = make_chunk_ok [OF p]
  have l: "length (ch_actions (rc_chunk p)) = rc_valid p" using k(1,2,7,8) by simp
  then have w: "valid_rows p = ch_actions (rc_chunk p)" by (simp add: valid_rows_def)
  have "valid_rows p \<noteq> []" using k(1,7) l w by auto
  then have "rows_safe (ce_safety ex) (rs_values st) (valid_rows p)"
    by (rule safety_rows [OF s, rotated]) (use k(2,6,9) w in simp)
  moreover have "int (rc_valid p) = cut_length ex (rc_valid c)"
    using k(1,7) by (simp add: v_def cut_length_def)
  ultimately show ?thesis using k m a l w by auto
qed

text \<open>C15: A chunk that a session hands out answers a newer request than every one before it since the last
  reset, and the session then refuses its sequence id. It carries the episode, the sequence id and the
  timestamp of its request, is expressed in the action space of the embodiment, and is no older than
  the executor allows. Its rows are the first ones of the chunk that the embodiment decoded from the
  chunk of the policy, which is no longer than the policy declares: all valid rows, or as many as the
  execution horizon where that is less. The state and all the rows are finite; under bounds every row
  lies within them, and under a limit on the first step the first row is no further from the state of
  the robot than it allows. A failed prediction leaves the session as it was.\<close>

theorem prediction_is_prepared:
  shows "case predict ob ins seq seed now enc pol dec s of
    (Inl e, t) \<Rightarrow> t = s
  | (Inr c, t) \<Rightarrow> 0 \<le> seq \<and> pred_option (\<lambda>l. l < seq) (ls_last s) \<and> t = s\<lparr>ls_last := Some seq\<rparr> \<and>
      rc_episode c = sc_episode_id (ls_contract s) \<and> rc_sequence c = seq \<and> rc_timestamp c = rs_timestamp_ns (ro_state ob) \<and>
      action_mismatches (ce_space (ls_executor s)) (rc_space c) = [] \<and>
      pred_option (\<lambda>a. \<exists>n. now = Some n \<and> rc_timestamp c \<le> n \<and> n - rc_timestamp c \<le> a) (ce_max_age (ls_executor s)) \<and>
      (\<exists>rq mc rc. make_request ins (sc_episode_id (ls_contract s)) seq (rs_timestamp_ns (ro_state ob)) seed = Inr rq \<and>
         pol rq = Inr (A_Chunk mc) \<and> dec mc = Inr (A_Chunk rc) \<and>
         int (rc_valid mc) \<le> vc_max_horizon (ls_policy s) \<and>
         int (rc_valid c) = cut_length (ls_executor s) (rc_valid rc) \<and>
         ch_actions (rc_chunk c) = take (rc_valid c) (ch_actions (rc_chunk rc))) \<and>
      length (ch_actions (rc_chunk c)) = rc_valid c \<and> 1 \<le> rc_valid c \<and>
      rows_safe (ce_safety (ls_executor s)) (rs_values (ro_state ob)) (ch_actions (rc_chunk c))"
proof (cases "predict_chunk ob ins seq seed now enc pol dec s")
  case (Inl e)
  then show ?thesis by (simp add: predict_def)
next
  case (Inr c)
  obtain rq mc rc where q: "0 \<le> seq" "make_request ins (sc_episode_id (ls_contract s)) seq (rs_timestamp_ns (ro_state ob)) seed = Inr rq"
    "chunk_returned ''VLA policy must return ModelActionChunk'' (pol rq) = Inr mc" "check_model_chunk (ls_policy s) rq mc = Inr ()"
    "chunk_returned ''embodiment adapter must return RobotActionChunk'' (dec mc) = Inr rc" "check_robot_chunk mc rc = Inr ()"
    "prepare_chunk (ls_executor s) now (ro_state ob) rc = Inr c"
    using Inr by (auto simp: predict_chunk_def)
  note d = prepared [OF q(7)]
  have l: "pred_option (\<lambda>l. l < seq) (ls_last s)"
    using Inr by (cases "ls_last s") (auto simp: predict_chunk_def)
  have p: "rc_episode c = sc_episode_id (ls_contract s)" "rc_sequence c = seq" "rc_timestamp c = rs_timestamp_ns (ro_state ob)"
    using d q(2,4,6) by (auto simp: make_request_def check_model_chunk_def check_robot_chunk_def)
  have "pol rq = Inr (A_Chunk mc)" "dec mc = Inr (A_Chunk rc)"
    using chunk_returned_ok [OF q(3)] chunk_returned_ok [OF q(5)] by auto
  moreover have "int (rc_valid mc) \<le> vc_max_horizon (ls_policy s)" using q(4) by (auto simp: check_model_chunk_def)
  ultimately have "\<exists>rq mc rc. make_request ins (sc_episode_id (ls_contract s)) seq (rs_timestamp_ns (ro_state ob)) seed = Inr rq \<and>
         pol rq = Inr (A_Chunk mc) \<and> dec mc = Inr (A_Chunk rc) \<and> int (rc_valid mc) \<le> vc_max_horizon (ls_policy s) \<and>
         int (rc_valid c) = cut_length (ls_executor s) (rc_valid rc) \<and>
         ch_actions (rc_chunk c) = take (rc_valid c) (ch_actions (rc_chunk rc))"
    using d q(2) by blast
  moreover have "pred_option (\<lambda>a. \<exists>n. now = Some n \<and> rc_timestamp c \<le> n \<and> n - rc_timestamp c \<le> a) (ce_max_age (ls_executor s))"
    by (rule age_checked) (use d in blast)
  ultimately show ?thesis
    unfolding predict_def Inr sum.case prod.case using l p q(1) d by (intro conjI) blast+
qed

end
