(* ===== verification/VLA_Connection.thy ===== *)
theory VLA_Connection
  imports VLA_Local Pipeline_Pool
begin

text \<open>
  A connection of the VLA WebSocket service (\<open>telefuser/service/vla_session.py\<close>): the two backends
  (\<open>_LocalVLABackend\<close> over the session manager, \<open>_PipelinePoolVLABackend\<close> over the replica pool),
  and the receiver of a connection with the sessions that it owns, their runtimes, the delivery tasks
  and the responses that were sent.
\<close>

section \<open>The backend of the local sessions\<close>

definition as_call :: "'a res \<Rightarrow> vla_error + 'a" where
  "as_call r = (case r of Inl e \<Rightarrow> Inl (Call (Plain e)) | Inr x \<Rightarrow> Inr x)"

definition bind_vla :: "vla_error + 'a \<Rightarrow> ('a \<Rightarrow> vla_error + 'b) \<Rightarrow> vla_error + 'b" where
  "bind_vla r f = (case r of Inl e \<Rightarrow> Inl e | Inr x \<Rightarrow> f x)"

definition session_exists :: "string \<Rightarrow> vla_error" where
  "session_exists sid = Protocol SESSION_EXISTS (''VLA session is already open: '' @ quoted sid)"

definition as_component :: "'a res \<Rightarrow> vla_error + 'a" where
  "as_component r =
     (case r of
        Inl (KeyError m) \<Rightarrow> Inl (Protocol UNKNOWN_COMPONENT (error_text (KeyError m)))
      | Inl e \<Rightarrow> Inl (Call (Plain e))
      | Inr x \<Rightarrow> Inr x)"

definition validate_expected_action_space :: "msg \<Rightarrow> action_space \<Rightarrow> vla_error + unit" where
  "validate_expected_action_space p sp =
     (case dget p ''expected_robot_action_space'' of
        VNone \<Rightarrow> Inr ()
      | VDict d \<Rightarrow>
          as_call (bind_res (action_space_from_wire d)
            (\<lambda>x. require_compatible ''client and embodiment robot action space'' x sp))
      | _ \<Rightarrow> Inl (invalid_message ''expected_robot_action_space must be an object''))"

definition validate_expected_observation_space :: "msg \<Rightarrow> observation_space \<Rightarrow> vla_error + unit" where
  "validate_expected_observation_space p sp =
     (case dget p ''expected_robot_observation_space'' of
        VNone \<Rightarrow> Inr ()
      | VDict d \<Rightarrow>
          as_call (bind_res (observation_space_from_wire d)
            (\<lambda>x. require_same_observations ''client and embodiment robot observation space'' x sp))
      | _ \<Rightarrow> Inl (invalid_message ''expected_robot_observation_space must be an object''))"

definition local_open :: "msg \<Rightarrow> session_manager \<Rightarrow> (vla_error + msg) \<times> session_manager" where
  "local_open p m =
     (let parts =
        bind_vla (required_string p ''session_id'') (\<lambda>sid.
        bind_vla (if sid \<in> set (session_ids m) then Inl (session_exists sid) else Inr ()) (\<lambda>_.
        bind_vla (required_string p ''model_id'') (\<lambda>mid.
        bind_vla (required_string p ''embodiment_id'') (\<lambda>eid.
        bind_vla (as_component (get_policy (mg_registry m) mid)) (\<lambda>pol.
        bind_vla (as_component (get_embodiment (mg_registry m) eid)) (\<lambda>e.
        bind_vla (validate_expected_action_space p (em_robot_space e)) (\<lambda>_.
        bind_vla (validate_expected_observation_space p (em_observations e)) (\<lambda>_.
        bind_vla (required_string p ''episode_id'') (\<lambda>ep.
        bind_vla (optional_positive p ''execute_horizon'') (\<lambda>h.
        bind_vla (optional_positive p ''max_observation_age_ns'') (\<lambda>age.
        Inr (sid, mid, eid, pol, e, ep, h, age))))))))))))
      in case parts of
           Inl err \<Rightarrow> (Inl err, m)
         | Inr (sid, mid, eid, pol, e, ep, h, age) \<Rightarrow>
             (case open_local sid mid eid ep h None age m of
                (Inl err, m') \<Rightarrow> (Inl (Call (Plain err)), m')
              | (Inr _, m') \<Rightarrow> (Inr (opened_response sid mid eid pol e), m')))"

definition local_predict :: "outcomes \<Rightarrow> string \<Rightarrow> msg \<Rightarrow> session_manager \<Rightarrow> (vla_error + robot_chunk) \<times> session_manager" where
  "local_predict oc sid p m =
     (let parts =
        bind_vla (if is_dict (dget p ''observation'') then Inr ()
                  else Inl (invalid_message ''PREDICT requires an observation object'')) (\<lambda>_.
        bind_vla (as_call (oc_observation oc)) (\<lambda>ob.
        bind_vla (required_nonneg p ''observation_timestamp_ns'') (\<lambda>ts.
        bind_vla (if ts = rs_timestamp_ns (ro_state ob) then Inr ()
                  else Inl (invalid_message ''PREDICT observation_timestamp_ns must match observation.state.timestamp_ns'')) (\<lambda>_.
        bind_vla (as_call (get_local sid m)) (\<lambda>_.
        bind_vla (required_string p ''instruction'') (\<lambda>ins.
        bind_vla (required_nonneg p ''sequence_id'') (\<lambda>seq.
        bind_vla (optional_integer p ''seed'') (\<lambda>seed.
        bind_vla (optional_nonneg p ''observation_clock_now_ns'') (\<lambda>now.
        Inr (ob, ins, seq, seed, now))))))))))
      in case parts of
           Inl err \<Rightarrow> (Inl err, m)
         | Inr (ob, ins, seq, seed, now) \<Rightarrow>
             (case on_session sid (predict ob ins seq seed now (oc_encoded oc) (oc_policy oc) (oc_decode oc)) m of
                (r, m') \<Rightarrow> (as_call r, m')))"

section \<open>The backend of the replica pool\<close>

text \<open>\<open>open\<close> begins with the \<open>open_session\<close> of the pool. Any exception, that of \<open>open_session\<close> included,
  is followed by a \<open>close_session\<close> of the same id, whose KeyError is suppressed.\<close>

definition abandon_open :: "string \<Rightarrow> pool \<Rightarrow> pool" where
  "abandon_open sid p = snd (close_begin sid p)"

definition pool_open_begin :: "msg \<Rightarrow> pool \<Rightarrow> (vla_error + string) \<times> pool" where
  "pool_open_begin m p =
     (case required_string m ''session_id'' of
        Inl e \<Rightarrow> (Inl e, p)
      | Inr sid \<Rightarrow>
          (case open_begin sid p of
             (Inl e, q) \<Rightarrow> (Inl (Call (Plain e)), abandon_open sid q)
           | (Inr _, q) \<Rightarrow> (Inr sid, q)))"

definition pool_open_turn :: "(nat \<Rightarrow> bool) \<Rightarrow> bool \<Rightarrow> string \<Rightarrow> pool \<Rightarrow> (vla_error + nat option) \<times> pool" where
  "pool_open_turn dead deadline sid p =
     (case open_turn dead deadline sid p of
        (Inl e, q) \<Rightarrow> (Inl (Call (Plain e)), abandon_open sid q)
      | (Inr r, q) \<Rightarrow> (Inr r, q))"

definition pool_open_finish :: "(nat \<Rightarrow> bool) \<Rightarrow> string \<Rightarrow> nat \<Rightarrow> pool \<Rightarrow> (vla_error + nat) \<times> pool" where
  "pool_open_finish dead sid i p =
     (case open_finish dead sid i p of
        (Inl e, q) \<Rightarrow> (Inl (Call (Plain e)), abandon_open sid q)
      | (Inr r, q) \<Rightarrow> (Inr r, q))"

text \<open>The operation OPEN at the replica has ended.\<close>

definition pool_opened :: "string \<Rightarrow> vla_error + msg \<Rightarrow> pool \<Rightarrow> (vla_error + msg) \<times> pool" where
  "pool_opened sid r p = (case r of Inl e \<Rightarrow> (Inl e, abandon_open sid p) | Inr m \<Rightarrow> (Inr m, p))"

text \<open>The operation CLOSE at the replica has ended; its exception is raised again afterwards.\<close>

definition pool_closed :: "string \<Rightarrow> pool \<Rightarrow> pool" where
  "pool_closed sid p = snd (close_begin sid p)"

section \<open>Responses\<close>

definition error_response :: "vla_error \<Rightarrow> pyval \<Rightarrow> msg" where
  "error_response e rid =
     [(''type'', VStr ''ERROR''), (''protocol_version'', VStr VLA_SESSION_PROTOCOL_VERSION), (''request_id'', rid),
      (''error'', VDict [(''code'', VStr (code_value (error_code_of e))),
         (''message'', VStr (if error_code_of e \<noteq> INTERNAL_ERROR then vla_error_text e
                             else ''internal VLA session error''))])]"

definition success_response :: "string \<Rightarrow> string \<Rightarrow> pyval \<Rightarrow> msg" where
  "success_response operation sid rid =
     [(''type'', VStr (operation @ ''_ACK'')), (''protocol_version'', VStr VLA_SESSION_PROTOCOL_VERSION),
      (''request_id'', rid), (''session_id'', VStr sid)]"

definition opened_message :: "pyval \<Rightarrow> msg \<Rightarrow> msg" where
  "opened_message rid opened =
     fold (\<lambda>(k, v). od_put k v) opened
       [(''type'', VStr ''OPENED''), (''protocol_version'', VStr VLA_SESSION_PROTOCOL_VERSION), (''request_id'', rid)]"

definition read_request_id :: "msg \<Rightarrow> vla_error + pyval" where
  "read_request_id m =
     (case dget m ''request_id'' of
        VNone \<Rightarrow> Inr VNone
      | VInt i \<Rightarrow> Inr (VInt i)
      | VStr s \<Rightarrow> if s = [] then Inl (invalid_message ''request_id must be a non-empty string or integer'') else Inr (VStr s)
      | _ \<Rightarrow> Inl (invalid_message ''request_id must be a non-empty string or integer''))"

section \<open>The connection\<close>

text \<open>What the receiver awaits: the backend's \<open>open\<close>, the \<open>close\<close> after an invalid horizon, the barrier
  of a RESET or CLOSE, or at the end of the connection the \<open>close\<close> of the runtimes, one after the other.\<close>

datatype awaited =
    Opening string msg pyval
  | Refusing string pyval
  | Resetting string nat pyval
  | Closing string nat pyval
  | Leaving "nat list"

datatype 'a reply =
    Message msg
  | Chunk_Message pyval string "'a action_chunk"

text \<open>Runtimes are objects: \<open>cn_sessions\<close> lists those that were made, and the dictionary of the
  connection holds their positions. A delivery is a task that waits for the future of a request.\<close>

record delivery =
  dl_session :: string
  dl_runtime :: nat
  dl_request :: nat
  dl_request_id :: pyval

record 'a connection =
  cn_owned :: "string list"
  cn_runtimes :: "(string, nat) odict"
  cn_sessions :: "'a session_runtime list"
  cn_awaits :: "awaited option"
  cn_deliveries :: "delivery list"
  cn_sent :: "'a reply list"
  cn_cancelled :: nat
  cn_received :: nat
  cn_open :: bool

definition new_connection :: "'a connection" where
  "new_connection = \<lparr>cn_owned = [], cn_runtimes = [], cn_sessions = [], cn_awaits = None, cn_deliveries = [],
     cn_sent = [], cn_cancelled = 0, cn_received = 0, cn_open = True\<rparr>"

definition send_reply :: "'a reply \<Rightarrow> 'a connection \<Rightarrow> 'a connection" where
  "send_reply r c = c\<lparr>cn_sent := cn_sent c @ [r], cn_awaits := None\<rparr>"

definition send_error :: "vla_error \<Rightarrow> pyval \<Rightarrow> 'a connection \<Rightarrow> 'a connection" where
  "send_error e rid c = send_reply (Message (error_response e rid)) c"

definition put_session :: "nat \<Rightarrow> 'a session_runtime \<Rightarrow> 'a connection \<Rightarrow> 'a connection" where
  "put_session k s c = c\<lparr>cn_sessions := (cn_sessions c)[k := s]\<rparr>"

definition not_owned :: "string \<Rightarrow> vla_error" where
  "not_owned sid = Protocol UNKNOWN_SESSION (''session is not open on this connection: '' @ quoted sid)"

text \<open>\<open>runtimes[session_id]\<close> for a session that the connection owns.\<close>

definition owned_runtime :: "msg \<Rightarrow> 'a connection \<Rightarrow> vla_error + string \<times> nat" where
  "owned_runtime m c =
     bind_vla (required_string m ''session_id'') (\<lambda>sid.
       if sid \<notin> set (cn_owned c) then Inl (not_owned sid)
       else case od_get (cn_runtimes c) sid of None \<Rightarrow> Inl (Call (Plain (KeyError sid))) | Some k \<Rightarrow> Inr (sid, k))"

definition predict_message :: "rat \<Rightarrow> msg \<Rightarrow> pyval \<Rightarrow> 'a connection \<Rightarrow> 'a connection" where
  "predict_message now m rid c =
     (case owned_runtime m c of
        Inl e \<Rightarrow> send_error e rid c
      | Inr (sid, k) \<Rightarrow>
          (case submit_request now m (cn_sessions c ! k) of
             (Inl e, s) \<Rightarrow> send_error e rid (put_session k s c)
           | (Inr i, s) \<Rightarrow> (put_session k s c)\<lparr>cn_deliveries := cn_deliveries c @
               [\<lparr>dl_session = sid, dl_runtime = k, dl_request = i, dl_request_id = rid\<rparr>]\<rparr>))"

text \<open>\<open>_open_session\<close> up to the call of the backend.\<close>

definition open_message :: "msg \<Rightarrow> pyval \<Rightarrow> 'a connection \<Rightarrow> 'a connection" where
  "open_message m rid c =
     (if dget m ''protocol_version'' \<noteq> VStr VLA_SESSION_PROTOCOL_VERSION then
        send_error (Protocol UNSUPPORTED_VERSION
          (''unsupported protocol_version: '' @ py_repr (dget m ''protocol_version''))) rid c
      else case required_string m ''session_id'' of
        Inl e \<Rightarrow> send_error e rid c
      | Inr sid \<Rightarrow>
          if sid \<in> set (cn_owned c) then send_error (session_exists sid) rid c
          else c\<lparr>cn_awaits := Some (Opening sid m rid)\<rparr>)"

text \<open>The barrier of a RESET; the episode of a message is not empty, so the first reset of the chunk
  machine does not raise.\<close>

definition reset_message :: "msg \<Rightarrow> pyval \<Rightarrow> string \<Rightarrow> 'a connection \<Rightarrow> 'a connection" where
  "reset_message m rid sid c =
     (case optional_string m ''episode_id'' of
        Inl e \<Rightarrow> send_error e rid c
      | Inr ep \<Rightarrow>
          (case od_get (cn_runtimes c) sid of
             None \<Rightarrow> send_error (Call (Plain (KeyError sid))) rid c
           | Some k \<Rightarrow>
               (put_session k (reset_begin ep (cn_sessions c ! k)) c)\<lparr>cn_awaits := Some (Resetting sid k rid)\<rparr>))"

definition close_message :: "pyval \<Rightarrow> string \<Rightarrow> 'a connection \<Rightarrow> 'a connection" where
  "close_message rid sid c =
     (case od_get (cn_runtimes c) sid of
        None \<Rightarrow> send_error (Call (Plain (KeyError sid))) rid c
      | Some k \<Rightarrow>
          (put_session k (close_session_begin False (cn_sessions c ! k)) c)\<lparr>cn_awaits := Some (Closing sid k rid)\<rparr>)"

definition control_message :: "string \<Rightarrow> msg \<Rightarrow> pyval \<Rightarrow> 'a connection \<Rightarrow> 'a connection" where
  "control_message op m rid c =
     (if op = ''OPEN'' then open_message m rid c
      else case required_string m ''session_id'' of
        Inl e \<Rightarrow> send_error e rid c
      | Inr sid \<Rightarrow>
          if sid \<notin> set (cn_owned c) then send_error (not_owned sid) rid c
          else if op = ''RESET'' then reset_message m rid sid c
          else if op = ''CLOSE'' then close_message rid sid c
          else send_error (invalid_message (''unsupported VLA operation: '' @ quoted op)) rid c)"

text \<open>One turn of the receiver; \<open>Inl\<close> is a text that \<open>loads_wire_message\<close> refuses.\<close>

definition receive_message :: "rat \<Rightarrow> vla_error + msg \<Rightarrow> 'a connection \<Rightarrow> 'a connection" where
  "receive_message now r c0 =
     (let c = c0\<lparr>cn_received := cn_received c0 + 1\<rparr> in
      case r of Inl e \<Rightarrow> send_error e VNone c
      | Inr m \<Rightarrow>
        (case read_request_id m of Inl e \<Rightarrow> send_error e VNone c
         | Inr rid \<Rightarrow>
             (case dget m ''type'' of
                VStr t \<Rightarrow>
                  let op = map upper_char t in
                  if op = ''PREDICT'' then predict_message now m rid c else control_message op m rid c
              | _ \<Rightarrow> send_error (invalid_message ''message type must be a string'') rid c)))"

text \<open>\<open>_open_session\<close> after the call of the backend.\<close>

definition valid_horizon :: "msg \<Rightarrow> int option" where
  "valid_horizon opened = (case dget opened ''max_horizon'' of VInt n \<Rightarrow> if n < 1 then None else Some n | _ \<Rightarrow> None)"

definition session_parts :: "msg \<Rightarrow> int \<Rightarrow> vla_error + 'a chunk_machine" where
  "session_parts m max_horizon =
     bind_vla (required_string m ''episode_id'') (\<lambda>ep.
     bind_vla (optional_positive m ''execute_horizon'') (\<lambda>h.
     bind_vla (optional_positive m ''max_observation_age_ns'') (\<lambda>age.
     as_call (session_chunks ep (case h of None \<Rightarrow> max_horizon | Some n \<Rightarrow> n) age))))"

definition open_done :: "vla_error + msg \<Rightarrow> string \<Rightarrow> msg \<Rightarrow> pyval \<Rightarrow> 'a connection \<Rightarrow> 'a connection" where
  "open_done r sid m rid c =
     (case r of
        Inl e \<Rightarrow> send_error e rid c
      | Inr opened \<Rightarrow>
          let c1 = c\<lparr>cn_owned := cn_owned c @ [sid]\<rparr> in
          (case valid_horizon opened of
             None \<Rightarrow> c1\<lparr>cn_awaits := Some (Refusing sid rid)\<rparr>
           | Some n \<Rightarrow>
               (case session_parts m n of
                  Inl e \<Rightarrow> send_error e rid c1
                | Inr st \<Rightarrow>
                    send_reply (Message (opened_message rid opened))
                      (c1\<lparr>cn_sessions := cn_sessions c @ [new_session_runtime st (truthy (dget opened ''stateful''))],
                          cn_runtimes := od_put sid (length (cn_sessions c)) (cn_runtimes c)\<rparr>))))"

definition refused :: "vla_error option \<Rightarrow> string \<Rightarrow> pyval \<Rightarrow> 'a connection \<Rightarrow> 'a connection" where
  "refused r sid rid c =
     (case r of
        Some e \<Rightarrow> send_error e rid c
      | None \<Rightarrow>
          send_error (Call (Plain (RuntimeError ''VLA backend returned an invalid max_horizon''))) rid
            (c\<lparr>cn_owned := removeAll sid (cn_owned c)\<rparr>))"


text \<open>The barrier of the control that the receiver awaits has ended with the answer of the backend.\<close>

definition control_raises :: "vla_error option \<Rightarrow> 'a session_runtime \<Rightarrow> vla_error option" where
  "control_raises r s =
     (case r of
        Some e \<Rightarrow> Some e
      | None \<Rightarrow>
          (case vs_control s of
             Some (Reset_backend ep) \<Rightarrow>
               (case fst (reset ep (vs_state s)) of Inl x \<Rightarrow> Some (Call (Plain x)) | Inr _ \<Rightarrow> None)
           | _ \<Rightarrow> None))"

definition reset_done :: "vla_error option \<Rightarrow> string \<Rightarrow> nat \<Rightarrow> pyval \<Rightarrow> 'a connection \<Rightarrow> 'a connection" where
  "reset_done r sid k rid c =
     (let s = cn_sessions c ! k; c1 = put_session k (control_end r s) c in
      case control_raises r s of
        Some e \<Rightarrow> send_error e rid c1
      | None \<Rightarrow> send_reply (Message (success_response ''RESET'' sid rid)) c1)"

definition close_done :: "vla_error option \<Rightarrow> string \<Rightarrow> nat \<Rightarrow> pyval \<Rightarrow> 'a connection \<Rightarrow> 'a connection" where
  "close_done r sid k rid c =
     (let s = cn_sessions c ! k; t = control_end r s in
      case control_raises r s of
        Some e \<Rightarrow> send_error e rid (put_session k t c)
      | None \<Rightarrow>
          send_reply (Message (success_response ''CLOSE'' sid rid))
            (put_session k (t\<lparr>vs_state := snd (disconnect (vs_state t))\<rparr>)
               (c\<lparr>cn_owned := removeAll sid (cn_owned c), cn_runtimes := od_del sid (cn_runtimes c)\<rparr>)))"

text \<open>The end of the connection: the runtimes are closed in turn, whatever their \<open>close\<close> raises, and then
  the deliveries are cancelled.\<close>

fun leave :: "nat list \<Rightarrow> 'a connection \<Rightarrow> 'a connection" where
  "leave [] c = c\<lparr>cn_awaits := None, cn_cancelled := cn_cancelled c + length (cn_deliveries c), cn_deliveries := [],
     cn_open := False\<rparr>"
| "leave (k # ks) c =
     (put_session k (close_session_begin True (cn_sessions c ! k)) c)\<lparr>cn_awaits := Some (Leaving (k # ks))\<rparr>"

definition control_done :: "vla_error option \<Rightarrow> 'a connection \<Rightarrow> 'a connection" where
  "control_done r c =
     (case cn_awaits c of
        Some (Resetting sid k rid) \<Rightarrow> if at_backend (vs_control (cn_sessions c ! k)) then reset_done r sid k rid c else c
      | Some (Closing sid k rid) \<Rightarrow> if at_backend (vs_control (cn_sessions c ! k)) then close_done r sid k rid c else c
      | Some (Leaving (k # ks)) \<Rightarrow>
          if at_backend (vs_control (cn_sessions c ! k))
          then leave ks (put_session k (control_end r (cn_sessions c ! k)) c) else c
      | _ \<Rightarrow> c)"

text \<open>\<open>_deliver_prediction\<close> once the future is settled.\<close>

definition answer_reply :: "delivery \<Rightarrow> 'a outcome \<Rightarrow> 'a reply" where
  "answer_reply d v =
     (case v of
        Answered ch \<Rightarrow> Chunk_Message (dl_request_id d) (dl_session d) ch
      | Failed e \<Rightarrow> Message (error_response e (dl_request_id d)))"

definition deliver :: "nat \<Rightarrow> 'a connection \<Rightarrow> 'a connection" where
  "deliver n c =
     (if n < length (cn_deliveries c) then
        let d = cn_deliveries c ! n in
        (case od_get (vs_answers (cn_sessions c ! dl_runtime d)) (dl_request d) of
           None \<Rightarrow> c
         | Some v \<Rightarrow> c\<lparr>cn_sent := cn_sent c @ [answer_reply d v],
                       cn_deliveries := take n (cn_deliveries c) @ drop (Suc n) (cn_deliveries c)\<rparr>)
      else c)"

fun runner_event :: "'a vla_event \<Rightarrow> bool" where
  "runner_event Runner_begins = True"
| "runner_event Time_is_over = True"
| "runner_event (Backend_predicts now r) = True"
| "runner_event (Backend_resets r) = True"
| "runner_event Control_calls = True"
| "runner_event _ = False"

datatype 'a conn_event =
    Receives rat "vla_error + msg"
  | Backend_opens "vla_error + msg"
  | Backend_refuses "vla_error option"
  | Session_event nat "'a vla_event"
  | Control_done "vla_error option"
  | Delivers nat
  | Disconnects

text \<open>The receiver reads the next message when nothing is awaited; everything else goes on meanwhile.\<close>

definition conn_step :: "'a connection \<Rightarrow> 'a conn_event \<Rightarrow> 'a connection" where
  "conn_step c ev =
     (case ev of
        Receives now r \<Rightarrow> if cn_open c \<and> cn_awaits c = None then receive_message now r c else c
      | Backend_opens r \<Rightarrow> (case cn_awaits c of Some (Opening sid m rid) \<Rightarrow> open_done r sid m rid c | _ \<Rightarrow> c)
      | Backend_refuses r \<Rightarrow> (case cn_awaits c of Some (Refusing sid rid) \<Rightarrow> refused r sid rid c | _ \<Rightarrow> c)
      | Session_event k e \<Rightarrow>
          if k < length (cn_sessions c) \<and> runner_event e then put_session k (vla_step (cn_sessions c ! k) e) c else c
      | Control_done r \<Rightarrow> control_done r c
      | Delivers n \<Rightarrow> deliver n c
      | Disconnects \<Rightarrow> if cn_open c \<and> cn_awaits c = None then leave (od_vals (cn_runtimes c)) c else c)"


section \<open>What the runner leaves alone\<close>

definition steady :: "'a session_runtime \<Rightarrow> 'a session_runtime \<Rightarrow> bool" where
  "steady s t \<longleftrightarrow> vs_requests t = vs_requests s \<and> vs_control t = vs_control s \<and> set (vs_log s) \<subseteq> set (vs_log t)"

lemma steady_refl [simp]: "steady s s"
  by (simp add: steady_def)

lemma steady_trans: "steady s t \<Longrightarrow> steady t u \<Longrightarrow> steady s u"
  by (auto simp: steady_def)

lemma steady_fields [simp]:
  "steady s (t\<lparr>vs_state := st\<rparr>) = steady s t" "steady s (t\<lparr>vs_runner := p\<rparr>) = steady s t"
  "steady s (t\<lparr>vs_waiting := w\<rparr>) = steady s t" "steady s (t\<lparr>vs_recovering := b\<rparr>) = steady s t"
  "steady s (t\<lparr>vs_accepting := b\<rparr>) = steady s t" "steady s (settle_job i v t) = steady s t"
  "steady s (fail_job j e t) = steady s t" "steady s (fail_waiting e t) = steady s t"
  "steady s (t\<lparr>vs_crashed := l\<rparr>) = steady s t" "steady s t \<Longrightarrow> steady s (note_that n t)"
  by (auto simp: steady_def settle_job_def fail_job_def fail_waiting_def note_that_def split: option.split)

lemma steady_runner [simp]:
  assumes "steady s t"
  shows "steady s (crash j e t)" "steady s (next_job t)" "steady s (discard_result j x t)"
    "steady s (predicted now j c t)" "steady s (prediction_failed j e t)" "steady s (timed_out j t)"
proof -
  have c: "steady s (crash j e u)" if "steady s u" for j e and u :: "'a session_runtime"
    using that by (simp add: crash_def Let_def)
  have n: "steady s (next_job u)" if "steady s u" for u :: "'a session_runtime"
    using that by (simp add: next_job_def c Let_def split: option.split)
  have d: "steady s (discard_result j x u)" if "steady s u" for x and u :: "'a session_runtime"
    using that by (simp add: discard_result_def c n Let_def split: sum.split)
  show "steady s (crash j e t)" "steady s (next_job t)" "steady s (discard_result j x t)"
    using assms by (rule c n d)+
  show "steady s (predicted now j c t)"
    using assms by (simp add: predicted_def c n d split: sum.split prod.split)
  show "steady s (prediction_failed j e t)"
    using assms by (simp add: prediction_failed_def c n split: sum.split prod.split)
qed (use assms in \<open>simp_all add: timed_out_def\<close>)

lemma steady_settle_overdue: "settle_overdue now j r t = (x, u) \<Longrightarrow> steady s t \<Longrightarrow> steady s u"
  by (auto simp: settle_overdue_def split: sum.splits prod.splits)

lemma steady_overdue [simp]: "steady s t \<Longrightarrow> steady s (overdue_result now j r t)"
  using steady_settle_overdue [of now j r t _ _ s]
  by (auto simp: overdue_result_def split: prod.splits option.splits)

lemma steady_prediction [simp]: "steady s t \<Longrightarrow> steady s (prediction_result now j r t)"
  by (auto simp: prediction_result_def split: sum.split vla_error.split call_error.split py_error.split)

lemma steady_backend_reset [simp]: "steady s (backend_was_reset r s)"
  by (auto simp: backend_was_reset_def Let_def split: option.split phase.split prod.split sum.split)

lemma steady_step:
  "runner_event e \<Longrightarrow> steady s (vla_step s e) \<or> e = Control_calls \<and> vla_step s e = control_call s"
  by (cases e) (auto split: option.split phase.split)

lemma submit_request_parts:
  assumes "submit_request now m s = (r, t)"
  shows "vs_control t = vs_control s" "vs_log t = vs_log s" "vs_requests s \<le> vs_requests t"
    "r = Inr i \<Longrightarrow> i < vs_requests t"
  using assms
  by (auto simp: submit_request_def reply_at_once_def wait_in_line_def fail_waiting_def fail_job_def settle_job_def Let_def
      split: if_splits sum.splits prod.splits option.splits)

section \<open>The invariant of a connection\<close>

definition controlled :: "awaited option \<Rightarrow> nat option" where
  "controlled a =
     (case a of Some (Resetting sid k rid) \<Rightarrow> Some k | Some (Closing sid k rid) \<Rightarrow> Some k
      | Some (Leaving (k # ks)) \<Rightarrow> Some k | _ \<Rightarrow> None)"

definition expects_close :: "awaited option \<Rightarrow> bool" where
  "expects_close a = (case a of Some (Resetting sid k rid) \<Rightarrow> False | _ \<Rightarrow> True)"

definition control_fits :: "bool \<Rightarrow> control option \<Rightarrow> bool" where
  "control_fits closes ctl =
     (case ctl of None \<Rightarrow> False | Some (Reset_waits ep) \<Rightarrow> \<not> closes | Some (Reset_backend ep) \<Rightarrow> \<not> closes
      | Some (Close_waits d) \<Rightarrow> closes | Some (Close_backend d) \<Rightarrow> closes)"

definition session_at :: "awaited option \<Rightarrow> nat \<Rightarrow> 'a session_runtime \<Rightarrow> bool" where
  "session_at a k s \<longleftrightarrow> vs_ok s \<and>
     (\<forall>d. vs_control s = Some (Close_backend d) \<longrightarrow> Close_call \<in> set (vs_log s)) \<and>
     (if controlled a = Some k then control_fits (expects_close a) (vs_control s) else vs_control s = None)"

definition sessions_ok :: "awaited option \<Rightarrow> 'a session_runtime list \<Rightarrow> bool" where
  "sessions_ok a ss \<longleftrightarrow> (\<forall>k < length ss. session_at a k (ss ! k))"

definition awaits_ok :: "string list \<Rightarrow> (string, nat) odict \<Rightarrow> awaited option \<Rightarrow> bool" where
  "awaits_ok own rts a \<longleftrightarrow>
     (case a of
        Some (Opening sid m rid) \<Rightarrow> sid \<notin> set own
      | Some (Refusing sid rid) \<Rightarrow> sid \<notin> set (od_keys rts)
      | Some (Resetting sid k rid) \<Rightarrow> od_get rts sid = Some k
      | Some (Closing sid k rid) \<Rightarrow> od_get rts sid = Some k
      | Some (Leaving ks) \<Rightarrow> ks \<noteq> [] \<and> distinct ks \<and> set ks \<subseteq> set (od_vals rts)
      | None \<Rightarrow> True)"

definition tables_ok :: "string list \<Rightarrow> (string, nat) odict \<Rightarrow> nat \<Rightarrow> bool" where
  "tables_ok own rts n \<longleftrightarrow> distinct own \<and> od_ok rts \<and> set (od_keys rts) \<subseteq> set own \<and>
     distinct (od_vals rts) \<and> (\<forall>k \<in> set (od_vals rts). k < n)"

definition deliveries_ok :: "delivery list \<Rightarrow> 'a session_runtime list \<Rightarrow> bool" where
  "deliveries_ok ds ss \<longleftrightarrow>
     (\<forall>d \<in> set ds. dl_runtime d < length ss \<and> dl_request d < vs_requests (ss ! dl_runtime d))"

definition answering :: "awaited option \<Rightarrow> nat" where
  "answering a = (case a of None \<Rightarrow> 0 | Some (Leaving ks) \<Rightarrow> 0 | _ \<Rightarrow> 1)"

definition remaining :: "bool \<Rightarrow> awaited option \<Rightarrow> nat list \<Rightarrow> nat list" where
  "remaining opn a vals = (if opn then (case a of Some (Leaving ks) \<Rightarrow> ks | _ \<Rightarrow> vals) else [])"

definition closed_ok :: "nat list \<Rightarrow> 'a session_runtime list \<Rightarrow> bool" where
  "closed_ok rest ss \<longleftrightarrow> (\<forall>k < length ss. k \<notin> set rest \<longrightarrow> Close_call \<in> set (vs_log (ss ! k)))"

definition counts_ok :: "'a connection \<Rightarrow> bool" where
  "counts_ok c \<longleftrightarrow>
     length (cn_sent c) + length (cn_deliveries c) + cn_cancelled c + answering (cn_awaits c) = cn_received c \<and>
     (if cn_open c then cn_cancelled c = 0 else cn_awaits c = None \<and> cn_deliveries c = [])"

definition conn_ok :: "'a connection \<Rightarrow> bool" where
  "conn_ok c \<longleftrightarrow> sessions_ok (cn_awaits c) (cn_sessions c) \<and>
     tables_ok (cn_owned c) (cn_runtimes c) (length (cn_sessions c)) \<and>
     awaits_ok (cn_owned c) (cn_runtimes c) (cn_awaits c) \<and>
     deliveries_ok (cn_deliveries c) (cn_sessions c) \<and>
     closed_ok (remaining (cn_open c) (cn_awaits c) (od_vals (cn_runtimes c))) (cn_sessions c) \<and> counts_ok c"

lemma controlled_simps [simp]:
  "controlled None = None" "controlled (Some (Opening sid m rid)) = None" "controlled (Some (Refusing sid rid)) = None"
  "controlled (Some (Resetting sid k rid)) = Some k" "controlled (Some (Closing sid k rid)) = Some k"
  "controlled (Some (Leaving (k # ks))) = Some k"
  by (simp_all add: controlled_def)

lemma awaits_simps [simp]:
  "awaits_ok own rts None" "awaits_ok own rts (Some (Opening sid m rid)) \<longleftrightarrow> sid \<notin> set own"
  "awaits_ok own rts (Some (Refusing sid rid)) \<longleftrightarrow> sid \<notin> set (od_keys rts)"
  "awaits_ok own rts (Some (Resetting sid k rid)) \<longleftrightarrow> od_get rts sid = Some k"
  "awaits_ok own rts (Some (Closing sid k rid)) \<longleftrightarrow> od_get rts sid = Some k"
  "awaits_ok own rts (Some (Leaving ks)) \<longleftrightarrow> ks \<noteq> [] \<and> distinct ks \<and> set ks \<subseteq> set (od_vals rts)"
  by (simp_all add: awaits_ok_def)

lemma answering_simps [simp]:
  "answering None = 0" "answering (Some (Opening sid m rid)) = 1" "answering (Some (Refusing sid rid)) = 1"
  "answering (Some (Resetting sid k rid)) = 1" "answering (Some (Closing sid k rid)) = 1" "answering (Some (Leaving ks)) = 0"
  by (simp_all add: answering_def)

lemma remaining_simps [simp]:
  "remaining True None vals = vals" "remaining True (Some (Opening sid m rid)) vals = vals"
  "remaining True (Some (Refusing sid rid)) vals = vals" "remaining True (Some (Resetting sid k rid)) vals = vals"
  "remaining True (Some (Closing sid k rid)) vals = vals" "remaining True (Some (Leaving ks)) vals = ks"
  "remaining False a vals = []"
  by (simp_all add: remaining_def)

lemma conn_ok_new [simp]: "conn_ok new_connection"
  by (simp add: conn_ok_def new_connection_def sessions_ok_def tables_ok_def deliveries_ok_def closed_ok_def counts_ok_def)

lemma session_at_idle: "controlled a \<noteq> Some k \<Longrightarrow> controlled b \<noteq> Some k \<Longrightarrow> session_at a k s = session_at b k s"
  by (simp add: session_at_def)

lemma sessions_idle: "controlled a = None \<Longrightarrow> controlled b = None \<Longrightarrow> sessions_ok a ss = sessions_ok b ss"
  by (simp add: sessions_ok_def session_at_def)

lemma sessions_put: "sessions_ok a ss \<Longrightarrow> session_at a k t \<Longrightarrow> sessions_ok a (ss[k := t])"
  by (auto simp: sessions_ok_def nth_put)

lemma sessions_await:
  "sessions_ok None ss \<Longrightarrow> controlled b = Some k \<Longrightarrow> session_at b k t \<Longrightarrow> sessions_ok b (ss[k := t])"
  by (auto simp: sessions_ok_def nth_put session_at_idle [of None _ b])

lemma sessions_finish:
  "sessions_ok a ss \<Longrightarrow> controlled a = Some k \<Longrightarrow> session_at None k t \<Longrightarrow> sessions_ok None (ss[k := t])"
  by (auto simp: sessions_ok_def nth_put session_at_idle [of a _ None])

lemma closed_put:
  "closed_ok rest ss \<Longrightarrow> set (vs_log (ss ! k)) \<subseteq> set (vs_log t) \<Longrightarrow> closed_ok rest (ss[k := t])"
  by (auto simp: closed_ok_def nth_put)

lemma deliveries_put:
  "deliveries_ok ds ss \<Longrightarrow> vs_requests (ss ! k) \<le> vs_requests t \<Longrightarrow> deliveries_ok ds (ss[k := t])"
  by (fastforce simp: deliveries_ok_def nth_put)

lemma session_at_runner:
  assumes "session_at a k s" and "runner_event e"
  shows "session_at a k (vla_step s e)" "set (vs_log s) \<subseteq> set (vs_log (vla_step s e))"
    "vs_requests s \<le> vs_requests (vla_step s e)"
proof -
  have v: "vs_ok (vla_step s e)" using assms(1) by (simp add: session_at_def vs_ok_step)
  have "session_at a k (vla_step s e) \<and> set (vs_log s) \<subseteq> set (vs_log (vla_step s e)) \<and>
    vs_requests s \<le> vs_requests (vla_step s e)"
    using steady_step [OF assms(2), of s] v assms(1)
    by (auto simp: session_at_def steady_def control_call_def control_fits_def note_that_def
        split: option.splits control.splits if_splits)
  then show "session_at a k (vla_step s e)" "set (vs_log s) \<subseteq> set (vs_log (vla_step s e))"
    "vs_requests s \<le> vs_requests (vla_step s e)" by blast+
qed

lemma raise_barrier_parts:
  assumes "vs_ok s" and "ep \<noteq> Some []"
  shows "vs_control (raise_barrier ep why c s) = Some c" "vs_log (raise_barrier ep why c s) = vs_log s"
    "vs_requests (raise_barrier ep why c s) = vs_requests s"
proof -
  have "fst (reset ep (vs_state s)) = Inr ()"
    using reset_quiescent [OF core_facts(1) [OF vs_okD(1) [OF assms(1)]] assms(2)] by simp
  then show "vs_control (raise_barrier ep why c s) = Some c" "vs_log (raise_barrier ep why c s) = vs_log s"
    "vs_requests (raise_barrier ep why c s) = vs_requests s"
    by (auto simp: raise_barrier_def Let_def fail_waiting_def fail_job_def settle_job_def
        split: prod.split option.split)
qed

lemma barrier_session:
  assumes "session_at None k s" and "ep \<noteq> Some []" and "controlled a = Some k"
    and "control_fits (expects_close a) (Some c)" and "\<not> at_backend (Some c)"
  shows "session_at a k (raise_barrier ep why c s)"
proof -
  have s: "vs_ok s" "vs_control s = None" using assms(1) by (simp_all add: session_at_def)
  show ?thesis
    using raise_barrier_ok [OF s assms(5,2)] raise_barrier_parts [OF s(1) assms(2)] assms(3-5)
    by (auto simp: session_at_def at_backend_def)
qed

lemma control_end_session:
  assumes "session_at a k s" and "controlled a = Some k" and "at_backend (vs_control s)"
  shows "session_at None k (control_end r s)" "set (vs_log s) \<subseteq> set (vs_log (control_end r s))"
    "vs_requests (control_end r s) = vs_requests s"
    "expects_close a \<Longrightarrow> Close_call \<in> set (vs_log (control_end r s))"
proof -
  have o: "vs_ok s" and f: "control_fits (expects_close a) (vs_control s)"
    and l: "\<forall>d. vs_control s = Some (Close_backend d) \<longrightarrow> Close_call \<in> set (vs_log s)"
    using assms(1,2) by (simp_all add: session_at_def)
  have "vs_control (control_end r s) = None \<and> set (vs_log s) \<subseteq> set (vs_log (control_end r s)) \<and>
      vs_requests (control_end r s) = vs_requests s"
    using assms(3) by (auto simp: control_end_def at_backend_def note_that_def Let_def
        split: option.splits control.splits prod.splits sum.splits)
  moreover have "Close_call \<in> set (vs_log s)" if "expects_close a"
    using f l that assms(3) by (auto simp: control_fits_def at_backend_def split: option.splits control.splits)
  ultimately show "session_at None k (control_end r s)" "set (vs_log s) \<subseteq> set (vs_log (control_end r s))"
    "vs_requests (control_end r s) = vs_requests s"
    "expects_close a \<Longrightarrow> Close_call \<in> set (vs_log (control_end r s))"
    using control_end_ok [OF o] by (auto simp: session_at_def)
qed

lemma disconnected_session: "session_at a k s \<Longrightarrow> session_at a k (s\<lparr>vs_state := snd (disconnect (vs_state s))\<rparr>)"
  using vs_ok_state [OF _ disconnect_chunk_inv [OF core_facts(1) [OF vs_okD(1)]], of s s]
  by (auto simp: session_at_def)

section \<open>Every step keeps the invariant\<close>

lemma conn_fields [simp]:
  "cn_awaits (send_error e rid c) = None" "cn_owned (send_error e rid c) = cn_owned c"
  "cn_runtimes (send_error e rid c) = cn_runtimes c" "cn_sessions (send_error e rid c) = cn_sessions c"
  "cn_deliveries (send_error e rid c) = cn_deliveries c" "cn_cancelled (send_error e rid c) = cn_cancelled c"
  "cn_received (send_error e rid c) = cn_received c" "cn_open (send_error e rid c) = cn_open c"
  "length (cn_sent (send_error e rid c)) = Suc (length (cn_sent c))"
  "cn_awaits (send_reply m c) = None" "cn_owned (send_reply m c) = cn_owned c"
  "cn_runtimes (send_reply m c) = cn_runtimes c" "cn_sessions (send_reply m c) = cn_sessions c"
  "cn_deliveries (send_reply m c) = cn_deliveries c" "cn_cancelled (send_reply m c) = cn_cancelled c"
  "cn_received (send_reply m c) = cn_received c" "cn_open (send_reply m c) = cn_open c"
  "length (cn_sent (send_reply m c)) = Suc (length (cn_sent c))"
  by (simp_all add: send_error_def send_reply_def)

text \<open>A message that the receiver has taken in hand and not answered yet.\<close>

definition in_turn :: "'a connection \<Rightarrow> bool" where
  "in_turn c \<longleftrightarrow> cn_open c \<and> sessions_ok None (cn_sessions c) \<and>
     tables_ok (cn_owned c) (cn_runtimes c) (length (cn_sessions c)) \<and>
     deliveries_ok (cn_deliveries c) (cn_sessions c) \<and>
     closed_ok (od_vals (cn_runtimes c)) (cn_sessions c) \<and> cn_cancelled c = 0 \<and>
     Suc (length (cn_sent c) + length (cn_deliveries c)) = cn_received c"

lemma conn_ok_error [simp]: "in_turn c \<Longrightarrow> conn_ok (send_error e rid c)"
  by (simp add: in_turn_def conn_ok_def counts_ok_def)

lemma conn_ok_reply [simp]: "in_turn c \<Longrightarrow> conn_ok (send_reply m c)"
  by (simp add: in_turn_def conn_ok_def counts_ok_def)

lemma in_turn_take:
  "conn_ok c \<Longrightarrow> cn_open c \<Longrightarrow> cn_awaits c = None \<Longrightarrow> in_turn (c\<lparr>cn_received := cn_received c + 1\<rparr>)"
  by (simp add: in_turn_def conn_ok_def counts_ok_def)

lemma in_turn_awaiting:
  "conn_ok c \<Longrightarrow> cn_awaits c = Some (Opening sid m rid) \<Longrightarrow> in_turn c"
  "conn_ok c \<Longrightarrow> cn_awaits c = Some (Refusing sid rid) \<Longrightarrow> in_turn c"
  using sessions_idle [of "cn_awaits c" None "cn_sessions c"]
  by (auto simp: in_turn_def conn_ok_def counts_ok_def split: if_splits)

lemma owned_runtimeD:
  "owned_runtime m c = Inr (sid, k) \<Longrightarrow> od_get (cn_runtimes c) sid = Some k \<and> sid \<in> set (cn_owned c)"
  by (auto simp: owned_runtime_def bind_vla_def split: sum.splits if_splits option.splits)

lemma runtime_index: "tables_ok own rts n \<Longrightarrow> od_get rts sid = Some k \<Longrightarrow> k < n"
  using od_vals_get [of rts sid k] by (auto simp: tables_ok_def)

lemma predict_message_ok:
  assumes "in_turn c" and "cn_awaits c = None"
  shows "conn_ok (predict_message now m rid c)"
proof (cases "owned_runtime m c")
  case (Inr p)
  obtain sid k where p: "p = (sid, k)" by (cases p)
  have k: "k < length (cn_sessions c)"
    using assms(1) runtime_index owned_runtimeD [OF Inr [unfolded p]] by (auto simp: in_turn_def)
  obtain r t where e: "submit_request now m (cn_sessions c ! k) = (r, t)" by (cases "submit_request now m (cn_sessions c ! k)")
  note q = submit_request_parts [OF e]
  have s: "session_at None k (cn_sessions c ! k)" using assms(1) k by (simp add: in_turn_def sessions_ok_def)
  then have t: "session_at None k t"
    using vs_ok_submit [of "cn_sessions c ! k" now m] e q(1,2) by (simp add: session_at_def)
  have i: "in_turn (put_session k t c)"
    using assms(1) sessions_put [OF _ t] closed_put [of _ "cn_sessions c" k t] deliveries_put [of _ "cn_sessions c" k t] q(2,3)
    by (simp add: in_turn_def put_session_def)
  show ?thesis
  proof (cases r)
    case (Inl e')
    with i show ?thesis by (simp add: predict_message_def Inr p e)
  next
    case R: (Inr j)
    from i assms(2) q(4) [OF R] k show ?thesis
      by (simp add: predict_message_def Inr p e R conn_ok_def in_turn_def counts_ok_def put_session_def deliveries_ok_def)
  qed
qed (simp add: predict_message_def assms)

lemma conn_ok_opening: "in_turn c \<Longrightarrow> sid \<notin> set (cn_owned c) \<Longrightarrow> conn_ok (c\<lparr>cn_awaits := Some (Opening sid m rid)\<rparr>)"
  using sessions_idle [of None "Some (Opening sid m rid)" "cn_sessions c"]
  by (simp add: in_turn_def conn_ok_def counts_ok_def)

lemma open_message_ok: "in_turn c \<Longrightarrow> conn_ok (open_message m rid c)"
  by (auto simp: open_message_def conn_ok_opening split: sum.split)

text \<open>A barrier is raised in the runtime of a session and the receiver awaits its end.\<close>

lemma barrier_ok:
  assumes "in_turn c" and "od_get (cn_runtimes c) sid = Some k" and "ep \<noteq> Some []"
    and "a = Some (Resetting sid k rid) \<or> a = Some (Closing sid k rid)"
    and "control_fits (expects_close a) (Some ctl)" and "\<not> at_backend (Some ctl)"
  shows "conn_ok ((put_session k (raise_barrier ep why ctl (cn_sessions c ! k)) c)\<lparr>cn_awaits := a\<rparr>)"
proof -
  let ?t = "raise_barrier ep why ctl (cn_sessions c ! k)"
  have k: "k < length (cn_sessions c)"
    using assms(1,2) runtime_index by (auto simp: in_turn_def)
  then have s: "session_at None k (cn_sessions c ! k)" using assms(1) by (simp add: in_turn_def sessions_ok_def)
  have c: "controlled a = Some k" using assms(4) by auto
  have t: "session_at a k ?t" by (rule barrier_session [OF s assms(3) c assms(5,6)])
  have o: "vs_ok (cn_sessions c ! k)" using s by (simp add: session_at_def)
  note p = raise_barrier_parts [OF o assms(3), of why ctl]
  show ?thesis
    using assms(1,2,4) sessions_await [OF _ c t] closed_put [of _ "cn_sessions c" k ?t] deliveries_put [of _ "cn_sessions c" k ?t] p
    by (auto simp: in_turn_def conn_ok_def counts_ok_def put_session_def)
qed

lemma reset_message_ok: "in_turn c \<Longrightarrow> conn_ok (reset_message m rid sid c)"
  using optional_string_nonempty [of m "''episode_id''"]
  by (auto simp: reset_message_def reset_begin_def at_backend_def control_fits_def expects_close_def
      split: sum.split option.split intro!: barrier_ok)

lemma close_message_ok: "in_turn c \<Longrightarrow> conn_ok (close_message rid sid c)"
  by (auto simp: close_message_def close_session_begin_def at_backend_def control_fits_def expects_close_def
      split: sum.split option.split intro!: barrier_ok)

lemma control_message_ok: "in_turn c \<Longrightarrow> conn_ok (control_message op m rid c)"
  by (simp add: control_message_def open_message_ok reset_message_ok close_message_ok split: sum.split)

lemma receive_message_ok:
  assumes "conn_ok c" and "cn_open c" and "cn_awaits c = None"
  shows "conn_ok (receive_message now r c)"
  using in_turn_take [OF assms] assms(3)
  by (simp add: receive_message_def predict_message_ok control_message_ok Let_def split: sum.split pyval.split)

lemma session_parts_ok:
  assumes "session_parts m n = Inr st"
  shows "chunk_inv st"
  using assms session_chunks_ok(1) by (auto simp: session_parts_def bind_vla_def as_call_def split: sum.splits)

lemma sessions_new:
  "sessions_ok None ss \<Longrightarrow> chunk_inv st \<Longrightarrow> sessions_ok None (ss @ [new_session_runtime st b])"
  using vs_ok_new [of st b] by (auto simp: sessions_ok_def nth_append less_Suc_eq session_at_def new_session_runtime_def)

lemma tables_new:
  assumes "tables_ok own rts n" and "sid \<notin> set own"
  shows "tables_ok (own @ [sid]) (od_put sid n rts) (Suc n)" "od_vals (od_put sid n rts) = od_vals rts @ [n]"
proof -
  have "od_get rts sid = None"
    using assms by (auto simp: tables_ok_def map_of_eq_None_iff)
  then show "od_vals (od_put sid n rts) = od_vals rts @ [n]" "tables_ok (own @ [sid]) (od_put sid n rts) (Suc n)"
    using assms by (auto simp: tables_ok_def od_put_absent od_ok_def)
qed

lemma tables_own: "tables_ok own rts n \<Longrightarrow> sid \<notin> set own \<Longrightarrow> tables_ok (own @ [sid]) rts n"
  by (auto simp: tables_ok_def)

lemma open_done_ok:
  assumes "conn_ok c" and "cn_awaits c = Some (Opening sid m rid)"
  shows "conn_ok (open_done r sid m rid c)"
proof (cases r)
  case (Inr opened)
  note t = in_turn_awaiting(1) [OF assms]
  have n: "sid \<notin> set (cn_owned c)" using assms by (simp add: conn_ok_def)
  have i: "in_turn (c\<lparr>cn_owned := cn_owned c @ [sid]\<rparr>)"
    using t n tables_own [of "cn_owned c"] by (simp add: in_turn_def)
  have f: "conn_ok (c\<lparr>cn_owned := cn_owned c @ [sid], cn_awaits := Some (Refusing sid rid)\<rparr>)"
    using i n t sessions_idle [of None "Some (Refusing sid rid)" "cn_sessions c"]
    by (auto simp: in_turn_def conn_ok_def counts_ok_def tables_ok_def)
  have g: "in_turn (c\<lparr>cn_owned := cn_owned c @ [sid], cn_sessions := cn_sessions c @ [new_session_runtime st b],
      cn_runtimes := od_put sid (length (cn_sessions c)) (cn_runtimes c)\<rparr>)" if "chunk_inv st" for st b
    using t n tables_new [of "cn_owned c" "cn_runtimes c" "length (cn_sessions c)" sid] sessions_new [OF _ that]
    by (auto simp: in_turn_def deliveries_ok_def closed_ok_def nth_append less_Suc_eq)
  show ?thesis
    using i f g by (auto simp: open_done_def Inr Let_def session_parts_ok split: option.split sum.split)
qed (simp add: open_done_def in_turn_awaiting(1) [OF assms])

lemma refused_ok:
  assumes "conn_ok c" and "cn_awaits c = Some (Refusing sid rid)"
  shows "conn_ok (refused r sid rid c)"
proof (cases r)
  case None
  have "in_turn (c\<lparr>cn_owned := removeAll sid (cn_owned c)\<rparr>)"
    using in_turn_awaiting(2) [OF assms] assms by (auto simp: in_turn_def conn_ok_def tables_ok_def distinct_removeAll)
  then show ?thesis by (simp add: refused_def None)
qed (simp add: refused_def in_turn_awaiting(2) [OF assms])

text \<open>The control that the receiver awaited has ended.\<close>

lemma control_ends:
  assumes "conn_ok c" and "cn_awaits c = Some a" and "controlled (Some a) = Some k" and "at_backend (vs_control (cn_sessions c ! k))"
    and "k < length (cn_sessions c)"
  shows "sessions_ok None ((cn_sessions c)[k := control_end r (cn_sessions c ! k)])"
    "deliveries_ok (cn_deliveries c) ((cn_sessions c)[k := control_end r (cn_sessions c ! k)])"
    "closed_ok (remaining (cn_open c) (Some a) (od_vals (cn_runtimes c)))
       ((cn_sessions c)[k := control_end r (cn_sessions c ! k)])"
    "expects_close (Some a) \<Longrightarrow> Close_call \<in> set (vs_log (control_end r (cn_sessions c ! k)))"
    "session_at None k (control_end r (cn_sessions c ! k))"
proof -
  have s: "session_at (Some a) k (cn_sessions c ! k)" using assms by (simp add: conn_ok_def sessions_ok_def)
  note e = control_end_session [OF s assms(3,4), of r]
  show "sessions_ok None ((cn_sessions c)[k := control_end r (cn_sessions c ! k)])"
    using sessions_finish [OF _ assms(3) e(1)] assms(1,2) by (simp add: conn_ok_def)
  show "deliveries_ok (cn_deliveries c) ((cn_sessions c)[k := control_end r (cn_sessions c ! k)])"
    using assms(1) e(3) by (intro deliveries_put) (simp_all add: conn_ok_def)
  show "closed_ok (remaining (cn_open c) (Some a) (od_vals (cn_runtimes c)))
       ((cn_sessions c)[k := control_end r (cn_sessions c ! k)])"
    using assms(1,2) e(2) by (intro closed_put) (simp_all add: conn_ok_def)
  show "expects_close (Some a) \<Longrightarrow> Close_call \<in> set (vs_log (control_end r (cn_sessions c ! k)))"
    using e(4) .
  show "session_at None k (control_end r (cn_sessions c ! k))" by (rule e(1))
qed

lemma od_vals_del: "od_ok d \<Longrightarrow> distinct (od_vals d) \<Longrightarrow> od_get d x = Some k \<Longrightarrow> set (od_vals (od_del x d)) = set (od_vals d) - {k}"
  by (induction d) (auto simp: od_ok_def delete_id rev_image_eqI split: if_splits)

lemma distinct_vals_del: "distinct (od_vals d) \<Longrightarrow> distinct (od_vals (od_del x d))"
  by (auto simp: AList.delete_eq distinct_map inj_on_def)

lemma tables_del:
  assumes "tables_ok own rts n" and "od_get rts sid = Some k"
  shows "tables_ok (removeAll sid own) (od_del sid rts) n" "set (od_vals (od_del sid rts)) = set (od_vals rts) - {k}"
proof -
  show v: "set (od_vals (od_del sid rts)) = set (od_vals rts) - {k}"
    using assms by (intro od_vals_del) (simp_all add: tables_ok_def)
  show "tables_ok (removeAll sid own) (od_del sid rts) n"
    using assms(1) v distinct_vals_del [of rts sid] by (auto simp: tables_ok_def distinct_removeAll)
qed

lemma reset_done_ok:
  assumes "conn_ok c" and "cn_awaits c = Some (Resetting sid k rid)" and "at_backend (vs_control (cn_sessions c ! k))"
  shows "conn_ok (reset_done r sid k rid c)"
proof -
  have k: "k < length (cn_sessions c)" using assms(1,2) runtime_index by (auto simp: conn_ok_def)
  note e = control_ends [OF assms(1,2) controlled_simps(4) assms(3) k, of r]
  have "in_turn (put_session k (control_end r (cn_sessions c ! k)) c)"
    using assms(1,2) e(1-3) by (auto simp: in_turn_def conn_ok_def counts_ok_def put_session_def split: if_splits)
  then show ?thesis by (simp add: reset_done_def Let_def split: option.split)
qed

lemma close_done_ok:
  assumes "conn_ok c" and "cn_awaits c = Some (Closing sid k rid)" and "at_backend (vs_control (cn_sessions c ! k))"
  shows "conn_ok (close_done r sid k rid c)"
proof -
  let ?t = "control_end r (cn_sessions c ! k)"
  let ?u = "?t\<lparr>vs_state := snd (disconnect (vs_state ?t))\<rparr>"
  have k: "k < length (cn_sessions c)" and g: "od_get (cn_runtimes c) sid = Some k"
    using assms(1,2) runtime_index by (auto simp: conn_ok_def)
  note e = control_ends [OF assms(1,2) controlled_simps(5) assms(3) k, of r]
  have "in_turn (put_session k ?t c)"
    using assms(1,2) e(1-3) by (auto simp: in_turn_def conn_ok_def counts_ok_def put_session_def split: if_splits)
  moreover have "in_turn (put_session k ?u (c\<lparr>cn_owned := removeAll sid (cn_owned c), cn_runtimes := od_del sid (cn_runtimes c)\<rparr>))"
  proof -
    have o: "cn_open c" and t: "tables_ok (cn_owned c) (cn_runtimes c) (length (cn_sessions c))"
      using assms(1,2) by (auto simp: conn_ok_def counts_ok_def split: if_splits)
    have u: "(cn_sessions c)[k := ?u] = ((cn_sessions c)[k := ?t])[k := ?u]" by simp
    have s: "sessions_ok None ((cn_sessions c)[k := ?u])"
      unfolding u by (rule sessions_put [OF e(1) disconnected_session [OF e(5)]])
    have d: "deliveries_ok (cn_deliveries c) ((cn_sessions c)[k := ?u])"
      unfolding u by (rule deliveries_put [OF e(2)]) (simp add: k)
    have l: "Close_call \<in> set (vs_log ?u)" using e(4) by (simp add: expects_close_def)
    have "closed_ok (od_vals (cn_runtimes c)) ((cn_sessions c)[k := ?u])"
      unfolding u using closed_put [OF e(3), of k ?u] o k by simp
    then have z: "closed_ok (od_vals (od_del sid (cn_runtimes c))) ((cn_sessions c)[k := ?u])"
      using l tables_del(2) [OF t g] by (auto simp: closed_ok_def nth_put)
    show ?thesis
      using assms(1,2) o s d z tables_del(1) [OF t g] by (simp add: in_turn_def conn_ok_def counts_ok_def put_session_def)
  qed
  ultimately show ?thesis by (simp add: close_done_def Let_def split: option.split)
qed

lemma leave_ok:
  assumes "sessions_ok None (cn_sessions c)" and "tables_ok (cn_owned c) (cn_runtimes c) (length (cn_sessions c))"
    and "deliveries_ok (cn_deliveries c) (cn_sessions c)" and "closed_ok ks (cn_sessions c)" and "cn_open c"
    and "cn_cancelled c = 0" and "length (cn_sent c) + length (cn_deliveries c) = cn_received c"
    and "distinct ks" and "set ks \<subseteq> set (od_vals (cn_runtimes c))"
  shows "conn_ok (leave ks c)"
proof (cases ks)
  case Nil
  with assms show ?thesis by (simp add: conn_ok_def counts_ok_def deliveries_ok_def)
next
  case (Cons k rest)
  let ?a = "Some (Leaving (k # rest))" and ?t = "close_session_begin True (cn_sessions c ! k)"
  have k: "k < length (cn_sessions c)" using assms(2,9) Cons by (auto simp: tables_ok_def)
  then have s: "session_at None k (cn_sessions c ! k)" using assms(1) by (simp add: sessions_ok_def)
  then have o: "vs_ok (cn_sessions c ! k)" by (simp add: session_at_def)
  have t: "session_at ?a k ?t"
    unfolding close_session_begin_def
    by (rule barrier_session [OF s]) (simp_all add: control_fits_def expects_close_def at_backend_def)
  have p: "vs_log ?t = vs_log (cn_sessions c ! k)" "vs_requests ?t = vs_requests (cn_sessions c ! k)"
    using raise_barrier_parts [OF o] by (simp_all add: close_session_begin_def)
  show ?thesis
    using assms sessions_await [OF assms(1) _ t] closed_put [OF assms(4), of k ?t] deliveries_put [OF assms(3), of k ?t] p
    by (simp add: Cons conn_ok_def counts_ok_def put_session_def)
qed

lemma leaving_done_ok:
  assumes "conn_ok c" and "cn_awaits c = Some (Leaving (k # ks))" and "at_backend (vs_control (cn_sessions c ! k))"
  shows "conn_ok (leave ks (put_session k (control_end r (cn_sessions c ! k)) c))"
proof -
  let ?ss = "(cn_sessions c)[k := control_end r (cn_sessions c ! k)]"
  have k: "k < length (cn_sessions c)" and d: "distinct ks" "set ks \<subseteq> set (od_vals (cn_runtimes c))"
    and o: "cn_open c" and n: "cn_cancelled c = 0" "length (cn_sent c) + length (cn_deliveries c) = cn_received c"
    using assms(1,2) by (auto simp: conn_ok_def tables_ok_def counts_ok_def split: if_splits)
  note e = control_ends [OF assms(1,2) controlled_simps(6) assms(3) k, of r]
  have "closed_ok (k # ks) ?ss" using e(3) o by simp
  then have "closed_ok ks ?ss" using e(4) by (auto simp: closed_ok_def nth_put expects_close_def)
  then show ?thesis
    using assms(1) e(1,2) d o n by (intro leave_ok) (simp_all add: put_session_def conn_ok_def)
qed

lemma deliver_ok: "conn_ok c \<Longrightarrow> conn_ok (deliver n c)"
  by (auto simp: deliver_def conn_ok_def counts_ok_def deliveries_ok_def Let_def
      dest: in_set_takeD in_set_dropD split: option.split)

lemma session_event_ok:
  assumes "conn_ok c" and "k < length (cn_sessions c)" and "runner_event e"
  shows "conn_ok (put_session k (vla_step (cn_sessions c ! k) e) c)"
proof -
  have s: "session_at (cn_awaits c) k (cn_sessions c ! k)" using assms(1,2) by (simp add: conn_ok_def sessions_ok_def)
  note t = session_at_runner [OF s assms(3)]
  show ?thesis
    using assms(1) sessions_put [OF _ t(1)] closed_put [OF _ t(2)] deliveries_put [OF _ t(3)]
    by (simp add: conn_ok_def counts_ok_def put_session_def)
qed

lemma control_done_ok: "conn_ok c \<Longrightarrow> conn_ok (control_done r c)"
  by (auto simp: control_done_def reset_done_ok close_done_ok leaving_done_ok
      split: option.split awaited.split list.split)

lemma disconnects_ok: "conn_ok c \<Longrightarrow> cn_open c \<Longrightarrow> cn_awaits c = None \<Longrightarrow> conn_ok (leave (od_vals (cn_runtimes c)) c)"
  by (rule leave_ok) (simp_all add: conn_ok_def counts_ok_def tables_ok_def)

lemma conn_ok_step: "conn_ok c \<Longrightarrow> conn_ok (conn_step c ev)"
  by (auto simp: conn_step_def receive_message_ok open_done_ok refused_ok session_event_ok control_done_ok deliver_ok
      disconnects_ok split: conn_event.split option.split awaited.split)

interpretation connection: invariant_machine conn_step conn_ok
  by unfold_locales (rule conn_ok_step)

section \<open>Properties of a connection\<close>

lemma connection_reached: "conn_ok (foldl conn_step new_connection es)"
  by (rule connection.inv_run) simp

text \<open>A client that opens a session and sends two observations, the first of which is answered.\<close>

definition demo_open :: msg where
  "demo_open = [(''type'', VStr ''open''), (''request_id'', VInt 1), (''protocol_version'', VStr ''1.0''),
     (''session_id'', VStr ''s''), (''episode_id'', VStr ''ep'')]"

definition demo_predict :: "int \<Rightarrow> msg" where
  "demo_predict n = [(''type'', VStr ''PREDICT''), (''request_id'', VInt n), (''session_id'', VStr ''s''),
     (''observation_timestamp_ns'', VInt (10 + n)), (''sequence_id'', VInt n)]"

definition demo_traffic :: "int conn_event list" where
  "demo_traffic = [Receives 0 (Inr demo_open), Backend_opens (Inr [(''max_horizon'', VInt 2)]),
     Receives 1 (Inr (demo_predict 2)), Session_event 0 Runner_begins,
     Session_event 0 (Backend_predicts 2 (Inr (demo_result 2 12 ''ep''))), Delivers 0,
     Receives 3 (Inr (demo_predict 3)), Session_event 0 Runner_begins]"

definition demo_goodbye :: "int conn_event list" where
  "demo_goodbye = demo_traffic @ [Disconnects, Session_event 0 (Backend_predicts 4 (Inr (demo_result 3 13 ''ep''))),
     Session_event 0 (Backend_resets None), Session_event 0 Control_calls, Control_done None]"

text \<open>C13: Every message that a connection receives has one response, or is being handled, or is a prediction
  whose delivery waits, or was cancelled when the connection ended; and a delivery waits for a request that
  its session still answers for: it is answered, waits, is being predicted, or was lost in a crash.\<close>

theorem messages_accounted:
  assumes "c = foldl conn_step new_connection es"
  shows "length (cn_sent c) + length (cn_deliveries c) + cn_cancelled c + answering (cn_awaits c) = cn_received c \<and>
    (cn_open c \<longrightarrow> cn_cancelled c = 0) \<and>
    (\<forall>d \<in> set (cn_deliveries c). \<exists>s. s = cn_sessions c ! dl_runtime d \<and>
       dl_request d \<in> set (map fst (vs_answers s)) \<union> set (vs_crashed s) \<union> set (waiting_list s @ predicting_list s))"
proof -
  have k: "conn_ok c" unfolding assms by (rule connection_reached)
  have "dl_request d \<in> set (map fst (vs_answers s)) \<union> set (vs_crashed s) \<union> set (waiting_list s @ predicting_list s)"
    if "d \<in> set (cn_deliveries c)" and s: "s = cn_sessions c ! dl_runtime d" for d s
  proof -
    have l: "dl_runtime d < length (cn_sessions c)" "dl_request d < vs_requests s"
      using k that by (auto simp: conn_ok_def deliveries_ok_def)
    then have "vs_ok s" using k s by (auto simp: conn_ok_def sessions_ok_def session_at_def)
    then have "accounts (mset (waiting_list s) + mset (predicting_list s)) s"
      using core_facts(2) vs_okD(1) by fastforce
    then have "dl_request d \<in># mset (map fst (vs_answers s)) + mset (vs_crashed s) + (mset (waiting_list s) + mset (predicting_list s))"
      using l(2) by (simp add: accounts_def del: mset_map)
    then show ?thesis by auto
  qed
  then show ?thesis using k by (auto simp: conn_ok_def counts_ok_def split: if_splits)
qed

lemma messages_accounted_witness:
  "length (cn_sent (foldl conn_step new_connection demo_traffic)) +
     length (cn_deliveries (foldl conn_step new_connection demo_traffic)) = 3 \<and>
   length (cn_deliveries (foldl conn_step new_connection demo_traffic)) = 1"
proof -
  have "cn_open (foldl conn_step new_connection demo_traffic)" "cn_awaits (foldl conn_step new_connection demo_traffic) = None"
    "cn_received (foldl conn_step new_connection demo_traffic) = 3"
    "length (cn_deliveries (foldl conn_step new_connection demo_traffic)) = 1"
    by code_simp+
  with messages_accounted [OF refl, of demo_traffic] show ?thesis by simp
qed

text \<open>C14: When a connection has ended, the backend was called to close every session for which the connection
  made a runtime, which is every one whose OPEN it did not answer with an error; no delivery and no
  control is left.\<close>

theorem leaving_closes_sessions:
  assumes "c = foldl conn_step new_connection es" and "\<not> cn_open c" and "k < length (cn_sessions c)"
  shows "Close_call \<in> set (vs_log (cn_sessions c ! k)) \<and> cn_deliveries c = [] \<and> vs_control (cn_sessions c ! k) = None"
  using connection_reached [of es] assms
  by (auto simp: conn_ok_def counts_ok_def closed_ok_def sessions_ok_def session_at_def)

lemma leaving_closes_sessions_witness:
  "Close_call \<in> set (vs_log (cn_sessions (foldl conn_step new_connection demo_goodbye) ! 0)) \<and>
   cn_cancelled (foldl conn_step new_connection demo_goodbye) = 1"
proof -
  have "\<not> cn_open (foldl conn_step new_connection demo_goodbye)" "0 < length (cn_sessions (foldl conn_step new_connection demo_goodbye))"
    "cn_cancelled (foldl conn_step new_connection demo_goodbye) = 1"
    by code_simp+
  with leaving_closes_sessions [OF refl, of demo_goodbye 0] show ?thesis by blast
qed


section \<open>A session that the connection owns without a runtime\<close>

text \<open>Where the backend opens a session for a message whose chunk machine cannot be made, here with the horizon
  zero, the client gets an error but the session stays among the owned ones without a runtime: the end
  of the connection does not close it.\<close>

definition orphan_traffic :: "int conn_event list" where
  "orphan_traffic = [Receives 0 (Inr (demo_open @ [(''execute_horizon'', VInt 0)])),
     Backend_opens (Inr [(''max_horizon'', VInt 2)]), Disconnects]"

lemma orphan_session_stays_open:
  "cn_owned (foldl conn_step new_connection orphan_traffic) = [''s'']"
  "cn_sessions (foldl conn_step new_connection orphan_traffic) = []"
  "\<not> cn_open (foldl conn_step new_connection orphan_traffic)"
  by code_simp+

text \<open>The two backends never do that: they read the same fields of the message before they open.\<close>

lemma session_parts_made:
  assumes "required_string p ''episode_id'' = Inr ep" and "optional_positive p ''execute_horizon'' = Inr h"
    and "optional_positive p ''max_observation_age_ns'' = Inr age" and "1 \<le> n"
  shows "\<exists>st :: 'a chunk_machine. session_parts p n = Inr st"
proof -
  have "ep \<noteq> []" using assms(1) by (auto simp: required_string_def split: pyval.splits if_splits)
  moreover have "1 \<le> i" if "optional_positive p f = Inr (Some i)" for f i
    using that by (auto simp: optional_positive_def split: sum.splits option.splits if_splits)
  ultimately have "\<exists>st :: 'a chunk_machine. session_chunks ep (case h of None \<Rightarrow> n | Some i \<Rightarrow> i) age = Inr st"
    using assms by (fastforce simp: session_chunks_def new_chunk_machine_def split: option.splits)
  then show ?thesis using assms(1-3) by (auto simp: session_parts_def as_call_def bind_vla_def)
qed

lemma bind_vla_Inr: "bind_vla r f = Inr y \<longleftrightarrow> (\<exists>x. r = Inr x \<and> f x = Inr y)"
  by (cases r) (simp_all add: bind_vla_def)

lemma as_value_error_Inr: "as_value_error r = Inr y \<longleftrightarrow> r = Inr y"
  by (cases r) (simp_all add: as_value_error_def)

lemma local_backend_makes_runtime:
  "local_open p m = (Inr opened, m') \<Longrightarrow> 1 \<le> n \<Longrightarrow> \<exists>st. session_parts p n = Inr st"
  by (auto simp: local_open_def Let_def bind_vla_Inr split: sum.splits intro: session_parts_made)

lemma replica_makes_runtime:
  "replica_open p m = (Inr opened, m') \<Longrightarrow> 1 \<le> n \<Longrightarrow> \<exists>st. session_parts p n = Inr st"
  by (auto simp: replica_open_def Let_def as_value_error_Inr split: sum.splits intro: session_parts_made)

section \<open>A second connection that opens an open session\<close>

text \<open>The receiver looks only at the sessions of its own connection, so the id reaches the pool, which refuses
  it; the backend then closes the session of that id. The lease of the connection that owns it is closing,
  its next request is refused, and when its current operation is over the replica goes to the next
  session although the policy of the first was never released there.\<close>

lemma second_open_closes_first:
  assumes "required_string m ''session_id'' = Inr sid" and "\<not> pl_session_shutdown p"
    and "od_get (pl_leases p) sid = Some l" and "\<not> rl_closing l"
  shows "fst (pool_open_begin m p) = Inl (Call (Plain (ValueError (''pipeline session is already open: '' @ quoted sid)))) \<and>
    get_session_lease sid (snd (pool_open_begin m p)) = Inl (closing_lease sid) \<and>
    CloseFrame sid (rl_identity l) \<in> set (pl_frames (snd (pool_open_begin m p)))"
proof -
  have "sid \<noteq> []" using assms(1) by (auto simp: required_string_def split: pyval.splits if_splits)
  with assms show ?thesis
    by (simp add: pool_open_begin_def open_begin_def abandon_open_def close_begin_def get_session_lease_def add_frame_def)
qed

lemma second_open_frees_replica:
  assumes "required_string m ''session_id'' = Inr sid" and "\<not> pl_session_shutdown p"
    and "od_get (pl_leases p) sid = Some l" and "\<not> rl_closing l" and "rl_replica_id l < pl_handles p"
    and "\<not> dead (rl_replica_id l)" and "p' = snd (close_locked dead sid (rl_identity l) (snd (pool_open_begin m p)))"
  shows "od_get (pl_leases p') sid = None \<and> pl_available p' = pl_available p @ [rl_replica_id l]"
proof -
  have "sid \<noteq> []" using assms(1) by (auto simp: required_string_def split: pyval.splits if_splits)
  with assms show ?thesis
    by (simp add: pool_open_begin_def open_begin_def abandon_open_def close_begin_def get_session_lease_def add_frame_def
        close_locked_def drop_frame_def lease_is_def drop_lease_def return_replica_def set_status_def)
qed

end
