(* ===== verification/Pipeline_Runner.thy ===== *)
theory Pipeline_Runner
  imports Pipeline_Contract
begin

text \<open>
  The runner of the generation service (\<open>telefuser/service/core/pipeline_runner.py\<close>): the arguments it
  hands to \<open>run_with_file\<close>, the result it makes of the outcome, and the run lock with its calls,
  time-outs, cancellations and the shutdown. The coroutines are split at their awaits; an
  interleaving is a list of events. What the pipeline returns or raises is an argument of an event.
\<close>

section \<open>The arguments of the entry point\<close>

datatype param_kind = Positional_Only | Var_Positional | By_Keyword | Var_Keyword

datatype argument = Given pyval | Stop_Event | Opened_Image pyval | Module_Config

definition is_skipped :: "param_kind \<Rightarrow> bool" where
  "is_skipped k = (k = Positional_Only \<or> k = Var_Positional)"

definition argument_for :: "(string, argument) odict \<Rightarrow> (string \<times> pyval) list \<Rightarrow> bool \<Rightarrow> string \<Rightarrow> argument option" where
  "argument_for call_data task_data has_config name =
     (case od_get call_data name of
        Some a \<Rightarrow> Some a
      | None \<Rightarrow>
          if name \<in> {''req_id'', ''request_id''} then map_option Given (od_get task_data ''task_id'')
          else if name \<in> {''image'', ''input_image''} then
            (let first_path = or_else (dget task_data ''first_image_path'') (dget task_data ''image_path'')
             in if truthy first_path then Some (Opened_Image first_path) else None)
          else if name = ''ppl_config'' \<and> has_config then Some Module_Config
          else None)"

definition add_argument ::
    "(string, argument) odict \<Rightarrow> (string \<times> pyval) list \<Rightarrow> bool \<Rightarrow> (string, argument) odict \<Rightarrow> string \<times> param_kind
     \<Rightarrow> (string, argument) odict" where
  "add_argument call_data task_data has_config kwargs p =
     (if is_skipped (snd p) then kwargs
      else case argument_for call_data task_data has_config (fst p) of
             None \<Rightarrow> kwargs | Some a \<Rightarrow> od_put (fst p) a kwargs)"

text \<open>\<open>None\<close> is a callable whose signature cannot be inspected.\<close>

definition select_kwargs ::
    "(string \<times> param_kind) list option \<Rightarrow> (string \<times> pyval) list \<Rightarrow> bool \<Rightarrow> bool \<Rightarrow> (string, argument) odict" where
  "select_kwargs sig task_data has_config has_stop =
     (case sig of
        None \<Rightarrow> od_map Given task_data
      | Some params \<Rightarrow>
          let data = od_map Given task_data;
              call_data = (if has_stop \<and> ''stop_event'' \<in> set (map fst params)
                           then od_put ''stop_event'' Stop_Event data else data)
          in if \<exists>p \<in> set params. snd p = Var_Keyword then call_data
             else foldl (add_argument call_data task_data has_config) [] params)"

section \<open>Results\<close>

datatype run_status = R_SUCCESS | R_ERROR | R_CANCELLED

record run_result =
  rr_status :: run_status
  rr_output_path :: "string option"
  rr_message :: string
  rr_raw :: "pyval option"

text \<open>What an invocation returns is a dictionary, a string or path, or something else; or it raises.\<close>

datatype invocation = Returned pyval | Raised string | Raised_Timeout

definition coerce_output_path :: "pyval \<Rightarrow> string option" where
  "coerce_output_path v = (if v = VNone then None else Some (py_str v))"

definition or_path :: "string option \<Rightarrow> string option \<Rightarrow> string option" where
  "or_path a b = (case a of None \<Rightarrow> b | Some x \<Rightarrow> if x = [] then b else Some x)"

definition raw_output_path :: "pyval \<Rightarrow> pyval" where
  "raw_output_path raw =
     (case raw of
        VDict d \<Rightarrow> or_else (dget d ''output_path'') (dget d ''uri'')
      | VStr s \<Rightarrow> VStr s
      | _ \<Rightarrow> VNone)"

definition timeout_result :: run_result where
  "timeout_result = \<lparr>rr_status = R_ERROR, rr_output_path = None, rr_message = ''Task processing timeout'', rr_raw = None\<rparr>"

definition cancelled_result :: "string \<Rightarrow> run_result" where
  "cancelled_result m = \<lparr>rr_status = R_CANCELLED, rr_output_path = None, rr_message = m, rr_raw = None\<rparr>"

definition invocation_result :: "(string \<times> pyval) list \<Rightarrow> invocation \<Rightarrow> run_result" where
  "invocation_result task_data out =
     (case out of
        Returned raw \<Rightarrow>
          \<lparr>rr_status = R_SUCCESS,
           rr_output_path = or_path (coerce_output_path (raw_output_path raw))
                              (coerce_output_path (dget task_data ''output_path'')),
           rr_message = ''Inference completed'', rr_raw = Some raw\<rparr>
      | Raised m \<Rightarrow> \<lparr>rr_status = R_ERROR, rr_output_path = None, rr_message = m, rr_raw = None\<rparr>
      | Raised_Timeout \<Rightarrow> timeout_result)"

section \<open>The run lock\<close>

datatype holder = Run_Call nat | Shutdown_Call

text \<open>A call of \<open>run\<close> waits for the lock, has an invocation in flight that it awaits, has left it behind
  after a time-out or a cancellation, or is over.\<close>

datatype call_phase = Waits | Invoked | Abandoned | Over

record call_state =
  cl_task_data :: "(string \<times> pyval) list"
  cl_deadline :: bool
  cl_phase :: call_phase
  cl_stop :: bool
  cl_result :: "run_result option"

record runner =
  pr_started :: bool
  pr_lock :: "holder option"
  pr_waiters :: "holder list"
  pr_calls :: "call_state list"

definition new_runner :: runner where
  "new_runner = \<lparr>pr_started = False, pr_lock = None, pr_waiters = [], pr_calls = []\<rparr>"

definition set_call :: "nat \<Rightarrow> call_state \<Rightarrow> runner \<Rightarrow> runner" where
  "set_call n c r = r\<lparr>pr_calls := (pr_calls r)[n := c]\<rparr>"

text \<open>\<open>run\<close> up to the wait for the lock. \<open>started\<close> is the outcome of starting the pipeline; an exception
  leaves \<open>run\<close> before anything else.\<close>

definition run_begin :: "(string \<times> pyval) list \<Rightarrow> bool \<Rightarrow> bool \<Rightarrow> bool \<Rightarrow> runner \<Rightarrow> runner" where
  "run_begin task_data stopped deadline started r =
     (let c = \<lparr>cl_task_data = task_data, cl_deadline = deadline, cl_phase = Over, cl_stop = stopped, cl_result = None\<rparr> in
      if stopped then
        r\<lparr>pr_calls := pr_calls r @ [c\<lparr>cl_result := Some (cancelled_result ''Task cancelled before start'')\<rparr>]\<rparr>
      else if \<not> pr_started r \<and> \<not> started then r\<lparr>pr_calls := pr_calls r @ [c]\<rparr>
      else
        r\<lparr>pr_started := True, pr_waiters := pr_waiters r @ [Run_Call (length (pr_calls r))],
          pr_calls := pr_calls r @ [c\<lparr>cl_phase := Waits\<rparr>]\<rparr>)"

definition finish_call :: "nat \<Rightarrow> run_result \<Rightarrow> runner \<Rightarrow> runner" where
  "finish_call n res r = set_call n ((pr_calls r ! n)\<lparr>cl_phase := Over, cl_result := Some res\<rparr>) r"

text \<open>The lock goes to the first that waits. A call that was stopped meanwhile gives it back at once.\<close>

definition grant_lock :: "runner \<Rightarrow> runner" where
  "grant_lock r =
     (case (pr_lock r, pr_waiters r) of
        (None, Shutdown_Call # rest) \<Rightarrow> r\<lparr>pr_lock := Some Shutdown_Call, pr_waiters := rest\<rparr>
      | (None, Run_Call n # rest) \<Rightarrow>
          if cl_stop (pr_calls r ! n) then
            finish_call n (cancelled_result ''Task cancelled before inference'') (r\<lparr>pr_waiters := rest\<rparr>)
          else set_call n ((pr_calls r ! n)\<lparr>cl_phase := Invoked\<rparr>) (r\<lparr>pr_lock := Some (Run_Call n), pr_waiters := rest\<rparr>)
      | _ \<Rightarrow> r)"

definition stop_call :: "nat \<Rightarrow> runner \<Rightarrow> runner" where
  "stop_call n r = set_call n ((pr_calls r ! n)\<lparr>cl_stop := True\<rparr>) r"

text \<open>The deadline passes while the call waits for the lock, or while it awaits its invocation.\<close>

definition time_out :: "nat \<Rightarrow> runner \<Rightarrow> runner" where
  "time_out n r =
     (let c = pr_calls r ! n in
      case cl_phase c of
        Waits \<Rightarrow>
          if cl_deadline c then
            set_call n (c\<lparr>cl_phase := Over, cl_stop := True, cl_result := Some timeout_result\<rparr>)
              (r\<lparr>pr_waiters := removeAll (Run_Call n) (pr_waiters r)\<rparr>)
          else r
      | Invoked \<Rightarrow>
          if cl_deadline c then
            set_call n (c\<lparr>cl_phase := Abandoned, cl_stop := True, cl_result := Some timeout_result\<rparr>) r
          else r
      | _ \<Rightarrow> r)"

text \<open>The caller is cancelled: nothing is returned.\<close>

definition cancel_call :: "nat \<Rightarrow> runner \<Rightarrow> runner" where
  "cancel_call n r =
     (let c = pr_calls r ! n in
      case cl_phase c of
        Waits \<Rightarrow> set_call n (c\<lparr>cl_phase := Over\<rparr>) (r\<lparr>pr_waiters := removeAll (Run_Call n) (pr_waiters r)\<rparr>)
      | Invoked \<Rightarrow> set_call n (c\<lparr>cl_phase := Abandoned, cl_stop := True\<rparr>) r
      | _ \<Rightarrow> r)"

text \<open>The invocation ends. The lock is released by the call, or by the callback when the call has gone.\<close>

definition invocation_end :: "nat \<Rightarrow> invocation \<Rightarrow> runner \<Rightarrow> runner" where
  "invocation_end n out r =
     (let c = pr_calls r ! n in
      case cl_phase c of
        Invoked \<Rightarrow>
          set_call n (c\<lparr>cl_phase := Over, cl_stop := (cl_stop c \<or> out = Raised_Timeout),
                        cl_result := Some (invocation_result (cl_task_data c) out)\<rparr>) (r\<lparr>pr_lock := None\<rparr>)
      | Abandoned \<Rightarrow> set_call n (c\<lparr>cl_phase := Over\<rparr>) (r\<lparr>pr_lock := None\<rparr>)
      | _ \<Rightarrow> r)"

definition shutdown_run :: "runner \<Rightarrow> runner" where
  "shutdown_run r = (if pr_started r then r\<lparr>pr_waiters := pr_waiters r @ [Shutdown_Call]\<rparr> else r)"

text \<open>The pipeline has stopped, or its stop has raised; the lock is released in either case.\<close>

definition shutdown_done :: "bool \<Rightarrow> runner \<Rightarrow> runner" where
  "shutdown_done raised r =
     (if pr_lock r = Some Shutdown_Call
      then r\<lparr>pr_lock := None, pr_started := (if raised then pr_started r else False)\<rparr> else r)"

datatype runner_event =
    Run_Begins "(string \<times> pyval) list" bool bool bool
  | Lock_Granted
  | Stop_Set nat
  | Time_Out nat
  | Call_Cancelled nat
  | Invocation_Ends nat invocation
  | Shutdown_Begins
  | Shutdown_Ends bool

fun runner_step :: "runner \<Rightarrow> runner_event \<Rightarrow> runner" where
  "runner_step r (Run_Begins d stopped deadline started) = run_begin d stopped deadline started r"
| "runner_step r Lock_Granted = grant_lock r"
| "runner_step r (Stop_Set n) = (if n < length (pr_calls r) then stop_call n r else r)"
| "runner_step r (Time_Out n) = (if n < length (pr_calls r) then time_out n r else r)"
| "runner_step r (Call_Cancelled n) = (if n < length (pr_calls r) then cancel_call n r else r)"
| "runner_step r (Invocation_Ends n out) = (if n < length (pr_calls r) then invocation_end n out r else r)"
| "runner_step r Shutdown_Begins = shutdown_run r"
| "runner_step r (Shutdown_Ends raised) = shutdown_done raised r"

section \<open>One inference at a time\<close>

definition in_flight :: "runner \<Rightarrow> nat set" where
  "in_flight r = {n. n < length (pr_calls r) \<and> cl_phase (pr_calls r ! n) \<in> {Invoked, Abandoned}}"

definition waiting_calls :: "runner \<Rightarrow> nat set" where
  "waiting_calls r = {n. n < length (pr_calls r) \<and> cl_phase (pr_calls r ! n) = Waits}"

definition call_ok :: "call_state \<Rightarrow> bool" where
  "call_ok c \<longleftrightarrow> (cl_phase c \<in> {Waits, Invoked} \<longrightarrow> cl_result c = None) \<and> (cl_phase c = Abandoned \<longrightarrow> cl_stop c)"

definition runner_ok :: "runner \<Rightarrow> bool" where
  "runner_ok r \<longleftrightarrow>
     in_flight r = {n. pr_lock r = Some (Run_Call n)} \<and>
     waiting_calls r = {n. Run_Call n \<in> set (pr_waiters r)} \<and>
     distinct (filter (\<lambda>h. h \<noteq> Shutdown_Call) (pr_waiters r)) \<and>
     (\<forall>c \<in> set (pr_calls r). call_ok c)"

lemma set_call_parts [simp]:
  "pr_lock (set_call n c r) = pr_lock r" "pr_waiters (set_call n c r) = pr_waiters r"
  "length (pr_calls (set_call n c r)) = length (pr_calls r)" "pr_started (set_call n c r) = pr_started r"
  by (simp_all add: set_call_def)

lemma in_flight_set:
  "n < length (pr_calls r) \<Longrightarrow>
     in_flight (set_call n c r) = (if cl_phase c \<in> {Invoked, Abandoned} then insert n (in_flight r) else in_flight r - {n})"
  by (auto simp: in_flight_def set_call_def nth_put split: if_splits)

lemma waiting_set:
  "n < length (pr_calls r) \<Longrightarrow>
     waiting_calls (set_call n c r) = (if cl_phase c = Waits then insert n (waiting_calls r) else waiting_calls r - {n})"
  by (auto simp: waiting_calls_def set_call_def nth_put split: if_splits)

lemma flight_fields [simp]:
  "in_flight (r\<lparr>pr_lock := l\<rparr>) = in_flight r" "in_flight (r\<lparr>pr_waiters := w\<rparr>) = in_flight r"
  "in_flight (r\<lparr>pr_started := b\<rparr>) = in_flight r" "waiting_calls (r\<lparr>pr_lock := l\<rparr>) = waiting_calls r"
  "waiting_calls (r\<lparr>pr_waiters := w\<rparr>) = waiting_calls r" "waiting_calls (r\<lparr>pr_started := b\<rparr>) = waiting_calls r"
  by (simp_all add: in_flight_def waiting_calls_def)

lemma new_call_sets:
  "in_flight (r\<lparr>pr_calls := pr_calls r @ [c]\<rparr>) =
     (if cl_phase c \<in> {Invoked, Abandoned} then insert (length (pr_calls r)) (in_flight r) else in_flight r)"
  "waiting_calls (r\<lparr>pr_calls := pr_calls r @ [c]\<rparr>) =
     (if cl_phase c = Waits then insert (length (pr_calls r)) (waiting_calls r) else waiting_calls r)"
  by (auto simp: in_flight_def waiting_calls_def nth_append less_Suc_eq)

lemma runner_okD:
  assumes "runner_ok r" and "n < length (pr_calls r)"
  shows "cl_phase (pr_calls r ! n) \<in> {Invoked, Abandoned} \<longleftrightarrow> pr_lock r = Some (Run_Call n)"
    "cl_phase (pr_calls r ! n) = Waits \<longleftrightarrow> Run_Call n \<in> set (pr_waiters r)" "call_ok (pr_calls r ! n)"
  using assms by (auto simp: runner_ok_def in_flight_def waiting_calls_def set_eq_iff)

lemma distinct_filter_conj: "distinct (filter P xs) \<Longrightarrow> distinct (filter (\<lambda>x. P x \<and> Q x) xs)"
  by (induction xs) (auto split: if_splits)

text \<open>A call changes its phase; \<open>l\<close> and \<open>w\<close> are the lock and the waiters afterwards.\<close>

lemma runner_ok_set:
  assumes "runner_ok r" and "n < length (pr_calls r)" and "call_ok c"
    and "if cl_phase c \<in> {Invoked, Abandoned} then l = Some (Run_Call n) \<and> (\<forall>m. pr_lock r = Some (Run_Call m) \<longrightarrow> m = n)
         else if pr_lock r = Some (Run_Call n) then l = None else l = pr_lock r"
    and "if cl_phase c = Waits then w = pr_waiters r \<and> Run_Call n \<in> set w else w = removeAll (Run_Call n) (pr_waiters r)"
  shows "runner_ok (set_call n c (r\<lparr>pr_lock := l, pr_waiters := w\<rparr>))"
proof -
  have d: "distinct (filter (\<lambda>h. h \<noteq> Shutdown_Call) (removeAll (Run_Call n) (pr_waiters r)))"
    using assms(1) by (simp add: runner_ok_def removeAll_filter_not_eq distinct_filter filter_filter conj_commute distinct_filter_conj)
  have c: "\<forall>x \<in> set ((pr_calls r)[n := c]). call_ok x"
    using assms(1,3) set_update_subset_insert [of "pr_calls r" n c] by (auto simp: runner_ok_def)
  have l: "n < length (pr_calls (r\<lparr>pr_lock := l, pr_waiters := w\<rparr>))" using assms(2) by simp
  have f: "in_flight (set_call n c (r\<lparr>pr_lock := l, pr_waiters := w\<rparr>)) = {m. l = Some (Run_Call m)}"
    using assms(1,4) unfolding in_flight_set [OF l] by (auto simp: runner_ok_def split: if_splits)
  have g: "waiting_calls (set_call n c (r\<lparr>pr_lock := l, pr_waiters := w\<rparr>)) = {m. Run_Call m \<in> set w}"
    using assms(1,5) unfolding waiting_set [OF l] by (auto simp: runner_ok_def split: if_splits)
  from f g d c assms(1,5) show ?thesis
    by (auto simp: runner_ok_def set_call_def split: if_splits)
qed

lemma same_runner [simp]: "r\<lparr>pr_lock := pr_lock r\<rparr> = r" "r\<lparr>pr_waiters := pr_waiters r\<rparr> = r"
  by simp_all

lemma run_begin_ok:
  assumes "runner_ok r"
  shows "runner_ok (run_begin d stopped deadline started r)"
proof -
  have n: "Run_Call (length (pr_calls r)) \<notin> set (pr_waiters r)" "pr_lock r \<noteq> Some (Run_Call (length (pr_calls r)))"
    using assms by (auto simp: runner_ok_def in_flight_def waiting_calls_def set_eq_iff)
  have k: "runner_ok (r\<lparr>pr_calls := pr_calls r @ [c]\<rparr>)" if "cl_phase c = Over" for c
    using assms that new_call_sets [of r c] by (simp add: runner_ok_def call_ok_def)
  have "runner_ok (r\<lparr>pr_started := True, pr_waiters := pr_waiters r @ [Run_Call (length (pr_calls r))],
      pr_calls := pr_calls r @ [c]\<rparr>)" if "cl_phase c = Waits" "cl_result c = None" for c
    using assms that n new_call_sets [of "r\<lparr>pr_started := True, pr_waiters := pr_waiters r @ [Run_Call (length (pr_calls r))]\<rparr>" c]
    by (auto simp: runner_ok_def call_ok_def)
  with k show ?thesis by (simp add: run_begin_def Let_def)
qed

lemma removeAll_id_distinct: "distinct (filter P (x # xs)) \<Longrightarrow> P x \<Longrightarrow> removeAll x xs = xs"
  by (simp add: removeAll_id)

lemma grant_lock_ok:
  assumes "runner_ok r"
  shows "runner_ok (grant_lock r)"
proof (cases "pr_lock r")
  case None
  show ?thesis
  proof (cases "pr_waiters r")
    case (Cons h rest)
    show ?thesis
    proof (cases h)
      case Shutdown_Call
      then show ?thesis using assms None Cons by (auto simp: grant_lock_def runner_ok_def)
    next
      case (Run_Call n)
      have n: "n < length (pr_calls r)" "cl_phase (pr_calls r ! n) = Waits"
        using assms Cons Run_Call by (auto simp: runner_ok_def waiting_calls_def set_eq_iff)
      have d: "removeAll (Run_Call n) (pr_waiters r) = rest"
        using assms removeAll_id_distinct [of "\<lambda>h. h \<noteq> Shutdown_Call" "Run_Call n" rest]
        by (simp add: Cons Run_Call runner_ok_def)
      have e: "r\<lparr>pr_lock := None, pr_waiters := rest\<rparr> = r\<lparr>pr_waiters := rest\<rparr>" using None by simp
      have "runner_ok (set_call n ((pr_calls r ! n)\<lparr>cl_phase := Over, cl_result := x\<rparr>) (r\<lparr>pr_waiters := rest\<rparr>))" for x
        using runner_ok_set [OF assms n(1), of "(pr_calls r ! n)\<lparr>cl_phase := Over, cl_result := x\<rparr>" None rest] None d e
        by (simp add: call_ok_def)
      moreover have "runner_ok (set_call n ((pr_calls r ! n)\<lparr>cl_phase := Invoked\<rparr>) (r\<lparr>pr_lock := Some (Run_Call n), pr_waiters := rest\<rparr>))"
        using runner_ok_set [OF assms n(1), of "(pr_calls r ! n)\<lparr>cl_phase := Invoked\<rparr>" "Some (Run_Call n)" rest] None d
          runner_okD(3) [OF assms n(1)] n(2) by (simp add: call_ok_def)
      ultimately show ?thesis by (simp add: grant_lock_def None Cons Run_Call finish_call_def)
    qed
  qed (simp add: grant_lock_def None assms)
qed (simp add: grant_lock_def assms)

lemma runner_ok_call:
  assumes "runner_ok r" and "n < length (pr_calls r)" and "call_ok c"
    and "cl_phase c \<in> {Invoked, Abandoned} \<longleftrightarrow> cl_phase (pr_calls r ! n) \<in> {Invoked, Abandoned}"
    and "cl_phase c = Waits \<longleftrightarrow> cl_phase (pr_calls r ! n) = Waits"
  shows "runner_ok (set_call n c r)"
proof -
  note d = runner_okD(1,2) [OF assms(1,2)]
  have "Run_Call n \<notin> set (pr_waiters r) \<Longrightarrow> removeAll (Run_Call n) (pr_waiters r) = pr_waiters r" by simp
  with runner_ok_set [OF assms(1-3), of "pr_lock r" "pr_waiters r"] assms(4,5) d show ?thesis by (simp split: if_splits)
qed

lemma leave_queue_ok:
  assumes "runner_ok r" and "n < length (pr_calls r)" and "cl_phase (pr_calls r ! n) = Waits" and "cl_phase c = Over"
  shows "runner_ok (set_call n c (r\<lparr>pr_waiters := removeAll (Run_Call n) (pr_waiters r)\<rparr>))"
  using runner_ok_set [OF assms(1,2), of c "pr_lock r" "removeAll (Run_Call n) (pr_waiters r)"] assms(3,4)
    runner_okD(1) [OF assms(1,2)]
  by (simp add: call_ok_def)

lemma free_lock_ok:
  assumes "runner_ok r" and "n < length (pr_calls r)" and "cl_phase (pr_calls r ! n) \<in> {Invoked, Abandoned}" and "cl_phase c = Over"
  shows "runner_ok (set_call n c (r\<lparr>pr_lock := None\<rparr>))"
proof -
  note d = runner_okD(1,2) [OF assms(1,2)]
  have w: "removeAll (Run_Call n) (pr_waiters r) = pr_waiters r" using d(2) assms(3) by auto
  show ?thesis using runner_ok_set [OF assms(1,2), of c None "pr_waiters r"] assms(3,4) d(1) w by (simp add: call_ok_def)
qed

lemma time_out_ok: "runner_ok r \<Longrightarrow> n < length (pr_calls r) \<Longrightarrow> runner_ok (time_out n r)"
  by (auto simp: time_out_def Let_def call_ok_def intro!: leave_queue_ok runner_ok_call split: call_phase.split)

lemma cancel_call_ok: "runner_ok r \<Longrightarrow> n < length (pr_calls r) \<Longrightarrow> runner_ok (cancel_call n r)"
  by (auto simp: cancel_call_def Let_def call_ok_def intro!: leave_queue_ok runner_ok_call split: call_phase.split)

lemma invocation_end_ok: "runner_ok r \<Longrightarrow> n < length (pr_calls r) \<Longrightarrow> runner_ok (invocation_end n out r)"
  by (auto simp: invocation_end_def Let_def intro!: free_lock_ok split: call_phase.split)

lemma stop_call_ok: "runner_ok r \<Longrightarrow> n < length (pr_calls r) \<Longrightarrow> runner_ok (stop_call n r)"
  using runner_okD(3) [of r n] by (auto simp: stop_call_def call_ok_def intro!: runner_ok_call)

lemma runner_shutdown_ok: "runner_ok r \<Longrightarrow> runner_ok (shutdown_run r)" "runner_ok r \<Longrightarrow> runner_ok (shutdown_done raised r)"
  by (auto simp: shutdown_run_def shutdown_done_def runner_ok_def)

lemma runner_ok_step: "runner_ok r \<Longrightarrow> runner_ok (runner_step r ev)"
  by (cases ev) (simp_all add: run_begin_ok grant_lock_ok time_out_ok cancel_call_ok invocation_end_ok stop_call_ok runner_shutdown_ok)

interpretation runner: invariant_machine runner_step runner_ok
  by unfold_locales (rule runner_ok_step)

lemma runner_ok_new [simp]: "runner_ok new_runner"
  by (simp add: runner_ok_def new_runner_def in_flight_def waiting_calls_def)

lemma runner_reached: "runner_ok (foldl runner_step new_runner es)"
  by (rule runner.inv_run) simp

text \<open>A task, a second one that waits, a time-out of the first while its inference goes on, and its late end.\<close>

definition demo_runs :: "runner_event list" where
  "demo_runs = [Run_Begins [] False True True, Lock_Granted, Run_Begins [(''output_path'', VStr ''b'')] False False True,
     Time_Out 0, Lock_Granted]"

text \<open>C6: The pipeline runs at most one inference at a time, also when a call has timed out or was cancelled:
  an inference is in flight exactly when its call holds the run lock, a call that has left its inference
  behind has told it to stop, and no call that waits or is being served has a result.\<close>

theorem one_inference_at_a_time:
  assumes "r = foldl runner_step new_runner es"
  shows "in_flight r = {n. pr_lock r = Some (Run_Call n)} \<and>
    (\<forall>n < length (pr_calls r). (cl_phase (pr_calls r ! n) = Abandoned \<longrightarrow> cl_stop (pr_calls r ! n)) \<and>
       (cl_phase (pr_calls r ! n) \<in> {Waits, Invoked} \<longrightarrow> cl_result (pr_calls r ! n) = None))"
  using runner_reached [of es] unfolding assms by (simp add: runner_ok_def call_ok_def)

lemma one_inference_at_a_time_witness:
  "in_flight (foldl runner_step new_runner demo_runs) = {0} \<and> cl_stop (pr_calls (foldl runner_step new_runner demo_runs) ! 0)"
proof -
  have "pr_lock (foldl runner_step new_runner demo_runs) = Some (Run_Call 0)" "0 < length (pr_calls (foldl runner_step new_runner demo_runs))"
    "cl_phase (pr_calls (foldl runner_step new_runner demo_runs) ! 0) = Abandoned"
    by code_simp+
  with one_inference_at_a_time [OF refl, of demo_runs] show ?thesis by auto
qed

text \<open>The pipeline is started before the wait for the lock and not looked at again: a call that waits behind
  a shutdown runs its inference on the pipeline that the shutdown has stopped.\<close>

lemma inference_after_shutdown:
  "\<not> pr_started (foldl runner_step new_runner [Run_Begins [] False False True, Lock_Granted, Shutdown_Begins,
     Run_Begins [] False False True, Invocation_Ends 0 (Returned VNone), Lock_Granted, Shutdown_Ends False, Lock_Granted])"
  "pr_lock (foldl runner_step new_runner [Run_Begins [] False False True, Lock_Granted, Shutdown_Begins,
     Run_Begins [] False False True, Invocation_Ends 0 (Returned VNone), Lock_Granted, Shutdown_Ends False, Lock_Granted]) =
   Some (Run_Call 1)"
  by code_simp+

section \<open>Keyword arguments\<close>

text \<open>An entry point without \<open>**kwargs\<close> is given only arguments that it names.\<close>

lemma add_argument_names: "set (od_keys (add_argument cd td hc kw p)) \<subseteq> insert (fst p) (set (od_keys kw))"
  by (auto simp: add_argument_def split: option.splits)

lemma fold_arguments_names: "set (od_keys (foldl (add_argument cd td hc) kw ps)) \<subseteq> set (od_keys kw) \<union> set (map fst ps)"
proof (induction ps arbitrary: kw)
  case (Cons p ps)
  show ?case using Cons [of "add_argument cd td hc kw p"] add_argument_names [of cd td hc kw p] by auto
qed simp

lemma kwargs_named:
  assumes "\<forall>p \<in> set params. snd p \<noteq> Var_Keyword"
  shows "set (od_keys (select_kwargs (Some params) td hc hs)) \<subseteq> set (map fst params)"
proof -
  have "\<not> (\<exists>p \<in> set params. snd p = Var_Keyword)" using assms by blast
  then show ?thesis
    using fold_arguments_names [where kw = "[]" and ps = params]
    by (simp only: select_kwargs_def Let_def option.case if_False) simp
qed

end
