(* ===== verification/Task_Processor.thy ===== *)
theory Task_Processor
  imports Task_Manager Pipeline_Runner
begin

text \<open>
  The execution side of the generation service: what a media or structured task makes of the result of
  its run (\<open>telefuser/service/core/task_service.py\<close>), and the workers that claim tasks from the task
  manager and bring them to an end (\<open>telefuser/service/core/task_processor.py\<close>). Downloads, the cache
  and the run itself are the environment; their outcomes are arguments.
\<close>

section \<open>Executing a task\<close>

record response =
  rs_output_path :: "string option"
  rs_peak_memory_mb :: "rat option"
  rs_inference_time_s :: "rat option"
  rs_result :: "pyval option"

text \<open>A response, \<open>None\<close>, or an exception with its text.\<close>

datatype execution = Response response | No_Response | Execution_Error string

text \<open>The dictionary of \<open>run_task_with_stop_event\<close>: a result of the runner with the measured facts.\<close>

record measured =
  ms_result :: run_result
  ms_peak_memory_mb :: "rat option"
  ms_inference_time_s :: "rat option"

definition message_or :: "string \<Rightarrow> string \<Rightarrow> string" where
  "message_or m d = (if m = [] then d else m)"

definition path_or :: "string option \<Rightarrow> string \<Rightarrow> string" where
  "path_or p d = (case p of None \<Rightarrow> d | Some x \<Rightarrow> if x = [] then d else x)"

text \<open>\<open>generate_media_with_stop_event\<close>: the stop event before, the error of a download or of the output
  path, the outcome of the run, and the stop event after it.\<close>

definition media_execution ::
    "bool \<Rightarrow> string option \<Rightarrow> string \<Rightarrow> string + measured option \<Rightarrow> bool \<Rightarrow> execution" where
  "media_execution stopped prepared save_path run stopped_after =
     (if stopped then No_Response
      else case prepared of Some e \<Rightarrow> Execution_Error e
      | None \<Rightarrow>
        (case run of
           Inl e \<Rightarrow> Execution_Error e
         | Inr None \<Rightarrow> if stopped_after then No_Response else Execution_Error ''Task processing timeout''
         | Inr (Some m) \<Rightarrow>
             if rr_status (ms_result m) = R_SUCCESS then
               Response \<lparr>rs_output_path = Some (path_or (rr_output_path (ms_result m)) save_path),
                 rs_peak_memory_mb = ms_peak_memory_mb m, rs_inference_time_s = ms_inference_time_s m, rs_result = None\<rparr>
             else Execution_Error (message_or (rr_message (ms_result m)) ''Inference failed'')))"

text \<open>\<open>execute_with_stop_event\<close>; every value of the model is finite and can be written as JSON.\<close>

definition structured_execution :: "bool \<Rightarrow> string + measured option \<Rightarrow> bool \<Rightarrow> execution" where
  "structured_execution stopped run stopped_after =
     (if stopped then No_Response
      else case run of
        Inl e \<Rightarrow> Execution_Error e
      | Inr None \<Rightarrow> if stopped_after then No_Response else Execution_Error ''Task processing timeout''
      | Inr (Some m) \<Rightarrow>
          if rr_status (ms_result m) \<noteq> R_SUCCESS then
            Execution_Error (message_or (rr_message (ms_result m)) ''Inference failed'')
          else case rr_raw (ms_result m) of
            Some (VDict d) \<Rightarrow>
              Response \<lparr>rs_output_path = None, rs_peak_memory_mb = ms_peak_memory_mb m,
                rs_inference_time_s = ms_inference_time_s m, rs_result = Some (VDict d)\<rparr>
          | _ \<Rightarrow> Execution_Error ''Structured pipeline entrypoint must return a JSON object'')"

section \<open>The workers\<close>

text \<open>A worker waits, has claimed a task, or executes one. It holds the task object, not its id: a task
  of the same id that is created later is another object, told apart by the number of creations of the
  id. \<open>tp_gone\<close> keeps the status of the objects that have left the table.\<close>

datatype worker = Idle | Claimed string | Executing string nat

record processor =
  tp_manager :: task_manager
  tp_born :: "(string, nat) odict"
  tp_gone :: "(string \<times> nat, task_status) odict"
  tp_workers :: "worker list"
  tp_running :: bool
  tp_max_concurrent :: nat
  tp_orphans :: "string list"

definition new_processor :: "task_manager \<Rightarrow> nat \<Rightarrow> processor" where
  "new_processor m n = \<lparr>tp_manager = m, tp_born = [], tp_gone = [], tp_workers = [], tp_running = False,
     tp_max_concurrent = n, tp_orphans = []\<rparr>"

definition births :: "(string, nat) odict \<Rightarrow> string \<Rightarrow> nat" where
  "births b tid = (case od_get b tid of None \<Rightarrow> 0 | Some n \<Rightarrow> n)"

definition note_gone :: "task_manager \<Rightarrow> (string, nat) odict \<Rightarrow> task_manager \<Rightarrow> (string \<times> nat, task_status) odict
    \<Rightarrow> (string \<times> nat, task_status) odict" where
  "note_gone old b new g =
     foldl (\<lambda>g (k, t). if od_get (tm_tasks new) k = None then od_put (k, births b k) (ti_status t) g else g) g (tm_tasks old)"

text \<open>\<open>task_info.status\<close> of the object that a worker holds.\<close>

definition object_status :: "string \<Rightarrow> nat \<Rightarrow> processor \<Rightarrow> task_status option" where
  "object_status tid n p =
     (case od_get (tp_gone p) (tid, n) of
        Some s \<Rightarrow> Some s
      | None \<Rightarrow> if births (tp_born p) tid = n then map_option ti_status (od_get (tm_tasks (tp_manager p)) tid) else None)"

definition submit_task :: "rat \<Rightarrow> string \<Rightarrow> task_message option \<Rightarrow> processor \<Rightarrow> string res \<times> processor" where
  "submit_task now uuid msg p =
     (case create_task now uuid msg (tp_manager p) of
        (Inl e, m) \<Rightarrow> (Inl e, p\<lparr>tp_manager := m\<rparr>)
      | (Inr tid, m) \<Rightarrow>
          (Inr tid, p\<lparr>tp_manager := m, tp_gone := note_gone (tp_manager p) (tp_born p) m (tp_gone p),
                      tp_born := od_put tid (births (tp_born p) tid + 1) (tp_born p)\<rparr>))"

definition start_processor :: "processor \<Rightarrow> processor" where
  "start_processor p =
     (if tp_running p then p else p\<lparr>tp_running := True, tp_workers := tp_workers p @ replicate (tp_max_concurrent p) Idle\<rparr>)"

definition worker_claims :: "nat \<Rightarrow> rat \<Rightarrow> processor \<Rightarrow> processor" where
  "worker_claims w now p =
     (case claim_next_pending_task now (tp_manager p) of
        (None, m) \<Rightarrow> p\<lparr>tp_manager := m\<rparr>
      | (Some tid, m) \<Rightarrow> p\<lparr>tp_manager := m, tp_workers := (tp_workers p)[w := Claimed tid]\<rparr>)"

text \<open>The \<open>finally\<close> of \<open>_process_task\<close>.\<close>

definition put_down :: "nat \<Rightarrow> string \<Rightarrow> processor \<Rightarrow> processor" where
  "put_down w tid p =
     p\<lparr>tp_manager := release_processing_slot tid (tp_manager p), tp_workers := (tp_workers p)[w := Idle]\<rparr>"

definition begin_processing :: "nat \<Rightarrow> string \<Rightarrow> processor \<Rightarrow> processor" where
  "begin_processing w tid p =
     (case get_task tid (tp_manager p) of
        None \<Rightarrow> put_down w tid p
      | Some t \<Rightarrow>
          if ti_status t = T_CANCELLED \<or> ti_stop_event t then put_down w tid p
          else p\<lparr>tp_workers := (tp_workers p)[w := Executing tid (births (tp_born p) tid)]\<rparr>)"

definition record_execution :: "rat \<Rightarrow> string \<Rightarrow> nat \<Rightarrow> execution \<Rightarrow> processor \<Rightarrow> processor" where
  "record_execution now tid n x p =
     (case x of
        Response r \<Rightarrow>
          p\<lparr>tp_manager := complete_task now tid (rs_output_path r) (rs_peak_memory_mb r) (rs_inference_time_s r)
                            (rs_result r) (tp_manager p)\<rparr>
      | No_Response \<Rightarrow>
          if object_status tid n p = Some T_CANCELLED then p
          else p\<lparr>tp_manager := fail_task now tid ''Generation failed'' (tp_manager p)\<rparr>
      | Execution_Error e \<Rightarrow>
          if object_status tid n p = Some T_CANCELLED then p
          else p\<lparr>tp_manager := fail_task now tid e (tp_manager p)\<rparr>)"

definition finish_processing :: "rat \<Rightarrow> nat \<Rightarrow> string \<Rightarrow> nat \<Rightarrow> execution \<Rightarrow> processor \<Rightarrow> processor" where
  "finish_processing now w tid n x p = put_down w tid (record_execution now tid n x p)"

text \<open>A cancelled worker only gives its slot back: \<open>CancelledError\<close> is not an \<open>Exception\<close>.\<close>

fun cancel_workers :: "worker list \<Rightarrow> processor \<Rightarrow> processor" where
  "cancel_workers [] p = p"
| "cancel_workers (Idle # ws) p = cancel_workers ws p"
| "cancel_workers (Claimed tid # ws) p =
     cancel_workers ws (p\<lparr>tp_manager := release_processing_slot tid (tp_manager p), tp_orphans := tid # tp_orphans p\<rparr>)"
| "cancel_workers (Executing tid n # ws) p =
     cancel_workers ws (p\<lparr>tp_manager := release_processing_slot tid (tp_manager p), tp_orphans := tid # tp_orphans p\<rparr>)"

definition stop_processor :: "processor \<Rightarrow> processor" where
  "stop_processor p =
     (if tp_running p then (cancel_workers (tp_workers p) p)\<lparr>tp_running := False, tp_workers := []\<rparr> else p)"

datatype proc_event =
    Submits rat string "task_message option"
  | Cancels rat string
  | Cancels_All rat
  | Capacity_Changes rat int
  | Processor_Starts
  | Processor_Stops
  | Worker_Claims nat rat
  | Worker_Begins nat
  | Worker_Finishes rat nat execution

definition worker_at :: "nat \<Rightarrow> processor \<Rightarrow> worker option" where
  "worker_at w p = (if w < length (tp_workers p) then Some (tp_workers p ! w) else None)"

definition proc_step :: "processor \<Rightarrow> proc_event \<Rightarrow> processor" where
  "proc_step p ev =
     (case ev of
        Submits now uuid msg \<Rightarrow> snd (submit_task now uuid msg p)
      | Cancels now tid \<Rightarrow> p\<lparr>tp_manager := snd (cancel_task now tid (tp_manager p))\<rparr>
      | Cancels_All now \<Rightarrow> p\<lparr>tp_manager := cancel_all_tasks now (tp_manager p)\<rparr>
      | Capacity_Changes now n \<Rightarrow> p\<lparr>tp_manager := set_max_concurrent_processing now n (tp_manager p)\<rparr>
      | Processor_Starts \<Rightarrow> start_processor p
      | Processor_Stops \<Rightarrow> stop_processor p
      | Worker_Claims w now \<Rightarrow> (case worker_at w p of Some Idle \<Rightarrow> worker_claims w now p | _ \<Rightarrow> p)
      | Worker_Begins w \<Rightarrow> (case worker_at w p of Some (Claimed tid) \<Rightarrow> begin_processing w tid p | _ \<Rightarrow> p)
      | Worker_Finishes now w x \<Rightarrow>
          (case worker_at w p of Some (Executing tid n) \<Rightarrow> finish_processing now w tid n x p | _ \<Rightarrow> p))"

text \<open>Clients that never give an id a second time.\<close>

definition fresh_event :: "processor \<Rightarrow> proc_event \<Rightarrow> bool" where
  "fresh_event p ev =
     (case ev of
        Submits now uuid msg \<Rightarrow>
          od_get (tp_born p) (case msg_task_id_of msg of Some tid \<Rightarrow> tid | None \<Rightarrow> uuid) = None
      | _ \<Rightarrow> True)"

fun no_reuse :: "processor \<Rightarrow> proc_event list \<Rightarrow> bool" where
  "no_reuse p [] = True"
| "no_reuse p (ev # evs) = (fresh_event p ev \<and> no_reuse (proc_step p ev) evs)"

section \<open>What the operations of the task manager do to statuses and slots\<close>

abbreviation status_of :: "task_manager \<Rightarrow> string \<Rightarrow> task_status option" where
  "status_of m k \<equiv> status_at (tm_tasks m) k"

text \<open>Slots stay as they are; a pending task may fail, and any task may be cancelled.\<close>

definition eases :: "task_status option \<Rightarrow> task_status option \<Rightarrow> bool" where
  "eases a b \<longleftrightarrow> b = a \<or> a = Some T_PENDING \<and> b = Some T_FAILED \<or> a \<noteq> None \<and> b = Some T_CANCELLED"

definition mild :: "task_manager \<Rightarrow> task_manager \<Rightarrow> bool" where
  "mild m m' \<longleftrightarrow> tm_processing m' = tm_processing m \<and> (\<forall>k. eases (status_of m k) (status_of m' k))"

lemma eases_refl [simp]: "eases a a"
  by (simp add: eases_def)

lemma eases_trans: "eases a b \<Longrightarrow> eases b c \<Longrightarrow> eases a c"
  by (auto simp: eases_def)

lemma mild_refl [simp]: "mild m m"
  by (simp add: mild_def)

lemma mild_trans: "mild m m' \<Longrightarrow> mild m' m'' \<Longrightarrow> mild m m''"
  by (simp add: mild_def) (meson eases_trans)

lemma mild_cancel: "mild m (snd (cancel_task now k m))"
  by (cases "od_get (tm_tasks m) k") (auto simp: cancel_task_def mild_def eases_def Let_def)

lemma mild_cancel_all: "mild m (cancel_all_tasks now m)"
proof -
  let ?f = "\<lambda>m' (k, t). if active_status (ti_status t) then snd (cancel_task now k m') else m'"
  have "mild m (foldl ?f m kts)" for kts m
  proof (induction kts arbitrary: m)
    case (Cons kt kts)
    have "mild m (?f m kt)" by (cases kt) (simp add: mild_cancel)
    from mild_trans [OF this Cons [of "?f m kt"]] show ?case by simp
  qed simp
  then show ?thesis by (simp add: cancel_all_tasks_def)
qed

lemma mild_fail_all: "mild m (fail_all_pending now e (m\<lparr>tm_max_concurrent := n, tm_zero_capacity := z\<rparr>))"
proof -
  have "eases (status_of m k) (map_option ti_status (map_option (fail_pending_info now e) (od_get (tm_tasks m) k)))" for k
    by (cases "od_get (tm_tasks m) k") (simp_all add: eases_def)
  then show ?thesis by (simp add: mild_def fail_all_pending_def Let_def)
qed

lemma mild_set_max: "mild m (set_max_concurrent_processing now n m)"
  using mild_fail_all [of m now dead_error True 0]
  by (auto simp: set_max_concurrent_processing_def Let_def mild_def)

lemma claim_cases:
  assumes "tm_inv m"
  obtains (no_claim) m' where "claim_next_pending_task now m = (None, m')" "mild m m'"
  | (claimed) k m' where "claim_next_pending_task now m = (Some k, m')" "status_of m k = Some T_PENDING"
      "tm_processing m' = od_put k True (tm_processing m)" "status_of m' = (status_of m)(k \<mapsto> T_PROCESSING)"
proof (cases "fst (claim_next_pending_task now m)")
  case None
  have M: "mild m (snd (claim_next_pending_task now m))"
    using None mild_fail_all [of m now dead_error "tm_zero_capacity m" "tm_max_concurrent m"]
    by (auto simp: claim_next_pending_task_def Let_def split: if_splits option.splits)
  show ?thesis by (rule no_claim [of "snd (claim_next_pending_task now m)"]) (use None M in \<open>simp_all add: prod_eq_iff\<close>)
next
  case (Some k)
  then have p: "first_pending (tm_tasks m) = Some k"
    by (auto simp: claim_next_pending_task_def Let_def split: if_splits option.splits)
  have "od_ok (tm_tasks m)" using assms by (simp add: tm_inv_def)
  from first_pending_get [OF this p] obtain t where t: "od_get (tm_tasks m) k = Some t" "ti_status t = T_PENDING" by blast
  show ?thesis
    by (rule claimed [of k "snd (claim_next_pending_task now m)"])
      (use Some p t in \<open>auto simp: claim_next_pending_task_def Let_def split: if_splits\<close>)
qed

lemma complete_status:
  "tm_processing (complete_task now k out peak secs res m) = tm_processing m"
  "status_of (complete_task now k out peak secs res m) j =
     (if j = k \<and> pred_option active_status (status_of m k) \<and> status_of m k \<noteq> None then Some T_COMPLETED else status_of m j)"
  by (auto simp: complete_task_def Let_def active_terminal split: option.splits)

lemma fail_status:
  "tm_processing (fail_task now k e m) = tm_processing m"
  "status_of (fail_task now k e m) j =
     (if j = k \<and> pred_option active_status (status_of m k) \<and> status_of m k \<noteq> None then Some T_FAILED else status_of m j)"
  by (auto simp: fail_task_def Let_def active_terminal split: option.splits)

lemma release_status [simp]:
  "tm_processing (release_processing_slot k m) = od_del k (tm_processing m)"
  "status_of (release_processing_slot k m) j = status_of m j"
  by (auto simp: release_processing_slot_def Let_def split: option.splits)

lemma cleanup_status:
  assumes "od_ok (tm_tasks m)"
  shows "tm_processing (cleanup_old_tasks m) = tm_processing m"
    "status_of (cleanup_old_tasks m) k = status_of m k \<or>
       status_of (cleanup_old_tasks m) k = None \<and> pred_option terminal_status (status_of m k)"
proof -
  show "tm_processing (cleanup_old_tasks m) = tm_processing m" by (simp add: cleanup_old_tasks_def Let_def)
  show "status_of (cleanup_old_tasks m) k = status_of m k \<or>
       status_of (cleanup_old_tasks m) k = None \<and> pred_option terminal_status (status_of m k)"
  proof (cases "k \<in> set (map fst (take (nat (int (length (tm_tasks m)) - cleanup_keep_count m))
      (sort_key (\<lambda>(k, t). finish_key t) (filter (\<lambda>(k, t). terminal_status (ti_status t)) (tm_tasks m)))))")
    case True
    then obtain t where "od_get (tm_tasks m) k = Some t" "terminal_status (ti_status t)"
      using stale_terminal [OF assms] by blast
    then show ?thesis by (simp add: cleanup_old_tasks_def Let_def get_foldl_del)
  qed (simp add: cleanup_old_tasks_def Let_def get_foldl_del)
qed

lemma create_status:
  assumes "tm_inv m" and "create_task now uuid msg m = (Inr tid, m')"
  shows "tm_processing m' = tm_processing m" "status_of m' tid = Some T_PENDING"
    "k \<noteq> tid \<Longrightarrow> status_of m' k = status_of m k \<or> status_of m' k = None \<and> pred_option terminal_status (status_of m k)"
    "tid = (case msg_task_id_of msg of Some i \<Rightarrow> i | None \<Rightarrow> uuid)"
proof -
  have "tm_processing m' = tm_processing m \<and> status_of m' tid = Some T_PENDING \<and>
    (k \<noteq> tid \<longrightarrow> status_of m' k = status_of m k \<or> status_of m' k = None \<and> pred_option terminal_status (status_of m k)) \<and>
    tid = (case msg_task_id_of msg of Some i \<Rightarrow> i | None \<Rightarrow> uuid)"
  proof (cases rule: create_task_cases [of now uuid msg m])
    case (created task_id info)
    let ?m = "m\<lparr>tm_tasks := od_put task_id info (tm_tasks m), total_tasks := total_tasks m + 1, tm_metrics := tm_metrics m @ [M_Created]\<rparr>"
    have "od_ok (tm_tasks ?m)" using assms(1) by (simp add: tm_inv_def)
    note c = cleanup_status [OF this]
    have "m' = cleanup_old_tasks ?m" "tid = task_id" using created(1,2) assms(2) by simp_all
    with c(1) c(2) [of tid] c(2) [of k] created(3,7) show ?thesis by auto
  qed (use assms(2) in simp)
  then show "tm_processing m' = tm_processing m" "status_of m' tid = Some T_PENDING"
    "k \<noteq> tid \<Longrightarrow> status_of m' k = status_of m k \<or> status_of m' k = None \<and> pred_option terminal_status (status_of m k)"
    "tid = (case msg_task_id_of msg of Some i \<Rightarrow> i | None \<Rightarrow> uuid)" by blast+
qed

section \<open>The invariant of the processor\<close>

fun hand_of :: "worker \<Rightarrow> string list" where
  "hand_of Idle = []"
| "hand_of (Claimed tid) = [tid]"
| "hand_of (Executing tid n) = [tid]"

definition in_hands :: "processor \<Rightarrow> string list" where
  "in_hands p = concat (map hand_of (tp_workers p))"

fun_cases hand_of_cases: "hand_of x = ks"

lemma in_hands_worker:
  assumes "tid \<in> set (in_hands p)"
  obtains w where "w < length (tp_workers p)" "hand_of (tp_workers p ! w) = [tid]"
proof -
  from assms obtain x where x: "x \<in> set (tp_workers p)" "tid \<in> set (hand_of x)" by (auto simp: in_hands_def)
  have "hand_of x = [tid]" by (rule hand_of_cases [of x "hand_of x"]) (use x(2) in auto)
  with x(1) that show thesis by (auto simp: in_set_conv_nth)
qed

definition held_ok :: "task_status option \<Rightarrow> bool" where
  "held_ok s \<longleftrightarrow> s \<in> {None, Some T_PROCESSING, Some T_CANCELLED}"

definition proc_ok :: "processor \<Rightarrow> bool" where
  "proc_ok p \<longleftrightarrow> tm_inv (tp_manager p) \<and>
     mset (in_hands p) = mset (od_keys (tm_processing (tp_manager p))) \<and>
     (\<forall>k. status_of (tp_manager p) k \<noteq> None \<longrightarrow> od_get (tp_born p) k \<noteq> None) \<and>
     (\<forall>k \<in> set (in_hands p). od_get (tp_born p) k \<noteq> None \<and> held_ok (status_of (tp_manager p) k)) \<and>
     (\<forall>k. status_of (tp_manager p) k = Some T_PROCESSING \<longrightarrow> k \<in> set (in_hands p) \<union> set (tp_orphans p)) \<and>
     (\<forall>k. status_of (tp_manager p) k \<noteq> Some T_STREAMING)"

lemma proc_okD:
  assumes "proc_ok p"
  shows "status_of (tp_manager p) k \<noteq> None \<Longrightarrow> od_get (tp_born p) k \<noteq> None"
    "k \<in> set (in_hands p) \<Longrightarrow> od_get (tp_born p) k \<noteq> None \<and> held_ok (status_of (tp_manager p) k)"
    "status_of (tp_manager p) k = Some T_PROCESSING \<Longrightarrow> k \<in> set (in_hands p) \<union> set (tp_orphans p)"
    "status_of (tp_manager p) k \<noteq> Some T_STREAMING"
  using assms unfolding proc_ok_def by blast+

definition objects_ok :: "processor \<Rightarrow> bool" where
  "objects_ok p \<longleftrightarrow> (\<forall>k n. od_get (tp_born p) k = Some n \<longrightarrow> n = 1) \<and>
     (\<forall>k n s. od_get (tp_gone p) (k, n) = Some s \<longrightarrow> status_of (tp_manager p) k = None \<and> od_get (tp_born p) k \<noteq> None) \<and>
     (\<forall>tid n. Executing tid n \<in> set (tp_workers p) \<longrightarrow> n = 1)"

lemma objects_okD:
  assumes "objects_ok p"
  shows "od_get (tp_born p) k = Some n \<Longrightarrow> n = 1"
    "od_get (tp_gone p) (k, n) = Some s \<Longrightarrow> status_of (tp_manager p) k = None \<and> od_get (tp_born p) k \<noteq> None"
    "Executing k n \<in> set (tp_workers p) \<Longrightarrow> n = 1"
  using assms unfolding objects_ok_def by blast+

lemma objects_okI:
  assumes "\<And>k n. od_get (tp_born p) k = Some n \<Longrightarrow> n = 1"
    and "\<And>k n s. od_get (tp_gone p) (k, n) = Some s \<Longrightarrow> status_of (tp_manager p) k = None \<and> od_get (tp_born p) k \<noteq> None"
    and "\<And>k n. Executing k n \<in> set (tp_workers p) \<Longrightarrow> n = 1"
  shows "objects_ok p"
  using assms unfolding objects_ok_def by blast

lemma easesD:
  assumes "eases a b"
  shows "b = None \<longleftrightarrow> a = None" "b = Some T_PROCESSING \<Longrightarrow> a = Some T_PROCESSING"
    "held_ok a \<Longrightarrow> held_ok b" "b = Some T_STREAMING \<Longrightarrow> a = Some T_STREAMING"
  using assms by (auto simp: eases_def held_ok_def)

lemma proc_ok_mild:
  assumes "proc_ok p" and "mild (tp_manager p) m" and "tm_inv m"
  shows "proc_ok (p\<lparr>tp_manager := m\<rparr>)" "objects_ok p \<Longrightarrow> objects_ok (p\<lparr>tp_manager := m\<rparr>)"
proof -
  have q: "tm_processing m = tm_processing (tp_manager p)" and e: "eases (status_of (tp_manager p) k) (status_of m k)" for k
    using assms(2) by (simp_all add: mild_def)
  note f = easesD [OF e]
  show "proc_ok (p\<lparr>tp_manager := m\<rparr>)"
    using assms(1,3) q f unfolding proc_ok_def in_hands_def by (simp del: map_option_eq_Some map_option_is_None None_eq_map_option_iff) blast
  show "objects_ok p \<Longrightarrow> objects_ok (p\<lparr>tp_manager := m\<rparr>)"
    using f(1) unfolding objects_ok_def by (simp del: map_option_is_None None_eq_map_option_iff)
qed

lemma hands_put:
  assumes "w < length (tp_workers p)"
  shows "mset (in_hands (p\<lparr>tp_workers := (tp_workers p)[w := x]\<rparr>)) + mset (hand_of (tp_workers p ! w)) =
    mset (in_hands p) + mset (hand_of x)"
  using mset_concat_update [of w "map hand_of (tp_workers p)" "hand_of x"] assms by (simp add: in_hands_def map_update)

lemma hands_distinct: "proc_ok p \<Longrightarrow> distinct (in_hands p)"
  unfolding proc_ok_def tm_inv_def od_ok_def using mset_eq_imp_distinct_iff by blast

text \<open>Only a cancelled task has its stop event set in the table.\<close>

definition stop_ok :: "task_manager \<Rightarrow> bool" where
  "stop_ok m \<longleftrightarrow> (\<forall>k t. od_get (tm_tasks m) k = Some t \<and> ti_stop_event t \<longrightarrow> ti_status t = T_CANCELLED)"

lemma stop_ok_put: "stop_ok m \<Longrightarrow> (ti_stop_event t \<Longrightarrow> ti_status t = T_CANCELLED) \<Longrightarrow> stop_ok (m\<lparr>tm_tasks := od_put k t (tm_tasks m)\<rparr>)"
  by (auto simp: stop_ok_def)

lemma stop_ok_cancel: "stop_ok m \<Longrightarrow> stop_ok (snd (cancel_task now k m))"
  by (auto simp: cancel_task_def Let_def stop_ok_def split: option.split)

lemma stop_ok_cancel_all: "stop_ok m \<Longrightarrow> stop_ok (cancel_all_tasks now m)"
proof -
  let ?f = "\<lambda>m' (k, t). if active_status (ti_status t) then snd (cancel_task now k m') else m'"
  have "stop_ok m \<Longrightarrow> stop_ok (foldl ?f m kts)" for kts m
  proof (induction kts arbitrary: m)
    case (Cons kt kts)
    have "stop_ok (?f m kt)" using Cons.prems by (cases kt) (simp add: stop_ok_cancel)
    from Cons.IH [OF this] show ?case by simp
  qed simp
  then show "stop_ok m \<Longrightarrow> ?thesis" by (simp add: cancel_all_tasks_def)
qed

lemma stop_ok_fail_all: "stop_ok m \<Longrightarrow> stop_ok (fail_all_pending now e m)"
  by (auto simp: stop_ok_def fail_all_pending_def Let_def fail_pending_info_def split: if_splits)

lemma stop_ok_set_max: "stop_ok m \<Longrightarrow> stop_ok (set_max_concurrent_processing now n m)"
  by (auto simp: set_max_concurrent_processing_def Let_def intro!: stop_ok_fail_all) (simp_all add: stop_ok_def)

lemma stop_ok_claim: "stop_ok m \<Longrightarrow> tm_inv m \<Longrightarrow> stop_ok (snd (claim_next_pending_task now m))"
proof -
  assume s: "stop_ok m" and i: "tm_inv m"
  show ?thesis
  proof (cases "first_pending (tm_tasks m)")
    case None
    then show ?thesis using s by (simp add: claim_next_pending_task_def stop_ok_fail_all)
  next
    case (Some k)
    have "od_ok (tm_tasks m)" using i by (simp add: tm_inv_def)
    from first_pending_get [OF this Some] obtain t where t: "od_get (tm_tasks m) k = Some t" "ti_status t = T_PENDING" by blast
    then have "\<not> ti_stop_event t" using s by (auto simp: stop_ok_def)
    then have "stop_ok (m\<lparr>tm_tasks := move_to_end k (od_put k (t\<lparr>ti_status := T_PROCESSING, ti_start_time := now\<rparr>) (tm_tasks m)),
        tm_processing := od_put k True (tm_processing m)\<rparr>)"
      using s by (auto simp: stop_ok_def)
    with t s show ?thesis by (simp add: claim_next_pending_task_def Some stop_ok_fail_all Let_def)
  qed
qed

lemma stop_ok_others:
  assumes "stop_ok m"
  shows "stop_ok (complete_task now k out peak secs res m)" "stop_ok (fail_task now k e m)" "stop_ok (release_processing_slot k m)"
  using assms by (auto simp: complete_task_def fail_task_def release_processing_slot_def Let_def stop_ok_def split: option.split if_splits)

lemma stop_ok_cleanup: "stop_ok m \<Longrightarrow> stop_ok (cleanup_old_tasks m)"
  by (auto simp: cleanup_old_tasks_def Let_def stop_ok_def get_foldl_del split: if_splits)

lemma stop_ok_create: "stop_ok m \<Longrightarrow> stop_ok (snd (create_task now uuid msg m))"
  by (auto simp: create_task_def Let_def intro!: stop_ok_cleanup) (auto simp: stop_ok_def split: if_splits)

definition all_ok :: "processor \<Rightarrow> bool" where
  "all_ok p \<longleftrightarrow> proc_ok p \<and> objects_ok p \<and> stop_ok (tp_manager p)"

lemma all_ok_mild: "all_ok p \<Longrightarrow> mild (tp_manager p) m \<Longrightarrow> tm_inv m \<Longrightarrow> stop_ok m \<Longrightarrow> all_ok (p\<lparr>tp_manager := m\<rparr>)"
  by (simp add: all_ok_def proc_ok_mild)

lemma hand_held: "w < length (tp_workers p) \<Longrightarrow> hand_of (tp_workers p ! w) = [tid] \<Longrightarrow> tid \<in> set (in_hands p)"
  using nth_mem [of w "tp_workers p"] by (auto simp: in_hands_def intro!: bexI [of _ "tp_workers p ! w"])

text \<open>A worker puts down its task; \<open>q\<close> differs from \<open>p\<close> only in the entry of that task.\<close>

lemma put_down_change:
  assumes "all_ok p" and "w < length (tp_workers p)" and "hand_of (tp_workers p ! w) = [tid]"
    and "tp_workers q = tp_workers p" and "tp_born q = tp_born p" and "tp_gone q = tp_gone p" and "tp_orphans q = tp_orphans p"
    and "tm_processing (tp_manager q) = tm_processing (tp_manager p)" and "tm_inv (tp_manager q)" and "stop_ok (tp_manager q)"
    and "\<And>j. j \<noteq> tid \<Longrightarrow> status_of (tp_manager q) j = status_of (tp_manager p) j"
    and "status_of (tp_manager q) tid \<notin> {Some T_PROCESSING, Some T_STREAMING}"
    and "status_of (tp_manager q) tid = None \<longleftrightarrow> status_of (tp_manager p) tid = None"
  shows "all_ok (put_down w tid q)"
proof -
  let ?q = "put_down w tid q"
  have p: "proc_ok p" using assms(1) by (simp add: all_ok_def)
  have h: "add_mset tid (mset (in_hands ?q)) = mset (in_hands p)"
    using hands_put [OF assms(2), of Idle] assms(3,4) by (simp add: put_down_def in_hands_def)
  have s: "set (in_hands ?q) = set (in_hands p) - {tid}"
  proof -
    have "tid \<notin># mset (in_hands ?q)"
      using hands_distinct [OF p] mset_eq_imp_distinct_iff [of "tid # in_hands ?q" "in_hands p"] h by simp
    with arg_cong [OF h, of set_mset] show ?thesis by auto
  qed
  have k: "mset (in_hands ?q) = mset (od_keys (od_del tid (tm_processing (tp_manager p))))"
  proof -
    have "mset (in_hands ?q) = mset (in_hands p) - {#tid#}" using arg_cong [OF h, of "\<lambda>x. x - {#tid#}"] by simp
    also have "\<dots> = mset (remove1 tid (od_keys (tm_processing (tp_manager p))))"
      using p by (simp add: proc_ok_def del: mset_map)
    also have "remove1 tid (od_keys (tm_processing (tp_manager p))) = removeAll tid (od_keys (tm_processing (tp_manager p)))"
      using p by (intro distinct_remove1_removeAll) (simp add: proc_ok_def tm_inv_def od_ok_def)
    finally show ?thesis by (simp add: delete_keys)
  qed
  have st: "status_of (tp_manager ?q) j = (if j = tid then status_of (tp_manager q) tid else status_of (tp_manager p) j)" for j
    using assms(11) by (simp add: put_down_def)
  have b: "tp_born ?q = tp_born q" "tp_orphans ?q = tp_orphans q" "tp_gone ?q = tp_gone q"
    "tp_workers ?q = (tp_workers p)[w := Idle]"
    using assms(4) by (simp_all add: put_down_def)
  note d = proc_okD [OF p]
  have "proc_ok ?q"
    unfolding proc_ok_def
  proof (intro conjI)
    show "tm_inv (tp_manager ?q)" using tm_inv_release [OF assms(9)] by (simp add: put_down_def)
    show "mset (in_hands ?q) = mset (od_keys (tm_processing (tp_manager ?q)))" using k assms(8) by (simp add: put_down_def)
    show "\<forall>j. status_of (tp_manager ?q) j \<noteq> None \<longrightarrow> od_get (tp_born ?q) j \<noteq> None"
      using d(1) assms(5,13) st by (metis b)
    show "\<forall>j \<in> set (in_hands ?q). od_get (tp_born ?q) j \<noteq> None \<and> held_ok (status_of (tp_manager ?q) j)"
      using d(2) s st assms(5) b by (metis DiffD1 DiffD2 insertI1)
    show "\<forall>j. status_of (tp_manager ?q) j = Some T_PROCESSING \<longrightarrow> j \<in> set (in_hands ?q) \<union> set (tp_orphans ?q)"
      using d(3) s st assms(7,12) b(2) by (metis DiffI UnE UnI1 UnI2 insertI1 singletonD)
    show "\<forall>j. status_of (tp_manager ?q) j \<noteq> Some T_STREAMING"
      using d(4) st assms(12) by (metis insertI1 insertI2)
  qed
  moreover have "objects_ok ?q"
  proof (rule objects_okI)
    have o: "objects_ok p" using assms(1) by (simp add: all_ok_def)
    show "\<And>k n. od_get (tp_born ?q) k = Some n \<Longrightarrow> n = 1"
      using objects_okD(1) [OF o] b(1) assms(5) by simp
    show "\<And>k n s. od_get (tp_gone ?q) (k, n) = Some s \<Longrightarrow> status_of (tp_manager ?q) k = None \<and> od_get (tp_born ?q) k \<noteq> None"
      using objects_okD(2) [OF o] b(1,3) assms(5,6,13) st by metis
    show "\<And>k n. Executing k n \<in> set (tp_workers ?q) \<Longrightarrow> n = 1"
      using objects_okD(3) [OF o] b(4) set_update_subset_insert [of "tp_workers p" w Idle] by auto
  qed
  ultimately show ?thesis using stop_ok_others(3) [OF assms(10)] by (simp add: all_ok_def put_down_def)
qed

lemma put_down_ok:
  assumes "all_ok p" and "w < length (tp_workers p)" and "hand_of (tp_workers p ! w) = [tid]"
    and "status_of (tp_manager p) tid \<noteq> Some T_PROCESSING"
  shows "all_ok (put_down w tid p)"
  using assms by (intro put_down_change [of p]) (auto simp: all_ok_def proc_ok_def simp del: map_option_eq_Some)

lemma claims_ok:
  assumes "all_ok p" and "w < length (tp_workers p)" and "tp_workers p ! w = Idle"
  shows "all_ok (worker_claims w now p)"
proof -
  have p: "proc_ok p" "tm_inv (tp_manager p)" using assms(1) by (simp_all add: all_ok_def proc_ok_def)
  consider (no_claim) m where "claim_next_pending_task now (tp_manager p) = (None, m)" "mild (tp_manager p) m"
    | (claimed) k m where "claim_next_pending_task now (tp_manager p) = (Some k, m)" "status_of (tp_manager p) k = Some T_PENDING"
      "tm_processing m = od_put k True (tm_processing (tp_manager p))" "status_of m = (status_of (tp_manager p))(k \<mapsto> T_PROCESSING)"
    using claim_cases [OF p(2), of now] by metis
  then show ?thesis
  proof cases
    case (no_claim m)
    have "tm_inv m" "stop_ok m"
      using tm_inv_claim [OF p(2), of now] stop_ok_claim [OF _ p(2), of now] no_claim(1) assms(1) by (simp_all add: all_ok_def)
    with no_claim assms(1) show ?thesis by (simp add: worker_claims_def all_ok_mild)
  next
    case (claimed k m)
    let ?q = "p\<lparr>tp_manager := m, tp_workers := (tp_workers p)[w := Claimed k]\<rparr>"
    have i: "tm_inv m" "stop_ok m"
      using tm_inv_claim [OF p(2), of now] stop_ok_claim [OF _ p(2), of now] claimed(1) assms(1) by (simp_all add: all_ok_def)
    have h: "mset (in_hands ?q) = add_mset k (mset (in_hands p))"
      using hands_put [OF assms(2), of "Claimed k"] assms(3) by (simp add: in_hands_def)
    then have s: "set (in_hands ?q) = insert k (set (in_hands p))" by (metis set_mset_add_mset_insert set_mset_mset)
    have n: "k \<notin> set (in_hands p)" using p(1) claimed(2) by (force simp: proc_ok_def held_ok_def)
    have "k \<notin> set (od_keys (tm_processing (tp_manager p)))"
      using n p(1) unfolding proc_ok_def by (metis set_mset_mset)
    then have a: "od_keys (tm_processing m) = od_keys (tm_processing (tp_manager p)) @ [k]"
      using claimed(3) by (simp add: od_put_absent map_of_eq_None_iff)
    have st: "status_of m j = (if j = k then Some T_PROCESSING else status_of (tp_manager p) j)" for j
      using fun_cong [OF claimed(4), of j] by simp
    have "proc_ok ?q"
      using p(1) i(1) h a s claimed(2) unfolding proc_ok_def
      by (auto simp: held_ok_def st simp del: map_option_eq_Some map_option_is_None None_eq_map_option_iff split: if_splits)
    moreover have "objects_ok ?q"
      using assms(1) claimed(2) set_update_subset_insert [of "tp_workers p" w "Claimed k"]
      by (fastforce simp: all_ok_def objects_ok_def st simp del: map_option_is_None None_eq_map_option_iff)
    ultimately show ?thesis using i(2) claimed(1) by (simp add: worker_claims_def all_ok_def)
  qed
qed

lemma begin_ok:
  assumes "all_ok p" and "w < length (tp_workers p)" and "tp_workers p ! w = Claimed tid"
  shows "all_ok (begin_processing w tid p)"
proof -
  have p: "proc_ok p" "stop_ok (tp_manager p)" "objects_ok p" using assms(1) by (simp_all add: all_ok_def)
  have m: "tid \<in> set (in_hands p)" using assms(2,3) by (simp add: hand_held)
  have b: "od_get (tp_born p) tid = Some 1"
    using p(1,3) m by (fastforce simp: proc_ok_def objects_ok_def)
  have d: "all_ok (put_down w tid p)" if "status_of (tp_manager p) tid \<noteq> Some T_PROCESSING"
    using that assms by (intro put_down_ok) simp_all
  have "all_ok (p\<lparr>tp_workers := (tp_workers p)[w := Executing tid 1]\<rparr>)"
  proof -
    have h: "mset (in_hands (p\<lparr>tp_workers := (tp_workers p)[w := Executing tid 1]\<rparr>)) = mset (in_hands p)"
      using hands_put [OF assms(2), of "Executing tid 1"] assms(3) by simp
    then have s: "set (in_hands (p\<lparr>tp_workers := (tp_workers p)[w := Executing tid 1]\<rparr>)) = set (in_hands p)"
      by (rule mset_eq_setD)
    have "proc_ok (p\<lparr>tp_workers := (tp_workers p)[w := Executing tid 1]\<rparr>)"
      using p(1) h s unfolding proc_ok_def by simp
    moreover have "objects_ok (p\<lparr>tp_workers := (tp_workers p)[w := Executing tid 1]\<rparr>)"
      using p(3) set_update_subset_insert [of "tp_workers p" w "Executing tid 1"] by (auto simp: objects_ok_def)
    ultimately show ?thesis using p(2) by (simp add: all_ok_def)
  qed
  moreover have "status_of (tp_manager p) tid \<noteq> Some T_PROCESSING"
    if "od_get (tm_tasks (tp_manager p)) tid = None \<or> (\<exists>t. od_get (tm_tasks (tp_manager p)) tid = Some t \<and> (ti_status t = T_CANCELLED \<or> ti_stop_event t))"
    using that p(2) by (auto simp: stop_ok_def)
  ultimately show ?thesis using d b
    by (auto simp: begin_processing_def get_task_def births_def split: option.split)
qed

lemma record_parts [simp]:
  "tp_workers (record_execution now tid n x p) = tp_workers p" "tp_born (record_execution now tid n x p) = tp_born p"
  "tp_gone (record_execution now tid n x p) = tp_gone p" "tp_orphans (record_execution now tid n x p) = tp_orphans p"
  "in_hands (record_execution now tid n x p) = in_hands p"
  by (auto simp: record_execution_def in_hands_def split: execution.split)

text \<open>The end of an execution: what becomes of the task, by its status.\<close>

definition ends_as :: "execution \<Rightarrow> task_status option \<Rightarrow> task_status option" where
  "ends_as x s = (if s = Some T_PROCESSING then Some (case x of Response r \<Rightarrow> T_COMPLETED | _ \<Rightarrow> T_FAILED) else s)"

lemma objects_gone: "objects_ok p \<Longrightarrow> status_of (tp_manager p) k \<noteq> None \<Longrightarrow> od_get (tp_gone p) (k, n) = None"
  by (cases "od_get (tp_gone p) (k, n)") (fastforce simp: objects_ok_def)+

lemma record_status:
  assumes "all_ok p" and "w < length (tp_workers p)" and "tp_workers p ! w = Executing tid n"
  shows "status_of (tp_manager (record_execution now tid n x p)) tid = ends_as x (status_of (tp_manager p) tid)"
    "j \<noteq> tid \<Longrightarrow> status_of (tp_manager (record_execution now tid n x p)) j = status_of (tp_manager p) j"
    "held_ok (status_of (tp_manager p) tid)"
    "tm_processing (tp_manager (record_execution now tid n x p)) = tm_processing (tp_manager p)"
    "tm_inv (tp_manager (record_execution now tid n x p)) \<and> stop_ok (tp_manager (record_execution now tid n x p))"
proof -
  have p: "proc_ok p" "stop_ok (tp_manager p)" "objects_ok p" "tm_inv (tp_manager p)"
    using assms(1) by (simp_all add: all_ok_def proc_ok_def)
  have m: "tid \<in> set (in_hands p)" using assms(2,3) by (simp add: hand_held)
  have h: "held_ok (status_of (tp_manager p) tid)" using p(1) m by (simp add: proc_ok_def)
  then show "held_ok (status_of (tp_manager p) tid)" .
  have n: "n = 1" using p(3) assms(2,3) nth_mem [OF assms(2)] by (auto simp: objects_ok_def)
  have b: "births (tp_born p) tid = 1" using p(1,3) m by (fastforce simp: proc_ok_def objects_ok_def births_def)
  have o: "object_status tid n p = Some T_PROCESSING" if "status_of (tp_manager p) tid = Some T_PROCESSING"
    using that n b objects_gone [OF p(3), of tid n] by (auto simp: object_status_def)
  show "status_of (tp_manager (record_execution now tid n x p)) tid = ends_as x (status_of (tp_manager p) tid)"
    using o h by (auto simp: record_execution_def ends_as_def complete_status fail_status held_ok_def
        simp del: map_option_eq_Some split: execution.split)
  show "j \<noteq> tid \<Longrightarrow> status_of (tp_manager (record_execution now tid n x p)) j = status_of (tp_manager p) j"
    by (auto simp: record_execution_def complete_status fail_status split: execution.split)
  show "tm_processing (tp_manager (record_execution now tid n x p)) = tm_processing (tp_manager p)"
    by (auto simp: record_execution_def complete_status fail_status split: execution.split)
  show "tm_inv (tp_manager (record_execution now tid n x p)) \<and> stop_ok (tp_manager (record_execution now tid n x p))"
    using p(2,4) by (auto simp: record_execution_def tm_inv_complete tm_inv_fail stop_ok_others split: execution.split)
qed

lemma processing_ends_ok:
  assumes "all_ok p" and "w < length (tp_workers p)" and "tp_workers p ! w = Executing tid n"
  shows "all_ok (finish_processing now w tid n x p)"
proof -
  note s = record_status(1) [OF assms, of now x] record_status(2) [OF assms, of _ now x] record_status(3) [OF assms]
    record_status(4) [OF assms, of now x] record_status(5) [OF assms, of now x]
  let ?q = "record_execution now tid n x p"
  have st: "status_of (tp_manager ?q) j = (if j = tid then ends_as x (status_of (tp_manager p) tid) else status_of (tp_manager p) j)" for j
    using s(1,2) by simp
  have e: "ends_as x (status_of (tp_manager p) tid) \<noteq> Some T_PROCESSING" "ends_as x (status_of (tp_manager p) tid) \<noteq> Some T_STREAMING"
    "ends_as x (status_of (tp_manager p) tid) = None \<longleftrightarrow> status_of (tp_manager p) tid = None"
    using s(3) by (auto simp: ends_as_def held_ok_def split: execution.split)
  have "all_ok (put_down w tid ?q)"
    using assms st e s(4,5) by (intro put_down_change [of p]) simp_all
  then show ?thesis by (simp add: finish_processing_def)
qed

lemma note_gone_get:
  "od_get (note_gone old b new g) (k, n) = Some s \<Longrightarrow>
     od_get g (k, n) = Some s \<or> status_of new k = None \<and> k \<in> set (od_keys (tm_tasks old))"
proof -
  let ?f = "\<lambda>g (k, t). if od_get (tm_tasks new) k = None then od_put (k, births b k) (ti_status t) g else g"
  have "od_get (foldl ?f g kts) (k, n) = Some s \<Longrightarrow>
      od_get g (k, n) = Some s \<or> status_of new k = None \<and> k \<in> fst ` set kts" for kts g
  proof (induction kts arbitrary: g)
    case (Cons kt kts)
    from Cons.IH [of "?f g kt"] Cons.prems show ?case by (cases kt) (auto split: if_splits)
  qed simp
  then show "od_get (note_gone old b new g) (k, n) = Some s \<Longrightarrow> ?thesis" by (simp add: note_gone_def)
qed

lemma submit_ok:
  assumes "all_ok p" and "fresh_event p (Submits now uuid msg)"
  shows "all_ok (snd (submit_task now uuid msg p))"
proof (cases "create_task now uuid msg (tp_manager p)")
  case (Pair r m)
  have p: "proc_ok p" "tm_inv (tp_manager p)" "stop_ok (tp_manager p)" "objects_ok p"
    using assms(1) by (simp_all add: all_ok_def proc_ok_def)
  have m: "tm_inv m" "stop_ok m"
    using tm_inv_create [OF p(2), of now uuid msg] stop_ok_create [OF p(3), of now uuid msg] Pair by simp_all
  show ?thesis
  proof (cases r)
    case (Inl e)
    have "m = tp_manager p" using Pair Inl by (cases rule: create_task_cases [of now uuid msg "tp_manager p"]) simp_all
    with Pair Inl assms(1) show ?thesis by (simp add: submit_task_def)
  next
    case (Inr tid)
    note c = create_status [OF p(2) Pair [unfolded Inr]]
    let ?q = "p\<lparr>tp_manager := m, tp_gone := note_gone (tp_manager p) (tp_born p) m (tp_gone p),
      tp_born := od_put tid (births (tp_born p) tid + 1) (tp_born p)\<rparr>"
    have f: "od_get (tp_born p) tid = None" using assms(2) c(4) by (simp add: fresh_event_def split: option.splits)
    have u: "k \<noteq> tid \<Longrightarrow> status_of m k \<noteq> None \<Longrightarrow> status_of m k = status_of (tp_manager p) k" for k
      using c(3) [of k] by metis
    have h: "in_hands ?q = in_hands p" by (simp add: in_hands_def)
    have old: "k \<in> set (in_hands p) \<Longrightarrow> k \<noteq> tid" for k using proc_okD(2) [OF p(1), of k] f by blast
    note d = proc_okD [OF p(1)]
    have "proc_ok ?q"
      unfolding proc_ok_def h
    proof (intro conjI)
      show "tm_inv (tp_manager ?q)" using m by simp
      show "mset (in_hands p) = mset (od_keys (tm_processing (tp_manager ?q)))" using p(1) c(1) by (simp add: proc_ok_def)
      have "od_get (tp_born p) k \<noteq> None" if "k \<noteq> tid" "status_of m k \<noteq> None" for k
        using d(1) [of k] u [OF that] that(2) by simp
      then show "\<forall>k. status_of (tp_manager ?q) k \<noteq> None \<longrightarrow> od_get (tp_born ?q) k \<noteq> None" by auto
      show "\<forall>k \<in> set (in_hands p). od_get (tp_born ?q) k \<noteq> None \<and> held_ok (status_of (tp_manager ?q) k)"
      proof
        fix k assume k: "k \<in> set (in_hands p)"
        have "held_ok (status_of m k)" using d(2) [OF k] u [OF old [OF k]] by (cases "status_of m k = None") (simp_all add: held_ok_def)
        with d(2) [OF k] old [OF k] show "od_get (tp_born ?q) k \<noteq> None \<and> held_ok (status_of (tp_manager ?q) k)" by simp
      qed
      show "\<forall>k. status_of (tp_manager ?q) k = Some T_PROCESSING \<longrightarrow> k \<in> set (in_hands p) \<union> set (tp_orphans ?q)"
      proof (intro allI impI)
        fix k assume "status_of (tp_manager ?q) k = Some T_PROCESSING"
        then have k: "status_of m k = Some T_PROCESSING" by simp
        then have "k \<noteq> tid" using c(2) by auto
        with u [of k] k have "status_of (tp_manager p) k = Some T_PROCESSING" by (metis option.distinct(1))
        from d(3) [OF this] show "k \<in> set (in_hands p) \<union> set (tp_orphans ?q)" by simp
      qed
      show "\<forall>k. status_of (tp_manager ?q) k \<noteq> Some T_STREAMING"
      proof
        fix k have "status_of m k \<noteq> Some T_STREAMING"
          using c(2) u [of k] d(4) [of k] by (metis option.distinct(1) option.inject task_status.distinct)
        then show "status_of (tp_manager ?q) k \<noteq> Some T_STREAMING" by simp
      qed
    qed
    moreover have "objects_ok ?q"
    proof (rule objects_okI)
      fix k n s
      show "od_get (tp_born ?q) k = Some n \<Longrightarrow> n = 1"
        using objects_okD(1) [OF p(4)] f by (auto simp: births_def split: if_splits)
      show "Executing k n \<in> set (tp_workers ?q) \<Longrightarrow> n = 1" using objects_okD(3) [OF p(4)] by simp
      assume "od_get (tp_gone ?q) (k, n) = Some s"
      then have "od_get (tp_gone p) (k, n) = Some s \<or> status_of m k = None \<and> k \<in> set (od_keys (tm_tasks (tp_manager p)))"
        using note_gone_get by simp
      then show "status_of (tp_manager ?q) k = None \<and> od_get (tp_born ?q) k \<noteq> None"
      proof
        assume g: "od_get (tp_gone p) (k, n) = Some s"
        from objects_okD(2) [OF p(4) g] have "status_of (tp_manager p) k = None" "od_get (tp_born p) k \<noteq> None" by blast+
        moreover from this f have "k \<noteq> tid" by blast
        ultimately show ?thesis using c(3) [of k] by auto
      next
        assume g: "status_of m k = None \<and> k \<in> set (od_keys (tm_tasks (tp_manager p)))"
        then have "status_of (tp_manager p) k \<noteq> None" by (auto simp: map_of_eq_None_iff)
        with d(1) [of k] g show ?thesis by auto
      qed
    qed
    ultimately show ?thesis using m(2) Pair Inr by (simp add: submit_task_def all_ok_def)
  qed
qed

lemma started_ok: "all_ok p \<Longrightarrow> all_ok (start_processor p)"
proof -
  assume a: "all_ok p"
  have h: "in_hands (p\<lparr>tp_running := True, tp_workers := tp_workers p @ replicate (tp_max_concurrent p) Idle\<rparr>) = in_hands p"
    by (simp add: in_hands_def map_replicate_const)
  show "all_ok (start_processor p)"
    using a unfolding all_ok_def proc_ok_def objects_ok_def start_processor_def by (auto simp: h)
qed

text \<open>The shutdown takes every task out of the hands of its worker.\<close>

lemma cancel_workers_does:
  "tp_workers (cancel_workers ws p) = tp_workers p" "tp_born (cancel_workers ws p) = tp_born p"
  "tp_gone (cancel_workers ws p) = tp_gone p" "status_of (tp_manager (cancel_workers ws p)) k = status_of (tp_manager p) k"
  "tm_inv (tp_manager p) \<Longrightarrow> tm_inv (tp_manager (cancel_workers ws p))"
  "stop_ok (tp_manager p) \<Longrightarrow> stop_ok (tp_manager (cancel_workers ws p))"
  "set (tp_orphans (cancel_workers ws p)) = set (tp_orphans p) \<union> set (concat (map hand_of ws))"
  "od_keys (tm_processing (tp_manager (cancel_workers ws p))) =
     filter (\<lambda>k. k \<notin> set (concat (map hand_of ws))) (od_keys (tm_processing (tp_manager p)))"
  by (induction ws p rule: cancel_workers.induct)
    (auto simp: tm_inv_release stop_ok_others delete_keys removeAll_filter_not_eq intro!: filter_cong)

lemma stop_processor_ok: "all_ok p \<Longrightarrow> all_ok (stop_processor p)"
proof (cases "tp_running p")
  case True
  assume a: "all_ok p"
  then have p: "proc_ok p" "objects_ok p" "stop_ok (tp_manager p)" "tm_inv (tp_manager p)" by (simp_all add: all_ok_def proc_ok_def)
  let ?c = "cancel_workers (tp_workers p) p"
  let ?q = "?c\<lparr>tp_running := False, tp_workers := []\<rparr>"
  note c = cancel_workers_does [where ws = "tp_workers p" and p = p]
  note d = proc_okD [OF p(1)]
  have h: "in_hands ?q = []" by (simp add: in_hands_def)
  have hands: "set (concat (map hand_of (tp_workers p))) = set (in_hands p)" by (simp add: in_hands_def)
  have "set (od_keys (tm_processing (tp_manager p))) = set (in_hands p)"
    using p(1) unfolding proc_ok_def by (metis set_mset_mset)
  then have e: "od_keys (tm_processing (tp_manager ?c)) = []" unfolding c(8) hands by (auto simp: filter_empty_conv)
  have st: "status_of (tp_manager ?q) k = status_of (tp_manager p) k" for k using c(4) by simp
  have b: "tp_born ?q = tp_born p" "tp_gone ?q = tp_gone p" "tp_workers ?q = []" "set (tp_orphans ?q) = set (tp_orphans p) \<union> set (in_hands p)"
    using c(2,3,7) hands by simp_all
  have "proc_ok ?q"
    unfolding proc_ok_def h st b
  proof (intro conjI)
    show "tm_inv (tp_manager ?q)" using c(5) [OF p(4)] by simp
    show "mset [] = mset (od_keys (tm_processing (tp_manager ?q)))" using e by simp
    show "\<forall>k. status_of (tp_manager p) k \<noteq> None \<longrightarrow> od_get (tp_born p) k \<noteq> None" using d(1) by blast
    show "\<forall>k. status_of (tp_manager p) k = Some T_PROCESSING \<longrightarrow> k \<in> set [] \<union> (set (tp_orphans p) \<union> set (in_hands p))"
      using d(3) by blast
    show "\<forall>k. status_of (tp_manager p) k \<noteq> Some T_STREAMING" using d(4) by blast
  qed simp
  moreover have "objects_ok ?q"
    by (rule objects_okI) (use objects_okD [OF p(2)] st b in \<open>metis, metis, simp\<close>)
  ultimately show ?thesis using True c(6) [OF p(3)] by (simp add: all_ok_def stop_processor_def)
qed (simp add: stop_processor_def)

lemma all_ok_step:
  assumes "all_ok p" and "fresh_event p ev"
  shows "all_ok (proc_step p ev)"
proof -
  have i: "tm_inv (tp_manager p)" "stop_ok (tp_manager p)" using assms(1) by (simp_all add: all_ok_def proc_ok_def)
  have w: "worker_at w p = Some x \<Longrightarrow> w < length (tp_workers p) \<and> tp_workers p ! w = x" for w x
    by (simp add: worker_at_def split: if_splits)
  show ?thesis
  proof (cases ev)
    case (Worker_Claims w' now)
    then show ?thesis using assms(1) w by (auto simp: proc_step_def claims_ok split: option.split worker.split)
  next
    case (Worker_Begins w')
    then show ?thesis using assms(1) w by (auto simp: proc_step_def begin_ok split: option.split worker.split)
  next
    case (Worker_Finishes now w' x)
    then show ?thesis using assms(1) w by (auto simp: proc_step_def processing_ends_ok split: option.split worker.split)
  qed (use assms i in \<open>simp_all add: proc_step_def submit_ok started_ok stop_processor_ok all_ok_mild mild_cancel mild_cancel_all
         mild_set_max tm_inv_cancel tm_inv_cancel_all tm_inv_set_max stop_ok_cancel stop_ok_cancel_all stop_ok_set_max\<close>)
qed

lemma all_ok_new: "all_ok (new_processor (new_task_manager q k c) n)"
  by (simp add: all_ok_def proc_ok_def objects_ok_def stop_ok_def in_hands_def new_processor_def tm_inv_new)
    (simp add: new_task_manager_def)

lemma all_ok_run: "all_ok p \<Longrightarrow> no_reuse p evs \<Longrightarrow> all_ok (foldl proc_step p evs)"
  by (induction p evs rule: no_reuse.induct) (simp_all add: all_ok_step)

lemma cancel_workers_keeps: "tp_max_concurrent (cancel_workers ws p) = tp_max_concurrent p"
  by (induction ws p rule: cancel_workers.induct) simp_all

definition staffed :: "nat \<Rightarrow> processor \<Rightarrow> bool" where
  "staffed n p \<longleftrightarrow> tp_max_concurrent p = n \<and> length (tp_workers p) = (if tp_running p then n else 0)"

lemma staffed_step: "staffed n p \<Longrightarrow> staffed n (proc_step p ev)"
  by (auto simp: staffed_def proc_step_def submit_task_def start_processor_def stop_processor_def worker_claims_def put_down_def
      begin_processing_def finish_processing_def record_execution_def cancel_workers_keeps
      split: proc_event.split prod.split sum.split option.split worker.split execution.split if_splits)

interpretation staff: invariant_machine proc_step "staffed n"
  by unfold_locales (rule staffed_step)

lemma few_hands: "length (concat (map hand_of ws)) \<le> length ws"
proof (induction ws)
  case (Cons x ws)
  then show ?case by (cases x) simp_all
qed simp

definition demo_manager :: task_manager where
  "demo_manager = new_task_manager 10 1 2"

text \<open>Two workers, three tasks, one of which is cancelled while it runs; the service stops during the others.\<close>

definition demo_work :: "proc_event list" where
  "demo_work = [Submits 0 ''a'' None, Submits 0 ''b'' None, Submits 0 ''c'' None, Processor_Starts, Worker_Claims 0 1,
     Worker_Claims 1 1, Worker_Begins 0, Worker_Begins 1, Cancels 2 ''a'', Worker_Finishes 3 0 No_Response, Worker_Claims 0 4]"

text \<open>C4: As long as no client gives a task id twice, the slots that the manager counts are the tasks in the
  hands of the workers, each of them once and never more than the configured number, and a task in state
  PROCESSING is in the hands of a worker or was left behind by a shutdown.\<close>

theorem slots_match_workers:
  assumes "no_reuse (new_processor (new_task_manager q k c) n) evs"
    and "p = foldl proc_step (new_processor (new_task_manager q k c) n) evs"
  shows "mset (in_hands p) = mset (od_keys (tm_processing (tp_manager p))) \<and> distinct (in_hands p) \<and>
    length (tm_processing (tp_manager p)) \<le> n \<and>
    (\<forall>tid. status_of (tp_manager p) tid = Some T_PROCESSING \<longrightarrow>
       (\<exists>w < length (tp_workers p). hand_of (tp_workers p ! w) = [tid]) \<or> tid \<in> set (tp_orphans p))"
proof -
  have "all_ok p" using all_ok_run [OF all_ok_new assms(1)] assms(2) by simp
  then have p: "proc_ok p" by (simp add: all_ok_def)
  have "staffed n p" using staff.inv_run [of n "new_processor (new_task_manager q k c) n" evs] assms(2)
    by (simp add: staffed_def new_processor_def)
  then have "length (in_hands p) \<le> n" using few_hands [of "tp_workers p"] by (simp add: staffed_def in_hands_def split: if_splits)
  moreover have e: "mset (in_hands p) = mset (od_keys (tm_processing (tp_manager p)))" using p by (simp add: proc_ok_def)
  ultimately have "length (tm_processing (tp_manager p)) \<le> n" using mset_eq_length [OF e] by (simp del: mset_map)
  moreover have "(\<exists>w < length (tp_workers p). hand_of (tp_workers p ! w) = [tid]) \<or> tid \<in> set (tp_orphans p)"
    if "status_of (tp_manager p) tid = Some T_PROCESSING" for tid
    using proc_okD(3) [OF p that] in_hands_worker by (metis UnE)
  ultimately show ?thesis using e hands_distinct [OF p] by blast
qed

lemma slots_match_workers_witness:
  "length (tm_processing (tp_manager (foldl proc_step (new_processor demo_manager 2) demo_work))) \<le> 2 \<and>
   in_hands (foldl proc_step (new_processor demo_manager 2) demo_work) = [''c'', ''b'']"
proof -
  have "no_reuse (new_processor demo_manager 2) demo_work" by code_simp
  from slots_match_workers [OF this [unfolded demo_manager_def] refl]
  have "length (tm_processing (tp_manager (foldl proc_step (new_processor demo_manager 2) demo_work))) \<le> 2"
    by (simp add: demo_manager_def)
  moreover have "in_hands (foldl proc_step (new_processor demo_manager 2) demo_work) = [''c'', ''b'']" by code_simp
  ultimately show ?thesis by simp
qed

text \<open>A task that is submitted again while the run of its first submission goes on.\<close>

definition demo_again :: "proc_event list" where
  "demo_again = [Submits 0 ''a'' None, Processor_Starts, Worker_Claims 0 1, Worker_Begins 0, Cancels 2 ''a'',
     Submits 3 ''b'' None, Submits 4 ''a'' None, Worker_Claims 1 5]"



text \<open>An id that is used again: two workers hold it on one slot, and the late response of the old run
  completes the new task, which then has the output of another request.\<close>

lemma reused_id_takes_old_result:
  "in_hands (foldl proc_step (new_processor demo_manager 2) demo_again) = [''a'', ''b''] \<and>
   status_of (tp_manager (foldl proc_step (new_processor demo_manager 2) demo_again)) ''a'' = Some T_PENDING \<and>
   status_of (tp_manager (foldl proc_step (new_processor demo_manager 2) (demo_again @
     [Worker_Finishes 6 0 (Response \<lparr>rs_output_path = Some ''old'', rs_peak_memory_mb = None, rs_inference_time_s = None, rs_result = None\<rparr>)])))
     ''a'' = Some T_COMPLETED"
  by code_simp

text \<open>A shutdown leaves the tasks in the hands of its workers in state PROCESSING for good.\<close>

lemma shutdown_leaves_processing:
  "status_of (tp_manager (foldl proc_step (new_processor demo_manager 2) (demo_work @ [Processor_Stops]))) ''b'' = Some T_PROCESSING \<and>
   tm_processing (tp_manager (foldl proc_step (new_processor demo_manager 2) (demo_work @ [Processor_Stops]))) = []"
  by code_simp

end
