(* ===== verification/Request_Orchestrator.thy ===== *)
theory Request_Orchestrator
  imports Prelude
begin

text \<open>
  The orchestrator of single requests, \<open>FlexiblePipelineOrchestrator\<close> of
  \<open>telefuser/orchestrator/pipeline_orchestrator.py\<close>, with the wrapper of a stage
  (\<open>telefuser/orchestrator/stage_wrapper.py\<close>). A request runs group by group through the stages; the
  stages of a group work at the same time, each for one request after the other; results are routed
  back by the request id. The consumer of a generation, the workers of the stages, the threads and the
  output handler interleave at their awaits. What a stage does (its parameter builder, its callable
  and its result processor) is the argument \<open>act\<close>; times and memory figures are left out. The consumer takes the yields of a group
  together, and after the last yield of a request it asks once more, which ends the generation.
\<close>

section \<open>Stages and their groups\<close>

text \<open>Of the metadata of a stage only \<open>output_key\<close> is read here.\<close>

record stage_config =
  sf_stage_id :: int
  sf_stage_name :: string
  sf_pipeline_attr :: string
  sf_shared_lock_group :: "string option"
  sf_parallel_group :: "string option"
  sf_output_key :: "string option"

definition make_stage_config :: "stage_config \<Rightarrow> stage_config res" where
  "make_stage_config c =
     (if sf_stage_id c < 0 then Inl (ValueError (''stage_id must be non-negative, got '' @ str_of_int (sf_stage_id c)))
      else if sf_stage_name c = [] then Inl (ValueError ''stage_name cannot be empty'')
      else if sf_pipeline_attr c = [] then Inl (ValueError ''pipeline_attr cannot be empty'')
      else Inr c)"

text \<open>The lock of a stage; all stages of one lock group are given the same lock.\<close>

definition lock_group :: "stage_config \<Rightarrow> string option" where
  "lock_group c = (case sf_shared_lock_group c of None \<Rightarrow> None | Some g \<Rightarrow> if g = [] then None else Some g)"

text \<open>\<open>has_attr\<close> and \<open>shown\<close> are the attributes of the pipeline and their listing in the message.\<close>

definition init_stages :: "(string \<Rightarrow> bool) \<Rightarrow> string \<Rightarrow> stage_config list \<Rightarrow> stage_config list res" where
  "init_stages has_attr shown configs =
     (case filter (\<lambda>c. \<not> has_attr (sf_pipeline_attr c)) configs of
        [] \<Rightarrow> Inr configs
      | c # _ \<Rightarrow> Inl (ValueError (''Pipeline does not have attribute '' @ quoted (sf_pipeline_attr c) @
                       ''. Available attributes: '' @ shown)))"

text \<open>A stage carries its position, which stands for the object.\<close>

type_synonym stage = "nat \<times> stage_config"

fun group_loop :: "stage list \<Rightarrow> stage list list \<Rightarrow> stage list \<Rightarrow> string option \<Rightarrow> stage list list" where
  "group_loop [] groups cur gid = (if cur \<noteq> [] then groups @ [cur] else groups)"
| "group_loop (s # ss) groups cur gid =
     (case sf_parallel_group (snd s) of
        None \<Rightarrow> group_loop ss ((if cur \<noteq> [] then groups @ [cur] else groups) @ [[s]]) [] None
      | Some g \<Rightarrow>
          if gid = Some g then group_loop ss groups (cur @ [s]) gid
          else group_loop ss (if cur \<noteq> [] then groups @ [cur] else groups) [s] (Some g))"

definition group_stages :: "stage_config list \<Rightarrow> stage list list" where
  "group_stages sts = group_loop (enumerate 0 sts) [] [] None"

lemma group_loop_concat: "concat (group_loop ss groups cur gid) = concat groups @ cur @ ss"
  by (induction ss groups cur gid rule: group_loop.induct) (auto split: option.split)

lemma group_loop_nonempty: "[] \<notin> set groups \<Longrightarrow> [] \<notin> set (group_loop ss groups cur gid)"
  by (induction ss groups cur gid rule: group_loop.induct) (auto split: option.split)

lemma groups_are_stages: "concat (group_stages sts) = enumerate 0 sts" "[] \<notin> set (group_stages sts)"
  by (simp_all add: group_stages_def group_loop_concat group_loop_nonempty)

section \<open>State\<close>

type_synonym 'v bindings = "(string, 'v option) odict"

text \<open>A task refers to the generation that submitted it; its context is that of the generation.\<close>

record stage_task =
  tk_request :: string
  tk_stage :: int
  tk_call :: nat

record 'v stage_result =
  rs_request :: string
  rs_stage :: int
  rs_outputs :: "'v option"
  rs_error :: "string option"

text \<open>A worker waits for a task, waits for the lock of its group with the parameters built, or runs.\<close>

datatype 'v stage_worker = Waiting | Holding stage_task 'v "'v bindings" | Running stage_task 'v "'v bindings"

text \<open>A generation is suspended before a group, awaits results (the stages that are missing and the
  results it has), has ended, or was closed by its consumer.\<close>

datatype 'v phase = Due nat | Awaits nat "int list" "(int, 'v stage_result) odict" | Ended | Closed

datatype 'v yielded = Progress int string | Failed_Stage int string string | Finished "'v option" "'v bindings"

record 'v generation =
  gn_request :: string
  gn_inputs :: 'v
  gn_context :: "'v bindings"
  gn_current :: int
  gn_queue :: "'v stage_result list"
  gn_phase :: "'v phase"
  gn_yields :: "'v yielded list"

record 'v flexible =
  fx_stages :: "stage_config list"
  fx_in :: "stage_task list list"
  fx_workers :: "'v stage_worker list"
  fx_results :: "'v stage_result list"
  fx_states :: "(string, nat) odict"
  fx_calls :: "'v generation list"

definition new_flexible :: "stage_config list \<Rightarrow> 'v flexible" where
  "new_flexible sts =
     \<lparr>fx_stages = sts, fx_in = replicate (length sts) [], fx_workers = replicate (length sts) Waiting,
      fx_results = [], fx_states = [], fx_calls = []\<rparr>"

section \<open>The end of a group\<close>

definition output_key :: "stage_config \<Rightarrow> string" where
  "output_key st = (case sf_output_key st of None \<Rightarrow> sf_stage_name st | Some k \<Rightarrow> k)"

definition put_output :: "stage_config \<Rightarrow> 'v option \<Rightarrow> 'v bindings \<Rightarrow> 'v bindings" where
  "put_output st v ctx =
     (let ctx' = od_put (sf_stage_name st) v ctx
      in if output_key st \<noteq> sf_stage_name st then od_put (output_key st) v ctx' else ctx')"

text \<open>\<open>if result.error\<close>: the empty text of an exception is not an error.\<close>

definition errored :: "'v stage_result \<Rightarrow> bool" where
  "errored r = (case rs_error r of None \<Rightarrow> False | Some e \<Rightarrow> e \<noteq> [])"

definition progress :: "stage_config \<Rightarrow> 'v yielded" where
  "progress st = Progress (sf_stage_id st) (sf_stage_name st)"

definition failure :: "stage_config \<Rightarrow> 'v stage_result \<Rightarrow> 'v yielded" where
  "failure st r = Failed_Stage (sf_stage_id st) (sf_stage_name st) (case rs_error r of None \<Rightarrow> [] | Some e \<Rightarrow> e)"

text \<open>The context afterwards, what is yielded, and whether the generation goes on.\<close>

definition end_group ::
    "stage_config list \<Rightarrow> (int \<Rightarrow> 'v stage_result) \<Rightarrow> 'v bindings \<Rightarrow> 'v bindings \<times> 'v yielded list \<times> bool" where
  "end_group members look ctx =
     (case filter (\<lambda>st. errored (look (sf_stage_id st))) members of
        st # _ \<Rightarrow> (ctx, [failure st (look (sf_stage_id st))], False)
      | [] \<Rightarrow>
          let sorted = sort_key sf_stage_id members
          in (foldl (\<lambda>ctx st. put_output st (rs_outputs (look (sf_stage_id st))) ctx) ctx sorted, map progress sorted, True))"

definition final_output :: "stage_config list \<Rightarrow> 'v bindings \<Rightarrow> 'v option" where
  "final_output sts ctx =
     (if sts = [] then None
      else case od_get ctx (output_key (last sts)) of
             Some v \<Rightarrow> v
           | None \<Rightarrow> (case od_get ctx (sf_stage_name (last sts)) of Some v \<Rightarrow> v | None \<Rightarrow> None))"

section \<open>Operations\<close>

definition set_generation :: "nat \<Rightarrow> 'v generation \<Rightarrow> 'v flexible \<Rightarrow> 'v flexible" where
  "set_generation n c s = s\<lparr>fx_calls := (fx_calls s)[n := c]\<rparr>"

text \<open>The \<open>finally\<close> of \<open>generate\<close> takes the request id out of the table, whoever has put it there.\<close>

definition end_generation :: "nat \<Rightarrow> 'v phase \<Rightarrow> 'v generation \<Rightarrow> 'v flexible \<Rightarrow> 'v flexible" where
  "end_generation n ph c s =
     (set_generation n (c\<lparr>gn_phase := ph\<rparr>) s)\<lparr>fx_states := od_del (gn_request c) (fx_states s)\<rparr>"

definition task_for :: "nat \<Rightarrow> 'v generation \<Rightarrow> stage \<Rightarrow> stage_task" where
  "task_for n c st = \<lparr>tk_request = gn_request c, tk_stage = sf_stage_id (snd st), tk_call = n\<rparr>"

definition submit_group :: "nat \<Rightarrow> 'v generation \<Rightarrow> stage list \<Rightarrow> stage_task list list \<Rightarrow> stage_task list list" where
  "submit_group n c members qs = foldl (\<lambda>qs st. qs[fst st := qs ! fst st @ [task_for n c st]]) qs members"

definition begin_group :: "nat \<Rightarrow> nat \<Rightarrow> 'v flexible \<Rightarrow> 'v flexible" where
  "begin_group n k s =
     (let c = fx_calls s ! n; groups = group_stages (fx_stages s) in
      if k < length groups then
        set_generation n (c\<lparr>gn_phase := Awaits k (remdups (map (sf_stage_id \<circ> snd) (groups ! k))) []\<rparr>)
          (s\<lparr>fx_in := submit_group n c (groups ! k) (fx_in s)\<rparr>)
      else
        end_generation n Ended
          (c\<lparr>gn_yields := gn_yields c @ [Finished (final_output (fx_stages s) (gn_context c)) (gn_context c)]\<rparr>) s)"

definition generates :: "string \<Rightarrow> 'v \<Rightarrow> 'v bindings \<Rightarrow> 'v flexible \<Rightarrow> 'v flexible" where
  "generates rid inputs ctx s =
     (let n = length (fx_calls s);
          c = \<lparr>gn_request = rid, gn_inputs = inputs, gn_context = ctx, gn_current = 0, gn_queue = [],
               gn_phase = Due 0, gn_yields = []\<rparr>
      in begin_group n 0 (s\<lparr>fx_states := od_put rid n (fx_states s), fx_calls := fx_calls s @ [c]\<rparr>))"

text \<open>The consumer asks for what follows the last yield.\<close>

definition asked :: "nat \<Rightarrow> 'v flexible \<Rightarrow> 'v flexible" where
  "asked n s = (case gn_phase (fx_calls s ! n) of Due k \<Rightarrow> begin_group n k s | _ \<Rightarrow> s)"

definition finish_group :: "nat \<Rightarrow> nat \<Rightarrow> (int \<Rightarrow> 'v stage_result) \<Rightarrow> 'v generation \<Rightarrow> 'v flexible \<Rightarrow> 'v flexible" where
  "finish_group n k look c s =
     (case end_group (map snd (group_stages (fx_stages s) ! k)) look (gn_context c) of (ctx, ys, ok) \<Rightarrow>
        let c' = c\<lparr>gn_context := ctx, gn_yields := gn_yields c @ ys\<rparr>
        in if ok then set_generation n (c'\<lparr>gn_phase := Due (Suc k)\<rparr>) s else end_generation n Ended c' s)"

text \<open>A group of one stage takes any result; a group of several only those of its missing stages.\<close>

definition receives :: "nat \<Rightarrow> 'v flexible \<Rightarrow> 'v flexible" where
  "receives n s =
     (let c = fx_calls s ! n in
      case (gn_phase c, gn_queue c) of
        (Awaits k missing res, r # rest) \<Rightarrow>
          let c' = c\<lparr>gn_queue := rest\<rparr> in
          if length (group_stages (fx_stages s) ! k) = 1 then finish_group n k (\<lambda>i. r) c' s
          else if rs_stage r \<in> set missing then
            let res' = od_put (rs_stage r) r res; missing' = removeAll (rs_stage r) missing
            in if missing' = [] then finish_group n k (\<lambda>i. the (od_get res' i)) c' s
               else set_generation n (c'\<lparr>gn_phase := Awaits k missing' res'\<rparr>) s
          else set_generation n c' s
      | _ \<Rightarrow> s)"

definition is_active :: "'v generation \<Rightarrow> bool" where
  "is_active c = (case gn_phase c of Due k \<Rightarrow> True | Awaits k missing res \<Rightarrow> True | _ \<Rightarrow> False)"

definition closes :: "nat \<Rightarrow> 'v flexible \<Rightarrow> 'v flexible" where
  "closes n s = (if is_active (fx_calls s ! n) then end_generation n Closed (fx_calls s ! n) s else s)"

definition takes :: "nat \<Rightarrow> 'v flexible \<Rightarrow> 'v flexible" where
  "takes i s =
     (case (fx_workers s ! i, fx_in s ! i) of
        (Waiting, t # q) \<Rightarrow>
          s\<lparr>fx_in := (fx_in s)[i := q],
            fx_workers := (fx_workers s)[i := Holding t (gn_inputs (fx_calls s ! tk_call t)) (gn_context (fx_calls s ! tk_call t))]\<rparr>
      | _ \<Rightarrow> s)"

definition is_running :: "'v stage_worker \<Rightarrow> bool" where
  "is_running w = (case w of Running t x ctx \<Rightarrow> True | _ \<Rightarrow> False)"

definition lock_free :: "nat \<Rightarrow> 'v flexible \<Rightarrow> bool" where
  "lock_free i s \<longleftrightarrow> lock_group (fx_stages s ! i) = None \<or>
     \<not> (\<exists>j \<in> {0 ..< length (fx_workers s)}. is_running (fx_workers s ! j) \<and> lock_group (fx_stages s ! j) = lock_group (fx_stages s ! i))"

definition runs :: "nat \<Rightarrow> 'v flexible \<Rightarrow> 'v flexible" where
  "runs i s =
     (case fx_workers s ! i of
        Holding t x ctx \<Rightarrow> if lock_free i s then s\<lparr>fx_workers := (fx_workers s)[i := Running t x ctx]\<rparr> else s
      | _ \<Rightarrow> s)"

type_synonym 'v action = "nat \<Rightarrow> 'v \<Rightarrow> 'v bindings \<Rightarrow> string + 'v option"

definition result_of :: "string \<Rightarrow> int \<Rightarrow> string + 'v option \<Rightarrow> 'v stage_result" where
  "result_of rid sid out =
     (case out of
        Inl e \<Rightarrow> \<lparr>rs_request = rid, rs_stage = sid, rs_outputs = None, rs_error = Some e\<rparr>
      | Inr v \<Rightarrow> \<lparr>rs_request = rid, rs_stage = sid, rs_outputs = v, rs_error = None\<rparr>)"

definition ends :: "'v action \<Rightarrow> nat \<Rightarrow> 'v flexible \<Rightarrow> 'v flexible" where
  "ends act i s =
     (case fx_workers s ! i of
        Running t x ctx \<Rightarrow>
          s\<lparr>fx_workers := (fx_workers s)[i := Waiting],
            fx_results := fx_results s @ [result_of (tk_request t) (sf_stage_id (fx_stages s ! i)) (act i x ctx)]\<rparr>
      | _ \<Rightarrow> s)"

definition routes :: "'v flexible \<Rightarrow> 'v flexible" where
  "routes s =
     (case fx_results s of
        [] \<Rightarrow> s
      | r # rest \<Rightarrow>
          (case od_get (fx_states s) (rs_request r) of
             None \<Rightarrow> s\<lparr>fx_results := rest\<rparr>
           | Some n \<Rightarrow>
               set_generation n ((fx_calls s ! n)\<lparr>gn_queue := gn_queue (fx_calls s ! n) @ [r], gn_current := rs_stage r\<rparr>)
                 (s\<lparr>fx_results := rest\<rparr>)))"

datatype 'v flex_event =
    Generates string 'v "'v bindings"
  | Asked nat
  | Closes nat
  | Receives nat
  | Routes
  | Takes nat
  | Runs nat
  | Ends nat

fun flex_step :: "'v action \<Rightarrow> 'v flexible \<Rightarrow> 'v flex_event \<Rightarrow> 'v flexible" where
  "flex_step act s (Generates rid x ctx) = generates rid x ctx s"
| "flex_step act s (Asked n) = (if n < length (fx_calls s) then asked n s else s)"
| "flex_step act s (Closes n) = (if n < length (fx_calls s) then closes n s else s)"
| "flex_step act s (Receives n) = (if n < length (fx_calls s) then receives n s else s)"
| "flex_step act s Routes = routes s"
| "flex_step act s (Takes i) = (if i < length (fx_stages s) then takes i s else s)"
| "flex_step act s (Runs i) = (if i < length (fx_stages s) then runs i s else s)"
| "flex_step act s (Ends i) = (if i < length (fx_stages s) then ends act i s else s)"

section \<open>The groups one after another\<close>

text \<open>The result of a stage on given inputs, and a request that runs alone, group by group.\<close>

definition alone :: "'v action \<Rightarrow> stage_config list \<Rightarrow> string \<Rightarrow> 'v \<Rightarrow> 'v bindings \<Rightarrow> int \<Rightarrow> 'v stage_result" where
  "alone act sts rid x ctx sid =
     result_of rid sid (act (length (takeWhile (\<lambda>st. sf_stage_id st \<noteq> sid) sts)) x ctx)"

fun serial :: "'v action \<Rightarrow> stage_config list \<Rightarrow> string \<Rightarrow> 'v \<Rightarrow> stage list list \<Rightarrow> 'v bindings \<Rightarrow> 'v yielded list" where
  "serial act sts rid x [] ctx = [Finished (final_output sts ctx) ctx]"
| "serial act sts rid x (g # gs) ctx =
     (case end_group (map snd g) (alone act sts rid x ctx) ctx of
        (ctx', ys, ok) \<Rightarrow> if ok then ys @ serial act sts rid x gs ctx' else ys)"

section \<open>Where the tasks and results are\<close>

fun held :: "'v stage_worker \<Rightarrow> stage_task list" where
  "held Waiting = []"
| "held (Holding t x ctx) = [t]"
| "held (Running t x ctx) = [t]"

fun built :: "'v stage_worker \<Rightarrow> (string \<times> 'v \<times> 'v bindings) list" where
  "built Waiting = []"
| "built (Holding t x ctx) = [(tk_request t, x, ctx)]"
| "built (Running t x ctx) = [(tk_request t, x, ctx)]"

definition all_tasks :: "'v flexible \<Rightarrow> stage_task multiset" where
  "all_tasks s = mset (concat (fx_in s)) + mset (concat (map held (fx_workers s)))"

text \<open>The stages at which a request has a task, or whose results for it have not been routed.\<close>

definition underway :: "string \<Rightarrow> stage_task multiset \<Rightarrow> 'v stage_result multiset \<Rightarrow> int multiset" where
  "underway rid ts rs = image_mset tk_stage (filter_mset (\<lambda>t. tk_request t = rid) ts) +
     image_mset rs_stage (filter_mset (\<lambda>r. rs_request r = rid) rs)"

lemma underway_simps [simp]:
  "underway rid {#} {#} = {#}"
  "underway rid (add_mset t ts) rs = (if tk_request t = rid then add_mset (tk_stage t) (underway rid ts rs) else underway rid ts rs)"
  "underway rid ts (add_mset r rs) = (if rs_request r = rid then add_mset (rs_stage r) (underway rid ts rs) else underway rid ts rs)"
  by (simp_all add: underway_def)

lemma underway_none:
  "underway rid ts rs = {#} \<longleftrightarrow> (\<forall>t \<in># ts. tk_request t \<noteq> rid) \<and> (\<forall>r \<in># rs. rs_request r \<noteq> rid)"
  by (auto simp: underway_def)

abbreviation underway_of :: "string \<Rightarrow> 'v flexible \<Rightarrow> int multiset" where
  "underway_of rid s \<equiv> underway rid (all_tasks s) (mset (fx_results s))"

definition results_of :: "string \<Rightarrow> 'v flexible \<Rightarrow> 'v stage_result set" where
  "results_of rid s = {r \<in> set (fx_results s). rs_request r = rid}"

definition built_of :: "string \<Rightarrow> 'v flexible \<Rightarrow> ('v \<times> 'v bindings) set" where
  "built_of rid s = {xc. (rid, xc) \<in> set (concat (map built (fx_workers s)))}"

lemma task_taken:
  assumes "i < length (fx_in s)" and "i < length (fx_workers s)" and "fx_workers s ! i = Waiting" and "fx_in s ! i = t # q"
  shows "mset (concat ((fx_in s)[i := q])) + mset (concat (map held ((fx_workers s)[i := Holding t x ctx]))) = all_tasks s"
  using mset_concat_update [OF assms(1), of q] mset_concat_update [of i "map held (fx_workers s)" "[t]"] assms
  by (simp add: all_tasks_def map_update)

lemma task_done:
  assumes "i < length (fx_workers s)" and "fx_workers s ! i = Running t x ctx"
  shows "add_mset t (mset (concat (fx_in s)) + mset (concat (map held ((fx_workers s)[i := Waiting])))) = all_tasks s"
  using mset_concat_update [of i "map held (fx_workers s)" "[]"] assms by (simp add: all_tasks_def map_update)

lemma built_update:
  assumes "i < length ws"
  shows "set (concat (map built (ws[i := w]))) \<subseteq> set (concat (map built ws)) \<union> set (built w)"
proof -
  have "mset (concat (map built (ws[i := w]))) + mset (built (ws ! i)) = mset (concat (map built ws)) + mset (built w)"
    using mset_concat_update [of i "map built ws" "built w"] assms by (simp add: map_update)
  from arg_cong [OF this, of set_mset] show ?thesis by auto
qed

lemma submit_group_Cons:
  "submit_group n c (st # sts) qs = submit_group n c sts (qs[fst st := qs ! fst st @ [task_for n c st]])"
  by (simp add: submit_group_def)

lemma submitted_length [simp]: "length (submit_group n c members qs) = length qs"
  by (induction members arbitrary: qs) (simp_all add: submit_group_def)

lemma submitted_tasks:
  "\<forall>st \<in> set members. fst st < length qs \<Longrightarrow>
     mset (concat (submit_group n c members qs)) = mset (concat qs) + mset (map (task_for n c) members)"
proof (induction members arbitrary: qs)
  case (Cons st sts)
  let ?qs = "qs[fst st := qs ! fst st @ [task_for n c st]]"
  have "mset (concat ?qs) = add_mset (task_for n c st) (mset (concat qs))"
    using mset_concat_update [of "fst st" qs "qs ! fst st @ [task_for n c st]"] Cons.prems by simp
  with Cons.IH [of ?qs] Cons.prems show ?case by (simp add: submit_group_Cons)
qed (simp add: submit_group_def)

lemma submitted_at:
  "t \<in> set (submit_group n c members qs ! i) \<Longrightarrow> i < length qs \<Longrightarrow>
     t \<in> set (qs ! i) \<or> (\<exists>st \<in> set members. fst st = i \<and> t = task_for n c st)"
proof (induction members arbitrary: qs)
  case (Cons st sts)
  let ?qs = "qs[fst st := qs ! fst st @ [task_for n c st]]"
  from Cons.IH [of ?qs] Cons.prems have "t \<in> set (?qs ! i) \<or> (\<exists>st \<in> set sts. fst st = i \<and> t = task_for n c st)"
    by (simp add: submit_group_Cons)
  then show ?case using Cons.prems(2) by (cases "fst st = i") auto
qed (simp add: submit_group_def)

section \<open>The invariant of a generation\<close>

definition right_result :: "'v action \<Rightarrow> stage_config list \<Rightarrow> 'v generation \<Rightarrow> 'v stage_result \<Rightarrow> bool" where
  "right_result act sts c r \<longleftrightarrow> r = alone act sts (gn_request c) (gn_inputs c) (gn_context c) (rs_stage r)"

definition group_ids :: "stage_config list \<Rightarrow> nat \<Rightarrow> int list" where
  "group_ids sts k = map (sf_stage_id \<circ> snd) (group_stages sts ! k)"

text \<open>Each missing stage has its task or its result at one place, and all results are right.\<close>

definition waits_ok :: "'v action \<Rightarrow> stage_config list \<Rightarrow> int multiset \<Rightarrow> 'v stage_result set \<Rightarrow> ('v \<times> 'v bindings) set
    \<Rightarrow> 'v generation \<Rightarrow> nat \<Rightarrow> int list \<Rightarrow> (int, 'v stage_result) odict \<Rightarrow> bool" where
  "waits_ok act sts m R B c k missing res \<longleftrightarrow>
     k < length (group_stages sts) \<and> missing \<noteq> [] \<and>
     m + image_mset rs_stage (mset (gn_queue c)) = mset missing \<and>
     mset missing + mset (od_keys res) = mset (group_ids sts k) \<and>
     (\<forall>r \<in> set (gn_queue c) \<union> R. right_result act sts c r) \<and>
     (\<forall>(i, r) \<in> set res. right_result act sts c r \<and> rs_stage r = i) \<and>
     (\<forall>xc \<in> B. xc = (gn_inputs c, gn_context c))"

definition rest_of :: "'v action \<Rightarrow> stage_config list \<Rightarrow> nat \<Rightarrow> 'v generation \<Rightarrow> 'v yielded list" where
  "rest_of act sts k c = serial act sts (gn_request c) (gn_inputs c) (drop k (group_stages sts)) (gn_context c)"

fun whole :: "'v action \<Rightarrow> stage_config list \<Rightarrow> string \<times> 'v \<times> 'v bindings \<Rightarrow> 'v yielded list" where
  "whole act sts (rid, x, ctx) = serial act sts rid x (group_stages sts) ctx"

definition call_ok :: "'v action \<Rightarrow> stage_config list \<Rightarrow> int multiset \<Rightarrow> 'v stage_result set \<Rightarrow> ('v \<times> 'v bindings) set
    \<Rightarrow> string \<times> 'v \<times> 'v bindings \<Rightarrow> 'v generation \<Rightarrow> bool" where
  "call_ok act sts m R B rq c \<longleftrightarrow>
     gn_request c = fst rq \<and> gn_inputs c = fst (snd rq) \<and>
     (case gn_phase c of
        Due k \<Rightarrow> gn_queue c = [] \<and> m = {#} \<and> gn_yields c @ rest_of act sts k c = whole act sts rq
      | Awaits k missing res \<Rightarrow> waits_ok act sts m R B c k missing res \<and> gn_yields c @ rest_of act sts k c = whole act sts rq
      | Ended \<Rightarrow> gn_yields c = whole act sts rq
      | Closed \<Rightarrow> \<exists>ys. gn_yields c @ ys = whole act sts rq)"

lemma call_ok_mono:
  assumes "call_ok act sts m R B rq c"
    and "is_active c \<Longrightarrow> m' = m \<and> (\<forall>r \<in> R'. r \<in> R \<or> right_result act sts c r) \<and> (\<forall>xc \<in> B'. xc \<in> B \<or> xc = (gn_inputs c, gn_context c))"
  shows "call_ok act sts m' R' B' rq c"
proof (cases "gn_phase c")
  case (Awaits k missing res)
  then have "is_active c" by (simp add: is_active_def)
  from assms(2) [OF this] assms(1) show ?thesis unfolding call_ok_def waits_ok_def Awaits by auto
qed (use assms in \<open>auto simp: call_ok_def is_active_def\<close>)

lemma end_group_cong:
  assumes "\<forall>st \<in> set members. look (sf_stage_id st) = look' (sf_stage_id st)"
  shows "end_group members look ctx = end_group members look' ctx"
proof -
  have f: "filter (\<lambda>st. errored (look (sf_stage_id st))) members = filter (\<lambda>st. errored (look' (sf_stage_id st))) members"
    using assms by (intro filter_cong) simp_all
  have "st \<in> set members" if "filter (\<lambda>st. errored (look' (sf_stage_id st))) members = st # rest" for st rest
    using that by (metis filter_is_subset list.set_intros(1) subsetD)
  moreover have "foldl (\<lambda>ctx st. put_output st (rs_outputs (look (sf_stage_id st))) ctx) ctx (sort_key sf_stage_id members) =
      foldl (\<lambda>ctx st. put_output st (rs_outputs (look' (sf_stage_id st))) ctx) ctx (sort_key sf_stage_id members)"
    using assms by (intro foldl_cong) simp_all
  ultimately show ?thesis using assms unfolding end_group_def f by (auto simp: Let_def split: list.split)
qed

lemma serial_group:
  assumes "k < length (group_stages sts)" and "\<forall>i \<in> set (group_ids sts k). look i = alone act sts (gn_request c) (gn_inputs c) (gn_context c) i"
    and "end_group (map snd (group_stages sts ! k)) look (gn_context c) = (ctx, ys, ok)"
  shows "rest_of act sts k c = (if ok then ys @ serial act sts (gn_request c) (gn_inputs c) (drop (Suc k) (group_stages sts)) ctx else ys)"
proof -
  have "end_group (map snd (group_stages sts ! k)) (alone act sts (gn_request c) (gn_inputs c) (gn_context c)) (gn_context c) = (ctx, ys, ok)"
    using assms(2,3) end_group_cong [of "map snd (group_stages sts ! k)" look "alone act sts (gn_request c) (gn_inputs c) (gn_context c)"]
    by (simp add: group_ids_def)
  with Cons_nth_drop_Suc [OF assms(1), symmetric] show ?thesis by (simp add: rest_of_def)
qed

lemma stage_alone:
  assumes "distinct (map sf_stage_id sts)" and "i < length sts"
  shows "result_of rid (sf_stage_id (sts ! i)) (act i x ctx) = alone act sts rid x ctx (sf_stage_id (sts ! i))"
proof -
  have "takeWhile (\<lambda>st. sf_stage_id st \<noteq> sf_stage_id (sts ! i)) sts = take i sts"
    using assms by (intro takeWhile_eq_take_P_nth) (auto simp: distinct_conv_nth)
  with assms(2) show ?thesis by (simp add: alone_def)
qed

lemma result_of_parts [simp]: "rs_request (result_of rid sid out) = rid" "rs_stage (result_of rid sid out) = sid"
  by (simp_all add: result_of_def split: sum.split)

section \<open>The invariant of the orchestrator\<close>

definition placed :: "'v flexible \<Rightarrow> bool" where
  "placed s \<longleftrightarrow> distinct (map sf_stage_id (fx_stages s)) \<and>
     length (fx_in s) = length (fx_stages s) \<and> length (fx_workers s) = length (fx_stages s) \<and>
     (\<forall>i < length (fx_stages s). \<forall>t \<in> set (fx_in s ! i) \<union> set (held (fx_workers s ! i)). tk_stage t = sf_stage_id (fx_stages s ! i)) \<and>
     (\<forall>t \<in># all_tasks s. tk_call t < length (fx_calls s) \<and> gn_request (fx_calls s ! tk_call t) = tk_request t) \<and>
     (\<forall>r \<in> set (fx_results s). rs_request r \<in> gn_request ` set (fx_calls s))"

definition registered :: "'v flexible \<Rightarrow> bool" where
  "registered s \<longleftrightarrow> distinct (map gn_request (fx_calls s)) \<and>
     (\<forall>rid n. od_get (fx_states s) rid = Some n \<longleftrightarrow>
        n < length (fx_calls s) \<and> gn_request (fx_calls s ! n) = rid \<and> is_active (fx_calls s ! n))"

definition call_at :: "'v action \<Rightarrow> (string \<times> 'v \<times> 'v bindings) list \<Rightarrow> 'v flexible \<Rightarrow> nat \<Rightarrow> bool" where
  "call_at act rqs s n \<longleftrightarrow> call_ok act (fx_stages s) (underway_of (gn_request (fx_calls s ! n)) s)
     (results_of (gn_request (fx_calls s ! n)) s) (built_of (gn_request (fx_calls s ! n)) s) (rqs ! n) (fx_calls s ! n)"

definition flex_ok :: "'v action \<Rightarrow> (string \<times> 'v \<times> 'v bindings) list \<Rightarrow> 'v flexible \<Rightarrow> bool" where
  "flex_ok act rqs s \<longleftrightarrow> placed s \<and> registered s \<and> length rqs = length (fx_calls s) \<and> (\<forall>n < length (fx_calls s). call_at act rqs s n)"

lemma same_request: "registered s \<Longrightarrow> n < length (fx_calls s) \<Longrightarrow> j < length (fx_calls s) \<Longrightarrow>
    gn_request (fx_calls s ! j) = gn_request (fx_calls s ! n) \<Longrightarrow> j = n"
  using nth_eq_iff_index_eq [of "map gn_request (fx_calls s)" j n] by (simp add: registered_def)

lemma placedD:
  assumes "placed s"
  shows "distinct (map sf_stage_id (fx_stages s))" "length (fx_in s) = length (fx_stages s)" "length (fx_workers s) = length (fx_stages s)"
    "i < length (fx_stages s) \<Longrightarrow> t \<in> set (fx_in s ! i) \<union> set (held (fx_workers s ! i)) \<Longrightarrow> tk_stage t = sf_stage_id (fx_stages s ! i)"
    "t \<in># all_tasks s \<Longrightarrow> tk_call t < length (fx_calls s) \<and> gn_request (fx_calls s ! tk_call t) = tk_request t"
    "r \<in> set (fx_results s) \<Longrightarrow> rs_request r \<in> gn_request ` set (fx_calls s)"
  using assms unfolding placed_def by blast+

lemma in_all_tasks:
  "i < length (fx_in s) \<Longrightarrow> t \<in> set (fx_in s ! i) \<Longrightarrow> t \<in># all_tasks s"
  "i < length (fx_workers s) \<Longrightarrow> t \<in> set (held (fx_workers s ! i)) \<Longrightarrow> t \<in># all_tasks s"
  using nth_mem [of i "fx_in s"] nth_mem [of i "fx_workers s"] by (auto simp: all_tasks_def)

text \<open>A step of a worker or of the output handler that leaves the generations alone.\<close>

lemma flex_ok_quiet:
  assumes "flex_ok act rqs s" and "placed s'" and "fx_calls s' = fx_calls s" and "fx_states s' = fx_states s" and "fx_stages s' = fx_stages s"
    and "\<And>n. n < length (fx_calls s) \<Longrightarrow> is_active (fx_calls s ! n) \<Longrightarrow>
      underway_of (gn_request (fx_calls s ! n)) s' = underway_of (gn_request (fx_calls s ! n)) s"
    and "\<And>n r. n < length (fx_calls s) \<Longrightarrow> is_active (fx_calls s ! n) \<Longrightarrow> call_at act rqs s n \<Longrightarrow> r \<in> set (fx_results s') \<Longrightarrow>
      rs_request r = gn_request (fx_calls s ! n) \<Longrightarrow> r \<in> set (fx_results s) \<or> right_result act (fx_stages s) (fx_calls s ! n) r"
    and "\<And>n xc. n < length (fx_calls s) \<Longrightarrow> (gn_request (fx_calls s ! n), xc) \<in> set (concat (map built (fx_workers s'))) \<Longrightarrow>
      (gn_request (fx_calls s ! n), xc) \<in> set (concat (map built (fx_workers s))) \<or> xc = (gn_inputs (fx_calls s ! n), gn_context (fx_calls s ! n))"
  shows "flex_ok act rqs s'"
proof -
  have "call_at act rqs s' n" if n: "n < length (fx_calls s)" for n
  proof -
    have a: "call_at act rqs s n" using assms(1) n by (simp add: flex_ok_def)
    show ?thesis
      using a unfolding call_at_def assms(3,5)
    proof (rule call_ok_mono)
      assume "is_active (fx_calls s ! n)"
      with assms(6) [OF n] assms(7) [OF n _ a] assms(8) [OF n]
      show "underway_of (gn_request (fx_calls s ! n)) s' = underway_of (gn_request (fx_calls s ! n)) s \<and>
        (\<forall>r \<in> results_of (gn_request (fx_calls s ! n)) s'. r \<in> results_of (gn_request (fx_calls s ! n)) s \<or>
           right_result act (fx_stages s) (fx_calls s ! n) r) \<and>
        (\<forall>xc \<in> built_of (gn_request (fx_calls s ! n)) s'. xc \<in> built_of (gn_request (fx_calls s ! n)) s \<or>
           xc = (gn_inputs (fx_calls s ! n), gn_context (fx_calls s ! n)))"
        unfolding results_of_def built_of_def by blast
    qed
  qed
  with assms(1-5) show ?thesis by (simp add: flex_ok_def registered_def)
qed

lemma takes_ok:
  assumes "flex_ok act rqs s" and "i < length (fx_stages s)"
  shows "flex_ok act rqs (takes i s)"
proof (cases "fx_workers s ! i = Waiting \<and> fx_in s ! i \<noteq> []")
  case True
  then obtain t q where q: "fx_workers s ! i = Waiting" "fx_in s ! i = t # q" by (auto simp: neq_Nil_conv)
  have p: "placed s" "registered s" using assms(1) by (simp_all add: flex_ok_def)
  note d = placedD [OF p(1)]
  have l: "i < length (fx_in s)" "i < length (fx_workers s)" using assms(2) d(2,3) by simp_all
  let ?w = "Holding t (gn_inputs (fx_calls s ! tk_call t)) (gn_context (fx_calls s ! tk_call t))"
  let ?s = "s\<lparr>fx_in := (fx_in s)[i := q], fx_workers := (fx_workers s)[i := ?w]\<rparr>"
  have all: "all_tasks ?s = all_tasks s" using task_taken [OF l q] by (simp add: all_tasks_def)
  have t: "t \<in># all_tasks s" using in_all_tasks(1) [OF l(1), of t] q by simp
  have "tk_stage u = sf_stage_id (fx_stages s ! j)"
    if "j < length (fx_stages s)" "u \<in> set (fx_in ?s ! j) \<union> set (held (fx_workers ?s ! j))" for j u
    using that d(4) [of j u] d(4) [of i u] assms(2) l q by (cases "j = i") auto
  then have "placed ?s" unfolding placed_def all using d(1-3,5,6) by simp
  moreover have "xc = (gn_inputs (fx_calls s ! n), gn_context (fx_calls s ! n))"
    if "n < length (fx_calls s)" "(gn_request (fx_calls s ! n), xc) \<in> set (built ?w)" for n xc
    using that d(5) [OF t] same_request [OF p(2) that(1), of "tk_call t"] by auto
  ultimately have "flex_ok act rqs ?s"
    using all built_update [OF l(2), of ?w] by (intro flex_ok_quiet [OF assms(1)]) auto
  with q show ?thesis by (simp add: takes_def)
qed (use assms in \<open>auto simp: takes_def split: stage_worker.split list.split\<close>)

lemma runs_ok:
  assumes "flex_ok act rqs s" and "i < length (fx_stages s)"
  shows "flex_ok act rqs (runs i s)"
proof (cases "fx_workers s ! i")
  case (Holding t x ctx)
  have p: "placed s" using assms(1) by (simp add: flex_ok_def)
  note d = placedD [OF p]
  have l: "i < length (fx_workers s)" using assms(2) d(3) by simp
  let ?s = "s\<lparr>fx_workers := (fx_workers s)[i := Running t x ctx]\<rparr>"
  have h: "map held (fx_workers ?s) = map held (fx_workers s)" "map built (fx_workers ?s) = map built (fx_workers s)"
    using Holding l by (simp_all add: map_update list_update_same_conv)
  then have all: "all_tasks ?s = all_tasks s" by (simp add: all_tasks_def)
  have "held (fx_workers ?s ! j) = held (fx_workers s ! j)" if "j < length (fx_stages s)" for j
    using arg_cong [OF h(1), of "\<lambda>xs. xs ! j"] that d(3) by simp
  then have "placed ?s" unfolding placed_def all using d by simp
  with h all have "flex_ok act rqs ?s" by (intro flex_ok_quiet [OF assms(1)]) simp_all
  with Holding assms(1) show ?thesis by (simp add: runs_def)
qed (use assms in \<open>auto simp: runs_def\<close>)

lemma ends_ok:
  assumes "flex_ok act rqs s" and "i < length (fx_stages s)"
  shows "flex_ok act rqs (ends act i s)"
proof (cases "fx_workers s ! i")
  case (Running t x ctx)
  have p: "placed s" "registered s" using assms(1) by (simp_all add: flex_ok_def)
  note d = placedD [OF p(1)]
  have l: "i < length (fx_workers s)" using assms(2) d(3) by simp
  let ?r = "result_of (tk_request t) (sf_stage_id (fx_stages s ! i)) (act i x ctx)"
  let ?s = "s\<lparr>fx_workers := (fx_workers s)[i := Waiting], fx_results := fx_results s @ [?r]\<rparr>"
  have all: "all_tasks s = add_mset t (all_tasks ?s)" using task_done [OF l Running] by (simp add: all_tasks_def)
  have t: "t \<in># all_tasks s" unfolding all by simp
  have id: "tk_stage t = sf_stage_id (fx_stages s ! i)" using d(4) [OF assms(2), of t] Running by simp
  have "tk_stage u = sf_stage_id (fx_stages s ! j)"
    if "j < length (fx_stages s)" "u \<in> set (fx_in ?s ! j) \<union> set (held (fx_workers ?s ! j))" for j u
    using that d(4) [of j u] l by (cases "j = i") auto
  moreover have "tk_request t \<in> gn_request ` set (fx_calls s)" using d(5) [OF t] by (metis imageI nth_mem)
  ultimately have "placed ?s"
    unfolding placed_def using d(1-3) d(5) [unfolded all] d(6) by auto
  moreover have "underway_of rid ?s = underway_of rid s" for rid using id unfolding all by simp
  moreover have "right_result act (fx_stages s) (fx_calls s ! n) ?r"
    if n: "n < length (fx_calls s)" "is_active (fx_calls s ! n)" "call_at act rqs s n" "tk_request t = gn_request (fx_calls s ! n)" for n
  proof -
    have b: "(gn_request (fx_calls s ! n), x, ctx) \<in> set (concat (map built (fx_workers s)))"
      using Running l n(4) nth_mem [OF l] by (auto intro!: bexI [of _ "fx_workers s ! i"])
    have u: "underway_of (gn_request (fx_calls s ! n)) s \<noteq> {#}" using t n(4) unfolding underway_none by auto
    have "x = gn_inputs (fx_calls s ! n) \<and> ctx = gn_context (fx_calls s ! n)"
      using n(2,3) b u unfolding call_at_def call_ok_def waits_ok_def built_of_def is_active_def by (auto split: phase.splits)
    then show ?thesis using n(4) stage_alone [OF d(1) assms(2)] by (simp add: right_result_def)
  qed
  ultimately have "flex_ok act rqs ?s"
    using built_update [OF l, of Waiting] by (intro flex_ok_quiet [OF assms(1)]) auto
  with Running show ?thesis by (simp add: ends_def)
qed (use assms in \<open>auto simp: ends_def\<close>)

text \<open>A step that changes one generation.\<close>

lemma flex_ok_change:
  assumes "flex_ok act rqs s" and "placed s'" and "registered s'" and "fx_stages s' = fx_stages s"
    and "fx_calls s' = (fx_calls s)[n := c]" and "n < length (fx_calls s)" and "gn_request c = gn_request (fx_calls s ! n)"
    and "fx_workers s' = fx_workers s" and "set (fx_results s') \<subseteq> set (fx_results s)"
    and "\<And>rid. rid \<noteq> gn_request c \<Longrightarrow> underway_of rid s' = underway_of rid s"
    and "call_at act rqs s n \<Longrightarrow> call_ok act (fx_stages s) (underway_of (gn_request c) s') (results_of (gn_request c) s')
      (built_of (gn_request c) s) (rqs ! n) c"
  shows "flex_ok act rqs s'"
proof -
  have b: "built_of rid s' = built_of rid s" for rid using assms(8) by (simp add: built_of_def)
  have "call_at act rqs s' j" if j: "j < length (fx_calls s)" for j
  proof (cases "j = n")
    case True
    then show ?thesis using assms(1,4-6,11) b by (simp add: call_at_def flex_ok_def)
  next
    case False
    have "gn_request (fx_calls s ! j) \<noteq> gn_request c"
      using same_request [of s n j] assms(1,6,7) j False by (auto simp: flex_ok_def)
    from assms(10) [OF this] have u: "underway_of (gn_request (fx_calls s ! j)) s' = underway_of (gn_request (fx_calls s ! j)) s" .
    have e: "fx_calls s' ! j = fx_calls s ! j" using assms(5) False by simp
    have "call_at act rqs s j" using assms(1) j by (simp add: flex_ok_def)
    then show ?thesis
      unfolding call_at_def e assms(4) u b
      by (rule call_ok_mono) (use assms(9) in \<open>auto simp: results_of_def\<close>)
  qed
  with assms(1-5) show ?thesis by (simp add: flex_ok_def)
qed

lemma placed_change:
  assumes "placed s" and "fx_stages s' = fx_stages s" and "fx_in s' = fx_in s" and "fx_workers s' = fx_workers s"
    and "set (fx_results s') \<subseteq> set (fx_results s)" and "fx_calls s' = (fx_calls s)[n := c]"
    and "n < length (fx_calls s)" and "gn_request c = gn_request (fx_calls s ! n)"
  shows "placed s'"
proof -
  have a: "all_tasks s' = all_tasks s" using assms(3,4) by (simp add: all_tasks_def)
  have r: "map gn_request (fx_calls s') = map gn_request (fx_calls s)"
    unfolding assms(6) using assms(7,8) by (simp add: map_update list_update_same_conv)
  have n: "gn_request (fx_calls s' ! j) = gn_request (fx_calls s ! j)" if "j < length (fx_calls s)" for j
    using arg_cong [OF r, of "\<lambda>xs. xs ! j"] that assms(6) by simp
  have "gn_request ` set (fx_calls s') = gn_request ` set (fx_calls s)" using arg_cong [OF r, of set] by simp
  with assms(1-6) a n show ?thesis unfolding placed_def by auto
qed

lemma registered_change:
  assumes "registered s" and "fx_calls s' = (fx_calls s)[n := c]" and "n < length (fx_calls s)" and "gn_request c = gn_request (fx_calls s ! n)"
    and "if is_active c then is_active (fx_calls s ! n) \<and> fx_states s' = fx_states s else fx_states s' = od_del (gn_request c) (fx_states s)"
  shows "registered s'"
proof -
  have r: "map gn_request (fx_calls s') = map gn_request (fx_calls s)"
    unfolding assms(2) using assms(3,4) by (simp add: map_update list_update_same_conv)
  have "od_get (fx_states s') rid = Some j \<longleftrightarrow>
      j < length (fx_calls s') \<and> gn_request (fx_calls s' ! j) = rid \<and> is_active (fx_calls s' ! j)" for rid j
  proof (cases "j = n")
    case True
    then show ?thesis using assms by (auto simp: registered_def split: if_splits)
  next
    case False
    then have "rid \<noteq> gn_request c" if "j < length (fx_calls s)" "gn_request (fx_calls s ! j) = rid"
      using same_request [OF assms(1,3), of j] assms(4) that by auto
    with False assms show ?thesis by (auto simp: registered_def split: if_splits)
  qed
  with r assms(1) show ?thesis by (simp add: registered_def)
qed

lemma flex_okD:
  assumes "flex_ok act rqs s"
  shows "placed s" "registered s" "n < length (fx_calls s) \<Longrightarrow> call_at act rqs s n"
  using assms by (simp_all add: flex_ok_def)

lemma registeredD: "registered s \<Longrightarrow> od_get (fx_states s) rid = Some n \<longleftrightarrow>
    n < length (fx_calls s) \<and> gn_request (fx_calls s ! n) = rid \<and> is_active (fx_calls s ! n)"
  by (simp add: registered_def)

lemma routes_ok:
  assumes "flex_ok act rqs s"
  shows "flex_ok act rqs (routes s)"
proof (cases "fx_results s")
  case (Cons r rest)
  note p = flex_okD [OF assms]
  let ?s = "s\<lparr>fx_results := rest\<rparr>"
  have all: "all_tasks (fx_calls_update f ?s) = all_tasks s" "all_tasks ?s = all_tasks s" for f by (simp_all add: all_tasks_def)
  show ?thesis
  proof (cases "od_get (fx_states s) (rs_request r)")
    case None
    have n: "rs_request r \<noteq> gn_request (fx_calls s ! j)" if "j < length (fx_calls s)" "is_active (fx_calls s ! j)" for j
      using None registeredD [OF p(2), of "rs_request r" j] that by auto
    have "placed ?s" using p(1) unfolding placed_def all using Cons by simp
    then have "flex_ok act rqs ?s" using n Cons by (intro flex_ok_quiet [OF assms]) (auto simp: all)
    with Cons None show ?thesis by (simp add: routes_def)
  next
    case (Some n)
    then have n: "n < length (fx_calls s)" "gn_request (fx_calls s ! n) = rs_request r" "is_active (fx_calls s ! n)"
      using registeredD [OF p(2)] by blast+
    let ?c = "(fx_calls s ! n)\<lparr>gn_queue := gn_queue (fx_calls s ! n) @ [r], gn_current := rs_stage r\<rparr>"
    let ?t = "set_generation n ?c ?s"
    have t: "fx_calls ?t = (fx_calls s)[n := ?c]" "fx_stages ?t = fx_stages s" "fx_in ?t = fx_in s" "fx_workers ?t = fx_workers s"
      "fx_results ?t = rest" "fx_states ?t = fx_states s" "all_tasks ?t = all_tasks s"
      by (simp_all add: set_generation_def all_tasks_def)
    have "flex_ok act rqs ?t"
    proof (rule flex_ok_change [OF assms, of _ n ?c])
      show "placed ?t" by (rule placed_change [OF p(1), of _ n ?c]) (use t n Cons in auto)
      show "registered ?t" by (rule registered_change [OF p(2), of _ n ?c]) (use t n in \<open>simp_all add: is_active_def\<close>)
      show "underway_of rid ?t = underway_of rid s" if "rid \<noteq> gn_request ?c" for rid
        using that n Cons unfolding t by simp
      assume a: "call_at act rqs s n"
      have "underway_of (rs_request r) s = add_mset (rs_stage r) (underway_of (rs_request r) ?t)" unfolding t Cons by simp
      moreover have "r \<in> results_of (rs_request r) s" "results_of (rs_request r) ?t \<subseteq> results_of (rs_request r) s"
        unfolding results_of_def t using Cons by auto
      ultimately show "call_ok act (fx_stages s) (underway_of (gn_request ?c) ?t) (results_of (gn_request ?c) ?t) (built_of (gn_request ?c) s) (rqs ! n) ?c"
        using a n(2,3) unfolding call_at_def call_ok_def waits_ok_def right_result_def rest_of_def is_active_def
        by (auto split: phase.splits)
    qed (use t n Cons in auto)
    with Cons Some show ?thesis by (simp add: routes_def)
  qed
qed (use assms in \<open>simp add: routes_def\<close>)

lemma end_generation_ok:
  assumes "flex_ok act rqs s" and "n < length (fx_calls s)" and "gn_request c = gn_request (fx_calls s ! n)" and "ph = Ended \<or> ph = Closed"
    and "call_at act rqs s n \<Longrightarrow> call_ok act (fx_stages s) {#} {} {} (rqs ! n) (c\<lparr>gn_phase := ph\<rparr>)"
  shows "flex_ok act rqs (end_generation n ph c s)"
proof -
  note p = flex_okD [OF assms(1)]
  let ?c = "c\<lparr>gn_phase := ph\<rparr>"
  let ?t = "end_generation n ph c s"
  have t: "fx_calls ?t = (fx_calls s)[n := ?c]" "fx_stages ?t = fx_stages s" "fx_in ?t = fx_in s" "fx_workers ?t = fx_workers s"
    "fx_results ?t = fx_results s" "fx_states ?t = od_del (gn_request c) (fx_states s)" "all_tasks ?t = all_tasks s"
    by (simp_all add: set_generation_def end_generation_def all_tasks_def)
  have q: "\<not> is_active ?c" using assms(4) by (auto simp: is_active_def)
  show ?thesis
  proof (rule flex_ok_change [OF assms(1), of _ n ?c])
    show "placed ?t" by (rule placed_change [OF p(1), of _ n ?c]) (use t assms(2,3) in auto)
    show "registered ?t" by (rule registered_change [OF p(2), of _ n ?c]) (use t assms(2,3) q in \<open>simp_all\<close>)
    assume "call_at act rqs s n"
    from call_ok_mono [OF assms(5) [OF this]] q
    show "call_ok act (fx_stages s) (underway_of (gn_request ?c) ?t) (results_of (gn_request ?c) ?t) (built_of (gn_request ?c) s) (rqs ! n) ?c"
      by blast
  qed (use t assms in auto)
qed

lemma closes_ok:
  assumes "flex_ok act rqs s" and "n < length (fx_calls s)"
  shows "flex_ok act rqs (closes n s)"
proof (cases "is_active (fx_calls s ! n)")
  case True
  have "flex_ok act rqs (end_generation n Closed (fx_calls s ! n) s)"
    using True by (intro end_generation_ok [OF assms])
      (auto simp: call_at_def call_ok_def rest_of_def is_active_def split: phase.splits)
  with True show ?thesis by (simp add: closes_def)
qed (use assms in \<open>simp add: closes_def\<close>)

lemma group_ids_distinct: "distinct (map sf_stage_id sts) \<Longrightarrow> k < length (group_stages sts) \<Longrightarrow> distinct (group_ids sts k)"
proof -
  assume d: "distinct (map sf_stage_id sts)" and k: "k < length (group_stages sts)"
  have "concat (map (map (sf_stage_id \<circ> snd)) (group_stages sts)) = map (sf_stage_id \<circ> snd) (enumerate 0 sts)"
    by (simp add: groups_are_stages(1) flip: map_concat)
  also have "\<dots> = map sf_stage_id sts" by (simp flip: map_map)
  finally have "distinct (concat (map (map (sf_stage_id \<circ> snd)) (group_stages sts)))" using d by simp
  then have "\<forall>xs \<in> set (map (map (sf_stage_id \<circ> snd)) (group_stages sts)). distinct xs" by (simp add: distinct_concat_iff)
  with k show "distinct (group_ids sts k)" by (simp add: group_ids_def)
qed

lemma group_members:
  assumes "k < length (group_stages sts)" and "st \<in> set (group_stages sts ! k)"
  shows "fst st < length sts" "snd st = sts ! fst st"
proof -
  have "st \<in> set (concat (group_stages sts))" using assms by auto
  then have "st \<in> set (enumerate 0 sts)" by (simp only: groups_are_stages)
  then show "fst st < length sts" "snd st = sts ! fst st" by (auto simp: in_set_enumerate_eq)
qed

lemma finish_group_ok:
  assumes "flex_ok act rqs s" and "n < length (fx_calls s)" and "is_active (fx_calls s ! n)" and "gn_request c = gn_request (fx_calls s ! n)"
    and "gn_request c = fst (rqs ! n)" and "gn_inputs c = fst (snd (rqs ! n))" and "gn_queue c = []"
    and "underway_of (gn_request c) s = {#}" and "k < length (group_stages (fx_stages s))"
    and "gn_yields c @ rest_of act (fx_stages s) k c = whole act (fx_stages s) (rqs ! n)"
    and "\<forall>i \<in> set (group_ids (fx_stages s) k). look i = alone act (fx_stages s) (gn_request c) (gn_inputs c) (gn_context c) i"
  shows "flex_ok act rqs (finish_group n k look c s)"
proof -
  note p = flex_okD [OF assms(1)]
  obtain ctx ys ok where e: "end_group (map snd (group_stages (fx_stages s) ! k)) look (gn_context c) = (ctx, ys, ok)"
    by (metis prod_cases3)
  note r = serial_group [OF assms(9,11) e]
  let ?c = "c\<lparr>gn_context := ctx, gn_yields := gn_yields c @ ys\<rparr>"
  show ?thesis
  proof (cases ok)
    case True
    let ?d = "?c\<lparr>gn_phase := Due (Suc k)\<rparr>"
    let ?t = "set_generation n ?d s"
    have t: "fx_calls ?t = (fx_calls s)[n := ?d]" "fx_stages ?t = fx_stages s" "fx_in ?t = fx_in s" "fx_workers ?t = fx_workers s"
      "fx_results ?t = fx_results s" "fx_states ?t = fx_states s" "all_tasks ?t = all_tasks s"
      by (simp_all add: set_generation_def all_tasks_def)
    have "flex_ok act rqs ?t"
    proof (rule flex_ok_change [OF assms(1), of _ n ?d])
      show "placed ?t" by (rule placed_change [OF p(1), of _ n ?d]) (use t assms(2,4) in auto)
      show "registered ?t" by (rule registered_change [OF p(2), of _ n ?d]) (use t assms(2-4) in \<open>simp_all add: is_active_def\<close>)
      show "call_ok act (fx_stages s) (underway_of (gn_request ?d) ?t) (results_of (gn_request ?d) ?t) (built_of (gn_request ?d) s) (rqs ! n) ?d"
        using assms(5-8,10) True r unfolding t call_ok_def by (simp add: rest_of_def)
    qed (use t assms in auto)
    with True e show ?thesis by (simp add: finish_group_def Let_def)
  next
    case False
    have "flex_ok act rqs (end_generation n Ended ?c s)"
      by (rule end_generation_ok [OF assms(1,2)]) (use assms(4-6,10) False r in \<open>simp_all add: call_ok_def\<close>)
    with False e show ?thesis by (simp add: finish_group_def Let_def)
  qed
qed

lemma looked_up:
  assumes "mset (od_keys res) = mset ids" and "distinct ids" and "\<forall>(i, r) \<in> set res. right_result act sts c r \<and> rs_stage r = i" and "i \<in> set ids"
  shows "the (od_get res i) = alone act sts (gn_request c) (gn_inputs c) (gn_context c) i"
proof -
  have "i \<in> set (od_keys res)" using assms(1,4) by (metis set_mset_mset)
  then obtain r where r: "od_get res i = Some r" by (auto simp: map_of_eq_None_iff dest: weak_map_of_SomeI)
  then have "(i, r) \<in> set res" by (rule map_of_SomeD)
  with assms(3) r show ?thesis by (auto simp: right_result_def)
qed

lemma receives_ok:
  assumes "flex_ok act rqs s" and n: "n < length (fx_calls s)"
  shows "flex_ok act rqs (receives n s)"
proof (cases "\<exists>k missing res r rest. gn_phase (fx_calls s ! n) = Awaits k missing res \<and> gn_queue (fx_calls s ! n) = r # rest")
  case True
  then obtain k missing res r rest where q: "gn_phase (fx_calls s ! n) = Awaits k missing res" "gn_queue (fx_calls s ! n) = r # rest"
    by blast
  note p = flex_okD [OF assms(1)]
  let ?c = "fx_calls s ! n" and ?sts = "fx_stages s"
  let ?d = "?c\<lparr>gn_queue := rest\<rparr>"
  have a: "is_active ?c" by (simp add: is_active_def q)
  have w: "waits_ok act ?sts (underway_of (gn_request ?c) s) (results_of (gn_request ?c) s) (built_of (gn_request ?c) s) ?c k missing res"
    and y: "gn_yields ?c @ rest_of act ?sts k ?c = whole act ?sts (rqs ! n)" and c: "gn_request ?c = fst (rqs ! n)" "gn_inputs ?c = fst (snd (rqs ! n))"
    using p(3) [OF n] unfolding call_at_def call_ok_def q(1) phase.case by blast+
  have k: "k < length (group_stages ?sts)" and r: "right_result act ?sts ?c r"
    and res: "\<forall>(i, r) \<in> set res. right_result act ?sts ?c r \<and> rs_stage r = i"
    and m: "underway_of (gn_request ?c) s + image_mset rs_stage (mset (r # rest)) = mset missing"
    and g: "mset missing + mset (od_keys res) = mset (group_ids ?sts k)"
    using w q unfolding waits_ok_def by auto
  note dist = group_ids_distinct [OF placedD(1) [OF p(1)] k]
  have mem: "rs_stage r \<in> set missing" using arg_cong [OF m, of set_mset] by auto
  have y': "gn_yields ?d @ rest_of act ?sts k ?d = whole act ?sts (rqs ! n)" using y by (simp add: rest_of_def)
  have dd: "gn_request ?d = gn_request ?c" "gn_request ?d = fst (rqs ! n)" "gn_inputs ?d = fst (snd (rqs ! n))" using c by simp_all
  have right: "right_result act ?sts ?d x = right_result act ?sts ?c x" for x by (simp add: right_result_def)
  show ?thesis
  proof (cases "length (group_stages ?sts ! k) = 1")
    case True
    have "size (mset (group_ids ?sts k)) = 1" using True by (simp add: group_ids_def)
    then have "size (mset missing) + size (mset (od_keys res)) = 1" by (metis g size_union)
    moreover have "size (mset missing) > 0" using mem by (cases missing) simp_all
    ultimately have z: "length missing = 1" "res = []" by (cases missing; simp)+
    have "missing = [rs_stage r]" using z(1) mem by (cases missing) auto
    with m have e: "underway_of (gn_request ?c) s = {#}" "rest = []" by simp_all
    have ids: "set (group_ids ?sts k) = {rs_stage r}"
      using arg_cong [OF g, of set_mset] z(2) \<open>missing = [rs_stage r]\<close> by simp
    have "flex_ok act rqs (finish_group n k (\<lambda>i. r) ?d s)"
      by (rule finish_group_ok [OF assms a dd(1,2,3) _ _ k y']) (use e ids r in \<open>simp_all add: right_result_def\<close>)
    with True q mem show ?thesis by (simp add: receives_def)
  next
    case False
    let ?res = "od_put (rs_stage r) r res" and ?missing = "removeAll (rs_stage r) missing"
    have d: "distinct (missing @ od_keys res)" using g dist mset_eq_imp_distinct_iff [of "missing @ od_keys res" "group_ids ?sts k"] by simp
    have new: "rs_stage r \<notin> set (od_keys res)" using d mem by auto
    then have keys: "od_keys ?res = od_keys res @ [rs_stage r]" "set ?res = insert (rs_stage r, r) (set res)"
      by (simp_all add: od_put_absent map_of_eq_None_iff)
    have "removeAll (rs_stage r) missing = remove1 (rs_stage r) missing" using d by (simp add: distinct_remove1_removeAll)
    then have mm: "add_mset (rs_stage r) (mset ?missing) = mset missing" using mem by simp
    have "mset ?missing + mset (od_keys ?res) = add_mset (rs_stage r) (mset ?missing) + mset (od_keys res)"
      unfolding keys(1) by simp
    then have g': "mset ?missing + mset (od_keys ?res) = mset (group_ids ?sts k)" unfolding mm g .
    have m': "underway_of (gn_request ?c) s + image_mset rs_stage (mset rest) = mset ?missing" using m unfolding mm [symmetric] by simp
    have res': "\<forall>(i, r) \<in> set ?res. right_result act ?sts ?d r \<and> rs_stage r = i" using res r unfolding keys(2) right by auto
    show ?thesis
    proof (cases "?missing = []")
      case empty: True
      with m' have e: "underway_of (gn_request ?c) s = {#}" "rest = []" by simp_all
      have "mset (od_keys ?res) = mset (group_ids ?sts k)" using g' empty by simp
      then have "flex_ok act rqs (finish_group n k (\<lambda>i. the (od_get ?res i)) ?d s)"
        by (intro finish_group_ok [OF assms a dd(1,2,3) _ _ k y'] ballI looked_up [OF _ dist res']) (use e in simp_all)
      with False q mem empty show ?thesis by (simp add: receives_def Let_def)
    next
      case more: False
      let ?f = "?d\<lparr>gn_phase := Awaits k ?missing ?res\<rparr>"
      let ?t = "set_generation n ?f s"
      have t: "fx_calls ?t = (fx_calls s)[n := ?f]" "fx_stages ?t = fx_stages s" "fx_in ?t = fx_in s" "fx_workers ?t = fx_workers s"
        "fx_results ?t = fx_results s" "fx_states ?t = fx_states s" "all_tasks ?t = all_tasks s"
        by (simp_all add: set_generation_def all_tasks_def)
      have "flex_ok act rqs ?t"
      proof (rule flex_ok_change [OF assms(1), of _ n ?f])
        show "placed ?t" by (rule placed_change [OF p(1), of _ n ?f]) (use t n in auto)
        show "registered ?t" by (rule registered_change [OF p(2), of _ n ?f]) (use t n a in \<open>simp_all add: is_active_def\<close>)
        have "waits_ok act ?sts (underway_of (gn_request ?c) s) (results_of (gn_request ?c) s) (built_of (gn_request ?c) s) ?f k ?missing ?res"
          using w q more g' m' res' unfolding waits_ok_def by (simp add: right_result_def)
        then show "call_ok act ?sts (underway_of (gn_request ?f) ?t) (results_of (gn_request ?f) ?t) (built_of (gn_request ?f) s) (rqs ! n) ?f"
          using c y unfolding call_ok_def t by (simp add: results_of_def rest_of_def t)
      qed (use t n in auto)
      with False q mem more show ?thesis by (simp add: receives_def Let_def)
    qed
  qed
qed (use assms in \<open>auto simp: receives_def Let_def split: phase.split list.split\<close>)

lemma underway_submitted:
  "underway rid (ts + mset (map (task_for n c) members)) rs =
     (if rid = gn_request c then underway rid ts rs + mset (map (sf_stage_id \<circ> snd) members) else underway rid ts rs)"
  by (induction members) (auto simp: task_for_def comp_def)

lemma built_underway: "underway_of rid s = {#} \<Longrightarrow> results_of rid s = {} \<and> built_of rid s = {}"
proof -
  assume u: "underway_of rid s = {#}"
  have "\<exists>t \<in> set (held w). tk_request t = rid" if "(rid, xc) \<in> set (built w)" for w :: "'a stage_worker" and xc
    using that by (cases w) auto
  with u show "results_of rid s = {} \<and> built_of rid s = {}"
    unfolding underway_none results_of_def built_of_def all_tasks_def by fastforce
qed

lemma begin_group_ok:
  assumes "flex_ok act rqs s" and n: "n < length (fx_calls s)" and due: "gn_phase (fx_calls s ! n) = Due k"
  shows "flex_ok act rqs (begin_group n k s)"
proof -
  note p = flex_okD [OF assms(1)]
  note d = placedD [OF p(1)]
  let ?c = "fx_calls s ! n" and ?sts = "fx_stages s"
  have c: "gn_request ?c = fst (rqs ! n)" "gn_inputs ?c = fst (snd (rqs ! n))" "gn_queue ?c = []" "underway_of (gn_request ?c) s = {#}"
    and y: "gn_yields ?c @ rest_of act ?sts k ?c = whole act ?sts (rqs ! n)"
    using p(3) [OF n] unfolding call_at_def call_ok_def due phase.case by blast+
  have a: "is_active ?c" by (simp add: is_active_def due)
  show ?thesis
  proof (cases "k < length (group_stages ?sts)")
    case True
    let ?ms = "group_stages ?sts ! k"
    let ?d = "?c\<lparr>gn_phase := Awaits k (remdups (map (sf_stage_id \<circ> snd) ?ms)) []\<rparr>"
    let ?t = "set_generation n ?d (s\<lparr>fx_in := submit_group n ?c ?ms (fx_in s)\<rparr>)"
    note mem = group_members [OF True]
    have dist: "distinct (group_ids ?sts k)" by (rule group_ids_distinct [OF d(1) True])
    then have ids: "remdups (map (sf_stage_id \<circ> snd) ?ms) = group_ids ?sts k" by (simp add: group_ids_def distinct_remdups_id)
    have t: "fx_calls ?t = (fx_calls s)[n := ?d]" "fx_stages ?t = ?sts" "fx_in ?t = submit_group n ?c ?ms (fx_in s)"
      "fx_workers ?t = fx_workers s" "fx_results ?t = fx_results s" "fx_states ?t = fx_states s"
      by (simp_all add: set_generation_def)
    have all: "all_tasks ?t = all_tasks s + mset (map (task_for n ?c) ?ms)"
      using submitted_tasks [of ?ms "fx_in s" n ?c] mem(1) d(2) by (simp add: all_tasks_def t)
    have same: "gn_request (fx_calls ?t ! j) = gn_request (fx_calls s ! j)" if "j < length (fx_calls s)" for j
      using that t(1) by (cases "j = n") auto
    have "flex_ok act rqs ?t"
    proof (rule flex_ok_change [OF assms(1), of _ n ?d])
      have "tk_stage u = sf_stage_id (?sts ! i)" if i: "i < length ?sts" and u: "u \<in> set (fx_in ?t ! i) \<union> set (held (fx_workers ?t ! i))" for i u
      proof -
        have "u \<in> set (fx_in s ! i) \<union> set (held (fx_workers s ! i)) \<or> (\<exists>st \<in> set ?ms. fst st = i \<and> u = task_for n ?c st)"
          using u submitted_at [of u n ?c ?ms "fx_in s" i] i d(2) unfolding t by auto
        then show ?thesis using d(4) [OF i] mem(2) by (auto simp: task_for_def)
      qed
      moreover have "tk_call u < length (fx_calls ?t) \<and> gn_request (fx_calls ?t ! tk_call u) = tk_request u" if "u \<in># all_tasks ?t" for u
        using that d(5) [of u] same n unfolding all t(1) by (auto simp: task_for_def)
      moreover have "rs_request r \<in> gn_request ` set (fx_calls ?t)" if r: "r \<in> set (fx_results ?t)" for r
      proof -
        obtain j where "j < length (fx_calls s)" "gn_request (fx_calls s ! j) = rs_request r"
          using d(6) [of r] r unfolding t by (auto simp: in_set_conv_nth)
        with same [of j] nth_mem [of j "fx_calls ?t"] show ?thesis unfolding t(1) by (metis imageI length_list_update)
      qed
      ultimately show "placed ?t" unfolding placed_def using d(1-3) t by simp
      show "registered ?t" by (rule registered_change [OF p(2), of _ n ?d]) (use t n a in \<open>simp_all add: is_active_def\<close>)
      show "underway_of rid ?t = underway_of rid s" if "rid \<noteq> gn_request ?d" for rid
        using that unfolding all t(5) underway_submitted by simp
      have "group_ids ?sts k \<noteq> []" using groups_are_stages(2) [of ?sts] nth_mem [OF True] by (metis group_ids_def map_is_Nil_conv)
      moreover have "underway_of (gn_request ?c) ?t = mset (group_ids ?sts k)"
        unfolding all t(5) underway_submitted c(4) by (simp add: group_ids_def)
      moreover have "results_of (gn_request ?c) ?t = {}" "built_of (gn_request ?c) s = {}"
        using built_underway [OF c(4)] by (simp_all add: results_of_def t)
      ultimately show "call_ok act ?sts (underway_of (gn_request ?d) ?t) (results_of (gn_request ?d) ?t) (built_of (gn_request ?d) s) (rqs ! n) ?d"
        using c(1-3) y True unfolding call_ok_def by (simp add: ids waits_ok_def rest_of_def)
    qed (use t n in auto)
    with True show ?thesis by (simp add: begin_group_def Let_def)
  next
    case False
    have "flex_ok act rqs (end_generation n Ended
        (?c\<lparr>gn_yields := gn_yields ?c @ [Finished (final_output ?sts (gn_context ?c)) (gn_context ?c)]\<rparr>) s)"
      by (rule end_generation_ok [OF assms(1,2)]) (use c y False in \<open>simp_all add: call_ok_def rest_of_def\<close>)
    with False show ?thesis by (simp add: begin_group_def Let_def)
  qed
qed

lemma generates_ok:
  assumes "flex_ok act rqs s" and "rid \<notin> fst ` set rqs"
  shows "flex_ok act (rqs @ [(rid, x, ctx)]) (generates rid x ctx s)"
proof -
  note p = flex_okD [OF assms(1)]
  note d = placedD [OF p(1)]
  let ?c = "\<lparr>gn_request = rid, gn_inputs = x, gn_context = ctx, gn_current = 0, gn_queue = [], gn_phase = Due 0, gn_yields = []\<rparr>"
  let ?t = "s\<lparr>fx_states := od_put rid (length (fx_calls s)) (fx_states s), fx_calls := fx_calls s @ [?c]\<rparr>"
  have l: "length rqs = length (fx_calls s)" using assms(1) by (simp add: flex_ok_def)
  have new: "gn_request (fx_calls s ! j) \<noteq> rid" if "j < length (fx_calls s)" for j
    using p(3) [OF that] assms(2) that l by (auto simp: call_at_def call_ok_def image_iff)
  then have out: "rid \<notin> gn_request ` set (fx_calls s)" by (metis imageE in_set_conv_nth)
  have all: "all_tasks ?t = all_tasks s" by (simp add: all_tasks_def)
  have "placed ?t" using p(1) unfolding placed_def all by (auto simp: nth_append)
  moreover have "registered ?t"
    using p(2) out new by (auto simp: registered_def nth_append is_active_def less_Suc_eq)
  moreover have "call_at act (rqs @ [(rid, x, ctx)]) ?t j" if "j < length (fx_calls ?t)" for j
  proof (cases "j < length (fx_calls s)")
    case True
    then show ?thesis using p(3) [OF True] l by (simp add: call_at_def nth_append all results_of_def built_of_def)
  next
    case False
    then have j: "j = length (fx_calls s)" using that by simp
    have "underway_of rid s = {#}" unfolding underway_none using d(5,6) new out by (metis imageI set_mset_mset)
    with j l show ?thesis by (simp add: call_at_def call_ok_def nth_append rest_of_def all)
  qed
  ultimately have "flex_ok act (rqs @ [(rid, x, ctx)]) ?t" using l by (simp add: flex_ok_def)
  from begin_group_ok [OF this, of "length (fx_calls s)" 0] show ?thesis by (simp add: generates_def Let_def nth_append)
qed

fun request_of :: "'v flex_event \<Rightarrow> (string \<times> 'v \<times> 'v bindings) list" where
  "request_of (Generates rid x ctx) = [(rid, x, ctx)]"
| "request_of ev = []"

lemma flex_step_ok:
  assumes "flex_ok act rqs s" and "fst ` set (request_of ev) \<inter> fst ` set rqs = {}"
  shows "flex_ok act (rqs @ request_of ev) (flex_step act s ev)"
proof (cases ev)
  case (Asked n)
  then show ?thesis using assms by (auto simp: asked_def begin_group_ok split: phase.split)
qed (use assms in \<open>auto simp: generates_ok closes_ok receives_ok routes_ok takes_ok runs_ok ends_ok\<close>)

lemma flex_ok_new: "distinct (map sf_stage_id sts) \<Longrightarrow> flex_ok act [] (new_flexible sts)"
  by (simp add: flex_ok_def placed_def registered_def new_flexible_def all_tasks_def)

definition requests :: "'v flex_event list \<Rightarrow> (string \<times> 'v \<times> 'v bindings) list" where
  "requests evs = concat (map request_of evs)"

lemma flex_ok_run:
  assumes "flex_ok act rqs s" and "distinct (map fst (rqs @ requests evs))"
  shows "flex_ok act (rqs @ requests evs) (foldl (flex_step act) s evs)"
  using assms
proof (induction evs arbitrary: rqs s)
  case (Cons ev evs)
  have "fst ` set (request_of ev) \<inter> fst ` set rqs = {}" using Cons.prems(2) by (auto simp: requests_def)
  from flex_step_ok [OF Cons.prems(1) this] Cons.IH [of "rqs @ request_of ev" "flex_step act s ev"] Cons.prems(2)
  show ?case by (simp add: requests_def)
qed (simp add: requests_def)

lemma begin_group_stages [simp]: "fx_stages (begin_group n k s) = fx_stages s"
  by (simp add: begin_group_def Let_def set_generation_def end_generation_def)

lemma finish_group_stages [simp]: "fx_stages (finish_group n k look c s) = fx_stages s"
  by (simp add: finish_group_def Let_def set_generation_def end_generation_def split: prod.split)

lemma flex_step_stages [simp]: "fx_stages (flex_step act s ev) = fx_stages s"
  by (cases ev) (auto simp: generates_def asked_def closes_def receives_def routes_def takes_def runs_def ends_def Let_def
      set_generation_def end_generation_def split: phase.split list.split option.split stage_worker.split)

lemma flex_run_stages [simp]: "fx_stages (foldl (flex_step act) s evs) = fx_stages s"
  by (induction evs arbitrary: s) simp_all

section \<open>Stages of a lock group exclude each other\<close>

definition locks_ok :: "'v flexible \<Rightarrow> bool" where
  "locks_ok s \<longleftrightarrow> length (fx_workers s) = length (fx_stages s) \<and>
     (\<forall>i < length (fx_workers s). \<forall>j < length (fx_workers s). i \<noteq> j \<longrightarrow> is_running (fx_workers s ! i) \<longrightarrow> is_running (fx_workers s ! j) \<longrightarrow>
        lock_group (fx_stages s ! i) = lock_group (fx_stages s ! j) \<longrightarrow> lock_group (fx_stages s ! i) = None)"

lemma locks_ok_stop:
  assumes "locks_ok s" and "\<not> is_running w" and "fx_workers s' = (fx_workers s)[i := w]" and "fx_stages s' = fx_stages s"
  shows "locks_ok s'"
proof -
  have "is_running (fx_workers s ! j)" if "is_running (fx_workers s' ! j)" "j < length (fx_workers s)" for j
    using that assms(2,3) by (cases "j = i") simp_all
  then show ?thesis using assms(1) unfolding locks_ok_def assms(3,4) length_list_update by metis
qed

lemma locks_ok_runs: "locks_ok s \<Longrightarrow> i < length (fx_stages s) \<Longrightarrow> locks_ok (runs i s)"
proof (cases "fx_workers s ! i")
  case (Holding t x ctx)
  assume a: "locks_ok s" "i < length (fx_stages s)"
  have "locks_ok (s\<lparr>fx_workers := (fx_workers s)[i := Running t x ctx]\<rparr>)" if "lock_free i s"
    using a that Holding unfolding locks_ok_def lock_free_def by (auto simp: nth_list_update split: if_splits)
  with a Holding show ?thesis by (simp add: runs_def)
qed (simp_all add: runs_def)

lemma locks_ok_same: "locks_ok s \<Longrightarrow> fx_workers s' = fx_workers s \<Longrightarrow> fx_stages s' = fx_stages s \<Longrightarrow> locks_ok s'"
  by (simp add: locks_ok_def)

lemma begin_group_workers [simp]: "fx_workers (begin_group n k s) = fx_workers s"
  by (simp add: begin_group_def Let_def set_generation_def end_generation_def)

lemma finish_group_workers [simp]: "fx_workers (finish_group n k look c s) = fx_workers s"
  by (simp add: finish_group_def Let_def set_generation_def end_generation_def split: prod.split)

lemma receives_workers [simp]: "fx_workers (receives n s) = fx_workers s"
  by (simp add: receives_def Let_def set_generation_def split: phase.split list.split)

lemma locks_ok_step:
  assumes "locks_ok s"
  shows "locks_ok (flex_step act s ev)"
proof (cases ev)
  case (Takes i)
  have "locks_ok (takes i s)"
    using assms by (auto simp: takes_def intro!: locks_ok_stop [OF assms, of "Holding t x ctx" _ i for t x ctx]
        split: stage_worker.split list.split) (simp_all add: is_running_def)
  with Takes assms show ?thesis by simp
next
  case (Ends i)
  have "locks_ok (ends act i s)"
    using assms by (auto simp: ends_def intro!: locks_ok_stop [OF assms, of Waiting _ i] split: stage_worker.split) (simp_all add: is_running_def)
  with Ends assms show ?thesis by simp
next
  case (Runs i)
  then show ?thesis using assms by (simp add: locks_ok_runs)
next
  case (Receives n)
  then show ?thesis using assms flex_step_stages [of act s ev] by (auto intro: locks_ok_same [OF assms])
next
  case (Asked n)
  then show ?thesis using assms by (auto simp: asked_def intro: locks_ok_same [OF assms] split: phase.split)
qed (auto simp: generates_def closes_def routes_def Let_def set_generation_def end_generation_def
    intro!: locks_ok_same [OF assms] split: list.split option.split)

interpretation flex_locks: invariant_machine "flex_step act" locks_ok for act
  by unfold_locales (rule locks_ok_step)

lemma locks_exclude:
  assumes "i < length sts" and "j < length sts" and "i \<noteq> j" and "s = foldl (flex_step act) (new_flexible sts) evs"
    and "is_running (fx_workers s ! i)" and "is_running (fx_workers s ! j)" and "lock_group (sts ! i) = Some g"
  shows "lock_group (sts ! j) \<noteq> Some g"
proof -
  have "locks_ok (new_flexible sts)" by (simp add: locks_ok_def new_flexible_def is_running_def)
  from flex_locks.inv_run [OF this] have "locks_ok s" unfolding assms(4) .
  moreover have "fx_stages s = sts" unfolding assms(4) by (simp add: new_flexible_def)
  ultimately show ?thesis using assms(1-3,5-7) unfolding locks_ok_def by (metis option.distinct(1))
qed

section \<open>No request waits for ever\<close>

text \<open>The steps of the workers, the output handler and the generations that await a result.\<close>

fun is_internal :: "'v flex_event \<Rightarrow> bool" where
  "is_internal (Generates rid x ctx) = False"
| "is_internal (Asked n) = False"
| "is_internal (Closes n) = False"
| "is_internal ev = True"

fun worker_load :: "'v stage_worker \<Rightarrow> nat" where
  "worker_load Waiting = 0"
| "worker_load (Holding t x ctx) = 4"
| "worker_load (Running t x ctx) = 3"

definition load :: "'v flexible \<Rightarrow> nat" where
  "load s = 5 * sum_list (map length (fx_in s)) + sum_list (map worker_load (fx_workers s)) + 2 * length (fx_results s) +
     sum_list (map (length \<circ> gn_queue) (fx_calls s))"

lemma sum_put: "i < length xs \<Longrightarrow> sum_list (map f (xs[i := y])) + f (xs ! i) = sum_list (map f xs) + (f y :: nat)"
  by (induction xs arbitrary: i) (auto split: nat.split simp: nth_Cons)

lemma load_takes:
  assumes "placed s" and "i < length (fx_stages s)" and "takes i s \<noteq> s"
  shows "load (takes i s) < load s"
proof -
  obtain t q where q: "fx_workers s ! i = Waiting" "fx_in s ! i = t # q"
    using assms(3) by (auto simp: takes_def split: stage_worker.splits list.splits)
  then show ?thesis
    using sum_put [of i "fx_in s" length q] sum_put [of i "fx_workers s" worker_load "Holding t x ctx" for x ctx] placedD(2,3) [OF assms(1)] assms(2)
    by (simp add: takes_def load_def)
qed

lemma load_runs:
  assumes "placed s" and "i < length (fx_stages s)" and "runs i s \<noteq> s"
  shows "load (runs i s) < load s"
proof -
  obtain t x ctx where q: "fx_workers s ! i = Holding t x ctx" "lock_free i s"
    using assms(3) by (auto simp: runs_def split: stage_worker.splits if_splits)
  then show ?thesis
    using sum_put [of i "fx_workers s" worker_load "Running t x ctx"] placedD(3) [OF assms(1)] assms(2) by (simp add: runs_def load_def)
qed

lemma load_ends:
  assumes "placed s" and "i < length (fx_stages s)" and "ends act i s \<noteq> s"
  shows "load (ends act i s) < load s"
proof -
  obtain t x ctx where q: "fx_workers s ! i = Running t x ctx"
    using assms(3) by (auto simp: ends_def split: stage_worker.splits)
  then show ?thesis
    using sum_put [of i "fx_workers s" worker_load Waiting] placedD(3) [OF assms(1)] assms(2) by (simp add: ends_def load_def)
qed

lemma load_queue:
  assumes "n < length (fx_calls s)" and "fx_calls s' = (fx_calls s)[n := c]" and "fx_in s' = fx_in s" and "fx_workers s' = fx_workers s"
  shows "load s' + 2 * length (fx_results s) + length (gn_queue (fx_calls s ! n)) = load s + 2 * length (fx_results s') + length (gn_queue c)"
  using sum_put [OF assms(1), of "length \<circ> gn_queue" c] assms(2-4) by (simp add: load_def)

lemma load_routes:
  assumes "registered s" and "routes s \<noteq> s"
  shows "load (routes s) < load s"
proof -
  obtain r rest where r: "fx_results s = r # rest" using assms(2) by (auto simp: routes_def split: list.splits)
  show ?thesis
  proof (cases "od_get (fx_states s) (rs_request r)")
    case None
    then show ?thesis using r by (simp add: routes_def load_def)
  next
    case (Some n)
    then have "n < length (fx_calls s)" using registeredD [OF assms(1)] by blast
    from load_queue [OF this, of "routes s" "(fx_calls s ! n)\<lparr>gn_queue := gn_queue (fx_calls s ! n) @ [r], gn_current := rs_stage r\<rparr>"]
    show ?thesis using Some r by (simp add: routes_def set_generation_def)
  qed
qed

lemma finish_group_parts:
  "fx_in (finish_group n k look c s) = fx_in s" "fx_results (finish_group n k look c s) = fx_results s"
  "\<exists>d. fx_calls (finish_group n k look c s) = (fx_calls s)[n := d] \<and> gn_queue d = gn_queue c"
  by (auto simp: finish_group_def Let_def set_generation_def end_generation_def split: prod.split)

lemma receives_parts:
  assumes "gn_phase (fx_calls s ! n) = Awaits k missing res" and "gn_queue (fx_calls s ! n) = r # rest"
  shows "fx_in (receives n s) = fx_in s" "fx_results (receives n s) = fx_results s"
    "\<exists>d. fx_calls (receives n s) = (fx_calls s)[n := d] \<and> gn_queue d = rest"
  using assms finish_group_parts [where n = n and k = k and s = s and c = "(fx_calls s ! n)\<lparr>gn_queue := rest\<rparr>"]
  by (auto simp: receives_def Let_def set_generation_def)

lemma load_receives:
  assumes "n < length (fx_calls s)" and "receives n s \<noteq> s"
  shows "load (receives n s) < load s"
proof -
  obtain k missing res r rest where q: "gn_phase (fx_calls s ! n) = Awaits k missing res" "gn_queue (fx_calls s ! n) = r # rest"
    using assms(2) by (auto simp: receives_def Let_def split: phase.splits list.splits)
  note r = receives_parts [OF q]
  then obtain d where d: "fx_calls (receives n s) = (fx_calls s)[n := d]" "gn_queue d = rest" by blast
  from load_queue [OF assms(1) d(1) r(1)] d(2) r(2) q show ?thesis by simp
qed

lemma load_step:
  assumes "flex_ok act rqs s" and "is_internal ev" and "flex_step act s ev \<noteq> s"
  shows "load (flex_step act s ev) < load s"
  using assms flex_okD(1,2) [OF assms(1)]
  by (cases ev) (auto simp: load_takes load_runs load_ends load_routes load_receives split: if_splits)

text \<open>While a generation awaits a result, there is something to do.\<close>

lemma busy_while_awaiting:
  assumes "flex_ok act rqs s" and n: "n < length (fx_calls s)" and "gn_phase (fx_calls s ! n) = Awaits k missing res"
  shows "\<exists>ev. is_internal ev \<and> flex_step act s ev \<noteq> s"
proof -
  note p = flex_okD [OF assms(1)]
  note d = placedD [OF p(1)]
  let ?c = "fx_calls s ! n"
  have w: "waits_ok act (fx_stages s) (underway_of (gn_request ?c) s) (results_of (gn_request ?c) s) (built_of (gn_request ?c) s) ?c k missing res"
    using p(3) [OF n] unfolding call_at_def call_ok_def assms(3) phase.case by blast
  have less: "load s' < load s \<Longrightarrow> s' \<noteq> s" for s' by auto
  show ?thesis
  proof (cases "gn_queue ?c")
    case (Cons r rest)
    obtain d where "fx_calls (receives n s) = (fx_calls s)[n := d]" "gn_queue d = rest"
      using receives_parts(3) [OF assms(3) Cons] by blast
    then have "gn_queue (fx_calls (receives n s) ! n) = rest" using n by simp
    with Cons have "receives n s \<noteq> s" by auto
    with n show ?thesis by (intro exI [of _ "Receives n"]) simp
  next
    case Nil
    with w have u: "underway_of (gn_request ?c) s \<noteq> {#}" unfolding waits_ok_def by auto
    show ?thesis
    proof (cases "fx_results s")
      case (Cons r rest)
      have "fx_results (routes s) = rest" using Cons by (simp add: routes_def set_generation_def split: option.split)
      with Cons have "routes s \<noteq> s" by auto
      then show ?thesis by (intro exI [of _ Routes]) simp
    next
      case none: Nil
      with u obtain t where t: "t \<in># all_tasks s" unfolding underway_none by auto
      show ?thesis
      proof (cases "\<exists>i < length (fx_stages s). is_running (fx_workers s ! i)")
        case True
        then obtain i where i: "i < length (fx_stages s)" "is_running (fx_workers s ! i)" by blast
        then have "fx_results (ends act i s) \<noteq> fx_results s" by (auto simp: ends_def is_running_def split: stage_worker.splits)
        then have "ends act i s \<noteq> s" by auto
        with i show ?thesis by (intro exI [of _ "Ends i"]) simp
      next
        case False
        show ?thesis
        proof (cases "\<exists>i < length (fx_stages s). fx_workers s ! i \<noteq> Waiting")
          case True
          then obtain i where i: "i < length (fx_stages s)" "fx_workers s ! i \<noteq> Waiting" by blast
          with False obtain u x ctx where h: "fx_workers s ! i = Holding u x ctx"
            by (cases "fx_workers s ! i") (auto simp: is_running_def)
          have "lock_free i s" using False d(3) by (auto simp: lock_free_def)
          with h i d(3) have "fx_workers (runs i s) ! i \<noteq> fx_workers s ! i" by (simp add: runs_def)
          then have "runs i s \<noteq> s" by auto
          with i show ?thesis by (intro exI [of _ "Runs i"]) simp
        next
          case idle: False
          then have "held v = []" if "v \<in> set (fx_workers s)" for v using that d(3) by (auto simp: in_set_conv_nth)
          then have "concat (map held (fx_workers s)) = []" by auto
          with t obtain q where "q \<in> set (fx_in s)" "q \<noteq> []" by (fastforce simp: all_tasks_def)
          then obtain i where i: "i < length (fx_stages s)" "fx_in s ! i \<noteq> []" using d(2) by (metis in_set_conv_nth)
          with idle d(3) have "fx_workers (takes i s) ! i \<noteq> fx_workers s ! i"
            by (auto simp: takes_def neq_Nil_conv)
          then have "takes i s \<noteq> s" by auto
          with i show ?thesis by (intro exI [of _ "Takes i"]) simp
        qed
      qed
    qed
  qed
qed

section \<open>What a request yields\<close>

text \<open>Two stages that work at the same time, and a third that depends on them; two requests.\<close>

definition demo_stage :: "int \<Rightarrow> string \<Rightarrow> string option \<Rightarrow> stage_config" where
  "demo_stage i name g = \<lparr>sf_stage_id = i, sf_stage_name = name, sf_pipeline_attr = name, sf_shared_lock_group = Some ''gpu'',
     sf_parallel_group = g, sf_output_key = None\<rparr>"

definition demo_stages :: "stage_config list" where
  "demo_stages = [demo_stage 0 ''text'' (Some ''g''), demo_stage 1 ''image'' (Some ''g''), demo_stage 2 ''decode'' None]"

definition demo_action :: "nat action" where
  "demo_action i x ctx = Inr (Some (x + i + sum_list (map (\<lambda>(k, v). case v of None \<Rightarrow> 0 | Some y \<Rightarrow> y) ctx)))"

definition demo_schedule :: "nat flex_event list" where
  "demo_schedule = [Generates ''a'' 10 [], Generates ''b'' 20 [], Takes 1, Takes 0, Runs 1, Runs 0, Ends 1, Runs 0, Takes 1, Ends 0,
     Runs 1, Ends 1, Routes, Routes, Receives 0, Receives 0, Asked 0, Takes 2, Runs 2, Ends 2, Routes, Routes, Receives 1, Receives 0, Asked 0]"

text \<open>However the workers, the output handler and the consumers of several requests interleave, a request
  whose id is used once yields what it would yield alone, if the stage ids are distinct: its yields are
  always a beginning of those of the run that takes the groups one after another, each stage applied to
  the inputs and the context left by the groups before, and when it has ended they are all of them.\<close>

theorem interleavings_agree:
  assumes "distinct (map sf_stage_id sts)" and "distinct (map fst (requests evs))"
    and "s = foldl (flex_step act) (new_flexible sts) evs"
  shows "length (fx_calls s) = length (requests evs) \<and>
    (\<forall>n < length (fx_calls s).
       (\<exists>ys. gn_yields (fx_calls s ! n) @ ys = whole act sts (requests evs ! n)) \<and>
       (gn_phase (fx_calls s ! n) = Ended \<longrightarrow> gn_yields (fx_calls s ! n) = whole act sts (requests evs ! n)))"
proof -
  have ok: "flex_ok act (requests evs) s" using flex_ok_run [OF flex_ok_new [OF assms(1)], of evs act] assms(2,3) by simp
  have st: "fx_stages s = sts" unfolding assms(3) by (simp add: new_flexible_def)
  have "(\<exists>ys. gn_yields (fx_calls s ! n) @ ys = whole act sts (requests evs ! n)) \<and>
      (gn_phase (fx_calls s ! n) = Ended \<longrightarrow> gn_yields (fx_calls s ! n) = whole act sts (requests evs ! n))"
    if "n < length (fx_calls s)" for n
    using flex_okD(3) [OF ok that] unfolding call_at_def call_ok_def st by (auto split: phase.splits)
  with ok show ?thesis by (simp add: flex_ok_def)
qed

lemma interleavings_agree_witness:
  "gn_yields (fx_calls (foldl (flex_step demo_action) (new_flexible demo_stages) demo_schedule) ! 0) =
     [Progress 0 ''text'', Progress 1 ''image'', Progress 2 ''decode'',
      Finished (Some 33) [(''text'', Some 10), (''image'', Some 11), (''decode'', Some 33)]]"
proof -
  have d: "distinct (map sf_stage_id demo_stages)" "distinct (map fst (requests demo_schedule))" by code_simp+
  have "0 < length (fx_calls (foldl (flex_step demo_action) (new_flexible demo_stages) demo_schedule))" by code_simp
  then have "gn_phase (fx_calls (foldl (flex_step demo_action) (new_flexible demo_stages) demo_schedule) ! 0) = Ended \<longrightarrow>
      gn_yields (fx_calls (foldl (flex_step demo_action) (new_flexible demo_stages) demo_schedule) ! 0) =
      whole demo_action demo_stages (requests demo_schedule ! 0)"
    using interleavings_agree [OF d refl, of demo_action] by blast
  moreover have "gn_phase (fx_calls (foldl (flex_step demo_action) (new_flexible demo_stages) demo_schedule) ! 0) = Ended" by code_simp
  moreover have "whole demo_action demo_stages (requests demo_schedule ! 0) = [Progress 0 ''text'', Progress 1 ''image'', Progress 2 ''decode'',
      Finished (Some 33) [(''text'', Some 10), (''image'', Some 11), (''decode'', Some 33)]]" by code_simp
  ultimately show ?thesis by simp
qed

text \<open>A run of internal steps each of which does something.\<close>

fun busy_run :: "'v action \<Rightarrow> 'v flexible \<Rightarrow> 'v flex_event list \<Rightarrow> bool" where
  "busy_run act s [] \<longleftrightarrow> True"
| "busy_run act s (ev # evs) \<longleftrightarrow> is_internal ev \<and> flex_step act s ev \<noteq> s \<and> busy_run act (flex_step act s ev) evs"

lemma internal_requests: "is_internal ev \<Longrightarrow> request_of ev = []"
  by (cases ev) simp_all

lemma busy_run_load:
  assumes "flex_ok act rqs s" and "busy_run act s evs"
  shows "flex_ok act rqs (foldl (flex_step act) s evs) \<and> length evs + load (foldl (flex_step act) s evs) \<le> load s"
  using assms
proof (induction evs arbitrary: s)
  case (Cons ev evs)
  then have e: "is_internal ev" "flex_step act s ev \<noteq> s" "busy_run act (flex_step act s ev) evs" by simp_all
  have "flex_ok act rqs (flex_step act s ev)"
    using flex_step_ok [OF Cons.prems(1), of ev] internal_requests [OF e(1)] by simp
  from Cons.IH [OF this e(3)] load_step [OF Cons.prems(1) e(1,2)] show ?case by simp
qed simp

text \<open>No request waits for ever. From every reachable state the workers, the output handler and the
  waiting generations make at most \<open>load s\<close> steps that do something, in whatever order they are scheduled,
  and where none of them can do anything more, no generation awaits a result: each has ended, was closed,
  or is due to be asked for its next group.\<close>

theorem waiting_comes_to_an_end:
  assumes "distinct (map sf_stage_id sts)" and "distinct (map fst (requests evs))"
    and "s = foldl (flex_step act) (new_flexible sts) evs" and "busy_run act s evs'" and "s' = foldl (flex_step act) s evs'"
  shows "length evs' \<le> load s \<and>
    ((\<forall>ev. is_internal ev \<longrightarrow> flex_step act s' ev = s') \<longrightarrow>
     (\<forall>n < length (fx_calls s'). (\<exists>k. gn_phase (fx_calls s' ! n) = Due k) \<or> gn_phase (fx_calls s' ! n) \<in> {Ended, Closed}))"
proof -
  have ok: "flex_ok act (requests evs) s" using flex_ok_run [OF flex_ok_new [OF assms(1)], of evs act] assms(2,3) by simp
  note b = busy_run_load [OF ok assms(4)]
  have ok': "flex_ok act (requests evs) s'" using b unfolding assms(5) by blast
  have "(\<exists>k. gn_phase (fx_calls s' ! n) = Due k) \<or> gn_phase (fx_calls s' ! n) \<in> {Ended, Closed}"
    if "\<forall>ev. is_internal ev \<longrightarrow> flex_step act s' ev = s'" "n < length (fx_calls s')" for n
    using busy_while_awaiting [OF ok' that(2)] that(1) by (cases "gn_phase (fx_calls s' ! n)") auto
  with b show ?thesis by auto
qed

lemma waiting_comes_to_an_end_witness:
  "length [Takes 1, Takes 0, Runs 0, Ends 0, Routes, Receives 0 :: nat flex_event] \<le>
     load (foldl (flex_step demo_action) (new_flexible demo_stages) [Generates ''a'' 10 []])"
proof -
  have "distinct (map sf_stage_id demo_stages)" "distinct (map fst (requests [Generates ''a'' (10 :: nat) []]))"
    "busy_run demo_action (foldl (flex_step demo_action) (new_flexible demo_stages) [Generates ''a'' 10 []])
       [Takes 1, Takes 0, Runs 0, Ends 0, Routes, Receives 0]"
    by code_simp+
  from waiting_comes_to_an_end [OF this(1,2) refl this(3) refl] show ?thesis by blast
qed

text \<open>An exception without a text is taken for success, with the output \<open>None\<close>.\<close>

definition silent_failure :: "nat action" where
  "silent_failure i x ctx = (if i = 2 then Inl [] else demo_action i x ctx)"

lemma silent_failure_passes:
  "whole silent_failure demo_stages (''a'', 10, []) = [Progress 0 ''text'', Progress 1 ''image'', Progress 2 ''decode'',
     Finished None [(''text'', Some 10), (''image'', Some 11), (''decode'', None)]]"
  by code_simp

text \<open>A request id that is used again after its generation was closed: the result of the old request is
  taken for that of the new one, whose stage has not even begun.\<close>

lemma reused_request_takes_old_result:
  "map gn_yields (fx_calls (foldl (flex_step demo_action) (new_flexible [demo_stage 0 ''only'' None])
     [Generates ''a'' 10 [], Takes 0, Closes 0, Generates ''a'' 20 [], Runs 0, Ends 0, Routes, Receives 1, Asked 1])) =
   [[], [Progress 0 ''only'', Finished (Some 10) [(''only'', Some 10)]]]"
  by code_simp

end
