(* ===== verification/Spec2Isabelle.thy ===== *)
theory Spec2Isabelle
  imports Task_Manager Chunk_State Live_Scheduler Turbo_Router Turbo_Cluster Stream_Order Stream_Report Pipeline_Pool
    Contract_Templates Stage_Actor Session_Memory Artifact_Store Live_Runtime VLA_Answers VLA_Connection Task_Processor
    Request_Orchestrator
begin

text \<open>
  The control logic of TeleFuser, a framework that serves generation pipelines. All paths below are
  under \<open>src/telefuser/\<close>. This theory only brings the others together; the properties stand in the
  theories of their components.

  \<^bold>\<open>The program and its parts\<close>

  The \<^emph>\<open>generation service\<close> (\<open>service/core\<close>) accepts tasks over
  HTTP. A task enters the queue of the task manager, a worker of the task processor claims it, the
  media or structured service executes it through the pipeline runner or through a replica of the
  pipeline pool, and the worker reports its end. What a pipeline accepts is its contract; what it
  wrote is found and later removed by the artifact store.

  \<^item> \<open>Task_Manager\<close>: \<open>task_manager.py\<close>, the table of tasks, their
  status, the processing slots.
  \<^item> \<open>Task_Processor\<close>: \<open>task_processor.py\<close> and the results of
  \<open>task_service.py\<close>, the workers over that table; a worker holds a task object, which
  may have left the table.
  \<^item> \<open>Pipeline_Runner\<close>: \<open>pipeline_runner.py\<close>, the arguments of the
  entry point and the run lock.
  \<^item> \<open>Pipeline_Pool\<close>: \<open>pipeline_pool.py\<close>, the replicas, their use by
  tasks, session leases and eviction.
  \<^item> \<open>Replica_Link\<close>: \<open>replica_worker.py\<close>, both ends of the pipe to a
  replica process.
  \<^item> \<open>Pipeline_Contract\<close>, \<open>Contract_Templates\<close>:
  \<open>pipeline_contract.py\<close> and \<open>contract_templates.py\<close>, reading contracts
  from manifests and writing them back.
  \<^item> \<open>Artifact_Store\<close>: \<open>artifact_store.py\<close>, path resolution,
  identifiers, cleanup.

  The \<^emph>\<open>orchestrators\<close> (\<open>orchestrator\<close>) run single requests through
  groups of stages, and a graph of stages over the sequences of sessions.

  \<^item> \<open>Request_Orchestrator\<close>: \<open>pipeline_orchestrator.py\<close> and
  \<open>stage_wrapper.py\<close>, groups of stages, the workers of the stages with their locks, the
  routing of results.

  \<^item> \<open>Stream_Spec\<close>: the declaration and its validation.
  \<^item> \<open>Stream_Run\<close>: sessions, bounded artifact slots, admission, completions,
  emission, cleanup; \<open>Stream_Safety\<close>, \<open>Stream_Bounds\<close> and
  \<open>Stream_Order\<close> are its properties.
  \<^item> \<open>Stream_Report\<close>: statistics and latencies.
  \<^item> \<open>Stage_Actor\<close>: the actor behind a stage, with its mailbox, futures and
  thread.

  The last three items are all of \<open>streaming_pipeline_orchestrator.py\<close> and
  \<open>parallel_worker_stage_actor.py\<close>.

  \<^emph>\<open>LiveKit serving\<close> (\<open>service/livekit\<close>) puts sessions of video
  rooms on workers.

  \<^item> \<open>Session_Registry\<close>: \<open>session_registry.py\<close>.
  \<^item> \<open>Live_Scheduler\<close>: \<open>scheduler.py\<close>, admission and the queue.
  \<^item> \<open>Room_Pool\<close>: \<open>worker_pool.py\<close> and
  \<open>multi_session_worker.py\<close>.
  \<^item> \<open>Live_Runtime\<close>: \<open>runtime.py\<close>, which composes the three.
  \<^item> \<open>Turbo_Cluster\<close>: \<open>turboserve.py\<close>, worker budget, placement and
  rebalancing.
  \<^item> \<open>Turbo_Router\<close>: the ownership table of \<open>turboserve.py\<close> and
  \<open>pipeline_router.py\<close>, migration in two phases.
  \<^item> \<open>Session_Memory\<close>: \<open>cache/session_memory.py\<close>, how many sessions
  a device keeps, and their slots.

  \<^emph>\<open>Robot policies\<close> (\<open>vla\<close>, \<open>service/vla_session.py\<close>)
  answer observations with chunks of actions over a WebSocket.

  \<^item> \<open>VLA_Messages\<close>: error codes and field readers.
  \<^item> \<open>VLA_Contracts\<close>: action and observation spaces and their wire form
  (\<open>vla/contracts.py\<close>, \<open>vla/serialization.py\<close>).
  \<^item> \<open>Chunk_State\<close>: \<open>vla/runtime/chunk_state.py\<close>, the lifecycle of
  inferred chunks.
  \<^item> \<open>VLA_Session\<close>, \<open>VLA_Answers\<close>: the runtime of one session over
  that machine, and what it answers.
  \<^item> \<open>VLA_Local\<close>: registry, sessions, executor and safety policies in a process,
  and the dispatcher \<open>service/vla_replica.py\<close>.
  \<^item> \<open>VLA_Connection\<close>: the receiver of a connection over the local sessions or
  over the pool.

  \<^bold>\<open>How the code is modelled\<close>

  A class is a record with one field per attribute and one definition per method, in the order and
  with the guards of the code. A method that runs under a lock, or on the event loop without an
  await, is one state transformer. A coroutine is split at its awaits: each segment is a definition,
  a suspended call is part of the state, and a run of the component is a list of events folded over
  its step function (\<open>tm_step\<close>, \<open>proc_step\<close>, \<open>runner_step\<close>, \<open>vla_step\<close>, \<open>conn_step\<close>, \<open>live_step\<close>,
  \<open>router_step\<close> and so on), so a statement about all lists of events is a statement about all
  interleavings. A raised exception is \<open>Inl\<close> of a \<open>py_error\<close>. A dictionary is an association list in
  insertion order (\<open>odict\<close>), with \<open>od_get\<close>, \<open>od_put\<close> and \<open>od_del\<close>. Integers of Python are \<open>int\<close> or \<open>nat\<close>; floats are exact
  rationals, except for elements of tensors, which may also be infinite or NaN. The clock, uuids,
  the replies of backends, actors, pipelines and processes are arguments of events and operations.

  \<^bold>\<open>What is shared\<close>

  \<open>Prelude\<close> has exceptions, dictionaries, rendering of numbers, lists that are updated by position, and the interfaces: \<open>keyed_store\<close>
  (a dictionary; the association lists provide it), \<open>fifo_queue\<close> (the pending tasks and the waiting
  sessions provide it), \<open>invariant_machine\<close> and \<open>ranked_machine\<close> (a component whose operations keep an
  invariant, or never lower a quantity; every component with a step function provides one of them).
  \<open>Stream_Safety\<close> has \<open>session_steps\<close> and \<open>session_invariant\<close>: what holds of a session of the
  orchestrator when each elementary step keeps it; the bounds, the limits and the orders are instances.

  \<^bold>\<open>What is shown\<close>

  \<^item> Tasks: the queue invariant, the lifecycle of a status, first in first out; the slots that are
  counted are the tasks in the hands of the workers; how an execution ends; one inference at a time
  and no overlap after a time-out; a replica has one holder and its replies match its calls while no
  caller is cancelled (a call that times out is the last one of its replica).
  \<^item> Contracts and artifacts: what is read is well formed and reads back; artifacts stay inside the
  output directories, and a cleanup spares what is in use.
  \<^item> Requests: whatever the interleaving, a request yields what it would yield alone, no request waits
  for ever, and stages of one lock group exclude each other.
  \<^item> Streaming: validation accepts exactly the graphs that can be ordered; buffers, stages, groups and
  sessions stay in their limits; outputs come once and in order; a pump leaves nothing admissible; a
  closed actor drains its mailbox and ends.
  \<^item> Rooms: capacities hold and no session has two places; live sessions and places correspond through
  every API call, expiry, migration and failure, and closing ends them all, but for the sessions that
  \<open>losses\<close> names: those whose record is pruned while their runner still serves, and those whose runner is
  cancelled while it leaves the room; routes follow ownership, and each control chunk goes to the owner
  of its session or into the buffer of a migration and is replayed once; placement and scale-in do what
  they promise, each move of a rebalancing lowers the bottleneck by more than the threshold; the planned
  capacity is the largest that fits, and refused where a device has no room.
  \<^item> Robot policies: slots and records of the chunk machine agree; each request has one answer, RESET is
  a barrier, a stateful policy is rewound after a discarded result, a connection that ends closes its
  sessions, a prediction lies in the action space and within the safety policy, the limit on the first
  step included.

  Lemmas such as \<open>reused_id_takes_old_result\<close>, \<open>shutdown_leaves_processing\<close>, \<open>inference_after_shutdown\<close>,
  \<open>cancel_counts_every_call\<close>, \<open>pruned_session_keeps_place\<close>, \<open>cut_session_keeps_place\<close>, \<open>late_push_reaches_old_owner\<close>,
  \<open>reused_request_takes_old_result\<close> and the theorem \<open>failing_task_leaks_replica\<close> record runs on which the code
  does less than its users may expect; they are computed on concrete inputs.

  \<^bold>\<open>Bounds and termination\<close>

  No definition uses fuel. The loops that are not structural have termination proofs: the pump of the
  orchestrator (each admission uses up headroom, \<open>pump_all\<close>), the emission of outputs (each takes a
  pending artifact, \<open>emit_ready_outputs\<close>), the topological order (\<open>kahn\<close>), the reachable outputs (\<open>reach_all\<close>) and the chain
  of starts that a released place sets off (\<open>serve\<close>). The number of sequences, sessions, tasks, replicas
  and events is not bounded.

  \<^bold>\<open>What is not modelled\<close>

  Neural networks, kernels, schedulers of diffusion steps and their pipelines (\<open>models\<close>, \<open>ops\<close>,
  \<open>pipelines\<close>, \<open>core\<close>, \<open>distributed\<close>): floating point tensors of a library outside the repository. HTTP
  routing, request schemas, WebSocket and LiveKit transport, downloads and the encoding of media:
  frameworks. Process start and joins, metrics, logging, command lines. Inside the modelled parts: the
  cache around a media task, the choice of autoscaling targets, the wire form of tensors, the waits of
  the orchestrators for idleness, their start and stop, cancellation of a connection handler by the server.
\<close>

end
